(* ===== verification/Prelude.thy ===== *)
theory Prelude
  imports
    Complex_Main
    "HOL-Library.Multiset"
    "HOL-Library.List_Lexorder"
    "HOL-Library.Char_ord"
    "HOL-Library.Product_Lexorder"
begin

text \<open>
  Shared vocabulary of the development: the part of the JavaScript language and of its
  standard library that the modelled modules use. Strings are lists of code units
  (\<open>string\<close>, so a code unit is a value below 256); the order on them is the
  lexicographic order of code units, which is what \<^verbatim>\<open>Array.prototype.sort()\<close> without
  a comparator uses. A thrown exception is the \<open>Inl\<close> of a sum. A \<^verbatim>\<open>Map\<close> is an association
  list in insertion order.
\<close>

named_theorems js_simps \<open>unfolding rules of the small JavaScript helpers\<close>

section \<open>Results\<close>

type_synonym ('e, 'a) result = "'e + 'a"

fun bind_result :: "('e, 'a) result \<Rightarrow> ('a \<Rightarrow> ('e, 'b) result) \<Rightarrow> ('e, 'b) result" where
  "bind_result (Inl e) f = Inl e"
| "bind_result (Inr x) f = f x"

definition is_ok :: "('e, 'a) result \<Rightarrow> bool" where
  "is_ok r = (case r of Inl _ \<Rightarrow> False | Inr _ \<Rightarrow> True)"

lemma is_ok_simps [simp]: "is_ok (Inr x)" "\<not> is_ok (Inl e)"
  by (simp_all add: is_ok_def)

lemma bind_result_Inr_iff:
  "bind_result r f = Inr y \<longleftrightarrow> (\<exists>x. r = Inr x \<and> f x = Inr y)"
  by (cases r) auto

lemma bind_result_cong [fundef_cong]:
  "r = r' \<Longrightarrow> (\<And>x. r' = Inr x \<Longrightarrow> f x = g x) \<Longrightarrow> bind_result r f = bind_result r' g"
  by (cases r') auto

text \<open>A loop over a list whose body may throw: it stops at the first exception.\<close>

fun map_result :: "('a \<Rightarrow> ('e, 'b) result) \<Rightarrow> 'a list \<Rightarrow> ('e, 'b list) result" where
  "map_result f [] = Inr []"
| "map_result f (x # xs) =
     bind_result (f x) (\<lambda>y. bind_result (map_result f xs) (\<lambda>ys. Inr (y # ys)))"

lemma map_result_cong [fundef_cong]:
  "xs = ys \<Longrightarrow> (\<And>x. x \<in> set ys \<Longrightarrow> f x = g x) \<Longrightarrow> map_result f xs = map_result g ys"
  by (induction xs arbitrary: ys) (auto cong: bind_result_cong)

lemma map_result_Inr_iff:
  "map_result f xs = Inr ys \<longleftrightarrow> list_all2 (\<lambda>x y. f x = Inr y) xs ys"
  by (induction xs arbitrary: ys) (auto simp: bind_result_Inr_iff list_all2_Cons1)

lemma concat_map_Nil_iff: "concat (map f xs) = [] \<longleftrightarrow> (\<forall>x \<in> set xs. f x = [])"
  by (induction xs) auto

lemma list_all2_witness: "list_all2 R xs ys \<Longrightarrow> y \<in> set ys \<Longrightarrow> \<exists>x \<in> set xs. R x y"
  by (induction rule: list_all2_induct) auto

lemma list_all2_same_image:
  "list_all2 R xs ys \<Longrightarrow> (\<And>x y. R x y \<Longrightarrow> g y = f x) \<Longrightarrow> map g ys = map f xs"
  by (induction rule: list_all2_induct) auto

lemma map_result_map: "map_result f (map g xs) = map_result (\<lambda>x. f (g x)) xs"
  by (induction xs) auto

fun fold_result :: "('a \<Rightarrow> 's \<Rightarrow> ('e, 's) result) \<Rightarrow> 'a list \<Rightarrow> 's \<Rightarrow> ('e, 's) result" where
  "fold_result f [] s = Inr s"
| "fold_result f (x # xs) s = bind_result (f x s) (fold_result f xs)"

lemma fold_result_append:
  "fold_result f (xs @ ys) s = bind_result (fold_result f xs s) (fold_result f ys)"
  by (induction xs arbitrary: s) (auto split: sum.splits, metis bind_result.simps sum.exhaust)

lemma fold_result_invariant:
  assumes "fold_result f xs s = Inr t" "P s"
    and "\<And>x u v. x \<in> set xs \<Longrightarrow> P u \<Longrightarrow> f x u = Inr v \<Longrightarrow> P v"
  shows "P t"
  using assms
proof (induction xs arbitrary: s)
  case Nil
  then show ?case by simp
next
  case (Cons x xs)
  from Cons.prems(1) obtain v where v: "f x s = Inr v" "fold_result f xs v = Inr t"
    by (auto simp: bind_result_Inr_iff)
  have "P v" by (rule Cons.prems(3) [OF _ Cons.prems(2) v(1)]) simp
  with v(2) show ?case using Cons.IH Cons.prems(3) by (metis list.set_intros(2))
qed

section \<open>Strings\<close>

text \<open>
  White space that \<^verbatim>\<open>String.prototype.trim\<close> removes, among the code units below 256:
  tab, line feed, vertical tab, form feed, carriage return, space, no-break space.
\<close>

definition is_space :: "char \<Rightarrow> bool" where
  "is_space c = ((of_char c :: nat) \<in> {9, 10, 11, 12, 13, 32, 160})"

definition js_trim :: "string \<Rightarrow> string" where
  "js_trim s = rev (dropWhile is_space (rev (dropWhile is_space s)))"

text \<open>\<^verbatim>\<open>!s.trim()\<close>: the string is empty or only white space.\<close>

definition blank :: "string \<Rightarrow> bool" where
  "blank s = (js_trim s = [])"

lemma blank_iff: "blank s \<longleftrightarrow> (\<forall>c \<in> set s. is_space c)"
proof -
  have "js_trim s = [] \<longleftrightarrow> (\<forall>c \<in> set (dropWhile is_space s). is_space c)"
    by (simp add: js_trim_def dropWhile_eq_Nil_conv)
  also have "\<dots> \<longleftrightarrow> (\<forall>c \<in> set s. is_space c)"
    by (induction s) auto
  finally show ?thesis by (simp add: blank_def)
qed

lemma blank_Nil [simp]: "blank []"
  by (simp add: blank_iff)

text \<open>\<^verbatim>\<open>/[\u0000-\u001f]/.test(s)\<close>\<close>

definition has_control :: "string \<Rightarrow> bool" where
  "has_control s = (\<exists>c \<in> set s. (of_char c :: nat) < 32)"

fun starts_with :: "string \<Rightarrow> string \<Rightarrow> bool" where
  "starts_with s [] = True"
| "starts_with [] (p # ps) = False"
| "starts_with (c # s) (p # ps) = (c = p \<and> starts_with s ps)"

lemma starts_with_iff: "starts_with s p \<longleftrightarrow> (\<exists>t. s = p @ t)"
  by (induction s p rule: starts_with.induct) auto

text \<open>Decimal digits of a non-negative integer, as \<^verbatim>\<open>String(n)\<close> writes them.\<close>

fun digits_of :: "nat \<Rightarrow> string" where
  "digits_of n = (if n < 10 then [char_of (48 + n)]
     else digits_of (n div 10) @ [char_of (48 + n mod 10)])"

declare digits_of.simps [simp del]

fun nat_of_digits :: "nat \<Rightarrow> string \<Rightarrow> nat" where
  "nat_of_digits a [] = a"
| "nat_of_digits a (c # s) = nat_of_digits (10 * a + (of_char c - 48)) s"

lemma nat_of_digits_append:
  "nat_of_digits a (s @ t) = nat_of_digits (nat_of_digits a s) t"
  by (induction s arbitrary: a) auto

lemma nat_of_digits_digits_of: "nat_of_digits 0 (digits_of n) = n"
proof (induction n rule: digits_of.induct)
  case (1 n)
  show ?case
    using 1 by (subst digits_of.simps)
      (auto simp: nat_of_digits_append of_char_of take_bit_nat_def)
qed

lemma digits_of_inject [simp]: "digits_of m = digits_of n \<longleftrightarrow> m = n"
  by (metis nat_of_digits_digits_of)

lemma digits_of_nonempty [simp]: "digits_of n \<noteq> []"
  by (subst digits_of.simps) auto

lemma digits_of_digits: "c \<in> set (digits_of n) \<Longrightarrow> 48 \<le> (of_char c :: nat) \<and> (of_char c :: nat) < 58"
proof (induction n rule: digits_of.induct)
  case (1 n)
  then show ?case
    by (subst (asm) digits_of.simps)
      (auto simp: of_char_of take_bit_nat_def split: if_splits)
qed

lemma digit_chars:
  "char_of (48 :: nat) = CHR ''0''" "char_of (49 :: nat) = CHR ''1''" "char_of (50 :: nat) = CHR ''2''"
  "char_of (51 :: nat) = CHR ''3''" "char_of (52 :: nat) = CHR ''4''" "char_of (53 :: nat) = CHR ''5''"
  "char_of (54 :: nat) = CHR ''6''" "char_of (55 :: nat) = CHR ''7''" "char_of (56 :: nat) = CHR ''8''"
  "char_of (57 :: nat) = CHR ''9''"
  by (simp_all add: char_of_def bit_0)

text \<open>\<^verbatim>\<open>xs.join(sep)\<close>\<close>

fun join :: "string \<Rightarrow> string list \<Rightarrow> string" where
  "join sep [] = []"
| "join sep [x] = x"
| "join sep (x # y # xs) = x @ sep @ join sep (y # xs)"

section \<open>Numbers\<close>

text \<open>
  A JavaScript number as far as the modules distinguish numbers: a finite value (exact; the
  rounding of double arithmetic is outside the model), the negative zero, the infinities
  and NaN. \<open>js_integer\<close> is \<^verbatim>\<open>Number.isInteger\<close> with the integer it accepts.
\<close>

datatype jsnum = Num rat | NegZero | NaN | PosInf | NegInf

definition rat_int :: "rat \<Rightarrow> int option" where
  "rat_int r = (case quotient_of r of (p, q) \<Rightarrow> if q = 1 then Some p else None)"

fun js_finite :: "jsnum \<Rightarrow> rat option" where
  "js_finite (Num r) = Some r"
| "js_finite NegZero = Some 0"
| "js_finite _ = None"

definition js_integer :: "jsnum \<Rightarrow> int option" where
  "js_integer n = (case js_finite n of None \<Rightarrow> None | Some r \<Rightarrow> rat_int r)"

lemma rat_int_of_int [simp]: "rat_int (of_int i) = Some i"
  by (simp add: rat_int_def quotient_of_int)

lemma rat_int_Some: "rat_int r = Some i \<Longrightarrow> r = of_int i"
  by (auto simp: rat_int_def split: prod.splits if_splits dest: quotient_of_div)

lemma js_integer_of_int [simp]: "js_integer (Num (of_int i)) = Some i"
  by (simp add: js_integer_def)

text \<open>\<^verbatim>\<open>xs.slice(0, n)\<close> of a list of length \<open>len\<close> takes \<open>slice_end len n\<close> elements.\<close>

definition slice_end :: "nat \<Rightarrow> jsnum \<Rightarrow> nat" where
  "slice_end len n = (case js_finite n of
     None \<Rightarrow> if n = PosInf then len else 0
   | Some r \<Rightarrow> (let t = (if r < 0 then - \<lfloor>- r\<rfloor> else \<lfloor>r\<rfloor>) in if t < 0 then nat (int len + t) else min (nat t) len))"

section \<open>Sorting with a comparator\<close>

text \<open>
  \<^verbatim>\<open>xs.sort(cmp)\<close>: the sort of ECMAScript is stable. For a comparator that is a total
  preorder the result is unique, and it is what stable insertion gives.
\<close>

fun insert_by :: "('a \<Rightarrow> 'a \<Rightarrow> int) \<Rightarrow> 'a \<Rightarrow> 'a list \<Rightarrow> 'a list" where
  "insert_by cmp x [] = [x]"
| "insert_by cmp x (y # ys) = (if cmp x y \<le> 0 then x # y # ys else y # insert_by cmp x ys)"

definition sort_by :: "('a \<Rightarrow> 'a \<Rightarrow> int) \<Rightarrow> 'a list \<Rightarrow> 'a list" where
  "sort_by cmp xs = foldr (insert_by cmp) xs []"

text \<open>\<^verbatim>\<open>a - b\<close> as a comparator: only its sign matters.\<close>

definition num_cmp :: "'n::linorder \<Rightarrow> 'n \<Rightarrow> int" where
  "num_cmp a b = (if a < b then -1 else if a = b then 0 else 1)"

text \<open>\<^verbatim>\<open>c || d\<close> of two comparator results.\<close>

definition or_else :: "int \<Rightarrow> int \<Rightarrow> int" where
  "or_else c d = (if c \<noteq> 0 then c else d)"

lemma sort_by_Nil [simp]: "sort_by cmp [] = []"
  by (simp add: sort_by_def)

lemma sort_by_Cons [simp]: "sort_by cmp (x # xs) = insert_by cmp x (sort_by cmp xs)"
  by (simp add: sort_by_def)

lemma mset_insert_by [simp]: "mset (insert_by cmp x xs) = add_mset x (mset xs)"
  by (induction xs) auto

lemma mset_sort_by [simp]: "mset (sort_by cmp xs) = mset xs"
  by (induction xs) auto

lemma set_sort_by [simp]: "set (sort_by cmp xs) = set xs"
  by (metis mset_sort_by set_mset_mset)

lemma set_insert_by [simp]: "set (insert_by cmp x xs) = insert x (set xs)"
  by (induction xs) auto

lemma length_sort_by [simp]: "length (sort_by cmp xs) = length xs"
  by (metis mset_sort_by size_mset)

lemma distinct_sort_by [simp]: "distinct (sort_by cmp xs) = distinct xs"
  by (metis mset_sort_by distinct_count_atmost_1 set_sort_by)

lemma distinct_map_sort_by [simp]: "distinct (map f (sort_by cmp xs)) = distinct (map f xs)"
  by (metis mset_map mset_sort_by mset_eq_imp_distinct_iff)

text \<open>The laws of a comparator, and what a client of \<open>sort_by\<close> gets from them.\<close>

locale comparator =
  fixes cmp :: "'a \<Rightarrow> 'a \<Rightarrow> int"
  assumes cmp_flip: "cmp a b \<le> 0 \<longleftrightarrow> 0 \<le> cmp b a"
    and cmp_trans: "cmp a b \<le> 0 \<Longrightarrow> cmp b c \<le> 0 \<Longrightarrow> cmp a c \<le> 0"
begin

lemma cmp_total: "cmp a b \<le> 0 \<or> cmp b a \<le> 0"
  using cmp_flip [of a b] cmp_flip [of b a] by linarith

lemma cmp_refl: "cmp a a \<le> 0"
  using cmp_total by blast

lemma sorted_insert_by:
  "sorted_wrt (\<lambda>a b. cmp a b \<le> 0) xs \<Longrightarrow> sorted_wrt (\<lambda>a b. cmp a b \<le> 0) (insert_by cmp x xs)"
  by (induction xs) (auto dest: cmp_trans, meson cmp_total)

lemma sorted_sort_by: "sorted_wrt (\<lambda>a b. cmp a b \<le> 0) (sort_by cmp xs)"
  by (induction xs) (auto intro: sorted_insert_by)

lemma hd_sort_by_least:
  assumes "x \<in> set xs"
  shows "cmp (hd (sort_by cmp xs)) x \<le> 0"
proof -
  from assms have "x \<in> set (sort_by cmp xs)" by simp
  then show ?thesis using sorted_sort_by [of xs] cmp_refl [of x]
    by (cases "sort_by cmp xs") auto
qed

end

locale strict_comparator = comparator +
  assumes cmp_strict: "cmp a b = 0 \<Longrightarrow> a = b"
begin

lemma cmp_antisym: "cmp a b \<le> 0 \<Longrightarrow> cmp b a \<le> 0 \<Longrightarrow> a = b"
  using cmp_flip [of a b] cmp_flip [of b a] cmp_strict by (metis nle_le)

lemma sorted_unique:
  "sorted_wrt (\<lambda>a b. cmp a b \<le> 0) xs \<Longrightarrow> sorted_wrt (\<lambda>a b. cmp a b \<le> 0) ys \<Longrightarrow>
   mset xs = mset ys \<Longrightarrow> xs = ys"
proof (induction xs arbitrary: ys)
  case Nil
  then show ?case by simp
next
  case (Cons x xs)
  then obtain y zs where ys: "ys = y # zs" by (cases ys) auto
  have "x \<in> set ys" "y \<in> set (x # xs)"
    using Cons.prems(3) ys by (metis list.set_intros(1) set_mset_mset)+
  then have "x = y" using Cons.prems(1,2) ys by (auto intro: cmp_antisym)
  with Cons ys show ?case by simp
qed

text \<open>With a strict comparator the order in which the elements came does not matter.\<close>

lemma sort_by_permutation: "mset xs = mset ys \<Longrightarrow> sort_by cmp xs = sort_by cmp ys"
  by (rule sorted_unique) (auto intro: sorted_sort_by)

end

lemma num_cmp_simps [simp]:
  "num_cmp a b \<le> 0 \<longleftrightarrow> a \<le> b" "0 \<le> num_cmp a b \<longleftrightarrow> b \<le> a" "num_cmp a b = 0 \<longleftrightarrow> a = b"
  "num_cmp a b < 0 \<longleftrightarrow> a < b" "0 < num_cmp a b \<longleftrightarrow> b < a"
  by (auto simp: num_cmp_def)

interpretation code_units: strict_comparator "num_cmp :: string \<Rightarrow> string \<Rightarrow> int"
  by unfold_locales auto

lemma comparator_num_key: "comparator (\<lambda>x y. num_cmp (f x) (f y))"
  by unfold_locales auto

lemma comparator_or_else:
  assumes "comparator c" "comparator d"
  shows "comparator (\<lambda>x y. or_else (c x y) (d x y))"
proof -
  have c: "\<And>a b. c a b \<le> 0 \<longleftrightarrow> 0 \<le> c b a" "\<And>x y z. c x y \<le> 0 \<Longrightarrow> c y z \<le> 0 \<Longrightarrow> c x z \<le> 0"
    using comparator.cmp_flip [OF assms(1)] comparator.cmp_trans [OF assms(1)] by blast+
  have d: "\<And>a b. d a b \<le> 0 \<longleftrightarrow> 0 \<le> d b a" "\<And>x y z. d x y \<le> 0 \<Longrightarrow> d y z \<le> 0 \<Longrightarrow> d x z \<le> 0"
    using comparator.cmp_flip [OF assms(2)] comparator.cmp_trans [OF assms(2)] by blast+
  have lt: "\<And>a b. c a b < 0 \<longleftrightarrow> 0 < c b a"
    using c(1) by (metis not_less)
  show ?thesis
  proof
    fix x y :: 'a
    show "or_else (c x y) (d x y) \<le> 0 \<longleftrightarrow> 0 \<le> or_else (c y x) (d y x)"
      using c(1) [of x y] c(1) [of y x] lt [of x y] lt [of y x] d(1) [of x y] by (auto simp: or_else_def)
  next
    fix x y z :: 'a
    assume xy: "or_else (c x y) (d x y) \<le> 0" and yz: "or_else (c y z) (d y z) \<le> 0"
    have le: "c x y \<le> 0" "c y z \<le> 0" using xy yz by (auto simp: or_else_def split: if_splits)
    then have xz: "c x z \<le> 0" using c(2) by blast
    show "or_else (c x z) (d x z) \<le> 0"
    proof (cases "c x z = 0")
      case True
      then have "c z x = 0" using c(1) by (metis order_refl order_antisym)
      then have "c x y = 0" "c y z = 0"
        using c le by (metis order_refl order_antisym)+
      with True xy yz d(2) show ?thesis by (auto simp: or_else_def)
    next
      case False
      with xz show ?thesis by (simp add: or_else_def)
    qed
  qed
qed

section \<open>Sets of keys and insertion-ordered maps\<close>

text \<open>\<^verbatim>\<open>new Set(xs).size === xs.length\<close> is \<open>distinct xs\<close>; \<^verbatim>\<open>[...new Set(xs)]\<close> keeps first occurrences.\<close>

fun js_unique_acc :: "'a list \<Rightarrow> 'a list \<Rightarrow> 'a list" where
  "js_unique_acc seen [] = []"
| "js_unique_acc seen (x # xs) =
     (if List.member seen x then js_unique_acc seen xs else x # js_unique_acc (x # seen) xs)"

definition js_unique :: "'a list \<Rightarrow> 'a list" where
  "js_unique xs = js_unique_acc [] xs"

lemma set_js_unique_acc: "set (js_unique_acc seen xs) = set xs - set seen"
  by (induction seen xs rule: js_unique_acc.induct) auto

lemma distinct_js_unique_acc: "distinct (js_unique_acc seen xs)"
  by (induction seen xs rule: js_unique_acc.induct) (auto simp: set_js_unique_acc)

lemma set_js_unique [simp]: "set (js_unique xs) = set xs"
  by (simp add: js_unique_def set_js_unique_acc)

lemma distinct_js_unique [simp]: "distinct (js_unique xs)"
  by (simp add: js_unique_def distinct_js_unique_acc)

type_synonym ('k, 'v) omap = "('k \<times> 'v) list"

abbreviation omap_get :: "('k, 'v) omap \<Rightarrow> 'k \<Rightarrow> 'v option" where
  "omap_get \<equiv> map_of"

fun omap_set :: "'k \<Rightarrow> 'v \<Rightarrow> ('k, 'v) omap \<Rightarrow> ('k, 'v) omap" where
  "omap_set k v [] = [(k, v)]"
| "omap_set k v ((k', v') # m) = (if k' = k then (k, v) # m else (k', v') # omap_set k v m)"

definition omap_has :: "('k, 'v) omap \<Rightarrow> 'k \<Rightarrow> bool" where
  "omap_has m k = (omap_get m k \<noteq> None)"

definition omap_wf :: "('k, 'v) omap \<Rightarrow> bool" where
  "omap_wf m = distinct (map fst m)"

text \<open>What every client of a \<^verbatim>\<open>Map\<close> relies on, as an interface with its laws.\<close>

locale js_map =
  fixes empty :: "'m" and get :: "'m \<Rightarrow> 'k \<Rightarrow> 'v option" and put :: "'k \<Rightarrow> 'v \<Rightarrow> 'm \<Rightarrow> 'm"
    and keys :: "'m \<Rightarrow> 'k list" and wf :: "'m \<Rightarrow> bool"
  assumes wf_empty: "wf empty"
    and get_empty: "get empty k = None"
    and wf_put: "wf m \<Longrightarrow> wf (put k v m)"
    and get_put: "get (put k v m) = (get m)(k \<mapsto> v)"
    and set_keys: "set (keys m) = dom (get m)"
    and distinct_keys: "wf m \<Longrightarrow> distinct (keys m)"
    and keys_put_new: "get m k = None \<Longrightarrow> keys (put k v m) = keys m @ [k]"
    and keys_put_old: "get m k \<noteq> None \<Longrightarrow> keys (put k v m) = keys m"
begin

lemma wf_puts: "wf m \<Longrightarrow> wf (fold (\<lambda>(k, v). put k v) kvs m)"
  by (induction kvs arbitrary: m) (auto intro: wf_put)

lemma dom_puts: "dom (get (fold (\<lambda>(k, v). put k v) kvs m)) = fst ` set kvs \<union> dom (get m)"
  by (induction kvs arbitrary: m) (auto simp: get_put split: if_splits)

lemma length_keys_put:
  "length (keys (put k v m)) = length (keys m) + (if get m k = None then 1 else 0)"
  by (auto simp: keys_put_new keys_put_old)

end

lemma omap_get_set: "omap_get (omap_set k v m) = (omap_get m)(k \<mapsto> v)"
  by (induction k v m rule: omap_set.induct) auto

lemma omap_get_set_apply [simp]:
  "omap_get (omap_set k v m) k' = (if k' = k then Some v else omap_get m k')"
  by (simp add: omap_get_set)

lemma omap_keys_set:
  "map fst (omap_set k v m) = (if k \<in> fst ` set m then map fst m else map fst m @ [k])"
  by (induction k v m rule: omap_set.induct) auto

lemma omap_wf_set: "omap_wf m \<Longrightarrow> omap_wf (omap_set k v m)"
  by (auto simp: omap_wf_def omap_keys_set)

lemma omap_get_None: "omap_get m k = None \<longleftrightarrow> k \<notin> fst ` set m"
  by (induction m) auto

lemma omap_set_vals: "snd ` set (omap_set k v m) \<subseteq> insert v (snd ` set m)"
  by (induction k v m rule: omap_set.induct) auto

lemma omap_set_new: "k \<notin> fst ` set m \<Longrightarrow> omap_set k v m = m @ [(k, v)]"
  by (induction k v m rule: omap_set.induct) auto

lemma omap_wf_in_set: "omap_wf m \<Longrightarrow> (k, v) \<in> set m \<Longrightarrow> omap_get m k = Some v"
  by (simp add: omap_wf_def)

interpretation omap: js_map "[]" map_of omap_set "map fst" omap_wf
proof
  show "omap_wf ([] :: ('k, 'v) omap)" by (simp add: omap_wf_def)
next
  fix m :: "('k, 'v) omap" and k :: 'k and v :: 'v
  show "map_of m k = None \<Longrightarrow> map fst (omap_set k v m) = map fst m @ [k]"
    by (simp add: omap_keys_set omap_get_None)
  show "map_of m k \<noteq> None \<Longrightarrow> map fst (omap_set k v m) = map fst m"
    by (auto simp: omap_keys_set omap_get_None)
qed (auto simp: omap_wf_set omap_get_set dom_map_of_conv_image_fst, auto simp: omap_wf_def)

end
