(* ===== verification/JsonValue.thy ===== *)
theory JsonValue
  imports Prelude
begin

text \<open>
  Values as the modules hash, freeze and compare them
  (packages/tournament-schema/src/canonical.ts and semantic-diff.ts).

  \<^item> \<open>jsval\<close> is a JavaScript value without identity: cycles, which \<^verbatim>\<open>normalise\<close> rejects with
    its \<^verbatim>\<open>seen\<close> set, do not exist in it. An object is the list of its own enumerable
    properties in enumeration order, \<open>JOther\<close> a function, symbol or bigint with its
    \<^verbatim>\<open>typeof\<close>.
  \<^item> \<open>normalise\<close> and \<open>canonical_stringify\<close> are the canonical serialisation; the text of a
    finite number (\<^verbatim>\<open>Number::toString\<close>) and SHA-256 are parameters (\<open>platform\<close>).
  \<^item> \<open>semantic_diff\<close> is the revision diff with its JSON pointers.
\<close>

datatype jsval =
    JUndef
  | JNull
  | JBool bool
  | JNum jsnum
  | JStr string
  | JArr "jsval list"
  | JObj "(string \<times> jsval) list"
  | JOther string

datatype json_error = NonFiniteNumber | UndefinedAt string | Rejects string

section \<open>Property enumeration order\<close>

text \<open>
  \<^verbatim>\<open>Object.keys\<close>, \<^verbatim>\<open>Object.entries\<close> and \<^verbatim>\<open>JSON.stringify\<close> list the keys that are array indices
  first, in numeric order, then the others in the order they were created.
\<close>

definition array_index :: "string \<Rightarrow> nat option" where
  "array_index s =
     (let n = nat_of_digits 0 s in if digits_of n = s \<and> n < 2 ^ 32 - 1 then Some n else None)"

definition own_order :: "(string \<times> 'v) list \<Rightarrow> (string \<times> 'v) list" where
  "own_order kvs =
     sort_key (\<lambda>kv. the (array_index (fst kv))) (filter (\<lambda>kv. array_index (fst kv) \<noteq> None) kvs)
     @ filter (\<lambda>kv. array_index (fst kv) = None) kvs"

lemma array_index_named: "57 < (of_char c :: nat) \<Longrightarrow> array_index (c # s) = None"
proof -
  assume c: "57 < (of_char c :: nat)"
  have "digits_of n \<noteq> c # s" for n
  proof
    assume "digits_of n = c # s"
    then have "c \<in> set (digits_of n)" by simp
    with digits_of_digits [of c n] c show False by simp
  qed
  then show ?thesis by (simp add: array_index_def Let_def)
qed

lemma mset_own_order [simp]: "mset (own_order kvs) = mset kvs"
  by (simp add: own_order_def)

lemma set_own_order [simp]: "set (own_order kvs) = set kvs"
  by (metis mset_own_order set_mset_mset)

lemma distinct_fst_own_order [simp]:
  "distinct (map fst (own_order kvs)) = distinct (map fst kvs)"
  by (metis mset_own_order mset_map mset_eq_imp_distinct_iff)

text \<open>A value that JavaScript can hold: the keys of every object are distinct.\<close>

fun wf_jsval :: "jsval \<Rightarrow> bool" where
  "wf_jsval (JArr vs) = list_all wf_jsval vs"
| "wf_jsval (JObj kvs) = (distinct (map fst kvs) \<and> list_all (\<lambda>(k, v). wf_jsval v) kvs)"
| "wf_jsval _ = True"

section \<open>Canonical form\<close>

lemma size_jsval_key [termination_simp]:
  "(k, v) \<in> set kvs \<Longrightarrow> size v < Suc (size_list (size_prod (\<lambda>_. 0) size) kvs)"
  by (induction kvs) auto

lemma size_jsval_elem [termination_simp]:
  "v \<in> set vs \<Longrightarrow> size v < Suc (size_list size vs)"
  by (induction vs) auto

definition type_name :: "jsval \<Rightarrow> string" where
  "type_name v = (case v of JUndef \<Rightarrow> ''undefined'' | JOther t \<Rightarrow> t | _ \<Rightarrow> ''object'')"

text \<open>
  \<^verbatim>\<open>normalise\<close>: the keys in code-unit order, then the object built from them by assignments
  \<^verbatim>\<open>result[key] = ...\<close>. An assignment to \<^verbatim>\<open>__proto__\<close> sets the prototype and creates no property;
  the enumeration order of the properties created is \<open>own_order\<close>.
\<close>

definition drop_proto :: "(string \<times> 'v) list \<Rightarrow> (string \<times> 'v) list" where
  "drop_proto kvs = filter (\<lambda>kv. fst kv \<noteq> ''__proto__'') kvs"

lemma drop_proto_id: "''__proto__'' \<notin> fst ` set kvs \<Longrightarrow> drop_proto kvs = kvs"
  by (force simp: drop_proto_def intro: filter_True)

fun normalise :: "jsval \<Rightarrow> (json_error, jsval) result" where
  "normalise JNull = Inr JNull"
| "normalise (JStr s) = Inr (JStr s)"
| "normalise (JBool b) = Inr (JBool b)"
| "normalise (JNum n) =
     (case n of Num r \<Rightarrow> Inr (JNum (Num r)) | NegZero \<Rightarrow> Inr (JNum (Num 0))
      | _ \<Rightarrow> Inl NonFiniteNumber)"
| "normalise (JArr vs) = bind_result (map_result normalise vs) (\<lambda>ws. Inr (JArr ws))"
| "normalise (JObj kvs) =
     bind_result
       (map_result (\<lambda>(k, v). if v = JUndef then Inl (UndefinedAt k)
          else bind_result (normalise v) (\<lambda>w. Inr (k, w))) (sort_key fst kvs))
       (\<lambda>kws. Inr (JObj (own_order (drop_proto kws))))"
| "normalise JUndef = Inl (Rejects (type_name JUndef))"
| "normalise (JOther t) = Inl (Rejects (type_name (JOther t)))"

text \<open>Values that \<^verbatim>\<open>normalise\<close> can return.\<close>

fun normal :: "jsval \<Rightarrow> bool" where
  "normal (JNum n) = (\<exists>r. n = Num r)"
| "normal (JArr vs) = list_all normal vs"
| "normal (JObj kvs) =
     (distinct (map fst kvs) \<and> ''__proto__'' \<notin> set (map fst kvs) \<and>
      list_all (\<lambda>(k, v). normal v) kvs \<and> kvs = own_order (sort_key fst kvs))"
| "normal JUndef = False"
| "normal (JOther t) = False"
| "normal _ = True"


section \<open>JSON text\<close>

text \<open>
  What the modules take from the platform: the decimal text of a number, SHA-256 (hexadecimal
  digest of a string), \<^verbatim>\<open>String.prototype.localeCompare\<close> (collation depends on the locale
  data of the host), \<^verbatim>\<open>Date.parse\<close> in milliseconds (\<open>None\<close> is NaN) and
  \<^verbatim>\<open>new Date(t).toISOString()\<close> (\<open>None\<close> is its RangeError).
\<close>

record platform =
  number_text :: "rat \<Rightarrow> string"
  sha256 :: "string \<Rightarrow> string"
  locale_compare :: "string \<Rightarrow> string \<Rightarrow> int"
  date_parse :: "string \<Rightarrow> int option"
  iso_string :: "int \<Rightarrow> string option"

definition hex_digit :: "nat \<Rightarrow> char" where
  "hex_digit n = (if n < 10 then char_of (48 + n) else char_of (87 + n))"

definition quote_char :: "char \<Rightarrow> string" where
  "quote_char c =
     (let n = (of_char c :: nat) in
      if n = 34 then [CHR 0x5C, CHR 0x22] else if n = 92 then [CHR 0x5C, CHR 0x5C]
      else if n = 8 then [CHR 0x5C, CHR ''b''] else if n = 9 then [CHR 0x5C, CHR ''t'']
      else if n = 10 then [CHR 0x5C, CHR ''n''] else if n = 12 then [CHR 0x5C, CHR ''f'']
      else if n = 13 then [CHR 0x5C, CHR ''r'']
      else if n < 32 then [CHR 0x5C, CHR ''u'', CHR ''0'', CHR ''0'', hex_digit (n div 16), hex_digit (n mod 16)]
      else [c])"

definition quote :: "string \<Rightarrow> string" where
  "quote s = [CHR 0x22] @ concat (map quote_char s) @ [CHR 0x22]"

text \<open>\<^verbatim>\<open>JSON.stringify\<close>; at the top level an unsupported value gives \<^verbatim>\<open>undefined\<close>.\<close>

fun json_text :: "platform \<Rightarrow> jsval \<Rightarrow> string" where
  "json_text P JNull = ''null''"
| "json_text P (JBool b) = (if b then ''true'' else ''false'')"
| "json_text P (JNum n) = (case js_finite n of None \<Rightarrow> ''null'' | Some r \<Rightarrow> number_text P r)"
| "json_text P (JStr s) = quote s"
| "json_text P (JArr vs) = ''['' @ join '','' (map (json_text P) vs) @ '']''"
| "json_text P (JObj kvs) =
     ''{'' @ join '','' (map (\<lambda>(k, v). quote k @ '':'' @ json_text P v) kvs) @ ''}''"
| "json_text P JUndef = ''undefined''"
| "json_text P (JOther t) = ''undefined''"

definition canonical_stringify :: "platform \<Rightarrow> jsval \<Rightarrow> (json_error, string) result" where
  "canonical_stringify P v = bind_result (normalise v) (\<lambda>w. Inr (json_text P w))"

definition canonical_hash :: "platform \<Rightarrow> jsval \<Rightarrow> (json_error, string) result" where
  "canonical_hash P v = bind_result (canonical_stringify P v) (\<lambda>t. Inr (sha256 P t))"

text \<open>
  The second serialisation, which several modules of the engine declare for themselves
  (\<^verbatim>\<open>canonical\<close>): keys in \<^verbatim>\<open>localeCompare\<close> order, nothing rejected. \<open>ledger_sorted\<close> is the value
  with its keys in that order.
\<close>

fun ledger_text :: "platform \<Rightarrow> jsval \<Rightarrow> string" where
  "ledger_text P (JArr vs) =
     ''['' @ join '','' (map (\<lambda>v. if v = JUndef then [] else ledger_text P v) vs) @ '']''"
| "ledger_text P (JObj kvs) =
     ''{'' @ join '','' (map (\<lambda>(k, v). quote k @ '':'' @ ledger_text P v)
        (sort_by (\<lambda>a b. locale_compare P (fst a) (fst b)) kvs)) @ ''}''"
| "ledger_text P v = json_text P v"

definition ledger_hash :: "platform \<Rightarrow> jsval \<Rightarrow> string" where
  "ledger_hash P v = sha256 P (ledger_text P v)"

fun ledger_sorted :: "platform \<Rightarrow> jsval \<Rightarrow> jsval" where
  "ledger_sorted P (JArr vs) = JArr (map (ledger_sorted P) vs)"
| "ledger_sorted P (JObj kvs) =
     JObj (map (\<lambda>(k, v). (k, ledger_sorted P v))
        (sort_by (\<lambda>a b. locale_compare P (fst a) (fst b)) kvs))"
| "ledger_sorted P v = v"

text \<open>Values that JSON can express: finite numbers, no undefined.\<close>

fun plain :: "jsval \<Rightarrow> bool" where
  "plain (JNum n) = (\<exists>r. n = Num r)"
| "plain (JArr vs) = list_all plain vs"
| "plain (JObj kvs) = list_all (\<lambda>(k, v). plain v) kvs"
| "plain JUndef = False"
| "plain (JOther t) = False"
| "plain _ = True"

lemma normal_plain: "normal v \<Longrightarrow> plain v"
  by (induction v rule: normal.induct) (auto simp: list_all_iff)

lemma ledger_text_sorted: "plain v \<Longrightarrow> ledger_text P v = json_text P (ledger_sorted P v)"
proof (induction P v rule: ledger_text.induct)
  case (1 P vs)
  then have "map (\<lambda>v. if v = JUndef then [] else ledger_text P v) vs =
      map (json_text P) (map (ledger_sorted P) vs)"
    by (auto simp: list_all_iff)
  then show ?case by (simp only: ledger_text.simps ledger_sorted.simps json_text.simps)
next
  case (2 P kvs)
  have "map (\<lambda>(k, v). quote k @ '':'' @ ledger_text P v) xs =
        map (\<lambda>(k, v). quote k @ '':'' @ json_text P v) (map (\<lambda>(k, v). (k, ledger_sorted P v)) xs)"
    if "set xs \<subseteq> set kvs" for xs
    using that 2 by (fastforce simp: list_all_iff)
  then show ?case
    by (simp only: ledger_text.simps ledger_sorted.simps json_text.simps set_sort_by order_refl)
qed auto

text \<open>
  \<^verbatim>\<open>assertJson\<close>, which the event store and the delivery worker declare in the same words: whether
  it returns without throwing.
\<close>

fun assert_json :: "jsval \<Rightarrow> bool" where
  "assert_json JNull = True"
| "assert_json (JStr s) = True"
| "assert_json (JBool b) = True"
| "assert_json (JNum n) = (js_finite n \<noteq> None)"
| "assert_json (JArr vs) = list_all assert_json vs"
| "assert_json (JObj kvs) = list_all (\<lambda>(k, v). assert_json v) kvs"
| "assert_json _ = False"

section \<open>The text determines the value\<close>

text \<open>
  \<^verbatim>\<open>Number::toString\<close> for finite numbers: different numbers have different texts, which consist
  of digits, signs, a point and an exponent mark.
\<close>

definition numeric_char :: "char \<Rightarrow> bool" where
  "numeric_char c = (c \<in> set ''0123456789+-.e'')"

definition number_text_ok :: "platform \<Rightarrow> bool" where
  "number_text_ok P \<longleftrightarrow> inj (number_text P) \<and>
     (\<forall>r. number_text P r \<noteq> [] \<and> (\<forall>c \<in> set (number_text P r). numeric_char c))"

lemma hex_digit_inject: "m < 16 \<Longrightarrow> n < 16 \<Longrightarrow> hex_digit m = hex_digit n \<longleftrightarrow> m = n"
  by (auto simp: hex_digit_def dest!: arg_cong [where f = "of_char :: char \<Rightarrow> nat"]
      simp: of_char_of take_bit_nat_def)


text \<open>A reader of one escaped code unit, the inverse of \<open>quote_char\<close>.\<close>

definition hex_value :: "char \<Rightarrow> nat" where
  "hex_value c = (let n = of_char c in if n < 58 then n - 48 else n - 87)"

lemma hex_value_digit: "n < 16 \<Longrightarrow> hex_value (hex_digit n) = n"
  by (auto simp: hex_value_def hex_digit_def Let_def of_char_of take_bit_nat_def)

fun unquote_char :: "string \<Rightarrow> (char \<times> string) option" where
  "unquote_char [] = None"
| "unquote_char (c # s) =
     (if of_char c = (92 :: nat) then
        (case s of [] \<Rightarrow> None
         | d # r \<Rightarrow>
            if d = CHR ''b'' then Some (CHR 0x08, r)
            else if d = CHR ''t'' then Some (CHR 0x09, r)
            else if d = CHR ''n'' then Some (CHR 0x0A, r)
            else if d = CHR ''f'' then Some (CHR 0x0C, r)
            else if d = CHR ''r'' then Some (CHR 0x0D, r)
            else if d = CHR ''u'' then
              (case r of a # b # x # y # r' \<Rightarrow> Some (char_of (hex_value x * 16 + hex_value y), r')
               | _ \<Rightarrow> None)
            else Some (d, r))
      else Some (c, s))"

lemma of_char_literals:
  "of_char c = (34 :: nat) \<longleftrightarrow> c = CHR 0x22" "of_char c = (92 :: nat) \<longleftrightarrow> c = CHR 0x5C"
  "of_char c = (8 :: nat) \<longleftrightarrow> c = CHR 0x08" "of_char c = (9 :: nat) \<longleftrightarrow> c = CHR 0x09"
  "of_char c = (10 :: nat) \<longleftrightarrow> c = CHR 0x0A" "of_char c = (12 :: nat) \<longleftrightarrow> c = CHR 0x0C"
  "of_char c = (13 :: nat) \<longleftrightarrow> c = CHR 0x0D"
proof -
  have lit: "of_char c = (of_char d :: nat) \<longleftrightarrow> c = d" for d by (rule of_char_eq_iff)
  show "of_char c = (34 :: nat) \<longleftrightarrow> c = CHR 0x22" "of_char c = (92 :: nat) \<longleftrightarrow> c = CHR 0x5C"
    "of_char c = (8 :: nat) \<longleftrightarrow> c = CHR 0x08" "of_char c = (9 :: nat) \<longleftrightarrow> c = CHR 0x09"
    "of_char c = (10 :: nat) \<longleftrightarrow> c = CHR 0x0A" "of_char c = (12 :: nat) \<longleftrightarrow> c = CHR 0x0C"
    "of_char c = (13 :: nat) \<longleftrightarrow> c = CHR 0x0D"
    using lit [of "CHR 0x22"] lit [of "CHR 0x5C"] lit [of "CHR 0x08"] lit [of "CHR 0x09"]
      lit [of "CHR 0x0A"] lit [of "CHR 0x0C"] lit [of "CHR 0x0D"] by simp_all
qed

lemma unquote_escapes:
  "unquote_char (quote_char c @ s) = Some (c, s)"
  if "c \<in> {CHR 0x22, CHR 0x5C, CHR 0x08, CHR 0x09, CHR 0x0A, CHR 0x0C, CHR 0x0D}"
  using that by (elim insertE emptyE) (simp_all add: quote_char_def Let_def)

lemma unquote_quote_char: "unquote_char (quote_char c @ s) = Some (c, s)"
proof -
  let ?n = "of_char c :: nat"
  consider "?n \<in> {34, 92, 8, 9, 10, 12, 13}" | "?n < 32" "?n \<notin> {34, 92, 8, 9, 10, 12, 13}"
    | "32 \<le> ?n" "?n \<noteq> 34" "?n \<noteq> 92" by force
  then show ?thesis
  proof cases
    case 1
    then show ?thesis by (intro unquote_escapes) (simp add: of_char_literals)
  next
    case 2
    have n: "?n div 16 < 16" "?n mod 16 < 16" using 2(1) by (auto simp: less_mult_imp_div_less)
    have "quote_char c = [CHR 0x5C, CHR ''u'', CHR ''0'', CHR ''0'', hex_digit (?n div 16), hex_digit (?n mod 16)]"
      using 2 by (simp add: quote_char_def Let_def del: of_char_mod_256)
    then show ?thesis using n by (simp add: hex_value_digit)
  next
    case 3
    then show ?thesis by (simp add: quote_char_def Let_def)
  qed
qed

lemma quote_char_prefix_free:
  "quote_char c @ s = quote_char d @ t \<Longrightarrow> c = d \<and> s = t"
  by (metis unquote_quote_char option.inject prod.inject)

lemma quote_char_not_quote: "quote_char c @ s \<noteq> CHR 0x22 # t"
proof
  assume eq: "quote_char c @ s = CHR 0x22 # t"
  then have "unquote_char (quote_char c @ s) = Some (CHR 0x22, t)" by simp
  then have "c = CHR 0x22" by (simp add: unquote_quote_char)
  with eq show False by (simp add: quote_char_def Let_def)
qed

lemma quoted_prefix_free:
  "concat (map quote_char k) @ CHR 0x22 # s = concat (map quote_char l) @ CHR 0x22 # t \<Longrightarrow> k = l \<and> s = t"
proof (induction k arbitrary: l)
  case Nil
  show ?case
  proof (cases l)
    case (Cons d l')
    then have "quote_char d @ (concat (map quote_char l') @ CHR 0x22 # t) = CHR 0x22 # s"
      using Nil.prems by simp
    then show ?thesis by (simp add: quote_char_not_quote)
  qed (use Nil.prems in simp)
next
  case (Cons c k)
  then show ?case
  proof (cases l)
    case Nil
    with Cons.prems have "quote_char c @ (concat (map quote_char k) @ CHR 0x22 # s) = CHR 0x22 # t"
      by simp
    then show ?thesis by (simp add: quote_char_not_quote)
  next
    case (Cons d l')
    with Cons.prems have "quote_char c @ (concat (map quote_char k) @ CHR 0x22 # s) =
        quote_char d @ (concat (map quote_char l') @ CHR 0x22 # t)"
      by simp
    from quote_char_prefix_free [OF this] Cons.IH [of l'] Cons show ?thesis by simp
  qed
qed

lemma quote_prefix_free: "quote k @ s = quote l @ t \<Longrightarrow> k = l \<and> s = t"
  by (auto simp: quote_def dest: quoted_prefix_free)

text \<open>
  A text is self-delimiting when it is followed by nothing, a comma or a closing bracket. An
  element list, closed by a bracket, is decoded element by element.
\<close>

definition stops :: "string \<Rightarrow> bool" where
  "stops s = (s = [] \<or> hd s \<in> set '',]}'')"

fun elems_text :: "char \<Rightarrow> string list \<Rightarrow> string" where
  "elems_text z [] = [z]"
| "elems_text z [x] = x @ [z]"
| "elems_text z (x # y # xs) = x @ CHR '','' # elems_text z (y # xs)"

lemma join_elems: "join '','' xs @ z # s = elems_text z xs @ s"
  by (induction z xs rule: elems_text.induct) auto

definition decodes :: "('a \<Rightarrow> string) \<Rightarrow> 'a \<Rightarrow> 'a \<Rightarrow> bool" where
  "decodes f v w = (\<forall>s t. stops s \<longrightarrow> stops t \<longrightarrow> f v @ s = f w @ t \<longrightarrow> v = w \<and> s = t)"

lemma elems_text_decodes:
  assumes "\<And>v w. v \<in> set vs \<Longrightarrow> w \<in> set ws \<Longrightarrow> decodes f v w"
    and "\<And>v. v \<in> set vs \<union> set ws \<Longrightarrow> f v \<noteq> [] \<and> \<not> stops (f v)"
    and "z \<in> {CHR '']'', CHR ''}''}"
    and "elems_text z (map f vs) @ s = elems_text z (map f ws) @ t"
  shows "vs = ws \<and> s = t"
  using assms
proof (induction vs arbitrary: ws)
  case Nil
  then show ?case
  proof (cases ws)
    case (Cons w ws')
    then have "f w \<noteq> [] \<and> \<not> stops (f w)" using Nil.prems(2) by simp
    moreover have "z # s = f w @ tl (elems_text z (map f ws) @ t) \<or> hd (f w) = z"
      using Nil.prems(4) Cons calculation by (cases ws'; cases "f w") auto
    ultimately have False using Nil.prems(3,4) Cons by (cases ws'; cases "f w") (auto simp: stops_def)
    then show ?thesis ..
  qed simp
next
  case (Cons v vs)
  have fv: "f v \<noteq> []" "\<not> stops (f v)" using Cons.prems(2) by auto
  show ?case
  proof (cases ws)
    case Nil
    then have False using Cons.prems(3,4) fv by (cases vs; cases "f v") (auto simp: stops_def)
    then show ?thesis ..
  next
    case (Cons w ws')
    note ws = this
    let ?r = "\<lambda>us x. (if us = [] then z # x else CHR '','' # elems_text z (map f us) @ x)"
    have split: "elems_text z (map f (u # us)) @ x = f u @ ?r us x" for u us x
      by (cases us) auto
    have st: "stops (?r us x)" for us x
      using Cons.prems(3) by (auto simp: stops_def)
    have "f v @ ?r vs s = f w @ ?r ws' t"
      using Cons.prems(4) unfolding ws split by simp
    moreover have "decodes f v w" using Cons.prems(1) ws by simp
    ultimately have vw: "v = w" "?r vs s = ?r ws' t"
      using st unfolding decodes_def by blast+
    show ?thesis
    proof (cases "vs = [] \<or> ws' = []")
      case True
      with vw(2) Cons.prems(3) show ?thesis using ws vw(1) by (auto split: if_splits)
    next
      case False
      with vw(2) have "elems_text z (map f vs) @ s = elems_text z (map f ws') @ t" by simp
      then have "vs = ws' \<and> s = t"
        using Cons.IH [of ws'] Cons.prems(1,2,3) ws by auto
      with ws vw(1) show ?thesis by simp
    qed
  qed
qed


lemma number_textD:
  assumes "number_text_ok P"
  obtains c cs where "number_text P r = c # cs" "numeric_char c"
  using assms by (cases "number_text P r") (auto simp: number_text_ok_def, metis list.set_intros(1))

lemma numeric_char_not: "numeric_char c \<Longrightarrow>
    c \<notin> {CHR ''n'', CHR ''t'', CHR ''f'', CHR 0x22, CHR ''['', CHR ''{'', CHR '','', CHR '']'', CHR ''}''}"
  by (auto simp: numeric_char_def)

lemma json_text_starts:
  assumes "number_text_ok P" "plain v"
  shows "json_text P v \<noteq> [] \<and> \<not> stops (json_text P v)"
proof (cases v)
  case (JNum n)
  with assms(2) obtain r where "v = JNum (Num r)" by auto
  moreover obtain c cs where "number_text P r = c # cs" "numeric_char c"
    using number_textD [OF assms(1)] .
  ultimately show ?thesis using numeric_char_not [of c] by (simp add: stops_def)
qed (use assms(2) in \<open>auto simp: stops_def quote_def\<close>)

lemma number_text_decodes:
  assumes "number_text_ok P" "stops s" "stops t" "number_text P r @ s = number_text P q @ t"
  shows "r = q \<and> s = t"
proof -
  have tw: "takeWhile numeric_char (number_text P x @ u) = number_text P x" if "stops u" for x u
  proof -
    have "takeWhile numeric_char u = []"
      using that numeric_char_not [of "hd u"] by (auto simp: stops_def takeWhile_eq_Nil_iff)
    moreover have "\<And>c. c \<in> set (number_text P x) \<Longrightarrow> numeric_char c"
      using assms(1) by (simp add: number_text_ok_def)
    ultimately show ?thesis by (simp add: takeWhile_append2)
  qed
  have "number_text P r = number_text P q"
    using tw [OF assms(2), of r] tw [OF assms(3), of q] assms(4) by simp
  moreover from this have "s = t" using assms(4) by (metis same_append_eq)
  moreover have "inj (number_text P)" using assms(1) by (simp add: number_text_ok_def)
  ultimately show ?thesis by (metis injD)
qed

definition entry_text :: "platform \<Rightarrow> string \<times> jsval \<Rightarrow> string" where
  "entry_text P e = quote (fst e) @ CHR '':'' # json_text P (snd e)"

lemma entry_text_decodes:
  assumes "decodes (json_text P) (snd e) (snd e')"
  shows "decodes (entry_text P) e e'"
  unfolding decodes_def
proof (intro allI impI)
  fix s t
  assume st: "stops s" "stops t" and eq: "entry_text P e @ s = entry_text P e' @ t"
  have "fst e = fst e' \<and> CHR '':'' # json_text P (snd e) @ s = CHR '':'' # json_text P (snd e') @ t"
    by (rule quote_prefix_free) (use eq in \<open>simp add: entry_text_def\<close>)
  with assms st show "e = e' \<and> s = t"
    unfolding decodes_def by (metis list.inject prod_eqI)
qed

text \<open>The first character of a text tells which constructor it came from.\<close>

definition char_tag :: "char \<Rightarrow> nat" where
  "char_tag c = (if c = CHR ''n'' then 0 else if c = CHR ''t'' then 1 else if c = CHR ''f'' then 2
     else if c = CHR 0x22 then 3 else if c = CHR ''['' then 4 else if c = CHR ''{'' then 5 else 6)"

definition value_tag :: "jsval \<Rightarrow> nat" where
  "value_tag v = (case v of JNull \<Rightarrow> 0 | JBool True \<Rightarrow> 1 | JBool False \<Rightarrow> 2 | JStr _ \<Rightarrow> 3
     | JArr _ \<Rightarrow> 4 | JObj _ \<Rightarrow> 5 | _ \<Rightarrow> 6)"

lemma char_tag_json_text:
  assumes "number_text_ok P" "plain v"
  shows "char_tag (hd (json_text P v @ s)) = value_tag v"
proof (cases v)
  case (JNum n)
  with assms(2) obtain r where n: "v = JNum (Num r)" by auto
  obtain c cs where "number_text P r = c # cs" "numeric_char c"
    using number_textD [OF assms(1)] .
  then show ?thesis using n numeric_char_not [of c] by (simp add: char_tag_def value_tag_def)
qed (use assms(2) in \<open>auto simp: char_tag_def value_tag_def quote_def split: bool.splits\<close>)

lemma same_text_same_tag:
  "number_text_ok P \<Longrightarrow> plain v \<Longrightarrow> plain w \<Longrightarrow> json_text P v @ s = json_text P w @ t \<Longrightarrow>
   value_tag v = value_tag w"
  by (metis char_tag_json_text)

lemma decodes_other_tag:
  "number_text_ok P \<Longrightarrow> plain v \<Longrightarrow> plain w \<Longrightarrow> value_tag v \<noteq> value_tag w \<Longrightarrow>
   decodes (json_text P) v w"
  unfolding decodes_def using same_text_same_tag by blast

lemma json_text_decodes_arr:
  assumes P: "number_text_ok P" and pl: "list_all plain vs" "list_all plain ws"
    and IH: "\<And>x y. x \<in> set vs \<Longrightarrow> y \<in> set ws \<Longrightarrow> decodes (json_text P) x y"
  shows "decodes (json_text P) (JArr vs) (JArr ws)"
proof -
  have "json_text P x \<noteq> [] \<and> \<not> stops (json_text P x)" if "x \<in> set vs \<union> set ws" for x
    using that json_text_starts [OF P] pl by (auto simp: list_all_iff)
  from elems_text_decodes [OF IH this] show ?thesis
    unfolding decodes_def json_text.simps append_assoc
    by (simp add: join_elems) blast
qed

lemma json_text_decodes_obj:
  assumes P: "number_text_ok P"
    and IH: "\<And>x y. x \<in> set kvs \<Longrightarrow> y \<in> set lws \<Longrightarrow> decodes (json_text P) (snd x) (snd y)"
  shows "decodes (json_text P) (JObj kvs) (JObj lws)"
proof -
  have entry: "map (\<lambda>(k, v). quote k @ '':'' @ json_text P v) xs = map (entry_text P) xs" for xs
    by (auto simp: entry_text_def)
  have "entry_text P x \<noteq> [] \<and> \<not> stops (entry_text P x)" for x
    by (simp add: entry_text_def quote_def stops_def)
  from elems_text_decodes [OF entry_text_decodes [OF IH] this] show ?thesis
    unfolding decodes_def json_text.simps entry append_assoc
    by (simp add: join_elems) blast
qed

lemma json_text_decodes:
  assumes P: "number_text_ok P"
  shows "plain v \<Longrightarrow> plain w \<Longrightarrow> decodes (json_text P) v w"
proof (induction v arbitrary: w)
  case (JArr vs)
  show ?case
  proof (cases "value_tag (JArr vs) = value_tag w")
    case True
    then obtain ws where "w = JArr ws"
      by (auto simp: value_tag_def split: jsval.splits bool.splits)
    with JArr show ?thesis by (auto simp: list_all_iff intro!: json_text_decodes_arr [OF P])
  qed (rule decodes_other_tag [OF P JArr.prems])
next
  case (JObj kvs)
  show ?case
  proof (cases "value_tag (JObj kvs) = value_tag w")
    case True
    then obtain lws where w: "w = JObj lws"
      by (auto simp: value_tag_def split: jsval.splits bool.splits)
    have "decodes (json_text P) (snd x) (snd y)" if "x \<in> set kvs" "y \<in> set lws" for x y
      by (rule JObj.IH [OF that(1)]) (use that JObj.prems w in \<open>auto simp: list_all_iff snds.simps\<close>)
    then show ?thesis unfolding w by (rule json_text_decodes_obj [OF P])
  qed (rule decodes_other_tag [OF P JObj.prems])
next
  case (JNum n)
  show ?case
  proof (cases "value_tag (JNum n) = value_tag w")
    case True
    with JNum.prems obtain r q where "n = Num r" "w = JNum (Num q)"
      by (auto simp: value_tag_def split: jsval.splits bool.splits)
    then show ?thesis using number_text_decodes [OF P] by (auto simp: decodes_def)
  qed (rule decodes_other_tag [OF P JNum.prems])
next
  case (JStr k)
  show ?case
  proof (cases "value_tag (JStr k) = value_tag w")
    case True
    with JStr.prems obtain l where "w = JStr l"
      by (auto simp: value_tag_def split: jsval.splits bool.splits)
    then show ?thesis unfolding decodes_def json_text.simps by (auto dest!: quote_prefix_free)
  qed (rule decodes_other_tag [OF P JStr.prems])
next
  case JNull
  show ?case
  proof (cases "value_tag JNull = value_tag w")
    case True
    with JNull.prems have "w = JNull" by (auto simp: value_tag_def split: jsval.splits bool.splits)
    then show ?thesis by (simp add: decodes_def)
  qed (rule decodes_other_tag [OF P JNull.prems])
next
  case (JBool b)
  show ?case
  proof (cases "value_tag (JBool b) = value_tag w")
    case True
    with JBool.prems have "w = JBool b" by (auto simp: value_tag_def split: jsval.splits bool.splits)
    then show ?thesis by (simp add: decodes_def)
  qed (rule decodes_other_tag [OF P JBool.prems])
qed auto

lemma json_text_inject:
  assumes "number_text_ok P" "plain v" "plain w" "json_text P v = json_text P w"
  shows "v = w"
proof -
  have "json_text P v @ [] = json_text P w @ []" using assms(4) by simp
  with json_text_decodes [OF assms(1-3)] show ?thesis unfolding decodes_def stops_def by blast
qed


section \<open>Canonicalisation is a normal form\<close>

text \<open>For distinct keys, sorting the entries is looking the sorted keys up.\<close>

lemma sort_entries:
  assumes "distinct (map fst kvs)"
  shows "sort_key fst kvs = map (\<lambda>k. (k, the (map_of kvs k))) (sort (map fst (kvs :: (string \<times> 'v) list)))"
proof -
  have "sort_key fst kvs = map (\<lambda>k. (k, the (map_of kvs k))) (map fst (sort_key fst kvs))"
    using assms by (intro nth_equalityI) (auto simp: in_set_conv_nth intro!: prod_eqI,
      metis assms map_of_is_SomeI nth_mem option.sel prod.collapse set_sort length_sort)
  also have "map fst (sort_key fst kvs) = sort (map fst kvs)"
    by (rule properties_for_sort [symmetric]) (simp_all add: mset_map)
  finally show ?thesis .
qed

lemma normalise_plain: "plain v \<Longrightarrow> \<exists>w. normalise v = Inr w"
proof (induction v)
  case (JArr vs)
  then have "\<forall>v \<in> set vs. \<exists>w. normalise v = Inr w" by (auto simp: list_all_iff)
  then obtain f where "\<And>v. v \<in> set vs \<Longrightarrow> normalise v = Inr (f v)" by metis
  then have "map_result normalise vs = Inr (map f vs)"
    by (auto simp: map_result_Inr_iff list_all2_conv_all_nth)
  then show ?case by simp
next
  case (JObj kvs)
  have "\<forall>kv \<in> set kvs. snd kv \<noteq> JUndef \<and> (\<exists>w. normalise (snd kv) = Inr w)"
    using JObj.IH JObj.prems by (fastforce simp: list_all_iff snds.simps)
  then obtain f where f: "\<And>kv. kv \<in> set kvs \<Longrightarrow> snd kv \<noteq> JUndef \<and> normalise (snd kv) = Inr (f kv)"
    by metis
  let ?h = "\<lambda>(k, v). if v = JUndef then Inl (UndefinedAt k)
          else bind_result (normalise v) (\<lambda>w. Inr (k, w))"
  have "map_result ?h (sort_key fst kvs) = Inr (map (\<lambda>kv. (fst kv, f kv)) (sort_key fst kvs))"
    using f by (auto simp: map_result_Inr_iff list_all2_map2 list.rel_refl_strong split: prod.splits
        intro!: list.rel_refl_strong)
  then show ?case by simp
qed auto

definition normal_form :: "jsval \<Rightarrow> jsval" where
  "normal_form v = (case normalise v of Inr w \<Rightarrow> w | Inl _ \<Rightarrow> JUndef)"

lemma normalise_normal_form: "plain v \<Longrightarrow> normalise v = Inr (normal_form v)"
  using normalise_plain by (fastforce simp: normal_form_def)

lemma normal_form_JArr: "plain (JArr vs) \<Longrightarrow> normal_form (JArr vs) = JArr (map normal_form vs)"
proof -
  assume "plain (JArr vs)"
  then have "map_result normalise vs = Inr (map normal_form vs)"
    by (auto simp: map_result_Inr_iff list_all2_map2 list_all_iff normalise_normal_form
        intro!: list.rel_refl_strong)
  then show ?thesis by (simp add: normal_form_def)
qed

lemma normal_form_JObj:
  assumes "plain (JObj kvs)" "''__proto__'' \<notin> fst ` set kvs"
  shows "normal_form (JObj kvs) =
    JObj (own_order (map (\<lambda>(k, v). (k, normal_form v)) (sort_key fst kvs)))"
proof -
  let ?h = "\<lambda>(k, v). if v = JUndef then Inl (UndefinedAt k)
          else bind_result (normalise v) (\<lambda>w. Inr (k, w))"
  have "\<And>kv. kv \<in> set kvs \<Longrightarrow> snd kv \<noteq> JUndef \<and> normalise (snd kv) = Inr (normal_form (snd kv))"
    using assms(1) by (fastforce simp: list_all_iff intro!: normalise_normal_form)
  then have "?h kv = Inr (case kv of (k, v) \<Rightarrow> (k, normal_form v))" if "kv \<in> set kvs" for kv
    using that by (cases kv) fastforce
  then have "map_result ?h (sort_key fst kvs) =
      Inr (map (\<lambda>(k, v). (k, normal_form v)) (sort_key fst kvs))"
    unfolding map_result_Inr_iff list_all2_map2 by (intro list.rel_refl_strong) simp
  moreover have "drop_proto (map (\<lambda>(k, v). (k, normal_form v)) (sort_key fst kvs)) =
      map (\<lambda>(k, v). (k, normal_form v)) (sort_key fst kvs)"
    using assms(2) by (intro drop_proto_id) force
  ultimately show ?thesis by (simp add: normal_form_def)
qed

lemma keys_normal_entries:
  "fst ` set (own_order (map (\<lambda>(k, v). (k, f v)) (sort_key fst kvs))) = fst ` set kvs"
  by (force simp: image_iff)

lemma map_of_normal_entries:
  assumes "distinct (map fst kvs)"
  shows "map_of (own_order (map (\<lambda>(k, v). (k, f v)) (sort_key fst kvs))) = map_option f \<circ> map_of kvs"
proof
  fix k
  let ?e = "own_order (map (\<lambda>(k, v). (k, f v)) (sort_key fst kvs))"
  have "mset (map fst ?e) = mset (map fst kvs)"
    unfolding mset_map mset_own_order by (simp add: image_mset.compositionality comp_def case_prod_unfold)
  then have d: "distinct (map fst ?e)" using assms mset_eq_imp_distinct_iff by blast
  show "map_of ?e k = (map_option f \<circ> map_of kvs) k"
  proof (cases "map_of kvs k")
    case None
    then have "k \<notin> fst ` set ?e" unfolding keys_normal_entries by (simp add: map_of_eq_None_iff)
    then have "map_of ?e k = None" unfolding map_of_eq_None_iff .
    then show ?thesis using None by simp
  next
    case (Some v)
    then have "(k, f v) \<in> set ?e" by (force dest: map_of_SomeD)
    then show ?thesis using Some d by simp
  qed
qed

text \<open>Two objects have the same normal form when they agree on their keys and on every value.\<close>

lemma normal_form_JObj_eq:
  assumes "plain (JObj kvs)" "plain (JObj lws)" "distinct (map fst kvs)" "distinct (map fst lws)"
    and "''__proto__'' \<notin> fst ` set kvs" "''__proto__'' \<notin> fst ` set lws"
  shows "normal_form (JObj kvs) = normal_form (JObj lws) \<longleftrightarrow>
    fst ` set kvs = fst ` set lws \<and>
    (\<forall>k \<in> fst ` set kvs. normal_form (the (map_of kvs k)) = normal_form (the (map_of lws k)))"
    (is "?l \<longleftrightarrow> ?keys \<and> ?vals")
proof
  assume ?l
  then have "map_option normal_form \<circ> map_of kvs = map_option normal_form \<circ> map_of lws"
    using map_of_normal_entries [OF assms(3), of normal_form] map_of_normal_entries [OF assms(4), of normal_form]
      normal_form_JObj [OF assms(1,5)] normal_form_JObj [OF assms(2,6)] by simp
  then have eq: "map_option normal_form (map_of kvs k) = map_option normal_form (map_of lws k)" for k
    by (metis comp_apply)
  have "map_of kvs k = None \<longleftrightarrow> map_of lws k = None" for k
    using eq [of k] by (metis map_option_is_None)
  then have ?keys by (auto simp: map_of_eq_None_iff)
  moreover have ?vals
  proof
    fix k assume "k \<in> fst ` set kvs"
    then have "map_of kvs k \<noteq> None" "map_of lws k \<noteq> None"
      using \<open>?keys\<close> by (simp_all add: map_of_eq_None_iff)
    then show "normal_form (the (map_of kvs k)) = normal_form (the (map_of lws k))"
      using eq [of k] by auto
  qed
  ultimately show "?keys \<and> ?vals" ..
next
  assume r: "?keys \<and> ?vals"
  then have "mset (map fst kvs) = mset (map fst lws)"
    using assms(3,4) by (metis mset_set_set list.set_map)
  then have "sort (map fst kvs) = sort (map fst lws)"
    by (metis properties_for_sort sorted_sort mset_sort)
  moreover have "map (\<lambda>k. (k, normal_form (the (map_of kvs k)))) (sort (map fst kvs)) =
      map (\<lambda>k. (k, normal_form (the (map_of lws k)))) (sort (map fst kvs))"
  proof (rule map_cong [OF refl])
    fix k assume "k \<in> set (sort (map fst kvs))"
    then have "k \<in> fst ` set kvs" by (simp only: set_sort list.set_map)
    with r show "(k, normal_form (the (map_of kvs k))) = (k, normal_form (the (map_of lws k)))" by blast
  qed
  ultimately have "map (\<lambda>(k, v). (k, normal_form v)) (sort_key fst kvs) =
      map (\<lambda>(k, v). (k, normal_form v)) (sort_key fst lws)"
    unfolding sort_entries [OF assms(3)] sort_entries [OF assms(4)] by (simp add: comp_def)
  then show ?l using normal_form_JObj [OF assms(1,5)] normal_form_JObj [OF assms(2,6)] by simp
qed


lemma sort_key_fst_cong:
  fixes kvs :: "(string \<times> 'v) list"
  assumes "distinct (map fst kvs)" "mset kvs = mset lws"
  shows "sort_key fst kvs = sort_key fst lws"
proof -
  have "mset (map fst lws) = mset (map fst kvs)" by (simp add: mset_map assms(2))
  then have d: "distinct (map fst lws)" using assms(1) mset_eq_imp_distinct_iff by blast
  have "map_of kvs = map_of lws"
    using map_of_inject_set [OF assms(1) d] mset_eq_setD [OF assms(2)] by simp
  moreover have "sort (map fst kvs) = sort (map fst lws)"
    by (rule properties_for_sort) (simp_all add: mset_map assms(2))
  ultimately show ?thesis by (simp add: sort_entries assms(1) d)
qed

lemma normalise_normal: "wf_jsval v \<Longrightarrow> normalise v = Inr w \<Longrightarrow> normal w"
proof (induction v arbitrary: w)
  case (JArr vs)
  then obtain ws where w: "w = JArr ws" and all: "list_all2 (\<lambda>x y. normalise x = Inr y) vs ws"
    by (auto simp: bind_result_Inr_iff map_result_Inr_iff)
  have "normal y" if "y \<in> set ws" for y
  proof -
    from list_all2_witness [OF all that] obtain x where "x \<in> set vs" "normalise x = Inr y" by blast
    then show ?thesis using JArr.IH JArr.prems(1) by (auto simp: list_all_iff)
  qed
  then show ?case using w by (simp add: list_all_iff)
next
  case (JObj kvs)
  from JObj.prems(2) obtain kws where w: "w = JObj (own_order (drop_proto kws))"
    and h: "list_all2 (\<lambda>x y. (\<lambda>(k, v). if v = JUndef then Inl (UndefinedAt k)
          else bind_result (normalise v) (\<lambda>w. Inr (k, w))) x = Inr y) (sort_key fst kvs) kws"
    unfolding normalise.simps bind_result_Inr_iff map_result_Inr_iff by blast
  have all: "list_all2 (\<lambda>(k, v) kw. v \<noteq> JUndef \<and> fst kw = k \<and> normalise v = Inr (snd kw))
      (sort_key fst kvs) kws"
    by (rule list.rel_mono_strong [OF h]) (auto simp: bind_result_Inr_iff split: if_splits)
  have keys: "map fst kws = map fst (sort_key fst kvs)"
    by (rule list_all2_same_image [OF all]) auto
  have "mset (map fst (sort_key fst kvs)) = mset (map fst kvs)" by (simp add: mset_map)
  then have d: "distinct (map fst kws)"
    using JObj.prems(1) mset_eq_imp_distinct_iff unfolding keys by fastforce
  have sorted: "sort_key fst kws = kws"
    by (rule sort_key_id_if_sorted) (metis keys sorted_sort_key)
  have "normal (snd kw)" if kw: "kw \<in> set kws" for kw
  proof -
    from list_all2_witness [OF all kw]
    obtain kv where kv: "kv \<in> set kvs" "normalise (snd kv) = Inr (snd kw)" by auto
    have "wf_jsval (snd kv)" using JObj.prems(1) kv(1) by (auto simp: list_all_iff)
    then show ?thesis using JObj.IH [OF kv(1)] kv by (cases kv) (auto simp: snds.simps)
  qed
  moreover have "sort_key fst (own_order (drop_proto kws)) = drop_proto kws"
    using sort_key_fst_cong [of "drop_proto kws" "own_order (drop_proto kws)"] d sorted
    by (simp add: drop_proto_def distinct_map_filter filter_sort [symmetric])
  ultimately show ?case using w d
    by (auto simp: list_all_iff drop_proto_def distinct_map_filter)
qed (auto split: jsnum.splits)

lemma normalise_fixed: "normal w \<Longrightarrow> normalise w = Inr w"
proof (induction w)
  case (JArr vs)
  then have "map_result normalise vs = Inr vs"
    by (auto simp: map_result_Inr_iff list_all_iff intro!: list.rel_refl_strong)
  then show ?case by simp
next
  case (JObj kvs)
  have el: "normalise (snd kv) = Inr (snd kv) \<and> snd kv \<noteq> JUndef" if "kv \<in> set kvs" for kv
    using that JObj.IH [OF that, of "snd kv"] JObj.prems
    by (cases kv) (auto simp: list_all_iff snds.simps)
  have "map_result (\<lambda>(k, v). if v = JUndef then Inl (UndefinedAt k)
          else bind_result (normalise v) (\<lambda>w. Inr (k, w))) (sort_key fst kvs) = Inr (sort_key fst kvs)"
    unfolding map_result_Inr_iff by (rule list.rel_refl_strong) (use el in fastforce)
  moreover have "drop_proto (sort_key fst kvs) = sort_key fst kvs"
    using JObj.prems by (intro drop_proto_id) simp
  ultimately show ?case using JObj.prems by simp
qed auto


section \<open>Semantic difference\<close>

datatype change = Added string jsval | Removed string jsval | Replaced string jsval jsval

text \<open>\<^verbatim>\<open>key.replaceAll("~", "~0").replaceAll("/", "~1")\<close>\<close>

definition escape_pointer :: "string \<Rightarrow> string" where
  "escape_pointer key =
     concat (map (\<lambda>c. if c = CHR ''/'' then ''~1'' else [c])
       (concat (map (\<lambda>c. if c = CHR ''~'' then ''~0'' else [c]) key)))"

text \<open>
  \<^verbatim>\<open>key in object\<close> is also true for what a plain object inherits from \<^verbatim>\<open>Object.prototype\<close>, and
  \<^verbatim>\<open>object[key]\<close> reads the inherited value.
\<close>

definition inherited_names :: "string list" where
  "inherited_names = [''constructor'', ''__defineGetter__'', ''__defineSetter__'',
     ''hasOwnProperty'', ''__lookupGetter__'', ''__lookupSetter__'', ''isPrototypeOf'',
     ''propertyIsEnumerable'', ''toString'', ''valueOf'', ''__proto__'', ''toLocaleString'']"

definition has_property :: "(string \<times> jsval) list \<Rightarrow> string \<Rightarrow> bool" where
  "has_property kvs k = (map_of kvs k \<noteq> None \<or> List.member inherited_names k)"

definition get_property :: "(string \<times> jsval) list \<Rightarrow> string \<Rightarrow> jsval" where
  "get_property kvs k = (case map_of kvs k of Some v \<Rightarrow> v
     | None \<Rightarrow> if k = ''__proto__'' then JObj [] else if List.member inherited_names k
       then JOther ''function'' else JUndef)"

lemma size_get_property: "size (get_property kvs k) \<le> Suc (size_list (size_prod (\<lambda>_. 0) size) kvs)"
proof (cases "map_of kvs k")
  case (Some v)
  then show ?thesis using size_jsval_key [OF map_of_SomeD [OF Some]] by (simp add: get_property_def)
qed (simp add: get_property_def)

lemma size_get_own_property:
  "k \<in> fst ` set kvs \<Longrightarrow> size (get_property kvs k) < Suc (size_list (size_prod (\<lambda>_. 0) size) kvs)"
  by (cases "map_of kvs k") (auto simp: map_of_eq_None_iff get_property_def dest!: map_of_SomeD size_jsval_key)

text \<open>
  \<^verbatim>\<open>walk\<close>. \<^verbatim>\<open>Object.is\<close> decides the values without structure; two structured values are walked
  even when they are the same reference, which yields no change either.
\<close>

function walk :: "jsval \<Rightarrow> jsval \<Rightarrow> string \<Rightarrow> change list" where
  "walk before after path =
    (case (before, after) of
       (JArr bs, JArr as) \<Rightarrow>
         concat (map (\<lambda>index.
           let child_path = path @ ''/'' @ digits_of index in
           if length bs \<le> index then [Added child_path (as ! index)]
           else if length as \<le> index then [Removed child_path (bs ! index)]
           else walk (bs ! index) (as ! index) child_path) [0..<max (length bs) (length as)])
     | (JObj l, JObj r) \<Rightarrow>
         concat (map (\<lambda>key.
           let child_path = path @ ''/'' @ escape_pointer key in
           if \<not> has_property l key then [Added child_path (get_property r key)]
           else if \<not> has_property r key then [Removed child_path (get_property l key)]
           else walk (get_property l key) (get_property r key) child_path)
           (sort (js_unique (map fst l @ map fst r))))
     | _ \<Rightarrow> if before = after then []
         else [Replaced (if path = [] then ''/'' else path) before after])"
  by pat_completeness auto
termination
proof (relation "measure (\<lambda>(b, a, p). size b + size a)", goal_cases)
  case (2 before after path x1 x2 bs as index child_path)
  then have "size (bs ! index) < Suc (size_list size bs)" "size (as ! index) < Suc (size_list size as)"
    by (auto intro: size_jsval_elem)
  with 2 show ?case by auto
next
  case (3 before after path x1 x2 l r key child_path)
  then have "key \<in> fst ` set l \<or> key \<in> fst ` set r" by auto
  then have "size (get_property l key) + size (get_property r key) <
      Suc (size_list (size_prod (\<lambda>_. 0) size) l) + Suc (size_list (size_prod (\<lambda>_. 0) size) r)"
    using size_get_own_property [of key l] size_get_own_property [of key r]
      size_get_property [of l key] size_get_property [of r key] by linarith
  with 3 show ?case by auto
qed simp

declare walk.simps [simp del]

definition semantic_diff :: "jsval \<Rightarrow> jsval \<Rightarrow> change list" where
  "semantic_diff before after = walk before after []"

text \<open>No key of the value is the name of a member of \<^verbatim>\<open>Object.prototype\<close>.\<close>

fun ordinary :: "jsval \<Rightarrow> bool" where
  "ordinary (JArr vs) = list_all ordinary vs"
| "ordinary (JObj kvs) = list_all (\<lambda>(k, v). k \<notin> set inherited_names \<and> ordinary v) kvs"
| "ordinary _ = True"

definition json_value :: "jsval \<Rightarrow> bool" where
  "json_value v = (wf_jsval v \<and> plain v \<and> ordinary v)"

lemma json_value_JArr: "json_value (JArr vs) \<longleftrightarrow> (\<forall>v \<in> set vs. json_value v)"
  by (auto simp: json_value_def list_all_iff)

lemma json_value_JObjD:
  assumes "json_value (JObj kvs)"
  shows "distinct (map fst kvs)" "plain (JObj kvs)"
    and "k \<in> fst ` set kvs \<Longrightarrow> k \<notin> set inherited_names \<and> map_of kvs k \<noteq> None \<and> json_value (the (map_of kvs k))"
proof -
  show "distinct (map fst kvs)" "plain (JObj kvs)" using assms by (auto simp: json_value_def)
  assume k: "k \<in> fst ` set kvs"
  then obtain v where v: "map_of kvs k = Some v" by (cases "map_of kvs k") (auto simp: map_of_eq_None_iff)
  with map_of_SomeD [OF v] assms
  show "k \<notin> set inherited_names \<and> map_of kvs k \<noteq> None \<and> json_value (the (map_of kvs k))"
    by (auto simp: json_value_def list_all_iff)
qed

lemma no_proto_ordinary: "ordinary (JObj kvs) \<Longrightarrow> ''__proto__'' \<notin> fst ` set kvs"
  by (auto simp: list_all_iff inherited_names_def)

lemma normal_form_prim:
  assumes "json_value v" "json_value w" "\<And>vs ws. \<not> (v = JArr vs \<and> w = JArr ws)"
    "\<And>kvs lws. \<not> (v = JObj kvs \<and> w = JObj lws)"
  shows "normal_form v = normal_form w \<longleftrightarrow> v = w"
  using assms
  by (cases v; cases w)
    (auto simp: json_value_def normal_form_JArr normal_form_JObj no_proto_ordinary, auto simp: normal_form_def)

lemma walk_arr_empty:
  "walk (JArr bs) (JArr as) path = [] \<longleftrightarrow> length bs = length as \<and>
     (\<forall>i < length bs. walk (bs ! i) (as ! i) (path @ ''/'' @ digits_of i) = [])"
    (is "?w = [] \<longleftrightarrow> ?r")
proof -
  let ?f = "\<lambda>i. if length bs \<le> i then [Added (path @ ''/'' @ digits_of i) (as ! i)]
     else if length as \<le> i then [Removed (path @ ''/'' @ digits_of i) (bs ! i)]
     else walk (bs ! i) (as ! i) (path @ ''/'' @ digits_of i)"
  have "?w = concat (map ?f [0..<max (length bs) (length as)])"
    by (subst walk.simps) (simp only: prod.case jsval.case Let_def)
  then have "?w = [] \<longleftrightarrow> (\<forall>i \<in> set [0..<max (length bs) (length as)]. ?f i = [])"
    by (simp only: concat_map_Nil_iff)
  then have w: "?w = [] \<longleftrightarrow> (\<forall>i < max (length bs) (length as). ?f i = [])"
    by (simp only: Ball_def set_upt atLeastLessThan_iff le0 simp_thms)
  show ?thesis
  proof (cases "length bs = length as")
    case True
    then show ?thesis unfolding w by auto
  next
    case False
    then have "min (length bs) (length as) < max (length bs) (length as)"
      "?f (min (length bs) (length as)) \<noteq> []" by (auto simp: min_def max_def)
    then show ?thesis unfolding w using False by blast
  qed
qed

lemma walk_obj_empty:
  assumes "\<And>k. k \<in> fst ` set l \<Longrightarrow> k \<notin> set inherited_names"
    and "\<And>k. k \<in> fst ` set r \<Longrightarrow> k \<notin> set inherited_names"
  shows "walk (JObj l) (JObj r) path = [] \<longleftrightarrow>
    (\<forall>k \<in> fst ` set l \<union> fst ` set r. k \<in> fst ` set l \<and> k \<in> fst ` set r \<and>
      walk (get_property l k) (get_property r k) (path @ ''/'' @ escape_pointer k) = [])"
    (is "?w = [] \<longleftrightarrow> ?r")
proof -
  let ?keys = "fst ` set l \<union> fst ` set r"
  let ?f = "\<lambda>k. if \<not> has_property l k then [Added (path @ ''/'' @ escape_pointer k) (get_property r k)]
     else if \<not> has_property r k then [Removed (path @ ''/'' @ escape_pointer k) (get_property l k)]
     else walk (get_property l k) (get_property r k) (path @ ''/'' @ escape_pointer k)"
  have "?w = concat (map ?f (sort (js_unique (map fst l @ map fst r))))"
    by (subst walk.simps) (simp only: prod.case jsval.case Let_def)
  then have "?w = [] \<longleftrightarrow> (\<forall>k \<in> ?keys. ?f k = [])"
    by (simp only: concat_map_Nil_iff set_sort set_js_unique set_append list.set_map)
  moreover have "has_property l k \<longleftrightarrow> k \<in> fst ` set l" "has_property r k \<longleftrightarrow> k \<in> fst ` set r" if "k \<in> ?keys" for k
    using that assms [of k] unfolding has_property_def map_of_eq_None_iff by auto
  then have "?f k = [] \<longleftrightarrow> k \<in> fst ` set l \<and> k \<in> fst ` set r \<and>
      walk (get_property l k) (get_property r k) (path @ ''/'' @ escape_pointer k) = []"
    if "k \<in> ?keys" for k using that by (simp split: if_split)
  ultimately show ?thesis by blast
qed

lemma walk_prim_empty:
  assumes "\<And>vs ws. \<not> (before = JArr vs \<and> after = JArr ws)"
    and "\<And>kvs lws. \<not> (before = JObj kvs \<and> after = JObj lws)"
  shows "walk before after path = [] \<longleftrightarrow> before = after"
proof -
  have "walk before after path =
      (if before = after then [] else [Replaced (if path = [] then ''/'' else path) before after])"
    using assms by (subst walk.simps) (simp only: prod.case split: jsval.split, blast)
  then show ?thesis by simp
qed

lemma walk_empty_iff:
  "json_value before \<Longrightarrow> json_value after \<Longrightarrow>
   walk before after path = [] \<longleftrightarrow> normal_form before = normal_form after"
proof (induction before after path rule: walk.induct)
  case (1 before after path)
  consider (arr) bs as where "before = JArr bs" "after = JArr as"
    | (obj) l r where "before = JObj l" "after = JObj r"
    | (other) "\<And>vs ws. \<not> (before = JArr vs \<and> after = JArr ws)"
        "\<And>kvs lws. \<not> (before = JObj kvs \<and> after = JObj lws)" by blast
  then show ?case
  proof cases
    case arr
    have pl: "plain (JArr bs)" "plain (JArr as)" using "1.prems" arr by (auto simp: json_value_def)
    have IH: "walk (bs ! i) (as ! i) (path @ ''/'' @ digits_of i) = [] \<longleftrightarrow>
        normal_form (bs ! i) = normal_form (as ! i)" if "i < length bs" "i < length as" for i
      using that "1.IH"(1) [OF _ arr, of i] "1.prems" arr by (auto simp: json_value_JArr)
    have "walk before after path = [] \<longleftrightarrow> length bs = length as \<and>
        (\<forall>i < length bs. walk (bs ! i) (as ! i) (path @ ''/'' @ digits_of i) = [])"
      unfolding arr by (rule walk_arr_empty)
    also have "\<dots> \<longleftrightarrow> length bs = length as \<and> (\<forall>i < length bs. normal_form (bs ! i) = normal_form (as ! i))"
      by (rule conj_cong [OF refl]) (metis IH)
    also have "\<dots> \<longleftrightarrow> map normal_form bs = map normal_form as"
      by (auto simp: list_eq_iff_nth_eq)
    finally show ?thesis using pl arr by (simp add: normal_form_JArr)
  next
    case obj
    note l = json_value_JObjD [OF "1.prems"(1) [unfolded obj]]
    note r = json_value_JObjD [OF "1.prems"(2) [unfolded obj]]
    have no_proto: "''__proto__'' \<notin> fst ` set l" "''__proto__'' \<notin> fst ` set r"
      using l(3) [of "''__proto__''"] r(3) [of "''__proto__''"] by (auto simp: inherited_names_def)
    have IH: "walk (get_property l k) (get_property r k) (path @ ''/'' @ escape_pointer k) = [] \<longleftrightarrow>
        normal_form (the (map_of l k)) = normal_form (the (map_of r k))"
      if "k \<in> fst ` set l" "k \<in> fst ` set r" for k
      using "1.IH"(2) [OF _ obj, of k] that l(3) [OF that(1)] r(3) [OF that(2)]
      by (auto simp: has_property_def get_property_def)
    have "walk before after path = [] \<longleftrightarrow>
        (\<forall>k \<in> fst ` set l \<union> fst ` set r. k \<in> fst ` set l \<and> k \<in> fst ` set r \<and>
          walk (get_property l k) (get_property r k) (path @ ''/'' @ escape_pointer k) = [])"
      unfolding obj by (rule walk_obj_empty) (use l(3) r(3) in blast)+
    also have "\<dots> \<longleftrightarrow> normal_form before = normal_form after"
      unfolding obj normal_form_JObj_eq [OF l(2) r(2) l(1) r(1) no_proto] using IH by blast
    finally show ?thesis .
  next
    case other
    then have "walk before after path = [] \<longleftrightarrow> before = after" by (rule walk_prim_empty)
    also have "\<dots> \<longleftrightarrow> normal_form before = normal_form after"
      using normal_form_prim [of before after] other "1.prems" by (auto simp: json_value_def)
    finally show ?thesis .
  qed
qed


text \<open>An optional property: absent or present with a value.\<close>

definition opt_field :: "string \<Rightarrow> ('a \<Rightarrow> jsval) \<Rightarrow> 'a option \<Rightarrow> (string \<times> jsval) list" where
  "opt_field name f x = (case x of None \<Rightarrow> [] | Some v \<Rightarrow> [(name, f v)])"

section \<open>A concrete platform\<close>

text \<open>
  A platform that the theorems about hashes, dates and collation can be applied to: a number
  is written as its quotient, a timestamp as its millisecond count, the collation is the order
  of code units and the digest is the text itself.
\<close>

definition sample_number_text :: "rat \<Rightarrow> string" where
  "sample_number_text r = (case quotient_of r of (p, q) \<Rightarrow>
     (if p < 0 then ''-'' else []) @ digits_of (nat \<bar>p\<bar>) @ ''.'' @ digits_of (nat q))"

definition sample_date_parse :: "string \<Rightarrow> int option" where
  "sample_date_parse s = (case s of [] \<Rightarrow> None
     | c # ds \<Rightarrow> if c = CHR ''T'' \<and> digits_of (nat_of_digits 0 ds) = ds
         then Some (int (nat_of_digits 0 ds)) else None)"

definition sample_iso_string :: "int \<Rightarrow> string option" where
  "sample_iso_string t = (if 0 \<le> t \<and> t \<le> 8640000000000000 then Some (CHR ''T'' # digits_of (nat t)) else None)"

definition sample_platform :: platform where
  "sample_platform = \<lparr>number_text = sample_number_text, sha256 = (\<lambda>s. s), locale_compare = num_cmp,
     date_parse = sample_date_parse, iso_string = sample_iso_string\<rparr>"

text \<open>Documented behaviour of \<^verbatim>\<open>Date\<close>: parsing an ISO string gives its instant back.\<close>

definition dates_ok :: "platform \<Rightarrow> bool" where
  "dates_ok P \<longleftrightarrow> (\<forall>t s. iso_string P t = Some s \<longrightarrow> date_parse P s = Some t)"

lemma dates_okD: "dates_ok P \<Longrightarrow> iso_string P t = Some s \<Longrightarrow> date_parse P s = Some t"
  by (simp add: dates_ok_def)

lemma sample_dates_ok: "dates_ok sample_platform"
  by (auto simp: dates_ok_def sample_platform_def sample_iso_string_def sample_date_parse_def
      nat_of_digits_digits_of split: if_splits)

lemma sample_collation: "strict_comparator (locale_compare sample_platform)"
  by (simp add: sample_platform_def) (rule code_units.strict_comparator_axioms)

lemma digits_not_point: "c \<in> set (digits_of n) \<Longrightarrow> c \<noteq> CHR ''.'' \<and> c \<noteq> CHR ''-''"
  using digits_of_digits by fastforce

lemma numeric_digit_chars: "\<forall>k<10. numeric_char (char_of (48 + k :: nat))"
  unfolding numeric_char_def All_less_Suc by code_simp

lemma digits_numeric: "c \<in> set (digits_of n) \<Longrightarrow> numeric_char c"
proof -
  assume "c \<in> set (digits_of n)"
  then have "48 \<le> (of_char c :: nat) \<and> (of_char c :: nat) < 58" by (rule digits_of_digits)
  then have "of_char c - 48 < (10::nat)" "char_of (48 + (of_char c - 48) :: nat) = c" by auto
  then show ?thesis using numeric_digit_chars by metis
qed

lemma sample_number_text_inject: "sample_number_text r = sample_number_text q \<Longrightarrow> r = q"
proof -
  assume eq: "sample_number_text r = sample_number_text q"
  obtain a b where r: "quotient_of r = (a, b)" by force
  obtain c d where q: "quotient_of q = (c, d)" by force
  have pos: "0 < b" "0 < d" using r q by (auto dest: quotient_of_denom_pos)
  have shape: "sample_number_text r = (if a < 0 then ''-'' else []) @ digits_of (nat \<bar>a\<bar>) @ ''.'' @ digits_of (nat b)"
    "sample_number_text q = (if c < 0 then ''-'' else []) @ digits_of (nat \<bar>c\<bar>) @ ''.'' @ digits_of (nat d)"
    using r q by (simp_all add: sample_number_text_def)
  have hd: "hd (digits_of n @ u) \<noteq> CHR ''-''" for n u
    using digits_not_point [of "hd (digits_of n)" n] by simp
  have "hd (sample_number_text r) = CHR ''-'' \<longleftrightarrow> a < 0" "hd (sample_number_text q) = CHR ''-'' \<longleftrightarrow> c < 0"
    using hd unfolding shape by simp_all
  then have "a < 0 \<longleftrightarrow> c < 0" using eq by simp
  then have rest: "digits_of (nat \<bar>a\<bar>) @ ''.'' @ digits_of (nat b) = digits_of (nat \<bar>c\<bar>) @ ''.'' @ digits_of (nat d)"
    using eq unfolding shape by (auto split: if_splits)
  have tw: "takeWhile (\<lambda>c. c \<noteq> CHR ''.'') (digits_of n @ ''.'' @ u) = digits_of n" for n u
    using digits_not_point [of _ n] by (simp add: takeWhile_append2)
  have "digits_of (nat \<bar>a\<bar>) = digits_of (nat \<bar>c\<bar>)" using rest tw by metis
  moreover have "digits_of (nat b) = digits_of (nat d)" using rest calculation by simp
  ultimately have "a = c \<and> b = d" using pos \<open>a < 0 \<longleftrightarrow> c < 0\<close> by auto
  with r q show ?thesis by (metis quotient_of_inject)
qed

lemma sample_number_text_ok: "number_text_ok sample_platform"
proof -
  have "numeric_char c" if "c \<in> set (sample_number_text r)" for c r
    using that digits_numeric
    by (auto simp: sample_number_text_def split: prod.splits if_splits) (auto simp: numeric_char_def)
  then show ?thesis
    unfolding number_text_ok_def
    by (auto simp: sample_platform_def sample_number_text_def split: prod.splits
        intro!: injI dest: sample_number_text_inject)
qed

section \<open>Properties\<close>

text \<open>
  C40. Binding of canonical hashes: two values with the same canonical hash have the same
  canonical form, unless their two canonical texts are a collision of SHA-256.
\<close>

theorem canonical_hash_binding:
  assumes "number_text_ok P" "wf_jsval v" "wf_jsval w"
    and "canonical_hash P v = Inr h" "canonical_hash P w = Inr h"
  shows "normalise v = normalise w \<or>
    (\<exists>x y. canonical_stringify P v = Inr x \<and> canonical_stringify P w = Inr y \<and> x \<noteq> y \<and> sha256 P x = sha256 P y)"
proof -
  from assms(4,5) obtain a b where a: "normalise v = Inr a" and b: "normalise w = Inr b"
    and h: "sha256 P (json_text P a) = sha256 P (json_text P b)"
    by (auto simp: canonical_hash_def canonical_stringify_def bind_result_Inr_iff)
  have "plain a" "plain b" using normalise_normal normal_plain assms(2,3) a b by blast+
  then have "json_text P a = json_text P b \<Longrightarrow> a = b" using json_text_inject [OF assms(1)] by blast
  then show ?thesis using a b h by (auto simp: canonical_stringify_def)
qed

definition sample_object :: jsval where
  "sample_object = JObj [(''seed'', JNum NegZero), (''id'', JStr ''a'')]"

definition sample_object_reordered :: jsval where
  "sample_object_reordered = JObj [(''id'', JStr ''a''), (''seed'', JNum (Num 0))]"

lemma sample_objects_normalise:
  "normalise sample_object = Inr (JObj [(''id'', JStr ''a''), (''seed'', JNum (Num 0))])"
  "normalise sample_object_reordered = Inr (JObj [(''id'', JStr ''a''), (''seed'', JNum (Num 0))])"
  by (simp_all add: sample_object_def sample_object_reordered_def own_order_def drop_proto_def array_index_named
      less_eq_char_def less_char_def)

lemma sample_objects_text:
  "canonical_stringify sample_platform sample_object = canonical_stringify sample_platform sample_object_reordered"
  by (simp add: canonical_stringify_def sample_objects_normalise)

theorem canonical_hash_binding_witness: "normalise sample_object = normalise sample_object_reordered"
proof -
  let ?h = "json_text sample_platform (JObj [(''id'', JStr ''a''), (''seed'', JNum (Num 0))])"
  have "wf_jsval sample_object" "wf_jsval sample_object_reordered"
    by (simp_all add: sample_object_def sample_object_reordered_def)
  moreover have "canonical_hash sample_platform sample_object = Inr ?h"
    "canonical_hash sample_platform sample_object_reordered = Inr ?h"
    by (simp_all add: canonical_hash_def canonical_stringify_def sample_objects_normalise)
      (simp_all add: sample_platform_def)
  ultimately show ?thesis
    using canonical_hash_binding [OF sample_number_text_ok] sample_objects_text by (metis sum.inject(2))
qed

text \<open>
  Canonicalisation is a normal form: what it returns has sorted keys, finite numbers, no
  negative zero and no undefined member, and canonicalising it again changes nothing.
\<close>

theorem normalise_idempotent:
  assumes "wf_jsval v" "normalise v = Inr w"
  shows "normal w \<and> normalise w = Inr w"
  using normalise_normal [OF assms] normalise_fixed by blast

theorem normalise_idempotent_witness:
  "normalise sample_object = Inr sample_object_reordered \<and> normal sample_object_reordered \<and>
   normalise sample_object_reordered = Inr sample_object_reordered"
proof -
  have n: "normalise sample_object = Inr sample_object_reordered"
    by (simp add: sample_objects_normalise) (simp add: sample_object_reordered_def)
  show ?thesis
    using n normalise_idempotent [OF _ n] by (simp add: sample_object_def)
qed

text \<open>
  The semantic difference of two JSON values is empty exactly when their canonical forms, and
  so their canonical hashes, agree: a revision without reported changes is the same
  definition. Keys named like members of \<^verbatim>\<open>Object.prototype\<close> are excluded, see
  \<open>canonical_form_ignores_proto\<close>.
\<close>

theorem semantic_diff_empty_iff:
  assumes "json_value before" "json_value after"
  shows "semantic_diff before after = [] \<longleftrightarrow> normalise before = normalise after"
proof -
  have "plain before" "plain after" using assms by (simp_all add: json_value_def)
  then have "normalise before = normalise after \<longleftrightarrow> normal_form before = normal_form after"
    by (simp add: normalise_normal_form)
  then show ?thesis by (simp add: semantic_diff_def walk_empty_iff [OF assms])
qed

theorem semantic_diff_empty_iff_witness:
  "semantic_diff (JObj [(''b'', JNull), (''a'', JBool True)]) (JObj [(''a'', JBool True), (''b'', JNull)]) = []
   \<longleftrightarrow> normalise (JObj [(''b'', JNull), (''a'', JBool True)]) = normalise (JObj [(''a'', JBool True), (''b'', JNull)])"
  by (rule semantic_diff_empty_iff) (simp_all add: json_value_def inherited_names_def)

text \<open>
  Members named \<^verbatim>\<open>__proto__\<close> (as \<^verbatim>\<open>JSON.parse\<close> creates them) are neither hashed nor compared when
  they are empty objects; with other contents they are compared but still not hashed.
\<close>

lemma canonical_form_ignores_proto:
  "normalise (JObj [(''__proto__'', JStr s)]) = normalise (JObj [])"
  "semantic_diff (JObj []) (JObj [(''__proto__'', JObj [])]) = []"
proof -
  have "walk (JObj []) (JObj []) p = []" for p
    by (subst walk.simps) (simp add: js_unique_def)
  then show "semantic_diff (JObj []) (JObj [(''__proto__'', JObj [])]) = []"
    unfolding semantic_diff_def
    by (subst walk.simps) (simp add: js_unique_def has_property_def get_property_def inherited_names_def)
  show "normalise (JObj [(''__proto__'', JStr s)]) = normalise (JObj [])"
    by (simp add: own_order_def drop_proto_def)
qed

end
