(* ===== verification/Authorization.thy ===== *)
theory Authorization
  imports JsonValue
begin

text \<open>
  packages/competition-engine/src/authorization.ts: role-based authorization with tenant
  isolation and separation of duties, and the redaction of sensitive values for logs and
  audits. The audit sink of a request is the list of records it has received.
\<close>

section \<open>Roles, capabilities and requests\<close>

datatype role = Viewer | Compiler | Director | Operator | Auditor

datatype capability =
  TournamentView | TournamentCompile | TournamentCertify | TournamentOverride
  | TournamentOperate | TournamentPublish | AuditView

fun role_capabilities :: "role \<Rightarrow> capability list" where
  "role_capabilities Viewer = [TournamentView]"
| "role_capabilities Compiler = [TournamentView, TournamentCompile]"
| "role_capabilities Director = [TournamentView, TournamentCertify, TournamentOverride]"
| "role_capabilities Operator = [TournamentView, TournamentOperate, TournamentPublish]"
| "role_capabilities Auditor = [TournamentView, AuditView]"

record principal =
  actor_id :: string
  principal_tenant :: string
  roles :: "role list"

record auth_resource =
  resource_type :: string
  resource_id :: string
  resource_tenant :: string

record workflow_provenance =
  compiled_by :: "string option"
  certified_by :: "string option"
  published_by :: "string option"

datatype authorization_reason =
  Authorized | InvalidAuthorizationContext | TenantMismatch | CapabilityNotGranted
  | WorkflowProvenanceRequired | SeparationOfDuties

record authorization_audit =
  audit_correlation :: string
  audit_actor :: string
  audit_tenant :: string
  audit_resource :: auth_resource
  audit_capability :: capability
  audit_allowed :: bool
  audit_reason :: authorization_reason

record authorization_request =
  request_principal :: principal
  request_capability :: capability
  request_resource :: auth_resource
  correlation_id :: string
  workflow :: "workflow_provenance option"

record authorization_decision =
  allowed :: bool
  reason :: authorization_reason
  decision_audit :: authorization_audit

datatype provenance_field = CompiledBy | CertifiedBy | PublishedBy

fun field_of :: "workflow_provenance \<Rightarrow> provenance_field \<Rightarrow> string option" where
  "field_of w CompiledBy = compiled_by w"
| "field_of w CertifiedBy = certified_by w"
| "field_of w PublishedBy = published_by w"

fun privileged_provenance :: "capability \<Rightarrow> provenance_field list option" where
  "privileged_provenance TournamentCertify = Some [CompiledBy]"
| "privileged_provenance TournamentPublish = Some [CompiledBy, CertifiedBy]"
| "privileged_provenance TournamentOverride = Some [CompiledBy, CertifiedBy, PublishedBy]"
| "privileged_provenance _ = None"

definition granted_capabilities :: "role list \<Rightarrow> capability list" where
  "granted_capabilities rs = js_unique (concat (map role_capabilities rs))"

text \<open>\<^verbatim>\<open>!workflow[field]\<close>: undefined or the empty string.\<close>

definition missing_field :: "workflow_provenance \<Rightarrow> provenance_field \<Rightarrow> bool" where
  "missing_field w f = (field_of w f = None \<or> field_of w f = Some [])"

definition privileged_workflow_reason ::
    "string \<Rightarrow> capability \<Rightarrow> workflow_provenance option \<Rightarrow> authorization_reason option" where
  "privileged_workflow_reason actor cap prov =
     (case privileged_provenance cap of
        None \<Rightarrow> None
      | Some required \<Rightarrow>
         (case prov of
            None \<Rightarrow> Some WorkflowProvenanceRequired
          | Some w \<Rightarrow>
              if list_ex (missing_field w) required then Some WorkflowProvenanceRequired
              else if list_ex (\<lambda>f. field_of w f = Some actor) required then Some SeparationOfDuties
              else None))"

definition authorization_reason_of :: "authorization_request \<Rightarrow> authorization_reason" where
  "authorization_reason_of req =
     (let p = request_principal req; r = request_resource req; cap = request_capability req in
      if actor_id p = [] \<or> principal_tenant p = [] \<or> resource_id r = [] \<or> resource_tenant r = []
         \<or> correlation_id req = [] then InvalidAuthorizationContext
      else if principal_tenant p \<noteq> resource_tenant r then TenantMismatch
      else if \<not> List.member (granted_capabilities (roles p)) cap then CapabilityNotGranted
      else (case privileged_workflow_reason (actor_id p) cap (workflow req) of
              Some why \<Rightarrow> why | None \<Rightarrow> Authorized))"

definition authorize ::
    "authorization_request \<Rightarrow> authorization_audit list \<Rightarrow> authorization_decision \<times> authorization_audit list" where
  "authorize req sink =
     (let p = request_principal req;
          why = authorization_reason_of req;
          audit = \<lparr>audit_correlation = correlation_id req, audit_actor = actor_id p,
            audit_tenant = principal_tenant p, audit_resource = request_resource req,
            audit_capability = request_capability req, audit_allowed = (why = Authorized),
            audit_reason = why\<rparr>
      in (\<lparr>allowed = audit_allowed audit, reason = why, decision_audit = audit\<rparr>, sink @ [audit]))"

section \<open>Redaction\<close>

text \<open>\<^verbatim>\<open>toLocaleLowerCase\<close> on code units below 256.\<close>

definition lower_char :: "char \<Rightarrow> char" where
  "lower_char c = (let n = (of_char c :: nat) in
     if (65 \<le> n \<and> n \<le> 90) \<or> (192 \<le> n \<and> n \<le> 222 \<and> n \<noteq> 215) then char_of (n + 32) else c)"

definition lower_case :: "string \<Rightarrow> string" where
  "lower_case s = map lower_char s"

text \<open>\<^verbatim>\<open>/^(?:bearer|basic)\s+\S+/i\<close>\<close>

definition credential_shaped :: "string \<Rightarrow> bool" where
  "credential_shaped s =
     list_ex (\<lambda>scheme. starts_with (lower_case s) scheme \<and>
        (case drop (length scheme) s of
           [] \<Rightarrow> False
         | c # rest \<Rightarrow> is_space c \<and> dropWhile is_space rest \<noteq> []))
       [''bearer'', ''basic'']"

definition ends_with :: "string \<Rightarrow> string \<Rightarrow> bool" where
  "ends_with s suffix = starts_with (rev s) (rev suffix)"

definition is_built_in_sensitive_key :: "string \<Rightarrow> bool" where
  "is_built_in_sensitive_key key =
     (let normalized = lower_case (filter (\<lambda>c. c \<noteq> CHR ''_'' \<and> c \<noteq> CHR ''-'') key) in
      list_ex (ends_with normalized)
        [''authorization'', ''cookie'', ''secret'', ''password'', ''passphrase'', ''token'',
         ''apikey'', ''privatekey''])"

definition redacted :: jsval where
  "redacted = JStr ''[REDACTED]''"

definition sensitive_key :: "string list \<Rightarrow> string \<Rightarrow> bool" where
  "sensitive_key custom key =
     (is_built_in_sensitive_key key \<or> List.member (map lower_case custom) (lower_case key))"

text \<open>
  The copy is built by assignments \<^verbatim>\<open>copy[key] = ...\<close>; a key \<^verbatim>\<open>__proto__\<close> creates no property.
\<close>

fun redact :: "string list \<Rightarrow> jsval \<Rightarrow> jsval" where
  "redact custom (JStr s) = (if credential_shaped s then redacted else JStr s)"
| "redact custom (JArr vs) = JArr (map (redact custom) vs)"
| "redact custom (JObj kvs) =
     JObj (own_order (drop_proto (map (\<lambda>(k, v). (k, if sensitive_key custom k then redacted
        else redact custom v)) kvs)))"
| "redact custom v = v"

definition redact_sensitive_value :: "jsval \<Rightarrow> string list \<Rightarrow> jsval" where
  "redact_sensitive_value v additional = redact additional v"

section \<open>Lemmas\<close>

lemma granted_iff:
  "cap \<in> set (granted_capabilities rs) \<longleftrightarrow> (\<exists>r \<in> set rs. cap \<in> set (role_capabilities r))"
  by (simp add: granted_capabilities_def)

lemma privileged_reason_None_iff:
  "privileged_workflow_reason actor cap prov = None \<longleftrightarrow>
     (case privileged_provenance cap of None \<Rightarrow> True
      | Some required \<Rightarrow> \<exists>w. prov = Some w \<and>
          (\<forall>f \<in> set required. \<exists>who. field_of w f = Some who \<and> who \<noteq> [] \<and> who \<noteq> actor))"
proof (cases "privileged_provenance cap")
  case (Some required)
  have "(\<not> missing_field w f \<and> field_of w f \<noteq> Some actor) \<longleftrightarrow>
      (\<exists>who. field_of w f = Some who \<and> who \<noteq> [] \<and> who \<noteq> actor)" for w f
    by (cases "field_of w f") (auto simp: missing_field_def)
  then show ?thesis using Some
    by (auto simp: privileged_workflow_reason_def list_ex_iff split: option.splits) metis+
qed (simp add: privileged_workflow_reason_def)

lemma authorized_iff:
  "authorization_reason_of req = Authorized \<longleftrightarrow>
     actor_id (request_principal req) \<noteq> [] \<and> principal_tenant (request_principal req) \<noteq> []
     \<and> resource_id (request_resource req) \<noteq> [] \<and> correlation_id req \<noteq> []
     \<and> principal_tenant (request_principal req) = resource_tenant (request_resource req)
     \<and> (\<exists>r \<in> set (roles (request_principal req)). request_capability req \<in> set (role_capabilities r))
     \<and> privileged_workflow_reason (actor_id (request_principal req)) (request_capability req) (workflow req) = None"
proof -
  have "privileged_workflow_reason a c w \<noteq> Some Authorized" for a c w
    by (auto simp: privileged_workflow_reason_def split: option.splits)
  then show ?thesis
    by (auto simp: authorization_reason_of_def Let_def granted_iff split: option.splits)
qed

text \<open>No value reachable in a redacted value is a credential or sits under a sensitive key.\<close>

fun clean :: "string list \<Rightarrow> jsval \<Rightarrow> bool" where
  "clean custom (JStr s) = (\<not> credential_shaped s)"
| "clean custom (JArr vs) = list_all (clean custom) vs"
| "clean custom (JObj kvs) =
     list_all (\<lambda>(k, v). if sensitive_key custom k then v = redacted else clean custom v) kvs"
| "clean custom v = True"

lemma redacted_not_credential: "\<not> credential_shaped ''[REDACTED]''"
  by code_simp

lemma redact_clean: "clean custom (redact custom v)"
proof (induction v)
  case (JObj kvs)
  then show ?case
    by (auto simp: list_all_iff drop_proto_def snds.simps)
qed (auto simp: list_all_iff redacted_def redacted_not_credential)


text \<open>Enumeration order is stable under a map over the values, and idempotent.\<close>

lemma insort_key_map: "insort_key f (g x) (map g xs) = map g (insort_key (\<lambda>x. f (g x)) x xs)"
  by (induction xs) auto

lemma sort_key_map: "sort_key f (map g xs) = map g (sort_key (\<lambda>x. f (g x)) xs)"
  by (induction xs) (auto simp: insort_key_map)

lemma own_order_map:
  "own_order (map (\<lambda>(k, v). (k, f k v)) kvs) = map (\<lambda>(k, v). (k, f k v)) (own_order kvs)"
proof -
  have g: "(\<lambda>kv. fst ((\<lambda>(k, v). (k, f k v)) kv)) = fst" by auto
  show ?thesis
    by (simp add: own_order_def filter_map comp_def sort_key_map case_prod_unfold)
qed

lemma own_order_own_order: "own_order (own_order kvs) = own_order kvs"
proof -
  let ?p = "\<lambda>kv :: string \<times> 'a. array_index (fst kv) \<noteq> None"
  have "filter ?p (own_order kvs) = sort_key (\<lambda>kv. the (array_index (fst kv))) (filter ?p kvs)"
    by (auto simp: own_order_def filter_id_conv filter_empty_conv)
  moreover have "filter (\<lambda>kv. array_index (fst kv) = None) (own_order kvs) =
      filter (\<lambda>kv. array_index (fst kv) = None) kvs"
    by (auto simp: own_order_def filter_empty_conv)
  moreover have "sort_key f (sort_key f xs) = sort_key f xs" for f :: "string \<times> 'a \<Rightarrow> nat" and xs
    by (rule sort_key_id_if_sorted) simp
  ultimately show ?thesis by (subst own_order_def) (simp only: own_order_def)
qed

lemma drop_proto_map: "drop_proto (map (\<lambda>(k, v). (k, f k v)) kvs) = map (\<lambda>(k, v). (k, f k v)) (drop_proto kvs)"
  by (simp add: drop_proto_def filter_map comp_def case_prod_unfold)

lemma drop_proto_own_order: "drop_proto (own_order (drop_proto kvs)) = own_order (drop_proto kvs)"
  by (rule drop_proto_id) (auto simp: drop_proto_def)

lemma redact_redact: "redact custom (redact custom v) = redact custom v"
proof (induction v)
  case (JObj kvs)
  let ?f = "\<lambda>k v. if sensitive_key custom k then redacted else redact custom v"
  have "?f k (?f k v) = ?f k v" if "(k, v) \<in> set kvs" for k v
    using JObj.IH [OF that] by (simp add: snds.simps)
  then have "map (\<lambda>(k, v). (k, ?f k v)) (map (\<lambda>(k, v). (k, ?f k v)) (own_order (drop_proto kvs))) =
      map (\<lambda>(k, v). (k, ?f k v)) (own_order (drop_proto kvs))"
    by (auto simp: drop_proto_def)
  moreover have "redact custom (redact custom (JObj kvs)) =
      JObj (map (\<lambda>(k, v). (k, ?f k v)) (map (\<lambda>(k, v). (k, ?f k v)) (own_order (drop_proto kvs))))"
    by (simp only: redact.simps drop_proto_map own_order_map own_order_own_order
        drop_proto_own_order)
  moreover have "redact custom (JObj kvs) = JObj (map (\<lambda>(k, v). (k, ?f k v)) (own_order (drop_proto kvs)))"
    by (simp only: redact.simps drop_proto_map own_order_map)
  ultimately show ?case by simp
qed (auto simp: redacted_def redacted_not_credential)

section \<open>Properties\<close>

text \<open>
  C39. Exact authorization: a request is allowed if and only if its context is complete, the
  principal and the resource belong to the same tenant, one of the principal's roles grants
  the capability, and for a privileged capability every required workflow step is recorded
  and was done by somebody else.
\<close>

theorem authorize_allowed_iff:
  "allowed (fst (authorize req sink)) \<longleftrightarrow>
     actor_id (request_principal req) \<noteq> [] \<and> principal_tenant (request_principal req) \<noteq> []
     \<and> resource_id (request_resource req) \<noteq> [] \<and> correlation_id req \<noteq> []
     \<and> principal_tenant (request_principal req) = resource_tenant (request_resource req)
     \<and> (\<exists>r \<in> set (roles (request_principal req)). request_capability req \<in> set (role_capabilities r))
     \<and> (case privileged_provenance (request_capability req) of None \<Rightarrow> True
        | Some required \<Rightarrow> \<exists>w. workflow req = Some w \<and>
            list_all (\<lambda>f. case field_of w f of None \<Rightarrow> False
              | Some who \<Rightarrow> who \<noteq> [] \<and> who \<noteq> actor_id (request_principal req)) required)"
proof -
  have "list_all (\<lambda>f. case field_of w f of None \<Rightarrow> False
      | Some who \<Rightarrow> who \<noteq> [] \<and> who \<noteq> a) required \<longleftrightarrow>
      (\<forall>f \<in> set required. \<exists>who. field_of w f = Some who \<and> who \<noteq> [] \<and> who \<noteq> a)" for w a required
    by (auto simp: list_all_iff split: option.splits)
  moreover have "allowed (fst (authorize req sink)) \<longleftrightarrow> authorization_reason_of req = Authorized"
    by (simp add: authorize_def Let_def)
  ultimately show ?thesis by (simp only: authorized_iff privileged_reason_None_iff)
qed

text \<open>
  No self-approval: whoever is allowed to publish has compiled and certified nothing of
  the workflow, and whoever is allowed to override took none of its three steps.
\<close>

theorem no_self_publication:
  assumes "allowed (fst (authorize req sink))" "workflow req = Some w"
    and "request_capability req \<in> {TournamentPublish, TournamentOverride}"
  shows "compiled_by w \<noteq> Some (actor_id (request_principal req)) \<and>
    certified_by w \<noteq> Some (actor_id (request_principal req)) \<and>
    (request_capability req = TournamentOverride \<longrightarrow> published_by w \<noteq> Some (actor_id (request_principal req)))"
proof -
  have "privileged_workflow_reason (actor_id (request_principal req)) (request_capability req) (workflow req) = None"
    using assms(1) authorized_iff [of req] by (simp add: authorize_def Let_def)
  then show ?thesis
    using assms(2,3) by (auto simp: privileged_reason_None_iff)
qed

definition sample_publish_request :: authorization_request where
  "sample_publish_request =
     \<lparr>request_principal = \<lparr>actor_id = ''olga'', principal_tenant = ''club'', roles = [Viewer, Operator]\<rparr>,
      request_capability = TournamentPublish,
      request_resource = \<lparr>resource_type = ''tournament'', resource_id = ''t1'', resource_tenant = ''club''\<rparr>,
      correlation_id = ''c1'',
      workflow = Some \<lparr>compiled_by = Some ''carl'', certified_by = Some ''dora'', published_by = None\<rparr>\<rparr>"

theorem no_self_publication_witness:
  "allowed (fst (authorize sample_publish_request [])) \<and>
   compiled_by \<lparr>compiled_by = Some ''carl'', certified_by = Some ''dora'', published_by = None\<rparr> \<noteq> Some ''olga''"
proof -
  have a: "allowed (fst (authorize sample_publish_request []))" by code_simp
  show ?thesis
    using a no_self_publication [OF a, of "\<lparr>compiled_by = Some ''carl'', certified_by = Some ''dora'', published_by = None\<rparr>"]
    by (simp add: sample_publish_request_def)
qed

text \<open>
  Every decision is audited exactly once, allowed or not: the sink receives one record, it
  carries the request's identities, and it states the decision that is returned.
\<close>

theorem authorize_audits_once:
  "\<exists>a. authorize req sink = (\<lparr>allowed = audit_allowed a, reason = audit_reason a, decision_audit = a\<rparr>, sink @ [a])
     \<and> (audit_allowed a \<longleftrightarrow> audit_reason a = Authorized)
     \<and> audit_actor a = actor_id (request_principal req) \<and> audit_tenant a = principal_tenant (request_principal req)
     \<and> audit_resource a = request_resource req \<and> audit_capability a = request_capability req
     \<and> audit_correlation a = correlation_id req"
  by (simp add: authorize_def Let_def)

text \<open>
  Redaction removes every credential: in a redacted value no string is shaped like a
  credential and every member with a sensitive key is the redaction mark; redacting again
  changes nothing.
\<close>

theorem redaction_complete:
  "clean additional (redact_sensitive_value v additional) \<and>
   redact_sensitive_value (redact_sensitive_value v additional) additional = redact_sensitive_value v additional"
  by (simp add: redact_sensitive_value_def redact_clean redact_redact)

end
