(* ===== verification/Outbox.thy ===== *)
theory Outbox
  imports JsonValue
begin

text \<open>
  packages/competition-engine/src/outbox.ts: the transactional outbox in memory. A message is
  enqueued once per committed event, topic and key, claimed by a worker under a lease, and
  acknowledged, retried with backoff, or dead-lettered.

  \<^item> \<open>outbox\<close> is the instance: its tenant and the private map \<^verbatim>\<open>#messages\<close>, keyed by the
    deduplication key, in insertion order.
  \<^item> Each method returns a pair: the value or the error it throws, and the state it leaves
    behind. An exception in the middle of a method leaves the assignments made before it.
  \<^item> Lemmas: the well-formedness invariant (\<open>outbox_inv\<close>) and its preservation, the final
    states, leases, backoff and deduplication.
\<close>

section \<open>Messages and options\<close>

datatype outbox_status = Pending | Leased | Delivered | DeadLetter

record committed_event =
  ce_id :: string
  ce_stream_id :: string
  ce_stream_version :: int
  ce_type :: string
  ce_occurred_at :: string
  ce_committed_at :: string
  ce_payload :: jsval

record outbox_publication =
  pub_topic :: string
  pub_key :: string
  pub_payload :: jsval

record outbox_message =
  tenant_id :: string
  msg_id :: string
  dedupe_key :: string
  event_id :: string
  stream_id :: string
  stream_version :: int
  event_type :: string
  topic :: string
  publication_key :: string
  payload :: jsval
  status :: outbox_status
  attempts :: int
  created_at :: string
  available_at :: string
  lease_owner :: "string option"
  lease_expires_at :: "string option"
  delivered_at :: "string option"
  dead_lettered_at :: "string option"
  last_error :: "string option"
  provider_id :: "string option"
  provider_message_id :: "string option"
  provider_idempotency_key :: "string option"

record claim_options =
  claim_worker :: string
  claim_now :: string
  lease_ms :: jsnum
  claim_limit :: jsnum

record lease_options =
  lease_message :: string
  lease_worker :: string
  lease_now :: string

record delivery_receipt =
  receipt_provider :: string
  receipt_message :: string
  receipt_idempotency_key :: string

record retry_policy =
  retry_error :: string
  max_attempts :: jsnum
  base_delay_ms :: jsnum
  max_delay_ms :: jsnum

record outbox =
  outbox_tenant :: string
  messages :: "(string, outbox_message) omap"

datatype outbox_error =
    InvalidTenantId
  | InvalidInitialMessage
  | UnknownMessage string
  | InvalidTimestamp
  | NotLeaseOwner
  | LeaseExpired
  | InvalidClaim
  | InvalidReceipt
  | InvalidRetryPolicy
  | DateRange
  | NotCloneable
  | NotHashable json_error

section \<open>Operations\<close>

text \<open>\<^verbatim>\<open>structuredClone\<close> rejects functions and symbols.\<close>

fun cloneable :: "jsval \<Rightarrow> bool" where
  "cloneable (JOther t) = (t = ''bigint'')"
| "cloneable (JArr vs) = list_all cloneable vs"
| "cloneable (JObj kvs) = list_all (\<lambda>(k, v). cloneable v) kvs"
| "cloneable _ = True"

definition message_identity :: "string \<Rightarrow> string \<Rightarrow> string \<Rightarrow> jsval" where
  "message_identity event tpc key =
     JObj [(''eventId'', JStr event), (''topic'', JStr tpc), (''publicationKey'', JStr key)]"

definition expected_dedupe_key :: "platform \<Rightarrow> string \<Rightarrow> string \<Rightarrow> string \<Rightarrow> (outbox_error, string) result" where
  "expected_dedupe_key P event tpc key =
     (case canonical_hash P (message_identity event tpc key) of
        Inl e \<Rightarrow> Inl (NotHashable e) | Inr h \<Rightarrow> Inr h)"

definition bounded_identifier :: "string \<Rightarrow> nat \<Rightarrow> bool" where
  "bounded_identifier s n = (\<not> blank s \<and> length s \<le> n \<and> \<not> has_control s)"

fun load_messages ::
    "platform \<Rightarrow> outbox_message list \<Rightarrow> outbox \<Rightarrow> (outbox_error, outbox) result" where
  "load_messages P [] st = Inr st"
| "load_messages P (m # ms) st =
     bind_result (expected_dedupe_key P (event_id m) (topic m) (publication_key m)) (\<lambda>expected.
       if tenant_id m \<noteq> outbox_tenant st \<or> dedupe_key m \<noteq> expected
          \<or> msg_id m \<noteq> ''outbox.'' @ expected \<or> omap_has (messages st) (dedupe_key m)
       then Inl InvalidInitialMessage
       else if \<not> cloneable (payload m) then Inl NotCloneable
       else load_messages P ms (st\<lparr>messages := omap_set (dedupe_key m) m (messages st)\<rparr>))"

definition new_outbox :: "platform \<Rightarrow> string \<Rightarrow> outbox_message list \<Rightarrow> (outbox_error, outbox) result" where
  "new_outbox P tenant initial =
     (if \<not> bounded_identifier tenant 200 then Inl InvalidTenantId
      else load_messages P initial \<lparr>outbox_tenant = tenant, messages = []\<rparr>)"

definition enqueue_from_committed_event ::
    "platform \<Rightarrow> committed_event \<Rightarrow> outbox_publication \<Rightarrow> outbox \<Rightarrow>
     (outbox_error, outbox_message) result \<times> outbox" where
  "enqueue_from_committed_event P e p st =
     (case expected_dedupe_key P (ce_id e) (pub_topic p) (pub_key p) of
        Inl err \<Rightarrow> (Inl err, st)
      | Inr key \<Rightarrow>
         (case omap_get (messages st) key of
            Some existing \<Rightarrow> (Inr existing, st)
          | None \<Rightarrow>
              let chosen = (if pub_payload p = JUndef \<or> pub_payload p = JNull then ce_payload e else pub_payload p);
                  m = \<lparr>tenant_id = outbox_tenant st, msg_id = ''outbox.'' @ key, dedupe_key = key,
                    event_id = ce_id e, stream_id = ce_stream_id e, stream_version = ce_stream_version e,
                    event_type = ce_type e, topic = pub_topic p, publication_key = pub_key p,
                    payload = chosen, status = Pending, attempts = 0,
                    created_at = ce_committed_at e, available_at = ce_committed_at e,
                    lease_owner = None, lease_expires_at = None, delivered_at = None,
                    dead_lettered_at = None, last_error = None, provider_id = None,
                    provider_message_id = None, provider_idempotency_key = None\<rparr>
              in if cloneable chosen then (Inr m, st\<lparr>messages := omap_set key m (messages st)\<rparr>)
                 else (Inl NotCloneable, st)))"

text \<open>Assignments to the fields of the message stored under a key.\<close>

definition store :: "string \<Rightarrow> outbox_message \<Rightarrow> outbox \<Rightarrow> outbox" where
  "store key m st = st\<lparr>messages := omap_set key m (messages st)\<rparr>"

definition claim_order :: "platform \<Rightarrow> string \<times> outbox_message \<Rightarrow> string \<times> outbox_message \<Rightarrow> int" where
  "claim_order P a b =
     or_else (locale_compare P (available_at (snd a)) (available_at (snd b)))
       (or_else (locale_compare P (created_at (snd a)) (created_at (snd b)))
          (locale_compare P (msg_id (snd a)) (msg_id (snd b))))"

definition eligible :: "platform \<Rightarrow> int \<Rightarrow> string \<times> outbox_message \<Rightarrow> bool" where
  "eligible P now km = (status (snd km) = Pending \<and>
     (case date_parse P (available_at (snd km)) of None \<Rightarrow> False | Some t \<Rightarrow> t \<le> now))"

fun claim_loop ::
    "platform \<Rightarrow> string \<Rightarrow> int \<Rightarrow> (string \<times> outbox_message) list \<Rightarrow> outbox \<Rightarrow>
     (outbox_error, outbox_message list) result \<times> outbox" where
  "claim_loop P worker expiry [] st = (Inr [], st)"
| "claim_loop P worker expiry ((key, m) # rest) st =
     (let m1 = m\<lparr>status := Leased, attempts := attempts m + 1, lease_owner := Some worker\<rparr> in
      case iso_string P expiry of
        None \<Rightarrow> (Inl DateRange, store key m1 st)
      | Some s \<Rightarrow>
          let m2 = m1\<lparr>lease_expires_at := Some s\<rparr> in
          case claim_loop P worker expiry rest (store key m2 st) of
            (Inl e, st') \<Rightarrow> (Inl e, st')
          | (Inr ms, st') \<Rightarrow> (Inr (m2 # ms), st'))"

definition claim ::
    "platform \<Rightarrow> claim_options \<Rightarrow> outbox \<Rightarrow> (outbox_error, outbox_message list) result \<times> outbox" where
  "claim P opt st =
     (case (date_parse P (claim_now opt), js_integer (lease_ms opt), js_integer (claim_limit opt)) of
        (Some now, Some lease, Some limit) \<Rightarrow>
          if claim_worker opt = [] \<or> lease \<le> 0 \<or> limit \<le> 0 then (Inl InvalidClaim, st)
          else claim_loop P (claim_worker opt) (now + lease)
                 (take (nat limit) (sort_by (claim_order P) (filter (eligible P now) (messages st)))) st
      | _ \<Rightarrow> (Inl InvalidClaim, st))"

definition leased_message ::
    "platform \<Rightarrow> lease_options \<Rightarrow> outbox \<Rightarrow> (outbox_error, string \<times> outbox_message \<times> int) result" where
  "leased_message P opt st =
     (case find (\<lambda>km. msg_id (snd km) = lease_message opt) (messages st) of
        None \<Rightarrow> Inl (UnknownMessage (lease_message opt))
      | Some (key, m) \<Rightarrow>
         (case date_parse P (lease_now opt) of
            None \<Rightarrow> Inl InvalidTimestamp
          | Some now \<Rightarrow>
              if status m \<noteq> Leased \<or> lease_owner m \<noteq> Some (lease_worker opt) then Inl NotLeaseOwner
              else if (case lease_expires_at m of None \<Rightarrow> False
                       | Some s \<Rightarrow> (case date_parse P s of None \<Rightarrow> False | Some t \<Rightarrow> t \<le> now))
              then Inl LeaseExpired
              else Inr (key, m, now)))"

definition acknowledge ::
    "platform \<Rightarrow> lease_options \<Rightarrow> delivery_receipt option \<Rightarrow> outbox \<Rightarrow>
     (outbox_error, outbox_message) result \<times> outbox" where
  "acknowledge P opt receipt st =
     (case leased_message P opt st of
        Inl e \<Rightarrow> (Inl e, st)
      | Inr (key, m, now) \<Rightarrow>
          let receipt_ok = (case receipt of None \<Rightarrow> True
                | Some r \<Rightarrow> bounded_identifier (receipt_provider r) 500
                    \<and> bounded_identifier (receipt_message r) 500
                    \<and> bounded_identifier (receipt_idempotency_key r) 500);
              m1 = (case receipt of None \<Rightarrow> m
                | Some r \<Rightarrow> m\<lparr>provider_id := Some (receipt_provider r),
                    provider_message_id := Some (receipt_message r),
                    provider_idempotency_key := Some (receipt_idempotency_key r)\<rparr>);
              m2 = m1\<lparr>status := Delivered\<rparr>
          in if \<not> receipt_ok then (Inl InvalidReceipt, st)
             else case iso_string P now of
                    None \<Rightarrow> (Inl DateRange, store key m2 st)
                  | Some s \<Rightarrow>
                      let m3 = m2\<lparr>delivered_at := Some s, lease_owner := None, lease_expires_at := None\<rparr>
                      in (Inr m3, store key m3 st))"

definition backoff :: "int \<Rightarrow> int \<Rightarrow> int \<Rightarrow> int" where
  "backoff base_ms max_ms tries = min max_ms (base_ms * 2 ^ nat (max 0 (tries - 1)))"

definition retry ::
    "platform \<Rightarrow> lease_options \<Rightarrow> retry_policy \<Rightarrow> outbox \<Rightarrow>
     (outbox_error, outbox_message) result \<times> outbox" where
  "retry P opt pol st =
     (case leased_message P opt st of
        Inl e \<Rightarrow> (Inl e, st)
      | Inr (key, m, now) \<Rightarrow>
         (case (js_integer (max_attempts pol), js_integer (base_delay_ms pol), js_integer (max_delay_ms pol)) of
            (Some maximum, Some base, Some maxd) \<Rightarrow>
              if retry_error pol = [] \<or> maximum \<le> 0 \<or> base \<le> 0 \<or> maxd < base
              then (Inl InvalidRetryPolicy, st)
              else if maximum \<le> attempts m then
                let m1 = m\<lparr>status := DeadLetter\<rparr> in
                (case iso_string P now of
                   None \<Rightarrow> (Inl DateRange, store key m1 st)
                 | Some s \<Rightarrow>
                     let m2 = m1\<lparr>dead_lettered_at := Some s, last_error := Some (retry_error pol),
                           lease_owner := None, lease_expires_at := None\<rparr>
                     in (Inr m2, store key m2 st))
              else
                let m1 = m\<lparr>status := Pending\<rparr> in
                (case iso_string P (now + backoff base maxd (attempts m)) of
                   None \<Rightarrow> (Inl DateRange, store key m1 st)
                 | Some s \<Rightarrow>
                     let m2 = m1\<lparr>available_at := s, last_error := Some (retry_error pol),
                           lease_owner := None, lease_expires_at := None\<rparr>
                     in (Inr m2, store key m2 st))
          | _ \<Rightarrow> (Inl InvalidRetryPolicy, st)))"

definition lease_expired :: "platform \<Rightarrow> int \<Rightarrow> string \<times> outbox_message \<Rightarrow> bool" where
  "lease_expired P now km = (status (snd km) = Leased \<and>
     (case lease_expires_at (snd km) of None \<Rightarrow> False
      | Some s \<Rightarrow> (case date_parse P s of None \<Rightarrow> False | Some t \<Rightarrow> t \<le> now)))"

fun recover_loop ::
    "platform \<Rightarrow> int \<Rightarrow> (string \<times> outbox_message) list \<Rightarrow> outbox \<Rightarrow> (outbox_error, unit) result \<times> outbox" where
  "recover_loop P now [] st = (Inr (), st)"
| "recover_loop P now ((key, m) # rest) st =
     (case iso_string P now of
        None \<Rightarrow> (Inl DateRange, store key (m\<lparr>status := Pending\<rparr>) st)
      | Some s \<Rightarrow> recover_loop P now rest
          (store key (m\<lparr>status := Pending, available_at := s, lease_owner := None,
             lease_expires_at := None\<rparr>) st))"

definition recover_expired_leases ::
    "platform \<Rightarrow> string \<Rightarrow> outbox \<Rightarrow> (outbox_error, int) result \<times> outbox" where
  "recover_expired_leases P now_value st =
     (case date_parse P now_value of
        None \<Rightarrow> (Inl InvalidTimestamp, st)
      | Some now \<Rightarrow>
          let expired = filter (lease_expired P now) (messages st) in
          case recover_loop P now expired st of
            (Inl e, st') \<Rightarrow> (Inl e, st')
          | (Inr _, st') \<Rightarrow> (Inr (int (length expired)), st'))"

definition outbox_list :: "platform \<Rightarrow> outbox \<Rightarrow> outbox_message list" where
  "outbox_list P st =
     map snd (sort_by (\<lambda>a b. or_else (locale_compare P (created_at (snd a)) (created_at (snd b)))
        (locale_compare P (msg_id (snd a)) (msg_id (snd b)))) (messages st))"


section \<open>The life of a message\<close>

text \<open>What no operation changes in a message.\<close>

definition same_identity :: "outbox_message \<Rightarrow> outbox_message \<Rightarrow> bool" where
  "same_identity m m' = (tenant_id m' = tenant_id m \<and> msg_id m' = msg_id m \<and> dedupe_key m' = dedupe_key m
     \<and> event_id m' = event_id m \<and> stream_id m' = stream_id m \<and> stream_version m' = stream_version m
     \<and> event_type m' = event_type m \<and> topic m' = topic m \<and> publication_key m' = publication_key m
     \<and> payload m' = payload m \<and> created_at m' = created_at m)"

text \<open>The transitions between delivery states; claiming counts an attempt.\<close>

inductive transition :: "outbox_status \<Rightarrow> outbox_status \<Rightarrow> bool" where
  claimed: "transition Pending Leased"
| acknowledged: "transition Leased Delivered"
| dead_lettered: "transition Leased DeadLetter"
| released: "transition Leased Pending"

inductive_simps transition_from [simp]:
  "transition Pending s" "transition Leased s" "transition Delivered s" "transition DeadLetter s"

definition msg_step :: "outbox_message \<Rightarrow> outbox_message \<Rightarrow> bool" where
  "msg_step m m' = (m' = m \<or>
     (same_identity m m' \<and> transition (status m) (status m') \<and>
      (status m' = Leased \<longrightarrow> lease_owner m' \<noteq> None) \<and>
      attempts m' = attempts m + (if status m = Pending then 1 else 0)))"

lemma msg_step_refl [simp]: "msg_step m m"
  by (simp add: msg_step_def)

definition updates_on :: "string set \<Rightarrow> outbox \<Rightarrow> outbox \<Rightarrow> bool" where
  "updates_on K st st' = (outbox_tenant st' = outbox_tenant st
     \<and> map fst (messages st') = map fst (messages st)
     \<and> (\<forall>k m. omap_get (messages st) k = Some m \<longrightarrow>
          (\<exists>m'. omap_get (messages st') k = Some m' \<and> msg_step m m' \<and> (k \<notin> K \<longrightarrow> m' = m))))"

lemma updates_on_refl [simp]: "updates_on K st st"
  by (simp add: updates_on_def)

lemma messages_store [simp]: "omap_get (messages (store k m st)) k' = (if k' = k then Some m else omap_get (messages st) k')"
  "outbox_tenant (store k m st) = outbox_tenant st"
  by (simp_all add: store_def)

lemma updates_on_store:
  assumes "omap_get (messages st) k = Some m" "msg_step m m'"
  shows "updates_on {k} st (store k m' st)"
proof -
  have "k \<in> fst ` set (messages st)" using assms(1) by (force dest: map_of_SomeD)
  then show ?thesis using assms by (auto simp: updates_on_def store_def omap_keys_set)
qed

lemma updates_on_mono: "updates_on K st st' \<Longrightarrow> K \<subseteq> L \<Longrightarrow> updates_on L st st'"
  unfolding updates_on_def by blast

lemma updates_on_trans:
  assumes "updates_on K st st'" "updates_on L st' st''" "K \<inter> L = {}"
  shows "updates_on (K \<union> L) st st''"
  unfolding updates_on_def
proof (intro conjI allI impI)
  fix k m assume m: "omap_get (messages st) k = Some m"
  from assms(1) m obtain m' where m': "omap_get (messages st') k = Some m'" "msg_step m m'" "k \<notin> K \<longrightarrow> m' = m"
    unfolding updates_on_def by blast
  from assms(2) m'(1) obtain m'' where "omap_get (messages st'') k = Some m''" "msg_step m' m''" "k \<notin> L \<longrightarrow> m'' = m'"
    unfolding updates_on_def by blast
  then show "\<exists>m'. omap_get (messages st'') k = Some m' \<and> msg_step m m' \<and> (k \<notin> K \<union> L \<longrightarrow> m' = m)"
    using m' assms(3) by blast
qed (use assms in \<open>auto simp: updates_on_def\<close>)

lemma claim_loop_updates:
  assumes "distinct (map fst kms)"
    and "\<And>k m. (k, m) \<in> set kms \<Longrightarrow> omap_get (messages st) k = Some m \<and> status m = Pending"
  shows "updates_on (fst ` set kms) st (snd (claim_loop P worker expiry kms st))"
  using assms
proof (induction P worker expiry kms st rule: claim_loop.induct)
  case (2 P worker expiry key m rest st)
  let ?m1 = "m\<lparr>status := Leased, attempts := attempts m + 1, lease_owner := Some worker\<rparr>"
  have km: "omap_get (messages st) key = Some m" "status m = Pending" using "2.prems"(2) [of key m] by simp_all
  have step: "msg_step m ?m1" "msg_step m (?m1\<lparr>lease_expires_at := x\<rparr>)" for x
    using km by (simp_all add: msg_step_def same_identity_def)
  show ?case
  proof (cases "iso_string P expiry")
    case None
    then show ?thesis
      using updates_on_mono [OF updates_on_store [OF km(1) step(1)], of "fst ` set ((key, m) # rest)"] by (simp add: Let_def)
  next
    case (Some s)
    let ?st = "store key (?m1\<lparr>lease_expires_at := Some s\<rparr>) st"
    have "updates_on (fst ` set rest) ?st (snd (claim_loop P worker expiry rest ?st))"
      using "2.prems" by (intro "2.IH" [OF refl Some refl]) force+
    then have "updates_on ({key} \<union> fst ` set rest) st (snd (claim_loop P worker expiry rest ?st))"
      using "2.prems"(1) by (intro updates_on_trans [OF updates_on_store [OF km(1) step(2)]]) auto
    then show ?thesis using Some by (auto simp: Let_def split: prod.splits sum.splits)
  qed
qed simp

lemma recover_loop_updates:
  assumes "distinct (map fst kms)"
    and "\<And>k m. (k, m) \<in> set kms \<Longrightarrow> omap_get (messages st) k = Some m \<and> status m = Leased"
  shows "updates_on (fst ` set kms) st (snd (recover_loop P now kms st))"
  using assms
proof (induction P now kms st rule: recover_loop.induct)
  case (2 P now key m rest st)
  have km: "omap_get (messages st) key = Some m" "status m = Leased" using "2.prems"(2) [of key m] by simp_all
  have step: "msg_step m (m\<lparr>status := Pending\<rparr>)"
    "msg_step m (m\<lparr>status := Pending, available_at := x, lease_owner := None, lease_expires_at := None\<rparr>)" for x
    using km by (simp_all add: msg_step_def same_identity_def)
  show ?case
  proof (cases "iso_string P now")
    case None
    then show ?thesis
      using updates_on_mono [OF updates_on_store [OF km(1) step(1)], of "fst ` set ((key, m) # rest)"] by simp
  next
    case (Some s)
    let ?st = "store key (m\<lparr>status := Pending, available_at := s, lease_owner := None, lease_expires_at := None\<rparr>) st"
    have "updates_on (fst ` set rest) ?st (snd (recover_loop P now rest ?st))"
      using "2.prems" by (intro "2.IH" [OF Some]) force+
    then have "updates_on ({key} \<union> fst ` set rest) st (snd (recover_loop P now rest ?st))"
      using "2.prems"(1) by (intro updates_on_trans [OF updates_on_store [OF km(1) step(2)]]) auto
    then show ?thesis using Some by simp
  qed
qed simp

text \<open>The messages of a well-formed outbox, and a part of them.\<close>

definition delivery_state_ok :: "outbox_message \<Rightarrow> bool" where
  "delivery_state_ok m = (0 \<le> attempts m \<and> (status m = Leased \<longrightarrow> lease_owner m \<noteq> None \<and> 0 < attempts m))"

definition message_wf :: "platform \<Rightarrow> string \<Rightarrow> string \<Rightarrow> outbox_message \<Rightarrow> bool" where
  "message_wf P tenant key m = (tenant_id m = tenant \<and> dedupe_key m = key \<and> msg_id m = ''outbox.'' @ key
     \<and> expected_dedupe_key P (event_id m) (topic m) (publication_key m) = Inr key
     \<and> delivery_state_ok m)"

definition outbox_inv :: "platform \<Rightarrow> outbox \<Rightarrow> bool" where
  "outbox_inv P st = (omap_wf (messages st) \<and>
     (\<forall>k m. omap_get (messages st) k = Some m \<longrightarrow> message_wf P (outbox_tenant st) k m))"

lemma part_of_messages:
  assumes "omap_wf (messages st)" "mset kms \<subseteq># mset (messages st)"
  shows "distinct (map fst kms)" "(k, m) \<in> set kms \<Longrightarrow> omap_get (messages st) k = Some m"
proof -
  have "mset (map fst kms) \<subseteq># mset (map fst (messages st))"
    using image_mset_subseteq_mono [OF assms(2), of fst] by (simp add: mset_map)
  then obtain rest where "mset (map fst (messages st)) = mset (map fst kms @ rest)"
    by (metis ex_mset mset_append subset_mset.add_diff_inverse)
  then have "distinct (map fst kms @ rest)"
    using assms(1) mset_eq_imp_distinct_iff unfolding omap_wf_def by blast
  then show "distinct (map fst kms)" by simp
  assume "(k, m) \<in> set kms"
  then have "(k, m) \<in> set (messages st)" using assms(2) by (metis mset_subset_eqD set_mset_mset)
  then show "omap_get (messages st) k = Some m" by (rule omap_wf_in_set [OF assms(1)])
qed

lemma mset_take_subset: "mset (take n xs) \<subseteq># mset xs"
  by (metis append_take_drop_id mset_append mset_subset_eq_add_left)

lemma claim_updates:
  assumes "omap_wf (messages st)"
  shows "updates_on UNIV st (snd (claim P opt st))"
proof -
  have "updates_on UNIV st (snd (claim_loop P w x
      (take n (sort_by (claim_order P) (filter (eligible P now) (messages st)))) st))" for w x n now
  proof -
    let ?kms = "take n (sort_by (claim_order P) (filter (eligible P now) (messages st)))"
    have "mset ?kms \<subseteq># mset (messages st)"
      using mset_take_subset [of n "sort_by (claim_order P) (filter (eligible P now) (messages st))"]
      by (metis mset_filter mset_sort_by multiset_filter_subset subset_mset.order_trans)
    note part = part_of_messages [OF assms this]
    have "status m = Pending" if "(k, m) \<in> set ?kms" for k m
      using in_set_takeD [OF that] by (auto simp: eligible_def)
    with part show ?thesis
      using updates_on_mono [OF claim_loop_updates [of ?kms st P w x]] by blast
  qed
  then show ?thesis by (auto simp: claim_def split: option.splits)
qed

lemma leased_messageD:
  assumes "leased_message P opt st = Inr (key, m, now)"
  shows "(key, m) \<in> set (messages st)" "status m = Leased" "lease_owner m = Some (lease_worker opt)"
    "msg_id m = lease_message opt" "date_parse P (lease_now opt) = Some now"
    "\<And>s t. lease_expires_at m = Some s \<Longrightarrow> date_parse P s = Some t \<Longrightarrow> now < t"
  using assms
  by (auto simp: leased_message_def find_Some_iff in_set_conv_nth split: option.splits prod.splits if_splits)

lemma acknowledge_updates:
  assumes "omap_wf (messages st)"
  shows "updates_on UNIV st (snd (acknowledge P opt receipt st))"
proof (cases "leased_message P opt st")
  case (Inr r)
  then obtain key m now where r: "leased_message P opt st = Inr (key, m, now)" by (cases r) auto
  note L = leased_messageD [OF r]
  have get: "omap_get (messages st) key = Some m" by (rule omap_wf_in_set [OF assms L(1)])
  have "updates_on UNIV st (store key m' st)" if "msg_step m m'" for m'
    using updates_on_mono [OF updates_on_store [OF get that]] by blast
  then show ?thesis using L(2) r
    by (auto simp: acknowledge_def Let_def msg_step_def same_identity_def split: option.splits)
qed (simp add: acknowledge_def)

lemma retry_updates:
  assumes "omap_wf (messages st)"
  shows "updates_on UNIV st (snd (retry P opt pol st))"
proof (cases "leased_message P opt st")
  case (Inr r)
  then obtain key m now where r: "leased_message P opt st = Inr (key, m, now)" by (cases r) auto
  note L = leased_messageD [OF r]
  have get: "omap_get (messages st) key = Some m" by (rule omap_wf_in_set [OF assms L(1)])
  have "updates_on UNIV st (store key m' st)" if "msg_step m m'" for m'
    using updates_on_mono [OF updates_on_store [OF get that]] by blast
  then show ?thesis using L(2) r
    by (auto simp: retry_def Let_def msg_step_def same_identity_def split: option.splits)
qed (simp add: retry_def)

lemma recover_updates:
  assumes "omap_wf (messages st)"
  shows "updates_on UNIV st (snd (recover_expired_leases P now_value st))"
proof (cases "date_parse P now_value")
  case (Some now)
  let ?kms = "filter (lease_expired P now) (messages st)"
  have "mset ?kms \<subseteq># mset (messages st)" by simp
  note part = part_of_messages [OF assms this]
  have "status m = Leased" if "(k, m) \<in> set ?kms" for k m using that by (auto simp: lease_expired_def)
  with part have "updates_on UNIV st (snd (recover_loop P now ?kms st))"
    using updates_on_mono [OF recover_loop_updates [of ?kms st P now]] by blast
  then show ?thesis using Some
    by (auto simp: recover_expired_leases_def Let_def split: prod.splits sum.splits)
qed (simp add: recover_expired_leases_def)

lemma updates_on_inv:
  assumes "updates_on K st st'" "outbox_inv P st"
  shows "outbox_inv P st'"
  unfolding outbox_inv_def
proof (intro conjI allI impI)
  have keys: "map fst (messages st') = map fst (messages st)" and tenant: "outbox_tenant st' = outbox_tenant st"
    using assms(1) by (simp_all add: updates_on_def)
  show "omap_wf (messages st')" using assms(2) keys by (simp add: outbox_inv_def omap_wf_def)
  fix k m' assume m': "omap_get (messages st') k = Some m'"
  then have "k \<in> fst ` set (messages st')" by (force dest: map_of_SomeD)
  then have "k \<in> fst ` set (messages st)" using keys by (metis list.set_map)
  then obtain m where m: "omap_get (messages st) k = Some m" by (metis omap_get_None option.exhaust)
  then have "msg_step m m'" using assms(1) m' unfolding updates_on_def by fastforce
  moreover have "message_wf P (outbox_tenant st) k m" using assms(2) m by (simp add: outbox_inv_def)
  ultimately show "message_wf P (outbox_tenant st') k m'"
    by (auto simp: msg_step_def message_wf_def same_identity_def tenant delivery_state_ok_def elim: transition.cases)
qed

text \<open>Enqueueing changes nothing, or appends one pending message under a new key.\<close>

lemma enqueue_cases:
  obtains (known) key m where "enqueue_from_committed_event P e p st = (Inr m, st)"
    "expected_dedupe_key P (ce_id e) (pub_topic p) (pub_key p) = Inr key" "omap_get (messages st) key = Some m"
  | (added) key m where "enqueue_from_committed_event P e p st = (Inr m, store key m st)"
    "expected_dedupe_key P (ce_id e) (pub_topic p) (pub_key p) = Inr key" "omap_get (messages st) key = None"
    "message_wf P (outbox_tenant st) key m" "status m = Pending" "attempts m = 0"
    "event_id m = ce_id e" "topic m = pub_topic p" "publication_key m = pub_key p"
  | (failed) err where "enqueue_from_committed_event P e p st = (Inl err, st)"
proof (cases "expected_dedupe_key P (ce_id e) (pub_topic p) (pub_key p)")
  case (Inl err)
  then show ?thesis by (intro failed [of err]) (simp add: enqueue_from_committed_event_def)
next
  case (Inr key)
  show ?thesis
  proof (cases "omap_get (messages st) key")
    case (Some m)
    then show ?thesis using Inr by (intro known [of m key]) (simp_all add: enqueue_from_committed_event_def)
  next
    case None
    show ?thesis
    proof (cases "cloneable (if pub_payload p = JUndef \<or> pub_payload p = JNull then ce_payload e else pub_payload p)")
      case True
      with None Inr show ?thesis
        by (intro added [of "the_inv Inr (fst (enqueue_from_committed_event P e p st))" key])
          (auto simp: enqueue_from_committed_event_def Let_def store_def message_wf_def delivery_state_ok_def the_inv_f_f)
    next
      case False
      with None Inr show ?thesis
        by (intro failed [of NotCloneable]) (simp add: enqueue_from_committed_event_def Let_def)
    qed
  qed
qed

lemma store_new_inv:
  assumes "outbox_inv P st" "omap_get (messages st) key = None" "message_wf P (outbox_tenant st) key m"
  shows "outbox_inv P (store key m st)"
proof -
  have "omap_wf (messages (store key m st))"
    using assms(1) by (simp add: outbox_inv_def store_def omap_wf_set)
  with assms show ?thesis by (auto simp: outbox_inv_def split: if_splits)
qed

lemma enqueue_inv: "outbox_inv P st \<Longrightarrow> outbox_inv P (snd (enqueue_from_committed_event P e p st))"
  by (cases P e p st rule: enqueue_cases) (auto intro: store_new_inv)

lemma load_messages_inv:
  assumes "load_messages P ms st = Inr st'" "outbox_inv P st"
    "\<forall>m \<in> set ms. delivery_state_ok m"
  shows "outbox_inv P st'"
  using assms
proof (induction P ms st rule: load_messages.induct)
  case (2 P m ms st)
  from "2.prems"(1) obtain key where key:
    "expected_dedupe_key P (event_id m) (topic m) (publication_key m) = Inr key"
    by (auto simp: bind_result_Inr_iff)
  with "2.prems"(1) have ok: "tenant_id m = outbox_tenant st" "dedupe_key m = key" "msg_id m = ''outbox.'' @ key"
      "omap_get (messages st) key = None"
    and load: "cloneable (payload m)" "load_messages P ms (store key m st) = Inr st'"
    by (auto simp: omap_has_def store_def split: if_splits)
  have "message_wf P (outbox_tenant st) key m" using ok key "2.prems"(3) by (simp add: message_wf_def)
  then have "outbox_inv P (store key m st)" using store_new_inv "2.prems"(2) ok(4) by blast
  then show ?case using "2.IH" [OF key] load ok "2.prems"(3) by (simp add: omap_has_def store_def)
qed simp

section \<open>Reachable states\<close>

text \<open>The calls on an instance; a call that throws leaves a state behind, too.\<close>

inductive outbox_step :: "platform \<Rightarrow> outbox \<Rightarrow> outbox \<Rightarrow> bool" for P where
  enqueues: "outbox_step P st (snd (enqueue_from_committed_event P e p st))"
| claims: "outbox_step P st (snd (claim P opt st))"
| acknowledges: "outbox_step P st (snd (acknowledge P lopt receipt st))"
| retries: "outbox_step P st (snd (retry P lopt pol st))"
| recovers: "outbox_step P st (snd (recover_expired_leases P now_value st))"

inductive outbox_run :: "platform \<Rightarrow> outbox \<Rightarrow> outbox \<Rightarrow> bool" for P where
  run_refl: "outbox_run P st st"
| run_step: "outbox_run P st st' \<Longrightarrow> outbox_step P st' st'' \<Longrightarrow> outbox_run P st st''"

lemma outbox_step_cases:
  assumes "outbox_step P st st'" "omap_wf (messages st)"
  shows "updates_on UNIV st st' \<or> (\<exists>e p. st' = snd (enqueue_from_committed_event P e p st))"
  using assms by cases (auto simp: claim_updates acknowledge_updates retry_updates recover_updates)

lemma outbox_step_inv: "outbox_step P st st' \<Longrightarrow> outbox_inv P st \<Longrightarrow> outbox_inv P st'"
  using outbox_step_cases [of P st st'] updates_on_inv enqueue_inv by (auto simp: outbox_inv_def)

lemma outbox_run_inv: "outbox_run P st st' \<Longrightarrow> outbox_inv P st \<Longrightarrow> outbox_inv P st'"
  by (induction rule: outbox_run.induct) (auto intro: outbox_step_inv)

lemma outbox_step_message:
  assumes "outbox_step P st st'" "outbox_inv P st" "omap_get (messages st) k = Some m"
  shows "\<exists>m'. omap_get (messages st') k = Some m' \<and> msg_step m m'"
proof -
  from assms(2) have "omap_wf (messages st)" by (simp add: outbox_inv_def)
  from outbox_step_cases [OF assms(1) this] show ?thesis
  proof (elim disjE exE)
    assume "updates_on UNIV st st'"
    then show ?thesis using assms(3) unfolding updates_on_def by blast
  next
    fix e p assume "st' = snd (enqueue_from_committed_event P e p st)"
    then show ?thesis using assms(3) by (cases P e p st rule: enqueue_cases) auto
  qed
qed

lemma msg_step_final: "msg_step m m' \<Longrightarrow> status m \<in> {Delivered, DeadLetter} \<Longrightarrow> m' = m"
  by (auto simp: msg_step_def)

lemma msg_step_keeps: "msg_step m m' \<Longrightarrow> same_identity m m' \<and> attempts m \<le> attempts m'"
  by (auto simp: msg_step_def same_identity_def)

lemma same_identity_trans: "same_identity m m' \<Longrightarrow> same_identity m' m'' \<Longrightarrow> same_identity m m''"
  by (simp add: same_identity_def)

lemma outbox_run_message:
  assumes "outbox_run P st st'" "outbox_inv P st" "omap_get (messages st) k = Some m"
  shows "\<exists>m'. omap_get (messages st') k = Some m' \<and> same_identity m m' \<and> attempts m \<le> attempts m'
    \<and> (status m \<in> {Delivered, DeadLetter} \<longrightarrow> m' = m)"
  using assms
proof (induction rule: outbox_run.induct)
  case (run_refl st)
  then show ?case by (simp add: same_identity_def)
next
  case (run_step st st' st'')
  then obtain m' where m': "omap_get (messages st') k = Some m'" "same_identity m m'" "attempts m \<le> attempts m'"
    "status m \<in> {Delivered, DeadLetter} \<longrightarrow> m' = m" by blast
  have "outbox_inv P st'" using run_step outbox_run_inv by blast
  from outbox_step_message [OF run_step.hyps(2) this m'(1)]
  obtain m'' where "omap_get (messages st'') k = Some m''" "msg_step m' m''" by blast
  then show ?case using m' msg_step_final msg_step_keeps same_identity_trans
    by (metis order_trans)
qed

section \<open>Leases\<close>

text \<open>What a claim makes of a message: the lease runs to the instant \<open>expiry\<close>.\<close>

definition leased_by :: "platform \<Rightarrow> string \<Rightarrow> int \<Rightarrow> outbox_message \<Rightarrow> outbox_message" where
  "leased_by P worker expiry m = m\<lparr>status := Leased, attempts := attempts m + 1, lease_owner := Some worker,
     lease_expires_at := iso_string P expiry\<rparr>"

lemma claim_loop_result:
  assumes "claim_loop P worker expiry kms st = (Inr ms, st')" "distinct (map fst kms)"
  shows "ms = map (\<lambda>(k, m). leased_by P worker expiry m) kms \<and>
    (\<forall>k. omap_get (messages st') k = (case map_of kms k of None \<Rightarrow> omap_get (messages st) k
       | Some m \<Rightarrow> Some (leased_by P worker expiry m))) \<and> (kms \<noteq> [] \<longrightarrow> iso_string P expiry \<noteq> None)"
  using assms
proof (induction P worker expiry kms st arbitrary: ms rule: claim_loop.induct)
  case (2 P worker expiry key m rest st)
  then obtain s where s: "iso_string P expiry = Some s" by (auto simp: Let_def split: option.splits)
  let ?m = "m\<lparr>status := Leased, attempts := attempts m + 1, lease_owner := Some worker,
    lease_expires_at := Some s\<rparr>"
  from "2.prems"(1) s obtain ms' where ms': "claim_loop P worker expiry rest (store key ?m st) = (Inr ms', st')"
    "ms = ?m # ms'" by (auto simp: Let_def split: prod.splits sum.splits)
  have "map_of rest key = None" using "2.prems"(2) by (auto simp: map_of_eq_None_iff)
  then show ?case using "2.IH" [OF refl s refl ms'(1)] "2.prems"(2) ms'(2) s
    by (auto simp: leased_by_def split: option.splits)
qed auto

lemma claimD:
  assumes "claim P opt st = (Inr ms, st')"
  obtains now lease limit where "date_parse P (claim_now opt) = Some now" "js_integer (lease_ms opt) = Some lease"
    "js_integer (claim_limit opt) = Some limit" "0 < lease" "0 < limit"
    "claim_loop P (claim_worker opt) (now + lease)
       (take (nat limit) (sort_by (claim_order P) (filter (eligible P now) (messages st)))) st = (Inr ms, st')"
  using assms by (auto simp: claim_def split: option.splits if_splits)

lemma selection_part:
  assumes "omap_wf (messages st)"
  shows "distinct (map fst (take n (sort_by c (filter Q (messages st)))))"
    "(k, m) \<in> set (take n (sort_by c (filter Q (messages st)))) \<Longrightarrow> omap_get (messages st) k = Some m \<and> Q (k, m)"
proof -
  have "mset (take n (sort_by c (filter Q (messages st)))) \<subseteq># mset (messages st)"
    using mset_take_subset [of n "sort_by c (filter Q (messages st))"]
    by (metis mset_filter mset_sort_by multiset_filter_subset subset_mset.order_trans)
  note part = part_of_messages [OF assms this]
  then show "distinct (map fst (take n (sort_by c (filter Q (messages st)))))" by blast
  assume "(k, m) \<in> set (take n (sort_by c (filter Q (messages st))))"
  with part(2) in_set_takeD [OF this] show "omap_get (messages st) k = Some m \<and> Q (k, m)" by auto
qed

lemma recover_loop_result:
  assumes "recover_loop P now kms st = (Inr (), st')" "distinct (map fst kms)" "iso_string P now = Some s"
  shows "omap_get (messages st') k = (case map_of kms k of None \<Rightarrow> omap_get (messages st) k
    | Some m \<Rightarrow> Some (m\<lparr>status := Pending, available_at := s, lease_owner := None, lease_expires_at := None\<rparr>))"
  using assms
proof (induction P now kms st rule: recover_loop.induct)
  case (2 P now key m rest st)
  have "map_of rest key = None" using "2.prems"(2) by (auto simp: map_of_eq_None_iff)
  then show ?case using "2.IH" [OF "2.prems"(3)] "2.prems" by (auto split: option.splits)
qed simp

lemma sorted_take_least:
  assumes "sorted_wrt R xs" "x \<in> set (take n xs)" "y \<in> set xs" "y \<notin> set (take n xs)"
  shows "R x y"
proof -
  have "y \<in> set (drop n xs)" using assms(3,4) by (metis Un_iff append_take_drop_id set_append)
  then show ?thesis using assms(1,2)
    by (metis append_take_drop_id sorted_wrt_append)
qed

lemma claim_order_comparator:
  assumes "comparator (locale_compare P)"
  shows "comparator (claim_order P)"
proof -
  have key: "comparator (\<lambda>a b. locale_compare P (f a) (f b))" for f :: "string \<times> outbox_message \<Rightarrow> string"
    using assms unfolding comparator_def by blast
  show ?thesis using comparator_or_else [OF key comparator_or_else [OF key key]]
    by (simp add: claim_order_def [abs_def])
qed

lemma load_messages_tenant: "load_messages P ms st = Inr st' \<Longrightarrow> outbox_tenant st' = outbox_tenant st"
  by (induction P ms st rule: load_messages.induct)
    (auto simp: bind_result_Inr_iff split: if_splits)

lemma outbox_run_tenant:
  assumes "outbox_run P st st'" "outbox_inv P st"
  shows "outbox_tenant st' = outbox_tenant st"
  using assms
proof (induction rule: outbox_run.induct)
  case (run_step st st' st'')
  then have "omap_wf (messages st')" using outbox_run_inv by (simp add: outbox_inv_def)
  from outbox_step_cases [OF run_step.hyps(2) this] show ?case
  proof (elim disjE exE)
    assume "updates_on UNIV st' st''"
    then show ?thesis using run_step by (simp add: updates_on_def)
  next
    fix e p assume "st'' = snd (enqueue_from_committed_event P e p st')"
    then show ?thesis using run_step by (cases P e p st' rule: enqueue_cases) auto
  qed
qed simp

text \<open>The caller of a lease mutation owns the lease and it has not run out.\<close>

definition holds_lease :: "platform \<Rightarrow> lease_options \<Rightarrow> outbox_message \<Rightarrow> bool" where
  "holds_lease P opt m = (status m = Leased \<and> lease_owner m = Some (lease_worker opt) \<and>
     (case date_parse P (lease_now opt) of None \<Rightarrow> False
      | Some now \<Rightarrow> (case lease_expires_at m of None \<Rightarrow> True
          | Some s \<Rightarrow> (case date_parse P s of None \<Rightarrow> True | Some t \<Rightarrow> now < t))))"

lemma leased_message_found:
  assumes "outbox_inv P st" "omap_get (messages st) k = Some m" "msg_id m = lease_message opt"
  shows "find (\<lambda>km. msg_id (snd km) = lease_message opt) (messages st) = Some (k, m)"
proof (cases "find (\<lambda>km. msg_id (snd km) = lease_message opt) (messages st)")
  case None
  then show ?thesis using assms(2,3) by (force simp: find_None_iff dest: map_of_SomeD)
next
  case (Some km)
  obtain k' m' where km: "km = (k', m')" by (cases km)
  have "km \<in> set (messages st)" "msg_id (snd km) = lease_message opt"
    using Some by (auto simp: find_Some_iff)
  then have "(k', m') \<in> set (messages st)" "msg_id m' = lease_message opt" by (simp_all add: km)
  then have m': "omap_get (messages st) k' = Some m'" using assms(1) omap_wf_in_set by (auto simp: outbox_inv_def)
  have "msg_id m' = ''outbox.'' @ k'" "msg_id m = ''outbox.'' @ k"
    using assms(1,2) m' unfolding outbox_inv_def message_wf_def by blast+
  then have "k' = k" using assms(3) \<open>msg_id m' = lease_message opt\<close> by simp
  then show ?thesis using m' assms(2) km Some by simp
qed

lemma leased_message_iff:
  assumes "outbox_inv P st" "omap_get (messages st) k = Some m" "msg_id m = lease_message opt"
  shows "holds_lease P opt m \<longleftrightarrow> (\<exists>now. date_parse P (lease_now opt) = Some now \<and> leased_message P opt st = Inr (k, m, now))"
  using leased_message_found [OF assms]
  by (auto simp: leased_message_def holds_lease_def split: option.splits)

lemma leased_message_refused:
  assumes "outbox_inv P st" "omap_get (messages st) k = Some m" "msg_id m = lease_message opt" "\<not> holds_lease P opt m"
  shows "\<exists>e. leased_message P opt st = Inl e"
  using leased_message_found [OF assms(1-3)] assms(4)
  by (auto simp: leased_message_def holds_lease_def split: option.splits)

lemma acknowledge_stored:
  assumes "outbox_inv P st" "acknowledge P opt (Some r) st = (Inr m', st')"
  shows "\<exists>k. omap_get (messages st') k = Some m' \<and> msg_id m' = lease_message opt \<and> status m' = Delivered \<and>
    provider_id m' = Some (receipt_provider r) \<and> provider_message_id m' = Some (receipt_message r) \<and>
    provider_idempotency_key m' = Some (receipt_idempotency_key r)"
proof -
  obtain k m now where found: "leased_message P opt st = Inr (k, m, now)"
    using assms(2) by (auto simp: acknowledge_def split: sum.splits)
  have "msg_id m = lease_message opt" using leased_messageD [OF found] by simp
  with found assms(2) show ?thesis
    by (intro exI [of _ k]) (auto simp: acknowledge_def Let_def split: option.splits if_splits)
qed

lemma backoff_bounds: "0 < base \<Longrightarrow> base \<le> maxd \<Longrightarrow> base \<le> backoff base maxd n \<and> backoff base maxd n \<le> maxd"
  by (auto simp: backoff_def)

lemma backoff_mono:
  assumes "0 < base" "n \<le> n'"
  shows "backoff base maxd n \<le> backoff base maxd n'"
proof -
  have "(2::int) ^ nat (max 0 (n - 1)) \<le> 2 ^ nat (max 0 (n' - 1))" using assms(2) by (intro power_increasing) auto
  then have "base * 2 ^ nat (max 0 (n - 1)) \<le> base * 2 ^ nat (max 0 (n' - 1))" using assms(1) by (intro mult_left_mono) auto
  then show ?thesis unfolding backoff_def by linarith
qed

section \<open>A small outbox\<close>

definition sample_key :: string where
  "sample_key = json_text sample_platform
     (JObj [(''eventId'', JStr ''e''), (''publicationKey'', JStr ''k''), (''topic'', JStr ''p'')])"

definition sample_event :: committed_event where
  "sample_event = \<lparr>ce_id = ''e'', ce_stream_id = ''s'', ce_stream_version = 1, ce_type = ''DRAW'',
     ce_occurred_at = ''T0'', ce_committed_at = ''T1'', ce_payload = JNull\<rparr>"

definition sample_publication :: outbox_publication where
  "sample_publication = \<lparr>pub_topic = ''p'', pub_key = ''k'', pub_payload = JBool True\<rparr>"

definition sample_message :: outbox_message where
  "sample_message = \<lparr>tenant_id = ''t'', msg_id = ''outbox.'' @ sample_key, dedupe_key = sample_key,
     event_id = ''e'', stream_id = ''s'', stream_version = 1, event_type = ''DRAW'', topic = ''p'',
     publication_key = ''k'', payload = JBool True, status = Pending, attempts = 0, created_at = ''T1'',
     available_at = ''T1'', lease_owner = None, lease_expires_at = None, delivered_at = None,
     dead_lettered_at = None, last_error = None, provider_id = None, provider_message_id = None,
     provider_idempotency_key = None\<rparr>"

definition sample_claim :: claim_options where
  "sample_claim = \<lparr>claim_worker = ''w'', claim_now = ''T5'', lease_ms = Num (of_int 10), claim_limit = Num (of_int 1)\<rparr>"

definition sample_enqueued :: outbox where
  "sample_enqueued = \<lparr>outbox_tenant = ''t'', messages = [(sample_key, sample_message)]\<rparr>"

definition sample_leased :: outbox_message where
  "sample_leased = leased_by sample_platform ''w'' 15 sample_message"

definition sample_claimed :: outbox where
  "sample_claimed = \<lparr>outbox_tenant = ''t'', messages = [(sample_key, sample_leased)]\<rparr>"

lemma sample_key_normalise:
  "normalise (message_identity ''e'' ''p'' ''k'') =
   Inr (JObj [(''eventId'', JStr ''e''), (''publicationKey'', JStr ''k''), (''topic'', JStr ''p'')])"
  by (simp add: message_identity_def own_order_def drop_proto_def array_index_named less_char_def less_eq_char_def)

lemma sample_key: "expected_dedupe_key sample_platform ''e'' ''p'' ''k'' = Inr sample_key"
  by (simp add: expected_dedupe_key_def canonical_hash_def canonical_stringify_def sample_key_normalise
      sample_key_def del: json_text.simps) (simp add: sample_platform_def)

lemma sample_new: "new_outbox sample_platform ''t'' [] = Inr \<lparr>outbox_tenant = ''t'', messages = []\<rparr>"
  by (simp add: new_outbox_def bounded_identifier_def blank_iff is_space_def has_control_def)

lemma sample_enqueue:
  "enqueue_from_committed_event sample_platform sample_event sample_publication \<lparr>outbox_tenant = ''t'', messages = []\<rparr>
   = (Inr sample_message, sample_enqueued)"
  by (simp add: enqueue_from_committed_event_def sample_event_def sample_publication_def sample_key Let_def
      sample_message_def sample_enqueued_def)

lemma sample_dates:
  "date_parse sample_platform ''T1'' = Some 1" "date_parse sample_platform ''T5'' = Some 5"
  "date_parse sample_platform ''T15'' = Some 15" "iso_string sample_platform 15 = Some ''T15''"
  "iso_string sample_platform 5 = Some ''T5''"
  by (simp_all add: sample_platform_def sample_date_parse_def sample_iso_string_def digits_of.simps digit_chars)

lemma sample_claim_result:
  "claim sample_platform sample_claim sample_enqueued = (Inr [sample_leased], sample_claimed)"
  by (simp add: claim_def sample_claim_def sample_enqueued_def eligible_def sample_message_def sample_dates
      sample_leased_def sample_claimed_def leased_by_def store_def Let_def del: of_int_numeral of_int_1)

lemma sample_claim_run: "outbox_run sample_platform sample_enqueued sample_claimed"
  using outbox_run.run_step [OF outbox_run.run_refl outbox_step.claims [of sample_platform sample_enqueued sample_claim]]
  by (simp add: sample_claim_result)

lemma sample_enqueued_inv: "outbox_inv sample_platform sample_enqueued"
  by (simp add: outbox_inv_def omap_wf_def sample_enqueued_def message_wf_def delivery_state_ok_def sample_message_def sample_key)

lemma sample_claimed_inv: "outbox_inv sample_platform sample_claimed"
  using outbox_run_inv [OF sample_claim_run sample_enqueued_inv] .

lemma sample_enqueued_get: "omap_get (messages sample_enqueued) sample_key = Some sample_message"
  by (simp add: sample_enqueued_def)

lemma sample_run: "outbox_run sample_platform \<lparr>outbox_tenant = ''t'', messages = []\<rparr> sample_claimed"
proof -
  let ?st = "\<lparr>outbox_tenant = ''t'', messages = []\<rparr>"
  have "outbox_step sample_platform ?st sample_enqueued"
    using outbox_step.enqueues [of sample_platform ?st sample_event sample_publication] by (simp add: sample_enqueue)
  moreover have "outbox_step sample_platform sample_enqueued sample_claimed"
    using outbox_step.claims [of sample_platform sample_enqueued sample_claim] by (simp add: sample_claim_result)
  ultimately show ?thesis by (meson outbox_run.intros)
qed

section \<open>Properties\<close>

text \<open>
  C1. The invariant of the outbox. When the constructor accepts initial messages whose delivery states are sound (no negative count of
  attempts, and a leased message has an owner and an attempt: the constructor itself checks only tenant, identity and duplicates;
  no initial messages at all are sound), every state the outbox can reach, through any sequence of calls, those that throw
  included, is well formed: the keys are distinct, every message belongs to the tenant, is stored under the hash of its own
  event, topic and key and carries the identifier derived from it, the count of attempts is not negative, and a leased
  message has an owner and at least one attempt.
\<close>

theorem outbox_invariant:
  assumes "new_outbox P tenant initial = Inr st"
    and "\<forall>m \<in> set initial. delivery_state_ok m"
    and "outbox_run P st st'"
  shows "outbox_inv P st' \<and> outbox_tenant st' = tenant"
proof -
  have load: "load_messages P initial \<lparr>outbox_tenant = tenant, messages = []\<rparr> = Inr st"
    using assms(1) by (simp add: new_outbox_def split: if_splits)
  have inv: "outbox_inv P st"
    by (rule load_messages_inv [OF load _ assms(2)]) (simp add: outbox_inv_def omap_wf_def)
  have "outbox_tenant st = tenant"
    using load by (rule load_messages_tenant [where st = "\<lparr>outbox_tenant = tenant, messages = []\<rparr>", simplified])
  then show ?thesis using inv outbox_run_inv [OF assms(3)] outbox_run_tenant [OF assms(3)] by simp
qed

theorem outbox_invariant_witness:
  "outbox_inv sample_platform sample_claimed \<and> outbox_tenant sample_claimed = ''t''"
  using outbox_invariant [OF sample_new _ sample_run] by simp

text \<open>The constructor accepts a leased message that nobody owns.\<close>

definition sample_orphan :: outbox_message where
  "sample_orphan = sample_message\<lparr>status := Leased\<rparr>"

lemma orphan_accepted:
  "new_outbox sample_platform ''t'' [sample_orphan] = Inr \<lparr>outbox_tenant = ''t'', messages = [(sample_key, sample_orphan)]\<rparr>"
  "\<not> delivery_state_ok sample_orphan"
  by (simp_all add: new_outbox_def bounded_identifier_def blank_iff is_space_def has_control_def sample_orphan_def sample_message_def
      sample_key omap_has_def delivery_state_ok_def)

text \<open>
  No call ever loses a message or alters what it says: along any run a stored message
  stays stored under its key with the same identity and payload, its count of attempts never
  falls, and once it is delivered or dead-lettered it never changes again.
\<close>

theorem outbox_history:
  assumes "outbox_inv P st" "outbox_run P st st'" "omap_get (messages st) key = Some m"
  shows "\<exists>m'. omap_get (messages st') key = Some m' \<and> same_identity m m' \<and> attempts m \<le> attempts m'
    \<and> (status m \<in> {Delivered, DeadLetter} \<longrightarrow> m' = m)"
  using outbox_run_message [OF assms(2,1,3)] .

theorem outbox_history_witness:
  "\<exists>m'. omap_get (messages sample_claimed) sample_key = Some m' \<and> same_identity sample_message m'
    \<and> attempts sample_message \<le> attempts m' \<and> (status sample_message \<in> {Delivered, DeadLetter} \<longrightarrow> m' = sample_message)"
  using outbox_history [OF sample_enqueued_inv sample_claim_run sample_enqueued_get] .

text \<open>
  A successful claim leases the oldest available messages: it returns the first
  \<^verbatim>\<open>limit\<close> pending messages whose time has come (all of them when there are fewer), each once,
  each now owned by the worker until the end of the lease and with one more attempt, exactly as
  they are stored; a message left behind comes no earlier in the claim order than any claimed
  one, and no other message changes.
\<close>

theorem claim_leases_oldest:
  assumes inv: "outbox_inv P st" and collation: "comparator (locale_compare P)"
    and claim: "claim P opt st = (Inr ms, st')"
  shows "\<exists>now lease limit. date_parse P (claim_now opt) = Some now \<and> js_integer (lease_ms opt) = Some lease \<and>
    js_integer (claim_limit opt) = Some limit \<and> distinct (map dedupe_key ms) \<and>
    length ms = min (nat limit) (length (filter (eligible P now) (messages st))) \<and>
    (\<forall>m' \<in> set ms. \<exists>m. omap_get (messages st) (dedupe_key m') = Some m \<and> eligible P now (dedupe_key m', m) \<and>
       m' = leased_by P (claim_worker opt) (now + lease) m \<and> lease_expires_at m' \<noteq> None \<and>
       omap_get (messages st') (dedupe_key m') = Some m' \<and>
       (\<forall>k u. omap_get (messages st) k = Some u \<longrightarrow> eligible P now (k, u) \<longrightarrow> k \<notin> dedupe_key ` set ms \<longrightarrow>
          claim_order P (dedupe_key m', m) (k, u) \<le> 0)) \<and>
    (\<forall>k. k \<notin> dedupe_key ` set ms \<longrightarrow> omap_get (messages st') k = omap_get (messages st) k)"
proof -
  obtain now lease limit where parsed: "date_parse P (claim_now opt) = Some now"
      "js_integer (lease_ms opt) = Some lease" "js_integer (claim_limit opt) = Some limit"
    and loop: "claim_loop P (claim_worker opt) (now + lease)
       (take (nat limit) (sort_by (claim_order P) (filter (eligible P now) (messages st)))) st = (Inr ms, st')"
    by (rule claimD [OF claim])
  define kms where "kms = take (nat limit) (sort_by (claim_order P) (filter (eligible P now) (messages st)))"
  have wf: "omap_wf (messages st)" using inv by (simp add: outbox_inv_def)
  note part = selection_part [OF wf, where n = "nat limit" and c = "claim_order P" and Q = "eligible P now", folded kms_def]
  note result = claim_loop_result [OF loop [folded kms_def] part(1)]
  have key: "dedupe_key m = k" if "(k, m) \<in> set kms" for k m
    using part(2) [OF that] inv by (simp add: outbox_inv_def message_wf_def)
  have ms: "ms = map (\<lambda>(k, m). leased_by P (claim_worker opt) (now + lease) m) kms" using result by blast
  then have keys: "map dedupe_key ms = map fst kms" using key by (auto simp: leased_by_def)
  then have claimed: "dedupe_key ` set ms = fst ` set kms" by (metis set_map)
  have sorted: "sorted_wrt (\<lambda>a b. claim_order P a b \<le> 0) (sort_by (claim_order P) (filter (eligible P now) (messages st)))"
    by (rule comparator.sorted_sort_by [OF claim_order_comparator [OF collation]])
  have least: "claim_order P (k, m) (k', u) \<le> 0"
    if "(k, m) \<in> set kms" "omap_get (messages st) k' = Some u" "eligible P now (k', u)" "k' \<notin> dedupe_key ` set ms" for k m k' u
  proof (rule sorted_take_least [OF sorted that(1) [unfolded kms_def]])
    show "(k', u) \<in> set (sort_by (claim_order P) (filter (eligible P now) (messages st)))"
      using that(2,3) by (auto dest: map_of_SomeD)
    show "(k', u) \<notin> set (take (nat limit) (sort_by (claim_order P) (filter (eligible P now) (messages st))))"
      using that(4) unfolding claimed kms_def by force
  qed
  have each: "\<exists>m. omap_get (messages st) (dedupe_key m') = Some m \<and> eligible P now (dedupe_key m', m) \<and>
       m' = leased_by P (claim_worker opt) (now + lease) m \<and> lease_expires_at m' \<noteq> None \<and>
       omap_get (messages st') (dedupe_key m') = Some m' \<and>
       (\<forall>k u. omap_get (messages st) k = Some u \<longrightarrow> eligible P now (k, u) \<longrightarrow> k \<notin> dedupe_key ` set ms \<longrightarrow>
          claim_order P (dedupe_key m', m) (k, u) \<le> 0)" if "m' \<in> set ms" for m'
  proof -
    from that ms obtain k m where km: "(k, m) \<in> set kms" "m' = leased_by P (claim_worker opt) (now + lease) m" by auto
    then have k: "dedupe_key m' = k" using key by (simp add: leased_by_def)
    have "map_of kms k = Some m" using km(1) part(1) by simp
    then have "omap_get (messages st') k = Some m'" using result km(2) by simp
    moreover have "lease_expires_at m' \<noteq> None" using result km by (auto simp: leased_by_def)
    ultimately show ?thesis using part(2) [OF km(1)] km(2) least [OF km(1)] unfolding k by blast
  qed
  have rest: "omap_get (messages st') k = omap_get (messages st) k" if "k \<notin> dedupe_key ` set ms" for k
    using result that claimed by (auto simp: map_of_eq_None_iff split: option.splits dest: map_of_SomeD)
  have "length ms = min (nat limit) (length (filter (eligible P now) (messages st)))"
    by (simp add: ms kms_def)
  moreover have "distinct (map dedupe_key ms)" using keys part(1) by simp
  ultimately show ?thesis using parsed each rest by blast
qed

theorem claim_leases_oldest_witness:
  "\<exists>now lease limit. date_parse sample_platform ''T5'' = Some now \<and>
    js_integer (lease_ms sample_claim) = Some lease \<and> js_integer (claim_limit sample_claim) = Some limit \<and>
    distinct (map dedupe_key [sample_leased]) \<and>
    length [sample_leased] = min (nat limit) (length (filter (eligible sample_platform now) (messages sample_enqueued)))"
  using claim_leases_oldest [OF sample_enqueued_inv _ sample_claim_result]
    sample_collation [unfolded strict_comparator_def] by (simp add: sample_claim_def) blast

text \<open>
  C38. Fencing: a call that acknowledges or retries a stored message without holding its
  lease (the message is not leased, another worker owns it, the clock does not parse, or the
  lease has run out) throws and changes nothing.
\<close>

theorem lease_fencing:
  assumes "outbox_inv P st" "omap_get (messages st) key = Some m" "msg_id m = lease_message opt"
    and "\<not> holds_lease P opt m"
  shows "\<exists>e. acknowledge P opt receipt st = (Inl e, st) \<and> retry P opt pol st = (Inl e, st)"
  using leased_message_refused [OF assms] by (auto simp: acknowledge_def retry_def)

definition sample_stale :: lease_options where
  "sample_stale = \<lparr>lease_message = ''outbox.'' @ sample_key, lease_worker = ''w'', lease_now = ''T15''\<rparr>"

definition sample_policy :: retry_policy where
  "sample_policy = \<lparr>retry_error = ''DOWN'', max_attempts = Num (of_int 2), base_delay_ms = Num (of_int 10),
     max_delay_ms = Num (of_int 30)\<rparr>"

lemma sample_claimed_get: "omap_get (messages sample_claimed) sample_key = Some sample_leased"
  by (simp add: sample_claimed_def)

lemma sample_leased_facts:
  "msg_id sample_leased = ''outbox.'' @ sample_key" "status sample_leased = Leased" "attempts sample_leased = 1"
  "lease_owner sample_leased = Some ''w''" "lease_expires_at sample_leased = Some ''T15''"
  by (simp_all add: sample_leased_def leased_by_def sample_message_def sample_dates)

theorem lease_fencing_witness:
  "\<exists>e. acknowledge sample_platform sample_stale None sample_claimed = (Inl e, sample_claimed) \<and>
     retry sample_platform sample_stale sample_policy sample_claimed = (Inl e, sample_claimed)"
  by (rule lease_fencing [OF sample_claimed_inv sample_claimed_get])
    (simp_all add: sample_stale_def holds_lease_def sample_leased_facts sample_dates)

text \<open>
  A failed delivery reported by the holder of the lease is retried with exponential
  backoff or dead-lettered. Under a valid policy the message is dead-lettered exactly when its
  attempts have reached the maximum; otherwise it is pending again from
  \<^verbatim>\<open>now + min(maxDelay, baseDelay * 2^(attempts - 1))\<close>, a delay between the base and the
  maximum. Either way the lease is given up, the error is recorded and no other message changes.
\<close>

theorem retry_outcome:
  assumes "outbox_inv P st" "omap_get (messages st) key = Some m" "msg_id m = lease_message opt"
    and "holds_lease P opt m" "date_parse P (lease_now opt) = Some now"
    and "js_integer (max_attempts pol) = Some maximum" "js_integer (base_delay_ms pol) = Some base"
      "js_integer (max_delay_ms pol) = Some maxd" "retry_error pol \<noteq> []" "0 < maximum" "0 < base" "base \<le> maxd"
    and "iso_string P now = Some at_now" "iso_string P (now + backoff base maxd (attempts m)) = Some at_later"
  shows "\<exists>m'. retry P opt pol st = (Inr m', store key m' st) \<and> same_identity m m' \<and>
    lease_owner m' = None \<and> lease_expires_at m' = None \<and> last_error m' = Some (retry_error pol) \<and>
    attempts m' = attempts m \<and>
    (if maximum \<le> attempts m then status m' = DeadLetter \<and> dead_lettered_at m' = Some at_now
     else status m' = Pending \<and> available_at m' = at_later) \<and>
    base \<le> backoff base maxd (attempts m) \<and> backoff base maxd (attempts m) \<le> maxd"
proof -
  have "leased_message P opt st = Inr (key, m, now)"
    using leased_message_iff [OF assms(1-3)] assms(4,5) by auto
  then show ?thesis using assms(5-) backoff_bounds [of base maxd "attempts m"]
    by (simp add: retry_def Let_def same_identity_def)
qed

theorem retry_outcome_witness:
  "\<exists>m'. retry sample_platform (sample_stale\<lparr>lease_now := ''T5''\<rparr>) sample_policy sample_claimed
       = (Inr m', store sample_key m' sample_claimed) \<and> status m' = Pending \<and> available_at m' = ''T15''"
proof -
  have "iso_string sample_platform (5 + backoff 10 30 (attempts sample_leased)) = Some ''T15''"
    by (simp add: backoff_def sample_leased_facts sample_dates)
  note outcome = retry_outcome [OF sample_claimed_inv sample_claimed_get, where opt = "sample_stale\<lparr>lease_now := ''T5''\<rparr>"
      and pol = sample_policy and now = 5 and maximum = 2 and base = 10 and maxd = 30, OF _ _ _ _ _ _ _ _ _ _ _ this]
  show ?thesis using outcome
    by (simp add: sample_stale_def sample_policy_def holds_lease_def sample_leased_facts sample_dates
        del: of_int_numeral) blast
qed

text \<open>
  Enqueueing is idempotent for ever: after a message has been enqueued for an event, a
  topic and a key, and whatever is called in between, enqueueing again for the same three (even
  with another payload) returns the stored message, which has the identity and payload of the
  first, and changes nothing.
\<close>

theorem enqueue_idempotent:
  assumes "outbox_inv P st" "enqueue_from_committed_event P e p st = (Inr m, st')"
    and "outbox_run P st' st''" "ce_id e' = ce_id e" "pub_topic p' = pub_topic p" "pub_key p' = pub_key p"
  shows "\<exists>m'. enqueue_from_committed_event P e' p' st'' = (Inr m', st'') \<and> same_identity m m'"
proof -
  from assms(2) obtain key where key: "expected_dedupe_key P (ce_id e) (pub_topic p) (pub_key p) = Inr key"
    "omap_get (messages st') key = Some m"
    by (cases P e p st rule: enqueue_cases) auto
  have "outbox_inv P st'" using enqueue_inv [OF assms(1), of e p] assms(2) by simp
  from outbox_run_message [OF assms(3) this key(2)] obtain m' where
    "omap_get (messages st'') key = Some m'" "same_identity m m'" by blast
  then show ?thesis using key(1) assms(4-6) by (simp add: enqueue_from_committed_event_def)
qed

theorem enqueue_idempotent_witness:
  "\<exists>m'. enqueue_from_committed_event sample_platform (sample_event\<lparr>ce_payload := JBool False\<rparr>) sample_publication
     sample_claimed = (Inr m', sample_claimed) \<and> same_identity sample_message m'"
  by (rule enqueue_idempotent [OF _ sample_enqueue sample_claim_run])
    (simp_all add: outbox_inv_def omap_wf_def)

end
