(* ===== verification/DeliveryWorker.thy ===== *)
theory DeliveryWorker
  imports Outbox
begin

text \<open>
  packages/competition-engine/src/outbox-delivery-worker.ts: the worker that claims messages
  from an outbox, hands each to the provider of its topic and reports the outcome.

  \<^item> \<open>delivery_store\<close> is the interface \<^verbatim>\<open>OutboxDeliveryStore\<close>: four operations on a state \<open>'s\<close>.
  \<^item> A provider acts on the outside world \<open>'w\<close>, which is threaded through the run, so the order
    of the external calls is part of the model; a provider answers or throws.
  \<^item> \<open>run_once\<close> is one run of the worker: recovery and claim (\<open>start_run\<close>), then \<open>deliver_all\<close> over the batch.
  \<^item> At every \<^verbatim>\<open>await\<close> other callers may act on the store: \<open>rs_others\<close> lists what they do there, one function per await.
  \<^item> A telemetry sink may throw, which ends the run; it sees the events so far (\<open>wk_sink\<close> is false when it throws).
  \<^item> The locale \<open>lease_store\<close> states what the worker relies on; it is interpreted on the outbox of
    the theory \<open>Outbox\<close>.
\<close>

section \<open>Interfaces\<close>

record 's delivery_store =
  ds_claim :: "claim_options \<Rightarrow> 's \<Rightarrow> (outbox_error, outbox_message list) result \<times> 's"
  ds_acknowledge :: "lease_options \<Rightarrow> delivery_receipt option \<Rightarrow> 's \<Rightarrow> (outbox_error, outbox_message) result \<times> 's"
  ds_retry :: "lease_options \<Rightarrow> retry_policy \<Rightarrow> 's \<Rightarrow> (outbox_error, outbox_message) result \<times> 's"
  ds_recover :: "string \<Rightarrow> 's \<Rightarrow> (outbox_error, int) result \<times> 's"

record delivery_request =
  req_tenant :: string
  req_topic :: string
  req_publication_key :: string
  req_payload :: jsval
  req_idempotency_key :: string

text \<open>The answer of a provider: a status with a message identifier, or an exception.\<close>

datatype provider_answer =
    Answer string string
  | ProviderError string bool
  | OtherError

record 'w provider =
  prov_id :: string
  prov_topics :: "string list"
  prov_guarantee :: string
  prov_deliver :: "delivery_request \<Rightarrow> 'w \<Rightarrow> provider_answer \<times> 'w"

datatype telemetry =
    Recovered
  | Claimed string string int
  | DeliveredEvent string string string int
  | Retried string string "string option" int string
  | DeadLettered string string "string option" int string

record 'w worker_options =
  opt_tenant :: string
  opt_worker :: string
  opt_providers :: "'w provider list"
  opt_lease_ms :: "jsnum option"
  opt_batch_size :: "jsnum option"
  opt_max_attempts :: "jsnum option"
  opt_base_delay :: "jsnum option"
  opt_max_delay :: "jsnum option"
  opt_max_payload :: "jsnum option"
  opt_after_accepted :: "outbox_message \<Rightarrow> string \<Rightarrow> 'w \<Rightarrow> bool \<times> 'w"
  opt_sink :: "telemetry list \<Rightarrow> telemetry \<Rightarrow> bool"

record 'w worker =
  wk_tenant :: string
  wk_id :: string
  wk_lease_ms :: int
  wk_batch_size :: int
  wk_max_attempts :: int
  wk_base_delay :: int
  wk_max_delay :: int
  wk_max_payload :: int
  wk_providers :: "(string, 'w provider) omap"
  wk_after_accepted :: "outbox_message \<Rightarrow> string \<Rightarrow> 'w \<Rightarrow> bool \<times> 'w"
  wk_sink :: "telemetry list \<Rightarrow> telemetry \<Rightarrow> bool"

record run_summary =
  sum_claimed :: int
  sum_delivered :: int
  sum_retried :: int
  sum_dead_lettered :: int
  sum_recovered :: int

datatype worker_error =
    BadIdentifier string
  | BadLimits
  | BadProvider
  | DuplicateTopic string
  | BadClock
  | StoreFailed outbox_error
  | HookFailed
  | TelemetryFailed

text \<open>
  The state of a run: the store, the outside world, the telemetry emitted so far, and what other callers will do to the store
  at the coming awaits (nothing, when the list is empty).
\<close>

record ('s, 'w) run_state =
  rs_store :: 's
  rs_world :: 'w
  rs_telemetry :: "telemetry list"
  rs_others :: "('s \<Rightarrow> 's) list"

section \<open>Validation\<close>

text \<open>\<^verbatim>\<open>OutboxProviderError(code, retryable)\<close>; any other exception becomes the last case.\<close>

definition delivery_failed :: "string \<times> bool" where
  "delivery_failed = (''PROVIDER_DELIVERY_FAILED'', True)"

definition utf8_length :: "string \<Rightarrow> nat" where
  "utf8_length s = sum_list (map (\<lambda>c. if (of_char c :: nat) < 128 then 1 else 2) s)"

definition foreign_tenant :: "string \<Rightarrow> (string \<times> jsval) list \<Rightarrow> string \<Rightarrow> bool" where
  "foreign_tenant tenant kvs k = (case map_of kvs k of None \<Rightarrow> False | Some v \<Rightarrow> v \<noteq> JUndef \<and> v \<noteq> JStr tenant)"

text \<open>\<open>Inl (code, retryable)\<close> is what the \<^verbatim>\<open>catch\<close> of the run makes of the exception.\<close>

definition validate_message :: "platform \<Rightarrow> outbox_message \<Rightarrow> string \<Rightarrow> int \<Rightarrow> (string \<times> bool, unit) result" where
  "validate_message P m tenant max_bytes =
     (if tenant_id m \<noteq> tenant then Inl (''TENANT_MISMATCH'', False)
      else if \<not> bounded_identifier (topic m) 200 then Inl delivery_failed
      else if \<not> bounded_identifier (publication_key m) 500 then Inl delivery_failed
      else if \<not> assert_json (payload m) then Inl (''PAYLOAD_NOT_JSON'', False)
      else if (case payload m of JObj kvs \<Rightarrow>
          foreign_tenant tenant kvs ''tenantId'' \<or> foreign_tenant tenant kvs ''organizationId'' | _ \<Rightarrow> False)
      then Inl (''PAYLOAD_TENANT_MISMATCH'', False)
      else if max_bytes < int (utf8_length (json_text P (payload m))) then Inl (''PAYLOAD_TOO_LARGE'', False)
      else Inr ())"

definition validate_result :: "string \<Rightarrow> string \<Rightarrow> (string \<times> bool, unit) result" where
  "validate_result answer_status message =
     (if answer_status \<noteq> ''ACCEPTED'' \<and> answer_status \<noteq> ''DUPLICATE'' then Inl (''INVALID_PROVIDER_RESPONSE'', True)
      else if \<not> bounded_identifier message 500 then Inl delivery_failed
      else Inr ())"

definition provider_key :: "platform \<Rightarrow> string \<Rightarrow> string \<Rightarrow> outbox_message \<Rightarrow> string" where
  "provider_key P tenant prov m =
     (case canonical_hash P (JObj [(''tenantId'', JStr tenant), (''providerId'', JStr prov),
        (''dedupeKey'', JStr (dedupe_key m))]) of
        Inl _ \<Rightarrow> [] | Inr h \<Rightarrow> ''outbox.v1.'' @ h)"

section \<open>Creation\<close>

definition limit_or :: "jsnum option \<Rightarrow> int \<Rightarrow> int option" where
  "limit_or n d = (case n of None \<Rightarrow> Some d | Some k \<Rightarrow> js_integer k)"

fun add_topics ::
    "'w provider \<Rightarrow> string list \<Rightarrow> (string, 'w provider) omap \<Rightarrow> (worker_error, (string, 'w provider) omap) result" where
  "add_topics p [] tps = Inr tps"
| "add_topics p (t # ts) tps =
     (if \<not> bounded_identifier t 200 then Inl (BadIdentifier ''provider.topic'')
      else if omap_has tps t then Inl (DuplicateTopic t)
      else add_topics p ts (omap_set t p tps))"

definition add_provider ::
    "'w provider \<Rightarrow> (string, 'w provider) omap \<Rightarrow> (worker_error, (string, 'w provider) omap) result" where
  "add_provider p tps =
     (if \<not> bounded_identifier (prov_id p) 200 then Inl (BadIdentifier ''provider.id'')
      else if prov_guarantee p \<noteq> ''REPLAY_SAFE'' \<or> prov_topics p = [] then Inl BadProvider
      else add_topics p (prov_topics p) tps)"

definition create_outbox_delivery_worker :: "'w worker_options \<Rightarrow> (worker_error, 'w worker) result" where
  "create_outbox_delivery_worker opt =
     (if \<not> bounded_identifier (opt_tenant opt) 200 then Inl (BadIdentifier ''tenantId'')
      else if \<not> bounded_identifier (opt_worker opt) 200 then Inl (BadIdentifier ''workerId'')
      else case (limit_or (opt_lease_ms opt) 30000, limit_or (opt_batch_size opt) 25,
          limit_or (opt_max_attempts opt) 5, limit_or (opt_base_delay opt) 1000,
          limit_or (opt_max_delay opt) 60000, limit_or (opt_max_payload opt) 262144) of
        (Some lease, Some batch, Some tries, Some base, Some maxd, Some bytes) \<Rightarrow>
          if lease \<le> 0 \<or> batch \<le> 0 \<or> tries \<le> 0 \<or> base \<le> 0 \<or> maxd < base \<or> bytes \<le> 0 then Inl BadLimits
          else bind_result (fold_result add_provider (opt_providers opt) []) (\<lambda>tps.
            Inr \<lparr>wk_tenant = opt_tenant opt, wk_id = opt_worker opt, wk_lease_ms = lease, wk_batch_size = batch,
              wk_max_attempts = tries, wk_base_delay = base, wk_max_delay = maxd, wk_max_payload = bytes,
              wk_providers = tps, wk_after_accepted = opt_after_accepted opt, wk_sink = opt_sink opt\<rparr>)
      | _ \<Rightarrow> Inl BadLimits)"

section \<open>One run\<close>

definition request_for :: "platform \<Rightarrow> string \<Rightarrow> string \<Rightarrow> outbox_message \<Rightarrow> delivery_request" where
  "request_for P tenant prov m = \<lparr>req_tenant = tenant, req_topic = topic m, req_publication_key = publication_key m,
     req_payload = payload m, req_idempotency_key = provider_key P tenant prov m\<rparr>"

text \<open>An \<^verbatim>\<open>await\<close>: the next of the other callers acts.\<close>

definition await_others :: "('s, 'w) run_state \<Rightarrow> ('s, 'w) run_state" where
  "await_others rs = (case rs_others rs of [] \<Rightarrow> rs | f # fs \<Rightarrow> rs\<lparr>rs_store := f (rs_store rs), rs_others := fs\<rparr>)"

text \<open>\<open>emit_then\<close> emits an event and goes on with a result, unless the sink throws.\<close>

definition emit :: "'w worker \<Rightarrow> telemetry \<Rightarrow> ('s, 'w) run_state \<Rightarrow> (worker_error, unit) result \<times> ('s, 'w) run_state" where
  "emit wk t rs = (if wk_sink wk (rs_telemetry rs) t then (Inr (), rs\<lparr>rs_telemetry := rs_telemetry rs @ [t]\<rparr>)
     else (Inl TelemetryFailed, rs))"

definition emit_then :: "'w worker \<Rightarrow> telemetry \<Rightarrow> 'a \<Rightarrow> ('s, 'w) run_state \<Rightarrow> (worker_error, 'a) result \<times> ('s, 'w) run_state" where
  "emit_then wk t x rs = (case emit wk t rs of (Inl e, rs') \<Rightarrow> (Inl e, rs') | (Inr _, rs') \<Rightarrow> (Inr x, rs'))"

text \<open>
  The \<^verbatim>\<open>try\<close> block for one message: validation, the provider of the topic, the delivery. It gives
  the provider (when one was found) and either what was caught or the accepted result.
\<close>

definition attempt ::
    "platform \<Rightarrow> 'w worker \<Rightarrow> outbox_message \<Rightarrow> 'w \<Rightarrow>
     (string option \<times> (string \<times> bool, string \<times> string) result) \<times> 'w" where
  "attempt P wk m w =
     (case validate_message P m (wk_tenant wk) (wk_max_payload wk) of
        Inl e \<Rightarrow> ((None, Inl e), w)
      | Inr _ \<Rightarrow>
         (case omap_get (wk_providers wk) (topic m) of
            None \<Rightarrow> ((None, Inl (''PROVIDER_NOT_CONFIGURED'', True)), w)
          | Some p \<Rightarrow>
              let request = request_for P (wk_tenant wk) (prov_id p) m;
                  r = prov_deliver p request w
              in ((Some (prov_id p),
                   (case fst r of
                      Answer s mid \<Rightarrow>
                        (case validate_result s mid of Inl e \<Rightarrow> Inl e | Inr _ \<Rightarrow> Inr (mid, req_idempotency_key request))
                    | ProviderError code retryable \<Rightarrow> Inl (code, retryable)
                    | OtherError \<Rightarrow> Inl delivery_failed)), snd r)))"

datatype outcome = WasDelivered | WasRetried | WasDeadLettered

text \<open>The \<^verbatim>\<open>catch\<close> branch.\<close>

definition report_failure ::
    "'s delivery_store \<Rightarrow> 'w worker \<Rightarrow> string \<Rightarrow> outbox_message \<Rightarrow> string option \<Rightarrow> string \<times> bool \<Rightarrow>
     ('s, 'w) run_state \<Rightarrow> (worker_error, outcome) result \<times> ('s, 'w) run_state" where
  "report_failure D wk run_at m prov e rs =
     (case ds_retry D \<lparr>lease_message = msg_id m, lease_worker = wk_id wk, lease_now = run_at\<rparr>
         \<lparr>retry_error = fst e,
          max_attempts = Num (of_int (if snd e then wk_max_attempts wk else attempts m)),
          base_delay_ms = Num (of_int (wk_base_delay wk)), max_delay_ms = Num (of_int (wk_max_delay wk))\<rparr>
         (rs_store rs) of
        (Inl err, s) \<Rightarrow> (Inl (StoreFailed err), rs\<lparr>rs_store := s\<rparr>)
      | (Inr mutation, s) \<Rightarrow>
          let rs' = await_others (rs\<lparr>rs_store := s\<rparr>) in
          if status mutation = DeadLetter
          then emit_then wk (DeadLettered (msg_id m) (topic m) prov (attempts m) (fst e)) WasDeadLettered rs'
          else emit_then wk (Retried (msg_id m) (topic m) prov (attempts m) (fst e)) WasRetried rs')"

text \<open>What follows the \<^verbatim>\<open>try\<close>: the seam, which may throw, and the acknowledgement.\<close>

definition report_success ::
    "'s delivery_store \<Rightarrow> 'w worker \<Rightarrow> string \<Rightarrow> outbox_message \<Rightarrow> string \<Rightarrow> string \<times> string \<Rightarrow>
     ('s, 'w) run_state \<Rightarrow> (worker_error, outcome) result \<times> ('s, 'w) run_state" where
  "report_success D wk run_at m prov res rs0 =
     (case wk_after_accepted wk m (fst res) (rs_world rs0) of
        (False, w) \<Rightarrow> (Inl HookFailed, rs0\<lparr>rs_world := w\<rparr>)
      | (True, w) \<Rightarrow>
         let rs = await_others (rs0\<lparr>rs_world := w\<rparr>) in
         (case ds_acknowledge D \<lparr>lease_message = msg_id m, lease_worker = wk_id wk, lease_now = run_at\<rparr>
             (Some \<lparr>receipt_provider = prov, receipt_message = fst res, receipt_idempotency_key = snd res\<rparr>)
             (rs_store rs) of
            (Inl err, s) \<Rightarrow> (Inl (StoreFailed err), rs\<lparr>rs_store := s\<rparr>)
          | (Inr _, s) \<Rightarrow> emit_then wk (DeliveredEvent (msg_id m) (topic m) prov (attempts m)) WasDelivered
              (await_others (rs\<lparr>rs_store := s\<rparr>))))"

text \<open>The body of the loop. When a provider was called, the run has awaited its answer.\<close>

definition deliver_one ::
    "platform \<Rightarrow> 's delivery_store \<Rightarrow> 'w worker \<Rightarrow> string \<Rightarrow> outbox_message \<Rightarrow> ('s, 'w) run_state \<Rightarrow>
     (worker_error, outcome) result \<times> ('s, 'w) run_state" where
  "deliver_one P D wk run_at m rs0 =
     (case emit wk (Claimed (msg_id m) (topic m) (attempts m)) rs0 of
        (Inl e, rs1) \<Rightarrow> (Inl e, rs1)
      | (Inr _, rs1) \<Rightarrow>
         (case attempt P wk m (rs_world rs1) of
            ((prov, Inl e), w) \<Rightarrow>
              report_failure D wk run_at m prov e (if prov = None then rs1 else await_others (rs1\<lparr>rs_world := w\<rparr>))
          | ((prov, Inr res), w) \<Rightarrow> report_success D wk run_at m (the prov) res (await_others (rs1\<lparr>rs_world := w\<rparr>))))"

fun count_outcome :: "outcome \<Rightarrow> run_summary \<Rightarrow> run_summary" where
  "count_outcome WasDelivered s = s\<lparr>sum_delivered := sum_delivered s + 1\<rparr>"
| "count_outcome WasRetried s = s\<lparr>sum_retried := sum_retried s + 1\<rparr>"
| "count_outcome WasDeadLettered s = s\<lparr>sum_dead_lettered := sum_dead_lettered s + 1\<rparr>"

fun deliver_all ::
    "platform \<Rightarrow> 's delivery_store \<Rightarrow> 'w worker \<Rightarrow> string \<Rightarrow> outbox_message list \<Rightarrow> run_summary \<Rightarrow>
     ('s, 'w) run_state \<Rightarrow> (worker_error, run_summary) result \<times> ('s, 'w) run_state" where
  "deliver_all P D wk run_at [] tally rs = (Inr tally, rs)"
| "deliver_all P D wk run_at (m # ms) tally rs =
     (case deliver_one P D wk run_at m rs of
        (Inl e, rs') \<Rightarrow> (Inl e, rs')
      | (Inr out, rs') \<Rightarrow> deliver_all P D wk run_at ms (count_outcome out tally) rs')"

definition canonical_clock :: "platform \<Rightarrow> string \<Rightarrow> bool" where
  "canonical_clock P run_at = (case date_parse P run_at of None \<Rightarrow> False | Some t \<Rightarrow> iso_string P t = Some run_at)"

text \<open>The beginning of a run: recovery and claim.\<close>

definition start_run ::
    "'s delivery_store \<Rightarrow> 'w worker \<Rightarrow> string \<Rightarrow> ('s, 'w) run_state \<Rightarrow>
     (worker_error, int \<times> outbox_message list) result \<times> ('s, 'w) run_state" where
  "start_run D wk run_at rs0 =
     (case ds_recover D run_at (rs_store rs0) of
        (Inl e, s) \<Rightarrow> (Inl (StoreFailed e), rs0\<lparr>rs_store := s\<rparr>)
      | (Inr recovered, s) \<Rightarrow>
          let rs1 = await_others (rs0\<lparr>rs_store := s\<rparr>) in
          (case (if recovered \<noteq> 0 then emit wk Recovered rs1 else (Inr (), rs1)) of
             (Inl e, rs2) \<Rightarrow> (Inl e, rs2)
           | (Inr _, rs2) \<Rightarrow>
              (case ds_claim D \<lparr>claim_worker = wk_id wk, claim_now = run_at,
                  lease_ms = Num (of_int (wk_lease_ms wk)), claim_limit = Num (of_int (wk_batch_size wk))\<rparr> (rs_store rs2) of
                (Inl e, s') \<Rightarrow> (Inl (StoreFailed e), rs2\<lparr>rs_store := s'\<rparr>)
              | (Inr ms, s') \<Rightarrow> (Inr (recovered, ms), await_others (rs2\<lparr>rs_store := s'\<rparr>)))))"

definition run_once ::
    "platform \<Rightarrow> 's delivery_store \<Rightarrow> 'w worker \<Rightarrow> string \<Rightarrow> ('s, 'w) run_state \<Rightarrow>
     (worker_error, run_summary) result \<times> ('s, 'w) run_state" where
  "run_once P D wk run_at rs0 =
     (if \<not> canonical_clock P run_at then (Inl BadClock, rs0)
      else case start_run D wk run_at rs0 of
        (Inl e, rs1) \<Rightarrow> (Inl e, rs1)
      | (Inr (recovered, ms), rs1) \<Rightarrow>
          deliver_all P D wk run_at ms \<lparr>sum_claimed = int (length ms), sum_delivered = 0, sum_retried = 0,
            sum_dead_lettered = 0, sum_recovered = recovered\<rparr> rs1)"

section \<open>What creation guarantees\<close>

definition worker_wf :: "'w worker \<Rightarrow> bool" where
  "worker_wf wk = (bounded_identifier (wk_tenant wk) 200 \<and> bounded_identifier (wk_id wk) 200 \<and>
     0 < wk_lease_ms wk \<and> 0 < wk_batch_size wk \<and> 0 < wk_max_attempts wk \<and> 0 < wk_base_delay wk \<and>
     wk_base_delay wk \<le> wk_max_delay wk \<and> 0 < wk_max_payload wk)"

definition route_ok :: "'w provider list \<Rightarrow> string \<times> 'w provider \<Rightarrow> bool" where
  "route_ok ps tp = (snd tp \<in> set ps \<and> fst tp \<in> set (prov_topics (snd tp)) \<and> bounded_identifier (prov_id (snd tp)) 200
     \<and> prov_guarantee (snd tp) = ''REPLAY_SAFE'')"

lemma add_topics_routes:
  assumes "add_topics p ts tps = Inr tps'" "list_all (route_ok ps) tps"
    "p \<in> set ps" "bounded_identifier (prov_id p) 200" "prov_guarantee p = ''REPLAY_SAFE''" "set ts \<subseteq> set (prov_topics p)"
  shows "list_all (route_ok ps) tps'"
  using assms
proof (induction p ts tps rule: add_topics.induct)
  case (2 p t ts tps)
  have "route_ok ps (t, p)" using 2 by (simp add: route_ok_def)
  with 2 have "list_all (route_ok ps) (omap_set t p tps)"
    by (auto simp: omap_set_new omap_has_def omap_get_None split: if_splits)
  with 2 show ?case by (auto split: if_splits)
qed simp

lemma providers_routes:
  assumes "fold_result add_provider ps [] = Inr tps"
  shows "list_all (route_ok ps) tps"
  by (rule fold_result_invariant [OF assms])
    (auto simp: add_provider_def split: if_splits intro: add_topics_routes)

lemma createD:
  assumes "create_outbox_delivery_worker opt = Inr wk"
  shows "worker_wf wk" "list_all (route_ok (opt_providers opt)) (wk_providers wk)"
    "wk_tenant wk = opt_tenant opt" "wk_id wk = opt_worker opt" "wk_after_accepted wk = opt_after_accepted opt" "wk_sink wk = opt_sink opt"
  using assms
  by (auto simp: create_outbox_delivery_worker_def worker_wf_def bind_result_Inr_iff providers_routes
      split: if_splits option.splits)

section \<open>The interface the worker relies on\<close>

text \<open>
  \<open>has_room P t d\<close>: the clock is canonical and every instant up to \<open>d\<close> milliseconds later has
  an ISO text that parses back. \<open>digests_ok\<close> is the documented shape of a SHA-256 digest in hexadecimal.
\<close>

definition has_room :: "platform \<Rightarrow> string \<Rightarrow> int \<Rightarrow> bool" where
  "has_room P t d = (case date_parse P t of None \<Rightarrow> False
     | Some now \<Rightarrow> iso_string P now = Some t \<and>
         (\<forall>i \<in> {0..d}. \<exists>s. iso_string P (now + i) = Some s \<and> date_parse P s = Some (now + i)))"

definition digests_ok :: "platform \<Rightarrow> bool" where
  "digests_ok P = (\<forall>s. length (sha256 P s) = 64 \<and> \<not> has_control (sha256 P s))"

definition receipt_bounded :: "delivery_receipt \<Rightarrow> bool" where
  "receipt_bounded r = (bounded_identifier (receipt_provider r) 500 \<and> bounded_identifier (receipt_message r) 500
     \<and> bounded_identifier (receipt_idempotency_key r) 500)"

text \<open>
  What another caller does is quiet for a worker when it keeps the invariant, the worker's leases and the status of every
  message that is there; it may enqueue messages.
\<close>

definition quiet ::
    "('s \<Rightarrow> bool) \<Rightarrow> ('s \<Rightarrow> string \<Rightarrow> string \<Rightarrow> string \<Rightarrow> outbox_message option) \<Rightarrow> ('s \<Rightarrow> string \<Rightarrow> outbox_status option) \<Rightarrow>
     string \<Rightarrow> string \<Rightarrow> ('s \<Rightarrow> 's) \<Rightarrow> bool" where
  "quiet ok lease state w t f \<longleftrightarrow> (\<forall>s. ok s \<longrightarrow> ok (f s) \<and> (\<forall>i. lease (f s) w t i = lease s w t i) \<and>
     (\<forall>i x. state s i = Some x \<longrightarrow> state (f s) i = Some x))"

locale lease_store =
  fixes P :: platform and D :: "'s delivery_store" and inv :: "'s \<Rightarrow> bool"
    and lease :: "'s \<Rightarrow> string \<Rightarrow> string \<Rightarrow> string \<Rightarrow> outbox_message option"
    and state :: "'s \<Rightarrow> string \<Rightarrow> outbox_status option"
  assumes recover_ok: "inv s \<Longrightarrow> has_room P t 0 \<Longrightarrow> \<exists>n s'. ds_recover D t s = (Inr n, s') \<and> inv s' \<and>
      (\<forall>w i. lease s' w t i = lease s w t i)"
    and claim_ok: "inv s \<Longrightarrow> has_room P t d \<Longrightarrow> w \<noteq> [] \<Longrightarrow> 0 < d \<Longrightarrow> 0 < n \<Longrightarrow>
      \<exists>ms s'. ds_claim D \<lparr>claim_worker = w, claim_now = t, lease_ms = Num (of_int d), claim_limit = Num (of_int n)\<rparr> s
          = (Inr ms, s') \<and> inv s' \<and> distinct (map msg_id ms) \<and> int (length ms) \<le> n \<and>
        (\<forall>m \<in> set ms. lease s' w t (msg_id m) = Some m) \<and>
        (\<forall>i. i \<notin> msg_id ` set ms \<longrightarrow> lease s' w t i = lease s w t i)"
    and lease_attempts: "inv s \<Longrightarrow> lease s w t i = Some m \<Longrightarrow> 0 < attempts m"
    and acknowledge_ok: "inv s \<Longrightarrow> has_room P t 0 \<Longrightarrow> lease s w t i = Some m \<Longrightarrow> receipt_bounded r \<Longrightarrow>
      \<exists>m' s'. ds_acknowledge D \<lparr>lease_message = i, lease_worker = w, lease_now = t\<rparr> (Some r) s = (Inr m', s') \<and>
        inv s' \<and> lease s' w t i = None \<and> state s' i = Some Delivered \<and>
        (\<forall>j. j \<noteq> i \<longrightarrow> lease s' w t j = lease s w t j \<and> state s' j = state s j)"
    and retry_ok: "inv s \<Longrightarrow> has_room P t maxd \<Longrightarrow> lease s w t i = Some m \<Longrightarrow> e \<noteq> [] \<Longrightarrow> 0 < tries \<Longrightarrow>
        0 < base \<Longrightarrow> base \<le> maxd \<Longrightarrow>
      \<exists>m' s'. ds_retry D \<lparr>lease_message = i, lease_worker = w, lease_now = t\<rparr>
          \<lparr>retry_error = e, max_attempts = Num (of_int tries), base_delay_ms = Num (of_int base),
            max_delay_ms = Num (of_int maxd)\<rparr> s = (Inr m', s') \<and>
        inv s' \<and> lease s' w t i = None \<and> (status m' = Pending \<or> status m' = DeadLetter) \<and> state s' i = Some (status m') \<and>
        (\<forall>j. j \<noteq> i \<longrightarrow> lease s' w t j = lease s w t j \<and> state s' j = state s j)"

text \<open>Providers that never throw an empty error code, and a seam that does not throw.\<close>

definition providers_ok :: "'w worker \<Rightarrow> bool" where
  "providers_ok wk = (\<forall>(t, p) \<in> set (wk_providers wk). bounded_identifier (prov_id p) 200 \<and>
     (\<forall>r w b. fst (prov_deliver p r w) \<noteq> ProviderError [] b))"

definition seam_ok :: "'w worker \<Rightarrow> bool" where
  "seam_ok wk = (\<forall>m i w. fst (wk_after_accepted wk m i w))"

definition sink_ok :: "'w worker \<Rightarrow> bool" where
  "sink_ok wk = (\<forall>es e. wk_sink wk es e)"

lemma emit_ok: "sink_ok wk \<Longrightarrow> emit wk t rs = (Inr (), rs\<lparr>rs_telemetry := rs_telemetry rs @ [t]\<rparr>)"
  by (simp add: emit_def sink_ok_def)

lemma emit_then_ok: "sink_ok wk \<Longrightarrow> emit_then wk t x rs = (Inr x, rs\<lparr>rs_telemetry := rs_telemetry rs @ [t]\<rparr>)"
  by (simp add: emit_then_def emit_ok)

lemma emit_Inr: "emit wk t rs = (Inr u, rs') \<Longrightarrow> rs' = rs\<lparr>rs_telemetry := rs_telemetry rs @ [t]\<rparr>"
  by (simp add: emit_def split: if_splits)

lemma emit_then_Inr: "emit_then wk t x rs = (Inr y, rs') \<Longrightarrow> y = x \<and> rs_store rs' = rs_store rs"
  by (auto simp: emit_then_def emit_def split: if_splits)

lemma has_room_mono: "has_room P t d \<Longrightarrow> d' \<le> d \<Longrightarrow> has_room P t d'"
  by (auto simp: has_room_def split: option.splits)

lemma has_room_canonical: "has_room P t d \<Longrightarrow> canonical_clock P t"
  by (auto simp: has_room_def canonical_clock_def split: option.splits)

lemma provider_key_bounded:
  assumes "digests_ok P"
  shows "bounded_identifier (provider_key P tenant prov m) 500"
proof -
  let ?v = "JObj [(''tenantId'', JStr tenant), (''providerId'', JStr prov), (''dedupeKey'', JStr (dedupe_key m))]"
  obtain v where "normalise ?v = Inr v" using normalise_plain [of ?v] by auto
  then have "\<exists>h. provider_key P tenant prov m = ''outbox.v1.'' @ sha256 P h"
    unfolding provider_key_def canonical_hash_def canonical_stringify_def by (auto simp del: normalise.simps)
  then show ?thesis using assms
    by (auto simp: bounded_identifier_def digests_ok_def has_control_def blank_iff is_space_def)
qed

text \<open>What \<open>attempt\<close> gives: a non-empty error code, or a bounded receipt.\<close>

lemma attempt_cases:
  assumes "providers_ok wk" "digests_ok P"
  obtains (caught) prov e w' where "attempt P wk m w = ((prov, Inl e), w')" "fst e \<noteq> []"
  | (accepted) prov res w' where "attempt P wk m w = ((Some prov, Inr res), w')"
      "receipt_bounded \<lparr>receipt_provider = prov, receipt_message = fst res, receipt_idempotency_key = snd res\<rparr>"
proof (cases "validate_message P m (wk_tenant wk) (wk_max_payload wk)")
  case (Inl e)
  then show ?thesis by (intro caught [of None e w]) (auto simp: attempt_def validate_message_def delivery_failed_def split: if_splits)
next
  case (Inr u)
  show ?thesis
  proof (cases "omap_get (wk_providers wk) (topic m)")
    case None
    then show ?thesis using Inr by (intro caught [of None _ w]) (auto simp: attempt_def)
  next
    case (Some p)
    let ?r = "prov_deliver p (request_for P (wk_tenant wk) (prov_id p) m) w"
    have p: "bounded_identifier (prov_id p) 200" "\<And>b. fst ?r \<noteq> ProviderError [] b"
      using assms(1) map_of_SomeD [OF Some] by (auto simp: providers_ok_def)
    show ?thesis
    proof (cases "fst ?r")
      case (Answer st mid)
      show ?thesis
      proof (cases "validate_result st mid")
        case (Inl e)
        then show ?thesis using Inr Some Answer
          by (intro caught [of "Some (prov_id p)" e "snd ?r"])
            (auto simp: attempt_def Let_def validate_result_def delivery_failed_def split: if_splits)
      next
        case (Inr v)
        then have "bounded_identifier mid 500" by (auto simp: validate_result_def split: if_splits)
        then show ?thesis using Inr \<open>validate_message _ _ _ _ = Inr u\<close> Some Answer p(1) provider_key_bounded [OF assms(2)]
          by (intro accepted [of "prov_id p" "(mid, req_idempotency_key (request_for P (wk_tenant wk) (prov_id p) m))" "snd ?r"])
            (auto simp: attempt_def Let_def receipt_bounded_def request_for_def bounded_identifier_def)
      qed
    next
      case (ProviderError c b)
      then show ?thesis using Inr Some p(2) by (intro caught [of "Some (prov_id p)" "(c, b)" "snd ?r"]) (auto simp: attempt_def Let_def)
    next
      case OtherError
      then show ?thesis using Inr Some
        by (intro caught [of "Some (prov_id p)" delivery_failed "snd ?r"]) (auto simp: attempt_def Let_def delivery_failed_def)
    qed
  qed
qed

text \<open>The status in which each outcome leaves a message, and a tally of the messages by their statuses.\<close>

fun outcome_status :: "outcome \<Rightarrow> outbox_status" where
  "outcome_status WasDelivered = Delivered"
| "outcome_status WasRetried = Pending"
| "outcome_status WasDeadLettered = DeadLetter"

definition in_status :: "(string \<Rightarrow> outbox_status option) \<Rightarrow> outbox_status \<Rightarrow> outbox_message list \<Rightarrow> int" where
  "in_status st x ms = int (length (filter (\<lambda>m. st (msg_id m) = Some x) ms))"

definition tallied :: "(string \<Rightarrow> outbox_status option) \<Rightarrow> outbox_message list \<Rightarrow> run_summary \<Rightarrow> run_summary \<Rightarrow> bool" where
  "tallied st ms a b \<longleftrightarrow> b = a\<lparr>sum_delivered := sum_delivered a + in_status st Delivered ms,
     sum_retried := sum_retried a + in_status st Pending ms, sum_dead_lettered := sum_dead_lettered a + in_status st DeadLetter ms\<rparr>"

lemma tallied_Nil: "tallied st [] a a"
  by (simp add: tallied_def in_status_def)

lemma tallied_Cons:
  assumes "st (msg_id m) = Some (outcome_status out)" "tallied st ms (count_outcome out a) b"
  shows "tallied st (m # ms) a b"
  using assms by (cases out) (simp_all add: tallied_def in_status_def)

context lease_store
begin

text \<open>\<open>unmoved\<close>: from one state of a run to the next, leases and statuses outside \<open>I\<close> stay.\<close>

definition unmoved :: "'w worker \<Rightarrow> string \<Rightarrow> string set \<Rightarrow> ('s, 'w) run_state \<Rightarrow> ('s, 'w) run_state \<Rightarrow> bool" where
  "unmoved wk t I a b \<longleftrightarrow> inv (rs_store b) \<and> set (rs_others b) \<subseteq> set (rs_others a) \<and>
     (\<forall>i. i \<notin> I \<longrightarrow> lease (rs_store b) (wk_id wk) t i = lease (rs_store a) (wk_id wk) t i) \<and>
     (\<forall>i x. i \<notin> I \<and> state (rs_store a) i = Some x \<longrightarrow> state (rs_store b) i = Some x)"

abbreviation all_quiet :: "'w worker \<Rightarrow> string \<Rightarrow> ('s, 'w) run_state \<Rightarrow> bool" where
  "all_quiet wk t rs \<equiv> \<forall>f \<in> set (rs_others rs). quiet inv lease state (wk_id wk) t f"

lemma unmoved_refl: "inv (rs_store a) \<Longrightarrow> unmoved wk t I a a"
  by (simp add: unmoved_def)

lemma unmoved_trans: "unmoved wk t I a b \<Longrightarrow> unmoved wk t J b c \<Longrightarrow> unmoved wk t (I \<union> J) a c"
  unfolding unmoved_def by (intro conjI allI impI; elim conjE) (auto dest: subsetD)

lemma unmoved_quiet: "unmoved wk t I a b \<Longrightarrow> all_quiet wk t a \<Longrightarrow> all_quiet wk t b"
  by (auto simp: unmoved_def)

lemma await_unmoved:
  assumes "inv (rs_store rs)" "all_quiet wk t rs"
  shows "unmoved wk t {} rs (await_others rs)"
  using assms by (cases "rs_others rs") (auto simp: await_others_def unmoved_def quiet_def)

lemma await_other_fields [simp]: "rs_world (await_others rs) = rs_world rs" "rs_telemetry (await_others rs) = rs_telemetry rs"
  by (simp_all add: await_others_def split: list.split)

lemma report_failure_ok:
  assumes "worker_wf wk" "sink_ok wk" "inv (rs_store rs)" "all_quiet wk t rs" "has_room P t (wk_max_delay wk)"
    and "lease (rs_store rs) (wk_id wk) t (msg_id m) = Some m" "fst e \<noteq> []"
  shows "\<exists>out rs'. report_failure D wk t m prov e rs = (Inr out, rs') \<and> unmoved wk t {msg_id m} rs rs' \<and>
    lease (rs_store rs') (wk_id wk) t (msg_id m) = None \<and> state (rs_store rs') (msg_id m) = Some (outcome_status out)"
proof -
  have tries: "0 < (if snd e then wk_max_attempts wk else attempts m)"
    using assms(1) lease_attempts [OF assms(3,6)] by (simp add: worker_wf_def)
  have delays: "0 < wk_base_delay wk" "wk_base_delay wk \<le> wk_max_delay wk" using assms(1) by (simp_all add: worker_wf_def)
  obtain m' s where r: "ds_retry D \<lparr>lease_message = msg_id m, lease_worker = wk_id wk, lease_now = t\<rparr>
         \<lparr>retry_error = fst e, max_attempts = Num (of_int (if snd e then wk_max_attempts wk else attempts m)),
          base_delay_ms = Num (of_int (wk_base_delay wk)), max_delay_ms = Num (of_int (wk_max_delay wk))\<rparr> (rs_store rs) = (Inr m', s)"
      "inv s" "lease s (wk_id wk) t (msg_id m) = None" "status m' = Pending \<or> status m' = DeadLetter" "state s (msg_id m) = Some (status m')"
      "\<And>j. j \<noteq> msg_id m \<Longrightarrow> lease s (wk_id wk) t j = lease (rs_store rs) (wk_id wk) t j \<and> state s j = state (rs_store rs) j"
    using retry_ok [OF assms(3,5,6,7) tries delays] by blast
  let ?rs = "rs\<lparr>rs_store := s\<rparr>"
  have one: "unmoved wk t {msg_id m} rs ?rs" using r by (simp add: unmoved_def)
  have two: "unmoved wk t {} ?rs (await_others ?rs)" by (rule await_unmoved) (use r(2) assms(4) in simp_all)
  have after: "unmoved wk t {msg_id m} rs (await_others ?rs)" using unmoved_trans [OF one two] by simp
  have final: "lease (rs_store (await_others ?rs)) (wk_id wk) t (msg_id m) = None"
      "state (rs_store (await_others ?rs)) (msg_id m) = Some (status m')"
    using two r(3,5) by (simp_all add: unmoved_def)
  show ?thesis
    using r(1,4) after final assms(2)
    by (cases "status m' = DeadLetter") (auto simp: report_failure_def Let_def emit_then_ok unmoved_def)
qed

lemma report_success_ok:
  assumes "worker_wf wk" "seam_ok wk" "sink_ok wk" "inv (rs_store rs)" "all_quiet wk t rs" "has_room P t 0"
    and "lease (rs_store rs) (wk_id wk) t (msg_id m) = Some m"
    and "receipt_bounded \<lparr>receipt_provider = prov, receipt_message = fst res, receipt_idempotency_key = snd res\<rparr>"
  shows "\<exists>out rs'. report_success D wk t m prov res rs = (Inr out, rs') \<and> unmoved wk t {msg_id m} rs rs' \<and>
    lease (rs_store rs') (wk_id wk) t (msg_id m) = None \<and> state (rs_store rs') (msg_id m) = Some (outcome_status out)"
proof -
  obtain w where hook: "wk_after_accepted wk m (fst res) (rs_world rs) = (True, w)"
    using assms(2) by (metis seam_ok_def prod.collapse)
  let ?rs1 = "await_others (rs\<lparr>rs_world := w\<rparr>)"
  have one: "unmoved wk t {} rs ?rs1"
    using await_unmoved [of "rs\<lparr>rs_world := w\<rparr>" wk t] assms(4,5) by (simp add: unmoved_def)
  have held: "inv (rs_store ?rs1)" "lease (rs_store ?rs1) (wk_id wk) t (msg_id m) = Some m" "all_quiet wk t ?rs1"
    using one assms(5,7) unmoved_quiet [OF one] by (simp_all add: unmoved_def)
  obtain m' s where a: "ds_acknowledge D \<lparr>lease_message = msg_id m, lease_worker = wk_id wk, lease_now = t\<rparr>
         (Some \<lparr>receipt_provider = prov, receipt_message = fst res, receipt_idempotency_key = snd res\<rparr>) (rs_store ?rs1) = (Inr m', s)"
      "inv s" "lease s (wk_id wk) t (msg_id m) = None" "state s (msg_id m) = Some Delivered"
      "\<And>j. j \<noteq> msg_id m \<Longrightarrow> lease s (wk_id wk) t j = lease (rs_store ?rs1) (wk_id wk) t j \<and> state s j = state (rs_store ?rs1) j"
    using acknowledge_ok [OF held(1) assms(6) held(2) assms(8)] by blast
  let ?rs2 = "?rs1\<lparr>rs_store := s\<rparr>"
  have two: "unmoved wk t {msg_id m} ?rs1 ?rs2" using a by (simp add: unmoved_def)
  have three: "unmoved wk t {} ?rs2 (await_others ?rs2)" by (rule await_unmoved) (use a(2) held(3) in simp_all)
  have after: "unmoved wk t {msg_id m} rs (await_others ?rs2)"
    using unmoved_trans [OF unmoved_trans [OF one two] three] by simp
  have final: "lease (rs_store (await_others ?rs2)) (wk_id wk) t (msg_id m) = None"
      "state (rs_store (await_others ?rs2)) (msg_id m) = Some Delivered"
    using three a(3,4) by (simp_all add: unmoved_def)
  have "report_success D wk t m prov res rs = (Inr WasDelivered, (await_others ?rs2)\<lparr>rs_telemetry :=
      rs_telemetry (await_others ?rs2) @ [DeliveredEvent (msg_id m) (topic m) prov (attempts m)]\<rparr>)"
    by (simp only: report_success_def hook prod.case bool.case Let_def a(1) sum.case emit_then_ok [OF assms(3)])
  then show ?thesis using after final by (simp add: unmoved_def)
qed

lemma deliver_one_ok:
  assumes "worker_wf wk" "providers_ok wk" "seam_ok wk" "sink_ok wk" "digests_ok P"
    and "inv (rs_store rs)" "all_quiet wk t rs" "has_room P t (wk_max_delay wk)"
    and "lease (rs_store rs) (wk_id wk) t (msg_id m) = Some m"
  shows "\<exists>out rs'. deliver_one P D wk t m rs = (Inr out, rs') \<and> unmoved wk t {msg_id m} rs rs' \<and>
    lease (rs_store rs') (wk_id wk) t (msg_id m) = None \<and> state (rs_store rs') (msg_id m) = Some (outcome_status out)"
proof -
  let ?rs1 = "rs\<lparr>rs_telemetry := rs_telemetry rs @ [Claimed (msg_id m) (topic m) (attempts m)]\<rparr>"
  have room: "has_room P t 0" using has_room_mono [OF assms(8)] assms(1) by (simp add: worker_wf_def)
  have awaited: "unmoved wk t {} rs (await_others (?rs1\<lparr>rs_world := w\<rparr>))" for w
    using await_unmoved [of "?rs1\<lparr>rs_world := w\<rparr>" wk t] assms(6,7) by (simp add: unmoved_def)
  have same: "unmoved wk t {} rs ?rs1" using assms(6) by (simp add: unmoved_def)
  have finish: "\<exists>out rs'. r = (Inr out, rs') \<and> unmoved wk t {msg_id m} rs rs' \<and>
      lease (rs_store rs') (wk_id wk) t (msg_id m) = None \<and> state (rs_store rs') (msg_id m) = Some (outcome_status out)"
    if "unmoved wk t {} rs rs2" "\<exists>out rs'. r = (Inr out, rs') \<and> unmoved wk t {msg_id m} rs2 rs' \<and>
      lease (rs_store rs') (wk_id wk) t (msg_id m) = None \<and> state (rs_store rs') (msg_id m) = Some (outcome_status out)"
    for r rs2
    using that(2) unmoved_trans [OF that(1)] by fastforce
  have lease2: "inv (rs_store rs2) \<and> lease (rs_store rs2) (wk_id wk) t (msg_id m) = Some m" if "unmoved wk t {} rs rs2" for rs2
    using that assms(9) by (simp add: unmoved_def)
  show ?thesis
  proof (rule attempt_cases [OF assms(2,5), of m "rs_world rs"])
    fix prov e w
    assume caught: "attempt P wk m (rs_world rs) = ((prov, Inl e), w)" "fst e \<noteq> []"
    let ?rs2 = "if prov = None then ?rs1 else await_others (?rs1\<lparr>rs_world := w\<rparr>)"
    have rs2: "unmoved wk t {} rs ?rs2" using awaited [of w] same by simp
    from finish [OF rs2 report_failure_ok [OF assms(1,4) conjunct1 [OF lease2 [OF rs2]] unmoved_quiet [OF rs2 assms(7)] assms(8)
        conjunct2 [OF lease2 [OF rs2]] caught(2)]]
    show ?thesis using caught(1) by (simp add: deliver_one_def emit_ok [OF assms(4)])
  next
    fix prov res w
    assume accepted: "attempt P wk m (rs_world rs) = ((Some prov, Inr res), w)"
      "receipt_bounded \<lparr>receipt_provider = prov, receipt_message = fst res, receipt_idempotency_key = snd res\<rparr>"
    note rs2 = awaited [of w]
    from finish [OF rs2 report_success_ok [OF assms(1,3,4) conjunct1 [OF lease2 [OF rs2]] unmoved_quiet [OF rs2 assms(7)] room
        conjunct2 [OF lease2 [OF rs2]] accepted(2)]]
    show ?thesis using accepted(1) by (simp add: deliver_one_def emit_ok [OF assms(4)])
  qed
qed

lemma deliver_all_ok:
  assumes "worker_wf wk" "providers_ok wk" "seam_ok wk" "sink_ok wk" "digests_ok P" "has_room P t (wk_max_delay wk)"
    and "inv (rs_store rs)" "all_quiet wk t rs" "distinct (map msg_id ms)"
      "\<forall>m \<in> set ms. lease (rs_store rs) (wk_id wk) t (msg_id m) = Some m"
  shows "\<exists>s rs'. deliver_all P D wk t ms tally rs = (Inr s, rs') \<and> unmoved wk t (msg_id ` set ms) rs rs' \<and>
    tallied (state (rs_store rs')) ms tally s \<and>
    (\<forall>m \<in> set ms. lease (rs_store rs') (wk_id wk) t (msg_id m) = None \<and> (\<exists>out. state (rs_store rs') (msg_id m) = Some (outcome_status out)))"
  using assms(7-)
proof (induction ms arbitrary: tally rs)
  case Nil
  then show ?case by (simp add: tallied_Nil unmoved_refl)
next
  case (Cons m ms)
  from Cons.prems(4) have "lease (rs_store rs) (wk_id wk) t (msg_id m) = Some m" by simp
  from deliver_one_ok [OF assms(1-5) Cons.prems(1,2) assms(6) this] obtain out rs1 where
    one: "deliver_one P D wk t m rs = (Inr out, rs1)" "unmoved wk t {msg_id m} rs rs1"
      "lease (rs_store rs1) (wk_id wk) t (msg_id m) = None" "state (rs_store rs1) (msg_id m) = Some (outcome_status out)" by blast
  have fresh: "msg_id m \<notin> msg_id ` set ms" using Cons.prems(3) by simp
  have held: "\<forall>m' \<in> set ms. lease (rs_store rs1) (wk_id wk) t (msg_id m') = Some m'"
  proof
    fix m' assume "m' \<in> set ms"
    then have "msg_id m' \<in> msg_id ` set ms" by (rule imageI)
    then have "msg_id m' \<noteq> msg_id m" using fresh by auto
    then show "lease (rs_store rs1) (wk_id wk) t (msg_id m') = Some m'"
      using one(2) Cons.prems(4) \<open>m' \<in> set ms\<close> by (simp add: unmoved_def)
  qed
  have inv1: "inv (rs_store rs1)" "distinct (map msg_id ms)" using one(2) Cons.prems(3) by (simp_all add: unmoved_def)
  obtain s rs2 where all: "deliver_all P D wk t ms (count_outcome out tally) rs1 = (Inr s, rs2)"
      "unmoved wk t (msg_id ` set ms) rs1 rs2" "tallied (state (rs_store rs2)) ms (count_outcome out tally) s"
      "\<forall>m \<in> set ms. lease (rs_store rs2) (wk_id wk) t (msg_id m) = None \<and> (\<exists>out. state (rs_store rs2) (msg_id m) = Some (outcome_status out))"
    using Cons.IH [OF inv1(1) unmoved_quiet [OF one(2) Cons.prems(2)] inv1(2) held, of "count_outcome out tally"] by blast
  have m: "lease (rs_store rs2) (wk_id wk) t (msg_id m) = None" "state (rs_store rs2) (msg_id m) = Some (outcome_status out)"
    using all(2) one(3,4) fresh by (simp_all add: unmoved_def)
  have "deliver_all P D wk t (m # ms) tally rs = (Inr s, rs2)" using one(1) all(1) by simp
  moreover have "unmoved wk t (msg_id ` set (m # ms)) rs rs2" using unmoved_trans [OF one(2) all(2)] by simp
  ultimately show ?case using tallied_Cons [where m = m and out = out, OF m(2) all(3)] m all(4) by auto
qed

lemma start_run_ok:
  assumes "worker_wf wk" "sink_ok wk" "has_room P t 0" "has_room P t (wk_lease_ms wk)" "inv (rs_store rs)" "all_quiet wk t rs"
  shows "\<exists>n ms rs'. start_run D wk t rs = (Inr (n, ms), rs') \<and> inv (rs_store rs') \<and> all_quiet wk t rs' \<and> distinct (map msg_id ms) \<and>
    int (length ms) \<le> wk_batch_size wk \<and> (\<forall>m \<in> set ms. lease (rs_store rs') (wk_id wk) t (msg_id m) = Some m) \<and>
    (\<forall>i. i \<notin> msg_id ` set ms \<longrightarrow> lease (rs_store rs') (wk_id wk) t i = lease (rs_store rs) (wk_id wk) t i)"
proof -
  have pos: "wk_id wk \<noteq> []" "0 < wk_lease_ms wk" "0 < wk_batch_size wk"
    using assms(1) by (auto simp: worker_wf_def bounded_identifier_def)
  obtain n s1 where rec: "ds_recover D t (rs_store rs) = (Inr n, s1)" "inv s1"
      "\<And>i. lease s1 (wk_id wk) t i = lease (rs_store rs) (wk_id wk) t i"
    using recover_ok [OF assms(5,3)] by blast
  let ?rs1 = "await_others (rs\<lparr>rs_store := s1\<rparr>)"
  have one: "unmoved wk t {} (rs\<lparr>rs_store := s1\<rparr>) ?rs1" by (rule await_unmoved) (use rec(2) assms(6) in simp_all)
  define rs2 where "rs2 = (if n \<noteq> 0 then ?rs1\<lparr>rs_telemetry := rs_telemetry ?rs1 @ [Recovered]\<rparr> else ?rs1)"
  have two: "unmoved wk t {} (rs\<lparr>rs_store := s1\<rparr>) rs2" using one by (simp add: rs2_def unmoved_def)
  have inv2: "inv (rs_store rs2)" "all_quiet wk t rs2"
    using two unmoved_quiet [OF two] assms(6) by (simp_all add: unmoved_def)
  from claim_ok [OF inv2(1) assms(4) pos] obtain ms s2 where cl:
    "ds_claim D \<lparr>claim_worker = wk_id wk, claim_now = t, lease_ms = Num (of_int (wk_lease_ms wk)),
        claim_limit = Num (of_int (wk_batch_size wk))\<rparr> (rs_store rs2) = (Inr ms, s2)" "inv s2"
      "distinct (map msg_id ms)" "int (length ms) \<le> wk_batch_size wk"
      "\<forall>m \<in> set ms. lease s2 (wk_id wk) t (msg_id m) = Some m"
      "\<And>i. i \<notin> msg_id ` set ms \<Longrightarrow> lease s2 (wk_id wk) t i = lease (rs_store rs2) (wk_id wk) t i" by blast
  let ?rs3 = "await_others (rs2\<lparr>rs_store := s2\<rparr>)"
  have three: "unmoved wk t {} (rs2\<lparr>rs_store := s2\<rparr>) ?rs3" by (rule await_unmoved) (use cl(2) inv2(2) in simp_all)
  have emitted: "(if n \<noteq> 0 then emit wk Recovered ?rs1 else (Inr (), ?rs1)) = (Inr (), rs2)"
    by (simp add: rs2_def emit_ok [OF assms(2)])
  have run: "start_run D wk t rs = (Inr (n, ms), ?rs3)"
    by (simp only: start_run_def rec(1) prod.case sum.case Let_def emitted cl(1))
  have quiet3: "all_quiet wk t ?rs3" using unmoved_quiet [OF three] inv2(2) by simp
  have "lease (rs_store ?rs3) (wk_id wk) t i = lease s2 (wk_id wk) t i" for i using three by (simp add: unmoved_def)
  moreover have "lease (rs_store rs2) (wk_id wk) t i = lease (rs_store rs) (wk_id wk) t i" for i using two rec(3) by (simp add: unmoved_def)
  moreover have "inv (rs_store ?rs3)" using three by (simp add: unmoved_def)
  ultimately show ?thesis using run quiet3 cl(3-6) by (intro exI [of _ n] exI [of _ ms] exI [of _ ?rs3]) simp
qed

lemma run_once_ok:
  assumes "worker_wf wk" "providers_ok wk" "seam_ok wk" "sink_ok wk" "digests_ok P"
    and "has_room P t (max (wk_lease_ms wk) (wk_max_delay wk))" "inv (rs_store rs)" "all_quiet wk t rs"
  shows "\<exists>n ms rs1 s rs'. start_run D wk t rs = (Inr (n, ms), rs1) \<and> run_once P D wk t rs = (Inr s, rs') \<and> inv (rs_store rs') \<and>
    distinct (map msg_id ms) \<and> int (length ms) \<le> wk_batch_size wk \<and>
    (\<forall>m \<in> set ms. \<exists>out. state (rs_store rs') (msg_id m) = Some (outcome_status out)) \<and>
    s = \<lparr>sum_claimed = int (length ms), sum_delivered = in_status (state (rs_store rs')) Delivered ms,
         sum_retried = in_status (state (rs_store rs')) Pending ms, sum_dead_lettered = in_status (state (rs_store rs')) DeadLetter ms,
         sum_recovered = n\<rparr> \<and>
    (\<forall>i. lease (rs_store rs') (wk_id wk) t i \<noteq> None \<longrightarrow> lease (rs_store rs) (wk_id wk) t i \<noteq> None)"
proof -
  have pos: "0 \<le> wk_max_delay wk" "0 \<le> wk_lease_ms wk" using assms(1) by (auto simp: worker_wf_def)
  have room: "has_room P t 0" "has_room P t (wk_lease_ms wk)" "has_room P t (wk_max_delay wk)"
    using has_room_mono [OF assms(6)] pos by auto
  obtain n ms rs1 where st: "start_run D wk t rs = (Inr (n, ms), rs1)" "inv (rs_store rs1)" "all_quiet wk t rs1" "distinct (map msg_id ms)"
      "int (length ms) \<le> wk_batch_size wk" "\<forall>m \<in> set ms. lease (rs_store rs1) (wk_id wk) t (msg_id m) = Some m"
      "\<And>i. i \<notin> msg_id ` set ms \<Longrightarrow> lease (rs_store rs1) (wk_id wk) t i = lease (rs_store rs) (wk_id wk) t i"
    using start_run_ok [OF assms(1,4) room(1,2) assms(7,8)] by blast
  let ?tally = "\<lparr>sum_claimed = int (length ms), sum_delivered = 0, sum_retried = 0, sum_dead_lettered = 0, sum_recovered = n\<rparr>"
  obtain s rs' where all: "deliver_all P D wk t ms ?tally rs1 = (Inr s, rs')" "unmoved wk t (msg_id ` set ms) rs1 rs'"
      "tallied (state (rs_store rs')) ms ?tally s"
      "\<forall>m \<in> set ms. lease (rs_store rs') (wk_id wk) t (msg_id m) = None \<and> (\<exists>out. state (rs_store rs') (msg_id m) = Some (outcome_status out))"
    using deliver_all_ok [OF assms(1-5) room(3) st(2,3,4,6), of ?tally] by blast
  have run: "run_once P D wk t rs = (Inr s, rs')"
    using has_room_canonical [OF room(1)] st(1) all(1) by (simp add: run_once_def)
  have lease: "lease (rs_store rs) (wk_id wk) t i \<noteq> None" if "lease (rs_store rs') (wk_id wk) t i \<noteq> None" for i
  proof -
    have "i \<notin> msg_id ` set ms" using that all(4) by auto
    then show ?thesis using that all(2) st(7) by (simp add: unmoved_def)
  qed
  have s: "s = \<lparr>sum_claimed = int (length ms), sum_delivered = in_status (state (rs_store rs')) Delivered ms,
      sum_retried = in_status (state (rs_store rs')) Pending ms, sum_dead_lettered = in_status (state (rs_store rs')) DeadLetter ms,
      sum_recovered = n\<rparr>" using all(3) by (simp add: tallied_def)
  have "inv (rs_store rs')" using all(2) by (simp add: unmoved_def)
  then show ?thesis using run st(1,4,5) s lease all(4) by blast
qed

end

section \<open>The outbox provides the interface\<close>

definition outbox_store :: "platform \<Rightarrow> outbox delivery_store" where
  "outbox_store P = \<lparr>ds_claim = claim P, ds_acknowledge = acknowledge P, ds_retry = retry P,
     ds_recover = recover_expired_leases P\<rparr>"

definition outbox_lease :: "platform \<Rightarrow> outbox \<Rightarrow> string \<Rightarrow> string \<Rightarrow> string \<Rightarrow> outbox_message option" where
  "outbox_lease P st w t i = (case find (\<lambda>km. msg_id (snd km) = i) (messages st) of None \<Rightarrow> None
     | Some (k, m) \<Rightarrow> if holds_lease P \<lparr>lease_message = i, lease_worker = w, lease_now = t\<rparr> m then Some m else None)"

lemma outbox_lease_get:
  assumes "outbox_inv P st" "omap_get (messages st) k = Some m" "msg_id m = i"
  shows "outbox_lease P st w t i =
    (if holds_lease P \<lparr>lease_message = i, lease_worker = w, lease_now = t\<rparr> m then Some m else None)"
  using leased_message_found [OF assms(1,2), of "\<lparr>lease_message = i, lease_worker = w, lease_now = t\<rparr>"] assms(3)
  by (simp add: outbox_lease_def)

lemma outbox_lease_Some:
  assumes "outbox_inv P st" "outbox_lease P st w t i = Some m"
  obtains k where "omap_get (messages st) k = Some m" "msg_id m = i" "msg_id m = ''outbox.'' @ k"
    "holds_lease P \<lparr>lease_message = i, lease_worker = w, lease_now = t\<rparr> m"
proof -
  obtain k where k: "(k, m) \<in> set (messages st)" "msg_id m = i"
    "holds_lease P \<lparr>lease_message = i, lease_worker = w, lease_now = t\<rparr> m"
    using assms(2) unfolding outbox_lease_def
    by (auto simp: find_Some_iff split: option.splits if_splits) (metis nth_mem snd_conv)
  then have "omap_get (messages st) k = Some m" using assms(1) by (simp add: outbox_inv_def omap_wf_in_set)
  with k assms(1) that show ?thesis by (simp add: outbox_inv_def message_wf_def)
qed

definition stored_status :: "outbox \<Rightarrow> string \<Rightarrow> outbox_status option" where
  "stored_status st i = map_option (\<lambda>km. status (snd km)) (find (\<lambda>km. msg_id (snd km) = i) (messages st))"

lemma stored_status_get:
  assumes "outbox_inv P st" "omap_get (messages st) k = Some m" "msg_id m = i"
  shows "stored_status st i = Some (status m)"
  using leased_message_found [OF assms(1,2), of "\<lparr>lease_message = i, lease_worker = w, lease_now = t\<rparr>"] assms(3)
  by (simp add: stored_status_def)

lemma stored_status_Some:
  assumes "outbox_inv P st" "stored_status st i = Some x"
  obtains k m where "omap_get (messages st) k = Some m" "msg_id m = i" "i = ''outbox.'' @ k" "status m = x"
proof -
  obtain k m where k: "(k, m) \<in> set (messages st)" "msg_id m = i" "status m = x"
    using assms(2) unfolding stored_status_def by (auto simp: find_Some_iff) (metis nth_mem snd_conv)
  then have "omap_get (messages st) k = Some m" using assms(1) by (simp add: outbox_inv_def omap_wf_in_set)
  with k assms(1) that show ?thesis by (auto simp: outbox_inv_def message_wf_def)
qed

text \<open>A message with an identifier that is kept as it is keeps its status.\<close>

lemma stored_status_kept:
  assumes "outbox_inv P st" "outbox_inv P st'" "stored_status st j = Some x"
    and "\<And>k. j = ''outbox.'' @ k \<Longrightarrow> omap_get (messages st') k = omap_get (messages st) k"
  shows "stored_status st' j = Some x"
proof -
  obtain k m where k: "omap_get (messages st) k = Some m" "msg_id m = j" "j = ''outbox.'' @ k" "status m = x"
    using stored_status_Some [OF assms(1,3)] by metis
  then have "omap_get (messages st') k = Some m" using assms(4) by simp
  from stored_status_get [OF assms(2) this k(2)] k(4) show ?thesis by simp
qed

lemma stored_status_other:
  assumes "outbox_inv P st" "outbox_inv P st'" "\<And>k. j = ''outbox.'' @ k \<Longrightarrow> omap_get (messages st') k = omap_get (messages st) k"
  shows "stored_status st' j = stored_status st j"
  using stored_status_kept [OF assms(1,2)] stored_status_kept [OF assms(2,1)] assms(3)
  by (metis not_None_eq)

text \<open>Two states that agree on the message with an identifier agree on its lease.\<close>

lemma outbox_lease_other:
  assumes "outbox_inv P st" "outbox_inv P st'" "\<And>k. j = ''outbox.'' @ k \<Longrightarrow> omap_get (messages st') k = omap_get (messages st) k"
  shows "outbox_lease P st' w t j = outbox_lease P st w t j"
proof -
  have "outbox_lease P st2 w t j = Some m"
    if "outbox_lease P st1 w t j = Some m" "outbox_inv P st1" "outbox_inv P st2"
      "\<And>k. j = ''outbox.'' @ k \<Longrightarrow> omap_get (messages st2) k = omap_get (messages st1) k" for st1 st2 m
  proof -
    from outbox_lease_Some [OF that(2,1)] obtain k where k: "omap_get (messages st1) k = Some m" "msg_id m = j"
      "msg_id m = ''outbox.'' @ k" "holds_lease P \<lparr>lease_message = j, lease_worker = w, lease_now = t\<rparr> m" .
    then have "omap_get (messages st2) k = Some m" using that(4) by simp
    from outbox_lease_get [OF that(3) this k(2)] k(4) show ?thesis by simp
  qed
  then have "outbox_lease P st' w t j = Some m \<longleftrightarrow> outbox_lease P st w t j = Some m" for m
    using assms by (metis (no_types, lifting))
  then show ?thesis by (metis not_Some_eq)
qed

lemma claim_loop_total:
  "iso_string P expiry = Some s \<Longrightarrow> \<exists>ms st'. claim_loop P worker expiry kms st = (Inr ms, st')"
  by (induction P worker expiry kms st rule: claim_loop.induct) (auto simp: Let_def split: prod.splits sum.splits, metis sum.distinct(1) prod.inject)

lemma recover_loop_total: "iso_string P now = Some s \<Longrightarrow> \<exists>st'. recover_loop P now kms st = (Inr (), st')"
  by (induction P now kms st rule: recover_loop.induct) auto

lemma has_roomD:
  assumes "has_room P t d" "0 \<le> i" "i \<le> d" "date_parse P t = Some now"
  obtains s where "iso_string P (now + i) = Some s" "date_parse P s = Some (now + i)"
proof -
  have "i \<in> {0..d}" using assms(2,3) by simp
  with assms(1,4) that show ?thesis unfolding has_room_def by (simp only: option.case) blast
qed

lemma outbox_recover_ok:
  assumes "outbox_inv P st" "has_room P t 0"
  shows "\<exists>n st'. recover_expired_leases P t st = (Inr n, st') \<and> outbox_inv P st' \<and>
    (\<forall>w i. outbox_lease P st' w t i = outbox_lease P st w t i)"
proof -
  obtain now where now: "date_parse P t = Some now" "iso_string P now = Some t"
    using assms(2) by (auto simp: has_room_def split: option.splits)
  let ?kms = "filter (lease_expired P now) (messages st)"
  obtain st' where loop: "recover_loop P now ?kms st = (Inr (), st')"
    using recover_loop_total [OF now(2)] by blast
  then have run: "recover_expired_leases P t st = (Inr (int (length ?kms)), st')"
    using now(1) by (simp add: recover_expired_leases_def Let_def)
  have inv': "outbox_inv P st'" using outbox_step_inv [OF outbox_step.recovers assms(1), of t] run by simp
  have wf: "omap_wf (messages st)" using assms(1) by (simp add: outbox_inv_def)
  have distinct: "distinct (map fst ?kms)" using wf by (simp add: omap_wf_def distinct_map_filter)
  note result = recover_loop_result [OF loop distinct now(2)]
  have "outbox_lease P st' w t i = outbox_lease P st w t i" for w i
  proof (cases "\<exists>k m. i = ''outbox.'' @ k \<and> omap_get (messages st) k = Some m \<and> lease_expired P now (k, m)")
    case True
    then obtain k m where k: "i = ''outbox.'' @ k" "omap_get (messages st) k = Some m" "lease_expired P now (k, m)" by blast
    have ids: "msg_id m = i" using assms(1) k by (simp add: outbox_inv_def message_wf_def)
    have "map_of ?kms k = Some m"
      using k(2,3) distinct by (intro map_of_is_SomeI) (auto dest: map_of_SomeD)
    then have "\<exists>m'. omap_get (messages st') k = Some m' \<and> status m' = Pending \<and> msg_id m' = i"
      using result [of k] ids by simp
    then obtain m' where m': "omap_get (messages st') k = Some m'" "status m' = Pending" "msg_id m' = i" by blast
    from outbox_lease_get [OF inv' m'(1,3)] outbox_lease_get [OF assms(1) k(2) ids] m'(2) k(3) now(1)
    show ?thesis by (auto simp: holds_lease_def lease_expired_def split: option.splits)
  next
    case False
    show ?thesis
    proof (rule outbox_lease_other [OF assms(1) inv'])
      fix k assume "i = ''outbox.'' @ k"
      with False have "map_of ?kms k = None"
        using omap_wf_in_set [OF wf] by (auto simp: map_of_eq_None_iff)
      then show "omap_get (messages st') k = omap_get (messages st) k" using result [of k] by simp
    qed
  qed
  then show ?thesis using run inv' by blast
qed

lemma outbox_claim_ok:
  assumes inv: "outbox_inv P st" and room: "has_room P t d" and pos: "w \<noteq> []" "0 < d" "0 < n"
  shows "\<exists>ms st'. claim P \<lparr>claim_worker = w, claim_now = t, lease_ms = Num (of_int d), claim_limit = Num (of_int n)\<rparr> st
       = (Inr ms, st') \<and> outbox_inv P st' \<and> distinct (map msg_id ms) \<and> int (length ms) \<le> n \<and>
     (\<forall>m \<in> set ms. outbox_lease P st' w t (msg_id m) = Some m) \<and>
     (\<forall>i. i \<notin> msg_id ` set ms \<longrightarrow> outbox_lease P st' w t i = outbox_lease P st w t i)"
proof -
  let ?opt = "\<lparr>claim_worker = w, claim_now = t, lease_ms = Num (of_int d), claim_limit = Num (of_int n)\<rparr>"
  obtain now where now: "date_parse P t = Some now" "iso_string P now = Some t"
    using room by (auto simp: has_room_def split: option.splits)
  obtain s where s: "iso_string P (now + d) = Some s" "date_parse P s = Some (now + d)"
    using has_roomD [OF room _ _ now(1), of d] pos by auto
  let ?kms = "take (nat n) (sort_by (claim_order P) (filter (eligible P now) (messages st)))"
  obtain ms st' where loop: "claim_loop P w (now + d) ?kms st = (Inr ms, st')"
    using claim_loop_total [OF s(1)] by blast
  then have claim: "claim P ?opt st = (Inr ms, st')" using now pos by (simp add: claim_def)
  have inv': "outbox_inv P st'"
    using outbox_step_inv [OF outbox_step.claims inv, of ?opt] claim by simp
  have wf: "omap_wf (messages st)" using inv by (simp add: outbox_inv_def)
  note part = selection_part [OF wf, where n = "nat n" and c = "claim_order P" and Q = "eligible P now"]
  note result = claim_loop_result [OF loop part(1)]
  have ident: "msg_id m = ''outbox.'' @ k" if "(k, m) \<in> set ?kms" for k m
    using part(2) [OF that] inv by (simp add: outbox_inv_def message_wf_def)
  have ms: "ms = map (\<lambda>(k, m). leased_by P w (now + d) m) ?kms" using result by blast
  have "map msg_id ms = map (\<lambda>k. ''outbox.'' @ k) (map fst ?kms)"
    unfolding ms using ident by (auto simp: leased_by_def)
  then have "distinct (map msg_id ms)" using part(1) by (simp add: distinct_map inj_on_def)
  moreover have "int (length ms) \<le> n" using pos by (simp add: ms)
  moreover have "outbox_lease P st' w t (msg_id m') = Some m'" if "m' \<in> set ms" for m'
  proof -
    from that ms obtain k m where km: "(k, m) \<in> set ?kms" "m' = leased_by P w (now + d) m" by auto
    have "map_of ?kms k = Some m" using km(1) part(1) by simp
    then have "omap_get (messages st') k = Some m'" using result km(2) by simp
    from outbox_lease_get [OF inv' this refl] show ?thesis
      using now s pos(2) by (simp add: holds_lease_def km(2) leased_by_def)
  qed
  moreover have "outbox_lease P st' w t i = outbox_lease P st w t i" if "i \<notin> msg_id ` set ms" for i
  proof (rule outbox_lease_other [OF inv inv'])
    fix k assume i: "i = ''outbox.'' @ k"
    have "map_of ?kms k = None"
    proof (rule ccontr)
      assume "map_of ?kms k \<noteq> None"
      then obtain m where "(k, m) \<in> set ?kms" by (auto dest: map_of_SomeD)
      moreover from ident [OF this] have "msg_id (leased_by P w (now + d) m) = i" by (simp add: i leased_by_def)
      ultimately have "i \<in> msg_id ` set ms" unfolding ms by force
      with that show False by blast
    qed
    then show "omap_get (messages st') k = omap_get (messages st) k" using result by simp
  qed
  ultimately show ?thesis using claim inv' by blast
qed

text \<open>After its holder has given up a lease in \<open>store\<close>, nobody holds one on the message.\<close>

lemma outbox_lease_released:
  assumes "outbox_inv P st" "outbox_inv P (store k m' st)" "omap_get (messages st) k = Some m"
    "msg_id m = i" "msg_id m' = i" "status m' \<noteq> Leased"
  shows "outbox_lease P (store k m' st) w t i = None" and "stored_status (store k m' st) i = Some (status m')"
    and "j \<noteq> i \<Longrightarrow> outbox_lease P (store k m' st) w t j = outbox_lease P st w t j \<and> stored_status (store k m' st) j = stored_status st j"
proof -
  have stored: "omap_get (messages (store k m' st)) k = Some m'" by simp
  from outbox_lease_get [OF assms(2) stored assms(5)] assms(6)
  show "outbox_lease P (store k m' st) w t i = None" by (simp add: holds_lease_def)
  show "stored_status (store k m' st) i = Some (status m')"
    by (rule stored_status_get [OF assms(2) stored assms(5)])
  have "i = ''outbox.'' @ k" using assms(1,3,4) by (auto simp: outbox_inv_def message_wf_def)
  moreover assume "j \<noteq> i"
  ultimately show "outbox_lease P (store k m' st) w t j = outbox_lease P st w t j \<and> stored_status (store k m' st) j = stored_status st j"
    by (intro conjI outbox_lease_other [OF assms(1,2)] stored_status_other [OF assms(1,2)]) auto
qed

lemma outbox_acknowledge_ok:
  assumes inv: "outbox_inv P st" and room: "has_room P t 0" and lease: "outbox_lease P st w t i = Some m"
    and r: "receipt_bounded r"
  shows "\<exists>m' st'. acknowledge P \<lparr>lease_message = i, lease_worker = w, lease_now = t\<rparr> (Some r) st = (Inr m', st') \<and>
    outbox_inv P st' \<and> outbox_lease P st' w t i = None \<and> stored_status st' i = Some Delivered \<and>
    (\<forall>j. j \<noteq> i \<longrightarrow> outbox_lease P st' w t j = outbox_lease P st w t j \<and> stored_status st' j = stored_status st j)"
proof -
  let ?opt = "\<lparr>lease_message = i, lease_worker = w, lease_now = t\<rparr>"
  obtain k where k: "omap_get (messages st) k = Some m" "msg_id m = i" "holds_lease P ?opt m"
    using outbox_lease_Some [OF inv lease] by metis
  then obtain now where now: "date_parse P t = Some now" "leased_message P ?opt st = Inr (k, m, now)"
    using leased_message_iff [OF inv k(1), of ?opt] by auto
  have iso: "iso_string P now = Some t" using room now(1) by (simp add: has_room_def)
  obtain m' where ack: "acknowledge P ?opt (Some r) st = (Inr m', store k m' st)" "msg_id m' = i" "status m' = Delivered"
    using now iso r k(2) by (simp add: acknowledge_def Let_def receipt_bounded_def)
  have inv': "outbox_inv P (store k m' st)"
    using outbox_step_inv [OF outbox_step.acknowledges inv, of ?opt "Some r"] ack(1) by simp
  note released = outbox_lease_released [OF inv inv' k(1,2) ack(2)]
  show ?thesis
    by (intro exI [of _ m'] exI [of _ "store k m' st"]) (use released ack inv' in \<open>simp del: messages_store\<close>)
qed

lemma outbox_retry_ok:
  assumes inv: "outbox_inv P st" and room: "has_room P t maxd" and lease: "outbox_lease P st w t i = Some m"
    and pol: "e \<noteq> []" "0 < tries" "0 < base" "base \<le> maxd"
  shows "\<exists>m' st'. retry P \<lparr>lease_message = i, lease_worker = w, lease_now = t\<rparr>
      \<lparr>retry_error = e, max_attempts = Num (of_int tries), base_delay_ms = Num (of_int base),
        max_delay_ms = Num (of_int maxd)\<rparr> st = (Inr m', st') \<and>
    outbox_inv P st' \<and> outbox_lease P st' w t i = None \<and> (status m' = Pending \<or> status m' = DeadLetter) \<and> stored_status st' i = Some (status m') \<and>
    (\<forall>j. j \<noteq> i \<longrightarrow> outbox_lease P st' w t j = outbox_lease P st w t j \<and> stored_status st' j = stored_status st j)"
proof -
  let ?opt = "\<lparr>lease_message = i, lease_worker = w, lease_now = t\<rparr>"
  let ?pol = "\<lparr>retry_error = e, max_attempts = Num (of_int tries), base_delay_ms = Num (of_int base),
    max_delay_ms = Num (of_int maxd)\<rparr>"
  obtain k where k: "omap_get (messages st) k = Some m" "msg_id m = i" "holds_lease P ?opt m"
    using outbox_lease_Some [OF inv lease] by metis
  then obtain now where now: "date_parse P t = Some now" "leased_message P ?opt st = Inr (k, m, now)"
    using leased_message_iff [OF inv k(1), of ?opt] by auto
  have iso: "iso_string P now = Some t" using room now(1) by (simp add: has_room_def)
  obtain later where later: "iso_string P (now + backoff base maxd (attempts m)) = Some later"
    using has_roomD [OF room _ _ now(1)] backoff_bounds [OF pol(3,4), of "attempts m"] pol(3)
    by (metis order_less_imp_le order_trans)
  have "\<exists>m'. retry P ?opt ?pol st = (Inr m', store k m' st) \<and> msg_id m' = i \<and>
      status m' = (if tries \<le> attempts m then DeadLetter else Pending)"
    using now iso later pol k(2) by (cases "tries \<le> attempts m") (simp_all add: retry_def Let_def)
  then obtain m' where retried: "retry P ?opt ?pol st = (Inr m', store k m' st)" "msg_id m' = i"
      "status m' = (if tries \<le> attempts m then DeadLetter else Pending)" by blast
  have inv': "outbox_inv P (store k m' st)"
    using outbox_step_inv [OF outbox_step.retries inv, of ?opt ?pol] retried(1) by simp
  note released = outbox_lease_released [OF inv inv' k(1,2) retried(2)]
  show ?thesis
    by (intro exI [of _ m'] exI [of _ "store k m' st"]) (use released retried inv' in \<open>simp del: messages_store\<close>)
qed

text \<open>Enqueueing is quiet for every worker.\<close>

lemma enqueue_quiet:
  "quiet (outbox_inv P) (outbox_lease P) stored_status w t (\<lambda>st. snd (enqueue_from_committed_event P e p st))"
  unfolding quiet_def
proof (intro allI impI conjI)
  fix st i x
  assume inv: "outbox_inv P st"
  let ?st = "snd (enqueue_from_committed_event P e p st)"
  show inv': "outbox_inv P ?st" using inv by (rule enqueue_inv)
  have keeps: "omap_get (messages ?st) k = Some m" if "omap_get (messages st) k = Some m" for k m
    using that by (cases P e p st rule: enqueue_cases) auto
  have kept: "stored_status ?st i = Some x" if "stored_status st i = Some x" for i x
  proof -
    obtain k m where k: "omap_get (messages st) k = Some m" "msg_id m = i" "status m = x"
      by (rule stored_status_Some [OF inv \<open>stored_status st i = Some x\<close>])
    from stored_status_get [OF inv' keeps [OF k(1)] k(2)] k(3) show ?thesis by simp
  qed
  then show "stored_status st i = Some x \<Longrightarrow> stored_status ?st i = Some x" .
  show "outbox_lease P ?st w t i = outbox_lease P st w t i"
  proof (cases "\<exists>k m. omap_get (messages st) k = Some m \<and> msg_id m = i")
    case True
    then obtain k m where k: "omap_get (messages st) k = Some m" "msg_id m = i" by blast
    from outbox_lease_get [OF inv' keeps [OF k(1)] k(2), of w t] outbox_lease_get [OF inv k, of w t] show ?thesis by simp
  next
    case False
    then have "outbox_lease P st w t i = None"
      using outbox_lease_Some [OF inv, of w t i] by (cases "outbox_lease P st w t i") blast+
    moreover have "outbox_lease P ?st w t i = None"
    proof (rule ccontr)
      assume "outbox_lease P ?st w t i \<noteq> None"
      then obtain m where held: "outbox_lease P ?st w t i = Some m" by blast
      obtain k where k: "omap_get (messages ?st) k = Some m" "msg_id m = i" "status m = Leased"
        by (rule outbox_lease_Some [OF inv' held]) (simp add: holds_lease_def)
      have old: "omap_get (messages st) k \<noteq> Some m" using False k(2) by blast
      have "status m = Pending" using k(1) old by (cases P e p st rule: enqueue_cases) (auto split: if_splits)
      then show False using k(3) by simp
    qed
    ultimately show ?thesis by simp
  qed
qed

interpretation outbox_leases: lease_store P "outbox_store P" "outbox_inv P" "outbox_lease P" stored_status for P
proof
  fix st w t i m
  assume "outbox_inv P st" "outbox_lease P st w t i = Some m"
  then show "0 < attempts m"
    by (rule outbox_lease_Some) (auto simp: outbox_inv_def message_wf_def delivery_state_ok_def holds_lease_def
        dest: \<open>outbox_inv P st\<close> [unfolded outbox_inv_def, THEN conjunct2, rule_format])
qed (simp_all add: outbox_store_def outbox_recover_ok outbox_claim_ok outbox_acknowledge_ok outbox_retry_ok
  del: of_int_eq_iff)

section \<open>A small worker\<close>

definition digest_platform :: platform where
  "digest_platform = sample_platform\<lparr>sha256 := \<lambda>_. replicate 64 (CHR ''0'')\<rparr>"

definition sample_provider :: "nat provider" where
  "sample_provider = \<lparr>prov_id = ''v'', prov_topics = [''p''], prov_guarantee = ''REPLAY_SAFE'',
     prov_deliver = \<lambda>_ n. (Answer ''ACCEPTED'' ''x'', n + 1)\<rparr>"

definition sample_options :: "nat worker_options" where
  "sample_options = \<lparr>opt_tenant = ''t'', opt_worker = ''w'', opt_providers = [sample_provider], opt_lease_ms = None,
     opt_batch_size = None, opt_max_attempts = None, opt_base_delay = None, opt_max_delay = None,
     opt_max_payload = None, opt_after_accepted = \<lambda>_ _ n. (True, n), opt_sink = \<lambda>_ _. True\<rparr>"

definition sample_worker :: "nat worker" where
  "sample_worker = \<lparr>wk_tenant = ''t'', wk_id = ''w'', wk_lease_ms = 30000, wk_batch_size = 25, wk_max_attempts = 5,
     wk_base_delay = 1000, wk_max_delay = 60000, wk_max_payload = 262144,
     wk_providers = [(''p'', sample_provider)], wk_after_accepted = \<lambda>_ _ n. (True, n), wk_sink = \<lambda>_ _. True\<rparr>"

definition sample_store :: outbox where
  "sample_store = snd (enqueue_from_committed_event digest_platform sample_event sample_publication
     \<lparr>outbox_tenant = ''t'', messages = []\<rparr>)"

lemma sample_identifiers:
  "bounded_identifier ''t'' 200" "bounded_identifier ''w'' 200" "bounded_identifier ''v'' 200" "bounded_identifier ''p'' 200"
  by (simp_all add: bounded_identifier_def blank_iff is_space_def has_control_def)

lemma sample_create: "create_outbox_delivery_worker sample_options = Inr sample_worker"
  by (simp add: create_outbox_delivery_worker_def sample_options_def sample_worker_def sample_identifiers limit_or_def
      add_provider_def sample_provider_def omap_has_def)

lemma sample_store_inv: "outbox_inv digest_platform sample_store"
  unfolding sample_store_def by (rule enqueue_inv) (simp add: outbox_inv_def omap_wf_def)

lemma digest_platform_dates:
  "date_parse digest_platform = date_parse sample_platform" "iso_string digest_platform = iso_string sample_platform"
  by (simp_all add: digest_platform_def)

lemma sample_has_room: "has_room digest_platform ''T5'' 60000"
proof -
  have "\<exists>s. iso_string sample_platform (5 + i) = Some s \<and> date_parse sample_platform s = Some (5 + i)"
    if "0 \<le> i" "i \<le> 60000" for i
  proof -
    have "\<exists>s. iso_string sample_platform (5 + i) = Some s" using that by (simp add: sample_platform_def sample_iso_string_def)
    then show ?thesis using dates_okD [OF sample_dates_ok] by blast
  qed
  then show ?thesis by (simp add: has_room_def digest_platform_dates sample_dates)
qed

lemma digest_platform_ok: "digests_ok digest_platform"
  by (simp add: digests_ok_def digest_platform_def has_control_def)

definition sample_digest :: string where
  "sample_digest = replicate 64 (CHR ''0'')"

definition sample_id :: string where
  "sample_id = ''outbox.'' @ sample_digest"

definition sample_idempotency :: string where
  "sample_idempotency = ''outbox.v1.'' @ sample_digest"

definition sample_held :: outbox_message where
  "sample_held = sample_leased\<lparr>dedupe_key := sample_digest, msg_id := sample_id\<rparr>"

definition sample_held_store :: outbox where
  "sample_held_store = \<lparr>outbox_tenant = ''t'', messages = [(sample_digest, sample_held)]\<rparr>"

definition sample_delivered :: outbox_message where
  "sample_delivered = sample_held\<lparr>provider_id := Some ''v'', provider_message_id := Some ''x'',
     provider_idempotency_key := Some sample_idempotency, status := Delivered,
     delivered_at := Some ''T5'', lease_owner := None, lease_expires_at := None\<rparr>"

lemma digest_platform_hash: "plain v \<Longrightarrow> canonical_hash digest_platform v = Inr sample_digest"
  using normalise_plain [of v]
  by (auto simp: canonical_hash_def canonical_stringify_def digest_platform_def sample_digest_def)

lemma sample_held_facts:
  "msg_id sample_held = sample_id" "status sample_held = Leased" "attempts sample_held = 1"
  "lease_owner sample_held = Some ''w''" "lease_expires_at sample_held = Some ''T15''" "tenant_id sample_held = ''t''"
  "topic sample_held = ''p''" "publication_key sample_held = ''k''" "payload sample_held = JBool True"
  "dedupe_key sample_held = sample_digest"
  by (simp_all add: sample_held_def sample_leased_def leased_by_def sample_message_def sample_dates)

lemma sample_held_inv: "outbox_inv digest_platform sample_held_store"
  by (simp add: outbox_inv_def omap_wf_def sample_held_store_def message_wf_def delivery_state_ok_def sample_held_facts
      expected_dedupe_key_def message_identity_def digest_platform_hash sample_id_def)

lemma sample_provider_key: "provider_key digest_platform ''t'' ''v'' sample_held = sample_idempotency"
  by (simp add: provider_key_def digest_platform_hash sample_idempotency_def)

lemma sample_more_identifiers:
  "bounded_identifier ''k'' 500" "bounded_identifier ''v'' 500" "bounded_identifier ''x'' 500"
  "bounded_identifier sample_idempotency 500"
  by (simp_all add: bounded_identifier_def blank_iff is_space_def has_control_def sample_digest_def
      sample_idempotency_def)

lemma sample_deliver:
  "deliver_one digest_platform (outbox_store digest_platform) sample_worker ''T5'' sample_held
     \<lparr>rs_store = sample_held_store, rs_world = 0, rs_telemetry = [], rs_others = []\<rparr> =
   (Inr WasDelivered, \<lparr>rs_store = \<lparr>outbox_tenant = ''t'', messages = [(sample_digest, sample_delivered)]\<rparr>, rs_world = 1,
      rs_telemetry = [Claimed sample_id ''p'' 1,
        DeliveredEvent sample_id ''p'' ''v'' 1], rs_others = []\<rparr>)"
proof -
  have att: "attempt digest_platform sample_worker sample_held 0 =
      ((Some ''v'', Inr (''x'', sample_idempotency)), 1)"
    by (simp add: attempt_def sample_worker_def sample_provider_def validate_message_def validate_result_def
        sample_held_facts sample_identifiers sample_more_identifiers utf8_length_def request_for_def
        sample_provider_key Let_def)
  have leased: "leased_message digest_platform \<lparr>lease_message = sample_id, lease_worker = ''w'',
      lease_now = ''T5''\<rparr> sample_held_store = Inr (sample_digest, sample_held, 5)"
    by (simp add: leased_message_def sample_held_store_def sample_held_facts digest_platform_dates sample_dates)
  have ack: "acknowledge digest_platform \<lparr>lease_message = sample_id, lease_worker = ''w'', lease_now = ''T5''\<rparr>
      (Some \<lparr>receipt_provider = ''v'', receipt_message = ''x'', receipt_idempotency_key = sample_idempotency\<rparr>)
      sample_held_store = (Inr sample_delivered, \<lparr>outbox_tenant = ''t'', messages = [(sample_digest, sample_delivered)]\<rparr>)"
    by (simp add: acknowledge_def leased sample_more_identifiers digest_platform_dates sample_dates store_def
        Let_def) (simp add: sample_held_store_def sample_delivered_def)
  have wk: "wk_id sample_worker = ''w''" "wk_after_accepted sample_worker = (\<lambda>_ _ n. (True, n))" "sink_ok sample_worker"
    by (simp_all add: sample_worker_def sink_ok_def)
  show ?thesis
    by (simp add: deliver_one_def att emit_ok [OF wk(3)] emit_then_ok [OF wk(3)] report_success_def outbox_store_def await_others_def
        sample_held_facts wk(1,2) ack Let_def)
qed

section \<open>Properties\<close>

text \<open>
  C2. A run accounts, message by message, for everything it claims. Take a worker that \<^verbatim>\<open>createOutboxDeliveryWorker\<close> accepted, whose
  seam and telemetry sink do not throw and whose providers have bounded identifiers and never throw an empty error code; a clock
  whose text is canonical, as are the instants up to the end of a lease and of the longest delay; and other callers that, while
  the run awaits, leave alone the messages that are there (they may enqueue). Then the run ends without an exception. Of the
  messages \<open>ms\<close> it has claimed, each once and no more than a batch, each is stored as DELIVERED, PENDING or DEAD_LETTER
  at the end, and the counters delivered, retried and deadLettered of the summary are the numbers of those in that status. The
  outbox stays well formed, and the worker holds no lease that it did not hold before.
\<close>

theorem run_once_accounts:
  assumes "create_outbox_delivery_worker opt = Inr wk" "providers_ok wk" "seam_ok wk" "sink_ok wk" "digests_ok P"
    and "has_room P t (max (wk_lease_ms wk) (wk_max_delay wk))" "outbox_inv P (rs_store rs)"
    and "\<forall>f \<in> set (rs_others rs). quiet (outbox_inv P) (outbox_lease P) stored_status (wk_id wk) t f"
  shows "\<exists>n ms rs1 s rs'. start_run (outbox_store P) wk t rs = (Inr (n, ms), rs1) \<and>
    run_once P (outbox_store P) wk t rs = (Inr s, rs') \<and> outbox_inv P (rs_store rs') \<and>
    distinct (map msg_id ms) \<and> int (length ms) \<le> wk_batch_size wk \<and>
    (\<forall>m \<in> set ms. \<exists>out. stored_status (rs_store rs') (msg_id m) = Some (outcome_status out)) \<and>
    s = \<lparr>sum_claimed = int (length ms), sum_delivered = in_status (stored_status (rs_store rs')) Delivered ms,
         sum_retried = in_status (stored_status (rs_store rs')) Pending ms,
         sum_dead_lettered = in_status (stored_status (rs_store rs')) DeadLetter ms, sum_recovered = n\<rparr> \<and>
    (\<forall>i. outbox_lease P (rs_store rs') (wk_id wk) t i \<noteq> None \<longrightarrow> outbox_lease P (rs_store rs) (wk_id wk) t i \<noteq> None)"
  by (rule outbox_leases.run_once_ok [OF createD(1) [OF assms(1)] assms(2-)])

text \<open>A run during which another caller enqueues a message.\<close>

definition sample_run_state :: "(outbox, nat) run_state" where
  "sample_run_state = \<lparr>rs_store = sample_store, rs_world = 0, rs_telemetry = [],
     rs_others = [\<lambda>st. snd (enqueue_from_committed_event digest_platform sample_event sample_publication st)]\<rparr>"

theorem run_once_accounts_witness:
  "\<exists>n ms rs1 s rs'. start_run (outbox_store digest_platform) sample_worker ''T5'' sample_run_state = (Inr (n, ms), rs1) \<and>
    run_once digest_platform (outbox_store digest_platform) sample_worker ''T5'' sample_run_state = (Inr s, rs') \<and>
    outbox_inv digest_platform (rs_store rs') \<and> sum_delivered s = in_status (stored_status (rs_store rs')) Delivered ms"
proof -
  have ok: "providers_ok sample_worker" "seam_ok sample_worker" "sink_ok sample_worker"
      "has_room digest_platform ''T5'' (max (wk_lease_ms sample_worker) (wk_max_delay sample_worker))"
      "outbox_inv digest_platform (rs_store sample_run_state)"
    using sample_has_room sample_store_inv
    by (simp_all add: providers_ok_def seam_ok_def sink_ok_def sample_worker_def sample_provider_def sample_identifiers sample_run_state_def)
  have others: "\<forall>f \<in> set (rs_others sample_run_state).
      quiet (outbox_inv digest_platform) (outbox_lease digest_platform) stored_status (wk_id sample_worker) ''T5'' f"
    by (simp add: sample_run_state_def enqueue_quiet)
  obtain n ms rs1 s rs' where r: "start_run (outbox_store digest_platform) sample_worker ''T5'' sample_run_state = (Inr (n, ms), rs1)"
      "run_once digest_platform (outbox_store digest_platform) sample_worker ''T5'' sample_run_state = (Inr s, rs')"
      "outbox_inv digest_platform (rs_store rs')"
      "s = \<lparr>sum_claimed = int (length ms), sum_delivered = in_status (stored_status (rs_store rs')) Delivered ms,
         sum_retried = in_status (stored_status (rs_store rs')) Pending ms,
         sum_dead_lettered = in_status (stored_status (rs_store rs')) DeadLetter ms, sum_recovered = n\<rparr>"
    using run_once_accounts [OF sample_create ok(1-3) digest_platform_ok ok(4,5) others] by metis
  then show ?thesis by (intro exI [of _ n] exI [of _ ms] exI [of _ rs1] exI [of _ s] exI [of _ rs']) simp
qed

text \<open>Awaits at which other callers call the outbox.\<close>

definition awaited :: "platform \<Rightarrow> (outbox, 'w) run_state \<Rightarrow> (outbox, 'w) run_state \<Rightarrow> bool" where
  "awaited P a b \<longleftrightarrow> outbox_run P (rs_store a) (rs_store b) \<and> (\<forall>f \<in> set (rs_others b). \<forall>st. outbox_run P st (f st))"

lemma outbox_run_trans: "outbox_run P b c \<Longrightarrow> outbox_run P a b \<Longrightarrow> outbox_run P a c"
  by (induction rule: outbox_run.induct) (auto intro: run_step)

lemma await_run:
  assumes "\<forall>f \<in> set (rs_others rs). \<forall>st. outbox_run P st (f st)"
  shows "outbox_run P (rs_store rs) (rs_store (await_others rs))"
    and "\<forall>f \<in> set (rs_others (await_others rs)). \<forall>st. outbox_run P st (f st)"
  using assms by (auto simp: await_others_def run_refl split: list.splits)

lemma delivered_calls:
  assumes "\<forall>f \<in> set (rs_others rs). \<forall>st. outbox_run P st (f st)"
    and "report_success (outbox_store P) wk t m prov res (await_others (rs\<lparr>rs_telemetry := es, rs_world := w\<rparr>)) = (Inr WasDelivered, rs')"
  shows "\<exists>rs1 m' st'. awaited P rs rs1 \<and> rs_store rs' = rs_store (await_others (rs1\<lparr>rs_store := st'\<rparr>)) \<and>
    acknowledge P \<lparr>lease_message = msg_id m, lease_worker = wk_id wk, lease_now = t\<rparr>
      (Some \<lparr>receipt_provider = prov, receipt_message = fst res, receipt_idempotency_key = snd res\<rparr>) (rs_store rs1) = (Inr m', st')"
proof -
  let ?rs0 = "await_others (rs\<lparr>rs_telemetry := es, rs_world := w\<rparr>)"
  obtain w' m' st' where seam: "wk_after_accepted wk m (fst res) (rs_world ?rs0) = (True, w')"
    and ack: "acknowledge P \<lparr>lease_message = msg_id m, lease_worker = wk_id wk, lease_now = t\<rparr>
      (Some \<lparr>receipt_provider = prov, receipt_message = fst res, receipt_idempotency_key = snd res\<rparr>)
      (rs_store (await_others (?rs0\<lparr>rs_world := w'\<rparr>))) = (Inr m', st')"
    and last: "emit_then wk (DeliveredEvent (msg_id m) (topic m) prov (attempts m)) WasDelivered
      (await_others (await_others (?rs0\<lparr>rs_world := w'\<rparr>)\<lparr>rs_store := st'\<rparr>)) = (Inr WasDelivered, rs')"
    using assms(2) by (auto simp: report_success_def outbox_store_def Let_def split: prod.splits bool.splits sum.splits)
  have a: "outbox_run P (rs_store rs) (rs_store ?rs0)" "\<forall>f \<in> set (rs_others ?rs0). \<forall>st. outbox_run P st (f st)"
    using await_run [of "rs\<lparr>rs_telemetry := es, rs_world := w\<rparr>" P] assms(1) by simp_all
  have b: "outbox_run P (rs_store ?rs0) (rs_store (await_others (?rs0\<lparr>rs_world := w'\<rparr>)))"
      "\<forall>f \<in> set (rs_others (await_others (?rs0\<lparr>rs_world := w'\<rparr>))). \<forall>st. outbox_run P st (f st)"
    using await_run [of "?rs0\<lparr>rs_world := w'\<rparr>" P] a(2) by simp_all
  have "awaited P rs (await_others (?rs0\<lparr>rs_world := w'\<rparr>))"
    unfolding awaited_def using outbox_run_trans [OF b(1) a(1)] b(2) by simp
  then show ?thesis using ack emit_then_Inr [OF last] by blast
qed

text \<open>
  C3. A message is acknowledged only after its provider has accepted it: when one delivery
  ends as delivered, the message belongs to the tenant of the worker and its payload is JSON
  within the size limit, the provider configured for its topic was called with exactly this
  tenant, topic, payload and idempotency key and answered \<^verbatim>\<open>ACCEPTED\<close> or \<^verbatim>\<open>DUPLICATE\<close>,
  and the stored message carries that provider, its message identifier and the key. Other callers may make any calls on
  the outbox at the awaits of the delivery.
\<close>

theorem delivered_only_if_accepted:
  assumes "outbox_inv P (rs_store rs)" "\<forall>f \<in> set (rs_others rs). \<forall>st. outbox_run P st (f st)"
    and "deliver_one P (outbox_store P) wk t m rs = (Inr WasDelivered, rs')"
  shows "\<exists>p answer_status mid k stored. omap_get (wk_providers wk) (topic m) = Some p \<and>
    fst (prov_deliver p (request_for P (wk_tenant wk) (prov_id p) m) (rs_world rs)) = Answer answer_status mid \<and>
    answer_status \<in> {''ACCEPTED'', ''DUPLICATE''} \<and>
    tenant_id m = wk_tenant wk \<and> assert_json (payload m) \<and>
    int (utf8_length (json_text P (payload m))) \<le> wk_max_payload wk \<and>
    omap_get (messages (rs_store rs')) k = Some stored \<and> msg_id stored = msg_id m \<and> status stored = Delivered \<and>
    provider_id stored = Some (prov_id p) \<and> provider_message_id stored = Some mid \<and>
    provider_idempotency_key stored = Some (provider_key P (wk_tenant wk) (prov_id p) m)"
proof -
  let ?rs = "rs\<lparr>rs_telemetry := rs_telemetry rs @ [Claimed (msg_id m) (topic m) (attempts m)]\<rparr>"
  obtain prov res w where att: "attempt P wk m (rs_world rs) = ((prov, Inr res), w)"
    and success: "report_success (outbox_store P) wk t m (the prov) res (await_others (?rs\<lparr>rs_world := w\<rparr>)) = (Inr WasDelivered, rs')"
    using assms(3) by (auto simp: deliver_one_def report_failure_def Let_def split: prod.splits sum.splits if_splits dest!: emit_Inr emit_then_Inr)
  have valid: "validate_message P m (wk_tenant wk) (wk_max_payload wk) = Inr ()"
    using att by (auto simp: attempt_def split: sum.splits)
  obtain p where p: "omap_get (wk_providers wk) (topic m) = Some p" "prov = Some (prov_id p)"
    using att valid by (auto simp: attempt_def Let_def split: option.splits)
  obtain s mid where answer: "fst (prov_deliver p (request_for P (wk_tenant wk) (prov_id p) m) (rs_world rs)) = Answer s mid"
      "validate_result s mid = Inr ()" "res = (mid, provider_key P (wk_tenant wk) (prov_id p) m)"
    using att valid p(1) by (auto simp: attempt_def Let_def request_for_def split: provider_answer.splits sum.splits)
  obtain rs1 m' st' where calls: "awaited P rs rs1" "rs_store rs' = rs_store (await_others (rs1\<lparr>rs_store := st'\<rparr>))"
    and ack: "acknowledge P \<lparr>lease_message = msg_id m, lease_worker = wk_id wk, lease_now = t\<rparr>
      (Some \<lparr>receipt_provider = prov_id p, receipt_message = mid, receipt_idempotency_key = snd res\<rparr>) (rs_store rs1) = (Inr m', st')"
    using delivered_calls [OF assms(2) success] p(2) answer(3) by auto
  have inv1: "outbox_inv P (rs_store rs1)" using calls(1) assms(1) outbox_run_inv by (auto simp: awaited_def)
  obtain k where k: "omap_get (messages st') k = Some m'" "msg_id m' = msg_id m" "status m' = Delivered"
      "provider_id m' = Some (prov_id p)" "provider_message_id m' = Some mid" "provider_idempotency_key m' = Some (snd res)"
    using acknowledge_stored [OF inv1 ack] by auto
  have "outbox_inv P st'" using outbox_step_inv [OF outbox_step.acknowledges inv1] ack by (metis snd_conv)
  moreover have "outbox_run P st' (rs_store rs')"
    using await_run [of "rs1\<lparr>rs_store := st'\<rparr>" P] calls by (simp add: awaited_def)
  ultimately have "omap_get (messages (rs_store rs')) k = Some m'"
    using outbox_run_message [of P st' "rs_store rs'" k m'] k(1,3) by auto
  then show ?thesis using p(1) answer valid k
    by (auto simp: validate_message_def validate_result_def split: if_splits)
qed

theorem delivered_only_if_accepted_witness:
  "\<exists>p. omap_get (wk_providers sample_worker) (topic sample_held) = Some p \<and>
    (\<exists>answer_status mid. answer_status \<in> {''ACCEPTED'', ''DUPLICATE''} \<and>
      fst (prov_deliver p (request_for digest_platform ''t'' (prov_id p) sample_held) (0::nat)) = Answer answer_status mid)"
proof -
  have inv: "outbox_inv digest_platform (rs_store \<lparr>rs_store = sample_held_store, rs_world = (0::nat), rs_telemetry = [], rs_others = []\<rparr>)"
    using sample_held_inv by simp
  have tenant: "wk_tenant sample_worker = ''t''" by (simp add: sample_worker_def)
  show ?thesis
    using delivered_only_if_accepted [OF inv _ sample_deliver] unfolding tenant run_state.simps by simp blast
qed

text \<open>
  Redelivery is the same request: whatever happens to a message between two deliveries
  (crashes after the provider accepted it, lease expiry, retries), a provider is given the same
  tenant, topic, key, payload and idempotency key for it, so a provider that keeps its promise
  of replay safety produces one external effect.
\<close>

theorem redelivery_same_request:
  assumes "outbox_inv P st" "outbox_run P st st'" "omap_get (messages st) key = Some m"
    and "omap_get (messages st') key = Some m'"
  shows "request_for P tenant prov m' = request_for P tenant prov m"
  using outbox_run_message [OF assms(2,1,3)] assms(4)
  by (auto simp: request_for_def provider_key_def same_identity_def)

theorem redelivery_same_request_witness:
  "request_for sample_platform ''t'' ''v'' sample_leased = request_for sample_platform ''t'' ''v'' sample_message"
  by (rule redelivery_same_request [OF sample_enqueued_inv sample_claim_run sample_enqueued_get sample_claimed_get])

end
