(* ===== verification/HashChain.thy ===== *)
theory HashChain
  imports JsonValue
begin

text \<open>
  What the ledgers of the engine have in common: entries that carry the SHA-256 of their own
  content, the hash of the entry before and their position. The adjudication ledger
  (adjudication.ts) and the event store (event-store.ts) declare the same functions
  \<^verbatim>\<open>canonical\<close> and \<^verbatim>\<open>hash\<close>, which are \<open>ledger_text\<close> and \<open>ledger_hash\<close>.

  \<^item> \<open>ledger_text_fields\<close>: the text determines every field, up to the order of keys inside it.
  \<^item> \<open>chain_linked\<close> is what the verifiers of both ledgers check, \<open>hash_chain\<close> the interface in
    which the head of a chain is shown to bind the whole history.
\<close>

section \<open>The ledger text determines the fields\<close>

lemma plain_ledger_sorted: "plain v \<Longrightarrow> plain (ledger_sorted P v)"
  by (induction P v rule: ledger_sorted.induct) (auto simp: list_all_iff)

lemma ledger_text_inject:
  assumes "number_text_ok P" "plain v" "plain w" "ledger_text P v = ledger_text P w"
  shows "ledger_sorted P v = ledger_sorted P w"
  using json_text_inject [OF assms(1) plain_ledger_sorted plain_ledger_sorted, OF assms(2,3)]
    ledger_text_sorted [OF assms(2)] ledger_text_sorted [OF assms(3)] assms(4) by metis

lemma map_of_sort_by:
  assumes "distinct (map fst kvs)"
  shows "map_of (sort_by c kvs) = map_of kvs"
proof -
  have "distinct (map fst (sort_by c kvs))" using assms by simp
  then show ?thesis using assms by (metis map_of_inject_set set_sort_by)
qed

lemma map_of_ledger_sorted:
  assumes "distinct (map fst kvs)"
  shows "map_of (map (\<lambda>(k, v). (k, ledger_sorted P v)) (sort_by c kvs)) k = map_option (ledger_sorted P) (map_of kvs k)"
proof -
  have "map_of (map (\<lambda>(k, v). (k, ledger_sorted P v)) xs) k = map_option (ledger_sorted P) (map_of xs k)" for xs
    by (induction xs) auto
  then show ?thesis by (simp add: map_of_sort_by [OF assms])
qed

lemma ledger_sorted_fields:
  assumes "ledger_sorted P (JObj kvs) = ledger_sorted P (JObj lws)" "distinct (map fst kvs)" "distinct (map fst lws)"
  shows "map_option (ledger_sorted P) (map_of kvs k) = map_option (ledger_sorted P) (map_of lws k)"
proof -
  from assms(1) have "map_of (map (\<lambda>(k, v). (k, ledger_sorted P v)) (sort_by (\<lambda>a b. locale_compare P (fst a) (fst b)) kvs)) k =
    map_of (map (\<lambda>(k, v). (k, ledger_sorted P v)) (sort_by (\<lambda>a b. locale_compare P (fst a) (fst b)) lws)) k" by simp
  then show ?thesis by (simp add: map_of_ledger_sorted assms(2,3))
qed

lemma ledger_text_fields:
  assumes "number_text_ok P" "plain (JObj kvs)" "plain (JObj lws)" "distinct (map fst kvs)" "distinct (map fst lws)"
    and "ledger_text P (JObj kvs) = ledger_text P (JObj lws)"
  shows "map_option (ledger_sorted P) (map_of kvs k) = map_option (ledger_sorted P) (map_of lws k)"
  by (rule ledger_sorted_fields [OF ledger_text_inject [OF assms(1-3,6)] assms(4,5)])

text \<open>\<^verbatim>\<open>x ?? null\<close> of an optional string.\<close>

fun string_or_null :: "string option \<Rightarrow> jsval" where
  "string_or_null None = JNull"
| "string_or_null (Some s) = JStr s"

lemma string_or_null_eq [simp]: "ledger_sorted P (string_or_null a) = ledger_sorted P (string_or_null b) \<longleftrightarrow> a = b"
  by (cases a; cases b) auto

lemma plain_string_or_null [simp]: "plain (string_or_null a)"
  by (cases a) auto

section \<open>Chains\<close>

definition chain_linked ::
    "(string \<Rightarrow> string) \<Rightarrow> ('e \<Rightarrow> string) \<Rightarrow> ('e \<Rightarrow> string) \<Rightarrow> ('e \<Rightarrow> string option) \<Rightarrow> ('e \<Rightarrow> int) \<Rightarrow> 'e list \<Rightarrow> bool" where
  "chain_linked sha content stored prev position es =
     list_all (\<lambda>(i, e). stored e = sha (content e) \<and> position e = int i + 1 \<and>
        prev e = (if i = 0 then None else Some (stored (es ! (i - 1))))) (enumerate 0 es)"

locale hash_chain =
  fixes sha :: "string \<Rightarrow> string" and content :: "'e \<Rightarrow> string" and stored :: "'e \<Rightarrow> string"
    and prev :: "'e \<Rightarrow> string option" and position :: "'e \<Rightarrow> int" and admissible :: "'e \<Rightarrow> bool"
  assumes content_binds: "admissible e \<Longrightarrow> admissible f \<Longrightarrow> content e = content f \<Longrightarrow>
    prev e = prev f \<and> position e = position f"
begin

abbreviation linked :: "'e list \<Rightarrow> bool" where
  "linked \<equiv> chain_linked sha content stored prev position"

lemma linked_iff_nth: "linked es \<longleftrightarrow> (\<forall>i < length es. stored (es ! i) = sha (content (es ! i)) \<and>
    position (es ! i) = int i + 1 \<and> prev (es ! i) = (if i = 0 then None else Some (stored (es ! (i - 1)))))"
  by (auto simp: chain_linked_def list_all_length nth_enumerate_eq)

lemma linked_Nil: "linked []"
  by (simp add: linked_iff_nth)

lemma linked_snoc: "linked (es @ [e]) \<longleftrightarrow> linked es \<and> stored e = sha (content e) \<and>
    position e = int (length es) + 1 \<and> prev e = (if es = [] then None else Some (stored (last es)))"
proof -
  have old: "(es @ [e]) ! i = es ! i" "(es @ [e]) ! (i - 1) = es ! (i - 1)" if "i < length es" for i
    using that by (auto simp: nth_append)
  have new: "(es @ [e]) ! (length es - 1) = last es" if "es \<noteq> []"
    using that by (simp add: nth_append last_conv_nth)
  show ?thesis
    unfolding linked_iff_nth length_append_singleton All_less_Suc nth_append_length
    using old new by (simp cong: conj_cong) blast
qed

text \<open>
  The head binds the history: two linked chains with the same head hash have the same contents,
  or two of their entries collide.
\<close>

lemma head_binds:
  assumes "linked es" "linked fs" "es \<noteq> []" "fs \<noteq> []" "stored (last es) = stored (last fs)"
    and "\<forall>e \<in> set es \<union> set fs. admissible e"
  shows "map content es = map content fs \<or>
    (\<exists>e \<in> set es. \<exists>f \<in> set fs. content e \<noteq> content f \<and> sha (content e) = sha (content f))"
  using assms
proof (induction es arbitrary: fs rule: rev_induct)
  case (snoc e es)
  obtain fs' f where fs: "fs = fs' @ [f]" using snoc.prems(4) by (metis rev_exhaust)
  note L = snoc.prems(1) [unfolded linked_snoc] and R = snoc.prems(2) [unfolded fs linked_snoc]
  show ?case
  proof (cases "content e = content f")
    case False
    then show ?thesis using L R snoc.prems(5) unfolding fs by auto
  next
    case True
    have same: "prev e = prev f" "position e = position f"
      using content_binds [OF _ _ True] snoc.prems(6) unfolding fs by auto
    then have len: "length es = length fs'" using L R by simp
    show ?thesis
    proof (cases "es = []")
      case True
      then show ?thesis using len \<open>content e = content f\<close> unfolding fs by simp
    next
      case False
      then have "fs' \<noteq> []" using len by auto
      then have "stored (last es) = stored (last fs')" using L R same(1) False by simp
      from snoc.IH [OF _ _ False \<open>fs' \<noteq> []\<close> \<open>stored (last es) = stored (last fs')\<close>] L R snoc.prems(6) True show ?thesis unfolding fs by auto
    qed
  qed
qed simp

end

end
