(* ===== verification/Adjudication.thy ===== *)
theory Adjudication
  imports HashChain
begin

text \<open>
  packages/competition-engine/src/adjudication.ts: the append-only ledger of what is true about
  a contest: results, walkovers, withdrawals, corrections and voids.

  \<^item> Data as in the module; a command is a \<open>datatype\<close> with one constructor per \<^verbatim>\<open>kind\<close>.
  \<^item> \<open>append_adjudication\<close> and \<open>verify_adjudication_ledger\<close> are the two operations;
    \<open>event_json\<close> is the object an event is hashed as, in the order its keys are created.
  \<^item> Lemmas: a built ledger verifies, decided outcomes are sound, what is effective after an
    append, and that the head hash binds the ledger (\<open>hash_chain\<close>).
\<close>

section \<open>Data\<close>

datatype withdrawal_policy = AwardWalkover | VoidContest

record adjudication_policy =
  withdrawal :: "withdrawal_policy option"

datatype decided_status = Completed | Walkover

record decided_outcome =
  dec_status :: decided_status
  dec_entrants :: "string \<times> string"
  winner_id :: string
  loser_id :: string
  dec_score :: "(jsnum \<times> jsnum) option"

datatype adjudicated_outcome = Decided decided_outcome | Voided "string \<times> string"

datatype adjudication_kind =
  ResultRecorded | WalkoverRecorded | WithdrawalAdjudicated | ResultCorrected | ResultVoided

record adjudication_event =
  adj_event_id :: string
  adj_sequence :: int
  adj_previous :: "string option"
  adj_hash :: string
  adj_kind :: adjudication_kind
  adj_contest :: string
  adj_actor :: string
  adj_recorded_at :: string
  adj_reason :: string
  adj_supersedes :: "string option"
  adj_outcome :: adjudicated_outcome
  adj_evidence :: "string list"

record adjudication_ledger =
  led_policy :: adjudication_policy
  led_events :: "adjudication_event list"

record audit_fields =
  au_contest :: string
  au_actor :: string
  au_recorded_at :: string
  au_reason :: string

record result_fields =
  rf_entrants :: "string \<times> string"
  rf_winner :: string
  rf_score :: "jsnum \<times> jsnum"

datatype adjudication_command =
    RecordResult audit_fields result_fields
  | RecordWalkover audit_fields "string \<times> string" string
  | AdjudicateWithdrawal audit_fields "string \<times> string" string
  | CorrectResult audit_fields result_fields string
  | VoidResult audit_fields string

datatype adjudication_error =
    AuditMissing
  | ContestHasTruth
  | NotCurrentEvent
  | AmbiguousWithdrawal
  | InvalidResult
  | InvalidScore
  | InvalidUnavailable

datatype finding_code = HashMismatch | BrokenChain | BrokenLineage

record ledger_proof =
  pf_valid :: bool
  pf_count :: nat
  pf_hash :: string
  pf_findings :: "(finding_code \<times> string) list"

fun command_audit :: "adjudication_command \<Rightarrow> audit_fields" where
  "command_audit (RecordResult a _) = a"
| "command_audit (RecordWalkover a _ _) = a"
| "command_audit (AdjudicateWithdrawal a _ _) = a"
| "command_audit (CorrectResult a _ _) = a"
| "command_audit (VoidResult a _) = a"

text \<open>\<open>Some id\<close> for the commands with \<^verbatim>\<open>isRevision\<close>.\<close>

fun command_supersedes :: "adjudication_command \<Rightarrow> string option" where
  "command_supersedes (CorrectResult _ _ i) = Some i"
| "command_supersedes (VoidResult _ i) = Some i"
| "command_supersedes _ = None"

section \<open>Events as hashed values\<close>

definition pair_json :: "string \<times> string \<Rightarrow> jsval" where
  "pair_json p = JArr [JStr (fst p), JStr (snd p)]"

fun status_text :: "decided_status \<Rightarrow> string" where
  "status_text Completed = ''COMPLETED''"
| "status_text Walkover = ''WALKOVER''"

fun score_json :: "(jsnum \<times> jsnum) option \<Rightarrow> jsval" where
  "score_json None = JNull"
| "score_json (Some (a, b)) = JArr [JNum a, JNum b]"

fun outcome_json :: "adjudicated_outcome \<Rightarrow> jsval" where
  "outcome_json (Decided d) = JObj [(''status'', JStr (status_text (dec_status d))), (''entrants'', pair_json (dec_entrants d)),
     (''winnerId'', JStr (winner_id d)), (''loserId'', JStr (loser_id d)), (''score'', score_json (dec_score d))]"
| "outcome_json (Voided p) = JObj [(''status'', JStr ''VOIDED''), (''entrants'', pair_json p)]"

fun kind_text :: "adjudication_kind \<Rightarrow> string" where
  "kind_text ResultRecorded = ''RESULT_RECORDED''"
| "kind_text WalkoverRecorded = ''WALKOVER_RECORDED''"
| "kind_text WithdrawalAdjudicated = ''WITHDRAWAL_ADJUDICATED''"
| "kind_text ResultCorrected = ''RESULT_CORRECTED''"
| "kind_text ResultVoided = ''RESULT_VOIDED''"

fun withdrawal_text :: "withdrawal_policy \<Rightarrow> string" where
  "withdrawal_text AwardWalkover = ''AWARD_WALKOVER''"
| "withdrawal_text VoidContest = ''VOID_CONTEST''"

definition policy_json :: "adjudication_policy \<Rightarrow> jsval" where
  "policy_json p = JObj (case withdrawal p of None \<Rightarrow> [] | Some w \<Rightarrow> [(''withdrawal'', JStr (withdrawal_text w))])"

text \<open>The object \<^verbatim>\<open>base\<close>, and \<^verbatim>\<open>withoutHash\<close>, which adds the identifier.\<close>

definition base_fields :: "adjudication_event \<Rightarrow> (string \<times> jsval) list" where
  "base_fields e =
     [(''sequence'', JNum (Num (of_int (adj_sequence e)))), (''previousEventHash'', string_or_null (adj_previous e)),
      (''kind'', JStr (kind_text (adj_kind e))), (''contestId'', JStr (adj_contest e)), (''actorId'', JStr (adj_actor e)),
      (''recordedAt'', JStr (adj_recorded_at e)), (''reason'', JStr (adj_reason e))]
     @ (case adj_supersedes e of None \<Rightarrow> [] | Some i \<Rightarrow> [(''supersedesEventId'', JStr i)])
     @ [(''outcome'', outcome_json (adj_outcome e)), (''evidence'', JArr (map JStr (adj_evidence e)))]"

definition event_json :: "adjudication_event \<Rightarrow> jsval" where
  "event_json e = JObj (base_fields e @ [(''eventId'', JStr (adj_event_id e))])"

definition hash_event :: "platform \<Rightarrow> adjudication_event \<Rightarrow> string" where
  "hash_event P e = ledger_hash P (event_json e)"

definition stored_event_json :: "adjudication_event \<Rightarrow> jsval" where
  "stored_event_json e = JObj (base_fields e @ [(''eventId'', JStr (adj_event_id e)), (''eventHash'', JStr (adj_hash e))])"

section \<open>Operations\<close>

definition current_event :: "adjudication_ledger \<Rightarrow> string \<Rightarrow> adjudication_event option" where
  "current_event l contest = find (\<lambda>e. adj_contest e = contest) (rev (led_events l))"

definition validate_audit :: "platform \<Rightarrow> audit_fields \<Rightarrow> bool" where
  "validate_audit P a = (\<not> blank (au_actor a) \<and> \<not> blank (au_reason a) \<and> \<not> blank (au_contest a)
     \<and> date_parse P (au_recorded_at a) \<noteq> None)"

definition score_ok :: "jsnum \<Rightarrow> bool" where
  "score_ok n = (case js_finite n of None \<Rightarrow> False | Some r \<Rightarrow> 0 \<le> r)"

definition result_outcome :: "result_fields \<Rightarrow> (adjudication_error, decided_outcome) result" where
  "result_outcome f =
     (let (left, right) = rf_entrants f in
      if left = [] \<or> right = [] \<or> left = right \<or> \<not> (rf_winner f = left \<or> rf_winner f = right) then Inl InvalidResult
      else if \<not> score_ok (fst (rf_score f)) \<or> \<not> score_ok (snd (rf_score f)) then Inl InvalidScore
      else Inr \<lparr>dec_status = Completed, dec_entrants = (left, right), winner_id = rf_winner f,
        loser_id = (if rf_winner f = left then right else left), dec_score = Some (rf_score f)\<rparr>)"

definition opposing_outcome :: "string \<times> string \<Rightarrow> string \<Rightarrow> (adjudication_error, decided_outcome) result" where
  "opposing_outcome entrants unavailable =
     (let (left, right) = entrants in
      if left = [] \<or> right = [] \<or> left = right \<or> \<not> (unavailable = left \<or> unavailable = right) then Inl InvalidUnavailable
      else Inr \<lparr>dec_status = Walkover, dec_entrants = (left, right),
        winner_id = (if unavailable = left then right else left), loser_id = unavailable, dec_score = None\<rparr>)"

definition create_adjudication_ledger :: "adjudication_policy \<Rightarrow> adjudication_ledger" where
  "create_adjudication_ledger p = \<lparr>led_policy = p, led_events = []\<rparr>"

definition outcome_entrants :: "adjudicated_outcome \<Rightarrow> string \<times> string" where
  "outcome_entrants outc = (case outc of Decided d \<Rightarrow> dec_entrants d | Voided p \<Rightarrow> p)"

text \<open>The branches that derive \<^verbatim>\<open>kind\<close>, \<^verbatim>\<open>outcome\<close> and \<^verbatim>\<open>evidence\<close> from the command.\<close>

definition result_evidence :: "string list" where
  "result_evidence = [''winner-is-a-contest-entrant'', ''loser-derived-from-opposing-slot'', ''score-is-non-negative'']"

fun derive ::
    "adjudication_policy \<Rightarrow> adjudication_event option \<Rightarrow> adjudication_command \<Rightarrow>
     (adjudication_error, adjudication_kind \<times> adjudicated_outcome \<times> string list) result" where
  "derive pol prior (RecordResult a f) =
     bind_result (result_outcome f) (\<lambda>d. Inr (ResultRecorded, Decided d, result_evidence))"
| "derive pol prior (CorrectResult a f i) =
     bind_result (result_outcome f) (\<lambda>d. Inr (ResultCorrected, Decided d, result_evidence))"
| "derive pol prior (VoidResult a i) =
     (case prior of
        None \<Rightarrow> Inl NotCurrentEvent
      | Some e \<Rightarrow> Inr (ResultVoided, Voided (outcome_entrants (adj_outcome e)),
          [''superseded-event-was-current'', ''void-reason-recorded'']))"
| "derive pol prior (RecordWalkover a entrants absent) =
     bind_result (opposing_outcome entrants absent) (\<lambda>d. Inr (WalkoverRecorded, Decided d,
       [''absent-entrant-is-a-contest-entrant'', ''winner-derived-from-opposing-slot'', ''walkover-is-scoreless'']))"
| "derive pol prior (AdjudicateWithdrawal a entrants withdrawn) =
     bind_result (opposing_outcome entrants withdrawn) (\<lambda>d.
       Inr (WithdrawalAdjudicated,
         (if withdrawal pol = Some VoidContest then Voided (dec_entrants d) else Decided d),
         [''withdrawal-policy:'' @ (case withdrawal pol of None \<Rightarrow> ''undefined'' | Some w \<Rightarrow> withdrawal_text w),
          ''withdrawn-entrant-is-a-contest-entrant'', ''outcome-derived-from-pinned-policy'']))"

definition is_withdrawal :: "adjudication_command \<Rightarrow> bool" where
  "is_withdrawal cmd = (case cmd of AdjudicateWithdrawal _ _ _ \<Rightarrow> True | _ \<Rightarrow> False)"

text \<open>\<^verbatim>\<open>base\<close>, before its identifier and hash are known; then \<^verbatim>\<open>eventId\<close> and \<^verbatim>\<open>eventHash\<close>.\<close>

definition draft_event ::
    "adjudication_ledger \<Rightarrow> adjudication_command \<Rightarrow> adjudication_kind \<times> adjudicated_outcome \<times> string list \<Rightarrow>
     adjudication_event" where
  "draft_event l cmd r =
     \<lparr>adj_event_id = [], adj_sequence = int (length (led_events l)) + 1,
      adj_previous = (if led_events l = [] then None else Some (adj_hash (last (led_events l)))),
      adj_hash = [], adj_kind = fst r, adj_contest = au_contest (command_audit cmd),
      adj_actor = au_actor (command_audit cmd), adj_recorded_at = au_recorded_at (command_audit cmd),
      adj_reason = au_reason (command_audit cmd), adj_supersedes = command_supersedes cmd,
      adj_outcome = fst (snd r), adj_evidence = snd (snd r)\<rparr>"

definition seal_event :: "platform \<Rightarrow> adjudication_event \<Rightarrow> adjudication_event" where
  "seal_event P e0 =
     (let e1 = e0\<lparr>adj_event_id := ''adj_'' @ take 24 (ledger_hash P (JObj (base_fields e0)))\<rparr>
      in e1\<lparr>adj_hash := hash_event P e1\<rparr>)"

definition append_adjudication ::
    "platform \<Rightarrow> adjudication_ledger \<Rightarrow> adjudication_command \<Rightarrow> (adjudication_error, adjudication_ledger) result" where
  "append_adjudication P l cmd =
     (let a = command_audit cmd; prior = current_event l (au_contest a) in
      if \<not> validate_audit P a then Inl AuditMissing
      else if command_supersedes cmd = None \<and> prior \<noteq> None then Inl ContestHasTruth
      else if (case command_supersedes cmd of None \<Rightarrow> False
          | Some i \<Rightarrow> (case prior of None \<Rightarrow> True | Some e \<Rightarrow> adj_event_id e \<noteq> i)) then Inl NotCurrentEvent
      else if is_withdrawal cmd \<and> withdrawal (led_policy l) = None then Inl AmbiguousWithdrawal
      else bind_result (derive (led_policy l) prior cmd) (\<lambda>r.
        Inr (l\<lparr>led_events := led_events l @ [seal_event P (draft_event l cmd r)]\<rparr>)))"

definition effective_outcome :: "adjudication_ledger \<Rightarrow> string \<Rightarrow> adjudicated_outcome option" where
  "effective_outcome l contest = map_option adj_outcome (current_event l contest)"

text \<open>The checks of one event; \<open>seen\<close> are the events before it.\<close>

definition event_findings ::
    "platform \<Rightarrow> adjudication_event list \<Rightarrow> nat \<times> adjudication_event \<Rightarrow> (finding_code \<times> string) list" where
  "event_findings P es ie =
     (let (i, e) = ie; expected = (if i = 0 then None else Some (adj_hash (es ! (i - 1)))) in
      (if adj_hash e \<noteq> hash_event P e then [(HashMismatch, adj_event_id e)] else [])
      @ (if adj_sequence e \<noteq> int i + 1 \<or> adj_previous e \<noteq> expected then [(BrokenChain, adj_event_id e)] else [])
      @ (case adj_supersedes e of None \<Rightarrow> []
         | Some s \<Rightarrow> if s \<noteq> [] \<and> \<not> List.member (map adj_event_id (take i es)) s
             then [(BrokenLineage, adj_event_id e)] else []))"

definition verify_adjudication_ledger :: "platform \<Rightarrow> adjudication_ledger \<Rightarrow> ledger_proof" where
  "verify_adjudication_ledger P l =
     (let findings = concat (map (event_findings P (led_events l)) (enumerate 0 (led_events l))) in
      \<lparr>pf_valid = (findings = []), pf_count = length (led_events l),
       pf_hash = ledger_hash P (JObj [(''policy'', policy_json (led_policy l)),
         (''events'', JArr (map stored_event_json (led_events l)))]),
       pf_findings = findings\<rparr>)"

section \<open>What an append does\<close>

lemma hash_event_update [simp]: "hash_event P (e\<lparr>adj_hash := h\<rparr>) = hash_event P e"
  by (simp add: hash_event_def event_json_def base_fields_def)

lemma sealed_event:
  "adj_hash (seal_event P e) = hash_event P (seal_event P e)" "adj_sequence (seal_event P e) = adj_sequence e"
  "adj_previous (seal_event P e) = adj_previous e" "adj_contest (seal_event P e) = adj_contest e"
  "adj_actor (seal_event P e) = adj_actor e" "adj_supersedes (seal_event P e) = adj_supersedes e"
  "adj_kind (seal_event P e) = adj_kind e" "adj_outcome (seal_event P e) = adj_outcome e"
  "adj_evidence (seal_event P e) = adj_evidence e"
  by (simp_all add: seal_event_def Let_def)

lemma appendD:
  assumes "append_adjudication P l cmd = Inr l'"
  obtains e where "led_events l' = led_events l @ [e]" "led_policy l' = led_policy l"
    "adj_hash e = hash_event P e" "adj_sequence e = int (length (led_events l)) + 1"
    "adj_previous e = (if led_events l = [] then None else Some (adj_hash (last (led_events l))))"
    "adj_contest e = au_contest (command_audit cmd)" "adj_actor e = au_actor (command_audit cmd)"
    "adj_supersedes e = command_supersedes cmd" "validate_audit P (command_audit cmd)"
    "derive (led_policy l) (current_event l (adj_contest e)) cmd = Inr (adj_kind e, adj_outcome e, adj_evidence e)"
    "map_option adj_event_id (current_event l (adj_contest e)) = command_supersedes cmd"
proof -
  let ?prior = "current_event l (au_contest (command_audit cmd))"
  have prior: "map_option adj_event_id ?prior = command_supersedes cmd" "validate_audit P (command_audit cmd)"
    using assms by (auto simp: append_adjudication_def Let_def split: if_splits option.splits)
  obtain r where r: "derive (led_policy l) ?prior cmd = Inr r"
      "l' = l\<lparr>led_events := led_events l @ [seal_event P (draft_event l cmd r)]\<rparr>"
    using assms by (auto simp: append_adjudication_def Let_def bind_result_Inr_iff split: if_splits)
  show ?thesis
    by (rule that [of "seal_event P (draft_event l cmd r)"])
      (use r prior in \<open>simp_all only: sealed_event(1)\<close>, simp_all add: sealed_event draft_event_def)
qed

lemma current_event_in: "current_event l c = Some e \<Longrightarrow> e \<in> set (led_events l) \<and> adj_contest e = c"
  unfolding current_event_def find_Some_iff by (metis length_rev nth_mem set_rev)

lemma current_event_append:
  assumes "led_events l' = led_events l @ [e]"
  shows "current_event l' c = (if adj_contest e = c then Some e else current_event l c)"
  using assms by (simp add: current_event_def)

section \<open>Verification\<close>

definition lineage_ok :: "adjudication_event list \<Rightarrow> bool" where
  "lineage_ok es = list_all (\<lambda>(i, e). case adj_supersedes e of None \<Rightarrow> True
     | Some s \<Rightarrow> s = [] \<or> List.member (map adj_event_id (take i es)) s) (enumerate 0 es)"

abbreviation adjudication_linked :: "platform \<Rightarrow> adjudication_event list \<Rightarrow> bool" where
  "adjudication_linked P \<equiv> chain_linked (sha256 P) (\<lambda>e. ledger_text P (event_json e)) adj_hash adj_previous adj_sequence"

lemma event_findings_Nil: "event_findings P es (i, e) = [] \<longleftrightarrow>
   adj_hash e = hash_event P e \<and> adj_sequence e = int i + 1 \<and>
   adj_previous e = (if i = 0 then None else Some (adj_hash (es ! (i - 1)))) \<and>
   (case adj_supersedes e of None \<Rightarrow> True | Some s \<Rightarrow> s = [] \<or> List.member (map adj_event_id (take i es)) s)"
  by (auto simp: event_findings_def Let_def split: option.splits)

lemma verify_iff:
  "pf_valid (verify_adjudication_ledger P l) \<longleftrightarrow> adjudication_linked P (led_events l) \<and> lineage_ok (led_events l)"
proof -
  have "pf_valid (verify_adjudication_ledger P l) \<longleftrightarrow>
      (\<forall>(i, e) \<in> set (enumerate 0 (led_events l)). event_findings P (led_events l) (i, e) = [])"
    by (auto simp: verify_adjudication_ledger_def Let_def)
  then show ?thesis
    unfolding event_findings_Nil chain_linked_def lineage_ok_def list_all_iff hash_event_def ledger_hash_def
    by blast
qed

lemma lineage_snoc:
  "lineage_ok (es @ [e]) \<longleftrightarrow> lineage_ok es \<and>
     (case adj_supersedes e of None \<Rightarrow> True | Some s \<Rightarrow> s = [] \<or> s \<in> adj_event_id ` set es)"
proof -
  have "take i (es @ [e]) = take i es" if "(i, x) \<in> set (enumerate 0 es)" for i x
    using that by (simp add: in_set_enumerate_eq)
  then show ?thesis
    unfolding lineage_ok_def enumerate_append_eq list_all_append by (auto simp: list_all_iff split: option.splits)
qed

section \<open>Built ledgers\<close>

inductive ledger_built :: "platform \<Rightarrow> adjudication_policy \<Rightarrow> adjudication_ledger \<Rightarrow> bool" for P p where
  built_create: "ledger_built P p (create_adjudication_ledger p)"
| built_append: "ledger_built P p l \<Longrightarrow> append_adjudication P l cmd = Inr l' \<Longrightarrow> ledger_built P p l'"

text \<open>A decided outcome names two different entrants, one as winner and the other as loser.\<close>

fun outcome_sound :: "adjudicated_outcome \<Rightarrow> bool" where
  "outcome_sound (Decided d) = (fst (dec_entrants d) \<noteq> [] \<and> snd (dec_entrants d) \<noteq> [] \<and>
     fst (dec_entrants d) \<noteq> snd (dec_entrants d) \<and>
     (dec_entrants d = (winner_id d, loser_id d) \<or> dec_entrants d = (loser_id d, winner_id d)) \<and>
     (case dec_score d of None \<Rightarrow> dec_status d = Walkover
      | Some (a, b) \<Rightarrow> dec_status d = Completed \<and> score_ok a \<and> score_ok b))"
| "outcome_sound (Voided p) = (fst p \<noteq> [] \<and> snd p \<noteq> [] \<and> fst p \<noteq> snd p)"

lemma result_outcome_sound: "result_outcome f = Inr d \<Longrightarrow> outcome_sound (Decided d)"
  by (auto simp: result_outcome_def Let_def split: prod.splits if_splits)

lemma opposing_outcome_sound: "opposing_outcome en u = Inr d \<Longrightarrow> outcome_sound (Decided d)"
  by (auto simp: opposing_outcome_def Let_def split: prod.splits if_splits)

lemma sound_entrants: "outcome_sound x \<Longrightarrow> outcome_sound (Voided (outcome_entrants x))"
  by (cases x) (auto simp: outcome_entrants_def)

lemma opposing_entrants_sound: "opposing_outcome en u = Inr d \<Longrightarrow> outcome_sound (Voided (dec_entrants d))"
  using sound_entrants [OF opposing_outcome_sound] by (simp add: outcome_entrants_def)

lemma derive_sound:
  assumes "derive pol prior cmd = Inr (k, outc, ev)" "\<And>e. prior = Some e \<Longrightarrow> outcome_sound (adj_outcome e)"
  shows "outcome_sound outc"
  using assms
  by (cases "(pol, prior, cmd)" rule: derive.cases)
    (auto simp: bind_result_Inr_iff split: option.splits if_splits simp del: outcome_sound.simps
      intro: result_outcome_sound opposing_outcome_sound opposing_entrants_sound sound_entrants)

text \<open>The text that is hashed determines the event, up to the stored hash.\<close>

lemma pair_json_eq [simp]: "ledger_sorted P (pair_json p) = ledger_sorted P (pair_json q) \<longleftrightarrow> p = q"
  by (auto simp: pair_json_def prod_eq_iff)

lemma outcome_json_eq:
  assumes "ledger_sorted P (outcome_json x) = ledger_sorted P (outcome_json y)"
  shows "x = y"
proof -
  define fields where "fields z = (case outcome_json z of JObj kvs \<Rightarrow> kvs | _ \<Rightarrow> [])" for z
  have json: "outcome_json z = JObj (fields z)" "distinct (map fst (fields z))" for z
    by (cases z; simp add: fields_def)+
  note f = ledger_sorted_fields [OF assms [unfolded json(1) [of x] json(1) [of y]] json(2) json(2)]
  note status = f [of "''status''"] and entrants = f [of "''entrants''"] and winner = f [of "''winnerId''"]
    and loser = f [of "''loserId''"] and score = f [of "''score''"]
  have status_inj: "status_text a = status_text b \<longleftrightarrow> a = b" "status_text a \<noteq> ''VOIDED''" for a b
    by (cases a; cases b; simp)+
  show ?thesis
  proof (cases x)
    case (Decided d)
    with status obtain d' where y: "y = Decided d'" by (cases y) (auto simp: fields_def status_inj)
    have "score_json (dec_score d) = JNull \<longleftrightarrow> dec_score d = None" for d by (cases "dec_score d") auto
    have "dec_score d = dec_score d'"
      using score unfolding Decided y
      by (cases "dec_score d" rule: score_json.cases; cases "dec_score d'" rule: score_json.cases) (simp_all add: fields_def)
    then show ?thesis
      using status entrants winner loser unfolding Decided y
      by (simp add: fields_def status_inj)
  next
    case (Voided p)
    with status obtain q where y: "y = Voided q" by (cases y) (auto simp: fields_def status_inj dest: sym)
    then show ?thesis using entrants unfolding Voided y by (simp add: fields_def)
  qed
qed

definition event_fields :: "adjudication_event \<Rightarrow> (string \<times> jsval) list" where
  "event_fields e = base_fields e @ [(''eventId'', JStr (adj_event_id e))]"

lemma event_fields_simps:
  "map_of (event_fields e) ''sequence'' = Some (JNum (Num (of_int (adj_sequence e))))"
  "map_of (event_fields e) ''previousEventHash'' = Some (string_or_null (adj_previous e))"
  "map_of (event_fields e) ''kind'' = Some (JStr (kind_text (adj_kind e)))"
  "map_of (event_fields e) ''contestId'' = Some (JStr (adj_contest e))"
  "map_of (event_fields e) ''actorId'' = Some (JStr (adj_actor e))"
  "map_of (event_fields e) ''recordedAt'' = Some (JStr (adj_recorded_at e))"
  "map_of (event_fields e) ''reason'' = Some (JStr (adj_reason e))"
  "map_of (event_fields e) ''supersedesEventId'' = map_option JStr (adj_supersedes e)"
  "map_of (event_fields e) ''outcome'' = Some (outcome_json (adj_outcome e))"
  "map_of (event_fields e) ''evidence'' = Some (JArr (map JStr (adj_evidence e)))"
  "map_of (event_fields e) ''eventId'' = Some (JStr (adj_event_id e))"
  by (simp_all add: event_fields_def base_fields_def split: option.splits)

lemma event_fields_distinct: "distinct (map fst (event_fields e))"
  by (simp add: event_fields_def base_fields_def split: option.splits)

lemma event_json_fields: "event_json e = JObj (event_fields e)"
  by (simp add: event_json_def event_fields_def)

lemma kind_text_inject [simp]: "kind_text a = kind_text b \<longleftrightarrow> a = b"
  by (cases a; cases b; simp)

lemma event_content_determines:
  assumes "number_text_ok P" "plain (event_json e)" "plain (event_json f)"
    and "ledger_text P (event_json e) = ledger_text P (event_json f)"
  shows "e\<lparr>adj_hash := []\<rparr> = f\<lparr>adj_hash := []\<rparr>"
proof -
  have field: "map_option (ledger_sorted P) (map_of (event_fields e) k) = map_option (ledger_sorted P) (map_of (event_fields f) k)" for k
    using assms unfolding event_json_fields by (intro ledger_text_fields event_fields_distinct)
  have "map JStr xs = map JStr ys \<longleftrightarrow> xs = ys" for xs ys by (simp add: inj_map_eq_map inj_def)
  then have "adj_evidence e = adj_evidence f"
    using field [of "''evidence''"] by (simp add: event_fields_simps comp_def)
  moreover have "adj_outcome e = adj_outcome f"
    using field [of "''outcome''"] by (simp add: event_fields_simps outcome_json_eq)
  moreover have "adj_supersedes e = adj_supersedes f"
    using field [of "''supersedesEventId''"]
    by (cases "adj_supersedes e"; cases "adj_supersedes f") (simp_all add: event_fields_simps)
  ultimately show ?thesis
    using field [of "''sequence''"] field [of "''previousEventHash''"] field [of "''kind''"] field [of "''contestId''"]
      field [of "''actorId''"] field [of "''recordedAt''"] field [of "''reason''"] field [of "''eventId''"]
    by (simp add: event_fields_simps)
qed

interpretation adjudication_chain: hash_chain "sha256 P" "\<lambda>e. ledger_text P (event_json e)" adj_hash adj_previous
    adj_sequence "\<lambda>e. number_text_ok P \<and> plain (event_json e)" for P
proof
  fix e f
  assume "number_text_ok P \<and> plain (event_json e)" "number_text_ok P \<and> plain (event_json f)"
    and "ledger_text P (event_json e) = ledger_text P (event_json f)"
  then have "e\<lparr>adj_hash := []\<rparr> = f\<lparr>adj_hash := []\<rparr>" using event_content_determines by blast
  then show "adj_previous e = adj_previous f \<and> adj_sequence e = adj_sequence f"
    by (metis adjudication_event.select_convs(2,3) adjudication_event.surjective adjudication_event.update_convs(4))
qed

lemma built_linked: "ledger_built P p l \<Longrightarrow> adjudication_linked P (led_events l) \<and> lineage_ok (led_events l)"
proof (induction rule: ledger_built.induct)
  case built_create
  then show ?case
    by (simp add: create_adjudication_ledger_def adjudication_chain.linked_Nil lineage_ok_def)
next
  case (built_append l cmd l')
  from built_append.hyps(2) show ?case
  proof (rule appendD)
    fix e
    assume e: "led_events l' = led_events l @ [e]" "adj_hash e = hash_event P e"
      "adj_sequence e = int (length (led_events l)) + 1"
      "adj_previous e = (if led_events l = [] then None else Some (adj_hash (last (led_events l))))"
      "adj_supersedes e = command_supersedes cmd"
      "map_option adj_event_id (current_event l (adj_contest e)) = command_supersedes cmd"
    have "case adj_supersedes e of None \<Rightarrow> True | Some s \<Rightarrow> s \<in> adj_event_id ` set (led_events l)"
      using e(5,6) current_event_in by (auto split: option.splits)
    then have "lineage_ok (led_events l')" using built_append.IH e(1) by (auto simp: lineage_snoc split: option.splits)
    moreover have "adjudication_linked P (led_events l')"
      using built_append.IH e(2-4) unfolding e(1) adjudication_chain.linked_snoc hash_event_def ledger_hash_def by simp
    ultimately show ?thesis by blast
  qed
qed

lemma built_sound: "ledger_built P p l \<Longrightarrow> led_policy l = p \<and> (\<forall>e \<in> set (led_events l). outcome_sound (adj_outcome e))"
proof (induction rule: ledger_built.induct)
  case built_create
  then show ?case by (simp add: create_adjudication_ledger_def)
next
  case (built_append l cmd l')
  from built_append.hyps(2) show ?case
  proof (rule appendD)
    fix e
    assume e: "led_events l' = led_events l @ [e]" "led_policy l' = led_policy l"
      "derive (led_policy l) (current_event l (adj_contest e)) cmd = Inr (adj_kind e, adj_outcome e, adj_evidence e)"
    have "outcome_sound (adj_outcome e)"
      by (rule derive_sound [OF e(3)]) (use built_append.IH current_event_in in blast)
    then show ?thesis using built_append.IH e(1,2) by auto
  qed
qed

lemma same_contents_same_events:
  assumes "map (\<lambda>e. ledger_text P (event_json e)) es = map (\<lambda>e. ledger_text P (event_json e)) fs"
    and "number_text_ok P" "\<forall>e \<in> set es \<union> set fs. plain (event_json e)"
    and "adjudication_linked P es" "adjudication_linked P fs"
  shows "es = fs"
proof (rule nth_equalityI)
  show len: "length es = length fs" using assms(1) by (rule map_eq_imp_length_eq)
  fix i assume i: "i < length es"
  have same: "ledger_text P (event_json (es ! i)) = ledger_text P (event_json (fs ! i))"
    using assms(1) i len by (metis nth_map)
  then have "(es ! i)\<lparr>adj_hash := []\<rparr> = (fs ! i)\<lparr>adj_hash := []\<rparr>"
    using event_content_determines [OF assms(2) _ _ same] assms(3) i len by simp
  moreover have "adj_hash (es ! i) = adj_hash (fs ! i)"
    using assms(4,5) i len same by (simp add: adjudication_chain.linked_iff_nth)
  ultimately show "es ! i = fs ! i"
    by (cases "es ! i"; cases "fs ! i") simp
qed

section \<open>Properties\<close>

text \<open>
  C32. Every ledger built by appends verifies, whatever the commands were: the verifier
  reports no finding, the pinned policy never changes, and each event records a sound
  outcome (two different entrants, one the winner and the other the loser, with a finite
  non-negative score exactly when the contest was played).
\<close>

theorem built_ledger_verifies:
  assumes "ledger_built P p l"
  shows "pf_valid (verify_adjudication_ledger P l) \<and> led_policy l = p \<and>
    (\<forall>e \<in> set (led_events l). outcome_sound (adj_outcome e))"
  using built_linked [OF assms] built_sound [OF assms] by (simp add: verify_iff)

definition sample_audit :: audit_fields where
  "sample_audit = \<lparr>au_contest = ''c'', au_actor = ''u'', au_recorded_at = ''T5'', au_reason = ''r''\<rparr>"

definition sample_command :: adjudication_command where
  "sample_command = RecordResult sample_audit \<lparr>rf_entrants = (''a'', ''b''), rf_winner = ''b'', rf_score = (Num 1, Num 2)\<rparr>"

definition sample_ledger :: adjudication_ledger where
  "sample_ledger = \<lparr>led_policy = \<lparr>withdrawal = None\<rparr>, led_events = [seal_event sample_platform
     (draft_event (create_adjudication_ledger \<lparr>withdrawal = None\<rparr>) sample_command (ResultRecorded,
        Decided \<lparr>dec_status = Completed, dec_entrants = (''a'', ''b''), winner_id = ''b'', loser_id = ''a'',
          dec_score = Some (Num 1, Num 2)\<rparr>, result_evidence))]\<rparr>"

lemma adjudication_dates: "date_parse sample_platform ''T5'' = Some 5"
  by (simp add: sample_platform_def sample_date_parse_def digits_of.simps digit_chars)

lemma sample_append:
  "append_adjudication sample_platform (create_adjudication_ledger \<lparr>withdrawal = None\<rparr>) sample_command = Inr sample_ledger"
  by (simp add: append_adjudication_def sample_command_def sample_audit_def sample_ledger_def validate_audit_def blank_iff
      is_space_def adjudication_dates current_event_def create_adjudication_ledger_def result_outcome_def score_ok_def
      is_withdrawal_def Let_def)

theorem built_ledger_verifies_witness: "pf_valid (verify_adjudication_ledger sample_platform sample_ledger)"
  using built_ledger_verifies [OF built_append [OF built_create sample_append]] by simp

text \<open>
  What is effective after an append: exactly one event is added at the end, it becomes
  the effective truth of its contest and leaves every other contest alone. A first record is
  accepted only when the contest has no truth yet, a correction or void only when it names the
  event that is current.
\<close>

theorem append_effective:
  assumes "append_adjudication P l cmd = Inr l'"
  shows "\<exists>e. led_events l' = led_events l @ [e] \<and> adj_contest e = au_contest (command_audit cmd) \<and>
    effective_outcome l' (adj_contest e) = Some (adj_outcome e) \<and>
    (\<forall>c. c \<noteq> adj_contest e \<longrightarrow> effective_outcome l' c = effective_outcome l c) \<and>
    (case command_supersedes cmd of None \<Rightarrow> effective_outcome l (adj_contest e) = None
     | Some i \<Rightarrow> \<exists>prior \<in> set (led_events l). current_event l (adj_contest e) = Some prior \<and> adj_event_id prior = i)"
  using assms
proof (rule appendD)
  fix e
  assume e: "led_events l' = led_events l @ [e]" "adj_contest e = au_contest (command_audit cmd)"
    "map_option adj_event_id (current_event l (adj_contest e)) = command_supersedes cmd"
  note current = current_event_append [OF e(1)]
  have "case command_supersedes cmd of None \<Rightarrow> effective_outcome l (adj_contest e) = None
     | Some i \<Rightarrow> \<exists>prior \<in> set (led_events l). current_event l (adj_contest e) = Some prior \<and> adj_event_id prior = i"
    using e(3) current_event_in [of l "adj_contest e"] by (auto simp: effective_outcome_def split: option.splits)
  then show ?thesis using e(1,2) current by (intro exI [of _ e]) (auto simp: effective_outcome_def)
qed

theorem append_effective_witness:
  "effective_outcome sample_ledger ''c'' = Some (Decided \<lparr>dec_status = Completed, dec_entrants = (''a'', ''b''),
     winner_id = ''b'', loser_id = ''a'', dec_score = Some (Num 1, Num 2)\<rparr>)"
  using append_effective [OF sample_append]
  by (auto simp: sample_ledger_def sample_command_def sample_audit_def create_adjudication_ledger_def sealed_event
      draft_event_def)

text \<open>
  A correction is checked against the event it supersedes but not against its entrants: it can
  put two other entrants into the contest.
\<close>

lemma correction_may_replace_entrants:
  "\<exists>l'. append_adjudication sample_platform sample_ledger
      (CorrectResult sample_audit \<lparr>rf_entrants = (''x'', ''y''), rf_winner = ''x'', rf_score = (Num 1, Num 0)\<rparr>
        (adj_event_id (hd (led_events sample_ledger)))) = Inr l' \<and>
    map_option outcome_entrants (effective_outcome sample_ledger ''c'') = Some (''a'', ''b'') \<and>
    map_option outcome_entrants (effective_outcome l' ''c'') = Some (''x'', ''y'')"
  by (simp add: append_adjudication_def sample_audit_def validate_audit_def blank_iff is_space_def adjudication_dates
      current_event_def sample_ledger_def sealed_event draft_event_def sample_command_def result_outcome_def score_ok_def
      is_withdrawal_def effective_outcome_def outcome_entrants_def Let_def)

text \<open>
  Tamper evidence: two ledgers that both verify and end in the same event hash hold the same
  events throughout, unless two of the texts that were hashed are a collision of SHA-256. (Numbers
  are compared as JSON writes them, so scores are taken without negative zeros.)
\<close>

theorem ledger_head_binds_history:
  assumes "number_text_ok P" "pf_valid (verify_adjudication_ledger P l)" "pf_valid (verify_adjudication_ledger P l')"
    and "led_events l \<noteq> []" "led_events l' \<noteq> []"
    and "adj_hash (last (led_events l)) = adj_hash (last (led_events l'))"
    and "\<forall>e \<in> set (led_events l) \<union> set (led_events l'). plain (event_json e)"
  shows "led_events l = led_events l' \<or>
    (\<exists>e \<in> set (led_events l). \<exists>f \<in> set (led_events l'). ledger_text P (event_json e) \<noteq> ledger_text P (event_json f) \<and>
       sha256 P (ledger_text P (event_json e)) = sha256 P (ledger_text P (event_json f)))"
proof -
  have linked: "adjudication_linked P (led_events l)" "adjudication_linked P (led_events l')"
    using assms(2,3) by (simp_all add: verify_iff)
  from adjudication_chain.head_binds [OF linked assms(4-6)] assms(1,7)
  show ?thesis using same_contents_same_events [OF _ assms(1,7) linked] by blast
qed

lemma sample_ledger_valid: "pf_valid (verify_adjudication_ledger sample_platform sample_ledger)"
  using built_linked [OF built_append [OF built_create sample_append]] by (simp add: verify_iff)

theorem ledger_head_binds_history_witness:
  "led_events sample_ledger = led_events sample_ledger \<or>
    (\<exists>e \<in> set (led_events sample_ledger). \<exists>f \<in> set (led_events sample_ledger).
       ledger_text sample_platform (event_json e) \<noteq> ledger_text sample_platform (event_json f) \<and>
       sha256 sample_platform (ledger_text sample_platform (event_json e)) =
         sha256 sample_platform (ledger_text sample_platform (event_json f)))"
  by (rule ledger_head_binds_history [OF sample_number_text_ok sample_ledger_valid sample_ledger_valid])
    (auto simp: sample_ledger_def sealed_event draft_event_def event_json_def base_fields_def pair_json_def
      result_evidence_def sample_command_def)

end
