(* ===== verification/EventStore.thy ===== *)
theory EventStore
  imports HashChain Outbox
begin

text \<open>
  packages/competition-engine/src/event-store.ts: the in-memory event store with optimistic
  concurrency, idempotent commands, atomic transactions and snapshots, and the variant that
  enqueues outbox messages with the events.

  \<^item> \<open>event_store\<close> is the closure state of \<^verbatim>\<open>createInMemoryEventStore\<close>; \<open>append_core\<close> and the
    operations built on it return the result or the exception together with the state left.
  \<^item> \<open>outbox_event_store\<close> is the state of \<^verbatim>\<open>createInMemoryTransactionalOutboxEventStore\<close>. Its appends commit, await and then
    enqueue: \<open>begin_append\<close> and \<open>begin_transaction\<close> end at the await, \<open>resume_enqueue\<close> is what follows it, and other calls may
    come between them.
  \<^item> Lemmas: every stream of a reachable store is a verified hash chain, global positions are
    unique, appends and transactions are all or nothing, commands are idempotent.
\<close>

section \<open>Data\<close>

record proposed_event =
  pe_type :: string
  pe_payload :: jsval
  pe_metadata :: "jsval option"

record append_request =
  ar_stream :: string
  ar_expected :: jsnum
  ar_command :: string
  ar_recorded_at :: string
  ar_events :: "proposed_event list"

record envelope =
  ev_id :: string
  ev_stream :: string
  ev_version :: int
  ev_position :: int
  ev_command :: string
  ev_recorded_at :: string
  ev_type :: string
  ev_payload :: jsval
  ev_metadata :: jsval
  ev_previous :: "string option"
  ev_hash :: string

datatype append_status = Appended | IdempotentReplay

record append_result =
  res_status :: append_status
  res_version :: nat
  res_events :: "envelope list"

record snapshot_request =
  sr_stream :: string
  sr_version :: jsnum
  sr_state :: jsval

record snapshot =
  sn_stream :: string
  sn_version :: jsnum
  sn_stream_hash :: string
  sn_state :: jsval
  sn_hash :: string

record event_store =
  es_streams :: "(string, envelope list) omap"
  es_position :: int
  es_snapshots :: "(string, snapshot) omap"
  es_commands :: "(string, string \<times> append_result) omap"

datatype event_store_error =
    InvalidAppend
  | EventTypeRequired
  | NonJsonValue
  | IdempotencyConflict string string
  | StaleVersion string jsnum nat
  | SnapshotVersion
  | InvalidChain
  | BadIntent
  | OutboxRefused outbox_error

datatype chain_finding = ChainHashMismatch | ChainBroken | ChainVersionGap

section \<open>Hashed values\<close>

definition metadata_or_empty :: "jsval option \<Rightarrow> jsval" where
  "metadata_or_empty m = (case m of None \<Rightarrow> JObj [] | Some v \<Rightarrow> if v = JUndef \<or> v = JNull then JObj [] else v)"

definition proposed_json :: "proposed_event \<Rightarrow> jsval" where
  "proposed_json p = JObj ([(''type'', JStr (pe_type p)), (''payload'', pe_payload p)]
     @ (case pe_metadata p of None \<Rightarrow> [] | Some v \<Rightarrow> [(''metadata'', v)]))"

definition request_json :: "append_request \<Rightarrow> jsval" where
  "request_json r = JObj [(''streamId'', JStr (ar_stream r)), (''expectedVersion'', JNum (ar_expected r)),
     (''commandId'', JStr (ar_command r)), (''recordedAt'', JStr (ar_recorded_at r)),
     (''events'', JArr (map proposed_json (ar_events r)))]"

definition envelope_base :: "envelope \<Rightarrow> (string \<times> jsval) list" where
  "envelope_base e = [(''streamId'', JStr (ev_stream e)), (''streamVersion'', JNum (Num (of_int (ev_version e)))),
     (''globalPosition'', JNum (Num (of_int (ev_position e)))), (''commandId'', JStr (ev_command e)),
     (''recordedAt'', JStr (ev_recorded_at e)), (''type'', JStr (ev_type e)), (''payload'', ev_payload e),
     (''metadata'', ev_metadata e), (''previousHash'', string_or_null (ev_previous e))]"

definition envelope_json :: "envelope \<Rightarrow> jsval" where
  "envelope_json e = JObj (envelope_base e @ [(''eventId'', JStr (ev_id e))])"

definition seal_envelope :: "platform \<Rightarrow> envelope \<Rightarrow> envelope" where
  "seal_envelope P e0 =
     (let e1 = e0\<lparr>ev_id := ''evt_'' @ take 24 (ledger_hash P (JObj (envelope_base e0)))\<rparr>
      in e1\<lparr>ev_hash := ledger_hash P (envelope_json e1)\<rparr>)"

section \<open>Operations\<close>

definition validate_request :: "platform \<Rightarrow> append_request \<Rightarrow> (event_store_error, unit) result" where
  "validate_request P r =
     (if blank (ar_stream r) \<or> blank (ar_command r)
        \<or> (case js_integer (ar_expected r) of None \<Rightarrow> True | Some v \<Rightarrow> v < 0)
        \<or> date_parse P (ar_recorded_at r) = None \<or> ar_events r = [] then Inl InvalidAppend
      else if list_ex (\<lambda>p. blank (pe_type p)) (ar_events r) then Inl EventTypeRequired
      else if \<not> list_all (\<lambda>p. assert_json (pe_payload p) \<and> assert_json (metadata_or_empty (pe_metadata p))) (ar_events r)
      then Inl NonJsonValue
      else Inr ())"

definition command_key :: "append_request \<Rightarrow> string" where
  "command_key r = ar_stream r @ [CHR 0x00] @ ar_command r"

fun build_envelopes ::
    "platform \<Rightarrow> append_request \<Rightarrow> int \<Rightarrow> int \<Rightarrow> string option \<Rightarrow> proposed_event list \<Rightarrow> envelope list" where
  "build_envelopes P r version position previous [] = []"
| "build_envelopes P r version position previous (p # ps) =
     (let e = seal_envelope P \<lparr>ev_id = [], ev_stream = ar_stream r, ev_version = version + 1,
            ev_position = position + 1, ev_command = ar_command r, ev_recorded_at = ar_recorded_at r,
            ev_type = pe_type p, ev_payload = pe_payload p, ev_metadata = metadata_or_empty (pe_metadata p),
            ev_previous = previous, ev_hash = []\<rparr>
      in e # build_envelopes P r (version + 1) (position + 1) (Some (ev_hash e)) ps)"

definition stream_of :: "event_store \<Rightarrow> string \<Rightarrow> envelope list" where
  "stream_of st s = (case omap_get (es_streams st) s of None \<Rightarrow> [] | Some es \<Rightarrow> es)"

definition head_hash :: "envelope list \<Rightarrow> string option" where
  "head_hash es = (if es = [] then None else Some (ev_hash (last es)))"

definition append_core ::
    "platform \<Rightarrow> append_request \<Rightarrow> event_store \<Rightarrow> (event_store_error, append_result) result \<times> event_store" where
  "append_core P r st =
     (case validate_request P r of
        Inl e \<Rightarrow> (Inl e, st)
      | Inr _ \<Rightarrow>
         (let fingerprint = ledger_hash P (request_json r) in
          case omap_get (es_commands st) (command_key r) of
            Some (fp, res) \<Rightarrow>
              if fp \<noteq> fingerprint then (Inl (IdempotencyConflict (ar_stream r) (ar_command r)), st)
              else (Inr (res\<lparr>res_status := IdempotentReplay\<rparr>), st)
          | None \<Rightarrow>
              let current = stream_of st (ar_stream r) in
              if js_integer (ar_expected r) \<noteq> Some (int (length current))
              then (Inl (StaleVersion (ar_stream r) (ar_expected r) (length current)), st)
              else
                let envelopes = build_envelopes P r (int (length current)) (es_position st) (head_hash current) (ar_events r);
                    res = \<lparr>res_status = Appended, res_version = length current + length envelopes, res_events = envelopes\<rparr>
                in (Inr res, st\<lparr>es_streams := omap_set (ar_stream r) (current @ envelopes) (es_streams st),
                      es_position := es_position st + int (length envelopes),
                      es_commands := omap_set (command_key r) (fingerprint, res) (es_commands st)\<rparr>)))"

fun append_all ::
    "platform \<Rightarrow> append_request list \<Rightarrow> event_store \<Rightarrow> (event_store_error, append_result list) result \<times> event_store" where
  "append_all P [] st = (Inr [], st)"
| "append_all P (r # rs) st =
     (case append_core P r st of
        (Inl e, st') \<Rightarrow> (Inl e, st')
      | (Inr a, st') \<Rightarrow>
         (case append_all P rs st' of
            (Inl e, st'') \<Rightarrow> (Inl e, st'')
          | (Inr as, st'') \<Rightarrow> (Inr (a # as), st'')))"

definition append_transaction ::
    "platform \<Rightarrow> append_request list \<Rightarrow> event_store \<Rightarrow> (event_store_error, append_result list) result \<times> event_store" where
  "append_transaction P rs st =
     (case append_all P rs st of
        (Inl e, st') \<Rightarrow> (Inl e, st'\<lparr>es_streams := es_streams st, es_commands := es_commands st,
          es_position := es_position st\<rparr>)
      | (Inr as, st') \<Rightarrow> (Inr as, st'))"

definition read_stream :: "event_store \<Rightarrow> string \<Rightarrow> int \<Rightarrow> envelope list" where
  "read_stream st s from_version = filter (\<lambda>e. from_version \<le> ev_version e) (stream_of st s)"

definition envelope_findings :: "platform \<Rightarrow> envelope list \<Rightarrow> nat \<times> envelope \<Rightarrow> (chain_finding \<times> string) list" where
  "envelope_findings P es ie =
     (let (i, e) = ie; expected = (if i = 0 then None else Some (ev_hash (es ! (i - 1)))) in
      (if ledger_hash P (envelope_json e) \<noteq> ev_hash e then [(ChainHashMismatch, ev_id e)] else [])
      @ (if ev_previous e \<noteq> expected \<or> ev_stream e \<noteq> ev_stream (hd es) then [(ChainBroken, ev_id e)] else [])
      @ (if ev_version e \<noteq> int i + 1 then [(ChainVersionGap, ev_id e)] else []))"

definition verify_event_chain :: "platform \<Rightarrow> envelope list \<Rightarrow> (chain_finding \<times> string) list" where
  "verify_event_chain P es = concat (map (envelope_findings P es) (enumerate 0 es))"

definition replay ::
    "platform \<Rightarrow> event_store \<Rightarrow> string \<Rightarrow> 'x \<Rightarrow> ('x \<Rightarrow> envelope \<Rightarrow> 'x) \<Rightarrow> (event_store_error, 'x) result" where
  "replay P st s x0 reducer =
     (if verify_event_chain P (stream_of st s) \<noteq> [] then Inl InvalidChain
      else Inr (foldl reducer x0 (stream_of st s)))"

definition save_snapshot ::
    "platform \<Rightarrow> snapshot_request \<Rightarrow> event_store \<Rightarrow> (event_store_error, snapshot) result \<times> event_store" where
  "save_snapshot P q st =
     (let es = stream_of st (sr_stream q) in
      case js_integer (sr_version q) of
        None \<Rightarrow> (Inl SnapshotVersion, st)
      | Some v \<Rightarrow>
          if v < 1 \<or> int (length es) < v then (Inl SnapshotVersion, st)
          else if \<not> assert_json (sr_state q) then (Inl NonJsonValue, st)
          else
            let h = ev_hash (es ! nat (v - 1));
                saved = \<lparr>sn_stream = sr_stream q, sn_version = sr_version q, sn_stream_hash = h, sn_state = sr_state q,
                  sn_hash = ledger_hash P (JObj [(''streamId'', JStr (sr_stream q)), (''streamVersion'', JNum (sr_version q)),
                    (''state'', sr_state q), (''streamHash'', JStr h)])\<rparr>
            in (Inr saved, st\<lparr>es_snapshots := omap_set (sr_stream q) saved (es_snapshots st)\<rparr>))"

definition load_snapshot :: "event_store \<Rightarrow> string \<Rightarrow> snapshot option" where
  "load_snapshot st s = omap_get (es_snapshots st) s"

definition create_event_store :: event_store where
  "create_event_store = \<lparr>es_streams = [], es_position = 0, es_snapshots = [], es_commands = []\<rparr>"

section \<open>With an outbox\<close>

definition member_of :: "(string \<times> jsval) list \<Rightarrow> string \<Rightarrow> jsval" where
  "member_of kvs k = (case map_of kvs k of None \<Rightarrow> JUndef | Some v \<Rightarrow> v)"

definition publication_of :: "jsval option \<Rightarrow> (event_store_error, outbox_publication option) result" where
  "publication_of metadata =
     (case (case metadata of Some (JObj kvs) \<Rightarrow> member_of kvs ''outbox'' | _ \<Rightarrow> JUndef) of
        JUndef \<Rightarrow> Inr None
      | JObj rec \<Rightarrow>
         (case (member_of rec ''topic'', member_of rec ''key'') of
            (JStr tpc, JStr key) \<Rightarrow>
              if blank tpc \<or> blank key then Inl BadIntent
              else Inr (Some \<lparr>pub_topic = tpc, pub_key = key, pub_payload = member_of rec ''payload''\<rparr>)
          | _ \<Rightarrow> Inl BadIntent)
      | _ \<Rightarrow> Inl BadIntent)"

text \<open>\<open>oes_pending\<close> holds, for every call that has committed and awaits, the events it will enqueue.\<close>

record outbox_event_store =
  oes_events :: event_store
  oes_outbox :: outbox
  oes_pending :: "envelope list list"

definition committed_of :: "envelope \<Rightarrow> committed_event" where
  "committed_of e = \<lparr>ce_id = ev_id e, ce_stream_id = ev_stream e, ce_stream_version = ev_version e, ce_type = ev_type e,
     ce_occurred_at = ev_recorded_at e, ce_committed_at = ev_recorded_at e, ce_payload = ev_payload e\<rparr>"

fun enqueue_events :: "platform \<Rightarrow> envelope list \<Rightarrow> outbox \<Rightarrow> (event_store_error, unit) result \<times> outbox" where
  "enqueue_events P [] ob = (Inr (), ob)"
| "enqueue_events P (e # es) ob =
     (case publication_of (Some (ev_metadata e)) of
        Inl err \<Rightarrow> (Inl err, ob)
      | Inr None \<Rightarrow> enqueue_events P es ob
      | Inr (Some p) \<Rightarrow>
         (case enqueue_from_committed_event P (committed_of e) p ob of
            (Inl err, ob') \<Rightarrow> (Inl (OutboxRefused err), ob')
          | (Inr _, ob') \<Rightarrow> enqueue_events P es ob'))"

definition check_intents :: "append_request list \<Rightarrow> (event_store_error, unit) result" where
  "check_intents rs = bind_result (map_result (\<lambda>p. publication_of (pe_metadata p)) (concat (map ar_events rs))) (\<lambda>_. Inr ())"

definition begin_append ::
    "platform \<Rightarrow> append_request \<Rightarrow> outbox_event_store \<Rightarrow> (event_store_error, append_result) result \<times> outbox_event_store" where
  "begin_append P r st =
     (case check_intents [r] of
        Inl e \<Rightarrow> (Inl e, st)
      | Inr _ \<Rightarrow>
         (case append_core P r (oes_events st) of
            (Inl e, ev) \<Rightarrow> (Inl e, st\<lparr>oes_events := ev\<rparr>)
          | (Inr a, ev) \<Rightarrow> (Inr a, st\<lparr>oes_events := ev, oes_pending := oes_pending st @ [res_events a]\<rparr>)))"

definition begin_transaction ::
    "platform \<Rightarrow> append_request list \<Rightarrow> outbox_event_store \<Rightarrow>
     (event_store_error, append_result list) result \<times> outbox_event_store" where
  "begin_transaction P rs st =
     (case check_intents rs of
        Inl e \<Rightarrow> (Inl e, st)
      | Inr _ \<Rightarrow>
         (case append_transaction P rs (oes_events st) of
            (Inl e, ev) \<Rightarrow> (Inl e, st\<lparr>oes_events := ev\<rparr>)
          | (Inr as, ev) \<Rightarrow> (Inr as, st\<lparr>oes_events := ev, oes_pending := oes_pending st @ [concat (map res_events as)]\<rparr>)))"

text \<open>The continuation of the call at position \<open>i\<close>: the events are enqueued and the call returns its result, or throws.\<close>

definition resume_enqueue :: "platform \<Rightarrow> nat \<Rightarrow> outbox_event_store \<Rightarrow> (event_store_error, unit) result \<times> outbox_event_store" where
  "resume_enqueue P i st =
     (case enqueue_events P (oes_pending st ! i) (oes_outbox st) of
        (r, ob) \<Rightarrow> (r, st\<lparr>oes_outbox := ob, oes_pending := take i (oes_pending st) @ drop (Suc i) (oes_pending st)\<rparr>))"

definition create_outbox_event_store :: "platform \<Rightarrow> (outbox_error, outbox_event_store) result" where
  "create_outbox_event_store P = bind_result (new_outbox P ''local'' []) (\<lambda>ob.
     Inr \<lparr>oes_events = create_event_store, oes_outbox = ob, oes_pending = []\<rparr>)"

section \<open>Chains\<close>

text \<open>The text of an envelope determines its position in the chain.\<close>

lemma envelope_fields_distinct: "distinct (map fst (envelope_base e @ [(''eventId'', JStr (ev_id e))]))"
  by (simp add: envelope_base_def)

interpretation envelope_chain: hash_chain "sha256 P" "\<lambda>e. ledger_text P (envelope_json e)" ev_hash ev_previous
    ev_version "\<lambda>e. number_text_ok P \<and> plain (envelope_json e)" for P
proof
  fix e f
  assume "number_text_ok P \<and> plain (envelope_json e)" "number_text_ok P \<and> plain (envelope_json f)"
    and "ledger_text P (envelope_json e) = ledger_text P (envelope_json f)"
  then have field: "map_option (ledger_sorted P) (map_of (envelope_base e @ [(''eventId'', JStr (ev_id e))]) k) =
      map_option (ledger_sorted P) (map_of (envelope_base f @ [(''eventId'', JStr (ev_id f))]) k)" for k
    unfolding envelope_json_def by (intro ledger_text_fields envelope_fields_distinct) auto
  show "ev_previous e = ev_previous f \<and> ev_version e = ev_version f"
    using field [of "''previousHash''"] field [of "''streamVersion''"] by (simp add: envelope_base_def)
qed

abbreviation envelopes_linked :: "platform \<Rightarrow> envelope list \<Rightarrow> bool" where
  "envelopes_linked P \<equiv> chain_linked (sha256 P) (\<lambda>e. ledger_text P (envelope_json e)) ev_hash ev_previous ev_version"

lemma envelope_json_update [simp]: "envelope_json (e\<lparr>ev_hash := h\<rparr>) = envelope_json e"
  by (simp add: envelope_json_def envelope_base_def)

lemma sealed_envelope:
  "ev_hash (seal_envelope P e) = sha256 P (ledger_text P (envelope_json (seal_envelope P e)))"
  "ev_stream (seal_envelope P e) = ev_stream e" "ev_version (seal_envelope P e) = ev_version e"
  "ev_position (seal_envelope P e) = ev_position e" "ev_previous (seal_envelope P e) = ev_previous e"
  "ev_payload (seal_envelope P e) = ev_payload e" "ev_metadata (seal_envelope P e) = ev_metadata e"
  "ev_type (seal_envelope P e) = ev_type e"
  by (simp_all add: seal_envelope_def ledger_hash_def Let_def)

lemma build_linked:
  assumes "envelopes_linked P es" "version = int (length es)" "previous = head_hash es"
  shows "envelopes_linked P (es @ build_envelopes P r version position previous ps)"
  using assms
proof (induction ps arbitrary: es version position previous)
  case (Cons p ps)
  let ?e = "seal_envelope P \<lparr>ev_id = [], ev_stream = ar_stream r, ev_version = version + 1,
    ev_position = position + 1, ev_command = ar_command r, ev_recorded_at = ar_recorded_at r,
    ev_type = pe_type p, ev_payload = pe_payload p, ev_metadata = metadata_or_empty (pe_metadata p),
    ev_previous = previous, ev_hash = []\<rparr>"
  have "envelopes_linked P (es @ [?e])"
    unfolding envelope_chain.linked_snoc using Cons.prems sealed_envelope(1)
    by (simp add: sealed_envelope(3,5) head_hash_def)
  from Cons.IH [OF this, of "version + 1" "Some (ev_hash ?e)" "position + 1"] Cons.prems show ?case
    by (simp add: Let_def head_hash_def)
qed simp

lemma build_length [simp]: "length (build_envelopes P r version position previous ps) = length ps"
  by (induction ps arbitrary: version position previous) (simp_all add: Let_def)

lemma build_Nil [simp]: "build_envelopes P r version position previous ps = [] \<longleftrightarrow> ps = []"
  by (cases ps) (simp_all add: Let_def)

lemma build_streams: "e \<in> set (build_envelopes P r version position previous ps) \<Longrightarrow> ev_stream e = ar_stream r"
  by (induction ps arbitrary: version position previous) (auto simp: Let_def sealed_envelope)

lemma build_positions:
  "map ev_position (build_envelopes P r version position previous ps) = map (\<lambda>i. position + 1 + int i) [0..<length ps]"
proof (induction ps arbitrary: version position previous)
  case (Cons p ps)
  have "[0..<length (p # ps)] = 0 # map Suc [0..<length ps]" by (simp add: upt_conv_Cons map_Suc_upt del: upt_Suc)
  then show ?case by (simp add: Let_def Cons.IH sealed_envelope comp_def del: upt_Suc)
qed simp

lemma verify_chain_iff:
  assumes "\<forall>e \<in> set es. ev_stream e = s"
  shows "verify_event_chain P es = [] \<longleftrightarrow> envelopes_linked P es"
proof -
  have stream: "ev_stream (snd ie) = ev_stream (hd es)" if "ie \<in> set (enumerate 0 es)" for ie
  proof -
    have "snd ie \<in> set es" using that by (metis in_set_zip enumerate_eq_zip nth_mem)
    moreover from this have "hd es \<in> set es" by (cases es) auto
    ultimately show ?thesis using assms by simp
  qed
  have "envelope_findings P es ie = [] \<longleftrightarrow> (case ie of (i, e) \<Rightarrow>
      ev_hash e = sha256 P (ledger_text P (envelope_json e)) \<and> ev_version e = int i + 1 \<and>
      ev_previous e = (if i = 0 then None else Some (ev_hash (es ! (i - 1)))))" if "ie \<in> set (enumerate 0 es)" for ie
  proof -
    obtain i e where ie: "ie = (i, e)" by (cases ie)
    have "ev_stream e = ev_stream (hd es)" using stream [OF that] ie by simp
    then show ?thesis unfolding ie envelope_findings_def Let_def ledger_hash_def prod.case append_is_Nil_conv by auto
  qed
  then have "(\<forall>ie \<in> set (enumerate 0 es). envelope_findings P es ie = []) \<longleftrightarrow> envelopes_linked P es"
    unfolding chain_linked_def list_all_iff by (rule ball_cong [OF refl])
  then show ?thesis by (simp add: verify_event_chain_def)
qed

section \<open>What an append does\<close>

lemma append_core_cases:
  obtains (failed) e where "append_core P r st = (Inl e, st)"
  | (replayed) res where "append_core P r st = (Inr (res\<lparr>res_status := IdempotentReplay\<rparr>), st)"
      "omap_get (es_commands st) (command_key r) = Some (ledger_hash P (request_json r), res)"
  | (appended) new res st' where "append_core P r st = (Inr res, st')" "validate_request P r = Inr ()"
      "omap_get (es_commands st) (command_key r) = None"
      "js_integer (ar_expected r) = Some (int (length (stream_of st (ar_stream r))))"
      "new = build_envelopes P r (int (length (stream_of st (ar_stream r)))) (es_position st)
         (head_hash (stream_of st (ar_stream r))) (ar_events r)"
      "res = \<lparr>res_status = Appended, res_version = length (stream_of st (ar_stream r)) + length new, res_events = new\<rparr>"
      "st' = st\<lparr>es_streams := omap_set (ar_stream r) (stream_of st (ar_stream r) @ new) (es_streams st),
         es_position := es_position st + int (length new),
         es_commands := omap_set (command_key r) (ledger_hash P (request_json r), res) (es_commands st)\<rparr>"
proof (cases "validate_request P r")
  case (Inl e)
  then show ?thesis by (intro failed [of e]) (simp add: append_core_def)
next
  case (Inr u)
  show ?thesis
  proof (cases "omap_get (es_commands st) (command_key r)")
    case (Some c)
    obtain fp res where c: "c = (fp, res)" by (cases c)
    show ?thesis
    proof (cases "fp = ledger_hash P (request_json r)")
      case True
      then show ?thesis using Inr Some c by (intro replayed [of res]) (simp_all add: append_core_def Let_def)
    next
      case False
      then show ?thesis using Inr Some c
        by (intro failed [of "IdempotencyConflict (ar_stream r) (ar_command r)"]) (simp add: append_core_def Let_def)
    qed
  next
    case None
    show ?thesis
    proof (cases "js_integer (ar_expected r) = Some (int (length (stream_of st (ar_stream r))))")
      case True
      show ?thesis
        by (rule appended [OF _ _ None True refl refl refl]) (use Inr None True in \<open>simp_all add: append_core_def Let_def\<close>)
    next
      case False
      then show ?thesis using Inr None
        by (intro failed [of "StaleVersion (ar_stream r) (ar_expected r) (length (stream_of st (ar_stream r)))"])
          (simp add: append_core_def Let_def)
    qed
  qed
qed

section \<open>Invariant\<close>

definition all_envelopes :: "event_store \<Rightarrow> envelope list" where
  "all_envelopes st = concat (map snd (es_streams st))"

definition stream_ok :: "platform \<Rightarrow> string \<Rightarrow> envelope list \<Rightarrow> bool" where
  "stream_ok P s es = ((\<forall>e \<in> set es. ev_stream e = s) \<and> envelopes_linked P es)"

definition positions_ok :: "event_store \<Rightarrow> bool" where
  "positions_ok st = (0 \<le> es_position st \<and> distinct (map ev_position (all_envelopes st)) \<and>
     (\<forall>e \<in> set (all_envelopes st). 1 \<le> ev_position e \<and> ev_position e \<le> es_position st))"

definition store_inv :: "platform \<Rightarrow> event_store \<Rightarrow> bool" where
  "store_inv P st = (omap_wf (es_streams st) \<and>
     (\<forall>s es. omap_get (es_streams st) s = Some es \<longrightarrow> stream_ok P s es) \<and> positions_ok st)"

text \<open>What later states keep of earlier ones: streams only grow at their end, commands stay.\<close>

definition extends :: "event_store \<Rightarrow> event_store \<Rightarrow> bool" where
  "extends st st' = ((\<forall>k x. omap_get (es_commands st) k = Some x \<longrightarrow> omap_get (es_commands st') k = Some x) \<and>
     (\<forall>s. \<exists>ext. stream_of st' s = stream_of st s @ ext))"

lemma extends_refl [simp]: "extends st st"
  by (simp add: extends_def)

lemma extends_trans: "extends st st' \<Longrightarrow> extends st' st'' \<Longrightarrow> extends st st''"
  unfolding extends_def by (metis append_assoc)

lemma mset_concat_omap_set:
  assumes "omap_wf m"
  shows "mset (concat (map snd (omap_set k ((case omap_get m k of None \<Rightarrow> [] | Some es \<Rightarrow> es) @ new) m)))
    = mset (concat (map snd m)) + mset new"
  using assms
proof (induction m)
  case (Cons kv m)
  obtain k' es where kv: "kv = (k', es)" by (cases kv)
  have "omap_wf m" using Cons.prems by (simp add: omap_wf_def)
  from Cons.IH [OF this] show ?case by (auto simp: kv)
qed simp

lemma stream_of_set [simp]:
  "stream_of (st\<lparr>es_streams := omap_set s es (es_streams st), es_position := n, es_commands := cs\<rparr>) s' =
    (if s' = s then es else stream_of st s')"
  by (simp add: stream_of_def)

lemma stream_of_ok: "store_inv P st \<Longrightarrow> stream_ok P s (stream_of st s)"
  by (auto simp: store_inv_def stream_of_def stream_ok_def envelope_chain.linked_Nil split: option.splits)

lemma append_core_inv:
  assumes "store_inv P st"
  shows "store_inv P (snd (append_core P r st)) \<and> extends st (snd (append_core P r st))"
proof (cases P r st rule: append_core_cases)
  case (appended new res st')
  let ?cur = "stream_of st (ar_stream r)"
  have wf: "omap_wf (es_streams st)" using assms by (simp add: store_inv_def)
  have ok: "stream_ok P (ar_stream r) (?cur @ new)"
    using stream_of_ok [OF assms, of "ar_stream r"] build_linked [of P ?cur] build_streams
    unfolding stream_ok_def appended(5) by auto
  have "mset (all_envelopes st') = mset (all_envelopes st @ new)"
    using mset_concat_omap_set [OF wf, of "ar_stream r" new]
    by (simp add: appended(7) all_envelopes_def stream_of_def)
  then have all: "mset (map ev_position (all_envelopes st')) = mset (map ev_position (all_envelopes st @ new))"
      "set (all_envelopes st') = set (all_envelopes st @ new)"
    by (simp_all only: mset_map mset_append) (metis set_mset_mset mset_append)
  have pos: "map ev_position new = map (\<lambda>i. es_position st + 1 + int i) [0..<length new]"
    unfolding appended(5) build_positions by simp
  then have fresh: "ev_position e > es_position st \<and> ev_position e \<le> es_position st + int (length new)" if "e \<in> set new" for e
  proof -
    have "ev_position e \<in> set (map ev_position new)" using that by simp
    then show ?thesis unfolding pos by auto
  qed
  have "distinct (map ev_position new)" unfolding pos by (simp add: distinct_map inj_on_def)
  moreover have "set (map ev_position (all_envelopes st)) \<inter> set (map ev_position new) = {}"
    using assms fresh by (force simp: store_inv_def positions_ok_def)
  ultimately have "distinct (map ev_position (all_envelopes st @ new))"
    using assms by (simp add: store_inv_def positions_ok_def)
  then have distinct: "distinct (map ev_position (all_envelopes st'))" using all(1) mset_eq_imp_distinct_iff by blast
  have "positions_ok st'"
    unfolding positions_ok_def all(2) using distinct assms fresh
    by (fastforce simp: appended(7) store_inv_def positions_ok_def)
  then have "store_inv P st'"
    using assms ok wf by (auto simp: store_inv_def appended(7) omap_wf_set split: if_splits)
  moreover have "extends st st'"
    using appended(3) by (auto simp: extends_def appended(7))
  ultimately show ?thesis using appended(1) by simp
qed (use assms in auto)

lemma append_all_inv:
  assumes "store_inv P st"
  shows "store_inv P (snd (append_all P rs st)) \<and> extends st (snd (append_all P rs st))"
  using assms
proof (induction rs arbitrary: st)
  case (Cons r rs)
  obtain x st' where core: "append_core P r st = (x, st')" by (cases "append_core P r st")
  have st': "store_inv P st'" "extends st st'" using append_core_inv [OF Cons.prems, of r] core by simp_all
  with Cons.IH [OF st'(1)] show ?case
    using extends_trans [OF st'(2)] core by (auto split: sum.splits prod.splits)
qed simp

lemma append_all_snapshots: "es_snapshots (snd (append_all P rs st)) = es_snapshots st"
proof (induction rs arbitrary: st)
  case (Cons r rs)
  obtain x st' where core: "append_core P r st = (x, st')" by (cases "append_core P r st")
  have "es_snapshots st' = es_snapshots st"
    using core by (cases P r st rule: append_core_cases) auto
  with Cons.IH [of st'] core show ?case by (auto split: sum.splits prod.splits)
qed simp

lemma append_transaction_cases:
  obtains (rolled_back) e where "append_transaction P rs st = (Inl e, st)"
  | (committed) as where "append_transaction P rs st = (Inr as, snd (append_all P rs st))" "fst (append_all P rs st) = Inr as"
proof (cases "append_all P rs st")
  case (Pair x st')
  show ?thesis
  proof (cases x)
    case (Inl e)
    then have "append_transaction P rs st = (Inl e, st'\<lparr>es_streams := es_streams st, es_commands := es_commands st,
        es_position := es_position st\<rparr>)" using Pair by (simp add: append_transaction_def)
    moreover have "es_snapshots st' = es_snapshots st" using append_all_snapshots [of P rs st] Pair by simp
    ultimately show ?thesis by (intro rolled_back [of e]) simp
  next
    case (Inr as)
    then show ?thesis using Pair by (intro committed [of as]) (simp_all add: append_transaction_def)
  qed
qed

lemma append_transaction_inv:
  "store_inv P st \<Longrightarrow> store_inv P (snd (append_transaction P rs st)) \<and> extends st (snd (append_transaction P rs st))"
  by (cases P rs st rule: append_transaction_cases) (simp_all add: append_all_inv)

lemma save_snapshot_inv:
  assumes "store_inv P st"
  shows "store_inv P (snd (save_snapshot P q st)) \<and> extends st (snd (save_snapshot P q st))"
proof -
  have "store_inv P (st\<lparr>es_snapshots := m\<rparr>)" "extends st (st\<lparr>es_snapshots := m\<rparr>)" for m
    using assms by (simp_all add: store_inv_def positions_ok_def all_envelopes_def extends_def stream_of_def)
  then show ?thesis using assms by (simp add: save_snapshot_def Let_def split: option.split)
qed

inductive store_run :: "platform \<Rightarrow> event_store \<Rightarrow> event_store \<Rightarrow> bool" for P where
  run_start: "store_run P st st"
| run_append: "store_run P st st' \<Longrightarrow> store_run P st (snd (append_core P r st'))"
| run_transaction: "store_run P st st' \<Longrightarrow> store_run P st (snd (append_transaction P rs st'))"
| run_snapshot: "store_run P st st' \<Longrightarrow> store_run P st (snd (save_snapshot P q st'))"

lemma store_run_inv: "store_run P st st' \<Longrightarrow> store_inv P st \<Longrightarrow> store_inv P st' \<and> extends st st'"
proof (induction rule: store_run.induct)
  case (run_append st st' r)
  then show ?case using append_core_inv extends_trans by blast
next
  case (run_transaction st st' rs)
  then show ?case using append_transaction_inv extends_trans by blast
next
  case (run_snapshot st st' q)
  then show ?case using save_snapshot_inv extends_trans by blast
qed simp

lemma create_inv: "store_inv P create_event_store"
  by (simp add: store_inv_def create_event_store_def omap_wf_def positions_ok_def all_envelopes_def)

section \<open>Events and their messages\<close>

text \<open>The message for the intent of an event is in the outbox.\<close>

definition enqueued :: "platform \<Rightarrow> outbox \<Rightarrow> envelope \<Rightarrow> bool" where
  "enqueued P ob e = (case publication_of (Some (ev_metadata e)) of
       Inl _ \<Rightarrow> False
     | Inr None \<Rightarrow> True
     | Inr (Some p) \<Rightarrow> (case expected_dedupe_key P (ev_id e) (pub_topic p) (pub_key p) of
         Inl _ \<Rightarrow> False | Inr k \<Rightarrow> omap_has (messages ob) k))"

definition intent_ok :: "envelope \<Rightarrow> bool" where
  "intent_ok e = (is_ok (publication_of (Some (ev_metadata e))) \<and> assert_json (ev_payload e) \<and> assert_json (ev_metadata e))"

lemma assert_json_cloneable: "assert_json v \<Longrightarrow> cloneable v"
  by (induction v rule: assert_json.induct) (auto simp: list_all_iff)

lemma member_of_json: "assert_json (JObj kvs) \<Longrightarrow> member_of kvs k = JUndef \<or> assert_json (member_of kvs k)"
  by (auto simp: member_of_def list_all_iff split: option.splits dest!: map_of_SomeD)

lemma publication_payload:
  assumes "assert_json v" "publication_of (Some v) = Inr (Some p)"
  shows "pub_payload p = JUndef \<or> assert_json (pub_payload p)"
proof -
  obtain kvs rec where rec: "v = JObj kvs" "member_of kvs ''outbox'' = JObj rec" "pub_payload p = member_of rec ''payload''"
    using assms(2) by (auto simp: publication_of_def split: jsval.splits if_splits option.splits)
  then have "assert_json (JObj rec)" using member_of_json [of kvs "''outbox''"] assms(1) by auto
  then show ?thesis unfolding rec(3) by (rule member_of_json)
qed

lemma publication_metadata: "publication_of (Some (metadata_or_empty m)) = publication_of m"
  by (cases m) (auto simp: publication_of_def metadata_or_empty_def member_of_def)

lemma expected_key_exists: "\<exists>k. expected_dedupe_key P e t k' = Inr k"
proof -
  obtain w where "normalise (message_identity e t k') = Inr w"
    using normalise_plain [of "message_identity e t k'"] by (auto simp: message_identity_def)
  then show ?thesis by (simp add: expected_dedupe_key_def canonical_hash_def canonical_stringify_def)
qed

lemma enqueue_succeeds:
  assumes "assert_json (ce_payload e)" "pub_payload p = JUndef \<or> assert_json (pub_payload p)"
  shows "\<exists>m ob' k. enqueue_from_committed_event P e p ob = (Inr m, ob') \<and>
    expected_dedupe_key P (ce_id e) (pub_topic p) (pub_key p) = Inr k \<and> omap_has (messages ob') k \<and>
    (\<forall>k'. omap_has (messages ob) k' \<longrightarrow> omap_has (messages ob') k')"
proof -
  obtain k where k: "expected_dedupe_key P (ce_id e) (pub_topic p) (pub_key p) = Inr k"
    using expected_key_exists by blast
  have "cloneable (if pub_payload p = JUndef \<or> pub_payload p = JNull then ce_payload e else pub_payload p)"
    using assms assert_json_cloneable by auto
  then show ?thesis using k
    by (cases "omap_get (messages ob) k") (simp_all add: enqueue_from_committed_event_def omap_has_def Let_def)
qed

lemma enqueue_events_ok:
  assumes "\<forall>e \<in> set es. intent_ok e" "outbox_inv P ob"
  shows "\<exists>ob'. enqueue_events P es ob = (Inr (), ob') \<and> outbox_inv P ob' \<and>
    (\<forall>k. omap_has (messages ob) k \<longrightarrow> omap_has (messages ob') k) \<and> (\<forall>e \<in> set es. enqueued P ob' e)"
  using assms
proof (induction P es ob rule: enqueue_events.induct)
  case (2 P e es ob)
  have e: "is_ok (publication_of (Some (ev_metadata e)))" "assert_json (ev_payload e)" "assert_json (ev_metadata e)"
    using "2.prems"(1) by (simp_all add: intent_ok_def)
  then obtain q where q: "publication_of (Some (ev_metadata e)) = Inr q"
    by (cases "publication_of (Some (ev_metadata e))") auto
  show ?case
  proof (cases q)
    case None
    then show ?thesis using "2.IH"(1) [of q] q "2.prems" by (auto simp: enqueued_def)
  next
    case (Some p)
    have "pub_payload p = JUndef \<or> assert_json (pub_payload p)" using publication_payload e(3) q Some by blast
    then obtain m ob1 k where enq: "enqueue_from_committed_event P (committed_of e) p ob = (Inr m, ob1)"
        "expected_dedupe_key P (ev_id e) (pub_topic p) (pub_key p) = Inr k" "omap_has (messages ob1) k"
        "\<forall>k'. omap_has (messages ob) k' \<longrightarrow> omap_has (messages ob1) k'"
      using enqueue_succeeds [of "committed_of e" p P ob] e(2) by (auto simp: committed_of_def)
    have inv: "outbox_inv P ob1" using enqueue_inv [OF "2.prems"(2), of "committed_of e" p] enq(1) by simp
    obtain ob' where rest: "enqueue_events P es ob1 = (Inr (), ob')" "outbox_inv P ob'"
        "\<forall>k. omap_has (messages ob1) k \<longrightarrow> omap_has (messages ob') k" "\<forall>e \<in> set es. enqueued P ob' e"
      using "2.IH"(2) [OF q Some enq(1) [symmetric] refl] inv "2.prems"(1) by auto
    have "enqueued P ob' e" using q Some enq(2,3) rest(3) by (simp add: enqueued_def)
    then show ?thesis using q Some enq rest by auto
  qed
qed simp

lemma enqueued_mono:
  "enqueued P ob e \<Longrightarrow> (\<forall>k. omap_has (messages ob) k \<longrightarrow> omap_has (messages ob') k) \<Longrightarrow> enqueued P ob' e"
  by (auto simp: enqueued_def split: sum.splits option.splits)

text \<open>Which envelopes an append adds, and what they carry.\<close>

definition commands_ok :: "event_store \<Rightarrow> bool" where
  "commands_ok st = (\<forall>k fp res. omap_get (es_commands st) k = Some (fp, res) \<longrightarrow>
     set (res_events res) \<subseteq> set (all_envelopes st))"

lemma build_contents:
  "e \<in> set (build_envelopes P r version position previous ps) \<Longrightarrow>
   \<exists>p \<in> set ps. ev_payload e = pe_payload p \<and> ev_metadata e = metadata_or_empty (pe_metadata p)"
  by (induction ps arbitrary: version position previous) (auto simp: Let_def sealed_envelope)

lemma check_intentsD:
  assumes "check_intents rs = Inr u" "r \<in> set rs" "p \<in> set (ar_events r)"
  shows "is_ok (publication_of (pe_metadata p))"
proof -
  obtain ys where ys: "list_all2 (\<lambda>p y. publication_of (pe_metadata p) = Inr y) (concat (map ar_events rs)) ys"
    using assms(1) by (auto simp: check_intents_def bind_result_Inr_iff map_result_Inr_iff)
  have "p \<in> set (concat (map ar_events rs))" using assms(2,3) by auto
  then obtain i where "i < length (concat (map ar_events rs))" "concat (map ar_events rs) ! i = p"
    unfolding in_set_conv_nth by blast
  then show ?thesis using list_all2_nthD [OF ys, of i] by simp
qed

lemma append_core_envelopes:
  assumes "append_core P r st = (Inr a, st')" "store_inv P st" "commands_ok st" "check_intents [r] = Inr u"
    and "\<forall>e \<in> set (all_envelopes st). intent_ok e"
  shows "commands_ok st' \<and> set (res_events a) \<subseteq> set (all_envelopes st') \<and>
    set (all_envelopes st') \<subseteq> set (all_envelopes st) \<union> set (res_events a) \<and>
    set (all_envelopes st) \<subseteq> set (all_envelopes st') \<and> (\<forall>e \<in> set (all_envelopes st'). intent_ok e)"
proof (cases P r st rule: append_core_cases)
  case (replayed res)
  then show ?thesis using assms by (auto simp: commands_ok_def)
next
  case (appended new res st2)
  have wf: "omap_wf (es_streams st)" using assms(2) by (simp add: store_inv_def)
  have "mset (all_envelopes st2) = mset (all_envelopes st @ new)"
    using mset_concat_omap_set [OF wf, of "ar_stream r" new] by (simp add: appended(7) all_envelopes_def stream_of_def)
  then have all: "set (all_envelopes st2) = set (all_envelopes st) \<union> set new"
    by (metis set_append set_mset_mset)
  have "intent_ok e" if new: "e \<in> set new" for e
  proof -
    obtain p where p: "p \<in> set (ar_events r)" "ev_payload e = pe_payload p" "ev_metadata e = metadata_or_empty (pe_metadata p)"
      using build_contents [OF new [unfolded appended(5)]] by blast
    have "assert_json (pe_payload p) \<and> assert_json (metadata_or_empty (pe_metadata p))"
      using appended(2) p(1) by (auto simp: validate_request_def list_all_iff split: if_splits)
    then show ?thesis using check_intentsD [OF assms(4) _ p(1)] p by (simp add: intent_ok_def publication_metadata)
  qed
  moreover have "commands_ok st2" using assms(3) unfolding commands_ok_def all by (auto simp: appended(6,7) split: if_splits)
  ultimately show ?thesis using assms(1,5) appended(1,6) all by auto
qed (use assms in auto)

lemma append_all_envelopes:
  assumes "append_all P rs st = (Inr as, st')" "store_inv P st" "commands_ok st" "check_intents rs = Inr u"
    and "\<forall>e \<in> set (all_envelopes st). intent_ok e"
  shows "commands_ok st' \<and> set (concat (map res_events as)) \<subseteq> set (all_envelopes st') \<and>
    set (all_envelopes st') \<subseteq> set (all_envelopes st) \<union> set (concat (map res_events as)) \<and>
    set (all_envelopes st) \<subseteq> set (all_envelopes st') \<and> (\<forall>e \<in> set (all_envelopes st'). intent_ok e)"
  using assms
proof (induction rs arbitrary: st as u)
  case (Cons r rs)
  from Cons.prems(1) obtain a st1 as' where core: "append_core P r st = (Inr a, st1)"
      and all: "append_all P rs st1 = (Inr as', st')" "as = a # as'"
    by (auto split: prod.splits sum.splits)
  have checks: "check_intents [r] = Inr ()" "check_intents rs = Inr ()"
    using Cons.prems(4) by (auto simp: check_intents_def bind_result_Inr_iff map_result_Inr_iff list_all2_append1)
  note one = append_core_envelopes [OF core Cons.prems(2,3) checks(1) Cons.prems(5)]
  have "store_inv P st1" using append_core_inv [OF Cons.prems(2), of r] core by simp
  from Cons.IH [OF all(1) this _ checks(2)] one have rest: "commands_ok st' \<and> set (concat (map res_events as')) \<subseteq> set (all_envelopes st') \<and>
    set (all_envelopes st') \<subseteq> set (all_envelopes st1) \<union> set (concat (map res_events as')) \<and>
    set (all_envelopes st1) \<subseteq> set (all_envelopes st') \<and> (\<forall>e \<in> set (all_envelopes st'). intent_ok e)" by blast
  then show ?case using one all(2) by auto
qed simp

section \<open>The store with its outbox\<close>

definition awaiting :: "outbox_event_store \<Rightarrow> envelope \<Rightarrow> bool" where
  "awaiting st e \<longleftrightarrow> (\<exists>es \<in> set (oes_pending st). e \<in> set es)"

definition oes_inv :: "platform \<Rightarrow> outbox_event_store \<Rightarrow> bool" where
  "oes_inv P st = (store_inv P (oes_events st) \<and> outbox_inv P (oes_outbox st) \<and> commands_ok (oes_events st) \<and>
     (\<forall>e. awaiting st e \<longrightarrow> e \<in> set (all_envelopes (oes_events st))) \<and>
     (\<forall>e \<in> set (all_envelopes (oes_events st)). intent_ok e \<and> (enqueued P (oes_outbox st) e \<or> awaiting st e)))"

inductive oes_run :: "platform \<Rightarrow> outbox_event_store \<Rightarrow> bool" for P where
  oes_create: "create_outbox_event_store P = Inr st \<Longrightarrow> oes_run P st"
| oes_append: "oes_run P st \<Longrightarrow> oes_run P (snd (begin_append P r st))"
| oes_transaction: "oes_run P st \<Longrightarrow> oes_run P (snd (begin_transaction P rs st))"
| oes_resume: "oes_run P st \<Longrightarrow> i < length (oes_pending st) \<Longrightarrow> oes_run P (snd (resume_enqueue P i st))"
| oes_snapshot: "oes_run P st \<Longrightarrow> oes_run P (st\<lparr>oes_events := snd (save_snapshot P q (oes_events st))\<rparr>)"
| oes_deliver: "oes_run P st \<Longrightarrow> outbox_step P (oes_outbox st) ob \<Longrightarrow> oes_run P (st\<lparr>oes_outbox := ob\<rparr>)"

text \<open>What has just been committed awaits.\<close>

lemma commit_awaiting:
  assumes "oes_inv P st" "store_inv P ev" "commands_ok ev" "\<forall>e \<in> set (all_envelopes ev). intent_ok e"
    and "set es \<subseteq> set (all_envelopes ev)" "set (all_envelopes ev) \<subseteq> set (all_envelopes (oes_events st)) \<union> set es"
    and "set (all_envelopes (oes_events st)) \<subseteq> set (all_envelopes ev)"
  shows "oes_inv P (st\<lparr>oes_events := ev, oes_pending := oes_pending st @ [es]\<rparr>)"
proof -
  let ?st = "st\<lparr>oes_events := ev, oes_pending := oes_pending st @ [es]\<rparr>"
  have aw: "awaiting ?st e \<longleftrightarrow> awaiting st e \<or> e \<in> set es" for e by (auto simp: awaiting_def)
  show ?thesis using assms unfolding oes_inv_def aw by auto
qed

lemma begin_append_inv:
  assumes "oes_inv P st"
  shows "oes_inv P (snd (begin_append P r st))"
proof (cases "check_intents [r]")
  case (Inr u)
  show ?thesis
  proof (cases "append_core P r (oes_events st)")
    case (Pair x ev)
    show ?thesis
    proof (cases x)
      case (Inl e)
      have "ev = oes_events st" using Pair Inl by (cases P r "oes_events st" rule: append_core_cases) auto
      then show ?thesis using assms Pair Inl Inr by (simp add: begin_append_def)
    next
      case (Inr a)
      have inv: "store_inv P (oes_events st)" "commands_ok (oes_events st)"
          "\<forall>e \<in> set (all_envelopes (oes_events st)). intent_ok e" using assms by (auto simp: oes_inv_def)
      have core: "append_core P r (oes_events st) = (Inr a, ev)" using Pair Inr by simp
      note new = append_core_envelopes [OF core inv(1,2) \<open>check_intents [r] = Inr u\<close> inv(3)]
      have "store_inv P ev" using append_core_inv [OF inv(1), of r] core by simp
      from commit_awaiting [OF assms this, of "res_events a"] new core \<open>check_intents [r] = Inr u\<close>
      show ?thesis by (simp add: begin_append_def)
    qed
  qed
qed (use assms in \<open>simp add: begin_append_def\<close>)

lemma begin_transaction_inv:
  assumes "oes_inv P st"
  shows "oes_inv P (snd (begin_transaction P rs st))"
proof (cases "check_intents rs")
  case (Inr u)
  show ?thesis
  proof (cases P rs "oes_events st" rule: append_transaction_cases)
    case (rolled_back e)
    then show ?thesis using assms Inr by (simp add: begin_transaction_def)
  next
    case (committed as)
    have inv: "store_inv P (oes_events st)" "commands_ok (oes_events st)"
        "\<forall>e \<in> set (all_envelopes (oes_events st)). intent_ok e" using assms by (auto simp: oes_inv_def)
    obtain ev where all: "append_all P rs (oes_events st) = (Inr as, ev)" using committed(2) by (metis prod.collapse)
    have tr: "append_transaction P rs (oes_events st) = (Inr as, ev)" using committed(1) all by simp
    note new = append_all_envelopes [OF all inv(1,2) Inr inv(3)]
    have "store_inv P ev" using append_all_inv [OF inv(1), of rs] all by simp
    from commit_awaiting [OF assms this, of "concat (map res_events as)"] new tr Inr
    show ?thesis by (simp add: begin_transaction_def)
  qed
qed (use assms in \<open>simp add: begin_transaction_def\<close>)

text \<open>A continuation does not throw, and leaves its events enqueued.\<close>

lemma resume_enqueue_ok:
  assumes "oes_inv P st" "i < length (oes_pending st)"
  shows "\<exists>st'. resume_enqueue P i st = (Inr (), st') \<and> oes_inv P st' \<and> (\<forall>e \<in> set (oes_pending st ! i). enqueued P (oes_outbox st') e)"
proof -
  let ?es = "oes_pending st ! i" let ?rest = "take i (oes_pending st) @ drop (Suc i) (oes_pending st)"
  have split: "set (oes_pending st) = insert ?es (set ?rest)"
    using id_take_nth_drop [OF assms(2)] by (metis list.simps(15) set_append Un_insert_right)
  have intents: "\<forall>e \<in> set ?es. intent_ok e" "outbox_inv P (oes_outbox st)"
    using assms(1) split by (auto simp: oes_inv_def awaiting_def)
  from enqueue_events_ok [OF intents] obtain ob where ob: "enqueue_events P ?es (oes_outbox st) = (Inr (), ob)" "outbox_inv P ob"
    "\<forall>k. omap_has (messages (oes_outbox st)) k \<longrightarrow> omap_has (messages ob) k" "\<forall>e \<in> set ?es. enqueued P ob e" by blast
  let ?st = "st\<lparr>oes_outbox := ob, oes_pending := ?rest\<rparr>"
  have aw: "awaiting st e \<longleftrightarrow> e \<in> set ?es \<or> awaiting ?st e" for e
    unfolding awaiting_def split by simp
  have "enqueued P ob e \<or> awaiting ?st e" if "enqueued P (oes_outbox st) e \<or> awaiting st e" for e
    using that aw [of e] ob(4) enqueued_mono [OF _ ob(3)] by blast
  then have "oes_inv P ?st" using assms(1) ob(2) aw unfolding oes_inv_def by simp
  then show ?thesis using ob(1,4) by (simp add: resume_enqueue_def)
qed

lemma oes_run_inv: "oes_run P st \<Longrightarrow> oes_inv P st"
proof (induction rule: oes_run.induct)
  case (oes_create st)
  then show ?case
    using create_inv [unfolded create_event_store_def]
    by (auto simp: create_outbox_event_store_def new_outbox_def bind_result_Inr_iff oes_inv_def commands_ok_def
        create_event_store_def all_envelopes_def outbox_inv_def omap_wf_def awaiting_def split: if_splits)
next
  case (oes_append st r)
  then show ?case using begin_append_inv by blast
next
  case (oes_transaction st rs)
  then show ?case using begin_transaction_inv by blast
next
  case (oes_resume st i)
  then show ?case using resume_enqueue_ok [of P st i] by auto
next
  case (oes_snapshot st q)
  have "es_streams (snd (save_snapshot P q ev)) = es_streams ev" "es_commands (snd (save_snapshot P q ev)) = es_commands ev" for ev
    by (simp_all add: save_snapshot_def Let_def split: option.split)
  then show ?case using oes_snapshot.IH save_snapshot_inv [of P "oes_events st" q]
    by (simp add: oes_inv_def commands_ok_def all_envelopes_def awaiting_def)
next
  case (oes_deliver st ob)
  then have inv: "outbox_inv P (oes_outbox st)" by (simp add: oes_inv_def)
  have "omap_has (messages ob) k" if "omap_has (messages (oes_outbox st)) k" for k
    using that outbox_step_message [OF oes_deliver.hyps(2) inv, of k] by (auto simp: omap_has_def)
  then have "enqueued P ob e" if "enqueued P (oes_outbox st) e" for e using enqueued_mono [OF that] by blast
  then show ?case
    using oes_deliver.IH outbox_step_inv [OF oes_deliver.hyps(2) inv] by (simp add: oes_inv_def awaiting_def) blast
qed

section \<open>Properties\<close>

text \<open>
  C33. Every reachable store holds verified history: each stream passes \<^verbatim>\<open>verifyEventChain\<close>
  without a finding (hashes, links, stream identity and contiguous versions from one), and no two
  events of the store have the same global position.
\<close>

theorem streams_verify:
  assumes "store_run P create_event_store st"
  shows "verify_event_chain P (stream_of st s) = [] \<and> distinct (map ev_position (all_envelopes st)) \<and>
    (\<forall>e \<in> set (all_envelopes st). 1 \<le> ev_position e \<and> ev_position e \<le> es_position st)"
proof -
  have inv: "store_inv P st" using store_run_inv [OF assms] create_inv by blast
  then show ?thesis using stream_of_ok [OF inv, of s] verify_chain_iff [of "stream_of st s" s P]
    by (simp add: stream_ok_def store_inv_def positions_ok_def)
qed

text \<open>
  Optimistic concurrency: an append either throws and changes nothing, or is the replay
  of a recorded command and changes nothing, or the expected version was the length of the stream
  and exactly the proposed events are added at its end, numbered on from there, while every other
  stream stays as it is.
\<close>

theorem append_outcome:
  assumes "append_core P r st = (x, st')"
  shows "case x of
      Inl e \<Rightarrow> st' = st
    | Inr a \<Rightarrow>
        (case res_status a of
           IdempotentReplay \<Rightarrow> st' = st \<and> (\<exists>fp res. omap_get (es_commands st) (command_key r) = Some (fp, res) \<and>
             fp = ledger_hash P (request_json r) \<and> res_events a = res_events res)
         | Appended \<Rightarrow> js_integer (ar_expected r) = Some (int (length (stream_of st (ar_stream r)))) \<and>
             stream_of st' (ar_stream r) = stream_of st (ar_stream r) @ res_events a \<and>
             length (res_events a) = length (ar_events r) \<and> res_version a = length (stream_of st' (ar_stream r)) \<and>
             (\<forall>s. s \<noteq> ar_stream r \<longrightarrow> stream_of st' s = stream_of st s) \<and>
             es_position st' = es_position st + int (length (ar_events r)))"
  using assms by (cases P r st rule: append_core_cases) auto

text \<open>
  Commands are idempotent for ever: after a command was accepted, and whatever is called in
  between, the same request returns the same events as a replay without changing the store, and
  a different request under the same stream and command identifiers is refused.
\<close>

theorem append_idempotent:
  assumes "store_inv P st" "append_core P r st = (Inr a, st')" "store_run P st' st''"
  shows "(\<exists>a'. append_core P r st'' = (Inr a', st'') \<and> res_status a' = IdempotentReplay \<and> res_events a' = res_events a) \<and>
    (\<forall>r'. command_key r' = command_key r \<longrightarrow> ledger_hash P (request_json r') \<noteq> ledger_hash P (request_json r) \<longrightarrow>
      (\<exists>e. append_core P r' st'' = (Inl e, st'')))"
proof -
  have "store_inv P st'" using append_core_inv [OF assms(1), of r] assms(2) by simp
  then have ext: "extends st' st''" using store_run_inv [OF assms(3)] by blast
  have "\<exists>res. omap_get (es_commands st') (command_key r) = Some (ledger_hash P (request_json r), res)
      \<and> res_events res = res_events a \<and> validate_request P r = Inr ()"
    using assms(2) by (cases P r st rule: append_core_cases) (auto simp: append_core_def split: sum.splits)
  then obtain res where res: "omap_get (es_commands st'') (command_key r) = Some (ledger_hash P (request_json r), res)"
      "res_events res = res_events a" "validate_request P r = Inr ()"
    using ext by (auto simp: extends_def)
  then have "\<exists>a'. append_core P r st'' = (Inr a', st'') \<and> res_status a' = IdempotentReplay \<and> res_events a' = res_events a"
    by (simp add: append_core_def Let_def)
  moreover have "\<exists>e. append_core P r' st'' = (Inl e, st'')"
    if "command_key r' = command_key r" "ledger_hash P (request_json r') \<noteq> ledger_hash P (request_json r)" for r'
    using that res by (cases P r' st'' rule: append_core_cases) auto
  ultimately show ?thesis by blast
qed

definition sample_append_request :: append_request where
  "sample_append_request = \<lparr>ar_stream = ''s'', ar_expected = Num 0, ar_command = ''c'', ar_recorded_at = ''T5'',
     ar_events = [\<lparr>pe_type = ''DRAW'', pe_payload = JNull, pe_metadata = None\<rparr>]\<rparr>"

definition sample_appended :: event_store where
  "sample_appended = snd (append_core sample_platform sample_append_request create_event_store)"

lemma sample_request_valid: "validate_request sample_platform sample_append_request = Inr ()"
  by (simp add: validate_request_def sample_append_request_def blank_iff is_space_def js_integer_def rat_int_def
      metadata_or_empty_def sample_dates quotient_of_int)

lemma sample_append_ok: "\<exists>a. append_core sample_platform sample_append_request create_event_store = (Inr a, sample_appended)"
proof -
  have "js_integer (ar_expected sample_append_request) = Some 0"
    using js_integer_of_int [of 0] by (simp add: sample_append_request_def)
  then show ?thesis unfolding sample_appended_def
    by (simp add: append_core_def sample_request_valid create_event_store_def stream_of_def Let_def)
qed

theorem streams_verify_witness: "verify_event_chain sample_platform (stream_of sample_appended ''s'') = []"
  using streams_verify [OF run_append [OF run_start], of sample_platform sample_append_request]
  unfolding sample_appended_def by blast

theorem append_outcome_witness:
  "case append_core sample_platform sample_append_request create_event_store of (Inr a, st') \<Rightarrow>
     res_status a = Appended \<longrightarrow> stream_of st' ''s'' = stream_of create_event_store ''s'' @ res_events a
   | _ \<Rightarrow> False"
proof -
  obtain a where a: "append_core sample_platform sample_append_request create_event_store = (Inr a, sample_appended)"
    using sample_append_ok by blast
  have "ar_stream sample_append_request = ''s''" by (simp add: sample_append_request_def)
  then show ?thesis using append_outcome [OF a] a by auto
qed

theorem append_idempotent_witness:
  "\<exists>a. append_core sample_platform sample_append_request sample_appended = (Inr a, sample_appended) \<and>
     res_status a = IdempotentReplay"
proof -
  obtain a where a: "append_core sample_platform sample_append_request create_event_store = (Inr a, sample_appended)"
    using sample_append_ok by blast
  show ?thesis using append_idempotent [OF create_inv a run_start] by blast
qed

text \<open>
  Transactions are atomic: a transaction that throws leaves the store exactly as it was,
  with or without an outbox, and one that succeeds has appended every request in turn.
\<close>

theorem transaction_atomic:
  "case append_transaction P rs st of
     (Inl e, st') \<Rightarrow> st' = st
   | (Inr as, st') \<Rightarrow> append_all P rs st = (Inr as, st') \<and> length as = length rs"
proof -
  have len: "length as = length rs" if "append_all P rs st = (Inr as, st')" for as st'
    using that
  proof (induction rs arbitrary: st as)
    case (Cons r rs)
    then show ?case by (auto split: prod.splits sum.splits)
  qed simp
  show ?thesis
  proof (cases P rs st rule: append_transaction_cases)
    case (committed as)
    obtain st' where all: "append_all P rs st = (Inr as, st')" using committed(2) by (metis prod.collapse)
    with len [OF this] committed(1) show ?thesis by simp
  qed simp
qed

text \<open>
  C34. The transactional outbox: in every state that the store with an outbox can reach, the states between a commit and its enqueue
  included, each committed event with an outbox intent has its message in the outbox, under the key of its event, topic and
  publication key, or is among the events of a call that has committed and awaits; when no call awaits, every such event has
  its message. The continuation of a call that awaits does not throw, and leaves the message of each of its events in the
  outbox. Other appends, transactions, snapshots and calls on the outbox may come in any order between the two halves.
\<close>

theorem committed_events_enqueued:
  assumes "oes_run P st" "e \<in> set (all_envelopes (oes_events st))"
    and "publication_of (Some (ev_metadata e)) = Inr (Some p)"
  shows "\<exists>k. expected_dedupe_key P (ev_id e) (pub_topic p) (pub_key p) = Inr k \<and>
    ((\<exists>m. omap_get (messages (oes_outbox st)) k = Some m \<and> dedupe_key m = k \<and> msg_id m = ''outbox.'' @ k) \<or>
     (\<exists>i < length (oes_pending st). e \<in> set (oes_pending st ! i))) \<and>
    (\<forall>i < length (oes_pending st). e \<in> set (oes_pending st ! i) \<longrightarrow> (\<exists>st' m. resume_enqueue P i st = (Inr (), st') \<and>
       omap_get (messages (oes_outbox st')) k = Some m \<and> dedupe_key m = k \<and> msg_id m = ''outbox.'' @ k))"
proof -
  have inv: "oes_inv P st" using oes_run_inv [OF assms(1)] .
  have message: "\<exists>k m. expected_dedupe_key P (ev_id e) (pub_topic p) (pub_key p) = Inr k \<and>
      omap_get (messages (oes_outbox s)) k = Some m \<and> dedupe_key m = k \<and> msg_id m = ''outbox.'' @ k"
    if "enqueued P (oes_outbox s) e" "oes_inv P s" for s
  proof -
    from that(1) obtain k m where "expected_dedupe_key P (ev_id e) (pub_topic p) (pub_key p) = Inr k"
        "omap_get (messages (oes_outbox s)) k = Some m"
      using assms(3) by (auto simp: enqueued_def omap_has_def split: sum.splits)
    moreover from this that(2) have "message_wf P (outbox_tenant (oes_outbox s)) k m" by (simp add: oes_inv_def outbox_inv_def)
    ultimately show ?thesis by (auto simp: message_wf_def)
  qed
  have resumed: "\<exists>st' k m. resume_enqueue P i st = (Inr (), st') \<and> expected_dedupe_key P (ev_id e) (pub_topic p) (pub_key p) = Inr k \<and>
      omap_get (messages (oes_outbox st')) k = Some m \<and> dedupe_key m = k \<and> msg_id m = ''outbox.'' @ k"
    if "i < length (oes_pending st)" "e \<in> set (oes_pending st ! i)" for i
    using resume_enqueue_ok [OF inv that(1)] that(2) message by blast
  have "enqueued P (oes_outbox st) e \<or> (\<exists>i < length (oes_pending st). e \<in> set (oes_pending st ! i))"
    using inv assms(2) unfolding oes_inv_def awaiting_def by (metis in_set_conv_nth)
  then obtain k where k: "expected_dedupe_key P (ev_id e) (pub_topic p) (pub_key p) = Inr k" "enqueued P (oes_outbox st) e \<or> (\<exists>i < length (oes_pending st). e \<in> set (oes_pending st ! i))"
    using message [OF _ inv] resumed by blast
  have "\<exists>st' m. resume_enqueue P i st = (Inr (), st') \<and>
       omap_get (messages (oes_outbox st')) k = Some m \<and> dedupe_key m = k \<and> msg_id m = ''outbox.'' @ k"
    if "i < length (oes_pending st)" "e \<in> set (oes_pending st ! i)" for i
    using resumed [OF that] k(1) by auto
  moreover have "(\<exists>m. omap_get (messages (oes_outbox st)) k = Some m \<and> dedupe_key m = k \<and> msg_id m = ''outbox.'' @ k) \<or>
     (\<exists>i < length (oes_pending st). e \<in> set (oes_pending st ! i))"
    using k message [OF _ inv] by auto
  ultimately show ?thesis using k(1) by blast
qed

definition sample_intent :: jsval where
  "sample_intent = JObj [(''outbox'', JObj [(''topic'', JStr ''p''), (''key'', JStr ''k'')])]"

definition sample_intent_request :: append_request where
  "sample_intent_request = sample_append_request\<lparr>ar_events :=
     [\<lparr>pe_type = ''DRAW'', pe_payload = JNull, pe_metadata = Some sample_intent\<rparr>]\<rparr>"

definition sample_oes :: outbox_event_store where
  "sample_oes = snd (begin_append sample_platform sample_intent_request
     \<lparr>oes_events = create_event_store, oes_outbox = \<lparr>outbox_tenant = ''local'', messages = []\<rparr>, oes_pending = []\<rparr>)"

lemma sample_oes_run: "oes_run sample_platform sample_oes"
  unfolding sample_oes_def
  by (rule oes_append, rule oes_create)
    (simp add: create_outbox_event_store_def new_outbox_def bounded_identifier_def blank_iff is_space_def has_control_def)

lemma sample_publication_of: "publication_of (Some sample_intent) = Inr (Some \<lparr>pub_topic = ''p'', pub_key = ''k'', pub_payload = JUndef\<rparr>)"
  by (simp add: publication_of_def sample_intent_def member_of_def blank_iff is_space_def)

lemma sample_oes_event: "\<exists>e \<in> set (all_envelopes (oes_events sample_oes)). ev_metadata e = sample_intent"
proof -
  have "js_integer (ar_expected sample_intent_request) = Some 0"
    using js_integer_of_int [of 0] by (simp add: sample_intent_request_def sample_append_request_def)
  moreover have "validate_request sample_platform sample_intent_request = Inr ()"
    using sample_request_valid
    by (simp add: validate_request_def sample_append_request_def sample_intent_request_def metadata_or_empty_def
        sample_intent_def split: if_splits)
  ultimately have "\<exists>a ev. append_core sample_platform sample_intent_request create_event_store = (Inr a, ev) \<and>
      (\<exists>e \<in> set (all_envelopes ev). ev_metadata e = sample_intent)"
    by (simp add: append_core_def create_event_store_def stream_of_def all_envelopes_def Let_def sample_intent_request_def
        sealed_envelope metadata_or_empty_def sample_intent_def)
  then obtain a ev where core: "append_core sample_platform sample_intent_request create_event_store = (Inr a, ev)"
      "\<exists>e \<in> set (all_envelopes ev). ev_metadata e = sample_intent" by blast
  have "check_intents [sample_intent_request] = Inr ()"
    by (simp add: check_intents_def sample_intent_request_def sample_publication_of)
  then have "oes_events sample_oes = ev"
    unfolding sample_oes_def begin_append_def using core(1) by (auto split: prod.split sum.split)
  then show ?thesis using core(2) by simp
qed

text \<open>The witness is in the state between commit and enqueue: one call awaits, and its continuation enqueues the message.\<close>

lemma sample_oes_awaits:
  assumes "e \<in> set (all_envelopes (oes_events sample_oes))" "ev_metadata e = sample_intent"
  shows "0 < length (oes_pending sample_oes) \<and> e \<in> set (oes_pending sample_oes ! 0)"
proof -
  have outbox: "messages (oes_outbox sample_oes) = []" "oes_pending sample_oes = [] \<or> (\<exists>es. oes_pending sample_oes = [es])"
    by (auto simp: sample_oes_def begin_append_def split: sum.split prod.split)
  have "\<not> enqueued sample_platform (oes_outbox sample_oes) e"
    using outbox(1) sample_publication_of assms(2) by (auto simp: enqueued_def omap_has_def split: sum.splits)
  then have "awaiting sample_oes e" using oes_run_inv [OF sample_oes_run] assms(1) by (auto simp: oes_inv_def)
  then show ?thesis using outbox(2) by (auto simp: awaiting_def)
qed

theorem committed_events_enqueued_witness:
  "\<exists>e k st' m. e \<in> set (all_envelopes (oes_events sample_oes)) \<and> expected_dedupe_key sample_platform (ev_id e) ''p'' ''k'' = Inr k \<and>
     resume_enqueue sample_platform 0 sample_oes = (Inr (), st') \<and> omap_get (messages (oes_outbox st')) k = Some m"
proof -
  obtain e where e: "e \<in> set (all_envelopes (oes_events sample_oes))" "ev_metadata e = sample_intent"
    using sample_oes_event by blast
  have intent: "publication_of (Some (ev_metadata e)) = Inr (Some \<lparr>pub_topic = ''p'', pub_key = ''k'', pub_payload = JUndef\<rparr>)"
    using sample_publication_of e(2) by simp
  from committed_events_enqueued [OF sample_oes_run e(1) intent] sample_oes_awaits [OF e]
  obtain k st' m where "expected_dedupe_key sample_platform (ev_id e) ''p'' ''k'' = Inr k"
      "resume_enqueue sample_platform 0 sample_oes = (Inr (), st')" "omap_get (messages (oes_outbox st')) k = Some m"
    unfolding outbox_publication.simps by blast
  then show ?thesis using e(1) by blast
qed

end
