(* ===== verification/RandomSource.thy ===== *)
theory RandomSource
  imports JsonValue "HOL-Library.Word"
begin

unbundle bit_operations_syntax

text \<open>
  packages/competition-engine/src/random.ts: the registered random algorithms xoshiro128** and
  PCG32 on 32- and 64-bit words, the bounded draw by rejection, the shuffle, and the older
  xorshift source.

  \<^item> Number arithmetic that ends in \<^verbatim>\<open>>>> 0\<close> is arithmetic on \<open>32 word\<close>; the \<^verbatim>\<open>bigint\<close> state of
    PCG32, always masked to 64 bits, is a \<open>64 word\<close>.
  \<^item> The rejection loop ends only if the generator yields a value below the limit; it is a
    \<open>partial_function (option)\<close>, whose \<open>None\<close> is the endless loop. \<open>bounded_int_returns\<close> says
    exactly when it returns.
  \<^item> The bytes of \<^verbatim>\<open>digest()\<close> are read from the hexadecimal digest of the platform.
  \<^item> The locale \<open>bounded_source\<close> is what \<open>shuffle\<close> needs of a source; it is interpreted on the
    registered algorithms and on the xorshift source.
\<close>

section \<open>Registered algorithms\<close>

datatype random_algorithm = Xoshiro128ss | Pcg32

datatype random_state =
    XoshiroState "32 word" "32 word" "32 word" "32 word"
  | PcgState "64 word" "64 word"

datatype random_error = EmptySeed | UnregisteredAlgorithm | InvalidBound

definition rotate_left32 :: "32 word \<Rightarrow> nat \<Rightarrow> 32 word" where
  "rotate_left32 value shift = push_bit shift value OR drop_bit (32 - shift) value"

text \<open>\<open>digest_byte P seed i\<close> is byte \<open>i\<close> of the SHA-256 digest.\<close>

definition digest_byte :: "platform \<Rightarrow> string \<Rightarrow> nat \<Rightarrow> nat" where
  "digest_byte P seed i = (let h = sha256 P seed in 16 * hex_value (h ! (2 * i)) + hex_value (h ! (2 * i + 1)))"

definition read_le :: "platform \<Rightarrow> string \<Rightarrow> nat \<Rightarrow> nat \<Rightarrow> nat" where
  "read_le P seed offset width = foldr (\<lambda>i acc. digest_byte P seed (offset + i) + 256 * acc) [0..<width] 0"

definition xoshiro_next :: "32 word \<times> 32 word \<times> 32 word \<times> 32 word \<Rightarrow> 32 word \<times> 32 word \<times> 32 word \<times> 32 word \<times> 32 word" where
  "xoshiro_next s =
     (let (s0, s1, s2, s3) = s;
          res = rotate_left32 (s1 * 5) 7 * 9;
          shifted = push_bit 9 s1;
          s2 = s2 XOR s0; s3 = s3 XOR s1; s1 = s1 XOR s2; s0 = s0 XOR s3;
          s2 = s2 XOR shifted; s3 = rotate_left32 s3 11
      in (res, s0, s1, s2, s3))"

definition pcg_multiplier :: "64 word" where
  "pcg_multiplier = 6364136223846793005"

definition pcg_step :: "64 word \<Rightarrow> 64 word \<Rightarrow> 32 word \<times> 64 word" where
  "pcg_step increment previous =
     (let state = previous * pcg_multiplier + increment;
          xorshifted = (ucast (drop_bit 27 (drop_bit 18 previous XOR previous) AND 0xFFFFFFFF) :: 32 word);
          rotation = unat (drop_bit 59 previous)
      in (drop_bit rotation xorshifted OR push_bit ((32 - rotation) mod 32) xorshifted, state))"

fun next_uint32 :: "random_state \<Rightarrow> 32 word \<times> random_state" where
  "next_uint32 (XoshiroState s0 s1 s2 s3) =
     (case xoshiro_next (s0, s1, s2, s3) of (r, t0, t1, t2, t3) \<Rightarrow> (r, XoshiroState t0 t1 t2 t3))"
| "next_uint32 (PcgState increment state) =
     (case pcg_step increment state of (r, state') \<Rightarrow> (r, PcgState increment state'))"

definition seed_xoshiro :: "platform \<Rightarrow> string \<Rightarrow> random_state" where
  "seed_xoshiro P seed =
     (let w = (\<lambda>offset. of_nat (read_le P seed offset 4) :: 32 word) in
      if w 0 = 0 \<and> w 4 = 0 \<and> w 8 = 0 \<and> w 12 = 0 then XoshiroState 1 (w 4) (w 8) (w 12)
      else XoshiroState (w 0) (w 4) (w 8) (w 12))"

definition seed_pcg :: "platform \<Rightarrow> string \<Rightarrow> random_state" where
  "seed_pcg P seed =
     (let increment = push_bit 1 (of_nat (read_le P seed 8 8) :: 64 word) OR 1;
          initial = (of_nat (read_le P seed 0 8) :: 64 word);
          state = snd (pcg_step increment 0) + initial
      in PcgState increment (snd (pcg_step increment state)))"

text \<open>The algorithm arrives as a name; an unregistered one is refused.\<close>

definition algorithm_of :: "string \<Rightarrow> random_algorithm option" where
  "algorithm_of s = (if s = ''xoshiro128ss'' then Some Xoshiro128ss else if s = ''pcg32'' then Some Pcg32 else None)"

definition create_registered_random_source :: "platform \<Rightarrow> string \<Rightarrow> string \<Rightarrow> (random_error, random_state) result" where
  "create_registered_random_source P algorithm seed =
     (if blank seed then Inl EmptySeed
      else case algorithm_of algorithm of
        Some Xoshiro128ss \<Rightarrow> Inr (seed_xoshiro P seed)
      | Some Pcg32 \<Rightarrow> Inr (seed_pcg P seed)
      | None \<Rightarrow> Inl UnregisteredAlgorithm)"

definition random_metadata :: "platform \<Rightarrow> string \<Rightarrow> string \<Rightarrow> jsval" where
  "random_metadata P algorithm seed = JObj [(''algorithm'', JStr algorithm), (''version'', JStr ''1.0.0''),
     (''seedHash'', JStr (sha256 P seed))]"

section \<open>Bounded integers\<close>

abbreviation uint32_range :: nat where
  "uint32_range \<equiv> 2 ^ 32"

partial_function (option) draw_below ::
    "('s \<Rightarrow> 32 word \<times> 's) \<Rightarrow> nat \<Rightarrow> 's \<Rightarrow> (nat \<times> 's) option" where
  "draw_below gen limit s =
     (case gen s of (v, s') \<Rightarrow> if limit \<le> unat v then draw_below gen limit s' else Some (unat v, s'))"

definition rejection_limit :: "nat \<Rightarrow> nat" where
  "rejection_limit bound = uint32_range div bound * bound"

text \<open>\<open>None\<close> is the endless loop.\<close>

definition bounded_int ::
    "('s \<Rightarrow> 32 word \<times> 's) \<Rightarrow> nat \<Rightarrow> 's \<Rightarrow> (random_error, nat \<times> 's) result option" where
  "bounded_int gen bound s =
     (if bound < 1 \<or> uint32_range < bound then Some (Inl InvalidBound)
      else map_option (\<lambda>(v, s'). Inr (v mod bound, s')) (draw_below gen (rejection_limit bound) s))"

section \<open>The xorshift source\<close>

text \<open>\<^verbatim>\<open>deterministicRandom\<close>: the state is a signed 32-bit number in the code; its bits are the word.\<close>

definition seed_xorshift :: "platform \<Rightarrow> string \<Rightarrow> 32 word" where
  "seed_xorshift P seed = (let w = (of_nat (read_le P seed 0 4) :: 32 word) in if w = 0 then 0x9E3779B9 else w)"

definition xorshift_next :: "32 word \<Rightarrow> 32 word" where
  "xorshift_next s0 =
     (let s1 = s0 XOR push_bit 13 s0; s2 = s1 XOR drop_bit 17 s1; s3 = s2 XOR push_bit 5 s2 in s3)"

text \<open>\<^verbatim>\<open>Math.floor(gen() * maxExclusive)\<close>, exact below \<open>2^21\<close> (the product of doubles is then exact).\<close>

definition xorshift_int :: "nat \<Rightarrow> 32 word \<Rightarrow> nat \<times> 32 word" where
  "xorshift_int bound s = (let s' = xorshift_next s in (unat s' * bound div uint32_range, s'))"

section \<open>Shuffle\<close>

definition swap_at :: "'a list \<Rightarrow> nat \<Rightarrow> nat \<Rightarrow> 'a list" where
  "swap_at xs i j = xs[i := xs ! j, j := xs ! i]"

text \<open>
  The loop from the last index down to one; the source may fail to return (\<open>None\<close>). The
  argument is the index plus one, so \<open>shuffle_loop draw (length xs) xs s\<close> is the whole loop.
\<close>

fun shuffle_loop :: "(nat \<Rightarrow> 's \<Rightarrow> (nat \<times> 's) option) \<Rightarrow> nat \<Rightarrow> 'a list \<Rightarrow> 's \<Rightarrow> ('a list \<times> 's) option" where
  "shuffle_loop draw (Suc (Suc i)) xs s =
     (case draw (Suc (Suc i)) s of
        None \<Rightarrow> None
      | Some (selected, s') \<Rightarrow> shuffle_loop draw (Suc i) (swap_at xs (Suc i) selected) s')"
| "shuffle_loop draw _ xs s = Some (xs, s)"

definition shuffle :: "(nat \<Rightarrow> 's \<Rightarrow> (nat \<times> 's) option) \<Rightarrow> 'a list \<Rightarrow> 's \<Rightarrow> ('a list \<times> 's) option" where
  "shuffle draw xs s = shuffle_loop draw (length xs) xs s"

text \<open>The source \<^verbatim>\<open>int\<close> of a registered algorithm, on bounds that it accepts.\<close>

definition registered_draw :: "nat \<Rightarrow> random_state \<Rightarrow> (nat \<times> random_state) option" where
  "registered_draw bound s =
     (case bounded_int next_uint32 bound s of Some (Inr r) \<Rightarrow> Some r | _ \<Rightarrow> None)"

definition xorshift_draw :: "nat \<Rightarrow> 32 word \<Rightarrow> (nat \<times> 32 word) option" where
  "xorshift_draw bound s = Some (xorshift_int bound s)"

section \<open>Draws in range\<close>

lemma mset_swap_at: "i < length xs \<Longrightarrow> j < length xs \<Longrightarrow> mset (swap_at xs i j) = mset xs"
  unfolding swap_at_def by (rule mset_swap)

locale bounded_source =
  fixes draw :: "nat \<Rightarrow> 's \<Rightarrow> (nat \<times> 's) option"
  assumes in_range: "0 < bound \<Longrightarrow> draw bound s = Some (v, s') \<Longrightarrow> v < bound"
begin

lemma shuffle_loop_mset:
  "shuffle_loop draw n xs s = Some (ys, s') \<Longrightarrow> n \<le> length xs \<Longrightarrow> mset ys = mset xs"
proof (induction n arbitrary: xs s)
  case (Suc n)
  show ?case
  proof (cases n)
    case (Suc i)
    with Suc.prems obtain v s1 where v: "draw (Suc (Suc i)) s = Some (v, s1)"
        "shuffle_loop draw n (swap_at xs (Suc i) v) s1 = Some (ys, s')"
      by (auto split: option.splits)
    have "v < length xs" using in_range [OF _ v(1)] Suc.prems(2) Suc by simp
    then have "mset (swap_at xs (Suc i) v) = mset xs" using Suc.prems(2) Suc by (intro mset_swap_at) auto
    moreover have "n \<le> length (swap_at xs (Suc i) v)" using Suc.prems(2) by (simp add: swap_at_def)
    ultimately show ?thesis using Suc.IH [OF v(2)] by simp
  qed (use Suc.prems in simp)
qed simp

lemma shuffle_permutes: "shuffle draw xs s = Some (ys, s') \<Longrightarrow> mset ys = mset xs"
  unfolding shuffle_def by (erule shuffle_loop_mset) simp

end

section \<open>The rejection loop\<close>

text \<open>The states and values a generator runs through.\<close>

fun nth_state :: "('s \<Rightarrow> 32 word \<times> 's) \<Rightarrow> nat \<Rightarrow> 's \<Rightarrow> 's" where
  "nth_state gen 0 s = s"
| "nth_state gen (Suc k) s = nth_state gen k (snd (gen s))"

definition nth_value :: "('s \<Rightarrow> 32 word \<times> 's) \<Rightarrow> nat \<Rightarrow> 's \<Rightarrow> nat" where
  "nth_value gen k s = unat (fst (gen (nth_state gen k s)))"

lemma draw_below_Some:
  assumes "draw_below gen limit s = Some r"
  shows "\<exists>k. r = (nth_value gen k s, nth_state gen (Suc k) s) \<and> nth_value gen k s < limit
    \<and> (\<forall>j < k. limit \<le> nth_value gen j s)"
proof (rule draw_below.raw_induct [OF _ assms])
  fix f :: "('s \<Rightarrow> 32 word \<times> 's) \<Rightarrow> nat \<Rightarrow> 's \<Rightarrow> (nat \<times> 's) option" and gen limit s r
  assume IH: "\<And>gen limit s r. f gen limit s = Some r \<Longrightarrow> \<exists>k. r = (nth_value gen k s, nth_state gen (Suc k) s) \<and>
      nth_value gen k s < limit \<and> (\<forall>j < k. limit \<le> nth_value gen j s)"
    and "(case gen s of (v, s') \<Rightarrow> if limit \<le> unat v then f gen limit s' else Some (unat v, s')) = Some r"
  then obtain v s' where v: "gen s = (v, s')" "(if limit \<le> unat v then f gen limit s' else Some (unat v, s')) = Some r"
    by (cases "gen s") auto
  show "\<exists>k. r = (nth_value gen k s, nth_state gen (Suc k) s) \<and> nth_value gen k s < limit \<and> (\<forall>j < k. limit \<le> nth_value gen j s)"
  proof (cases "limit \<le> unat v")
    case True
    with v(2) IH obtain k where k: "r = (nth_value gen k s', nth_state gen (Suc k) s')" "nth_value gen k s' < limit"
        "\<forall>j < k. limit \<le> nth_value gen j s'" by (metis (full_types))
    have "limit \<le> nth_value gen j s" if "j < Suc k" for j
      using that k(3) True v(1) by (cases j) (auto simp: nth_value_def)
    then show ?thesis using k v(1) by (intro exI [of _ "Suc k"]) (auto simp: nth_value_def)
  next
    case False
    then show ?thesis using v by (intro exI [of _ 0]) (auto simp: nth_value_def)
  qed
qed

lemma draw_below_finds:
  assumes "nth_value gen k s < limit" "\<forall>j < k. limit \<le> nth_value gen j s"
  shows "draw_below gen limit s = Some (nth_value gen k s, nth_state gen (Suc k) s)"
  using assms
proof (induction k arbitrary: s)
  case 0
  then show ?case by (subst draw_below.simps) (auto simp: nth_value_def split: prod.split)
next
  case (Suc k)
  have "limit \<le> unat (fst (gen s))" using Suc.prems(2) by (auto simp: nth_value_def)
  moreover have "draw_below gen limit (snd (gen s)) = Some (nth_value gen k (snd (gen s)), nth_state gen (Suc k) (snd (gen s)))"
  proof (rule Suc.IH)
    show "nth_value gen k (snd (gen s)) < limit" using Suc.prems(1) by (simp add: nth_value_def)
    show "\<forall>j<k. limit \<le> nth_value gen j (snd (gen s))"
      using Suc.prems(2) by (metis Suc_less_eq nth_state.simps(2) nth_value_def)
  qed
  ultimately show ?case by (subst draw_below.simps) (auto simp: nth_value_def split: prod.split)
qed

text \<open>The loop returns exactly when the generator ever yields a value below the limit.\<close>

lemma draw_below_returns: "(\<exists>r. draw_below gen limit s = Some r) \<longleftrightarrow> (\<exists>k. nth_value gen k s < limit)"
proof
  assume "\<exists>k. nth_value gen k s < limit"
  then show "\<exists>r. draw_below gen limit s = Some r"
    using draw_below_finds [of gen "LEAST k. nth_value gen k s < limit" s limit]
    by (metis (mono_tags, lifting) LeastI_ex not_less not_less_Least)
next
  assume "\<exists>r. draw_below gen limit s = Some r"
  then obtain r where "draw_below gen limit s = Some r" by blast
  from draw_below_Some [OF this] show "\<exists>k. nth_value gen k s < limit" by blast
qed

lemma rejection_limit_bounds:
  assumes "0 < bound" "bound \<le> uint32_range"
  shows "0 < rejection_limit bound" "rejection_limit bound \<le> uint32_range" "uint32_range < rejection_limit bound + bound"
proof -
  have "1 \<le> uint32_range div bound" using assms by (simp add: div_greater_zero_iff Suc_leI)
  then show "0 < rejection_limit bound" using assms(1) by (simp add: rejection_limit_def)
  show "rejection_limit bound \<le> uint32_range" by (simp add: rejection_limit_def)
  have "uint32_range = rejection_limit bound + uint32_range mod bound"
    unfolding rejection_limit_def by (rule div_mult_mod_eq [symmetric])
  then show "uint32_range < rejection_limit bound + bound"
    using mod_less_divisor [OF assms(1), of uint32_range] by linarith
qed

text \<open>No modulo bias: each result has the same number of accepted raw values.\<close>

lemma residues_below:
  assumes "0 < (m::nat)" "k < m"
  shows "card {v. v < q * m \<and> v mod m = k} = q"
proof -
  have "{v. v < q * m \<and> v mod m = k} = (\<lambda>i. i * m + k) ` {..<q}"
  proof (intro set_eqI iffI)
    fix v assume "v \<in> {v. v < q * m \<and> v mod m = k}"
    then have v: "v < q * m" "v mod m = k" by auto
    then have "v div m < q" using assms(1) by (simp add: less_mult_imp_div_less)
    moreover have "v = v div m * m + k" using v(2) by (metis div_mult_mod_eq)
    ultimately show "v \<in> (\<lambda>i. i * m + k) ` {..<q}" by blast
  next
    fix v assume "v \<in> (\<lambda>i. i * m + k) ` {..<q}"
    then obtain i where i: "v = i * m + k" "i < q" by auto
    have "i * m + k < Suc i * m" using assms(2) by simp
    also have "\<dots> \<le> q * m" using i(2) by (intro mult_le_mono1) simp
    finally show "v \<in> {v. v < q * m \<and> v mod m = k}" using i(1) assms(2) by simp
  qed
  moreover have "inj_on (\<lambda>i. i * m + k) {..<q}" using assms(1) by (simp add: inj_on_def)
  ultimately show ?thesis by (simp add: card_image)
qed

section \<open>Sources in range\<close>

lemma bounded_int_Some:
  assumes "bounded_int gen bound s = Some (Inr (v, s'))"
  shows "v < bound"
  using assms by (auto simp: bounded_int_def split: if_splits)

interpretation registered: bounded_source registered_draw
proof
  fix bound s v s'
  assume "registered_draw bound s = Some (v, s')"
  then show "v < bound"
    using bounded_int_Some [of next_uint32 bound s v s']
    by (auto simp: registered_draw_def split: option.splits sum.splits)
qed

interpretation xorshift: bounded_source xorshift_draw
proof
  fix bound :: nat and s v s'
  assume "0 < bound" "xorshift_draw bound s = Some (v, s')"
  then have v: "v = unat (xorshift_next s) * bound div uint32_range"
    by (auto simp: xorshift_draw_def xorshift_int_def Let_def)
  have "unat (xorshift_next s) < uint32_range" using unsigned_less [of "xorshift_next s"] by simp
  then have "unat (xorshift_next s) * bound < uint32_range * bound" using \<open>0 < bound\<close> by simp
  then show "v < bound" unfolding v by (simp add: less_mult_imp_div_less mult.commute)
qed

text \<open>A source that plays given choices, to count the shuffles.\<close>

fun play :: "nat \<Rightarrow> nat list \<Rightarrow> (nat \<times> nat list) option" where
  "play bound [] = None"
| "play bound (c # cs) = (if c < bound then Some (c, cs) else None)"

interpretation played: bounded_source play
proof
  fix bound s v s'
  assume "play bound s = Some (v, s')"
  then show "v < bound" by (cases s) (auto split: if_splits)
qed

lemma swap_at_nth:
  "i < length xs \<Longrightarrow> j < length xs \<Longrightarrow> swap_at xs i j ! k = (if k = j then xs ! i else if k = i then xs ! j else xs ! k)"
  by (auto simp: swap_at_def nth_list_update)

lemma distinct_swap_at: "i < length xs \<Longrightarrow> j < length xs \<Longrightarrow> distinct (swap_at xs i j) = distinct xs"
  using mset_swap_at mset_eq_imp_distinct_iff by blast

lemma length_swap_at [simp]: "length (swap_at xs i j) = length xs"
  by (simp add: swap_at_def)

text \<open>Positions from \<open>n\<close> on are settled when the loop runs from \<open>n\<close>.\<close>

lemma shuffle_loop_settled:
  "shuffle_loop play n xs cs = Some (ys, cs') \<Longrightarrow> n \<le> length xs \<Longrightarrow> n \<le> k \<Longrightarrow> k < length xs \<Longrightarrow> ys ! k = xs ! k"
proof (induction n arbitrary: xs cs)
  case (Suc n)
  show ?case
  proof (cases n)
    case (Suc i)
    with Suc.prems(1) obtain v cs1 where v: "play (Suc (Suc i)) cs = Some (v, cs1)"
        "shuffle_loop play n (swap_at xs (Suc i) v) cs1 = Some (ys, cs')"
      by (auto split: option.splits)
    have "v < Suc (Suc i)" using played.in_range [OF _ v(1)] by simp
    then show ?thesis using Suc.IH [OF v(2)] Suc.prems Suc by (auto simp: swap_at_nth)
  qed (use Suc.prems in simp)
qed simp

lemma shuffle_loop_unique:
  assumes "distinct xs" "n \<le> length xs" "mset ys = mset xs" "\<forall>k. n \<le> k \<longrightarrow> k < length xs \<longrightarrow> ys ! k = xs ! k"
  shows "\<exists>!cs. shuffle_loop play n xs cs = Some (ys, [])"
  using assms
proof (induction n arbitrary: xs)
  case zero: 0
  have "ys = xs"
  proof (rule nth_equalityI)
    show "length ys = length xs" using zero(3) by (rule mset_eq_length)
  qed (use zero(4) mset_eq_length [OF zero(3)] in simp)
  then show ?case by simp
next
  case (Suc n)
  have len: "length ys = length xs" using Suc.prems(3) by (rule mset_eq_length)
  have distinct_ys: "distinct ys" using Suc.prems(1,3) mset_eq_imp_distinct_iff by blast
  show ?case
  proof (cases n)
    case 0
    have "ys = xs"
    proof (rule nth_equalityI [OF len])
      fix k assume k: "k < length ys"
      show "ys ! k = xs ! k"
      proof (cases k)
        case 0
        obtain y ys' x xs' where split: "ys = y # ys'" "xs = x # xs'" using k len by (cases ys; cases xs) auto
        have "ys' = xs'" using Suc.prems(4) \<open>n = 0\<close> len split by (intro nth_equalityI) auto
        then show ?thesis using Suc.prems(3) 0 split by simp
      qed (use Suc.prems(4) k len \<open>n = 0\<close> in auto)
    qed
    then show ?thesis using 0 by auto
  next
    case (Suc i)
    have i: "Suc i < length xs" using Suc.prems(2) Suc by simp
    have "ys ! Suc i \<in> set xs" using i len Suc.prems(3) by (metis nth_mem set_mset_mset)
    then obtain c where c: "c < length xs" "xs ! c = ys ! Suc i" by (auto simp: in_set_conv_nth)
    have "c < Suc n"
    proof (rule ccontr)
      assume "\<not> c < Suc n"
      then have "ys ! c = ys ! Suc i" using Suc.prems(4) c by simp
      then show False using distinct_ys c(1) i len \<open>\<not> c < Suc n\<close> Suc by (simp add: nth_eq_iff_index_eq)
    qed
    let ?zs = "swap_at xs (Suc i) c"
    have "\<exists>!cs. shuffle_loop play n ?zs cs = Some (ys, [])"
    proof (rule Suc.IH)
      show "distinct ?zs" using Suc.prems(1) c(1) i by (simp add: distinct_swap_at)
      show "n \<le> length ?zs" using i Suc by simp
      show "mset ys = mset ?zs" using Suc.prems(3) c(1) i by (simp add: mset_swap_at)
      show "\<forall>k. n \<le> k \<longrightarrow> k < length ?zs \<longrightarrow> ys ! k = ?zs ! k"
        using Suc.prems(4) c i Suc \<open>c < Suc n\<close> by (auto simp: swap_at_nth)
    qed
    then obtain cs where cs: "shuffle_loop play n ?zs cs = Some (ys, [])"
      and unique: "\<And>ds. shuffle_loop play n ?zs ds = Some (ys, []) \<Longrightarrow> ds = cs" by blast
    show ?thesis
    proof (rule ex1I [of _ "c # cs"])
      show "shuffle_loop play (Suc n) xs (c # cs) = Some (ys, [])" using cs \<open>c < Suc n\<close> Suc by simp
      fix ds assume "shuffle_loop play (Suc n) xs ds = Some (ys, [])"
      then obtain d ds' where ds: "ds = d # ds'" "d < Suc n" "shuffle_loop play n (swap_at xs (Suc i) d) ds' = Some (ys, [])"
        using Suc by (cases ds) (auto split: option.splits if_splits)
      have d: "d < length xs" using ds(2) i Suc by simp
      have "ys ! Suc i = swap_at xs (Suc i) d ! Suc i"
        using shuffle_loop_settled [OF ds(3)] i Suc by simp
      then have "xs ! d = xs ! c" using c(2) i d by (auto simp: swap_at_nth split: if_splits)
      then have "d = c" using Suc.prems(1) c(1) d by (simp add: nth_eq_iff_index_eq)
      then show "ds = c # cs" using ds unique by simp
    qed
  qed
qed

section \<open>States that generators never reach\<close>

fun live_state :: "random_state \<Rightarrow> bool" where
  "live_state (XoshiroState s0 s1 s2 s3) = (\<not> (s0 = 0 \<and> s1 = 0 \<and> s2 = 0 \<and> s3 = 0))"
| "live_state (PcgState increment state) = (bit increment 0)"

lemma xor_cancel:
  fixes a b :: "32 word"
  shows "a XOR b = 0 \<longleftrightarrow> a = b"
  by (metis xor.assoc xor.right_neutral xor_self_eq)

lemma xor_shift_left_zero:
  fixes x :: "32 word"
  assumes "x XOR push_bit n x = 0" "0 < n"
  shows "x = 0"
proof (rule bit_eqI)
  have "x = push_bit n x" using assms(1) by (simp only: xor_cancel)
  then have same: "bit x i = bit (push_bit n x) i" for i by (rule arg_cong)
  have "\<not> bit x i" for i
  proof (induction i rule: less_induct)
    case (less i)
    show ?case
    proof
      assume "bit x i"
      then have "bit (push_bit n x) i" using same by blast
      then have "n \<le> i" "bit x (i - n)" by (auto simp: bit_push_bit_iff)
      then show False using less [of "i - n"] assms(2) by simp
    qed
  qed
  then show "bit x i = bit 0 i" for i by simp
qed

lemma xor_shift_right_zero:
  fixes x :: "32 word"
  assumes "x XOR drop_bit n x = 0" "0 < n"
  shows "x = 0"
proof (rule bit_eqI)
  have "x = drop_bit n x" using assms(1) by (simp only: xor_cancel)
  then have "bit x i = bit (drop_bit n x) i" for i by (rule arg_cong)
  then have same: "bit x i = bit x (n + i)" for i by (simp add: bit_drop_bit_eq)
  have "\<not> bit x i" for i
  proof (induction "32 - i" arbitrary: i rule: less_induct)
    case less
    show ?case
    proof
      assume i: "bit x i"
      then have "i < 32" using bit_imp_le_length by fastforce
      moreover have "bit x (n + i)" using same i by blast
      ultimately show False using less [of "n + i"] assms(2) by simp
    qed
  qed
  then show "bit x i = bit 0 i" for i by simp
qed

lemma rotate_left32_zero:
  assumes zero: "rotate_left32 x 11 = 0"
  shows "x = 0"
proof (rule bit_eqI)
  fix i assume "possible_bit TYPE(32 word) i"
  then have i: "i < LENGTH(32)" by simp
  have no: "\<not> bit (rotate_left32 x 11) j" for j using zero by simp
  show "bit x i = bit 0 i"
  proof (cases "i < 21")
    case True
    have "bit (rotate_left32 x 11) (i + 11) \<longleftrightarrow> bit x i \<or> bit x (21 + (i + 11))"
      using True by (simp add: rotate_left32_def bit_or_iff bit_push_bit_iff bit_drop_bit_eq)
    then show ?thesis using no by simp
  next
    case False
    have "\<not> 11 \<le> i - 21" using i by simp
    then have "bit (rotate_left32 x 11) (i - 21) \<longleftrightarrow> bit x i"
      using False i by (simp add: rotate_left32_def bit_or_iff bit_push_bit_iff bit_drop_bit_eq)
    then show ?thesis using no by simp
  qed
qed

lemma next_live: "live_state s \<Longrightarrow> live_state (snd (next_uint32 s))"
proof (cases s)
  case (XoshiroState s0 s1 s2 s3)
  assume live: "live_state s"
  show ?thesis
  proof (rule ccontr)
    assume "\<not> live_state (snd (next_uint32 s))"
    then have zero: "s0 XOR (s3 XOR s1) = 0" "s1 XOR (s2 XOR s0) = 0" "(s2 XOR s0) XOR push_bit 9 s1 = 0"
        "rotate_left32 (s3 XOR s1) 11 = 0"
      unfolding XoshiroState by (simp_all add: xoshiro_next_def Let_def)
    have "s3 = s1" using rotate_left32_zero [OF zero(4)] by (simp add: xor_cancel)
    moreover have "s0 = 0" using zero(1) \<open>s3 = s1\<close> by simp
    moreover have "s2 = s1" using zero(2) \<open>s0 = 0\<close> by (simp add: xor_cancel)
    moreover have "s1 = 0" using xor_shift_left_zero [of s1 9] zero(3) \<open>s0 = 0\<close> \<open>s2 = s1\<close> by simp
    ultimately show False using live XoshiroState by simp
  qed
next
  case (PcgState increment state)
  assume "live_state s"
  then show ?thesis unfolding PcgState by (simp add: pcg_step_def Let_def)
qed

lemma create_live: "create_registered_random_source P algorithm seed = Inr s \<Longrightarrow> live_state s"
  by (auto simp: create_registered_random_source_def seed_xoshiro_def seed_pcg_def Let_def bit_or_iff
      split: if_splits option.splits random_algorithm.splits)

lemma xorshift_live: "s \<noteq> 0 \<Longrightarrow> xorshift_next s \<noteq> 0"
  using xor_shift_left_zero [of s 13] xor_shift_right_zero [of "s XOR push_bit 13 s" 17]
    xor_shift_left_zero [of "(s XOR push_bit 13 s) XOR drop_bit 17 (s XOR push_bit 13 s)" 5]
  by (auto simp: xorshift_next_def Let_def)

section \<open>Properties\<close>

text \<open>
  C36. Bounded integers are in range and without modulo bias. For a bound between 1 and
  \<^verbatim>\<open>2^32\<close> a draw never throws; it returns exactly when the generator ever yields a value below
  the rejection limit, and then it gives the first such value modulo the bound; every result
  below the bound comes from the same number of accepted 32-bit values, and more than half of all
  32-bit values are accepted.
\<close>

theorem bounded_int_uniform:
  assumes "1 \<le> bound" "bound \<le> uint32_range"
  shows "(\<forall>r. bounded_int gen bound s = Some r \<longrightarrow> (\<exists>k. nth_value gen k s < rejection_limit bound \<and>
      (\<forall>j < k. rejection_limit bound \<le> nth_value gen j s) \<and>
      r = Inr (nth_value gen k s mod bound, nth_state gen (Suc k) s) \<and> nth_value gen k s mod bound < bound)) \<and>
    ((\<exists>r. bounded_int gen bound s = Some r) \<longleftrightarrow> (\<exists>k. nth_value gen k s < rejection_limit bound)) \<and>
    (\<forall>k < bound. card {v. v < rejection_limit bound \<and> v mod bound = k} = uint32_range div bound) \<and>
    rejection_limit bound \<le> uint32_range \<and> uint32_range < 2 * rejection_limit bound"
proof (intro conjI allI impI)
  have ok: "\<not> (bound < 1 \<or> uint32_range < bound)" using assms by simp
  fix r assume "bounded_int gen bound s = Some r"
  then obtain v s' where v: "draw_below gen (rejection_limit bound) s = Some (v, s')" "r = Inr (v mod bound, s')"
    using ok by (auto simp: bounded_int_def)
  from draw_below_Some [OF v(1)] v(2) assms(1)
  show "\<exists>k. nth_value gen k s < rejection_limit bound \<and> (\<forall>j < k. rejection_limit bound \<le> nth_value gen j s) \<and>
      r = Inr (nth_value gen k s mod bound, nth_state gen (Suc k) s) \<and> nth_value gen k s mod bound < bound" by auto
next
  have ok: "\<not> (bound < 1 \<or> uint32_range < bound)" using assms by simp
  show "(\<exists>r. bounded_int gen bound s = Some r) \<longleftrightarrow> (\<exists>k. nth_value gen k s < rejection_limit bound)"
    using ok draw_below_returns [of gen "rejection_limit bound" s] by (auto simp: bounded_int_def)
next
  fix k assume "k < bound"
  then show "card {v. v < rejection_limit bound \<and> v mod bound = k} = uint32_range div bound"
    using residues_below [of bound k "uint32_range div bound"] assms(1) by (simp add: rejection_limit_def)
next
  show "rejection_limit bound \<le> uint32_range" using rejection_limit_bounds(2) assms by simp
next
  have "bound \<le> rejection_limit bound"
    using rejection_limit_bounds(1) [of bound] assms unfolding rejection_limit_def
    by (metis One_nat_def Suc_leI mult.commute mult_is_0 nat_mult_le_cancel_disj nat_neq_iff not_less_zero mult.right_neutral)
  then show "uint32_range < 2 * rejection_limit bound" using rejection_limit_bounds(3) [of bound] assms by simp
qed

theorem bounded_int_uniform_witness:
  "card {v. v < rejection_limit 6 \<and> v mod 6 = 5} = uint32_range div (6::nat) \<and> rejection_limit 6 \<le> uint32_range"
  using bounded_int_uniform [of 6 "\<lambda>s. (s, s + 1)" 0] by simp

text \<open>
  C35. The shuffle is unbiased: for a list of distinct values every permutation of it is the
  result of exactly one sequence of choices that the loop accepts (each index below its bound),
  so uniform draws give every order the same probability; and with any of the sources the result
  is a permutation.
\<close>

theorem shuffle_bijective:
  assumes "distinct xs" "mset ys = mset xs"
  shows "(\<exists>!cs. shuffle play xs cs = Some (ys, [])) \<and>
    (\<forall>s zs s'. shuffle registered_draw xs s = Some (zs, s') \<longrightarrow> mset zs = mset xs) \<and>
    (\<forall>s zs s'. shuffle xorshift_draw xs s = Some (zs, s') \<longrightarrow> mset zs = mset xs)"
  using shuffle_loop_unique [OF assms(1) order_refl assms(2)] registered.shuffle_permutes xorshift.shuffle_permutes
  unfolding shuffle_def by auto

theorem shuffle_bijective_witness: "\<exists>!cs. shuffle play [1, 2, 3 :: nat] cs = Some ([3, 1, 2], [])"
  using shuffle_bijective [of "[1, 2, 3 :: nat]" "[3, 1, 2]"] by simp

text \<open>
  No generator can get stuck in a degenerate state: a registered source starts and stays
  live (xoshiro128** never reaches the all-zero state, the increment of PCG32 stays odd), and the
  xorshift state is never zero, for every seed and digest.
\<close>

theorem sources_stay_live:
  "(\<forall>s. create_registered_random_source P algorithm seed = Inr s \<longrightarrow> live_state (nth_state next_uint32 k s)) \<and>
   (xorshift_next ^^ k) (seed_xorshift P seed) \<noteq> 0"
proof -
  have "live_state s \<Longrightarrow> live_state (nth_state next_uint32 k s)" for s
    by (induction k arbitrary: s) (simp_all add: next_live)
  moreover have "(xorshift_next ^^ k) w \<noteq> 0" if "w \<noteq> 0" for w using that by (induction k) (simp_all add: xorshift_live)
  moreover have "seed_xorshift P seed \<noteq> 0" by (simp add: seed_xorshift_def Let_def)
  ultimately show ?thesis using create_live by blast
qed

definition constant_platform :: platform where
  "constant_platform = sample_platform\<lparr>sha256 := \<lambda>_. replicate 64 (CHR ''0'')\<rparr>"

theorem sources_stay_live_witness:
  "\<exists>s. create_registered_random_source constant_platform ''xoshiro128ss'' ''seed'' = Inr s \<and>
     live_state (nth_state next_uint32 100 s)"
proof -
  obtain s where s: "create_registered_random_source constant_platform ''xoshiro128ss'' ''seed'' = Inr s"
    by (simp add: create_registered_random_source_def blank_iff is_space_def algorithm_of_def)
  then show ?thesis using sources_stay_live [of constant_platform "''xoshiro128ss''" "''seed''" 100] by blast
qed

end
