(* ===== verification/Draw.thy ===== *)
theory Draw
  imports RandomSource
begin

text \<open>
  packages/competition-engine/src/draw.ts: the placement of entrants in a draw, seeded, random or
  optimised over candidate shuffles, with its violations and proof hash.

  \<^item> \<open>place_draw\<close> follows \<^verbatim>\<open>placeDraw\<close>; its result is \<open>None\<close> when a shuffle does not return.
  \<^item> Rule names are matched by substring (\<open>contains_text\<close>), as in the code.
\<close>

section \<open>Data\<close>

record entrant =
  en_id :: string
  en_division :: string
  en_members :: "string list"
  en_seed :: "rat option"
  en_pool :: "string option"

datatype rule_strength = Hard | Soft

record draw_rule =
  dr_rule :: string
  dr_strength :: rule_strength
  dr_priority :: rat
  dr_weight :: "rat option"

datatype placement_mode = Seeded | RandomPlacement | ManualPlacement | Optimised

record draw_policy =
  dp_id :: string
  dp_structure :: string
  dp_placement :: placement_mode
  dp_priorities :: "draw_rule list"

record randomisation_policy =
  rp_deterministic :: bool
  rp_algorithm :: "string option"
  rp_seed :: "string option"

record draw_violation =
  vi_rule :: string
  vi_entrants :: "string \<times> string"
  vi_strength :: rule_strength

record draw_candidate =
  ca_order :: "entrant list"
  ca_violations :: "draw_violation list"
  ca_score :: rat

record draw_placement =
  pl_structure :: string
  pl_order :: "string list"
  pl_positions :: "(string, int) omap"
  pl_violations :: "draw_violation list"
  pl_evaluated :: nat
  pl_randomisation_hash :: "string option"
  pl_proof_hash :: string

datatype draw_error = UnpinnedRandomness | DrawSource random_error | DrawHash json_error

section \<open>Operations\<close>

fun contains_text :: "string \<Rightarrow> string \<Rightarrow> bool" where
  "contains_text [] p = (p = [])"
| "contains_text (c # s) p = (starts_with (c # s) p \<or> contains_text s p)"

fun opening_pairs :: "'a list \<Rightarrow> ('a \<times> 'a) list" where
  "opening_pairs (x # y # xs) = (x, y) # opening_pairs xs"
| "opening_pairs _ = []"

definition max_safe_integer :: rat where
  "max_safe_integer = 9007199254740991"

definition seed_or_last :: "entrant \<Rightarrow> rat" where
  "seed_or_last e = (case en_seed e of None \<Rightarrow> max_safe_integer | Some s \<Rightarrow> s)"

definition seed_order :: "platform \<Rightarrow> entrant \<Rightarrow> entrant \<Rightarrow> int" where
  "seed_order P a b = or_else (num_cmp (seed_or_last a) (seed_or_last b)) (locale_compare P (en_id a) (en_id b))"

definition prior_key :: "string \<Rightarrow> string \<Rightarrow> string" where
  "prior_key a b = join ''|'' (sort [a, b])"

definition rule_violations :: "string list \<Rightarrow> entrant \<times> entrant \<Rightarrow> draw_rule \<Rightarrow> draw_violation list" where
  "rule_violations prior pair r =
     (let (left, right) = pair;
          v = \<lparr>vi_rule = dr_rule r, vi_entrants = (en_id left, en_id right), vi_strength = dr_strength r\<rparr>
      in (if contains_text (dr_rule r) ''rematch'' \<and> List.member prior (prior_key (en_id left) (en_id right)) then [v] else [])
       @ (if contains_text (dr_rule r) ''same_pool'' \<and> en_pool left \<noteq> None \<and> en_pool left \<noteq> Some [] \<and> en_pool left = en_pool right
          then [v] else []))"

definition violation_cost :: "draw_rule list \<Rightarrow> draw_violation \<Rightarrow> rat" where
  "violation_cost rules v =
     (if vi_strength v = Hard then 1000000
      else case find (\<lambda>r. dr_rule r = vi_rule v) rules of
        None \<Rightarrow> 1 | Some r \<Rightarrow> (case dr_weight r of None \<Rightarrow> 1 | Some w \<Rightarrow> w))"

definition evaluate :: "draw_policy \<Rightarrow> string list \<Rightarrow> entrant list \<Rightarrow> draw_candidate" where
  "evaluate pol prior order =
     (let vs = concat (map (\<lambda>pair. concat (map (rule_violations prior pair) (dp_priorities pol))) (opening_pairs order))
      in \<lparr>ca_order = order, ca_violations = vs, ca_score = sum_list (map (violation_cost (dp_priorities pol)) vs)\<rparr>)"

definition candidate_order :: "platform \<Rightarrow> draw_candidate \<Rightarrow> draw_candidate \<Rightarrow> int" where
  "candidate_order P a b = or_else (num_cmp (ca_score a) (ca_score b))
     (locale_compare P (join ''|'' (map en_id (ca_order a))) (join ''|'' (map en_id (ca_order b))))"

text \<open>The candidate shuffles of the optimised placement, one after the other from one source.\<close>

fun shuffles :: "nat \<Rightarrow> 'a list \<Rightarrow> random_state \<Rightarrow> ('a list list \<times> random_state) option" where
  "shuffles 0 xs s = Some ([], s)"
| "shuffles (Suc n) xs s =
     (case shuffle registered_draw xs s of
        None \<Rightarrow> None
      | Some (ys, s') \<Rightarrow> (case shuffles n xs s' of None \<Rightarrow> None | Some (yss, s'') \<Rightarrow> Some (ys # yss, s'')))"

definition violation_json :: "draw_violation \<Rightarrow> jsval" where
  "violation_json v = JObj [(''rule'', JStr (vi_rule v)),
     (''entrants'', JArr [JStr (fst (vi_entrants v)), JStr (snd (vi_entrants v))]),
     (''strength'', JStr (if vi_strength v = Hard then ''HARD'' else ''SOFT''))]"

definition seed_positions :: "entrant list \<Rightarrow> (string, int) omap" where
  "seed_positions order = fold (\<lambda>(i, e). omap_set (en_id e) (int i + 1)) (enumerate 0 order) []"

definition place_selected ::
    "platform \<Rightarrow> draw_policy \<Rightarrow> draw_candidate \<Rightarrow> nat \<Rightarrow> string option \<Rightarrow> (draw_error, draw_placement) result" where
  "place_selected P pol sel evaluated rhash =
     (let positions = seed_positions (ca_order sel);
          partial = JObj [(''structureId'', JStr (dp_structure pol)),
            (''orderedEntrantIds'', JArr (map (\<lambda>e. JStr (en_id e)) (ca_order sel))),
            (''seedPositions'', JObj (own_order (map (\<lambda>(k, i). (k, JNum (Num (of_int i)))) positions))),
            (''violations'', JArr (map violation_json (ca_violations sel))),
            (''candidatesEvaluated'', JNum (Num (of_nat evaluated))),
            (''randomisationProofHash'', case rhash of None \<Rightarrow> JNull | Some h \<Rightarrow> JStr h)]
      in case canonical_hash P partial of
        Inl e \<Rightarrow> Inl (DrawHash e)
      | Inr h \<Rightarrow> Inr \<lparr>pl_structure = dp_structure pol, pl_order = map en_id (ca_order sel), pl_positions = positions,
          pl_violations = ca_violations sel, pl_evaluated = evaluated, pl_randomisation_hash = rhash, pl_proof_hash = h\<rparr>)"

definition needs_random :: "draw_policy \<Rightarrow> bool" where
  "needs_random pol = (dp_placement pol = RandomPlacement \<or> dp_placement pol = Optimised)"

text \<open>The candidates: the seeded order, replaced by one shuffle or joined by several.\<close>

definition candidates_of ::
    "draw_policy \<Rightarrow> entrant list \<Rightarrow> random_state option \<Rightarrow> entrant list list option" where
  "candidates_of pol seeded source =
     (case source of
        None \<Rightarrow> Some [seeded]
      | Some s \<Rightarrow>
          if dp_placement pol = RandomPlacement
          then map_option (\<lambda>(ys, _). [ys]) (shuffle registered_draw seeded s)
          else if dp_placement pol = Optimised
          then map_option (\<lambda>(yss, _). seeded # yss) (shuffles (min 64 (max 8 (length seeded * 4))) seeded s)
          else Some [seeded])"

definition select_candidate :: "platform \<Rightarrow> draw_policy \<Rightarrow> string list \<Rightarrow> entrant list list \<Rightarrow> draw_candidate" where
  "select_candidate P pol prior cands = hd (sort_by (candidate_order P) (map (evaluate pol prior) cands))"

definition place_draw ::
    "platform \<Rightarrow> entrant list \<Rightarrow> draw_policy \<Rightarrow> string list \<Rightarrow> randomisation_policy \<Rightarrow>
     (draw_error, draw_placement) result option" where
  "place_draw P entrants pol prior rnd =
     (let seeded = sort_by (seed_order P) entrants;
          algorithm = rp_algorithm rnd; seed = rp_seed rnd in
      if needs_random pol \<and> (\<not> rp_deterministic rnd \<or> algorithm = None \<or> algorithm = Some []
          \<or> (case seed of None \<Rightarrow> True | Some x \<Rightarrow> blank x))
      then Some (Inl UnpinnedRandomness)
      else if \<not> needs_random pol
      then Some (place_selected P pol (select_candidate P pol prior [seeded]) 1 None)
      else case create_registered_random_source P (the algorithm) (the seed) of
        Inl e \<Rightarrow> Some (Inl (DrawSource e))
      | Inr s \<Rightarrow>
         (case candidates_of pol seeded (Some s) of
            None \<Rightarrow> None
          | Some cands \<Rightarrow> Some (case canonical_hash P (random_metadata P (the algorithm) (the seed)) of
              Inl e \<Rightarrow> Inl (DrawHash e)
            | Inr h \<Rightarrow> place_selected P pol (select_candidate P pol prior cands) (length cands) (Some h))))"

section \<open>Lemmas\<close>

lemma shuffles_mset:
  "shuffles n xs s = Some (yss, s') \<Longrightarrow> length yss = n \<and> (\<forall>ys \<in> set yss. mset ys = mset xs)"
proof (induction n arbitrary: s yss)
  case (Suc n)
  then obtain ys s1 zss where "shuffle registered_draw xs s = Some (ys, s1)" "shuffles n xs s1 = Some (zss, s')" "yss = ys # zss"
    by (auto split: option.splits)
  then show ?case using Suc.IH registered.shuffle_permutes by fastforce
qed simp

lemma candidates_of_mset:
  assumes "candidates_of pol seeded source = Some cands"
  shows "cands \<noteq> [] \<and> (\<forall>ys \<in> set cands. mset ys = mset seeded)
    \<and> (dp_placement pol \<noteq> RandomPlacement \<longrightarrow> seeded \<in> set cands)"
  using assms registered.shuffle_permutes shuffles_mset
  by (fastforce simp: candidates_of_def split: option.splits if_splits)

lemma candidate_order_comparator:
  assumes "comparator (locale_compare P)"
  shows "comparator (candidate_order P)"
proof -
  have "comparator (\<lambda>a b. locale_compare P (f a) (f b))" for f :: "draw_candidate \<Rightarrow> string"
    using assms unfolding comparator_def by blast
  from comparator_or_else [OF comparator_num_key this] show ?thesis by (simp add: candidate_order_def [abs_def])
qed

lemma select_candidate_in: "cands \<noteq> [] \<Longrightarrow> select_candidate P pol prior cands \<in> evaluate pol prior ` set cands"
  unfolding select_candidate_def
  by (metis length_0_conv length_map length_sort_by list.set_map list.set_sel(1) set_sort_by)

lemma select_candidate_best:
  fixes pol prior
  assumes "comparator (locale_compare P)" "c \<in> set cands"
  defines "sel \<equiv> select_candidate P pol prior cands"
  shows "ca_score sel \<le> ca_score (evaluate pol prior c)
    \<and> (ca_score sel = ca_score (evaluate pol prior c) \<longrightarrow>
        locale_compare P (join ''|'' (map en_id (ca_order sel))) (join ''|'' (map en_id (ca_order (evaluate pol prior c)))) \<le> 0)"
proof -
  have "candidate_order P sel (evaluate pol prior c) \<le> 0"
    unfolding select_candidate_def sel_def
    by (rule comparator.hd_sort_by_least [OF candidate_order_comparator [OF assms(1)]]) (use assms(2) in simp)
  then show ?thesis by (auto simp: candidate_order_def or_else_def num_cmp_def split: if_splits)
qed

lemma place_selectedD:
  "place_selected P pol sel n h = Inr pl \<Longrightarrow>
   pl_order pl = map en_id (ca_order sel) \<and> pl_violations pl = ca_violations sel \<and> pl_evaluated pl = n
   \<and> pl_positions pl = seed_positions (ca_order sel)"
  by (auto simp: place_selected_def Let_def split: sum.splits)

lemma place_selected_total: "\<exists>pl. place_selected P pol sel n h = Inr pl"
proof -
  have hash: "plain v \<Longrightarrow> \<exists>h. canonical_hash P v = Inr h" for v
    using normalise_plain [of v] by (auto simp: canonical_hash_def canonical_stringify_def)
  let ?partial = "JObj [(''structureId'', JStr (dp_structure pol)),
            (''orderedEntrantIds'', JArr (map (\<lambda>e. JStr (en_id e)) (ca_order sel))),
            (''seedPositions'', JObj (own_order (map (\<lambda>(k, i). (k, JNum (Num (of_int i)))) (seed_positions (ca_order sel))))),
            (''violations'', JArr (map violation_json (ca_violations sel))),
            (''candidatesEvaluated'', JNum (Num (of_nat n))),
            (''randomisationProofHash'', case h of None \<Rightarrow> JNull | Some h \<Rightarrow> JStr h)]"
  have "plain ?partial"
    by (auto simp: list_all_iff violation_json_def split: option.splits)
  then obtain k where "canonical_hash P ?partial = Inr k" using hash by blast
  then show ?thesis unfolding place_selected_def Let_def by simp
qed

text \<open>
  The orders that a draw has to evaluate: the shuffles come one after the other from the source that the policy pins.
\<close>

inductive shuffle_chain :: "'a list \<Rightarrow> random_state \<Rightarrow> 'a list list \<Rightarrow> random_state \<Rightarrow> bool" where
  none: "shuffle_chain xs s [] s"
| more: "shuffle registered_draw xs s = Some (ys, s1) \<Longrightarrow> shuffle_chain xs s1 yss s2 \<Longrightarrow> shuffle_chain xs s (ys # yss) s2"

definition pinned_source :: "platform \<Rightarrow> randomisation_policy \<Rightarrow> random_state \<Rightarrow> bool" where
  "pinned_source P rnd s \<longleftrightarrow> rp_deterministic rnd
     \<and> (\<exists>a x. rp_algorithm rnd = Some a \<and> rp_seed rnd = Some x \<and> create_registered_random_source P a x = Inr s)"

definition evaluated_orders :: "platform \<Rightarrow> entrant list \<Rightarrow> draw_policy \<Rightarrow> randomisation_policy \<Rightarrow> entrant list list \<Rightarrow> bool" where
  "evaluated_orders P entrants pol rnd cands \<longleftrightarrow> (let seeded = sort_by (seed_order P) entrants in case dp_placement pol of
     RandomPlacement \<Rightarrow> (\<exists>s ys s'. pinned_source P rnd s \<and> shuffle registered_draw seeded s = Some (ys, s') \<and> cands = [ys])
   | Optimised \<Rightarrow> (\<exists>s yss s'. pinned_source P rnd s \<and> shuffle_chain seeded s yss s' \<and> length yss = min 64 (max 8 (4 * length entrants))
       \<and> cands = seeded # yss)
   | _ \<Rightarrow> cands = [seeded])"

lemma shuffles_chain: "shuffles n xs s = Some (yss, s') \<Longrightarrow> shuffle_chain xs s yss s' \<and> length yss = n"
proof (induction n arbitrary: s yss)
  case (Suc n)
  then obtain ys s1 zss where "shuffle registered_draw xs s = Some (ys, s1)" "shuffles n xs s1 = Some (zss, s')" "yss = ys # zss"
    by (auto split: option.splits)
  then show ?case using Suc.IH shuffle_chain.more by fastforce
qed (simp add: shuffle_chain.none)

lemma candidates_evaluated:
  assumes "candidates_of pol (sort_by (seed_order P) entrants) (Some s) = Some cands" "pinned_source P rnd s" "needs_random pol"
  shows "evaluated_orders P entrants pol rnd cands"
proof (cases "dp_placement pol = RandomPlacement")
  case True
  then show ?thesis using assms(1,2) by (auto simp: evaluated_orders_def candidates_of_def split: option.splits)
next
  case False
  then have mode: "dp_placement pol = Optimised" using assms(3) by (simp add: needs_random_def)
  then obtain yss s' where "shuffles (min 64 (max 8 (length entrants * 4))) (sort_by (seed_order P) entrants) s = Some (yss, s')"
      "cands = sort_by (seed_order P) entrants # yss"
    using assms(1) by (auto simp: candidates_of_def split: option.splits)
  with shuffles_chain [OF this(1)] show ?thesis
    using assms(2) mode by (auto simp: evaluated_orders_def mult.commute)
qed

lemma place_draw_cases:
  assumes "place_draw P entrants pol prior rnd = Some (Inr pl)"
  obtains cands sel where "cands \<noteq> []" "\<forall>ys \<in> set cands. mset ys = mset entrants" "evaluated_orders P entrants pol rnd cands"
    "sel = select_candidate P pol prior cands" "pl_order pl = map en_id (ca_order sel)" "pl_violations pl = ca_violations sel"
    "pl_evaluated pl = length cands" "pl_positions pl = seed_positions (ca_order sel)"
proof (cases "needs_random pol")
  case False
  have "place_selected P pol (select_candidate P pol prior [sort_by (seed_order P) entrants]) 1 None = Inr pl"
    using assms False by (simp add: place_draw_def Let_def)
  moreover have "evaluated_orders P entrants pol rnd [sort_by (seed_order P) entrants]"
    using False by (cases "dp_placement pol") (simp_all add: evaluated_orders_def needs_random_def)
  ultimately show ?thesis using place_selectedD by (intro that [of "[sort_by (seed_order P) entrants]"]) fastforce+
next
  case True
  then obtain s cands h where c: "candidates_of pol (sort_by (seed_order P) entrants) (Some s) = Some cands"
      "place_selected P pol (select_candidate P pol prior cands) (length cands) (Some h) = Inr pl" "pinned_source P rnd s"
    using assms by (auto simp: place_draw_def pinned_source_def Let_def split: if_splits sum.splits option.splits)
  from candidates_of_mset [OF c(1)] candidates_evaluated [OF c(1,3) True] place_selectedD [OF c(2)]
  show ?thesis by (intro that [of cands]) auto
qed

lemma seed_positions_snoc:
  "seed_positions (xs @ [x]) = omap_set (en_id x) (int (length xs) + 1) (seed_positions xs)"
  by (simp add: seed_positions_def enumerate_append_eq)

lemma seed_positions_get:
  assumes "distinct (map en_id order)" "i < length order"
  shows "omap_get (seed_positions order) (en_id (order ! i)) = Some (int i + 1)"
  using assms
proof (induction order rule: rev_induct)
  case (snoc x xs)
  show ?case
  proof (cases "i = length xs")
    case False
    then have i: "i < length xs" using snoc.prems(2) by simp
    have "en_id (xs ! i) \<in> en_id ` set xs" using i by simp
    then have "en_id (xs ! i) \<noteq> en_id x" using snoc.prems(1) by auto
    then show ?thesis using snoc.IH snoc.prems(1) i by (simp add: seed_positions_snoc nth_append)
  qed (simp add: seed_positions_snoc)
qed simp

section \<open>Properties\<close>

text \<open>
  C37. A draw places every entrant exactly once and takes the best of the orders it has to evaluate. Whenever
  a placement is returned, these orders are: for random placement the one shuffle of the seeded order that the pinned source
  gives, for optimised placement the seeded order and between 8 and 64 successive shuffles of it (four per entrant), otherwise
  the seeded order, by seed and identifier. The placement is one of them, a permutation of the entrants;
  with distinct identifiers each entrant's seed position is its place in it; the reported violations are those of
  that order; and none of the evaluated orders has a lower score, or the same and comes first by identifiers.
\<close>

theorem place_draw_optimal:
  assumes "place_draw P entrants pol prior rnd = Some (Inr pl)" "comparator (locale_compare P)"
  shows "\<exists>cands order. evaluated_orders P entrants pol rnd cands \<and> order \<in> set cands \<and> pl_evaluated pl = length cands \<and>
    mset order = mset entrants \<and> pl_order pl = map en_id order \<and>
    pl_violations pl = ca_violations (evaluate pol prior order) \<and>
    (distinct (map en_id entrants) \<longrightarrow> (\<forall>i < length order. omap_get (pl_positions pl) (en_id (order ! i)) = Some (int i + 1))) \<and>
    (\<forall>other \<in> set cands. ca_score (evaluate pol prior order) \<le> ca_score (evaluate pol prior other) \<and>
       (ca_score (evaluate pol prior order) = ca_score (evaluate pol prior other) \<longrightarrow>
          locale_compare P (join ''|'' (map en_id order)) (join ''|'' (map en_id other)) \<le> 0))"
proof (rule place_draw_cases [OF assms(1)])
  fix cands sel
  assume c: "cands \<noteq> []" "\<forall>ys \<in> set cands. mset ys = mset entrants" "evaluated_orders P entrants pol rnd cands"
    "sel = select_candidate P pol prior cands" "pl_order pl = map en_id (ca_order sel)" "pl_violations pl = ca_violations sel"
    "pl_evaluated pl = length cands" "pl_positions pl = seed_positions (ca_order sel)"
  obtain order where order: "order \<in> set cands" "sel = evaluate pol prior order"
    using select_candidate_in [OF c(1)] c(4) by blast
  have sel: "ca_order sel = order" by (simp add: order(2) evaluate_def Let_def)
  have "mset order = mset entrants" using c(2) order(1) by blast
  then have "distinct (map en_id entrants) \<Longrightarrow> distinct (map en_id order)"
    by (metis mset_map mset_eq_imp_distinct_iff)
  moreover have "\<forall>other \<in> set cands. ca_score (evaluate pol prior order) \<le> ca_score (evaluate pol prior other) \<and>
       (ca_score (evaluate pol prior order) = ca_score (evaluate pol prior other) \<longrightarrow>
          locale_compare P (join ''|'' (map en_id order)) (join ''|'' (map en_id other)) \<le> 0)"
    using select_candidate_best [OF assms(2), of _ cands pol prior] unfolding c(4) [symmetric] order(2)
    by (simp add: evaluate_def Let_def)
  ultimately show ?thesis using c sel order seed_positions_get \<open>mset order = mset entrants\<close>
    by (intro exI [of _ cands] exI [of _ order]) simp
qed

definition sample_entrants :: "entrant list" where
  "sample_entrants = [\<lparr>en_id = ''a'', en_division = ''d'', en_members = [], en_seed = Some 2, en_pool = None\<rparr>,
     \<lparr>en_id = ''b'', en_division = ''d'', en_members = [], en_seed = Some 1, en_pool = None\<rparr>]"

definition sample_draw_policy :: draw_policy where
  "sample_draw_policy = \<lparr>dp_id = ''p'', dp_structure = ''s'', dp_placement = Seeded, dp_priorities = []\<rparr>"

definition sample_randomisation :: randomisation_policy where
  "sample_randomisation = \<lparr>rp_deterministic = False, rp_algorithm = None, rp_seed = None\<rparr>"

lemma sample_place_draw:
  "\<exists>pl. place_draw sample_platform sample_entrants sample_draw_policy [] sample_randomisation = Some (Inr pl) \<and>
     pl_order pl = [''b'', ''a'']"
proof -
  have sorted: "map en_id (sort_by (seed_order sample_platform) sample_entrants) = [''b'', ''a'']"
    by (simp add: sample_entrants_def seed_order_def seed_or_last_def or_else_def)
  let ?sel = "select_candidate sample_platform sample_draw_policy [] [sort_by (seed_order sample_platform) sample_entrants]"
  obtain pl where pl: "place_selected sample_platform sample_draw_policy ?sel 1 None = Inr pl"
    using place_selected_total by blast
  have "ca_order ?sel = sort_by (seed_order sample_platform) sample_entrants"
    by (simp add: select_candidate_def evaluate_def Let_def)
  then have "pl_order pl = [''b'', ''a'']" using place_selectedD [OF pl] sorted by simp
  moreover have "place_draw sample_platform sample_entrants sample_draw_policy [] sample_randomisation = Some (Inr pl)"
    using pl by (simp add: place_draw_def needs_random_def sample_draw_policy_def Let_def)
  ultimately show ?thesis by blast
qed

theorem place_draw_optimal_witness:
  "\<exists>pl order. place_draw sample_platform sample_entrants sample_draw_policy [] sample_randomisation = Some (Inr pl) \<and>
     pl_evaluated pl = 1 \<and> mset order = mset sample_entrants \<and> map en_id order = [''b'', ''a'']"
proof -
  obtain pl where pl: "place_draw sample_platform sample_entrants sample_draw_policy [] sample_randomisation = Some (Inr pl)"
      "pl_order pl = [''b'', ''a'']" using sample_place_draw by blast
  from place_draw_optimal [OF pl(1) strict_comparator.axioms(1) [OF sample_collation]] pl
  show ?thesis by (fastforce simp: evaluated_orders_def sample_draw_policy_def)
qed

end
