(* ===== verification/CircleMethod.thy ===== *)
theory CircleMethod
  imports Prelude
begin

text \<open>
  The rotation of \<^verbatim>\<open>roundRobin\<close> (packages/competition-engine/src/static-formats.ts) on any list: the
  first element stays, the others move on by one place, and in each round place \<open>p\<close> meets
  place \<open>p\<close> from the end.

  \<^item> \<open>circle_pairs_once\<close>: over a full turn every two elements meet exactly once.
  \<^item> \<open>round_pairs_mset\<close>: in each round every element has exactly one opponent.
  \<^item> \<open>full_turn\<close>: after a full turn the list is as it was.
\<close>

definition rotate_tail :: "'a list \<Rightarrow> 'a list" where
  "rotate_tail xs = hd xs # last (tl xs) # butlast (tl xs)"

definition round_pairs :: "'a list \<Rightarrow> ('a \<times> 'a) list" where
  "round_pairs xs = map (\<lambda>p. (xs ! p, xs ! (length xs - 1 - p))) [0..<length xs div 2]"

fun circle :: "nat \<Rightarrow> 'a list \<Rightarrow> ('a \<times> 'a) list list" where
  "circle 0 xs = []"
| "circle (Suc k) xs = round_pairs xs # circle k (rotate_tail xs)"

section \<open>Where an element is after some rounds\<close>

definition shift_right :: "'a list \<Rightarrow> 'a list" where
  "shift_right t = last t # butlast t"

lemma length_shift_right [simp]: "t \<noteq> [] \<Longrightarrow> length (shift_right t) = length t"
  by (simp add: shift_right_def)

lemma shift_right_nth:
  assumes "j < length t"
  shows "shift_right t ! (Suc j mod length t) = t ! j"
proof (cases "Suc j = length t")
  case True
  then have "t \<noteq> []" "j = length t - 1" by auto
  then show ?thesis using True by (simp add: shift_right_def last_conv_nth)
next
  case False
  then have "Suc j < length t" using assms by simp
  then show ?thesis by (simp add: shift_right_def nth_butlast)
qed

lemma funpow_shift_length: "t \<noteq> [] \<Longrightarrow> length ((shift_right ^^ r) t) = length t"
proof (induction r)
  case (Suc r)
  then have "(shift_right ^^ r) t \<noteq> []" by auto
  then show ?case using Suc by simp
qed simp

lemma funpow_shift_nth:
  assumes "j < length t"
  shows "(shift_right ^^ r) t ! ((j + r) mod length t) = t ! j"
proof (induction r)
  case 0
  then show ?case using assms by simp
next
  case (Suc r)
  have t: "t \<noteq> []" using assms by auto
  note len = funpow_shift_length [OF t, of r]
  have "(j + r) mod length t < length ((shift_right ^^ r) t)" using len t by simp
  from shift_right_nth [OF this] have
    "shift_right ((shift_right ^^ r) t) ! (Suc ((j + r) mod length t) mod length t) = t ! j"
    using Suc len by simp
  then show ?case by (simp add: mod_Suc_eq)
qed

lemma mset_shift_right: "t \<noteq> [] \<Longrightarrow> mset (shift_right t) = mset t"
  by (metis append_butlast_last_id mset.simps(2) mset_append shift_right_def union_mset_add_mset_right mset_single_iff_right
      add_mset_add_single)

lemma rotate_tail_shift: "rotate_tail (a # t) = a # shift_right t"
  by (simp add: rotate_tail_def shift_right_def)

lemma funpow_rotate_tail: "(rotate_tail ^^ r) (a # t) = a # (shift_right ^^ r) t"
  by (induction r) (simp_all add: rotate_tail_shift)

lemma full_turn:
  assumes "2 \<le> length xs"
  shows "(rotate_tail ^^ (length xs - 1)) xs = xs"
proof -
  obtain a t where xs: "xs = a # t" "t \<noteq> []" using assms by (cases xs; cases "tl xs") auto
  have "(shift_right ^^ length t) t = t"
  proof (rule nth_equalityI)
    show "length ((shift_right ^^ length t) t) = length t" by (rule funpow_shift_length [OF xs(2)])
    fix j assume "j < length ((shift_right ^^ length t) t)"
    then have "j < length t" by (simp add: funpow_shift_length [OF xs(2)])
    from funpow_shift_nth [OF this, of "length t"] show "(shift_right ^^ length t) t ! j = t ! j"
      using \<open>j < length t\<close> by simp
  qed
  then show ?thesis by (simp add: xs funpow_rotate_tail)
qed

lemma circle_nth: "r < k \<Longrightarrow> circle k xs ! r = round_pairs ((rotate_tail ^^ r) xs)"
proof (induction k xs arbitrary: r rule: circle.induct)
  case (2 k xs)
  then show ?case by (cases r) (simp_all add: funpow_swap1)
qed simp

lemma length_circle [simp]: "length (circle k xs) = k"
  by (induction k xs rule: circle.induct) auto

section \<open>Every two elements meet\<close>

lemma meeting_round:
  fixes i j L :: nat
  assumes "odd L" "i < L" "j < L" "i \<noteq> j"
  shows "\<exists>r < L. (i + r) mod L + (j + r) mod L = L - 2"
proof -
  obtain h where h: "L = 2 * h + 1" using assms(1) by (metis oddE)
  have L: "3 \<le> L" using assms h by (cases h) auto
  let ?c = "3 * L - 2 - i - j"
  have c: "i + j + ?c = 3 * L - 2" using assms(2,3) L by simp
  let ?r = "(h + 1) * ?c mod L"
  have "(i + j + 2 * ?r) mod L = (i + j + 2 * ((h + 1) * ?c)) mod L"
    by (metis mod_add_right_eq mod_mult_right_eq)
  also have "2 * ((h + 1) * ?c) = ?c + L * ?c"
  proof -
    have "2 * ((h + 1) * c) = c + L * c" for c using h by (simp add: algebra_simps)
    then show ?thesis .
  qed
  also have "i + j + (?c + L * ?c) = 3 * L - 2 + L * ?c" using c by simp
  also have "\<dots> mod L = (3 * L - 2) mod L" by simp
  also have "\<dots> = L - 2"
  proof -
    have "3 * L - 2 = L - 2 + 2 * L" using L by simp
    then have "(3 * L - 2) mod L = (L - 2) mod L" by (simp only: mod_mult_self1)
    then show ?thesis using L by simp
  qed
  finally have total: "(i + j + 2 * ?r) mod L = L - 2" .
  obtain r where r: "r = ?r" by blast
  have total: "(i + j + 2 * r) mod L = L - 2" using total unfolding r .
  let ?u = "(i + r) mod L" and ?v = "(j + r) mod L"
  have lt: "?u < L" "?v < L" using L by simp_all
  have "(?u + ?v) mod L = (i + r + (j + r)) mod L" by (rule mod_add_eq)
  also have "i + r + (j + r) = i + j + 2 * r" by simp
  finally have sum: "(?u + ?v) mod L = L - 2" using total by simp
  have "?u \<noteq> ?v"
  proof
    assume "?u = ?v"
    then have "i mod L = j mod L"
      by (auto simp: nat_mod_eq_iff)
    then show False using assms(2-4) by simp
  qed
  then have "?u + ?v < 2 * L - 2" using lt by linarith
  then have "?u + ?v = L - 2"
    using sum L by (cases "?u + ?v < L") (auto simp: mod_if [of "?u + ?v"] split: if_splits)
  moreover have "r < L" using L unfolding r by simp
  ultimately show ?thesis by blast
qed

lemma round_pairs_in:
  assumes "p < length xs div 2"
  shows "(xs ! p, xs ! (length xs - 1 - p)) \<in> set (round_pairs xs)"
  using assms by (auto simp: round_pairs_def)

lemma circle_meets:
  assumes "even (length xs)" "x \<in> set xs" "y \<in> set xs" "x \<noteq> y"
  shows "\<exists>ps \<in> set (circle (length xs - 1) xs). (x, y) \<in> set ps \<or> (y, x) \<in> set ps"
proof -
  obtain a t where xs: "xs = a # t" using assms(2) by (cases xs) auto
  define L where "L = length t"
  have odd: "odd L" using assms(1) by (simp add: xs L_def)
  then have t: "t \<noteq> []" "0 < L" by (auto simp: L_def)
  have half: "length xs div 2 = (L + 1) div 2" "length xs = L + 1" by (simp_all add: xs L_def)
  have round: "round_pairs (a # (shift_right ^^ r) t) \<in> set (circle (length xs - 1) xs)" if "r < L" for r
  proof -
    have "circle (length xs - 1) xs ! r = round_pairs (a # (shift_right ^^ r) t)"
      using circle_nth [of r L xs] that by (simp add: xs L_def funpow_rotate_tail)
    moreover have "r < length (circle (length xs - 1) xs)" using that by (simp add: xs L_def)
    ultimately show ?thesis by (metis nth_mem)
  qed
  have len: "length (a # (shift_right ^^ r) t) = L + 1" for r
    using funpow_shift_length [OF t(1), of r] by (simp add: L_def)
  have head: "\<exists>ps \<in> set (circle (length xs - 1) xs). (a, t ! j) \<in> set ps" if j: "j < L" for j
  proof -
    let ?r = "L - 1 - j"
    have "(j + ?r) mod L = L - 1" using j by simp
    then have "(shift_right ^^ ?r) t ! (L - 1) = t ! j"
      using funpow_shift_nth [of j t ?r] j by (simp add: L_def)
    moreover have "(shift_right ^^ ?r) t \<noteq> []" using len [of ?r] t(2) by auto
    ultimately have "(a, t ! j) \<in> set (round_pairs (a # (shift_right ^^ ?r) t))"
      using round_pairs_in [of 0 "a # (shift_right ^^ ?r) t"] len [of ?r] t(2) odd by (auto simp: nth_Cons')
    then show ?thesis using round [of ?r] j by (metis diff_less_mono2 diff_less less_imp_diff_less t(2) zero_less_one)
  qed
  have tail: "\<exists>ps \<in> set (circle (length xs - 1) xs). (t ! i, t ! j) \<in> set ps \<or> (t ! j, t ! i) \<in> set ps"
    if ij: "i < L" "j < L" "i \<noteq> j" for i j
  proof -
    obtain r where r: "r < L" "(i + r) mod L + (j + r) mod L = L - 2" using meeting_round [OF odd ij] by blast
    let ?s = "(shift_right ^^ r) t"
    have pos: "?s ! ((i + r) mod L) = t ! i" "?s ! ((j + r) mod L) = t ! j"
      using funpow_shift_nth ij by (simp_all add: L_def)
    have meet: "(?s ! u, ?s ! v) \<in> set (round_pairs (a # ?s))" if "u < v" "u + v = L - 2" for u v
    proof -
      have "Suc u < length (a # ?s) div 2" using that odd len [of r] by (auto elim!: oddE)
      moreover have "length (a # ?s) - 1 - Suc u = Suc v" using that len [of r] by simp
      ultimately show ?thesis using round_pairs_in [of "Suc u" "a # ?s"] by simp
    qed
    have "(i + r) mod L \<noteq> (j + r) mod L"
    proof
      assume "(i + r) mod L = (j + r) mod L"
      then have "L - 2 = 2 * ((j + r) mod L)" using r(2) by simp
      then obtain w where "L - 2 = 2 * w" by blast
      moreover have "2 \<le> L" using ij by linarith
      ultimately have "L = 2 * (w + 1)" by arith
      then show False using odd by (metis dvd_triv_left)
    qed
    then have "(t ! i, t ! j) \<in> set (round_pairs (a # ?s)) \<or> (t ! j, t ! i) \<in> set (round_pairs (a # ?s))"
      using meet [of "(i + r) mod L" "(j + r) mod L"] meet [of "(j + r) mod L" "(i + r) mod L"] r(2) pos
      by (metis add.commute linorder_neqE_nat)
    then show ?thesis using round [OF r(1)] by blast
  qed
  have "x = a \<or> (\<exists>i < L. x = t ! i)" "y = a \<or> (\<exists>j < L. y = t ! j)"
    using assms(2,3) by (auto simp: xs L_def in_set_conv_nth)
  then show ?thesis using head tail assms(4) by (elim disjE exE conjE) (auto, metis+)
qed

section \<open>Everybody plays once in a round\<close>

definition players :: "('a \<times> 'a) list \<Rightarrow> 'a list" where
  "players ps = concat (map (\<lambda>(x, y). [x, y]) ps)"

lemma players_zip: "length xs = length ys \<Longrightarrow> mset (players (zip xs ys)) = mset xs + mset ys"
  by (induction xs ys rule: list_induct2) (simp_all add: players_def)

lemma round_pairs_zip:
  assumes "even (length xs)"
  shows "round_pairs xs = zip (take (length xs div 2) xs) (rev (drop (length xs div 2) xs))"
proof (rule nth_equalityI)
  show "length (round_pairs xs) = length (zip (take (length xs div 2) xs) (rev (drop (length xs div 2) xs)))"
    using assms by (auto simp: round_pairs_def elim!: evenE)
  fix p assume "p < length (round_pairs xs)"
  then have p: "p < length xs div 2" by (simp add: round_pairs_def)
  moreover have "rev (drop (length xs div 2) xs) ! p = xs ! (length xs - 1 - p)"
    using p assms by (auto simp: rev_nth elim!: evenE)
  ultimately show "round_pairs xs ! p = zip (take (length xs div 2) xs) (rev (drop (length xs div 2) xs)) ! p"
    using assms by (auto simp: round_pairs_def elim!: evenE)
qed

lemma round_pairs_mset:
  assumes "even (length xs)"
  shows "mset (players (round_pairs xs)) = mset xs"
proof -
  let ?h = "length xs div 2"
  have "mset (players (round_pairs xs)) = mset (take ?h xs) + mset (rev (drop ?h xs))"
    unfolding round_pairs_zip [OF assms] using assms by (intro players_zip) (auto elim!: evenE)
  also have "\<dots> = mset xs" by (metis append_take_drop_id mset_append mset_rev)
  finally show ?thesis .
qed

lemma mset_rotate_tail: "2 \<le> length xs \<Longrightarrow> mset (rotate_tail xs) = mset xs"
  by (cases xs; cases "tl xs") (auto simp: rotate_tail_shift mset_shift_right)

lemma length_rotate_tail: "2 \<le> length xs \<Longrightarrow> length (rotate_tail xs) = length xs"
  by (metis mset_eq_length mset_rotate_tail)

lemma circle_players:
  assumes "2 \<le> length xs" "even (length xs)" "ps \<in> set (circle k xs)"
  shows "mset (players ps) = mset xs"
  using assms
proof (induction k xs rule: circle.induct)
  case (2 k xs)
  show ?case
  proof (cases "ps = round_pairs xs")
    case True
    then show ?thesis using round_pairs_mset "2.prems"(2) by blast
  next
    case False
    then have "ps \<in> set (circle k (rotate_tail xs))" using "2.prems"(3) by simp
    then have "mset (players ps) = mset (rotate_tail xs)"
      by (rule "2.IH" [rotated 2]) (simp_all add: length_rotate_tail "2.prems")
    then show ?thesis by (simp add: mset_rotate_tail "2.prems")
  qed
qed simp

section \<open>Every two elements meet once\<close>

lemma length_concat_circle:
  "2 \<le> length xs \<Longrightarrow> length (concat (circle k xs)) = k * (length xs div 2)"
  by (induction k xs rule: circle.induct) (simp_all add: round_pairs_def length_rotate_tail)

theorem circle_pairs_once:
  assumes "even (length xs)" "2 \<le> length xs" "distinct xs"
  shows "distinct (map (\<lambda>(x, y). {x, y}) (concat (circle (length xs - 1) xs)))"
    and "set (map (\<lambda>(x, y). {x, y}) (concat (circle (length xs - 1) xs))) = {B. B \<subseteq> set xs \<and> card B = 2}"
proof -
  let ?ps = "concat (circle (length xs - 1) xs)" and ?e = "\<lambda>(x, y). {x, y}"
  have sub: "{x, y} \<subseteq> set xs \<and> x \<noteq> y" if xy: "(x, y) \<in> set ?ps" for x y
  proof -
    obtain ps where ps: "ps \<in> set (circle (length xs - 1) xs)" "(x, y) \<in> set ps" using xy by auto
    have "mset (players ps) = mset xs" by (rule circle_players [OF assms(2,1) ps(1)])
    then have "distinct (players ps)" "set (players ps) = set xs"
      using assms(3) mset_eq_imp_distinct_iff mset_eq_setD by blast+
    moreover obtain as bs where "ps = as @ (x, y) # bs" using ps(2) by (meson split_list)
    ultimately show ?thesis by (auto simp: players_def)
  qed
  have two: "card B = 2 \<longleftrightarrow> (\<exists>x y. B = {x, y} \<and> x \<noteq> y)" for B :: "'a set" by (auto simp: card_2_iff)
  have set: "set (map ?e ?ps) = {B. B \<subseteq> set xs \<and> card B = 2}"
  proof (intro set_eqI iffI)
    fix B assume "B \<in> set (map ?e ?ps)"
    then obtain x y where "(x, y) \<in> set ?ps" "B = {x, y}" by auto
    with sub [OF this(1)] show "B \<in> {B. B \<subseteq> set xs \<and> card B = 2}" by auto
  next
    fix B assume "B \<in> {B. B \<subseteq> set xs \<and> card B = 2}"
    then obtain x y where B: "B = {x, y}" "x \<noteq> y" "x \<in> set xs" "y \<in> set xs" by (auto simp: two)
    from circle_meets [OF assms(1) B(3,4,2)] obtain ps where
      "ps \<in> set (circle (length xs - 1) xs)" "(x, y) \<in> set ps \<or> (y, x) \<in> set ps" by blast
    then have "(x, y) \<in> set ?ps \<or> (y, x) \<in> set ?ps" by auto
    then have "?e (x, y) \<in> ?e ` set ?ps \<or> ?e (y, x) \<in> ?e ` set ?ps" by (meson imageI)
    then show "B \<in> set (map ?e ?ps)" using B(1) by (simp add: insert_commute)
  qed
  then show "set (map ?e ?ps) = {B. B \<subseteq> set xs \<and> card B = 2}" .
  have "card (set (map ?e ?ps)) = length xs choose 2"
    unfolding set using n_subsets [of "set xs" 2] assms(3) by (simp add: distinct_card)
  also have "\<dots> = length (map ?e ?ps)"
    using assms(1,2) by (auto simp: length_concat_circle choose_two elim!: evenE)
  finally show "distinct (map ?e ?ps)" by (rule card_distinct)
qed

end
