(* ===== verification/StaticFormats.thy ===== *)
theory StaticFormats
  imports CircleMethod JsonValue
begin

unbundle bit_operations_syntax

text \<open>
  packages/competition-engine/src/static-formats.ts: the compiler of static competition formats
  into contests whose inputs are entrants or outcomes of other contests.

  \<^item> \<open>round_robin\<close>, \<open>double_elimination\<close> and \<open>repechage_classification\<close> build the contests in the
    order of the code, threading its \<^verbatim>\<open>sequence\<close> counter; \<open>finalize\<close> derives the edges and checks
    the structural proof, with \<open>kahn\<close> as the loop of \<^verbatim>\<open>isAcyclic\<close>.
  \<^item> Requests are what a caller may pass at run time: the reset-final policy is any text or absent, and a format may be
    none of the four (\<open>OtherFormat\<close>); the code answers those with SFC211 and SFC003.
  \<^item> The entrant count is a JavaScript number until it is validated, a natural number after.
  \<^item> The theorems about the formats are in \<open>FormatProofs\<close>.
\<close>

section \<open>Data\<close>

datatype contest_outcome = WinnerOf | LoserOf

datatype contest_slot = EntrantSlot nat | OutcomeSlot string contest_outcome

datatype bracket = RoundRobinBracket | WinnersBracket | LosersBracket | FinalsBracket | RepechageBracket | ClassificationBracket

record static_contest =
  sc_id :: string
  sc_bracket :: bracket
  sc_round :: nat
  sc_sequence :: nat
  sc_required :: bool
  sc_label :: string
  sc_inputs :: "contest_slot \<times> contest_slot"
  sc_condition :: "(string \<times> nat) option"

record static_edge =
  se_from :: string
  se_outcome :: contest_outcome
  se_to :: string
  se_input :: nat

datatype champion_resolution =
    StandingsChampion "string list"
  | ContestWinner string
  | ResetAware string string

datatype reset_final_policy = NeverReset | ResetIfNecessary

datatype static_format_request =
    SingleRoundRobin string jsnum
  | DoubleRoundRobin string jsnum
  | DoubleElimination string jsnum "string option"
  | RepechageRequest string jsnum
  | OtherFormat string string jsnum

record static_format_proof =
  sp_valid :: bool
  sp_entrants :: nat
  sp_expected :: nat
  sp_required :: nat
  sp_conditional :: nat
  sp_reachable :: bool
  sp_resolved :: bool
  sp_acyclic :: bool
  sp_hash :: string

record compiled_static_format =
  cf_id :: string
  cf_format :: string
  cf_contests :: "static_contest list"
  cf_edges :: "static_edge list"
  cf_champion :: champion_resolution
  cf_findings :: "(string \<times> string) list"
  cf_proof :: static_format_proof

text \<open>The code of \<^verbatim>\<open>StaticFormatCompileError\<close>.\<close>

datatype static_format_error = SFC001 | SFC002 | SFC003 | SFC210 | SFC211 | SFC310 | SFC900

section \<open>Round robin\<close>

definition match_id :: "string \<Rightarrow> string \<Rightarrow> nat \<Rightarrow> nat \<Rightarrow> string" where
  "match_id fid tag rnd i = fid @ ''.'' @ tag @ ''.R'' @ digits_of rnd @ ''.M'' @ digits_of i"

text \<open>The rotation holds seeds and, for an odd number of entrants, a bye (\<open>None\<close>).\<close>

definition initial_rotation :: "nat \<Rightarrow> nat option list" where
  "initial_rotation n = map Some [1..<n + 1] @ (if odd n then [None] else [])"

text \<open>The inner loop over \<^verbatim>\<open>pair\<close>, from the given pair number on.\<close>

fun rr_contests :: "string \<Rightarrow> nat \<Rightarrow> bool \<Rightarrow> nat \<Rightarrow> nat \<Rightarrow> (nat option \<times> nat option) list \<Rightarrow> static_contest list" where
  "rr_contests fid rnd reversed seq i [] = []"
| "rr_contests fid rnd reversed seq i ((Some left, Some right) # ps) =
     \<lparr>sc_id = match_id fid ''RR'' rnd i, sc_bracket = RoundRobinBracket, sc_round = rnd, sc_sequence = seq,
      sc_required = True, sc_label = ''Round '' @ digits_of rnd,
      sc_inputs = (if reversed then (EntrantSlot right, EntrantSlot left) else (EntrantSlot left, EntrantSlot right)),
      sc_condition = None\<rparr> # rr_contests fid rnd reversed (seq + 1) (i + 1) ps"
| "rr_contests fid rnd reversed seq i (_ # ps) = rr_contests fid rnd reversed seq (i + 1) ps"

text \<open>The rounds of one leg: \<open>k\<close> rounds are left, \<open>rnd\<close> is the index of the next one.\<close>

fun rr_rounds ::
    "string \<Rightarrow> nat \<Rightarrow> nat \<Rightarrow> nat \<Rightarrow> nat \<Rightarrow> nat \<Rightarrow> nat option list \<Rightarrow> static_contest list \<times> nat \<times> nat option list" where
  "rr_rounds fid leg per_leg 0 rnd seq rotation = ([], seq, rotation)"
| "rr_rounds fid leg per_leg (Suc k) rnd seq rotation =
     (let cs = rr_contests fid (leg * per_leg + rnd + 1) ((rnd + leg) mod 2 = 1) seq 1 (round_pairs rotation);
          (rest, seq', rotation') = rr_rounds fid leg per_leg k (rnd + 1) (seq + length cs) (rotate_tail rotation)
      in (cs @ rest, seq', rotation'))"

fun rr_legs :: "string \<Rightarrow> nat \<Rightarrow> nat \<Rightarrow> nat \<Rightarrow> nat \<Rightarrow> nat option list \<Rightarrow> static_contest list" where
  "rr_legs fid per_leg 0 leg seq rotation = []"
| "rr_legs fid per_leg (Suc k) leg seq rotation =
     (let (cs, seq', rotation') = rr_rounds fid leg per_leg per_leg 0 seq rotation
      in cs @ rr_legs fid per_leg k (leg + 1) seq' rotation')"

definition round_robin :: "string \<Rightarrow> nat \<Rightarrow> nat \<Rightarrow> static_contest list" where
  "round_robin fid n legs =
     (let rotation = initial_rotation n in rr_legs fid (length rotation - 1) legs 0 1 rotation)"

section \<open>Elimination brackets\<close>

abbreviation winner_slot :: "static_contest \<Rightarrow> contest_slot" where
  "winner_slot c \<equiv> OutcomeSlot (sc_id c) WinnerOf"

abbreviation loser_slot :: "static_contest \<Rightarrow> contest_slot" where
  "loser_slot c \<equiv> OutcomeSlot (sc_id c) LoserOf"

text \<open>
  One round that pairs neighbours: \<open>for (index = 0; index < inputs.length; index += 2)\<close>. The code
  calls it on even lists only.
\<close>

fun paired_round ::
    "(nat \<Rightarrow> string) \<Rightarrow> bracket \<Rightarrow> nat \<Rightarrow> string \<Rightarrow> nat \<Rightarrow> nat \<Rightarrow> contest_slot list \<Rightarrow> static_contest list" where
  "paired_round name br rnd label seq i (a # b # slots) =
     \<lparr>sc_id = name i, sc_bracket = br, sc_round = rnd, sc_sequence = seq, sc_required = True, sc_label = label,
      sc_inputs = (a, b), sc_condition = None\<rparr> # paired_round name br rnd label (seq + 1) (i + 1) slots"
| "paired_round name br rnd label seq i _ = []"

lemma length_paired_round [simp]: "length (paired_round name br rnd label seq i slots) = length slots div 2"
  by (induction name br rnd label seq i slots rule: paired_round.induct) auto

text \<open>The winners rounds, and what is left of \<^verbatim>\<open>inputs\<close> after the last.\<close>

function winners_rounds ::
    "string \<Rightarrow> string \<Rightarrow> nat \<Rightarrow> nat \<Rightarrow> contest_slot list \<Rightarrow> static_contest list list \<times> contest_slot list" where
  "winners_rounds fid label rnd seq slots =
     (if length slots \<le> 1 then ([], slots)
      else let rd = paired_round (match_id fid ''W'' rnd) WinnersBracket rnd (label @ digits_of rnd) seq 1 slots;
               (rds, final) = winners_rounds fid label (rnd + 1) (seq + length rd) (map winner_slot rd)
           in (rd # rds, final))"
  by pat_completeness auto
termination by (relation "measure (\<lambda>(_, _, _, _, slots). length slots)") auto

declare winners_rounds.simps [simp del]

definition losers_round :: "string \<Rightarrow> nat \<Rightarrow> nat \<Rightarrow> contest_slot list \<Rightarrow> static_contest list" where
  "losers_round fid rnd seq slots =
     paired_round (match_id fid ''L'' rnd) LosersBracket rnd (''Losers round '' @ digits_of rnd) seq 1 slots"

text \<open>An integration round: the survivors meet the losers that come in from the winners bracket.\<close>

definition interleave :: "'a list \<Rightarrow> 'a list \<Rightarrow> 'a list" where
  "interleave xs ys = concat (map (\<lambda>(x, y). [x, y]) (zip xs ys))"

definition integration_round :: "string \<Rightarrow> nat \<Rightarrow> nat \<Rightarrow> static_contest list \<Rightarrow> static_contest list \<Rightarrow> static_contest list" where
  "integration_round fid rnd seq previous incoming =
     losers_round fid rnd seq (interleave (map winner_slot previous) (map loser_slot incoming))"

text \<open>The loop over the winners rounds after the first: contests built, and \<^verbatim>\<open>previous\<close> at the end.\<close>

fun losers_rounds ::
    "string \<Rightarrow> nat \<Rightarrow> nat \<Rightarrow> static_contest list \<Rightarrow> static_contest list list \<Rightarrow> static_contest list \<times> static_contest list" where
  "losers_rounds fid rnd seq previous [] = ([], previous)"
| "losers_rounds fid rnd seq previous (incoming # rds) =
     (if length incoming < length previous
      then let contraction = losers_round fid (rnd + 1) seq (map winner_slot previous);
               integ = integration_round fid (rnd + 2) (seq + length contraction) contraction incoming;
               (cs, last_round) = losers_rounds fid (rnd + 2) (seq + length contraction + length integ) integ rds
           in (contraction @ integ @ cs, last_round)
      else let integ = integration_round fid (rnd + 1) seq previous incoming;
               (cs, last_round) = losers_rounds fid (rnd + 1) (seq + length integ) integ rds
           in (integ @ cs, last_round))"

definition entrant_slots :: "nat \<Rightarrow> contest_slot list" where
  "entrant_slots n = map EntrantSlot [1..<n + 1]"

definition final_contest :: "string \<Rightarrow> nat \<Rightarrow> nat \<Rightarrow> contest_slot \<times> contest_slot \<Rightarrow> static_contest" where
  "final_contest fid rnd seq slots = \<lparr>sc_id = fid @ ''.GF1'', sc_bracket = FinalsBracket, sc_round = rnd, sc_sequence = seq,
     sc_required = True, sc_label = ''Grand final'', sc_inputs = slots, sc_condition = None\<rparr>"

definition reset_contest :: "string \<Rightarrow> nat \<Rightarrow> nat \<Rightarrow> static_contest \<Rightarrow> static_contest" where
  "reset_contest fid rnd seq final = \<lparr>sc_id = fid @ ''.GF2'', sc_bracket = FinalsBracket, sc_round = rnd, sc_sequence = seq,
     sc_required = False, sc_label = ''Grand final reset (if lower-bracket entrant wins grand final)'',
     sc_inputs = (winner_slot final, loser_slot final), sc_condition = Some (sc_id final, 1)\<rparr>"

text \<open>The losers bracket of \<open>n > 2\<close> entrants: its contests and the slot of its champion.\<close>

definition losers_bracket :: "string \<Rightarrow> nat \<Rightarrow> static_contest list list \<Rightarrow> static_contest list \<times> contest_slot" where
  "losers_bracket fid seq rds =
     (let first = losers_round fid 1 seq (map loser_slot (hd rds));
          (cs, last_round) = losers_rounds fid 1 (seq + length first) first (tl rds)
      in (first @ cs, winner_slot (hd last_round)))"

definition double_elimination ::
    "string \<Rightarrow> nat \<Rightarrow> reset_final_policy \<Rightarrow> static_contest list \<times> champion_resolution" where
  "double_elimination fid n reset =
     (let (rds, _) = winners_rounds fid ''Winners round '' 1 1 (entrant_slots n);
          ws = concat rds;
          winners_final = hd (last rds);
          (ls, lower) = (if 2 < n then losers_bracket fid (length ws + 1) rds else ([], loser_slot winners_final));
          seq = length ws + length ls + 1;
          final = final_contest fid (length rds + 1) seq (winner_slot winners_final, lower);
          cs = ws @ ls @ [final]
      in case reset of
           NeverReset \<Rightarrow> (cs, ContestWinner (sc_id final))
         | ResetIfNecessary \<Rightarrow>
             let again = reset_contest fid (length rds + 2) (seq + 1) final
             in (cs @ [again], ResetAware (sc_id final) (sc_id again)))"

text \<open>The two loops over \<^verbatim>\<open>half\<close>: a repechage path, and the classification match it leads to.\<close>

definition repechage_path :: "string \<Rightarrow> nat \<Rightarrow> static_contest list \<Rightarrow> nat \<Rightarrow> static_contest" where
  "repechage_path fid seq quarterfinals half = \<lparr>sc_id = fid @ ''.REP.M'' @ digits_of (half + 1), sc_bracket = RepechageBracket,
     sc_round = 1, sc_sequence = seq + half, sc_required = True, sc_label = ''Repechage path '' @ digits_of (half + 1),
     sc_inputs = (loser_slot (quarterfinals ! (half * 2)), loser_slot (quarterfinals ! (half * 2 + 1))), sc_condition = None\<rparr>"

definition classification_match :: "string \<Rightarrow> nat \<Rightarrow> static_contest list \<Rightarrow> static_contest list \<Rightarrow> nat \<Rightarrow> static_contest" where
  "classification_match fid seq reps semifinals half = \<lparr>sc_id = fid @ ''.CLASS.M'' @ digits_of (half + 1),
     sc_bracket = ClassificationBracket, sc_round = 2, sc_sequence = seq + half, sc_required = True,
     sc_label = ''Classification match '' @ digits_of (half + 1),
     sc_inputs = (winner_slot (reps ! half), loser_slot (semifinals ! half)), sc_condition = None\<rparr>"

definition repechage_classification :: "string \<Rightarrow> nat \<Rightarrow> static_contest list \<times> champion_resolution" where
  "repechage_classification fid n =
     (let (rds, _) = winners_rounds fid ''Main draw round '' 1 1 (entrant_slots n);
          ws = concat rds;
          quarterfinals = rds ! (length rds - 3);
          semifinals = rds ! (length rds - 2);
          final = hd (last rds);
          reps = map (repechage_path fid (length ws + 1) quarterfinals) [0, 1];
          classes = map (classification_match fid (length ws + 3) reps semifinals) [0, 1]
      in (ws @ reps @ classes, ContestWinner (sc_id final)))"

section \<open>The structural proof\<close>

fun slot_edge :: "string \<Rightarrow> nat \<Rightarrow> contest_slot \<Rightarrow> static_edge list" where
  "slot_edge target i (EntrantSlot _) = []"
| "slot_edge target i (OutcomeSlot c outc) = [\<lparr>se_from = c, se_outcome = outc, se_to = target, se_input = i\<rparr>]"

definition contest_edges :: "static_contest \<Rightarrow> static_edge list" where
  "contest_edges c = slot_edge (sc_id c) 0 (fst (sc_inputs c)) @ slot_edge (sc_id c) 1 (snd (sc_inputs c))"

definition derive_edges :: "static_contest list \<Rightarrow> static_edge list" where
  "derive_edges cs = concat (map contest_edges cs)"

text \<open>The first loop of \<^verbatim>\<open>isAcyclic\<close>; \<open>None\<close> when an edge has an unknown end.\<close>

fun count_edges ::
    "static_edge list \<Rightarrow> (string, int) omap \<Rightarrow> (string, string list) omap \<Rightarrow>
     ((string, int) omap \<times> (string, string list) omap) option" where
  "count_edges [] incoming outgoing = Some (incoming, outgoing)"
| "count_edges (e # es) incoming outgoing =
     (if \<not> omap_has incoming (se_from e) \<or> \<not> omap_has incoming (se_to e) then None
      else count_edges es
        (omap_set (se_to e) (the (omap_get incoming (se_to e)) + 1) incoming)
        (omap_set (se_from e) (the (omap_get outgoing (se_from e)) @ [se_to e]) outgoing))"

text \<open>The inner loop over the targets of a contest; every target is a key of the map.\<close>

fun relax :: "string list \<Rightarrow> (string, int) omap \<Rightarrow> string list \<Rightarrow> (string, int) omap \<times> string list" where
  "relax [] incoming ready = (incoming, ready)"
| "relax (t # ts) incoming ready =
     (case omap_get incoming t of
        None \<Rightarrow> relax ts incoming ready
      | Some c \<Rightarrow> relax ts (omap_set t (c - 1) incoming) (if c - 1 = 0 then ready @ [t] else ready))"

definition pending :: "(string, int) omap \<Rightarrow> nat" where
  "pending m = length (filter (\<lambda>kv. 0 < snd kv) m)"

lemma pending_set:
  "omap_get m k = Some c \<Longrightarrow> pending (omap_set k v m) + (if 0 < c then 1 else 0) = pending m + (if 0 < v then 1 else 0)"
  by (induction k v m rule: omap_set.induct) (auto simp: pending_def split: if_splits)

lemma relax_measure: "length (snd (relax ts m ready)) + pending (fst (relax ts m ready)) \<le> length ready + pending m"
proof (induction ts m ready rule: relax.induct)
  case (2 t ts m ready)
  show ?case
  proof (cases "omap_get m t")
    case (Some c)
    note IH = "2.IH"(2) [OF Some]
    have "length (if c - 1 = 0 then ready @ [t] else ready) + pending (omap_set t (c - 1) m) \<le> length ready + pending m"
      using pending_set [OF Some, of "c - 1"] by (cases "c = 1") (auto split: if_splits)
    then show ?thesis using IH Some by simp
  qed (use "2.IH"(1) in simp)
qed simp

text \<open>
  The queue loop; its result is \<^verbatim>\<open>visited\<close>. A contest enters the queue only when its count
  falls to zero, so the length of the queue plus the number of positive counts falls in each turn.
\<close>

function kahn :: "(string, string list) omap \<Rightarrow> (string, int) omap \<Rightarrow> string list \<Rightarrow> nat \<Rightarrow> nat" where
  "kahn outgoing incoming [] visited = visited"
| "kahn outgoing incoming (c # ready) visited =
     (case relax (case omap_get outgoing c of None \<Rightarrow> [] | Some ts \<Rightarrow> ts) incoming ready of
        (incoming', ready') \<Rightarrow> kahn outgoing incoming' ready' (visited + 1))"
  by pat_completeness auto
termination
proof (relation "measure (\<lambda>(_, incoming, ready, _). length ready + pending incoming)", goal_cases)
  case (2 outgoing incoming c ready visited incoming' ready')
  then have x: "relax (case omap_get outgoing c of None \<Rightarrow> [] | Some ts \<Rightarrow> ts) incoming ready = (incoming', ready')"
    by simp
  have "length ready' + pending incoming' \<le> length ready + pending incoming"
    using relax_measure [of "case omap_get outgoing c of None \<Rightarrow> [] | Some ts \<Rightarrow> ts" incoming ready] unfolding x by simp
  then show ?case by simp
qed simp

definition is_acyclic :: "static_contest list \<Rightarrow> static_edge list \<Rightarrow> bool" where
  "is_acyclic cs es =
     (let incoming = foldl (\<lambda>m c. omap_set (sc_id c) 0 m) [] cs;
          outgoing = foldl (\<lambda>m c. omap_set (sc_id c) [] m) [] cs
      in case count_edges es incoming outgoing of
           None \<Rightarrow> False
         | Some (incoming', outgoing') \<Rightarrow>
             kahn outgoing' incoming' (map fst (filter (\<lambda>kv. snd kv = 0) incoming')) 0 = length cs)"

section \<open>What the proof hash covers\<close>

definition nat_json :: "nat \<Rightarrow> jsval" where
  "nat_json n = JNum (Num (of_nat n))"

fun outcome_name :: "contest_outcome \<Rightarrow> string" where
  "outcome_name WinnerOf = ''WINNER''"
| "outcome_name LoserOf = ''LOSER''"

fun bracket_name :: "bracket \<Rightarrow> string" where
  "bracket_name RoundRobinBracket = ''ROUND_ROBIN''"
| "bracket_name WinnersBracket = ''WINNERS''"
| "bracket_name LosersBracket = ''LOSERS''"
| "bracket_name FinalsBracket = ''FINALS''"
| "bracket_name RepechageBracket = ''REPECHAGE''"
| "bracket_name ClassificationBracket = ''CLASSIFICATION''"

fun slot_json :: "contest_slot \<Rightarrow> jsval" where
  "slot_json (EntrantSlot s) = JObj [(''type'', JStr ''ENTRANT''), (''seed'', nat_json s)]"
| "slot_json (OutcomeSlot c outc) = JObj [(''type'', JStr ''OUTCOME''), (''contestId'', JStr c), (''outcome'', JStr (outcome_name outc))]"

definition contest_json :: "static_contest \<Rightarrow> jsval" where
  "contest_json c = JObj ([(''id'', JStr (sc_id c)), (''bracket'', JStr (bracket_name (sc_bracket c))),
     (''round'', nat_json (sc_round c)), (''sequence'', nat_json (sc_sequence c)),
     (''requirement'', JStr (if sc_required c then ''REQUIRED'' else ''CONDITIONAL'')), (''label'', JStr (sc_label c)),
     (''inputs'', JArr [slot_json (fst (sc_inputs c)), slot_json (snd (sc_inputs c))])]
     @ (case sc_condition c of None \<Rightarrow> []
        | Some (src, i) \<Rightarrow> [(''condition'', JObj [(''type'', JStr ''SOURCE_SLOT_WON''), (''sourceContestId'', JStr src),
            (''sourceSlot'', nat_json i)])]))"

definition edge_json :: "static_edge \<Rightarrow> jsval" where
  "edge_json e = JObj [(''fromContestId'', JStr (se_from e)), (''outcome'', JStr (outcome_name (se_outcome e))),
     (''toContestId'', JStr (se_to e)), (''inputIndex'', nat_json (se_input e))]"

fun champion_json :: "champion_resolution \<Rightarrow> jsval" where
  "champion_json (StandingsChampion ids) = JObj [(''type'', JStr ''STANDINGS''), (''contestIds'', JArr (map JStr ids))]"
| "champion_json (ContestWinner c) = JObj [(''type'', JStr ''CONTEST_WINNER''), (''contestId'', JStr c)]"
| "champion_json (ResetAware a b) = JObj [(''type'', JStr ''RESET_AWARE''), (''firstFinalId'', JStr a), (''resetFinalId'', JStr b)]"

definition finding_json :: "string \<times> string \<Rightarrow> jsval" where
  "finding_json f = JObj [(''code'', JStr (fst f)), (''severity'', JStr ''INFO''), (''message'', JStr (snd f))]"

fun format_name :: "static_format_request \<Rightarrow> string" where
  "format_name (SingleRoundRobin _ _) = ''SINGLE_ROUND_ROBIN''"
| "format_name (DoubleRoundRobin _ _) = ''DOUBLE_ROUND_ROBIN''"
| "format_name (DoubleElimination _ _ _) = ''DOUBLE_ELIMINATION''"
| "format_name (RepechageRequest _ _) = ''REPECHAGE_CLASSIFICATION''"
| "format_name (OtherFormat _ name _) = name"

fun request_format_json :: "static_format_request \<Rightarrow> jsval" where
  "request_format_json (SingleRoundRobin fid n) = JObj [(''id'', JStr fid), (''format'', JStr ''SINGLE_ROUND_ROBIN''), (''entrantCount'', JNum n)]"
| "request_format_json (DoubleRoundRobin fid n) = JObj [(''id'', JStr fid), (''format'', JStr ''DOUBLE_ROUND_ROBIN''), (''entrantCount'', JNum n)]"
| "request_format_json (DoubleElimination fid n policy) = JObj ([(''id'', JStr fid), (''format'', JStr ''DOUBLE_ELIMINATION''),
     (''entrantCount'', JNum n)] @ opt_field ''resetFinalPolicy'' JStr policy)"
| "request_format_json (RepechageRequest fid n) = JObj [(''id'', JStr fid), (''format'', JStr ''REPECHAGE_CLASSIFICATION''), (''entrantCount'', JNum n)]"
| "request_format_json (OtherFormat fid name n) = JObj [(''id'', JStr fid), (''format'', JStr name), (''entrantCount'', JNum n)]"

definition proof_json :: "static_format_proof \<Rightarrow> jsval" where
  "proof_json p = JObj [(''valid'', JBool (sp_valid p)), (''entrantCount'', nat_json (sp_entrants p)),
     (''expectedRequiredContestCount'', nat_json (sp_expected p)), (''generatedRequiredContestCount'', nat_json (sp_required p)),
     (''generatedConditionalContestCount'', nat_json (sp_conditional p)), (''allEntrantsReachable'', JBool (sp_reachable p)),
     (''allInputOutcomesResolved'', JBool (sp_resolved p)), (''noLoserFromNonContest'', JBool (sp_resolved p)),
     (''acyclic'', JBool (sp_acyclic p))]"

section \<open>Compilation\<close>

definition contest_seeds :: "static_contest list \<Rightarrow> nat list" where
  "contest_seeds cs = concat (map (\<lambda>c. concat (map (\<lambda>slot. case slot of EntrantSlot s \<Rightarrow> [s] | _ \<Rightarrow> [])
     [fst (sc_inputs c), snd (sc_inputs c)])) cs)"

definition structural_proof :: "nat \<Rightarrow> static_contest list \<Rightarrow> nat \<Rightarrow> static_format_proof" where
  "structural_proof n cs expected =
     (let es = derive_edges cs; ids = map sc_id cs;
          required = length (filter sc_required cs);
          reachable = list_all (\<lambda>s. List.member (contest_seeds cs) s) [1..<n + 1];
          resolved = list_all (\<lambda>e. List.member ids (se_from e)) es;
          acyc = is_acyclic cs es
      in \<lparr>sp_valid = (required = expected \<and> reachable \<and> resolved \<and> acyc), sp_entrants = n, sp_expected = expected,
          sp_required = required, sp_conditional = length (filter (\<lambda>c. \<not> sc_required c) cs), sp_reachable = reachable,
          sp_resolved = resolved, sp_acyclic = acyc, sp_hash = []\<rparr>)"

definition finalize ::
    "platform \<Rightarrow> static_format_request \<Rightarrow> string \<Rightarrow> nat \<Rightarrow> static_contest list \<Rightarrow> champion_resolution \<Rightarrow> nat \<Rightarrow>
     (string \<times> string) list \<Rightarrow> (static_format_error, compiled_static_format) result" where
  "finalize P req fid n cs champion expected findings =
     (let es = derive_edges cs; p = structural_proof n cs expected;
          h = ledger_hash P (JObj [(''request'', request_format_json req), (''contests'', JArr (map contest_json cs)),
            (''edges'', JArr (map edge_json es)), (''champion'', champion_json champion),
            (''findings'', JArr (map finding_json findings)), (''proof'', proof_json p)])
      in if \<not> sp_valid p then Inl SFC900
         else Inr \<lparr>cf_id = fid, cf_format = format_name req, cf_contests = cs, cf_edges = es, cf_champion = champion, cf_findings = findings,
           cf_proof = p\<lparr>sp_hash := h\<rparr>\<rparr>)"

definition power_of_two :: "nat \<Rightarrow> bool" where
  "power_of_two n = (n AND (n - 1) = 0)"

text \<open>\<^verbatim>\<open>validateCommon\<close>: the entrant count it lets through.\<close>

definition validate_common :: "string \<Rightarrow> jsnum \<Rightarrow> (static_format_error, nat) result" where
  "validate_common fid cnt =
     (if blank fid then Inl SFC001
      else case js_integer cnt of
        None \<Rightarrow> Inl SFC002
      | Some n \<Rightarrow> if n < 2 \<or> 64 < n then Inl SFC002 else Inr (nat n))"

text \<open>\<^verbatim>\<open>request.resetFinalPolicy\<close>, when it is one of the two policies.\<close>

definition reset_policy :: "string option \<Rightarrow> reset_final_policy option" where
  "reset_policy policy = (if policy = Some ''NEVER'' then Some NeverReset
     else if policy = Some ''IF_NECESSARY'' then Some ResetIfNecessary else None)"

fun compile_static_format :: "platform \<Rightarrow> static_format_request \<Rightarrow> (static_format_error, compiled_static_format) result" where
  "compile_static_format P (SingleRoundRobin fid cnt) =
     bind_result (validate_common fid cnt) (\<lambda>n.
       let cs = round_robin fid n 1 in
       finalize P (SingleRoundRobin fid cnt) fid n cs (StandingsChampion (map sc_id cs)) (n * (n - 1) div 2)
         [(''SFC100'', ''Every unordered entrant pairing is scheduled exactly once.'')])"
| "compile_static_format P (DoubleRoundRobin fid cnt) =
     bind_result (validate_common fid cnt) (\<lambda>n.
       let cs = round_robin fid n 2 in
       finalize P (DoubleRoundRobin fid cnt) fid n cs (StandingsChampion (map sc_id cs)) (n * (n - 1))
         [(''SFC101'', ''Every entrant pairing has one fixture in each orientation.'')])"
| "compile_static_format P (DoubleElimination fid cnt policy) =
     bind_result (validate_common fid cnt) (\<lambda>n.
       if \<not> power_of_two n then Inl SFC210
       else case reset_policy policy of
         None \<Rightarrow> Inl SFC211
       | Some reset \<Rightarrow> let (cs, champion) = double_elimination fid n reset in
         finalize P (DoubleElimination fid cnt policy) fid n cs champion (2 * n - 2)
           ([(''SFC200'', ''Every winner-bracket defeat has one explicit lower-bracket or final destination.'')]
            @ (if reset = ResetIfNecessary
               then [(''SFC201'', ''The reset final is conditional and is played only after the previously unbeaten finalist receives a first defeat.'')]
               else [])))"
| "compile_static_format P (RepechageRequest fid cnt) =
     bind_result (validate_common fid cnt) (\<lambda>n.
       if n < 8 \<or> \<not> power_of_two n then Inl SFC310
       else let (cs, champion) = repechage_classification fid n in
         finalize P (RepechageRequest fid cnt) fid n cs champion (n + 3)
           [(''SFC300'', ''Quarterfinal losers enter two repechage paths whose winners face the corresponding semifinal losers in classification contests.'')])"
| "compile_static_format P (OtherFormat fid name cnt) = bind_result (validate_common fid cnt) (\<lambda>n. Inl SFC003)"

end
