(* ===== verification/FormatProofs.thy ===== *)
theory FormatProofs
  imports StaticFormats
begin

text \<open>
  What the compiler of \<open>StaticFormats\<close> guarantees.

  \<^item> \<open>kahn_visits_all\<close>: contests in topological order, with distinct identifiers, pass the cycle
    check.
  \<^item> The round robin pairs every two entrants once in each leg (with \<open>CircleMethod\<close>); the
    elimination brackets are accounted for by multisets of slots: every outcome that is produced is
    consumed where it should be.
  \<^item> \<open>compile_succeeds\<close>: valid requests never fail the structural proof.
\<close>

section \<open>Topological order\<close>

fun slot_source :: "contest_slot \<Rightarrow> string list" where
  "slot_source (EntrantSlot _) = []"
| "slot_source (OutcomeSlot c _) = [c]"

definition sources :: "static_contest \<Rightarrow> string list" where
  "sources c = slot_source (fst (sc_inputs c)) @ slot_source (snd (sc_inputs c))"

text \<open>Every outcome that the contests use belongs to a contest of \<open>known\<close> or an earlier one.\<close>

fun topological :: "string set \<Rightarrow> static_contest list \<Rightarrow> bool" where
  "topological known [] = True"
| "topological known (c # cs) = (set (sources c) \<subseteq> known \<and> topological (insert (sc_id c) known) cs)"

lemma topological_append:
  "topological known (as @ bs) \<longleftrightarrow> topological known as \<and> topological (known \<union> sc_id ` set as) bs"
proof (induction as arbitrary: known)
  case (Cons a as)
  have "insert (sc_id a) known \<union> sc_id ` set as = known \<union> sc_id ` set (a # as)" by auto
  then show ?case using Cons [of "insert (sc_id a) known"] by (simp only: append_Cons topological.simps) simp
qed simp

lemma topological_mono: "topological known cs \<Longrightarrow> known \<subseteq> known' \<Longrightarrow> topological known' cs"
proof (induction cs arbitrary: known known')
  case (Cons c cs)
  then have "topological (insert (sc_id c) known') cs" by (meson insert_mono topological.simps(2))
  then show ?case using Cons.prems by auto
qed simp

lemma topological_nth: "topological known cs \<Longrightarrow> i < length cs \<Longrightarrow> set (sources (cs ! i)) \<subseteq> known \<union> sc_id ` set (take i cs)"
proof (induction cs arbitrary: known i)
  case (Cons c cs)
  then show ?case
  proof (cases i)
    case (Suc j)
    then show ?thesis using Cons.IH [of "insert (sc_id c) known" j] Cons.prems by auto
  qed auto
qed simp

lemma edges_of_contest: "e \<in> set (contest_edges c) \<Longrightarrow> se_to e = sc_id c \<and> se_from e \<in> set (sources c)"
  by (cases "fst (sc_inputs c)"; cases "snd (sc_inputs c)") (auto simp: contest_edges_def sources_def)

lemma edges_known:
  assumes "topological {} cs" "e \<in> set (derive_edges cs)"
  shows "\<exists>i < length cs. se_to e = sc_id (cs ! i) \<and> se_from e \<in> sc_id ` set (take i cs)"
proof -
  obtain c where "c \<in> set cs" "e \<in> set (contest_edges c)" using assms(2) by (auto simp: derive_edges_def)
  then obtain i where "i < length cs" "e \<in> set (contest_edges (cs ! i))" by (auto simp: in_set_conv_nth)
  then show ?thesis using edges_of_contest topological_nth [OF assms(1)] by blast
qed

section \<open>The queue visits every contest\<close>

lemma count_edges_result:
  assumes "\<forall>e \<in> set es. se_from e \<in> K \<and> se_to e \<in> K" "dom (omap_get m) = K" "dom (omap_get out) = K"
  shows "\<exists>m' out'. count_edges es m out = Some (m', out') \<and> map fst m' = map fst m \<and> dom (omap_get out') = K \<and>
    (\<forall>k \<in> K. omap_get m' k = Some (the (omap_get m k) + int (count_list (map se_to es) k)) \<and>
       omap_get out' k = Some (the (omap_get out k) @ map se_to (filter (\<lambda>e. se_from e = k) es)))"
  using assms
proof (induction es m out rule: count_edges.induct)
  case (2 e es m out)
  let ?m = "omap_set (se_to e) (the (omap_get m (se_to e)) + 1) m"
  let ?out = "omap_set (se_from e) (the (omap_get out (se_from e)) @ [se_to e]) out"
  have ends: "se_from e \<in> K" "se_to e \<in> K" using "2.prems"(1) by auto
  have has: "omap_has m (se_from e)" "omap_has m (se_to e)" using "2.prems"(2) ends by (auto simp: omap_has_def)
  have doms: "dom (omap_get ?m) = K" "dom (omap_get ?out) = K" using "2.prems"(2,3) ends by (auto simp: omap_get_set)
  have keys: "map fst ?m = map fst m"
    using has(2) by (simp add: omap_keys_set omap_has_def omap_get_None [symmetric])
  have rec: "count_edges (e # es) m out = count_edges es ?m ?out" using has by simp
  have "\<not> (\<not> omap_has m (se_from e) \<or> \<not> omap_has m (se_to e))" using has by simp
  from "2.IH" [OF this _ doms] "2.prems"(1) obtain m' out' where IH:
    "count_edges es ?m ?out = Some (m', out')" "map fst m' = map fst ?m" "dom (omap_get out') = K"
    "\<forall>k \<in> K. omap_get m' k = Some (the (omap_get ?m k) + int (count_list (map se_to es) k)) \<and>
       omap_get out' k = Some (the (omap_get ?out k) @ map se_to (filter (\<lambda>e. se_from e = k) es))" by auto
  have "\<forall>k \<in> K. omap_get m' k = Some (the (omap_get m k) + int (count_list (map se_to (e # es)) k)) \<and>
       omap_get out' k = Some (the (omap_get out k) @ map se_to (filter (\<lambda>e. se_from e = k) (e # es)))"
    using IH(4) by auto
  then show ?case unfolding rec using IH(1-3) keys by auto
next
  case (1 m out)
  have "omap_get m k = Some (the (omap_get m k)) \<and> omap_get out k = Some (the (omap_get out k))" if "k \<in> K" for k
    using "1.prems"(2,3) that by (metis domIff option.collapse)
  then show ?case using "1.prems"(3) by simp
qed

lemma relax_result:
  assumes "set ts \<subseteq> dom (omap_get m)" "\<forall>k \<in> dom (omap_get m). int (count_list ts k) \<le> the (omap_get m k)"
  shows "\<exists>new. relax ts m ready = (fst (relax ts m ready), ready @ new) \<and> distinct new \<and>
    set new = {k \<in> set ts. the (omap_get m k) = int (count_list ts k)} \<and>
    dom (omap_get (fst (relax ts m ready))) = dom (omap_get m) \<and>
    (\<forall>k \<in> dom (omap_get m). omap_get (fst (relax ts m ready)) k = Some (the (omap_get m k) - int (count_list ts k)))"
  using assms
proof (induction ts m ready rule: relax.induct)
  case (2 t ts m ready)
  obtain c where c: "omap_get m t = Some c" using "2.prems"(1) by auto
  let ?m = "omap_set t (c - 1) m" and ?ready = "if c - 1 = 0 then ready @ [t] else ready"
  have dom: "dom (omap_get ?m) = dom (omap_get m)" using c by (auto simp: omap_get_set)
  have le: "\<forall>k \<in> dom (omap_get ?m). int (count_list ts k) \<le> the (omap_get ?m k)"
  proof
    fix k
    assume "k \<in> dom (omap_get ?m)"
    then have "int (count_list (t # ts) k) \<le> the (omap_get m k)" using "2.prems"(2) dom by blast
    then show "int (count_list ts k) \<le> the (omap_get ?m k)" using c by (cases "k = t") (auto simp: omap_get_set)
  qed
  have rec: "relax (t # ts) m ready = relax ts ?m ?ready" using c by simp
  have sub: "set ts \<subseteq> dom (omap_get ?m)" using "2.prems"(1) dom by simp
  from "2.IH"(2) [OF c sub le] obtain new where IH:
    "relax ts ?m ?ready = (fst (relax ts ?m ?ready), ?ready @ new)" "distinct new"
    "set new = {k \<in> set ts. the (omap_get ?m k) = int (count_list ts k)}"
    "dom (omap_get (fst (relax ts ?m ?ready))) = dom (omap_get ?m)"
    "\<forall>k \<in> dom (omap_get ?m). omap_get (fst (relax ts ?m ?ready)) k = Some (the (omap_get ?m k) - int (count_list ts k))"
    by blast
  let ?new = "(if c - 1 = 0 then [t] else []) @ new"
  have zero: "t \<notin> set ts" if "c = 1"
  proof -
    have "int (count_list (t # ts) t) \<le> the (omap_get m t)" using "2.prems"(2) c by blast
    then show ?thesis using c that by (simp add: count_list_0_iff)
  qed
  have "relax (t # ts) m ready = (fst (relax (t # ts) m ready), ready @ ?new)" unfolding rec using IH(1) by auto
  moreover have "distinct ?new" using IH(2,3) zero by auto
  moreover have "set ?new = {k \<in> set (t # ts). the (omap_get m k) = int (count_list (t # ts) k)}"
  proof (intro set_eqI)
    fix k
    show "k \<in> set ?new \<longleftrightarrow> k \<in> {k \<in> set (t # ts). the (omap_get m k) = int (count_list (t # ts) k)}"
    proof (cases "k = t")
      case True
      have "t \<in> set new \<longleftrightarrow> t \<in> set ts \<and> c - 1 = int (count_list ts t)" unfolding IH(3) by simp
      moreover have "t \<notin> set ts \<longleftrightarrow> count_list ts t = 0" by (simp add: count_list_0_iff)
      ultimately show ?thesis using True c zero by (cases "c = 1") auto
    next
      case False
      have "k \<in> set new \<longleftrightarrow> k \<in> set ts \<and> the (omap_get m k) = int (count_list ts k)" unfolding IH(3) using False by simp
      then show ?thesis using False by auto
    qed
  qed
  moreover have "\<forall>k \<in> dom (omap_get m). omap_get (fst (relax (t # ts) m ready)) k
      = Some (the (omap_get m k) - int (count_list (t # ts) k))"
    unfolding rec using IH(5) c dom by auto
  ultimately show ?case using IH(4) dom unfolding rec by blast
qed auto

definition open_edges :: "static_edge list \<Rightarrow> string set \<Rightarrow> string \<Rightarrow> nat" where
  "open_edges es D k = length (filter (\<lambda>e. se_to e = k \<and> se_from e \<notin> D) es)"

definition targets :: "static_edge list \<Rightarrow> string \<Rightarrow> string list" where
  "targets es k = map se_to (filter (\<lambda>e. se_from e = k) es)"

lemma open_edges_insert: "c \<notin> D \<Longrightarrow> open_edges es D k = open_edges es (insert c D) k + count_list (targets es c) k"
  by (induction es) (auto simp: open_edges_def targets_def)

lemma open_edges_0: "open_edges es D k = 0 \<longleftrightarrow> (\<forall>e \<in> set es. se_to e = k \<longrightarrow> se_from e \<in> D)"
  by (auto simp: open_edges_def filter_empty_conv)

text \<open>The invariant of the queue loop; \<open>D\<close> holds the visited contests.\<close>

definition kahn_state ::
    "static_edge list \<Rightarrow> string set \<Rightarrow> string set \<Rightarrow> (string, int) omap \<Rightarrow> string list \<Rightarrow> bool" where
  "kahn_state es K D m ready \<longleftrightarrow> D \<subseteq> K \<and> set ready \<subseteq> K \<and> set ready \<inter> D = {} \<and> distinct ready \<and> dom (omap_get m) = K \<and>
     (\<forall>k \<in> K. omap_get m k = Some (int (open_edges es D k))) \<and>
     (\<forall>k \<in> K. open_edges es D k = 0 \<longleftrightarrow> k \<in> D \<or> k \<in> set ready)"

lemma kahn_step:
  assumes inv: "kahn_state es K D m (c # ready)" and ends: "\<forall>e \<in> set es. se_to e \<in> K"
  shows "kahn_state es K (insert c D) (fst (relax (targets es c) m ready)) (snd (relax (targets es c) m ready))"
proof -
  let ?ts = "targets es c" let ?m = "fst (relax ?ts m ready)"
  have c: "c \<notin> D" "c \<in> K" and dm: "dom (omap_get m) = K"
    and deg: "\<And>k. k \<in> K \<Longrightarrow> omap_get m k = Some (int (open_edges es D k))"
    and zero: "\<And>k. k \<in> K \<Longrightarrow> open_edges es D k = 0 \<longleftrightarrow> k \<in> D \<or> k = c \<or> k \<in> set ready"
    using inv by (auto simp: kahn_state_def)
  have ts: "set ?ts \<subseteq> K" using ends by (auto simp: targets_def)
  note split = open_edges_insert [OF c(1), of es]
  have le: "\<forall>k \<in> dom (omap_get m). int (count_list ?ts k) \<le> the (omap_get m k)"
    using deg split unfolding dm by simp
  from relax_result [of ?ts m ready] ts le dm obtain new where
    r: "relax ?ts m ready = (?m, ready @ new)" and new: "distinct new"
      "set new = {k \<in> set ?ts. the (omap_get m k) = int (count_list ?ts k)}" and dm': "dom (omap_get ?m) = K"
    and m': "\<forall>k \<in> K. omap_get ?m k = Some (the (omap_get m k) - int (count_list ?ts k))"
    unfolding dm by blast
  have in_new: "k \<in> set new \<longleftrightarrow> k \<in> set ?ts \<and> open_edges es (insert c D) k = 0" if "k \<in> K" for k
    unfolding new(2) using deg [OF that] split [of k] by auto
  have zero': "open_edges es (insert c D) k = 0 \<longleftrightarrow> k \<in> insert c D \<or> k \<in> set (ready @ new)" if "k \<in> K" for k
    using zero [OF that] split [of k] in_new [OF that] count_list_0_iff [of ?ts k] by auto
  have fresh: "k \<notin> D \<and> k \<noteq> c \<and> k \<notin> set ready" if "k \<in> set new" for k
  proof -
    have k: "k \<in> K" "k \<in> set ?ts" using that ts unfolding new(2) by auto
    then have "count_list ?ts k \<noteq> 0" by (simp add: count_list_0_iff)
    then show ?thesis using zero [OF k(1)] split [of k] by simp
  qed
  have "set new \<subseteq> K" using ts unfolding new(2) by auto
  moreover have "\<forall>k \<in> K. omap_get ?m k = Some (int (open_edges es (insert c D) k))"
    using m' deg split by simp
  moreover have "snd (relax ?ts m ready) = ready @ new" using arg_cong [OF r, of snd] by (simp only: snd_conv)
  ultimately show ?thesis
    unfolding kahn_state_def using inv zero' new(1) fresh dm' by (auto simp: kahn_state_def)
qed

lemma kahn_visits:
  assumes "kahn_state es K D m ready" "\<forall>e \<in> set es. se_to e \<in> K" "finite K"
    "\<forall>k \<in> K. omap_get out k = Some (targets es k)"
  shows "\<exists>D' m'. kahn_state es K D' m' [] \<and> kahn out m ready (card D) = card D'"
  using assms(1,4)
proof (induction out m ready "card D" arbitrary: D rule: kahn.induct)
  case (1 out m)
  then show ?case by auto
next
  case (2 out m c ready)
  let ?r = "relax (targets es c) m ready"
  have c: "c \<in> K" "c \<notin> D" "finite D" using "2.prems"(1) assms(3) by (auto simp: kahn_state_def intro: finite_subset)
  have ts: "(case omap_get out c of None \<Rightarrow> [] | Some ts \<Rightarrow> ts) = targets es c" using "2.prems"(2) c(1) by simp
  have "kahn out m (c # ready) (card D) = kahn out (fst ?r) (snd ?r) (card (insert c D))"
    using c by (simp add: ts split_beta)
  then show ?case using "2.hyps" [of "fst ?r" "snd ?r" "insert c D"] kahn_step [OF "2.prems"(1) assms(2)] c ts "2.prems"(2)
    by simp
qed

lemma foldl_omap_set:
  "distinct (map fst m @ map sc_id cs) \<Longrightarrow> foldl (\<lambda>m c. omap_set (sc_id c) v m) m cs = m @ map (\<lambda>c. (sc_id c, v)) cs"
proof (induction cs arbitrary: m)
  case (Cons c cs)
  then have "foldl (\<lambda>m c. omap_set (sc_id c) v m) m (c # cs) = foldl (\<lambda>m c. omap_set (sc_id c) v m) (m @ [(sc_id c, v)]) cs"
    by (simp add: omap_set_new)
  then show ?case using Cons by simp
qed simp

lemma map_of_ids: "map_of (map (\<lambda>c. (sc_id c, v)) cs) = (\<lambda>k. if k \<in> sc_id ` set cs then Some v else None)"
  by (induction cs) auto

lemma topological_open_0:
  assumes "topological {} cs" "kahn_state (derive_edges cs) (sc_id ` set cs) D m []" "distinct (map sc_id cs)"
  shows "i \<le> length cs \<Longrightarrow> sc_id ` set (take i cs) \<subseteq> D"
proof (induction i)
  case (Suc i)
  then have i: "i < length cs" by simp
  have "se_from e \<in> D" if "e \<in> set (derive_edges cs)" "se_to e = sc_id (cs ! i)" for e
  proof -
    from edges_known [OF assms(1) that(1)] obtain j where
      j: "j < length cs" "se_to e = sc_id (cs ! j)" "se_from e \<in> sc_id ` set (take j cs)" by blast
    then have "map sc_id cs ! j = map sc_id cs ! i" using that(2) i by simp
    then have "j = i" using assms(3) i j(1) by (simp only: nth_eq_iff_index_eq length_map)
    then show ?thesis using j(3) Suc.IH i by auto
  qed
  then have "open_edges (derive_edges cs) D (sc_id (cs ! i)) = 0" by (simp add: open_edges_0)
  then have "sc_id (cs ! i) \<in> D" using assms(2) i by (auto simp: kahn_state_def)
  then show ?case using Suc i by (simp add: take_Suc_conv_app_nth)
qed simp

theorem kahn_visits_all:
  assumes ids: "distinct (map sc_id cs)" and top: "topological {} cs"
  shows "is_acyclic cs (derive_edges cs)"
proof -
  let ?K = "sc_id ` set cs" and ?es = "derive_edges cs"
  let ?m = "map (\<lambda>c. (sc_id c, 0::int)) cs" and ?out = "map (\<lambda>c. (sc_id c, []::string list)) cs"
  have init: "foldl (\<lambda>m c. omap_set (sc_id c) (0::int) m) [] cs = ?m"
    "foldl (\<lambda>m c. omap_set (sc_id c) ([]::string list) m) [] cs = ?out"
    using ids by (simp_all add: foldl_omap_set)
  have ends: "\<forall>e \<in> set ?es. se_from e \<in> ?K \<and> se_to e \<in> ?K"
  proof
    fix e
    assume "e \<in> set ?es"
    then obtain i where "i < length cs" "se_to e = sc_id (cs ! i)" "se_from e \<in> sc_id ` set (take i cs)"
      using edges_known [OF top] by blast
    then show "se_from e \<in> ?K \<and> se_to e \<in> ?K" using set_take_subset [of i cs] by auto
  qed
  have "dom (map_of ?m) = ?K" "dom (map_of ?out) = ?K" by (auto simp: map_of_ids split: if_splits)
  from count_edges_result [OF ends this] obtain m out where
    ce: "count_edges ?es ?m ?out = Some (m, out)" and keys: "map fst m = map fst ?m" and
    all: "\<forall>k \<in> ?K. map_of m k = Some (int (count_list (map se_to ?es) k)) \<and>
       map_of out k = Some (map se_to (filter (\<lambda>e. se_from e = k) ?es))"
    by (auto simp: map_of_ids)
  have fm: "map fst m = map sc_id cs" using keys by (simp add: comp_def)
  let ?ready = "map fst (filter (\<lambda>kv. snd kv = 0) m)"
  have wf: "omap_wf m" using fm ids by (simp add: omap_wf_def)
  have dm: "dom (map_of m) = ?K" using fm by (metis dom_map_of_conv_image_fst image_set)
  have none: "open_edges ?es {} k = count_list (map se_to ?es) k" for k
    by (simp add: open_edges_def count_list_eq_length_filter filter_map comp_def eq_commute)
  have "kahn_state ?es ?K {} m ?ready"
  proof -
    have "distinct ?ready" using wf by (simp add: omap_wf_def distinct_map_filter)
    moreover have "k \<in> set ?ready \<longleftrightarrow> map_of m k = Some 0" for k
      using wf by (force simp: omap_wf_def)
    moreover from this have "set ?ready \<subseteq> ?K" using dm by blast
    ultimately show ?thesis using all none dm unfolding kahn_state_def by simp
  qed
  from kahn_visits [OF this, of out] ends all obtain D m' where
    D: "kahn_state ?es ?K D m' []" "kahn out m ?ready 0 = card D" by (auto simp: targets_def)
  have "?K \<subseteq> D" using topological_open_0 [OF top D(1) ids, of "length cs"] by simp
  then have "D = ?K" using D(1) by (auto simp: kahn_state_def)
  then have "kahn out m ?ready 0 = length cs" using D(2) distinct_card [OF ids] by simp
  then show ?thesis by (simp add: is_acyclic_def init ce)
qed

section \<open>Identifiers\<close>

lemma split_at_point:
  assumes "x @ CHR ''.'' # u = y @ CHR ''.'' # v" "CHR ''.'' \<notin> set x" "CHR ''.'' \<notin> set y"
  shows "x = y \<and> u = v"
proof -
  have tw: "takeWhile (\<lambda>c. c \<noteq> CHR ''.'') (z @ CHR ''.'' # w) = z" if "CHR ''.'' \<notin> set z" for z w
    using that by (subst takeWhile_append2) auto
  have "x = y" using arg_cong [OF assms(1), of "takeWhile (\<lambda>c. c \<noteq> CHR ''.'')"] tw assms(2,3) by simp
  then show ?thesis using assms(1) by simp
qed

lemma match_id_inject:
  assumes "match_id fid a r i = match_id fid b s j" "CHR ''.'' \<notin> set a" "CHR ''.'' \<notin> set b"
  shows "a = b \<and> r = s \<and> i = j"
proof -
  have "a @ CHR ''.'' # (''R'' @ digits_of r @ ''.M'' @ digits_of i) = b @ CHR ''.'' # (''R'' @ digits_of s @ ''.M'' @ digits_of j)"
    using assms(1) by (simp add: match_id_def)
  from split_at_point [OF this assms(2,3)] have
    "a = b" and "digits_of r @ CHR ''.'' # (''M'' @ digits_of i) = digits_of s @ CHR ''.'' # (''M'' @ digits_of j)" by auto
  from this(1) split_at_point [OF this(2)] show ?thesis using digits_not_point digits_of_inject by auto
qed

lemma distinct_match_ids: "CHR ''.'' \<notin> set tag \<Longrightarrow> distinct (map (match_id fid tag rnd) [i..<j])"
  unfolding distinct_map by (auto intro!: inj_onI dest: match_id_inject)

lemma ids_paired_round:
  "map sc_id (paired_round name br rnd label seq i slots) = map name [i..<i + length slots div 2]"
  by (induction name br rnd label seq i slots rule: paired_round.induct) (auto simp: upt_rec [of "i::nat" for i])

definition slots_of :: "static_contest list \<Rightarrow> contest_slot list" where
  "slots_of cs = concat (map (\<lambda>c. [fst (sc_inputs c), snd (sc_inputs c)]) cs)"

lemma slots_of_simps [simp]:
  "slots_of [] = []" "slots_of (c # cs) = fst (sc_inputs c) # snd (sc_inputs c) # slots_of cs"
  "slots_of (cs @ ds) = slots_of cs @ slots_of ds"
  by (simp_all add: slots_of_def)

lemma slots_paired_round: "even (length slots) \<Longrightarrow> slots_of (paired_round name br rnd label seq i slots) = slots"
  by (induction name br rnd label seq i slots rule: paired_round.induct) auto

lemma bracket_paired_round: "c \<in> set (paired_round name br rnd label seq i slots) \<Longrightarrow> sc_bracket c = br \<and> sc_required c"
  by (induction name br rnd label seq i slots rule: paired_round.induct) auto

lemma length_slots_of: "length (slots_of cs) = 2 * length cs"
  by (induction cs) auto

lemma topological_slots:
  assumes "\<forall>s \<in> set (slots_of cs). set (slot_source s) \<subseteq> known"
  shows "topological known cs"
  using assms
proof (induction cs arbitrary: known)
  case (Cons c cs)
  then have "topological (insert (sc_id c) known) cs" by (auto intro!: Cons.IH)
  then show ?case using Cons.prems by (auto simp: sources_def)
qed simp

lemma source_winner [simp]: "slot_source (winner_slot c) = [sc_id c]" "slot_source (loser_slot c) = [sc_id c]"
  by simp_all

section \<open>The winners bracket\<close>

lemma winners_rounds_spec:
  assumes "length slots = 2 ^ k" "winners_rounds fid label rnd seq slots = (rds, final)"
  shows "mset (slots_of (concat rds)) + mset final = mset slots + mset (map winner_slot (concat rds))
    \<and> map length rds = map (\<lambda>j. 2 ^ (k - 1 - j)) [0..<k]
    \<and> (0 < k \<longrightarrow> final = [winner_slot (hd (last rds))])
    \<and> distinct (map sc_id (concat rds))
    \<and> sc_id ` set (concat rds) \<subseteq> {match_id fid ''W'' r i | r i. rnd \<le> r}
    \<and> (\<forall>c \<in> set (concat rds). sc_bracket c = WinnersBracket \<and> sc_required c)
    \<and> (\<forall>known. (\<forall>s \<in> set slots. set (slot_source s) \<subseteq> known) \<longrightarrow> topological known (concat rds))"
  using assms
proof (induction k arbitrary: rnd seq slots rds final)
  case 0
  then show ?case by (simp add: winners_rounds.simps [of fid label rnd seq slots])
next
  case (Suc k)
  define rd where "rd = paired_round (match_id fid ''W'' rnd) WinnersBracket rnd (label @ digits_of rnd) seq 1 slots"
  obtain rest fin where rest: "winners_rounds fid label (rnd + 1) (seq + length rd) (map winner_slot rd) = (rest, fin)"
    by fastforce
  have "(1::nat) \<le> 2 ^ k" by simp
  then have "\<not> length slots \<le> 1" unfolding Suc.prems(1) power_Suc by arith
  then have "winners_rounds fid label rnd seq slots = (rd # rest, fin)"
    using rest by (subst winners_rounds.simps) (simp add: rd_def Let_def)
  then have rds: "rds = rd # rest" "fin = final" using Suc.prems(2) by auto
  have len: "length rd = 2 ^ k" and even: "even (length slots)" using Suc.prems(1) by (simp_all add: rd_def)
  then have nonempty: "rd \<noteq> []" by auto
  have slots: "slots_of rd = slots" using even by (simp add: rd_def slots_paired_round)
  have ids: "map sc_id rd = map (match_id fid ''W'' rnd) [1..<1 + 2 ^ k]"
    unfolding rd_def ids_paired_round using Suc.prems(1) by simp
  have "length (map winner_slot rd) = 2 ^ k" using len by simp
  note IH = Suc.IH [OF this rest]
  note acct = conjunct1 [OF IH]
  note sizes = conjunct1 [OF conjunct2 [OF IH]]
  note fin = conjunct1 [OF conjunct2 [OF conjunct2 [OF IH]]]
  note dist = conjunct1 [OF conjunct2 [OF conjunct2 [OF conjunct2 [OF IH]]]]
  note sub = conjunct1 [OF conjunct2 [OF conjunct2 [OF conjunct2 [OF conjunct2 [OF IH]]]]]
  note kind = conjunct1 [OF conjunct2 [OF conjunct2 [OF conjunct2 [OF conjunct2 [OF conjunct2 [OF IH]]]]]]
  note topo = conjunct2 [OF conjunct2 [OF conjunct2 [OF conjunct2 [OF conjunct2 [OF conjunct2 [OF IH]]]]]]
  have mine: "sc_id ` set rd = match_id fid ''W'' rnd ` {1..<1 + 2 ^ k}" using ids by (metis image_set set_upt)
  have fresh: "sc_id ` set rd \<inter> sc_id ` set (concat rest) = {}"
  proof (rule equals0I)
    fix x
    assume x: "x \<in> sc_id ` set rd \<inter> sc_id ` set (concat rest)"
    then obtain i where i: "x = match_id fid ''W'' rnd i" unfolding mine by blast
    have "x \<in> {match_id fid ''W'' r i | r i. rnd + 1 \<le> r}" using subsetD [OF sub] IntD2 [OF x] .
    then obtain r j where "x = match_id fid ''W'' r j" "rnd + 1 \<le> r" by auto
    then show False using match_id_inject [of fid "''W''" rnd i "''W''" r j] i by simp
  qed
  show ?case
  proof (intro conjI)
    show "mset (slots_of (concat rds)) + mset final = mset slots + mset (map winner_slot (concat rds))"
      using acct slots unfolding rds by simp
    have "map length rds = 2 ^ k # map (\<lambda>j. 2 ^ (k - 1 - j)) [0..<k]" using sizes len by (simp add: rds)
    also have "\<dots> = map (\<lambda>j. 2 ^ (Suc k - 1 - j)) [0..<Suc k]"
      by (simp add: upt_conv_Cons map_Suc_upt [symmetric] comp_def del: upt_Suc)
    finally show "map length rds = map (\<lambda>j. 2 ^ (Suc k - 1 - j)) [0..<Suc k]" .
    show "0 < Suc k \<longrightarrow> final = [winner_slot (hd (last rds))]"
    proof (cases k)
      case 0
      then obtain c where "rd = [c]" using len by (auto simp: length_Suc_conv)
      moreover have "rest = []" "final = map winner_slot rd"
        using 0 rest len rds(2) by (simp_all add: winners_rounds.simps [of fid label "Suc rnd"])
      ultimately show ?thesis by (simp add: rds)
    next
      case (Suc l)
      then have "length rest = Suc l" using arg_cong [OF sizes, of length] by simp
      then have "rest \<noteq> []" by auto
      then show ?thesis using fin Suc by (simp add: rds)
    qed
    have "distinct (map sc_id rd)" unfolding ids by (rule distinct_match_ids) simp
    then show "distinct (map sc_id (concat rds))" using dist fresh by (simp add: rds(1))
    have "sc_id ` set rd \<subseteq> {match_id fid ''W'' r i | r i. rnd \<le> r}" 
      unfolding mine by auto
    moreover have "sc_id ` set (concat rest) \<subseteq> {match_id fid ''W'' r i | r i. rnd \<le> r}" using sub by force
    ultimately show "sc_id ` set (concat rds) \<subseteq> {match_id fid ''W'' r i | r i. rnd \<le> r}" by (simp add: rds(1) image_Un)
    show "\<forall>c \<in> set (concat rds). sc_bracket c = WinnersBracket \<and> sc_required c"
      using kind bracket_paired_round by (fastforce simp: rds(1) rd_def)
    show "\<forall>known. (\<forall>s \<in> set slots. set (slot_source s) \<subseteq> known) \<longrightarrow> topological known (concat rds)"
    proof (intro allI impI)
      fix known
      assume "\<forall>s \<in> set slots. set (slot_source s) \<subseteq> known"
      then have "topological known rd" using slots by (auto intro: topological_slots)
      moreover have "topological (known \<union> sc_id ` set rd) (concat rest)" using topo by auto
      ultimately show "topological known (concat rds)" by (simp add: rds(1) topological_append)
    qed
  qed
qed

section \<open>The losers bracket\<close>

definition ids_in :: "string \<Rightarrow> string \<Rightarrow> nat set \<Rightarrow> static_contest list \<Rightarrow> bool" where
  "ids_in fid tag R cs \<longleftrightarrow> distinct (map sc_id cs) \<and> (\<forall>c \<in> set cs. \<exists>r \<in> R. \<exists>i. sc_id c = match_id fid tag r i)"

lemma ids_in_append:
  assumes "ids_in fid tag R as" "ids_in fid tag S bs" "R \<inter> S = {}" "CHR ''.'' \<notin> set tag" "R \<subseteq> T" "S \<subseteq> T"
  shows "ids_in fid tag T (as @ bs)"
proof -
  have "sc_id a \<noteq> sc_id b" if ab: "a \<in> set as" "b \<in> set bs" for a b
  proof
    assume eq: "sc_id a = sc_id b"
    obtain r i where r: "r \<in> R" "sc_id a = match_id fid tag r i" using assms(1) ab(1) unfolding ids_in_def by blast
    obtain s j where s: "s \<in> S" "sc_id b = match_id fid tag s j" using assms(2) ab(2) unfolding ids_in_def by blast
    have "r = s" using match_id_inject [of fid tag r i tag s j] r(2) s(2) eq assms(4) by simp
    then show False using r(1) s(1) assms(3) by blast
  qed
  then show ?thesis using assms(1,2,5,6) by (fastforce simp: ids_in_def)
qed

lemma losers_round_ids: "ids_in fid ''L'' {rnd} (losers_round fid rnd seq slots)"
proof -
  let ?cs = "losers_round fid rnd seq slots"
  have ids: "map sc_id ?cs = map (match_id fid ''L'' rnd) [1..<1 + length slots div 2]"
    unfolding losers_round_def ids_paired_round by simp
  have "\<exists>i. sc_id c = match_id fid ''L'' rnd i" if "c \<in> set ?cs" for c
  proof -
    have "sc_id c \<in> set (map sc_id ?cs)" using that by simp
    then show ?thesis unfolding ids by auto
  qed
  moreover have "distinct (map sc_id ?cs)" unfolding ids by (rule distinct_match_ids) simp
  ultimately show ?thesis by (simp add: ids_in_def)
qed

definition in_bracket :: "bracket \<Rightarrow> static_contest list \<Rightarrow> bool" where
  "in_bracket br cs \<longleftrightarrow> (\<forall>c \<in> set cs. sc_bracket c = br \<and> sc_required c)"

lemma losers_round_bracket: "in_bracket LosersBracket (losers_round fid rnd seq slots)"
  unfolding in_bracket_def losers_round_def using bracket_paired_round by blast

lemma losers_round_slots: "even (length slots) \<Longrightarrow> slots_of (losers_round fid rnd seq slots) = slots"
  by (simp add: losers_round_def slots_paired_round)

lemma length_losers_round [simp]: "length (losers_round fid rnd seq slots) = length slots div 2"
  by (simp add: losers_round_def)

lemma interleave_simps [simp]:
  "interleave (x # xs) (y # ys) = x # y # interleave xs ys" "interleave [] ys = []" "interleave xs [] = []"
  by (simp_all add: interleave_def)

lemma length_interleave: "length xs = length ys \<Longrightarrow> length (interleave xs ys) = 2 * length xs"
  by (induction xs ys rule: list_induct2) auto

lemma mset_interleave: "length xs = length ys \<Longrightarrow> mset (interleave xs ys) = mset xs + mset ys"
  by (induction xs ys rule: list_induct2) auto

lemma integration_round_spec:
  assumes "length previous = length incoming"
  shows "mset (slots_of (integration_round fid rnd seq previous incoming)) =
      mset (map winner_slot previous) + mset (map loser_slot incoming)"
    and "length (integration_round fid rnd seq previous incoming) = length incoming"
  using assms by (simp_all add: integration_round_def losers_round_slots length_interleave mset_interleave)

text \<open>The sizes for which the loop pairs everything: a round of the winners bracket is as large as
  \<^verbatim>\<open>previous\<close> or half as large.\<close>

fun fits :: "nat \<Rightarrow> nat list \<Rightarrow> bool" where
  "fits p [] = True"
| "fits p (q # qs) = ((q = p \<or> 2 * q = p \<and> 0 < q) \<and> fits q qs)"

definition losers_spec ::
    "string \<Rightarrow> nat \<Rightarrow> static_contest list \<Rightarrow> static_contest list list \<Rightarrow> static_contest list \<Rightarrow> static_contest list \<Rightarrow> bool" where
  "losers_spec fid rnd previous rds cs lst \<longleftrightarrow>
     mset (slots_of cs) + mset (map winner_slot lst) =
       mset (map winner_slot previous) + mset (map winner_slot cs) + mset (map loser_slot (concat rds))
   \<and> length lst = last (length previous # map length rds)
   \<and> ids_in fid ''L'' {rnd<..} cs \<and> in_bracket LosersBracket cs
   \<and> (\<forall>known. sc_id ` set previous \<union> sc_id ` set (concat rds) \<subseteq> known \<longrightarrow> topological known cs)
   \<and> sc_id ` set lst \<subseteq> sc_id ` set previous \<union> sc_id ` set cs"

lemma in_bracket_append [simp]: "in_bracket br (as @ bs) \<longleftrightarrow> in_bracket br as \<and> in_bracket br bs"
  by (auto simp: in_bracket_def)

lemma losers_specD:
  assumes "losers_spec fid rnd previous rds cs lst"
  shows "mset (slots_of cs) + mset (map winner_slot lst) =
      mset (map winner_slot previous) + mset (map winner_slot cs) + mset (map loser_slot (concat rds))" (is ?A)
    and "length lst = last (length previous # map length rds)" (is ?B)
    and "ids_in fid ''L'' {rnd<..} cs" (is ?C) and "in_bracket LosersBracket cs" (is ?D)
    and "sc_id ` set previous \<union> sc_id ` set (concat rds) \<subseteq> known \<Longrightarrow> topological known cs"
    and "sc_id ` set lst \<subseteq> sc_id ` set previous \<union> sc_id ` set cs" (is ?F)
proof -
  note all = assms [unfolded losers_spec_def]
  from all show ?A by (elim conjE)
  from all show ?B by (elim conjE)
  from all show ?C by (elim conjE)
  from all show ?D by (elim conjE)
  from all show ?F by (elim conjE)
  from all have "\<forall>known. sc_id ` set previous \<union> sc_id ` set (concat rds) \<subseteq> known \<longrightarrow> topological known cs" by (elim conjE)
  then show "sc_id ` set previous \<union> sc_id ` set (concat rds) \<subseteq> known \<Longrightarrow> topological known cs" by blast
qed

lemma losers_specI:
  assumes "mset (slots_of cs) + mset (map winner_slot lst) =
      mset (map winner_slot previous) + mset (map winner_slot cs) + mset (map loser_slot (concat rds))"
    and "length lst = last (length previous # map length rds)"
    and "ids_in fid ''L'' {rnd<..} cs" and "in_bracket LosersBracket cs"
    and "\<And>known. sc_id ` set previous \<union> sc_id ` set (concat rds) \<subseteq> known \<Longrightarrow> topological known cs"
    and "sc_id ` set lst \<subseteq> sc_id ` set previous \<union> sc_id ` set cs"
  shows "losers_spec fid rnd previous rds cs lst"
  unfolding losers_spec_def by (intro conjI allI impI assms)

lemma losers_spec_cons:
  assumes spec: "losers_spec fid (Suc rnd) rd rds cs lst"
    and rd: "rd = losers_round fid (Suc rnd) seq slots" "even (length slots)"
    and slots: "mset slots = mset (map winner_slot previous) + mset (map loser_slot ins)"
  shows "mset (slots_of (rd @ cs)) + mset (map winner_slot lst) =
      mset (map winner_slot previous) + mset (map winner_slot (rd @ cs)) + mset (map loser_slot (ins @ concat rds))"
    and "ids_in fid ''L'' {rnd<..} (rd @ cs)" and "in_bracket LosersBracket (rd @ cs)"
    and "sc_id ` set previous \<union> sc_id ` set (ins @ concat rds) \<subseteq> known \<Longrightarrow> topological known (rd @ cs)"
    and "sc_id ` set lst \<subseteq> sc_id ` set previous \<union> sc_id ` set (rd @ cs)"
proof -
  note parts = losers_specD [OF spec]
  have eq: "slots_of rd = slots" using rd by (simp add: losers_round_slots)
  show "mset (slots_of (rd @ cs)) + mset (map winner_slot lst) =
      mset (map winner_slot previous) + mset (map winner_slot (rd @ cs)) + mset (map loser_slot (ins @ concat rds))"
    using parts(1) by (simp add: eq slots)
  show "ids_in fid ''L'' {rnd<..} (rd @ cs)"
    by (rule ids_in_append [OF _ parts(3), of "{Suc rnd}"]) (auto simp: rd(1) losers_round_ids)
  show "in_bracket LosersBracket (rd @ cs)" using parts(4) by (simp add: rd(1) losers_round_bracket)
  show "sc_id ` set lst \<subseteq> sc_id ` set previous \<union> sc_id ` set (rd @ cs)" using parts(6) by auto
  assume known: "sc_id ` set previous \<union> sc_id ` set (ins @ concat rds) \<subseteq> known"
  have "topological known rd"
  proof (rule topological_slots, unfold eq)
    have "set slots = winner_slot ` set previous \<union> loser_slot ` set ins"
      using arg_cong [OF slots, of set_mset] by simp
    then show "\<forall>s \<in> set slots. set (slot_source s) \<subseteq> known" using known by auto
  qed
  moreover have "topological (known \<union> sc_id ` set rd) cs" using known by (intro parts(5)) (simp add: image_Un, blast)
  ultimately show "topological known (rd @ cs)" by (simp add: topological_append)
qed

lemma losers_spec_integrate:
  assumes "losers_spec fid (Suc rnd) rd rds cs lst" "rd = integration_round fid (Suc rnd) seq previous incoming"
    "length previous = length incoming"
  shows "losers_spec fid rnd previous (incoming # rds) (rd @ cs) lst"
proof -
  let ?slots = "interleave (map winner_slot previous) (map loser_slot incoming)"
  have "rd = losers_round fid (Suc rnd) seq ?slots" "even (length ?slots)"
    "mset ?slots = mset (map winner_slot previous) + mset (map loser_slot incoming)"
    using assms(2,3) by (simp_all add: integration_round_def length_interleave mset_interleave)
  note step = losers_spec_cons [OF assms(1) this]
  have "length lst = last (length previous # map length (incoming # rds))"
    using losers_specD(2) [OF assms(1)] integration_round_spec(2) [OF assms(3)] assms(2) by simp
  then show ?thesis using step by (intro losers_specI) simp_all
qed

lemma losers_spec_contract:
  assumes "losers_spec fid (Suc rnd) rd (incoming # rds) cs lst" "rd = losers_round fid (Suc rnd) seq (map winner_slot previous)"
    "even (length previous)"
  shows "losers_spec fid rnd previous (incoming # rds) (rd @ cs) lst"
proof -
  note step = losers_spec_cons [OF assms(1,2), of previous "[]"]
  have "length lst = last (length previous # map length (incoming # rds))" using losers_specD(2) [OF assms(1)] by simp
  then show ?thesis using step assms(3) by (intro losers_specI) simp_all
qed

lemma losers_rounds_spec:
  assumes "fits (length previous) (map length rds)" "losers_rounds fid rnd seq previous rds = (cs, lst)"
  shows "losers_spec fid rnd previous rds cs lst"
  using assms
proof (induction fid rnd seq previous rds arbitrary: cs lst rule: losers_rounds.induct)
  case (1 fid rnd seq previous)
  then show ?case by (auto simp: losers_spec_def ids_in_def in_bracket_def)
next
  case (2 fid rnd seq previous incoming rds)
  show ?case
  proof (cases "length incoming < length previous")
    case True
    then have half: "2 * length incoming = length previous" using "2.prems"(1) by auto
    define con where "con = losers_round fid (rnd + 1) seq (map winner_slot previous)"
    define int where "int = integration_round fid (rnd + 2) (seq + length con) con incoming"
    obtain cs' lst' where rec: "losers_rounds fid (rnd + 2) (seq + length con + length int) int rds = (cs', lst')"
      by fastforce
    have res: "cs = con @ int @ cs'" "lst = lst'"
      using "2.prems"(2) True rec by (simp_all add: con_def int_def Let_def)
    have len: "length con = length incoming" using half by (simp add: con_def)
    have "fits (length int) (map length rds)" using "2.prems"(1) integration_round_spec(2) [OF len] by (simp add: int_def)
    from "2.IH"(1) [OF True con_def int_def this rec] show ?thesis
      unfolding res using losers_spec_integrate [of fid "rnd + 1"] losers_spec_contract len half int_def con_def
      by (metis Suc_eq_plus1 add_2_eq_Suc' dvd_triv_left)
  next
    case False
    define int where "int = integration_round fid (rnd + 1) seq previous incoming"
    obtain cs' lst' where rec: "losers_rounds fid (rnd + 1) (seq + length int) int rds = (cs', lst')"
      by fastforce
    have res: "cs = int @ cs'" "lst = lst'"
      using "2.prems"(2) False rec by (simp_all add: int_def Let_def)
    have len: "length previous = length incoming" using "2.prems"(1) False by auto
    have "fits (length int) (map length rds)" using "2.prems"(1) integration_round_spec(2) [OF len] by (simp add: int_def)
    from "2.IH"(2) [OF False int_def this rec] show ?thesis
      unfolding res using losers_spec_integrate [OF _ _ len] int_def by simp
  qed
qed

section \<open>Double elimination\<close>

lemma halving_sizes: "map (\<lambda>j. (2::nat) ^ (Suc m - j)) [0..<Suc (Suc m)] = 2 ^ Suc m # map (\<lambda>j. 2 ^ (m - j)) [0..<Suc m]"
  by (simp add: upt_conv_Cons map_Suc_upt [symmetric] comp_def del: upt_Suc)

lemma fits_powers: "fits (2 ^ Suc m) (map (\<lambda>j. 2 ^ (m - j)) [0..<Suc m])"
proof (induction m)
  case (Suc m)
  then show ?case unfolding halving_sizes by simp
qed simp

lemma ids_disjoint:
  assumes "sc_id ` set as \<subseteq> {match_id fid ''W'' r i | r i. rnd \<le> r}" "ids_in fid ''L'' R bs"
  shows "sc_id ` set as \<inter> sc_id ` set bs = {}"
proof (rule equals0I)
  fix x
  assume x: "x \<in> sc_id ` set as \<inter> sc_id ` set bs"
  then have "x \<in> {match_id fid ''W'' r i | r i. rnd \<le> r}" using assms(1) by blast
  then obtain r i where "x = match_id fid ''W'' r i" by auto
  moreover obtain s j where "x = match_id fid ''L'' s j" using x assms(2) by (auto simp: ids_in_def)
  ultimately show False using match_id_inject [of fid "''W''" r i "''L''" s j] by simp
qed

lemma final_ids: "match_id fid ''W'' r i \<noteq> fid @ ''.GF'' @ u" "match_id fid ''L'' r i \<noteq> fid @ ''.GF'' @ u"
  by (simp_all add: match_id_def)

text \<open>What \<open>losers_bracket\<close> returns for the rounds of a winners bracket with \<open>2 ^ k\<close> entrants, \<open>2 \<le> k\<close>.\<close>

lemma losers_bracket_spec:
  assumes "map length rds = map (\<lambda>j. 2 ^ (k - 1 - j)) [0..<k]" "2 \<le> k" "losers_bracket fid seq rds = (ls, lower)"
  shows "mset (slots_of ls) + {#lower#} = mset (map winner_slot ls) + mset (map loser_slot (concat rds))"
    and "ids_in fid ''L'' {0<..} ls" and "in_bracket LosersBracket ls"
    and "sc_id ` set (concat rds) \<subseteq> known \<Longrightarrow> topological known ls"
    and "set (slot_source lower) \<subseteq> sc_id ` set ls"
proof -
  obtain m where k: "k = Suc (Suc m)" using assms(2) by (metis add_2_eq_Suc le_Suc_ex)
  have sizes: "map length rds = 2 ^ Suc m # map (\<lambda>j. 2 ^ (m - j)) [0..<Suc m]"
    using assms(1) by (simp add: k upt_conv_Cons map_Suc_upt [symmetric] comp_def del: upt_Suc)
  then obtain rd rest where rds: "rds = rd # rest" "length rd = 2 ^ Suc m" "map length rest = map (\<lambda>j. 2 ^ (m - j)) [0..<Suc m]"
    by (auto simp: map_eq_Cons_conv simp del: upt_Suc)
  define first where "first = losers_round fid 1 seq (map loser_slot rd)"
  obtain cs lst where rec: "losers_rounds fid 1 (seq + length first) first rest = (cs, lst)" by fastforce
  have len: "length first = 2 ^ m" by (simp add: first_def rds(2))
  have rest: "rest \<noteq> []" using rds(3) by auto
  have "fits (length first) (map length rest)"
    using fits_powers by (cases m) (simp_all add: len rds(3) upt_conv_Cons map_Suc_upt [symmetric] comp_def del: upt_Suc)
  note spec = losers_specD [OF losers_rounds_spec [OF this rec]]
  have "length lst = 1" using spec(2) rest rds(3) by (simp add: last_map)
  then obtain c where lst: "lst = [c]" by (auto simp: length_Suc_conv)
  have res: "ls = first @ cs" "lower = winner_slot c"
    using assms(3) rec lst by (simp_all add: losers_bracket_def rds(1) first_def Let_def)
  have slots: "slots_of first = map loser_slot rd"
    unfolding first_def using rds(2) by (intro losers_round_slots) simp
  show "mset (slots_of ls) + {#lower#} = mset (map winner_slot ls) + mset (map loser_slot (concat rds))"
    using spec(1) by (simp add: res slots lst rds(1))
  show "ids_in fid ''L'' {0<..} ls" unfolding res(1)
    by (rule ids_in_append [OF _ spec(3), of "{1}"]) (use losers_round_ids [of fid 1 seq] in \<open>auto simp: first_def\<close>)
  show "in_bracket LosersBracket ls" using spec(4) by (simp add: res(1) first_def losers_round_bracket)
  show "set (slot_source lower) \<subseteq> sc_id ` set ls" using spec(6) by (auto simp: res lst)
  assume known: "sc_id ` set (concat rds) \<subseteq> known"
  then have "topological known first" by (intro topological_slots) (auto simp: slots rds(1))
  moreover have "topological (known \<union> sc_id ` set first) cs"
    using known by (intro spec(5)) (simp add: rds(1) image_Un, blast)
  ultimately show "topological known ls" by (simp add: res(1) topological_append)
qed

text \<open>The contests of a double elimination: winners bracket, losers bracket, final, and perhaps the reset.\<close>

definition double_elimination_parts ::
    "string \<Rightarrow> nat \<Rightarrow> static_contest list \<Rightarrow> static_contest list \<Rightarrow> static_contest \<Rightarrow> bool" where
  "double_elimination_parts fid n ws ls final \<longleftrightarrow>
     mset (slots_of (ws @ ls @ [final])) =
       mset (entrant_slots n) + mset (map winner_slot ws) + mset (map loser_slot ws) + mset (map winner_slot ls)
   \<and> length ws + 1 = n \<and> in_bracket WinnersBracket ws \<and> in_bracket LosersBracket ls \<and> sc_bracket final = FinalsBracket \<and> sc_required final
   \<and> sc_id final = fid @ ''.GF1'' \<and> sc_condition final = None
   \<and> distinct (map sc_id (ws @ ls @ [final])) \<and> fid @ ''.GF2'' \<notin> sc_id ` set (ws @ ls @ [final])
   \<and> topological {} (ws @ ls @ [final])"

lemma double_elimination_partsI:
  assumes n: "n = 2 ^ k" "0 < k" and run: "winners_rounds fid label 1 1 (entrant_slots n) = (rds, fin)"
    and lower: "(ls, lower) = (if 2 < n then losers_bracket fid seq rds else ([], loser_slot (hd (last rds))))"
    and final: "final = final_contest fid r s (winner_slot (hd (last rds)), lower)"
  shows "double_elimination_parts fid n (concat rds) ls final"
proof -
  let ?ws = "concat rds"
  have "length (entrant_slots n) = 2 ^ k" by (simp add: entrant_slots_def n)
  note W = winners_rounds_spec [OF this run]
  have acct: "mset (slots_of ?ws) + mset fin = mset (entrant_slots n) + mset (map winner_slot ?ws)"
    and sizes: "map length rds = map (\<lambda>j. 2 ^ (k - 1 - j)) [0..<k]"
    and fin: "fin = [winner_slot (hd (last rds))]" and dist: "distinct (map sc_id ?ws)"
    and wids: "sc_id ` set ?ws \<subseteq> {match_id fid ''W'' r i | r i. 1 \<le> r}"
    and wbr: "in_bracket WinnersBracket ?ws" and wtop: "topological {} ?ws"
    using W n(2) by (auto simp: in_bracket_def entrant_slots_def)
  have "length rds = k" using arg_cong [OF sizes, of length] by simp
  then have last: "last rds \<in> set rds" using n(2) by (intro last_in_set) auto
  moreover have "length (last rds) = 1" using sizes n(2) \<open>length rds = k\<close>
    by (metis (no_types, lifting) diff_less diff_self_eq_0 last_conv_nth last_map length_0_conv length_map length_upt less_numeral_extra(1)
        less_numeral_extra(3) minus_nat.diff_0 nth_map nth_upt plus_nat.add_0 power_0)
  then obtain wf where wf: "last rds = [wf]" by (auto simp: length_Suc_conv)
  ultimately have "[wf] \<in> set rds" by simp
  then have wf_in: "wf \<in> set ?ws" by (auto intro: bexI [of _ "[wf]"])
  have L: "mset (slots_of ls) + {#lower#} = mset (map winner_slot ls) + mset (map loser_slot ?ws)
    \<and> ids_in fid ''L'' {0<..} ls \<and> in_bracket LosersBracket ls \<and> topological (sc_id ` set ?ws) ls
    \<and> set (slot_source lower) \<subseteq> sc_id ` set ?ws \<union> sc_id ` set ls"
  proof (cases "k = 1")
    case True
    then have "ls = []" "lower = loser_slot wf" using lower wf by (simp_all add: n)
    moreover have "?ws = [wf]"
    proof -
      obtain rd where "rds = [rd]" using True \<open>length rds = k\<close> by (auto simp: length_Suc_conv)
      then show ?thesis using wf by simp
    qed
    ultimately show ?thesis by (simp add: ids_in_def in_bracket_def)
  next
    case False
    then have k: "2 \<le> k" using n(2) by simp
    then have "(2::nat) ^ 2 \<le> 2 ^ k" by (intro power_increasing) simp_all
    then have "losers_bracket fid seq rds = (ls, lower)" using lower by (simp add: n)
    note spec = losers_bracket_spec [OF sizes k this]
    show ?thesis using spec(1-4) spec(5) by (intro conjI spec) auto
  qed
  have slots: "sc_inputs final = (winner_slot wf, lower)" "sc_id final = fid @ ''.GF1''"
    "sc_bracket final = FinalsBracket" "sc_required final" "sc_condition final = None"
    using final wf by (simp_all add: final_contest_def)
  have acct': "mset (slots_of ?ws) + {#winner_slot wf#} = mset (entrant_slots n) + mset (map winner_slot ?ws)"
    using acct by (simp add: fin wf)
  have count: "length ?ws + 1 = n"
    using arg_cong [OF acct', of size] by (simp add: length_slots_of entrant_slots_def del: length_concat)
  have names: "x \<notin> {fid @ ''.GF1'', fid @ ''.GF2''}" if "x \<in> sc_id ` set (?ws @ ls)" for x
  proof -
    have "x \<in> {match_id fid ''W'' r i | r i. 1 \<le> r} \<or> x \<in> sc_id ` set ls" using that subsetD [OF wids, of x] unfolding set_append image_Un by blast
    then have "\<exists>tag r i. tag \<in> {''W'', ''L''} \<and> x = match_id fid tag r i" using L unfolding ids_in_def by blast
    then show ?thesis by (auto simp: match_id_def)
  qed
  have dist_all: "distinct (map sc_id (?ws @ ls))"
    using dist L ids_disjoint [OF wids, of "{0<..}" ls] by (simp add: ids_in_def)
  have "mset (slots_of (?ws @ ls @ [final])) =
      (mset (slots_of ?ws) + {#winner_slot wf#}) + (mset (slots_of ls) + {#lower#})"
    by (simp add: slots)
  also have "\<dots> = mset (entrant_slots n) + mset (map winner_slot ?ws) + mset (map loser_slot ?ws) + mset (map winner_slot ls)"
    unfolding acct' using L by simp
  finally have mset: "mset (slots_of (?ws @ ls @ [final])) =
      mset (entrant_slots n) + mset (map winner_slot ?ws) + mset (map loser_slot ?ws) + mset (map winner_slot ls)" .
  have "topological (sc_id ` set ?ws \<union> sc_id ` set ls) [final]"
    using L wf_in by (simp add: sources_def slots)
  then have top: "topological {} (?ws @ ls @ [final])" using wtop L by (simp add: topological_append)
  have "sc_id final \<notin> set (map sc_id (?ws @ ls))" unfolding set_map slots(2) using names by blast
  then have dist_final: "distinct (map sc_id (?ws @ ls @ [final]))" using dist_all by simp
  have "fid @ ''.GF2'' \<notin> set (map sc_id (?ws @ ls))" unfolding set_map using names by blast
  then have "fid @ ''.GF2'' \<notin> sc_id ` set (?ws @ ls @ [final])" using slots(2) by auto
  moreover have "in_bracket LosersBracket ls" using L by (elim conjE)
  ultimately show ?thesis
    unfolding double_elimination_parts_def by (intro conjI mset count wbr slots dist_final top)
qed

lemma double_elimination_shape:
  assumes n: "n = 2 ^ k" "0 < k"
  obtains ws ls final r s where "double_elimination_parts fid n ws ls final"
    "double_elimination fid n NeverReset = (ws @ ls @ [final], ContestWinner (sc_id final))"
    "double_elimination fid n ResetIfNecessary =
      (ws @ ls @ [final, reset_contest fid r s final], ResetAware (sc_id final) (fid @ ''.GF2''))"
proof -
  obtain rds fin where run: "winners_rounds fid ''Winners round '' 1 1 (entrant_slots n) = (rds, fin)" by fastforce
  obtain ls lower where lower:
    "(ls, lower) = (if 2 < n then losers_bracket fid (length (concat rds) + 1) rds else ([], loser_slot (hd (last rds))))"
    by (metis surj_pair)
  let ?final = "final_contest fid (length rds + 1) (length (concat rds) + length ls + 1) (winner_slot (hd (last rds)), lower)"
  show thesis
  proof (rule that)
    show "double_elimination_parts fid n (concat rds) ls ?final"
      by (rule double_elimination_partsI [OF n run lower refl])
    show "double_elimination fid n NeverReset = (concat rds @ ls @ [?final], ContestWinner (sc_id ?final))"
      "double_elimination fid n ResetIfNecessary = (concat rds @ ls @ [?final,
        reset_contest fid (length rds + 2) (length (concat rds) + length ls + 1 + 1) ?final], ResetAware (sc_id ?final) (fid @ ''.GF2''))"
      unfolding double_elimination_def run Let_def prod.case lower [symmetric]
      by (simp_all add: reset_contest_def del: length_concat)
  qed
qed

definition bracket_contests :: "bracket \<Rightarrow> static_contest list \<Rightarrow> static_contest list" where
  "bracket_contests br cs = filter (\<lambda>c. sc_bracket c = br) cs"

lemma bracket_contests_append [simp]: "bracket_contests br (as @ bs) = bracket_contests br as @ bracket_contests br bs"
  by (simp add: bracket_contests_def)

lemma bracket_contests_simps [simp]:
  "bracket_contests br [] = []"
  "bracket_contests br (c # cs) = (if sc_bracket c = br then c # bracket_contests br cs else bracket_contests br cs)"
  by (simp_all add: bracket_contests_def)

lemma bracket_contests_in: "in_bracket br cs \<Longrightarrow> bracket_contests br' cs = (if br' = br then cs else [])"
  by (auto simp: bracket_contests_def in_bracket_def filter_id_conv filter_empty_conv)

lemma required_in: "in_bracket br cs \<Longrightarrow> filter sc_required cs = cs" "in_bracket br cs \<Longrightarrow> filter (\<lambda>c. \<not> sc_required c) cs = []"
  by (auto simp: in_bracket_def filter_id_conv filter_empty_conv)

lemma required_slots:
  assumes "n = 2 ^ k" "0 < k" "double_elimination fid n reset = (cs, champion)"
  shows "mset (slots_of (filter sc_required cs)) = mset (entrant_slots n)
      + mset (map winner_slot (bracket_contests WinnersBracket cs)) + mset (map loser_slot (bracket_contests WinnersBracket cs))
      + mset (map winner_slot (bracket_contests LosersBracket cs))
    \<and> length (bracket_contests WinnersBracket cs) = n - 1 \<and> length (bracket_contests LosersBracket cs) = n - 2
    \<and> (\<exists>final. bracket_contests FinalsBracket (filter sc_required cs) = [final] \<and>
        (case reset of
           NeverReset \<Rightarrow> champion = ContestWinner (sc_id final) \<and> filter (\<lambda>c. \<not> sc_required c) cs = []
         | ResetIfNecessary \<Rightarrow> (\<exists>again. filter (\<lambda>c. \<not> sc_required c) cs = [again] \<and>
             champion = ResetAware (sc_id final) (sc_id again) \<and>
             sc_inputs again = (winner_slot final, loser_slot final) \<and> sc_condition again = Some (sc_id final, 1))))"
proof -
  obtain ws ls final r s where p: "double_elimination_parts fid n ws ls final" and
    never: "double_elimination fid n NeverReset = (ws @ ls @ [final], ContestWinner (sc_id final))" and
    again: "double_elimination fid n ResetIfNecessary =
      (ws @ ls @ [final, reset_contest fid r s final], ResetAware (sc_id final) (fid @ ''.GF2''))"
    by (rule double_elimination_shape [OF assms(1,2)])
  note parts = p [unfolded double_elimination_parts_def]
  from parts have mset: "mset (slots_of (ws @ ls @ [final])) =
      mset (entrant_slots n) + mset (map winner_slot ws) + mset (map loser_slot ws) + mset (map winner_slot ls)" by (elim conjE)
  from parts have len: "length ws + 1 = n" by (elim conjE)
  from parts have br: "in_bracket WinnersBracket ws \<and> in_bracket LosersBracket ls \<and>
      sc_bracket final = FinalsBracket \<and> sc_required final" by (elim conjE, intro conjI)
  have "2 * (length ws + length ls + 1) = n + 2 * length ws + length ls"
    using arg_cong [OF mset, of size]
    by (simp only: size_union size_mset length_slots_of length_append length_map list.size entrant_slots_def length_upt) arith
  then have lens: "length ws = n - 1" "length ls = n - 2" using len by arith+
  have req: "filter sc_required (ws @ ls @ final # xs) = ws @ ls @ final # filter sc_required xs"
      "filter (\<lambda>c. \<not> sc_required c) (ws @ ls @ final # xs) = filter (\<lambda>c. \<not> sc_required c) xs"
      "bracket_contests WinnersBracket (ws @ ls @ final # xs) = ws @ bracket_contests WinnersBracket xs"
      "bracket_contests LosersBracket (ws @ ls @ final # xs) = ls @ bracket_contests LosersBracket xs"
      "bracket_contests FinalsBracket (ws @ ls @ final # xs) = final # bracket_contests FinalsBracket xs" for xs
    using br by (simp_all add: bracket_contests_in [of WinnersBracket ws] bracket_contests_in [of LosersBracket ls]
        required_in [of WinnersBracket ws] required_in [of LosersBracket ls])
  show ?thesis
  proof (cases reset)
    case NeverReset
    then have cs: "cs = ws @ ls @ [final]" "champion = ContestWinner (sc_id final)" using never assms(3) by simp_all
    show ?thesis unfolding cs req NeverReset using mset lens by simp
  next
    case ResetIfNecessary
    then have cs: "cs = ws @ ls @ [final, reset_contest fid r s final]" "champion = ResetAware (sc_id final) (fid @ ''.GF2'')"
      using again assms(3) by simp_all
    show ?thesis unfolding cs req ResetIfNecessary using mset lens by (simp add: reset_contest_def)
  qed
qed

text \<open>
  C9. Double elimination of \<open>2 ^ k\<close> entrants. In the required contests every entrant starts exactly
  once; the winner and the loser of each winners-bracket contest go to exactly one place each, so the
  first defeat has one destination; of a losers-bracket contest only the winner goes on, to one
  place, so the second defeat is the last. There are \<open>n - 1\<close> contests in the winners bracket, \<open>n - 2\<close> in
  the losers bracket and one final. The conditional contests are none, or the reset between
  the two finalists, played when the lower finalist (slot 1) won.
\<close>

theorem double_elimination_accounts:
  assumes "n = 2 ^ k" "0 < k" "double_elimination fid n reset = (cs, champion)"
  shows "mset (slots_of (filter sc_required cs)) = mset (entrant_slots n)
      + mset (map winner_slot (bracket_contests WinnersBracket cs)) + mset (map loser_slot (bracket_contests WinnersBracket cs))
      + mset (map winner_slot (bracket_contests LosersBracket cs))
    \<and> length (bracket_contests WinnersBracket cs) = n - 1 \<and> length (bracket_contests LosersBracket cs) = n - 2
    \<and> (\<exists>final. bracket_contests FinalsBracket (filter sc_required cs) = [final] \<and>
        (case reset of
           NeverReset \<Rightarrow> champion = ContestWinner (sc_id final) \<and> filter (\<lambda>c. \<not> sc_required c) cs = []
         | ResetIfNecessary \<Rightarrow> (\<exists>again. filter (\<lambda>c. \<not> sc_required c) cs = [again] \<and>
             champion = ResetAware (sc_id final) (sc_id again) \<and>
             sc_inputs again = (winner_slot final, loser_slot final) \<and> sc_condition again = Some (sc_id final, 1))))"
  by (rule required_slots [OF assms])

lemma double_elimination_accounts_witness:
  "length (bracket_contests LosersBracket (fst (double_elimination ''F'' 4 ResetIfNecessary))) = 2
   \<and> mset (slots_of (filter sc_required (fst (double_elimination ''F'' 4 NeverReset)))) =
      mset (entrant_slots 4) + mset (map winner_slot (bracket_contests WinnersBracket (fst (double_elimination ''F'' 4 NeverReset))))
      + mset (map loser_slot (bracket_contests WinnersBracket (fst (double_elimination ''F'' 4 NeverReset))))
      + mset (map winner_slot (bracket_contests LosersBracket (fst (double_elimination ''F'' 4 NeverReset))))"
  using double_elimination_accounts [of 4 2 "''F''" ResetIfNecessary "fst (double_elimination ''F'' 4 ResetIfNecessary)"
      "snd (double_elimination ''F'' 4 ResetIfNecessary)"]
    double_elimination_accounts [of 4 2 "''F''" NeverReset "fst (double_elimination ''F'' 4 NeverReset)"
      "snd (double_elimination ''F'' 4 NeverReset)"]
  by simp

section \<open>Round robin\<close>

fun proper :: "(nat option \<times> nat option) list \<Rightarrow> (nat \<times> nat) list" where
  "proper [] = []"
| "proper ((Some a, Some b) # ps) = (a, b) # proper ps"
| "proper (_ # ps) = proper ps"

fun orient :: "bool \<Rightarrow> nat \<times> nat \<Rightarrow> contest_slot \<times> contest_slot" where
  "orient reversed (a, b) = (if reversed then (EntrantSlot b, EntrantSlot a) else (EntrantSlot a, EntrantSlot b))"

text \<open>The inputs of the contests of a leg: the orientation alternates with the rounds.\<close>

fun turn :: "bool \<Rightarrow> (nat option \<times> nat option) list list \<Rightarrow> (contest_slot \<times> contest_slot) list" where
  "turn reversed [] = []"
| "turn reversed (ps # pss) = map (orient reversed) (proper ps) @ turn (\<not> reversed) pss"

definition pairing :: "static_contest \<Rightarrow> contest_slot set" where
  "pairing c = {fst (sc_inputs c), snd (sc_inputs c)}"

lemma rr_contests_inputs: "map sc_inputs (rr_contests fid rnd reversed seq i ps) = map (orient reversed) (proper ps)"
  by (induction fid rnd reversed seq i ps rule: rr_contests.induct) auto

lemma rr_contests_shape:
  "c \<in> set (rr_contests fid rnd reversed seq i ps) \<Longrightarrow> (\<exists>j. sc_id c = match_id fid ''RR'' rnd (i + j)) \<and>
     sc_round c = rnd \<and> sc_required c \<and> sc_bracket c = RoundRobinBracket"
proof (induction fid rnd reversed seq i ps rule: rr_contests.induct [case_names none both left right])
  case (both fid rnd reversed seq i a b ps)
  show ?case
  proof (cases "c \<in> set (rr_contests fid rnd reversed (seq + 1) (i + 1) ps)")
    case True
    then obtain j where "sc_id c = match_id fid ''RR'' rnd (i + Suc j)" using both.IH by auto
    then show ?thesis using True both.IH by blast
  next
    case False
    then have "sc_id c = match_id fid ''RR'' rnd (i + 0)" using both.prems by simp
    then show ?thesis using False both.prems by (intro conjI exI [of _ 0]) simp_all
  qed
next
  case (left fid rnd reversed seq i y ps)
  then obtain j where "sc_id c = match_id fid ''RR'' rnd (i + Suc j)" by auto
  then show ?case using left by (intro conjI exI [of _ "Suc j"]) simp_all
next
  case (right fid rnd reversed seq i x ps)
  then obtain j where "sc_id c = match_id fid ''RR'' rnd (i + Suc j)" by auto
  then show ?case using right by (intro conjI exI [of _ "Suc j"]) simp_all
qed simp

lemma rr_contests_distinct: "distinct (map sc_id (rr_contests fid rnd reversed seq i ps))"
proof (induction fid rnd reversed seq i ps rule: rr_contests.induct)
  case (2 fid rnd reversed seq i left right ps)
  let ?cs = "rr_contests fid rnd reversed (seq + 1) (i + 1) ps"
  have "match_id fid ''RR'' rnd i \<noteq> sc_id c" if "c \<in> set ?cs" for c
  proof
    assume eq: "match_id fid ''RR'' rnd i = sc_id c"
    obtain j where "sc_id c = match_id fid ''RR'' rnd (i + 1 + j)" using rr_contests_shape [OF \<open>c \<in> set ?cs\<close>] by blast
    then show False using match_id_inject [of fid "''RR''" rnd i "''RR''" rnd "i + 1 + j"] eq by simp
  qed
  then have "match_id fid ''RR'' rnd i \<notin> sc_id ` set ?cs" by blast
  then show ?case using 2 by simp
qed simp_all

lemma rr_contests_ids: "ids_in fid ''RR'' {rnd} (rr_contests fid rnd reversed seq i ps)"
  unfolding ids_in_def using rr_contests_distinct rr_contests_shape by blast

lemma players_simps [simp]: "players [] = []" "players ((x, y) # ps) = x # y # players ps"
  by (simp_all add: players_def)

lemma proper_players: "distinct (players ps) \<Longrightarrow> distinct (slots_of (rr_contests fid rnd reversed seq i ps)) \<and>
    (\<forall>x \<in> set (slots_of (rr_contests fid rnd reversed seq i ps)). \<exists>s. x = EntrantSlot s \<and> Some s \<in> set (players ps))"
  by (induction fid rnd reversed seq i ps rule: rr_contests.induct) auto

text \<open>Every entrant is in at most one contest of a round.\<close>

definition once_per_round :: "static_contest list \<Rightarrow> bool" where
  "once_per_round cs \<longleftrightarrow> (\<forall>q. distinct (slots_of (filter (\<lambda>c. sc_round c = q) cs)))"

lemma once_per_round_append:
  assumes "once_per_round as" "once_per_round bs" "sc_round ` set as \<inter> sc_round ` set bs = {}"
  shows "once_per_round (as @ bs)"
  unfolding once_per_round_def
proof
  fix q
  have "filter (\<lambda>c. sc_round c = q) as = [] \<or> filter (\<lambda>c. sc_round c = q) bs = []"
    using assms(3) by (auto simp: filter_empty_conv)
  then show "distinct (slots_of (filter (\<lambda>c. sc_round c = q) (as @ bs)))"
    using assms(1,2) by (auto simp: once_per_round_def)
qed

lemma rr_contests_once:
  assumes "distinct (players ps)"
  shows "once_per_round (rr_contests fid rnd reversed seq i ps)"
  unfolding once_per_round_def
proof
  fix q
  let ?cs = "rr_contests fid rnd reversed seq i ps"
  have "filter (\<lambda>c. sc_round c = q) ?cs = (if q = rnd then ?cs else [])"
    using rr_contests_shape by (auto simp: filter_id_conv filter_empty_conv)
  then show "distinct (slots_of (filter (\<lambda>c. sc_round c = q) ?cs))" using proper_players [OF assms] by simp
qed

text \<open>What \<open>rr_rounds\<close> and \<open>rr_legs\<close> return, for rounds \<open>lo < q \<le> hi\<close>.\<close>

definition rr_spec :: "string \<Rightarrow> nat \<Rightarrow> nat \<Rightarrow> (contest_slot \<times> contest_slot) list \<Rightarrow> static_contest list \<Rightarrow> bool" where
  "rr_spec fid lo hi ins cs \<longleftrightarrow> map sc_inputs cs = ins \<and> ids_in fid ''RR'' {lo<..hi} cs \<and>
     in_bracket RoundRobinBracket cs \<and> once_per_round cs \<and> sc_round ` set cs \<subseteq> {lo<..hi}"

lemma rr_spec_append:
  assumes as: "rr_spec fid lo mid ins as" and bs: "rr_spec fid mid hi ins' bs" and le: "lo \<le> mid" "mid \<le> hi"
  shows "rr_spec fid lo hi (ins @ ins') (as @ bs)"
proof -
  have "ids_in fid ''RR'' {lo<..hi} (as @ bs)"
    by (rule ids_in_append [of _ _ "{lo<..mid}" _ "{mid<..hi}"]) (use as bs le in \<open>auto simp: rr_spec_def\<close>)
  moreover have "once_per_round (as @ bs)"
    by (rule once_per_round_append) (use as bs in \<open>fastforce simp: rr_spec_def\<close>)+
  ultimately show ?thesis using as bs le by (fastforce simp: rr_spec_def)
qed

lemma rr_spec_Nil: "rr_spec fid lo hi [] []"
  by (simp add: rr_spec_def ids_in_def in_bracket_def once_per_round_def)

lemma rr_spec_round:
  assumes "distinct (players ps)"
  shows "rr_spec fid m (Suc m) (map (orient reversed) (proper ps)) (rr_contests fid (Suc m) reversed seq i ps)"
  using rr_contests_once [OF assms] rr_contests_ids [of fid "Suc m"] rr_contests_shape
  by (fastforce simp: rr_spec_def rr_contests_inputs in_bracket_def ids_in_def)

lemma rr_rounds_spec:
  assumes "2 \<le> length rot" "even (length rot)" "distinct rot"
    and "rr_rounds fid leg per_leg k rnd seq rot = (cs, seq', rot')"
  shows "rot' = (rotate_tail ^^ k) rot \<and>
    rr_spec fid (leg * per_leg + rnd) (leg * per_leg + rnd + k) (turn (odd (rnd + leg)) (circle k rot)) cs"
  using assms
proof (induction k arbitrary: rnd seq rot cs seq' rot')
  case 0
  then show ?case by (simp add: rr_spec_Nil)
next
  case (Suc k)
  define as where "as = rr_contests fid (leg * per_leg + rnd + 1) ((rnd + leg) mod 2 = 1) seq 1 (round_pairs rot)"
  obtain bs sq rt where rec: "rr_rounds fid leg per_leg k (rnd + 1) (seq + length as) (rotate_tail rot) = (bs, sq, rt)"
    by (metis surj_pair)
  have res: "cs = as @ bs" "rot' = rt" using Suc.prems(4) rec by (simp_all add: as_def Let_def)
  have mset: "mset (rotate_tail rot) = mset rot" by (rule mset_rotate_tail [OF Suc.prems(1)])
  have rot: "2 \<le> length (rotate_tail rot)" "even (length (rotate_tail rot))" "distinct (rotate_tail rot)"
    using Suc.prems(1-3) length_rotate_tail [OF Suc.prems(1)] mset_eq_imp_distinct_iff [OF mset] by simp_all
  from Suc.IH [OF rot rec] have IH: "rt = (rotate_tail ^^ k) (rotate_tail rot)"
    "rr_spec fid (leg * per_leg + (rnd + 1)) (leg * per_leg + (rnd + 1) + k)
      (turn (odd (rnd + 1 + leg)) (circle k (rotate_tail rot))) bs"
    by blast+
  have "distinct (players (round_pairs rot))"
    using mset_eq_imp_distinct_iff [OF round_pairs_mset [OF Suc.prems(2)]] Suc.prems(3) by blast
  from rr_spec_round [OF this, of fid "leg * per_leg + rnd" "odd (rnd + leg)" seq 1] have
    "rr_spec fid (leg * per_leg + rnd) (Suc (leg * per_leg + rnd)) (map (orient (odd (rnd + leg))) (proper (round_pairs rot))) as"
    unfolding as_def odd_iff_mod_2_eq_one [of "rnd + leg"] Suc_eq_plus1 .
  from rr_spec_append [OF this, of "leg * per_leg + rnd + Suc k"] IH(2)
  show ?case using IH(1) by (simp add: res funpow_swap1)
qed

lemma turn_swap: "turn (\<not> b) pss = map prod.swap (turn b pss)"
  by (induction b pss rule: turn.induct) auto

lemma proper_append [simp]: "proper (as @ bs) = proper as @ proper bs"
  by (induction as rule: proper.induct) auto

lemma turn_pairings: "map (\<lambda>(s, t). {s, t}) (turn b pss) = map ((`) EntrantSlot) (map (\<lambda>(x, y). {x, y}) (proper (concat pss)))"
  by (induction b pss rule: turn.induct) (auto simp: insert_commute split: if_splits)

lemma proper_edges:
  "map (\<lambda>(x, y). {x, y}) (proper ps) = map ((`) the) (filter (\<lambda>B. None \<notin> B) (map (\<lambda>(x, y). {x, y}) ps))"
  by (induction ps rule: proper.induct) auto

lemma initial_rotation:
  assumes "2 \<le> n"
  shows "2 \<le> length (initial_rotation n)" "even (length (initial_rotation n))" "distinct (initial_rotation n)"
    "set (initial_rotation n) = Some ` {1..n} \<union> (if odd n then {None} else {})"
  using assms by (auto simp: initial_rotation_def distinct_map)

lemma inj_the_image: "inj_on ((`) the) {B. None \<notin> B}"
proof (rule inj_onI)
  fix A B :: "'a option set"
  assume "A \<in> {B. None \<notin> B}" "B \<in> {B. None \<notin> B}" "the ` A = the ` B"
  moreover have "Some ` the ` C = C" if "None \<notin> C" for C :: "'a option set"
  proof -
    have "\<forall>x \<in> C. Some (the x) = x" using that by (metis option.collapse)
    then show ?thesis by (simp add: image_image cong: image_cong)
  qed
  ultimately show "A = B" by (metis mem_Collect_eq)
qed

lemma turn_pairs_once:
  assumes "2 \<le> n"
  defines "pss \<equiv> circle (length (initial_rotation n) - 1) (initial_rotation n)"
  shows "distinct (map (\<lambda>(s, t). {s, t}) (turn b pss))"
    and "set (map (\<lambda>(s, t). {s, t}) (turn b pss)) = (`) EntrantSlot ` {B. B \<subseteq> {1..n} \<and> card B = 2}"
proof -
  let ?rot = "initial_rotation n" and ?e = "\<lambda>(x, y). {x, y}"
  note rot = initial_rotation [OF assms(1)]
  note once = circle_pairs_once [OF rot(2,1,3), folded pss_def]
  let ?F = "filter (\<lambda>B. None \<notin> B) (map ?e (concat pss))"
  have edges: "map ?e (proper (concat pss)) = map ((`) the) ?F" by (rule proper_edges)
  have "distinct ?F" using once(1) by (rule distinct_filter)
  moreover have "inj_on ((`) the) (set ?F)" by (rule inj_on_subset [OF inj_the_image]) auto
  ultimately have "distinct (map ?e (proper (concat pss)))" unfolding edges distinct_map ..
  then show "distinct (map (\<lambda>(s, t). {s, t}) (turn b pss))"
    unfolding turn_pairings by (simp only: distinct_map) (auto intro!: inj_onI simp: inj_image_eq_iff inj_def)
  have "set ?F = {B. B \<subseteq> set ?rot \<and> card B = 2 \<and> None \<notin> B}"
    unfolding set_filter once(2) by auto
  also have "\<dots> = (`) Some ` {B. B \<subseteq> {1..n} \<and> card B = 2}"
  proof (intro set_eqI iffI)
    fix B
    assume "B \<in> {B. B \<subseteq> set ?rot \<and> card B = 2 \<and> None \<notin> B}"
    then have "B \<subseteq> Some ` {1..n}" "card B = 2" unfolding rot(4) by (auto split: if_splits)
    then obtain A where "B = Some ` A" "A \<subseteq> {1..n}" by (meson subset_imageE)
    moreover then have "card A = 2" using \<open>card B = 2\<close> by (simp add: card_image)
    ultimately show "B \<in> (`) Some ` {B. B \<subseteq> {1..n} \<and> card B = 2}" by blast
  next
    fix B
    assume "B \<in> (`) Some ` {B. B \<subseteq> {1..n} \<and> card B = 2}"
    then show "B \<in> {B. B \<subseteq> set ?rot \<and> card B = 2 \<and> None \<notin> B}" by (auto simp: rot(4) card_image)
  qed
  finally have F: "set ?F = (`) Some ` {B. B \<subseteq> {1..n} \<and> card B = 2}" .
  have "(`) the ` (`) Some ` X = X" for X :: "nat set set" by (simp add: image_comp comp_def)
  then have "set (map ?e (proper (concat pss))) = {B. B \<subseteq> {1..n} \<and> card B = 2}" unfolding edges set_map F .
  then show "set (map (\<lambda>(s, t). {s, t}) (turn b pss)) = (`) EntrantSlot ` {B. B \<subseteq> {1..n} \<and> card B = 2}"
    unfolding turn_pairings by (simp only: set_map)
qed

lemma round_robin_spec:
  assumes "2 \<le> n"
  defines "L \<equiv> length (initial_rotation n) - 1"
  defines "pss \<equiv> circle L (initial_rotation n)"
  shows "rr_spec fid 0 L (turn False pss) (round_robin fid n 1)"
    and "rr_spec fid 0 (2 * L) (turn False pss @ turn True pss) (round_robin fid n 2)"
proof -
  let ?rot = "initial_rotation n"
  note rot = initial_rotation(1-3) [OF assms(1)]
  obtain as seq r where A: "rr_rounds fid 0 L L 0 1 ?rot = (as, seq, r)" by (metis surj_pair)
  from rr_rounds_spec [OF rot A] have as: "rr_spec fid 0 L (turn False pss) as" and "r = (rotate_tail ^^ L) ?rot"
    by (simp_all add: pss_def)
  then have r: "r = ?rot" using full_turn [OF rot(1)] by (simp add: L_def)
  obtain bs seq' r' where B: "rr_rounds fid 1 L L 0 seq r = (bs, seq', r')" by (metis surj_pair)
  from rr_rounds_spec [OF rot B [unfolded r]] have bs: "rr_spec fid L (2 * L) (turn True pss) bs"
    by (simp add: pss_def mult_2)
  have "round_robin fid n 1 = as" using A by (simp add: round_robin_def L_def Let_def)
  then show "rr_spec fid 0 L (turn False pss) (round_robin fid n 1)" using as by simp
  have "round_robin fid n 2 = as @ bs" using A B by (simp add: round_robin_def L_def Let_def numeral_2_eq_2)
  then show "rr_spec fid 0 (2 * L) (turn False pss @ turn True pss) (round_robin fid n 2)"
    using rr_spec_append [OF as bs] by simp
qed

lemma swapped_pairs:
  assumes "distinct (map (\<lambda>(s, t). {s, t}) ins)" "\<forall>(s, t) \<in> set ins. s \<noteq> t"
  shows "distinct (ins @ map prod.swap ins)"
proof -
  have inj: "inj_on (\<lambda>(s, t). {s, t}) (set ins)" using assms(1) by (simp only: distinct_map)
  have "(t, s) \<notin> set ins" if "(s, t) \<in> set ins" for s t
  proof
    assume "(t, s) \<in> set ins"
    have "(s, t) = (t, s)"
      by (rule inj_onD [OF inj _ \<open>(s, t) \<in> set ins\<close> \<open>(t, s) \<in> set ins\<close>]) (simp add: insert_commute)
    then have "s = t" by (rule Pair_inject)
    moreover have "s \<noteq> t" using assms(2) that by fast
    ultimately show False by contradiction
  qed
  then have "p \<notin> prod.swap ` set ins" if "p \<in> set ins" for p using that by (cases p) auto
  then have "set ins \<inter> set (map prod.swap ins) = {}" unfolding set_map by (intro equals0I) blast
  moreover have "distinct ins" using assms(1) by (simp only: distinct_map)
  ultimately show ?thesis by (simp add: distinct_map del: set_map)
qed

lemma entrant_pair_iff:
  "B \<in> (`) EntrantSlot ` {B. B \<subseteq> {1..n} \<and> card B = 2} \<longleftrightarrow>
     (\<exists>a b. B = {EntrantSlot a, EntrantSlot b} \<and> a \<in> {1..n} \<and> b \<in> {1..n} \<and> a \<noteq> b)"
proof
  assume "B \<in> (`) EntrantSlot ` {B. B \<subseteq> {1..n} \<and> card B = 2}"
  then obtain C where C: "B = EntrantSlot ` C" "C \<subseteq> {1..n}" "card C = 2" by blast
  then obtain a b where "C = {a, b}" "a \<noteq> b" by (auto simp: card_2_iff)
  then have "B = {EntrantSlot a, EntrantSlot b} \<and> a \<in> {1..n} \<and> b \<in> {1..n} \<and> a \<noteq> b" using C by auto
  then show "\<exists>a b. B = {EntrantSlot a, EntrantSlot b} \<and> a \<in> {1..n} \<and> b \<in> {1..n} \<and> a \<noteq> b" by blast
next
  assume "\<exists>a b. B = {EntrantSlot a, EntrantSlot b} \<and> a \<in> {1..n} \<and> b \<in> {1..n} \<and> a \<noteq> b"
  then obtain a b where "B = EntrantSlot ` {a, b}" "{a, b} \<subseteq> {1..n}" "card {a, b} = 2" by auto
  then show "B \<in> (`) EntrantSlot ` {B. B \<subseteq> {1..n} \<and> card B = 2}" by blast
qed

text \<open>
  C10. A single round robin schedules every unordered pair of entrants exactly once; a double round
  robin schedules every ordered pair exactly once, so each pair meets once in each orientation. In both
  no entrant is in two contests of a round.
\<close>

theorem round_robin_pairs_once:
  assumes "2 \<le> n"
  shows "distinct (map pairing (round_robin fid n 1))
    \<and> pairing ` set (round_robin fid n 1) = (`) EntrantSlot ` {B. B \<subseteq> {1..n} \<and> card B = 2}
    \<and> once_per_round (round_robin fid n 1)
    \<and> distinct (map sc_inputs (round_robin fid n 2))
    \<and> sc_inputs ` set (round_robin fid n 2) = {(EntrantSlot a, EntrantSlot b) | a b. a \<in> {1..n} \<and> b \<in> {1..n} \<and> a \<noteq> b}
    \<and> once_per_round (round_robin fid n 2)"
proof -
  define pss where "pss = circle (length (initial_rotation n) - 1) (initial_rotation n)"
  let ?ins = "turn False pss" and ?u = "\<lambda>(s, t). {s, t}"
  note spec = round_robin_spec [OF assms, of fid, folded pss_def]
  note once = turn_pairs_once [OF assms, of False, folded pss_def]
  have ins: "map sc_inputs (round_robin fid n 1) = ?ins" "map sc_inputs (round_robin fid n 2) = ?ins @ map prod.swap ?ins"
    using spec turn_swap [of False pss] by (simp_all add: rr_spec_def)
  have "map pairing (round_robin fid n 1) = map ?u (map sc_inputs (round_robin fid n 1))"
    by (simp add: pairing_def split_beta)
  then have pairing: "map pairing (round_robin fid n 1) = map ?u ?ins" unfolding ins(1) .
  note two = entrant_pair_iff [of _ n]
  have elem: "\<exists>a b. s = EntrantSlot a \<and> t = EntrantSlot b \<and> a \<in> {1..n} \<and> b \<in> {1..n} \<and> a \<noteq> b" if "(s, t) \<in> set ?ins" for s t
  proof -
    have "{s, t} \<in> set (map ?u ?ins)" using that by force
    then obtain a b where "{s, t} = {EntrantSlot a, EntrantSlot b}" "a \<in> {1..n}" "b \<in> {1..n}" "a \<noteq> b"
      unfolding once(2) two by blast
    then show ?thesis by (metis doubleton_eq_iff)
  qed
  have double: "distinct (?ins @ map prod.swap ?ins)"
    by (rule swapped_pairs [OF once(1)]) (use elem in fastforce)
  have all: "set (?ins @ map prod.swap ?ins) = {(EntrantSlot a, EntrantSlot b) | a b. a \<in> {1..n} \<and> b \<in> {1..n} \<and> a \<noteq> b}"
    (is "?S = ?T")
  proof
    show "?S \<subseteq> ?T" using elem by fastforce
    show "?T \<subseteq> ?S"
    proof
      fix p
      assume "p \<in> ?T"
      then obtain a b where p: "p = (EntrantSlot a, EntrantSlot b)" "a \<in> {1..n}" "b \<in> {1..n}" "a \<noteq> b" by blast
      then have "{EntrantSlot a, EntrantSlot b} \<in> set (map ?u ?ins)" unfolding once(2) two by blast
      then have "\<exists>q \<in> set ?ins. {EntrantSlot a, EntrantSlot b} = ?u q" unfolding set_map by (rule imageE) blast
      then obtain s t where "(s, t) \<in> set ?ins" "{EntrantSlot a, EntrantSlot b} = {s, t}" by auto
      then have "(EntrantSlot a, EntrantSlot b) \<in> set ?ins \<or> (EntrantSlot b, EntrantSlot a) \<in> set ?ins"
        by (metis doubleton_eq_iff)
      then show "p \<in> ?S"
      proof
        assume "(EntrantSlot b, EntrantSlot a) \<in> set ?ins"
        then have "prod.swap (EntrantSlot b, EntrantSlot a) \<in> prod.swap ` set ?ins" by (rule imageI)
        then show ?thesis by (simp add: p(1))
      qed (simp add: p(1))
    qed
  qed
  show ?thesis
  proof (intro conjI)
    show "distinct (map pairing (round_robin fid n 1))" unfolding pairing by (rule once(1))
    show "pairing ` set (round_robin fid n 1) = (`) EntrantSlot ` {B. B \<subseteq> {1..n} \<and> card B = 2}"
      unfolding set_map [symmetric] pairing by (rule once(2))
    show "distinct (map sc_inputs (round_robin fid n 2))" unfolding ins(2) by (rule double)
    show "sc_inputs ` set (round_robin fid n 2) =
        {(EntrantSlot a, EntrantSlot b) | a b. a \<in> {1..n} \<and> b \<in> {1..n} \<and> a \<noteq> b}"
      unfolding set_map [symmetric] ins(2) by (rule all)
  qed (use spec in \<open>simp_all add: rr_spec_def\<close>)
qed

lemma round_pairs_four: "round_pairs [a, b, c, d] = [(a, d), (b, c)]"
  by (simp add: round_pairs_def)

lemma sample_round_robin:
  "map sc_inputs (round_robin fid 3 1) =
    [(EntrantSlot 2, EntrantSlot 3), (EntrantSlot 3, EntrantSlot 1), (EntrantSlot 1, EntrantSlot 2)]"
proof -
  have rot: "initial_rotation 3 = [Some 1, Some 2, Some 3, None]" by (simp add: initial_rotation_def upt_rec)
  have "map sc_inputs (round_robin fid 3 1) = turn False (circle (length (initial_rotation 3) - 1) (initial_rotation 3))"
    using round_robin_spec(1) [of 3 fid] unfolding rr_spec_def by simp
  then show ?thesis unfolding rot by (simp add: rotate_tail_def round_pairs_four)
qed

lemma round_robin_pairs_once_witness:
  "pairing ` set (round_robin ''F'' 3 1) = (`) EntrantSlot ` {B. B \<subseteq> {1..3} \<and> card B = 2}
   \<and> map sc_inputs (round_robin ''F'' 3 1) =
      [(EntrantSlot 2, EntrantSlot 3), (EntrantSlot 3, EntrantSlot 1), (EntrantSlot 1, EntrantSlot 2)]"
proof
  show "pairing ` set (round_robin ''F'' 3 1) = (`) EntrantSlot ` {B. B \<subseteq> {1..3} \<and> card B = 2}"
    using round_robin_pairs_once [of 3 "''F''"] by (simp only: numeral_le_iff semiring_norm simp_thms)
qed (rule sample_round_robin)

section \<open>Repechage and classification\<close>

lemma repechage_spec:
  assumes n: "n = 2 ^ k" "3 \<le> k" and run: "repechage_classification fid n = (cs, champion)"
  shows "length cs = n + 3" and "\<forall>c \<in> set cs. sc_required c" and "distinct (map sc_id cs)" and "topological {} cs"
    and "set (entrant_slots n) \<subseteq> set (slots_of cs)"
proof -
  obtain rds fin where W: "winners_rounds fid ''Main draw round '' 1 1 (entrant_slots n) = (rds, fin)" by (metis surj_pair)
  let ?ws = "concat rds"
  have "length (entrant_slots n) = 2 ^ k" by (simp add: entrant_slots_def n)
  note spec = winners_rounds_spec [OF this W]
  have acct: "mset (slots_of ?ws) + mset fin = mset (entrant_slots n) + mset (map winner_slot ?ws)"
    and sizes: "map length rds = map (\<lambda>j. 2 ^ (k - 1 - j)) [0..<k]"
    and fin: "\<exists>wf. fin = [winner_slot wf]" and dist: "distinct (map sc_id ?ws)"
    and wids: "sc_id ` set ?ws \<subseteq> {match_id fid ''W'' r i | r i. 1 \<le> r}"
    and wreq: "\<forall>c \<in> set ?ws. sc_required c" and wtop: "topological {} ?ws"
    using spec n(2) by (auto simp: entrant_slots_def)
  have len: "length rds = k" using arg_cong [OF sizes, of length] by simp
  have nth: "length (rds ! j) = 2 ^ (k - 1 - j)" if "j < k" for j
    using arg_cong [OF sizes, of "\<lambda>xs. xs ! j"] that len by simp
  have "length (rds ! (k - 3)) = 2 ^ 2" using nth [of "k - 3"] n(2) by simp
  then obtain q0 q1 q2 q3 where q: "rds ! (k - 3) = [q0, q1, q2, q3]" by (auto simp: length_Suc_conv numeral_eq_Suc)
  have "length (rds ! (k - 2)) = 2 ^ 1" using nth [of "k - 2"] n(2) by simp
  then obtain s0 s1 where s: "rds ! (k - 2) = [s0, s1]" by (auto simp: length_Suc_conv numeral_eq_Suc)
  have "rds ! (k - 3) \<in> set rds" "rds ! (k - 2) \<in> set rds" using len n(2) by simp_all
  then have "set [q0, q1, q2, q3] \<subseteq> set ?ws" "set [s0, s1] \<subseteq> set ?ws"
    unfolding q [symmetric] s [symmetric] set_concat by blast+
  then have known: "{sc_id q0, sc_id q1, sc_id q2, sc_id q3, sc_id s0, sc_id s1} \<subseteq> sc_id ` set ?ws"
    by (simp del: set_concat)
  define r0 where "r0 = repechage_path fid (length ?ws + 1) [q0, q1, q2, q3] 0"
  define r1 where "r1 = repechage_path fid (length ?ws + 1) [q0, q1, q2, q3] 1"
  define c0 where "c0 = classification_match fid (length ?ws + 3) [r0, r1] [s0, s1] 0"
  define c1 where "c1 = classification_match fid (length ?ws + 3) [r0, r1] [s0, s1] 1"
  note new_defs = r0_def r1_def c0_def c1_def
  have cs: "cs = ?ws @ [r0, r1, c0, c1]"
    using run unfolding repechage_classification_def W Let_def prod.case len q s new_defs by simp
  have ids: "sc_id r0 = fid @ ''.REP.M'' @ digits_of 1" "sc_id r1 = fid @ ''.REP.M'' @ digits_of 2"
      "sc_id c0 = fid @ ''.CLASS.M'' @ digits_of 1" "sc_id c1 = fid @ ''.CLASS.M'' @ digits_of 2"
    and req: "sc_required r0" "sc_required r1" "sc_required c0" "sc_required c1"
    by (simp_all add: new_defs repechage_path_def classification_match_def numeral_2_eq_2)
  have ins: "sc_inputs r0 = (loser_slot q0, loser_slot q1)" "sc_inputs r1 = (loser_slot q2, loser_slot q3)"
    by (simp_all add: r0_def r1_def repechage_path_def numeral_2_eq_2)
  have ins': "sc_inputs c0 = (winner_slot r0, loser_slot s0)" "sc_inputs c1 = (winner_slot r1, loser_slot s1)"
    by (simp_all add: c0_def c1_def classification_match_def)
  have "2 * length ?ws + 1 = n + length ?ws"
    using arg_cong [OF acct, of size] fin by (auto simp: length_slots_of entrant_slots_def simp del: length_concat)
  then show "length cs = n + 3" by (simp add: cs del: length_concat)
  show "\<forall>c \<in> set cs. sc_required c" using wreq req by (auto simp: cs)
  have fresh: "match_id fid ''W'' r i \<noteq> fid @ ''.REP.M'' @ u" "match_id fid ''W'' r i \<noteq> fid @ ''.CLASS.M'' @ u" for r i u
    by (simp_all add: match_id_def)
  have new: "sc_id c \<notin> sc_id ` set ?ws" if "c \<in> {r0, r1, c0, c1}" for c
  proof
    assume "sc_id c \<in> sc_id ` set ?ws"
    then obtain r i where "sc_id c = match_id fid ''W'' r i" using wids by blast
    then show False using that fresh ids by (metis empty_iff insert_iff)
  qed
  then have "set (map sc_id ?ws) \<inter> set (map sc_id [r0, r1, c0, c1]) = {}" by auto
  moreover have "distinct (map sc_id [r0, r1, c0, c1])" using digits_of_inject [of 1 2] by (simp add: ids)
  ultimately show "distinct (map sc_id cs)" using dist unfolding cs map_append distinct_append by blast
  have "topological (sc_id ` set ?ws) [r0, r1, c0, c1]"
    using known by (simp add: sources_def ins ins')
  then show "topological {} cs" using wtop by (simp add: cs topological_append)
  have "set (entrant_slots n) \<subseteq> set_mset (mset (slots_of ?ws) + mset fin)" unfolding acct by simp
  then show "set (entrant_slots n) \<subseteq> set (slots_of cs)"
    using fin by (auto simp: cs entrant_slots_def)
qed

section \<open>Compilation\<close>

lemma contest_seeds_iff: "s \<in> set (contest_seeds cs) \<longleftrightarrow> EntrantSlot s \<in> set (slots_of cs)"
  by (induction cs) (auto simp: contest_seeds_def split: contest_slot.splits)

lemma structural_proof_valid:
  assumes "distinct (map sc_id cs)" "topological {} cs" "length (filter sc_required cs) = expected"
    "set (entrant_slots n) \<subseteq> set (slots_of cs)"
  shows "sp_valid (structural_proof n cs expected)"
proof -
  have "list_all (\<lambda>s. List.member (contest_seeds cs) s) [1..<n + 1]"
    using assms(4) by (auto simp: list_all_iff contest_seeds_iff entrant_slots_def)
  moreover have "se_from e \<in> set (map sc_id cs)" if "e \<in> set (derive_edges cs)" for e
    using edges_known [OF assms(2) that] set_take_subset [of _ cs] by fastforce
  ultimately show ?thesis using kahn_visits_all [OF assms(1,2)] assms(3)
    by (simp add: structural_proof_def Let_def list_all_iff)
qed

lemma finalize_valid:
  assumes "distinct (map sc_id cs)" "topological {} cs" "length (filter sc_required cs) = expected"
    "set (entrant_slots n) \<subseteq> set (slots_of cs)"
  shows "\<exists>c. finalize P req fid n cs champion expected findings = Inr c \<and> cf_contests c = cs \<and> sp_valid (cf_proof c)"
  using structural_proof_valid [OF assms] by (simp add: finalize_def Let_def)

lemma topological_entrants: "(\<forall>s \<in> set (slots_of cs). \<exists>i. s = EntrantSlot i) \<Longrightarrow> topological known cs"
  by (rule topological_slots) auto

lemma rr_valid:
  assumes n: "2 \<le> n" and spec: "rr_spec fid 0 hi ins cs" and ins: "\<forall>p \<in> set ins. \<exists>a b. p = (EntrantSlot a, EntrantSlot b)"
    and all: "(`) EntrantSlot ` {B. B \<subseteq> {1..n} \<and> card B = 2} \<subseteq> pairing ` set cs"
  shows "distinct (map sc_id cs)" "topological {} cs" "length (filter sc_required cs) = length cs"
    "set (entrant_slots n) \<subseteq> set (slots_of cs)"
proof -
  have slots: "set (slots_of cs) = (\<Union>c \<in> set cs. pairing c)" by (auto simp: slots_of_def pairing_def)
  have inputs: "sc_inputs ` set cs = set ins" using spec by (metis rr_spec_def set_map)
  show "distinct (map sc_id cs)" "length (filter sc_required cs) = length cs"
    using spec by (auto simp: rr_spec_def ids_in_def in_bracket_def filter_id_conv)
  show "topological {} cs"
  proof (rule topological_entrants, unfold slots, safe)
    fix s c
    assume "c \<in> set cs" "s \<in> pairing c"
    moreover from this(1) have "sc_inputs c \<in> set ins" using inputs by blast
    ultimately show "\<exists>i. s = EntrantSlot i" using ins by (auto simp: pairing_def)
  qed
  show "set (entrant_slots n) \<subseteq> set (slots_of cs)"
  proof
    fix s
    assume "s \<in> set (entrant_slots n)"
    then obtain i where i: "s = EntrantSlot i" "1 \<le> i" "i \<le> n" by (auto simp: entrant_slots_def)
    obtain j where j: "j \<in> {1..n}" "j \<noteq> i" using n by (cases "i = 1") (auto intro: that [of 1] that [of 2])
    have "{EntrantSlot i, EntrantSlot j} \<in> pairing ` set cs"
    proof (rule subsetD [OF all], unfold entrant_pair_iff, intro exI conjI)
      show "i \<in> {1..n}" using i by simp
      show "j \<in> {1..n}" by (rule j(1))
    qed (use j in auto)
    then show "s \<in> set (slots_of cs)" unfolding slots i(1) by auto
  qed
qed

lemma choose_two_pairs: "card {B. B \<subseteq> {1..n::nat} \<and> card B = 2} = n * (n - 1) div 2"
  using n_subsets [of "{1..n}" 2] by (simp add: choose_two)

lemma round_robin_valid:
  assumes "2 \<le> n"
  shows "\<exists>c. finalize P req fid n (round_robin fid n 1) champion (n * (n - 1) div 2) findings = Inr c \<and>
      cf_contests c = round_robin fid n 1 \<and> sp_valid (cf_proof c)"
    and "\<exists>c. finalize P req fid n (round_robin fid n 2) champion (n * (n - 1)) findings = Inr c \<and>
      cf_contests c = round_robin fid n 2 \<and> sp_valid (cf_proof c)"
proof -
  define pss where "pss = circle (length (initial_rotation n) - 1) (initial_rotation n)"
  note spec = round_robin_spec [OF assms, of fid, folded pss_def]
  note once = turn_pairs_once [OF assms, folded pss_def]
  have entrants: "\<forall>p \<in> set (turn b qss). \<exists>i j. p = (EntrantSlot i, EntrantSlot j)" for b qss
    by (induction b qss rule: turn.induct) auto
  have pairing: "map pairing cs = map (\<lambda>(s, t). {s, t}) (map sc_inputs cs)" for cs
    by (simp add: pairing_def split_beta)
  have one: "map pairing (round_robin fid n 1) = map (\<lambda>(s, t). {s, t}) (turn False pss)"
    unfolding pairing using spec(1) by (simp add: rr_spec_def)
  have two: "map pairing (round_robin fid n 2) = map (\<lambda>(s, t). {s, t}) (turn False pss) @ map (\<lambda>(s, t). {s, t}) (turn True pss)"
    unfolding pairing using spec(2) by (simp add: rr_spec_def)
  have "inj ((`) EntrantSlot)" by (rule injI) (simp add: inj_image_eq_iff inj_def)
  then have inj: "inj_on ((`) EntrantSlot) S" for S by (rule inj_on_subset) simp
  have "card ((`) EntrantSlot ` {B. B \<subseteq> {1..n} \<and> card B = 2}) = n * (n - 1) div 2"
    unfolding card_image [OF inj] by (rule choose_two_pairs)
  then have len: "length (turn b pss) = n * (n - 1) div 2" for b
    using distinct_card [OF once(1) [of b]] unfolding once(2) length_map by metis
  have "length (round_robin fid n 1) = length (map sc_inputs (round_robin fid n 1))" by simp
  also have "\<dots> = n * (n - 1) div 2" using spec(1) len by (simp only: rr_spec_def)
  finally have length1: "length (round_robin fid n 1) = n * (n - 1) div 2" .
  have even: "n * (n - 1) div 2 + n * (n - 1) div 2 = n * (n - 1)"
  proof -
    have "even (n * (n - 1))" by (cases n) auto
    then obtain m where "n * (n - 1) = 2 * m" by (rule evenE)
    then show ?thesis by simp
  qed
  have "length (round_robin fid n 2) = length (map sc_inputs (round_robin fid n 2))" by simp
  also have "\<dots> = n * (n - 1)" using spec(2) len even by (simp only: rr_spec_def length_append)
  finally have length2: "length (round_robin fid n 2) = n * (n - 1)" .
  have "(`) EntrantSlot ` {B. B \<subseteq> {1..n} \<and> card B = 2} \<subseteq> pairing ` set (round_robin fid n 1)"
    unfolding set_map [symmetric] one once(2) ..
  from rr_valid [OF assms spec(1) entrants this] show
    "\<exists>c. finalize P req fid n (round_robin fid n 1) champion (n * (n - 1) div 2) findings = Inr c \<and>
      cf_contests c = round_robin fid n 1 \<and> sp_valid (cf_proof c)"
    by (intro finalize_valid) (simp_all only: length1)
  have both: "\<forall>p \<in> set (turn False pss @ turn True pss). \<exists>i j. p = (EntrantSlot i, EntrantSlot j)"
    unfolding set_append ball_Un by (intro conjI entrants)
  have "(`) EntrantSlot ` {B. B \<subseteq> {1..n} \<and> card B = 2} \<subseteq> pairing ` set (round_robin fid n 2)"
    unfolding set_map [symmetric] two set_append once(2) by simp
  from rr_valid [OF assms spec(2) both this] show
    "\<exists>c. finalize P req fid n (round_robin fid n 2) champion (n * (n - 1)) findings = Inr c \<and>
      cf_contests c = round_robin fid n 2 \<and> sp_valid (cf_proof c)"
    by (intro finalize_valid) (simp_all only: length2)
qed

lemma double_elimination_valid:
  assumes n: "n = 2 ^ k" "0 < k" and run: "double_elimination fid n reset = (cs, champion)"
  shows "\<exists>c. finalize P req fid n cs champion (2 * n - 2) findings = Inr c \<and> cf_contests c = cs \<and> sp_valid (cf_proof c)"
proof (rule finalize_valid)
  obtain ws ls final r s where p: "double_elimination_parts fid n ws ls final" and
    never: "double_elimination fid n NeverReset = (ws @ ls @ [final], ContestWinner (sc_id final))" and
    again: "double_elimination fid n ResetIfNecessary =
      (ws @ ls @ [final, reset_contest fid r s final], ResetAware (sc_id final) (fid @ ''.GF2''))"
    by (rule double_elimination_shape [OF n])
  define base where "base = ws @ ls @ [final]"
  note parts = p [unfolded double_elimination_parts_def, folded base_def]
  from parts have dist: "distinct (map sc_id base)" by (elim conjE)
  from parts have fresh: "fid @ ''.GF2'' \<notin> sc_id ` set base" by (elim conjE)
  from parts have top: "topological {} base" by (elim conjE)
  obtain tl where cs: "cs = base @ tl" "tl = [] \<or> tl = [reset_contest fid r s final]"
    using run never again by (cases reset) (auto simp: base_def)
  have final: "sc_id final \<in> sc_id ` set base" by (simp add: base_def)
  have reset: "sc_id (reset_contest fid r s final) = fid @ ''.GF2''" "\<not> sc_required (reset_contest fid r s final)"
    by (simp_all add: reset_contest_def)
  show "distinct (map sc_id cs)" using cs(2)
  proof
    assume "tl = [reset_contest fid r s final]"
    moreover have "fid @ ''.GF2'' \<notin> set (map sc_id base)" using fresh by simp
    ultimately show ?thesis using dist by (simp add: cs(1) reset(1) del: set_map)
  qed (use dist in \<open>simp add: cs(1)\<close>)
  show "topological {} cs" using cs(2) top final
    by (auto simp: cs(1) topological_append sources_def reset_contest_def)
  have acct: "mset (slots_of (filter sc_required cs)) = mset (entrant_slots n)
      + mset (map winner_slot (bracket_contests WinnersBracket cs)) + mset (map loser_slot (bracket_contests WinnersBracket cs))
      + mset (map winner_slot (bracket_contests LosersBracket cs))"
    and lens: "length (bracket_contests WinnersBracket cs) = n - 1" "length (bracket_contests LosersBracket cs) = n - 2"
    using required_slots [OF n run] by simp_all
  have "2 \<le> n" using n by (cases k) auto
  then show "length (filter sc_required cs) = 2 * n - 2"
    using arg_cong [OF acct, of size] lens
    by (simp only: size_union size_mset length_slots_of length_map entrant_slots_def length_upt)
  have "set (entrant_slots n) \<subseteq> set_mset (mset (slots_of (filter sc_required cs)))" unfolding acct by auto
  also have "\<dots> \<subseteq> set (slots_of cs)" by (auto simp: slots_of_def)
  finally show "set (entrant_slots n) \<subseteq> set (slots_of cs)" .
qed

lemma repechage_valid:
  assumes n: "n = 2 ^ k" "3 \<le> k" and run: "repechage_classification fid n = (cs, champion)"
  shows "\<exists>c. finalize P req fid n cs champion (n + 3) findings = Inr c \<and> cf_contests c = cs \<and> sp_valid (cf_proof c)"
proof (rule finalize_valid)
  note spec = repechage_spec [OF n run]
  show "length (filter sc_required cs) = n + 3" using spec(1,2) by (simp add: filter_id_conv [THEN iffD2])
qed (use repechage_spec [OF n run] in simp_all)

lemma power_of_two_range:
  assumes "2 \<le> n" "n \<le> 64"
  shows "power_of_two n \<longleftrightarrow> n \<in> {2, 4, 8, 16, 32, 64}"
proof -
  have "list_all (\<lambda>n. power_of_two n = (n \<in> {2, 4, 8, 16, 32, 64})) [2..<65]"
    by (simp add: upt_rec_numeral power_of_two_def)
  then show ?thesis using assms by (simp only: list_all_iff set_upt) simp
qed

lemma power_of_two_exponent:
  assumes "2 \<le> n" "n \<le> 64" "power_of_two n"
  obtains k where "n = 2 ^ k" "0 < k" "8 \<le> n \<longrightarrow> 3 \<le> k"
proof -
  have "n = 2 ^ 1 \<or> n = 2 ^ 2 \<or> n = 2 ^ 3 \<or> n = 2 ^ 4 \<or> n = 2 ^ 5 \<or> n = 2 ^ 6"
    using power_of_two_range [OF assms(1,2)] assms(3) by simp
  then obtain k where "n = 2 ^ k" "k \<in> {1, 2, 3, 4, 5, 6}" by blast
  then show thesis by (intro that [of k]) auto
qed

text \<open>What the compiler answers to a request it rejects; \<open>None\<close> when the request is acceptable.\<close>

definition count_in :: "jsnum \<Rightarrow> nat set \<Rightarrow> bool" where
  "count_in cnt S \<longleftrightarrow> (\<exists>n \<in> S. js_integer cnt = Some (int n))"

fun request_id :: "static_format_request \<Rightarrow> string" where
  "request_id (SingleRoundRobin fid cnt) = fid"
| "request_id (DoubleRoundRobin fid cnt) = fid"
| "request_id (DoubleElimination fid cnt policy) = fid"
| "request_id (RepechageRequest fid cnt) = fid"
| "request_id (OtherFormat fid name cnt) = fid"

fun request_count :: "static_format_request \<Rightarrow> jsnum" where
  "request_count (SingleRoundRobin fid cnt) = cnt"
| "request_count (DoubleRoundRobin fid cnt) = cnt"
| "request_count (DoubleElimination fid cnt policy) = cnt"
| "request_count (RepechageRequest fid cnt) = cnt"
| "request_count (OtherFormat fid name cnt) = cnt"

fun format_rejection :: "static_format_request \<Rightarrow> static_format_error option" where
  "format_rejection (SingleRoundRobin fid cnt) = None"
| "format_rejection (DoubleRoundRobin fid cnt) = None"
| "format_rejection (DoubleElimination fid cnt policy) =
     (if \<not> count_in cnt {2, 4, 8, 16, 32, 64} then Some SFC210
      else if policy \<noteq> Some ''NEVER'' \<and> policy \<noteq> Some ''IF_NECESSARY'' then Some SFC211 else None)"
| "format_rejection (RepechageRequest fid cnt) = (if \<not> count_in cnt {8, 16, 32, 64} then Some SFC310 else None)"
| "format_rejection (OtherFormat fid name cnt) = Some SFC003"

definition rejection :: "static_format_request \<Rightarrow> static_format_error option" where
  "rejection req = (if blank (request_id req) then Some SFC001
     else if \<not> count_in (request_count req) {2..64} then Some SFC002 else format_rejection req)"

lemma validate_common_cases:
  obtains (blank) "blank fid" "validate_common fid cnt = Inl SFC001"
  | (range) "\<not> blank fid" "validate_common fid cnt = Inl SFC002" "\<not> count_in cnt {2..64}"
  | (ok) n where "\<not> blank fid" "validate_common fid cnt = Inr n" "2 \<le> n" "n \<le> 64" "\<And>S. count_in cnt S \<longleftrightarrow> n \<in> S"
proof (cases "blank fid")
  case True
  then show thesis by (intro that(1)) (simp_all add: validate_common_def)
next
  case False
  show thesis
  proof (cases "\<exists>n. js_integer cnt = Some n \<and> 2 \<le> n \<and> n \<le> 64")
    case True
    then obtain n where n: "js_integer cnt = Some n" "2 \<le> n" "n \<le> 64" by blast
    show thesis
    proof (rule that(3))
      show "validate_common fid cnt = Inr (nat n)" using False n by (simp add: validate_common_def)
      show "count_in cnt S \<longleftrightarrow> nat n \<in> S" for S
        using n by (auto simp: count_in_def intro!: bexI [of _ "nat n"])
    qed (use False n in auto)
  next
    case none: False
    show thesis
    proof (rule that(2))
      show "validate_common fid cnt = Inl SFC002" using False none by (auto simp: validate_common_def not_less split: option.split)
      show "\<not> count_in cnt {2..64}" using none by (fastforce simp: count_in_def)
    qed (fact False)
  qed
qed

text \<open>
  C8. The compiler accepts exactly the requests it should, and answers every other with the error that is documented for it, in the
  order of the checks: SFC001 for a blank identifier, SFC002 for a count of entrants that is not a whole number from 2 to 64,
  SFC210 for a double elimination whose count is not a power of two, SFC211 for one whose reset-final policy is neither NEVER nor
  IF_NECESSARY, SFC310 for a repechage whose count is not a power of two from 8 on, SFC003 for any other format. What it
  returns passes the structural proof; the error SFC900 of a failing structural proof is never raised.
\<close>

theorem compile_succeeds:
  "(case compile_static_format P req of
      Inr c \<Rightarrow> rejection req = None \<and> sp_valid (cf_proof c)
    | Inl e \<Rightarrow> rejection req = Some e)"
  (is "?P req")
proof (cases "request_id req" "request_count req" rule: validate_common_cases)
  case blank
  then show ?thesis by (cases req) (simp_all add: rejection_def)
next
  case range
  then show ?thesis by (cases req) (simp_all add: rejection_def)
next
  case (ok n)
  have rejection: "rejection req = format_rejection req" using ok by (simp add: rejection_def)
  note pow = power_of_two_range [OF ok(3,4)]
  show ?thesis
  proof (cases req)
    case (SingleRoundRobin fid cnt)
    have n: "validate_common fid cnt = Inr n" using ok(2) by (simp add: SingleRoundRobin)
    from round_robin_valid(1) [OF ok(3)] obtain c where c: "compile_static_format P req = Inr c" "sp_valid (cf_proof c)"
      by (simp add: SingleRoundRobin n Let_def) blast
    show ?thesis using c(2) rejection by (simp add: c(1)) (simp add: SingleRoundRobin)
  next
    case (DoubleRoundRobin fid cnt)
    have n: "validate_common fid cnt = Inr n" using ok(2) by (simp add: DoubleRoundRobin)
    from round_robin_valid(2) [OF ok(3)] obtain c where c: "compile_static_format P req = Inr c" "sp_valid (cf_proof c)"
      by (simp add: DoubleRoundRobin n Let_def) blast
    show ?thesis using c(2) rejection by (simp add: c(1)) (simp add: DoubleRoundRobin)
  next
    case (DoubleElimination fid cnt policy)
    show ?thesis
    proof (cases "power_of_two n \<and> reset_policy policy \<noteq> None")
      case True
      then obtain reset where reset: "reset_policy policy = Some reset" by blast
      obtain k where k: "n = 2 ^ k" "0 < k" using power_of_two_exponent [OF ok(3,4)] True by blast
      obtain cs champion where run: "double_elimination fid n reset = (cs, champion)" by (metis surj_pair)
      from double_elimination_valid [OF k run] obtain c where c: "compile_static_format P req = Inr c" "sp_valid (cf_proof c)"
        using True by (simp add: DoubleElimination ok(2) [unfolded DoubleElimination request_id.simps request_count.simps] reset Let_def run) blast
      have "policy = Some ''NEVER'' \<or> policy = Some ''IF_NECESSARY''"
        using reset by (auto simp: reset_policy_def split: if_splits)
      moreover have "count_in cnt {2, 4, 8, 16, 32, 64}" using True pow ok(5) [of "{2, 4, 8, 16, 32, 64}"] by (simp add: DoubleElimination)
      ultimately have "format_rejection req = None" by (auto simp: DoubleElimination)
      then show ?thesis using c(2) rejection by (simp add: c(1))
    next
      case False
      have n: "validate_common fid cnt = Inr n" "count_in cnt {2, 4, 8, 16, 32, 64} \<longleftrightarrow> power_of_two n"
        using ok(2) pow ok(5) [of "{2, 4, 8, 16, 32, 64}"] by (simp_all add: DoubleElimination)
      have "rejection (DoubleElimination fid cnt policy) = format_rejection (DoubleElimination fid cnt policy)"
        using rejection by (simp only: DoubleElimination)
      then show ?thesis using False by (auto simp: DoubleElimination n reset_policy_def split: if_splits)
    qed
  next
    case (RepechageRequest fid cnt)
    show ?thesis
    proof (cases "8 \<le> n \<and> power_of_two n")
      case True
      with power_of_two_exponent [OF ok(3,4)] obtain k where k: "n = 2 ^ k" "3 \<le> k" by blast
      obtain cs champion where run: "repechage_classification fid n = (cs, champion)" by (metis surj_pair)
      from repechage_valid [OF k run] obtain c where c: "compile_static_format P req = Inr c" "sp_valid (cf_proof c)"
        using True by (simp add: RepechageRequest ok(2) [unfolded RepechageRequest request_id.simps request_count.simps] Let_def run) blast
      have "count_in cnt {8, 16, 32, 64}" using True pow ok(5) [of "{8, 16, 32, 64}"] by (auto simp: RepechageRequest)
      then have "format_rejection req = None" by (simp add: RepechageRequest)
      then show ?thesis using c(2) rejection by (simp add: c(1))
    next
      case False
      then have "n \<notin> {8, 16, 32, 64}" "n < 8 \<or> \<not> power_of_two n" using pow by auto
      have n: "validate_common fid cnt = Inr n" "\<not> count_in cnt {8, 16, 32, 64}"
        using ok(2) ok(5) [of "{8, 16, 32, 64}"] \<open>n \<notin> {8, 16, 32, 64}\<close> by (simp_all add: RepechageRequest)
      have "rejection (RepechageRequest fid cnt) = format_rejection (RepechageRequest fid cnt)"
        using rejection by (simp only: RepechageRequest)
      then show ?thesis using \<open>n < 8 \<or> \<not> power_of_two n\<close> n by (simp add: RepechageRequest)
    qed
  next
    case (OtherFormat fid name cnt)
    have "validate_common fid cnt = Inr n" using ok(2) by (simp add: OtherFormat)
    moreover have "rejection (OtherFormat fid name cnt) = Some SFC003" using rejection by (simp add: OtherFormat)
    ultimately show ?thesis by (simp add: OtherFormat)
  qed
qed

end
