(* ===== verification/LiveModel.thy ===== *)
theory LiveModel
  imports HashChain
begin

text \<open>
  packages/competition-engine/src/live-operations.ts, the data: the operational definition, the
  commands, the events they are recorded as, the state projected from the events, and the
  JSON values of all of them, which the fingerprints, event hashes and the proof hash cover.

  \<^item> The dictionaries of the state (\<^verbatim>\<open>Record<string, ...>\<close>) are insertion-ordered maps; identifiers that
    \<^verbatim>\<open>Object.prototype\<close> defines (\<^verbatim>\<open>constructor\<close>, \<^verbatim>\<open>__proto__\<close>, ...) are outside the model.
  \<^item> Fields that TypeScript declares but that replaying a foreign event log can leave undefined are
    options. An optional property is absent or has a value.
  \<^item> A finding is its code and path; messages and evidence are left out.
\<close>

section \<open>Definition\<close>

record live_contest =
  lct_id :: string
  lct_entrants :: "string list"
  lct_fixed :: "string list option"
  lct_resolution :: "bool option"
  lct_court :: string
  lct_official :: "string option"
  lct_equipment :: "string list option"
  lct_depends :: "string list option"
  lct_start :: string
  lct_end :: string

record live_definition =
  ldf_tournament :: string
  ldf_tolerance :: "jsnum option"
  ldf_courts :: "string list"
  ldf_officials :: "string list option"
  ldf_equipment :: "string list option"
  ldf_contests :: "live_contest list"

section \<open>State\<close>

datatype presence = CheckedIn | MarkedLate | NoShow | Withdrawn

datatype contest_status = StScheduled | StInProgress | StCompleted | StWalkover | StRetired

datatype dispute_outcome = Upheld | Denied

datatype dispute_status = StPending | StResolved dispute_outcome

datatype resource_kind = CourtResource | OfficialResource | EquipmentResource

type_synonym live_score = "string \<times> jsnum"

record availability =
  av_available :: bool
  av_changed :: "string option"
  av_reason :: "string option"
  av_expected :: "string option"

record contest_state =
  cst_status :: "contest_status option"
  cst_called :: "string option"
  cst_scores :: "live_score list option"
  cst_winner :: "string option"
  cst_absent :: "string option"
  cst_retired :: "string option"
  cst_court :: "string option"
  cst_start :: "string option"
  cst_end :: "string option"
  cst_duration :: "jsnum option"
  cst_recorded :: "string option"

record protest_state =
  prt_id :: "string option"
  prt_contest :: "string option"
  prt_filed_by :: "string option"
  prt_reason :: "string option"
  prt_status :: "dispute_status option"
  prt_resolution :: "string option"

record appeal_state =
  apl_id :: "string option"
  apl_protest :: "string option"
  apl_filed_by :: "string option"
  apl_reason :: "string option"
  apl_status :: "dispute_status option"
  apl_resolution :: "string option"

section \<open>Commands\<close>

datatype live_correction =
    SetPresence string presence string
  | SetTiming string string "string option" string
  | SetScore string "live_score list" string
  | SetAvailability resource_kind string bool string "string option"

datatype command_body =
    CheckIn string
  | MarkLate string string
  | WithdrawEntrant string string
  | DeclareNoShow string string string
  | AwardWalkover string string string string
  | CallContest string
  | StartContest string string string
  | RecordScore string "live_score list"
  | CompleteContest string string
  | ResolveEntrants string "string list" string
  | RecordRetirement string string string string string
  | ReceiveResult string string
  | FileProtest string string string string
  | ResolveProtest string dispute_outcome string
  | FileAppeal string string string string
  | ResolveAppeal string dispute_outcome string
  | CorrectOperation string live_correction string
  | CloseCourt string string "string option"
  | ReopenCourt string string
  | MarkOfficialAbsent string string
  | RestoreOfficial string string
  | ReportEquipmentFailure string string
  | RestoreEquipment string string
  | DecideTie string string "string list" string

record live_command =
  cmd_id :: string
  cmd_expected :: jsnum
  cmd_actor :: string
  cmd_at :: string
  cmd_body :: command_body

section \<open>Events\<close>

datatype event_data =
    EntrantCheckedIn string
  | EntrantMarkedLate string string
  | EntrantWithdrawn string string
  | EntrantNoShow string string string
  | WalkoverAwarded string string string string
  | ContestCalled string
  | ContestStarted string string string
  | ScoreRecorded string "live_score list"
  | ContestCompleted string string
  | EntrantsResolved string "string list" string
  | RetirementRecorded string string string string string
  | ResultReceived string string
  | ProtestFiled string string string string
  | ProtestResolved string dispute_outcome string
  | AppealFiled string string string string
  | AppealResolved string dispute_outcome string
  | OperationCorrected string live_correction string
  | AvailabilityChanged resource_kind string bool string "string option"
  | TieDecided string string "string list" string

record live_event =
  lev_id :: string
  lev_hash :: string
  lev_previous :: "string option"
  lev_sequence :: nat
  lev_tournament :: string
  lev_command :: string
  lev_fingerprint :: string
  lev_actor :: string
  lev_at :: string
  lev_data :: event_data

record live_state =
  lst_definition :: live_definition
  lst_version :: nat
  lst_last :: "string option"
  lst_events :: "live_event list"
  lst_presence :: "(string, presence) omap"
  lst_contests :: "(string, contest_state) omap"
  lst_resolved :: "(string, string list) omap"
  lst_courts :: "(string, availability) omap"
  lst_officials :: "(string, availability) omap"
  lst_equipment :: "(string, availability) omap"
  lst_protests :: "(string, protest_state) omap"
  lst_appeals :: "(string, appeal_state) omap"
  lst_fingerprints :: "(string, string) omap"
  lst_proof :: string

section \<open>JSON values\<close>

definition strings_json :: "string list \<Rightarrow> jsval" where
  "strings_json xs = JArr (map JStr xs)"

definition dict_json :: "('v \<Rightarrow> jsval) \<Rightarrow> (string, 'v) omap \<Rightarrow> jsval" where
  "dict_json f m = JObj (map (\<lambda>(k, v). (k, f v)) m)"

definition live_contest_json :: "live_contest \<Rightarrow> jsval" where
  "live_contest_json c = JObj ([(''contestId'', JStr (lct_id c)), (''entrantIds'', strings_json (lct_entrants c))]
     @ opt_field ''fixedEntrantIds'' strings_json (lct_fixed c) @ opt_field ''requiresEntrantResolution'' JBool (lct_resolution c)
     @ [(''courtId'', JStr (lct_court c))] @ opt_field ''officialId'' JStr (lct_official c)
     @ opt_field ''equipmentIds'' strings_json (lct_equipment c) @ opt_field ''dependencyContestIds'' strings_json (lct_depends c)
     @ [(''scheduledStart'', JStr (lct_start c)), (''scheduledEnd'', JStr (lct_end c))])"

definition live_definition_json :: "live_definition \<Rightarrow> jsval" where
  "live_definition_json d = JObj ([(''tournamentId'', JStr (ldf_tournament d))] @ opt_field ''lateToleranceMinutes'' JNum (ldf_tolerance d)
     @ [(''courts'', strings_json (ldf_courts d))] @ opt_field ''officials'' strings_json (ldf_officials d)
     @ opt_field ''equipment'' strings_json (ldf_equipment d) @ [(''contests'', JArr (map live_contest_json (ldf_contests d)))])"

fun presence_text :: "presence \<Rightarrow> string" where
  "presence_text CheckedIn = ''CHECKED_IN''"
| "presence_text MarkedLate = ''LATE''"
| "presence_text NoShow = ''NO_SHOW''"
| "presence_text Withdrawn = ''WITHDRAWN''"

fun contest_status_text :: "contest_status \<Rightarrow> string" where
  "contest_status_text StScheduled = ''SCHEDULED''"
| "contest_status_text StInProgress = ''IN_PROGRESS''"
| "contest_status_text StCompleted = ''COMPLETED''"
| "contest_status_text StWalkover = ''WALKOVER''"
| "contest_status_text StRetired = ''RETIRED''"

fun dispute_text :: "dispute_outcome \<Rightarrow> string" where
  "dispute_text Upheld = ''UPHELD''"
| "dispute_text Denied = ''DENIED''"

fun dispute_status_text :: "dispute_status \<Rightarrow> string" where
  "dispute_status_text StPending = ''PENDING''"
| "dispute_status_text (StResolved d) = dispute_text d"

fun resource_text :: "resource_kind \<Rightarrow> string" where
  "resource_text CourtResource = ''COURT''"
| "resource_text OfficialResource = ''OFFICIAL''"
| "resource_text EquipmentResource = ''EQUIPMENT''"

definition scores_json :: "live_score list \<Rightarrow> jsval" where
  "scores_json xs = JArr (map (\<lambda>(e, v). JObj [(''entrantId'', JStr e), (''value'', JNum v)]) xs)"

fun correction_json :: "live_correction \<Rightarrow> jsval" where
  "correction_json (SetPresence e p r) = JObj [(''kind'', JStr ''SET_ENTRANT_PRESENCE''), (''entrantId'', JStr e),
     (''status'', JStr (presence_text p)), (''reason'', JStr r)]"
| "correction_json (SetTiming c s e r) = JObj ([(''kind'', JStr ''SET_CONTEST_TIMING''), (''contestId'', JStr c), (''actualStart'', JStr s)]
     @ opt_field ''actualEnd'' JStr e @ [(''reason'', JStr r)])"
| "correction_json (SetScore c xs r) = JObj [(''kind'', JStr ''SET_CONTEST_SCORE''), (''contestId'', JStr c), (''scores'', scores_json xs), (''reason'', JStr r)]"
| "correction_json (SetAvailability k i a r t) = JObj ([(''kind'', JStr ''SET_RESOURCE_AVAILABILITY''), (''resourceKind'', JStr (resource_text k)),
     (''resourceId'', JStr i), (''available'', JBool a), (''reason'', JStr r)] @ opt_field ''expectedAvailableAt'' JStr t)"

text \<open>The fields of a command beside its audit, and of an event beside its envelope.\<close>

fun body_fields :: "command_body \<Rightarrow> (string \<times> jsval) list" where
  "body_fields (CheckIn e) = [(''kind'', JStr ''CHECK_IN''), (''entrantId'', JStr e)]"
| "body_fields (MarkLate e r) = [(''kind'', JStr ''MARK_LATE''), (''entrantId'', JStr e), (''reason'', JStr r)]"
| "body_fields (WithdrawEntrant e r) = [(''kind'', JStr ''WITHDRAW_ENTRANT''), (''entrantId'', JStr e), (''reason'', JStr r)]"
| "body_fields (DeclareNoShow c e r) = [(''kind'', JStr ''DECLARE_NO_SHOW''), (''contestId'', JStr c), (''entrantId'', JStr e), (''reason'', JStr r)]"
| "body_fields (AwardWalkover c w a r) = [(''kind'', JStr ''AWARD_WALKOVER''), (''contestId'', JStr c), (''winnerEntrantId'', JStr w),
     (''absentEntrantId'', JStr a), (''reason'', JStr r)]"
| "body_fields (CallContest c) = [(''kind'', JStr ''CALL_CONTEST''), (''contestId'', JStr c)]"
| "body_fields (StartContest c k t) = [(''kind'', JStr ''START_CONTEST''), (''contestId'', JStr c), (''courtId'', JStr k), (''startedAt'', JStr t)]"
| "body_fields (RecordScore c xs) = [(''kind'', JStr ''RECORD_SCORE''), (''contestId'', JStr c), (''scores'', scores_json xs)]"
| "body_fields (CompleteContest c t) = [(''kind'', JStr ''COMPLETE_CONTEST''), (''contestId'', JStr c), (''endedAt'', JStr t)]"
| "body_fields (ResolveEntrants c es h) = [(''kind'', JStr ''RESOLVE_CONTEST_ENTRANTS''), (''contestId'', JStr c),
     (''entrantIds'', strings_json es), (''sourceProofHash'', JStr h)]"
| "body_fields (RecordRetirement c x w t r) = [(''kind'', JStr ''RECORD_RETIREMENT''), (''contestId'', JStr c), (''retiredEntrantId'', JStr x),
     (''winnerEntrantId'', JStr w), (''endedAt'', JStr t), (''reason'', JStr r)]"
| "body_fields (ReceiveResult c s) = [(''kind'', JStr ''RECORD_RESULT_RECEIPT''), (''contestId'', JStr c), (''source'', JStr s)]"
| "body_fields (FileProtest p c f r) = [(''kind'', JStr ''FILE_PROTEST''), (''protestId'', JStr p), (''contestId'', JStr c), (''filedById'', JStr f), (''reason'', JStr r)]"
| "body_fields (ResolveProtest p d r) = [(''kind'', JStr ''RESOLVE_PROTEST''), (''protestId'', JStr p), (''outcome'', JStr (dispute_text d)), (''reason'', JStr r)]"
| "body_fields (FileAppeal a p f r) = [(''kind'', JStr ''FILE_APPEAL''), (''appealId'', JStr a), (''protestId'', JStr p), (''filedById'', JStr f), (''reason'', JStr r)]"
| "body_fields (ResolveAppeal a d r) = [(''kind'', JStr ''RESOLVE_APPEAL''), (''appealId'', JStr a), (''outcome'', JStr (dispute_text d)), (''reason'', JStr r)]"
| "body_fields (CorrectOperation i x r) = [(''kind'', JStr ''CORRECT_OPERATION''), (''supersedesEventId'', JStr i), (''replacement'', correction_json x), (''reason'', JStr r)]"
| "body_fields (CloseCourt k r t) = [(''kind'', JStr ''CLOSE_COURT''), (''courtId'', JStr k), (''reason'', JStr r)] @ opt_field ''expectedReopenAt'' JStr t"
| "body_fields (ReopenCourt k r) = [(''kind'', JStr ''REOPEN_COURT''), (''courtId'', JStr k), (''reason'', JStr r)]"
| "body_fields (MarkOfficialAbsent i r) = [(''kind'', JStr ''MARK_OFFICIAL_ABSENT''), (''officialId'', JStr i), (''reason'', JStr r)]"
| "body_fields (RestoreOfficial i r) = [(''kind'', JStr ''RESTORE_OFFICIAL''), (''officialId'', JStr i), (''reason'', JStr r)]"
| "body_fields (ReportEquipmentFailure i r) = [(''kind'', JStr ''REPORT_EQUIPMENT_FAILURE''), (''equipmentId'', JStr i), (''reason'', JStr r)]"
| "body_fields (RestoreEquipment i r) = [(''kind'', JStr ''RESTORE_EQUIPMENT''), (''equipmentId'', JStr i), (''reason'', JStr r)]"
| "body_fields (DecideTie p q es r) = [(''kind'', JStr ''DECIDE_STANDINGS_TIE''), (''standingsPolicyId'', JStr p), (''poolId'', JStr q),
     (''orderedEntrantIds'', strings_json es), (''reason'', JStr r)]"

fun data_fields :: "event_data \<Rightarrow> (string \<times> jsval) list" where
  "data_fields (EntrantCheckedIn e) = [(''kind'', JStr ''ENTRANT_CHECKED_IN''), (''entrantId'', JStr e)]"
| "data_fields (EntrantMarkedLate e r) = [(''kind'', JStr ''ENTRANT_MARKED_LATE''), (''entrantId'', JStr e), (''reason'', JStr r)]"
| "data_fields (EntrantWithdrawn e r) = [(''kind'', JStr ''ENTRANT_WITHDRAWN''), (''entrantId'', JStr e), (''reason'', JStr r)]"
| "data_fields (EntrantNoShow c e r) = [(''kind'', JStr ''ENTRANT_DECLARED_NO_SHOW''), (''contestId'', JStr c), (''entrantId'', JStr e), (''reason'', JStr r)]"
| "data_fields (WalkoverAwarded c w a r) = [(''kind'', JStr ''WALKOVER_AWARDED''), (''contestId'', JStr c), (''winnerEntrantId'', JStr w),
     (''absentEntrantId'', JStr a), (''reason'', JStr r)]"
| "data_fields (ContestCalled c) = [(''kind'', JStr ''CONTEST_CALLED''), (''contestId'', JStr c)]"
| "data_fields (ContestStarted c k t) = [(''kind'', JStr ''CONTEST_STARTED''), (''contestId'', JStr c), (''courtId'', JStr k), (''startedAt'', JStr t)]"
| "data_fields (ScoreRecorded c xs) = [(''kind'', JStr ''SCORE_RECORDED''), (''contestId'', JStr c), (''scores'', scores_json xs)]"
| "data_fields (ContestCompleted c t) = [(''kind'', JStr ''CONTEST_COMPLETED''), (''contestId'', JStr c), (''endedAt'', JStr t)]"
| "data_fields (EntrantsResolved c es h) = [(''kind'', JStr ''CONTEST_ENTRANTS_RESOLVED''), (''contestId'', JStr c),
     (''entrantIds'', strings_json es), (''sourceProofHash'', JStr h)]"
| "data_fields (RetirementRecorded c x w t r) = [(''kind'', JStr ''RETIREMENT_RECORDED''), (''contestId'', JStr c), (''retiredEntrantId'', JStr x),
     (''winnerEntrantId'', JStr w), (''endedAt'', JStr t), (''reason'', JStr r)]"
| "data_fields (ResultReceived c s) = [(''kind'', JStr ''RESULT_RECEIVED''), (''contestId'', JStr c), (''source'', JStr s)]"
| "data_fields (ProtestFiled p c f r) = [(''kind'', JStr ''PROTEST_FILED''), (''protestId'', JStr p), (''contestId'', JStr c), (''filedById'', JStr f), (''reason'', JStr r)]"
| "data_fields (ProtestResolved p d r) = [(''kind'', JStr ''PROTEST_RESOLVED''), (''protestId'', JStr p), (''outcome'', JStr (dispute_text d)), (''reason'', JStr r)]"
| "data_fields (AppealFiled a p f r) = [(''kind'', JStr ''APPEAL_FILED''), (''appealId'', JStr a), (''protestId'', JStr p), (''filedById'', JStr f), (''reason'', JStr r)]"
| "data_fields (AppealResolved a d r) = [(''kind'', JStr ''APPEAL_RESOLVED''), (''appealId'', JStr a), (''outcome'', JStr (dispute_text d)), (''reason'', JStr r)]"
| "data_fields (OperationCorrected i x r) = [(''kind'', JStr ''OPERATION_CORRECTED''), (''supersedesEventId'', JStr i), (''replacement'', correction_json x), (''reason'', JStr r)]"
| "data_fields (AvailabilityChanged k i a r t) = [(''kind'', JStr ''RESOURCE_AVAILABILITY_CHANGED''), (''resourceKind'', JStr (resource_text k)),
     (''resourceId'', JStr i), (''available'', JBool a), (''reason'', JStr r)] @ opt_field ''expectedAvailableAt'' JStr t"
| "data_fields (TieDecided p q es r) = [(''kind'', JStr ''STANDINGS_TIE_DECIDED''), (''standingsPolicyId'', JStr p), (''poolId'', JStr q),
     (''orderedEntrantIds'', strings_json es), (''reason'', JStr r)]"

text \<open>\<^verbatim>\<open>content\<close> of a command: everything but the expected version.\<close>

definition command_json :: "live_command \<Rightarrow> jsval" where
  "command_json c = JObj ([(''commandId'', JStr (cmd_id c)), (''actorId'', JStr (cmd_actor c)), (''occurredAt'', JStr (cmd_at c))]
     @ body_fields (cmd_body c))"

text \<open>\<^verbatim>\<open>base\<close> of an event, then with its identifier, then with its hash.\<close>

definition event_base_fields :: "live_event \<Rightarrow> (string \<times> jsval) list" where
  "event_base_fields e = [(''tournamentId'', JStr (lev_tournament e)), (''sequence'', JNum (Num (of_nat (lev_sequence e)))),
     (''previousEventHash'', string_or_null (lev_previous e)), (''commandId'', JStr (lev_command e)),
     (''commandFingerprint'', JStr (lev_fingerprint e)), (''actorId'', JStr (lev_actor e)), (''occurredAt'', JStr (lev_at e))]
     @ data_fields (lev_data e)"

definition identified_event_json :: "live_event \<Rightarrow> jsval" where
  "identified_event_json e = JObj (event_base_fields e @ [(''eventId'', JStr (lev_id e))])"

definition live_event_json :: "live_event \<Rightarrow> jsval" where
  "live_event_json e = JObj (event_base_fields e @ [(''eventId'', JStr (lev_id e)), (''eventHash'', JStr (lev_hash e))])"

definition availability_json :: "availability \<Rightarrow> jsval" where
  "availability_json a = JObj ([(''available'', JBool (av_available a)), (''changedAt'', string_or_null (av_changed a)),
     (''reason'', string_or_null (av_reason a))] @ opt_field ''expectedAvailableAt'' JStr (av_expected a))"

definition contest_state_json :: "contest_state \<Rightarrow> jsval" where
  "contest_state_json c = JObj (opt_field ''status'' (\<lambda>s. JStr (contest_status_text s)) (cst_status c)
     @ opt_field ''calledAt'' JStr (cst_called c) @ opt_field ''scores'' scores_json (cst_scores c)
     @ opt_field ''winnerEntrantId'' JStr (cst_winner c) @ opt_field ''absentEntrantId'' JStr (cst_absent c)
     @ opt_field ''retiredEntrantId'' JStr (cst_retired c) @ opt_field ''actualCourtId'' JStr (cst_court c)
     @ opt_field ''actualStart'' JStr (cst_start c) @ opt_field ''actualEnd'' JStr (cst_end c)
     @ opt_field ''actualDurationMinutes'' JNum (cst_duration c) @ opt_field ''resultRecordedAt'' JStr (cst_recorded c))"

definition protest_json :: "protest_state \<Rightarrow> jsval" where
  "protest_json p = JObj (opt_field ''protestId'' JStr (prt_id p) @ opt_field ''contestId'' JStr (prt_contest p)
     @ opt_field ''filedById'' JStr (prt_filed_by p) @ opt_field ''reason'' JStr (prt_reason p)
     @ opt_field ''status'' (\<lambda>s. JStr (dispute_status_text s)) (prt_status p) @ opt_field ''resolutionReason'' JStr (prt_resolution p))"

definition appeal_json :: "appeal_state \<Rightarrow> jsval" where
  "appeal_json a = JObj (opt_field ''appealId'' JStr (apl_id a) @ opt_field ''protestId'' JStr (apl_protest a)
     @ opt_field ''filedById'' JStr (apl_filed_by a) @ opt_field ''reason'' JStr (apl_reason a)
     @ opt_field ''status'' (\<lambda>s. JStr (dispute_status_text s)) (apl_status a) @ opt_field ''resolutionReason'' JStr (apl_resolution a))"

text \<open>The state without its proof hash.\<close>

definition live_state_json :: "live_state \<Rightarrow> jsval" where
  "live_state_json s = JObj [(''definition'', live_definition_json (lst_definition s)), (''version'', JNum (Num (of_nat (lst_version s)))),
     (''lastEventHash'', string_or_null (lst_last s)), (''events'', JArr (map live_event_json (lst_events s))),
     (''entrantPresence'', dict_json (\<lambda>p. JStr (presence_text p)) (lst_presence s)),
     (''contests'', dict_json contest_state_json (lst_contests s)), (''resolvedEntrants'', dict_json strings_json (lst_resolved s)),
     (''resources'', JObj [(''courts'', dict_json availability_json (lst_courts s)),
        (''officials'', dict_json availability_json (lst_officials s)), (''equipment'', dict_json availability_json (lst_equipment s))]),
     (''protests'', dict_json protest_json (lst_protests s)), (''appeals'', dict_json appeal_json (lst_appeals s)),
     (''commandFingerprints'', dict_json JStr (lst_fingerprints s))]"

end
