(* ===== verification/LiveOperations.thy ===== *)
theory LiveOperations
  imports LiveModel
begin

text \<open>
  packages/competition-engine/src/live-operations.ts, the operations: creation of a live state,
  submission of commands, projection of the state from the events, replay of an event log, the
  tie decisions and the control room.

  \<^item> \<open>submit\<close> checks a command against the projected state and appends at most one event; the new
    state is the projection of the whole log. What throws in the code is an \<open>Inl\<close>.
  \<^item> The theorems are in \<open>LiveProofs\<close>.
\<close>

datatype live_error =
    InvalidLiveDefinition
  | InvalidLiveContest string
  | InvalidTolerance
  | UndefinedContest
  | LiveHash json_error
  | InvalidControlTime

section \<open>Small helpers\<close>

definition canonical_timestamp :: "platform \<Rightarrow> string \<Rightarrow> bool" where
  "canonical_timestamp P s = (case date_parse P s of None \<Rightarrow> False | Some t \<Rightarrow> iso_string P t = Some s)"

text \<open>\<^verbatim>\<open>Date.parse(a) < Date.parse(b)\<close> and \<^verbatim>\<open><=\<close>: false when one of them is NaN.\<close>

definition date_less :: "platform \<Rightarrow> string \<Rightarrow> string \<Rightarrow> bool" where
  "date_less P a b = (case (date_parse P a, date_parse P b) of (Some x, Some y) \<Rightarrow> x < y | _ \<Rightarrow> False)"

definition date_le :: "platform \<Rightarrow> string \<Rightarrow> string \<Rightarrow> bool" where
  "date_le P a b = (case (date_parse P a, date_parse P b) of (Some x, Some y) \<Rightarrow> x \<le> y | _ \<Rightarrow> False)"

definition truthy :: "string option \<Rightarrow> bool" where
  "truthy x = (case x of None \<Rightarrow> False | Some s \<Rightarrow> s \<noteq> [])"

text \<open>\<^verbatim>\<open>/^[a-f0-9]{64}$/\<close>\<close>

definition hex_lower :: "char \<Rightarrow> bool" where
  "hex_lower c = (let n = (of_char c :: nat) in 48 \<le> n \<and> n \<le> 57 \<or> 97 \<le> n \<and> n \<le> 102)"

definition is_digest :: "string \<Rightarrow> bool" where
  "is_digest s = (length s = 64 \<and> list_all hex_lower s)"

text \<open>\<^verbatim>\<open>Math.round\<close> of a finite number.\<close>

definition js_round :: "rat \<Rightarrow> jsnum" where
  "js_round r = (if - 1 / 2 \<le> r \<and> r < 0 then NegZero else Num (of_int \<lfloor>r + 1 / 2\<rfloor>))"

definition minutes_between :: "platform \<Rightarrow> string option \<Rightarrow> string \<Rightarrow> jsnum" where
  "minutes_between P start stop =
     (case (start, date_parse P stop) of
        (Some s, Some t1) \<Rightarrow> (case date_parse P s of None \<Rightarrow> NaN | Some t0 \<Rightarrow> js_round (of_int (t1 - t0) / 60000))
      | _ \<Rightarrow> NaN)"

text \<open>\<^verbatim>\<open>Object.fromEntries\<close>\<close>

definition omap_of :: "('k \<times> 'v) list \<Rightarrow> ('k, 'v) omap" where
  "omap_of kvs = foldl (\<lambda>m (k, v). omap_set k v m) [] kvs"

definition list_or :: "'a list option \<Rightarrow> 'a list" where
  "list_or x = (case x of None \<Rightarrow> [] | Some xs \<Rightarrow> xs)"

section \<open>Creation\<close>

definition contest_invalid :: "platform \<Rightarrow> live_definition \<Rightarrow> live_contest \<Rightarrow> bool" where
  "contest_invalid P d c =
     (blank (lct_id c) \<or> lct_entrants c = [] \<or> \<not> distinct (lct_entrants c) \<or> list_ex blank (lct_entrants c)
      \<or> (case lct_fixed c of None \<Rightarrow> False
          | Some es \<Rightarrow> length es \<noteq> 2 \<or> \<not> distinct es \<or> list_ex (\<lambda>e. \<not> List.member (lct_entrants c) e) es)
      \<or> \<not> List.member (ldf_courts d) (lct_court c)
      \<or> (case lct_official c of None \<Rightarrow> False | Some i \<Rightarrow> \<not> List.member (list_or (ldf_officials d)) i)
      \<or> list_ex (\<lambda>i. \<not> List.member (list_or (ldf_equipment d)) i) (list_or (lct_equipment c))
      \<or> list_ex (\<lambda>i. \<not> List.member (map lct_id (ldf_contests d)) i \<or> i = lct_id c) (list_or (lct_depends c))
      \<or> \<not> canonical_timestamp P (lct_start c) \<or> \<not> canonical_timestamp P (lct_end c) \<or> date_le P (lct_end c) (lct_start c))"

definition normal_contest :: "live_contest \<Rightarrow> live_contest" where
  "normal_contest c = c\<lparr>lct_fixed := map_option sort (lct_fixed c), lct_equipment := Some (sort (list_or (lct_equipment c))),
     lct_depends := Some (sort (list_or (lct_depends c)))\<rparr>"

definition validated_definition :: "platform \<Rightarrow> live_definition \<Rightarrow> (live_error, live_definition) result" where
  "validated_definition P d =
     (if blank (ldf_tournament d) \<or> ldf_contests d = [] \<or> \<not> distinct (ldf_courts d)
        \<or> \<not> distinct (list_or (ldf_officials d)) \<or> \<not> distinct (list_or (ldf_equipment d)) then Inl InvalidLiveDefinition
      else if \<not> distinct (map lct_id (ldf_contests d)) then Inl InvalidLiveDefinition
      else case find (contest_invalid P d) (ldf_contests d) of
        Some c \<Rightarrow> Inl (InvalidLiveContest (lct_id c))
      | None \<Rightarrow>
          (let tolerance = (case ldf_tolerance d of None \<Rightarrow> Num 5 | Some n \<Rightarrow> n)
           in case js_finite tolerance of
                None \<Rightarrow> Inl InvalidTolerance
              | Some r \<Rightarrow>
                  if r < 0 then Inl InvalidTolerance
                  else Inr (d\<lparr>ldf_tolerance := Some tolerance, ldf_officials := Some (sort (list_or (ldf_officials d))),
                    ldf_equipment := Some (sort (list_or (ldf_equipment d))), ldf_courts := sort (ldf_courts d),
                    ldf_contests := sort_by (\<lambda>a b. locale_compare P (lct_id a) (lct_id b)) (map normal_contest (ldf_contests d))\<rparr>)))"

definition hash_live :: "platform \<Rightarrow> jsval \<Rightarrow> (live_error, string) result" where
  "hash_live P v = (case canonical_hash P v of Inl e \<Rightarrow> Inl (LiveHash e) | Inr h \<Rightarrow> Inr h)"

definition freeze_state :: "platform \<Rightarrow> live_state \<Rightarrow> (live_error, live_state) result" where
  "freeze_state P s = bind_result (hash_live P (live_state_json s)) (\<lambda>h. Inr (s\<lparr>lst_proof := h\<rparr>))"

definition no_contest :: contest_state where
  "no_contest = \<lparr>cst_status = None, cst_called = None, cst_scores = None, cst_winner = None, cst_absent = None, cst_retired = None,
     cst_court = None, cst_start = None, cst_end = None, cst_duration = None, cst_recorded = None\<rparr>"

definition initial_entrants :: "live_contest \<Rightarrow> (string \<times> string list) list" where
  "initial_entrants c =
     (case lct_fixed c of
        Some es \<Rightarrow> [(lct_id c, sort es)]
      | None \<Rightarrow> if lct_resolution c = Some True then [] else [(lct_id c, sort (lct_entrants c))])"

definition all_available :: "string list \<Rightarrow> (string, availability) omap" where
  "all_available ids = omap_of (map (\<lambda>i. (i, \<lparr>av_available = True, av_changed = None, av_reason = None, av_expected = None\<rparr>)) ids)"

definition initial_state :: "live_definition \<Rightarrow> live_state" where
  "initial_state d =
     \<lparr>lst_definition = d, lst_version = 0, lst_last = None, lst_events = [], lst_presence = [],
      lst_contests = omap_of (map (\<lambda>c. (lct_id c, no_contest\<lparr>cst_status := Some StScheduled\<rparr>)) (ldf_contests d)),
      lst_resolved = omap_of (concat (map initial_entrants (ldf_contests d))),
      lst_courts = all_available (ldf_courts d), lst_officials = all_available (list_or (ldf_officials d)),
      lst_equipment = all_available (list_or (ldf_equipment d)), lst_protests = [], lst_appeals = [], lst_fingerprints = [],
      lst_proof = []\<rparr>"

definition create_live_state :: "platform \<Rightarrow> live_definition \<Rightarrow> (live_error, live_state) result" where
  "create_live_state P input = bind_result (validated_definition P input) (\<lambda>d. freeze_state P (initial_state d))"

section \<open>From commands to events\<close>

fun command_event :: "platform \<Rightarrow> command_body \<Rightarrow> event_data" where
  "command_event P (CheckIn e) = EntrantCheckedIn e"
| "command_event P (MarkLate e r) = EntrantMarkedLate e r"
| "command_event P (WithdrawEntrant e r) = EntrantWithdrawn e r"
| "command_event P (DeclareNoShow c e r) = EntrantNoShow c e r"
| "command_event P (AwardWalkover c w a r) = WalkoverAwarded c w a r"
| "command_event P (CallContest c) = ContestCalled c"
| "command_event P (StartContest c k t) = ContestStarted c k t"
| "command_event P (RecordScore c xs) = ScoreRecorded c (sort_by (\<lambda>a b. locale_compare P (fst a) (fst b)) xs)"
| "command_event P (CompleteContest c t) = ContestCompleted c t"
| "command_event P (ResolveEntrants c es h) = EntrantsResolved c (sort es) h"
| "command_event P (RecordRetirement c x w t r) = RetirementRecorded c x w t r"
| "command_event P (ReceiveResult c s) = ResultReceived c s"
| "command_event P (FileProtest p c f r) = ProtestFiled p c f r"
| "command_event P (ResolveProtest p d r) = ProtestResolved p d r"
| "command_event P (FileAppeal a p f r) = AppealFiled a p f r"
| "command_event P (ResolveAppeal a d r) = AppealResolved a d r"
| "command_event P (CorrectOperation i x r) = OperationCorrected i x r"
| "command_event P (CloseCourt k r t) = AvailabilityChanged CourtResource k False r t"
| "command_event P (ReopenCourt k r) = AvailabilityChanged CourtResource k True r None"
| "command_event P (MarkOfficialAbsent i r) = AvailabilityChanged OfficialResource i False r None"
| "command_event P (RestoreOfficial i r) = AvailabilityChanged OfficialResource i True r None"
| "command_event P (ReportEquipmentFailure i r) = AvailabilityChanged EquipmentResource i False r None"
| "command_event P (DecideTie p q es r) = TieDecided p q es r"
| "command_event P (RestoreEquipment i r) = AvailabilityChanged EquipmentResource i True r None"

fun resource_command :: "command_body \<Rightarrow> (resource_kind \<times> string \<times> bool \<times> string option) option" where
  "resource_command (CloseCourt k r t) = Some (CourtResource, k, False, t)"
| "resource_command (ReopenCourt k r) = Some (CourtResource, k, True, None)"
| "resource_command (MarkOfficialAbsent i r) = Some (OfficialResource, i, False, None)"
| "resource_command (RestoreOfficial i r) = Some (OfficialResource, i, True, None)"
| "resource_command (ReportEquipmentFailure i r) = Some (EquipmentResource, i, False, None)"
| "resource_command (RestoreEquipment i r) = Some (EquipmentResource, i, True, None)"
| "resource_command _ = None"

text \<open>\<^verbatim>\<open>"entrantId" in command\<close>, \<^verbatim>\<open>"reason" in command\<close>, \<^verbatim>\<open>"contestId" in command\<close>\<close>

fun command_entrant :: "command_body \<Rightarrow> string option" where
  "command_entrant (CheckIn e) = Some e"
| "command_entrant (MarkLate e _) = Some e"
| "command_entrant (WithdrawEntrant e _) = Some e"
| "command_entrant (DeclareNoShow _ e _) = Some e"
| "command_entrant _ = None"

fun command_reason :: "command_body \<Rightarrow> string option" where
  "command_reason (MarkLate _ r) = Some r"
| "command_reason (WithdrawEntrant _ r) = Some r"
| "command_reason (DeclareNoShow _ _ r) = Some r"
| "command_reason (AwardWalkover _ _ _ r) = Some r"
| "command_reason (RecordRetirement _ _ _ _ r) = Some r"
| "command_reason (FileProtest _ _ _ r) = Some r"
| "command_reason (ResolveProtest _ _ r) = Some r"
| "command_reason (FileAppeal _ _ _ r) = Some r"
| "command_reason (ResolveAppeal _ _ r) = Some r"
| "command_reason (CorrectOperation _ _ r) = Some r"
| "command_reason (CloseCourt _ r _) = Some r"
| "command_reason (ReopenCourt _ r) = Some r"
| "command_reason (MarkOfficialAbsent _ r) = Some r"
| "command_reason (RestoreOfficial _ r) = Some r"
| "command_reason (ReportEquipmentFailure _ r) = Some r"
| "command_reason (RestoreEquipment _ r) = Some r"
| "command_reason (DecideTie _ _ _ r) = Some r"
| "command_reason _ = None"

fun command_contest :: "command_body \<Rightarrow> string option" where
  "command_contest (DeclareNoShow c _ _) = Some c"
| "command_contest (AwardWalkover c _ _ _) = Some c"
| "command_contest (CallContest c) = Some c"
| "command_contest (StartContest c _ _) = Some c"
| "command_contest (RecordScore c _) = Some c"
| "command_contest (CompleteContest c _) = Some c"
| "command_contest (ResolveEntrants c _ _) = Some c"
| "command_contest (RecordRetirement c _ _ _ _) = Some c"
| "command_contest (ReceiveResult c _) = Some c"
| "command_contest (FileProtest _ c _ _) = Some c"
| "command_contest _ = None"

text \<open>\<^verbatim>\<open>acceptedEvent\<close>\<close>

definition accepted_event :: "platform \<Rightarrow> live_state \<Rightarrow> live_command \<Rightarrow> string \<Rightarrow> (live_error, live_event) result" where
  "accepted_event P st c fp =
     (let e = \<lparr>lev_id = [], lev_hash = [], lev_previous = lst_last st, lev_sequence = lst_version st + 1,
            lev_tournament = ldf_tournament (lst_definition st), lev_command = cmd_id c, lev_fingerprint = fp,
            lev_actor = cmd_actor c, lev_at = cmd_at c, lev_data = command_event P (cmd_body c)\<rparr>
      in bind_result (hash_live P (JObj (event_base_fields e))) (\<lambda>h.
           let e' = e\<lparr>lev_id := ''live_evt_'' @ take 24 h\<rparr>
           in bind_result (hash_live P (identified_event_json e')) (\<lambda>h'. Inr (e'\<lparr>lev_hash := h'\<rparr>))))"

section \<open>Projection\<close>

definition contest_at :: "live_state \<Rightarrow> string \<Rightarrow> contest_state" where
  "contest_at st c = (case omap_get (lst_contests st) c of None \<Rightarrow> no_contest | Some s \<Rightarrow> s)"

definition set_contest :: "string \<Rightarrow> contest_state \<Rightarrow> live_state \<Rightarrow> live_state" where
  "set_contest c s st = st\<lparr>lst_contests := omap_set c s (lst_contests st)\<rparr>"

fun set_resource :: "resource_kind \<Rightarrow> string \<Rightarrow> availability \<Rightarrow> live_state \<Rightarrow> live_state" where
  "set_resource CourtResource i a st = st\<lparr>lst_courts := omap_set i a (lst_courts st)\<rparr>"
| "set_resource OfficialResource i a st = st\<lparr>lst_officials := omap_set i a (lst_officials st)\<rparr>"
| "set_resource EquipmentResource i a st = st\<lparr>lst_equipment := omap_set i a (lst_equipment st)\<rparr>"

fun resource_map :: "resource_kind \<Rightarrow> live_state \<Rightarrow> (string, availability) omap" where
  "resource_map CourtResource st = lst_courts st"
| "resource_map OfficialResource st = lst_officials st"
| "resource_map EquipmentResource st = lst_equipment st"

definition changed :: "bool \<Rightarrow> string \<Rightarrow> string \<Rightarrow> string option \<Rightarrow> availability" where
  "changed a now r t = \<lparr>av_available = a, av_changed = Some now, av_reason = Some r, av_expected = t\<rparr>"

fun apply_correction :: "platform \<Rightarrow> string \<Rightarrow> live_correction \<Rightarrow> live_state \<Rightarrow> live_state" where
  "apply_correction P now (SetPresence e p r) st = st\<lparr>lst_presence := omap_set e p (lst_presence st)\<rparr>"
| "apply_correction P now (SetTiming c s None r) st =
     set_contest c ((contest_at st c)\<lparr>cst_status := Some StInProgress, cst_start := Some s\<rparr>) st"
| "apply_correction P now (SetTiming c s (Some t) r) st =
     set_contest c ((contest_at st c)\<lparr>cst_status := Some StCompleted, cst_start := Some s, cst_end := Some t,
       cst_duration := Some (minutes_between P (Some s) t)\<rparr>) st"
| "apply_correction P now (SetScore c xs r) st =
     set_contest c ((contest_at st c)\<lparr>cst_scores := Some (sort_by (\<lambda>a b. locale_compare P (fst a) (fst b)) xs)\<rparr>) st"
| "apply_correction P now (SetAvailability k i a r t) st = set_resource k i (changed a now r t) st"

definition protest_at :: "live_state \<Rightarrow> string \<Rightarrow> protest_state" where
  "protest_at st p = (case omap_get (lst_protests st) p of
     None \<Rightarrow> \<lparr>prt_id = None, prt_contest = None, prt_filed_by = None, prt_reason = None, prt_status = None, prt_resolution = None\<rparr>
   | Some s \<Rightarrow> s)"

definition appeal_at :: "live_state \<Rightarrow> string \<Rightarrow> appeal_state" where
  "appeal_at st a = (case omap_get (lst_appeals st) a of
     None \<Rightarrow> \<lparr>apl_id = None, apl_protest = None, apl_filed_by = None, apl_reason = None, apl_status = None, apl_resolution = None\<rparr>
   | Some s \<Rightarrow> s)"

text \<open>The branches of \<^verbatim>\<open>projectLiveOperations\<close> for the events that no correction supersedes.\<close>

fun apply_data :: "platform \<Rightarrow> string \<Rightarrow> event_data \<Rightarrow> live_state \<Rightarrow> (live_error, live_state) result" where
  "apply_data P now (EntrantCheckedIn e) st = Inr (st\<lparr>lst_presence := omap_set e CheckedIn (lst_presence st)\<rparr>)"
| "apply_data P now (EntrantMarkedLate e r) st = Inr (st\<lparr>lst_presence := omap_set e MarkedLate (lst_presence st)\<rparr>)"
| "apply_data P now (EntrantWithdrawn e r) st = Inr (st\<lparr>lst_presence := omap_set e Withdrawn (lst_presence st)\<rparr>)"
| "apply_data P now (EntrantNoShow c e r) st = Inr (st\<lparr>lst_presence := omap_set e NoShow (lst_presence st)\<rparr>)"
| "apply_data P now (WalkoverAwarded c w a r) st =
     Inr (set_contest c (no_contest\<lparr>cst_status := Some StWalkover, cst_winner := Some w, cst_absent := Some a\<rparr>) st)"
| "apply_data P now (ContestCalled c) st = Inr (set_contest c ((contest_at st c)\<lparr>cst_called := Some now\<rparr>) st)"
| "apply_data P now (ContestStarted c k t) st =
     Inr (set_contest c ((contest_at st c)\<lparr>cst_status := Some StInProgress, cst_court := Some k, cst_start := Some t\<rparr>) st)"
| "apply_data P now (ScoreRecorded c xs) st = Inr (set_contest c ((contest_at st c)\<lparr>cst_scores := Some xs\<rparr>) st)"
| "apply_data P now (ContestCompleted c t) st =
     (case omap_get (lst_contests st) c of
        None \<Rightarrow> Inl UndefinedContest
      | Some s \<Rightarrow> Inr (set_contest c (s\<lparr>cst_status := Some StCompleted, cst_end := Some t,
          cst_duration := Some (minutes_between P (cst_start s) t)\<rparr>) st))"
| "apply_data P now (EntrantsResolved c es h) st = Inr (st\<lparr>lst_resolved := omap_set c es (lst_resolved st)\<rparr>)"
| "apply_data P now (RetirementRecorded c x w t r) st =
     (case omap_get (lst_contests st) c of
        None \<Rightarrow> Inl UndefinedContest
      | Some s \<Rightarrow> Inr (set_contest c (s\<lparr>cst_status := Some StRetired, cst_end := Some t,
          cst_duration := Some (minutes_between P (cst_start s) t), cst_retired := Some x, cst_winner := Some w\<rparr>) st))"
| "apply_data P now (ResultReceived c s) st = Inr (set_contest c ((contest_at st c)\<lparr>cst_recorded := Some now\<rparr>) st)"
| "apply_data P now (ProtestFiled p c f r) st =
     Inr (st\<lparr>lst_protests := omap_set p \<lparr>prt_id = Some p, prt_contest = Some c, prt_filed_by = Some f, prt_reason = Some r,
       prt_status = Some StPending, prt_resolution = None\<rparr> (lst_protests st)\<rparr>)"
| "apply_data P now (ProtestResolved p d r) st =
     Inr (st\<lparr>lst_protests := omap_set p ((protest_at st p)\<lparr>prt_status := Some (StResolved d), prt_resolution := Some r\<rparr>) (lst_protests st)\<rparr>)"
| "apply_data P now (AppealFiled a p f r) st =
     Inr (st\<lparr>lst_appeals := omap_set a \<lparr>apl_id = Some a, apl_protest = Some p, apl_filed_by = Some f, apl_reason = Some r,
       apl_status = Some StPending, apl_resolution = None\<rparr> (lst_appeals st)\<rparr>)"
| "apply_data P now (AppealResolved a d r) st =
     Inr (st\<lparr>lst_appeals := omap_set a ((appeal_at st a)\<lparr>apl_status := Some (StResolved d), apl_resolution := Some r\<rparr>) (lst_appeals st)\<rparr>)"
| "apply_data P now (OperationCorrected i x r) st = Inr (apply_correction P now x st)"
| "apply_data P now (AvailabilityChanged k i a r t) st = Inr (set_resource k i (changed a now r t) st)"
| "apply_data P now (TieDecided p q es r) st = Inr st"

fun corrected_id :: "event_data \<Rightarrow> string option" where
  "corrected_id (OperationCorrected i _ _) = Some i"
| "corrected_id _ = None"

definition superseded :: "live_event list \<Rightarrow> string list" where
  "superseded es = List.map_filter (\<lambda>e. corrected_id (lev_data e)) es"

definition apply_event :: "platform \<Rightarrow> string list \<Rightarrow> live_event \<Rightarrow> live_state \<Rightarrow> (live_error, live_state) result" where
  "apply_event P gone e st0 =
     (let st = st0\<lparr>lst_fingerprints := omap_set (lev_command e) (lev_fingerprint e) (lst_fingerprints st0)\<rparr>
      in if corrected_id (lev_data e) = None \<and> List.member gone (lev_id e) then Inr st
         else apply_data P (lev_at e) (lev_data e) st)"

definition project :: "platform \<Rightarrow> live_definition \<Rightarrow> live_event list \<Rightarrow> (live_error, live_state) result" where
  "project P d es =
     bind_result (create_live_state P d) (\<lambda>initial.
       bind_result (fold_result (apply_event P (superseded es)) es initial) (\<lambda>s.
         freeze_state P (s\<lparr>lst_version := length es, lst_last := (if es = [] then None else Some (lev_hash (last es))),
           lst_events := es\<rparr>)))"

section \<open>Guards of a command\<close>

type_synonym live_finding = "string \<times> string"

definition finding_when :: "bool \<Rightarrow> string \<Rightarrow> string \<Rightarrow> live_finding list" where
  "finding_when b c p = (if b then [(c, p)] else [])"

definition known_entrants :: "live_state \<Rightarrow> string list" where
  "known_entrants st = concat (map lct_entrants (ldf_contests (lst_definition st)))"

definition defined_contest :: "live_state \<Rightarrow> string \<Rightarrow> live_contest option" where
  "defined_contest st c = find (\<lambda>x. lct_id x = c) (ldf_contests (lst_definition st))"

definition effective_entrants :: "live_state \<Rightarrow> string \<Rightarrow> string list" where
  "effective_entrants st c = list_or (omap_get (lst_resolved st) c)"

definition status_of :: "live_state \<Rightarrow> string \<Rightarrow> contest_status option" where
  "status_of st c = (case omap_get (lst_contests st) c of None \<Rightarrow> None | Some s \<Rightarrow> cst_status s)"

fun settled :: "contest_status option \<Rightarrow> bool" where
  "settled (Some StCompleted) = True"
| "settled (Some StWalkover) = True"
| "settled (Some StRetired) = True"
| "settled _ = False"

definition safe_count :: "jsnum \<Rightarrow> bool" where
  "safe_count v = (case js_integer v of None \<Rightarrow> False | Some i \<Rightarrow> 0 \<le> i \<and> i \<le> 9007199254740991)"

definition valid_scores :: "live_score list \<Rightarrow> string list \<Rightarrow> bool" where
  "valid_scores xs es = (length xs = length es \<and> distinct (map fst xs)
     \<and> list_all (\<lambda>(e, v). List.member es e \<and> safe_count v) xs)"

definition court_closed_at :: "platform \<Rightarrow> availability option \<Rightarrow> string \<Rightarrow> bool" where
  "court_closed_at P court instant =
     (case court of
        None \<Rightarrow> False
      | Some a \<Rightarrow>
          if av_available a then False
          else (case av_expected a of
                  None \<Rightarrow> True
                | Some t \<Rightarrow> if \<not> canonical_timestamp P instant then True else date_less P instant t))"

definition audit_findings :: "platform \<Rightarrow> live_state \<Rightarrow> live_command \<Rightarrow> live_finding list" where
  "audit_findings P st c =
     finding_when (blank (cmd_id c) \<or> blank (cmd_actor c) \<or> \<not> canonical_timestamp P (cmd_at c)) ''LIVE400'' ''/command''
     @ finding_when (js_finite (cmd_expected c) \<noteq> Some (of_nat (lst_version st))) ''LIVE409'' ''/expectedVersion''
     @ finding_when (case command_entrant (cmd_body c) of None \<Rightarrow> False | Some e \<Rightarrow> \<not> List.member (known_entrants st) e)
         ''LIVE404'' ''/entrantId''
     @ finding_when (case command_reason (cmd_body c) of None \<Rightarrow> False | Some r \<Rightarrow> blank r) ''LIVE400'' ''/reason''"

definition resource_findings :: "platform \<Rightarrow> live_state \<Rightarrow> live_command \<Rightarrow> live_finding list" where
  "resource_findings P st c =
     (case resource_command (cmd_body c) of
        None \<Rightarrow> []
      | Some (k, i, a, t) \<Rightarrow>
          (case omap_get (resource_map k st) i of
             None \<Rightarrow> [(''LIVE404'', ''/resourceId'')]
           | Some now \<Rightarrow> finding_when (av_available now = a) ''LIVE422'' ''/resourceId'')
          @ finding_when (case t of None \<Rightarrow> False | Some x \<Rightarrow> \<not> canonical_timestamp P x \<or> date_less P x (cmd_at c))
              ''LIVE400'' ''/expectedReopenAt'')"

text \<open>The branches of \<^verbatim>\<open>"contestId" in command\<close> for a contest of the definition.\<close>

definition occupying :: "live_state \<Rightarrow> string \<Rightarrow> string \<Rightarrow> string list" where
  "occupying st c court = map fst (filter (\<lambda>(i, s). i \<noteq> c \<and> cst_status s = Some StInProgress \<and> cst_court s = Some court) (lst_contests st))"

definition start_findings :: "platform \<Rightarrow> live_state \<Rightarrow> string \<Rightarrow> live_contest \<Rightarrow> string \<Rightarrow> string \<Rightarrow> live_finding list" where
  "start_findings P st now c k t =
     (let court = omap_get (lst_courts st) k;
          missing = filter (\<lambda>e. omap_get (lst_presence st) e \<noteq> Some CheckedIn \<and> omap_get (lst_presence st) e \<noteq> Some MarkedLate)
            (effective_entrants st (lct_id c));
          pending = filter (\<lambda>i. \<not> settled (status_of st i)) (list_or (lct_depends c))
      in finding_when (status_of st (lct_id c) \<noteq> Some StScheduled) ''LIVE422'' ''/contestId''
         @ finding_when (\<not> List.member (ldf_courts (lst_definition st)) k) ''LIVE404'' ''/courtId''
         @ finding_when (\<not> canonical_timestamp P t) ''LIVE400'' ''/startedAt''
         @ finding_when (court_closed_at P court now \<or> court_closed_at P court t) ''LIVE422'' ''/courtId''
         @ finding_when (occupying st (lct_id c) k \<noteq> []) ''LIVE422'' ''/courtId''
         @ finding_when (missing \<noteq> []) ''LIVE422'' ''/entrantPresence''
         @ finding_when (pending \<noteq> []) ''LIVE422'' ''/dependencyContestIds'')"

definition end_invalid :: "platform \<Rightarrow> live_state \<Rightarrow> string \<Rightarrow> string \<Rightarrow> bool" where
  "end_invalid P st c t =
     (case omap_get (lst_contests st) c of
        None \<Rightarrow> True
      | Some s \<Rightarrow> cst_status s \<noteq> Some StInProgress \<or> \<not> canonical_timestamp P t \<or> \<not> truthy (cst_start s)
          \<or> (case cst_start s of None \<Rightarrow> False | Some b \<Rightarrow> date_less P t b))"

definition resolve_findings :: "live_state \<Rightarrow> live_contest \<Rightarrow> string list \<Rightarrow> string \<Rightarrow> live_finding list" where
  "resolve_findings st c es h =
     finding_when (status_of st (lct_id c) \<noteq> Some StScheduled \<or> truthy (cst_called (contest_at st (lct_id c)))) ''LIVE422'' ''/contestId''
     @ finding_when (length es \<noteq> 2 \<or> \<not> distinct es \<or> list_ex (\<lambda>e. \<not> List.member (lct_entrants c) e) es) ''LIVE422'' ''/entrantIds''
     @ finding_when (\<not> is_digest h) ''LIVE400'' ''/sourceProofHash''"

fun ruled_findings :: "platform \<Rightarrow> live_state \<Rightarrow> string \<Rightarrow> live_contest \<Rightarrow> command_body \<Rightarrow> live_finding list" where
  "ruled_findings P st now c (DeclareNoShow _ e _) =
     finding_when (\<not> List.member (effective_entrants st (lct_id c)) e) ''LIVE422'' ''/entrantId''"
| "ruled_findings P st now c (AwardWalkover _ w a _) =
     (let es = effective_entrants st (lct_id c)
      in finding_when (status_of st (lct_id c) \<noteq> Some StScheduled) ''LIVE422'' ''/contestId''
         @ finding_when (w = a \<or> \<not> List.member es w \<or> \<not> List.member es a) ''LIVE422'' ''/winnerEntrantId''
         @ finding_when (omap_get (lst_presence st) a \<noteq> Some NoShow \<and> omap_get (lst_presence st) a \<noteq> Some Withdrawn)
             ''LIVE422'' ''/absentEntrantId'')"
| "ruled_findings P st now c (CallContest _) =
     finding_when (status_of st (lct_id c) \<noteq> Some StScheduled \<or> truthy (cst_called (contest_at st (lct_id c)))) ''LIVE422'' ''/contestId''"
| "ruled_findings P st now c (StartContest _ k t) = start_findings P st now c k t"
| "ruled_findings P st now c (RecordScore _ xs) =
     finding_when (status_of st (lct_id c) \<noteq> Some StInProgress \<or> \<not> valid_scores xs (effective_entrants st (lct_id c))) ''LIVE422'' ''/scores''"
| "ruled_findings P st now c (CompleteContest _ t) = finding_when (end_invalid P st (lct_id c) t) ''LIVE422'' ''/endedAt''"
| "ruled_findings P st now c (RecordRetirement _ x w t _) =
     (let es = effective_entrants st (lct_id c)
      in finding_when (end_invalid P st (lct_id c) t) ''LIVE422'' ''/endedAt''
         @ finding_when (x = w \<or> \<not> List.member es x \<or> \<not> List.member es w) ''LIVE422'' ''/retiredEntrantId'')"
| "ruled_findings P st now c (ReceiveResult _ s) =
     finding_when (\<not> settled (status_of st (lct_id c)) \<or> truthy (cst_recorded (contest_at st (lct_id c)))) ''LIVE422'' ''/contestId''
     @ finding_when (blank s) ''LIVE400'' ''/source''"
| "ruled_findings P st now c _ = []"

definition contest_findings :: "platform \<Rightarrow> live_state \<Rightarrow> live_command \<Rightarrow> live_finding list" where
  "contest_findings P st c =
     (case command_contest (cmd_body c) of
        None \<Rightarrow> []
      | Some i \<Rightarrow>
          (case defined_contest st i of
             None \<Rightarrow> [(''LIVE404'', ''/contestId'')]
           | Some d \<Rightarrow>
               (case cmd_body c of
                  ResolveEntrants _ es h \<Rightarrow> resolve_findings st d es h
                | b \<Rightarrow>
                    if lct_resolution d = Some True \<and> omap_get (lst_resolved st) (lct_id d) = None then [(''LIVE425'', ''/contestId'')]
                    else ruled_findings P st (cmd_at c) d b)))"

fun tie_findings :: "live_state \<Rightarrow> command_body \<Rightarrow> live_finding list" where
  "tie_findings st (DecideTie p q es _) =
     finding_when (blank p \<or> blank q) ''LIVE400'' ''/standingsPolicyId''
     @ finding_when (length es < 2 \<or> \<not> distinct es \<or> list_ex (\<lambda>e. \<not> List.member (known_entrants st) e) es) ''LIVE422'' ''/orderedEntrantIds''"
| "tie_findings st _ = []"

definition correction_target :: "live_state \<Rightarrow> string \<Rightarrow> live_event option" where
  "correction_target st i = find (\<lambda>e. lev_id e = i) (lst_events st)"

fun replacement_reason :: "live_correction \<Rightarrow> string" where
  "replacement_reason (SetPresence _ _ r) = r"
| "replacement_reason (SetTiming _ _ _ r) = r"
| "replacement_reason (SetScore _ _ r) = r"
| "replacement_reason (SetAvailability _ _ _ r _) = r"

fun replacement_findings :: "platform \<Rightarrow> live_state \<Rightarrow> live_event option \<Rightarrow> live_correction \<Rightarrow> live_finding list" where
  "replacement_findings P st target (SetPresence e _ _) =
     finding_when (\<not> List.member (known_entrants st) e) ''LIVE404'' ''/replacement/entrantId''"
| "replacement_findings P st target (SetTiming c s t _) =
     finding_when (omap_get (lst_contests st) c = None \<or> \<not> canonical_timestamp P s
       \<or> (case t of None \<Rightarrow> False | Some x \<Rightarrow> \<not> canonical_timestamp P x \<or> date_less P x s)) ''LIVE422'' ''/replacement''"
| "replacement_findings P st target (SetScore c xs _) =
     finding_when (defined_contest st c = None \<or> \<not> valid_scores xs (effective_entrants st c)
       \<or> (case target of None \<Rightarrow> True | Some e \<Rightarrow> (case lev_data e of ScoreRecorded c' _ \<Rightarrow> c' \<noteq> c | _ \<Rightarrow> True))) ''LIVE422'' ''/replacement''"
| "replacement_findings P st target (SetAvailability k i _ _ t) =
     finding_when (omap_get (resource_map k st) i = None) ''LIVE404'' ''/replacement/resourceId''
     @ finding_when (case t of None \<Rightarrow> False | Some x \<Rightarrow> \<not> canonical_timestamp P x) ''LIVE400'' ''/replacement/expectedAvailableAt''"

fun dispute_findings :: "platform \<Rightarrow> live_state \<Rightarrow> command_body \<Rightarrow> live_finding list" where
  "dispute_findings P st (FileProtest p c f _) =
     finding_when (blank p \<or> blank f) ''LIVE400'' ''/protest''
     @ finding_when (omap_get (lst_protests st) p \<noteq> None) ''LIVE409'' ''/protestId''
     @ finding_when (\<not> settled (status_of st c)) ''LIVE422'' ''/contestId''"
| "dispute_findings P st (ResolveProtest p _ _) =
     finding_when (prt_status (protest_at st p) \<noteq> Some StPending) ''LIVE422'' ''/protestId''"
| "dispute_findings P st (FileAppeal a p f _) =
     finding_when (blank a \<or> blank f) ''LIVE400'' ''/appeal''
     @ finding_when (omap_get (lst_protests st) p = None \<or> prt_status (protest_at st p) = Some StPending) ''LIVE422'' ''/protestId''
     @ finding_when (omap_get (lst_appeals st) a \<noteq> None \<or> list_ex (\<lambda>(_, x). apl_protest x = Some p) (lst_appeals st)) ''LIVE409'' ''/appealId''"
| "dispute_findings P st (ResolveAppeal a _ _) =
     finding_when (apl_status (appeal_at st a) \<noteq> Some StPending) ''LIVE422'' ''/appealId''"
| "dispute_findings P st (CorrectOperation i x _) =
     (let target = correction_target st i
      in finding_when (case target of None \<Rightarrow> True | Some e \<Rightarrow> corrected_id (lev_data e) \<noteq> None) ''LIVE422'' ''/supersedesEventId''
         @ finding_when (List.member (superseded (lst_events st)) i) ''LIVE409'' ''/supersedesEventId''
         @ finding_when (blank (replacement_reason x)) ''LIVE400'' ''/replacement/reason''
         @ replacement_findings P st target x)"
| "dispute_findings P st _ = []"

definition submit_findings :: "platform \<Rightarrow> live_state \<Rightarrow> live_command \<Rightarrow> live_finding list" where
  "submit_findings P st c = audit_findings P st c @ resource_findings P st c @ contest_findings P st c
     @ tie_findings st (cmd_body c) @ dispute_findings P st (cmd_body c)"

section \<open>Submission\<close>

record live_result =
  lr_accepted :: bool
  lr_replay :: bool
  lr_state :: live_state
  lr_events :: "live_event list"
  lr_findings :: "live_finding list"

definition submit :: "platform \<Rightarrow> live_state \<Rightarrow> live_command \<Rightarrow> (live_error, live_result) result" where
  "submit P st c =
     bind_result (hash_live P (command_json c)) (\<lambda>fp.
       case omap_get (lst_fingerprints st) (cmd_id c) of
         Some prior \<Rightarrow>
           if prior = fp then Inr \<lparr>lr_accepted = True, lr_replay = True, lr_state = st, lr_events = [], lr_findings = []\<rparr>
           else Inr \<lparr>lr_accepted = False, lr_replay = False, lr_state = st, lr_events = [],
             lr_findings = [(''LIVE409'', ''/commandId'')]\<rparr>
       | None \<Rightarrow>
           (let fs = submit_findings P st c
            in if fs \<noteq> [] then Inr \<lparr>lr_accepted = False, lr_replay = False, lr_state = st, lr_events = [], lr_findings = fs\<rparr>
               else bind_result (accepted_event P st c fp) (\<lambda>e.
                 bind_result (project P (lst_definition st) (lst_events st @ [e])) (\<lambda>st'.
                   Inr \<lparr>lr_accepted = True, lr_replay = False, lr_state = st', lr_events = [e], lr_findings = []\<rparr>))))"

section \<open>Replay of an event log\<close>

record live_replay =
  lrp_valid :: bool
  lrp_state :: live_state
  lrp_findings :: "live_finding list"

text \<open>The envelope of the event at an index: identity, sequence, chain and audit.\<close>

definition envelope_ok :: "platform \<Rightarrow> live_definition \<Rightarrow> nat \<Rightarrow> string option \<Rightarrow> string list \<Rightarrow> live_event \<Rightarrow> (live_error, bool) result" where
  "envelope_ok P d i previous used e =
     bind_result (hash_live P (JObj (event_base_fields e))) (\<lambda>h.
       bind_result (hash_live P (identified_event_json e)) (\<lambda>h'.
         Inr (lev_tournament e = ldf_tournament d \<and> lev_sequence e = i + 1 \<and> lev_previous e = previous
           \<and> lev_id e = ''live_evt_'' @ take 24 h \<and> lev_hash e = h' \<and> \<not> List.member used (lev_command e)
           \<and> \<not> blank (lev_command e) \<and> \<not> blank (lev_actor e) \<and> canonical_timestamp P (lev_at e) \<and> is_digest (lev_fingerprint e))))"

text \<open>The index of the first invalid envelope.\<close>

fun first_invalid :: "platform \<Rightarrow> live_definition \<Rightarrow> nat \<Rightarrow> string option \<Rightarrow> string list \<Rightarrow> live_event list
    \<Rightarrow> (live_error, nat option) result" where
  "first_invalid P d i previous used [] = Inr None"
| "first_invalid P d i previous used (e # es) =
     bind_result (envelope_ok P d i previous used e) (\<lambda>ok.
       if ok then first_invalid P d (i + 1) (Some (lev_hash e)) (lev_command e # used) es else Inr (Some i))"

definition replay_events :: "platform \<Rightarrow> live_definition \<Rightarrow> live_event list \<Rightarrow> (live_error, live_replay) result" where
  "replay_events P input es =
     bind_result (create_live_state P input) (\<lambda>initial.
       bind_result (first_invalid P (lst_definition initial) 0 None [] es) (\<lambda>bad.
         case bad of
           Some i \<Rightarrow> Inr \<lparr>lrp_valid = False, lrp_state = initial, lrp_findings = [(''LIVE401'', ''/events/'' @ digits_of i)]\<rparr>
         | None \<Rightarrow>
             (case project P (lst_definition initial) es of
                Inr st \<Rightarrow> Inr \<lparr>lrp_valid = True, lrp_state = st, lrp_findings = []\<rparr>
              | Inl _ \<Rightarrow> Inr \<lparr>lrp_valid = False, lrp_state = initial, lrp_findings = [(''LIVE422'', ''/events'')]\<rparr>)))"

section \<open>Tie decisions\<close>

text \<open>\<^verbatim>\<open>standingsTieDecisions\<close>: the latest decision of each tied group, by policy and pool.\<close>

fun latest_ties :: "platform \<Rightarrow> string list \<Rightarrow> live_event list \<Rightarrow> (string, string \<times> string \<times> string list) omap
    \<Rightarrow> (live_error, (string, string \<times> string \<times> string list) omap) result" where
  "latest_ties P gone [] m = Inr m"
| "latest_ties P gone (e # es) m =
     (case lev_data e of
        TieDecided p q xs r \<Rightarrow>
          if List.member gone (lev_id e) then latest_ties P gone es m
          else bind_result (hash_live P (JArr [JStr p, JStr q, strings_json (sort xs)])) (\<lambda>h.
                 latest_ties P gone es (omap_set h (p, q, xs) m))
      | _ \<Rightarrow> latest_ties P gone es m)"

definition push_tie :: "string \<times> string \<times> string list \<Rightarrow> (string, (string, string list list) omap) omap
    \<Rightarrow> (string, (string, string list list) omap) omap" where
  "push_tie d m = (case d of (p, q, xs) \<Rightarrow>
     (let pools = list_or (omap_get m p)
      in omap_set p (omap_set q (list_or (omap_get pools q) @ [xs]) pools) m))"

definition standings_tie_decisions :: "platform \<Rightarrow> live_event list
    \<Rightarrow> (live_error, (string, (string, string list list) omap) omap) result" where
  "standings_tie_decisions P es =
     bind_result (latest_ties P (superseded es) es []) (\<lambda>m. Inr (foldl (\<lambda>acc d. push_tie d acc) [] (map snd m)))"

section \<open>Control room\<close>

datatype block_code = PendingPredecessor | EntrantNotCheckedIn | EntrantIsNoShow | EntrantIsWithdrawn | CourtClosed
  | OfficialAbsent | EquipmentFailed | ProtestPending | AppealPending

record room_contest =
  rc_id :: string
  rc_start :: string
  rc_court :: string

record assignment =
  asg_contest :: string
  asg_court :: string
  asg_start :: string

record control_room =
  ctl_at :: string
  ctl_version :: nat
  ctl_now :: "room_contest list"
  ctl_next :: "room_contest list"
  ctl_late :: "(room_contest \<times> jsnum) list"
  ctl_blocked :: "(room_contest \<times> (block_code \<times> string list) list) list"
  ctl_unreported :: "room_contest list"

datatype room_place =
    InPlay room_contest
  | Settled
  | Blocked room_contest "(block_code \<times> string list) list"
  | Late room_contest jsnum
  | Upcoming room_contest

text \<open>The last assignment of a contest wins, as in \<^verbatim>\<open>new Map(...)\<close>.\<close>

definition in_force :: "assignment list \<Rightarrow> live_contest \<Rightarrow> live_contest" where
  "in_force plan c = (case find (\<lambda>a. asg_contest a = lct_id c) (rev plan) of
     None \<Rightarrow> c
   | Some a \<Rightarrow> c\<lparr>lct_court := asg_court a, lct_start := asg_start a\<rparr>)"

definition room_contest_of :: "live_state \<Rightarrow> live_contest \<Rightarrow> room_contest" where
  "room_contest_of st c = \<lparr>rc_id = lct_id c, rc_start = lct_start c,
     rc_court = (case cst_court (contest_at st (lct_id c)) of None \<Rightarrow> lct_court c | Some k \<Rightarrow> k)\<rparr>"

definition reason_when :: "block_code \<Rightarrow> string list \<Rightarrow> (block_code \<times> string list) list" where
  "reason_when code ids = (if ids = [] then [] else [(code, ids)])"

definition unavailable :: "(string, availability) omap \<Rightarrow> string \<Rightarrow> bool" where
  "unavailable m i = (case omap_get m i of None \<Rightarrow> False | Some a \<Rightarrow> \<not> av_available a)"

definition protest_contest :: "live_state \<Rightarrow> string option \<Rightarrow> string" where
  "protest_contest st p =
     (case p of
        None \<Rightarrow> []
      | Some i \<Rightarrow> (case omap_get (lst_protests st) i of
            None \<Rightarrow> []
          | Some x \<Rightarrow> (case prt_contest x of None \<Rightarrow> [] | Some c \<Rightarrow> c)))"

definition block_reasons :: "platform \<Rightarrow> live_state \<Rightarrow> string \<Rightarrow> live_contest \<Rightarrow> (block_code \<times> string list) list" where
  "block_reasons P st now c =
     (let es = effective_entrants st (lct_id c);
          deps = list_or (lct_depends c);
          presence = (\<lambda>e. omap_get (lst_presence st) e)
      in reason_when PendingPredecessor (filter (\<lambda>i. \<not> settled (status_of st i)) deps)
         @ reason_when EntrantIsNoShow (filter (\<lambda>e. presence e = Some NoShow) es)
         @ reason_when EntrantIsWithdrawn (filter (\<lambda>e. presence e = Some Withdrawn) es)
         @ reason_when EntrantNotCheckedIn (filter (\<lambda>e. presence e = None) es)
         @ reason_when CourtClosed (if court_closed_at P (omap_get (lst_courts st) (lct_court c)) now then [lct_court c] else [])
         @ reason_when OfficialAbsent
             (case lct_official c of None \<Rightarrow> [] | Some i \<Rightarrow> if i \<noteq> [] \<and> unavailable (lst_officials st) i then [i] else [])
         @ reason_when EquipmentFailed (filter (unavailable (lst_equipment st)) (list_or (lct_equipment c)))
         @ reason_when ProtestPending (sort (List.map_filter (\<lambda>(_, x). if prt_status x = Some StPending
               \<and> (case prt_contest x of None \<Rightarrow> False | Some d \<Rightarrow> List.member deps d) then prt_id x else None) (lst_protests st)))
         @ reason_when AppealPending (sort (List.map_filter (\<lambda>(_, x). if apl_status x = Some StPending
               \<and> List.member deps (protest_contest st (apl_protest x)) then apl_id x else None) (lst_appeals st))))"

text \<open>\<^verbatim>\<open>Math.max(0, Math.floor(...))\<close> of the minutes since the scheduled start; NaN for a start that does not parse.\<close>

definition minutes_late :: "platform \<Rightarrow> string \<Rightarrow> string \<Rightarrow> jsnum" where
  "minutes_late P now start =
     (case (date_parse P now, date_parse P start) of
        (Some t1, Some t0) \<Rightarrow> Num (of_int (max 0 \<lfloor>(of_int (t1 - t0) / 60000 :: rat)\<rfloor>))
      | _ \<Rightarrow> NaN)"

definition over_tolerance :: "live_state \<Rightarrow> jsnum \<Rightarrow> bool" where
  "over_tolerance st m =
     (case (js_finite m, js_finite (case ldf_tolerance (lst_definition st) of None \<Rightarrow> Num 5 | Some n \<Rightarrow> n)) of
        (Some x, Some y) \<Rightarrow> x > y
      | _ \<Rightarrow> False)"

definition place_contest :: "platform \<Rightarrow> live_state \<Rightarrow> string \<Rightarrow> assignment list \<Rightarrow> live_contest \<Rightarrow> room_place" where
  "place_contest P st now plan defined =
     (let c = in_force plan defined;
          common = room_contest_of st c;
          reasons = block_reasons P st now c;
          m = minutes_late P now (lct_start c)
      in if status_of st (lct_id c) = Some StInProgress then InPlay common
         else if settled (status_of st (lct_id c)) then Settled
         else if reasons \<noteq> [] then Blocked common reasons
         else if over_tolerance st m \<or> list_ex (\<lambda>e. omap_get (lst_presence st) e = Some MarkedLate) (effective_entrants st (lct_id c))
         then Late common m
         else Upcoming common)"

definition by_start :: "platform \<Rightarrow> room_contest \<Rightarrow> room_contest \<Rightarrow> int" where
  "by_start P a b = (let n = locale_compare P (rc_start a) (rc_start b)
     in if n \<noteq> 0 then n else locale_compare P (rc_id a) (rc_id b))"

definition unreported :: "live_state \<Rightarrow> live_contest \<Rightarrow> bool" where
  "unreported st c = (settled (status_of st (lct_id c)) \<and> cst_recorded (contest_at st (lct_id c)) = None)"

definition derive_control_room :: "platform \<Rightarrow> live_state \<Rightarrow> string \<Rightarrow> assignment list \<Rightarrow> (live_error, control_room) result" where
  "derive_control_room P st now plan =
     (if \<not> canonical_timestamp P now then Inl InvalidControlTime
      else if list_ex (\<lambda>c. omap_get (lst_contests st) (lct_id c) = None) (ldf_contests (lst_definition st)) then Inl UndefinedContest
      else
        (let places = map (place_contest P st now plan) (ldf_contests (lst_definition st))
         in Inr \<lparr>ctl_at = now, ctl_version = lst_version st,
              ctl_now = sort_by (by_start P) (List.map_filter (\<lambda>p. case p of InPlay c \<Rightarrow> Some c | _ \<Rightarrow> None) places),
              ctl_next = sort_by (by_start P) (List.map_filter (\<lambda>p. case p of Upcoming c \<Rightarrow> Some c | _ \<Rightarrow> None) places),
              ctl_late = sort_by (\<lambda>a b. by_start P (fst a) (fst b))
                (List.map_filter (\<lambda>p. case p of Late c m \<Rightarrow> Some (c, m) | _ \<Rightarrow> None) places),
              ctl_blocked = sort_by (\<lambda>a b. by_start P (fst a) (fst b))
                (List.map_filter (\<lambda>p. case p of Blocked c rs \<Rightarrow> Some (c, rs) | _ \<Rightarrow> None) places),
              ctl_unreported = sort_by (by_start P) (map (room_contest_of st) (filter (unreported st) (ldf_contests (lst_definition st))))\<rparr>))"

end
