(* ===== verification/LiveProofs.thy ===== *)
theory LiveProofs
  imports LiveOperations
begin

text \<open>
  The theorems about live operations. States are those that a definition and a sequence of
  submitted commands reach.

  \<^item> The log of a reachable state replays to that state: the verifier accepts what submission writes.
  \<^item> Refused commands change nothing, a command sent twice is applied once.
  \<^item> Without corrections the projection is incremental, and a court never holds two contests.
  \<^item> The control room lists every open contest once, and what it lists as due can be started.
\<close>

section \<open>Validated definitions\<close>

context comparator
begin

lemma sort_by_fixed: "sorted_wrt (\<lambda>a b. cmp a b \<le> 0) xs \<Longrightarrow> sort_by cmp xs = xs"
proof (induction xs)
  case (Cons x xs)
  then show ?case by (cases xs) auto
qed simp

lemma sort_by_idem: "sort_by cmp (sort_by cmp xs) = sort_by cmp xs"
  by (rule sort_by_fixed) (rule sorted_sort_by)

end

lemma comparator_key: "comparator c \<Longrightarrow> comparator (\<lambda>a b. c (f a) (f b))"
  unfolding comparator_def by blast

lemma sort_sort [simp]: "sort (sort xs) = sort xs"
  by (rule sorted_sort_id) (rule sorted_sort)

lemma list_or_Some [simp]: "list_or (Some xs) = xs"
  by (simp add: list_or_def)

lemma normal_contest_fields [simp]:
  "lct_id (normal_contest c) = lct_id c" "lct_entrants (normal_contest c) = lct_entrants c"
  "lct_resolution (normal_contest c) = lct_resolution c" "lct_court (normal_contest c) = lct_court c"
  "lct_official (normal_contest c) = lct_official c" "lct_start (normal_contest c) = lct_start c"
  "lct_end (normal_contest c) = lct_end c" "lct_fixed (normal_contest c) = map_option sort (lct_fixed c)"
  "lct_equipment (normal_contest c) = Some (sort (list_or (lct_equipment c)))"
  "lct_depends (normal_contest c) = Some (sort (list_or (lct_depends c)))"
  by (simp_all add: normal_contest_def)

lemma normal_contest_idem [simp]: "normal_contest (normal_contest c) = normal_contest c"
  by (cases "lct_fixed c") (simp_all add: normal_contest_def)

lemma member_by_set: "List.member xs = (\<lambda>x. x \<in> set xs)"
  by (simp add: fun_eq_iff)

text \<open>The definition that a state is created with, when the given one is valid.\<close>

definition normal_definition :: "platform \<Rightarrow> live_definition \<Rightarrow> live_definition" where
  "normal_definition P d = d\<lparr>ldf_tolerance := Some (case ldf_tolerance d of None \<Rightarrow> Num 5 | Some n \<Rightarrow> n),
     ldf_officials := Some (sort (list_or (ldf_officials d))), ldf_equipment := Some (sort (list_or (ldf_equipment d))),
     ldf_courts := sort (ldf_courts d),
     ldf_contests := sort_by (\<lambda>a b. locale_compare P (lct_id a) (lct_id b)) (map normal_contest (ldf_contests d))\<rparr>"

definition tolerance_ok :: "live_definition \<Rightarrow> bool" where
  "tolerance_ok d = (case js_finite (case ldf_tolerance d of None \<Rightarrow> Num 5 | Some n \<Rightarrow> n) of None \<Rightarrow> False | Some r \<Rightarrow> 0 \<le> r)"

definition definition_ok :: "platform \<Rightarrow> live_definition \<Rightarrow> bool" where
  "definition_ok P d \<longleftrightarrow> \<not> blank (ldf_tournament d) \<and> ldf_contests d \<noteq> [] \<and> distinct (ldf_courts d)
     \<and> distinct (list_or (ldf_officials d)) \<and> distinct (list_or (ldf_equipment d)) \<and> distinct (map lct_id (ldf_contests d))
     \<and> (\<forall>c \<in> set (ldf_contests d). \<not> contest_invalid P d c) \<and> tolerance_ok d"

lemma validated_definition_iff:
  "validated_definition P d = Inr d' \<longleftrightarrow> definition_ok P d \<and> d' = normal_definition P d"
proof -
  have find: "find (contest_invalid P d) xs = None \<longleftrightarrow> (\<forall>c \<in> set xs. \<not> contest_invalid P d c)" for xs
    by (induction xs) auto
  have found: "find (contest_invalid P d) xs = Some y \<Longrightarrow> y \<in> set xs \<and> contest_invalid P d y" for xs y
    by (induction xs) (auto split: if_splits)
  show ?thesis
    unfolding validated_definition_def definition_ok_def normal_definition_def tolerance_ok_def Let_def
    by (auto simp: find split: option.splits dest: found)
qed

lemma normal_definition_fields:
  "set (map lct_id (ldf_contests (normal_definition P d))) = set (map lct_id (ldf_contests d))"
  "set (ldf_courts (normal_definition P d)) = set (ldf_courts d)"
  "set (list_or (ldf_officials (normal_definition P d))) = set (list_or (ldf_officials d))"
  "set (list_or (ldf_equipment (normal_definition P d))) = set (list_or (ldf_equipment d))"
  "set (ldf_contests (normal_definition P d)) = normal_contest ` set (ldf_contests d)"
  by (auto simp: normal_definition_def image_image)

lemma contest_invalid_normal: "contest_invalid P (normal_definition P d) (normal_contest c) = contest_invalid P d c"
  unfolding contest_invalid_def
  by (cases "lct_fixed c"; cases "lct_official c") (simp_all add: member_by_set normal_definition_fields list_ex_iff image_image)

lemma definition_ok_normal: "definition_ok P (normal_definition P d) \<longleftrightarrow> definition_ok P d"
proof -
  have "distinct (map lct_id (sort_by c (map normal_contest xs))) = distinct (map lct_id xs)" for c xs
    by (simp add: o_def)
  moreover have "tolerance_ok (normal_definition P d) = tolerance_ok d"
    by (simp add: tolerance_ok_def normal_definition_def)
  moreover have "ldf_contests (normal_definition P d) = [] \<longleftrightarrow> ldf_contests d = []"
    using normal_definition_fields(5) [of P d] by (metis image_is_empty set_empty)
  moreover have "(\<forall>c \<in> set (ldf_contests (normal_definition P d)). \<not> contest_invalid P (normal_definition P d) c)
      = (\<forall>c \<in> set (ldf_contests d). \<not> contest_invalid P d c)"
    by (simp add: normal_definition_fields(5) contest_invalid_normal)
  ultimately show ?thesis
    by (simp add: definition_ok_def) (simp add: normal_definition_def)
qed

lemma normal_definition_idem:
  assumes "comparator (locale_compare P)"
  shows "normal_definition P (normal_definition P d) = normal_definition P d"
proof -
  let ?cmp = "\<lambda>a b. locale_compare P (lct_id a) (lct_id b)"
  note idem = comparator.sort_by_idem [OF comparator_key [OF assms], of lct_id]
  have "map normal_contest (sort_by ?cmp (map normal_contest xs)) = sort_by ?cmp (map normal_contest xs)" for xs
    by (rule map_idI) auto
  then show ?thesis by (simp add: normal_definition_def idem)
qed

lemma validated_definition_idem:
  "comparator (locale_compare P) \<Longrightarrow> validated_definition P d = Inr d' \<Longrightarrow> validated_definition P d' = Inr d'"
  by (simp add: validated_definition_iff definition_ok_normal normal_definition_idem)

section \<open>Reachable states\<close>

inductive live_reach :: "platform \<Rightarrow> live_definition \<Rightarrow> live_state \<Rightarrow> bool" for P input where
  created: "create_live_state P input = Inr s \<Longrightarrow> live_reach P input s"
| submitted: "live_reach P input s \<Longrightarrow> submit P s c = Inr r \<Longrightarrow> live_reach P input (lr_state r)"

text \<open>What \<open>submit\<close> can return.\<close>

lemma submit_cases [consumes 1, case_names Replayed Conflict Refused Accepted]:
  assumes "submit P st c = Inr r"
  obtains fp where "hash_live P (command_json c) = Inr fp" "omap_get (lst_fingerprints st) (cmd_id c) = Some fp"
      "r = \<lparr>lr_accepted = True, lr_replay = True, lr_state = st, lr_events = [], lr_findings = []\<rparr>"
    | fp prior where "hash_live P (command_json c) = Inr fp" "omap_get (lst_fingerprints st) (cmd_id c) = Some prior" "prior \<noteq> fp"
      "r = \<lparr>lr_accepted = False, lr_replay = False, lr_state = st, lr_events = [], lr_findings = [(''LIVE409'', ''/commandId'')]\<rparr>"
    | fs where "omap_get (lst_fingerprints st) (cmd_id c) = None" "fs = submit_findings P st c" "fs \<noteq> []"
      "r = \<lparr>lr_accepted = False, lr_replay = False, lr_state = st, lr_events = [], lr_findings = fs\<rparr>"
    | fp e st' where "hash_live P (command_json c) = Inr fp" "omap_get (lst_fingerprints st) (cmd_id c) = None"
      "submit_findings P st c = []" "accepted_event P st c fp = Inr e"
      "project P (lst_definition st) (lst_events st @ [e]) = Inr st'"
      "r = \<lparr>lr_accepted = True, lr_replay = False, lr_state = st', lr_events = [e], lr_findings = []\<rparr>"
proof -
  obtain fp where fp: "hash_live P (command_json c) = Inr fp"
    using assms by (cases "hash_live P (command_json c)") (simp_all add: submit_def)
  note r = assms [unfolded submit_def fp bind_result.simps]
  show ?thesis
  proof (cases "omap_get (lst_fingerprints st) (cmd_id c)")
    case (Some prior)
    then show ?thesis using r that(1,2) fp by (cases "prior = fp") auto
  next
    case None
    show ?thesis
    proof (cases "submit_findings P st c = []")
      case False
      then show ?thesis using r None that(3) by (simp add: Let_def)
    next
      case True
      then obtain e st' where "accepted_event P st c fp = Inr e" "project P (lst_definition st) (lst_events st @ [e]) = Inr st'"
        "r = \<lparr>lr_accepted = True, lr_replay = False, lr_state = st', lr_events = [e], lr_findings = []\<rparr>"
        using r None by (auto simp: bind_result_Inr_iff Let_def)
      then show ?thesis using that(4) fp None True by blast
    qed
  qed
qed

text \<open>What \<open>freeze_state\<close>, \<open>create_live_state\<close> and \<open>project\<close> leave of the fields.\<close>

lemma freeze_state_Inr: "freeze_state P s = Inr t \<Longrightarrow> \<exists>h. t = s\<lparr>lst_proof := h\<rparr>"
  by (auto simp: freeze_state_def bind_result_Inr_iff)

lemma create_live_state_Inr:
  assumes "create_live_state P input = Inr s"
  obtains h where "definition_ok P input" "s = (initial_state (normal_definition P input))\<lparr>lst_proof := h\<rparr>"
proof -
  from assms obtain d where d: "definition_ok P input" "d = normal_definition P input" "freeze_state P (initial_state d) = Inr s"
    by (auto simp: create_live_state_def bind_result_Inr_iff validated_definition_iff)
  from freeze_state_Inr [OF d(3)] that d(1,2) show ?thesis by blast
qed

text \<open>The fields that no branch of the projection touches.\<close>

lemma apply_data_keeps:
  assumes "apply_data P now e s = Inr t"
  shows "lst_definition t = lst_definition s \<and> lst_fingerprints t = lst_fingerprints s"
proof -
  have set: "lst_definition (set_resource k i a u) = lst_definition u" "lst_fingerprints (set_resource k i a u) = lst_fingerprints u"
    "lst_definition (set_contest x y u) = lst_definition u" "lst_fingerprints (set_contest x y u) = lst_fingerprints u" for k i a u x y
    by (cases k; simp add: set_contest_def)+
  have corr: "lst_definition (apply_correction P now x u) = lst_definition u \<and>
      lst_fingerprints (apply_correction P now x u) = lst_fingerprints u" for x u
    by (induction P now x u rule: apply_correction.induct) (simp_all add: set)
  show ?thesis using assms
    by (cases e) (auto simp: set corr split: option.splits)
qed

lemma apply_event_keeps:
  assumes "apply_event P gone e s = Inr t"
  shows "lst_definition t = lst_definition s \<and> lst_fingerprints t = omap_set (lev_command e) (lev_fingerprint e) (lst_fingerprints s)"
  using assms apply_data_keeps [of P "lev_at e" "lev_data e"]
  by (fastforce simp: apply_event_def Let_def split: if_splits)

lemma fold_fingerprints:
  assumes "fold_result (apply_event P gone) es s = Inr t"
  shows "lst_definition t = lst_definition s \<and>
    lst_fingerprints t = foldl (\<lambda>m e. omap_set (lev_command e) (lev_fingerprint e) m) (lst_fingerprints s) es"
  using assms
proof (induction es arbitrary: s)
  case (Cons e es)
  then obtain u where u: "apply_event P gone e s = Inr u" "fold_result (apply_event P gone) es u = Inr t"
    by (auto simp: bind_result_Inr_iff)
  show ?case using Cons.IH [OF u(2)] apply_event_keeps [OF u(1)] by simp
qed simp

lemma project_Inr:
  assumes "project P d es = Inr s"
  obtains i u h where "create_live_state P d = Inr i" "fold_result (apply_event P (superseded es)) es i = Inr u"
    "s = u\<lparr>lst_version := length es, lst_last := (if es = [] then None else Some (lev_hash (last es))), lst_events := es, lst_proof := h\<rparr>"
proof -
  from assms obtain i u where "create_live_state P d = Inr i" "fold_result (apply_event P (superseded es)) es i = Inr u"
    "freeze_state P (u\<lparr>lst_version := length es, lst_last := (if es = [] then None else Some (lev_hash (last es))),
           lst_events := es\<rparr>) = Inr s"
    by (auto simp: project_def bind_result_Inr_iff)
  with freeze_state_Inr [of P] that show ?thesis by fastforce
qed

lemma dom_fold_set: "fst ` set (foldl (\<lambda>m e. omap_set (f e) (g e) m) m es) = fst ` set m \<union> f ` set es"
proof (induction es arbitrary: m)
  case (Cons e es)
  have "set (map fst (omap_set (f e) (g e) m)) = insert (f e) (fst ` set m)"
    unfolding omap_keys_set by auto
  then have "fst ` set (omap_set (f e) (g e) m) = insert (f e) (fst ` set m)" by simp
  then show ?case by (simp only: foldl_Cons Cons.IH) auto
qed simp

lemma project_fields:
  assumes "project P d es = Inr s"
  shows "lst_version s = length es" "lst_events s = es" "lst_last s = (if es = [] then None else Some (lev_hash (last es)))"
    "lst_definition s = normal_definition P d" "fst ` set (lst_fingerprints s) = lev_command ` set es"
    "es \<noteq> [] \<Longrightarrow> omap_get (lst_fingerprints s) (lev_command (last es)) = Some (lev_fingerprint (last es))"
proof -
  obtain i u h where p: "create_live_state P d = Inr i" "fold_result (apply_event P (superseded es)) es i = Inr u"
    "s = u\<lparr>lst_version := length es, lst_last := (if es = [] then None else Some (lev_hash (last es))), lst_events := es, lst_proof := h\<rparr>"
    using project_Inr [OF assms] .
  obtain h0 where h0: "i = (initial_state (normal_definition P d))\<lparr>lst_proof := h0\<rparr>"
    using create_live_state_Inr [OF p(1)] .
  have i: "lst_definition i = normal_definition P d" "lst_fingerprints i = []"
    by (simp_all add: h0 initial_state_def)
  have f: "lst_definition s = normal_definition P d"
    "lst_fingerprints s = foldl (\<lambda>m e. omap_set (lev_command e) (lev_fingerprint e) m) [] es"
    using fold_fingerprints [OF p(2)] i by (simp_all add: p(3))
  show "lst_version s = length es" "lst_events s = es" "lst_last s = (if es = [] then None else Some (lev_hash (last es)))"
    "lst_definition s = normal_definition P d" using f(1) by (simp_all add: p(3))
  show "fst ` set (lst_fingerprints s) = lev_command ` set es" by (simp add: f(2) dom_fold_set)
  show "omap_get (lst_fingerprints s) (lev_command (last es)) = Some (lev_fingerprint (last es))" if "es \<noteq> []"
  proof -
    obtain xs x where "es = xs @ [x]" using \<open>es \<noteq> []\<close> by (metis rev_exhaust)
    then show ?thesis by (simp add: f(2))
  qed
qed

section \<open>The log of a reachable state\<close>

lemma first_invalid_append:
  "first_invalid P d i prev used (es @ fs) =
     bind_result (first_invalid P d i prev used es) (\<lambda>bad.
       if bad = None then first_invalid P d (i + length es) (if es = [] then prev else Some (lev_hash (last es)))
         (rev (map lev_command es) @ used) fs
       else Inr bad)"
proof (induction es arbitrary: i prev used)
  case (Cons e es)
  show ?case
  proof (cases "envelope_ok P d i prev used e")
    case (Inr ok)
    then show ?thesis by (cases ok; cases "es = []") (simp_all add: Cons.IH cong: if_cong)
  qed simp
qed simp

lemma accepted_event_fields:
  assumes "accepted_event P st c fp = Inr e"
  shows "lev_command e = cmd_id c" "lev_fingerprint e = fp" "lev_actor e = cmd_actor c" "lev_at e = cmd_at c"
    "lev_data e = command_event P (cmd_body c)" "lev_sequence e = lst_version st + 1" "lev_previous e = lst_last st"
    "lev_tournament e = ldf_tournament (lst_definition st)"
    "\<exists>h. hash_live P (JObj (event_base_fields e)) = Inr h \<and> lev_id e = ''live_evt_'' @ take 24 h"
    "hash_live P (identified_event_json e) = Inr (lev_hash e)"
  using assms
  by (auto simp: accepted_event_def bind_result_Inr_iff Let_def event_base_fields_def identified_event_json_def)

lemma audit_findings_None:
  assumes "submit_findings P st c = []"
  shows "\<not> blank (cmd_id c)" "\<not> blank (cmd_actor c)" "canonical_timestamp P (cmd_at c)"
  using assms by (auto simp: submit_findings_def audit_findings_def finding_when_def split: if_splits)

lemma accepted_envelope:
  assumes "submit_findings P st c = []" "accepted_event P st c fp = Inr e" "is_digest fp" "lst_version st = n"
    and "cmd_id c \<notin> set used"
  shows "envelope_ok P (lst_definition st) n (lst_last st) used e = Inr True"
proof -
  note e = accepted_event_fields [OF assms(2)]
  obtain h where h: "hash_live P (JObj (event_base_fields e)) = Inr h" "lev_id e = ''live_evt_'' @ take 24 h"
    using e(9) by blast
  show ?thesis
    using assms(3-5) audit_findings_None [OF assms(1)]
    by (simp add: envelope_ok_def h e member_by_set)
qed

definition log_ok :: "platform \<Rightarrow> live_definition \<Rightarrow> live_state \<Rightarrow> bool" where
  "log_ok P input s \<longleftrightarrow> (\<exists>d. create_live_state P input = Inr d \<and> lst_definition s = lst_definition d)
     \<and> project P (lst_definition s) (lst_events s) = Inr s
     \<and> first_invalid P (lst_definition s) 0 None [] (lst_events s) = Inr None"

lemma hash_live_digest: "(\<And>s. is_digest (sha256 P s)) \<Longrightarrow> hash_live P v = Inr h \<Longrightarrow> is_digest h"
  by (auto simp: hash_live_def canonical_hash_def bind_result_Inr_iff split: sum.splits)

lemma created_log_ok:
  assumes "comparator (locale_compare P)" "create_live_state P input = Inr s"
  shows "log_ok P input s"
proof -
  obtain h where h: "definition_ok P input" "s = (initial_state (normal_definition P input))\<lparr>lst_proof := h\<rparr>"
    using create_live_state_Inr [OF assms(2)] .
  have d: "lst_definition s = normal_definition P input" "lst_events s = []" "lst_version s = 0" "lst_last s = None"
    by (simp_all add: h(2) initial_state_def)
  have v: "validated_definition P input = Inr (normal_definition P input)"
    "validated_definition P (normal_definition P input) = Inr (normal_definition P input)"
    using h(1) validated_definition_idem [OF assms(1)] by (simp_all add: validated_definition_iff)
  then have c: "create_live_state P (normal_definition P input) = Inr s"
    using assms(2) by (simp add: create_live_state_def)
  have f: "freeze_state P (initial_state (normal_definition P input)) = Inr s"
    using assms(2) v by (simp add: create_live_state_def)
  have "freeze_state P (s\<lparr>lst_version := 0, lst_last := None, lst_events := []\<rparr>) = Inr s"
  proof -
    have "s\<lparr>lst_version := 0, lst_last := None, lst_events := []\<rparr> = s" using d by simp
    moreover have "live_state_json s = live_state_json (initial_state (normal_definition P input))"
      by (simp add: h(2) live_state_json_def)
    ultimately show ?thesis using f by (auto simp: freeze_state_def bind_result_Inr_iff h(2))
  qed
  then have "project P (lst_definition s) (lst_events s) = Inr s"
    by (simp add: project_def d c)
  then show ?thesis using assms(2) by (auto simp: log_ok_def d(2))
qed

lemma submitted_log_ok:
  assumes "log_ok P input s" "submit P s c = Inr r" "\<And>s. is_digest (sha256 P s)"
  shows "log_ok P input (lr_state r)"
  using assms(2)
proof (cases rule: submit_cases)
  case (Accepted fp e st')
  note old = assms(1) [unfolded log_ok_def]
  have proj: "project P (lst_definition s) (lst_events s) = Inr s" using old by blast
  note f = project_fields [OF proj] and f' = project_fields [OF Accepted(5)]
  note ev = accepted_event_fields [OF Accepted(4)]
  have d: "normal_definition P (lst_definition s) = lst_definition s" using f(4) by simp
  have fresh: "cmd_id c \<notin> set (rev (map lev_command (lst_events s)))"
    using Accepted(2) f(5) by (simp add: omap_get_None)
  have "envelope_ok P (lst_definition s) (length (lst_events s)) (lst_last s) (rev (map lev_command (lst_events s))) e = Inr True"
    by (rule accepted_envelope [OF Accepted(3,4) hash_live_digest [OF assms(3) Accepted(1)] f(1) fresh])
  then have "first_invalid P (lst_definition s) 0 None [] (lst_events s @ [e]) = Inr None"
    using old f(3) by (simp add: first_invalid_append)
  then show ?thesis
    using old Accepted(5,6) f'(2,4) d by (simp add: log_ok_def)
qed (use assms(1) in simp_all)

lemma reachable_log_ok:
  assumes "live_reach P input s" "comparator (locale_compare P)" "\<And>s. is_digest (sha256 P s)"
  shows "log_ok P input s"
  using assms(1)
proof induction
  case (created s)
  then show ?case by (rule created_log_ok [OF assms(2)])
next
  case (submitted s c r)
  show ?case by (rule submitted_log_ok [OF submitted.IH submitted.hyps(2) assms(3)])
qed

text \<open>
  C4. Event sourcing loses nothing: for every state that a definition and submitted commands
  reach, corrections included, the verifier accepts the log of the state and rebuilds exactly that
  state. The digest is SHA-256 in lower-case hexadecimal and the collation a total preorder.
\<close>

theorem live_log_replays:
  assumes "live_reach P input s" "comparator (locale_compare P)" "\<And>s. is_digest (sha256 P s)"
  shows "replay_events P input (lst_events s) = Inr \<lparr>lrp_valid = True, lrp_state = s, lrp_findings = []\<rparr>"
proof -
  from reachable_log_ok [OF assms] obtain d where d: "create_live_state P input = Inr d" "lst_definition d = lst_definition s"
    "project P (lst_definition s) (lst_events s) = Inr s" "first_invalid P (lst_definition s) 0 None [] (lst_events s) = Inr None"
    by (auto simp: log_ok_def)
  then show ?thesis by (simp add: replay_events_def)
qed

section \<open>Projection is incremental\<close>

text \<open>The part of a state that the events determine one after the other.\<close>

definition floor_view :: "live_state \<Rightarrow> live_state" where
  "floor_view s = s\<lparr>lst_version := 0, lst_last := None, lst_events := [], lst_fingerprints := [], lst_proof := []\<rparr>"

lemma floor_view_sel [simp]:
  "lst_definition (floor_view s) = lst_definition s" "lst_contests (floor_view s) = lst_contests s"
  "lst_presence (floor_view s) = lst_presence s" "lst_resolved (floor_view s) = lst_resolved s"
  "lst_courts (floor_view s) = lst_courts s" "lst_officials (floor_view s) = lst_officials s"
  "lst_equipment (floor_view s) = lst_equipment s" "lst_protests (floor_view s) = lst_protests s"
  "lst_appeals (floor_view s) = lst_appeals s"
  by (simp_all add: floor_view_def)

lemma floor_view_at [simp]:
  "contest_at (floor_view s) = contest_at s" "status_of (floor_view s) = status_of s"
  "protest_at (floor_view s) = protest_at s" "appeal_at (floor_view s) = appeal_at s"
  by (simp_all add: contest_at_def status_of_def protest_at_def appeal_at_def fun_eq_iff)

lemma floor_view_update [simp]:
  "floor_view (s\<lparr>lst_presence := a\<rparr>) = (floor_view s)\<lparr>lst_presence := a\<rparr>"
  "floor_view (s\<lparr>lst_contests := b\<rparr>) = (floor_view s)\<lparr>lst_contests := b\<rparr>"
  "floor_view (s\<lparr>lst_resolved := c\<rparr>) = (floor_view s)\<lparr>lst_resolved := c\<rparr>"
  "floor_view (s\<lparr>lst_courts := d\<rparr>) = (floor_view s)\<lparr>lst_courts := d\<rparr>"
  "floor_view (s\<lparr>lst_officials := d\<rparr>) = (floor_view s)\<lparr>lst_officials := d\<rparr>"
  "floor_view (s\<lparr>lst_equipment := d\<rparr>) = (floor_view s)\<lparr>lst_equipment := d\<rparr>"
  "floor_view (s\<lparr>lst_protests := e\<rparr>) = (floor_view s)\<lparr>lst_protests := e\<rparr>"
  "floor_view (s\<lparr>lst_appeals := f\<rparr>) = (floor_view s)\<lparr>lst_appeals := f\<rparr>"
  "floor_view (s\<lparr>lst_fingerprints := g\<rparr>) = floor_view s"
  "floor_view (s\<lparr>lst_version := n, lst_last := l, lst_events := es, lst_proof := h\<rparr>) = floor_view s"
  by (simp_all add: floor_view_def)

lemma floor_view_set [simp]:
  "floor_view (set_contest c x s) = set_contest c x (floor_view s)"
  "floor_view (set_resource k i a s) = set_resource k i a (floor_view s)"
  by (simp add: set_contest_def) (cases k; simp)

lemma floor_view_correction [simp]: "floor_view (apply_correction P now x s) = apply_correction P now x (floor_view s)"
  by (induction P now x s rule: apply_correction.induct) simp_all

lemma apply_data_view: "apply_data P now x s = Inr t \<Longrightarrow> apply_data P now x (floor_view s) = Inr (floor_view t)"
  by (cases x) (auto split: option.splits)

text \<open>\<^verbatim>\<open>projectLiveOperations\<close> of a log that a plain event extends applies that event to the state before.\<close>

lemma project_snoc:
  assumes "project P d es = Inr s" "project P d (es @ [e]) = Inr t" "corrected_id (lev_data e) = None"
    and "lev_id e \<notin> set (superseded es)"
  shows "apply_data P (lev_at e) (lev_data e) (floor_view s) = Inr (floor_view t)"
proof -
  have same: "superseded (es @ [e]) = superseded es"
    using assms(3) by (simp add: superseded_def map_filter_def)
  obtain i u h where u: "create_live_state P d = Inr i" "fold_result (apply_event P (superseded es)) es i = Inr u"
    "s = u\<lparr>lst_version := length es, lst_last := (if es = [] then None else Some (lev_hash (last es))), lst_events := es, lst_proof := h\<rparr>"
    using project_Inr [OF assms(1)] .
  obtain j v k where v: "create_live_state P d = Inr j" "fold_result (apply_event P (superseded es)) (es @ [e]) j = Inr v"
    "t = v\<lparr>lst_version := length (es @ [e]), lst_last := (if es @ [e] = [] then None else Some (lev_hash (last (es @ [e])))),
      lst_events := es @ [e], lst_proof := k\<rparr>"
    using project_Inr [OF assms(2)] unfolding same .
  have "apply_event P (superseded es) e u = Inr v"
    using u(1,2) v(1,2) by (simp add: fold_result_append bind_result_Inr_iff)
  then have "apply_data P (lev_at e) (lev_data e) (u\<lparr>lst_fingerprints := omap_set (lev_command e) (lev_fingerprint e) (lst_fingerprints u)\<rparr>) = Inr v"
    using assms(3,4) by (simp add: apply_event_def Let_def member_by_set)
  from apply_data_view [OF this] have step: "apply_data P (lev_at e) (lev_data e) (floor_view u) = Inr (floor_view v)" by simp
  have "floor_view s = floor_view u" "floor_view t = floor_view v" unfolding u(3) v(3) by (rule floor_view_update)+
  with step show ?thesis by simp
qed

lemma accepted_step:
  assumes "log_ok P input s" "submit P s c = Inr r" "lr_accepted r" "\<not> lr_replay r"
    and "corrected_id (command_event P (cmd_body c)) = None"
    and "list_all (\<lambda>e. lev_id e \<notin> set (superseded (lst_events s))) (lr_events r)"
  shows "submit_findings P s c = []"
    "apply_data P (cmd_at c) (command_event P (cmd_body c)) (floor_view s) = Inr (floor_view (lr_state r))"
    "lst_definition (lr_state r) = lst_definition s"
    "superseded (lst_events (lr_state r)) = superseded (lst_events s)"
proof -
  have "submit_findings P s c = [] \<and> apply_data P (cmd_at c) (command_event P (cmd_body c)) (floor_view s) = Inr (floor_view (lr_state r))
    \<and> lst_definition (lr_state r) = lst_definition s \<and> superseded (lst_events (lr_state r)) = superseded (lst_events s)"
    using assms(2)
  proof (cases rule: submit_cases)
    case (Accepted fp e st')
    have p: "project P (lst_definition s) (lst_events s) = Inr s" using assms(1) by (simp add: log_ok_def)
    note e = accepted_event_fields [OF Accepted(4)]
    have "apply_data P (lev_at e) (lev_data e) (floor_view s) = Inr (floor_view st')"
      by (rule project_snoc [OF p Accepted(5)]) (use assms(5,6) e Accepted(6) in auto)
    then show ?thesis
      using Accepted(3,6) e project_fields [OF Accepted(5)] project_fields [OF p] assms(5)
      by (simp add: superseded_def map_filter_def)
  qed (use assms(3,4) in simp_all)
  then show "submit_findings P s c = []"
    "apply_data P (cmd_at c) (command_event P (cmd_body c)) (floor_view s) = Inr (floor_view (lr_state r))"
    "lst_definition (lr_state r) = lst_definition s"
    "superseded (lst_events (lr_state r)) = superseded (lst_events s)" by blast+
qed

section \<open>The life of a contest\<close>

inductive lifecycle :: "contest_status option \<Rightarrow> contest_status option \<Rightarrow> bool" where
  stays: "lifecycle s s"
| walks_over: "lifecycle (Some StScheduled) (Some StWalkover)"
| starts: "lifecycle (Some StScheduled) (Some StInProgress)"
| completes: "lifecycle (Some StInProgress) (Some StCompleted)"
| retires: "lifecycle (Some StInProgress) (Some StRetired)"

lemma lifecycle_settled: "lifecycle s t \<Longrightarrow> settled s \<Longrightarrow> t = s"
  by (induction rule: lifecycle.induct) auto

lemma finding_when_None [simp]: "finding_when b c p = [] \<longleftrightarrow> \<not> b"
  by (simp add: finding_when_def)

lemma defined_contest_Some: "defined_contest s i = Some d \<Longrightarrow> d \<in> set (ldf_contests (lst_definition s)) \<and> lct_id d = i"
proof -
  have "find p xs = Some d \<Longrightarrow> d \<in> set xs \<and> p d" for p xs by (induction xs) (auto split: if_splits)
  then show "defined_contest s i = Some d \<Longrightarrow> ?thesis" by (auto simp: defined_contest_def)
qed

text \<open>The findings of an accepted command about a contest, command by command.\<close>

lemma ruled_when_accepted:
  assumes "contest_findings P s c = []" "command_contest (cmd_body c) = Some i" "\<And>j es h. cmd_body c \<noteq> ResolveEntrants j es h"
  obtains d where "defined_contest s i = Some d" "lct_id d = i" "d \<in> set (ldf_contests (lst_definition s))"
    "ruled_findings P s (cmd_at c) d (cmd_body c) = []"
proof -
  from assms(1) obtain d where d: "defined_contest s i = Some d" "(case cmd_body c of ResolveEntrants _ es h \<Rightarrow> resolve_findings s d es h
                | b \<Rightarrow> if lct_resolution d = Some True \<and> omap_get (lst_resolved s) (lct_id d) = None then [(''LIVE425'', ''/contestId'')]
                    else ruled_findings P s (cmd_at c) d b) = []"
    using assms(2) by (auto simp: contest_findings_def split: option.splits)
  have "ruled_findings P s (cmd_at c) d (cmd_body c) = []"
    using d(2) assms(3) by (auto split: command_body.splits if_splits)
  then show ?thesis using that d(1) defined_contest_Some [OF d(1)] by blast
qed

lemma status_of_set_contest: "status_of (set_contest c x s) i = (if i = c then cst_status x else status_of s i)"
  by (simp add: status_of_def set_contest_def)

lemma status_of_contest_at: "status_of s i = cst_status (contest_at s i)"
  by (simp add: status_of_def contest_at_def no_contest_def split: option.splits)

lemma set_resource_status [simp]: "status_of (set_resource k j a s) = status_of s" "lst_contests (set_resource k j a s) = lst_contests s"
  by (cases k; simp add: status_of_def fun_eq_iff)+

lemma status_of_same: "lst_contests s = lst_contests t \<Longrightarrow> status_of s = status_of t"
  by (simp add: status_of_def fun_eq_iff)

section \<open>What holds on the floor\<close>

definition courts_exclusive :: "live_state \<Rightarrow> bool" where
  "courts_exclusive s \<longleftrightarrow> (\<forall>i j x y. omap_get (lst_contests s) i = Some x \<longrightarrow> omap_get (lst_contests s) j = Some y \<longrightarrow>
     cst_status x = Some StInProgress \<longrightarrow> cst_status y = Some StInProgress \<longrightarrow> cst_court x = cst_court y \<longrightarrow> i = j)"

definition courts_known :: "live_state \<Rightarrow> bool" where
  "courts_known s \<longleftrightarrow> (\<forall>i x. omap_get (lst_contests s) i = Some x \<longrightarrow> cst_status x = Some StInProgress \<longrightarrow>
     (\<exists>k \<in> set (ldf_courts (lst_definition s)). cst_court x = Some k))"

fun started :: "contest_status option \<Rightarrow> bool" where
  "started (Some StInProgress) = True"
| "started (Some StCompleted) = True"
| "started (Some StRetired) = True"
| "started _ = False"

definition predecessors_settled :: "live_state \<Rightarrow> bool" where
  "predecessors_settled s \<longleftrightarrow> (\<forall>d \<in> set (ldf_contests (lst_definition s)). started (status_of s (lct_id d)) \<longrightarrow>
     (\<forall>i \<in> set (list_or (lct_depends d)). settled (status_of s i)))"

definition protest_ok :: "live_state \<Rightarrow> protest_state \<Rightarrow> bool" where
  "protest_ok s x \<longleftrightarrow> prt_status x \<noteq> None \<and> (\<exists>c. prt_contest x = Some c \<and> settled (status_of s c))"

definition appeal_ok :: "live_state \<Rightarrow> appeal_state \<Rightarrow> bool" where
  "appeal_ok s x \<longleftrightarrow> (\<exists>p y d. apl_protest x = Some p \<and> omap_get (lst_protests s) p = Some y \<and> prt_status y = Some (StResolved d))"

definition disputes_grounded :: "live_state \<Rightarrow> bool" where
  "disputes_grounded s \<longleftrightarrow> (\<forall>p x. omap_get (lst_protests s) p = Some x \<longrightarrow> protest_ok s x)
     \<and> (\<forall>a x. omap_get (lst_appeals s) a = Some x \<longrightarrow> appeal_ok s x)"

text \<open>What an accepted plain command changes of the contests.\<close>

definition contest_kept :: "live_state \<Rightarrow> string \<Rightarrow> contest_state \<Rightarrow> bool" where
  "contest_kept s j x \<longleftrightarrow> (\<exists>y. omap_get (lst_contests s) j = Some y \<and> cst_status x = cst_status y \<and> cst_court x = cst_court y)"

definition contest_started :: "live_state \<Rightarrow> string \<Rightarrow> contest_state \<Rightarrow> bool" where
  "contest_started s j x \<longleftrightarrow> (\<exists>k d. cst_court x = Some k \<and> k \<in> set (ldf_courts (lst_definition s)) \<and> occupying s j k = []
     \<and> d \<in> set (ldf_contests (lst_definition s)) \<and> lct_id d = j \<and> (\<forall>i \<in> set (list_or (lct_depends d)). settled (status_of s i)))"

lemma accepted_contests:
  assumes "contest_findings P s c = []" "corrected_id (command_event P (cmd_body c)) = None"
    and "apply_data P (cmd_at c) (command_event P (cmd_body c)) s = Inr t"
  shows "lst_contests t = lst_contests s \<or>
    (\<exists>j x. lst_contests t = omap_set j x (lst_contests s) \<and>
      (contest_kept s j x \<or> status_of s j = Some StScheduled \<and> cst_status x = Some StInProgress \<and> contest_started s j x
        \<or> cst_status x \<noteq> Some StInProgress \<and> lifecycle (status_of s j) (cst_status x)))"
proof (cases "command_contest (cmd_body c)")
  case None
  then show ?thesis
    using assms(2,3) by (cases "cmd_body c") auto
next
  case (Some j)
  show ?thesis
  proof (cases "\<exists>j es h. cmd_body c = ResolveEntrants j es h")
    case True
    then show ?thesis using assms(3) by auto
  next
    case False
    with ruled_when_accepted [OF assms(1) Some] obtain d where d: "lct_id d = j" "ruled_findings P s (cmd_at c) d (cmd_body c) = []"
      "d \<in> set (ldf_contests (lst_definition s))"
      by blast
    have at: "omap_get (lst_contests s) j = Some (contest_at s j) \<and> cst_status (contest_at s j) = status_of s j" if "status_of s j \<noteq> None"
      using that by (auto simp: status_of_def contest_at_def split: option.splits)
    have kept: "contest_kept s j x" if "status_of s j \<noteq> None" "cst_status x = cst_status (contest_at s j)" "cst_court x = cst_court (contest_at s j)" for x
      using at that unfolding contest_kept_def by auto
    have settled: "status_of s j \<noteq> None" if "settled (status_of s j)"
      using that by (cases "status_of s j") auto
    have by_kept: ?thesis if "t = set_contest j x s" "contest_kept s j x" for x
      using that by (auto simp: set_contest_def)
    have by_life: ?thesis if "t = set_contest j x s" "cst_status x \<noteq> Some StInProgress" "lifecycle (status_of s j) (cst_status x)" for x
    proof -
      have "lst_contests t = omap_set j x (lst_contests s)" using that(1) by (simp add: set_contest_def)
      then show ?thesis using that(2,3) by blast
    qed
    show ?thesis
    proof (cases "cmd_body c")
      case (StartContest i k u)
      let ?x = "(contest_at s j)\<lparr>cst_status := Some StInProgress, cst_court := Some k, cst_start := Some u\<rparr>"
      have "contest_started s j ?x" "status_of s j = Some StScheduled" "cst_status ?x = Some StInProgress"
        using d StartContest by (auto simp: contest_started_def start_findings_def Let_def member_by_set filter_empty_conv)
      moreover have "lst_contests t = omap_set j ?x (lst_contests s)"
        using assms(3) Some StartContest by (auto simp: set_contest_def)
      ultimately show ?thesis by blast
    next
      case (AwardWalkover i w a r)
      then have "lifecycle (status_of s j) (Some StWalkover)" using d by (auto simp: Let_def intro: lifecycle.intros)
      then show ?thesis using assms(3) Some AwardWalkover by (intro by_life) auto
    next
      case (CallContest i)
      then have "status_of s j \<noteq> None" using d by auto
      then show ?thesis using assms(3) Some CallContest
        by (intro by_kept [of "(contest_at s j)\<lparr>cst_called := Some (cmd_at c)\<rparr>"] kept) auto
    next
      case (RecordScore i xs)
      then have "status_of s j \<noteq> None" using d by auto
      then show ?thesis using assms(3) Some RecordScore
        by (intro by_kept [of "(contest_at s j)\<lparr>cst_scores := Some (sort_by (\<lambda>a b. locale_compare P (fst a) (fst b)) xs)\<rparr>"] kept) auto
    next
      case (CompleteContest i u)
      then have "status_of s j = Some StInProgress" using d by (auto simp: end_invalid_def status_of_def split: option.splits)
      then have "lifecycle (status_of s j) (Some StCompleted)" "omap_get (lst_contests s) j = Some (contest_at s j)"
        using at by (auto intro: lifecycle.intros)
      then show ?thesis using assms(3) Some CompleteContest
        by (intro by_life [of "(contest_at s j)\<lparr>cst_status := Some StCompleted, cst_end := Some u, cst_duration := Some (minutes_between P (cst_start (contest_at s j)) u)\<rparr>"]) auto
    next
      case (RecordRetirement i x w u r)
      then have "status_of s j = Some StInProgress" using d by (auto simp: Let_def end_invalid_def status_of_def split: option.splits)
      then have "lifecycle (status_of s j) (Some StRetired)" "omap_get (lst_contests s) j = Some (contest_at s j)"
        using at by (auto intro: lifecycle.intros)
      then show ?thesis using assms(3) Some RecordRetirement
        by (intro by_life [of "(contest_at s j)\<lparr>cst_status := Some StRetired, cst_end := Some u, cst_duration := Some (minutes_between P (cst_start (contest_at s j)) u), cst_retired := Some x, cst_winner := Some w\<rparr>"]) auto
    next
      case (ReceiveResult i src)
      then have "status_of s j \<noteq> None" using d settled by auto
      then show ?thesis using assms(3) Some ReceiveResult
        by (intro by_kept [of "(contest_at s j)\<lparr>cst_recorded := Some (cmd_at c)\<rparr>"] kept) auto
    qed (use assms(3) Some False in auto)
  qed
qed

lemma accepted_lifecycle:
  assumes "contest_findings P s c = []" "corrected_id (command_event P (cmd_body c)) = None"
    and "apply_data P (cmd_at c) (command_event P (cmd_body c)) s = Inr t"
  shows "lifecycle (status_of s i) (status_of t i)"
  using accepted_contests [OF assms]
proof (elim disjE exE conjE)
  assume "lst_contests t = lst_contests s"
  then show ?thesis using status_of_same stays by metis
next
  fix j x assume x: "lst_contests t = omap_set j x (lst_contests s)"
  then have st: "status_of t i = (if i = j then cst_status x else status_of s i)" by (simp add: status_of_def)
  { assume "contest_kept s j x"
    then have "status_of s j = cst_status x" by (auto simp: contest_kept_def status_of_def)
    then show ?thesis using stays st by simp }
  { assume "status_of s j = Some StScheduled" "cst_status x = Some StInProgress"
    then show ?thesis using st starts stays by simp }
  { assume "lifecycle (status_of s j) (cst_status x)"
    then show ?thesis using st stays by simp }
qed

lemma occupying_None:
  "occupying s j k = [] \<Longrightarrow> omap_get (lst_contests s) i = Some y \<Longrightarrow> i \<noteq> j \<Longrightarrow> cst_status y = Some StInProgress \<Longrightarrow>
    cst_court y \<noteq> Some k"
  by (auto simp: occupying_def filter_empty_conv dest!: map_of_SomeD)

text \<open>An accepted command that is no correction, as a step of the operational part of the state.\<close>

definition plain_step :: "platform \<Rightarrow> live_state \<Rightarrow> live_command \<Rightarrow> live_state \<Rightarrow> bool" where
  "plain_step P s c t \<longleftrightarrow> contest_findings P s c = [] \<and> dispute_findings P s (cmd_body c) = [] \<and> corrected_id (command_event P (cmd_body c)) = None
     \<and> apply_data P (cmd_at c) (command_event P (cmd_body c)) s = Inr t \<and> lst_definition t = lst_definition s"

lemma plain_step_contests:
  assumes "plain_step P s c t"
  obtains "lst_contests t = lst_contests s"
    | j x where "lst_contests t = omap_set j x (lst_contests s)" "contest_kept s j x"
    | j x where "lst_contests t = omap_set j x (lst_contests s)" "cst_status x = Some StInProgress" "contest_started s j x"
    | j x where "lst_contests t = omap_set j x (lst_contests s)" "cst_status x \<noteq> Some StInProgress" "lifecycle (status_of s j) (cst_status x)"
proof -
  have "contest_findings P s c = []" "corrected_id (command_event P (cmd_body c)) = None"
    "apply_data P (cmd_at c) (command_event P (cmd_body c)) s = Inr t"
    using assms by (simp_all add: plain_step_def)
  from accepted_contests [OF this] show ?thesis using that by (elim disjE exE conjE)
qed

lemma plain_step_lifecycle: "plain_step P s c t \<Longrightarrow> lifecycle (status_of s i) (status_of t i)"
  using accepted_lifecycle unfolding plain_step_def by blast

lemma plain_step_settled: "plain_step P s c t \<Longrightarrow> settled (status_of s i) \<Longrightarrow> settled (status_of t i)"
  using plain_step_lifecycle lifecycle_settled by metis

lemma courts_exclusive_step:
  assumes "plain_step P s c t" "courts_exclusive s"
  shows "courts_exclusive t"
  using assms(1)
proof (cases rule: plain_step_contests)
  case 1
  then show ?thesis using assms(2) by (simp add: courts_exclusive_def)
next
  case (2 j x)
  then obtain y where y: "omap_get (lst_contests s) j = Some y" "cst_status x = cst_status y" "cst_court x = cst_court y"
    by (auto simp: contest_kept_def)
  have "\<exists>z'. omap_get (lst_contests s) i = Some z' \<and> cst_status z = cst_status z' \<and> cst_court z = cst_court z'"
    if "omap_get (lst_contests t) i = Some z" for i z
    using that y 2(1) by (auto split: if_splits)
  then show ?thesis using assms(2) unfolding courts_exclusive_def by metis
next
  case (3 j x)
  then obtain k where k: "cst_court x = Some k" "occupying s j k = []" by (auto simp: contest_started_def)
  have "i = j" if "omap_get (lst_contests s) i = Some y" "cst_status y = Some StInProgress" "cst_court y = cst_court x" for i y
    using occupying_None [OF k(2) that(1)] that(2,3) k(1) by auto
  then show ?thesis using assms(2) unfolding courts_exclusive_def 3 by (auto split: if_splits)
next
  case (4 j x)
  then show ?thesis using assms(2) unfolding courts_exclusive_def by (auto split: if_splits)
qed

lemma courts_known_step:
  assumes "plain_step P s c t" "courts_known s"
  shows "courts_known t"
proof -
  have same: "lst_definition t = lst_definition s" using assms(1) by (simp add: plain_step_def)
  from assms(1) show ?thesis
    using assms(2) same
    by (cases rule: plain_step_contests) (auto simp: courts_known_def contest_kept_def contest_started_def)
qed

lemma predecessors_settled_step:
  assumes step: "plain_step P s c t" and old: "predecessors_settled s" and ids: "distinct (map lct_id (ldf_contests (lst_definition s)))"
  shows "predecessors_settled t"
proof -
  have same: "lst_definition t = lst_definition s" using step by (simp add: plain_step_def)
  have "settled (status_of t i)"
    if d: "d \<in> set (ldf_contests (lst_definition s))" "started (status_of t (lct_id d))" "i \<in> set (list_or (lct_depends d))" for d i
  proof (cases "started (status_of s (lct_id d))")
    case True
    then show ?thesis using old d by (auto simp: predecessors_settled_def intro: plain_step_settled [OF step])
  next
    case False
    then have changed: "status_of t (lct_id d) \<noteq> status_of s (lct_id d)" using d(2) by auto
    have at: "j = lct_id d \<and> status_of t (lct_id d) = cst_status x" if "lst_contests t = omap_set j x (lst_contests s)" for j x
      using changed that by (auto simp: status_of_def split: if_splits)
    from step obtain j x where x: "j = lct_id d" "contest_started s j x"
    proof (cases rule: plain_step_contests)
      case 1
      then show ?thesis using changed status_of_same by metis
    next
      case (2 j x)
      then show ?thesis using changed at by (auto simp: contest_kept_def status_of_def)
    next
      case (3 j x)
      then show ?thesis using at that by blast
    next
      case (4 j x)
      then show ?thesis using False changed d(2) at [OF 4(1)] by (auto elim!: lifecycle.cases)
    qed
    then obtain d' where "d' \<in> set (ldf_contests (lst_definition s))" "lct_id d' = lct_id d"
        "\<forall>i \<in> set (list_or (lct_depends d')). settled (status_of s i)"
      by (auto simp: contest_started_def)
    moreover from this have "d' = d" using ids d(1) by (auto simp: distinct_map dest: inj_onD)
    ultimately show ?thesis using d(3) plain_step_settled [OF step] by blast
  qed
  then show ?thesis by (auto simp: predecessors_settled_def same)
qed

lemma disputes_grounded_step:
  assumes step: "plain_step P s c t" and old: "disputes_grounded s"
  shows "disputes_grounded t"
proof -
  have d: "dispute_findings P s (cmd_body c) = []" and applied: "apply_data P (cmd_at c) (command_event P (cmd_body c)) s = Inr t"
    using step by (simp_all add: plain_step_def)
  have protest: "protest_ok s x \<Longrightarrow> protest_ok t x" for x
    using plain_step_settled [OF step] by (auto simp: protest_ok_def)
  have appeal: "appeal_ok s x \<Longrightarrow> appeal_ok t x"
    if "\<And>p y e. omap_get (lst_protests s) p = Some y \<Longrightarrow> prt_status y = Some (StResolved e) \<Longrightarrow>
      \<exists>y' e'. omap_get (lst_protests t) p = Some y' \<and> prt_status y' = Some (StResolved e')" for x
    using that by (fastforce simp: appeal_ok_def)
  have keep: ?thesis if "lst_protests t = lst_protests s" "lst_appeals t = lst_appeals s"
    using old protest that by (auto simp: disputes_grounded_def appeal_ok_def)
  have set: "lst_protests (set_resource k i a u) = lst_protests u" "lst_appeals (set_resource k i a u) = lst_appeals u" for k i a u
    by (cases k; simp)+
  note old' = old [unfolded disputes_grounded_def]
  show ?thesis
  proof (cases "cmd_body c")
    case (FileProtest p cc f r)
    then have t: "lst_protests t = omap_set p \<lparr>prt_id = Some p, prt_contest = Some cc, prt_filed_by = Some f, prt_reason = Some r,
         prt_status = Some StPending, prt_resolution = None\<rparr> (lst_protests s)" "lst_appeals t = lst_appeals s"
      "omap_get (lst_protests s) p = None" "settled (status_of s cc)"
      using d applied by auto
    have "appeal_ok t x" if "appeal_ok s x" for x by (rule appeal [OF _ that]) (use t in auto)
    moreover have "protest_ok t \<lparr>prt_id = Some p, prt_contest = Some cc, prt_filed_by = Some f, prt_reason = Some r,
         prt_status = Some StPending, prt_resolution = None\<rparr>"
      using plain_step_settled [OF step t(4)] by (simp add: protest_ok_def)
    ultimately show ?thesis using old' protest by (auto simp: disputes_grounded_def t(1,2) split: if_splits)
  next
    case (ResolveProtest p out r)
    then obtain y where y: "omap_get (lst_protests s) p = Some y" "prt_status y = Some StPending"
      using d by (auto simp: protest_at_def split: option.splits)
    then have t: "lst_protests t = omap_set p (y\<lparr>prt_status := Some (StResolved out), prt_resolution := Some r\<rparr>) (lst_protests s)"
      "lst_appeals t = lst_appeals s"
      using ResolveProtest applied by (auto simp: protest_at_def)
    have "appeal_ok t x" if "appeal_ok s x" for x by (rule appeal [OF _ that]) (use t in auto)
    moreover have "protest_ok t (y\<lparr>prt_status := Some (StResolved out), prt_resolution := Some r\<rparr>)"
      using protest [of y] old' y by (auto simp: protest_ok_def)
    ultimately show ?thesis using old' protest by (auto simp: disputes_grounded_def t(1,2) split: if_splits)
  next
    case (FileAppeal a p f r)
    then obtain y where y: "omap_get (lst_protests s) p = Some y" "prt_status y \<noteq> Some StPending"
      using d by (auto simp: protest_at_def split: option.splits)
    have "prt_status y \<noteq> None" using old' y(1) by (simp add: protest_ok_def)
    then obtain e where e: "prt_status y = Some (StResolved e)"
      using y(2) by (metis dispute_status.exhaust option.exhaust)
    have t: "lst_protests t = lst_protests s" "lst_appeals t = omap_set a \<lparr>apl_id = Some a, apl_protest = Some p, apl_filed_by = Some f,
        apl_reason = Some r, apl_status = Some StPending, apl_resolution = None\<rparr> (lst_appeals s)"
      using FileAppeal applied by auto
    have "appeal_ok t x" if "appeal_ok s x" for x by (rule appeal [OF _ that]) (use t in auto)
    moreover have "appeal_ok t \<lparr>apl_id = Some a, apl_protest = Some p, apl_filed_by = Some f,
        apl_reason = Some r, apl_status = Some StPending, apl_resolution = None\<rparr>"
      using y(1) e t(1) by (simp add: appeal_ok_def)
    ultimately show ?thesis using old' protest by (auto simp: disputes_grounded_def t split: if_splits)
  next
    case (ResolveAppeal a out r)
    then obtain x where x: "omap_get (lst_appeals s) a = Some x" "apl_status x = Some StPending"
      using d by (auto simp: appeal_at_def split: option.splits)
    then have t: "lst_protests t = lst_protests s"
      "lst_appeals t = omap_set a (x\<lparr>apl_status := Some (StResolved out), apl_resolution := Some r\<rparr>) (lst_appeals s)"
      using ResolveAppeal applied by (auto simp: appeal_at_def)
    have "appeal_ok t z" if "appeal_ok s z" for z by (rule appeal [OF _ that]) (use t in auto)
    moreover have "appeal_ok t (x\<lparr>apl_status := Some (StResolved out), apl_resolution := Some r\<rparr>) = appeal_ok t x"
      by (simp add: appeal_ok_def)
    ultimately show ?thesis using old' protest x by (auto simp: disputes_grounded_def t split: if_splits)
  qed ((rule keep; use applied step in \<open>auto simp: plain_step_def set set_contest_def split: option.splits\<close>)+)
qed

definition floor_ok :: "live_state \<Rightarrow> bool" where
  "floor_ok s \<longleftrightarrow> courts_exclusive s \<and> courts_known s \<and> predecessors_settled s \<and> disputes_grounded s"

lemma floor_ok_step:
  assumes "plain_step P s c t" "floor_ok s" "distinct (map lct_id (ldf_contests (lst_definition s)))"
  shows "floor_ok t"
  using assms courts_exclusive_step courts_known_step predecessors_settled_step disputes_grounded_step
  unfolding floor_ok_def by metis

lemma floor_ok_view [simp]: "floor_ok (floor_view s) = floor_ok s"
proof -
  have "protest_ok (floor_view s) = protest_ok s" "appeal_ok (floor_view s) = appeal_ok s"
    by (simp_all add: fun_eq_iff protest_ok_def appeal_ok_def)
  then show ?thesis
    by (simp add: floor_ok_def courts_exclusive_def courts_known_def predecessors_settled_def disputes_grounded_def)
qed

lemma contest_findings_view [simp]: "contest_findings P (floor_view s) c = contest_findings P s c"
proof -
  have v: "defined_contest (floor_view s) = defined_contest s" "effective_entrants (floor_view s) = effective_entrants s"
    "occupying (floor_view s) = occupying s" "end_invalid P (floor_view s) = end_invalid P s"
    by (simp_all add: fun_eq_iff defined_contest_def effective_entrants_def occupying_def end_invalid_def)
  have r: "ruled_findings P (floor_view s) now d b = ruled_findings P s now d b" for now d b
    by (cases b) (simp_all add: start_findings_def v)
  have e: "resolve_findings (floor_view s) d es h = resolve_findings s d es h" for d es h
    by (simp add: resolve_findings_def)
  show ?thesis unfolding contest_findings_def v r e floor_view_sel ..
qed

lemma dispute_findings_view [simp]:
  "corrected_id (command_event P b) = None \<Longrightarrow> dispute_findings P (floor_view s) b = dispute_findings P s b"
  by (cases b) simp_all

lemma submitted_plain_step:
  assumes "log_ok P input s" "submit P s c = Inr r" "lr_accepted r" "\<not> lr_replay r"
    and "corrected_id (command_event P (cmd_body c)) = None"
    and "list_all (\<lambda>e. lev_id e \<notin> set (superseded (lst_events s))) (lr_events r)"
  shows "plain_step P (floor_view s) c (floor_view (lr_state r))"
  using accepted_step [OF assms] assms(5) by (simp add: plain_step_def submit_findings_def)

lemma submit_keeps:
  assumes "submit P s c = Inr r" "\<not> lr_accepted r \<or> lr_replay r"
  shows "lr_state r = s" "lr_events r = []"
  using assms by (cases rule: submit_cases; simp)+

text \<open>
  C6. The life of a contest: whatever command is accepted, unless it is a correction, every contest
  keeps its status or moves along SCHEDULED, IN_PROGRESS, COMPLETED or RETIRED, or from
  SCHEDULED to WALKOVER; a settled contest stays as it is settled. (The condition on the events
  excludes that the new event has the identifier, 96 bits of SHA-256, of a corrected one.)
\<close>

theorem contest_lifecycle:
  assumes "live_reach P input s" "comparator (locale_compare P)" "\<And>s. is_digest (sha256 P s)"
    and "submit P s c = Inr r" "corrected_id (command_event P (cmd_body c)) = None"
    and "list_all (\<lambda>e. lev_id e \<notin> set (superseded (lst_events s))) (lr_events r)"
  shows "lifecycle (status_of s i) (status_of (lr_state r) i)"
proof (cases "lr_accepted r \<and> \<not> lr_replay r")
  case True
  then show ?thesis
    using plain_step_lifecycle [OF submitted_plain_step [OF reachable_log_ok [OF assms(1-3)] assms(4)]] assms(5,6) by simp
next
  case False
  then show ?thesis using submit_keeps(1) [OF assms(4)] by (simp add: lifecycle.stays)
qed

lemma omap_of_get: "omap_get (foldl (\<lambda>m (k, v). omap_set k v m) m kvs) k = Some v \<Longrightarrow> omap_get m k = Some v \<or> (k, v) \<in> set kvs"
proof (induction kvs arbitrary: m)
  case (Cons x kvs)
  obtain a b where x: "x = (a, b)" by force
  from Cons.IH [of "omap_set a b m"] Cons.prems show ?case by (auto simp: x split: if_splits)
qed simp

lemma created_floor_ok:
  assumes "create_live_state P input = Inr s"
  shows "floor_ok s" "distinct (map lct_id (ldf_contests (lst_definition s)))" "superseded (lst_events s) = []"
proof -
  obtain h where h: "definition_ok P input" "s = (initial_state (normal_definition P input))\<lparr>lst_proof := h\<rparr>"
    using create_live_state_Inr [OF assms] .
  have "cst_status x = Some StScheduled" if "omap_get (lst_contests s) i = Some x" for i x
    using that omap_of_get [of "[]" "map (\<lambda>c. (lct_id c, no_contest\<lparr>cst_status := Some StScheduled\<rparr>)) (ldf_contests (normal_definition P input))" i x]
    by (auto simp: h(2) initial_state_def omap_of_def)
  then have no: "omap_get (lst_contests s) i = Some x \<Longrightarrow> cst_status x \<noteq> Some StInProgress" "\<not> started (status_of s i)" for i x
    by (auto simp: status_of_def split: option.splits)
  have none: "lst_protests s = []" "lst_appeals s = []" by (simp_all add: h(2) initial_state_def)
  show "floor_ok s"
    using no by (auto simp: floor_ok_def courts_exclusive_def courts_known_def predecessors_settled_def disputes_grounded_def none)
  show "distinct (map lct_id (ldf_contests (lst_definition s)))"
    using h(1) by (simp add: h(2) initial_state_def normal_definition_def definition_ok_def o_def)
  show "superseded (lst_events s) = []" by (simp add: h(2) initial_state_def superseded_def map_filter_def)
qed

lemma superseded_grows:
  assumes "log_ok P input s" "submit P s c = Inr r" "superseded (lst_events (lr_state r)) = []"
  shows "superseded (lst_events s) = []" "lr_accepted r \<Longrightarrow> \<not> lr_replay r \<Longrightarrow> corrected_id (command_event P (cmd_body c)) = None"
    "lst_definition (lr_state r) = lst_definition s"
proof -
  have p: "project P (lst_definition s) (lst_events s) = Inr s" using assms(1) by (simp add: log_ok_def)
  have "superseded (lst_events s) = [] \<and> (lr_accepted r \<longrightarrow> \<not> lr_replay r \<longrightarrow> corrected_id (command_event P (cmd_body c)) = None)
      \<and> lst_definition (lr_state r) = lst_definition s"
    using assms(2)
  proof (cases rule: submit_cases)
    case (Accepted fp e st')
    then show ?thesis
      using assms(3) project_fields(2,4) [OF Accepted(5)] project_fields(4) [OF p] accepted_event_fields(5) [OF Accepted(4)]
      by (simp add: superseded_def map_filter_def split: if_splits)
  qed (use assms(3) in simp_all)
  then show "superseded (lst_events s) = []" "lr_accepted r \<Longrightarrow> \<not> lr_replay r \<Longrightarrow> corrected_id (command_event P (cmd_body c)) = None"
    "lst_definition (lr_state r) = lst_definition s" by blast+
qed

text \<open>
  C5. Safety on the floor: in every reachable state whose log has no correction, a court holds at
  most one contest in play, and a known one; a contest that was started has all its predecessors
  settled; a protest is about a settled contest and an appeal about a resolved protest.
\<close>

theorem live_floor_safe:
  assumes "live_reach P input s" "comparator (locale_compare P)" "\<And>s. is_digest (sha256 P s)" "superseded (lst_events s) = []"
  shows "floor_ok s"
proof -
  from assms(1,4) have "floor_ok s \<and> distinct (map lct_id (ldf_contests (lst_definition s)))"
  proof induction
    case (created s)
    then show ?case using created_floor_ok by blast
  next
    case (submitted s c r)
    note log = reachable_log_ok [OF submitted.hyps(1) assms(2,3)]
    note old = superseded_grows [OF log submitted.hyps(2) submitted.prems]
    have IH: "floor_ok s" "distinct (map lct_id (ldf_contests (lst_definition s)))" using submitted.IH old(1) by blast+
    show ?case
    proof (cases "lr_accepted r \<and> \<not> lr_replay r")
      case True
      have "plain_step P (floor_view s) c (floor_view (lr_state r))"
        by (rule submitted_plain_step [OF log submitted.hyps(2)]) (use True old in \<open>auto simp: list_all_iff\<close>)
      from floor_ok_step [OF this] show ?thesis using IH old(3) by simp
    next
      case False
      then show ?thesis using submit_keeps(1) [OF submitted.hyps(2)] IH by simp
    qed
  qed
  then show ?thesis ..
qed

section \<open>Refusal and repetition\<close>

text \<open>
  C7. Optimistic concurrency and idempotence: a refused command names a finding, writes no event
  and leaves the state; an accepted one advances the version by its events; and sending
  an accepted command once more, whatever version it then expects, is recognised and
  changes nothing.
\<close>

theorem submission_idempotent:
  assumes "live_reach P input s" "comparator (locale_compare P)" "\<And>s. is_digest (sha256 P s)" "submit P s c = Inr r"
  shows "if lr_accepted r
    then lst_events (lr_state r) = lst_events s @ lr_events r \<and> lst_version (lr_state r) = lst_version s + length (lr_events r)
      \<and> lr_findings r = [] \<and> submit P (lr_state r) (c\<lparr>cmd_expected := v\<rparr>)
          = Inr \<lparr>lr_accepted = True, lr_replay = True, lr_state = lr_state r, lr_events = [], lr_findings = []\<rparr>
    else lr_state r = s \<and> lr_events r = [] \<and> lr_findings r \<noteq> []"
  using assms(4)
proof (cases rule: submit_cases)
  case (Replayed fp)
  moreover have "command_json (c\<lparr>cmd_expected := v\<rparr>) = command_json c" by (simp add: command_json_def)
  ultimately show ?thesis by (simp add: submit_def)
next
  case (Accepted fp e st')
  have p: "project P (lst_definition s) (lst_events s) = Inr s"
    using reachable_log_ok [OF assms(1-3)] by (simp add: log_ok_def)
  note e = accepted_event_fields [OF Accepted(4)] and f = project_fields [OF Accepted(5)]
  have "omap_get (lst_fingerprints st') (cmd_id c) = Some fp" using f(6) e by simp
  moreover have "command_json (c\<lparr>cmd_expected := v\<rparr>) = command_json c" by (simp add: command_json_def)
  ultimately have "submit P st' (c\<lparr>cmd_expected := v\<rparr>) = Inr \<lparr>lr_accepted = True, lr_replay = True, lr_state = st', lr_events = [], lr_findings = []\<rparr>"
    using Accepted(1) by (simp add: submit_def)
  then show ?thesis using Accepted(6) f(1,2) project_fields(1) [OF p] by simp
qed simp_all

section \<open>Control room\<close>

text \<open>What no event undoes, corrections included: a contest has a status, and none is scheduled again.\<close>

definition statuses_ok :: "live_state \<Rightarrow> bool" where
  "statuses_ok s \<longleftrightarrow> (\<forall>i x. omap_get (lst_contests s) i = Some x \<longrightarrow> cst_status x = Some StScheduled \<longrightarrow> cst_court x = None)
     \<and> (\<forall>d \<in> set (ldf_contests (lst_definition s)). status_of s (lct_id d) \<noteq> None)"

lemma statuses_ok_set_contest:
  assumes "statuses_ok s" "cst_status x = Some StScheduled \<Longrightarrow> cst_court x = None"
    and "status_of s j \<noteq> None \<Longrightarrow> cst_status x \<noteq> None"
  shows "statuses_ok (set_contest j x s)"
proof -
  have [simp]: "lst_definition (set_contest j x s) = lst_definition s" by (simp add: set_contest_def)
  have "omap_get (lst_contests (set_contest j x s)) i = (if i = j then Some x else omap_get (lst_contests s) i)" for i
    by (simp add: set_contest_def)
  with assms show ?thesis unfolding statuses_ok_def status_of_set_contest by auto
qed

lemma statuses_ok_at:
  assumes "statuses_ok s"
  shows "cst_status (contest_at s j) = Some StScheduled \<Longrightarrow> cst_court (contest_at s j) = None"
    "status_of s j \<noteq> None \<Longrightarrow> cst_status (contest_at s j) \<noteq> None"
proof -
  show "status_of s j \<noteq> None \<Longrightarrow> cst_status (contest_at s j) \<noteq> None"
    by (auto simp: status_of_def contest_at_def split: option.splits)
  show "cst_status (contest_at s j) = Some StScheduled \<Longrightarrow> cst_court (contest_at s j) = None"
    using assms by (cases "omap_get (lst_contests s) j") (auto simp: contest_at_def statuses_ok_def no_contest_def)
qed

lemma statuses_ok_same:
  "statuses_ok s \<Longrightarrow> lst_contests t = lst_contests s \<Longrightarrow> lst_definition t = lst_definition s \<Longrightarrow> statuses_ok t"
  using status_of_same [of t s] by (simp add: statuses_ok_def)

lemma statuses_ok_data:
  assumes "statuses_ok s" "apply_data P now e s = Inr t"
  shows "statuses_ok t"
proof -
  have set: "lst_definition (set_resource k i a u) = lst_definition u" for k i a u by (cases k) simp_all
  note put = statuses_ok_set_contest [OF assms(1)] and at = statuses_ok_at [OF assms(1)]
  have corr: "statuses_ok (apply_correction P now x s)" for x
  proof (cases x)
    case (SetTiming c b u r)
    then show ?thesis using at by (cases u) (auto intro!: put)
  next
    case (SetScore c xs r)
    then show ?thesis using at by (auto intro!: put)
  qed (use assms(1) set in \<open>auto intro: statuses_ok_same\<close>)
  show ?thesis
  proof (cases e)
    case (ContestCalled c) then show ?thesis using assms(2) at by (auto intro!: put)
  next
    case (ContestStarted c k u) then show ?thesis using assms(2) at by (auto intro!: put)
  next
    case (ScoreRecorded c xs) then show ?thesis using assms(2) at by (auto intro!: put)
  next
    case (WalkoverAwarded c w a r) then show ?thesis using assms(2) at by (auto intro!: put)
  next
    case (ResultReceived c src) then show ?thesis using assms(2) at by (auto intro!: put)
  next
    case (ContestCompleted c u) then show ?thesis using assms(2) by (auto intro!: put split: option.splits)
  next
    case (RetirementRecorded c x w u r) then show ?thesis using assms(2) by (auto intro!: put split: option.splits)
  next
    case (OperationCorrected i x r) then show ?thesis using assms(2) corr by auto
  qed (use assms set in \<open>auto intro: statuses_ok_same\<close>)
qed

lemma statuses_ok_fold:
  assumes "fold_result (apply_event P gone) es s = Inr t" "statuses_ok s"
  shows "statuses_ok t"
  using assms(1)
proof (rule fold_result_invariant [where P = statuses_ok])
  show "statuses_ok s" by (rule assms(2))
  fix x u v assume x: "apply_event P gone x u = Inr v" "statuses_ok u"
  have "statuses_ok (u\<lparr>lst_fingerprints := m\<rparr>)" for m using x(2) by (rule statuses_ok_same) simp_all
  then show "statuses_ok v" using x(1)
    by (auto simp: apply_event_def Let_def split: if_splits intro: statuses_ok_data [where s = "u\<lparr>lst_fingerprints := m\<rparr>" for m])
qed

lemma omap_of_has: "k \<in> fst ` set kvs \<Longrightarrow> omap_get (foldl (\<lambda>m (k, v). omap_set k v m) m kvs) k \<noteq> None"
proof (induction kvs arbitrary: m)
  case (Cons x kvs)
  have has: "omap_get m k \<noteq> None \<Longrightarrow> omap_get (foldl (\<lambda>m (k, v). omap_set k v m) m kvs) k \<noteq> None" for m
    by (induction kvs arbitrary: m) auto
  show ?case
  proof (cases "k \<in> fst ` set kvs")
    case False
    then have "k = fst x" using Cons.prems by auto
    then show ?thesis using has [of "omap_set (fst x) (snd x) m"] by (cases x) simp
  qed (simp add: Cons.IH)
qed simp

lemma initial_statuses_ok: "statuses_ok ((initial_state d)\<lparr>lst_proof := h\<rparr>)"
proof -
  let ?kvs = "map (\<lambda>c. (lct_id c, no_contest\<lparr>cst_status := Some StScheduled\<rparr>)) (ldf_contests d)"
  have all: "x = no_contest\<lparr>cst_status := Some StScheduled\<rparr>" if "omap_get (omap_of ?kvs) i = Some x" for i x
    using omap_of_get [of "[]" ?kvs i x] that by (auto simp: omap_of_def)
  have "omap_get (omap_of ?kvs) (lct_id c) \<noteq> None" if "c \<in> set (ldf_contests d)" for c
    unfolding omap_of_def by (rule omap_of_has) (use that in \<open>auto simp: image_image\<close>)
  then have "status_of ((initial_state d)\<lparr>lst_proof := h\<rparr>) (lct_id c) \<noteq> None" if "c \<in> set (ldf_contests d)" for c
    using that all by (fastforce simp: status_of_def initial_state_def)
  moreover have "cst_court x = None" if "omap_get (lst_contests ((initial_state d)\<lparr>lst_proof := h\<rparr>)) i = Some x" for i x
    using all [of i x] that by (simp add: initial_state_def no_contest_def)
  ultimately show ?thesis by (simp add: statuses_ok_def) (simp add: initial_state_def)
qed

lemma projected_statuses_ok:
  assumes "project P d es = Inr s"
  shows "statuses_ok s" "definition_ok P d"
proof -
  obtain i u h where p: "create_live_state P d = Inr i" "fold_result (apply_event P (superseded es)) es i = Inr u"
    "s = u\<lparr>lst_version := length es, lst_last := (if es = [] then None else Some (lev_hash (last es))), lst_events := es, lst_proof := h\<rparr>"
    using project_Inr [OF assms] .
  obtain h0 where h0: "definition_ok P d" "i = (initial_state (normal_definition P d))\<lparr>lst_proof := h0\<rparr>"
    using create_live_state_Inr [OF p(1)] .
  have "statuses_ok u" by (rule statuses_ok_fold [OF p(2)]) (simp add: h0(2) initial_statuses_ok)
  then show "statuses_ok s" by (rule statuses_ok_same) (simp_all add: p(3))
  show "definition_ok P d" by (rule h0(1))
qed

lemma room_entry:
  assumes "derive_control_room P s now plan = Inr room"
  shows "canonical_timestamp P now"
    "set (ctl_next room) = {rc. \<exists>c \<in> set (ldf_contests (lst_definition s)). place_contest P s now plan c = Upcoming rc}"
    "set (ctl_late room) = {(rc, m). \<exists>c \<in> set (ldf_contests (lst_definition s)). place_contest P s now plan c = Late rc m}"
proof -
  let ?places = "map (place_contest P s now plan) (ldf_contests (lst_definition s))"
  show "canonical_timestamp P now" using assms by (auto simp: derive_control_room_def split: if_splits)
  have f: "ctl_next room = sort_by (by_start P) (List.map_filter (\<lambda>p. case p of Upcoming c \<Rightarrow> Some c | _ \<Rightarrow> None) ?places)"
    "ctl_late room = sort_by (\<lambda>a b. by_start P (fst a) (fst b)) (List.map_filter (\<lambda>p. case p of Late c m \<Rightarrow> Some (c, m) | _ \<Rightarrow> None) ?places)"
    using assms by (auto simp: derive_control_room_def Let_def split: if_splits)
  have mf: "set (List.map_filter f xs) = {y. \<exists>x \<in> set xs. f x = Some y}" for f :: "room_place \<Rightarrow> 'a option" and xs
    by (induction xs) (auto simp: map_filter_simps split: option.splits)
  have up: "(case p of Upcoming c \<Rightarrow> Some c | _ \<Rightarrow> None) = Some y \<longleftrightarrow> p = Upcoming y" for p y by (cases p) auto
  have la: "(case p of Late c m \<Rightarrow> Some (c, m) | _ \<Rightarrow> None) = Some (y, n) \<longleftrightarrow> p = Late y n" for p y n by (cases p) auto
  show "set (ctl_next room) = {rc. \<exists>c \<in> set (ldf_contests (lst_definition s)). place_contest P s now plan c = Upcoming rc}"
    by (auto simp: f(1) mf up intro: rev_image_eqI)
  show "set (ctl_late room) = {(rc, m). \<exists>c \<in> set (ldf_contests (lst_definition s)). place_contest P s now plan c = Late rc m}"
    by (auto simp: f(2) mf la)
qed

lemma reason_when_None [simp]: "reason_when code ids = [] \<longleftrightarrow> ids = []"
  by (simp add: reason_when_def)

lemma insort_Nil [simp]: "(sort xs = []) = (xs = [])"
  by (metis length_0_conv length_sort)

text \<open>
  The control room and the start rule agree: a contest that the control room lists as next or
  late, whose entrants are resolved and whose court is not occupied, is accepted by every guard of
  START_CONTEST at that instant on its court, in every reachable state, corrected ones included.
\<close>

theorem due_contest_can_start:
  assumes "live_reach P input s" "comparator (locale_compare P)" "\<And>s. is_digest (sha256 P s)"
    and room: "derive_control_room P s now [] = Inr room" and due: "List.member (ctl_next room @ map fst (ctl_late room)) rc"
    and "omap_get (lst_resolved s) (rc_id rc) \<noteq> None" "occupying s (rc_id rc) (rc_court rc) = []"
    and "\<not> blank i" "\<not> blank a"
  shows "submit_findings P s \<lparr>cmd_id = i, cmd_expected = Num (of_nat (lst_version s)), cmd_actor = a, cmd_at = now,
    cmd_body = StartContest (rc_id rc) (rc_court rc) now\<rparr> = []"
proof -
  have log: "log_ok P input s" by (rule reachable_log_ok [OF assms(1-3)])
  then have p: "project P (lst_definition s) (lst_events s) = Inr s" by (simp add: log_ok_def)
  note ok = projected_statuses_ok [OF p]
  note now = room_entry(1) [OF room]
  obtain c m where c: "c \<in> set (ldf_contests (lst_definition s))" "place_contest P s now [] c \<in> {Upcoming rc, Late rc m}"
    using due room_entry(2,3) [OF room] by (auto simp: member_by_set)
  have "in_force [] c = c" by (simp add: in_force_def)
  then have place: "rc = room_contest_of s c" "status_of s (lct_id c) \<noteq> Some StInProgress" "\<not> settled (status_of s (lct_id c))"
    "block_reasons P s now c = []"
    using c(2) by (auto simp: place_contest_def Let_def split: if_splits)
  have id: "rc_id rc = lct_id c" by (simp add: place(1) room_contest_of_def)
  have "status_of s (lct_id c) \<noteq> None" using ok(1) c(1) by (simp add: statuses_ok_def)
  then obtain st where "status_of s (lct_id c) = Some st" by blast
  then have sched: "status_of s (lct_id c) = Some StScheduled" using place(2,3) by (cases st) auto
  then have court: "rc_court rc = lct_court c"
    using statuses_ok_at(1) [OF ok(1), of "lct_id c"] by (simp add: place(1) room_contest_of_def status_of_contest_at)
  have "\<not> contest_invalid P (lst_definition s) c" using ok(2) c(1) by (simp add: definition_ok_def)
  then have known: "List.member (ldf_courts (lst_definition s)) (lct_court c)" by (simp add: contest_invalid_def)
  have defined: "defined_contest s (lct_id c) = Some c"
  proof -
    obtain d where d: "defined_contest s (lct_id c) = Some d"
      using c(1) by (cases "defined_contest s (lct_id c)") (auto simp: defined_contest_def find_None_iff)
    with defined_contest_Some [OF d] c(1) ok(2) show ?thesis by (auto simp: definition_ok_def distinct_map dest: inj_onD)
  qed
  have present: "omap_get (lst_presence s) e = Some CheckedIn \<or> omap_get (lst_presence s) e = Some MarkedLate"
    if "e \<in> set (effective_entrants s (lct_id c))" for e
  proof -
    have "omap_get (lst_presence s) e \<noteq> None \<and> omap_get (lst_presence s) e \<noteq> Some NoShow \<and> omap_get (lst_presence s) e \<noteq> Some Withdrawn"
      using place(4) that by (auto simp: block_reasons_def Let_def filter_empty_conv)
    then obtain q where "omap_get (lst_presence s) e = Some q" "q \<noteq> NoShow" "q \<noteq> Withdrawn" by auto
    then show ?thesis by (cases q) auto
  qed
  have opened: "\<not> court_closed_at P (omap_get (lst_courts s) (lct_court c)) now"
    using place(4) by (auto simp: block_reasons_def Let_def split: if_splits)
  have pending: "\<forall>i \<in> set (list_or (lct_depends c)). settled (status_of s i)"
    using place(4) by (auto simp: block_reasons_def Let_def filter_empty_conv)
  have "start_findings P s now c (lct_court c) now = []"
    using sched known now opened present pending assms(7) by (auto simp: start_findings_def Let_def filter_empty_conv id court)
  then show ?thesis
    using assms(6,8,9) defined now
    by (simp add: submit_findings_def audit_findings_def resource_findings_def contest_findings_def id court)
qed

lemma room_id [simp]: "rc_id (room_contest_of s c) = lct_id c" "lct_id (in_force plan c) = lct_id c"
  by (simp_all add: room_contest_of_def in_force_def split: option.splits)

lemma place_cases:
  obtains rc where "place_contest P s now plan c = InPlay rc" "rc_id rc = lct_id c" "\<not> settled (status_of s (lct_id c))"
    | "place_contest P s now plan c = Settled" "settled (status_of s (lct_id c))"
    | rc rs where "place_contest P s now plan c = Blocked rc rs" "rc_id rc = lct_id c" "\<not> settled (status_of s (lct_id c))"
    | rc m where "place_contest P s now plan c = Late rc m" "rc_id rc = lct_id c" "\<not> settled (status_of s (lct_id c))"
    | rc where "place_contest P s now plan c = Upcoming rc" "rc_id rc = lct_id c" "\<not> settled (status_of s (lct_id c))"
proof -
  let ?st = "status_of s (lct_id c)" and ?c = "in_force plan c"
  let ?rc = "room_contest_of s ?c" and ?rs = "block_reasons P s now ?c" and ?m = "minutes_late P now (lct_start ?c)"
  note place = place_contest_def [of P s now plan c, unfolded Let_def room_id]
  have rc: "rc_id ?rc = lct_id c" by simp
  consider "?st = Some StInProgress" | "?st \<noteq> Some StInProgress" "settled ?st"
    | "?st \<noteq> Some StInProgress" "\<not> settled ?st" "?rs \<noteq> []"
    | "?st \<noteq> Some StInProgress" "\<not> settled ?st" "?rs = []" by blast
  then show ?thesis
  proof cases
    case 1
    then show ?thesis using that(1) [of ?rc] rc place by simp
  next
    case 2
    then show ?thesis using that(2) place by simp
  next
    case 3
    then show ?thesis using that(3) [of ?rc ?rs] rc place by simp
  next
    case 4
    then have "place_contest P s now plan c = Late ?rc ?m \<or> place_contest P s now plan c = Upcoming ?rc" using place by simp
    then show ?thesis using that(4) [of ?rc ?m] that(5) [of ?rc] rc 4(2) by blast
  qed
qed

abbreviation in_play :: "room_place list \<Rightarrow> room_contest list" where
  "in_play ps \<equiv> List.map_filter (\<lambda>p. case p of InPlay c \<Rightarrow> Some c | _ \<Rightarrow> None) ps"

abbreviation upcoming :: "room_place list \<Rightarrow> room_contest list" where
  "upcoming ps \<equiv> List.map_filter (\<lambda>p. case p of Upcoming c \<Rightarrow> Some c | _ \<Rightarrow> None) ps"

abbreviation running_late :: "room_place list \<Rightarrow> (room_contest \<times> jsnum) list" where
  "running_late ps \<equiv> List.map_filter (\<lambda>p. case p of Late c m \<Rightarrow> Some (c, m) | _ \<Rightarrow> None) ps"

abbreviation blocked_contests :: "room_place list \<Rightarrow> (room_contest \<times> (block_code \<times> string list) list) list" where
  "blocked_contests ps \<equiv> List.map_filter (\<lambda>p. case p of Blocked c rs \<Rightarrow> Some (c, rs) | _ \<Rightarrow> None) ps"

lemma places_partition:
  fixes P s now plan cs
  defines "ps \<equiv> map (place_contest P s now plan) cs"
  shows "mset (map rc_id (in_play ps)) + mset (map rc_id (upcoming ps)) + mset (map (\<lambda>x. rc_id (fst x)) (running_late ps))
      + mset (map (\<lambda>x. rc_id (fst x)) (blocked_contests ps)) = mset (map lct_id (filter (\<lambda>c. \<not> settled (status_of s (lct_id c))) cs))"
  unfolding ps_def
proof (induction cs)
  case (Cons c cs)
  show ?case
    by (cases rule: place_cases [of P s now plan c]) (use Cons in \<open>simp_all add: map_filter_simps\<close>)
qed (simp add: map_filter_simps)

text \<open>
  The control room is complete: its four lists of open contests are, together, exactly the
  contests of the definition that are not settled, each once, and what it reports as unreported
  are the settled contests without a result receipt.
\<close>

theorem control_room_partition:
  assumes "derive_control_room P s now plan = Inr room"
  shows "mset (map rc_id (ctl_now room @ ctl_next room @ map fst (ctl_late room) @ map fst (ctl_blocked room)))
      = mset (map lct_id (filter (\<lambda>c. \<not> settled (status_of s (lct_id c))) (ldf_contests (lst_definition s))))
    \<and> mset (map rc_id (ctl_unreported room)) = mset (map lct_id (filter (unreported s) (ldf_contests (lst_definition s))))"
proof -
  let ?ps = "map (place_contest P s now plan) (ldf_contests (lst_definition s))"
  have f: "mset (ctl_now room) = mset (in_play ?ps)" "mset (ctl_next room) = mset (upcoming ?ps)"
    "mset (ctl_late room) = mset (running_late ?ps)" "mset (ctl_blocked room) = mset (blocked_contests ?ps)"
    "mset (ctl_unreported room) = mset (map (room_contest_of s) (filter (unreported s) (ldf_contests (lst_definition s))))"
    using assms by (auto simp: derive_control_room_def Let_def split: if_splits)
  have ids: "mset (map rc_id (ctl_now room)) = mset (map rc_id (in_play ?ps))"
    "mset (map rc_id (ctl_next room)) = mset (map rc_id (upcoming ?ps))"
    "mset (map rc_id (map fst (ctl_late room))) = mset (map (\<lambda>x. rc_id (fst x)) (running_late ?ps))"
    "mset (map rc_id (map fst (ctl_blocked room))) = mset (map (\<lambda>x. rc_id (fst x)) (blocked_contests ?ps))"
    "mset (map rc_id (ctl_unreported room)) = mset (map lct_id (filter (unreported s) (ldf_contests (lst_definition s))))"
    unfolding mset_map f by (simp_all only: mset_map [symmetric] map_map o_def room_id)
  show ?thesis
    unfolding map_append mset_append ids using places_partition [of P s now plan "ldf_contests (lst_definition s)"] by (simp only: ac_simps)
qed

section \<open>A small tournament\<close>

definition zeros :: string where
  "zeros = replicate 64 (CHR ''0'')"

definition live_platform :: platform where
  "live_platform = sample_platform\<lparr>sha256 := \<lambda>_. zeros\<rparr>"

definition sample_match :: live_contest where
  "sample_match = \<lparr>lct_id = ''c'', lct_entrants = [''a''], lct_fixed = None, lct_resolution = None, lct_court = ''k'', lct_official = None,
     lct_equipment = Some [], lct_depends = Some [], lct_start = ''T5'', lct_end = ''T9''\<rparr>"

definition sample_plan :: live_definition where
  "sample_plan = \<lparr>ldf_tournament = ''t'', ldf_tolerance = Some (Num 5), ldf_courts = [''k''], ldf_officials = Some [],
     ldf_equipment = Some [], ldf_contests = [sample_match]\<rparr>"

definition sample_floor :: "nat \<Rightarrow> live_event list \<Rightarrow> (string, presence) omap \<Rightarrow> contest_state \<Rightarrow> (string, string) omap \<Rightarrow> live_state" where
  "sample_floor n es pr x fps = \<lparr>lst_definition = sample_plan, lst_version = n,
     lst_last = (if es = [] then None else Some (lev_hash (last es))), lst_events = es, lst_presence = pr, lst_contests = [(''c'', x)],
     lst_resolved = [(''c'', [''a''])], lst_courts = all_available [''k''], lst_officials = [], lst_equipment = [], lst_protests = [],
     lst_appeals = [], lst_fingerprints = fps, lst_proof = zeros\<rparr>"

definition open_match :: contest_state where
  "open_match = no_contest\<lparr>cst_status := Some StScheduled\<rparr>"

definition sample_live_event :: "nat \<Rightarrow> string option \<Rightarrow> string \<Rightarrow> event_data \<Rightarrow> live_event" where
  "sample_live_event n prev i d = \<lparr>lev_id = ''live_evt_'' @ take 24 zeros, lev_hash = zeros, lev_previous = prev, lev_sequence = n,
     lev_tournament = ''t'', lev_command = i, lev_fingerprint = zeros, lev_actor = ''u'', lev_at = ''T5'', lev_data = d\<rparr>"

definition check_in_event :: live_event where
  "check_in_event = sample_live_event 1 None ''x'' (EntrantCheckedIn ''a'')"

definition start_event :: live_event where
  "start_event = sample_live_event 2 (Some zeros) ''y'' (ContestStarted ''c'' ''k'' ''T5'')"

definition floor_0 :: live_state where
  "floor_0 = sample_floor 0 [] [] open_match []"

definition floor_1 :: live_state where
  "floor_1 = sample_floor 1 [check_in_event] [(''a'', CheckedIn)] open_match [(''x'', zeros)]"

definition floor_2 :: live_state where
  "floor_2 = sample_floor 2 [check_in_event, start_event] [(''a'', CheckedIn)]
     (open_match\<lparr>cst_status := Some StInProgress, cst_court := Some ''k'', cst_start := Some ''T5''\<rparr>) [(''x'', zeros), (''y'', zeros)]"

definition check_in :: live_command where
  "check_in = \<lparr>cmd_id = ''x'', cmd_expected = Num 0, cmd_actor = ''u'', cmd_at = ''T5'', cmd_body = CheckIn ''a''\<rparr>"

definition start_now :: live_command where
  "start_now = \<lparr>cmd_id = ''y'', cmd_expected = Num (of_nat 1), cmd_actor = ''u'', cmd_at = ''T5'', cmd_body = StartContest ''c'' ''k'' ''T5''\<rparr>"

lemma hash_plain: "plain v \<Longrightarrow> hash_live live_platform v = Inr zeros"
  by (simp add: hash_live_def canonical_hash_def canonical_stringify_def normalise_normal_form) (simp add: live_platform_def)

lemma live_platform_digest: "is_digest (sha256 live_platform s)"
  by (simp add: live_platform_def is_digest_def zeros_def hex_lower_def list_all_iff)

lemma live_platform_collation: "comparator (locale_compare live_platform)"
  using sample_collation by (simp add: live_platform_def strict_comparator_def)

lemma sample_instants: "canonical_timestamp live_platform ''T5''" "canonical_timestamp live_platform ''T9''"
  "date_parse live_platform ''T5'' = Some 5" "date_parse live_platform ''T9'' = Some 9"
  by (simp_all add: canonical_timestamp_def live_platform_def sample_platform_def sample_date_parse_def sample_iso_string_def
      digits_of.simps digit_chars)

lemma sample_words: "\<not> blank ''t''" "\<not> blank ''a''" "\<not> blank ''c''" "\<not> blank ''x''" "\<not> blank ''y''" "\<not> blank ''u''"
  by (simp_all add: blank_iff is_space_def)

lemma sample_plan_normal: "normal_definition live_platform sample_plan = sample_plan"
  by (simp add: normal_definition_def sample_plan_def sample_match_def normal_contest_def)

lemma sample_plan_ok: "definition_ok live_platform sample_plan"
  by (simp add: definition_ok_def sample_plan_def sample_match_def contest_invalid_def tolerance_ok_def sample_words sample_instants
      date_le_def)

lemma plain_sample_event: "plain (live_event_json check_in_event)" "plain (live_event_json start_event)"
  by (simp_all add: live_event_json_def event_base_fields_def check_in_event_def start_event_def sample_live_event_def)

lemma plain_floor: "plain (live_state_json floor_0)" "plain (live_state_json floor_1)" "plain (live_state_json floor_2)"
  using plain_sample_event
  by (simp_all add: live_state_json_def floor_0_def floor_1_def floor_2_def sample_floor_def live_definition_json_def sample_plan_def
      live_contest_json_def sample_match_def opt_field_def strings_json_def dict_json_def availability_json_def all_available_def
      omap_of_def contest_state_json_def open_match_def no_contest_def)

lemma sample_created: "create_live_state live_platform sample_plan = Inr floor_0"
proof -
  have v: "validated_definition live_platform sample_plan = Inr sample_plan"
    by (simp add: validated_definition_iff sample_plan_ok sample_plan_normal)
  have i: "initial_state sample_plan = floor_0\<lparr>lst_proof := []\<rparr>"
    by (simp add: initial_state_def floor_0_def sample_floor_def sample_plan_def sample_match_def open_match_def omap_of_def
        initial_entrants_def all_available_def)
  have "live_state_json (initial_state sample_plan) = live_state_json floor_0" by (simp add: i live_state_json_def)
  then show ?thesis
    by (simp add: create_live_state_def v freeze_state_def hash_plain plain_floor) (simp add: i floor_0_def sample_floor_def)
qed

lemma sample_projected:
  "project live_platform sample_plan [check_in_event] = Inr floor_1"
  "project live_platform sample_plan [check_in_event, start_event] = Inr floor_2"
proof -
  have none: "superseded [check_in_event] = []" "superseded [check_in_event, start_event] = []"
    by (simp_all add: superseded_def map_filter_simps check_in_event_def start_event_def sample_live_event_def)
  have one: "apply_event live_platform [] check_in_event floor_0 = Inr (sample_floor 0 [] [(''a'', CheckedIn)] open_match [(''x'', zeros)])"
    by (simp add: apply_event_def check_in_event_def sample_live_event_def floor_0_def sample_floor_def)
  have two: "apply_event live_platform [] start_event (sample_floor 0 [] [(''a'', CheckedIn)] open_match [(''x'', zeros)])
      = Inr (sample_floor 0 [] [(''a'', CheckedIn)] (open_match\<lparr>cst_status := Some StInProgress, cst_court := Some ''k'', cst_start := Some ''T5''\<rparr>)
          [(''x'', zeros), (''y'', zeros)])"
    by (simp add: apply_event_def start_event_def sample_live_event_def sample_floor_def set_contest_def contest_at_def)
  have freeze: "freeze_state live_platform s = Inr t" if "live_state_json s = live_state_json t" "plain (live_state_json t)" "s\<lparr>lst_proof := zeros\<rparr> = t" for s t
    using that by (simp add: freeze_state_def hash_plain)
  have "freeze_state live_platform ((sample_floor 0 [] [(''a'', CheckedIn)] open_match [(''x'', zeros)])\<lparr>lst_version := 1, lst_last := Some zeros,
      lst_events := [check_in_event]\<rparr>) = Inr floor_1"
    by (rule freeze [OF _ plain_floor(2)])
      (simp_all add: floor_1_def sample_floor_def check_in_event_def sample_live_event_def live_state_json_def)
  then show "project live_platform sample_plan [check_in_event] = Inr floor_1"
    by (simp add: project_def sample_created none one) (simp add: check_in_event_def sample_live_event_def)
  have "freeze_state live_platform ((sample_floor 0 [] [(''a'', CheckedIn)] (open_match\<lparr>cst_status := Some StInProgress, cst_court := Some ''k'',
      cst_start := Some ''T5''\<rparr>) [(''x'', zeros), (''y'', zeros)])\<lparr>lst_version := 2, lst_last := Some zeros,
      lst_events := [check_in_event, start_event]\<rparr>) = Inr floor_2"
    by (rule freeze [OF _ plain_floor(3)])
      (simp_all add: floor_2_def sample_floor_def start_event_def sample_live_event_def live_state_json_def)
  then show "project live_platform sample_plan [check_in_event, start_event] = Inr floor_2"
    by (simp add: project_def sample_created none one two numeral_2_eq_2) (simp add: start_event_def sample_live_event_def)
qed

lemma sample_accepted:
  assumes "plain (JObj (event_base_fields (sample_live_event (lst_version st + 1) (lst_last st) (cmd_id c) (command_event live_platform (cmd_body c)))))"
    and "ldf_tournament (lst_definition st) = ''t''" "cmd_actor c = ''u''" "cmd_at c = ''T5''"
  shows "accepted_event live_platform st c zeros = Inr (sample_live_event (lst_version st + 1) (lst_last st) (cmd_id c) (command_event live_platform (cmd_body c)))"
proof -
  have "plain (JObj (event_base_fields (e\<lparr>lev_id := i, lev_hash := h\<rparr>))) = plain (JObj (event_base_fields e))" for e i h
    by (simp add: event_base_fields_def)
  then show ?thesis
    using assms by (simp add: accepted_event_def Let_def hash_plain sample_live_event_def event_base_fields_def identified_event_json_def)
qed

lemma sample_submitted:
  "submit live_platform floor_0 check_in
     = Inr \<lparr>lr_accepted = True, lr_replay = False, lr_state = floor_1, lr_events = [check_in_event], lr_findings = []\<rparr>"
  "submit live_platform floor_1 start_now
     = Inr \<lparr>lr_accepted = True, lr_replay = False, lr_state = floor_2, lr_events = [start_event], lr_findings = []\<rparr>"
proof -
  have ev: "plain (JObj (event_base_fields check_in_event))" "plain (JObj (event_base_fields start_event))"
    by (simp_all add: event_base_fields_def check_in_event_def start_event_def sample_live_event_def)
  have a: "accepted_event live_platform floor_0 check_in zeros = Inr check_in_event"
    using sample_accepted [of floor_0 check_in] ev(1)
    by (simp add: floor_0_def sample_floor_def check_in_def check_in_event_def sample_plan_def)
  have b: "accepted_event live_platform floor_1 start_now zeros = Inr start_event"
    using sample_accepted [of floor_1 start_now] ev(2)
    by (simp add: floor_1_def sample_floor_def start_now_def start_event_def sample_plan_def check_in_event_def sample_live_event_def numeral_2_eq_2)
  have cmd: "hash_live live_platform (command_json check_in) = Inr zeros" "hash_live live_platform (command_json start_now) = Inr zeros"
    by (simp_all add: hash_plain command_json_def check_in_def start_now_def)
  have fa: "submit_findings live_platform floor_0 check_in = []"
    by (simp add: submit_findings_def audit_findings_def resource_findings_def contest_findings_def check_in_def floor_0_def sample_floor_def
        known_entrants_def sample_plan_def sample_match_def sample_words sample_instants)
  have fb: "submit_findings live_platform floor_1 start_now = []"
    by (simp add: submit_findings_def audit_findings_def resource_findings_def contest_findings_def start_now_def floor_1_def sample_floor_def
        known_entrants_def sample_plan_def sample_match_def sample_words sample_instants defined_contest_def start_findings_def Let_def
        effective_entrants_def status_of_def open_match_def no_contest_def court_closed_at_def all_available_def omap_of_def occupying_def)
  have p: "lst_definition floor_0 = sample_plan" "lst_events floor_0 = []" "lst_fingerprints floor_0 = []"
    "lst_definition floor_1 = sample_plan" "lst_events floor_1 = [check_in_event]" "omap_get (lst_fingerprints floor_1) ''y'' = None"
    "cmd_id check_in = ''x''" "cmd_id start_now = ''y''"
    by (simp_all add: floor_0_def floor_1_def sample_floor_def check_in_def start_now_def)
  show "submit live_platform floor_0 check_in
     = Inr \<lparr>lr_accepted = True, lr_replay = False, lr_state = floor_1, lr_events = [check_in_event], lr_findings = []\<rparr>"
    by (simp add: submit_def cmd p fa a sample_projected)
  show "submit live_platform floor_1 start_now
     = Inr \<lparr>lr_accepted = True, lr_replay = False, lr_state = floor_2, lr_events = [start_event], lr_findings = []\<rparr>"
    by (simp add: submit_def cmd p fb b sample_projected)
qed

lemma sample_reached:
  "live_reach live_platform sample_plan floor_0" "live_reach live_platform sample_plan floor_1" "live_reach live_platform sample_plan floor_2"
proof -
  show "live_reach live_platform sample_plan floor_0" by (rule live_reach.created) (rule sample_created)
  from live_reach.submitted [OF this sample_submitted(1)] show "live_reach live_platform sample_plan floor_1" by simp
  from live_reach.submitted [OF this sample_submitted(2)] show "live_reach live_platform sample_plan floor_2" by simp
qed

lemma floor_1_log: "superseded (lst_events floor_1) = []" "superseded (lst_events floor_2) = []"
  by (simp_all add: floor_1_def floor_2_def sample_floor_def superseded_def map_filter_simps check_in_event_def start_event_def sample_live_event_def)

theorem live_log_replays_witness:
  "replay_events live_platform sample_plan [check_in_event, start_event] = Inr \<lparr>lrp_valid = True, lrp_state = floor_2, lrp_findings = []\<rparr>"
proof -
  have "lst_events floor_2 = [check_in_event, start_event]" by (simp add: floor_2_def sample_floor_def)
  with live_log_replays [OF sample_reached(3) live_platform_collation live_platform_digest] show ?thesis by simp
qed

theorem contest_lifecycle_witness:
  "lifecycle (status_of floor_1 ''c'') (status_of floor_2 ''c'') \<and> status_of floor_1 ''c'' = Some StScheduled
     \<and> status_of floor_2 ''c'' = Some StInProgress"
  using contest_lifecycle [OF sample_reached(2) live_platform_collation live_platform_digest sample_submitted(2), of "''c''"] floor_1_log
  by (simp add: start_now_def floor_1_def floor_2_def sample_floor_def status_of_def open_match_def)

theorem live_floor_safe_witness: "floor_ok floor_2 \<and> status_of floor_2 ''c'' = Some StInProgress"
  using live_floor_safe [OF sample_reached(3) live_platform_collation live_platform_digest floor_1_log(2)]
  by (simp add: floor_2_def sample_floor_def status_of_def)

theorem submission_idempotent_witness:
  "submit live_platform floor_2 (start_now\<lparr>cmd_expected := Num 7\<rparr>)
     = Inr \<lparr>lr_accepted = True, lr_replay = True, lr_state = floor_2, lr_events = [], lr_findings = []\<rparr>"
  using submission_idempotent [OF sample_reached(2) live_platform_collation live_platform_digest sample_submitted(2), of "Num 7"] by simp

lemma sample_room: "derive_control_room live_platform floor_1 ''T5'' [] = Inr \<lparr>ctl_at = ''T5'', ctl_version = 1, ctl_now = [],
    ctl_next = [\<lparr>rc_id = ''c'', rc_start = ''T5'', rc_court = ''k''\<rparr>], ctl_late = [], ctl_blocked = [], ctl_unreported = []\<rparr>"
  by (simp add: derive_control_room_def sample_instants floor_1_def sample_floor_def sample_plan_def sample_match_def place_contest_def
      in_force_def room_contest_of_def block_reasons_def Let_def status_of_def open_match_def no_contest_def contest_at_def minutes_late_def
      over_tolerance_def effective_entrants_def reason_when_def court_closed_at_def all_available_def omap_of_def map_filter_simps unreported_def)

theorem due_contest_can_start_witness:
  "submit_findings live_platform floor_1 start_now = []"
  using due_contest_can_start [OF sample_reached(2) live_platform_collation live_platform_digest sample_room,
      of "\<lparr>rc_id = ''c'', rc_start = ''T5'', rc_court = ''k''\<rparr>" "''y''" "''u''"] sample_words
  by (simp add: start_now_def) (simp add: floor_1_def sample_floor_def occupying_def open_match_def no_contest_def)

theorem control_room_partition_witness:
  "mset (map lct_id (filter (\<lambda>c. \<not> settled (status_of floor_1 (lct_id c))) (ldf_contests (lst_definition floor_1)))) = {#''c''#}"
  using control_room_partition [OF sample_room] by simp

end
