(* ===== verification/ProtocolChecker.thy ===== *)
theory ProtocolChecker
  imports JsonValue
begin

text \<open>
  packages/competition-engine/src/protocol-model-checker.ts: the bounded breadth-first model checker
  and the three protocol models that the engine checks with it.

  \<^item> A protocol model is a record of functions, as in the code; \<open>pm_json\<close> is the JSON value of a
    state, which the proof hash covers. A disabled action is \<open>None\<close>.
  \<^item> The queue loop ends because the depth of its items is bounded (\<open>queue_weight\<close>).
  \<^item> \<open>bounded_check_exact\<close>: an invariant is reported exactly when a state within the bound violates it,
    with a shortest execution to such a state. The locale \<open>safe_protocol\<close> gives VERIFIED from an inductive invariant;
    it is interpreted on the three models.
\<close>

section \<open>Models and results\<close>

record ('s, 'a) protocol_model =
  pm_id :: string
  pm_initial :: 's
  pm_actions :: "'a list"
  pm_state_key :: "'s \<Rightarrow> string"
  pm_action_key :: "'a \<Rightarrow> string"
  pm_transition :: "'s \<Rightarrow> 'a \<Rightarrow> 's option"
  pm_invariants :: "(string \<times> ('s \<Rightarrow> bool)) list"
  pm_json :: "'s \<Rightarrow> jsval"

record 's protocol_violation =
  vi_invariant :: string
  vi_depth :: nat
  vi_trace :: "string list"
  vi_state :: 's

datatype check_status = Verified | Violated

record 's check_result =
  mr_id :: string
  mr_status :: check_status
  mr_depth :: nat
  mr_states :: nat
  mr_transitions :: nat
  mr_violations :: "'s protocol_violation list"
  mr_proof :: string

datatype checker_error = InvalidModel | CheckerHash json_error

section \<open>Breadth-first search\<close>

type_synonym 's search_item = "'s \<times> string list \<times> nat"

record 's search_state =
  ss_queue :: "'s search_item list"
  ss_visited :: "string list"
  ss_violations :: "(string, 's protocol_violation) omap"
  ss_count :: nat

text \<open>\<^verbatim>\<open>inspect\<close>\<close>

definition note_violation :: "'s \<Rightarrow> string list \<Rightarrow> nat \<Rightarrow> (string, 's protocol_violation) omap
    \<Rightarrow> string \<times> ('s \<Rightarrow> bool) \<Rightarrow> (string, 's protocol_violation) omap" where
  "note_violation s trace depth vs x = (case x of (i, holds) \<Rightarrow>
     if \<not> holds s \<and> \<not> omap_has vs i
     then omap_set i \<lparr>vi_invariant = i, vi_depth = depth, vi_trace = trace, vi_state = s\<rparr> vs else vs)"

definition inspect :: "('s, 'a) protocol_model \<Rightarrow> 's \<Rightarrow> string list \<Rightarrow> nat
    \<Rightarrow> (string, 's protocol_violation) omap \<Rightarrow> (string, 's protocol_violation) omap" where
  "inspect M s trace depth vs = foldl (note_violation s trace depth) vs (pm_invariants M)"

text \<open>One action from the current item.\<close>

definition explore :: "('s, 'a) protocol_model \<Rightarrow> 's search_item \<Rightarrow> 'a \<Rightarrow> 's search_state \<Rightarrow> 's search_state" where
  "explore M cur a st = (case cur of (s, trace, depth) \<Rightarrow>
     (case pm_transition M s a of
        None \<Rightarrow> st
      | Some t \<Rightarrow>
          (let trace' = trace @ [pm_action_key M a];
               st' = st\<lparr>ss_count := ss_count st + 1, ss_violations := inspect M t trace' (depth + 1) (ss_violations st)\<rparr>;
               key = pm_state_key M t
           in if List.member (ss_visited st) key then st'
              else st'\<lparr>ss_visited := ss_visited st @ [key], ss_queue := ss_queue st @ [(t, trace', depth + 1)]\<rparr>)))"

definition expand :: "('s, 'a) protocol_model \<Rightarrow> 'a list \<Rightarrow> 's search_item \<Rightarrow> 's search_state \<Rightarrow> 's search_state" where
  "expand M acts cur st = foldl (\<lambda>st a. explore M cur a st) st acts"

text \<open>The weight of a queue: an item at depth \<open>d\<close> is replaced by at most one item per action at depth \<open>d + 1\<close>.\<close>

definition queue_weight :: "nat \<Rightarrow> nat \<Rightarrow> 's search_item list \<Rightarrow> nat" where
  "queue_weight n bound q = sum_list (map (\<lambda>(_, _, d). (n + 1) ^ (bound + 1 - d)) q)"

lemma explore_queue: "\<exists>xs. ss_queue (explore M (s, tr, d) a st) = ss_queue st @ xs \<and> length xs \<le> 1 \<and> (\<forall>x \<in> set xs. snd (snd x) = d + 1)"
  by (auto simp: explore_def Let_def split: option.splits)

lemma expand_queue: "\<exists>xs. ss_queue (expand M acts (s, tr, d) st) = ss_queue st @ xs \<and> length xs \<le> length acts \<and> (\<forall>x \<in> set xs. snd (snd x) = d + 1)"
proof (induction acts rule: rev_induct)
  case (snoc a acts)
  let ?u = "expand M acts (s, tr, d) st"
  obtain xs where xs: "ss_queue ?u = ss_queue st @ xs" "length xs \<le> length acts" "\<forall>x \<in> set xs. snd (snd x) = d + 1"
    using snoc by blast
  obtain ys where ys: "ss_queue (explore M (s, tr, d) a ?u) = ss_queue ?u @ ys" "length ys \<le> 1" "\<forall>y \<in> set ys. snd (snd y) = d + 1"
    using explore_queue [of M s tr d a ?u] by blast
  have "expand M (acts @ [a]) (s, tr, d) st = explore M (s, tr, d) a ?u" by (simp add: expand_def)
  then have "ss_queue (expand M (acts @ [a]) (s, tr, d) st) = ss_queue st @ (xs @ ys)" using xs(1) ys(1) by simp
  moreover have "length (xs @ ys) \<le> length (acts @ [a])" using xs(2) ys(2) by simp
  moreover have "\<forall>x \<in> set (xs @ ys). snd (snd x) = d + 1" using xs(3) ys(3) by auto
  ultimately show ?case by blast
qed (simp add: expand_def)

lemma queue_weight_append: "queue_weight n b (xs @ ys) = queue_weight n b xs + queue_weight n b ys"
  by (simp add: queue_weight_def)

lemma queue_weight_uniform: "\<forall>x \<in> set xs. snd (snd x) = d \<Longrightarrow> queue_weight n b xs = length xs * (n + 1) ^ (b + 1 - d)"
  by (induction xs) (auto simp: queue_weight_def)

lemma expand_weight:
  assumes "\<not> bound \<le> snd (snd cur)"
  shows "queue_weight (length acts) bound (ss_queue (expand M acts cur (st\<lparr>ss_queue := rest\<rparr>)))
    < queue_weight (length acts) bound (cur # rest)"
proof -
  obtain s tr d where cur: "cur = (s, tr, d)" by (cases cur) auto
  then have d: "d < bound" using assms by simp
  obtain xs where xs: "ss_queue (expand M acts cur (st\<lparr>ss_queue := rest\<rparr>)) = rest @ xs" "length xs \<le> length acts" "\<forall>x \<in> set xs. snd (snd x) = d + 1"
    using expand_queue [of M acts s tr d "st\<lparr>ss_queue := rest\<rparr>"] by (auto simp: cur)
  have "queue_weight (length acts) bound xs = length xs * (length acts + 1) ^ (bound - d)"
    using queue_weight_uniform [OF xs(3)] by simp
  also have "\<dots> \<le> length acts * (length acts + 1) ^ (bound - d)" using xs(2) by simp
  also have "\<dots> < (length acts + 1) ^ (bound + 1 - d)" using d by (simp add: Suc_diff_le)
  finally show ?thesis unfolding xs(1) queue_weight_append by (simp add: queue_weight_def cur)
qed

function (sequential) search :: "('s, 'a) protocol_model \<Rightarrow> 'a list \<Rightarrow> nat \<Rightarrow> 's search_state \<Rightarrow> 's search_state" where
  "search M acts bound st =
     (case ss_queue st of
        [] \<Rightarrow> st
      | cur # rest \<Rightarrow>
          if bound \<le> snd (snd cur) then search M acts bound (st\<lparr>ss_queue := rest\<rparr>)
          else search M acts bound (expand M acts cur (st\<lparr>ss_queue := rest\<rparr>)))"
  by pat_completeness auto

termination
proof (relation "measure (\<lambda>(M, acts, bound, st). queue_weight (length acts) bound (ss_queue st))", goal_cases)
  case (2 M acts bound st cur rest)
  then show ?case by (cases cur) (simp add: queue_weight_def)
next
  case (3 M acts bound st cur rest)
  then show ?case using expand_weight [where st = st and rest = rest] by simp
qed simp

declare search.simps [simp del]

section \<open>The check\<close>

definition checker_actions :: "platform \<Rightarrow> ('s, 'a) protocol_model \<Rightarrow> 'a list" where
  "checker_actions P M = sort_by (\<lambda>a b. locale_compare P (pm_action_key M a) (pm_action_key M b)) (pm_actions M)"

definition run_search :: "platform \<Rightarrow> ('s, 'a) protocol_model \<Rightarrow> nat \<Rightarrow> 's search_state" where
  "run_search P M bound =
     (let s = pm_initial M
      in search M (checker_actions P M) bound \<lparr>ss_queue = [(s, [], 0)], ss_visited = [pm_state_key M s],
           ss_violations = inspect M s [] 0 [], ss_count = 0\<rparr>)"

definition violation_order :: "platform \<Rightarrow> 's protocol_violation \<Rightarrow> 's protocol_violation \<Rightarrow> int" where
  "violation_order P v w = or_else (num_cmp (vi_depth v) (vi_depth w))
     (or_else (locale_compare P (vi_invariant v) (vi_invariant w))
        (locale_compare P (join ''|'' (vi_trace v)) (join ''|'' (vi_trace w))))"

fun check_status_text :: "check_status \<Rightarrow> string" where
  "check_status_text Verified = ''VERIFIED''"
| "check_status_text Violated = ''VIOLATED''"

definition violation_value :: "('s, 'a) protocol_model \<Rightarrow> 's protocol_violation \<Rightarrow> jsval" where
  "violation_value M v = JObj [(''invariantId'', JStr (vi_invariant v)), (''depth'', JNum (Num (of_nat (vi_depth v)))),
     (''actionTrace'', JArr (map JStr (vi_trace v))), (''state'', pm_json M (vi_state v))]"

definition check_fields :: "('s, 'a) protocol_model \<Rightarrow> 's check_result \<Rightarrow> (string \<times> jsval) list" where
  "check_fields M r = [(''modelId'', JStr (mr_id r)), (''status'', JStr (check_status_text (mr_status r))),
     (''maxDepth'', JNum (Num (of_nat (mr_depth r)))), (''exploredStateCount'', JNum (Num (of_nat (mr_states r)))),
     (''exploredTransitionCount'', JNum (Num (of_nat (mr_transitions r)))),
     (''violations'', JArr (map (violation_value M) (mr_violations r)))]"

definition valid_model :: "('s, 'a) protocol_model \<Rightarrow> jsnum \<Rightarrow> bool" where
  "valid_model M max_depth = (\<not> blank (pm_id M) \<and> (case js_integer max_depth of None \<Rightarrow> False | Some d \<Rightarrow> 0 \<le> d)
     \<and> pm_actions M \<noteq> [] \<and> pm_invariants M \<noteq> [] \<and> distinct (map fst (pm_invariants M)))"

definition bounded_model_check :: "platform \<Rightarrow> ('s, 'a) protocol_model \<Rightarrow> jsnum \<Rightarrow> (checker_error, 's check_result) result" where
  "bounded_model_check P M max_depth =
     (if \<not> valid_model M max_depth then Inl InvalidModel
      else
        (let bound = (case js_integer max_depth of None \<Rightarrow> 0 | Some d \<Rightarrow> nat d);
             st = run_search P M bound;
             vs = sort_by (violation_order P) (map snd (ss_violations st));
             r = \<lparr>mr_id = pm_id M, mr_status = (if vs \<noteq> [] then Violated else Verified), mr_depth = bound,
               mr_states = length (ss_visited st), mr_transitions = ss_count st, mr_violations = vs, mr_proof = []\<rparr>
         in (case canonical_hash P (JObj (check_fields M r)) of
               Inl e \<Rightarrow> Inl (CheckerHash e)
             | Inr h \<Rightarrow> Inr (r\<lparr>mr_proof := h\<rparr>))))"

section \<open>Executions\<close>

text \<open>The states that a sequence of actions leads to, and its trace of action keys.\<close>

inductive execution :: "('s, 'a) protocol_model \<Rightarrow> string list \<Rightarrow> 's \<Rightarrow> bool" for M where
  start: "execution M [] (pm_initial M)"
| step: "execution M tr s \<Longrightarrow> a \<in> set (pm_actions M) \<Longrightarrow> pm_transition M s a = Some t \<Longrightarrow> execution M (tr @ [pm_action_key M a]) t"

lemma set_checker_actions [simp]: "set (checker_actions P M) = set (pm_actions M)"
  by (simp add: checker_actions_def)

subsection \<open>What an inspection records\<close>

lemma note_violation_old: "omap_get vs i = Some v \<Longrightarrow> omap_get (note_violation s tr d vs x) i = Some v"
  by (cases x) (auto simp: note_violation_def omap_has_def)

lemma notes_old: "omap_get vs i = Some v \<Longrightarrow> omap_get (foldl (note_violation s tr d) vs xs) i = Some v"
  by (induction xs arbitrary: vs) (auto intro: note_violation_old)

lemma inspect_old: "omap_get vs i = Some v \<Longrightarrow> omap_get (inspect M s tr d vs) i = Some v"
  by (simp add: inspect_def notes_old)

lemma notes_entry:
  "(i, v) \<in> set (foldl (note_violation s tr d) vs xs) \<Longrightarrow> (i, v) \<in> set vs
    \<or> v = \<lparr>vi_invariant = i, vi_depth = d, vi_trace = tr, vi_state = s\<rparr> \<and> (\<exists>holds. (i, holds) \<in> set xs \<and> \<not> holds s)"
proof (induction xs arbitrary: vs)
  case (Cons x xs)
  obtain j h where x: "x = (j, h)" by force
  have "(i, v) \<in> set (note_violation s tr d vs x) \<Longrightarrow> (i, v) \<in> set vs
      \<or> v = \<lparr>vi_invariant = i, vi_depth = d, vi_trace = tr, vi_state = s\<rparr> \<and> j = i \<and> \<not> h s"
    by (auto simp: note_violation_def x omap_has_def omap_get_None omap_set_new split: if_splits)
  moreover have "(i, v) \<in> set (note_violation s tr d vs x) \<or>
      v = \<lparr>vi_invariant = i, vi_depth = d, vi_trace = tr, vi_state = s\<rparr> \<and> (\<exists>holds. (i, holds) \<in> set xs \<and> \<not> holds s)"
    by (rule Cons.IH) (use Cons.prems in simp)
  ultimately show ?case using x by fastforce
qed simp

lemma inspect_entry:
  assumes "(i, v) \<in> set (inspect M s tr d vs)"
  shows "(i, v) \<in> set vs \<or> v = \<lparr>vi_invariant = i, vi_depth = d, vi_trace = tr, vi_state = s\<rparr> \<and> (\<exists>holds. (i, holds) \<in> set (pm_invariants M) \<and> \<not> holds s)"
  by (rule notes_entry [OF assms [unfolded inspect_def]])

lemma inspect_wf: "omap_wf vs \<Longrightarrow> omap_wf (inspect M s tr d vs)"
proof -
  have "omap_wf vs \<Longrightarrow> omap_wf (foldl (note_violation s tr d) vs xs)" for xs
    by (induction xs arbitrary: vs) (auto simp: note_violation_def omap_wf_set)
  then show "omap_wf vs \<Longrightarrow> ?thesis" by (simp add: inspect_def)
qed

lemma notes_complete: "(i, holds) \<in> set xs \<Longrightarrow> \<not> holds s \<Longrightarrow> omap_get (foldl (note_violation s tr d) vs xs) i \<noteq> None"
proof (induction xs arbitrary: vs)
  case (Cons x xs)
  show ?case
  proof (cases "(i, holds) \<in> set xs")
    case False
    then have "x = (i, holds)" using Cons.prems by simp
    then have "omap_get (note_violation s tr d vs x) i \<noteq> None"
      using Cons.prems(2) by (auto simp: note_violation_def omap_has_def)
    then obtain v where "omap_get (note_violation s tr d vs x) i = Some v" by blast
    from notes_old [OF this] show ?thesis by simp
  qed (simp add: Cons)
qed simp

lemma inspect_complete:
  "(i, holds) \<in> set (pm_invariants M) \<Longrightarrow> \<not> holds s \<Longrightarrow> omap_get (inspect M s tr d vs) i \<noteq> None"
  unfolding inspect_def by (rule notes_complete)

subsection \<open>The invariant of the search\<close>

text \<open>
  \<open>X\<close> are the states found so far, with the depth at which they were found; \<open>n\<close> is the depth of the
  item that is being expanded.
\<close>

definition found_sound :: "('s, 'a) protocol_model \<Rightarrow> nat \<Rightarrow> ('s \<times> nat) set \<Rightarrow> 's search_state \<Rightarrow> bool" where
  "found_sound M n X st \<longleftrightarrow> finite X \<and> inj_on (pm_state_key M \<circ> fst) X \<and> set (ss_visited st) = (pm_state_key M \<circ> fst) ` X
     \<and> distinct (ss_visited st) \<and> (\<forall>x \<in> X. snd x \<le> n + 1 \<and> (\<exists>tr. execution M tr (fst x) \<and> length tr = snd x))"

definition queue_sound :: "('s, 'a) protocol_model \<Rightarrow> nat \<Rightarrow> ('s \<times> nat) set \<Rightarrow> 's search_state \<Rightarrow> bool" where
  "queue_sound M n X st \<longleftrightarrow> sorted (map (snd \<circ> snd) (ss_queue st))
     \<and> (\<forall>(s, tr, d) \<in> set (ss_queue st). n \<le> d \<and> d \<le> n + 1 \<and> (s, d) \<in> X \<and> execution M tr s \<and> length tr = d)"

definition violations_sound :: "('s, 'a) protocol_model \<Rightarrow> nat \<Rightarrow> ('s \<times> nat) set \<Rightarrow> 's search_state \<Rightarrow> bool" where
  "violations_sound M n X st \<longleftrightarrow> omap_wf (ss_violations st) \<and>
     (\<forall>(i, v) \<in> set (ss_violations st). vi_invariant v = i \<and> vi_depth v \<le> n + 1 \<and> execution M (vi_trace v) (vi_state v)
        \<and> length (vi_trace v) = vi_depth v \<and> (\<exists>holds. (i, holds) \<in> set (pm_invariants M) \<and> \<not> holds (vi_state v))
        \<and> pm_state_key M (vi_state v) \<in> (pm_state_key M \<circ> fst) ` X)
     \<and> (\<forall>x \<in> X. \<forall>(i, holds) \<in> set (pm_invariants M). \<not> holds (fst x) \<longrightarrow>
         (\<exists>v. omap_get (ss_violations st) i = Some v \<and> vi_depth v \<le> snd x))"

definition search_inv :: "('s, 'a) protocol_model \<Rightarrow> nat \<Rightarrow> ('s \<times> nat) set \<Rightarrow> 's search_state \<Rightarrow> bool" where
  "search_inv M n X st \<longleftrightarrow> found_sound M n X st \<and> queue_sound M n X st \<and> violations_sound M n X st"

lemma violations_sound_inspect:
  assumes "violations_sound M n X st" "execution M tr t" "length tr = n + 1" "ss_violations st' = inspect M t tr (n + 1) (ss_violations st)"
    and "X' \<subseteq> insert (t, n + 1) X" "X \<subseteq> X'" "pm_state_key M t \<in> (pm_state_key M \<circ> fst) ` X'"
  shows "violations_sound M n X' st'"
proof -
  note old = assms(1) [unfolded violations_sound_def]
  have sound: "vi_invariant v = i \<and> vi_depth v \<le> n + 1 \<and> execution M (vi_trace v) (vi_state v)
        \<and> length (vi_trace v) = vi_depth v \<and> (\<exists>holds. (i, holds) \<in> set (pm_invariants M) \<and> \<not> holds (vi_state v))
        \<and> pm_state_key M (vi_state v) \<in> (pm_state_key M \<circ> fst) ` X'"
    if "(i, v) \<in> set (ss_violations st')" for i v
  proof -
    have "(i, v) \<in> set (ss_violations st) \<or> v = \<lparr>vi_invariant = i, vi_depth = n + 1, vi_trace = tr, vi_state = t\<rparr>
        \<and> (\<exists>holds. (i, holds) \<in> set (pm_invariants M) \<and> \<not> holds t)"
      by (rule inspect_entry [OF that [unfolded assms(4)]])
    then show ?thesis
    proof
      assume "(i, v) \<in> set (ss_violations st)"
      then show ?thesis using old image_mono [OF assms(6), of "pm_state_key M \<circ> fst"] by blast
    qed (use assms(2,3,7) in auto)
  qed
  have "\<exists>v. omap_get (ss_violations st') i = Some v \<and> vi_depth v \<le> snd x"
    if x: "x \<in> X'" "(i, holds) \<in> set (pm_invariants M)" "\<not> holds (fst x)" for x i holds
  proof (cases "x \<in> X")
    case True
    then obtain v where "omap_get (ss_violations st) i = Some v" "vi_depth v \<le> snd x" using old x(2,3) by blast
    then show ?thesis unfolding assms(4) by (intro exI [of _ v]) (simp add: inspect_old)
  next
    case False
    then have new: "x = (t, n + 1)" using x(1) assms(5) by blast
    then obtain v where "omap_get (ss_violations st') i = Some v"
      using inspect_complete [OF x(2), of t] x(3) unfolding assms(4) by fastforce
    then show ?thesis using sound [of i v] new by (auto dest: map_of_SomeD)
  qed
  moreover have "omap_wf (ss_violations st')" using old unfolding assms(4) by (simp add: inspect_wf)
  ultimately show ?thesis using sound unfolding violations_sound_def by blast
qed

lemma explore_step:
  assumes inv: "search_inv M n X st" and cur: "execution M tr s" "length tr = n" and a: "a \<in> set (pm_actions M)"
  obtains X' where "X \<subseteq> X'" "search_inv M n X' (explore M (s, tr, n) a st)"
    "set (ss_queue st) \<subseteq> set (ss_queue (explore M (s, tr, n) a st))"
    "\<forall>x \<in> X' - X. snd x = n + 1 \<and> (\<exists>tr'. (fst x, tr', snd x) \<in> set (ss_queue (explore M (s, tr, n) a st)))"
    "\<forall>t. pm_transition M s a = Some t \<longrightarrow> pm_state_key M t \<in> (pm_state_key M \<circ> fst) ` X'"
proof (cases "pm_transition M s a")
  case None
  then have "explore M (s, tr, n) a st = st" by (simp add: explore_def)
  then show ?thesis using that [of X] inv None by simp
next
  case (Some t)
  let ?tr = "tr @ [pm_action_key M a]" and ?e = "explore M (s, tr, n) a st"
  note parts = inv [unfolded search_inv_def]
  note f = parts [THEN conjunct1, unfolded found_sound_def] and q = parts [THEN conjunct2, THEN conjunct1, unfolded queue_sound_def]
    and v = parts [THEN conjunct2, THEN conjunct2]
  have ex: "execution M ?tr t" "length ?tr = n + 1" using execution.step [OF cur(1) a Some] cur(2) by simp_all
  have viol: "ss_violations ?e = inspect M t ?tr (n + 1) (ss_violations st)"
    by (simp add: explore_def Some Let_def)
  show ?thesis
  proof (cases "pm_state_key M t \<in> set (ss_visited st)")
    case True
    then have e: "ss_visited ?e = ss_visited st" "ss_queue ?e = ss_queue st" by (simp_all add: explore_def Some Let_def)
    have "violations_sound M n X ?e" by (rule violations_sound_inspect [OF v ex viol]) (use True f in auto)
    then have "search_inv M n X ?e" using parts by (simp add: search_inv_def found_sound_def queue_sound_def e)
    then show ?thesis using that [of X] True f Some e by auto
  next
    case False
    let ?X = "insert (t, n + 1) X"
    have e: "ss_visited ?e = ss_visited st @ [pm_state_key M t]" "ss_queue ?e = ss_queue st @ [(t, ?tr, n + 1)]"
      using False by (simp_all add: explore_def Some Let_def)
    have new: "pm_state_key M t \<notin> (pm_state_key M \<circ> fst) ` X" using False f by simp
    have "found_sound M n ?X ?e"
      unfolding found_sound_def e using f new False ex by (auto simp: inj_on_insert)
    moreover have "queue_sound M n ?X ?e"
      unfolding queue_sound_def e using q ex by (fastforce simp: sorted_append)
    moreover have "violations_sound M n ?X ?e" by (rule violations_sound_inspect [OF v ex viol]) auto
    ultimately have "search_inv M n ?X ?e" by (simp add: search_inv_def)
    moreover have "\<forall>x \<in> ?X - X. snd x = n + 1 \<and> (\<exists>tr'. (fst x, tr', snd x) \<in> set (ss_queue ?e))" by (auto simp: e)
    moreover have "set (ss_queue st) \<subseteq> set (ss_queue ?e)" by (auto simp: e)
    moreover have "\<forall>u. pm_transition M s a = Some u \<longrightarrow> pm_state_key M u \<in> (pm_state_key M \<circ> fst) ` ?X" by (simp add: Some)
    ultimately show ?thesis using that [of ?X] by blast
  qed
qed

lemma expand_step:
  assumes "search_inv M n X st" "execution M tr s" "length tr = n" "set acts \<subseteq> set (pm_actions M)"
  shows "\<exists>X'. X \<subseteq> X' \<and> search_inv M n X' (expand M acts (s, tr, n) st) \<and> set (ss_queue st) \<subseteq> set (ss_queue (expand M acts (s, tr, n) st))
    \<and> (\<forall>x \<in> X' - X. snd x = n + 1 \<and> (\<exists>tr'. (fst x, tr', snd x) \<in> set (ss_queue (expand M acts (s, tr, n) st))))
    \<and> (\<forall>a \<in> set acts. \<forall>t. pm_transition M s a = Some t \<longrightarrow> pm_state_key M t \<in> (pm_state_key M \<circ> fst) ` X')"
  using assms(4)
proof (induction acts rule: rev_induct)
  case Nil
  then show ?case using assms(1) by (intro exI [of _ X]) (simp add: expand_def)
next
  case (snoc a acts)
  let ?u = "expand M acts (s, tr, n) st" and ?w = "expand M (acts @ [a]) (s, tr, n) st"
  have w: "?w = explore M (s, tr, n) a ?u" by (simp add: expand_def)
  obtain X1 where X1: "X \<subseteq> X1" "search_inv M n X1 ?u" "set (ss_queue st) \<subseteq> set (ss_queue ?u)"
    "\<forall>x \<in> X1 - X. snd x = n + 1 \<and> (\<exists>tr'. (fst x, tr', snd x) \<in> set (ss_queue ?u))"
    "\<forall>b \<in> set acts. \<forall>t. pm_transition M s b = Some t \<longrightarrow> pm_state_key M t \<in> (pm_state_key M \<circ> fst) ` X1"
    using snoc by auto
  have a: "a \<in> set (pm_actions M)" using snoc.prems by simp
  obtain X2 where X2: "X1 \<subseteq> X2" "search_inv M n X2 ?w" "set (ss_queue ?u) \<subseteq> set (ss_queue ?w)"
    "\<forall>x \<in> X2 - X1. snd x = n + 1 \<and> (\<exists>tr'. (fst x, tr', snd x) \<in> set (ss_queue ?w))"
    "\<forall>t. pm_transition M s a = Some t \<longrightarrow> pm_state_key M t \<in> (pm_state_key M \<circ> fst) ` X2"
    by (rule explore_step [OF X1(2) assms(2,3) a, folded w])
  have "X \<subseteq> X2" "set (ss_queue st) \<subseteq> set (ss_queue ?w)" using X1 X2 by blast+
  moreover have "snd x = n + 1 \<and> (\<exists>tr'. (fst x, tr', snd x) \<in> set (ss_queue ?w))" if "x \<in> X2 - X" for x
    using that X1(4) X2(3,4) by (cases "x \<in> X1") blast+
  moreover have "pm_state_key M t \<in> (pm_state_key M \<circ> fst) ` X2" if "b \<in> set (acts @ [a])" "pm_transition M s b = Some t" for b t
  proof (cases "b = a")
    case True
    then show ?thesis using that(2) X2(5) by blast
  next
    case False
    then have "pm_state_key M t \<in> (pm_state_key M \<circ> fst) ` X1" using that X1(5) by auto
    then show ?thesis using X2(1) by blast
  qed
  ultimately show ?case using X2(2) by blast
qed

text \<open>Every found state above the bound is still in the queue or has its successors found.\<close>

definition search_closed :: "('s, 'a) protocol_model \<Rightarrow> 'a list \<Rightarrow> nat \<Rightarrow> ('s \<times> nat) set \<Rightarrow> 's search_state \<Rightarrow> bool" where
  "search_closed M acts bound X st \<longleftrightarrow> (\<forall>x \<in> X. snd x \<le> bound \<and>
     ((\<exists>tr. (fst x, tr, snd x) \<in> set (ss_queue st)) \<or> bound \<le> snd x
      \<or> (\<forall>a \<in> set acts. \<forall>t. pm_transition M (fst x) a = Some t \<longrightarrow>
           (\<exists>y \<in> X. pm_state_key M (fst y) = pm_state_key M t \<and> snd y \<le> snd x + 1))))"

lemma search_inv_pop:
  assumes "search_inv M n X st" "ss_queue st = (s, tr, d) # rest"
  shows "search_inv M d X (st\<lparr>ss_queue := rest\<rparr>)" "execution M tr s" "length tr = d" "(s, d) \<in> X" "n \<le> d"
proof -
  note i = assms(1) [unfolded search_inv_def]
  note q = i [THEN conjunct2, THEN conjunct1, unfolded queue_sound_def assms(2)]
  have d: "n \<le> d" "d \<le> n + 1" "(s, d) \<in> X" "execution M tr s" "length tr = d" using q by auto
  have "found_sound M d X (st\<lparr>ss_queue := rest\<rparr>)" using i d(1) by (fastforce simp: found_sound_def)
  moreover have "queue_sound M d X (st\<lparr>ss_queue := rest\<rparr>)" using q d by (fastforce simp: queue_sound_def)
  moreover have "violations_sound M d X (st\<lparr>ss_queue := rest\<rparr>)"
    using i d(1) unfolding violations_sound_def by (fastforce simp del: split_paired_All)
  ultimately show "search_inv M d X (st\<lparr>ss_queue := rest\<rparr>)" by (simp add: search_inv_def)
  show "execution M tr s" "length tr = d" "(s, d) \<in> X" "n \<le> d" using d by simp_all
qed

lemma search_result:
  assumes "search_inv M n X st" "search_closed M acts bound X st" "set acts = set (pm_actions M)"
  shows "\<exists>n' X'. X \<subseteq> X' \<and> search_inv M n' X' (search M acts bound st) \<and> search_closed M acts bound X' (search M acts bound st)
    \<and> ss_queue (search M acts bound st) = []"
  using assms
proof (induction M acts bound st arbitrary: n X rule: search.induct)
  case (1 M acts bound st)
  show ?case
  proof (cases "ss_queue st")
    case Nil
    then have "search M acts bound st = st" by (simp add: search.simps [of M acts bound st])
    then show ?thesis using "1.prems"(1,2) Nil by auto
  next
    case (Cons cur rest)
    obtain s tr d where cur: "cur = (s, tr, d)" by (cases cur) auto
    note pop = search_inv_pop [OF "1.prems"(1) Cons [unfolded cur]]
    let ?st = "st\<lparr>ss_queue := rest\<rparr>"
    have old: "snd x \<le> bound \<and> ((\<exists>tr. (fst x, tr, snd x) \<in> set rest) \<or> x = (s, d) \<or> bound \<le> snd x
      \<or> (\<forall>a \<in> set acts. \<forall>t. pm_transition M (fst x) a = Some t \<longrightarrow>
           (\<exists>y \<in> X. pm_state_key M (fst y) = pm_state_key M t \<and> snd y \<le> snd x + 1)))" if "x \<in> X" for x
      using "1.prems"(2) that unfolding search_closed_def Cons cur by (cases x) fastforce
    show ?thesis
    proof (cases "bound \<le> d")
      case True
      have "search_closed M acts bound X ?st"
        unfolding search_closed_def using old True by fastforce
      moreover have "search M acts bound st = search M acts bound ?st"
        using True Cons by (simp add: search.simps [of M acts bound st] cur)
      ultimately show ?thesis using "1.IH"(1) [OF Cons _ pop(1) _ "1.prems"(3)] True by (simp add: cur)
    next
      case False
      let ?w = "expand M acts (s, tr, d) ?st"
      obtain X' where X': "X \<subseteq> X'" "search_inv M d X' ?w" "set rest \<subseteq> set (ss_queue ?w)"
        "\<forall>x \<in> X' - X. snd x = d + 1 \<and> (\<exists>tr'. (fst x, tr', snd x) \<in> set (ss_queue ?w))"
        "\<forall>a \<in> set acts. \<forall>t. pm_transition M s a = Some t \<longrightarrow> pm_state_key M t \<in> (pm_state_key M \<circ> fst) ` X'"
        using expand_step [OF pop(1-3) "1.prems"(3) [THEN equalityD1]] by auto
      have depth: "snd y \<le> d + 1" if "y \<in> X'" for y using X'(2) that by (auto simp: search_inv_def found_sound_def)
      have "search_closed M acts bound X' ?w"
        unfolding search_closed_def
      proof
        fix x assume x: "x \<in> X'"
        show "snd x \<le> bound \<and> ((\<exists>tr. (fst x, tr, snd x) \<in> set (ss_queue ?w)) \<or> bound \<le> snd x
          \<or> (\<forall>a \<in> set acts. \<forall>t. pm_transition M (fst x) a = Some t \<longrightarrow>
           (\<exists>y \<in> X'. pm_state_key M (fst y) = pm_state_key M t \<and> snd y \<le> snd x + 1)))"
        proof (cases "x \<in> X")
          case True
          consider "x = (s, d)" | "x \<noteq> (s, d)" by blast
          then show ?thesis
          proof cases
            case 1
            have "\<exists>y \<in> X'. pm_state_key M (fst y) = pm_state_key M t \<and> snd y \<le> d + 1"
              if "a \<in> set acts" "pm_transition M s a = Some t" for a t
            proof -
              have "pm_state_key M t \<in> (pm_state_key M \<circ> fst) ` X'" using X'(5) that by blast
              then obtain y where "y \<in> X'" "pm_state_key M t = pm_state_key M (fst y)" by auto
              then show ?thesis using depth by metis
            qed
            then show ?thesis using 1 False by simp
          next
            case 2
            then show ?thesis using old [OF True] X'(1,3) by (meson subsetD)
          qed
        next
          case False
          then have "snd x = d + 1 \<and> (\<exists>tr'. (fst x, tr', snd x) \<in> set (ss_queue ?w))" using X'(4) x by blast
          then show ?thesis using \<open>\<not> bound \<le> d\<close> by (intro conjI disjI1) (simp, blast)
        qed
      qed
      moreover have "search M acts bound st = search M acts bound ?w"
        using False Cons by (simp add: search.simps [of M acts bound st] cur)
      ultimately show ?thesis
        using "1.IH"(2) [OF Cons _ _ _ "1.prems"(3), of d X'] False X'(1,2) by (simp add: cur) (meson order_trans)
    qed
  qed
qed

subsection \<open>What the search has found\<close>

lemma run_search_inv:
  obtains n X where "search_inv M n X (run_search P M bound)" "search_closed M (checker_actions P M) bound X (run_search P M bound)"
    "ss_queue (run_search P M bound) = []" "(pm_initial M, 0) \<in> X"
proof -
  let ?s = "pm_initial M"
  let ?st = "\<lparr>ss_queue = [(?s, [], 0)], ss_visited = [pm_state_key M ?s], ss_violations = inspect M ?s [] 0 [], ss_count = 0\<rparr>"
  have ex: "execution M [] ?s" by (rule execution.start)
  have "violations_sound M 0 {(?s, 0)} ?st"
  proof -
    have wf: "omap_wf (ss_violations ?st)" using inspect_wf [of "[]" M ?s "[]" 0] by (simp add: omap_wf_def)
    have sound: "v = \<lparr>vi_invariant = i, vi_depth = 0, vi_trace = [], vi_state = ?s\<rparr> \<and> (\<exists>holds. (i, holds) \<in> set (pm_invariants M) \<and> \<not> holds ?s)"
      if "(i, v) \<in> set (ss_violations ?st)" for i v
      using inspect_entry [of i v M ?s "[]" 0 "[]"] that by simp
    have complete: "\<exists>v. omap_get (ss_violations ?st) i = Some v \<and> vi_depth v \<le> 0"
      if "(i, holds) \<in> set (pm_invariants M)" "\<not> holds ?s" for i holds
    proof -
      have "omap_get (ss_violations ?st) i \<noteq> None" using inspect_complete [OF that(1), of ?s "[]" 0 "[]"] that(2) by simp
      then obtain v where v: "omap_get (ss_violations ?st) i = Some v" by blast
      then show ?thesis using sound [of i v] by (simp add: map_of_SomeD)
    qed
    have "vi_invariant v = i \<and> vi_depth v \<le> 0 + 1 \<and> execution M (vi_trace v) (vi_state v) \<and> length (vi_trace v) = vi_depth v
        \<and> (\<exists>holds. (i, holds) \<in> set (pm_invariants M) \<and> \<not> holds (vi_state v))
        \<and> pm_state_key M (vi_state v) \<in> (pm_state_key M \<circ> fst) ` {(?s, 0)}" if "(i, v) \<in> set (ss_violations ?st)" for i v
      using sound [OF that] ex by simp
    then show ?thesis unfolding violations_sound_def using wf complete by fastforce
  qed
  moreover have "found_sound M 0 {(?s, 0)} ?st" using ex by (auto simp: found_sound_def)
  moreover have "queue_sound M 0 {(?s, 0)} ?st" using ex by (auto simp: queue_sound_def)
  ultimately have "search_inv M 0 {(?s, 0)} ?st" by (simp add: search_inv_def)
  moreover have "search_closed M (checker_actions P M) bound {(?s, 0)} ?st" by (simp add: search_closed_def)
  ultimately obtain n X where "{(?s, 0)} \<subseteq> X" "search_inv M n X (search M (checker_actions P M) bound ?st)"
    "search_closed M (checker_actions P M) bound X (search M (checker_actions P M) bound ?st)"
    "ss_queue (search M (checker_actions P M) bound ?st) = []"
    using search_result [of M 0 "{(?s, 0)}" ?st "checker_actions P M" bound] by auto
  then show ?thesis using that [of n X] by (simp add: run_search_def Let_def)
qed

text \<open>States within the bound.\<close>

definition states_within :: "('s, 'a) protocol_model \<Rightarrow> nat \<Rightarrow> 's set" where
  "states_within M bound = {s. \<exists>tr. execution M tr s \<and> length tr \<le> bound}"

lemma found_complete:
  assumes "search_closed M (checker_actions P M) bound X st" "ss_queue st = []" "(pm_initial M, 0) \<in> X"
    and "inj_on (pm_state_key M) {s. \<exists>tr. execution M tr s}" "\<forall>x \<in> X. \<exists>tr. execution M tr (fst x)"
    and "execution M tr s" "length tr \<le> bound"
  shows "\<exists>m. (s, m) \<in> X \<and> m \<le> length tr"
  using assms(6,7)
proof induction
  case start
  then show ?case using assms(3) by auto
next
  case (step tr s a t)
  then obtain m where m: "(s, m) \<in> X" "m \<le> length tr" by auto
  have "\<not> bound \<le> m" using m(2) step.prems by simp
  then obtain y where y: "y \<in> X" "pm_state_key M (fst y) = pm_state_key M t" "snd y \<le> m + 1"
    using assms(1,2) m(1) step.hyps by (fastforce simp: search_closed_def)
  have "execution M (tr @ [pm_action_key M a]) t" by (rule execution.step [OF step.hyps])
  then have "fst y = t" using y assms(4,5) by (auto dest: inj_onD)
  then have "(t, snd y) \<in> X" using y(1) by (metis prod.collapse)
  moreover have "snd y \<le> length (tr @ [pm_action_key M a])" using y(3) m(2) by simp
  ultimately show ?case by blast
qed

lemma bounded_check_Inr:
  assumes "bounded_model_check P M (Num (of_nat bound)) = Inr r"
  shows "mr_violations r = sort_by (violation_order P) (map snd (ss_violations (run_search P M bound)))"
    "mr_states r = length (ss_visited (run_search P M bound))" "mr_status r = (if mr_violations r = [] then Verified else Violated)"
    "mr_depth r = bound" "mr_id r = pm_id M"
proof -
  have "js_integer (Num (of_nat bound)) = Some (int bound)" using js_integer_of_int [of "int bound"] by simp
  then show "mr_violations r = sort_by (violation_order P) (map snd (ss_violations (run_search P M bound)))"
    "mr_states r = length (ss_visited (run_search P M bound))" "mr_status r = (if mr_violations r = [] then Verified else Violated)"
    "mr_depth r = bound" "mr_id r = pm_id M"
    using assms by (auto simp: bounded_model_check_def Let_def split: if_splits sum.splits)
qed

lemma violation_found:
  assumes "bounded_model_check P M (Num (of_nat bound)) = Inr r" "v \<in> set (mr_violations r)"
  shows "execution M (vi_trace v) (vi_state v) \<and> length (vi_trace v) = vi_depth v
    \<and> (\<exists>holds. (vi_invariant v, holds) \<in> set (pm_invariants M) \<and> \<not> holds (vi_state v))"
proof -
  obtain n X where X: "search_inv M n X (run_search P M bound)" using run_search_inv .
  obtain i where "(i, v) \<in> set (ss_violations (run_search P M bound))"
    using assms(2) by (auto simp: bounded_check_Inr(1) [OF assms(1)])
  then show ?thesis using X by (auto simp: search_inv_def violations_sound_def)
qed

lemma search_explores:
  assumes "inj_on (pm_state_key M) {s. \<exists>tr. execution M tr s}"
  obtains n X where "search_inv M n X (run_search P M bound)" "fst ` X = states_within M bound"
    "\<And>s tr. execution M tr s \<Longrightarrow> length tr \<le> bound \<Longrightarrow> \<exists>m. (s, m) \<in> X \<and> m \<le> length tr"
proof -
  obtain n X where X: "search_inv M n X (run_search P M bound)" "search_closed M (checker_actions P M) bound X (run_search P M bound)"
      "ss_queue (run_search P M bound) = []" "(pm_initial M, 0) \<in> X"
    using run_search_inv .
  have f: "\<forall>x \<in> X. \<exists>tr. execution M tr (fst x) \<and> length tr = snd x"
    using X(1) by (auto simp: search_inv_def found_sound_def)
  have complete: "\<exists>m. (s, m) \<in> X \<and> m \<le> length tr" if "execution M tr s" "length tr \<le> bound" for s tr
    by (rule found_complete [OF X(2-4) assms _ that]) (use f in blast)
  have "snd x \<le> bound" if "x \<in> X" for x using X(2) that by (simp add: search_closed_def)
  then have "fst ` X \<subseteq> states_within M bound" using f by (fastforce simp: states_within_def)
  moreover have "states_within M bound \<subseteq> fst ` X" using complete by (force simp: states_within_def)
  ultimately show ?thesis using that [OF X(1)] complete by blast
qed

lemma explored_count:
  assumes "bounded_model_check P M (Num (of_nat bound)) = Inr r" "inj_on (pm_state_key M) {s. \<exists>tr. execution M tr s}"
  shows "mr_states r = card (states_within M bound)"
proof -
  obtain n X where X: "search_inv M n X (run_search P M bound)" "fst ` X = states_within M bound"
    by (rule search_explores [OF assms(2)]) blast
  then have f: "inj_on (pm_state_key M \<circ> fst) X" "set (ss_visited (run_search P M bound)) = (pm_state_key M \<circ> fst) ` X"
      "distinct (ss_visited (run_search P M bound))"
    by (auto simp: search_inv_def found_sound_def)
  have "card (fst ` X) = card X" using inj_on_imageI2 [OF f(1)] by (rule card_image)
  moreover have "length (ss_visited (run_search P M bound)) = card X" using f by (metis card_image distinct_card)
  ultimately show ?thesis using bounded_check_Inr(2) [OF assms(1)] X(2) by simp
qed

lemma violations_once:
  assumes "bounded_model_check P M (Num (of_nat bound)) = Inr r" "inj_on (pm_state_key M) {s. \<exists>tr. execution M tr s}"
  shows "distinct (map vi_invariant (mr_violations r))"
proof -
  let ?vs = "ss_violations (run_search P M bound)"
  obtain n X where "search_inv M n X (run_search P M bound)" by (rule search_explores [OF assms(2)]) blast
  then have v: "omap_wf ?vs" "\<forall>(i, v) \<in> set ?vs. vi_invariant v = i" by (auto simp: search_inv_def violations_sound_def)
  have "map (vi_invariant \<circ> snd) ?vs = map fst ?vs" using v(2) by auto
  then have "distinct (map (vi_invariant \<circ> snd) ?vs)" using v(1) by (simp only: omap_wf_def)
  then show ?thesis using bounded_check_Inr(1) [OF assms(1)] by simp
qed

lemma violation_complete:
  assumes "bounded_model_check P M (Num (of_nat bound)) = Inr r" "inj_on (pm_state_key M) {s. \<exists>tr. execution M tr s}"
    and "execution M tr s" "length tr \<le> bound" "(i, holds) \<in> set (pm_invariants M)" "\<not> holds s"
  shows "\<exists>v \<in> set (mr_violations r). vi_invariant v = i \<and> vi_depth v \<le> length tr"
proof -
  let ?vs = "ss_violations (run_search P M bound)"
  obtain n X where X: "search_inv M n X (run_search P M bound)" "\<exists>m. (s, m) \<in> X \<and> m \<le> length tr"
    by (rule search_explores [OF assms(2)]) (use assms(3,4) in blast)
  then have v: "\<forall>(i, v) \<in> set ?vs. vi_invariant v = i"
      "\<forall>x \<in> X. \<forall>(i, holds) \<in> set (pm_invariants M). \<not> holds (fst x) \<longrightarrow> (\<exists>v. omap_get ?vs i = Some v \<and> vi_depth v \<le> snd x)"
    by (auto simp: search_inv_def violations_sound_def)
  obtain m where m: "(s, m) \<in> X" "m \<le> length tr" using X(2) by blast
  then obtain w where w: "omap_get ?vs i = Some w" "vi_depth w \<le> m" using v(2) assms(5,6) by fastforce
  then have "(i, w) \<in> set ?vs" by (simp add: map_of_SomeD)
  then have "w \<in> snd ` set ?vs" "vi_invariant w = i" using v(1) by (auto intro: rev_image_eqI)
  then show ?thesis using bounded_check_Inr(1) [OF assms(1)] w(2) m(2) by (intro bexI [of _ w]) simp_all
qed

lemma violation_within:
  assumes "bounded_model_check P M (Num (of_nat bound)) = Inr r" "inj_on (pm_state_key M) {s. \<exists>tr. execution M tr s}"
    and "w \<in> set (mr_violations r)"
  shows "vi_state w \<in> states_within M bound"
proof -
  let ?vs = "ss_violations (run_search P M bound)"
  obtain n X where X: "search_inv M n X (run_search P M bound)" "fst ` X = states_within M bound"
    by (rule search_explores [OF assms(2)]) blast
  have f: "\<forall>x \<in> X. \<exists>tr. execution M tr (fst x)" using X(1) by (auto simp: search_inv_def found_sound_def)
  obtain i where "(i, w) \<in> set ?vs" using assms(3) bounded_check_Inr(1) [OF assms(1)] by auto
  then have "pm_state_key M (vi_state w) \<in> (pm_state_key M \<circ> fst) ` X" using X(1) by (auto simp: search_inv_def violations_sound_def)
  then obtain x where x: "x \<in> X" "pm_state_key M (vi_state w) = pm_state_key M (fst x)" by auto
  then have "vi_state w = fst x" using assms(2) violation_found [OF assms(1,3)] f by (auto dest: inj_onD)
  then show ?thesis using X(2) x(1) by auto
qed

lemma violation_shortest:
  assumes "bounded_model_check P M (Num (of_nat bound)) = Inr r" "inj_on (pm_state_key M) {s. \<exists>tr. execution M tr s}"
    and w: "w \<in> set (mr_violations r)"
    and ex: "execution M tr s" "length tr \<le> bound" "(vi_invariant w, holds) \<in> set (pm_invariants M)" "\<not> holds s"
  shows "vi_depth w \<le> length tr"
proof -
  obtain v where v: "v \<in> set (mr_violations r)" "vi_invariant v = vi_invariant w" "vi_depth v \<le> length tr"
    using violation_complete [OF assms(1,2) ex] by blast
  have "inj_on vi_invariant (set (mr_violations r))" using violations_once [OF assms(1,2)] by (simp add: distinct_map)
  then have "v = w" using v(1,2) w by (auto dest: inj_onD)
  then show ?thesis using v(3) by simp
qed

lemma violation_depth:
  assumes "bounded_model_check P M (Num (of_nat bound)) = Inr r" "inj_on (pm_state_key M) {s. \<exists>tr. execution M tr s}"
    and "w \<in> set (mr_violations r)"
  shows "vi_depth w \<le> bound"
proof -
  obtain tr where "execution M tr (vi_state w)" "length tr \<le> bound"
    using violation_within [OF assms] by (auto simp: states_within_def)
  then show ?thesis using violation_shortest [OF assms] violation_found [OF assms(1,3)] by (meson order_trans)
qed

lemma invariant_reported_iff:
  assumes "bounded_model_check P M (Num (of_nat bound)) = Inr r" "inj_on (pm_state_key M) {s. \<exists>tr. execution M tr s}"
  shows "i \<in> vi_invariant ` set (mr_violations r) \<longleftrightarrow> (\<exists>s \<in> states_within M bound. \<exists>holds. (i, holds) \<in> set (pm_invariants M) \<and> \<not> holds s)"
proof
  assume "i \<in> vi_invariant ` set (mr_violations r)"
  then show "\<exists>s \<in> states_within M bound. \<exists>holds. (i, holds) \<in> set (pm_invariants M) \<and> \<not> holds s"
    using violation_within [OF assms] violation_found [OF assms(1)] by blast
next
  assume "\<exists>s \<in> states_within M bound. \<exists>holds. (i, holds) \<in> set (pm_invariants M) \<and> \<not> holds s"
  then obtain s tr holds where "execution M tr s" "length tr \<le> bound" "(i, holds) \<in> set (pm_invariants M)" "\<not> holds s"
    by (auto simp: states_within_def)
  from violation_complete [OF assms this] show "i \<in> vi_invariant ` set (mr_violations r)" by blast
qed

text \<open>
  C11. The bounded model checker is exact. When state keys separate the reachable states: the number
  of explored states is the number of states within the bound; the status is VERIFIED exactly when all invariants hold in
  all of them; an invariant is reported, once, exactly when some state within the bound violates it; and each report is a
  shortest counterexample: its trace is an execution of the model, no longer than the bound, whose last state is the
  reported state and violates the reported invariant, and no execution that violates this invariant is shorter.
\<close>

theorem bounded_check_exact:
  assumes "bounded_model_check P M (Num (of_nat bound)) = Inr r"
    and "inj_on (pm_state_key M) {s. \<exists>tr. execution M tr s}"
  shows "mr_states r = card (states_within M bound) \<and> distinct (map vi_invariant (mr_violations r))
    \<and> (mr_status r = Verified \<longleftrightarrow> (\<forall>s \<in> states_within M bound. \<forall>(i, holds) \<in> set (pm_invariants M). holds s))
    \<and> (\<forall>i. i \<in> vi_invariant ` set (mr_violations r) \<longleftrightarrow>
         (\<exists>s \<in> states_within M bound. \<exists>holds. (i, holds) \<in> set (pm_invariants M) \<and> \<not> holds s))
    \<and> (\<forall>v \<in> set (mr_violations r). execution M (vi_trace v) (vi_state v) \<and> length (vi_trace v) = vi_depth v \<and> vi_depth v \<le> bound
         \<and> (\<exists>holds. (vi_invariant v, holds) \<in> set (pm_invariants M) \<and> \<not> holds (vi_state v))
         \<and> (\<forall>tr s holds. execution M tr s \<longrightarrow> (vi_invariant v, holds) \<in> set (pm_invariants M) \<longrightarrow> \<not> holds s \<longrightarrow> vi_depth v \<le> length tr))"
proof (intro conjI)
  show "mr_states r = card (states_within M bound)" by (rule explored_count [OF assms])
  show "distinct (map vi_invariant (mr_violations r))" by (rule violations_once [OF assms])
  show iff: "\<forall>i. i \<in> vi_invariant ` set (mr_violations r) \<longleftrightarrow>
      (\<exists>s \<in> states_within M bound. \<exists>holds. (i, holds) \<in> set (pm_invariants M) \<and> \<not> holds s)"
    by (intro allI invariant_reported_iff [OF assms])
  have "mr_status r = Verified \<longleftrightarrow> (\<forall>i. i \<notin> vi_invariant ` set (mr_violations r))"
    using bounded_check_Inr(3) [OF assms(1)] by (cases "mr_violations r") auto
  then show "mr_status r = Verified \<longleftrightarrow> (\<forall>s \<in> states_within M bound. \<forall>(i, holds) \<in> set (pm_invariants M). holds s)"
    unfolding iff [THEN spec] by fastforce
  show "\<forall>v \<in> set (mr_violations r). execution M (vi_trace v) (vi_state v) \<and> length (vi_trace v) = vi_depth v \<and> vi_depth v \<le> bound
         \<and> (\<exists>holds. (vi_invariant v, holds) \<in> set (pm_invariants M) \<and> \<not> holds (vi_state v))
         \<and> (\<forall>tr s holds. execution M tr s \<longrightarrow> (vi_invariant v, holds) \<in> set (pm_invariants M) \<longrightarrow> \<not> holds s \<longrightarrow> vi_depth v \<le> length tr)"
  proof (intro ballI conjI allI impI)
    fix v assume v: "v \<in> set (mr_violations r)"
    show "execution M (vi_trace v) (vi_state v)" "length (vi_trace v) = vi_depth v"
      "\<exists>holds. (vi_invariant v, holds) \<in> set (pm_invariants M) \<and> \<not> holds (vi_state v)"
      using violation_found [OF assms(1) v] by blast+
    show depth: "vi_depth v \<le> bound" by (rule violation_depth [OF assms v])
    fix tr s holds assume "execution M tr s" "(vi_invariant v, holds) \<in> set (pm_invariants M)" "\<not> holds s"
    then show "vi_depth v \<le> length tr"
      using violation_shortest [OF assms v] depth by (cases "length tr \<le> bound") simp_all
  qed
qed

section \<open>The critical protocols\<close>

text \<open>\<^verbatim>\<open>canonicalHash(state)\<close> of a state whose JSON value is plain, so that it does not throw.\<close>

definition hash_key :: "platform \<Rightarrow> jsval \<Rightarrow> string" where
  "hash_key P v = (case canonical_hash P v of Inl _ \<Rightarrow> [] | Inr h \<Rightarrow> h)"

record publication_state =
  pub_current :: nat
  pub_approved :: nat
  pub_certificate :: nat
  pub_published :: nat

datatype publication_action = PubEdit | PubApprove | PubCertify | PubPublish

fun publication_action_text :: "publication_action \<Rightarrow> string" where
  "publication_action_text PubEdit = ''EDIT''"
| "publication_action_text PubApprove = ''APPROVE''"
| "publication_action_text PubCertify = ''CERTIFY''"
| "publication_action_text PubPublish = ''PUBLISH''"

definition publication_json :: "publication_state \<Rightarrow> jsval" where
  "publication_json s = JObj [(''currentRevision'', JNum (Num (of_nat (pub_current s)))), (''approvedRevision'', JNum (Num (of_nat (pub_approved s)))),
     (''certificateRevision'', JNum (Num (of_nat (pub_certificate s)))), (''publishedRevision'', JNum (Num (of_nat (pub_published s))))]"

fun publication_step :: "publication_state \<Rightarrow> publication_action \<Rightarrow> publication_state option" where
  "publication_step s PubEdit = (if pub_published s = 0 \<and> pub_current s = 1
     then Some \<lparr>pub_current = 2, pub_approved = 0, pub_certificate = 0, pub_published = 0\<rparr> else None)"
| "publication_step s PubApprove = (if pub_published s = 0 then Some (s\<lparr>pub_approved := pub_current s, pub_certificate := 0\<rparr>) else None)"
| "publication_step s PubCertify = (if pub_published s = 0 \<and> pub_approved s = pub_current s
     then Some (s\<lparr>pub_certificate := pub_current s\<rparr>) else None)"
| "publication_step s PubPublish = (if pub_published s = 0 \<and> pub_approved s = pub_current s \<and> pub_certificate s = pub_current s
     then Some (s\<lparr>pub_published := pub_current s\<rparr>) else None)"

definition publication_model :: "platform \<Rightarrow> (publication_state, publication_action) protocol_model" where
  "publication_model P = \<lparr>pm_id = ''publication'',
     pm_initial = \<lparr>pub_current = 1, pub_approved = 0, pub_certificate = 0, pub_published = 0\<rparr>,
     pm_actions = [PubEdit, PubApprove, PubCertify, PubPublish], pm_state_key = \<lambda>s. hash_key P (publication_json s),
     pm_action_key = publication_action_text, pm_transition = publication_step,
     pm_invariants =
       [(''PUBLISHED_REVISION_IS_CURRENT'', \<lambda>s. pub_published s = 0 \<or> pub_published s = pub_current s),
        (''PUBLISHED_REVISION_IS_APPROVED'', \<lambda>s. pub_published s = 0 \<or> pub_published s = pub_approved s),
        (''PUBLISHED_REVISION_IS_CERTIFIED'', \<lambda>s. pub_published s = 0 \<or> pub_published s = pub_certificate s)],
     pm_json = publication_json\<rparr>"

text \<open>The idempotent command model: per command key a fingerprint, an effect count and a conflict flag.\<close>

datatype command_key2 = Command1 | Command2

datatype fingerprint2 = NoPrint | PrintA | PrintB

record key_state =
  ks_print :: fingerprint2
  ks_effects :: nat
  ks_conflict :: bool

type_synonym idempotency_state = "key_state \<times> key_state"

fun key_text :: "command_key2 \<Rightarrow> string" where
  "key_text Command1 = ''command.1''"
| "key_text Command2 = ''command.2''"

fun print_text :: "fingerprint2 \<Rightarrow> string" where
  "print_text NoPrint = ''NONE''"
| "print_text PrintA = ''A''"
| "print_text PrintB = ''B''"

definition idempotency_json :: "idempotency_state \<Rightarrow> jsval" where
  "idempotency_json st = (case st of (a, b) \<Rightarrow> JObj
     [(''fingerprints'', JObj [(''command.1'', JStr (print_text (ks_print a))), (''command.2'', JStr (print_text (ks_print b)))]),
      (''effects'', JObj [(''command.1'', JNum (Num (of_nat (ks_effects a)))), (''command.2'', JNum (Num (of_nat (ks_effects b))))]),
      (''conflicts'', JObj [(''command.1'', JBool (ks_conflict a)), (''command.2'', JBool (ks_conflict b))])])"

definition submit_key :: "fingerprint2 \<Rightarrow> key_state \<Rightarrow> key_state" where
  "submit_key f k = (if ks_print k = NoPrint then k\<lparr>ks_print := f, ks_effects := 1\<rparr>
     else if ks_print k = f then k
     else k\<lparr>ks_conflict := True\<rparr>)"

fun idempotency_step :: "idempotency_state \<Rightarrow> command_key2 \<times> fingerprint2 \<Rightarrow> idempotency_state option" where
  "idempotency_step (a, b) (Command1, f) = Some (submit_key f a, b)"
| "idempotency_step (a, b) (Command2, f) = Some (a, submit_key f b)"

definition idempotency_model :: "platform \<Rightarrow> (idempotency_state, command_key2 \<times> fingerprint2) protocol_model" where
  "idempotency_model P =
     (let fresh = \<lparr>ks_print = NoPrint, ks_effects = 0, ks_conflict = False\<rparr>
      in \<lparr>pm_id = ''idempotent-command'', pm_initial = (fresh, fresh),
        pm_actions = [(Command1, PrintA), (Command1, PrintB), (Command2, PrintA), (Command2, PrintB)],
        pm_state_key = \<lambda>s. hash_key P (idempotency_json s), pm_action_key = \<lambda>(k, f). key_text k @ '':'' @ print_text f,
        pm_transition = idempotency_step,
        pm_invariants =
          [(''COMMAND_EFFECT_AT_MOST_ONCE'', \<lambda>(a, b). ks_effects a \<le> 1 \<and> ks_effects b \<le> 1),
           (''EFFECT_REQUIRES_FINGERPRINT'', \<lambda>(a, b). (ks_effects a = 0 \<or> ks_print a \<noteq> NoPrint) \<and> (ks_effects b = 0 \<or> ks_print b \<noteq> NoPrint))],
        pm_json = idempotency_json\<rparr>)"

datatype proposal = NoProposal | ProposalReady | ProposalApproved | ProposalRejected

datatype change_actor = NoActor | Operator | Director

record live_change_state =
  lcs_version :: nat
  lcs_proposal :: proposal
  lcs_base :: nat
  lcs_proposer :: change_actor
  lcs_approver :: change_actor
  lcs_applied :: nat
  lcs_applied_from :: nat

datatype live_change_action = Propose | Mutate | ApproveSelf | ApproveDirector | Reject

fun live_change_action_text :: "live_change_action \<Rightarrow> string" where
  "live_change_action_text Propose = ''PROPOSE''"
| "live_change_action_text Mutate = ''MUTATE''"
| "live_change_action_text ApproveSelf = ''APPROVE_SELF''"
| "live_change_action_text ApproveDirector = ''APPROVE_DIRECTOR''"
| "live_change_action_text Reject = ''REJECT''"

fun proposal_text :: "proposal \<Rightarrow> string" where
  "proposal_text NoProposal = ''NONE''"
| "proposal_text ProposalReady = ''READY''"
| "proposal_text ProposalApproved = ''APPROVED''"
| "proposal_text ProposalRejected = ''REJECTED''"

fun change_actor_text :: "change_actor \<Rightarrow> string" where
  "change_actor_text NoActor = ''NONE''"
| "change_actor_text Operator = ''operator''"
| "change_actor_text Director = ''director''"

definition live_change_json :: "live_change_state \<Rightarrow> jsval" where
  "live_change_json s = JObj [(''liveVersion'', JNum (Num (of_nat (lcs_version s)))), (''proposal'', JStr (proposal_text (lcs_proposal s))),
     (''baseVersion'', JNum (Num (of_nat (lcs_base s)))), (''proposer'', JStr (change_actor_text (lcs_proposer s))),
     (''approver'', JStr (change_actor_text (lcs_approver s))), (''appliedCount'', JNum (Num (of_nat (lcs_applied s)))),
     (''appliedFromVersion'', JNum (Num (of_nat (lcs_applied_from s))))]"

fun live_change_step :: "live_change_state \<Rightarrow> live_change_action \<Rightarrow> live_change_state option" where
  "live_change_step s Propose = (if lcs_proposal s = NoProposal \<and> lcs_version s < 2
     then Some (s\<lparr>lcs_proposal := ProposalReady, lcs_base := lcs_version s\<rparr>) else None)"
| "live_change_step s Mutate = (if lcs_version s < 2 then Some (s\<lparr>lcs_version := lcs_version s + 1\<rparr>) else None)"
| "live_change_step s Reject = (if lcs_proposal s = ProposalReady
     then Some (s\<lparr>lcs_proposal := ProposalRejected, lcs_approver := Director\<rparr>) else None)"
| "live_change_step s ApproveSelf = None"
| "live_change_step s ApproveDirector = (if lcs_proposal s = ProposalReady \<and> lcs_base s = lcs_version s
     then Some (s\<lparr>lcs_proposal := ProposalApproved, lcs_approver := Director, lcs_applied := 1, lcs_applied_from := lcs_version s,
       lcs_version := lcs_version s + 1\<rparr>) else None)"

definition live_change_model :: "platform \<Rightarrow> (live_change_state, live_change_action) protocol_model" where
  "live_change_model P = \<lparr>pm_id = ''live-change-approval'',
     pm_initial = \<lparr>lcs_version = 0, lcs_proposal = NoProposal, lcs_base = 0, lcs_proposer = Operator, lcs_approver = NoActor,
       lcs_applied = 0, lcs_applied_from = 0\<rparr>,
     pm_actions = [Propose, Mutate, ApproveSelf, ApproveDirector, Reject], pm_state_key = \<lambda>s. hash_key P (live_change_json s),
     pm_action_key = live_change_action_text, pm_transition = live_change_step,
     pm_invariants =
       [(''APPROVAL_REQUIRES_DISTINCT_ACTOR'', \<lambda>s. lcs_proposal s \<noteq> ProposalApproved \<or> lcs_approver s \<noteq> lcs_proposer s),
        (''APPROVAL_APPLIES_EXACTLY_ONCE'', \<lambda>s. lcs_proposal s \<noteq> ProposalApproved \<or> lcs_applied s = 1),
        (''APPROVAL_USES_CURRENT_BASE'', \<lambda>s. lcs_proposal s \<noteq> ProposalApproved \<or> lcs_applied_from s = lcs_base s)],
     pm_json = live_change_json\<rparr>"

record protocol_report =
  rep_status :: check_status
  rep_idempotency :: "idempotency_state check_result"
  rep_live_change :: "live_change_state check_result"
  rep_publication :: "publication_state check_result"
  rep_proof :: string

definition check_json :: "('s, 'a) protocol_model \<Rightarrow> 's check_result \<Rightarrow> jsval" where
  "check_json M r = JObj (check_fields M r @ [(''proofHash'', JStr (mr_proof r))])"

definition model_check_critical_protocols :: "platform \<Rightarrow> (checker_error, protocol_report) result" where
  "model_check_critical_protocols P =
     bind_result (bounded_model_check P (idempotency_model P) (Num 6)) (\<lambda>a.
     bind_result (bounded_model_check P (live_change_model P) (Num 6)) (\<lambda>b.
     bind_result (bounded_model_check P (publication_model P) (Num 6)) (\<lambda>c.
       let status = (if mr_status a = Verified \<and> mr_status b = Verified \<and> mr_status c = Verified then Verified else Violated)
       in (case canonical_hash P (JObj [(''schemaVersion'', JStr ''1.0.0''), (''status'', JStr (check_status_text status)),
              (''models'', JArr [check_json (idempotency_model P) a, check_json (live_change_model P) b, check_json (publication_model P) c])]) of
             Inl e \<Rightarrow> Inl (CheckerHash e)
           | Inr h \<Rightarrow> Inr \<lparr>rep_status = status, rep_idempotency = a, rep_live_change = b, rep_publication = c, rep_proof = h\<rparr>))))"

section \<open>Safe protocols\<close>

text \<open>A protocol with an inductive invariant that implies what the model claims.\<close>

locale safe_protocol =
  fixes M :: "('s, 'a) protocol_model" and J :: "'s \<Rightarrow> bool"
  assumes initial_safe: "J (pm_initial M)"
    and step_safe: "J s \<Longrightarrow> a \<in> set (pm_actions M) \<Longrightarrow> pm_transition M s a = Some t \<Longrightarrow> J t"
    and claims_hold: "J s \<Longrightarrow> (i, holds) \<in> set (pm_invariants M) \<Longrightarrow> holds s"
begin

lemma execution_safe: "execution M tr s \<Longrightarrow> J s"
  by (induction rule: execution.induct) (auto intro: initial_safe step_safe)

lemma reachable_safe: "execution M tr s \<Longrightarrow> (i, holds) \<in> set (pm_invariants M) \<Longrightarrow> holds s"
  using execution_safe claims_hold by blast

lemma check_verified:
  assumes "bounded_model_check P M (Num (of_nat bound)) = Inr r"
  shows "mr_status r = Verified" "mr_violations r = []"
proof -
  have "v \<notin> set (mr_violations r)" for v
    using violation_found [OF assms, of v] reachable_safe by blast
  then show "mr_violations r = []" by (metis list.set_intros(1) neq_Nil_conv)
  then show "mr_status r = Verified" using bounded_check_Inr(3) [OF assms] by simp
qed

end

fun publication_inv :: "publication_state \<Rightarrow> bool" where
  "publication_inv s = (pub_published s = 0 \<or> pub_published s = pub_current s \<and> pub_approved s = pub_current s \<and> pub_certificate s = pub_current s)"

fun key_inv :: "key_state \<Rightarrow> bool" where
  "key_inv k = (ks_effects k \<le> 1 \<and> (ks_effects k = 0 \<or> ks_print k \<noteq> NoPrint))"

fun idempotency_inv :: "idempotency_state \<Rightarrow> bool" where
  "idempotency_inv (a, b) = (key_inv a \<and> key_inv b)"

fun live_change_inv :: "live_change_state \<Rightarrow> bool" where
  "live_change_inv s = (lcs_proposer s = Operator \<and> (lcs_proposal s = ProposalApproved \<longrightarrow>
     lcs_approver s = Director \<and> lcs_applied s = 1 \<and> lcs_applied_from s = lcs_base s))"

interpretation publication: safe_protocol "publication_model P" publication_inv for P
proof
  fix s t a
  assume s: "publication_inv s" "pm_transition (publication_model P) s a = Some t"
  then show "publication_inv t" by (cases a) (auto simp: publication_model_def split: if_splits)
qed (auto simp: publication_model_def)

lemma submit_key_inv: "key_inv k \<Longrightarrow> f \<noteq> NoPrint \<Longrightarrow> key_inv (submit_key f k)"
  by (auto simp: submit_key_def)

interpretation idempotency: safe_protocol "idempotency_model P" idempotency_inv for P
proof
  fix s t a
  assume s: "idempotency_inv s" "a \<in> set (pm_actions (idempotency_model P))" "pm_transition (idempotency_model P) s a = Some t"
  obtain x y where xy: "s = (x, y)" by force
  show "idempotency_inv t" using s submit_key_inv [of x] submit_key_inv [of y]
    by (auto simp: idempotency_model_def Let_def xy simp del: key_inv.simps)
qed (auto simp: idempotency_model_def Let_def)

interpretation live_change: safe_protocol "live_change_model P" live_change_inv for P
proof
  fix s t a
  assume s: "live_change_inv s" "pm_transition (live_change_model P) s a = Some t"
  then show "live_change_inv t" by (cases a) (auto simp: live_change_model_def split: if_splits)
qed (auto simp: live_change_model_def)

lemma hash_plain_Inr: "plain v \<Longrightarrow> \<exists>h. canonical_hash P v = Inr h"
  by (simp add: canonical_hash_def canonical_stringify_def normalise_normal_form)

lemma safe_check_returns:
  assumes "safe_protocol M J" "valid_model M (Num (of_nat bound))"
  shows "\<exists>r. bounded_model_check P M (Num (of_nat bound)) = Inr r \<and> mr_status r = Verified \<and> mr_violations r = [] \<and> plain (check_json M r)"
proof -
  let ?st = "run_search P M bound"
  have int: "js_integer (Num (of_nat bound)) = Some (int bound)" using js_integer_of_int [of "int bound"] by simp
  obtain n X where "search_inv M n X ?st" using run_search_inv .
  then have entry: "execution M (vi_trace v) (vi_state v) \<and> (\<exists>holds. (i, holds) \<in> set (pm_invariants M) \<and> \<not> holds (vi_state v))"
    if "(i, v) \<in> set (ss_violations ?st)" for i v
    using that by (auto simp: search_inv_def violations_sound_def)
  have "x \<notin> set (ss_violations ?st)" for x
    using entry [of "fst x" "snd x"] safe_protocol.reachable_safe [OF assms(1)] by auto
  then have none: "ss_violations ?st = []" by (metis list.set_intros(1) neq_Nil_conv)
  let ?r = "\<lparr>mr_id = pm_id M, mr_status = Verified, mr_depth = bound, mr_states = length (ss_visited ?st),
    mr_transitions = ss_count ?st, mr_violations = [], mr_proof = []\<rparr>"
  have "plain (JObj (check_fields M ?r))" by (simp add: check_fields_def)
  then obtain h where h: "canonical_hash P (JObj (check_fields M ?r)) = Inr h" using hash_plain_Inr by blast
  have "bounded_model_check P M (Num (of_nat bound)) = Inr (?r\<lparr>mr_proof := h\<rparr>)"
    using assms(2) h by (simp add: bounded_model_check_def Let_def int none)
  then show ?thesis by (simp add: check_json_def check_fields_def)
qed

lemma critical_models_valid:
  "valid_model (publication_model P) (Num (of_nat 6))" "valid_model (idempotency_model P) (Num (of_nat 6))"
  "valid_model (live_change_model P) (Num (of_nat 6))"
proof -
  have "js_integer (Num (of_nat 6)) = Some 6" using js_integer_of_int [of 6] by simp
  moreover have "\<not> blank ''publication''" "\<not> blank ''idempotent-command''" "\<not> blank ''live-change-approval''"
    by (simp_all add: blank_iff is_space_def)
  ultimately show "valid_model (publication_model P) (Num (of_nat 6))" "valid_model (idempotency_model P) (Num (of_nat 6))"
    "valid_model (live_change_model P) (Num (of_nat 6))"
    by (simp_all add: valid_model_def publication_model_def idempotency_model_def live_change_model_def Let_def)
qed

text \<open>
  C31. The critical protocols are safe: the report of the three protocol models returns and is VERIFIED,
  and what it states up to depth six holds at every depth: a published revision is the
  current, approved and certified one, a command takes effect at most once and leaves its
  fingerprint, and an approved live change was applied once, to its own base, by another actor.
\<close>

theorem critical_protocols_verified:
  "(\<exists>r. model_check_critical_protocols P = Inr r \<and> rep_status r = Verified)
   \<and> (\<forall>tr s i holds. execution (publication_model P) tr s \<longrightarrow> (i, holds) \<in> set (pm_invariants (publication_model P)) \<longrightarrow> holds s)
   \<and> (\<forall>tr s i holds. execution (idempotency_model P) tr s \<longrightarrow> (i, holds) \<in> set (pm_invariants (idempotency_model P)) \<longrightarrow> holds s)
   \<and> (\<forall>tr s i holds. execution (live_change_model P) tr s \<longrightarrow> (i, holds) \<in> set (pm_invariants (live_change_model P)) \<longrightarrow> holds s)"
proof -
  obtain a where a: "bounded_model_check P (idempotency_model P) (Num 6) = Inr a" "mr_status a = Verified" "plain (check_json (idempotency_model P) a)"
    using safe_check_returns [OF idempotency.safe_protocol_axioms critical_models_valid(2), of P P] by auto
  obtain b where b: "bounded_model_check P (live_change_model P) (Num 6) = Inr b" "mr_status b = Verified" "plain (check_json (live_change_model P) b)"
    using safe_check_returns [OF live_change.safe_protocol_axioms critical_models_valid(3), of P P] by auto
  obtain c where c: "bounded_model_check P (publication_model P) (Num 6) = Inr c" "mr_status c = Verified" "plain (check_json (publication_model P) c)"
    using safe_check_returns [OF publication.safe_protocol_axioms critical_models_valid(1), of P P] by auto
  let ?body = "JObj [(''schemaVersion'', JStr ''1.0.0''), (''status'', JStr (check_status_text Verified)),
      (''models'', JArr [check_json (idempotency_model P) a, check_json (live_change_model P) b, check_json (publication_model P) c])]"
  have "plain ?body" using a(3) b(3) c(3) by simp
  then obtain h where h: "canonical_hash P ?body = Inr h" using hash_plain_Inr by blast
  have "model_check_critical_protocols P = Inr \<lparr>rep_status = Verified, rep_idempotency = a, rep_live_change = b, rep_publication = c, rep_proof = h\<rparr>"
    unfolding model_check_critical_protocols_def a(1) b(1) c(1) bind_result.simps Let_def
    using h by (simp only: a(2) b(2) c(2) simp_thms if_True sum.case)
  then have "\<exists>r. model_check_critical_protocols P = Inr r \<and> rep_status r = Verified" by simp
  moreover have "\<forall>tr s i holds. execution (publication_model P) tr s \<longrightarrow> (i, holds) \<in> set (pm_invariants (publication_model P)) \<longrightarrow> holds s"
    by (intro allI impI) (drule (1) publication.reachable_safe)
  moreover have "\<forall>tr s i holds. execution (idempotency_model P) tr s \<longrightarrow> (i, holds) \<in> set (pm_invariants (idempotency_model P)) \<longrightarrow> holds s"
    by (intro allI impI) (drule (1) idempotency.reachable_safe)
  moreover have "\<forall>tr s i holds. execution (live_change_model P) tr s \<longrightarrow> (i, holds) \<in> set (pm_invariants (live_change_model P)) \<longrightarrow> holds s"
    by (intro allI impI) (drule (1) live_change.reachable_safe)
  ultimately show ?thesis by (intro conjI)
qed

section \<open>Small instances\<close>

definition sample_counter :: "(nat, unit) protocol_model" where
  "sample_counter = \<lparr>pm_id = ''counter'', pm_initial = 0, pm_actions = [()], pm_state_key = digits_of, pm_action_key = (\<lambda>_. ''inc''),
     pm_transition = (\<lambda>s _. if s < 3 then Some (s + 1) else None), pm_invariants = [(''SMALL'', \<lambda>s. s < 2)],
     pm_json = (\<lambda>s. JNum (Num (of_nat s)))\<rparr>"

lemma counter_execution: "execution sample_counter tr s \<Longrightarrow> s = length tr \<and> s \<le> 3"
  by (induction rule: execution.induct) (auto simp: sample_counter_def split: if_splits)

lemma counter_reaches: "execution sample_counter [''inc'', ''inc''] 2"
proof -
  have "execution sample_counter [] 0" using execution.start [of sample_counter] by (simp add: sample_counter_def)
  from execution.step [OF this, of "()" 1] have "execution sample_counter [''inc''] 1" by (simp add: sample_counter_def)
  from execution.step [OF this, of "()" 2] show ?thesis by (simp add: sample_counter_def)
qed

lemma counter_within: "states_within sample_counter 2 = {0, 1, 2}"
proof -
  have zero: "execution sample_counter [] 0" using execution.start [of sample_counter] by (simp add: sample_counter_def)
  from execution.step [OF this, of "()" 1] have one: "execution sample_counter [''inc''] 1" by (simp add: sample_counter_def)
  have "s \<in> {0, 1, 2}" if "execution sample_counter tr s" "length tr \<le> 2" for tr s
  proof -
    have "s \<le> 2" using counter_execution [OF that(1)] that(2) by simp
    then consider "s = 0" | "s = 1" | "s = 2" by linarith
    then show ?thesis by cases simp_all
  qed
  moreover have "\<exists>tr. execution sample_counter tr s \<and> length tr \<le> 2" if "s \<in> {0, 1, 2}" for s
    using that
  proof (elim insertE emptyE)
    assume "s = 0" then show ?thesis using zero by (intro exI [of _ "[]"]) simp
  next
    assume "s = 1" then show ?thesis using one by (intro exI [of _ "[''inc'']"]) simp
  next
    assume "s = 2" then show ?thesis using counter_reaches by (intro exI [of _ "[''inc'', ''inc'']"]) simp
  qed
  ultimately show ?thesis unfolding states_within_def by blast
qed

lemma counter_returns: "\<exists>r. bounded_model_check P sample_counter (Num (of_nat 2)) = Inr r"
proof -
  have "js_integer (Num (of_nat 2)) = Some 2" using js_integer_of_int [of 2] by simp
  moreover have "\<not> blank ''counter''" by (simp add: blank_iff is_space_def)
  ultimately have valid: "valid_model sample_counter (Num (of_nat 2))" by (simp add: valid_model_def sample_counter_def)
  have "plain (JObj (check_fields sample_counter r))" for r
    by (simp add: check_fields_def violation_value_def sample_counter_def list_all_iff)
  then have hash: "\<exists>h. canonical_hash P (JObj (check_fields sample_counter r)) = Inr h" for r using hash_plain_Inr by blast
  have total: "(\<exists>h. x = Inr h) \<Longrightarrow> \<exists>r. (case x of Inl e \<Rightarrow> Inl (f e) | Inr h \<Rightarrow> Inr (g h)) = Inr r"
    for x :: "(json_error, string) result" and f :: "json_error \<Rightarrow> checker_error" and g :: "string \<Rightarrow> nat check_result" by auto
  show ?thesis unfolding bounded_model_check_def Let_def using valid by (simp only: not_True_eq_False if_False) (rule total [OF hash])
qed

theorem bounded_check_exact_witness:
  "\<exists>r. bounded_model_check sample_platform sample_counter (Num (of_nat 2)) = Inr r \<and> mr_status r = Violated \<and> mr_states r = 3"
proof -
  obtain r where r: "bounded_model_check sample_platform sample_counter (Num (of_nat 2)) = Inr r" using counter_returns by blast
  have "inj_on (pm_state_key sample_counter) {s. \<exists>tr. execution sample_counter tr s}"
    by (auto intro!: inj_onI simp: sample_counter_def digits_of_inject)
  note exact = bounded_check_exact [OF r this]
  have "2 \<in> states_within sample_counter 2" "(''SMALL'', \<lambda>s. s < 2) \<in> set (pm_invariants sample_counter)"
    by (simp_all add: counter_within) (simp add: sample_counter_def)
  then have "mr_status r \<noteq> Verified" using exact by fastforce
  then have "mr_status r = Violated" by (cases "mr_status r") simp_all
  moreover have "mr_states r = 3" using exact by (simp add: counter_within)
  ultimately show ?thesis using r by blast
qed

definition sample_published :: publication_state where
  "sample_published = \<lparr>pub_current = 1, pub_approved = 1, pub_certificate = 1, pub_published = 1\<rparr>"

lemma sample_publication: "execution (publication_model P) [''APPROVE'', ''CERTIFY'', ''PUBLISH''] sample_published"
proof -
  let ?M = "publication_model P"
  have "execution ?M [] \<lparr>pub_current = 1, pub_approved = 0, pub_certificate = 0, pub_published = 0\<rparr>"
    using execution.start [of ?M] by (simp add: publication_model_def)
  from execution.step [OF this, of PubApprove] have "execution ?M [''APPROVE''] \<lparr>pub_current = 1, pub_approved = 1, pub_certificate = 0, pub_published = 0\<rparr>"
    by (simp add: publication_model_def)
  from execution.step [OF this, of PubCertify] have "execution ?M [''APPROVE'', ''CERTIFY''] \<lparr>pub_current = 1, pub_approved = 1, pub_certificate = 1, pub_published = 0\<rparr>"
    by (simp add: publication_model_def)
  from execution.step [OF this, of PubPublish] show ?thesis by (simp add: publication_model_def sample_published_def)
qed

theorem critical_protocols_verified_witness:
  "(\<exists>r. model_check_critical_protocols sample_platform = Inr r \<and> rep_status r = Verified)
   \<and> execution (publication_model sample_platform) [''APPROVE'', ''CERTIFY'', ''PUBLISH''] sample_published
   \<and> (pub_published sample_published = 0 \<or> pub_published sample_published = pub_certificate sample_published)"
proof -
  note c = critical_protocols_verified [of sample_platform]
  have "(''PUBLISHED_REVISION_IS_CERTIFIED'', \<lambda>s. pub_published s = 0 \<or> pub_published s = pub_certificate s)
      \<in> set (pm_invariants (publication_model sample_platform))" by (simp add: publication_model_def)
  from c [THEN conjunct2, THEN conjunct1, rule_format, OF sample_publication this]
  show ?thesis using conjunct1 [OF c] sample_publication by blast
qed

end
