(* ===== verification/SwissPairing.thy ===== *)
theory SwissPairing
  imports JsonValue
begin

text \<open>
  packages/competition-engine/src/ranked-formats.ts, the Swiss part: pairing one round by an exact
  search for the pairing with fewest rematches, then the smallest total score gap, then the
  smallest key.

  \<^item> The search counts its nodes and gives up at an explicit limit, as the code does; it is the
    mutually recursive \<open>pair_search\<close> (a node) and \<open>try_partners\<close> (the loop over partners).
  \<^item> Scores are exact rationals: rounding of sums of doubles is not modelled (integers and halves,
    which the formats use, are exact in doubles).
  \<^item> \<open>swiss_pairing_optimal\<close>: a certified round pairs the active competitors of the request, but the one who
    rests, and no pairing of them in any order costs less; PAIRING_INFEASIBLE is returned only when none obeys the rematch policy.
\<close>

section \<open>Data\<close>

record swiss_competitor =
  sc_id :: string
  sc_points :: jsnum
  sc_opponents :: "string list"
  sc_byes :: jsnum
  sc_withdrawn :: "bool option"

datatype rematch_policy = RematchForbidden | RematchMinimize

datatype bye_policy = LowestWithoutBye | LowestRanked

record swiss_policy =
  sp_rematches :: rematch_policy
  sp_bye :: "bye_policy option"
  sp_limit :: "jsnum option"

record swiss_request =
  sr_round :: jsnum
  sr_competitors :: "swiss_competitor list"
  sr_policy :: swiss_policy

record swiss_pairing =
  pr_board :: nat
  pr_left :: string
  pr_right :: string
  pr_gap :: rat
  pr_rematch :: bool

record swiss_bye =
  bye_competitor :: string
  bye_reason :: string

record swiss_proof =
  spf_coverage :: bool
  spf_active :: int
  spf_paired :: nat
  spf_excluded :: "string list"
  spf_rematches :: nat
  spf_gap :: rat
  spf_nodes :: nat
  spf_limit :: jsnum
  spf_constraints :: "string list"

type_synonym format_finding = "string \<times> string \<times> string list option"

record swiss_output =
  so_certified :: bool
  so_round :: jsnum
  so_pairings :: "swiss_pairing list"
  so_bye :: "swiss_bye option"
  so_proof :: swiss_proof
  so_findings :: "format_finding list"
  so_hash :: string

section \<open>JSON values\<close>

definition strs :: "string list \<Rightarrow> jsval" where
  "strs xs = JArr (map JStr xs)"

definition jnat :: "nat \<Rightarrow> jsval" where
  "jnat n = JNum (Num (of_nat n))"

definition status_json :: "bool \<Rightarrow> jsval" where
  "status_json b = JStr (if b then ''CERTIFIED'' else ''REJECTED'')"

definition format_finding_json :: "format_finding \<Rightarrow> jsval" where
  "format_finding_json f = (case f of (c, m, ids) \<Rightarrow> JObj ([(''code'', JStr c), (''message'', JStr m)]
     @ (case ids of None \<Rightarrow> [] | Some xs \<Rightarrow> [(''competitorIds'', strs xs)])))"

definition swiss_pairing_json :: "swiss_pairing \<Rightarrow> jsval" where
  "swiss_pairing_json p = JObj [(''board'', jnat (pr_board p)), (''competitors'', strs [pr_left p, pr_right p]),
     (''scoreGap'', JNum (Num (pr_gap p))), (''rematch'', JBool (pr_rematch p))]"

definition swiss_proof_json :: "swiss_proof \<Rightarrow> jsval" where
  "swiss_proof_json p = JObj [(''completeCoverage'', JBool (spf_coverage p)), (''activeCompetitorCount'', JNum (Num (of_int (spf_active p)))),
     (''pairedCompetitorCount'', jnat (spf_paired p)), (''excludedCompetitorIds'', strs (spf_excluded p)),
     (''rematchCount'', jnat (spf_rematches p)), (''scoreGap'', JNum (Num (spf_gap p))), (''searchNodes'', jnat (spf_nodes p)),
     (''searchNodeLimit'', JNum (spf_limit p)), (''constraints'', strs (spf_constraints p))]"

definition swiss_body_json :: "swiss_output \<Rightarrow> jsval" where
  "swiss_body_json b = JObj [(''status'', status_json (so_certified b)), (''round'', JNum (so_round b)),
     (''pairings'', JArr (map swiss_pairing_json (so_pairings b))),
     (''bye'', case so_bye b of None \<Rightarrow> JNull | Some x \<Rightarrow> JObj [(''competitorId'', JStr (bye_competitor x)), (''reason'', JStr (bye_reason x))]),
     (''proof'', swiss_proof_json (so_proof b)), (''findings'', JArr (map format_finding_json (so_findings b)))]"

text \<open>\<^verbatim>\<open>findingsHash\<close>\<close>

definition sealed_swiss :: "platform \<Rightarrow> swiss_output \<Rightarrow> swiss_output" where
  "sealed_swiss P b = b\<lparr>so_hash := ledger_hash P (swiss_body_json b)\<rparr>"

section \<open>Helpers\<close>

definition num_value :: "jsnum \<Rightarrow> rat" where
  "num_value n = (case js_finite n of None \<Rightarrow> 0 | Some r \<Rightarrow> r)"

fun duplicates_acc :: "string list \<Rightarrow> string list \<Rightarrow> string list" where
  "duplicates_acc seen [] = []"
| "duplicates_acc seen (x # xs) = (if List.member seen x then x # duplicates_acc seen xs else duplicates_acc (x # seen) xs)"

definition duplicate_ids :: "string list \<Rightarrow> string list" where
  "duplicate_ids ids = sort (js_unique (duplicates_acc [] ids))"

fun rematch_text :: "rematch_policy \<Rightarrow> string" where
  "rematch_text RematchForbidden = ''FORBIDDEN''"
| "rematch_text RematchMinimize = ''MINIMIZE''"

fun bye_text :: "bye_policy \<Rightarrow> string" where
  "bye_text LowestWithoutBye = ''LOWEST_RANKED_WITHOUT_BYE''"
| "bye_text LowestRanked = ''LOWEST_RANKED''"

definition bye_constraint :: "string \<Rightarrow> bye_policy option \<Rightarrow> string" where
  "bye_constraint missing b = ''bye:'' @ (case b of None \<Rightarrow> missing | Some x \<Rightarrow> bye_text x)"

definition node_limit :: "swiss_policy \<Rightarrow> jsnum" where
  "node_limit p = (case sp_limit p of None \<Rightarrow> Num 250000 | Some n \<Rightarrow> n)"

definition is_withdrawn :: "bool option \<Rightarrow> bool" where
  "is_withdrawn w = (w = Some True)"

definition swiss_rejected :: "platform \<Rightarrow> swiss_request \<Rightarrow> format_finding list \<Rightarrow> string list \<Rightarrow> swiss_output" where
  "swiss_rejected P q fs excluded = sealed_swiss P
     \<lparr>so_certified = False, so_round = sr_round q, so_pairings = [], so_bye = None,
      so_proof = \<lparr>spf_coverage = False, spf_active = int (length (sr_competitors q)) - int (length excluded), spf_paired = 0,
        spf_excluded = excluded, spf_rematches = 0, spf_gap = 0, spf_nodes = 0, spf_limit = node_limit (sr_policy q),
        spf_constraints = [''rematches:'' @ rematch_text (sp_rematches (sr_policy q)), bye_constraint ''UNSPECIFIED'' (sp_bye (sr_policy q))]\<rparr>,
      so_findings = fs, so_hash = []\<rparr>"

section \<open>The search\<close>

type_synonym pairs = "(swiss_competitor \<times> swiss_competitor) list"

record pairing_candidate =
  pc_pairs :: pairs
  pc_rematches :: nat
  pc_gap :: rat
  pc_key :: string

record pair_search_state =
  ps_best :: "pairing_candidate option"
  ps_nodes :: nat
  ps_reached :: bool

definition is_rematch :: "swiss_competitor \<Rightarrow> swiss_competitor \<Rightarrow> bool" where
  "is_rematch l r = (List.member (sc_opponents l) (sc_id r) \<or> List.member (sc_opponents r) (sc_id l))"

definition score_gap :: "swiss_competitor \<Rightarrow> swiss_competitor \<Rightarrow> rat" where
  "score_gap l r = \<bar>num_value (sc_points l) - num_value (sc_points r)\<bar>"

definition pairs_key :: "pairs \<Rightarrow> string" where
  "pairs_key ps = join ''|'' (map (\<lambda>(l, r). sc_id l @ '':'' @ sc_id r) ps)"

definition better_candidate :: "pairing_candidate \<Rightarrow> pairing_candidate \<Rightarrow> bool" where
  "better_candidate c b = (pc_rematches c < pc_rematches b
     \<or> pc_rematches c = pc_rematches b \<and> (pc_gap c < pc_gap b \<or> pc_gap c = pc_gap b \<and> pc_key c < pc_key b))"

definition offer :: "pairing_candidate \<Rightarrow> pairing_candidate option \<Rightarrow> pairing_candidate option" where
  "offer c best = (case best of None \<Rightarrow> Some c | Some b \<Rightarrow> if better_candidate c b then Some c else Some b)"

definition pruned :: "nat \<Rightarrow> rat \<Rightarrow> pairing_candidate option \<Rightarrow> bool" where
  "pruned r g best = (case best of None \<Rightarrow> False | Some b \<Rightarrow> r > pc_rematches b \<or> r = pc_rematches b \<and> g > pc_gap b)"

function (sequential) pair_search :: "rematch_policy \<Rightarrow> nat \<Rightarrow> swiss_competitor list \<Rightarrow> pairs \<Rightarrow> nat \<Rightarrow> rat
    \<Rightarrow> pair_search_state \<Rightarrow> pair_search_state"
  and try_partners :: "rematch_policy \<Rightarrow> nat \<Rightarrow> swiss_competitor \<Rightarrow> swiss_competitor list \<Rightarrow> swiss_competitor list \<Rightarrow> pairs \<Rightarrow> nat \<Rightarrow> rat
    \<Rightarrow> pair_search_state \<Rightarrow> pair_search_state" where
  "pair_search pol limit remaining ps r g st =
     (let st' = st\<lparr>ps_nodes := ps_nodes st + 1\<rparr>
      in if ps_nodes st' > limit then st'\<lparr>ps_reached := True\<rparr>
         else (case remaining of
                 [] \<Rightarrow> st'\<lparr>ps_best := offer \<lparr>pc_pairs = ps, pc_rematches = r, pc_gap = g, pc_key = pairs_key ps\<rparr> (ps_best st')\<rparr>
               | left # rest \<Rightarrow> try_partners pol limit left [] rest ps r g st'))"
| "try_partners pol limit left before [] ps r g st = st"
| "try_partners pol limit left before (right # after) ps r g st =
     (if ps_reached st then st
      else
        (let rematch = is_rematch left right;
             r' = r + (if rematch then 1 else 0);
             g' = g + score_gap left right
         in if rematch \<and> pol = RematchForbidden \<or> pruned r' g' (ps_best st)
            then try_partners pol limit left (before @ [right]) after ps r g st
            else try_partners pol limit left (before @ [right]) after ps r g
              (pair_search pol limit (before @ after) (ps @ [(left, right)]) r' g' st)))"
  by pat_completeness auto

termination
  by (relation "measures [\<lambda>x. case x of Inl (_, _, rem, _) \<Rightarrow> 2 * length rem | Inr (_, _, _, before, rest, _) \<Rightarrow> 2 * (length before + length rest) + 1,
      \<lambda>x. case x of Inl _ \<Rightarrow> 0 | Inr (_, _, _, _, rest, _) \<Rightarrow> length rest]") auto

declare pair_search.simps [simp del] try_partners.simps(2) [simp del]

section \<open>A round\<close>

definition active_field :: "platform \<Rightarrow> swiss_request \<Rightarrow> swiss_competitor list" where
  "active_field P q = sort_by (\<lambda>a b. or_else (num_cmp (num_value (sc_points b)) (num_value (sc_points a))) (locale_compare P (sc_id a) (sc_id b)))
     (filter (\<lambda>c. \<not> is_withdrawn (sc_withdrawn c)) (sr_competitors q))"

definition bye_candidates :: "bye_policy \<Rightarrow> swiss_competitor list \<Rightarrow> swiss_competitor list" where
  "bye_candidates b active = (case b of
     LowestWithoutBye \<Rightarrow> filter (\<lambda>c. js_finite (sc_byes c) = Some 0) active
   | LowestRanked \<Rightarrow> active)"

definition bye_reason_text :: "bye_policy \<Rightarrow> string" where
  "bye_reason_text b = (case b of LowestWithoutBye \<Rightarrow> ''lowest-ranked-active-competitor-without-prior-bye''
     | LowestRanked \<Rightarrow> ''lowest-ranked-active-competitor'')"

fun remove_first :: "string \<Rightarrow> swiss_competitor list \<Rightarrow> swiss_competitor list" where
  "remove_first i [] = []"
| "remove_first i (c # cs) = (if sc_id c = i then cs else c # remove_first i cs)"

definition competitor_invalid :: "swiss_competitor \<Rightarrow> bool" where
  "competitor_invalid c = (blank (sc_id c) \<or> js_finite (sc_points c) = None
     \<or> (case js_integer (sc_byes c) of None \<Rightarrow> True | Some i \<Rightarrow> i < 0))"

definition board_pairing :: "nat \<Rightarrow> swiss_competitor \<times> swiss_competitor \<Rightarrow> swiss_pairing" where
  "board_pairing i p = (case p of (l, r) \<Rightarrow> \<lparr>pr_board = i + 1, pr_left = sc_id l, pr_right = sc_id r, pr_gap = score_gap l r, pr_rematch = is_rematch l r\<rparr>)"

definition positive_int :: "jsnum \<Rightarrow> bool" where
  "positive_int n = (case js_integer n of None \<Rightarrow> False | Some i \<Rightarrow> 1 \<le> i)"

text \<open>The pairing of the field that is left after the bye.\<close>

definition pair_field :: "platform \<Rightarrow> swiss_request \<Rightarrow> string list \<Rightarrow> swiss_competitor list \<Rightarrow> swiss_bye option \<Rightarrow> swiss_output" where
  "pair_field P q excluded active bye =
     (let pol = sr_policy q;
          limit = node_limit pol;
          st = pair_search (sp_rematches pol) (case js_integer limit of None \<Rightarrow> 0 | Some i \<Rightarrow> nat i) active [] 0 0
            \<lparr>ps_best = None, ps_nodes = 0, ps_reached = False\<rparr>;
          count = int (length active) + (if bye = None then 0 else 1);
          rules = [''rematches:'' @ rematch_text (sp_rematches pol), bye_constraint ''NOT_REQUIRED'' (sp_bye pol)]
      in if ps_reached st then sealed_swiss P
           \<lparr>so_certified = False, so_round = sr_round q, so_pairings = [], so_bye = None,
            so_proof = \<lparr>spf_coverage = False, spf_active = count, spf_paired = 0, spf_excluded = excluded, spf_rematches = 0, spf_gap = 0,
              spf_nodes = ps_nodes st, spf_limit = limit, spf_constraints = rules @ [''exact-search-required'']\<rparr>,
            so_findings = [(''PAIRING_SEARCH_LIMIT'',
              ''The exact pairing search reached its explicit node limit before optimality could be proven.'', None)], so_hash = []\<rparr>
         else (case ps_best st of
                 None \<Rightarrow> swiss_rejected P q [(''PAIRING_INFEASIBLE'', ''No complete pairing satisfies the pinned rematch policy.'', None)] excluded
               | Some c \<Rightarrow>
                   (let ps = map (\<lambda>(i, p). board_pairing i p) (enumerate 0 (pc_pairs c));
                        covered = js_unique (concat (map (\<lambda>p. [pr_left p, pr_right p]) ps))
                    in sealed_swiss P
                      \<lparr>so_certified = True, so_round = sr_round q, so_pairings = ps, so_bye = bye,
                       so_proof = \<lparr>spf_coverage = (length covered = length active \<and> length ps * 2 = length active), spf_active = count,
                         spf_paired = length covered, spf_excluded = excluded, spf_rematches = pc_rematches c, spf_gap = pc_gap c,
                         spf_nodes = ps_nodes st, spf_limit = limit,
                         spf_constraints = rules @ [''minimum-rematches'', ''minimum-total-score-gap'', ''lexical-tie-break'']\<rparr>,
                       so_findings = [], so_hash = []\<rparr>)))"

definition pair_swiss_round :: "platform \<Rightarrow> swiss_request \<Rightarrow> swiss_output" where
  "pair_swiss_round P q =
     (let excluded = sort (map sc_id (filter (\<lambda>c. is_withdrawn (sc_withdrawn c)) (sr_competitors q)));
          active = active_field P q;
          duplicates = duplicate_ids (map sc_id (sr_competitors q));
          rejected = (\<lambda>c m ids. swiss_rejected P q [(c, m, ids)] excluded)
      in if \<not> positive_int (sr_round q) then rejected ''INVALID_ROUND'' ''Swiss round must be a positive integer.'' None
         else if (case sp_limit (sr_policy q) of None \<Rightarrow> False | Some n \<Rightarrow> \<not> positive_int n)
         then rejected ''INVALID_SEARCH_LIMIT'' ''Swiss search node limit must be a positive integer.'' None
         else if duplicates \<noteq> [] \<or> list_ex competitor_invalid (sr_competitors q)
         then rejected ''INVALID_COMPETITOR_SET'' ''Competitors require unique ids, finite points, and non-negative integer bye counts.'' (Some duplicates)
         else if length active < 2 then rejected ''INSUFFICIENT_ACTIVE_COMPETITORS'' ''At least two active competitors are required.'' None
         else if odd (length active) then
           (case sp_bye (sr_policy q) of
              None \<Rightarrow> rejected ''BYE_POLICY_REQUIRED'' ''An odd active field requires an explicit bye policy.'' None
            | Some b \<Rightarrow>
                (let eligible = bye_candidates b active
                 in if eligible = [] then rejected ''BYE_INFEASIBLE'' ''No competitor satisfies the pinned no-repeat-bye policy.'' None
                    else (let selected = last eligible
                          in pair_field P q excluded (remove_first (sc_id selected) active)
                               (Some \<lparr>bye_competitor = sc_id selected, bye_reason = bye_reason_text b\<rparr>))))
         else pair_field P q excluded active None)"

section \<open>The search is exact\<close>

text \<open>
  The complete pairings of a field: the first competitor is paired with some other one, and the rest
  is paired completely.
\<close>

inductive complete_pairing :: "swiss_competitor list \<Rightarrow> pairs \<Rightarrow> bool" where
  none: "complete_pairing [] []"
| pair: "complete_pairing (before @ after) ps \<Longrightarrow> complete_pairing (left # before @ right # after) ((left, right) # ps)"

definition rematch_total :: "pairs \<Rightarrow> nat" where
  "rematch_total ps = length (filter (\<lambda>(l, r). is_rematch l r) ps)"

definition gap_total :: "pairs \<Rightarrow> rat" where
  "gap_total ps = sum_list (map (\<lambda>(l, r). score_gap l r) ps)"

definition allowed :: "rematch_policy \<Rightarrow> pairs \<Rightarrow> bool" where
  "allowed pol ps \<longleftrightarrow> (pol = RematchForbidden \<longrightarrow> rematch_total ps = 0)"

definition pairing_cost :: "pairs \<Rightarrow> nat \<times> rat \<times> string" where
  "pairing_cost ps = (rematch_total ps, gap_total ps, pairs_key ps)"

definition candidate_rank :: "pairing_candidate \<Rightarrow> nat \<times> rat \<times> string" where
  "candidate_rank c = (pc_rematches c, pc_gap c, pc_key c)"

lemma better_candidate_rank: "better_candidate c b \<longleftrightarrow> candidate_rank c < candidate_rank b"
  by (auto simp: better_candidate_def candidate_rank_def)

lemma offer_Some: "\<exists>b. offer c best = Some b \<and> candidate_rank b \<le> candidate_rank c
    \<and> (\<forall>b0. best = Some b0 \<longrightarrow> candidate_rank b \<le> candidate_rank b0) \<and> (b = c \<or> best = Some b)"
  by (auto simp: offer_def better_candidate_rank split: option.splits)

lemma totals_Cons:
  "rematch_total ((l, r) # ps) = (if is_rematch l r then 1 else 0) + rematch_total ps"
  "gap_total ((l, r) # ps) = score_gap l r + gap_total ps"
  by (simp_all add: rematch_total_def gap_total_def)

lemma totals_append:
  "rematch_total (ps @ qs) = rematch_total ps + rematch_total qs" "gap_total (ps @ qs) = gap_total ps + gap_total qs"
  by (simp_all add: rematch_total_def gap_total_def)

lemma gap_total_nonneg: "0 \<le> gap_total ps"
  by (induction ps) (auto simp: gap_total_def score_gap_def)

lemma pruned_rank:
  assumes "pruned r g best" "r \<le> r'" "g \<le> g'"
  shows "\<exists>b. best = Some b \<and> candidate_rank b \<le> (r', g', k)"
  using assms by (auto simp: pruned_def candidate_rank_def split: option.splits)

lemma reached_stays:
  "ps_reached st \<Longrightarrow> ps_reached (pair_search pol limit remaining ps r g st)"
  "ps_reached st \<Longrightarrow> ps_reached (try_partners pol limit left before rest ps r g st)"
proof (induction pol limit remaining ps r g st and pol limit left before rest ps r g st rule: pair_search_try_partners.induct)
  case (1 pol limit remaining ps r g st)
  then show ?case by (subst pair_search.simps) (auto simp: Let_def split: list.splits)
next
  case (3 pol limit left before right after ps r g st)
  then show ?case by (simp add: try_partners.simps(2))
qed simp

text \<open>What a search that was not cut off leaves as the best candidate.\<close>

definition improves :: "pairing_candidate option \<Rightarrow> pairing_candidate option \<Rightarrow> bool" where
  "improves best best' \<longleftrightarrow> (\<forall>b. best = Some b \<longrightarrow> (\<exists>b'. best' = Some b' \<and> candidate_rank b' \<le> candidate_rank b))"

definition reaches :: "pairing_candidate option \<Rightarrow> pairs \<Rightarrow> bool" where
  "reaches best ps \<longleftrightarrow> (\<exists>b. best = Some b \<and> candidate_rank b \<le> pairing_cost ps)"

definition candidate_of :: "pairs \<Rightarrow> pairing_candidate" where
  "candidate_of ps = \<lparr>pc_pairs = ps, pc_rematches = rematch_total ps, pc_gap = gap_total ps, pc_key = pairs_key ps\<rparr>"

lemma improves_refl [simp]: "improves b b"
  by (simp add: improves_def)

lemma improves_trans: "improves a b \<Longrightarrow> improves b c \<Longrightarrow> improves a c"
  unfolding improves_def by (blast intro: order_trans)

lemma reaches_improves: "reaches a ps \<Longrightarrow> improves a b \<Longrightarrow> reaches b ps"
  unfolding reaches_def improves_def by (blast intro: order_trans)

lemma candidate_rank_of [simp]: "candidate_rank (candidate_of ps) = pairing_cost ps"
  by (simp add: candidate_of_def candidate_rank_def pairing_cost_def)

lemma complete_pairing_Cons:
  "complete_pairing (left # rest) ext \<longleftrightarrow>
    (\<exists>xs right after ext'. rest = xs @ right # after \<and> ext = (left, right) # ext' \<and> complete_pairing (xs @ after) ext')"
proof
  assume "complete_pairing (left # rest) ext"
  then show "\<exists>xs right after ext'. rest = xs @ right # after \<and> ext = (left, right) # ext' \<and> complete_pairing (xs @ after) ext'"
    by (cases rule: complete_pairing.cases) blast
qed (auto intro: complete_pairing.pair)

lemma complete_pairing_Nil: "complete_pairing [] ext \<longleftrightarrow> ext = []"
  by (auto elim: complete_pairing.cases intro: complete_pairing.none)

lemma search_exact:
  "\<not> ps_reached (pair_search pol limit remaining ps r g st) \<Longrightarrow> r = rematch_total ps \<Longrightarrow> g = gap_total ps \<Longrightarrow>
    improves (ps_best st) (ps_best (pair_search pol limit remaining ps r g st))
    \<and> (\<forall>ext. complete_pairing remaining ext \<longrightarrow> allowed pol ext \<longrightarrow> reaches (ps_best (pair_search pol limit remaining ps r g st)) (ps @ ext))
    \<and> (\<forall>b. ps_best (pair_search pol limit remaining ps r g st) = Some b \<longrightarrow> ps_best st = Some b
        \<or> (\<exists>ext. complete_pairing remaining ext \<and> allowed pol ext \<and> b = candidate_of (ps @ ext)))"
  "\<not> ps_reached (try_partners pol limit left before rest ps r g st) \<Longrightarrow> r = rematch_total ps \<Longrightarrow> g = gap_total ps \<Longrightarrow>
    improves (ps_best st) (ps_best (try_partners pol limit left before rest ps r g st))
    \<and> (\<forall>xs right after ext. rest = xs @ right # after \<longrightarrow> complete_pairing (before @ xs @ after) ext \<longrightarrow> allowed pol ((left, right) # ext) \<longrightarrow>
          reaches (ps_best (try_partners pol limit left before rest ps r g st)) (ps @ (left, right) # ext))
    \<and> (\<forall>b. ps_best (try_partners pol limit left before rest ps r g st) = Some b \<longrightarrow> ps_best st = Some b
        \<or> (\<exists>xs right after ext. rest = xs @ right # after \<and> complete_pairing (before @ xs @ after) ext
            \<and> allowed pol ((left, right) # ext) \<and> b = candidate_of (ps @ (left, right) # ext)))"
proof (induction pol limit remaining ps r g st and pol limit left before rest ps r g st rule: pair_search_try_partners.induct)
  case (1 pol limit remaining ps r g st)
  let ?st = "st\<lparr>ps_nodes := ps_nodes st + 1\<rparr>"
  have nodes: "\<not> ps_nodes ?st > limit" using "1.prems"(1) by (subst (asm) pair_search.simps) (auto simp: Let_def split: if_splits)
  show ?case
  proof (cases remaining)
    case Nil
    have res: "ps_best (pair_search pol limit remaining ps r g st) = offer (candidate_of ps) (ps_best st)"
      using nodes by (subst pair_search.simps) (simp add: Let_def Nil candidate_of_def "1.prems"(2,3))
    obtain b where b: "offer (candidate_of ps) (ps_best st) = Some b" "candidate_rank b \<le> pairing_cost ps"
      "\<forall>b0. ps_best st = Some b0 \<longrightarrow> candidate_rank b \<le> candidate_rank b0" "b = candidate_of ps \<or> ps_best st = Some b"
      using offer_Some [of "candidate_of ps" "ps_best st"] by auto
    have "allowed pol []" by (simp add: allowed_def rematch_total_def)
    then show ?thesis unfolding res b(1) using b(2-4) by (auto simp: improves_def reaches_def Nil complete_pairing_Nil)
  next
    case (Cons left rest)
    have res: "pair_search pol limit remaining ps r g st = try_partners pol limit left [] rest ps r g ?st"
      using nodes by (subst pair_search.simps) (simp add: Let_def Cons)
    note IH = "1.IH" [OF refl nodes Cons, folded res, OF "1.prems"]
    show ?thesis using IH unfolding Cons complete_pairing_Cons by (simp del: ex_simps) (metis append_Nil)
  qed
next
  case (2 pol limit left before ps r g st)
  then show ?case by simp
next
  case (3 pol limit left before right after ps r g st)
  let ?R = "try_partners pol limit left before (right # after) ps r g st"
  let ?r = "r + (if is_rematch left right then 1 else 0)" and ?g = "g + score_gap left right"
  have live: "\<not> ps_reached st" using "3.prems"(1) reached_stays(2) by blast
  have sums: "?r = rematch_total (ps @ [(left, right)])" "?g = gap_total (ps @ [(left, right)])"
    using "3.prems"(2,3) by (simp_all add: totals_append totals_Cons) (simp_all add: rematch_total_def gap_total_def)
  have cost: "pairing_cost (ps @ (left, right) # ext) = (?r + rematch_total ext, ?g + gap_total ext, pairs_key (ps @ (left, right) # ext))" for ext
    using "3.prems"(2,3) by (simp add: pairing_cost_def totals_append totals_Cons)
  have split: "right # after = xs @ right' # after' \<longleftrightarrow> xs = [] \<and> right' = right \<and> after' = after \<or> (\<exists>ys. xs = right # ys \<and> after = ys @ right' # after')"
    for xs right' after' by (cases xs) auto
  show ?case
  proof (cases "is_rematch left right \<and> pol = RematchForbidden \<or> pruned ?r ?g (ps_best st)")
    case True
    have res: "?R = try_partners pol limit left (before @ [right]) after ps r g st"
      using live True by (simp add: try_partners.simps(2) Let_def)
    note IH = "3.IH"(1) [OF live refl refl refl True "3.prems" [unfolded res]]
    have skipped: "reaches (ps_best ?R) (ps @ (left, right) # ext)" if "allowed pol ((left, right) # ext)" for ext
    proof -
      have "\<not> (is_rematch left right \<and> pol = RematchForbidden)" using that by (auto simp: allowed_def totals_Cons)
      then have "pruned ?r ?g (ps_best st)" using True by blast
      then obtain b where "ps_best st = Some b" "candidate_rank b \<le> pairing_cost (ps @ (left, right) # ext)"
        unfolding cost using pruned_rank [of ?r ?g "ps_best st" "?r + rematch_total ext" "?g + gap_total ext"] gap_total_nonneg [of ext] by auto
      then have "reaches (ps_best st) (ps @ (left, right) # ext)" by (auto simp: reaches_def)
      then show ?thesis using IH unfolding res by (blast intro: reaches_improves)
    qed
    have old: "improves (ps_best st) (ps_best ?R)" "\<And>ys right' after' ext. after = ys @ right' # after' \<Longrightarrow> complete_pairing ((before @ [right]) @ ys @ after') ext
        \<Longrightarrow> allowed pol ((left, right') # ext) \<Longrightarrow> reaches (ps_best ?R) (ps @ (left, right') # ext)"
      "\<And>b. ps_best ?R = Some b \<Longrightarrow> ps_best st = Some b \<or> (\<exists>xs right' after' ext. after = xs @ right' # after' \<and> complete_pairing ((before @ [right]) @ xs @ after') ext
            \<and> allowed pol ((left, right') # ext) \<and> b = candidate_of (ps @ (left, right') # ext))"
      using IH unfolding res by blast+
    show ?thesis
    proof (intro conjI allI impI)
      fix xs right' after' ext
      assume x: "right # after = xs @ right' # after'" "complete_pairing (before @ xs @ after') ext" "allowed pol ((left, right') # ext)"
      then show "reaches (ps_best ?R) (ps @ (left, right') # ext)"
        using skipped old(2) unfolding split by auto
    next
      fix b assume "ps_best ?R = Some b"
      from old(3) [OF this] show "ps_best st = Some b \<or> (\<exists>xs right' after' ext. right # after = xs @ right' # after' \<and> complete_pairing (before @ xs @ after') ext
            \<and> allowed pol ((left, right') # ext) \<and> b = candidate_of (ps @ (left, right') # ext))"
        by (elim disjE exE conjE) (simp, rule disjI2, rule_tac x = "right # xs" in exI, auto)
    qed (rule old(1))
  next
    case False
    let ?mid = "pair_search pol limit (before @ after) (ps @ [(left, right)]) ?r ?g st"
    have res: "?R = try_partners pol limit left (before @ [right]) after ps r g ?mid"
      by (simp only: try_partners.simps(2) Let_def False live if_False)
    have mid: "\<not> ps_reached ?mid" using "3.prems"(1) reached_stays(2) unfolding res by blast
    note A = "3.IH"(2) [OF live refl refl refl False mid sums]
    note B = "3.IH"(3) [OF live refl refl refl False "3.prems" [unfolded res]]
    have mid_improves: "improves (ps_best st) (ps_best ?mid)" using A by blast
    have first: "reaches (ps_best ?R) (ps @ (left, right) # ext)"
      if "complete_pairing (before @ after) ext" "allowed pol ((left, right) # ext)" for ext
    proof -
      have "allowed pol ext" using that(2) by (auto simp: allowed_def totals_Cons)
      then have "reaches (ps_best ?mid) ((ps @ [(left, right)]) @ ext)" using A that(1) by blast
      then show ?thesis using B unfolding res by (auto intro: reaches_improves)
    qed
    have later: "reaches (ps_best ?R) (ps @ (left, right') # ext)"
      if "after = ys @ right' # after'" "complete_pairing (before @ right # ys @ after') ext" "allowed pol ((left, right') # ext)" for ys right' after' ext
      using B that unfolding res by auto
    have origin: "ps_best ?mid = Some b \<or> (\<exists>xs right' after' ext. after = xs @ right' # after' \<and> complete_pairing (before @ right # xs @ after') ext
            \<and> allowed pol ((left, right') # ext) \<and> b = candidate_of (ps @ (left, right') # ext))" if "ps_best ?R = Some b" for b
      using B that unfolding res by auto
    have permitted: "allowed pol ext \<Longrightarrow> allowed pol ((left, right) # ext)" for ext
      using False by (auto simp: allowed_def totals_Cons)
    have origin': "ps_best st = Some b \<or> (\<exists>ext. complete_pairing (before @ after) ext \<and> allowed pol ((left, right) # ext)
        \<and> b = candidate_of (ps @ (left, right) # ext))" if "ps_best ?mid = Some b" for b
      using A that permitted by auto
    show ?thesis
    proof (intro conjI allI impI)
      show "improves (ps_best st) (ps_best ?R)" using mid_improves B unfolding res by (blast intro: improves_trans)
    next
      fix xs right' after' ext
      assume x: "right # after = xs @ right' # after'" "complete_pairing (before @ xs @ after') ext" "allowed pol ((left, right') # ext)"
      then show "reaches (ps_best ?R) (ps @ (left, right') # ext)" using first later unfolding split by auto
    next
      fix b assume "ps_best ?R = Some b"
      from origin [OF this] origin' [of b] show "ps_best st = Some b \<or> (\<exists>xs right' after' ext. right # after = xs @ right' # after'
            \<and> complete_pairing (before @ xs @ after') ext \<and> allowed pol ((left, right') # ext) \<and> b = candidate_of (ps @ (left, right') # ext))"
        unfolding split by (metis append_Cons append_Nil)
    qed
  qed
qed

section \<open>Certified rounds\<close>

definition pair_ids :: "pairs \<Rightarrow> string list" where
  "pair_ids ps = concat (map (\<lambda>(l, r). [sc_id l, sc_id r]) ps)"

lemma complete_pairing_ids: "complete_pairing cs ps \<Longrightarrow> mset (pair_ids ps) = mset (map sc_id cs) \<and> 2 * length ps = length cs"
  by (induction rule: complete_pairing.induct) (auto simp: pair_ids_def)

lemma duplicates_acc_Nil: "duplicates_acc seen xs = [] \<longleftrightarrow> distinct xs \<and> set xs \<inter> set seen = {}"
  by (induction seen xs rule: duplicates_acc.induct) auto

lemma duplicate_ids_Nil: "duplicate_ids xs = [] \<longleftrightarrow> distinct xs"
proof -
  have "sort ys = [] \<longleftrightarrow> ys = []" for ys :: "string list" by (metis length_0_conv length_sort)
  moreover have "js_unique ys = [] \<longleftrightarrow> ys = []" for ys :: "string list" by (metis set_js_unique set_empty)
  ultimately show ?thesis by (simp add: duplicate_ids_def duplicates_acc_Nil)
qed

lemma length_js_unique: "distinct xs \<Longrightarrow> length (js_unique xs) = length xs"
  by (metis distinct_card distinct_js_unique set_js_unique)

lemma board_ids: "concat (map (\<lambda>p. [pr_left p, pr_right p]) (map (\<lambda>(i, p). board_pairing i p) (enumerate n ps))) = pair_ids ps"
  by (induction ps arbitrary: n) (auto simp: pair_ids_def board_pairing_def)

lemma sealed_swiss_fields [simp]:
  "so_certified (sealed_swiss P b) = so_certified b" "so_pairings (sealed_swiss P b) = so_pairings b" "so_bye (sealed_swiss P b) = so_bye b"
  "so_proof (sealed_swiss P b) = so_proof b" "so_findings (sealed_swiss P b) = so_findings b" "so_round (sealed_swiss P b) = so_round b"
  by (simp_all add: sealed_swiss_def)

lemma swiss_rejected_fields [simp]:
  "\<not> so_certified (swiss_rejected P q fs ex)" "so_findings (swiss_rejected P q fs ex) = fs"
  by (simp_all add: swiss_rejected_def)

definition boards :: "pairs \<Rightarrow> swiss_pairing list" where
  "boards ps = map (\<lambda>(i, p). board_pairing i p) (enumerate 0 ps)"

text \<open>What the output of \<open>pair_field\<close> says about the pairings of the field.\<close>

lemma pair_field_spec:
  defines "best_of \<equiv> \<lambda>pol active ps. complete_pairing active ps \<and> allowed pol ps
    \<and> (\<forall>other. complete_pairing active other \<longrightarrow> allowed pol other \<longrightarrow> pairing_cost ps \<le> pairing_cost other)"
  shows "so_certified (pair_field P q ex active bye) \<Longrightarrow> \<exists>ps. best_of (sp_rematches (sr_policy q)) active ps
      \<and> so_pairings (pair_field P q ex active bye) = boards ps \<and> so_bye (pair_field P q ex active bye) = bye
      \<and> spf_rematches (so_proof (pair_field P q ex active bye)) = rematch_total ps
      \<and> (distinct (map sc_id active) \<longrightarrow> spf_coverage (so_proof (pair_field P q ex active bye)))"
    "(''PAIRING_INFEASIBLE'', m, ids) \<in> set (so_findings (pair_field P q ex active bye)) \<Longrightarrow>
      \<not> (\<exists>ps. complete_pairing active ps \<and> allowed (sp_rematches (sr_policy q)) ps)"
proof -
  let ?pol = "sp_rematches (sr_policy q)"
  let ?limit = "case js_integer (node_limit (sr_policy q)) of None \<Rightarrow> 0 | Some i \<Rightarrow> nat i"
  let ?st = "pair_search ?pol ?limit active [] 0 0 \<lparr>ps_best = None, ps_nodes = 0, ps_reached = False\<rparr>"
  have zero: "0 = rematch_total []" "0 = gap_total []" by (simp_all add: rematch_total_def gap_total_def)
  have exact: "(\<forall>other. complete_pairing active other \<longrightarrow> allowed ?pol other \<longrightarrow> reaches (ps_best ?st) other)
      \<and> (\<forall>b. ps_best ?st = Some b \<longrightarrow> (\<exists>ps. complete_pairing active ps \<and> allowed ?pol ps \<and> b = candidate_of ps))"
    if "\<not> ps_reached ?st"
    using search_exact(1) [OF that zero] by simp
  { assume cert: "so_certified (pair_field P q ex active bye)"
    then have live: "\<not> ps_reached ?st" by (auto simp: pair_field_def Let_def)
    then obtain b where b: "ps_best ?st = Some b" using cert by (cases "ps_best ?st") (auto simp: pair_field_def Let_def)
    then obtain ps where ps: "complete_pairing active ps" "allowed ?pol ps" "b = candidate_of ps" using exact [OF live] by blast
    have least: "pairing_cost ps \<le> pairing_cost other" if "complete_pairing active other" "allowed ?pol other" for other
      using exact [OF live] that b ps(3) by (auto simp: reaches_def)
    have "length (js_unique (pair_ids ps)) = length active \<and> length ps * 2 = length active" if "distinct (map sc_id active)"
    proof -
      have "distinct (pair_ids ps)" using that complete_pairing_ids [OF ps(1)] by (metis mset_eq_imp_distinct_iff)
      then show ?thesis using complete_pairing_ids [OF ps(1)] by (metis length_js_unique length_map mult.commute size_mset)
    qed
    then have "distinct (map sc_id active) \<longrightarrow> spf_coverage (so_proof (pair_field P q ex active bye))"
      using live b ps(3) by (simp add: pair_field_def Let_def candidate_of_def board_ids del: map_map)
    moreover have "so_pairings (pair_field P q ex active bye) = boards ps" "so_bye (pair_field P q ex active bye) = bye"
      "spf_rematches (so_proof (pair_field P q ex active bye)) = rematch_total ps"
      using live b ps(3) by (simp_all add: pair_field_def Let_def candidate_of_def boards_def)
    ultimately show "\<exists>ps. best_of ?pol active ps
      \<and> so_pairings (pair_field P q ex active bye) = boards ps \<and> so_bye (pair_field P q ex active bye) = bye
      \<and> spf_rematches (so_proof (pair_field P q ex active bye)) = rematch_total ps
      \<and> (distinct (map sc_id active) \<longrightarrow> spf_coverage (so_proof (pair_field P q ex active bye)))"
      using ps(1,2) least unfolding best_of_def by blast }
  { assume inf: "(''PAIRING_INFEASIBLE'', m, ids) \<in> set (so_findings (pair_field P q ex active bye))"
    then have live: "\<not> ps_reached ?st" by (auto simp: pair_field_def Let_def)
    then have "ps_best ?st = None" using inf by (cases "ps_best ?st") (auto simp: pair_field_def Let_def)
    then show "\<not> (\<exists>ps. complete_pairing active ps \<and> allowed ?pol ps)" using exact [OF live] by (auto simp: reaches_def) }
qed

text \<open>
  Any way of pairing a field, in any orientation and order of the boards. The search only builds the
  complete pairings of the seeded field; each pairing has one among them with the same rematches and gap.
\<close>

definition perfect_matching :: "swiss_competitor list \<Rightarrow> pairs \<Rightarrow> bool" where
  "perfect_matching cs ps \<longleftrightarrow> mset (concat (map (\<lambda>(l, r). [l, r]) ps)) = mset cs"

lemma totals_perm: "mset ps = mset ps' \<Longrightarrow> rematch_total ps = rematch_total ps' \<and> gap_total ps = gap_total ps'"
  unfolding rematch_total_def gap_total_def
  by (metis mset_filter mset_map size_mset sum_mset_sum_list)

lemma totals_flip [simp]:
  "rematch_total ((r, l) # ps) = rematch_total ((l, r) # ps)" "gap_total ((r, l) # ps) = gap_total ((l, r) # ps)"
  by (auto simp: rematch_total_def gap_total_def is_rematch_def score_gap_def abs_minus_commute)

lemma matching_partner:
  assumes "perfect_matching (c # cs) other"
  obtains d rest where "mset (c # cs) = mset (c # d # concat (map (\<lambda>(l, r). [l, r]) rest))"
    "rematch_total other = rematch_total ((c, d) # rest)" "gap_total other = gap_total ((c, d) # rest)" "length rest < length other"
proof -
  have "c \<in> set (concat (map (\<lambda>(l, r). [l, r]) other))"
    using assms unfolding perfect_matching_def by (metis list.set_intros(1) set_mset_mset)
  then obtain l r where lr: "(l, r) \<in> set other" "c = l \<or> c = r" by auto
  then obtain xs ys where other: "other = xs @ (l, r) # ys" by (meson split_list)
  have "mset other = mset ((l, r) # xs @ ys)" by (simp add: other)
  note t = totals_perm [OF this]
  have m: "mset (c # cs) = mset (l # r # concat (map (\<lambda>(l, r). [l, r]) (xs @ ys)))"
    using assms by (simp add: perfect_matching_def other)
  show ?thesis
  proof (cases "c = l")
    case True
    then show ?thesis using that [of r "xs @ ys"] m t by (simp add: other)
  next
    case False
    then have "c = r" using lr(2) by simp
    then show ?thesis using that [of l "xs @ ys"] m t by (simp add: other add_mset_commute)
  qed
qed

lemma matching_searched:
  "perfect_matching cs other \<Longrightarrow> \<exists>ps. complete_pairing cs ps \<and> rematch_total ps = rematch_total other \<and> gap_total ps = gap_total other"
proof (induction "length other" arbitrary: cs other rule: less_induct)
  case less
  show ?case
  proof (cases cs)
    case Nil
    then have "other = []" using less.prems by (cases other) (auto simp: perfect_matching_def)
    then show ?thesis using Nil complete_pairing.none by blast
  next
    case (Cons c cs')
    obtain d rest where d: "mset (c # cs') = mset (c # d # concat (map (\<lambda>(l, r). [l, r]) rest))" "length rest < length other"
      "rematch_total other = rematch_total ((c, d) # rest)" "gap_total other = gap_total ((c, d) # rest)"
      using matching_partner [OF less.prems [unfolded Cons]] by metis
    then have "mset cs' = mset (d # concat (map (\<lambda>(l, r). [l, r]) rest))" by simp
    from mset_eq_setD [OF this] have "d \<in> set cs'" by simp
    then obtain before after where cs': "cs' = before @ d # after" by (meson split_list)
    have "perfect_matching (before @ after) rest" using d(1) by (simp add: perfect_matching_def cs')
    then obtain ps where ps: "complete_pairing (before @ after) ps" "rematch_total ps = rematch_total rest" "gap_total ps = gap_total rest"
      using less.hyps [OF d(2)] by blast
    have "complete_pairing cs ((c, d) # ps)" unfolding Cons cs' by (rule complete_pairing.pair [OF ps(1)])
    moreover have "rematch_total ((c, d) # ps) = rematch_total other" "gap_total ((c, d) # ps) = gap_total other"
      using ps(2,3) d(3,4) by (simp_all add: totals_Cons)
    ultimately show ?thesis by blast
  qed
qed

lemma complete_matching: "complete_pairing cs ps \<Longrightarrow> perfect_matching cs ps"
  by (induction rule: complete_pairing.induct) (auto simp: perfect_matching_def)

lemma matching_cost:
  assumes "\<forall>other. complete_pairing cs other \<longrightarrow> allowed pol other \<longrightarrow> pairing_cost ps \<le> pairing_cost other"
    and "perfect_matching cs other" "allowed pol other"
  shows "(rematch_total ps, gap_total ps) \<le> (rematch_total other, gap_total other)"
proof -
  obtain o' where "complete_pairing cs o'" "rematch_total o' = rematch_total other" "gap_total o' = gap_total other"
    using matching_searched [OF assms(2)] by blast
  moreover from this have "pairing_cost ps \<le> pairing_cost o'" using assms(1,3) by (simp add: allowed_def)
  ultimately show ?thesis by (auto simp: pairing_cost_def)
qed

text \<open>The competitor who rests, and the field that is paired.\<close>

definition active_competitors :: "swiss_request \<Rightarrow> swiss_competitor list" where
  "active_competitors q = filter (\<lambda>c. sc_withdrawn c \<noteq> Some True) (sr_competitors q)"

definition bye_eligible :: "bye_policy \<Rightarrow> swiss_competitor \<Rightarrow> bool" where
  "bye_eligible b c \<longleftrightarrow> (b = LowestWithoutBye \<longrightarrow> js_finite (sc_byes c) = Some 0)"

definition rested :: "platform \<Rightarrow> swiss_request \<Rightarrow> swiss_competitor option" where
  "rested P q = (if even (length (active_field P q)) then None
     else map_option (\<lambda>b. last (filter (bye_eligible b) (active_field P q))) (sp_bye (sr_policy q)))"

definition left_to_pair :: "platform \<Rightarrow> swiss_request \<Rightarrow> swiss_competitor list" where
  "left_to_pair P q = (case rested P q of None \<Rightarrow> active_field P q | Some c \<Rightarrow> remove1 c (active_field P q))"

lemma bye_candidates_eligible: "bye_candidates b cs = filter (bye_eligible b) cs"
  by (cases b) (simp_all add: bye_candidates_def bye_eligible_def [abs_def])

lemma remove_first_remove1: "distinct (map sc_id cs) \<Longrightarrow> c \<in> set cs \<Longrightarrow> remove_first (sc_id c) cs = remove1 c cs"
  by (induction cs) auto

lemma distinct_map_remove1: "distinct (map f xs) \<Longrightarrow> distinct (map f (remove1 x xs))"
  by (meson distinct_map distinct_remove1 inj_on_subset set_remove1_subset)

lemma active_field_mset: "mset (active_field P q) = mset (active_competitors q)"
  by (simp add: active_field_def active_competitors_def is_withdrawn_def)

abbreviation by_points :: "swiss_competitor list \<Rightarrow> bool" where
  "by_points \<equiv> sorted_wrt (\<lambda>a b. num_value (sc_points b) \<le> num_value (sc_points a))"

lemma by_points_insert:
  "by_points cs \<Longrightarrow> by_points (insert_by (\<lambda>a b. or_else (num_cmp (num_value (sc_points b)) (num_value (sc_points a))) (f a b)) c cs)"
  by (induction cs) (auto simp: or_else_def num_cmp_def split: if_splits)

lemma active_field_by_points: "by_points (active_field P q)"
proof -
  have "by_points (sort_by (\<lambda>a b. or_else (num_cmp (num_value (sc_points b)) (num_value (sc_points a))) (f a b)) cs)" for f cs
    by (induction cs) (auto intro: by_points_insert)
  then show ?thesis unfolding active_field_def .
qed

lemma by_points_last: "by_points cs \<Longrightarrow> d \<in> set cs \<Longrightarrow> num_value (sc_points (last cs)) \<le> num_value (sc_points d)"
  by (induction cs) (auto split: if_splits)

lemma rested_lowest:
  assumes "rested P q = Some c" "sp_bye (sr_policy q) = Some b" "filter (bye_eligible b) (active_field P q) \<noteq> []"
  shows "c \<in> set (active_field P q) \<and> bye_eligible b c
    \<and> (\<forall>d \<in> set (active_competitors q). bye_eligible b d \<longrightarrow> num_value (sc_points c) \<le> num_value (sc_points d))"
proof -
  let ?el = "filter (bye_eligible b) (active_field P q)"
  have c: "c = last ?el" using assms(1,2) by (simp add: rested_def split: if_splits)
  then have "c \<in> set ?el" using last_in_set [OF assms(3)] by simp
  moreover have "by_points ?el" using active_field_by_points by (rule sorted_wrt_filter)
  then have "num_value (sc_points c) \<le> num_value (sc_points d)" if "d \<in> set ?el" for d using by_points_last that c by blast
  moreover have "set (active_field P q) = set (active_competitors q)" using active_field_mset mset_eq_setD by blast
  ultimately show ?thesis by simp
qed

text \<open>A round that is certified or called infeasible is the pairing of the field without the bye.\<close>

definition searched :: "swiss_output \<Rightarrow> bool" where
  "searched out \<longleftrightarrow> so_certified out \<or> (\<exists>m ids. (''PAIRING_INFEASIBLE'', m, ids) \<in> set (so_findings out))"

lemma searched_round:
  assumes "searched (pair_swiss_round P q)"
  obtains ex bye where "pair_swiss_round P q = pair_field P q ex (left_to_pair P q) bye" "distinct (map sc_id (active_field P q))"
    "map_option bye_competitor bye = map_option sc_id (rested P q)" "rested P q = None \<longleftrightarrow> even (length (active_field P q))"
    "rested P q \<noteq> None \<Longrightarrow> \<exists>b. sp_bye (sr_policy q) = Some b \<and> filter (bye_eligible b) (active_field P q) \<noteq> []"
proof -
  let ?out = "pair_swiss_round P q" and ?act = "active_field P q"
  let ?ex = "sort (map sc_id (filter (\<lambda>c. is_withdrawn (sc_withdrawn c)) (sr_competitors q)))"
  have "duplicate_ids (map sc_id (sr_competitors q)) = []"
    using assms by (auto simp: searched_def pair_swiss_round_def Let_def split: if_splits option.splits)
  then have dist: "distinct (map sc_id ?act)"
    by (simp add: duplicate_ids_Nil active_field_def distinct_map_filter)
  show ?thesis
  proof (cases "odd (length ?act)")
    case False
    then have "?out = pair_field P q ?ex ?act None"
      using assms by (auto simp: searched_def pair_swiss_round_def Let_def split: if_splits option.splits)
    then show ?thesis using that dist False by (simp add: left_to_pair_def rested_def)
  next
    case True
    obtain b where b: "sp_bye (sr_policy q) = Some b" "bye_candidates b ?act \<noteq> []"
      "?out = pair_field P q ?ex (remove_first (sc_id (last (bye_candidates b ?act))) ?act)
         (Some \<lparr>bye_competitor = sc_id (last (bye_candidates b ?act)), bye_reason = bye_reason_text b\<rparr>)"
      using assms True by (auto simp: searched_def pair_swiss_round_def Let_def split: if_splits option.splits)
    have rested: "rested P q = Some (last (bye_candidates b ?act))" using True b(1) by (simp add: rested_def bye_candidates_eligible)
    have "last (bye_candidates b ?act) \<in> set ?act"
      using last_in_set [OF b(2)] by (auto simp: bye_candidates_eligible)
    then have "left_to_pair P q = remove_first (sc_id (last (bye_candidates b ?act))) ?act"
      using rested remove_first_remove1 [OF dist] by (simp add: left_to_pair_def)
    then show ?thesis using that [OF _ dist, of ?ex] b rested True by (simp add: bye_candidates_eligible)
  qed
qed

lemma field_of_round:
  assumes "searched (pair_swiss_round P q)"
  shows "mset (active_competitors q) = mset (left_to_pair P q) + (case rested P q of None \<Rightarrow> {#} | Some c \<Rightarrow> {#c#})
    \<and> distinct (map sc_id (active_competitors q)) \<and> (rested P q = None \<longleftrightarrow> even (length (active_competitors q)))
    \<and> by_points (left_to_pair P q)
    \<and> (\<forall>c. rested P q = Some c \<longrightarrow> (\<exists>b. sp_bye (sr_policy q) = Some b \<and> bye_eligible b c
         \<and> (\<forall>d \<in> set (active_competitors q). bye_eligible b d \<longrightarrow> num_value (sc_points c) \<le> num_value (sc_points d))))"
proof -
  obtain ex bye where r: "distinct (map sc_id (active_field P q))" "rested P q = None \<longleftrightarrow> even (length (active_field P q))"
    "rested P q \<noteq> None \<Longrightarrow> \<exists>b. sp_bye (sr_policy q) = Some b \<and> filter (bye_eligible b) (active_field P q) \<noteq> []"
    using searched_round [OF assms] by metis
  have "mset (active_field P q) = mset (left_to_pair P q) + (case rested P q of None \<Rightarrow> {#} | Some c \<Rightarrow> {#c#})"
    using rested_lowest r(3) by (auto simp: left_to_pair_def split: option.splits)
  moreover have "by_points (remove1 c cs)" if "by_points cs" for c cs
    using that by (induction cs) (auto dest: notin_set_remove1 set_remove1_subset [THEN subsetD])
  then have "by_points (left_to_pair P q)" using active_field_by_points by (auto simp: left_to_pair_def split: option.splits)
  moreover have "length (active_field P q) = length (active_competitors q)" "distinct (map sc_id (active_competitors q))"
    using r(1) active_field_mset by (metis size_mset, metis mset_eq_imp_distinct_iff mset_map)
  ultimately show ?thesis using rested_lowest r(2,3) active_field_mset [of P q] by (metis option.discI)
qed

lemma certified_round_field:
  assumes "so_certified (pair_swiss_round P q)"
  obtains ex field bye where "pair_swiss_round P q = pair_field P q ex field bye" "distinct (map sc_id (active_field P q))"
    "mset (map sc_id (active_field P q)) = mset (map sc_id field) + mset (case bye of None \<Rightarrow> [] | Some b \<Rightarrow> [bye_competitor b])"
proof -
  have searched: "searched (pair_swiss_round P q)" using assms by (simp add: searched_def)
  obtain ex bye where r: "pair_swiss_round P q = pair_field P q ex (left_to_pair P q) bye" "distinct (map sc_id (active_field P q))"
    "map_option bye_competitor bye = map_option sc_id (rested P q)"
    using searched_round [OF searched] by metis
  have "mset (active_field P q) = mset (left_to_pair P q) + (case rested P q of None \<Rightarrow> {#} | Some c \<Rightarrow> {#c#})"
    using field_of_round [OF searched] active_field_mset by metis
  then have "mset (map sc_id (active_field P q)) = mset (map sc_id (left_to_pair P q)) + mset (case bye of None \<Rightarrow> [] | Some b \<Rightarrow> [bye_competitor b])"
    using r(3) by (cases bye; cases "rested P q") simp_all
  then show ?thesis using that [OF r(1,2)] by blast
qed

text \<open>
  C12. Swiss pairing is exact. Take a request whose round is certified or called infeasible. Its active competitors
  (those not withdrawn, as the request gives them, with their points, opponents and byes) have distinct ids; they are the
  field to pair plus, exactly when they are odd in number, one who rests, and nobody the bye policy allows to rest has
  fewer points. Certified: the boards pair the whole field, obey the rematch policy, and no allowed
  pairing of the field whatever has fewer rematches, or as many and a smaller total score gap, nor, among the pairings
  the search orients, the same of both and a smaller key; the bye goes to the one who rests. Infeasible: no pairing of
  the field obeys the rematch policy.
\<close>

theorem swiss_pairing_optimal:
  assumes "searched (pair_swiss_round P q)"
  shows "mset (active_competitors q) = mset (left_to_pair P q) + (case rested P q of None \<Rightarrow> {#} | Some c \<Rightarrow> {#c#})
    \<and> distinct (map sc_id (active_competitors q)) \<and> (rested P q = None \<longleftrightarrow> even (length (active_competitors q)))
    \<and> (\<forall>c. rested P q = Some c \<longrightarrow> (\<exists>b. sp_bye (sr_policy q) = Some b \<and> bye_eligible b c
         \<and> (\<forall>d \<in> set (active_competitors q). bye_eligible b d \<longrightarrow> num_value (sc_points c) \<le> num_value (sc_points d))))
    \<and> (so_certified (pair_swiss_round P q) \<longrightarrow>
         map_option bye_competitor (so_bye (pair_swiss_round P q)) = map_option sc_id (rested P q)
         \<and> spf_coverage (so_proof (pair_swiss_round P q))
         \<and> (\<exists>ps. so_pairings (pair_swiss_round P q) = boards ps \<and> perfect_matching (left_to_pair P q) ps
              \<and> complete_pairing (left_to_pair P q) ps \<and> allowed (sp_rematches (sr_policy q)) ps
              \<and> (\<forall>other. perfect_matching (left_to_pair P q) other \<longrightarrow> allowed (sp_rematches (sr_policy q)) other \<longrightarrow>
                   (rematch_total ps, gap_total ps) \<le> (rematch_total other, gap_total other))
              \<and> (\<forall>other. complete_pairing (left_to_pair P q) other \<longrightarrow> allowed (sp_rematches (sr_policy q)) other \<longrightarrow>
                   pairing_cost ps \<le> pairing_cost other)))
    \<and> (\<not> so_certified (pair_swiss_round P q) \<longrightarrow>
         \<not> (\<exists>other. perfect_matching (left_to_pair P q) other \<and> allowed (sp_rematches (sr_policy q)) other))"
proof -
  let ?out = "pair_swiss_round P q" and ?field = "left_to_pair P q" and ?pol = "sp_rematches (sr_policy q)"
  obtain ex bye where r: "?out = pair_field P q ex ?field bye" "distinct (map sc_id (active_field P q))"
    "map_option bye_competitor bye = map_option sc_id (rested P q)"
    using searched_round [OF assms] by metis
  have field: "distinct (map sc_id ?field)" using r(2) distinct_map_remove1 by (auto simp: left_to_pair_def split: option.splits)
  have pos: "map_option bye_competitor (so_bye ?out) = map_option sc_id (rested P q) \<and> spf_coverage (so_proof ?out)
      \<and> (\<exists>ps. so_pairings ?out = boards ps \<and> perfect_matching ?field ps \<and> complete_pairing ?field ps \<and> allowed ?pol ps
           \<and> (\<forall>other. perfect_matching ?field other \<longrightarrow> allowed ?pol other \<longrightarrow> (rematch_total ps, gap_total ps) \<le> (rematch_total other, gap_total other))
           \<and> (\<forall>other. complete_pairing ?field other \<longrightarrow> allowed ?pol other \<longrightarrow> pairing_cost ps \<le> pairing_cost other))"
    if cert: "so_certified ?out"
  proof -
    obtain ps where ps: "complete_pairing ?field ps" "allowed ?pol ps"
      "\<forall>other. complete_pairing ?field other \<longrightarrow> allowed ?pol other \<longrightarrow> pairing_cost ps \<le> pairing_cost other"
      "so_pairings ?out = boards ps" "so_bye ?out = bye" "spf_coverage (so_proof ?out)"
      using pair_field_spec(1) [OF cert [unfolded r(1)]] field unfolding r(1) by blast
    have "(rematch_total ps, gap_total ps) \<le> (rematch_total other, gap_total other)" if "perfect_matching ?field other" "allowed ?pol other" for other
      using matching_cost [OF ps(3) that] .
    then show ?thesis using ps r(3) complete_matching by blast
  qed
  have neg: "\<not> (\<exists>other. perfect_matching ?field other \<and> allowed ?pol other)" if "\<not> so_certified ?out"
    using assms that pair_field_spec(2) [of _ _ P q ex ?field bye] matching_searched unfolding searched_def r(1) allowed_def by metis
  show ?thesis using field_of_round [OF assms] pos neg by blast
qed

definition sample_player :: "string \<Rightarrow> rat \<Rightarrow> swiss_competitor" where
  "sample_player i p = \<lparr>sc_id = i, sc_points = Num p, sc_opponents = [], sc_byes = Num 0, sc_withdrawn = None\<rparr>"

definition sample_round :: swiss_request where
  "sample_round = \<lparr>sr_round = Num 1, sr_competitors = [sample_player ''c'' 0, sample_player ''b'' 1, sample_player ''a'' 1],
     sr_policy = \<lparr>sp_rematches = RematchForbidden, sp_bye = Some LowestWithoutBye, sp_limit = None\<rparr>\<rparr>"

lemma sample_integers: "js_integer (Num 1) = Some 1" "js_integer (Num 0) = Some 0" "js_integer (Num 250000) = Some 250000"
  using js_integer_of_int [of 1] js_integer_of_int [of 0] js_integer_of_int [of 250000] by simp_all

lemma sample_field: "active_field sample_platform sample_round = [sample_player ''a'' 1, sample_player ''b'' 1, sample_player ''c'' 0]"
  by (simp add: active_field_def sample_round_def sample_player_def is_withdrawn_def num_value_def num_cmp_def or_else_def sample_platform_def
      less_char_def)

lemma sample_pair:
  "is_rematch (sample_player ''a'' 1) (sample_player ''b'' 1) = False" "score_gap (sample_player ''a'' 1) (sample_player ''b'' 1) = 0"
  "sc_id (sample_player ''a'' 1) = ''a''" "sc_id (sample_player ''b'' 1) = ''b''" "sc_id (sample_player ''c'' 0) = ''c''"
  "js_finite (sc_byes (sample_player ''c'' 0)) = Some 0" "js_finite (sc_byes (sample_player ''b'' 1)) = Some 0"
  "js_finite (sc_byes (sample_player ''a'' 1)) = Some 0"
  by (simp_all add: is_rematch_def sample_player_def score_gap_def)

definition sample_final :: pair_search_state where
  "sample_final = \<lparr>ps_best = Some \<lparr>pc_pairs = [(sample_player ''a'' 1, sample_player ''b'' 1)], pc_rematches = 0, pc_gap = 0,
      pc_key = pairs_key [(sample_player ''a'' 1, sample_player ''b'' 1)]\<rparr>, ps_nodes = 2, ps_reached = False\<rparr>"

lemma sample_leaf:
  "pair_search RematchForbidden 250000 [] [(sample_player ''a'' 1, sample_player ''b'' 1)] 0 0 \<lparr>ps_best = None, ps_nodes = Suc 0, ps_reached = False\<rparr>
   = sample_final"
  unfolding pair_search.simps [where remaining = Nil] by (simp add: offer_def sample_final_def)

lemma sample_partners:
  "try_partners RematchForbidden 250000 (sample_player ''a'' 1) [] [sample_player ''b'' 1] [] 0 0 \<lparr>ps_best = None, ps_nodes = Suc 0, ps_reached = False\<rparr>
   = sample_final"
  by (subst try_partners.simps(2)) (simp add: sample_pair pruned_def sample_leaf)

lemma sample_search:
  "pair_search RematchForbidden 250000 [sample_player ''a'' 1, sample_player ''b'' 1] [] 0 0 \<lparr>ps_best = None, ps_nodes = 0, ps_reached = False\<rparr>
   = sample_final"
  by (subst pair_search.simps) (simp add: sample_partners)

lemma sample_policy: "sr_policy sample_round = \<lparr>sp_rematches = RematchForbidden, sp_bye = Some LowestWithoutBye, sp_limit = None\<rparr>"
  by (simp add: sample_round_def)

lemma sample_bye: "bye_candidates LowestWithoutBye [sample_player ''a'' 1, sample_player ''b'' 1, sample_player ''c'' 0]
   = [sample_player ''a'' 1, sample_player ''b'' 1, sample_player ''c'' 0]"
  by (simp add: bye_candidates_def sample_pair)

lemma sample_checks:
  "\<not> list_ex competitor_invalid (sr_competitors sample_round)" "duplicate_ids (map sc_id (sr_competitors sample_round)) = []"
  "positive_int (sr_round sample_round)"
proof -
  have words: "\<not> blank ''a''" "\<not> blank ''b''" "\<not> blank ''c''" by (simp_all add: blank_iff is_space_def)
  show "\<not> list_ex competitor_invalid (sr_competitors sample_round)"
    by (simp add: sample_round_def sample_player_def competitor_invalid_def words sample_integers)
  show "duplicate_ids (map sc_id (sr_competitors sample_round)) = []"
    by (simp add: duplicate_ids_Nil sample_round_def sample_player_def)
  show "positive_int (sr_round sample_round)" by (simp add: positive_int_def sample_round_def sample_integers)
qed

lemma sample_paired:
  "pair_swiss_round sample_platform sample_round
   = pair_field sample_platform sample_round (sort (map sc_id (filter (\<lambda>c. is_withdrawn (sc_withdrawn c)) (sr_competitors sample_round))))
      [sample_player ''a'' 1, sample_player ''b'' 1] (Some \<lparr>bye_competitor = ''c'', bye_reason = bye_reason_text LowestWithoutBye\<rparr>)"
  using sample_checks by (simp add: pair_swiss_round_def Let_def sample_field sample_policy sample_bye sample_pair)

lemma sample_limit: "(case js_integer (node_limit (sr_policy sample_round)) of None \<Rightarrow> 0 | Some i \<Rightarrow> nat i) = 250000"
  by (simp add: sample_policy node_limit_def sample_integers)

lemma sample_certified: "so_certified (pair_swiss_round sample_platform sample_round)"
  unfolding sample_paired pair_field_def Let_def sample_limit
  by (simp add: sample_policy sample_search sealed_swiss_def sample_final_def)

lemma sample_rested: "map_option bye_competitor (so_bye (pair_swiss_round sample_platform sample_round)) = Some ''c''"
  unfolding sample_paired pair_field_def Let_def sample_limit
  by (simp add: sample_policy sample_search sealed_swiss_def sample_final_def)

theorem swiss_pairing_optimal_witness:
  "so_certified (pair_swiss_round sample_platform sample_round) \<and> spf_coverage (so_proof (pair_swiss_round sample_platform sample_round))
   \<and> map_option sc_id (rested sample_platform sample_round) = Some ''c''"
proof -
  have "searched (pair_swiss_round sample_platform sample_round)" using sample_certified by (simp add: searched_def)
  note exact = swiss_pairing_optimal [OF this]
  then show ?thesis using sample_certified sample_rested by simp
qed

end
