(* ===== verification/RankedFormats.thy ===== *)
theory RankedFormats
  imports SwissPairing HashChain
begin

text \<open>
  packages/competition-engine/src/ranked-formats.ts, the other ranked formats: the challenge ladder
  with its audit chain, qualifying heats with serpentine distribution and explicit lanes, the
  ranking of a time trial and the qualification from a ranking.

  \<^item> The output of an operation is a record with the fields of the code's object; \<open>..._json\<close> is the value
    its replay hash covers.
  \<^item> \<^verbatim>\<open>xs[i]\<close> of a list that may be too short is an option.
\<close>

section \<open>Shared helpers\<close>

text \<open>\<^verbatim>\<open>xs.indexOf(x)\<close>: \<open>None\<close> for -1.\<close>

fun index_of :: "'a \<Rightarrow> 'a list \<Rightarrow> nat option" where
  "index_of x [] = None"
| "index_of x (y # ys) = (if y = x then Some 0 else map_option Suc (index_of x ys))"

lemma index_of_Some: "index_of x xs = Some i \<Longrightarrow> i < length xs \<and> xs ! i = x \<and> x \<notin> set (take i xs)"
proof (induction xs arbitrary: i)
  case (Cons y ys)
  then show ?case by (cases "y = x") auto
qed simp

definition nth_option :: "'a list \<Rightarrow> nat \<Rightarrow> 'a option" where
  "nth_option xs i = (if i < length xs then Some (xs ! i) else None)"

definition jint :: "int \<Rightarrow> jsval" where
  "jint i = JNum (Num (of_int i))"

definition optional_json :: "('a \<Rightarrow> jsval) \<Rightarrow> 'a option \<Rightarrow> jsval" where
  "optional_json f x = (case x of None \<Rightarrow> JNull | Some v \<Rightarrow> f v)"

text \<open>\<^verbatim>\<open>new Map(ids.map((id, index) => [id, index]))\<close>: a later index of the same id wins.\<close>

definition rank_map :: "string list \<Rightarrow> (string, nat) omap" where
  "rank_map ids = foldl (\<lambda>m (i, x). omap_set x i m) [] (enumerate 0 ids)"

text \<open>\<^verbatim>\<open>ranks.get(id) ?? Number.MAX_SAFE_INTEGER\<close>\<close>

definition seed_position :: "(string, nat) omap \<Rightarrow> string \<Rightarrow> nat" where
  "seed_position ranks i = (case omap_get ranks i of None \<Rightarrow> 9007199254740991 | Some r \<Rightarrow> r)"

section \<open>The ladder\<close>

record ladder_event =
  le_sequence :: int
  le_challenger :: string
  le_defender :: string
  le_winner :: string
  le_actor :: string
  le_at :: string
  le_reason :: string
  le_previous :: "string option"
  le_hash :: string

record ladder_state =
  ld_id :: string
  ld_version :: int
  ld_order :: "string list"
  ld_audit :: "ladder_event list"
  ld_hash :: string

record ladder_challenge =
  lc_challenger :: string
  lc_defender :: string
  lc_winner :: string
  lc_distance :: jsnum
  lc_actor :: string
  lc_at :: string
  lc_reason :: string

record ladder_transition =
  lt_certified :: bool
  lt_ladder :: ladder_state
  lt_previous :: string
  lt_next :: string
  lt_changed :: bool
  lt_event :: "string option"
  lt_findings :: "format_finding list"
  lt_hash :: string

definition ladder_event_fields :: "ladder_event \<Rightarrow> (string \<times> jsval) list" where
  "ladder_event_fields e = [(''sequence'', jint (le_sequence e)), (''challengerId'', JStr (le_challenger e)),
     (''defenderId'', JStr (le_defender e)), (''winnerId'', JStr (le_winner e)), (''actorId'', JStr (le_actor e)),
     (''occurredAt'', JStr (le_at e)), (''reason'', JStr (le_reason e)), (''previousEventHash'', string_or_null (le_previous e))]"

definition ladder_event_json :: "ladder_event \<Rightarrow> jsval" where
  "ladder_event_json e = JObj (ladder_event_fields e @ [(''eventHash'', JStr (le_hash e))])"

definition ladder_fields :: "ladder_state \<Rightarrow> (string \<times> jsval) list" where
  "ladder_fields l = [(''id'', JStr (ld_id l)), (''version'', jint (ld_version l)), (''order'', strs (ld_order l)),
     (''audit'', JArr (map ladder_event_json (ld_audit l)))]"

definition ladder_json :: "ladder_state \<Rightarrow> jsval" where
  "ladder_json l = JObj (ladder_fields l @ [(''stateHash'', JStr (ld_hash l))])"

definition ladder_state_hash :: "platform \<Rightarrow> ladder_state \<Rightarrow> string" where
  "ladder_state_hash P l = ledger_hash P (JObj (ladder_fields l))"

definition seal_ladder :: "platform \<Rightarrow> ladder_state \<Rightarrow> ladder_state" where
  "seal_ladder P l = l\<lparr>ld_hash := ladder_state_hash P l\<rparr>"

definition seal_challenge :: "platform \<Rightarrow> ladder_event \<Rightarrow> ladder_event" where
  "seal_challenge P e = e\<lparr>le_hash := ledger_hash P (JObj (ladder_event_fields e))\<rparr>"

definition create_ladder :: "platform \<Rightarrow> string \<Rightarrow> string list \<Rightarrow> (string, ladder_state) result" where
  "create_ladder P i order =
     (if blank i \<or> length order < 2 \<or> list_ex blank order \<or> duplicate_ids order \<noteq> []
      then Inl ''Ladder requires an id and at least two uniquely identified competitors''
      else Inr (seal_ladder P \<lparr>ld_id = i, ld_version = 0, ld_order = order, ld_audit = [], ld_hash = []\<rparr>))"

definition audit_findings_of :: "platform \<Rightarrow> nat \<Rightarrow> string option \<Rightarrow> ladder_event \<Rightarrow> format_finding list" where
  "audit_findings_of P i previous e =
     (if le_sequence e \<noteq> int i + 1 \<or> le_previous e \<noteq> previous
      then [(''BROKEN_AUDIT_CHAIN'', ''Audit event '' @ digits_of (i + 1) @ '' has invalid lineage.'', None)] else [])
     @ (if ledger_hash P (JObj (ladder_event_fields e)) \<noteq> le_hash e
        then [(''AUDIT_HASH_MISMATCH'', ''Audit event '' @ digits_of (i + 1) @ '' content was modified.'', None)] else [])"

fun audit_chain :: "platform \<Rightarrow> nat \<Rightarrow> string option \<Rightarrow> ladder_event list \<Rightarrow> format_finding list" where
  "audit_chain P i previous [] = []"
| "audit_chain P i previous (e # es) = audit_findings_of P i previous e @ audit_chain P (i + 1) (Some (le_hash e)) es"

text \<open>The findings; the ladder is valid when there are none.\<close>

definition verify_ladder :: "platform \<Rightarrow> ladder_state \<Rightarrow> format_finding list" where
  "verify_ladder P l = audit_chain P 0 None (ld_audit l)
     @ (if ladder_state_hash P l \<noteq> ld_hash l
        then [(''STATE_HASH_MISMATCH'', ''Ladder content does not match its state hash.'', None)] else [])
     @ (if ld_version l \<noteq> int (length (ld_audit l)) \<or> duplicate_ids (ld_order l) \<noteq> []
        then [(''INVALID_LADDER_STATE'', ''Ladder version or competitor order is invalid.'', None)] else [])"

definition verify_ladder_proof :: "platform \<Rightarrow> ladder_state \<Rightarrow> string" where
  "verify_ladder_proof P l = ledger_hash P (JObj [(''ladder'', ladder_json l),
     (''findings'', JArr (map format_finding_json (verify_ladder P l)))])"

definition ladder_transition_json :: "ladder_transition \<Rightarrow> jsval" where
  "ladder_transition_json t = JObj [(''status'', status_json (lt_certified t)), (''ladder'', ladder_json (lt_ladder t)),
     (''proof'', JObj [(''previousStateHash'', JStr (lt_previous t)), (''nextStateHash'', JStr (lt_next t)),
        (''changed'', JBool (lt_changed t)), (''eventHash'', string_or_null (lt_event t))]),
     (''findings'', JArr (map format_finding_json (lt_findings t)))]"

definition seal_transition :: "platform \<Rightarrow> ladder_transition \<Rightarrow> ladder_transition" where
  "seal_transition P t = t\<lparr>lt_hash := ledger_hash P (ladder_transition_json t)\<rparr>"

definition ladder_rejected :: "platform \<Rightarrow> ladder_state \<Rightarrow> string \<Rightarrow> string \<Rightarrow> ladder_transition" where
  "ladder_rejected P l code msg = seal_transition P
     \<lparr>lt_certified = False, lt_ladder = l, lt_previous = ld_hash l, lt_next = ld_hash l, lt_changed = False, lt_event = None,
      lt_findings = [(code, msg, None)], lt_hash = []\<rparr>"

text \<open>\<^verbatim>\<open>order.splice(from, 1); order.splice(to, 0, x)\<close>\<close>

definition move_up :: "nat \<Rightarrow> nat \<Rightarrow> string \<Rightarrow> string list \<Rightarrow> string list" where
  "move_up from to x xs = (let ys = take from xs @ drop (from + 1) xs in take to ys @ x # drop to ys)"

definition apply_ladder_challenge :: "platform \<Rightarrow> ladder_state \<Rightarrow> ladder_challenge \<Rightarrow> ladder_transition" where
  "apply_ladder_challenge P l c =
     (if verify_ladder P l \<noteq> [] then ladder_rejected P l ''INVALID_LADDER_PROOF'' ''The ladder audit or state hash is invalid.''
      else if blank (lc_actor c) \<or> blank (lc_reason c) \<or> date_parse P (lc_at c) = None
      then ladder_rejected P l ''AUDIT_FIELDS_REQUIRED'' ''Actor, reason, and valid occurrence time are required.''
      else (case (index_of (lc_challenger c) (ld_order l), index_of (lc_defender c) (ld_order l)) of
          (Some challenger, Some defender) \<Rightarrow>
            (if lc_winner c \<noteq> lc_challenger c \<and> lc_winner c \<noteq> lc_defender c
             then ladder_rejected P l ''INVALID_CHALLENGE_PARTICIPANTS'' ''Challenge participants and winner must belong to this ladder contest.''
             else if (case js_integer (lc_distance c) of None \<Rightarrow> True
                 | Some d \<Rightarrow> d < 1 \<or> challenger \<le> defender \<or> int challenger - int defender > d)
             then ladder_rejected P l ''CHALLENGE_OUT_OF_RANGE'' ''Challenger must be below and within the pinned maximum distance of the defender.''
             else
               (let order = (if lc_winner c = lc_challenger c then move_up challenger defender (lc_challenger c) (ld_order l) else ld_order l);
                    event = seal_challenge P \<lparr>le_sequence = int (length (ld_audit l)) + 1, le_challenger = lc_challenger c,
                      le_defender = lc_defender c, le_winner = lc_winner c, le_actor = lc_actor c, le_at = lc_at c, le_reason = lc_reason c,
                      le_previous = (if ld_audit l = [] then None else Some (le_hash (last (ld_audit l)))), le_hash = []\<rparr>;
                    after = seal_ladder P \<lparr>ld_id = ld_id l, ld_version = ld_version l + 1, ld_order = order,
                      ld_audit = ld_audit l @ [event], ld_hash = []\<rparr>
                in seal_transition P \<lparr>lt_certified = True, lt_ladder = after, lt_previous = ld_hash l, lt_next = ld_hash after,
                     lt_changed = (lc_winner c = lc_challenger c), lt_event = Some (le_hash event), lt_findings = [], lt_hash = []\<rparr>))
        | _ \<Rightarrow> ladder_rejected P l ''INVALID_CHALLENGE_PARTICIPANTS'' ''Challenge participants and winner must belong to this ladder contest.''))"

section \<open>Qualifying heats\<close>

text \<open>\<^verbatim>\<open>a * b\<close>; a zero product is written without its sign.\<close>

definition js_sign :: "jsnum \<Rightarrow> rat option" where
  "js_sign n = (case n of Num r \<Rightarrow> Some (sgn r) | NegZero \<Rightarrow> Some 0 | PosInf \<Rightarrow> Some 1 | NegInf \<Rightarrow> Some (-1) | NaN \<Rightarrow> None)"

definition js_times :: "jsnum \<Rightarrow> jsnum \<Rightarrow> jsnum" where
  "js_times a b = (case (js_finite a, js_finite b) of
     (Some x, Some y) \<Rightarrow> Num (x * y)
   | _ \<Rightarrow> (case (js_sign a, js_sign b) of
       (Some x, Some y) \<Rightarrow> if x * y = 0 then NaN else if 0 < x * y then PosInf else NegInf
     | _ \<Rightarrow> NaN))"

datatype better_mark = LowerBetter | HigherBetter

datatype seed_tie_policy = SeedTieUnresolved | SeedTieById

record seeded_entrant =
  sn_id :: string
  sn_mark :: jsnum
  sn_withdrawn :: "bool option"

record heat_request =
  hr_stage :: string
  hr_entrants :: "seeded_entrant list"
  hr_heats :: jsnum
  hr_lanes :: jsnum
  hr_priority :: "jsnum list"
  hr_better :: better_mark
  hr_tie :: "seed_tie_policy option"

record lane_assignment =
  la_competitor :: string
  la_lane :: "jsnum option"
  la_rank :: nat
  la_mark :: jsnum

record qualifying_heat =
  qh_heat :: nat
  qh_assignments :: "lane_assignment list"

record heat_output =
  ho_certified :: bool
  ho_heats :: "qualifying_heat list"
  ho_exact :: bool
  ho_active :: int
  ho_capacity :: jsnum
  ho_excluded :: "string list"
  ho_explicit :: bool
  ho_findings :: "format_finding list"
  ho_hash :: string

definition lane_json :: "lane_assignment \<Rightarrow> jsval" where
  "lane_json a = JObj [(''competitorId'', JStr (la_competitor a)), (''lane'', case la_lane a of None \<Rightarrow> JUndef | Some n \<Rightarrow> JNum n),
     (''seedRank'', jnat (la_rank a)), (''seedMark'', JNum (la_mark a))]"

definition heat_json :: "qualifying_heat \<Rightarrow> jsval" where
  "heat_json h = JObj [(''heat'', jnat (qh_heat h)), (''assignments'', JArr (map lane_json (qh_assignments h)))]"

definition heat_output_json :: "heat_output \<Rightarrow> jsval" where
  "heat_output_json out = JObj [(''status'', status_json (ho_certified out)), (''heats'', JArr (map heat_json (ho_heats out))),
     (''proof'', JObj [(''everyActiveEntrantAssignedExactlyOnce'', JBool (ho_exact out)), (''activeEntrantCount'', jint (ho_active out)),
        (''capacity'', JNum (ho_capacity out)), (''excludedCompetitorIds'', strs (ho_excluded out)), (''distribution'', JStr ''SERPENTINE''),
        (''lanePolicyExplicit'', JBool (ho_explicit out))]),
     (''findings'', JArr (map format_finding_json (ho_findings out)))]"

definition seal_heats :: "platform \<Rightarrow> heat_output \<Rightarrow> heat_output" where
  "seal_heats P out = out\<lparr>ho_hash := ledger_hash P (heat_output_json out)\<rparr>"

definition heat_rejected :: "platform \<Rightarrow> heat_request \<Rightarrow> string \<Rightarrow> string \<Rightarrow> string list \<Rightarrow> heat_output" where
  "heat_rejected P q code msg excluded = seal_heats P
     \<lparr>ho_certified = False, ho_heats = [], ho_exact = False, ho_active = int (length (hr_entrants q)) - int (length excluded),
      ho_capacity = js_times (hr_heats q) (hr_lanes q), ho_excluded = excluded, ho_explicit = False,
      ho_findings = [(code, msg, None)], ho_hash = []\<rparr>"

definition tied_seed_marks :: "seeded_entrant list \<Rightarrow> (rat, string list) omap" where
  "tied_seed_marks active = foldl (\<lambda>m e. omap_set (num_value (sn_mark e))
     ((case omap_get m (num_value (sn_mark e)) of None \<Rightarrow> [] | Some ids \<Rightarrow> ids) @ [sn_id e]) m) [] active"

definition tied_competitors :: "seeded_entrant list \<Rightarrow> string list" where
  "tied_competitors active = sort (concat (filter (\<lambda>ids. length ids > 1) (map snd (tied_seed_marks active))))"

definition better_cmp :: "better_mark \<Rightarrow> rat \<Rightarrow> rat \<Rightarrow> int" where
  "better_cmp b x y = (case b of LowerBetter \<Rightarrow> num_cmp x y | HigherBetter \<Rightarrow> num_cmp y x)"

definition seeded_order :: "platform \<Rightarrow> better_mark \<Rightarrow> seeded_entrant list \<Rightarrow> seeded_entrant list" where
  "seeded_order P b = sort_by (\<lambda>x y. or_else (better_cmp b (num_value (sn_mark x)) (num_value (sn_mark y))) (locale_compare P (sn_id x) (sn_id y)))"

text \<open>The heat of the seed at an index: rows run alternately up and down.\<close>

definition serpentine :: "nat \<Rightarrow> nat \<Rightarrow> nat" where
  "serpentine k i = (let row = i div k; offset = i mod k in if even row then offset else k - 1 - offset)"

definition heat_buckets :: "nat \<Rightarrow> seeded_entrant list \<Rightarrow> (seeded_entrant \<times> nat) list list" where
  "heat_buckets k seeded = foldl (\<lambda>bs (i, e). bs[serpentine k i := bs ! serpentine k i @ [(e, i + 1)]]) (replicate k []) (enumerate 0 seeded)"

definition lanes_of :: "jsnum list \<Rightarrow> (seeded_entrant \<times> nat) list \<Rightarrow> lane_assignment list" where
  "lanes_of priority bucket = map (\<lambda>(i, e, r). \<lparr>la_competitor = sn_id e, la_lane = nth_option priority i, la_rank = r, la_mark = sn_mark e\<rparr>)
     (enumerate 0 (sort_by (\<lambda>x y. num_cmp (snd x) (snd y)) bucket))"

definition lane_invalid :: "int \<Rightarrow> jsnum \<Rightarrow> bool" where
  "lane_invalid lanes n = (case js_integer n of None \<Rightarrow> True | Some i \<Rightarrow> i < 1 \<or> i > lanes)"

definition active_entrants :: "heat_request \<Rightarrow> seeded_entrant list" where
  "active_entrants q = filter (\<lambda>e. \<not> is_withdrawn (sn_withdrawn e)) (hr_entrants q)"

definition fill_heats :: "platform \<Rightarrow> heat_request \<Rightarrow> nat \<Rightarrow> qualifying_heat list" where
  "fill_heats P q k = map (\<lambda>(i, bucket). \<lparr>qh_heat = i + 1, qh_assignments = lanes_of (hr_priority q) bucket\<rparr>)
     (enumerate 0 (heat_buckets k (seeded_order P (hr_better q) (active_entrants q))))"

definition assign_qualifying_heats :: "platform \<Rightarrow> heat_request \<Rightarrow> heat_output" where
  "assign_qualifying_heats P q =
     (let excluded = sort (map sn_id (filter (\<lambda>e. is_withdrawn (sn_withdrawn e)) (hr_entrants q)));
          active = active_entrants q;
          rejected = (\<lambda>code msg. heat_rejected P q code msg excluded)
      in if blank (hr_stage q) \<or> duplicate_ids (map sn_id (hr_entrants q)) \<noteq> []
            \<or> list_ex (\<lambda>e. blank (sn_id e) \<or> js_finite (sn_mark e) = None) (hr_entrants q)
         then rejected ''INVALID_ENTRANTS'' ''Heat entrants require unique ids and finite seed marks.''
         else if \<not> positive_int (hr_heats q) \<or> \<not> positive_int (hr_lanes q)
         then rejected ''INVALID_HEAT_SHAPE'' ''Heat and lane counts must be positive integers.''
         else
           (let heats = nat (the (js_integer (hr_heats q))); lanes = nat (the (js_integer (hr_lanes q)))
            in if length active > heats * lanes then rejected ''INSUFFICIENT_CAPACITY'' ''Active entrants exceed declared heat capacity.''
               else if length (hr_priority q) \<noteq> lanes \<or> length (js_unique (hr_priority q)) \<noteq> lanes \<or> list_ex (lane_invalid (int lanes)) (hr_priority q)
               then rejected ''INVALID_LANE_POLICY'' ''Lane priority must explicitly list every available lane exactly once.''
               else if tied_competitors active \<noteq> [] \<and> hr_tie q \<noteq> Some SeedTieById
               then rejected ''SEED_TIE_UNRESOLVED'' ''Equal seed marks require an explicit deterministic seed tie policy.''
               else
                 (let hs = fill_heats P q heats;
                      assigned = concat (map (\<lambda>h. map la_competitor (qh_assignments h)) hs)
                  in seal_heats P \<lparr>ho_certified = True, ho_heats = hs,
                       ho_exact = (length assigned = length active \<and> length (js_unique assigned) = length active),
                       ho_active = int (length active), ho_capacity = js_times (hr_heats q) (hr_lanes q), ho_excluded = excluded,
                       ho_explicit = True, ho_findings = [], ho_hash = []\<rparr>)))"

section \<open>Time trials\<close>

datatype trial_status = TrialValid | TrialDNS | TrialDNF | TrialDQ

datatype time_tie_policy = TimeUnresolved | TimeShared | TimeSeedOrder

record trial_result =
  tr_competitor :: string
  tr_status :: trial_status
  tr_time :: "jsnum option"

record trial_request =
  tq_stage :: string
  tq_results :: "trial_result list"
  tq_tie :: time_tie_policy
  tq_seed :: "string list option"

record ranked_trial =
  rt_competitor :: string
  rt_status :: trial_status
  rt_time :: "jsnum option"
  rt_rank :: "nat option"

record trial_output =
  to_certified :: bool
  to_ranking :: "ranked_trial list"
  to_valid :: nat
  to_ties :: "string list list"
  to_policy :: time_tie_policy
  to_findings :: "format_finding list"
  to_hash :: string

fun trial_status_text :: "trial_status \<Rightarrow> string" where
  "trial_status_text TrialValid = ''VALID''"
| "trial_status_text TrialDNS = ''DNS''"
| "trial_status_text TrialDNF = ''DNF''"
| "trial_status_text TrialDQ = ''DQ''"

fun time_tie_text :: "time_tie_policy \<Rightarrow> string" where
  "time_tie_text TimeUnresolved = ''UNRESOLVED''"
| "time_tie_text TimeShared = ''SHARED_RANK''"
| "time_tie_text TimeSeedOrder = ''SEED_ORDER''"

definition ranked_trial_json :: "ranked_trial \<Rightarrow> jsval" where
  "ranked_trial_json r = JObj [(''competitorId'', JStr (rt_competitor r)), (''status'', JStr (trial_status_text (rt_status r))),
     (''timeMilliseconds'', optional_json JNum (rt_time r)), (''rank'', optional_json jnat (rt_rank r))]"

definition trial_output_json :: "trial_output \<Rightarrow> jsval" where
  "trial_output_json out = JObj [(''status'', status_json (to_certified out)), (''ranking'', JArr (map ranked_trial_json (to_ranking out))),
     (''proof'', JObj [(''validResultsRanked'', jnat (to_valid out)), (''nonFinishersRanked'', jnat 0),
        (''tieGroups'', JArr (map strs (to_ties out))), (''tiePolicy'', JStr (time_tie_text (to_policy out)))]),
     (''findings'', JArr (map format_finding_json (to_findings out)))]"

definition seal_trial :: "platform \<Rightarrow> trial_output \<Rightarrow> trial_output" where
  "seal_trial P out = out\<lparr>to_hash := ledger_hash P (trial_output_json out)\<rparr>"

definition time_value :: "trial_result \<Rightarrow> rat" where
  "time_value r = (case tr_time r of None \<Rightarrow> 0 | Some n \<Rightarrow> num_value n)"

definition trial_invalid :: "trial_result \<Rightarrow> bool" where
  "trial_invalid r = (blank (tr_competitor r)
     \<or> (if tr_status r = TrialValid then (case Option.bind (tr_time r) js_finite of None \<Rightarrow> True | Some t \<Rightarrow> t < 0) else tr_time r \<noteq> None))"

text \<open>The comparison of ties: by seed order, or by identifier.\<close>

definition tie_cmp :: "platform \<Rightarrow> bool \<Rightarrow> (string, nat) omap \<Rightarrow> string \<Rightarrow> string \<Rightarrow> int" where
  "tie_cmp P by_seed ranks a b = (if by_seed then num_cmp (seed_position ranks a) (seed_position ranks b) else locale_compare P a b)"

definition valid_trials :: "platform \<Rightarrow> trial_request \<Rightarrow> trial_result list" where
  "valid_trials P q = sort_by (\<lambda>x y. or_else (num_cmp (time_value x) (time_value y))
       (tie_cmp P (tq_tie q = TimeSeedOrder) (rank_map (case tq_seed q of None \<Rightarrow> [] | Some ids \<Rightarrow> ids)) (tr_competitor x) (tr_competitor y)))
     (filter (\<lambda>r. tr_status r = TrialValid) (tq_results q))"

text \<open>The loop over runs of equal times.\<close>

function tie_groups :: "trial_result list \<Rightarrow> string list list" where
  "tie_groups [] = []"
| "tie_groups (x # xs) =
     (let run = x # takeWhile (\<lambda>r. time_value r = time_value x) xs
      in (if length run > 1 then [sort (map tr_competitor run)] else [])
         @ tie_groups (dropWhile (\<lambda>r. time_value r = time_value x) xs))"
  by pat_completeness auto

termination
  by (relation "measure length") (auto simp: le_imp_less_Suc length_dropWhile_le)

definition trial_rank :: "time_tie_policy \<Rightarrow> trial_result list \<Rightarrow> nat \<Rightarrow> trial_result \<Rightarrow> nat" where
  "trial_rank pol valid i r = (if pol = TimeShared then length (takeWhile (\<lambda>x. time_value x \<noteq> time_value r) valid) else i) + 1"

fun non_finisher_order :: "trial_status \<Rightarrow> int" where
  "non_finisher_order TrialDNF = 0"
| "non_finisher_order TrialDNS = 1"
| "non_finisher_order TrialDQ = 2"
| "non_finisher_order TrialValid = 0"

definition non_finishers :: "platform \<Rightarrow> trial_request \<Rightarrow> trial_result list" where
  "non_finishers P q = sort_by (\<lambda>x y. or_else (num_cmp (non_finisher_order (tr_status x)) (non_finisher_order (tr_status y)))
       (locale_compare P (tr_competitor x) (tr_competitor y)))
     (filter (\<lambda>r. tr_status r \<noteq> TrialValid) (tq_results q))"

definition trial_rejected :: "platform \<Rightarrow> trial_request \<Rightarrow> string list list \<Rightarrow> string \<Rightarrow> string \<Rightarrow> string list \<Rightarrow> trial_output" where
  "trial_rejected P q ties code msg ids = seal_trial P
     \<lparr>to_certified = False, to_ranking = [], to_valid = 0, to_ties = ties, to_policy = tq_tie q, to_findings = [(code, msg, Some ids)], to_hash = []\<rparr>"

definition rank_time_trial :: "platform \<Rightarrow> trial_request \<Rightarrow> trial_output" where
  "rank_time_trial P q =
     (let duplicates = duplicate_ids (map tr_competitor (tq_results q))
      in if blank (tq_stage q) \<or> duplicates \<noteq> [] \<or> list_ex trial_invalid (tq_results q)
         then trial_rejected P q [] ''INVALID_TRIAL_RESULTS''
           ''Trial results require unique ids, valid non-negative times, and no time for non-finishers.'' duplicates
         else
           (let valid = valid_trials P q;
                ties = tie_groups valid;
                ranks = rank_map (case tq_seed q of None \<Rightarrow> [] | Some ids \<Rightarrow> ids)
            in if ties \<noteq> [] \<and> tq_tie q = TimeUnresolved
               then trial_rejected P q ties ''UNRESOLVED_TIE''
                 ''Equal valid times require an explicit shared-rank or seed-order policy.'' (concat ties)
               else if ties \<noteq> [] \<and> tq_tie q = TimeSeedOrder \<and> list_ex (list_ex (\<lambda>i. \<not> omap_has ranks i)) ties
               then trial_rejected P q ties ''INCOMPLETE_SEED_ORDER''
                 ''Seed-order tie resolution must cover every tied competitor.'' (concat ties)
               else seal_trial P
                 \<lparr>to_certified = True,
                  to_ranking = map (\<lambda>(i, r). \<lparr>rt_competitor = tr_competitor r, rt_status = TrialValid, rt_time = tr_time r,
                      rt_rank = Some (trial_rank (tq_tie q) valid i r)\<rparr>) (enumerate 0 valid)
                    @ map (\<lambda>r. \<lparr>rt_competitor = tr_competitor r, rt_status = tr_status r, rt_time = None, rt_rank = None\<rparr>) (non_finishers P q),
                  to_valid = length valid, to_ties = ties, to_policy = tq_tie q, to_findings = [], to_hash = []\<rparr>))"

section \<open>Qualification\<close>

datatype cutoff_policy = CutoffUnresolved | CutoffSeedOrder | CutoffAdvanceAll

record ranking_result =
  rr_competitor :: string
  rr_score :: jsnum
  rr_withdrawn :: "bool option"

record qualification_request =
  qr_stage :: string
  qr_results :: "ranking_result list"
  qr_places :: jsnum
  qr_better :: better_mark
  qr_cutoff :: cutoff_policy
  qr_seed :: "string list option"

record qualification_output =
  qo_certified :: bool
  qo_qualified :: "string list"
  qo_ordered :: "ranking_result list"
  qo_exact :: bool
  qo_requested :: jsnum
  qo_awarded :: nat
  qo_ties :: "string list"
  qo_excluded :: "string list"
  qo_policy :: cutoff_policy
  qo_findings :: "format_finding list"
  qo_hash :: string

fun cutoff_text :: "cutoff_policy \<Rightarrow> string" where
  "cutoff_text CutoffUnresolved = ''UNRESOLVED''"
| "cutoff_text CutoffSeedOrder = ''SEED_ORDER''"
| "cutoff_text CutoffAdvanceAll = ''ADVANCE_ALL''"

definition ranking_result_json :: "ranking_result \<Rightarrow> jsval" where
  "ranking_result_json r = JObj ([(''competitorId'', JStr (rr_competitor r)), (''score'', JNum (rr_score r))]
     @ opt_field ''withdrawn'' JBool (rr_withdrawn r))"

definition qualification_json :: "qualification_output \<Rightarrow> jsval" where
  "qualification_json out = JObj [(''status'', status_json (qo_certified out)), (''qualifiedCompetitorIds'', strs (qo_qualified out)),
     (''orderedResults'', JArr (map ranking_result_json (qo_ordered out))),
     (''proof'', JObj [(''qualificationCountExact'', JBool (qo_exact out)), (''requestedPlaces'', JNum (qo_requested out)),
        (''awardedPlaces'', jnat (qo_awarded out)), (''cutoffTieCompetitorIds'', strs (qo_ties out)),
        (''excludedCompetitorIds'', strs (qo_excluded out)), (''tiePolicy'', JStr (cutoff_text (qo_policy out)))]),
     (''findings'', JArr (map format_finding_json (qo_findings out)))]"

definition seal_qualification :: "platform \<Rightarrow> qualification_output \<Rightarrow> qualification_output" where
  "seal_qualification P out = out\<lparr>qo_hash := ledger_hash P (qualification_json out)\<rparr>"

definition qualification_rejected :: "platform \<Rightarrow> qualification_request \<Rightarrow> string list \<Rightarrow> string \<Rightarrow> string \<Rightarrow> string list \<Rightarrow> qualification_output" where
  "qualification_rejected P q excluded code msg ties = seal_qualification P
     \<lparr>qo_certified = False, qo_qualified = [], qo_ordered = [], qo_exact = False, qo_requested = qr_places q, qo_awarded = 0,
      qo_ties = ties, qo_excluded = excluded, qo_policy = qr_cutoff q, qo_findings = [(code, msg, if ties = [] then None else Some ties)], qo_hash = []\<rparr>"

definition score_of :: "ranking_result \<Rightarrow> rat" where
  "score_of r = num_value (rr_score r)"

definition active_results :: "qualification_request \<Rightarrow> ranking_result list" where
  "active_results q = filter (\<lambda>r. \<not> is_withdrawn (rr_withdrawn r)) (qr_results q)"

definition ordered_results :: "platform \<Rightarrow> qualification_request \<Rightarrow> ranking_result list" where
  "ordered_results P q = sort_by (\<lambda>x y. or_else (better_cmp (qr_better q) (score_of x) (score_of y))
       (tie_cmp P (qr_cutoff q = CutoffSeedOrder) (rank_map (case qr_seed q of None \<Rightarrow> [] | Some ids \<Rightarrow> ids)) (rr_competitor x) (rr_competitor y)))
     (active_results q)"

definition ahead :: "better_mark \<Rightarrow> rat \<Rightarrow> rat \<Rightarrow> bool" where
  "ahead b x y = (case b of LowerBetter \<Rightarrow> x < y | HigherBetter \<Rightarrow> x > y)"

definition qualify_ranking_stage :: "platform \<Rightarrow> qualification_request \<Rightarrow> qualification_output" where
  "qualify_ranking_stage P q =
     (let excluded = sort (map rr_competitor (filter (\<lambda>r. is_withdrawn (rr_withdrawn r)) (qr_results q)));
          active = active_results q;
          duplicates = duplicate_ids (map rr_competitor (qr_results q));
          rejected = qualification_rejected P q excluded
      in if blank (qr_stage q) \<or> duplicates \<noteq> [] \<or> list_ex (\<lambda>r. blank (rr_competitor r) \<or> js_finite (rr_score r) = None) (qr_results q)
         then rejected ''INVALID_RANKING_RESULTS'' ''Ranking results require unique ids and finite scores.'' duplicates
         else (case js_integer (qr_places q) of
             None \<Rightarrow> rejected ''INVALID_QUALIFICATION_PLACES'' ''Qualification places must be a positive integer within the active field.'' []
           | Some p \<Rightarrow>
               (if p < 1 \<or> p > int (length active)
                then rejected ''INVALID_QUALIFICATION_PLACES'' ''Qualification places must be a positive integer within the active field.'' []
                else
                  (let places = nat p;
                       ranks = rank_map (case qr_seed q of None \<Rightarrow> [] | Some ids \<Rightarrow> ids);
                       ordered = ordered_results P q;
                       cutoff = score_of (ordered ! (places - 1));
                       tied = sort (map rr_competitor (filter (\<lambda>r. score_of r = cutoff) ordered));
                       strictly = length (filter (\<lambda>r. ahead (qr_better q) (score_of r) cutoff) ordered);
                       crosses = int (length tied) > p - int strictly
                   in if crosses \<and> qr_cutoff q = CutoffUnresolved
                      then rejected ''CUTOFF_TIE_UNRESOLVED''
                        ''A score tie crosses the qualification boundary and no resolution policy is pinned.'' tied
                      else if crosses \<and> qr_cutoff q = CutoffSeedOrder \<and> list_ex (\<lambda>i. \<not> omap_has ranks i) tied
                      then rejected ''INCOMPLETE_SEED_ORDER'' ''Seed-order cutoff resolution must cover every tied competitor.'' tied
                      else
                        (let qualified = (if qr_cutoff q = CutoffAdvanceAll \<and> crosses
                             then map rr_competitor (filter (\<lambda>r. \<not> ahead (qr_better q) cutoff (score_of r)) ordered)
                             else map rr_competitor (take places ordered))
                         in seal_qualification P
                           \<lparr>qo_certified = True, qo_qualified = qualified, qo_ordered = ordered,
                            qo_exact = (length qualified = places), qo_requested = qr_places q, qo_awarded = length qualified,
                            qo_ties = (if crosses then tied else []), qo_excluded = excluded, qo_policy = qr_cutoff q,
                            qo_findings = [], qo_hash = []\<rparr>)))))"

end
