(* ===== verification/SwissRanking.thy ===== *)
theory SwissRanking
  imports RankedFormats "HOL-Library.Option_ord"
begin

text \<open>
  packages/competition-engine/src/swiss-ranking.ts: the ranking of a Swiss tournament by a registered
  policy, an ordered list of criteria (points, Buchholz, median Buchholz, Sonneborn-Berger, head to
  head, progressive score).

  \<^item> A metric is a rational; \<open>None\<close> is the code's \<^verbatim>\<open>null\<close>, which its buckets call UNRESOLVED. Distinct rationals
    stand for distinct texts of numbers.
  \<^item> Round numbers are finite. Requests and policies have their declared types, apart from the version of a policy.
  \<^item> A rejection is the \<open>Inl\<close> of a sum: code, message and competitors.
\<close>

section \<open>Data\<close>

datatype criterion = CriterionPoints | CriterionBuchholz | CriterionMedian | CriterionSonneborn | CriterionHeadToHead | CriterionProgressive

datatype incomplete_policy = IncompleteReject | IncompleteProvisional

datatype tie_resolution = TieReject | TieShared | TieById

record ranking_policy =
  rp_id :: string
  rp_version :: string
  rp_criteria :: "criterion list"
  rp_win :: jsnum
  rp_draw :: jsnum
  rp_loss :: jsnum
  rp_bye :: jsnum
  rp_drop :: jsnum
  rp_incomplete :: incomplete_policy
  rp_tie :: tie_resolution

datatype game_result = LeftWin | RightWin | DrawnGame

record ranking_game =
  rg_left :: string
  rg_right :: string
  rg_result :: "game_result option"

record ranking_round =
  rn_round :: rat
  rn_games :: "ranking_game list"
  rn_byes :: "string list"

record ranking_request =
  rq_policy :: string
  rq_tournament :: string
  rq_entrants :: "string list"
  rq_rounds :: "ranking_round list"

record swiss_metrics =
  sm_points :: rat
  sm_buchholz :: rat
  sm_median :: "rat option"
  sm_sonneborn :: rat
  sm_progressive :: rat
  sm_head :: "rat option"

record ranking_row =
  ro_competitor :: string
  ro_rank :: nat
  ro_metrics :: swiss_metrics

datatype ranking_status = RankingCertified | RankingProvisional | RankingRejected

record ranking_output =
  rk_status :: ranking_status
  rk_policy :: string
  rk_tournament :: string
  rk_rows :: "ranking_row list"
  rk_findings :: "format_finding list"
  rk_policy_hash :: "string option"
  rk_input_hash :: string
  rk_criteria :: "criterion list"
  rk_complete :: bool
  rk_evaluated :: nat
  rk_skipped :: nat
  rk_proof :: string

section \<open>JSON values\<close>

fun criterion_text :: "criterion \<Rightarrow> string" where
  "criterion_text CriterionPoints = ''POINTS''"
| "criterion_text CriterionBuchholz = ''BUCHHOLZ''"
| "criterion_text CriterionMedian = ''MEDIAN_BUCHHOLZ''"
| "criterion_text CriterionSonneborn = ''SONNEBORN_BERGER''"
| "criterion_text CriterionHeadToHead = ''HEAD_TO_HEAD''"
| "criterion_text CriterionProgressive = ''PROGRESSIVE_SCORE''"

fun incomplete_text :: "incomplete_policy \<Rightarrow> string" where
  "incomplete_text IncompleteReject = ''REJECT''"
| "incomplete_text IncompleteProvisional = ''PROVISIONAL''"

fun tie_resolution_text :: "tie_resolution \<Rightarrow> string" where
  "tie_resolution_text TieReject = ''REJECT''"
| "tie_resolution_text TieShared = ''SHARED_RANK''"
| "tie_resolution_text TieById = ''COMPETITOR_ID''"

fun game_result_text :: "game_result \<Rightarrow> string" where
  "game_result_text LeftWin = ''LEFT_WIN''"
| "game_result_text RightWin = ''RIGHT_WIN''"
| "game_result_text DrawnGame = ''DRAW''"

fun ranking_status_text :: "ranking_status \<Rightarrow> string" where
  "ranking_status_text RankingCertified = ''CERTIFIED''"
| "ranking_status_text RankingProvisional = ''PROVISIONAL''"
| "ranking_status_text RankingRejected = ''REJECTED''"

definition jrat :: "rat \<Rightarrow> jsval" where
  "jrat r = JNum (Num r)"

definition ranking_policy_json :: "ranking_policy \<Rightarrow> jsval" where
  "ranking_policy_json p = JObj [(''id'', JStr (rp_id p)), (''version'', JStr (rp_version p)),
     (''criteria'', strs (map criterion_text (rp_criteria p))),
     (''points'', JObj [(''win'', JNum (rp_win p)), (''draw'', JNum (rp_draw p)), (''loss'', JNum (rp_loss p)), (''bye'', JNum (rp_bye p))]),
     (''medianBuchholzDrop'', JNum (rp_drop p)), (''incompleteData'', JStr (incomplete_text (rp_incomplete p))),
     (''tieResolution'', JStr (tie_resolution_text (rp_tie p)))]"

definition ranking_game_json :: "ranking_game \<Rightarrow> jsval" where
  "ranking_game_json g = JObj [(''competitors'', strs [rg_left g, rg_right g]),
     (''result'', optional_json (\<lambda>r. JStr (game_result_text r)) (rg_result g))]"

definition ranking_round_json :: "ranking_round \<Rightarrow> jsval" where
  "ranking_round_json r = JObj [(''round'', jrat (rn_round r)), (''byes'', strs (rn_byes r)), (''games'', JArr (map ranking_game_json (rn_games r)))]"

definition ranking_request_json :: "ranking_request \<Rightarrow> jsval" where
  "ranking_request_json q = JObj [(''policyId'', JStr (rq_policy q)), (''tournamentId'', JStr (rq_tournament q)),
     (''entrants'', strs (rq_entrants q)), (''rounds'', JArr (map ranking_round_json (rq_rounds q)))]"

definition metrics_json :: "swiss_metrics \<Rightarrow> jsval" where
  "metrics_json x = JObj [(''points'', jrat (sm_points x)), (''buchholz'', jrat (sm_buchholz x)), (''medianBuchholz'', optional_json jrat (sm_median x)),
     (''sonnebornBerger'', jrat (sm_sonneborn x)), (''progressiveScore'', jrat (sm_progressive x)), (''headToHead'', optional_json jrat (sm_head x))]"

definition ranking_row_json :: "ranking_row \<Rightarrow> jsval" where
  "ranking_row_json r = JObj [(''competitorId'', JStr (ro_competitor r)), (''rank'', jnat (ro_rank r)), (''metrics'', metrics_json (ro_metrics r))]"

definition ranking_output_json :: "ranking_output \<Rightarrow> jsval" where
  "ranking_output_json out = JObj [(''status'', JStr (ranking_status_text (rk_status out))), (''policyId'', JStr (rk_policy out)),
     (''tournamentId'', JStr (rk_tournament out)), (''rows'', JArr (map ranking_row_json (rk_rows out))),
     (''findings'', JArr (map format_finding_json (rk_findings out))),
     (''proof'', JObj [(''policyHash'', string_or_null (rk_policy_hash out)), (''normalizedInputHash'', JStr (rk_input_hash out)),
        (''criteriaApplied'', strs (map criterion_text (rk_criteria out))), (''completeRounds'', JBool (rk_complete out)),
        (''headToHeadGroupsEvaluated'', jnat (rk_evaluated out)), (''headToHeadGroupsSkipped'', jnat (rk_skipped out)),
        (''scaleEnvelope'', JObj [(''maximumEntrants'', jnat 256), (''maximumRounds'', jnat 32), (''maximumGames'', jnat 4096)])])]"

definition seal_ranking :: "platform \<Rightarrow> ranking_output \<Rightarrow> ranking_output" where
  "seal_ranking P out = out\<lparr>rk_proof := ledger_hash P (ranking_output_json out)\<rparr>"

section \<open>Normal form of a request\<close>

fun swap_result :: "game_result \<Rightarrow> game_result" where
  "swap_result LeftWin = RightWin"
| "swap_result RightWin = LeftWin"
| "swap_result DrawnGame = DrawnGame"

definition normal_game :: "platform \<Rightarrow> ranking_game \<Rightarrow> ranking_game" where
  "normal_game P g = (if locale_compare P (rg_left g) (rg_right g) \<le> 0 then g
     else \<lparr>rg_left = rg_right g, rg_right = rg_left g, rg_result = map_option swap_result (rg_result g)\<rparr>)"

definition normal_round :: "platform \<Rightarrow> ranking_round \<Rightarrow> ranking_round" where
  "normal_round P r = \<lparr>rn_round = rn_round r,
     rn_games = sort_by (\<lambda>a b. or_else (locale_compare P (rg_left a) (rg_left b)) (locale_compare P (rg_right a) (rg_right b)))
       (map (normal_game P) (rn_games r)), rn_byes = sort (rn_byes r)\<rparr>"

definition normal_request :: "platform \<Rightarrow> ranking_request \<Rightarrow> ranking_request" where
  "normal_request P q = q\<lparr>rq_entrants := sort (rq_entrants q),
     rq_rounds := sort_by (\<lambda>a b. num_cmp (rn_round a) (rn_round b)) (map (normal_round P) (rq_rounds q))\<rparr>"

definition ranking_rejected :: "platform \<Rightarrow> ranking_request \<Rightarrow> string option \<Rightarrow> string \<Rightarrow> format_finding \<Rightarrow> ranking_output" where
  "ranking_rejected P q policy_hash input_hash f = seal_ranking P
     \<lparr>rk_status = RankingRejected, rk_policy = rq_policy q, rk_tournament = rq_tournament q, rk_rows = [], rk_findings = [f],
      rk_policy_hash = policy_hash, rk_input_hash = input_hash, rk_criteria = [], rk_complete = False, rk_evaluated = 0, rk_skipped = 0, rk_proof = []\<rparr>"

definition policy_valid :: "ranking_policy \<Rightarrow> bool" where
  "policy_valid p = (\<not> blank (rp_id p) \<and> rp_version p = ''1.0.0'' \<and> rp_criteria p \<noteq> [] \<and> hd (rp_criteria p) = CriterionPoints
     \<and> distinct (rp_criteria p)
     \<and> list_all (\<lambda>n. case js_finite n of None \<Rightarrow> False | Some r \<Rightarrow> 0 \<le> r) [rp_win p, rp_draw p, rp_loss p, rp_bye p]
     \<and> num_value (rp_draw p) < num_value (rp_win p) \<and> num_value (rp_loss p) \<le> num_value (rp_draw p)
     \<and> (case js_integer (rp_drop p) of None \<Rightarrow> False | Some i \<Rightarrow> 0 \<le> i))"

section \<open>The rounds\<close>

record player_work =
  pw_id :: string
  pw_points :: rat
  pw_progressive :: rat
  pw_opponents :: "(string \<times> rat option) list"

type_synonym completed_games = "(string, (string \<times> string \<times> game_result) list) omap"

record round_work =
  rw_players :: "player_work list"
  rw_completed :: completed_games
  rw_incomplete :: "format_finding list"
  rw_seen :: "string list"
  rw_gained :: "(string, rat) omap"

text \<open>\<^verbatim>\<open>const values = map.get(k) ?? []; values.push(v); map.set(k, values)\<close>\<close>

definition push_to :: "'k \<Rightarrow> 'v \<Rightarrow> ('k, 'v list) omap \<Rightarrow> ('k, 'v list) omap" where
  "push_to k v m = omap_set k ((case omap_get m k of None \<Rightarrow> [] | Some vs \<Rightarrow> vs) @ [v]) m"

definition group_by :: "('v \<Rightarrow> 'k) \<Rightarrow> 'v list \<Rightarrow> ('k, 'v list) omap" where
  "group_by f xs = foldl (\<lambda>m x. push_to (f x) x m) [] xs"

text \<open>\<^verbatim>\<open>[left, right].sort().join("|")\<close>\<close>

definition pair_key :: "string \<Rightarrow> string \<Rightarrow> string" where
  "pair_key l r = join ''|'' (sort [l, r])"

definition left_factor :: "game_result option \<Rightarrow> rat option" where
  "left_factor r = map_option (\<lambda>x. case x of LeftWin \<Rightarrow> 1 | DrawnGame \<Rightarrow> 1 / 2 | RightWin \<Rightarrow> 0) r"

definition left_points :: "ranking_policy \<Rightarrow> game_result \<Rightarrow> rat" where
  "left_points p r = num_value (case r of LeftWin \<Rightarrow> rp_win p | DrawnGame \<Rightarrow> rp_draw p | RightWin \<Rightarrow> rp_loss p)"

definition right_points :: "ranking_policy \<Rightarrow> game_result \<Rightarrow> rat" where
  "right_points p r = left_points p (swap_result r)"

definition meet :: "string \<Rightarrow> string \<Rightarrow> rat option \<Rightarrow> player_work list \<Rightarrow> player_work list" where
  "meet i opponent f = map (\<lambda>x. if pw_id x = i then x\<lparr>pw_opponents := pw_opponents x @ [(opponent, f)]\<rparr> else x)"

text \<open>One game of round \<open>n\<close>.\<close>

definition play_game :: "ranking_policy \<Rightarrow> string list \<Rightarrow> nat \<Rightarrow> ranking_game \<Rightarrow> round_work \<Rightarrow> (format_finding, round_work) result" where
  "play_game p entrants n g w =
     (let l = rg_left g; r = rg_right g; known = (\<lambda>i. List.member entrants i); seen = (\<lambda>i. List.member (rw_seen w) i)
      in if \<not> known l \<or> \<not> known r \<or> l = r \<or> seen l \<or> seen r
         then Inl (''INVALID_ROUND_PAIRING'', ''A round must pair registered entrants at most once with a registered result shape.'', Some (sort [l, r]))
         else
           (let f = left_factor (rg_result g);
                w' = w\<lparr>rw_seen := rw_seen w @ [l, r],
                  rw_players := meet r l (map_option (\<lambda>x. 1 - x) f) (meet l r f (rw_players w))\<rparr>
            in Inr (case rg_result g of
                 None \<Rightarrow> w'\<lparr>rw_incomplete := rw_incomplete w
                   @ [(''INCOMPLETE_RESULT'', ''Round '' @ digits_of n @ '' has an unresolved game.'', Some [l, r])]\<rparr>
               | Some x \<Rightarrow> w'\<lparr>rw_gained := omap_set r (right_points p x) (omap_set l (left_points p x) (rw_gained w)),
                   rw_completed := push_to (pair_key l r) (l, r, x) (rw_completed w)\<rparr>)))"

definition take_bye :: "ranking_policy \<Rightarrow> string list \<Rightarrow> string \<Rightarrow> round_work \<Rightarrow> (format_finding, round_work) result" where
  "take_bye p entrants b w =
     (if \<not> List.member entrants b \<or> List.member (rw_seen w) b
      then Inl (''INVALID_BYE'', ''A bye must identify one otherwise-unpaired registered entrant.'', Some [b])
      else Inr (w\<lparr>rw_seen := rw_seen w @ [b], rw_gained := omap_set b (num_value (rp_bye p)) (rw_gained w)\<rparr>))"

definition close_round :: "string list \<Rightarrow> nat \<Rightarrow> round_work \<Rightarrow> round_work" where
  "close_round entrants n w =
     (let missing = filter (\<lambda>i. \<not> List.member (rw_seen w) i) entrants
      in w\<lparr>rw_incomplete := rw_incomplete w
             @ (if missing \<noteq> [] then [(''INCOMPLETE_ROUND'', ''Round '' @ digits_of n @ '' omits registered entrants.'', Some missing)] else []),
           rw_players := map (\<lambda>x. let pts = pw_points x + (case omap_get (rw_gained w) (pw_id x) of None \<Rightarrow> 0 | Some v \<Rightarrow> v)
             in x\<lparr>pw_points := pts, pw_progressive := pw_progressive x + pts\<rparr>) (rw_players w)\<rparr>)"

definition play_round :: "ranking_policy \<Rightarrow> string list \<Rightarrow> nat \<times> ranking_round \<Rightarrow> round_work \<Rightarrow> (format_finding, round_work) result" where
  "play_round p entrants x w = (case x of (i, r) \<Rightarrow>
     bind_result (fold_result (play_game p entrants (i + 1)) (rn_games r) (w\<lparr>rw_seen := [], rw_gained := map (\<lambda>e. (e, 0)) entrants\<rparr>)) (\<lambda>w1.
     bind_result (fold_result (take_bye p entrants) (rn_byes r) w1) (\<lambda>w2. Inr (close_round entrants (i + 1) w2))))"

definition play_rounds :: "ranking_policy \<Rightarrow> string list \<Rightarrow> ranking_round list \<Rightarrow> (format_finding, round_work) result" where
  "play_rounds p entrants rounds = fold_result (play_round p entrants) (enumerate 0 rounds)
     \<lparr>rw_players = map (\<lambda>i. \<lparr>pw_id = i, pw_points = 0, pw_progressive = 0, pw_opponents = []\<rparr>) entrants,
      rw_completed = [], rw_incomplete = [], rw_seen = [], rw_gained = []\<rparr>"

section \<open>Metrics\<close>

definition points_of :: "player_work list \<Rightarrow> string \<Rightarrow> rat" where
  "points_of players i = (case omap_get (map (\<lambda>x. (pw_id x, pw_points x)) players) i of None \<Rightarrow> 0 | Some r \<Rightarrow> r)"

definition opponent_points :: "player_work list \<Rightarrow> player_work \<Rightarrow> rat list" where
  "opponent_points players x = map (\<lambda>(i, f). points_of players i) (pw_opponents x)"

definition median_buchholz :: "nat \<Rightarrow> rat list \<Rightarrow> rat option" where
  "median_buchholz d ps = (if 2 * d + 1 \<le> length ps then Some (sum_list (take (length ps - d - d) (drop d (sort ps)))) else None)"

definition sonneborn :: "player_work list \<Rightarrow> player_work \<Rightarrow> rat" where
  "sonneborn players x = sum_list (map (\<lambda>(i, f). (case f of None \<Rightarrow> 0 | Some r \<Rightarrow> r) * points_of players i) (pw_opponents x))"

fun every_pair :: "('a \<Rightarrow> 'a \<Rightarrow> bool) \<Rightarrow> 'a list \<Rightarrow> bool" where
  "every_pair R [] = True"
| "every_pair R (x # xs) = (list_all (R x) xs \<and> every_pair R xs)"

definition group_complete :: "completed_games \<Rightarrow> player_work list \<Rightarrow> bool" where
  "group_complete games grp = every_pair (\<lambda>x y.
     length (case omap_get games (pair_key (pw_id x) (pw_id y)) of None \<Rightarrow> [] | Some gs \<Rightarrow> gs) = 1) grp"

definition game_points :: "ranking_policy \<Rightarrow> string \<Rightarrow> string \<times> string \<times> game_result \<Rightarrow> rat" where
  "game_points p i g = (case g of (l, r, x) \<Rightarrow>
     (if x = DrawnGame then num_value (rp_draw p)
      else if (if x = LeftWin then l = i else r = i) then num_value (rp_win p) else num_value (rp_loss p)))"

definition head_score :: "ranking_policy \<Rightarrow> completed_games \<Rightarrow> player_work list \<Rightarrow> player_work \<Rightarrow> rat" where
  "head_score p games grp x = foldl (\<lambda>score y. score + game_points p (pw_id x)
     (hd (case omap_get games (pair_key (pw_id x) (pw_id y)) of None \<Rightarrow> [] | Some gs \<Rightarrow> gs))) 0
     (filter (\<lambda>y. pw_id y \<noteq> pw_id x) grp)"

definition head_to_head :: "ranking_policy \<Rightarrow> completed_games \<Rightarrow> player_work list \<Rightarrow> player_work \<Rightarrow> rat option" where
  "head_to_head p games grp x =
     (if length grp = 1 then Some 0 else if group_complete games grp then Some (head_score p games grp x) else None)"

definition metrics_of :: "ranking_policy \<Rightarrow> round_work \<Rightarrow> player_work \<Rightarrow> swiss_metrics" where
  "metrics_of p w x =
     (let players = rw_players w; ps = opponent_points players x;
          grp = (case omap_get (group_by pw_points players) (pw_points x) of None \<Rightarrow> [] | Some g \<Rightarrow> g)
      in \<lparr>sm_points = pw_points x, sm_buchholz = sum_list ps, sm_median = median_buchholz (nat (the (js_integer (rp_drop p)))) ps,
          sm_sonneborn = sonneborn players x, sm_progressive = pw_progressive x, sm_head = head_to_head p (rw_completed w) grp x\<rparr>)"

definition point_groups :: "round_work \<Rightarrow> player_work list list" where
  "point_groups w = filter (\<lambda>g. length g \<noteq> 1) (map snd (group_by pw_points (rw_players w)))"

section \<open>Ranking\<close>

type_synonym ranked_player = "string \<times> swiss_metrics"

fun metric :: "criterion \<Rightarrow> swiss_metrics \<Rightarrow> rat option" where
  "metric CriterionPoints x = Some (sm_points x)"
| "metric CriterionBuchholz x = Some (sm_buchholz x)"
| "metric CriterionMedian x = sm_median x"
| "metric CriterionSonneborn x = Some (sm_sonneborn x)"
| "metric CriterionHeadToHead x = sm_head x"
| "metric CriterionProgressive x = Some (sm_progressive x)"

text \<open>Buckets by value: larger values first, the unresolved last.\<close>

definition bucket_cmp :: "rat option \<Rightarrow> rat option \<Rightarrow> int" where
  "bucket_cmp a b = (case a of None \<Rightarrow> 1 | Some x \<Rightarrow> (case b of None \<Rightarrow> -1 | Some y \<Rightarrow> num_cmp y x))"

definition split_group :: "criterion \<Rightarrow> ranked_player list \<Rightarrow> ranked_player list list" where
  "split_group c grp = map snd (sort_by (\<lambda>a b. bucket_cmp (fst a) (fst b)) (group_by (\<lambda>x. metric c (snd x)) grp))"

definition split_groups :: "criterion list \<Rightarrow> ranked_player list list \<Rightarrow> ranked_player list list" where
  "split_groups cs groups = foldl (\<lambda>gs c. concat (map (split_group c) gs)) groups cs"

fun rows_from :: "nat \<Rightarrow> ranked_player list list \<Rightarrow> ranking_row list" where
  "rows_from n [] = []"
| "rows_from n (g # gs) = map (\<lambda>(i, x). \<lparr>ro_competitor = i, ro_rank = n, ro_metrics = x\<rparr>) g @ rows_from (n + length g) gs"

definition final_groups :: "platform \<Rightarrow> ranking_policy \<Rightarrow> ranked_player list list \<Rightarrow> ranked_player list list" where
  "final_groups P p groups = (if rp_tie p = TieById
     then concat (map (\<lambda>g. map (\<lambda>x. [x]) (sort_by (\<lambda>a b. locale_compare P (fst a) (fst b)) g)) groups) else groups)"

definition rank_rounds :: "platform \<Rightarrow> ranking_policy \<Rightarrow> ranking_request \<Rightarrow> string \<Rightarrow> round_work \<Rightarrow> ranking_output" where
  "rank_rounds P p q input_hash w =
     (let rejected = ranking_rejected P q (Some (ledger_hash P (ranking_policy_json p))) input_hash;
          ranked = map (\<lambda>x. (pw_id x, metrics_of p w x)) (rw_players w);
          lacking = list_ex (\<lambda>c. c = CriterionMedian) (rp_criteria p) \<and> list_ex (\<lambda>x. sm_median (snd x) = None) ranked;
          finding = (''INSUFFICIENT_OPPONENTS'', ''Median Buchholz needs at least 2 '' @ [char_of (215 :: nat)] @ '' drop + 1 completed opponents.'', None);
          incomplete = rw_incomplete w @ (if lacking then [finding] else []);
          groups = split_groups (rp_criteria p) [sort_by (\<lambda>a b. locale_compare P (fst a) (fst b)) ranked];
          unresolved = filter (\<lambda>g. length g > 1) groups
      in if rw_incomplete w \<noteq> [] \<and> rp_incomplete p = IncompleteReject then rejected (hd (rw_incomplete w))
         else if lacking \<and> rp_incomplete p = IncompleteReject then rejected finding
         else if unresolved \<noteq> [] \<and> rp_tie p = TieReject
         then rejected (''UNRESOLVED_TIE'', ''Registered ranking criteria do not fully resolve the final order.'',
           Some (sort (concat (map (map fst) unresolved))))
         else seal_ranking P
           \<lparr>rk_status = (if incomplete = [] then RankingCertified else RankingProvisional), rk_policy = rp_id p, rk_tournament = rq_tournament q,
            rk_rows = rows_from 1 (final_groups P p groups), rk_findings = incomplete,
            rk_policy_hash = Some (ledger_hash P (ranking_policy_json p)), rk_input_hash = input_hash, rk_criteria = rp_criteria p,
            rk_complete = (incomplete = []), rk_evaluated = length (filter (group_complete (rw_completed w)) (point_groups w)),
            rk_skipped = length (filter (\<lambda>g. \<not> group_complete (rw_completed w) g) (point_groups w)), rk_proof = []\<rparr>)"

definition rank_with_policy :: "platform \<Rightarrow> ranking_policy \<Rightarrow> ranking_request \<Rightarrow> ranking_output" where
  "rank_with_policy P p source =
     (let q = normal_request P source;
          input_hash = ledger_hash P (ranking_request_json q);
          rejected = (\<lambda>code msg. ranking_rejected P q (Some (ledger_hash P (ranking_policy_json p))) input_hash (code, msg, None))
      in if \<not> policy_valid p
         then rejected ''INVALID_RANKING_POLICY'' ''Ranking policy is invalid or uses an unsupported version or criterion.''
         else if blank (rq_tournament q) \<or> length (rq_entrants q) < 2 \<or> length (rq_entrants q) > 256 \<or> \<not> distinct (rq_entrants q)
           \<or> list_ex blank (rq_entrants q)
         then rejected ''INVALID_ENTRANTS'' ''Tournament and unique entrant ids are required within the scale envelope.''
         else if length (rq_rounds q) < 1 \<or> length (rq_rounds q) > 32 \<or> sum_list (map (\<lambda>r. length (rn_games r)) (rq_rounds q)) > 4096
           \<or> list_ex (\<lambda>(i, r). rn_round r \<noteq> of_nat (i + 1)) (enumerate 0 (rq_rounds q))
         then rejected ''INVALID_ROUND_SEQUENCE'' ''Rounds must be contiguous, unique, and within the scale envelope.''
         else (case play_rounds p (rq_entrants q) (rq_rounds q) of
             Inl f \<Rightarrow> ranking_rejected P q (Some (ledger_hash P (ranking_policy_json p))) input_hash f
           | Inr w \<Rightarrow> rank_rounds P p q input_hash w))"

section \<open>The engine\<close>

definition register_policy :: "ranking_policy \<Rightarrow> (string, ranking_policy) omap \<Rightarrow> (string, (string, ranking_policy) omap) result" where
  "register_policy p registry = (if blank (rp_id p) \<or> omap_has registry (rp_id p)
     then Inl ''Swiss ranking policy ids must be non-empty and unique'' else Inr (omap_set (rp_id p) p registry))"

definition create_swiss_ranking_engine :: "ranking_policy list \<Rightarrow> (string, (string, ranking_policy) omap) result" where
  "create_swiss_ranking_engine ps = fold_result register_policy ps []"

definition engine_rank :: "platform \<Rightarrow> (string, ranking_policy) omap \<Rightarrow> ranking_request \<Rightarrow> ranking_output" where
  "engine_rank P registry q = (case omap_get registry (rq_policy q) of
     None \<Rightarrow> ranking_rejected P q None (ledger_hash P (ranking_request_json (normal_request P q)))
       (''UNREGISTERED_RANKING_POLICY'', ''No registered Swiss ranking policy matches this request.'', None)
   | Some p \<Rightarrow> rank_with_policy P p q)"

section \<open>What the loop over the rounds computes\<close>

text \<open>The points of a competitor in a round, and the opponents with the factor of the result.\<close>

definition game_gain :: "ranking_policy \<Rightarrow> string \<Rightarrow> ranking_game \<Rightarrow> rat" where
  "game_gain p i g = (case rg_result g of None \<Rightarrow> 0 | Some x \<Rightarrow>
     if rg_left g = i then left_points p x else if rg_right g = i then right_points p x else 0)"

definition round_gain :: "ranking_policy \<Rightarrow> string \<Rightarrow> ranking_round \<Rightarrow> rat" where
  "round_gain p i r = sum_list (map (game_gain p i) (rn_games r)) + (if i \<in> set (rn_byes r) then num_value (rp_bye p) else 0)"

definition game_opponents :: "string \<Rightarrow> ranking_game \<Rightarrow> (string \<times> rat option) list" where
  "game_opponents i g = (if rg_left g = i then [(rg_right g, left_factor (rg_result g))]
     else if rg_right g = i then [(rg_left g, map_option (\<lambda>x. 1 - x) (left_factor (rg_result g)))] else [])"

definition gain :: "round_work \<Rightarrow> string \<Rightarrow> rat" where
  "gain w i = (case omap_get (rw_gained w) i of None \<Rightarrow> 0 | Some r \<Rightarrow> r)"

definition unseen_gain_nothing :: "round_work \<Rightarrow> bool" where
  "unseen_gain_nothing w \<longleftrightarrow> (\<forall>i. i \<notin> set (rw_seen w) \<longrightarrow> gain w i = 0)"

lemma play_game_step:
  assumes "play_game p es n g w = Inr w'" "unseen_gain_nothing w"
  shows "unseen_gain_nothing w' \<and> (\<forall>i. gain w' i = gain w i + game_gain p i g)
    \<and> rw_players w' = map (\<lambda>x. x\<lparr>pw_opponents := pw_opponents x @ game_opponents (pw_id x) g\<rparr>) (rw_players w)"
proof -
  let ?l = "rg_left g" and ?r = "rg_right g"
  have ok: "?l \<noteq> ?r" "?l \<notin> set (rw_seen w)" "?r \<notin> set (rw_seen w)"
    using assms(1) by (auto simp: play_game_def Let_def split: if_splits)
  have seen: "rw_seen w' = rw_seen w @ [?l, ?r]" and
    players: "rw_players w' = meet ?r ?l (map_option (\<lambda>x. 1 - x) (left_factor (rg_result g))) (meet ?l ?r (left_factor (rg_result g)) (rw_players w))"
    and gained: "rw_gained w' = (case rg_result g of None \<Rightarrow> rw_gained w
      | Some x \<Rightarrow> omap_set ?r (right_points p x) (omap_set ?l (left_points p x) (rw_gained w)))"
    using assms(1) by (auto simp: play_game_def Let_def split: if_splits option.splits)
  have "gain w ?l = 0" "gain w ?r = 0" using assms(2) ok by (auto simp: unseen_gain_nothing_def)
  then have "gain w' i = gain w i + game_gain p i g" for i
    using ok(1) by (auto simp: gain_def gained game_gain_def split: option.splits)
  moreover from this have "unseen_gain_nothing w'"
    using assms(2) seen by (auto simp: unseen_gain_nothing_def game_gain_def split: option.splits)
  moreover have "rw_players w' = map (\<lambda>x. x\<lparr>pw_opponents := pw_opponents x @ game_opponents (pw_id x) g\<rparr>) (rw_players w)"
    using ok(1) by (auto simp: players meet_def game_opponents_def)
  ultimately show ?thesis by blast
qed

lemma play_games:
  assumes "fold_result (play_game p es n) gs w = Inr w'" "unseen_gain_nothing w"
  shows "unseen_gain_nothing w' \<and> (\<forall>i. gain w' i = gain w i + sum_list (map (game_gain p i) gs))
    \<and> rw_players w' = map (\<lambda>x. x\<lparr>pw_opponents := pw_opponents x @ concat (map (game_opponents (pw_id x)) gs)\<rparr>) (rw_players w)"
  using assms
proof (induction gs arbitrary: w)
  case (Cons g gs)
  then obtain v where v: "play_game p es n g w = Inr v" "fold_result (play_game p es n) gs v = Inr w'" by (auto simp: bind_result_Inr_iff)
  note step = play_game_step [OF v(1) Cons.prems(2)]
  then show ?case using Cons.IH [OF v(2)] by (auto simp: algebra_simps)
qed (simp add: map_idI)

lemma take_byes:
  assumes "fold_result (take_bye p es) bs w = Inr w'" "unseen_gain_nothing w"
  shows "(\<forall>i. gain w' i = gain w i + (if i \<in> set bs then num_value (rp_bye p) else 0)) \<and> rw_players w' = rw_players w
    \<and> (\<forall>b \<in> set bs. b \<notin> set (rw_seen w))"
  using assms
proof (induction bs arbitrary: w)
  case (Cons b bs)
  then obtain v where v: "take_bye p es b w = Inr v" "fold_result (take_bye p es) bs v = Inr w'" by (auto simp: bind_result_Inr_iff)
  have step: "b \<notin> set (rw_seen w)" "v = w\<lparr>rw_seen := rw_seen w @ [b], rw_gained := omap_set b (num_value (rp_bye p)) (rw_gained w)\<rparr>"
    using v(1) by (auto simp: take_bye_def split: if_splits)
  have "gain w b = 0" using Cons.prems(2) step(1) by (simp add: unseen_gain_nothing_def)
  then have g: "gain v i = gain w i + (if i = b then num_value (rp_bye p) else 0)" for i
    by (auto simp: step(2) gain_def)
  then have "unseen_gain_nothing v" using Cons.prems(2) by (auto simp: unseen_gain_nothing_def step(2))
  from Cons.IH [OF v(2) this] g show ?case using step by auto
qed simp

lemma gain_initial: "gain (w\<lparr>rw_seen := [], rw_gained := map (\<lambda>e. (e, 0)) es\<rparr>) i = 0"
  by (simp add: gain_def map_of_map_restrict restrict_map_def split: option.splits)

lemma play_round_players:
  assumes "play_round p es (n, r) w = Inr w'"
  shows "rw_players w' = map (\<lambda>x. x\<lparr>pw_points := pw_points x + round_gain p (pw_id x) r,
     pw_progressive := pw_progressive x + (pw_points x + round_gain p (pw_id x) r),
     pw_opponents := pw_opponents x @ concat (map (game_opponents (pw_id x)) (rn_games r))\<rparr>) (rw_players w)"
proof -
  let ?w = "w\<lparr>rw_seen := [], rw_gained := map (\<lambda>e. (e, 0)) es\<rparr>"
  obtain w1 w2 where w: "fold_result (play_game p es (n + 1)) (rn_games r) ?w = Inr w1" "fold_result (take_bye p es) (rn_byes r) w1 = Inr w2"
    "w' = close_round es (n + 1) w2" using assms by (auto simp: play_round_def bind_result_Inr_iff)
  have "unseen_gain_nothing ?w" by (simp add: unseen_gain_nothing_def gain_initial)
  from play_games [OF w(1) this] have g1: "unseen_gain_nothing w1" "\<And>i. gain w1 i = sum_list (map (game_gain p i) (rn_games r))"
    "rw_players w1 = map (\<lambda>x. x\<lparr>pw_opponents := pw_opponents x @ concat (map (game_opponents (pw_id x)) (rn_games r))\<rparr>) (rw_players w)"
    by (auto simp: gain_initial)
  from take_byes [OF w(2) g1(1)] have "\<And>i. gain w2 i = round_gain p i r" "rw_players w2 = rw_players w1"
    by (auto simp: g1(2) round_gain_def)
  then show ?thesis by (simp add: w(3) close_round_def Let_def g1(3) comp_def flip: gain_def)
qed

definition total_points :: "ranking_policy \<Rightarrow> ranking_round list \<Rightarrow> string \<Rightarrow> rat" where
  "total_points p rounds i = sum_list (map (round_gain p i) rounds)"

definition all_opponents :: "ranking_round list \<Rightarrow> string \<Rightarrow> (string \<times> rat option) list" where
  "all_opponents rounds i = concat (map (\<lambda>r. concat (map (game_opponents i) (rn_games r))) rounds)"

lemma play_rounds_from:
  assumes "fold_result (play_round p es) (enumerate n rounds) w = Inr w'"
  shows "map (\<lambda>x. (pw_id x, pw_points x, pw_opponents x)) (rw_players w')
    = map (\<lambda>x. (pw_id x, pw_points x + total_points p rounds (pw_id x), pw_opponents x @ all_opponents rounds (pw_id x))) (rw_players w)"
  using assms
proof (induction rounds arbitrary: n w)
  case (Cons r rounds)
  then obtain v where v: "play_round p es (n, r) w = Inr v" "fold_result (play_round p es) (enumerate (Suc n) rounds) v = Inr w'"
    by (auto simp: bind_result_Inr_iff)
  show ?case unfolding Cons.IH [OF v(2)] play_round_players [OF v(1)]
    by (simp add: comp_def total_points_def all_opponents_def algebra_simps)
qed (simp add: total_points_def all_opponents_def)

lemma played_rounds:
  assumes "play_rounds p es rounds = Inr w"
  shows "map (\<lambda>x. (pw_id x, pw_points x, pw_opponents x)) (rw_players w) = map (\<lambda>i. (i, total_points p rounds i, all_opponents rounds i)) es"
  using play_rounds_from [OF assms [unfolded play_rounds_def]] by (simp add: comp_def)

section \<open>Groups\<close>

lemma push_to_spec:
  "omap_get (push_to k v m) j = (if j = k then Some ((case omap_get m k of None \<Rightarrow> [] | Some vs \<Rightarrow> vs) @ [v]) else omap_get m j)"
  by (simp add: push_to_def)

lemma group_by_get: "omap_get (group_by f xs) k = (if filter (\<lambda>x. f x = k) xs = [] then None else Some (filter (\<lambda>x. f x = k) xs))"
proof (induction xs rule: rev_induct)
  case (snoc x xs)
  then show ?case by (auto simp: group_by_def push_to_spec split: option.splits if_splits)
qed (simp add: group_by_def)

lemma group_by_wf: "omap_wf (group_by f xs)"
  by (induction xs rule: rev_induct) (auto simp: group_by_def push_to_def omap_wf_set, simp add: omap_wf_def)

lemma group_by_entries: "(k, vs) \<in> set (group_by f xs) \<Longrightarrow> vs = filter (\<lambda>x. f x = k) xs \<and> vs \<noteq> []"
  using omap_wf_in_set [OF group_by_wf] group_by_get by (metis option.distinct(1) option.inject)

lemma mset_omap_set: "mset (concat (map snd (omap_set k v m))) + (case omap_get m k of None \<Rightarrow> {#} | Some u \<Rightarrow> mset u) = mset (concat (map snd m)) + mset v"
  by (induction k v m rule: omap_set.induct) (auto split: option.splits)

lemma mset_push_to: "mset (concat (map snd (push_to k v m))) = add_mset v (mset (concat (map snd m)))"
  using mset_omap_set [of k "(case omap_get m k of None \<Rightarrow> [] | Some vs \<Rightarrow> vs) @ [v]" m] by (auto simp: push_to_def split: option.splits)

lemma group_by_mset: "mset (concat (map snd (group_by f xs))) = mset xs"
proof (induction xs rule: rev_induct)
  case (snoc x xs)
  have "group_by f (xs @ [x]) = push_to (f x) x (group_by f xs)" by (simp add: group_by_def)
  then show ?case using snoc by (simp add: mset_push_to)
qed (simp add: group_by_def)

lemma bucket_cmp_less: "a \<noteq> b \<Longrightarrow> bucket_cmp a b \<le> 0 \<longleftrightarrow> b < a" "a \<noteq> b \<Longrightarrow> \<not> bucket_cmp a b \<le> 0 \<longleftrightarrow> a < b"
  by (cases a; cases b; auto simp: bucket_cmp_def num_cmp_def)+

lemma buckets_sorted:
  assumes "distinct (map fst m)"
  shows "sorted_wrt (\<lambda>a b. fst b < fst a) (sort_by (\<lambda>a b. bucket_cmp (fst a) (fst b)) m)"
  using assms
proof (induction m)
  case (Cons x m)
  have "sorted_wrt (\<lambda>a b. fst b < fst a) (insert_by (\<lambda>a b. bucket_cmp (fst a) (fst b)) x ys)"
    if "sorted_wrt (\<lambda>a b. fst b < fst a) ys" "fst x \<notin> fst ` set ys" for ys :: "(rat option \<times> 'a) list"
    using that
  proof (induction ys)
    case (Cons y ys)
    then have "fst x \<noteq> fst y" by auto
    then show ?case using Cons bucket_cmp_less [of "fst x" "fst y"] by (auto intro: order.strict_trans)
  qed simp
  then show ?case using Cons by simp
qed simp

definition keys_of :: "criterion list \<Rightarrow> swiss_metrics \<Rightarrow> rat option list" where
  "keys_of cs x = map (\<lambda>c. metric c x) cs"

text \<open>Groups with equal keys, the keys going down.\<close>

definition graded :: "criterion list \<Rightarrow> ranked_player list list \<Rightarrow> bool" where
  "graded cs gs \<longleftrightarrow> (\<forall>g \<in> set gs. g \<noteq> [] \<and> (\<forall>x \<in> set g. \<forall>y \<in> set g. keys_of cs (snd x) = keys_of cs (snd y)))
     \<and> sorted_wrt (\<lambda>g h. \<forall>x \<in> set g. \<forall>y \<in> set h. keys_of cs (snd y) < keys_of cs (snd x)) gs"

lemma graded_Nil: "graded cs []"
  by (simp add: graded_def)

lemma graded_Cons: "graded cs (g # gs) \<longleftrightarrow> g \<noteq> [] \<and> (\<forall>x \<in> set g. \<forall>y \<in> set g. keys_of cs (snd x) = keys_of cs (snd y))
    \<and> (\<forall>h \<in> set gs. \<forall>x \<in> set g. \<forall>y \<in> set h. keys_of cs (snd y) < keys_of cs (snd x)) \<and> graded cs gs"
  unfolding graded_def list.set sorted_wrt.simps by blast

lemma graded_ConsD:
  assumes "graded cs (g # gs)"
  shows "g \<noteq> []" "graded cs gs" "\<And>x y. x \<in> set g \<Longrightarrow> y \<in> set g \<Longrightarrow> keys_of cs (snd x) = keys_of cs (snd y)"
    "\<And>x y. x \<in> set g \<Longrightarrow> y \<in> set (concat gs) \<Longrightarrow> keys_of cs (snd y) < keys_of cs (snd x)"
proof -
  note g = assms [unfolded graded_Cons]
  show "g \<noteq> []" using g by (rule conjunct1)
  show "graded cs gs" using g by blast
  show "keys_of cs (snd x) = keys_of cs (snd y)" if "x \<in> set g" "y \<in> set g" for x y using g that by blast
  show "keys_of cs (snd y) < keys_of cs (snd x)" if "x \<in> set g" "y \<in> set (concat gs)" for x y
    using g that unfolding set_concat by blast
qed

lemma graded_append: "graded cs (gs @ hs) \<longleftrightarrow> graded cs gs \<and> graded cs hs
    \<and> (\<forall>g \<in> set gs. \<forall>h \<in> set hs. \<forall>x \<in> set g. \<forall>y \<in> set h. keys_of cs (snd y) < keys_of cs (snd x))"
  unfolding graded_def set_append sorted_wrt_append by blast

lemma keys_of_snoc: "keys_of (cs @ [c]) x = keys_of cs x @ [metric c x]"
  by (simp add: keys_of_def)

lemma snoc_less: "length a = length b \<Longrightarrow> a @ [x] < b @ [y] \<longleftrightarrow> a < b \<or> a = b \<and> x < (y :: 'a :: linorder)"
proof (induction a b rule: list_induct2)
  case (Cons a as b bs)
  then show ?case by auto
qed simp

lemma keys_snoc_less: "keys_of (cs @ [c]) x < keys_of (cs @ [c]) y \<longleftrightarrow> keys_of cs x < keys_of cs y \<or> keys_of cs x = keys_of cs y \<and> metric c x < metric c y"
  unfolding keys_of_snoc by (rule snoc_less) (simp add: keys_of_def)

lemma split_group_spec:
  shows "mset (concat (split_group c g)) = mset g"
    and "\<And>h. h \<in> set (split_group c g) \<Longrightarrow> h \<noteq> [] \<and> set h \<subseteq> set g \<and> (\<forall>x \<in> set h. \<forall>y \<in> set h. metric c (snd x) = metric c (snd y))"
    and "sorted_wrt (\<lambda>h h'. \<forall>x \<in> set h. \<forall>y \<in> set h'. metric c (snd y) < metric c (snd x)) (split_group c g)"
proof -
  let ?m = "group_by (\<lambda>x. metric c (snd x)) g"
  let ?s = "sort_by (\<lambda>a b. bucket_cmp (fst a) (fst b)) ?m"
  have entry: "vs = filter (\<lambda>x. metric c (snd x) = k) g \<and> vs \<noteq> []" if "(k, vs) \<in> set ?s" for k vs
    using that group_by_entries by fastforce
  have "mset (concat (map snd xs)) = sum_mset (image_mset (\<lambda>e. mset (snd e)) (mset xs))" for xs :: "(rat option \<times> ranked_player list) list"
    by (induction xs) auto
  then have "mset (concat (map snd ?s)) = mset (concat (map snd ?m))" by simp
  then show "mset (concat (split_group c g)) = mset g" by (simp add: split_group_def group_by_mset)
  show "h \<noteq> [] \<and> set h \<subseteq> set g \<and> (\<forall>x \<in> set h. \<forall>y \<in> set h. metric c (snd x) = metric c (snd y))" if "h \<in> set (split_group c g)" for h
  proof -
    from that have "h \<in> snd ` set ?s" unfolding split_group_def set_map .
    then obtain k where "(k, h) \<in> set ?s" by (elim imageE) (metis prod.collapse)
    from entry [OF this] show ?thesis by auto
  qed
  have "sorted_wrt (\<lambda>a b. fst b < fst a) ?s" using buckets_sorted group_by_wf unfolding omap_wf_def by blast
  then have "sorted_wrt (\<lambda>a b. \<forall>x \<in> set (snd a). \<forall>y \<in> set (snd b). metric c (snd y) < metric c (snd x)) ?s"
  proof (rule sorted_wrt_mono_rel [rotated])
    fix a b assume ab: "a \<in> set ?s" "b \<in> set ?s" "fst b < fst a"
    have "snd a = filter (\<lambda>x. metric c (snd x) = fst a) g" "snd b = filter (\<lambda>x. metric c (snd x) = fst b) g"
      using entry [of "fst a" "snd a"] entry [of "fst b" "snd b"] ab by auto
    then show "\<forall>x \<in> set (snd a). \<forall>y \<in> set (snd b). metric c (snd y) < metric c (snd x)" using ab(3) by auto
  qed
  then show "sorted_wrt (\<lambda>h h'. \<forall>x \<in> set h. \<forall>y \<in> set h'. metric c (snd y) < metric c (snd x)) (split_group c g)"
    by (simp add: split_group_def sorted_wrt_map)
qed

lemma graded_split:
  assumes "graded cs gs"
  shows "graded (cs @ [c]) (concat (map (split_group c) gs))"
proof -
  have step: "graded (cs @ [c]) (split_group c g)" if "\<forall>x \<in> set g. \<forall>y \<in> set g. keys_of cs (snd x) = keys_of cs (snd y)" for g
  proof -
    have "sorted_wrt (\<lambda>h h'. \<forall>x \<in> set h. \<forall>y \<in> set h'. keys_of (cs @ [c]) (snd y) < keys_of (cs @ [c]) (snd x)) (split_group c g)"
    proof (rule sorted_wrt_mono_rel [OF _ split_group_spec(3) [of c g]])
      fix h h' assume h: "h \<in> set (split_group c g)" "h' \<in> set (split_group c g)" "\<forall>x \<in> set h. \<forall>y \<in> set h'. metric c (snd y) < metric c (snd x)"
      then have "set h \<subseteq> set g" "set h' \<subseteq> set g" using split_group_spec(2) by blast+
      then show "\<forall>x \<in> set h. \<forall>y \<in> set h'. keys_of (cs @ [c]) (snd y) < keys_of (cs @ [c]) (snd x)"
        using that h(3) unfolding keys_snoc_less by blast
    qed
    moreover have "\<forall>h \<in> set (split_group c g). h \<noteq> [] \<and> (\<forall>x \<in> set h. \<forall>y \<in> set h. keys_of (cs @ [c]) (snd x) = keys_of (cs @ [c]) (snd y))"
    proof (intro ballI conjI)
      fix h x y assume h: "h \<in> set (split_group c g)" "x \<in> set h" "y \<in> set h"
      note s = split_group_spec(2) [OF h(1)]
      have "metric c (snd x) = metric c (snd y)" using s h(2,3) by blast
      moreover have "keys_of cs (snd x) = keys_of cs (snd y)" using s h(2,3) that by blast
      ultimately show "keys_of (cs @ [c]) (snd x) = keys_of (cs @ [c]) (snd y)" by (simp add: keys_of_snoc)
    qed (rule split_group_spec(2) [THEN conjunct1])
    ultimately show ?thesis unfolding graded_def by blast
  qed
  from assms show ?thesis
  proof (induction gs)
    case (Cons g gs)
    note g = Cons.prems [unfolded graded_Cons]
    have "graded (cs @ [c]) (concat (map (split_group c) gs))" using Cons.IH g by blast
    moreover have "graded (cs @ [c]) (split_group c g)" using g by (intro step) blast
    moreover have "keys_of (cs @ [c]) (snd y) < keys_of (cs @ [c]) (snd x)"
      if "h \<in> set (split_group c g)" "g' \<in> set gs" "h' \<in> set (split_group c g')" "x \<in> set h" "y \<in> set h'" for h g' h' x y
    proof -
      have "x \<in> set g" "y \<in> set g'" using that split_group_spec(2) by blast+
      then have "keys_of cs (snd y) < keys_of cs (snd x)" using g that(2) by blast
      then show ?thesis unfolding keys_snoc_less by blast
    qed
    ultimately show ?case unfolding list.map concat.simps graded_append by fastforce
  qed (simp add: graded_Nil)
qed

lemma split_groups_spec: "graded ds gs \<Longrightarrow> graded (ds @ cs) (split_groups cs gs) \<and> mset (concat (split_groups cs gs)) = mset (concat gs)"
proof (induction cs arbitrary: ds gs)
  case (Cons c cs)
  have "mset (concat (concat (map (split_group c) gs))) = mset (concat gs)"
    by (induction gs) (auto simp: split_group_spec(1))
  then show ?case using Cons.IH [OF graded_split [OF Cons.prems, of c]] by (simp add: split_groups_def)
qed (simp add: split_groups_def)

section \<open>Rows\<close>

lemma rows_from_players: "map (\<lambda>r. (ro_competitor r, ro_metrics r)) (rows_from n gs) = concat gs"
  by (induction gs arbitrary: n) (auto simp: comp_def case_prod_unfold)

lemma rows_from_rank:
  assumes "graded cs gs" "r \<in> set (rows_from n gs)"
  shows "ro_rank r = n + length (filter (\<lambda>x. keys_of cs (ro_metrics r) < keys_of cs (snd x)) (concat gs))"
  using assms
proof (induction gs arbitrary: n)
  case (Cons g gs)
  note g = graded_ConsD [OF Cons.prems(1)]
  let ?above = "\<lambda>x. keys_of cs (ro_metrics r) < keys_of cs (snd x)"
  show ?case
  proof (cases "r \<in> set (rows_from (n + length g) gs)")
    case True
    have "(ro_competitor r, ro_metrics r) \<in> set (concat gs)"
      using True rows_from_players [of "n + length g" gs] by (metis (mono_tags, lifting) image_eqI image_set)
    from g(4) [OF _ this] have "filter ?above g = g" by (intro filter_True ballI) simp
    then show ?thesis using Cons.IH [OF g(2) True] by simp
  next
    case False
    then obtain i where r: "(i, ro_metrics r) \<in> set g" "ro_rank r = n" using Cons.prems(2) by auto
    have "\<not> ?above x" if "x \<in> set g" for x using g(3) [OF r(1) that] by simp
    then have "filter ?above g = []" by (intro filter_False ballI)
    moreover have "\<not> ?above x" if "x \<in> set (concat gs)" for x using g(4) [OF r(1) that] by simp
    then have "filter ?above (concat gs) = []" by (intro filter_False ballI)
    ultimately show ?thesis using r(2) by simp
  qed
qed simp

lemma graded_sorted: "graded cs gs \<Longrightarrow> sorted_wrt (\<lambda>x y. keys_of cs (snd y) \<le> keys_of cs (snd x)) (concat gs)"
proof (induction gs)
  case (Cons g gs)
  note g = graded_ConsD [OF Cons.prems]
  have "sorted_wrt (\<lambda>x y. keys_of cs (snd y) \<le> keys_of cs (snd x)) g"
    unfolding sorted_wrt_iff_nth_less using g(3) by (metis nth_mem order.refl order.strict_trans)
  then show ?case using Cons.IH [OF g(2)] less_imp_le [OF g(4)] unfolding concat.simps sorted_wrt_append by blast
qed simp

lemma rows_from_singles: "map ro_rank (rows_from n (map (\<lambda>x. [x]) xs)) = [n..<n + length xs]"
proof (induction xs arbitrary: n)
  case (Cons x xs)
  then show ?case using upt_conv_Cons [of n "n + length (x # xs)"] by (simp add: case_prod_unfold)
qed simp

lemma singles: "(\<And>g. g \<in> set gs \<Longrightarrow> g \<noteq> [] \<and> \<not> length g > 1) \<Longrightarrow> gs = map (\<lambda>x. [x]) (concat gs)"
proof (induction gs)
  case (Cons g gs)
  have "g \<noteq> []" "\<not> length g > 1" using Cons.prems [of g] by auto
  then obtain x where g: "g = [x]" by (cases g; cases "tl g") auto
  have "gs = map (\<lambda>x. [x]) (concat gs)" by (rule Cons.IH) (use Cons.prems in auto)
  then show ?case by (simp add: g)
qed simp

lemma graded_no_ties:
  assumes "graded cs gs" "filter (\<lambda>g. length g > 1) gs = []"
  shows "gs = map (\<lambda>x. [x]) (concat gs)"
proof (rule singles)
  fix g assume g: "g \<in> set gs"
  have "g \<noteq> []" using assms(1) g unfolding graded_def by blast
  moreover have "\<not> length g > 1" using assms(2) g unfolding filter_empty_conv by blast
  ultimately show "g \<noteq> [] \<and> \<not> length g > 1" ..
qed

lemma final_groups_by_id:
  assumes "rp_tie p = TieById" "graded cs gs"
  shows "\<exists>xs. final_groups P p gs = map (\<lambda>x. [x]) xs \<and> mset xs = mset (concat gs)
    \<and> sorted_wrt (\<lambda>x y. keys_of cs (snd y) \<le> keys_of cs (snd x)) xs"
proof -
  let ?s = "sort_by (\<lambda>a b. locale_compare P (fst a) (fst b))"
  have "final_groups P p gs = map (\<lambda>x. [x]) (concat (map ?s gs))"
    using assms(1) by (simp add: final_groups_def map_concat comp_def)
  moreover have "mset (concat (map ?s gs)) = mset (concat gs)" by (induction gs) auto
  moreover have "graded cs (map ?s gs)"
    using assms(2)
  proof (induction gs)
    case (Cons g gs)
    note g = graded_ConsD [OF Cons.prems]
    have "?s g \<noteq> []" using g(1) by (metis length_0_conv length_sort_by)
    moreover have "keys_of cs (snd y) < keys_of cs (snd x)" if "x \<in> set g" "h \<in> ?s ` set gs" "y \<in> set h" for x y h
    proof -
      have "y \<in> set (concat gs)" using that(2,3) by auto
      then show ?thesis by (rule g(4) [OF that(1)])
    qed
    ultimately show ?case using Cons.IH [OF g(2)] g(3) unfolding list.map graded_Cons set_sort_by set_map by blast
  qed (simp add: graded_Nil)
  ultimately show ?thesis using graded_sorted by blast
qed

lemma graded_singles: "graded cs (map (\<lambda>x. [x]) xs) \<Longrightarrow> sorted_wrt (\<lambda>x y. keys_of cs (snd y) < keys_of cs (snd x)) xs"
  unfolding graded_def sorted_wrt_map by (rule sorted_wrt_mono_rel [OF _ conjunct2]) auto

definition row_keys :: "ranking_policy \<Rightarrow> ranking_row \<Rightarrow> rat option list" where
  "row_keys p r = keys_of (rp_criteria p) (ro_metrics r)"

lemma ranking_rejected_status [simp]: "rk_status (ranking_rejected P q ph h f) = RankingRejected"
  by (simp add: ranking_rejected_def seal_ranking_def)

lemma sealed_rows [simp]: "rk_rows (seal_ranking P out) = rk_rows out" "rk_status (seal_ranking P out) = rk_status out"
  by (simp_all add: seal_ranking_def)

lemma rank_rounds_ties:
  assumes "rk_status (rank_rounds P p q h w) \<noteq> RankingRejected"
  shows "rp_tie p = TieReject \<Longrightarrow> filter (\<lambda>g. length g > 1) (split_groups (rp_criteria p)
    [sort_by (\<lambda>a b. locale_compare P (fst a) (fst b)) (map (\<lambda>x. (pw_id x, metrics_of p w x)) (rw_players w))]) = []"
proof (rule ccontr)
  assume "rp_tie p = TieReject" "filter (\<lambda>g. length g > 1) (split_groups (rp_criteria p)
    [sort_by (\<lambda>a b. locale_compare P (fst a) (fst b)) (map (\<lambda>x. (pw_id x, metrics_of p w x)) (rw_players w))]) \<noteq> []"
  then have "rk_status (rank_rounds P p q h w) = RankingRejected"
    unfolding rank_rounds_def Let_def if_distrib [of rk_status] ranking_rejected_status by (simp only: simp_thms if_True if_cancel)
  with assms show False by simp
qed

lemma rank_rounds_rows:
  assumes "rk_status (rank_rounds P p q h w) \<noteq> RankingRejected"
  shows "rk_rows (rank_rounds P p q h w) = rows_from 1 (final_groups P p (split_groups (rp_criteria p)
    [sort_by (\<lambda>a b. locale_compare P (fst a) (fst b)) (map (\<lambda>x. (pw_id x, metrics_of p w x)) (rw_players w))]))"
proof -
  have pick: "rk_status (if c then r1 else if d then r2 else if e then r3 else x) \<noteq> RankingRejected \<Longrightarrow>
      rk_status r1 = RankingRejected \<Longrightarrow> rk_status r2 = RankingRejected \<Longrightarrow> rk_status r3 = RankingRejected \<Longrightarrow>
      rk_rows (if c then r1 else if d then r2 else if e then r3 else x) = rk_rows x" for c d e r1 r2 r3 x
    by (auto split: if_splits)
  show ?thesis
    using assms unfolding rank_rounds_def Let_def
    by (subst pick [OF _ ranking_rejected_status ranking_rejected_status ranking_rejected_status]) (assumption, simp)
qed

lemma sort_by_eq_Nil: "sort_by c xs = [] \<longleftrightarrow> xs = []"
  using length_sort_by [of c xs] by (metis length_0_conv)

lemma rank_rounds_spec:
  assumes "rk_status (rank_rounds P p q h w) \<noteq> RankingRejected" "rw_players w \<noteq> []"
  defines "rows \<equiv> rk_rows (rank_rounds P p q h w)" and "ranked \<equiv> map (\<lambda>x. (pw_id x, metrics_of p w x)) (rw_players w)"
  shows "mset (map (\<lambda>r. (ro_competitor r, ro_metrics r)) rows) = mset ranked" (is ?players)
    "sorted_wrt (\<lambda>a b. row_keys p b \<le> row_keys p a) rows" (is ?sorted)
    "if rp_tie p = TieShared then \<forall>r \<in> set rows. ro_rank r = 1 + length (filter (\<lambda>s. row_keys p r < row_keys p s) rows)
       else map ro_rank rows = [1..<1 + length rows]" (is ?ranks)
    "rp_tie p = TieReject \<Longrightarrow> sorted_wrt (\<lambda>a b. row_keys p b < row_keys p a) rows"
proof -
  let ?start = "[sort_by (\<lambda>a b. locale_compare P (fst a) (fst b)) ranked]" and ?f = "\<lambda>r. (ro_competitor r, ro_metrics r)"
  let ?gs = "split_groups (rp_criteria p) ?start"
  note rows = rank_rounds_rows [OF assms(1), folded rows_def ranked_def] and tie = rank_rounds_ties [OF assms(1), folded ranked_def]
  have "sort_by (\<lambda>a b. locale_compare P (fst a) (fst b)) ranked \<noteq> []"
    using assms(2) by (simp add: ranked_def sort_by_eq_Nil del: sort_by_Cons)
  then have "graded [] ?start" unfolding graded_Cons by (simp add: graded_Nil keys_of_def del: set_sort_by)
  from split_groups_spec [OF this, of "rp_criteria p"] have gs: "graded (rp_criteria p) ?gs" "mset (concat ?gs) = mset ranked" by auto
  have key: "row_keys p r = keys_of (rp_criteria p) (snd (?f r))" for r by (simp add: row_keys_def)
  obtain xs where xs: "map ?f rows = xs" "mset xs = mset ranked" "sorted_wrt (\<lambda>x y. keys_of (rp_criteria p) (snd y) \<le> keys_of (rp_criteria p) (snd x)) xs"
    "rp_tie p \<noteq> TieShared \<Longrightarrow> rows = rows_from 1 (map (\<lambda>x. [x]) xs)" "rp_tie p \<noteq> TieById \<Longrightarrow> xs = concat ?gs \<and> final_groups P p ?gs = ?gs"
  proof (cases "rp_tie p = TieById")
    case True
    then obtain xs where x: "final_groups P p ?gs = map (\<lambda>x. [x]) xs" "mset xs = mset (concat ?gs)"
      "sorted_wrt (\<lambda>x y. keys_of (rp_criteria p) (snd y) \<le> keys_of (rp_criteria p) (snd x)) xs"
      using final_groups_by_id [OF True gs(1)] by blast
    have eq: "rows = rows_from 1 (map (\<lambda>x. [x]) xs)" unfolding rows x(1) ..
    have "concat (map (\<lambda>x. [x]) xs) = xs" by (induction xs) auto
    then have "map ?f rows = xs" unfolding eq rows_from_players .
    then show ?thesis
    proof (rule that)
      show "mset xs = mset ranked" using x(2) gs(2) by (rule trans)
      show "rows = rows_from 1 (map (\<lambda>x. [x]) xs)" by (rule eq)
      show "xs = concat ?gs \<and> final_groups P p ?gs = ?gs" if "rp_tie p \<noteq> TieById" using that True by contradiction
    qed (rule x(3))
  next
    case False
    then have final: "final_groups P p ?gs = ?gs" by (simp add: final_groups_def)
    have "rows = rows_from 1 (map (\<lambda>x. [x]) (concat ?gs))" if "rp_tie p \<noteq> TieShared"
    proof -
      have "rp_tie p = TieReject" using False that by (cases "rp_tie p") auto
      from graded_no_ties [OF gs(1) tie [OF this]] show ?thesis using rows [unfolded final] by (rule subst)
    qed
    note unshared = this
    have "map ?f rows = concat ?gs" unfolding rows rows_from_players final ..
    then show ?thesis by (rule that [OF _ gs(2) graded_sorted [OF gs(1)] unshared]) (simp_all only: final simp_thms)
  qed
  show ?players using xs(1,2) by simp
  show ?sorted using xs(3) unfolding xs(1) [symmetric] sorted_wrt_map key .
  show ?ranks
  proof (cases "rp_tie p = TieShared")
    case True
    then have c: "xs = concat ?gs" "rows = rows_from 1 ?gs" using xs(5) rows by simp_all
    have "ro_rank r = 1 + length (filter (\<lambda>s. row_keys p r < row_keys p s) rows)" if "r \<in> set rows" for r
    proof -
      have "ro_rank r = 1 + length (filter (\<lambda>x. keys_of (rp_criteria p) (ro_metrics r) < keys_of (rp_criteria p) (snd x)) (map ?f rows))"
        unfolding xs(1) c(1) using that unfolding c(2) by (rule rows_from_rank [OF gs(1)])
      then show ?thesis by (simp add: filter_map comp_def row_keys_def)
    qed
    then show ?thesis using True by simp
  next
    case False
    have "length rows = length xs" using xs(1) by (metis length_map)
    then show ?thesis using False xs(4) rows_from_singles [of 1 xs] by simp
  qed
  show "sorted_wrt (\<lambda>a b. row_keys p b < row_keys p a) rows" if "rp_tie p = TieReject"
  proof -
    have "xs = concat ?gs" using xs(5) that by simp
    then have "?gs = map (\<lambda>x. [x]) xs" using graded_no_ties [OF gs(1) tie [OF that]] by simp
    then have "graded (rp_criteria p) (map (\<lambda>x. [x]) xs)" using gs(1) by simp
    then have "sorted_wrt (\<lambda>x y. keys_of (rp_criteria p) (snd y) < keys_of (rp_criteria p) (snd x)) xs" by (rule graded_singles)
    then show ?thesis unfolding xs(1) [symmetric] sorted_wrt_map key .
  qed
qed

section \<open>The ranking\<close>

lemma played_games_known:
  "fold_result (play_game p es n) gs w = Inr w' \<Longrightarrow> g \<in> set gs \<Longrightarrow> rg_left g \<in> set es \<and> rg_right g \<in> set es \<and> rg_left g \<noteq> rg_right g"
proof (induction gs arbitrary: w)
  case (Cons g' gs)
  then obtain v where v: "play_game p es n g' w = Inr v" "fold_result (play_game p es n) gs v = Inr w'" by (auto simp: bind_result_Inr_iff)
  then show ?case using Cons by (auto simp: play_game_def Let_def split: if_splits)
qed simp

lemma played_rounds_known:
  assumes "fold_result (play_round p es) (enumerate n rounds) w = Inr w'" "r \<in> set rounds" "g \<in> set (rn_games r)"
  shows "rg_left g \<in> set es \<and> rg_right g \<in> set es \<and> rg_left g \<noteq> rg_right g"
  using assms
proof (induction rounds arbitrary: n w)
  case (Cons r' rounds)
  then obtain v where v: "play_round p es (n, r') w = Inr v" "fold_result (play_round p es) (enumerate (Suc n) rounds) v = Inr w'"
    by (auto simp: bind_result_Inr_iff)
  show ?case
  proof (cases "r = r'")
    case True
    then show ?thesis using v(1) Cons.prems(3) played_games_known by (auto simp: play_round_def bind_result_Inr_iff)
  next
    case False
    then show ?thesis using Cons.IH [OF v(2)] Cons.prems by simp
  qed
qed simp

lemma all_opponents_known:
  assumes "play_rounds p es rounds = Inr w" "(j, f) \<in> set (all_opponents rounds i)"
  shows "j \<in> set es"
  using assms(2) played_rounds_known [OF assms(1) [unfolded play_rounds_def]]
  by (auto simp: all_opponents_def game_opponents_def split: if_splits)

lemma points_of_played:
  assumes "play_rounds p es rounds = Inr w" "i \<in> set es"
  shows "points_of (rw_players w) i = total_points p rounds i"
proof -
  have "map (\<lambda>x. (pw_id x, pw_points x)) (rw_players w) = map (\<lambda>i. (i, total_points p rounds i)) es"
    using arg_cong [OF played_rounds [OF assms(1)], of "map (\<lambda>(i, r, os). (i, r))"] by (simp add: comp_def)
  then show ?thesis using assms(2) by (simp add: points_of_def map_of_map_restrict restrict_map_def)
qed

definition buchholz_total :: "ranking_policy \<Rightarrow> ranking_round list \<Rightarrow> string \<Rightarrow> rat" where
  "buchholz_total p rounds i = sum_list (map (\<lambda>(j, f). total_points p rounds j) (all_opponents rounds i))"

definition sonneborn_total :: "ranking_policy \<Rightarrow> ranking_round list \<Rightarrow> string \<Rightarrow> rat" where
  "sonneborn_total p rounds i = sum_list (map (\<lambda>(j, f). (case f of None \<Rightarrow> 0 | Some r \<Rightarrow> r) * total_points p rounds j) (all_opponents rounds i))"

lemma played_metrics:
  assumes "play_rounds p es rounds = Inr w" "x \<in> set (rw_players w)"
  shows "sm_points (metrics_of p w x) = total_points p rounds (pw_id x) \<and> sm_buchholz (metrics_of p w x) = buchholz_total p rounds (pw_id x)
    \<and> sm_sonneborn (metrics_of p w x) = sonneborn_total p rounds (pw_id x)"
proof -
  have "(pw_id x, pw_points x, pw_opponents x) \<in> set (map (\<lambda>i. (i, total_points p rounds i, all_opponents rounds i)) es)"
    using assms(2) unfolding played_rounds [OF assms(1), symmetric] by simp
  then have x: "pw_points x = total_points p rounds (pw_id x)" "pw_opponents x = all_opponents rounds (pw_id x)" by auto
  have "opponent_points (rw_players w) x = map (\<lambda>(j, f). total_points p rounds j) (all_opponents rounds (pw_id x))"
    using all_opponents_known [OF assms(1)] points_of_played [OF assms(1)] by (auto simp: opponent_points_def x(2))
  moreover have "sonneborn (rw_players w) x = sonneborn_total p rounds (pw_id x)"
    using all_opponents_known [OF assms(1)] points_of_played [OF assms(1)]
    unfolding sonneborn_def sonneborn_total_def x(2) by (intro arg_cong [where f = sum_list] map_cong) auto
  ultimately show ?thesis by (simp add: metrics_of_def Let_def x(1) buchholz_total_def)
qed

lemma rank_with_policy_played:
  assumes "rk_status (rank_with_policy P p source) \<noteq> RankingRejected"
  obtains w where "play_rounds p (rq_entrants (normal_request P source)) (rq_rounds (normal_request P source)) = Inr w"
    "rank_with_policy P p source = rank_rounds P p (normal_request P source) (ledger_hash P (ranking_request_json (normal_request P source))) w"
    "distinct (rq_entrants source)" "2 \<le> length (rq_entrants source)"
proof -
  let ?q = "normal_request P source"
  have entrants: "rq_entrants ?q = sort (rq_entrants source)" by (simp add: normal_request_def)
  have d: "distinct (rq_entrants ?q)" "2 \<le> length (rq_entrants ?q)"
    using assms by (auto simp: rank_with_policy_def Let_def split: if_splits)
  obtain w where "play_rounds p (rq_entrants ?q) (rq_rounds ?q) = Inr w"
    using assms by (cases "play_rounds p (rq_entrants ?q) (rq_rounds ?q)") (auto simp: rank_with_policy_def Let_def split: if_splits)
  moreover from this have "rank_with_policy P p source = rank_rounds P p ?q (ledger_hash P (ranking_request_json ?q)) w"
    using assms unfolding rank_with_policy_def Let_def by (simp split: if_splits)
  ultimately show ?thesis using that d unfolding entrants by (simp add: distinct_sort)
qed

lemma mset_map_same: "mset xs = mset ys \<Longrightarrow> mset (map f xs) = mset (map f ys)"
  by simp

lemma ranked_rows:
  assumes "rk_status (rank_with_policy P p source) \<noteq> RankingRejected"
  shows "mset (map ro_competitor (rk_rows (rank_with_policy P p source))) = mset (rq_entrants source)"
    "r \<in> set (rk_rows (rank_with_policy P p source)) \<Longrightarrow> sm_points (ro_metrics r) = total_points p (rq_rounds (normal_request P source)) (ro_competitor r)
       \<and> sm_buchholz (ro_metrics r) = buchholz_total p (rq_rounds (normal_request P source)) (ro_competitor r)
       \<and> sm_sonneborn (ro_metrics r) = sonneborn_total p (rq_rounds (normal_request P source)) (ro_competitor r)"
proof -
  obtain w where w: "play_rounds p (rq_entrants (normal_request P source)) (rq_rounds (normal_request P source)) = Inr w"
    "rank_with_policy P p source = rank_rounds P p (normal_request P source) (ledger_hash P (ranking_request_json (normal_request P source))) w"
    "2 \<le> length (rq_entrants source)" using rank_with_policy_played [OF assms] by metis
  have ids: "map pw_id (rw_players w) = sort (rq_entrants source)"
    using arg_cong [OF played_rounds [OF w(1)], of "map fst"] by (simp add: comp_def normal_request_def)
  then have "rw_players w \<noteq> []" using w(3) by (metis length_map length_sort list.size(3) not_numeral_le_zero)
  note m = rank_rounds_spec(1) [OF assms [unfolded w(2)] this, folded w(2)]
  have "mset (map fst (map (\<lambda>r. (ro_competitor r, ro_metrics r)) (rk_rows (rank_with_policy P p source)))) = mset (map fst (map (\<lambda>x. (pw_id x, metrics_of p w x)) (rw_players w)))"
    using m by (rule mset_map_same)
  then have "mset (map ro_competitor (rk_rows (rank_with_policy P p source))) = mset (map pw_id (rw_players w))"
    by (simp add: comp_def del: mset_map)
  then show "mset (map ro_competitor (rk_rows (rank_with_policy P p source))) = mset (rq_entrants source)" unfolding ids by simp
  show "sm_points (ro_metrics r) = total_points p (rq_rounds (normal_request P source)) (ro_competitor r)
       \<and> sm_buchholz (ro_metrics r) = buchholz_total p (rq_rounds (normal_request P source)) (ro_competitor r)
       \<and> sm_sonneborn (ro_metrics r) = sonneborn_total p (rq_rounds (normal_request P source)) (ro_competitor r)"
    if "r \<in> set (rk_rows (rank_with_policy P p source))"
  proof -
    have "(ro_competitor r, ro_metrics r) \<in> set (map (\<lambda>x. (pw_id x, metrics_of p w x)) (rw_players w))"
      unfolding mset_eq_setD [OF m, symmetric] using that by simp
    then show ?thesis using played_metrics [OF w(1)] by auto
  qed
qed

section \<open>The scores of the request's own games\<close>

text \<open>
  Who won a game of the request, what it is worth to a competitor, and the scores over all its games: the points, the
  points of the opponents met (Buchholz), and these weighted by the result against each (Sonneborn-Berger).
\<close>

definition game_winner :: "ranking_game \<Rightarrow> string option" where
  "game_winner g = (if rg_result g = Some LeftWin then Some (rg_left g) else if rg_result g = Some RightWin then Some (rg_right g) else None)"

definition opponent_in :: "ranking_game \<Rightarrow> string \<Rightarrow> string option" where
  "opponent_in g i = (if rg_left g = i then Some (rg_right g) else if rg_right g = i then Some (rg_left g) else None)"

definition game_due :: "ranking_policy \<Rightarrow> string \<Rightarrow> ranking_game \<Rightarrow> rat" where
  "game_due p i g = (if rg_result g = None \<or> opponent_in g i = None then 0
     else num_value (if rg_result g = Some DrawnGame then rp_draw p else if game_winner g = Some i then rp_win p else rp_loss p))"

definition game_share :: "string \<Rightarrow> ranking_game \<Rightarrow> rat" where
  "game_share i g = (if rg_result g = Some DrawnGame then 1 / 2 else if game_winner g = Some i then 1 else 0)"

definition over_games :: "ranking_request \<Rightarrow> (ranking_game \<Rightarrow> rat) \<Rightarrow> rat" where
  "over_games q f = sum_list (map (\<lambda>r. sum_list (map f (rn_games r))) (rq_rounds q))"

definition points_earned :: "ranking_policy \<Rightarrow> ranking_request \<Rightarrow> string \<Rightarrow> rat" where
  "points_earned p q i = over_games q (game_due p i) + num_value (rp_bye p) * of_nat (length (filter (\<lambda>r. i \<in> set (rn_byes r)) (rq_rounds q)))"

definition buchholz_earned :: "ranking_policy \<Rightarrow> ranking_request \<Rightarrow> string \<Rightarrow> rat" where
  "buchholz_earned p q i = over_games q (\<lambda>g. case opponent_in g i of None \<Rightarrow> 0 | Some j \<Rightarrow> points_earned p q j)"

definition sonneborn_earned :: "ranking_policy \<Rightarrow> ranking_request \<Rightarrow> string \<Rightarrow> rat" where
  "sonneborn_earned p q i = over_games q (\<lambda>g. case opponent_in g i of None \<Rightarrow> 0 | Some j \<Rightarrow> game_share i g * points_earned p q j)"

text \<open>The normal form keeps them.\<close>

lemma sum_list_sort_by: "sum_list (map f (sort_by c xs)) = sum_list (map f xs)" for f :: "'a \<Rightarrow> rat"
  by (metis mset_map mset_sort_by sum_mset_sum_list)

lemma over_games_normal:
  assumes "\<And>g. f (normal_game P g) = f g"
  shows "over_games (normal_request P q) f = over_games q f"
proof -
  have "sum_list (map f (rn_games (normal_round P r))) = sum_list (map f (rn_games r))" for r
    by (simp add: normal_round_def sum_list_sort_by comp_def assms)
  then show ?thesis by (simp add: over_games_def normal_request_def sum_list_sort_by comp_def)
qed

lemma normal_game_same [simp]:
  "game_due p i (normal_game P g) = game_due p i g" "game_share i (normal_game P g) = game_share i g"
  "opponent_in (normal_game P g) i = opponent_in g i"
proof -
  show opponent: "opponent_in (normal_game P g) i = opponent_in g i"
    by (auto simp: normal_game_def opponent_in_def)
  have won: "rg_result (normal_game P g) = None \<longleftrightarrow> rg_result g = None" "rg_result (normal_game P g) = Some DrawnGame \<longleftrightarrow> rg_result g = Some DrawnGame"
      "game_winner (normal_game P g) = game_winner g"
    by (cases "rg_result g"; cases "the (rg_result g)"; simp add: normal_game_def game_winner_def)+
  show "game_due p i (normal_game P g) = game_due p i g" by (simp only: game_due_def won opponent)
  show "game_share i (normal_game P g) = game_share i g" by (simp only: game_share_def won)
qed

lemma length_filter_sort_by: "length (filter Q (sort_by c xs)) = length (filter Q xs)"
  by (metis mset_filter mset_sort_by size_mset)

lemma points_earned_normal: "points_earned p (normal_request P q) i = points_earned p q i"
  unfolding points_earned_def over_games_normal [of "game_due p i" P, OF normal_game_same(1)]
  by (simp add: normal_request_def length_filter_sort_by filter_map comp_def normal_round_def)

lemma scores_normal:
  "buchholz_earned p (normal_request P q) i = buchholz_earned p q i" "sonneborn_earned p (normal_request P q) i = sonneborn_earned p q i"
  unfolding buchholz_earned_def sonneborn_earned_def points_earned_normal by (rule over_games_normal, simp split: option.split)+

text \<open>The loop over the rounds computes them.\<close>

lemma over_games_cong:
  "(\<And>r g. r \<in> set (rq_rounds q) \<Longrightarrow> g \<in> set (rn_games r) \<Longrightarrow> f g = h g) \<Longrightarrow> over_games q f = over_games q h"
  unfolding over_games_def by (intro arg_cong [where f = sum_list] map_cong refl) simp

lemma sum_map_concat: "sum_list (map h (concat xss)) = sum_list (map (\<lambda>xs. sum_list (map h xs)) xss)" for h :: "'a \<Rightarrow> rat"
  by (induction xss) auto

lemma sum_opponents: "sum_list (map h (all_opponents (rq_rounds q) i)) = over_games q (\<lambda>g. sum_list (map h (game_opponents i g)))"
  for h :: "string \<times> rat option \<Rightarrow> rat"
  by (simp add: all_opponents_def over_games_def sum_map_concat comp_def)

lemma game_gain_due: "rg_left g \<noteq> rg_right g \<Longrightarrow> game_gain p i g = game_due p i g"
  by (auto simp: game_gain_def game_due_def opponent_in_def game_winner_def left_points_def right_points_def
      split: option.splits game_result.splits)

lemma sum_if_count: "sum_list (map (\<lambda>x. if Q x then b else 0) xs) = b * of_nat (length (filter Q xs))" for b :: rat
  by (induction xs) (simp_all add: algebra_simps)

lemma played_sides: "play_rounds p es (rq_rounds q) = Inr w \<Longrightarrow> r \<in> set (rq_rounds q) \<Longrightarrow> g \<in> set (rn_games r) \<Longrightarrow> rg_left g \<noteq> rg_right g"
  using played_rounds_known unfolding play_rounds_def by blast

lemma total_points_earned:
  assumes "play_rounds p es (rq_rounds q) = Inr w"
  shows "total_points p (rq_rounds q) i = points_earned p q i"
proof -
  have "total_points p (rq_rounds q) i = over_games q (game_gain p i) + sum_list (map (\<lambda>r. if i \<in> set (rn_byes r) then num_value (rp_bye p) else 0) (rq_rounds q))"
    by (simp add: total_points_def round_gain_def [abs_def] over_games_def sum_list_addf)
  also have "over_games q (game_gain p i) = over_games q (game_due p i)"
    using played_sides [OF assms] game_gain_due by (intro over_games_cong) blast
  finally show ?thesis by (simp add: points_earned_def sum_if_count)
qed

lemma buchholz_total_earned:
  assumes "play_rounds p es (rq_rounds q) = Inr w"
  shows "buchholz_total p (rq_rounds q) i = buchholz_earned p q i"
  unfolding buchholz_total_def buchholz_earned_def sum_opponents total_points_earned [OF assms]
  by (intro over_games_cong) (simp add: game_opponents_def opponent_in_def)

lemma sonneborn_total_earned:
  assumes "play_rounds p es (rq_rounds q) = Inr w"
  shows "sonneborn_total p (rq_rounds q) i = sonneborn_earned p q i"
  unfolding sonneborn_total_def sonneborn_earned_def sum_opponents total_points_earned [OF assms]
proof (intro over_games_cong)
  fix r g assume "r \<in> set (rq_rounds q)" "g \<in> set (rn_games r)"
  then have "rg_left g \<noteq> rg_right g" by (rule played_sides [OF assms])
  then show "sum_list (map (\<lambda>(j, f). (case f of None \<Rightarrow> 0 | Some r \<Rightarrow> r) * points_earned p q j) (game_opponents i g))
      = (case opponent_in g i of None \<Rightarrow> 0 | Some j \<Rightarrow> game_share i g * points_earned p q j)"
    by (auto simp: game_opponents_def opponent_in_def game_share_def game_winner_def left_factor_def split: option.splits game_result.splits)
qed

lemma ranked_row_scores:
  assumes "rk_status (rank_with_policy P p source) \<noteq> RankingRejected" "r \<in> set (rk_rows (rank_with_policy P p source))"
  shows "sm_points (ro_metrics r) = points_earned p source (ro_competitor r) \<and> sm_buchholz (ro_metrics r) = buchholz_earned p source (ro_competitor r)
    \<and> sm_sonneborn (ro_metrics r) = sonneborn_earned p source (ro_competitor r)"
proof -
  obtain w where w: "play_rounds p (rq_entrants (normal_request P source)) (rq_rounds (normal_request P source)) = Inr w"
    using rank_with_policy_played [OF assms(1)] by metis
  show ?thesis
    using ranked_rows(2) [OF assms] total_points_earned [OF w] buchholz_total_earned [OF w] sonneborn_total_earned [OF w]
    by (simp add: points_earned_normal scores_normal)
qed

text \<open>
  C29. The Swiss ranking is what its policy says. When a ranking is certified or provisional, every entrant has one
  row; the points of a row are what the games and byes of the request are worth to its entrant (a win for the side that won, a
  loss for the other, a draw for both, nothing for an unresolved game), its Buchholz score is the sum of the points of the opponents in these games, and its
  Sonneborn-Berger score that sum weighted by one for a won and a half for a drawn game; the rows are in the order of the criteria, larger values first; with shared ranks a rank is one more
  than the number of strictly better rows, otherwise the ranks count up, and under the rejecting
  policy no two rows are equal.
\<close>

theorem swiss_ranking_sound:
  assumes "rk_status (rank_with_policy P p source) \<noteq> RankingRejected"
  defines "rows \<equiv> rk_rows (rank_with_policy P p source)"
  shows "mset (map ro_competitor rows) = mset (rq_entrants source) \<and> distinct (map ro_competitor rows)
    \<and> (\<forall>r \<in> set rows. sm_points (ro_metrics r) = points_earned p source (ro_competitor r)
         \<and> sm_buchholz (ro_metrics r) = buchholz_earned p source (ro_competitor r)
         \<and> sm_sonneborn (ro_metrics r) = sonneborn_earned p source (ro_competitor r))
    \<and> sorted_wrt (\<lambda>a b. row_keys p b \<le> row_keys p a) rows
    \<and> (if rp_tie p = TieShared then \<forall>r \<in> set rows. ro_rank r = 1 + length (filter (\<lambda>s. row_keys p r < row_keys p s) rows)
       else map ro_rank rows = [1..<1 + length rows])
    \<and> (rp_tie p = TieReject \<longrightarrow> sorted_wrt (\<lambda>a b. row_keys p b < row_keys p a) rows)"
proof -
  obtain w where w: "play_rounds p (rq_entrants (normal_request P source)) (rq_rounds (normal_request P source)) = Inr w"
    "rank_with_policy P p source = rank_rounds P p (normal_request P source) (ledger_hash P (ranking_request_json (normal_request P source))) w"
    "distinct (rq_entrants source)" "2 \<le> length (rq_entrants source)" using rank_with_policy_played [OF assms(1)] by metis
  have "map pw_id (rw_players w) = sort (rq_entrants source)"
    using arg_cong [OF played_rounds [OF w(1)], of "map fst"] by (simp add: comp_def normal_request_def)
  then have ne: "rw_players w \<noteq> []" using w(4) by (metis length_map length_sort list.size(3) not_numeral_le_zero)
  note spec = rank_rounds_spec(2,3,4) [OF assms(1) [unfolded w(2)] ne, folded w(2) rows_def]
  note ids = ranked_rows(1) [OF assms(1), folded rows_def]
  have different: "distinct (map ro_competitor rows)" using ids w(3) by (metis mset_eq_imp_distinct_iff)
  have points: "\<forall>r \<in> set rows. sm_points (ro_metrics r) = points_earned p source (ro_competitor r)
      \<and> sm_buchholz (ro_metrics r) = buchholz_earned p source (ro_competitor r) \<and> sm_sonneborn (ro_metrics r) = sonneborn_earned p source (ro_competitor r)"
    by (intro ballI) (rule ranked_row_scores [OF assms(1), folded rows_def])
  have strict: "rp_tie p = TieReject \<longrightarrow> sorted_wrt (\<lambda>a b. row_keys p b < row_keys p a) rows"
    by (intro impI) (rule spec(3))
  show ?thesis by (intro conjI) (rule ids different points spec(1) spec(2) strict)+
qed

definition sample_ranking_policy :: ranking_policy where
  "sample_ranking_policy = \<lparr>rp_id = ''p'', rp_version = ''1.0.0'', rp_criteria = [CriterionPoints], rp_win = Num 1, rp_draw = Num 0, rp_loss = Num 0,
     rp_bye = Num 1, rp_drop = Num 0, rp_incomplete = IncompleteReject, rp_tie = TieShared\<rparr>"

definition sample_ranking_request :: ranking_request where
  "sample_ranking_request = \<lparr>rq_policy = ''p'', rq_tournament = ''t'', rq_entrants = [''a'', ''b''],
     rq_rounds = [\<lparr>rn_round = 1, rn_games = [\<lparr>rg_left = ''a'', rg_right = ''b'', rg_result = Some LeftWin\<rparr>], rn_byes = []\<rparr>]\<rparr>"

lemma sample_ranking_normal: "normal_request sample_platform sample_ranking_request = sample_ranking_request"
  by (simp add: normal_request_def sample_ranking_request_def normal_round_def normal_game_def sample_platform_def num_cmp_def less_char_def)

lemma sample_ranking_accepted: "rk_status (rank_with_policy sample_platform sample_ranking_policy sample_ranking_request) \<noteq> RankingRejected"
proof -
  let ?p = sample_ranking_policy and ?q = sample_ranking_request
  have "js_integer (Num 0) = Some 0" using js_integer_of_int [of 0] by simp
  then have "policy_valid ?p" by (simp add: policy_valid_def sample_ranking_policy_def blank_iff is_space_def num_value_def)
  moreover have "\<not> (blank (rq_tournament ?q) \<or> length (rq_entrants ?q) < 2 \<or> length (rq_entrants ?q) > 256 \<or> \<not> distinct (rq_entrants ?q)
      \<or> list_ex blank (rq_entrants ?q))"
    by (simp add: sample_ranking_request_def blank_iff is_space_def)
  moreover have "\<not> (length (rq_rounds ?q) < 1 \<or> length (rq_rounds ?q) > 32 \<or> sum_list (map (\<lambda>r. length (rn_games r)) (rq_rounds ?q)) > 4096
      \<or> list_ex (\<lambda>(i, r). rn_round r \<noteq> of_nat (i + 1)) (enumerate 0 (rq_rounds ?q)))"
    by (simp add: sample_ranking_request_def)
  moreover obtain w where "play_rounds ?p (rq_entrants ?q) (rq_rounds ?q) = Inr w" "rw_incomplete w = []"
    by (simp add: play_rounds_def sample_ranking_request_def play_round_def play_game_def Let_def close_round_def)
  moreover from this have "rk_status (rank_rounds sample_platform ?p ?q h w) = RankingCertified" for h
    by (simp add: rank_rounds_def Let_def sample_ranking_policy_def)
  ultimately show ?thesis
    unfolding rank_with_policy_def Let_def sample_ranking_normal by (simp only: simp_thms if_False sum.case) simp
qed

theorem swiss_ranking_sound_witness:
  "rk_status (rank_with_policy sample_platform sample_ranking_policy sample_ranking_request) \<noteq> RankingRejected
   \<and> mset (map ro_competitor (rk_rows (rank_with_policy sample_platform sample_ranking_policy sample_ranking_request))) = {#''a'', ''b''#}"
  using swiss_ranking_sound [OF sample_ranking_accepted] sample_ranking_accepted
  by (simp add: sample_ranking_request_def)

end
