(* ===== verification/Standings.thy ===== *)
theory Standings
  imports SwissRanking
begin

text \<open>
  packages/competition-engine/src/standings.ts: the table of a group of stages.

  \<^item> Results are counted node by node into rows that are created on first sight and keyed by pool and entrant; the updates
    go through the keys, so that a result of an entrant against itself updates one row twice, as in the code.
  \<^item> \<open>resolve_ties\<close> splits a group by each criterion in turn; a criterion that is not registered is an exception (\<open>Inl\<close>).
  \<^item> \<open>tally\<close> is the reference: what a row should hold, as sums over the results.
\<close>

section \<open>Data\<close>

datatype node_slot = EntrantSource string | WinnerSource string | LoserSource string | ByeSource

datatype node_kind = ContestKind | ByeKind

record contest_node =
  nd_id :: string
  nd_stage :: string
  nd_pool :: "string option"
  nd_kind :: node_kind
  nd_slots :: "node_slot list"

record contest_result =
  kr_contest :: string
  kr_entrants :: "string \<times> string"
  kr_winner :: string
  kr_score :: "rat \<times> rat"

record standing =
  tb_entrant :: string
  tb_pool :: "string option"
  tb_rank :: nat
  tb_played :: nat
  tb_wins :: nat
  tb_losses :: nat
  tb_draws :: nat
  tb_for :: rat
  tb_against :: rat
  tb_difference :: rat
  tb_percentage :: rat
  tb_resolution :: "string list"

datatype direction = Ascending | Descending

datatype tie_fallback = ManualDecision | DeterministicDraw | SharedRank

type_synonym metric_criterion = "string \<times> direction"

record standings_policy =
  sy_id :: string
  sy_stages :: "string list"
  sy_metrics :: "metric_criterion list"
  sy_fallback :: tie_fallback

record validation_finding =
  vf_code :: string
  vf_severity :: string
  vf_path :: string
  vf_message :: string
  vf_evidence :: jsval

text \<open>What the options bring: the seed of the draw and the recorded orders of a pool.\<close>

record standings_options =
  op_seed :: "string option"
  op_manual :: "string \<Rightarrow> string list list"

section \<open>Metrics\<close>

definition registered_metrics :: "string list" where
  "registered_metrics = [''played'', ''wins'', ''losses'', ''draws'', ''score_for'', ''games_won'', ''points_for'',
     ''score_against'', ''games_lost'', ''points_against'', ''score_difference'', ''game_difference'',
     ''point_difference'', ''winning_percentage'', ''win_percentage'', ''head_to_head'']"

definition standing_metric :: "standing \<Rightarrow> string \<Rightarrow> (string, rat) result" where
  "standing_metric r name =
     (if name = ''played'' then Inr (of_nat (tb_played r))
      else if name = ''wins'' then Inr (of_nat (tb_wins r))
      else if name = ''losses'' then Inr (of_nat (tb_losses r))
      else if name = ''draws'' then Inr (of_nat (tb_draws r))
      else if List.member [''score_for'', ''games_won'', ''points_for''] name then Inr (tb_for r)
      else if List.member [''score_against'', ''games_lost'', ''points_against''] name then Inr (tb_against r)
      else if List.member [''score_difference'', ''game_difference'', ''point_difference''] name then Inr (tb_difference r)
      else if List.member [''winning_percentage'', ''win_percentage''] name then Inr (tb_percentage r)
      else Inl (''Unregistered standings metric: '' @ name))"

section \<open>Counting\<close>

definition pool_text :: "string option \<Rightarrow> string" where
  "pool_text pool = (case pool of None \<Rightarrow> [] | Some p \<Rightarrow> p)"

definition row_key :: "string option \<Rightarrow> string \<Rightarrow> string" where
  "row_key pool e = pool_text pool @ '':'' @ e"

text \<open>A pool that is the empty string is falsy: the row has none.\<close>

definition new_row :: "string option \<Rightarrow> string \<Rightarrow> standing" where
  "new_row pool e = \<lparr>tb_entrant = e, tb_pool = (if pool = Some [] then None else pool), tb_rank = 0, tb_played = 0, tb_wins = 0, tb_losses = 0, tb_draws = 0,
     tb_for = 0, tb_against = 0, tb_difference = 0, tb_percentage = 0, tb_resolution = []\<rparr>"

definition ensure :: "string option \<Rightarrow> string \<Rightarrow> (string, standing) omap \<Rightarrow> (string, standing) omap" where
  "ensure pool e rows = (case omap_get rows (row_key pool e) of None \<Rightarrow> omap_set (row_key pool e) (new_row pool e) rows | Some r \<Rightarrow> rows)"

definition on_row :: "string \<Rightarrow> (standing \<Rightarrow> standing) \<Rightarrow> (string, standing) omap \<Rightarrow> (string, standing) omap" where
  "on_row k f rows = (case omap_get rows k of None \<Rightarrow> rows | Some r \<Rightarrow> omap_set k (f r) rows)"

definition add_score :: "rat \<Rightarrow> rat \<Rightarrow> standing \<Rightarrow> standing" where
  "add_score a b r = r\<lparr>tb_for := tb_for r + a, tb_against := tb_against r + b\<rparr>"

definition add_played :: "standing \<Rightarrow> standing" where
  "add_played r = r\<lparr>tb_played := tb_played r + 1\<rparr>"

definition add_win :: "standing \<Rightarrow> standing" where
  "add_win r = r\<lparr>tb_wins := tb_wins r + 1\<rparr>"

definition add_loss :: "standing \<Rightarrow> standing" where
  "add_loss r = r\<lparr>tb_losses := tb_losses r + 1\<rparr>"

definition count_result :: "string option \<Rightarrow> contest_result \<Rightarrow> (string, standing) omap \<Rightarrow> (string, standing) omap" where
  "count_result pool x rows =
     (let (l, r) = kr_entrants x; (a, b) = kr_score x; left = row_key pool l; right = row_key pool r;
          rows1 = ensure pool r (ensure pool l rows);
          rows2 = on_row right add_played (on_row left add_played rows1);
          rows3 = on_row right (add_score b a) (on_row left (add_score a b) rows2)
      in if kr_winner x = l then on_row right add_loss (on_row left add_win rows3) else on_row left add_loss (on_row right add_win rows3))"

text \<open>\<^verbatim>\<open>new Map(results.map(...))\<close>: the last result of a contest is kept.\<close>

definition result_map :: "contest_result list \<Rightarrow> string \<Rightarrow> contest_result option" where
  "result_map rs = map_of (rev (map (\<lambda>x. (kr_contest x, x)) rs))"

definition slot_entrants :: "contest_node \<Rightarrow> string list" where
  "slot_entrants n = concat (map (\<lambda>s. case s of EntrantSource e \<Rightarrow> [e] | _ \<Rightarrow> []) (nd_slots n))"

definition count_node :: "(string \<Rightarrow> contest_result option) \<Rightarrow> (string, standing) omap \<Rightarrow> contest_node \<Rightarrow> (string, standing) omap" where
  "count_node results rows n =
     (let rows1 = foldl (\<lambda>m e. ensure (nd_pool n) e m) rows (slot_entrants n)
      in case results (nd_id n) of None \<Rightarrow> rows1 | Some x \<Rightarrow> count_result (nd_pool n) x rows1)"

definition close_row :: "standing \<Rightarrow> standing" where
  "close_row r = r\<lparr>tb_difference := tb_for r - tb_against r,
     tb_percentage := (if tb_played r = 0 then 0 else of_nat (tb_wins r) / of_nat (tb_played r))\<rparr>"

section \<open>Ties\<close>

text \<open>The head-to-head values of a group: wins, difference and score over the results between its members.\<close>

definition add_values :: "string \<Rightarrow> rat \<times> rat \<times> rat \<Rightarrow> (string, rat \<times> rat \<times> rat) omap \<Rightarrow> (string, rat \<times> rat \<times> rat) omap" where
  "add_values e v m = (case omap_get m e of None \<Rightarrow> m
     | Some w \<Rightarrow> omap_set e (fst w + fst v, fst (snd w) + fst (snd v), snd (snd w) + snd (snd v)) m)"

definition count_mini :: "contest_result \<Rightarrow> (string, rat \<times> rat \<times> rat) omap \<Rightarrow> (string, rat \<times> rat \<times> rat) omap" where
  "count_mini x m = (let (l, r) = kr_entrants x; (a, b) = kr_score x
     in add_values r (if kr_winner x = l then 0 else 1, b - a, b) (add_values l (if kr_winner x = l then 1 else 0, a - b, a) m))"

definition mini_table :: "contest_result list \<Rightarrow> standing list \<Rightarrow> (string, rat \<times> rat \<times> rat) omap" where
  "mini_table results tied =
     (let ids = map tb_entrant tied
      in foldl (\<lambda>m x. count_mini x m) (foldl (\<lambda>m e. omap_set e (0, 0, 0) m) [] ids)
           (filter (\<lambda>x. List.member ids (fst (kr_entrants x)) \<and> List.member ids (snd (kr_entrants x))) results))"

definition criterion_values :: "contest_result list \<Rightarrow> standing list \<Rightarrow> string \<Rightarrow> standing \<Rightarrow> (string, rat list) result" where
  "criterion_values results tied name r =
     (if name = ''head_to_head''
      then (case omap_get (mini_table results tied) (tb_entrant r) of Some (w, d, s) \<Rightarrow> Inr [w, d, s] | None \<Rightarrow> Inl ''TypeError'')
      else bind_result (standing_metric r name) (\<lambda>v. Inr [v]))"

definition bucket_key :: "platform \<Rightarrow> rat list \<Rightarrow> string" where
  "bucket_key P vs = join ''|'' (map (number_text P) vs)"

type_synonym rated = "string \<times> rat list \<times> standing"

text \<open>The rows with their values, and what the criterion adds to their resolution.\<close>

definition rate_rows :: "platform \<Rightarrow> contest_result list \<Rightarrow> string \<Rightarrow> standing list \<Rightarrow> (string, rated list) result" where
  "rate_rows P results name tied = map_result (\<lambda>r. bind_result (criterion_values results tied name r) (\<lambda>vs.
     Inr (bucket_key P vs, vs, r\<lparr>tb_resolution := tb_resolution r @ [name @ ''='' @ bucket_key P vs]\<rparr>))) tied"

fun first_delta :: "rat list \<Rightarrow> rat list \<Rightarrow> rat" where
  "first_delta [] [] = 0"
| "first_delta (x # xs) [] = (if x \<noteq> 0 then x else first_delta xs [])"
| "first_delta [] (y # ys) = (if y \<noteq> 0 then - y else first_delta [] ys)"
| "first_delta (x # xs) (y # ys) = (if x - y \<noteq> 0 then x - y else first_delta xs ys)"

text \<open>The order of the buckets; the values of a key are those of its last row.\<close>

definition bucket_values :: "string \<times> rated list \<Rightarrow> rat list" where
  "bucket_values b = fst (snd (last (snd b)))"

definition bucket_order :: "platform \<Rightarrow> direction \<Rightarrow> string \<times> rated list \<Rightarrow> string \<times> rated list \<Rightarrow> int" where
  "bucket_order P d a b = (let delta = first_delta (bucket_values a) (bucket_values b)
     in if delta \<noteq> 0 then num_cmp (if d = Ascending then delta else - delta) 0 else locale_compare P (fst a) (fst b))"

definition decision_for :: "standings_options \<Rightarrow> string \<Rightarrow> standing list \<Rightarrow> string list option" where
  "decision_for opts pool tied =
     List.find (\<lambda>order. length order = length tied \<and> list_all (\<lambda>r. List.member order (tb_entrant r)) tied) (op_manual opts pool)"

definition draw_key :: "platform \<Rightarrow> string \<Rightarrow> string \<Rightarrow> string" where
  "draw_key P seed e = (case canonical_hash P (JStr (seed @ '':'' @ e)) of Inr h \<Rightarrow> h | Inl err \<Rightarrow> [])"

definition seed_of :: "standings_options \<Rightarrow> string option" where
  "seed_of opts = (if op_seed opts = Some [] then None else op_seed opts)"

definition tie_finding :: "standings_policy \<Rightarrow> string \<Rightarrow> standing list \<Rightarrow> string \<Rightarrow> string \<Rightarrow> string \<Rightarrow> validation_finding" where
  "tie_finding p pool tied code suffix msg = \<lparr>vf_code = code, vf_severity = ''ERROR'', vf_path = ''/standingsPolicies/'' @ sy_id p @ suffix, vf_message = msg,
     vf_evidence = JObj [(''poolId'', JStr pool), (''entrants'', JArr (map (\<lambda>r. JStr (tb_entrant r)) tied))]\<rparr>"

definition mark :: "string \<Rightarrow> standing \<Rightarrow> standing" where
  "mark why r = r\<lparr>tb_resolution := tb_resolution r @ [why]\<rparr>"

text \<open>After the last criterion.\<close>

definition break_tie :: "platform \<Rightarrow> standings_policy \<Rightarrow> standings_options \<Rightarrow> string \<Rightarrow> standing list \<Rightarrow> standing list \<times> validation_finding list" where
  "break_tie P p opts pool tied =
     (let by_name = sort_by (\<lambda>a b. locale_compare P (tb_entrant a) (tb_entrant b))
      in case sy_fallback p of
        DeterministicDraw \<Rightarrow> (case seed_of opts of
            None \<Rightarrow> (by_name tied, [tie_finding p pool tied ''TSC711'' ''/tieFallback'' ''Deterministic tie draw requires an injected, versioned random seed.''])
          | Some seed \<Rightarrow> (map (mark (''deterministic_draw:'' @ seed))
              (sort_by (\<lambda>a b. locale_compare P (draw_key P seed (tb_entrant a)) (draw_key P seed (tb_entrant b))) tied), []))
      | ManualDecision \<Rightarrow> (case decision_for opts pool tied of
            Some order \<Rightarrow> (map (mark ''manual_decision'')
              (sort_by (\<lambda>a b. num_cmp (index_of (tb_entrant a) order) (index_of (tb_entrant b) order)) tied), [])
          | None \<Rightarrow> (by_name tied, [tie_finding p pool tied ''TSC712'' [] ''Standings remain tied after every registered tiebreak and require a manual decision.'']))
      | SharedRank \<Rightarrow> (by_name (map (mark ''shared_rank'') tied), []))"

fun resolve_ties :: "platform \<Rightarrow> standings_policy \<Rightarrow> contest_result list \<Rightarrow> standings_options \<Rightarrow> string \<Rightarrow> metric_criterion list \<Rightarrow> standing list
    \<Rightarrow> (string, standing list \<times> validation_finding list) result" where
  "resolve_ties P p results opts pool [] tied = Inr (if length tied \<le> 1 then (tied, []) else break_tie P p opts pool tied)"
| "resolve_ties P p results opts pool (c # cs) tied =
     (if length tied \<le> 1 then Inr (tied, [])
      else bind_result (rate_rows P results (fst c) tied) (\<lambda>rated.
        bind_result (map_result (\<lambda>b. resolve_ties P p results opts pool cs (map (\<lambda>x. snd (snd x)) (snd b)))
            (sort_by (bucket_order P (snd c)) (group_by fst rated)))
          (\<lambda>xs. Inr (concat (map fst xs), concat (map snd xs)))))"

section \<open>The table\<close>

definition unsupported_metric :: "standings_policy \<Rightarrow> nat option" where
  "unsupported_metric p = (let i = length (takeWhile (\<lambda>c. List.member registered_metrics (fst c)) (sy_metrics p))
     in if i < length (sy_metrics p) then Some i else None)"

definition metric_finding :: "standings_policy \<Rightarrow> nat \<Rightarrow> validation_finding" where
  "metric_finding p i = \<lparr>vf_code = ''TSC713'', vf_severity = ''ERROR'', vf_path = ''/standingsPolicies/'' @ sy_id p @ ''/metricOrder/'' @ digits_of i,
     vf_message = ''Standings policy references an unregistered metric and cannot be evaluated.'',
     vf_evidence = JObj [(''metric'', JStr (fst (sy_metrics p ! i))), (''registeredMetrics'', JArr (map JStr (sort registered_metrics)))]\<rparr>"

definition ranked :: "standing list \<Rightarrow> standing list" where
  "ranked rows = map (\<lambda>(i, r). r\<lparr>tb_rank := i + 1\<rparr>) (enumerate 0 rows)"

definition missing_findings :: "contest_node list \<Rightarrow> (string \<Rightarrow> contest_result option) \<Rightarrow> validation_finding list" where
  "missing_findings nodes results =
     (let missing = filter (\<lambda>n. nd_kind n = ContestKind \<and> results (nd_id n) = None) nodes
      in if missing = [] then [] else [\<lparr>vf_code = ''TSW701'', vf_severity = ''WARNING'', vf_path = ''/standings'',
           vf_message = ''Standings are provisional because contests are incomplete.'',
           vf_evidence = JObj [(''missingContestIds'', JArr (map (\<lambda>n. JStr (nd_id n)) missing))]\<rparr>])"

definition count_rows :: "contest_node list \<Rightarrow> contest_result list \<Rightarrow> standing list" where
  "count_rows nodes results = map (\<lambda>(k, r). close_row r) (foldl (count_node (result_map results)) [] nodes)"

definition pool_name :: "standing \<Rightarrow> string" where
  "pool_name r = (case tb_pool r of None \<Rightarrow> ''all'' | Some p \<Rightarrow> p)"

definition calculate_standings :: "platform \<Rightarrow> contest_node list \<Rightarrow> contest_result list \<Rightarrow> standings_policy \<Rightarrow> standings_options
    \<Rightarrow> (string, standing list \<times> validation_finding list) result" where
  "calculate_standings P nodes results p opts = (case unsupported_metric p of
     Some i \<Rightarrow> Inr ([], [metric_finding p i])
   | None \<Rightarrow>
       (let relevant = filter (\<lambda>n. List.member (sy_stages p) (nd_stage n)) nodes; pools = group_by pool_name (count_rows relevant results)
        in bind_result (map_result (\<lambda>(pool, rows). resolve_ties P p results opts pool (sy_metrics p) rows) pools) (\<lambda>xs.
             Inr (concat (map (\<lambda>x. ranked (fst x)) xs), concat (map snd xs) @ missing_findings relevant (result_map results)))))"

text \<open>What the qualification compares across pools.\<close>

definition normalized_standing_score :: "standing \<Rightarrow> string option \<Rightarrow> (string, rat list) result" where
  "normalized_standing_score r normalization = (case normalization of
     None \<Rightarrow> Inr [of_nat (tb_wins r), tb_difference r, tb_for r]
   | Some n \<Rightarrow>
       if n = ''per_match'' \<or> n = ''percentage''
       then Inr [tb_percentage r, if tb_played r \<noteq> 0 then tb_difference r / of_nat (tb_played r) else 0,
         if tb_played r \<noteq> 0 then tb_for r / of_nat (tb_played r) else 0]
       else Inl (''Unimplemented standings normalization: '' @ n))"

end
