(* ===== verification/DeclarativeQualification.thy ===== *)
theory DeclarativeQualification
  imports Standings
begin

text \<open>
  packages/competition-engine/src/declarative-qualification.ts: the selection of qualifiers by a list of selectors, and its
  independent verification.

  \<^item> Candidates are sorted by name; each selector picks from those not yet picked; the first invalid selector rejects the request.
  \<^item> The verification replays the selectors on its own, collects findings and compares identifiers, evidence and proof.
  \<^item> A metric is a number or absent; an average without terms is NaN. Arithmetic is exact. \<^verbatim>\<open>canonicalHash\<close> refuses
    non-finite numbers, so that both functions throw (\<open>Inl\<close>) on them.
\<close>

section \<open>Data\<close>

record qualification_candidate =
  qd_id :: string
  qd_group :: "string option"
  qd_rank :: "jsnum option"
  qd_metrics :: "(string \<times> jsnum) list"

datatype cutoff_tie = RejectTie | CandidateIdTie | IncludeAllTie

datatype reducer = SumTerms | AverageTerms

datatype metric_expression =
    ValueMetric string
  | RatioPercent string string
  | AggregateTerms reducer "(string \<times> jsnum) list"

datatype threshold_comparison = AtLeast | AtMost | GreaterThan | LessThan

datatype preference = HigherFirst | LowerFirst

datatype authority_kind = WildcardSelection | HostSelection

record authority_approval =
  ap_status :: string
  ap_authority :: string
  ap_hash :: string

datatype selector =
    RankingPoints string jsnum cutoff_tie
  | ElapsedTime string jsnum cutoff_tie
  | AggregateMetric metric_expression jsnum preference cutoff_tie
  | BestN metric_expression jsnum preference "jsnum option" cutoff_tie
  | Threshold metric_expression threshold_comparison jsnum
  | ScoreThreshold string jsnum
  | PercentageThreshold string string jsnum
  | AuthoritySelection authority_kind "string list" authority_approval
  | Remainder

record declarative_request =
  dq_policy :: string
  dq_output :: jsnum
  dq_candidates :: "qualification_candidate list"
  dq_selected :: "string list"
  dq_selectors :: "selector list"

record qualification_finding =
  qf_code :: string
  qf_message :: string
  qf_selector :: "nat option"
  qf_ids :: "string list option"

record selection_evidence =
  qv_id :: string
  qv_selector :: nat
  qv_type :: string
  qv_value :: "jsnum option"
  qv_compared :: "string list"
  qv_policy :: "cutoff_tie option"
  qv_authority :: "string option"

record qualification_proof =
  qp_request :: string
  qp_universe :: string
  qp_exact :: bool
  qp_distinct :: bool
  qp_exclusive :: bool
  qp_sequential :: bool
  qp_justified :: bool
  qp_hash :: string

record qualification_compilation =
  qk_certified :: bool
  qk_ids :: "string list"
  qk_evidence :: "selection_evidence list"
  qk_findings :: "qualification_finding list"
  qk_proof :: qualification_proof

record qualification_verification =
  qw_certified :: bool
  qw_findings :: "qualification_finding list"
  qw_hash :: string

definition maximum_candidates :: nat where
  "maximum_candidates = 4096"

definition maximum_selectors :: nat where
  "maximum_selectors = 128"

definition maximum_terms :: nat where
  "maximum_terms = 32"

section \<open>JSON of the parts\<close>

definition scale_envelope :: jsval where
  "scale_envelope = JObj [(''maximumCandidates'', jnat maximum_candidates), (''maximumSelectors'', jnat maximum_selectors),
     (''maximumAggregateTerms'', jnat maximum_terms),
     (''exhaustiveCorpus'', JStr ''1-6 candidates; every binary ranking-point assignment, field size, and cutoff policy (1,926 cases)''),
     (''qualification'', JStr ''STRUCTURAL_LIMITS_ARE_NOT_A_PRODUCTION_CAPACITY_GUARANTEE'')]"

fun tie_text :: "cutoff_tie \<Rightarrow> string" where
  "tie_text RejectTie = ''REJECT''"
| "tie_text CandidateIdTie = ''CANDIDATE_ID''"
| "tie_text IncludeAllTie = ''INCLUDE_ALL''"

definition preference_text :: "preference \<Rightarrow> string" where
  "preference_text d = (if d = HigherFirst then ''HIGHER'' else ''LOWER'')"

fun comparison_text :: "threshold_comparison \<Rightarrow> string" where
  "comparison_text AtLeast = ''AT_LEAST''"
| "comparison_text AtMost = ''AT_MOST''"
| "comparison_text GreaterThan = ''GREATER_THAN''"
| "comparison_text LessThan = ''LESS_THAN''"

definition authority_kind_text :: "authority_kind \<Rightarrow> string" where
  "authority_kind_text k = (if k = WildcardSelection then ''WILDCARD'' else ''HOST'')"

fun selector_type :: "selector \<Rightarrow> string" where
  "selector_type (RankingPoints k n t) = ''RANKING_POINTS''"
| "selector_type (ElapsedTime k n t) = ''ELAPSED_TIME''"
| "selector_type (AggregateMetric m n d t) = ''AGGREGATE_METRIC''"
| "selector_type (BestN m n d r t) = ''BEST_N''"
| "selector_type (Threshold m c v) = ''THRESHOLD''"
| "selector_type (ScoreThreshold k v) = ''SCORE_THRESHOLD''"
| "selector_type (PercentageThreshold k l v) = ''PERCENTAGE_THRESHOLD''"
| "selector_type (AuthoritySelection k ids a) = ''AUTHORITY_SELECTION''"
| "selector_type Remainder = ''REMAINDER''"

fun expression_json :: "metric_expression \<Rightarrow> jsval" where
  "expression_json (ValueMetric k) = JObj [(''type'', JStr ''VALUE''), (''key'', JStr k)]"
| "expression_json (RatioPercent n d) = JObj [(''type'', JStr ''RATIO_PERCENT''), (''numeratorKey'', JStr n), (''denominatorKey'', JStr d)]"
| "expression_json (AggregateTerms r ts) = JObj [(''type'', JStr ''AGGREGATE''), (''reducer'', JStr (if r = SumTerms then ''SUM'' else ''AVERAGE'')),
     (''terms'', JArr (map (\<lambda>(k, w). JObj [(''key'', JStr k), (''weight'', JNum w)]) ts))]"

fun selector_fields :: "selector \<Rightarrow> (string \<times> jsval) list" where
  "selector_fields (RankingPoints k n t) = [(''metricKey'', JStr k), (''count'', JNum n), (''cutoffTiePolicy'', JStr (tie_text t))]"
| "selector_fields (ElapsedTime k n t) = [(''metricKey'', JStr k), (''count'', JNum n), (''cutoffTiePolicy'', JStr (tie_text t))]"
| "selector_fields (AggregateMetric m n d t) = [(''metric'', expression_json m), (''count'', JNum n), (''direction'', JStr (preference_text d)), (''cutoffTiePolicy'', JStr (tie_text t))]"
| "selector_fields (BestN m n d r t) = [(''metric'', expression_json m), (''count'', JNum n), (''direction'', JStr (preference_text d))]
     @ opt_field ''eligibleRank'' JNum r @ [(''cutoffTiePolicy'', JStr (tie_text t))]"
| "selector_fields (Threshold m c v) = [(''metric'', expression_json m), (''comparison'', JStr (comparison_text c)), (''value'', JNum v)]"
| "selector_fields (ScoreThreshold k v) = [(''metricKey'', JStr k), (''minimum'', JNum v)]"
| "selector_fields (PercentageThreshold k l v) = [(''numeratorMetricKey'', JStr k), (''denominatorMetricKey'', JStr l), (''minimumPercent'', JNum v)]"
| "selector_fields (AuthoritySelection k ids a) = [(''selectionType'', JStr (authority_kind_text k)), (''candidateIds'', strs ids),
     (''approval'', JObj [(''status'', JStr (ap_status a)), (''authorityId'', JStr (ap_authority a)), (''approvalHash'', JStr (ap_hash a))])]"
| "selector_fields Remainder = []"

definition selector_json :: "selector \<Rightarrow> jsval" where
  "selector_json s = JObj ((''type'', JStr (selector_type s)) # selector_fields s)"

definition candidate_json :: "qualification_candidate \<Rightarrow> jsval" where
  "candidate_json c = JObj ((''id'', JStr (qd_id c)) # opt_field ''groupId'' JStr (qd_group c) @ opt_field ''rank'' JNum (qd_rank c)
     @ [(''metrics'', JObj (map (\<lambda>(k, n). (k, JNum n)) (qd_metrics c)))])"

definition candidates_json :: "qualification_candidate list \<Rightarrow> jsval" where
  "candidates_json cs = JArr (map candidate_json cs)"

definition declarative_request_json :: "declarative_request \<Rightarrow> jsval" where
  "declarative_request_json r = JObj [(''policyId'', JStr (dq_policy r)), (''outputCount'', JNum (dq_output r)), (''candidates'', candidates_json (dq_candidates r)),
     (''alreadySelectedCandidateIds'', strs (dq_selected r)), (''selectors'', JArr (map selector_json (dq_selectors r)))]"

definition qualification_finding_json :: "qualification_finding \<Rightarrow> jsval" where
  "qualification_finding_json f = JObj ([(''code'', JStr (qf_code f)), (''message'', JStr (qf_message f))]
     @ opt_field ''selectorIndex'' jnat (qf_selector f) @ opt_field ''candidateIds'' strs (qf_ids f))"

definition selection_evidence_json :: "selection_evidence \<Rightarrow> jsval" where
  "selection_evidence_json v = JObj ([(''candidateId'', JStr (qv_id v)), (''selectorIndex'', jnat (qv_selector v)), (''selectorType'', JStr (qv_type v))]
     @ opt_field ''metricValue'' JNum (qv_value v) @ [(''comparisonSetIds'', strs (qv_compared v))]
     @ opt_field ''cutoffTiePolicy'' (\<lambda>t. JStr (tie_text t)) (qv_policy v) @ opt_field ''authorityId'' JStr (qv_authority v))"

definition evidence_list_json :: "selection_evidence list \<Rightarrow> jsval" where
  "evidence_list_json vs = JArr (map selection_evidence_json vs)"

definition qualification_findings_json :: "qualification_finding list \<Rightarrow> jsval" where
  "qualification_findings_json fs = JArr (map qualification_finding_json fs)"

definition qualification_proof_fields :: "qualification_proof \<Rightarrow> (string \<times> jsval) list" where
  "qualification_proof_fields p = [(''requestHash'', JStr (qp_request p)), (''candidateUniverseHash'', JStr (qp_universe p)),
     (''exactOutputCardinality'', JBool (qp_exact p)), (''noDuplicateSelections'', JBool (qp_distinct p)),
     (''globallyExclusive'', JBool (qp_exclusive p)), (''sequentialSelectorProvenance'', JBool (qp_sequential p)),
     (''everySelectionJustified'', JBool (qp_justified p)), (''scaleEnvelope'', scale_envelope)]"

definition qualification_proof_json :: "qualification_proof \<Rightarrow> jsval" where
  "qualification_proof_json p = JObj (qualification_proof_fields p @ [(''proofHash'', JStr (qp_hash p))])"

definition compilation_json :: "qualification_compilation \<Rightarrow> jsval" where
  "compilation_json c = JObj [(''status'', status_json (qk_certified c)), (''selectedCandidateIds'', strs (qk_ids c)),
     (''evidence'', evidence_list_json (qk_evidence c)), (''findings'', qualification_findings_json (qk_findings c)), (''proof'', qualification_proof_json (qk_proof c))]"

section \<open>Metrics\<close>

text \<open>Values are finite or NaN: every comparison with NaN is false, and as a comparator NaN is falsy.\<close>

definition value_delta :: "jsnum \<Rightarrow> jsnum \<Rightarrow> int" where
  "value_delta a b = (case (js_finite a, js_finite b) of (Some x, Some y) \<Rightarrow> num_cmp x y | _ \<Rightarrow> 0)"

definition value_less :: "jsnum \<Rightarrow> jsnum \<Rightarrow> bool" where
  "value_less a b = (case (js_finite a, js_finite b) of (Some x, Some y) \<Rightarrow> x < y | _ \<Rightarrow> False)"

definition value_same :: "jsnum \<Rightarrow> jsnum \<Rightarrow> bool" where
  "value_same a b = (case (js_finite a, js_finite b) of (Some x, Some y) \<Rightarrow> x = y | _ \<Rightarrow> False)"

definition approval_hash :: "platform \<Rightarrow> string \<Rightarrow> nat \<Rightarrow> authority_kind \<Rightarrow> string list \<Rightarrow> string \<Rightarrow> (json_error, string) result" where
  "approval_hash P policy i k ids authority = canonical_hash P (JObj [(''policyId'', JStr policy), (''selectorIndex'', jnat i),
     (''selectionType'', JStr (authority_kind_text k)), (''candidateIds'', strs (sort ids)), (''authorityId'', JStr authority)])"

definition metric_of :: "qualification_candidate \<Rightarrow> string \<Rightarrow> rat option" where
  "metric_of c k = (case map_of (qd_metrics c) k of None \<Rightarrow> None | Some n \<Rightarrow> js_finite n)"

definition positive_weight :: "jsnum \<Rightarrow> bool" where
  "positive_weight w = (case js_finite w of None \<Rightarrow> False | Some x \<Rightarrow> 0 < x)"

definition term_sum :: "qualification_candidate \<Rightarrow> (string \<times> jsnum) list \<Rightarrow> rat" where
  "term_sum c ts = sum_list (map (\<lambda>(k, w). (case metric_of c k of None \<Rightarrow> 0 | Some x \<Rightarrow> x) * (case js_finite w of None \<Rightarrow> 0 | Some y \<Rightarrow> y)) ts)"

definition weight_sum :: "(string \<times> jsnum) list \<Rightarrow> rat" where
  "weight_sum ts = sum_list (map (\<lambda>(k, w). case js_finite w of None \<Rightarrow> 0 | Some y \<Rightarrow> y) ts)"

fun metric_value :: "qualification_candidate \<Rightarrow> metric_expression \<Rightarrow> jsnum option" where
  "metric_value c (ValueMetric k) = map_option Num (metric_of c k)"
| "metric_value c (RatioPercent n d) = (case (metric_of c n, metric_of c d) of
     (Some x, Some y) \<Rightarrow> if y > 0 then Some (Num (x / y * 100)) else None | _ \<Rightarrow> None)"
| "metric_value c (AggregateTerms r ts) =
     (if list_ex (\<lambda>(k, w). metric_of c k = None \<or> \<not> positive_weight w) ts then None
      else if r = SumTerms then Some (Num (term_sum c ts))
      else if ts = [] then Some NaN
      else Some (Num (term_sum c ts / weight_sum ts)))"

fun valid_expression :: "metric_expression \<Rightarrow> bool" where
  "valid_expression (ValueMetric k) = (\<not> blank k)"
| "valid_expression (RatioPercent n d) = (\<not> blank n \<and> \<not> blank d)"
| "valid_expression (AggregateTerms r ts) = (ts \<noteq> [] \<and> length ts \<le> maximum_terms \<and> list_all (\<lambda>(k, w). \<not> blank k \<and> positive_weight w) ts)"

fun satisfies :: "jsnum \<Rightarrow> threshold_comparison \<Rightarrow> jsnum \<Rightarrow> bool" where
  "satisfies v AtLeast t = (value_less t v \<or> value_same v t)"
| "satisfies v AtMost t = (value_less v t \<or> value_same v t)"
| "satisfies v GreaterThan t = value_less t v"
| "satisfies v LessThan t = value_less v t"

text \<open>What a ranking selector asks: a metric, a count, a direction, the policy at the cutoff and the rank that is eligible.\<close>

record ranking_spec =
  rx_metric :: metric_expression
  rx_count :: jsnum
  rx_direction :: preference
  rx_tie :: cutoff_tie
  rx_rank :: "jsnum option"

fun ranking_spec_of :: "selector \<Rightarrow> ranking_spec option" where
  "ranking_spec_of (RankingPoints k n t) = Some \<lparr>rx_metric = ValueMetric k, rx_count = n, rx_direction = HigherFirst, rx_tie = t, rx_rank = None\<rparr>"
| "ranking_spec_of (ElapsedTime k n t) = Some \<lparr>rx_metric = ValueMetric k, rx_count = n, rx_direction = LowerFirst, rx_tie = t, rx_rank = None\<rparr>"
| "ranking_spec_of (AggregateMetric m n d t) = Some \<lparr>rx_metric = m, rx_count = n, rx_direction = d, rx_tie = t, rx_rank = None\<rparr>"
| "ranking_spec_of (BestN m n d r t) = Some \<lparr>rx_metric = m, rx_count = n, rx_direction = d, rx_tie = t, rx_rank = r\<rparr>"
| "ranking_spec_of s = None"

fun threshold_spec :: "selector \<Rightarrow> (metric_expression \<times> threshold_comparison \<times> jsnum) option" where
  "threshold_spec (Threshold m c v) = Some (m, c, v)"
| "threshold_spec (ScoreThreshold k v) = Some (ValueMetric k, AtLeast, v)"
| "threshold_spec (PercentageThreshold n d v) = Some (RatioPercent n d, AtLeast, v)"
| "threshold_spec s = None"

section \<open>Requests\<close>

fun normalize_selector :: "selector \<Rightarrow> selector" where
  "normalize_selector (AuthoritySelection k ids a) = AuthoritySelection k (sort ids) a"
| "normalize_selector s = s"

definition normalize_request :: "platform \<Rightarrow> declarative_request \<Rightarrow> declarative_request" where
  "normalize_request P r = r\<lparr>dq_candidates := sort_by (\<lambda>a b. locale_compare P (qd_id a) (qd_id b)) (dq_candidates r),
     dq_selected := sort (dq_selected r), dq_selectors := map normalize_selector (dq_selectors r)\<rparr>"

definition plain_finding :: "string \<Rightarrow> string \<Rightarrow> qualification_finding" where
  "plain_finding code msg = \<lparr>qf_code = code, qf_message = msg, qf_selector = None, qf_ids = None\<rparr>"

definition selector_finding :: "string \<Rightarrow> string \<Rightarrow> nat \<Rightarrow> string list option \<Rightarrow> qualification_finding" where
  "selector_finding code msg i ids = \<lparr>qf_code = code, qf_message = msg, qf_selector = Some i, qf_ids = map_option sort ids\<rparr>"

definition when_finding :: "bool \<Rightarrow> qualification_finding \<Rightarrow> qualification_finding list" where
  "when_finding b f = (if b then [f] else [])"

definition validate_declarative :: "declarative_request \<Rightarrow> qualification_finding list" where
  "validate_declarative r =
     (let ids = map qd_id (dq_candidates r); prior = dq_selected r
      in when_finding (blank (dq_policy r)) (plain_finding ''INVALID_POLICY_ID'' ''Qualification policy id is required.'')
       @ when_finding (case js_integer (dq_output r) of None \<Rightarrow> True | Some n \<Rightarrow> n < 0 \<or> int (length (dq_candidates r)) < n)
           (plain_finding ''INVALID_OUTPUT_COUNT'' ''Output count must be a bounded non-negative integer.'')
       @ when_finding (length (dq_candidates r) > maximum_candidates) (plain_finding ''CANDIDATE_LIMIT'' ''Candidate count exceeds the explicit scale envelope.'')
       @ when_finding (length (dq_selectors r) < 1 \<or> length (dq_selectors r) > maximum_selectors)
           (plain_finding ''SELECTOR_LIMIT'' ''Selector count is outside the explicit scale envelope.'')
       @ when_finding (\<not> distinct ids \<or> list_ex blank ids) (plain_finding ''INVALID_CANDIDATE_IDS'' ''Candidate ids must be non-empty and unique.'')
       @ when_finding (\<not> distinct prior \<or> list_ex (\<lambda>i. \<not> List.member ids i) prior)
           (plain_finding ''INVALID_GLOBAL_SELECTION'' ''Prior global selections must be unique members of the candidate universe.''))"

definition count_is :: "nat \<Rightarrow> jsnum \<Rightarrow> bool" where
  "count_is n x = (js_finite x = Some (of_nat n))"

definition proof_for :: "platform \<Rightarrow> declarative_request \<Rightarrow> string list \<Rightarrow> selection_evidence list \<Rightarrow> qualification_finding list
    \<Rightarrow> (json_error, qualification_proof) result" where
  "proof_for P r ids vs fs =
     bind_result (canonical_hash P (declarative_request_json r)) (\<lambda>h.
     bind_result (canonical_hash P (candidates_json (dq_candidates r))) (\<lambda>u.
       (let base = \<lparr>qp_request = h, qp_universe = u, qp_exact = (fs = [] \<and> count_is (length ids) (dq_output r)), qp_distinct = distinct ids,
              qp_exclusive = list_all (\<lambda>i. \<not> List.member (dq_selected r) i) ids,
              qp_sequential = (length vs = length ids \<and> map qv_id vs = ids), qp_justified = (length vs = length ids), qp_hash = []\<rparr>
        in bind_result (canonical_hash P (JObj [(''request'', declarative_request_json r), (''selectedCandidateIds'', strs ids),
             (''evidence'', evidence_list_json vs), (''findings'', qualification_findings_json fs), (''proof'', JObj (qualification_proof_fields base))]))
             (\<lambda>x. Inr (base\<lparr>qp_hash := x\<rparr>)))))"

definition rejected_qualification :: "platform \<Rightarrow> declarative_request \<Rightarrow> qualification_finding list \<Rightarrow> (json_error, qualification_compilation) result" where
  "rejected_qualification P r fs = bind_result (proof_for P r [] [] fs) (\<lambda>p.
     Inr \<lparr>qk_certified = False, qk_ids = [], qk_evidence = [], qk_findings = fs, qk_proof = p\<rparr>)"

section \<open>Selection\<close>

text \<open>What the selectors have picked so far: everything that is taken, the new picks in order and their evidence.\<close>

record selection_state =
  ls_taken :: "string list"
  ls_ids :: "string list"
  ls_evidence :: "selection_evidence list"

definition start_selection :: "declarative_request \<Rightarrow> selection_state" where
  "start_selection r = \<lparr>ls_taken = dq_selected r, ls_ids = [], ls_evidence = []\<rparr>"

definition available_candidates :: "qualification_candidate list \<Rightarrow> selection_state \<Rightarrow> qualification_candidate list" where
  "available_candidates cs st = filter (\<lambda>c. \<not> List.member (ls_taken st) (qd_id c)) cs"

definition add_picks :: "selection_evidence list \<Rightarrow> selection_state \<Rightarrow> selection_state" where
  "add_picks vs st = st\<lparr>ls_taken := ls_taken st @ map qv_id vs, ls_ids := ls_ids st @ map qv_id vs, ls_evidence := ls_evidence st @ vs\<rparr>"

definition pick_evidence :: "nat \<Rightarrow> selector \<Rightarrow> string list \<Rightarrow> jsnum option \<Rightarrow> cutoff_tie option \<Rightarrow> string option \<Rightarrow> string \<Rightarrow> selection_evidence" where
  "pick_evidence i s compared v tie authority c = \<lparr>qv_id = c, qv_selector = i, qv_type = selector_type s, qv_value = v,
     qv_compared = compared, qv_policy = tie, qv_authority = authority\<rparr>"

definition authority_picks :: "nat \<Rightarrow> selector \<Rightarrow> qualification_candidate list \<Rightarrow> string list \<Rightarrow> authority_approval \<Rightarrow> selection_evidence list" where
  "authority_picks i s available ids a = map (pick_evidence i s (map qd_id available) None None (Some (ap_authority a))) ids"

definition remainder_picks :: "nat \<Rightarrow> selector \<Rightarrow> qualification_candidate list \<Rightarrow> selection_evidence list" where
  "remainder_picks i s available = map (\<lambda>c. pick_evidence i s (map qd_id available) None None None (qd_id c)) available"

text \<open>The values of the candidates that have one.\<close>

definition evaluate_metric :: "metric_expression \<Rightarrow> qualification_candidate list \<Rightarrow> (qualification_candidate \<times> jsnum) list" where
  "evaluate_metric m cs = concat (map (\<lambda>c. case metric_value c m of None \<Rightarrow> [] | Some v \<Rightarrow> [(c, v)]) cs)"

definition unvalued :: "metric_expression \<Rightarrow> qualification_candidate list \<Rightarrow> string list" where
  "unvalued m cs = map qd_id (filter (\<lambda>c. metric_value c m = None) cs)"

definition threshold_picks :: "nat \<Rightarrow> selector \<Rightarrow> qualification_candidate list \<Rightarrow> metric_expression \<times> threshold_comparison \<times> jsnum \<Rightarrow> selection_evidence list" where
  "threshold_picks i s available t = (case t of (m, c, x) \<Rightarrow>
     map (\<lambda>(d, v). pick_evidence i s (map qd_id available) (Some v) None None (qd_id d)) (filter (\<lambda>(d, v). satisfies v c x) (evaluate_metric m available)))"

definition eligible_candidates :: "ranking_spec \<Rightarrow> qualification_candidate list \<Rightarrow> qualification_candidate list" where
  "eligible_candidates x cs = (case rx_rank x of None \<Rightarrow> cs
     | Some r \<Rightarrow> filter (\<lambda>c. case qd_rank c of None \<Rightarrow> False | Some q \<Rightarrow> value_same q r \<or> (q = r \<and> (q = PosInf \<or> q = NegInf))) cs)"

definition valued_order :: "platform \<Rightarrow> preference \<Rightarrow> qualification_candidate \<times> jsnum \<Rightarrow> qualification_candidate \<times> jsnum \<Rightarrow> int" where
  "valued_order P d a b = or_else (if d = HigherFirst then value_delta (snd b) (snd a) else value_delta (snd a) (snd b))
     (locale_compare P (qd_id (fst a)) (qd_id (fst b)))"

definition order_candidates :: "platform \<Rightarrow> ranking_spec \<Rightarrow> qualification_candidate list \<Rightarrow> (qualification_candidate \<times> jsnum) list" where
  "order_candidates P x cs = sort_by (valued_order P (rx_direction x)) (evaluate_metric (rx_metric x) cs)"

definition ahead_of :: "preference \<Rightarrow> jsnum \<Rightarrow> (qualification_candidate \<times> jsnum) list \<Rightarrow> nat" where
  "ahead_of d cutoff xs = length (filter (\<lambda>(c, v). if d = HigherFirst then value_less cutoff v else value_less v cutoff) xs)"

definition tied_with :: "jsnum \<Rightarrow> (qualification_candidate \<times> jsnum) list \<Rightarrow> (qualification_candidate \<times> jsnum) list" where
  "tied_with cutoff xs = filter (\<lambda>(c, v). value_same v cutoff) xs"

text \<open>The count of a ranking selector when it is an integer of at least one that the eligible candidates can fill.\<close>

definition usable_count :: "jsnum \<Rightarrow> nat \<Rightarrow> nat option" where
  "usable_count n available = (case js_integer n of None \<Rightarrow> None | Some k \<Rightarrow> if k < 1 \<or> int available < k then None else Some (nat k))"

definition crosses :: "preference \<Rightarrow> nat \<Rightarrow> (qualification_candidate \<times> jsnum) list \<Rightarrow> bool" where
  "crosses d k xs = (let cutoff = snd (xs ! (k - 1)); ahead = ahead_of d cutoff xs in ahead < k \<and> k < ahead + length (tied_with cutoff xs))"

definition cut_at :: "ranking_spec \<Rightarrow> nat \<Rightarrow> (qualification_candidate \<times> jsnum) list \<Rightarrow> (qualification_candidate \<times> jsnum) list" where
  "cut_at x k xs = (let cutoff = snd (xs ! (k - 1))
     in if crosses (rx_direction x) k xs \<and> rx_tie x = IncludeAllTie then take (ahead_of (rx_direction x) cutoff xs + length (tied_with cutoff xs)) xs else take k xs)"

definition ranking_picks :: "nat \<Rightarrow> selector \<Rightarrow> ranking_spec \<Rightarrow> (qualification_candidate \<times> jsnum) list \<Rightarrow> (qualification_candidate \<times> jsnum) list \<Rightarrow> selection_evidence list" where
  "ranking_picks i s x ordered picked = map (\<lambda>(c, v). pick_evidence i s (map (\<lambda>(d, w). qd_id d) ordered) (Some v) (Some (rx_tie x)) None (qd_id c)) picked"

definition bad_rank :: "jsnum option \<Rightarrow> bool" where
  "bad_rank r = (case r of None \<Rightarrow> False | Some n \<Rightarrow> (case js_integer n of None \<Rightarrow> True | Some k \<Rightarrow> k < 1))"

definition authority_step :: "platform \<Rightarrow> string \<Rightarrow> qualification_candidate list \<Rightarrow> nat \<Rightarrow> selector \<Rightarrow> authority_kind \<Rightarrow> string list \<Rightarrow> authority_approval
    \<Rightarrow> (qualification_finding, selection_evidence list) result" where
  "authority_step P policy available i s k ids a =
     (let unavailable = filter (\<lambda>c. \<not> List.member (map qd_id available) c) (sort ids)
      in if ap_status a \<noteq> ''APPROVED'' \<or> blank (ap_authority a) \<or> ids = [] \<or> \<not> distinct ids \<or> unavailable \<noteq> []
           \<or> approval_hash P policy i k (sort ids) (ap_authority a) \<noteq> Inr (ap_hash a)
         then Inl (selector_finding ''INVALID_AUTHORITY_SELECTION'' ''Wildcard and host selections require a named, hash-bound approval over available candidates.'' i (Some unavailable))
         else Inr (authority_picks i s available (sort ids) a))"

definition threshold_step :: "qualification_candidate list \<Rightarrow> nat \<Rightarrow> selector \<Rightarrow> metric_expression \<times> threshold_comparison \<times> jsnum
    \<Rightarrow> (qualification_finding, selection_evidence list) result" where
  "threshold_step available i s t = (case t of (m, c, x) \<Rightarrow>
     (if js_finite x = None \<or> \<not> valid_expression m \<or> unvalued m available \<noteq> []
      then Inl (selector_finding ''INVALID_THRESHOLD_METRIC'' ''Threshold comparison requires a finite registered metric for every eligible candidate.'' i (Some (unvalued m available)))
      else Inr (threshold_picks i s available t)))"

definition ranking_step :: "platform \<Rightarrow> qualification_candidate list \<Rightarrow> nat \<Rightarrow> selector \<Rightarrow> ranking_spec \<Rightarrow> (qualification_finding, selection_evidence list) result" where
  "ranking_step P available i s x =
     (let eligible = eligible_candidates x available; ordered = order_candidates P x eligible
      in case (if valid_expression (rx_metric x) \<and> \<not> bad_rank (rx_rank x) then usable_count (rx_count x) (length eligible) else None) of
        None \<Rightarrow> Inl (selector_finding ''INVALID_RANKING_SELECTOR'' ''Ranking-points selector requires a registered metric and available bounded count.'' i None)
      | Some k \<Rightarrow>
          (if unvalued (rx_metric x) eligible \<noteq> []
           then Inl (selector_finding ''MISSING_METRIC'' ''The declared ranking metric must be finite for every eligible candidate.'' i (Some (unvalued (rx_metric x) eligible)))
           else if crosses (rx_direction x) k ordered \<and> rx_tie x = RejectTie
           then Inl (selector_finding ''CUTOFF_TIE_UNRESOLVED'' ''A ranking tie crosses the qualification cutoff.'' i
             (Some (map (\<lambda>(c, v). qd_id c) (tied_with (snd (ordered ! (k - 1))) ordered))))
           else Inr (ranking_picks i s x ordered (cut_at x k ordered))))"

definition select_step :: "platform \<Rightarrow> declarative_request \<Rightarrow> nat \<times> selector \<Rightarrow> selection_state \<Rightarrow> (qualification_finding, selection_state) result" where
  "select_step P r is st = (case is of (i, s) \<Rightarrow>
     (let available = available_candidates (dq_candidates r) st
      in bind_result
        (case s of
           AuthoritySelection k ids a \<Rightarrow> authority_step P (dq_policy r) available i s k ids a
         | Remainder \<Rightarrow> Inr (remainder_picks i s available)
         | _ \<Rightarrow> (case threshold_spec s of Some t \<Rightarrow> threshold_step available i s t
               | None \<Rightarrow> (case ranking_spec_of s of Some x \<Rightarrow> ranking_step P available i s x | None \<Rightarrow> Inr [])))
        (\<lambda>vs. Inr (add_picks vs st))))"

definition compile_qualification :: "platform \<Rightarrow> declarative_request \<Rightarrow> (json_error, qualification_compilation) result" where
  "compile_qualification P request =
     (let r = normalize_request P request
      in if validate_declarative r \<noteq> [] then rejected_qualification P r (validate_declarative r)
         else (case fold_result (select_step P r) (enumerate 0 (dq_selectors r)) (start_selection r) of
             Inl f \<Rightarrow> rejected_qualification P r [f]
           | Inr st \<Rightarrow>
               (if \<not> count_is (length (ls_ids st)) (dq_output r)
                then rejected_qualification P r [\<lparr>qf_code = ''OUTPUT_CARDINALITY_MISMATCH'',
                  qf_message = ''Sequential selectors did not resolve the exact declared output count.'', qf_selector = None, qf_ids = Some (sort (ls_ids st))\<rparr>]
                else bind_result (proof_for P r (ls_ids st) (ls_evidence st) []) (\<lambda>p.
                  Inr \<lparr>qk_certified = True, qk_ids = ls_ids st, qk_evidence = ls_evidence st, qk_findings = [], qk_proof = p\<rparr>))))"

section \<open>Verification\<close>

definition verify_authority :: "platform \<Rightarrow> string \<Rightarrow> qualification_candidate list \<Rightarrow> nat \<Rightarrow> selector \<Rightarrow> authority_kind \<Rightarrow> string list \<Rightarrow> authority_approval
    \<Rightarrow> qualification_finding list \<times> selection_evidence list" where
  "verify_authority P policy available i s k ids a =
     (when_finding (blank (ap_authority a) \<or> approval_hash P policy i k (sort ids) (ap_authority a) \<noteq> Inr (ap_hash a)
          \<or> list_ex (\<lambda>c. \<not> List.member (map qd_id available) c) (sort ids))
        (selector_finding ''INVALID_AUTHORITY_SELECTION'' ''Independent verification rejected authority selection semantics.'' i (Some (sort ids))),
      authority_picks i s available (sort ids) a)"

definition verify_threshold :: "qualification_candidate list \<Rightarrow> nat \<Rightarrow> selector \<Rightarrow> metric_expression \<times> threshold_comparison \<times> jsnum
    \<Rightarrow> qualification_finding list \<times> selection_evidence list" where
  "verify_threshold available i s t = (case t of (m, c, x) \<Rightarrow>
     (when_finding (js_finite x = None \<or> \<not> valid_expression m \<or> unvalued m available \<noteq> [])
        (selector_finding ''INVALID_THRESHOLD_METRIC'' ''Independent verification rejected threshold metric semantics.'' i None),
      threshold_picks i s available t))"

definition verify_ranking :: "platform \<Rightarrow> qualification_candidate list \<Rightarrow> nat \<Rightarrow> selector \<Rightarrow> ranking_spec \<Rightarrow> qualification_finding list \<times> selection_evidence list" where
  "verify_ranking P available i s x =
     (let eligible = eligible_candidates x available; ordered = order_candidates P x eligible;
          rejects = (\<lambda>k. crosses (rx_direction x) k ordered \<and> rx_tie x = RejectTie)
      in (when_finding (\<not> valid_expression (rx_metric x) \<or> usable_count (rx_count x) (length eligible) = None \<or> unvalued (rx_metric x) eligible \<noteq> [])
            (selector_finding ''INVALID_RANKING_SELECTOR'' ''Independent verification rejected ranking selector semantics.'' i None)
          @ (case usable_count (rx_count x) (length ordered) of
              None \<Rightarrow> []
            | Some k \<Rightarrow> when_finding (rejects k) (selector_finding ''CUTOFF_TIE_UNRESOLVED'' ''Independent verification found an unresolved cutoff tie.'' i
                (Some (map (\<lambda>(c, v). qd_id c) (tied_with (snd (ordered ! (k - 1))) ordered))))),
          ranking_picks i s x ordered (case usable_count (rx_count x) (length ordered) of
              None \<Rightarrow> take (slice_end (length ordered) (rx_count x)) ordered
            | Some k \<Rightarrow> cut_at x k ordered)))"

definition verify_step :: "platform \<Rightarrow> declarative_request \<Rightarrow> nat \<times> selector \<Rightarrow> qualification_finding list \<times> selection_state \<Rightarrow> qualification_finding list \<times> selection_state" where
  "verify_step P r is acc = (case is of (i, s) \<Rightarrow>
     (let available = available_candidates (dq_candidates r) (snd acc);
          checked = (case s of
           AuthoritySelection k ids a \<Rightarrow> verify_authority P (dq_policy r) available i s k ids a
         | Remainder \<Rightarrow> ([], remainder_picks i s available)
         | _ \<Rightarrow> (case threshold_spec s of Some t \<Rightarrow> verify_threshold available i s t
               | None \<Rightarrow> (case ranking_spec_of s of Some x \<Rightarrow> verify_ranking P available i s x | None \<Rightarrow> ([], []))))
      in (fst acc @ fst checked, add_picks (snd checked) (snd acc))))"

definition verify_qualification :: "platform \<Rightarrow> declarative_request \<Rightarrow> qualification_compilation \<Rightarrow> (json_error, qualification_verification) result" where
  "verify_qualification P request c =
     (let r = normalize_request P request; ids = qk_ids c;
          replay = foldl (\<lambda>acc is. verify_step P r is acc) ([], start_selection r) (enumerate 0 (dq_selectors r));
          expected = snd replay;
          before = validate_declarative r
            @ when_finding (\<not> qk_certified c) (plain_finding ''COMPILATION_NOT_CERTIFIED'' ''Only a certified selection can be independently verified.'')
            @ when_finding (\<not> count_is (length ids) (dq_output r)) (plain_finding ''OUTPUT_CARDINALITY_MISMATCH'' ''Verified output cardinality differs from the request.'')
            @ when_finding (\<not> distinct ids \<or> list_ex (\<lambda>i. List.member (dq_selected r) i) ids)
                (plain_finding ''DUPLICATE_SELECTION'' ''Verified selections must be unique and globally exclusive.'')
            @ fst replay
            @ when_finding (ls_ids expected \<noteq> ids) (plain_finding ''SELECTION_NOT_REPRODUCIBLE'' ''Independent selector replay produced a different selection.'')
            @ when_finding (map qv_id (qk_evidence c) \<noteq> ids \<or> list_ex (\<lambda>i. \<not> List.member (map qd_id (dq_candidates r)) i) ids)
                (plain_finding ''INVALID_PROVENANCE'' ''Selection provenance does not cover the certified output in sequence.'')
      in bind_result (canonical_hash P (evidence_list_json (qk_evidence c))) (\<lambda>h.
         bind_result (canonical_hash P (evidence_list_json (ls_evidence expected))) (\<lambda>h'.
         bind_result (proof_for P r ids (qk_evidence c) (qk_findings c)) (\<lambda>p.
         bind_result (canonical_hash P (qualification_proof_json p)) (\<lambda>g.
         bind_result (canonical_hash P (qualification_proof_json (qk_proof c))) (\<lambda>g'.
           (let fs = before
              @ when_finding (h \<noteq> h') (plain_finding ''INVALID_PROVENANCE'' ''Independent selector evaluation does not reproduce the supplied sequential evidence.'')
              @ when_finding (g \<noteq> g') (plain_finding ''PROOF_BODY_MISMATCH'' ''Qualification proof assertions do not match independently derived assertions.'')
              @ when_finding (qp_hash p \<noteq> qp_hash (qk_proof c)) (plain_finding ''PROOF_HASH_MISMATCH'' ''Qualification proof does not bind the supplied request and evidence.'')
            in bind_result (canonical_hash P (JObj [(''request'', declarative_request_json r), (''compilation'', compilation_json c), (''findings'', qualification_findings_json fs)]))
                 (\<lambda>v. Inr \<lparr>qw_certified = (fs = []), qw_findings = fs, qw_hash = v\<rparr>))))))))"

end
