(* ===== verification/Qualification.thy ===== *)
theory Qualification
  imports Draw DeclarativeQualification
begin

text \<open>
  packages/competition-engine/src/qualification.ts: who goes from the standings of the stages to the structures that follow.

  \<^item> The policies are handled in order on a \<open>qualification_state\<close>; a policy that fails empties its destination for good and
    releases the entrants that had been placed there.
  \<^item> A policy with a declarative selector goes through the compilation and the verification of DeclarativeQualification.
  \<^item> A standing of an entrant that the division does not have gives an object without identity (\<open>Nameless\<close>): the code spreads
    \<^verbatim>\<open>undefined\<close>.
\<close>

section \<open>Data\<close>

datatype schema_metric =
    SchemaValue string
  | SchemaRatio string string
  | SchemaAggregate reducer "(string \<times> jsnum) list"

datatype policy_selector =
    TopN jsnum
  | BottomN jsnum
  | PoolPosition jsnum
  | PoolWinners
  | BestAcrossPools jsnum "jsnum option"
  | RemainderSelector
  | ManualSelector jsnum
  | PolicyRankingPoints string jsnum cutoff_tie
  | PolicyThreshold schema_metric threshold_comparison jsnum
  | PolicyScoreThreshold string jsnum
  | PolicyPercentage string string jsnum
  | PolicyElapsedTime string jsnum cutoff_tie
  | PolicyAggregate schema_metric jsnum preference cutoff_tie
  | PolicyBestN schema_metric jsnum preference "jsnum option" cutoff_tie
  | PolicyAuthority authority_kind "string list" string string

record qualification_policy =
  ql_id :: string
  ql_source :: string
  ql_destination :: string
  ql_output :: jsnum
  ql_selectors :: "policy_selector list"
  ql_normalization :: "string option"

text \<open>What the qualification reads of the specification: the divisions of the stages and the policies.\<close>

record qualification_spec =
  qs_stages :: "(string \<times> string) list"
  qs_policies :: "qualification_policy list"

datatype seat = Seat entrant | Nameless "string option" "rat option"

record qualification_evidence =
  qe_id :: string
  qe_policy :: string
  qe_destination :: string
  qe_selector :: string
  qe_standing :: standing
  qe_compared :: "string list"
  qe_resolution :: "string list"
  qe_index :: "nat option"
  qe_value :: "jsnum option"
  qe_authority :: "string option"
  qe_proof :: "string option"

record policy_proof =
  pq_policy :: string
  pq_proof :: string
  pq_verification :: string

record qualification_state =
  qt_structures :: "(string, seat list) omap"
  qt_evidence :: "qualification_evidence list"
  qt_findings :: "validation_finding list"
  qt_selected :: "string list"
  qt_proofs :: "policy_proof list"
  qt_failed :: "string list"

datatype qualify_error = HashRefused json_error | Thrown string

section \<open>Adapters\<close>

fun schema_type :: "policy_selector \<Rightarrow> string" where
  "schema_type (TopN n) = ''top_n''"
| "schema_type (BottomN n) = ''bottom_n''"
| "schema_type (PoolPosition n) = ''pool_position''"
| "schema_type PoolWinners = ''pool_winners''"
| "schema_type (BestAcrossPools n k) = ''best_n_across_pools''"
| "schema_type RemainderSelector = ''remainder''"
| "schema_type (ManualSelector n) = ''manual_decision''"
| "schema_type (PolicyRankingPoints k n t) = ''ranking_points''"
| "schema_type (PolicyThreshold m c v) = ''threshold''"
| "schema_type (PolicyScoreThreshold k v) = ''score_threshold''"
| "schema_type (PolicyPercentage k l v) = ''percentage_threshold''"
| "schema_type (PolicyElapsedTime k n t) = ''elapsed_time''"
| "schema_type (PolicyAggregate m n d t) = ''aggregate_metric''"
| "schema_type (PolicyBestN m n d r t) = ''best_n''"
| "schema_type (PolicyAuthority k ids a h) = ''authority_selection''"

definition declarative_types :: "string list" where
  "declarative_types = [''ranking_points'', ''threshold'', ''score_threshold'', ''percentage_threshold'', ''elapsed_time'', ''aggregate_metric'', ''best_n'', ''authority_selection'']"

fun map_metric :: "schema_metric \<Rightarrow> metric_expression" where
  "map_metric (SchemaValue k) = ValueMetric k"
| "map_metric (SchemaRatio n d) = RatioPercent n d"
| "map_metric (SchemaAggregate r ts) = AggregateTerms r ts"

fun map_declarative :: "policy_selector \<Rightarrow> (qualify_error, selector) result" where
  "map_declarative (PolicyRankingPoints k n t) = Inr (RankingPoints k n t)"
| "map_declarative (PolicyThreshold m c v) = Inr (Threshold (map_metric m) c v)"
| "map_declarative (PolicyScoreThreshold k v) = Inr (ScoreThreshold k v)"
| "map_declarative (PolicyPercentage k l v) = Inr (PercentageThreshold k l v)"
| "map_declarative (PolicyElapsedTime k n t) = Inr (ElapsedTime k n t)"
| "map_declarative (PolicyAggregate m n d t) = Inr (AggregateMetric (map_metric m) n d t)"
| "map_declarative (PolicyBestN m n d r t) = Inr (BestN (map_metric m) n d r t)"
| "map_declarative (PolicyAuthority k ids a h) = Inr (AuthoritySelection k ids \<lparr>ap_status = ''APPROVED'', ap_authority = a, ap_hash = h\<rparr>)"
| "map_declarative RemainderSelector = Inr Remainder"
| "map_declarative s = Inl (Thrown ''Qualification selector has no declarative adapter.'')"

definition hash_refused :: "(json_error, 'a) result \<Rightarrow> (qualify_error, 'a) result" where
  "hash_refused x = map_sum HashRefused id x"

section \<open>Destinations\<close>

definition new_qualification :: qualification_state where
  "new_qualification = \<lparr>qt_structures = [], qt_evidence = [], qt_findings = [], qt_selected = [], qt_proofs = [], qt_failed = []\<rparr>"

definition seats_at :: "qualification_state \<Rightarrow> string \<Rightarrow> seat list" where
  "seats_at st d = (case omap_get (qt_structures st) d of None \<Rightarrow> [] | Some xs \<Rightarrow> xs)"

fun seat_id :: "seat \<Rightarrow> string option" where
  "seat_id (Seat e) = Some (en_id e)"
| "seat_id (Nameless p n) = None"

fun with_seed :: "rat \<Rightarrow> seat \<Rightarrow> seat" where
  "with_seed n (Seat e) = Seat (e\<lparr>en_seed := Some n\<rparr>)"
| "with_seed n (Nameless p m) = Nameless p (Some n)"

definition fail_destination :: "qualification_policy list \<Rightarrow> string \<Rightarrow> qualification_state \<Rightarrow> qualification_state" where
  "fail_destination policies d st = st\<lparr>
     qt_selected := filter (\<lambda>i. \<not> List.member (map seat_id (seats_at st d)) (Some i)) (qt_selected st),
     qt_structures := omap_set d [] (qt_structures st),
     qt_evidence := filter (\<lambda>e. qe_destination e \<noteq> d) (qt_evidence st),
     qt_proofs := filter (\<lambda>p. \<not> List.member (map ql_id (filter (\<lambda>q. ql_destination q = d) policies)) (pq_policy p)) (qt_proofs st),
     qt_failed := qt_failed st @ [d]\<rparr>"

definition append_destination :: "string \<Rightarrow> seat list \<Rightarrow> qualification_state \<Rightarrow> qualification_state" where
  "append_destination d seats st =
     (if List.member (qt_failed st) d then st
      else st\<lparr>qt_structures := omap_set d (map (\<lambda>(i, x). with_seed (of_nat (i + 1)) x) (enumerate 0 (seats_at st d @ seats))) (qt_structures st)\<rparr>)"

definition add_finding :: "qualification_policy \<Rightarrow> string \<Rightarrow> string \<Rightarrow> string \<Rightarrow> jsval \<Rightarrow> qualification_state \<Rightarrow> qualification_state" where
  "add_finding p code suffix msg evidence st = st\<lparr>qt_findings := qt_findings st
     @ [\<lparr>vf_code = code, vf_severity = ''ERROR'', vf_path = ''/qualificationPolicies/'' @ ql_id p @ suffix, vf_message = msg, vf_evidence = evidence\<rparr>]\<rparr>"

definition entrant_map :: "entrant list \<Rightarrow> string \<Rightarrow> entrant option" where
  "entrant_map es = map_of (rev (map (\<lambda>e. (en_id e, e)) es))"

definition standing_pool :: "standing \<Rightarrow> string option" where
  "standing_pool r = (if tb_pool r = Some [] then None else tb_pool r)"

text \<open>\<^verbatim>\<open>{ ...entrant, ...(poolId ? { poolId } : {}) }\<close>\<close>

definition seat_of :: "(string \<Rightarrow> entrant option) \<Rightarrow> string \<Rightarrow> string option \<Rightarrow> seat" where
  "seat_of entrants i pool = (case entrants i of
     Some e \<Rightarrow> Seat (case pool of None \<Rightarrow> e | Some p \<Rightarrow> e\<lparr>en_pool := Some p\<rparr>)
   | None \<Rightarrow> Nameless pool None)"

section \<open>Declarative policies\<close>

definition standing_metrics :: "standing \<Rightarrow> (string \<times> jsnum) list" where
  "standing_metrics r = [(''rank'', Num (of_nat (tb_rank r))), (''played'', Num (of_nat (tb_played r))), (''wins'', Num (of_nat (tb_wins r))),
     (''losses'', Num (of_nat (tb_losses r))), (''draws'', Num (of_nat (tb_draws r))), (''scoreFor'', Num (tb_for r)), (''scoreAgainst'', Num (tb_against r)),
     (''scoreDifference'', Num (tb_difference r)), (''winningPercentage'', Num (tb_percentage r))]"

definition standing_candidate :: "standing \<Rightarrow> qualification_candidate" where
  "standing_candidate r = \<lparr>qd_id = tb_entrant r, qd_group = standing_pool r, qd_rank = Some (Num (of_nat (tb_rank r))), qd_metrics = standing_metrics r\<rparr>"

definition declarative_request_of :: "qualification_policy \<Rightarrow> standing list \<Rightarrow> string list \<Rightarrow> selector list \<Rightarrow> declarative_request" where
  "declarative_request_of p rows selected sels = \<lparr>dq_policy = ql_id p, dq_output = ql_output p, dq_candidates = map standing_candidate rows,
     dq_selected = filter (\<lambda>i. List.member (map tb_entrant rows) i) selected, dq_selectors = sels\<rparr>"

definition standing_by_id :: "standing list \<Rightarrow> string \<Rightarrow> standing option" where
  "standing_by_id rows = map_of (rev (map (\<lambda>r. (tb_entrant r, r)) rows))"

definition declared_evidence :: "qualification_policy \<Rightarrow> standing list \<Rightarrow> string \<Rightarrow> selection_evidence \<Rightarrow> (qualify_error, qualification_evidence) result" where
  "declared_evidence p rows hash v = (case (standing_by_id rows (qv_id v), nth_option (ql_selectors p) (qv_selector v)) of
     (Some r, Some s) \<Rightarrow> Inr \<lparr>qe_id = qv_id v, qe_policy = ql_id p, qe_destination = ql_destination p, qe_selector = schema_type s, qe_standing = r,
         qe_compared = qv_compared v, qe_resolution = tb_resolution r, qe_index = Some (qv_selector v), qe_value = qv_value v,
         qe_authority = qv_authority v, qe_proof = Some hash\<rparr>
   | _ \<Rightarrow> Inl (Thrown ''TypeError''))"

definition incompatible_types :: "qualification_policy \<Rightarrow> string list" where
  "incompatible_types p = filter (\<lambda>t. \<not> List.member declarative_types t \<and> t \<noteq> ''remainder'') (map schema_type (ql_selectors p))"

definition unknown_ids :: "(string \<Rightarrow> entrant option) \<Rightarrow> standing list \<Rightarrow> string list" where
  "unknown_ids entrants rows = filter (\<lambda>i. entrants i = None) (map tb_entrant rows)"

definition qualify_declared :: "platform \<Rightarrow> qualification_policy list \<Rightarrow> (string \<Rightarrow> entrant option) \<Rightarrow> standing list \<Rightarrow> qualification_policy
    \<Rightarrow> qualification_state \<Rightarrow> (qualify_error, qualification_state) result" where
  "qualify_declared P policies entrants rows p st =
     (let failed = (\<lambda>msg evidence. Inr (fail_destination policies (ql_destination p) (add_finding p ''TSC804'' [] msg evidence st)))
      in if incompatible_types p \<noteq> [] \<or> unknown_ids entrants rows \<noteq> []
         then failed ''Declarative qualification configuration cannot be adapted into a closed candidate universe.''
           (JObj [(''incompatibleSelectorTypes'', strs (sort (js_unique (incompatible_types p)))), (''unknownCandidateIds'', strs (sort (js_unique (unknown_ids entrants rows))))])
         else bind_result (map_result map_declarative (ql_selectors p)) (\<lambda>sels.
           (let q = declarative_request_of p rows (qt_selected st) sels
            in bind_result (hash_refused (compile_qualification P q)) (\<lambda>k.
               bind_result (hash_refused (verify_qualification P q k)) (\<lambda>v.
                 if \<not> qk_certified k \<or> \<not> qw_certified v
                 then failed ''Declarative qualification did not produce an independently verified exact selection.''
                   (JObj [(''causes'', strs (map qf_code (qk_findings k @ qw_findings v)))])
                 else bind_result (map_result (declared_evidence p rows (qp_hash (qk_proof k))) (qk_evidence k)) (\<lambda>evidence.
                   (let st1 = append_destination (ql_destination p)
                          (map (\<lambda>i. seat_of entrants i (case standing_by_id rows i of None \<Rightarrow> None | Some r \<Rightarrow> standing_pool r)) (qk_ids k)) st
                    in Inr (st1\<lparr>qt_selected := js_unique (qt_selected st1 @ map qe_id evidence), qt_evidence := qt_evidence st1 @ evidence,
                         qt_proofs := qt_proofs st1 @ [\<lparr>pq_policy = ql_id p, pq_proof = qp_hash (qk_proof k), pq_verification = qw_hash v\<rparr>]\<rparr>))))))))"

section \<open>Policies by rank\<close>

definition compare_scores :: "rat list \<Rightarrow> rat list \<Rightarrow> int" where
  "compare_scores left right = num_cmp (first_delta right left) 0"

definition standing_score :: "qualification_policy \<Rightarrow> standing \<Rightarrow> rat list" where
  "standing_score p r = (case normalized_standing_score r (ql_normalization p) of Inr xs \<Rightarrow> xs | Inl msg \<Rightarrow> [])"

definition slice_first :: "jsnum \<Rightarrow> 'a list \<Rightarrow> 'a list" where
  "slice_first n xs = take (slice_end (length xs) n) xs"

fun selector_rows :: "platform \<Rightarrow> qualification_policy \<Rightarrow> standing list \<Rightarrow> policy_selector \<Rightarrow> standing list" where
  "selector_rows P p rows PoolWinners = filter (\<lambda>r. tb_rank r = 1) rows"
| "selector_rows P p rows (PoolPosition n) = filter (\<lambda>r. count_is (tb_rank r) n) rows"
| "selector_rows P p rows (BestAcrossPools n k) = slice_first n (sort_by (\<lambda>a b. or_else (compare_scores (standing_score p a) (standing_score p b)) (locale_compare P (tb_entrant a) (tb_entrant b)))
     (filter (\<lambda>r. case k of None \<Rightarrow> True | Some x \<Rightarrow> count_is (tb_rank r) x) rows))"
| "selector_rows P p rows (TopN n) = slice_first n (sort_by (\<lambda>a b. or_else (num_cmp (tb_rank a) (tb_rank b)) (locale_compare P (tb_entrant a) (tb_entrant b))) rows)"
| "selector_rows P p rows (BottomN n) = slice_first n (sort_by (\<lambda>a b. or_else (num_cmp (tb_rank b) (tb_rank a)) (locale_compare P (tb_entrant a) (tb_entrant b))) rows)"
| "selector_rows P p rows RemainderSelector = rows"
| "selector_rows P p rows s = []"

text \<open>One selector: the new picks, and a finding for a decision that is open.\<close>

definition pick_selector :: "platform \<Rightarrow> qualification_policy \<Rightarrow> standing list \<Rightarrow> policy_selector \<Rightarrow> standing list \<times> qualification_state \<Rightarrow> standing list \<times> qualification_state" where
  "pick_selector P p rows s acc = (case acc of (picked, st) \<Rightarrow>
     (let available = filter (\<lambda>r. \<not> List.member (qt_selected st) (tb_entrant r) \<and> \<not> List.member (map tb_entrant picked) (tb_entrant r)) rows
      in (picked @ selector_rows P p available s,
          case s of ManualSelector n \<Rightarrow> add_finding p ''TSC801'' [] ''Manual qualification decision is unresolved.'' JUndef st | _ \<Rightarrow> st)))"

definition ranked_evidence :: "qualification_policy \<Rightarrow> standing list \<Rightarrow> standing \<Rightarrow> qualification_evidence" where
  "ranked_evidence p picked r = \<lparr>qe_id = tb_entrant r, qe_policy = ql_id p, qe_destination = ql_destination p,
     qe_selector = join ''+'' (map schema_type (ql_selectors p)), qe_standing = r, qe_compared = map tb_entrant picked, qe_resolution = tb_resolution r,
     qe_index = None, qe_value = None, qe_authority = None, qe_proof = None\<rparr>"

definition qualify_ranked :: "platform \<Rightarrow> qualification_policy list \<Rightarrow> (string \<Rightarrow> entrant option) \<Rightarrow> standing list \<Rightarrow> qualification_policy
    \<Rightarrow> qualification_state \<Rightarrow> qualification_state" where
  "qualify_ranked P policies entrants rows p st = (case foldl (\<lambda>acc s. pick_selector P p rows s acc) ([], st) (ql_selectors p) of (picked, st1) \<Rightarrow>
     (if \<not> count_is (length picked) (ql_output p)
      then fail_destination policies (ql_destination p) (add_finding p ''TSC802'' [] ''Resolved qualifier count differs from declared output.''
        (JObj [(''resolved'', jnat (length picked)), (''expected'', JNum (ql_output p))]) st1)
      else
        (let st2 = append_destination (ql_destination p) (map (\<lambda>r. seat_of entrants (tb_entrant r) (standing_pool r)) picked) st1
         in st2\<lparr>qt_selected := js_unique (qt_selected st2 @ map tb_entrant picked), qt_evidence := qt_evidence st2 @ map (ranked_evidence p picked) picked\<rparr>)))"

section \<open>All policies\<close>

definition division_of :: "qualification_spec \<Rightarrow> string \<Rightarrow> string" where
  "division_of spec stage = (case map_of (qs_stages spec) stage of None \<Rightarrow> [] | Some d \<Rightarrow> d)"

definition qualify_policy :: "platform \<Rightarrow> qualification_spec \<Rightarrow> (string \<Rightarrow> standing list) \<Rightarrow> (string \<Rightarrow> entrant list) \<Rightarrow> qualification_policy
    \<Rightarrow> qualification_state \<Rightarrow> (qualify_error, qualification_state) result" where
  "qualify_policy P spec standings entrants p st =
     (let policies = qs_policies spec; rows = standings (ql_source p); known = entrant_map (entrants (division_of spec (ql_source p)))
      in if List.member (qt_failed st) (ql_destination p) then Inr st
         else if ql_normalization p \<noteq> None \<and> ql_normalization p \<noteq> Some ''per_match'' \<and> ql_normalization p \<noteq> Some ''percentage''
         then Inr (fail_destination policies (ql_destination p) (add_finding p ''TSC803'' ''/normalization''
           ''Qualification normalization is declared by the schema but has no executable registered implementation.''
           (JObj [(''normalization'', optional_json JStr (ql_normalization p)), (''supported'', strs [''per_match'', ''percentage''])]) st))
         else if list_ex (\<lambda>s. List.member declarative_types (schema_type s)) (ql_selectors p) then qualify_declared P policies known rows p st
         else Inr (qualify_ranked P policies known rows p st))"

definition qualify :: "platform \<Rightarrow> qualification_spec \<Rightarrow> (string \<Rightarrow> standing list) \<Rightarrow> (string \<Rightarrow> entrant list) \<Rightarrow> (qualify_error, qualification_state) result" where
  "qualify P spec standings entrants = fold_result (qualify_policy P spec standings entrants) (qs_policies spec) new_qualification"

end
