(* ===== verification/StandingsProofs.thy ===== *)
theory StandingsProofs
  imports Standings
begin

text \<open>
  The correctness of packages/competition-engine/src/standings.ts.

  \<^item> \<open>tally\<close> is what a row should hold: sums over the results of its pool; the rows of the table are the tallies.
  \<^item> The order: \<open>criteria_vector\<close> of a row are its metrics up to the first head-to-head criterion, signed by direction; the rows of
    a pool come in lexicographic order of it, and their ranks are their positions.
\<close>

section \<open>Counting\<close>

lemma on_row_get: "omap_get (on_row k f m) j = (if j = k then map_option f (omap_get m k) else omap_get m j)"
  by (simp add: on_row_def split: option.split)

lemma ensure_get: "omap_get (ensure pool e m) j = (if j = row_key pool e \<and> omap_get m j = None then Some (new_row pool e) else omap_get m j)"
  by (auto simp: ensure_def split: option.split)

lemma pool_text_Some [simp]: "pool_text (Some p) = p"
  by (simp add: pool_text_def)

lemma pool_text_row: "new_row (Some []) e = new_row None e"
  by (simp add: new_row_def)

lemma new_row_pool: "pool_text p = pool_text q \<Longrightarrow> new_row p e = new_row q e"
  by (cases p; cases q) (auto simp: pool_text_def new_row_def)

lemma before_colon:
  assumes "xs @ CHR '':'' # u = ys @ CHR '':'' # v" "CHR '':'' \<notin> set xs" "CHR '':'' \<notin> set ys"
  shows "xs = ys \<and> u = v"
  using assms by (induction xs arbitrary: ys) (auto simp: Cons_eq_append_conv)

lemma row_key_inject:
  "CHR '':'' \<notin> set (pool_text p) \<Longrightarrow> CHR '':'' \<notin> set (pool_text q) \<Longrightarrow> row_key p e = row_key q f \<longleftrightarrow> pool_text p = pool_text q \<and> e = f"
  unfolding row_key_def using before_colon [of "pool_text p" e "pool_text q" f] by auto

text \<open>The results that count, with the pool of their node.\<close>

definition counted :: "(string \<Rightarrow> contest_result option) \<Rightarrow> contest_node list \<Rightarrow> (string \<times> contest_result) list" where
  "counted results ns = concat (map (\<lambda>n. case results (nd_id n) of None \<Rightarrow> [] | Some x \<Rightarrow> [(pool_text (nd_pool n), x)]) ns)"

definition listed :: "(string \<Rightarrow> contest_result option) \<Rightarrow> contest_node list \<Rightarrow> string \<Rightarrow> string \<Rightarrow> bool" where
  "listed results ns pool e \<longleftrightarrow> (\<exists>n \<in> set ns. pool_text (nd_pool n) = pool
     \<and> (e \<in> set (slot_entrants n) \<or> (\<exists>x. results (nd_id n) = Some x \<and> (e = fst (kr_entrants x) \<or> e = snd (kr_entrants x)))))"

definition winner_side :: "contest_result \<Rightarrow> string" where
  "winner_side x = (if kr_winner x = fst (kr_entrants x) then fst (kr_entrants x) else snd (kr_entrants x))"

definition loser_side :: "contest_result \<Rightarrow> string" where
  "loser_side x = (if kr_winner x = fst (kr_entrants x) then snd (kr_entrants x) else fst (kr_entrants x))"

definition times :: "bool \<Rightarrow> nat" where
  "times b = (if b then 1 else 0)"

definition scored :: "bool \<Rightarrow> rat \<Rightarrow> rat" where
  "scored b x = (if b then x else 0)"

text \<open>What a row should hold: an entrant scores with each side of a result that it is on.\<close>

definition tally :: "string \<Rightarrow> string \<Rightarrow> (string \<times> contest_result) list \<Rightarrow> standing \<Rightarrow> standing" where
  "tally pool e xs r = (let ys = map snd (filter (\<lambda>x. fst x = pool) xs) in r\<lparr>
     tb_played := sum_list (map (\<lambda>x. times (fst (kr_entrants x) = e) + times (snd (kr_entrants x) = e)) ys),
     tb_wins := sum_list (map (\<lambda>x. times (winner_side x = e)) ys),
     tb_losses := sum_list (map (\<lambda>x. times (loser_side x = e)) ys),
     tb_for := sum_list (map (\<lambda>x. scored (fst (kr_entrants x) = e) (fst (kr_score x)) + scored (snd (kr_entrants x) = e) (snd (kr_score x))) ys),
     tb_against := sum_list (map (\<lambda>x. scored (fst (kr_entrants x) = e) (snd (kr_score x)) + scored (snd (kr_entrants x) = e) (fst (kr_score x))) ys)\<rparr>)"

lemma tally_Nil: "tally pool e [] (new_row p e) = new_row p e"
  by (simp add: tally_def new_row_def)

text \<open>What one result adds to the row of \<open>e\<close>.\<close>

definition gain_row :: "contest_result \<Rightarrow> string \<Rightarrow> standing \<Rightarrow> standing" where
  "gain_row x e r = r\<lparr>tb_played := tb_played r + times (fst (kr_entrants x) = e) + times (snd (kr_entrants x) = e),
     tb_wins := tb_wins r + times (winner_side x = e), tb_losses := tb_losses r + times (loser_side x = e),
     tb_for := tb_for r + scored (fst (kr_entrants x) = e) (fst (kr_score x)) + scored (snd (kr_entrants x) = e) (snd (kr_score x)),
     tb_against := tb_against r + scored (fst (kr_entrants x) = e) (snd (kr_score x)) + scored (snd (kr_entrants x) = e) (fst (kr_score x))\<rparr>"

lemma tally_snoc: "tally pool e (xs @ [(pool, x)]) r = gain_row x e (tally pool e xs r)"
  by (simp add: tally_def gain_row_def Let_def)

lemma gain_row_none: "e \<noteq> fst (kr_entrants x) \<Longrightarrow> e \<noteq> snd (kr_entrants x) \<Longrightarrow> gain_row x e r = r"
  by (simp add: gain_row_def times_def scored_def winner_side_def loser_side_def)

lemma tally_other:
  assumes "fst x \<noteq> pool \<or> e \<noteq> fst (kr_entrants (snd x)) \<and> e \<noteq> snd (kr_entrants (snd x))"
  shows "tally pool e (xs @ [x]) r = tally pool e xs r"
proof (cases "fst x = pool")
  case True
  then show ?thesis using assms tally_snoc [of pool e xs "snd x" r] gain_row_none by (metis prod.collapse)
qed (simp add: tally_def)

lemma unlisted_tally:
  assumes "\<not> listed results ns pool e"
  shows "tally pool e (counted results ns) r = tally pool e [] r"
  using assms
proof (induction ns rule: rev_induct)
  case (snoc n ns)
  then have "\<not> listed results ns pool e" by (auto simp: listed_def)
  moreover have "tally pool e (counted results (ns @ [n])) r = tally pool e (counted results ns) r"
  proof (cases "results (nd_id n)")
    case (Some x)
    then have "pool_text (nd_pool n) \<noteq> pool \<or> e \<noteq> fst (kr_entrants x) \<and> e \<noteq> snd (kr_entrants x)" using snoc.prems by (auto simp: listed_def)
    then have "tally pool e (counted results ns @ [(pool_text (nd_pool n), x)]) r = tally pool e (counted results ns) r"
      by (intro tally_other) auto
    then show ?thesis by (simp add: counted_def Some)
  qed (simp add: counted_def)
  ultimately show ?case using snoc.IH by simp
qed (simp add: counted_def)


text \<open>The rows are keyed by pool and entrant.\<close>

definition rows_exact :: "(string \<Rightarrow> contest_result option) \<Rightarrow> contest_node list \<Rightarrow> (string, standing) omap \<Rightarrow> bool" where
  "rows_exact results ns m \<longleftrightarrow> (\<forall>p e. CHR '':'' \<notin> set (pool_text p) \<longrightarrow> omap_get m (row_key p e)
     = (if listed results ns (pool_text p) e then Some (tally (pool_text p) e (counted results ns) (new_row p e)) else None))"

lemma ensure_slots:
  assumes "CHR '':'' \<notin> set (pool_text p)" "CHR '':'' \<notin> set (pool_text q)"
  shows "omap_get (foldl (\<lambda>m e. ensure q e m) m es) (row_key p e)
    = (if omap_get m (row_key p e) = None \<and> pool_text p = pool_text q \<and> e \<in> set es then Some (new_row p e) else omap_get m (row_key p e))"
proof (induction es arbitrary: m)
  case (Cons x es)
  show ?case
    unfolding foldl_Cons Cons.IH ensure_get row_key_inject [OF assms]
    using new_row_pool [of p q e] by auto
qed simp

lemma count_result_get:
  assumes "CHR '':'' \<notin> set (pool_text p)" "CHR '':'' \<notin> set (pool_text q)"
    and old: "omap_get m (row_key p e) = (if was then Some (tally (pool_text p) e xs (new_row p e)) else None)"
    and fresh: "\<not> was \<Longrightarrow> tally (pool_text p) e xs (new_row p e) = new_row p e"
  shows "omap_get (count_result q x m) (row_key p e)
    = (if was \<or> pool_text q = pool_text p \<and> (e = fst (kr_entrants x) \<or> e = snd (kr_entrants x))
       then Some (tally (pool_text p) e (xs @ [(pool_text q, x)]) (new_row p e)) else None)"
proof (cases "pool_text q = pool_text p \<and> (e = fst (kr_entrants x) \<or> e = snd (kr_entrants x))")
  case True
  obtain l r a b where x: "kr_entrants x = (l, r)" "kr_score x = (a, b)" by (cases "kr_entrants x"; cases "kr_score x") auto
  let ?t = "tally (pool_text p) e xs (new_row p e)"
  have key: "row_key q f = row_key p f" "row_key p f = row_key p g \<longleftrightarrow> f = g" for f g
    using row_key_inject [OF assms(1,1)] True by (simp_all add: row_key_def)
  have row: "new_row q e = ?t" if "\<not> was" using fresh [OF that] new_row_pool [of q p e] True by simp
  have m: "omap_get (ensure q r (ensure q l m)) (row_key p e) = Some ?t"
    using True x row old by (auto simp: ensure_get key)
  have step: "tally (pool_text p) e (xs @ [(pool_text q, x)]) (new_row p e) = gain_row x e ?t" using True tally_snoc by simp
  have "omap_get (count_result q x m) (row_key p e) = Some (gain_row x e ?t)"
  proof (cases "l = e"; cases "r = e"; cases "kr_winner x = l")
  qed (use True m in \<open>simp_all add: count_result_def x Let_def on_row_get key gain_row_def add_played_def add_score_def add_win_def add_loss_def
      times_def scored_def winner_side_def loser_side_def\<close>)
  then show ?thesis using True step by simp
next
  case False
  then have key: "row_key p e \<noteq> row_key q (fst (kr_entrants x))" "row_key p e \<noteq> row_key q (snd (kr_entrants x))"
    using row_key_inject [OF assms(1,2)] by auto
  have "tally (pool_text p) e (xs @ [(pool_text q, x)]) r = tally (pool_text p) e xs r" for r
    using False by (intro tally_other) auto
  with False key old show ?thesis
    by (auto simp: count_result_def Let_def on_row_get ensure_get split: prod.split)
qed

definition pools_ok :: "contest_node list \<Rightarrow> bool" where
  "pools_ok ns \<longleftrightarrow> (\<forall>n \<in> set ns. CHR '':'' \<notin> set (pool_text (nd_pool n)))"

lemma count_node_exact:
  assumes "rows_exact results ns m" "CHR '':'' \<notin> set (pool_text (nd_pool n))"
  shows "rows_exact results (ns @ [n]) (count_node results m n)"
  unfolding rows_exact_def
proof (intro allI impI)
  fix p e assume p: "CHR '':'' \<notin> set (pool_text p)"
  let ?m1 = "foldl (\<lambda>m e. ensure (nd_pool n) e m) m (slot_entrants n)"
  let ?was = "listed results ns (pool_text p) e \<or> pool_text p = pool_text (nd_pool n) \<and> e \<in> set (slot_entrants n)"
  have old: "omap_get m (row_key p e) = (if listed results ns (pool_text p) e then Some (tally (pool_text p) e (counted results ns) (new_row p e)) else None)"
    using assms(1) p by (simp add: rows_exact_def)
  have fresh: "tally (pool_text p) e (counted results ns) (new_row p e) = new_row p e" if "\<not> listed results ns (pool_text p) e"
    using unlisted_tally [OF that] tally_Nil by simp
  have m1: "omap_get ?m1 (row_key p e) = (if ?was then Some (tally (pool_text p) e (counted results ns) (new_row p e)) else None)"
    unfolding ensure_slots [OF p assms(2)] old using fresh by auto
  show "omap_get (count_node results m n) (row_key p e)
    = (if listed results (ns @ [n]) (pool_text p) e then Some (tally (pool_text p) e (counted results (ns @ [n])) (new_row p e)) else None)"
  proof (cases "results (nd_id n)")
    case None
    then have "listed results (ns @ [n]) (pool_text p) e \<longleftrightarrow> ?was" by (auto simp: listed_def)
    then show ?thesis using m1 None by (simp add: count_node_def Let_def counted_def)
  next
    case (Some x)
    then have "listed results (ns @ [n]) (pool_text p) e \<longleftrightarrow> ?was \<or> pool_text (nd_pool n) = pool_text p \<and> (e = fst (kr_entrants x) \<or> e = snd (kr_entrants x))"
      by (auto simp: listed_def)
    then show ?thesis
      using count_result_get [OF p assms(2) m1] fresh Some by (simp add: count_node_def Let_def counted_def)
  qed
qed

lemma counted_rows_exact:
  "pools_ok ns \<Longrightarrow> rows_exact results ns (foldl (count_node results) [] ns)"
proof (induction ns rule: rev_induct)
  case Nil
  show ?case by (simp add: rows_exact_def listed_def)
next
  case (snoc n ns)
  then show ?case using count_node_exact by (simp add: pools_ok_def)
qed

lemma ensure_keys: "fst ` set (ensure pool e m) = insert (row_key pool e) (fst ` set m)"
proof (cases "omap_get m (row_key pool e)")
  case (Some r)
  then have "row_key pool e \<in> fst ` set m" by (metis domI dom_map_of_conv_image_fst)
  then show ?thesis using Some by (simp add: ensure_def insert_absorb)
next
  case None
  then have "row_key pool e \<notin> fst ` set m" by (simp add: omap_get_None)
  then show ?thesis by (simp add: ensure_def None omap_set_new)
qed

lemma ensure_wf: "omap_wf m \<Longrightarrow> omap_wf (ensure pool e m)"
  by (simp add: ensure_def omap_wf_set split: option.split)

lemma on_row_keys: "fst ` set (on_row k f m) = fst ` set m"
proof (cases "omap_get m k")
  case (Some r)
  then have "k \<in> fst ` set m" by (metis domI dom_map_of_conv_image_fst)
  then have "set (map fst (omap_set k (f r) m)) = fst ` set m" unfolding omap_keys_set by auto
  then show ?thesis by (simp add: on_row_def Some)
qed (simp add: on_row_def)

lemma on_row_wf: "omap_wf m \<Longrightarrow> omap_wf (on_row k f m)"
  by (simp add: on_row_def omap_wf_set split: option.split)

text \<open>The keys of the rows, and that none is twice there.\<close>

definition keyed :: "contest_node list \<Rightarrow> (string, standing) omap \<Rightarrow> bool" where
  "keyed ns m \<longleftrightarrow> omap_wf m \<and> (\<forall>k \<in> fst ` set m. \<exists>n \<in> set ns. \<exists>e. k = row_key (nd_pool n) e)"

lemma count_result_keys: "fst ` set (count_result pool x m) = insert (row_key pool (fst (kr_entrants x))) (insert (row_key pool (snd (kr_entrants x))) (fst ` set m))"
  by (cases "kr_entrants x"; cases "kr_score x") (simp add: count_result_def Let_def on_row_keys ensure_keys insert_commute)

lemma count_result_wf: "omap_wf m \<Longrightarrow> omap_wf (count_result pool x m)"
  by (cases "kr_entrants x"; cases "kr_score x") (simp add: count_result_def Let_def on_row_wf ensure_wf)

lemma ensure_all_keys: "fst ` set (foldl (\<lambda>m e. ensure pool e m) m es) = row_key pool ` set es \<union> fst ` set m"
  by (induction es arbitrary: m) (auto simp: ensure_keys)

lemma ensure_all_wf: "omap_wf m \<Longrightarrow> omap_wf (foldl (\<lambda>m e. ensure pool e m) m es)"
  by (induction es arbitrary: m) (auto simp: ensure_wf)

lemma count_node_keyed:
  assumes "keyed ns m"
  shows "keyed (ns @ [n]) (count_node results m n)"
proof -
  have "fst ` set (count_node results m n) \<subseteq> range (row_key (nd_pool n)) \<union> fst ` set m"
    by (cases "results (nd_id n)") (simp_all add: count_node_def Let_def count_result_keys ensure_all_keys image_subset_iff)
  moreover have "omap_wf (count_node results m n)"
    using assms by (simp add: keyed_def count_node_def Let_def count_result_wf ensure_all_wf split: option.split)
  moreover have "k \<in> range (row_key (nd_pool n)) \<union> fst ` set m \<Longrightarrow> \<exists>n' \<in> set (ns @ [n]). \<exists>e. k = row_key (nd_pool n') e" for k
    using assms unfolding keyed_def by (auto simp del: split_paired_Ex)
  ultimately show ?thesis unfolding keyed_def by blast
qed

lemma counted_keyed: "keyed ns (foldl (count_node results) [] ns)"
proof (induction ns rule: rev_induct)
  case (snoc n ns)
  then show ?case using count_node_keyed by simp
qed (simp add: keyed_def omap_wf_def)

definition core :: "standing \<Rightarrow> standing" where
  "core r = r\<lparr>tb_rank := 0, tb_resolution := []\<rparr>"

text \<open>The row of an entrant, as it should be.\<close>

definition tallied_row :: "(string \<Rightarrow> contest_result option) \<Rightarrow> contest_node list \<Rightarrow> string \<Rightarrow> string \<Rightarrow> standing" where
  "tallied_row results ns pool e = close_row (tally pool e (counted results ns) (new_row (Some pool) e))"

lemma tallied_fields [simp]:
  "tb_entrant (tallied_row results ns pool e) = e" "pool_text (tb_pool (tallied_row results ns pool e)) = pool"
  by (simp_all add: tallied_row_def close_row_def tally_def new_row_def Let_def pool_text_def)

lemma entry_row:
  assumes "pools_ok ns" "(k, r) \<in> set (foldl (count_node results) [] ns)"
  shows "\<exists>n \<in> set ns. \<exists>e. k = row_key (nd_pool n) e \<and> listed results ns (pool_text (nd_pool n)) e
    \<and> close_row r = tallied_row results ns (pool_text (nd_pool n)) e"
proof -
  let ?m = "foldl (count_node results) [] ns"
  obtain n e where n: "n \<in> set ns" "k = row_key (nd_pool n) e" using assms(2) counted_keyed [of ns results] by (force simp: keyed_def)
  have "omap_get ?m k = Some r" using omap_wf_in_set [OF _ assms(2)] counted_keyed [of ns results] by (simp add: keyed_def)
  moreover have "CHR '':'' \<notin> set (pool_text (nd_pool n))" using assms(1) n(1) by (simp add: pools_ok_def)
  ultimately have "listed results ns (pool_text (nd_pool n)) e" "r = tally (pool_text (nd_pool n)) e (counted results ns) (new_row (nd_pool n) e)"
    using counted_rows_exact [OF assms(1), of results] n(2) by (simp_all add: rows_exact_def split: if_splits)
  moreover have "new_row (nd_pool n) e = new_row (Some (pool_text (nd_pool n))) e" by (rule new_row_pool) (simp add: pool_text_def)
  ultimately show ?thesis using n by (auto simp: tallied_row_def)
qed

lemma count_rows_exact:
  assumes "pools_ok ns"
  shows "r \<in> set (count_rows ns rs) \<longleftrightarrow> (\<exists>pool e. listed (result_map rs) ns pool e \<and> r = tallied_row (result_map rs) ns pool e)"
proof
  assume "r \<in> set (count_rows ns rs)"
  then obtain k r' where "(k, r') \<in> set (foldl (count_node (result_map rs)) [] ns)" "r = close_row r'" by (auto simp: count_rows_def)
  then show "\<exists>pool e. listed (result_map rs) ns pool e \<and> r = tallied_row (result_map rs) ns pool e"
    using entry_row [OF assms] by metis
next
  assume "\<exists>pool e. listed (result_map rs) ns pool e \<and> r = tallied_row (result_map rs) ns pool e"
  then obtain n e where n: "n \<in> set ns" "listed (result_map rs) ns (pool_text (nd_pool n)) e" "r = tallied_row (result_map rs) ns (pool_text (nd_pool n)) e"
    by (auto simp: listed_def)
  have "CHR '':'' \<notin> set (pool_text (nd_pool n))" using assms n(1) by (simp add: pools_ok_def)
  then have "omap_get (foldl (count_node (result_map rs)) [] ns) (row_key (nd_pool n) e)
      = Some (tally (pool_text (nd_pool n)) e (counted (result_map rs) ns) (new_row (nd_pool n) e))"
    using counted_rows_exact [OF assms, of "result_map rs"] n(2) by (simp add: rows_exact_def)
  moreover have "new_row (nd_pool n) e = new_row (Some (pool_text (nd_pool n))) e" by (rule new_row_pool) (simp add: pool_text_def)
  ultimately show "r \<in> set (count_rows ns rs)"
    using n(3) unfolding count_rows_def tallied_row_def by (force dest: map_of_SomeD)
qed

lemma count_rows_distinct:
  assumes "pools_ok ns"
  shows "distinct (map (\<lambda>r. (pool_text (tb_pool r), tb_entrant r)) (count_rows ns rs))"
proof -
  let ?m = "foldl (count_node (result_map rs)) [] ns" and ?id = "\<lambda>r. (pool_text (tb_pool r), tb_entrant r)"
  have "row_key (Some (fst (?id (close_row r)))) (snd (?id (close_row r))) = k" if "(k, r) \<in> set ?m" for k r
    using entry_row [OF assms that] by (auto simp: row_key_def)
  then have "map (\<lambda>i. row_key (Some (fst i)) (snd i)) (map ?id (count_rows ns rs)) = map fst ?m"
    by (auto simp: count_rows_def)
  moreover have "distinct (map fst ?m)" using counted_keyed by (auto simp: keyed_def omap_wf_def)
  ultimately have "distinct (map (\<lambda>i. row_key (Some (fst i)) (snd i)) (map ?id (count_rows ns rs)))" by simp
  then show ?thesis by (rule distinct_map [THEN iffD1, THEN conjunct1])
qed

section \<open>Ties\<close>

lemma core_marks [simp]: "core (mark why r) = core r" "core (r\<lparr>tb_resolution := xs\<rparr>) = core r" "core (r\<lparr>tb_rank := n\<rparr>) = core r"
  by (simp_all add: core_def mark_def)

lemma core_ranked: "map core (ranked rows) = map core rows"
proof -
  have "map core (map (\<lambda>(i, r). r\<lparr>tb_rank := i + 1\<rparr>) (enumerate n rows)) = map core rows" for n
    by (induction rows arbitrary: n) simp_all
  then show ?thesis by (simp add: ranked_def)
qed

lemma ranked_ranks: "map tb_rank (ranked rows) = [1..<length rows + 1]"
proof -
  have "map tb_rank (map (\<lambda>(i, r). r\<lparr>tb_rank := i + 1\<rparr>) (enumerate n rows)) = [n + 1..<n + length rows + 1]" for n
  proof (induction rows arbitrary: n)
    case (Cons r rows)
    have "[n + 1..<n + length (r # rows) + 1] = (n + 1) # [Suc n + 1..<Suc n + length rows + 1]" by (simp add: upt_conv_Cons del: upt_Suc)
    then show ?case using Cons [of "Suc n"] by (simp del: upt_Suc)
  qed simp
  from this [of 0] show ?thesis by (simp add: ranked_def)
qed

lemma core_after_mark [simp]: "core \<circ> mark why = core"
  by (rule ext) simp

lemma break_tie_mset: "mset (map core (fst (break_tie P p opts pool rows))) = mset (map core rows)"
  by (cases "sy_fallback p"; cases "seed_of opts"; cases "decision_for opts pool rows") (simp_all add: break_tie_def Let_def multiset.map_comp)

lemma rate_rows_shape:
  assumes "rate_rows P results name rows = Inr xs"
  shows "map (\<lambda>x. core (snd (snd x))) xs = map core rows" and "length xs = length rows"
    and "x \<in> set xs \<Longrightarrow> fst x = bucket_key P (fst (snd x))"
    and "name \<noteq> ''head_to_head'' \<Longrightarrow> x \<in> set xs \<Longrightarrow> \<exists>v. standing_metric (snd (snd x)) name = Inr v \<and> fst (snd x) = [v]"
proof -
  have metric_same: "standing_metric (r\<lparr>tb_resolution := y\<rparr>) name = standing_metric r name" for r y by (simp add: standing_metric_def)
  from assms have all2: "list_all2 (\<lambda>r x. \<exists>vs. criterion_values results rows name r = Inr vs
      \<and> x = (bucket_key P vs, vs, r\<lparr>tb_resolution := tb_resolution r @ [name @ ''='' @ bucket_key P vs]\<rparr>)) rows xs"
    unfolding rate_rows_def map_result_Inr_iff by (rule list_all2_mono) (auto simp: bind_result_Inr_iff)
  show "length xs = length rows" using all2 by (simp add: list_all2_lengthD)
  show "map (\<lambda>x. core (snd (snd x))) xs = map core rows"
    using all2 by (induction rule: list_all2_induct) auto
  show "x \<in> set xs \<Longrightarrow> fst x = bucket_key P (fst (snd x))" using list_all2_witness [OF all2] by fastforce
  show "name \<noteq> ''head_to_head'' \<Longrightarrow> x \<in> set xs \<Longrightarrow> \<exists>v. standing_metric (snd (snd x)) name = Inr v \<and> fst (snd x) = [v]"
    using list_all2_witness [OF all2, of x] by (auto simp: criterion_values_def bind_result_Inr_iff metric_same)
qed

text \<open>Splitting a group by a criterion, resolving the buckets and joining them.\<close>

lemma resolve_step:
  assumes "resolve_ties P p results opts pool (c # cs) rows = Inr out" "1 < length rows"
  obtains rated xs where "rate_rows P results (fst c) rows = Inr rated"
    "list_all2 (\<lambda>b x. resolve_ties P p results opts pool cs (map (\<lambda>x. snd (snd x)) (snd b)) = Inr x) (sort_by (bucket_order P (snd c)) (group_by fst rated)) xs"
    "out = (concat (map fst xs), concat (map snd xs))"
  using assms by (auto simp: bind_result_Inr_iff map_result_Inr_iff)

lemma mset_concat_all2:
  "list_all2 (\<lambda>b x. mset (map f (fst x)) = mset (map g (h b))) bs xs \<Longrightarrow> mset (map f (concat (map fst xs))) = mset (map g (concat (map h bs)))"
  by (induction rule: list_all2_induct) simp_all

lemma mset_concat_perm: "mset bs = mset cs \<Longrightarrow> mset (map g (concat (map h bs))) = mset (map g (concat (map h cs)))"
proof -
  have "mset (map g (concat (map h bs))) = (\<Sum>b \<in># mset bs. mset (map g (h b)))" for bs by (induction bs) simp_all
  then show "mset bs = mset cs \<Longrightarrow> ?thesis" by simp
qed

lemma concat_map_map: "concat (map (\<lambda>b. map h (snd b)) ys) = map h (concat (map snd ys))"
  by (induction ys) simp_all

lemma group_by_all: "mset (map g (concat (map (\<lambda>b. map h (snd b)) (group_by f xs)))) = mset (map (\<lambda>x. g (h x)) xs)"
proof -
  have "mset (map (\<lambda>x. g (h x)) (concat (map snd (group_by f xs)))) = image_mset (\<lambda>x. g (h x)) (mset xs)"
    using group_by_mset [of f xs] by (simp only: mset_map)
  then show ?thesis unfolding concat_map_map map_map comp_def by simp
qed

lemma resolve_mset:
  "resolve_ties P p results opts pool cs rows = Inr out \<Longrightarrow> mset (map core (fst out)) = mset (map core rows)"
proof (induction cs arbitrary: rows out)
  case Nil
  then show ?case using break_tie_mset by (auto split: if_splits)
next
  case (Cons c cs)
  show ?case
  proof (cases "length rows \<le> 1")
    case True
    then show ?thesis using Cons.prems by auto
  next
    case False
    then obtain rated xs where r: "rate_rows P results (fst c) rows = Inr rated"
        "list_all2 (\<lambda>b x. resolve_ties P p results opts pool cs (map (\<lambda>x. snd (snd x)) (snd b)) = Inr x) (sort_by (bucket_order P (snd c)) (group_by fst rated)) xs"
        "out = (concat (map fst xs), concat (map snd xs))"
      using resolve_step [OF Cons.prems] by auto
    have "list_all2 (\<lambda>b x. mset (map core (fst x)) = mset (map core (map (\<lambda>x. snd (snd x)) (snd b)))) (sort_by (bucket_order P (snd c)) (group_by fst rated)) xs"
      using r(2) by (rule list_all2_mono) (rule Cons.IH)
    from mset_concat_all2 [OF this] have "mset (map core (fst out)) = mset (map core (concat (map (\<lambda>b. map (\<lambda>x. snd (snd x)) (snd b)) (sort_by (bucket_order P (snd c)) (group_by fst rated)))))"
      using r(3) by simp
    also have "\<dots> = mset (map core (concat (map (\<lambda>b. map (\<lambda>x. snd (snd x)) (snd b)) (group_by fst rated))))"
      by (rule mset_concat_perm) simp
    also have "\<dots> = mset (map (\<lambda>x. core (snd (snd x))) rated)" by (rule group_by_all)
    finally show ?thesis using rate_rows_shape(1) [OF r(1)] by simp
  qed
qed

section \<open>The order of the table\<close>

definition signed_metric :: "metric_criterion \<Rightarrow> standing \<Rightarrow> rat" where
  "signed_metric c r = (case standing_metric r (fst c) of Inl e \<Rightarrow> 0 | Inr v \<Rightarrow> if snd c = Ascending then v else - v)"

definition criteria_vector :: "metric_criterion list \<Rightarrow> standing \<Rightarrow> rat list" where
  "criteria_vector cs r = map (\<lambda>c. signed_metric c r) (takeWhile (\<lambda>c. fst c \<noteq> ''head_to_head'') cs)"

lemma signed_metric_core: "core r = core r' \<Longrightarrow> signed_metric c r = signed_metric c r'"
proof -
  have "standing_metric (core x) name = standing_metric x name" for x name by (simp add: standing_metric_def core_def)
  then show "core r = core r' \<Longrightarrow> ?thesis" by (metis signed_metric_def)
qed

lemma criteria_vector_core: "core r = core r' \<Longrightarrow> criteria_vector cs r = criteria_vector cs r'"
  by (simp add: criteria_vector_def cong: signed_metric_core)

lemma insert_by_cong: "(\<And>y. y \<in> set ys \<Longrightarrow> cmp x y \<le> 0 \<longleftrightarrow> cmp' x y \<le> 0) \<Longrightarrow> insert_by cmp x ys = insert_by cmp' x ys"
  by (induction ys) auto

lemma sort_by_cong:
  assumes "distinct xs" "\<And>a b. a \<in> set xs \<Longrightarrow> b \<in> set xs \<Longrightarrow> a \<noteq> b \<Longrightarrow> cmp a b \<le> 0 \<longleftrightarrow> cmp' a b \<le> 0"
  shows "sort_by cmp xs = sort_by cmp' xs"
  using assms
proof (induction xs)
  case (Cons x xs)
  then have "sort_by cmp xs = sort_by cmp' xs" by simp
  moreover have "insert_by cmp x (sort_by cmp' xs) = insert_by cmp' x (sort_by cmp' xs)"
    by (rule insert_by_cong) (use Cons.prems in auto)
  ultimately show ?case by simp
qed simp

text \<open>The buckets of a metric hold one value each, different in different buckets.\<close>

lemma metric_buckets:
  assumes "number_text_ok P" "rate_rows P results (fst c) rows = Inr rated" "fst c \<noteq> ''head_to_head''" "b \<in> set (group_by fst rated)"
  shows "\<exists>v. bucket_values b = [v] \<and> fst b = number_text P v \<and> (\<forall>x \<in> set (snd b). standing_metric (snd (snd x)) (fst c) = Inr v)"
proof -
  have b: "snd b = filter (\<lambda>x. fst x = fst b) rated" "snd b \<noteq> []" using group_by_entries assms(4) by (metis prod.collapse)+
  have val: "\<exists>v. standing_metric (snd (snd x)) (fst c) = Inr v \<and> fst (snd x) = [v] \<and> fst b = number_text P v" if "x \<in> set (snd b)" for x
  proof -
    have x: "x \<in> set rated" "fst x = fst b" using that b(1) by auto
    have "\<exists>v. standing_metric (snd (snd x)) (fst c) = Inr v \<and> fst (snd x) = [v]" using rate_rows_shape(4) [OF assms(2,3) x(1)] .
    then show ?thesis using rate_rows_shape(3) [OF assms(2) x(1)] x(2) by (auto simp: bucket_key_def)
  qed
  from val [OF last_in_set [OF b(2)]] obtain v where v: "fst (snd (last (snd b))) = [v]" "fst b = number_text P v" by blast
  have "standing_metric (snd (snd x)) (fst c) = Inr v" if "x \<in> set (snd b)" for x
    using val [OF that] v(2) assms(1) by (auto simp: number_text_ok_def inj_def)
  then show ?thesis using v by (auto simp: bucket_values_def)
qed

lemma sorted_distinct: "sorted_wrt R xs \<Longrightarrow> distinct xs \<Longrightarrow> sorted_wrt (\<lambda>a b. R a b \<and> a \<noteq> b) xs"
  by (induction xs) auto

definition bucket_rank :: "direction \<Rightarrow> string \<times> rated list \<Rightarrow> rat" where
  "bucket_rank d b = (if d = Ascending then hd (bucket_values b) else - hd (bucket_values b))"

lemma buckets_in_order:
  assumes "number_text_ok P" "rate_rows P results (fst c) rows = Inr rated" "fst c \<noteq> ''head_to_head''"
  shows "sorted_wrt (\<lambda>a b. bucket_rank (snd c) a < bucket_rank (snd c) b) (sort_by (bucket_order P (snd c)) (group_by fst rated))"
proof -
  let ?m = "group_by fst rated" and ?cmp = "\<lambda>a b. num_cmp (bucket_rank (snd c) a) (bucket_rank (snd c) b)"
  have keys: "distinct (map fst ?m)" using group_by_wf by (simp add: omap_wf_def)
  then have distinct: "distinct ?m" by (simp add: distinct_map)
  have single: "bucket_values a \<noteq> bucket_values b" "\<exists>v. bucket_values a = [v]" if "a \<in> set ?m" "b \<in> set ?m" "a \<noteq> b" for a b
  proof -
    from metric_buckets [OF assms that(1)] obtain v where v: "bucket_values a = [v]" "fst a = number_text P v" by blast
    from metric_buckets [OF assms that(2)] obtain w where w: "bucket_values b = [w]" "fst b = number_text P w" by blast
    have "fst a \<noteq> fst b" using keys that by (auto simp: distinct_map inj_on_def)
    then show "bucket_values a \<noteq> bucket_values b" "\<exists>v. bucket_values a = [v]" using v w by auto
  qed
  have agree: "bucket_order P (snd c) a b \<le> 0 \<longleftrightarrow> ?cmp a b \<le> 0" and differ: "bucket_rank (snd c) a \<noteq> bucket_rank (snd c) b"
    if "a \<in> set ?m" "b \<in> set ?m" "a \<noteq> b" for a b
  proof -
    from single [OF that] single(2) [OF that(2,1)] that(3)
    have both: "bucket_values a \<noteq> bucket_values b" "\<exists>v. bucket_values a = [v]" "\<exists>v. bucket_values b = [v]" by blast+
    obtain v w where v: "bucket_values a = [v]" "bucket_values b = [w]" "v \<noteq> w"
      using both by auto
    then show "bucket_order P (snd c) a b \<le> 0 \<longleftrightarrow> ?cmp a b \<le> 0" by (simp add: bucket_order_def bucket_rank_def Let_def)
    show "bucket_rank (snd c) a \<noteq> bucket_rank (snd c) b" using v by (simp add: bucket_rank_def)
  qed
  have same: "sort_by (bucket_order P (snd c)) ?m = sort_by ?cmp ?m" by (rule sort_by_cong [OF distinct agree])
  have "sorted_wrt (\<lambda>a b. ?cmp a b \<le> 0) (sort_by ?cmp ?m)" by (rule comparator.sorted_sort_by [OF comparator_num_key])
  moreover have "distinct (sort_by ?cmp ?m)" using distinct by simp
  ultimately have "sorted_wrt (\<lambda>a b. ?cmp a b \<le> 0 \<and> a \<noteq> b) (sort_by ?cmp ?m)"
    by (rule sorted_distinct)
  then have "sorted_wrt (\<lambda>a b. bucket_rank (snd c) a < bucket_rank (snd c) b) (sort_by ?cmp ?m)"
    by (rule sorted_wrt_mono_rel [rotated]) (use differ in \<open>force simp: less_le\<close>)
  then show ?thesis unfolding same .
qed

lemma sorted_concat:
  assumes "sorted_wrt (\<lambda>a b. g a < g b) bs" "list_all2 (\<lambda>b x. sorted_wrt R (fst x) \<and> (\<forall>r \<in> set (fst x). f r = g b)) bs xs"
    "\<And>r r'. f r < (f r' :: rat) \<Longrightarrow> R r r'"
  shows "sorted_wrt R (concat (map fst xs)) \<and> (\<forall>r \<in> set (concat (map fst xs)). \<exists>b \<in> set bs. f r = g b)"
  using assms(2,1)
proof (induction rule: list_all2_induct)
  case (Cons b bs x xs)
  then show ?case using assms(3) by (auto simp: sorted_wrt_append) fastforce
qed simp

lemma resolve_sorted:
  assumes "number_text_ok P"
  shows "resolve_ties P p results opts pool cs rows = Inr out \<Longrightarrow> sorted_wrt (\<lambda>a b. criteria_vector cs a \<le> criteria_vector cs b) (fst out)"
proof (induction cs arbitrary: rows out)
  case Nil
  then show ?case by (simp add: criteria_vector_def sorted_wrt_iff_nth_less)
next
  case (Cons c cs)
  show ?case
  proof (cases "length rows \<le> 1 \<or> fst c = ''head_to_head''")
    case True
    then show ?thesis
    proof
      assume "length rows \<le> 1"
      then show ?thesis using Cons.prems by (auto simp: sorted_wrt_iff_nth_less)
    qed (simp add: criteria_vector_def sorted_wrt_iff_nth_less)
  next
    case False
    then obtain rated xs where r: "rate_rows P results (fst c) rows = Inr rated"
        "list_all2 (\<lambda>b x. resolve_ties P p results opts pool cs (map (\<lambda>x. snd (snd x)) (snd b)) = Inr x) (sort_by (bucket_order P (snd c)) (group_by fst rated)) xs"
        "out = (concat (map fst xs), concat (map snd xs))"
      using resolve_step [OF Cons.prems] by auto
    let ?R = "\<lambda>a b. criteria_vector (c # cs) a \<le> criteria_vector (c # cs) b"
    have vector: "criteria_vector (c # cs) x = signed_metric c x # criteria_vector cs x" for x using False by (simp add: criteria_vector_def)
    have part: "sorted_wrt ?R (fst x) \<and> (\<forall>y \<in> set (fst x). signed_metric c y = bucket_rank (snd c) b)"
      if b: "b \<in> set (group_by fst rated)" and x: "resolve_ties P p results opts pool cs (map (\<lambda>x. snd (snd x)) (snd b)) = Inr x" for b x
    proof -
      obtain v where v: "bucket_values b = [v]" "\<forall>y \<in> set (snd b). standing_metric (snd (snd y)) (fst c) = Inr v"
        using metric_buckets [OF assms r(1) _ b] False by blast
      have val: "signed_metric c y = bucket_rank (snd c) b" if "y \<in> set (fst x)" for y
      proof -
        have "core y \<in> core ` set (map (\<lambda>x. snd (snd x)) (snd b))"
          using resolve_mset [OF x] that by (metis imageI set_map set_mset_mset)
        then obtain z where "z \<in> set (snd b)" "core y = core (snd (snd z))" by auto
        then have "signed_metric c y = signed_metric c (snd (snd z))" "standing_metric (snd (snd z)) (fst c) = Inr v"
          using signed_metric_core v(2) by blast+
        then show ?thesis using v(1) by (simp add: signed_metric_def bucket_rank_def)
      qed
      have "sorted_wrt ?R (fst x)"
        using Cons.IH [OF x] by (rule sorted_wrt_mono_rel [rotated]) (simp add: vector val)
      with val show ?thesis by blast
    qed
    have "list_all2 (\<lambda>b x. sorted_wrt ?R (fst x) \<and> (\<forall>y \<in> set (fst x). signed_metric c y = bucket_rank (snd c) b)) (sort_by (bucket_order P (snd c)) (group_by fst rated)) xs"
      using r(2) by (rule list.rel_mono_strong) (use part in auto)
    from sorted_concat [OF buckets_in_order [OF assms r(1)] this] show ?thesis
      using False r(3) by (simp add: vector)
  qed
qed

section \<open>The calculation returns\<close>

lemma registered_metric: "name \<in> set registered_metrics \<Longrightarrow> name \<noteq> ''head_to_head'' \<Longrightarrow> \<exists>v. standing_metric r name = Inr v"
  by (auto simp: registered_metrics_def standing_metric_def)

lemma add_values_has: "omap_get m i \<noteq> None \<Longrightarrow> omap_get (add_values e v m) i \<noteq> None"
  by (auto simp: add_values_def split: option.split)

lemma count_mini_has: "omap_get m i \<noteq> None \<Longrightarrow> omap_get (count_mini x m) i \<noteq> None"
  by (cases "kr_entrants x"; cases "kr_score x") (simp add: count_mini_def Let_def add_values_has del: not_None_eq)

lemma minis_has: "omap_get m i \<noteq> None \<Longrightarrow> omap_get (foldl (\<lambda>m x. count_mini x m) m xs) i \<noteq> None"
  by (induction xs arbitrary: m) (simp_all add: count_mini_has del: not_None_eq)

lemma zeros_get: "omap_get m i \<noteq> None \<or> i \<in> set es \<Longrightarrow> omap_get (foldl (\<lambda>m e. omap_set e (0, 0, 0) m) m es) i \<noteq> None"
  by (induction es arbitrary: m) auto

lemma mini_table_has: "r \<in> set rows \<Longrightarrow> \<exists>v. omap_get (mini_table results rows) (tb_entrant r) = Some v"
proof -
  assume "r \<in> set rows"
  then have "omap_get (foldl (\<lambda>m e. omap_set e (0, 0, 0) m) [] (map tb_entrant rows)) (tb_entrant r) \<noteq> None"
    by (intro zeros_get) simp
  from minis_has [OF this] show ?thesis by (simp add: mini_table_def Let_def)
qed

lemma map_result_total: "(\<And>x. x \<in> set xs \<Longrightarrow> \<exists>y. f x = Inr y) \<Longrightarrow> \<exists>ys. map_result f xs = Inr ys"
proof (induction xs)
  case (Cons x xs)
  then obtain y ys where "f x = Inr y" "map_result f xs = Inr ys" by (metis list.set_intros)
  then show ?case by simp
qed simp

lemma rate_rows_total:
  assumes "name \<in> set registered_metrics"
  shows "\<exists>xs. rate_rows P results name rows = Inr xs"
  unfolding rate_rows_def
proof (rule map_result_total)
  fix r assume r: "r \<in> set rows"
  have "\<exists>vs. criterion_values results rows name r = Inr vs"
    using registered_metric [OF assms, of r] mini_table_has [OF r, of results] by (auto simp: criterion_values_def)
  then show "\<exists>y. bind_result (criterion_values results rows name r)
      (\<lambda>vs. Inr (bucket_key P vs, vs, r\<lparr>tb_resolution := tb_resolution r @ [name @ ''='' @ bucket_key P vs]\<rparr>)) = Inr y" by auto
qed

lemma resolve_total:
  "fst ` set cs \<subseteq> set registered_metrics \<Longrightarrow> \<exists>out. resolve_ties P p results opts pool cs rows = Inr out"
proof (induction cs arbitrary: rows)
  case (Cons c cs)
  obtain rated where rated: "rate_rows P results (fst c) rows = Inr rated" using rate_rows_total Cons.prems by force
  have "\<exists>xs. map_result (\<lambda>b. resolve_ties P p results opts pool cs (map (\<lambda>x. snd (snd x)) (snd b))) (sort_by (bucket_order P (snd c)) (group_by fst rated)) = Inr xs"
    using Cons by (intro map_result_total) simp
  then show ?case using rated by auto
qed simp

lemma supported_metrics: "unsupported_metric p = None \<Longrightarrow> fst ` set (sy_metrics p) \<subseteq> set registered_metrics"
proof -
  assume "unsupported_metric p = None"
  then have "length (takeWhile (\<lambda>c. List.member registered_metrics (fst c)) (sy_metrics p)) = length (sy_metrics p)"
    using length_takeWhile_le [of "\<lambda>c. List.member registered_metrics (fst c)" "sy_metrics p"]
    by (simp add: unsupported_metric_def Let_def split: if_splits)
  then have "takeWhile (\<lambda>c. List.member registered_metrics (fst c)) (sy_metrics p) = sy_metrics p"
    by (metis takeWhile_eq_take take_all_iff order_refl)
  then show ?thesis by (auto simp: takeWhile_eq_all_conv)
qed

section \<open>The table\<close>

definition relevant_nodes :: "standings_policy \<Rightarrow> contest_node list \<Rightarrow> contest_node list" where
  "relevant_nodes p nodes = filter (\<lambda>n. List.member (sy_stages p) (nd_stage n)) nodes"

lemma calculate_cases:
  assumes "unsupported_metric p = None"
  obtains xs where "list_all2 (\<lambda>b x. resolve_ties P p rs opts (fst b) (sy_metrics p) (snd b) = Inr x) (group_by pool_name (count_rows (relevant_nodes p nodes) rs)) xs"
    "calculate_standings P nodes rs p opts = Inr (concat (map (\<lambda>x. ranked (fst x)) xs),
       concat (map snd xs) @ missing_findings (relevant_nodes p nodes) (result_map rs))"
proof -
  let ?m = "group_by pool_name (count_rows (relevant_nodes p nodes) rs)"
  have "\<exists>xs. map_result (\<lambda>(pool, rows). resolve_ties P p rs opts pool (sy_metrics p) rows) ?m = Inr xs"
    using resolve_total [OF supported_metrics [OF assms]] by (intro map_result_total) (simp add: split_def)
  then obtain xs where xs: "map_result (\<lambda>(pool, rows). resolve_ties P p rs opts pool (sy_metrics p) rows) ?m = Inr xs" by blast
  show ?thesis
  proof (rule that)
    show "list_all2 (\<lambda>b x. resolve_ties P p rs opts (fst b) (sy_metrics p) (snd b) = Inr x) ?m xs"
      using xs by (simp add: map_result_Inr_iff split_def)
    show "calculate_standings P nodes rs p opts = Inr (concat (map (\<lambda>x. ranked (fst x)) xs),
       concat (map snd xs) @ missing_findings (relevant_nodes p nodes) (result_map rs))"
      using xs by (simp add: calculate_standings_def assms Let_def relevant_nodes_def)
  qed
qed

lemma table_mset:
  assumes "list_all2 (\<lambda>b x. resolve_ties P p rs opts (fst b) cs (snd b) = Inr x) (group_by f rows) xs"
  shows "mset (map core (concat (map (\<lambda>x. ranked (fst x)) xs))) = mset (map core rows)"
proof -
  have ranks: "map core (concat (map (\<lambda>x. ranked (fst x)) xs)) = map core (concat (map fst xs))"
    by (simp add: map_concat comp_def core_ranked)
  have "list_all2 (\<lambda>b x. mset (map core (fst x)) = mset (map core (snd b))) (group_by f rows) xs"
    using assms by (rule list_all2_mono) (rule resolve_mset)
  from mset_concat_all2 [OF this] have "mset (map core (concat (map fst xs))) = mset (map core (concat (map snd (group_by f rows))))" .
  also have "\<dots> = mset (map core rows)" using group_by_mset [of f rows] by (simp only: mset_map)
  finally show ?thesis unfolding ranks .
qed

lemma core_fields: "core r = core r' \<Longrightarrow> tb_pool r = tb_pool r' \<and> tb_entrant r = tb_entrant r'"
proof -
  have "tb_pool (core x) = tb_pool x \<and> tb_entrant (core x) = tb_entrant x" for x by (simp add: core_def)
  then show "core r = core r' \<Longrightarrow> ?thesis" by metis
qed

lemma core_tallied [simp]: "core (tallied_row results ns pool e) = tallied_row results ns pool e"
  by (simp add: tallied_row_def close_row_def tally_def new_row_def core_def Let_def)

text \<open>The rows of a pool are one block of the table.\<close>

lemma pool_block:
  assumes "list_all2 (\<lambda>b x. resolve_ties P p rs opts (fst b) cs (snd b) = Inr x) m xs" "distinct (map fst m)"
    "\<And>b r. b \<in> set m \<Longrightarrow> r \<in> set (snd b) \<Longrightarrow> pool_name r = fst b"
  shows "filter (\<lambda>r. pool_name r = pool) (concat (map (\<lambda>x. ranked (fst x)) xs)) = []
    \<or> (\<exists>b x. resolve_ties P p rs opts (fst b) cs (snd b) = Inr x \<and> filter (\<lambda>r. pool_name r = pool) (concat (map (\<lambda>x. ranked (fst x)) xs)) = ranked (fst x))"
  using assms
proof (induction rule: list_all2_induct)
  case (Cons b m x xs)
  have names: "pool_name r = fst b'" if res: "resolve_ties P p rs opts (fst b') cs (snd b') = Inr y" and b': "b' \<in> set (b # m)" and r: "r \<in> set (ranked (fst y))" for b' y r
  proof -
    have "set (map core (ranked (fst y))) = set (map core (snd b'))" using resolve_mset [OF res] unfolding core_ranked by (metis set_mset_mset)
    then obtain r' where "r' \<in> set (snd b')" "core r = core r'" using r by auto
    then show ?thesis using Cons.prems(2) [OF b'] core_fields by (metis pool_name_def)
  qed
  let ?rest = "filter (\<lambda>r. pool_name r = pool) (concat (map (\<lambda>x. ranked (fst x)) xs))"
  show ?case
  proof (cases "fst b = pool")
    case True
    have "pool_name r \<noteq> pool" if r: "r \<in> set (concat (map (\<lambda>x. ranked (fst x)) xs))" for r
    proof -
      obtain y where y: "y \<in> set xs" "r \<in> set (ranked (fst y))" using r by auto
      then obtain b' where "b' \<in> set m" "resolve_ties P p rs opts (fst b') cs (snd b') = Inr y" using list_all2_witness [OF Cons.hyps(2)] by blast
      then have "pool_name r = fst b'" "fst b' \<in> fst ` set m" using names [of b' y] y(2) by auto
      moreover have "fst b \<notin> fst ` set m" using Cons.prems(1) by simp
      ultimately show ?thesis using True by metis
    qed
    then have rest: "?rest = []" by (simp add: filter_empty_conv)
    have "filter (\<lambda>r. pool_name r = pool) (ranked (fst x)) = ranked (fst x)" using names [OF Cons.hyps(1)] True by (simp add: filter_id_conv)
    then show ?thesis using rest Cons.hyps(1) by (intro disjI2 exI [of _ b] exI [of _ x]) simp
  next
    case False
    have "filter (\<lambda>r. pool_name r = pool) (ranked (fst x)) = []" using names [OF Cons.hyps(1)] False by (simp add: filter_empty_conv)
    then show ?thesis using Cons by auto
  qed
qed simp

lemma ranked_sorted: "sorted_wrt (\<lambda>a b. criteria_vector cs a \<le> criteria_vector cs b) rows \<Longrightarrow> sorted_wrt (\<lambda>a b. criteria_vector cs a \<le> criteria_vector cs b) (ranked rows)"
proof -
  have "core (core r) = core r" for r by (simp add: core_def)
  then have through: "map (criteria_vector cs) zs = map (criteria_vector cs) (map core zs)" for zs by (simp add: criteria_vector_core [of "core _"])
  have "map (criteria_vector cs) (ranked rows) = map (criteria_vector cs) rows"
    using through [of "ranked rows"] through [of rows] core_ranked [of rows] by simp
  then show "sorted_wrt (\<lambda>a b. criteria_vector cs a \<le> criteria_vector cs b) rows \<Longrightarrow> ?thesis"
    by (metis sorted_wrt_map)
qed

section \<open>Properties\<close>

text \<open>
  C15. The table is exact and its calculation never throws: for a policy whose metrics are registered and pools without a colon in their names,
  there is exactly one row for every entrant that a slot or a result of a relevant node names (per pool), and, rank and
  resolution aside, it holds the sums over the last result of each node of its pool: games, wins, losses, scores for and against,
  their difference and the share of games won.
\<close>

theorem standings_exact:
  assumes "unsupported_metric p = None" "pools_ok (relevant_nodes p nodes)"
  shows "\<exists>rows fs. calculate_standings P nodes rs p opts = Inr (rows, fs)
    \<and> distinct (map (\<lambda>r. (pool_text (tb_pool r), tb_entrant r)) rows)
    \<and> core ` set rows = {r. \<exists>pool e. listed (result_map rs) (relevant_nodes p nodes) pool e
        \<and> r = tallied_row (result_map rs) (relevant_nodes p nodes) pool e}"
proof -
  let ?rows = "count_rows (relevant_nodes p nodes) rs" and ?id = "\<lambda>r. (pool_text (tb_pool r), tb_entrant r)"
  obtain xs where xs: "list_all2 (\<lambda>b x. resolve_ties P p rs opts (fst b) (sy_metrics p) (snd b) = Inr x) (group_by pool_name ?rows) xs"
    and out: "calculate_standings P nodes rs p opts = Inr (concat (map (\<lambda>x. ranked (fst x)) xs),
       concat (map snd xs) @ missing_findings (relevant_nodes p nodes) (result_map rs))"
    using calculate_cases [OF assms(1)] .
  let ?out = "concat (map (\<lambda>x. ranked (fst x)) xs)"
  have mset: "mset (map core ?out) = mset (map core ?rows)" by (rule table_mset [OF xs])
  have ids: "map ?id zs = map ?id (map core zs)" for zs by (simp add: core_def)
  have "mset (map ?id ?out) = image_mset ?id (mset (map core ?out))" by (subst ids) (rule mset_map)
  also have "\<dots> = mset (map ?id ?rows)" unfolding mset by (subst ids [of ?rows]) (rule mset_map [symmetric])
  finally have "mset (map ?id ?out) = mset (map ?id ?rows)" .
  then have distinct: "distinct (map ?id ?out)" using count_rows_distinct [OF assms(2), of rs] mset_eq_imp_distinct_iff by blast
  have "core ` set ?out = core ` set ?rows" using mset by (metis set_map set_mset_mset)
  also have "core ` set ?rows = {r. \<exists>pool e. listed (result_map rs) (relevant_nodes p nodes) pool e
        \<and> r = tallied_row (result_map rs) (relevant_nodes p nodes) pool e}"
  proof -
    have "core r = r" if "r \<in> set ?rows" for r using that count_rows_exact [OF assms(2)] core_tallied by metis
    then have "core ` set ?rows = (\<lambda>r. r) ` set ?rows" by (rule image_cong [OF refl])
    also have "\<dots> = set ?rows" by (rule image_ident)
    also have "\<dots> = {r. \<exists>pool e. listed (result_map rs) (relevant_nodes p nodes) pool e \<and> r = tallied_row (result_map rs) (relevant_nodes p nodes) pool e}"
      by (rule set_eqI) (simp only: count_rows_exact [OF assms(2)] mem_Collect_eq)
    finally show ?thesis .
  qed
  finally have rows: "core ` set ?out = {r. \<exists>pool e. listed (result_map rs) (relevant_nodes p nodes) pool e
        \<and> r = tallied_row (result_map rs) (relevant_nodes p nodes) pool e}" .
  show ?thesis by (intro exI conjI) (rule out, rule distinct, rule rows)
qed

text \<open>
  C16. The table is ordered: within each pool the ranks are 1 to n in the order of the table, and that order is the lexicographic order of the
  criteria of the policy, each in its direction, up to the first head-to-head criterion: nobody stands above an entrant of the
  same pool whom these criteria put in front.
\<close>

theorem standings_ordered:
  assumes "number_text_ok P" "calculate_standings P nodes rs p opts = Inr (rows, fs)"
  shows "map tb_rank (filter (\<lambda>r. pool_name r = pool) rows) = [1..<length (filter (\<lambda>r. pool_name r = pool) rows) + 1]
    \<and> sorted_wrt (\<lambda>a b. criteria_vector (sy_metrics p) a \<le> criteria_vector (sy_metrics p) b) (filter (\<lambda>r. pool_name r = pool) rows)"
proof (cases "unsupported_metric p")
  case (Some i)
  then show ?thesis using assms(2) by (simp add: calculate_standings_def)
next
  case None
  let ?m = "group_by pool_name (count_rows (relevant_nodes p nodes) rs)"
  obtain xs where xs: "list_all2 (\<lambda>b x. resolve_ties P p rs opts (fst b) (sy_metrics p) (snd b) = Inr x) ?m xs"
    and rows: "rows = concat (map (\<lambda>x. ranked (fst x)) xs)"
    using calculate_cases [OF None, of P rs opts nodes] assms(2) by auto
  have "distinct (map fst ?m)" using group_by_wf by (simp add: omap_wf_def)
  moreover have "pool_name r = fst b" if "b \<in> set ?m" "r \<in> set (snd b)" for b r
    using group_by_entries [of "fst b" "snd b"] that by auto
  ultimately consider "filter (\<lambda>r. pool_name r = pool) rows = []"
    | b x where "resolve_ties P p rs opts (fst b) (sy_metrics p) (snd b) = Inr x" "filter (\<lambda>r. pool_name r = pool) rows = ranked (fst x)"
    using pool_block [OF xs] unfolding rows by blast
  then show ?thesis
  proof cases
    case 2
    have "length (ranked (fst x)) = length (fst x)" by (simp add: ranked_def)
    then show ?thesis unfolding 2(2) using ranked_ranks ranked_sorted [OF resolve_sorted [OF assms(1) 2(1)]] by simp
  qed simp
qed

section \<open>A concrete table\<close>

definition sample_nodes :: "contest_node list" where
  "sample_nodes = [\<lparr>nd_id = ''n'', nd_stage = ''s'', nd_pool = Some ''P'', nd_kind = ContestKind, nd_slots = [EntrantSource ''a'', EntrantSource ''b'']\<rparr>]"

definition sample_results :: "contest_result list" where
  "sample_results = [\<lparr>kr_contest = ''n'', kr_entrants = (''a'', ''b''), kr_winner = ''b'', kr_score = (1, 3)\<rparr>]"

definition sample_standings_policy :: standings_policy where
  "sample_standings_policy = \<lparr>sy_id = ''p'', sy_stages = [''s''], sy_metrics = [(''wins'', Descending)], sy_fallback = SharedRank\<rparr>"

abbreviation "no_options \<equiv> \<lparr>op_seed = None, op_manual = \<lambda>_. []\<rparr>"

lemma sample_metrics: "unsupported_metric sample_standings_policy = None"
  by (simp add: unsupported_metric_def sample_standings_policy_def registered_metrics_def)

lemma sample_relevant: "relevant_nodes sample_standings_policy sample_nodes = sample_nodes"
  by (simp add: relevant_nodes_def sample_standings_policy_def sample_nodes_def)

lemma sample_pools: "pools_ok (relevant_nodes sample_standings_policy sample_nodes)"
  unfolding sample_relevant by (simp add: pools_ok_def sample_nodes_def)

theorem standings_exact_witness:
  "\<exists>rows fs. calculate_standings sample_platform sample_nodes sample_results sample_standings_policy no_options = Inr (rows, fs)
     \<and> \<lparr>tb_entrant = ''b'', tb_pool = Some ''P'', tb_rank = 0, tb_played = 1, tb_wins = 1, tb_losses = 0, tb_draws = 0,
          tb_for = 3, tb_against = 1, tb_difference = 2, tb_percentage = 1, tb_resolution = []\<rparr> \<in> core ` set rows"
proof -
  have listed: "listed (result_map sample_results) sample_nodes ''P'' ''b''"
    by (simp add: listed_def sample_nodes_def slot_entrants_def)
  have row: "tallied_row (result_map sample_results) sample_nodes ''P'' ''b'' = \<lparr>tb_entrant = ''b'', tb_pool = Some ''P'', tb_rank = 0, tb_played = 1, tb_wins = 1,
      tb_losses = 0, tb_draws = 0, tb_for = 3, tb_against = 1, tb_difference = 2, tb_percentage = 1, tb_resolution = []\<rparr>"
    by (simp add: tallied_row_def close_row_def tally_def counted_def sample_nodes_def sample_results_def result_map_def new_row_def
        times_def scored_def winner_side_def loser_side_def Let_def)
  from standings_exact [OF sample_metrics sample_pools, of sample_platform sample_results no_options] obtain rows fs
    where table: "calculate_standings sample_platform sample_nodes sample_results sample_standings_policy no_options = Inr (rows, fs)"
      and all: "core ` set rows = {r. \<exists>pool e. listed (result_map sample_results) sample_nodes pool e \<and> r = tallied_row (result_map sample_results) sample_nodes pool e}"
    unfolding sample_relevant by (elim exE conjE)
  have "tallied_row (result_map sample_results) sample_nodes ''P'' ''b''
      \<in> {r. \<exists>pool e. listed (result_map sample_results) sample_nodes pool e \<and> r = tallied_row (result_map sample_results) sample_nodes pool e}"
    by (rule CollectI, intro exI conjI) (rule listed, rule refl)
  then have "tallied_row (result_map sample_results) sample_nodes ''P'' ''b'' \<in> core ` set rows" unfolding all .
  with table show ?thesis unfolding row by (intro exI conjI)
qed

lemma sample_table: "\<exists>rows fs. calculate_standings sample_platform sample_nodes sample_results sample_standings_policy no_options = Inr (rows, fs)"
  by (rule calculate_cases [OF sample_metrics, of sample_platform sample_results no_options sample_nodes]) (intro exI)

theorem standings_ordered_witness:
  "\<exists>rows fs. calculate_standings sample_platform sample_nodes sample_results sample_standings_policy no_options = Inr (rows, fs)
     \<and> map tb_rank (filter (\<lambda>r. pool_name r = ''P'') rows) = [1..<length (filter (\<lambda>r. pool_name r = ''P'') rows) + 1]"
proof -
  obtain rows fs where table: "calculate_standings sample_platform sample_nodes sample_results sample_standings_policy no_options = Inr (rows, fs)"
    using sample_table by blast
  have "map tb_rank (filter (\<lambda>r. pool_name r = ''P'') rows) = [1..<length (filter (\<lambda>r. pool_name r = ''P'') rows) + 1]"
    using standings_ordered [OF sample_number_text_ok table] by (rule conjunct1)
  with table show ?thesis by (intro exI conjI)
qed

end
