(* ===== verification/HashFacts.thy ===== *)
theory HashFacts
  imports SwissPairing HashChain
begin

text \<open>
  When \<^verbatim>\<open>canonicalHash\<close> returns: a value hashes when it holds no undefined and no number that is not finite. The proofs about
  modules that hash their inputs share these rules.
\<close>

section \<open>Values with a hash\<close>

definition hashes :: "jsval \<Rightarrow> bool" where
  "hashes v \<longleftrightarrow> is_ok (normalise v)"

lemma canonical_hash_ok: "is_ok (canonical_hash P v) = hashes v"
  by (cases "normalise v") (simp_all add: canonical_hash_def canonical_stringify_def hashes_def is_ok_def)

lemma hash_of: "hashes v \<Longrightarrow> \<exists>h. canonical_hash P v = Inr h"
  using canonical_hash_ok [of P v] by (cases "canonical_hash P v") (simp_all add: is_ok_def)

lemma hashed: "canonical_hash P v = Inr h \<Longrightarrow> hashes v"
  using canonical_hash_ok [of P v] by simp

lemma map_result_ok: "is_ok (map_result f xs) \<longleftrightarrow> (\<forall>x \<in> set xs. is_ok (f x))"
proof (induction xs)
  case (Cons x xs)
  then show ?case by (cases "f x"; cases "map_result f xs") (auto simp: is_ok_def)
qed simp

lemma bind_result_ok: "is_ok (bind_result r (\<lambda>x. Inr (f x))) = is_ok r"
  by (cases r) (simp_all add: is_ok_def)

lemma hashes_simps [simp]:
  "hashes (JStr s)" "hashes (JBool b)" "hashes JNull" "\<not> hashes JUndef" "hashes (JNum n) \<longleftrightarrow> js_finite n \<noteq> None"
  by (auto simp: hashes_def is_ok_def split: jsnum.splits)

lemma hashes_JArr [simp]: "hashes (JArr vs) \<longleftrightarrow> (\<forall>v \<in> set vs. hashes v)"
  by (simp add: hashes_def bind_result_ok map_result_ok)

lemma hashes_JObj [simp]: "hashes (JObj kvs) \<longleftrightarrow> (\<forall>x \<in> set kvs. hashes (snd x))"
proof -
  have "is_ok (case x of (k, v) \<Rightarrow> if v = JUndef then Inl (UndefinedAt k) else bind_result (normalise v) (\<lambda>w. Inr (k, w))) \<longleftrightarrow> hashes (snd x)" for x
    by (cases x; cases "normalise (snd x)") (auto simp: hashes_def)
  then show ?thesis by (simp add: hashes_def bind_result_ok map_result_ok split_def)
qed

lemma hashes_opt_field [simp]: "(\<forall>x \<in> set (opt_field k f y). hashes (snd x)) \<longleftrightarrow> (\<forall>z. y = Some z \<longrightarrow> hashes (f z))"
  by (cases y) (simp_all add: opt_field_def)

lemma hashes_jnat [simp]: "hashes (jnat n)" and hashes_strs [simp]: "hashes (strs xs)"
  by (simp_all add: jnat_def strs_def)

text \<open>The fields of a normalised object are the normalised fields.\<close>

lemma map_of_related:
  assumes "list_all2 (\<lambda>x y. fst y = fst x \<and> normalise (snd x) = Inr (snd y)) kvs ws"
  shows "(case map_of kvs k of None \<Rightarrow> map_of ws k = None | Some v \<Rightarrow> \<exists>u. normalise v = Inr u \<and> map_of ws k = Some u)"
  using assms by induction (auto split: option.splits)

lemma map_of_distinct_set: "distinct (map fst xs) \<Longrightarrow> distinct (map fst ys) \<Longrightarrow> set xs = set ys \<Longrightarrow> map_of xs = map_of ys"
  by (rule map_of_inject_set [THEN iffD2])

lemma normalise_field:
  assumes "normalise (JObj kvs) = Inr w" "distinct (map fst kvs)" "k \<noteq> ''__proto__''"
  shows "\<exists>ws. w = JObj ws \<and> (case map_of kvs k of None \<Rightarrow> map_of ws k = None | Some v \<Rightarrow> \<exists>u. normalise v = Inr u \<and> map_of ws k = Some u)"
proof -
  let ?h = "\<lambda>(k, v). if v = JUndef then Inl (UndefinedAt k) else bind_result (normalise v) (\<lambda>w. Inr (k, w))"
  from assms(1) obtain ws where ws: "map_result ?h (sort_key fst kvs) = Inr ws" and w: "w = JObj (own_order (drop_proto ws))"
    by (auto simp: bind_result_Inr_iff)
  have related: "list_all2 (\<lambda>x y. fst y = fst x \<and> normalise (snd x) = Inr (snd y)) (sort_key fst kvs) ws"
    using ws unfolding map_result_Inr_iff by (rule list_all2_mono) (auto simp: bind_result_Inr_iff split: if_splits)
  then have "map fst ws = map fst (sort_key fst kvs)"
    by (auto simp: list_all2_conv_all_nth list_eq_iff_nth_eq)
  then have d: "distinct (map fst ws)" using assms(2) by (simp add: distinct_map)
  have "map_of (own_order (drop_proto ws)) = map_of (drop_proto ws)"
    by (rule map_of_distinct_set) (simp_all add: drop_proto_def distinct_map_filter d)
  moreover have "map_of (drop_proto ws) k = map_of ws k" using assms(3) by (induction ws) (auto simp: drop_proto_def)
  ultimately have same: "map_of (own_order (drop_proto ws)) k = map_of ws k" by simp
  have "map_of (sort_key fst kvs) = map_of kvs"
    by (rule map_of_distinct_set) (use assms(2) in \<open>simp_all add: distinct_map\<close>)
  with map_of_related [OF related, of k]
  show ?thesis unfolding w by (intro exI [of _ "own_order (drop_proto ws)"] conjI [OF refl]) (simp only: same)
qed

text \<open>Equal canonical texts are texts of the same normal form.\<close>

lemma stringify_inject:
  assumes "number_text_ok P" "wf_jsval v" "wf_jsval w" "canonical_stringify P v = Inr x" "canonical_stringify P w = Inr x"
  shows "normalise v = normalise w"
proof -
  from assms(4,5) obtain a b where a: "normalise v = Inr a" and b: "normalise w = Inr b" and t: "json_text P a = json_text P b"
    by (auto simp: canonical_stringify_def bind_result_Inr_iff)
  have "plain a" "plain b" using normalise_normal normal_plain assms(2,3) a b by blast+
  then show ?thesis using json_text_inject [OF assms(1)] t a b by simp
qed

end
