(* ===== verification/DeclarativeProofs.thy ===== *)
theory DeclarativeProofs
  imports DeclarativeQualification StandingsProofs HashFacts
begin

text \<open>
  The correctness of packages/competition-engine/src/declarative-qualification.ts.

  \<^item> \<open>selection_inv\<close>: what the selectors keep. Picks are new, distinct candidates with one piece of evidence each.
  \<^item> \<open>fair_pick\<close>: what a selector promises about those that it picked and those that are left out in the end.
  \<^item> \<open>step_agrees\<close>, \<open>step_complete\<close>: the verification replays a valid selection, and accepts no other.
\<close>

section \<open>Hashes\<close>

lemma hashes_proof [simp]: "hashes (qualification_proof_json p)"
  by (simp add: qualification_proof_json_def qualification_proof_fields_def scale_envelope_def)

section \<open>Values\<close>

lemma valid_value_finite: "valid_expression m \<Longrightarrow> metric_value c m = Some v \<Longrightarrow> \<exists>x. v = Num x"
  by (cases m) (auto split: option.splits if_splits)

lemma evaluate_members: "(c, v) \<in> set (evaluate_metric m cs) \<longleftrightarrow> c \<in> set cs \<and> metric_value c m = Some v"
  by (force simp: evaluate_metric_def split: option.splits)

lemma evaluate_fst: "map fst (evaluate_metric m cs) = filter (\<lambda>c. metric_value c m \<noteq> None) cs"
  by (induction cs) (auto simp: evaluate_metric_def split: option.split)

lemma unvalued_Nil: "unvalued m cs = [] \<longleftrightarrow> (\<forall>c \<in> set cs. metric_value c m \<noteq> None)"
  by (simp add: unvalued_def filter_empty_conv)

lemma evaluate_length: "unvalued m cs = [] \<Longrightarrow> length (evaluate_metric m cs) = length cs"
  using arg_cong [OF evaluate_fst [of m cs], of length] by (simp add: unvalued_Nil filter_id_conv)

lemma evaluate_distinct: "distinct (map qd_id cs) \<Longrightarrow> distinct (map (\<lambda>x. qd_id (fst x)) (evaluate_metric m cs))"
proof -
  assume "distinct (map qd_id cs)"
  then have "distinct (map qd_id (filter (\<lambda>c. metric_value c m \<noteq> None) cs))" by (rule distinct_map_filter)
  then show ?thesis unfolding evaluate_fst [symmetric] by (simp add: comp_def)
qed

lemma order_members: "(c, v) \<in> set (order_candidates P x cs) \<longleftrightarrow> c \<in> set cs \<and> metric_value c (rx_metric x) = Some v"
  by (simp add: order_candidates_def evaluate_members)

lemma order_distinct: "distinct (map qd_id cs) \<Longrightarrow> distinct (map (\<lambda>y. qd_id (fst y)) (order_candidates P x cs))"
  using evaluate_distinct by (simp add: order_candidates_def)

lemma eligible_subset: "set (eligible_candidates x cs) \<subseteq> set cs" "distinct (map qd_id cs) \<Longrightarrow> distinct (map qd_id (eligible_candidates x cs))"
  by (auto simp: eligible_candidates_def distinct_map_filter split: option.split)

lemma cut_at_take: "\<exists>n. cut_at x k xs = take n xs"
  by (auto simp: cut_at_def Let_def)

section \<open>Steps\<close>

text \<open>The evidence of a step.\<close>

lemma picks_ids:
  "map qv_id (authority_picks i s available ids a) = ids"
  "map qv_id (remainder_picks i s available) = map qd_id available"
  "map qv_id (threshold_picks i s available (m, c, x)) = map (\<lambda>y. qd_id (fst y)) (filter (\<lambda>(d, v). satisfies v c x) (evaluate_metric m available))"
  "map qv_id (ranking_picks i s y ordered picked) = map (\<lambda>z. qd_id (fst z)) picked"
  by (simp_all add: authority_picks_def remainder_picks_def threshold_picks_def ranking_picks_def pick_evidence_def comp_def split_def)

lemma available_distinct: "distinct (map qd_id cs) \<Longrightarrow> distinct (map qd_id (available_candidates cs st))"
  by (simp add: available_candidates_def distinct_map_filter)

lemma available_members: "c \<in> set (available_candidates cs st) \<longleftrightarrow> c \<in> set cs \<and> qd_id c \<notin> set (ls_taken st)"
  by (auto simp: available_candidates_def)

text \<open>A valid step and its picks, by the kind of the selector.\<close>

lemma select_step_cases:
  assumes "select_step P r (i, s) st = Inr st'"
  obtains (authority) k ids a where "s = AuthoritySelection k ids a" "ap_status a = ''APPROVED''" "\<not> blank (ap_authority a)" "ids \<noteq> []" "distinct ids"
      "set ids \<subseteq> qd_id ` set (available_candidates (dq_candidates r) st)" "approval_hash P (dq_policy r) i k (sort ids) (ap_authority a) = Inr (ap_hash a)"
      "st' = add_picks (authority_picks i s (available_candidates (dq_candidates r) st) (sort ids) a) st"
  | (remainder) "s = Remainder" "st' = add_picks (remainder_picks i s (available_candidates (dq_candidates r) st)) st"
  | (threshold) m c x where "threshold_spec s = Some (m, c, x)" "js_finite x \<noteq> None" "valid_expression m"
      "unvalued m (available_candidates (dq_candidates r) st) = []"
      "st' = add_picks (threshold_picks i s (available_candidates (dq_candidates r) st) (m, c, x)) st"
  | (ranking) y k where "ranking_spec_of s = Some y" "threshold_spec s = None" "valid_expression (rx_metric y)" "\<not> bad_rank (rx_rank y)"
      "usable_count (rx_count y) (length (eligible_candidates y (available_candidates (dq_candidates r) st))) = Some k"
      "unvalued (rx_metric y) (eligible_candidates y (available_candidates (dq_candidates r) st)) = []"
      "\<not> (crosses (rx_direction y) k (order_candidates P y (eligible_candidates y (available_candidates (dq_candidates r) st))) \<and> rx_tie y = RejectTie)"
      "st' = add_picks (ranking_picks i s y (order_candidates P y (eligible_candidates y (available_candidates (dq_candidates r) st)))
         (cut_at y k (order_candidates P y (eligible_candidates y (available_candidates (dq_candidates r) st))))) st"
proof -
  let ?available = "available_candidates (dq_candidates r) st"
  consider (a) k ids a where "s = AuthoritySelection k ids a" | (r) "s = Remainder" | (t) m c x where "threshold_spec s = Some (m, c, x)" "ranking_spec_of s = None"
    | (k) y where "ranking_spec_of s = Some y" "threshold_spec s = None" by (cases s) auto
  then show ?thesis
  proof cases
    case (a k ids a)
    have "filter (\<lambda>c. \<not> List.member (map qd_id ?available) c) (sort ids) = [] \<longleftrightarrow> set ids \<subseteq> qd_id ` set ?available"
      by (auto simp: filter_empty_conv)
    then show ?thesis
      using assms authority [of k ids a] a by (auto simp: select_step_def Let_def bind_result_Inr_iff authority_step_def split: if_splits)
  next
    case r
    then show ?thesis using assms remainder by (simp add: select_step_def Let_def)
  next
    case (t m c x)
    have "bind_result (threshold_step ?available i s (m, c, x)) (\<lambda>vs. Inr (add_picks vs st)) = Inr st'"
      using assms t by (cases s) (auto simp: select_step_def Let_def)
    then show ?thesis using threshold [OF t(1)] by (auto simp: bind_result_Inr_iff threshold_step_def split: if_splits)
  next
    case (k y)
    have "bind_result (ranking_step P ?available i s y) (\<lambda>vs. Inr (add_picks vs st)) = Inr st'"
      using assms k by (cases s) (auto simp: select_step_def Let_def)
    then show ?thesis using ranking [OF k] by (auto simp: bind_result_Inr_iff ranking_step_def Let_def split: if_splits option.splits)
  qed
qed

section \<open>What the selectors keep\<close>

definition selection_inv :: "declarative_request \<Rightarrow> selection_state \<Rightarrow> bool" where
  "selection_inv r st \<longleftrightarrow> ls_taken st = dq_selected r @ ls_ids st \<and> distinct (ls_taken st) \<and> set (ls_ids st) \<subseteq> qd_id ` set (dq_candidates r)
     \<and> map qv_id (ls_evidence st) = ls_ids st"

lemma add_picks_inv:
  assumes "selection_inv r st" "distinct (map qv_id vs)" "set (map qv_id vs) \<subseteq> qd_id ` set (available_candidates (dq_candidates r) st)"
  shows "selection_inv r (add_picks vs st)"
proof -
  have "qd_id c \<notin> set (ls_taken st) \<and> c \<in> set (dq_candidates r)" if "c \<in> set (available_candidates (dq_candidates r) st)" for c
    using that by (simp add: available_members)
  then have "set (map qv_id vs) \<inter> set (ls_taken st) = {}" "set (map qv_id vs) \<subseteq> qd_id ` set (dq_candidates r)"
    using assms(3) by blast+
  then show ?thesis using assms(1,2) unfolding selection_inv_def add_picks_def by auto
qed

lemma select_step_inv:
  assumes "selection_inv r st" "distinct (map qd_id (dq_candidates r))" "select_step P r (i, s) st = Inr st'"
  shows "selection_inv r st'"
proof -
  let ?available = "available_candidates (dq_candidates r) st"
  have available: "distinct (map qd_id ?available)" using available_distinct [OF assms(2)] .
  from assms(3) show ?thesis
  proof (cases rule: select_step_cases)
    case (authority k ids a)
    show ?thesis unfolding authority(8) by (rule add_picks_inv [OF assms(1)]) (use authority(5,6) in \<open>simp_all only: picks_ids, simp_all\<close>)
  next
    case remainder
    show ?thesis unfolding remainder(2) by (rule add_picks_inv [OF assms(1)]) (use available in \<open>simp_all only: picks_ids, simp_all\<close>)
  next
    case (threshold m c x)
    have "distinct (map (\<lambda>y. qd_id (fst y)) (evaluate_metric m ?available))" using evaluate_distinct [OF available] .
    then show ?thesis unfolding threshold(5)
      by (intro add_picks_inv [OF assms(1)]) (auto simp: picks_ids distinct_map_filter evaluate_members)
  next
    case (ranking y k)
    let ?ordered = "order_candidates P y (eligible_candidates y ?available)"
    obtain n where n: "cut_at y k ?ordered = take n ?ordered" using cut_at_take by blast
    have "distinct (map (\<lambda>z. qd_id (fst z)) ?ordered)" using order_distinct [OF eligible_subset(2) [OF available]] .
    then have "distinct (map (\<lambda>z. qd_id (fst z)) (take n ?ordered))" by (simp add: take_map [symmetric])
    moreover have "qd_id (fst z) \<in> qd_id ` set ?available" if "z \<in> set (take n ?ordered)" for z
    proof -
      have "fst z \<in> set (eligible_candidates y ?available)" using in_set_takeD [OF that] order_members [of "fst z" "snd z"] by simp
      then show ?thesis using eligible_subset(1) by blast
    qed
    ultimately show ?thesis unfolding ranking(8) n by (intro add_picks_inv [OF assms(1)]) (auto simp: picks_ids)
  qed
qed

lemma fold_select_inv:
  assumes "distinct (map qd_id (dq_candidates r))"
  shows "fold_result (select_step P r) ss st = Inr st' \<Longrightarrow> selection_inv r st \<Longrightarrow> selection_inv r st'"
proof (induction ss arbitrary: st)
  case (Cons x ss)
  then obtain st1 where "select_step P r x st = Inr st1" "fold_result (select_step P r) ss st1 = Inr st'" by (auto simp: bind_result_Inr_iff)
  then show ?case using Cons select_step_inv [OF _ assms] by (metis prod.collapse)
qed simp

lemma select_step_extends: "select_step P r x st = Inr st' \<Longrightarrow> \<exists>vs. st' = add_picks vs st"
  by (auto simp: select_step_def Let_def bind_result_Inr_iff split: prod.splits)

lemma fold_select_extends: "fold_result (select_step P r) ss st = Inr st' \<Longrightarrow> \<exists>vs. st' = add_picks vs st"
proof (induction ss arbitrary: st)
  case Nil
  then show ?case by (intro exI [of _ "[]"]) (simp add: add_picks_def)
next
  case (Cons x ss)
  then obtain st1 where st1: "select_step P r x st = Inr st1" "fold_result (select_step P r) ss st1 = Inr st'" by (auto simp: bind_result_Inr_iff)
  obtain vs where "st1 = add_picks vs st" using select_step_extends [OF st1(1)] by blast
  moreover from st1(2) obtain ws where "st' = add_picks ws st1" using Cons.IH by blast
  ultimately show ?case by (intro exI [of _ "vs @ ws"]) (simp add: add_picks_def)
qed

section \<open>The verification replays the selection\<close>

lemma verify_step_fst: "fst (verify_step P r x (fs, st)) = fs @ fst (verify_step P r x ([], st)) \<and> snd (verify_step P r x (fs, st)) = snd (verify_step P r x ([], st))"
  by (cases x) (simp add: verify_step_def Let_def)

lemma step_agrees:
  assumes "select_step P r (i, s) st = Inr st'"
  shows "verify_step P r (i, s) ([], st) = ([], st')"
  using assms
proof (cases rule: select_step_cases)
  case (authority k ids a)
  then have "list_ex (\<lambda>c. \<not> List.member (map qd_id (available_candidates (dq_candidates r) st)) c) (sort ids) = False"
    by (auto simp: list_ex_iff)
  with authority show ?thesis by (simp add: verify_step_def Let_def verify_authority_def when_finding_def)
next
  case remainder
  then show ?thesis by (simp add: verify_step_def Let_def)
next
  case (threshold m c x)
  then have "verify_step P r (i, s) ([], st) = (case verify_threshold (available_candidates (dq_candidates r) st) i s (m, c, x) of (fs, vs) \<Rightarrow> (fs, add_picks vs st))"
    by (cases s) (auto simp: verify_step_def Let_def split: prod.split)
  with threshold show ?thesis by (simp add: verify_threshold_def when_finding_def)
next
  case (ranking y k)
  then have "verify_step P r (i, s) ([], st) = (case verify_ranking P (available_candidates (dq_candidates r) st) i s y of (fs, vs) \<Rightarrow> (fs, add_picks vs st))"
    by (cases s) (auto simp: verify_step_def Let_def split: prod.split)
  moreover have "length (order_candidates P y (eligible_candidates y (available_candidates (dq_candidates r) st)))
      = length (eligible_candidates y (available_candidates (dq_candidates r) st))"
    using evaluate_length [OF ranking(6)] by (simp add: order_candidates_def)
  ultimately show ?thesis using ranking by (simp add: verify_ranking_def when_finding_def Let_def)
qed

lemma replay_agrees:
  "fold_result (select_step P r) ss st = Inr st' \<Longrightarrow> foldl (\<lambda>acc is. verify_step P r is acc) ([], st) ss = ([], st')"
proof (induction ss arbitrary: st)
  case (Cons x ss)
  then obtain st1 where st1: "select_step P r x st = Inr st1" "fold_result (select_step P r) ss st1 = Inr st'" by (auto simp: bind_result_Inr_iff)
  then have "verify_step P r x ([], st) = ([], st1)" using step_agrees by (metis prod.collapse)
  then show ?case using Cons.IH [OF st1(2)] by simp
qed simp

text \<open>
  A selector is proper when the fields that only the selection checks are valid: the status of an approval, that an authority
  names somebody and nobody twice, and that the eligible rank is a positive integer.
\<close>

fun proper_selector :: "selector \<Rightarrow> bool" where
  "proper_selector (AuthoritySelection k ids a) = (ap_status a = ''APPROVED'' \<and> ids \<noteq> [] \<and> distinct ids)"
| "proper_selector (BestN m n d r t) = (\<not> bad_rank r)"
| "proper_selector s = True"

lemma step_complete:
  assumes "verify_step P r (i, s) ([], st) = ([], st')" "proper_selector s"
  shows "select_step P r (i, s) st = Inr st'"
proof -
  let ?available = "available_candidates (dq_candidates r) st"
  consider (a) k ids a where "s = AuthoritySelection k ids a" | (r) "s = Remainder" | (t) m c x where "threshold_spec s = Some (m, c, x)" "ranking_spec_of s = None"
    | (k) y where "ranking_spec_of s = Some y" "threshold_spec s = None" by (cases s) auto
  then show ?thesis
  proof cases
    case (a k ids a)
    then have "filter (\<lambda>c. \<not> List.member (map qd_id ?available) c) (sort ids) = []" and "approval_hash P (dq_policy r) i k (sort ids) (ap_authority a) = Inr (ap_hash a)"
        "\<not> blank (ap_authority a)"
      using assms(1) by (auto simp: verify_step_def Let_def verify_authority_def when_finding_def list_ex_iff filter_empty_conv split: if_splits)
    with a assms show ?thesis
      by (simp add: select_step_def Let_def authority_step_def verify_step_def verify_authority_def)
  next
    case r
    then show ?thesis using assms(1) by (simp add: verify_step_def select_step_def Let_def)
  next
    case (t m c x)
    then have "verify_threshold ?available i s (m, c, x) = ([], threshold_picks i s ?available (m, c, x))"
        "st' = add_picks (threshold_picks i s ?available (m, c, x)) st"
        "select_step P r (i, s) st = bind_result (threshold_step ?available i s (m, c, x)) (\<lambda>vs. Inr (add_picks vs st))"
      using assms(1) by (cases s; auto simp: verify_step_def select_step_def Let_def verify_threshold_def)+
    then show ?thesis by (auto simp: verify_threshold_def threshold_step_def when_finding_def split: if_splits)
  next
    case (k y)
    let ?eligible = "eligible_candidates y ?available"
    let ?ordered = "order_candidates P y ?eligible"
    have step: "verify_step P r (i, s) ([], st) = (fst (verify_ranking P ?available i s y), add_picks (snd (verify_ranking P ?available i s y)) st)"
        "select_step P r (i, s) st = bind_result (ranking_step P ?available i s y) (\<lambda>vs. Inr (add_picks vs st))"
      using k by (cases s; auto simp: verify_step_def select_step_def Let_def)+
    have valid: "valid_expression (rx_metric y)" "usable_count (rx_count y) (length ?eligible) \<noteq> None" "unvalued (rx_metric y) ?eligible = []"
      using assms(1) unfolding step(1) by (auto simp: verify_ranking_def when_finding_def Let_def split: if_splits)
    then obtain n where n: "usable_count (rx_count y) (length ?eligible) = Some n" by blast
    have length: "length ?ordered = length ?eligible" using evaluate_length [OF valid(3)] by (simp add: order_candidates_def)
    have rank: "\<not> bad_rank (rx_rank y)" using assms(2) k by (cases s) (auto simp: bad_rank_def)
    show ?thesis using assms(1) valid rank n unfolding step
      by (auto simp: verify_ranking_def ranking_step_def when_finding_def Let_def length split: if_splits)
  qed
qed

lemma foldl_findings:
  "foldl (\<lambda>acc is. verify_step P r is acc) (fs, st) ss = ([], st') \<Longrightarrow> fs = []"
proof (induction ss arbitrary: fs st)
  case (Cons x ss)
  obtain gs st1 where x: "verify_step P r x (fs, st) = (gs, st1)" by (cases "verify_step P r x (fs, st)")
  then have "gs = []" using Cons by auto
  then show ?case using verify_step_fst [of P r x fs st] x by simp
qed simp

lemma replay_complete:
  "foldl (\<lambda>acc is. verify_step P r is acc) ([], st) ss = ([], st') \<Longrightarrow> \<forall>x \<in> set ss. proper_selector (snd x) \<Longrightarrow> fold_result (select_step P r) ss st = Inr st'"
proof (induction ss arbitrary: st)
  case (Cons x ss)
  obtain gs st1 where x: "verify_step P r x ([], st) = (gs, st1)" by (cases "verify_step P r x ([], st)")
  then have "gs = []" using Cons.prems(1) foldl_findings by auto
  then have "select_step P r x st = Inr st1" using step_complete [of P r "fst x" "snd x" st st1] x Cons.prems(2) by simp
  then show ?case using Cons x \<open>gs = []\<close> by simp
qed simp

section \<open>Fairness\<close>

definition preferred :: "preference \<Rightarrow> jsnum \<Rightarrow> jsnum \<Rightarrow> bool" where
  "preferred d w v \<longleftrightarrow> (if d = HigherFirst then value_less v w else value_less w v)"

text \<open>What the selector promises about a candidate \<open>c\<close> that it picked, when \<open>y\<close> is left out in the end.\<close>

definition fair_pick :: "platform \<Rightarrow> string \<Rightarrow> nat \<Rightarrow> selector \<Rightarrow> qualification_candidate \<Rightarrow> qualification_candidate \<Rightarrow> bool" where
  "fair_pick P policy i s c y \<longleftrightarrow> (case s of
     AuthoritySelection k ids a \<Rightarrow> qd_id c \<in> set ids \<and> ap_status a = ''APPROVED'' \<and> approval_hash P policy i k (sort ids) (ap_authority a) = Inr (ap_hash a)
   | Remainder \<Rightarrow> False
   | _ \<Rightarrow> (case threshold_spec s of
       Some (m, k, x) \<Rightarrow> \<exists>v w. metric_value c m = Some v \<and> satisfies v k x \<and> metric_value y m = Some w \<and> \<not> satisfies w k x
     | None \<Rightarrow> (case ranking_spec_of s of
         Some x \<Rightarrow> eligible_candidates x [c] = [c] \<and> (eligible_candidates x [y] = [y] \<longrightarrow>
           (\<exists>v w. metric_value c (rx_metric x) = Some v \<and> metric_value y (rx_metric x) = Some w \<and> \<not> preferred (rx_direction x) w v))
       | None \<Rightarrow> False)))"

lemma eligible_one: "c \<in> set (eligible_candidates x cs) \<longleftrightarrow> c \<in> set cs \<and> eligible_candidates x [c] = [c]"
  by (auto simp: eligible_candidates_def split: option.splits)

lemma valued_order_preferred: "valued_order P d (c, v) (y, w) \<le> 0 \<Longrightarrow> \<not> preferred d w v"
  by (auto simp: valued_order_def preferred_def or_else_def value_delta_def value_less_def num_cmp_def split: option.splits if_splits)

text \<open>On finite values the order is a comparator, so the candidates are sorted.\<close>

lemma order_sorted:
  assumes "comparator (locale_compare P)" "valid_expression (rx_metric x)" "distinct (map qd_id cs)"
  shows "sorted_wrt (\<lambda>a b. valued_order P (rx_direction x) a b \<le> 0) (order_candidates P x cs)"
proof -
  let ?d = "rx_direction x" and ?xs = "evaluate_metric (rx_metric x) cs"
  let ?key = "\<lambda>a :: qualification_candidate \<times> jsnum. case js_finite (snd a) of None \<Rightarrow> 0 | Some y \<Rightarrow> if ?d = HigherFirst then - y else y"
  let ?cmp = "\<lambda>a b. or_else (num_cmp (?key a) (?key b)) (locale_compare P (qd_id (fst a)) (qd_id (fst b)))"
  have finite: "\<exists>y. snd a = Num y" if "a \<in> set ?xs" for a
    using that valid_value_finite [OF assms(2)] evaluate_members [of "fst a" "snd a"] by auto
  have same: "valued_order P ?d a b \<le> 0 \<longleftrightarrow> ?cmp a b \<le> 0" if ab: "a \<in> set ?xs" "b \<in> set ?xs" for a b
  proof -
    obtain v w where "snd a = Num v" "snd b = Num w" using finite ab by blast
    then show ?thesis by (auto simp: valued_order_def or_else_def value_delta_def num_cmp_def)
  qed
  have "distinct (map (\<lambda>y. qd_id (fst y)) ?xs)" using evaluate_distinct [OF assms(3)] .
  then have distinct: "distinct ?xs" by (simp add: distinct_map)
  have sort: "sort_by (valued_order P ?d) ?xs = sort_by ?cmp ?xs" by (rule sort_by_cong [OF distinct same])
  have "comparator (\<lambda>a b. locale_compare P (qd_id (fst a)) (qd_id (fst b)))"
    using comparator.cmp_flip [OF assms(1)] comparator.cmp_trans [OF assms(1)] by unfold_locales blast+
  then have "comparator ?cmp" by (rule comparator_or_else [OF comparator_num_key])
  from comparator.sorted_sort_by [OF this] have "sorted_wrt (\<lambda>a b. ?cmp a b \<le> 0) (sort_by ?cmp ?xs)" .
  then show ?thesis unfolding order_candidates_def sort
    by (rule sorted_wrt_mono_rel [rotated]) (use same in simp)
qed

lemma step_fair:
  assumes "comparator (locale_compare P)" "distinct (map qd_id (dq_candidates r))" "select_step P r (i, s) st = Inr st'"
  shows "\<exists>vs. st' = add_picks vs st \<and> (\<forall>e \<in> set vs. qv_selector e = i \<and> (\<exists>c \<in> set (dq_candidates r). qd_id c = qv_id e
    \<and> (\<forall>y \<in> set (dq_candidates r). qd_id y \<notin> set (ls_taken st') \<longrightarrow> fair_pick P (dq_policy r) i s c y)))"
proof -
  let ?available = "available_candidates (dq_candidates r) st"
  have left: "y \<in> set ?available \<and> qd_id y \<notin> set (map qv_id vs)"
    if "y \<in> set (dq_candidates r)" "qd_id y \<notin> set (ls_taken st')" "st' = add_picks vs st" for y vs
    using that by (simp add: available_members add_picks_def)
  have members: "c \<in> set (dq_candidates r)" if "c \<in> set ?available" for c using that by (simp add: available_members)
  from assms(3) show ?thesis
  proof (cases rule: select_step_cases)
    case (authority k ids a)
    show ?thesis
    proof (intro exI conjI ballI)
      show "st' = add_picks (authority_picks i s ?available (sort ids) a) st" by (rule authority(8))
      fix e assume e: "e \<in> set (authority_picks i s ?available (sort ids) a)"
      then show "qv_selector e = i" by (auto simp: authority_picks_def pick_evidence_def)
      from e have id: "qv_id e \<in> set ids" by (auto simp: authority_picks_def pick_evidence_def)
      then obtain c where c: "c \<in> set ?available" "qd_id c = qv_id e" using authority(6) by force
      then show "\<exists>c \<in> set (dq_candidates r). qd_id c = qv_id e \<and> (\<forall>y \<in> set (dq_candidates r). qd_id y \<notin> set (ls_taken st') \<longrightarrow> fair_pick P (dq_policy r) i s c y)"
        using authority(1,2,7) id members by (auto simp: fair_pick_def)
    qed
  next
    case remainder
    have "qd_id y \<in> set (ls_taken st')" if "y \<in> set (dq_candidates r)" for y
      using that by (auto simp: remainder(2) add_picks_def picks_ids available_members)
    then show ?thesis
      by (intro exI [of _ "remainder_picks i s ?available"]) (auto simp: remainder(2) remainder_picks_def pick_evidence_def intro: members)
  next
    case (threshold m c x)
    let ?vs = "threshold_picks i s ?available (m, c, x)"
    have fair: "fair_pick P (dq_policy r) i s d y"
      if d: "metric_value d m = Some v" "satisfies v c x" and y: "y \<in> set (dq_candidates r)" "qd_id y \<notin> set (ls_taken st')" for d v y
    proof -
      have "y \<in> set ?available" "qd_id y \<notin> set (map qv_id ?vs)" using left [OF y threshold(5)] by simp_all
      moreover from this(1) obtain w where w: "metric_value y m = Some w" using threshold(4) by (auto simp: unvalued_Nil)
      ultimately have "\<not> satisfies w c x" by (force simp: picks_ids evaluate_members)
      then show ?thesis using d w threshold(1) by (cases s) (auto simp: fair_pick_def)
    qed
    show ?thesis
    proof (intro exI [of _ ?vs] conjI ballI)
      show "st' = add_picks ?vs st" by (rule threshold(5))
      fix e assume e: "e \<in> set ?vs"
      then obtain d v where "d \<in> set ?available" "metric_value d m = Some v" "satisfies v c x" "qv_id e = qd_id d" "qv_selector e = i"
        by (auto simp: threshold_picks_def evaluate_members pick_evidence_def)
      then show "qv_selector e = i" "\<exists>d \<in> set (dq_candidates r). qd_id d = qv_id e
          \<and> (\<forall>y \<in> set (dq_candidates r). qd_id y \<notin> set (ls_taken st') \<longrightarrow> fair_pick P (dq_policy r) i s d y)"
        using fair members by auto
    qed
  next
    case (ranking z k)
    let ?eligible = "eligible_candidates z ?available"
    let ?ordered = "order_candidates P z ?eligible"
    let ?vs = "ranking_picks i s z ?ordered (cut_at z k ?ordered)"
    obtain n where n: "cut_at z k ?ordered = take n ?ordered" using cut_at_take by blast
    have sorted: "sorted_wrt (\<lambda>a b. valued_order P (rx_direction z) a b \<le> 0) (take n ?ordered @ drop n ?ordered)"
      using order_sorted [OF assms(1) ranking(3) eligible_subset(2) [OF available_distinct [OF assms(2)]]] by simp
    have fair: "fair_pick P (dq_policy r) i s d y"
      if d: "(d, v) \<in> set (take n ?ordered)" and y: "y \<in> set (dq_candidates r)" "qd_id y \<notin> set (ls_taken st')" for d v y
    proof -
      have d': "d \<in> set ?eligible" "metric_value d (rx_metric z) = Some v" using in_set_takeD [OF d] order_members by auto
      have "\<exists>w. metric_value y (rx_metric z) = Some w \<and> \<not> preferred (rx_direction z) w v" if el: "eligible_candidates z [y] = [y]"
      proof -
        have y': "y \<in> set ?available" "qd_id y \<notin> set (map qv_id ?vs)" using left [OF y ranking(8)] by simp_all
        then have "y \<in> set ?eligible" using el eligible_one by blast
        then obtain w where w: "metric_value y (rx_metric z) = Some w" using ranking(6) by (auto simp: unvalued_Nil)
        then have "(y, w) \<in> set ?ordered" using \<open>y \<in> set ?eligible\<close> order_members by blast
        moreover have "(y, w) \<notin> set (take n ?ordered)" using y'(2) unfolding picks_ids n by force
        ultimately have "(y, w) \<in> set (drop n ?ordered)" by (metis Un_iff append_take_drop_id set_append)
        then have "valued_order P (rx_direction z) (d, v) (y, w) \<le> 0" using sorted d unfolding sorted_wrt_append by blast
        then show ?thesis using w valued_order_preferred by blast
      qed
      then show ?thesis using d' ranking(1,2) eligible_one [of d z ?available] by (cases s) (auto simp: fair_pick_def)
    qed
    show ?thesis
    proof (intro exI [of _ ?vs] conjI ballI)
      show "st' = add_picks ?vs st" by (rule ranking(8))
      fix e assume "e \<in> set ?vs"
      then obtain d v where d: "(d, v) \<in> set (take n ?ordered)" "qv_id e = qd_id d" "qv_selector e = i"
        by (auto simp: ranking_picks_def n pick_evidence_def)
      then have "d \<in> set (dq_candidates r)" using in_set_takeD [OF d(1)] order_members eligible_subset(1) members by blast
      then show "qv_selector e = i" "\<exists>d \<in> set (dq_candidates r). qd_id d = qv_id e
          \<and> (\<forall>y \<in> set (dq_candidates r). qd_id y \<notin> set (ls_taken st') \<longrightarrow> fair_pick P (dq_policy r) i s d y)"
        using fair [OF d(1)] d(2,3) by auto
    qed
  qed
qed

lemma fold_fair:
  assumes "comparator (locale_compare P)" "distinct (map qd_id (dq_candidates r))"
  shows "fold_result (select_step P r) ss st = Inr st' \<Longrightarrow> e \<in> set (ls_evidence st') \<Longrightarrow> e \<notin> set (ls_evidence st) \<Longrightarrow>
    \<exists>(i, s) \<in> set ss. qv_selector e = i \<and> (\<exists>c \<in> set (dq_candidates r). qd_id c = qv_id e
      \<and> (\<forall>y \<in> set (dq_candidates r). qd_id y \<notin> set (ls_taken st') \<longrightarrow> fair_pick P (dq_policy r) i s c y))"
proof (induction ss arbitrary: st)
  case (Cons x ss)
  obtain i s where x: "x = (i, s)" by (cases x)
  obtain st1 where st1: "select_step P r (i, s) st = Inr st1" "fold_result (select_step P r) ss st1 = Inr st'"
    using Cons.prems(1) by (auto simp: x bind_result_Inr_iff)
  obtain vs where vs: "st1 = add_picks vs st" "\<forall>e \<in> set vs. qv_selector e = i \<and> (\<exists>c \<in> set (dq_candidates r). qd_id c = qv_id e
      \<and> (\<forall>y \<in> set (dq_candidates r). qd_id y \<notin> set (ls_taken st1) \<longrightarrow> fair_pick P (dq_policy r) i s c y))"
    using step_fair [OF assms st1(1)] by blast
  obtain ws where "st' = add_picks ws st1" using fold_select_extends [OF st1(2)] by blast
  then have taken: "set (ls_taken st1) \<subseteq> set (ls_taken st')" by (simp add: add_picks_def)
  show ?case
  proof (cases "e \<in> set (ls_evidence st1)")
    case True
    then have "e \<in> set vs" using Cons.prems(3) vs(1) by (simp add: add_picks_def)
    with vs(2) taken show ?thesis unfolding x by (intro bexI [of _ "(i, s)"]) (simp_all, blast)
  next
    case False
    with Cons.IH [OF st1(2) Cons.prems(2)] show ?thesis by (auto simp: x)
  qed
qed simp

section \<open>Certified selections\<close>

lemma when_finding_Nil [simp]: "when_finding b f = [] \<longleftrightarrow> \<not> b"
  by (simp add: when_finding_def)

lemma compile_cases:
  assumes "compile_qualification P q = Inr k" "qk_certified k"
  obtains st where "validate_declarative (normalize_request P q) = []"
    "fold_result (select_step P (normalize_request P q)) (enumerate 0 (dq_selectors (normalize_request P q))) (start_selection (normalize_request P q)) = Inr st"
    "count_is (length (ls_ids st)) (dq_output (normalize_request P q))" "qk_ids k = ls_ids st" "qk_evidence k = ls_evidence st" "qk_findings k = []"
    "proof_for P (normalize_request P q) (ls_ids st) (ls_evidence st) [] = Inr (qk_proof k)"
  using assms by (auto simp: compile_qualification_def rejected_qualification_def Let_def bind_result_Inr_iff split: if_splits sum.splits)

lemma valid_request:
  assumes "validate_declarative r = []"
  shows "distinct (map qd_id (dq_candidates r))" "selection_inv r (start_selection r)"
  using assms by (auto simp: validate_declarative_def Let_def selection_inv_def start_selection_def)

lemma proof_for_ok: "proof_for P r ids vs fs = Inr p \<Longrightarrow> hashes (declarative_request_json r) \<and> hashes (evidence_list_json vs)"
  by (auto simp: proof_for_def bind_result_Inr_iff dest!: hashed)

lemma findings_hash [simp]: "hashes (qualification_findings_json fs)"
  by (auto simp: qualification_findings_json_def qualification_finding_json_def ball_Un)

lemma proof_for_total:
  assumes "hashes (declarative_request_json r)" "hashes (evidence_list_json vs)"
  shows "\<exists>p. proof_for P r ids vs fs = Inr p"
proof -
  have "hashes (candidates_json (dq_candidates r))" using assms(1) by (simp add: declarative_request_json_def)
  then obtain h u where h: "canonical_hash P (declarative_request_json r) = Inr h" "canonical_hash P (candidates_json (dq_candidates r)) = Inr u"
    using hash_of assms(1) by metis
  have "hashes (JObj [(''request'', declarative_request_json r), (''selectedCandidateIds'', strs ids), (''evidence'', evidence_list_json vs),
      (''findings'', qualification_findings_json fs), (''proof'', JObj (qualification_proof_fields base))])" for base
    using assms by (simp add: qualification_proof_fields_def scale_envelope_def)
  then show ?thesis using hash_of [of _ P] by (simp add: proof_for_def h Let_def bind_result_Inr_iff)
qed

text \<open>
  C17. A certified declarative qualification selects exactly the declared number of candidates, each once and none that was selected before,
  with one piece of evidence for each pick, in order, and the picks are fair: for every pick there is a selector of the request
  such that no candidate who is left out in the end deserved it more. A threshold is met by the pick and missed by everyone
  left out; a ranking prefers nobody left out (and eligible) to the pick; an authority named the pick under the approved
  hash; after a remainder nobody is left out.
\<close>

theorem declarative_selection_fair:
  assumes "comparator (locale_compare P)" "compile_qualification P q = Inr k" "qk_certified k"
  shows "js_finite (dq_output q) = Some (of_nat (length (qk_ids k))) \<and> distinct (qk_ids k) \<and> set (qk_ids k) \<subseteq> qd_id ` set (dq_candidates q) - set (dq_selected q)
    \<and> map qv_id (qk_evidence k) = qk_ids k
    \<and> (\<forall>e \<in> set (qk_evidence k). \<exists>s. nth_option (map normalize_selector (dq_selectors q)) (qv_selector e) = Some s \<and> (\<exists>c \<in> set (dq_candidates q). qd_id c = qv_id e
        \<and> (\<forall>y \<in> set (dq_candidates q). qd_id y \<notin> set (dq_selected q) \<longrightarrow> qd_id y \<notin> set (qk_ids k) \<longrightarrow> fair_pick P (dq_policy q) (qv_selector e) s c y)))"
proof -
  let ?r = "normalize_request P q"
  obtain st where st: "validate_declarative ?r = []" "fold_result (select_step P ?r) (enumerate 0 (dq_selectors ?r)) (start_selection ?r) = Inr st"
    "count_is (length (ls_ids st)) (dq_output ?r)" "qk_ids k = ls_ids st" "qk_evidence k = ls_evidence st"
    using compile_cases [OF assms(2,3)] by metis
  have fields: "set (dq_candidates ?r) = set (dq_candidates q)" "set (dq_selected ?r) = set (dq_selected q)" "dq_policy ?r = dq_policy q"
      "dq_output ?r = dq_output q" "dq_selectors ?r = map normalize_selector (dq_selectors q)"
    by (simp_all add: normalize_request_def)
  have inv: "selection_inv ?r st" using fold_select_inv [OF valid_request(1) [OF st(1)] st(2) valid_request(2) [OF st(1)]] .
  have fair: "\<exists>s. nth_option (map normalize_selector (dq_selectors q)) (qv_selector e) = Some s \<and> (\<exists>c \<in> set (dq_candidates q). qd_id c = qv_id e
        \<and> (\<forall>y \<in> set (dq_candidates q). qd_id y \<notin> set (dq_selected q) \<longrightarrow> qd_id y \<notin> set (qk_ids k) \<longrightarrow> fair_pick P (dq_policy q) (qv_selector e) s c y))"
    if "e \<in> set (qk_evidence k)" for e
  proof -
    have "e \<in> set (ls_evidence st)" "e \<notin> set (ls_evidence (start_selection ?r))" using that st(5) by (simp_all add: start_selection_def)
    from fold_fair [OF assms(1) valid_request(1) [OF st(1)] st(2) this]
    obtain i s where sel: "(i, s) \<in> set (enumerate 0 (dq_selectors ?r))" "qv_selector e = i"
        "\<exists>c \<in> set (dq_candidates ?r). qd_id c = qv_id e \<and> (\<forall>y \<in> set (dq_candidates ?r). qd_id y \<notin> set (ls_taken st) \<longrightarrow> fair_pick P (dq_policy ?r) i s c y)"
      by blast
    have "nth_option (map normalize_selector (dq_selectors q)) (qv_selector e) = Some s"
      using sel(1,2) fields(5) by (auto simp: in_set_enumerate_eq nth_option_def)
    moreover have "set (ls_taken st) = set (dq_selected q) \<union> set (qk_ids k)" using inv st(4) fields(2) by (simp add: selection_inv_def)
    ultimately show ?thesis using sel(2,3) unfolding fields by auto
  qed
  have "js_finite (dq_output q) = Some (of_nat (length (qk_ids k)))" using st(3,4) fields(4) by (simp add: count_is_def)
  moreover have "distinct (qk_ids k)" "set (qk_ids k) \<subseteq> qd_id ` set (dq_candidates q) - set (dq_selected q)" "map qv_id (qk_evidence k) = qk_ids k"
    using inv st(4,5) fields by (auto simp: selection_inv_def)
  ultimately show ?thesis using fair by blast
qed

lemma certified_verifies:
  assumes "compile_qualification P q = Inr k" "qk_certified k"
  shows "\<exists>v. verify_qualification P q k = Inr v \<and> qw_certified v \<and> qw_findings v = []"
proof -
  let ?r = "normalize_request P q"
  obtain st where st: "validate_declarative ?r = []" "fold_result (select_step P ?r) (enumerate 0 (dq_selectors ?r)) (start_selection ?r) = Inr st"
    "count_is (length (ls_ids st)) (dq_output ?r)" "qk_ids k = ls_ids st" "qk_evidence k = ls_evidence st" "qk_findings k = []"
    "proof_for P ?r (ls_ids st) (ls_evidence st) [] = Inr (qk_proof k)"
    using compile_cases [OF assms] by metis
  have inv: "selection_inv ?r st" using fold_select_inv [OF valid_request(1) [OF st(1)] st(2) valid_request(2) [OF st(1)]] .
  have replay: "foldl (\<lambda>acc is. verify_step P ?r is acc) ([], start_selection ?r) (enumerate 0 (dq_selectors ?r)) = ([], st)"
    using replay_agrees [OF st(2)] .
  have ok: "hashes (declarative_request_json ?r)" "hashes (evidence_list_json (ls_evidence st))" using proof_for_ok [OF st(7)] by simp_all
  obtain h g where h: "canonical_hash P (evidence_list_json (ls_evidence st)) = Inr h" "canonical_hash P (qualification_proof_json (qk_proof k)) = Inr g"
    using hash_of [OF ok(2)] hash_of [OF hashes_proof] by metis
  have "hashes (compilation_json k)" using ok(2) by (simp add: compilation_json_def status_json_def st(5))
  then have "hashes (JObj [(''request'', declarative_request_json ?r), (''compilation'', compilation_json k), (''findings'', qualification_findings_json [])])"
    using ok(1) by simp
  then obtain x where x: "canonical_hash P (JObj [(''request'', declarative_request_json ?r), (''compilation'', compilation_json k), (''findings'', qualification_findings_json [])]) = Inr x"
    using hash_of by blast
  have ids: "distinct (ls_ids st)" "\<not> list_ex (\<lambda>i. List.member (dq_selected ?r) i) (ls_ids st)" "map qv_id (ls_evidence st) = ls_ids st"
      "\<not> list_ex (\<lambda>i. \<not> List.member (map qd_id (dq_candidates ?r)) i) (ls_ids st)"
    using inv by (auto simp: selection_inv_def list_ex_iff)
  show ?thesis
    using st h x ids assms(2) by (simp add: verify_qualification_def Let_def replay when_finding_def)
qed

text \<open>
  C18. Every certified qualification passes its independent verification: the second implementation of the selectors, which shares no
  state with the first, finds nothing to report on what the first certifies.
\<close>

theorem declarative_verifies:
  assumes "compile_qualification P q = Inr k" "qk_certified k"
  shows "\<exists>v. verify_qualification P q k = Inr v \<and> qw_certified v \<and> qw_findings v = []"
  by (rule certified_verifies [OF assms])

text \<open>
  C19. The verification accepts nothing else: when it certifies a compilation of a request whose selectors are proper (see
  \<open>proper_selector\<close>), however the compilation was made, compiling the request is certified with the very same candidates
  in the same order.
\<close>

theorem declarative_verification_sound:
  assumes "verify_qualification P q k = Inr v" "qw_certified v" "list_all proper_selector (dq_selectors q)"
  shows "\<exists>k'. compile_qualification P q = Inr k' \<and> qk_certified k' \<and> qk_ids k' = qk_ids k"
proof -
  let ?r = "normalize_request P q"
  let ?replay = "foldl (\<lambda>acc is. verify_step P ?r is acc) ([], start_selection ?r) (enumerate 0 (dq_selectors ?r))"
  have valid: "validate_declarative ?r = []" "count_is (length (qk_ids k)) (dq_output ?r)" "fst ?replay = []" "ls_ids (snd ?replay) = qk_ids k"
    and ok: "hashes (declarative_request_json ?r)" "hashes (evidence_list_json (ls_evidence (snd ?replay)))"
    using assms(1,2) by (auto simp: verify_qualification_def Let_def bind_result_Inr_iff dest!: hashed)
  obtain st where st: "?replay = ([], st)" using valid(3) by (cases ?replay) simp
  have "sort xs = [] \<longleftrightarrow> xs = []" for xs :: "string list" by (metis set_empty set_sort)
  then have "proper_selector s \<Longrightarrow> proper_selector (normalize_selector s)" for s by (cases s) auto
  then have "\<forall>x \<in> set (enumerate 0 (dq_selectors ?r)). proper_selector (snd x)"
    using assms(3) by (auto simp: normalize_request_def list_all_iff in_set_enumerate_eq)
  from replay_complete [OF st this] have fold: "fold_result (select_step P ?r) (enumerate 0 (dq_selectors ?r)) (start_selection ?r) = Inr st" .
  have "\<exists>p. proof_for P ?r (ls_ids st) (ls_evidence st) [] = Inr p" using proof_for_total ok st by simp
  then show ?thesis
    using valid st fold by (auto simp: compile_qualification_def Let_def)
qed

section \<open>A concrete qualification\<close>

definition sample_declarative :: declarative_request where
  "sample_declarative = \<lparr>dq_policy = ''p'', dq_output = Num 1,
     dq_candidates = [\<lparr>qd_id = ''a'', qd_group = None, qd_rank = None, qd_metrics = [(''x'', Num 3)]\<rparr>,
       \<lparr>qd_id = ''b'', qd_group = None, qd_rank = None, qd_metrics = [(''x'', Num 1)]\<rparr>],
     dq_selected = [], dq_selectors = [ScoreThreshold ''x'' (Num 2)]\<rparr>"

lemma sample_declarative_normal: "normalize_request sample_platform sample_declarative = sample_declarative"
  by (simp add: normalize_request_def sample_declarative_def sample_platform_def)

definition sample_selection :: selection_state where
  "sample_selection = \<lparr>ls_taken = [''a''], ls_ids = [''a''], ls_evidence = [\<lparr>qv_id = ''a'', qv_selector = 0, qv_type = ''SCORE_THRESHOLD'',
     qv_value = Some (Num 3), qv_compared = [''a'', ''b''], qv_policy = None, qv_authority = None\<rparr>]\<rparr>"

lemma sample_compiles:
  "\<exists>k. compile_qualification sample_platform sample_declarative = Inr k \<and> qk_certified k \<and> qk_ids k = [''a'']"
proof -
  have one: "js_integer (Num 1) = Some 1" using js_integer_of_int [of 1] by simp
  have valid: "validate_declarative sample_declarative = []"
    by (simp add: validate_declarative_def sample_declarative_def Let_def one blank_iff is_space_def maximum_candidates_def maximum_selectors_def)
  have fold: "fold_result (select_step sample_platform sample_declarative) (enumerate 0 (dq_selectors sample_declarative)) (start_selection sample_declarative)
      = Inr sample_selection"
    by (simp add: sample_declarative_def start_selection_def select_step_def Let_def available_candidates_def threshold_step_def unvalued_def metric_of_def
        threshold_picks_def evaluate_metric_def value_less_def value_same_def pick_evidence_def add_picks_def sample_selection_def blank_iff is_space_def)
  have "hashes (declarative_request_json sample_declarative)" "hashes (evidence_list_json (ls_evidence sample_selection))"
    by (simp_all add: declarative_request_json_def sample_declarative_def candidates_json_def candidate_json_def opt_field_def selector_json_def
        evidence_list_json_def selection_evidence_json_def sample_selection_def)
  from proof_for_total [OF this] obtain p where
    "proof_for sample_platform sample_declarative (ls_ids sample_selection) (ls_evidence sample_selection) [] = Inr p" by blast
  then show ?thesis
    using valid fold
    by (simp add: compile_qualification_def sample_declarative_normal Let_def count_is_def sample_selection_def)
       (simp add: sample_declarative_def)
qed

lemma sample_comparator: "comparator (locale_compare sample_platform)"
  using sample_collation by (simp add: strict_comparator_def)

theorem declarative_selection_fair_witness:
  "\<exists>k. compile_qualification sample_platform sample_declarative = Inr k \<and> qk_ids k = [''a''] \<and> js_finite (dq_output sample_declarative) = Some (of_nat (length (qk_ids k)))"
proof -
  obtain k where k: "compile_qualification sample_platform sample_declarative = Inr k" "qk_certified k" "qk_ids k = [''a'']" using sample_compiles by blast
  have "js_finite (dq_output sample_declarative) = Some (of_nat (length (qk_ids k)))"
    using declarative_selection_fair [OF sample_comparator k(1,2)] by (rule conjunct1)
  with k show ?thesis by blast
qed

theorem declarative_verifies_witness:
  "\<exists>k v. compile_qualification sample_platform sample_declarative = Inr k \<and> verify_qualification sample_platform sample_declarative k = Inr v \<and> qw_certified v"
proof -
  obtain k where k: "compile_qualification sample_platform sample_declarative = Inr k" "qk_certified k" using sample_compiles by blast
  with declarative_verifies [OF k] show ?thesis by blast
qed

lemma sample_verified:
  "\<exists>k v. verify_qualification sample_platform sample_declarative k = Inr v \<and> qw_certified v \<and> qk_ids k = [''a'']"
  using sample_compiles certified_verifies by blast

theorem declarative_verification_sound_witness:
  "\<exists>k'. compile_qualification sample_platform sample_declarative = Inr k' \<and> qk_certified k' \<and> qk_ids k' = [''a'']"
proof -
  obtain k v where k: "verify_qualification sample_platform sample_declarative k = Inr v" "qw_certified v" "qk_ids k = [''a'']"
    using sample_verified by blast
  have "list_all proper_selector (dq_selectors sample_declarative)" by (simp add: sample_declarative_def)
  from declarative_verification_sound [OF k(1,2) this] k(3) show ?thesis by simp
qed

end
