(* ===== verification/QualificationProofs.thy ===== *)
theory QualificationProofs
  imports Qualification DeclarativeProofs
begin

text \<open>
  The correctness of packages/competition-engine/src/qualification.ts.

  \<^item> \<open>qualification_inv\<close>: after any policies nobody has qualified twice, the seats of every destination are its evidence, seeded from
    one, and a destination that has not failed holds as many as its policies declare.
  \<^item> \<open>policy_cases\<close>: a policy is skipped, fails its destination or adds its qualifiers; the declarative branch rests on the
    facts of DeclarativeProofs.
\<close>

section \<open>Picks of a policy\<close>

lemma known_id: "entrant_map es i = Some e \<Longrightarrow> en_id e = i"
  by (auto simp: entrant_map_def dest!: map_of_SomeD)

lemma seat_of_known: "entrant_map es i \<noteq> None \<Longrightarrow> seat_id (seat_of (entrant_map es) i pool) = Some i"
  using known_id by (force simp: seat_of_def split: option.splits)

text \<open>Rows without duplicates that come from others.\<close>

definition drawn_from :: "standing list \<Rightarrow> standing list \<Rightarrow> bool" where
  "drawn_from rows xs \<longleftrightarrow> set xs \<subseteq> set rows \<and> distinct (map tb_entrant xs)"

lemma drawn_filter: "drawn_from rows xs \<Longrightarrow> drawn_from rows (filter Q xs)"
  by (auto simp: drawn_from_def distinct_map_filter)

lemma drawn_sort: "drawn_from rows xs \<Longrightarrow> drawn_from rows (sort_by cmp xs)"
  by (simp add: drawn_from_def)

lemma drawn_slice: "drawn_from rows xs \<Longrightarrow> drawn_from rows (slice_first n xs)"
  by (auto simp: drawn_from_def slice_first_def take_map [symmetric] dest: in_set_takeD)

lemma drawn_append: "drawn_from rows xs \<Longrightarrow> drawn_from rows ys \<Longrightarrow> tb_entrant ` set xs \<inter> tb_entrant ` set ys = {} \<Longrightarrow> drawn_from rows (xs @ ys)"
  by (simp add: drawn_from_def)

lemma drawn_refl: "distinct (map tb_entrant rows) \<Longrightarrow> drawn_from rows rows"
  by (simp add: drawn_from_def)

lemma selector_rows_drawn: "distinct (map tb_entrant rows) \<Longrightarrow> drawn_from rows (selector_rows P p rows s)"
  by (cases s) (auto intro!: drawn_slice drawn_sort drawn_filter drawn_refl simp: drawn_from_def [of _ "[]"])

lemma picks_ranked:
  assumes "distinct (map tb_entrant rows)"
  shows "foldl (\<lambda>acc s. pick_selector P p rows s acc) (picked, st) ss = (picked', st') \<Longrightarrow> drawn_from rows picked \<Longrightarrow>
    set (map tb_entrant picked) \<inter> set (qt_selected st) = {} \<Longrightarrow>
    drawn_from rows picked' \<and> set (map tb_entrant picked') \<inter> set (qt_selected st) = {} \<and> (\<exists>fs. st' = st\<lparr>qt_findings := qt_findings st @ fs\<rparr>)"
proof (induction ss arbitrary: picked st)
  case Nil
  then show ?case by (auto intro: exI [of _ "[]"])
next
  case (Cons s ss)
  let ?available = "filter (\<lambda>r. \<not> List.member (qt_selected st) (tb_entrant r) \<and> \<not> List.member (map tb_entrant picked) (tb_entrant r)) rows"
  let ?new = "selector_rows P p ?available s"
  obtain gs where step: "pick_selector P p rows s (picked, st) = (picked @ ?new, st\<lparr>qt_findings := qt_findings st @ gs\<rparr>)"
    by (cases s) (auto simp: pick_selector_def Let_def add_finding_def intro: that [of "[]"] that)
  have new: "drawn_from ?available ?new" using assms by (intro selector_rows_drawn) (simp add: distinct_map_filter)
  have "drawn_from rows (picked @ ?new)" "set (map tb_entrant (picked @ ?new)) \<inter> set (qt_selected st) = {}"
  proof -
    have fresh: "r \<in> set rows \<and> tb_entrant r \<notin> set (qt_selected st) \<and> tb_entrant r \<notin> tb_entrant ` set picked" if "r \<in> set ?new" for r
    proof -
      have "r \<in> set ?available" using new that unfolding drawn_from_def by (rule subsetD [OF conjunct1])
      then show ?thesis by auto
    qed
    define xs where "xs = ?new"
    have drawn: "drawn_from ?available xs" using new unfolding xs_def .
    have fresh: "r \<in> set rows \<and> tb_entrant r \<notin> set (qt_selected st) \<and> tb_entrant r \<notin> tb_entrant ` set picked" if "r \<in> set xs" for r
      by (rule fresh) (use that in \<open>simp only: xs_def\<close>)
    then have "drawn_from rows xs" using drawn unfolding drawn_from_def by (auto simp only: subset_iff)
    moreover have "tb_entrant ` set picked \<inter> tb_entrant ` set xs = {}" "tb_entrant ` set xs \<inter> set (qt_selected st) = {}"
      using fresh by (auto, metis imageI)
    ultimately show "drawn_from rows (picked @ ?new)" "set (map tb_entrant (picked @ ?new)) \<inter> set (qt_selected st) = {}"
      using drawn_append [OF Cons.prems(2)] Cons.prems(3) unfolding xs_def [symmetric] by (simp_all add: image_Un Int_Un_distrib2)
  qed
  then show ?case using Cons.IH [of "picked @ ?new" "st\<lparr>qt_findings := qt_findings st @ gs\<rparr>"] Cons.prems(1) step by auto
qed

lemma certified_ids:
  assumes "compile_qualification P q = Inr k" "qk_certified k"
  shows "distinct (qk_ids k) \<and> set (qk_ids k) \<subseteq> qd_id ` set (dq_candidates q) - set (dq_selected q) \<and> map qv_id (qk_evidence k) = qk_ids k
    \<and> count_is (length (qk_ids k)) (dq_output q)"
proof -
  let ?r = "normalize_request P q"
  obtain st where st: "validate_declarative ?r = []" "fold_result (select_step P ?r) (enumerate 0 (dq_selectors ?r)) (start_selection ?r) = Inr st"
    "count_is (length (ls_ids st)) (dq_output ?r)" "qk_ids k = ls_ids st" "qk_evidence k = ls_evidence st"
    using compile_cases [OF assms] by metis
  have "selection_inv ?r st" using fold_select_inv [OF valid_request(1) [OF st(1)] st(2) valid_request(2) [OF st(1)]] .
  then show ?thesis using st(3-5) by (auto simp: selection_inv_def normalize_request_def)
qed

text \<open>Qualifiers that a policy adds.\<close>

definition new_qualifiers :: "qualification_policy \<Rightarrow> qualification_state \<Rightarrow> seat list \<Rightarrow> qualification_evidence list \<Rightarrow> bool" where
  "new_qualifiers p st seats vs \<longleftrightarrow> map seat_id seats = map (\<lambda>v. Some (qe_id v)) vs \<and> (\<forall>v \<in> set vs. qe_destination v = ql_destination p)
     \<and> distinct (map qe_id vs) \<and> set (map qe_id vs) \<inter> set (qt_selected st) = {} \<and> count_is (length vs) (ql_output p)"

definition with_qualifiers :: "qualification_policy \<Rightarrow> seat list \<Rightarrow> qualification_evidence list \<Rightarrow> validation_finding list \<Rightarrow> policy_proof list
    \<Rightarrow> qualification_state \<Rightarrow> qualification_state" where
  "with_qualifiers p seats vs fs proofs st = (append_destination (ql_destination p) seats (st\<lparr>qt_findings := qt_findings st @ fs\<rparr>))
     \<lparr>qt_selected := js_unique (qt_selected st @ map qe_id vs), qt_evidence := qt_evidence st @ vs, qt_proofs := qt_proofs st @ proofs\<rparr>"

lemma append_fields [simp]:
  "qt_selected (append_destination d xs st) = qt_selected st" "qt_evidence (append_destination d xs st) = qt_evidence st"
  "qt_proofs (append_destination d xs st) = qt_proofs st" "qt_findings (append_destination d xs st) = qt_findings st" "qt_failed (append_destination d xs st) = qt_failed st"
  by (simp_all add: append_destination_def)

lemma no_findings [simp]: "st\<lparr>qt_findings := qt_findings st\<rparr> = (st :: qualification_state)"
  by simp

lemma hash_refused_Inr [simp]: "hash_refused x = Inr y \<longleftrightarrow> x = Inr y" "hash_refused (Inr y) = Inr y"
  by (cases x) (simp_all add: hash_refused_def)

lemma ranked_cases:
  assumes "distinct (map tb_entrant rows)" "\<forall>r \<in> set rows. entrant_map es (tb_entrant r) \<noteq> None"
  shows "(\<exists>fs. fs \<noteq> [] \<and> qualify_ranked P policies (entrant_map es) rows p st = fail_destination policies (ql_destination p) (st\<lparr>qt_findings := qt_findings st @ fs\<rparr>))
    \<or> (\<exists>seats vs fs. new_qualifiers p st seats vs \<and> qualify_ranked P policies (entrant_map es) rows p st = with_qualifiers p seats vs fs [] st)"
proof -
  obtain picked st1 where fold: "foldl (\<lambda>acc s. pick_selector P p rows s acc) ([], st) (ql_selectors p) = (picked, st1)" by fastforce
  from picks_ranked [OF assms(1) this] obtain fs where picked: "drawn_from rows picked" "set (map tb_entrant picked) \<inter> set (qt_selected st) = {}"
      "st1 = st\<lparr>qt_findings := qt_findings st @ fs\<rparr>" by (auto simp: drawn_from_def)
  show ?thesis
  proof (cases "count_is (length picked) (ql_output p)")
    case False
    then show ?thesis by (auto simp: qualify_ranked_def fold picked(3) add_finding_def)
  next
    case True
    let ?seats = "map (\<lambda>r. seat_of (entrant_map es) (tb_entrant r) (standing_pool r)) picked" and ?vs = "map (ranked_evidence p picked) picked"
    have "map seat_id ?seats = map (\<lambda>v. Some (qe_id v)) ?vs"
      using picked(1) assms(2) seat_of_known by (auto simp: ranked_evidence_def drawn_from_def)
    then have "new_qualifiers p st ?seats ?vs" using picked True by (auto simp: new_qualifiers_def ranked_evidence_def drawn_from_def comp_def)
    moreover have "qualify_ranked P policies (entrant_map es) rows p st = with_qualifiers p ?seats ?vs fs [] st"
      using True by (simp add: qualify_ranked_def fold picked(3) with_qualifiers_def ranked_evidence_def comp_def Let_def)
    ultimately show ?thesis by blast
  qed
qed

lemma declared_cases:
  assumes "distinct (map tb_entrant rows)" "\<forall>r \<in> set rows. entrant_map es (tb_entrant r) \<noteq> None" "qualify_declared P policies (entrant_map es) rows p st = Inr st'"
  shows "(\<exists>fs. fs \<noteq> [] \<and> st' = fail_destination policies (ql_destination p) (st\<lparr>qt_findings := qt_findings st @ fs\<rparr>))
    \<or> (\<exists>seats vs proofs. new_qualifiers p st seats vs \<and> st' = with_qualifiers p seats vs [] proofs st)"
proof (cases "incompatible_types p \<noteq> [] \<or> unknown_ids (entrant_map es) rows \<noteq> []")
  case True
  then show ?thesis using assms(3) by (auto simp: qualify_declared_def Let_def add_finding_def)
next
  case False
  then obtain sels k v where k: "compile_qualification P (declarative_request_of p rows (qt_selected st) sels) = Inr k"
      "verify_qualification P (declarative_request_of p rows (qt_selected st) sels) k = Inr v" "map_result map_declarative (ql_selectors p) = Inr sels"
    using assms(3) by (auto simp: qualify_declared_def Let_def bind_result_Inr_iff split: sum.splits)
  show ?thesis
  proof (cases "qk_certified k \<and> qw_certified v")
    case not: False
    then show ?thesis using assms(3) False k by (auto simp: qualify_declared_def Let_def add_finding_def)
  next
    case True
    let ?hash = "qp_hash (qk_proof k)" and ?seat = "\<lambda>i. seat_of (entrant_map es) i (case standing_by_id rows i of None \<Rightarrow> None | Some r \<Rightarrow> standing_pool r)"
    obtain vs where vs: "map_result (declared_evidence p rows ?hash) (qk_evidence k) = Inr vs"
        "st' = with_qualifiers p (map ?seat (qk_ids k)) vs [] [\<lparr>pq_policy = ql_id p, pq_proof = ?hash, pq_verification = qw_hash v\<rparr>] st"
      using assms(3) False k True by (auto simp: qualify_declared_def Let_def bind_result_Inr_iff with_qualifiers_def)
    have ids: "distinct (qk_ids k)" "set (qk_ids k) \<subseteq> tb_entrant ` set rows - set (filter (\<lambda>i. List.member (map tb_entrant rows) i) (qt_selected st))"
        "map qv_id (qk_evidence k) = qk_ids k" "count_is (length (qk_ids k)) (ql_output p)"
      using certified_ids [OF k(1)] True by (auto simp: declarative_request_of_def standing_candidate_def image_image)
    have all2: "list_all2 (\<lambda>x w. declared_evidence p rows ?hash x = Inr w) (qk_evidence k) vs" using vs(1) by (simp add: map_result_Inr_iff)
    then have "map qe_id vs = map qv_id (qk_evidence k)"
      by (induction rule: list_all2_induct) (auto simp: declared_evidence_def split: option.splits)
    then have same: "map qe_id vs = qk_ids k" using ids(3) by simp
    have dest: "qe_destination w = ql_destination p" if "w \<in> set vs" for w
    proof -
      from list_all2_witness [OF all2 that] obtain x where "declared_evidence p rows ?hash x = Inr w" by blast
      then show ?thesis by (auto simp: declared_evidence_def split: option.splits)
    qed
    have "map seat_id (map ?seat (qk_ids k)) = map Some (qk_ids k)"
      using ids(2) assms(2) seat_of_known by fastforce
    moreover have "length vs = length (qk_ids k)" using same by (metis length_map)
    moreover have "map (\<lambda>w. Some (qe_id w)) vs = map Some (qk_ids k)" unfolding same [symmetric] by simp
    moreover have "set (qk_ids k) \<inter> set (qt_selected st) = {}" using ids(2) by auto
    ultimately have "new_qualifiers p st (map ?seat (qk_ids k)) vs"
      using ids(1,4) dest unfolding new_qualifiers_def same by simp
    then show ?thesis using vs(2) by blast
  qed
qed

section \<open>The invariant\<close>

fun seat_seed :: "seat \<Rightarrow> rat option" where
  "seat_seed (Seat e) = en_seed e"
| "seat_seed (Nameless p n) = n"

definition evidence_at :: "qualification_state \<Rightarrow> string \<Rightarrow> qualification_evidence list" where
  "evidence_at st d = filter (\<lambda>e. qe_destination e = d) (qt_evidence st)"

text \<open>How many qualifiers the policies \<open>ps\<close> declare for a destination.\<close>

definition declared_output :: "qualification_policy list \<Rightarrow> string \<Rightarrow> rat" where
  "declared_output ps d = sum_list (map (\<lambda>p. case js_finite (ql_output p) of None \<Rightarrow> 0 | Some n \<Rightarrow> n) (filter (\<lambda>p. ql_destination p = d) ps))"

definition seats_exact :: "qualification_state \<Rightarrow> bool" where
  "seats_exact st \<longleftrightarrow> (\<forall>d. map seat_id (seats_at st d) = map (\<lambda>e. Some (qe_id e)) (evidence_at st d)
     \<and> map seat_seed (seats_at st d) = map (\<lambda>i. Some (of_nat (i + 1))) [0..<length (seats_at st d)]
     \<and> (d \<in> set (qt_failed st) \<longrightarrow> evidence_at st d = []))"

definition qualification_inv :: "qualification_policy list \<Rightarrow> qualification_state \<Rightarrow> bool" where
  "qualification_inv ps st \<longleftrightarrow> distinct (map qe_id (qt_evidence st)) \<and> set (qt_selected st) = qe_id ` set (qt_evidence st) \<and> seats_exact st
     \<and> (\<forall>d. d \<notin> set (qt_failed st) \<longrightarrow> declared_output ps d = of_nat (length (evidence_at st d)))
     \<and> (qt_failed st \<noteq> [] \<longrightarrow> qt_findings st \<noteq> [])"

lemma new_inv: "qualification_inv [] new_qualification"
  by (simp add: qualification_inv_def new_qualification_def seats_exact_def seats_at_def evidence_at_def declared_output_def)

lemma seats_fail: "seats_at (fail_destination policies d st) d' = (if d' = d then [] else seats_at st d')"
  by (simp add: seats_at_def fail_destination_def)

lemma evidence_fail: "evidence_at (fail_destination policies d st) d' = (if d' = d then [] else evidence_at st d')"
  by (auto simp: evidence_at_def fail_destination_def intro: filter_cong)

lemma findings_at [simp]: "seats_at (st\<lparr>qt_findings := fs\<rparr>) d = seats_at st d" "evidence_at (st\<lparr>qt_findings := fs\<rparr>) d = evidence_at st d"
  by (simp_all add: seats_at_def evidence_at_def)

lemma fail_inv:
  assumes "qualification_inv ps st" "fs \<noteq> []" "ql_destination p = d"
  shows "qualification_inv (ps @ [p]) (fail_destination policies d (st\<lparr>qt_findings := qt_findings st @ fs\<rparr>))"
proof -
  let ?st = "st\<lparr>qt_findings := qt_findings st @ fs\<rparr>"
  let ?st' = "fail_destination policies d ?st"
  have inv: "distinct (map qe_id (qt_evidence st))" "set (qt_selected st) = qe_id ` set (qt_evidence st)" "seats_exact st"
    "\<And>d. d \<notin> set (qt_failed st) \<Longrightarrow> declared_output ps d = of_nat (length (evidence_at st d))"
    using assms(1) by (simp_all add: qualification_inv_def)
  have seats: "map seat_id (seats_at st d) = map (\<lambda>e. Some (qe_id e)) (evidence_at st d)" using inv(3) by (simp add: seats_exact_def)
  then have "set (map seat_id (seats_at st d)) = set (map (\<lambda>e. Some (qe_id e)) (evidence_at st d))" by simp
  then have ids: "Some i \<in> seat_id ` set (seats_at st d) \<longleftrightarrow> i \<in> qe_id ` {e \<in> set (qt_evidence st). qe_destination e = d}" for i
    by (auto simp: evidence_at_def image_iff)
  have "set (qt_selected ?st') = qe_id ` set (qt_evidence st) - qe_id ` {e \<in> set (qt_evidence st). qe_destination e = d}"
    using inv(2) ids by (auto simp: fail_destination_def)
  also have "\<dots> = qe_id ` (set (qt_evidence st) - {e \<in> set (qt_evidence st). qe_destination e = d})"
    using inv(1) by (intro inj_on_image_set_diff [symmetric, of qe_id "set (qt_evidence st)"]) (auto simp: distinct_map)
  also have "set (qt_evidence st) - {e \<in> set (qt_evidence st). qe_destination e = d} = set (qt_evidence ?st')" by (auto simp: fail_destination_def)
  finally have selected: "set (qt_selected ?st') = qe_id ` set (qt_evidence ?st')" .
  have "seats_exact ?st'" using inv(3) by (auto simp: seats_exact_def seats_fail evidence_fail) (auto simp: fail_destination_def)
  moreover have "distinct (map qe_id (qt_evidence ?st'))" using inv(1) by (simp add: fail_destination_def distinct_map_filter)
  moreover have "declared_output (ps @ [p]) d' = of_nat (length (evidence_at ?st' d'))" if "d' \<notin> set (qt_failed ?st')" for d'
  proof -
    have "d' \<noteq> d" "d' \<notin> set (qt_failed st)" using that by (auto simp: fail_destination_def)
    then show ?thesis using inv(4) assms(3) by (simp add: evidence_fail declared_output_def)
  qed
  ultimately show ?thesis using selected assms(2) by (simp add: qualification_inv_def) (simp add: fail_destination_def)
qed

lemma seeds_enumerate: "map seat_seed (map (\<lambda>(i, x). with_seed (of_nat (i + 1)) x) (enumerate n xs)) = map (\<lambda>i. Some (of_nat (i + 1))) [n..<n + length xs]"
proof (induction xs arbitrary: n)
  case (Cons x xs)
  have "[n..<n + length (x # xs)] = n # [Suc n..<Suc n + length xs]" by (simp add: upt_conv_Cons del: upt_Suc)
  then show ?case using Cons [of "Suc n"] by (cases x) (simp_all del: upt_Suc)
qed simp

lemma ids_enumerate: "map seat_id (map (\<lambda>(i, x). with_seed (of_nat (i + 1)) x) (enumerate n xs)) = map seat_id xs"
proof (induction xs arbitrary: n)
  case (Cons x xs)
  then show ?case by (cases x) simp_all
qed simp

lemma seats_append:
  "seats_at (append_destination d xs st) d' = (if d' = d \<and> d \<notin> set (qt_failed st) then map (\<lambda>(i, x). with_seed (of_nat (i + 1)) x) (enumerate 0 (seats_at st d @ xs)) else seats_at st d')"
  by (simp add: seats_at_def append_destination_def)

lemma with_qualifiers_inv:
  assumes "qualification_inv ps st" "new_qualifiers p st seats vs" "ql_destination p \<notin> set (qt_failed st)"
  shows "qualification_inv (ps @ [p]) (with_qualifiers p seats vs fs proofs st)"
proof -
  let ?d = "ql_destination p" and ?st' = "with_qualifiers p seats vs fs proofs st"
  have inv: "distinct (map qe_id (qt_evidence st))" "set (qt_selected st) = qe_id ` set (qt_evidence st)" "seats_exact st"
    "\<And>d. d \<notin> set (qt_failed st) \<Longrightarrow> declared_output ps d = of_nat (length (evidence_at st d))" "qt_failed st \<noteq> [] \<longrightarrow> qt_findings st \<noteq> []"
    using assms(1) by (simp_all add: qualification_inv_def)
  have new: "map seat_id seats = map (\<lambda>v. Some (qe_id v)) vs" "\<And>v. v \<in> set vs \<Longrightarrow> qe_destination v = ?d" "distinct (map qe_id vs)"
      "set (map qe_id vs) \<inter> set (qt_selected st) = {}" "js_finite (ql_output p) = Some (of_nat (length vs))"
    using assms(2) by (simp_all add: new_qualifiers_def count_is_def)
  have fields: "qt_evidence ?st' = qt_evidence st @ vs" "set (qt_selected ?st') = set (qt_selected st) \<union> set (map qe_id vs)" "qt_failed ?st' = qt_failed st"
      "qt_findings ?st' = qt_findings st @ fs"
    by (simp_all add: with_qualifiers_def)
  have evidence: "evidence_at ?st' d = evidence_at st d @ (if d = ?d then vs else [])" for d
    using new(2) by (auto simp: evidence_at_def fields(1) filter_id_conv filter_empty_conv)
  have seats: "seats_at ?st' d = (if d = ?d then map (\<lambda>(i, x). with_seed (of_nat (i + 1)) x) (enumerate 0 (seats_at st d @ seats)) else seats_at st d)" for d
    using assms(3) seats_append [of ?d seats "st\<lparr>qt_findings := qt_findings st @ fs\<rparr>"] by (simp add: with_qualifiers_def seats_at_def)
  have "seats_exact ?st'"
    unfolding seats_exact_def
  proof (intro allI conjI impI)
    fix d
    have old: "map seat_id (seats_at st d) = map (\<lambda>e. Some (qe_id e)) (evidence_at st d)"
      "map seat_seed (seats_at st d) = map (\<lambda>i. Some (of_nat (i + 1))) [0..<length (seats_at st d)]" "d \<in> set (qt_failed st) \<Longrightarrow> evidence_at st d = []"
      using inv(3) by (simp_all add: seats_exact_def)
    show "map seat_id (seats_at ?st' d) = map (\<lambda>e. Some (qe_id e)) (evidence_at ?st' d)"
      unfolding seats evidence using old(1) new(1) ids_enumerate [of 0 "seats_at st d @ seats"] by (cases "d = ?d") simp_all
    show "map seat_seed (seats_at ?st' d) = map (\<lambda>i. Some (of_nat (i + 1))) [0..<length (seats_at ?st' d)]"
      unfolding seats using old(2) seeds_enumerate [of 0 "seats_at st d @ seats"] by (cases "d = ?d") (simp_all del: map_map)
    assume "d \<in> set (qt_failed ?st')"
    then show "evidence_at ?st' d = []" using old(3) assms(3) by (auto simp: evidence fields(3))
  qed
  moreover have "distinct (map qe_id (qt_evidence ?st'))" using inv(1,2) new(3,4) by (auto simp: fields(1))
  moreover have "declared_output (ps @ [p]) d = of_nat (length (evidence_at ?st' d))" if "d \<notin> set (qt_failed st)" for d
    using inv(4) [OF that] new(5) by (simp add: declared_output_def evidence)
  ultimately show ?thesis using inv(2,5) fields unfolding qualification_inv_def by auto
qed

lemma policy_inv:
  assumes "qualification_inv ps st" "qualify_policy P spec standings entrants p st = Inr st'"
    "distinct (map tb_entrant (standings (ql_source p)))"
    "\<forall>r \<in> set (standings (ql_source p)). entrant_map (entrants (division_of spec (ql_source p))) (tb_entrant r) \<noteq> None"
  shows "qualification_inv (ps @ [p]) st'"
proof (cases "ql_destination p \<in> set (qt_failed st)")
  case True
  then have "st' = st" using assms(2) by (simp add: qualify_policy_def Let_def)
  then show ?thesis using assms(1) True by (auto simp: qualification_inv_def declared_output_def)
next
  case False
  show ?thesis
  proof (cases "ql_normalization p \<noteq> None \<and> ql_normalization p \<noteq> Some ''per_match'' \<and> ql_normalization p \<noteq> Some ''percentage''")
    case True
    then obtain f where "st' = fail_destination (qs_policies spec) (ql_destination p) (st\<lparr>qt_findings := qt_findings st @ [f]\<rparr>)"
      using assms(2) False by (auto simp: qualify_policy_def Let_def add_finding_def)
    then show ?thesis using fail_inv [OF assms(1), of "[f]"] by simp
  next
    case normal: False
    have "(\<exists>fs. fs \<noteq> [] \<and> st' = fail_destination (qs_policies spec) (ql_destination p) (st\<lparr>qt_findings := qt_findings st @ fs\<rparr>))
      \<or> (\<exists>seats vs fs proofs. new_qualifiers p st seats vs \<and> st' = with_qualifiers p seats vs fs proofs st)"
    proof (cases "list_ex (\<lambda>s. List.member declarative_types (schema_type s)) (ql_selectors p)")
      case True
      then have "qualify_declared P (qs_policies spec) (entrant_map (entrants (division_of spec (ql_source p)))) (standings (ql_source p)) p st = Inr st'"
        using assms(2) False normal by (auto simp: qualify_policy_def Let_def)
      from declared_cases [OF assms(3,4) this] show ?thesis by blast
    next
      case ranked: False
      then have "st' = qualify_ranked P (qs_policies spec) (entrant_map (entrants (division_of spec (ql_source p)))) (standings (ql_source p)) p st"
        using assms(2) False normal by (auto simp: qualify_policy_def Let_def)
      with ranked_cases [OF assms(3,4), of P "qs_policies spec" p st] show ?thesis by metis
    qed
    then show ?thesis using fail_inv [OF assms(1)] with_qualifiers_inv [OF assms(1) _ False] by blast
  qed
qed

definition standings_known :: "qualification_spec \<Rightarrow> (string \<Rightarrow> standing list) \<Rightarrow> (string \<Rightarrow> entrant list) \<Rightarrow> bool" where
  "standings_known spec standings entrants \<longleftrightarrow> (\<forall>p \<in> set (qs_policies spec). distinct (map tb_entrant (standings (ql_source p)))
     \<and> (\<forall>r \<in> set (standings (ql_source p)). entrant_map (entrants (division_of spec (ql_source p))) (tb_entrant r) \<noteq> None))"

lemma policies_inv:
  assumes "\<forall>p \<in> set ps'. distinct (map tb_entrant (standings (ql_source p)))
     \<and> (\<forall>r \<in> set (standings (ql_source p)). entrant_map (entrants (division_of spec (ql_source p))) (tb_entrant r) \<noteq> None)"
  shows "fold_result (qualify_policy P spec standings entrants) ps' st = Inr st' \<Longrightarrow> qualification_inv ps st \<Longrightarrow> qualification_inv (ps @ ps') st'"
  using assms
proof (induction ps' arbitrary: ps st)
  case (Cons p ps')
  then obtain st1 where st1: "qualify_policy P spec standings entrants p st = Inr st1" "fold_result (qualify_policy P spec standings entrants) ps' st1 = Inr st'"
    by (auto simp: bind_result_Inr_iff)
  have "qualification_inv (ps @ [p]) st1" using policy_inv [OF Cons.prems(2) st1(1)] Cons.prems(3) by simp
  from Cons.IH [OF st1(2) this] Cons.prems(3) show ?case by simp
qed simp

section \<open>Properties\<close>

text \<open>
  C20. Qualification is exclusive and exact: for standings without duplicates whose entrants the division knows, nobody qualifies twice, whatever the
  policies (ranks, pools, declarative selectors) and their failures; the seats of every destination are its evidence in order, seeded from
  one; a destination one of whose policies failed is empty, and every other one holds exactly as many entrants as its policies
  declare; without findings no destination has failed.
\<close>

theorem qualification_exclusive:
  assumes "standings_known spec standings entrants" "qualify P spec standings entrants = Inr st"
  shows "distinct (map qe_id (qt_evidence st))
    \<and> (\<forall>d. map seat_id (seats_at st d) = map (\<lambda>e. Some (qe_id e)) (evidence_at st d)
         \<and> map seat_seed (seats_at st d) = map (\<lambda>i. Some (of_nat (i + 1))) [0..<length (seats_at st d)]
         \<and> (if d \<in> set (qt_failed st) then seats_at st d = [] else declared_output (qs_policies spec) d = of_nat (length (seats_at st d))))
    \<and> (qt_findings st = [] \<longrightarrow> qt_failed st = [])"
proof -
  have inv: "qualification_inv (qs_policies spec) st"
    using policies_inv [of "qs_policies spec" standings entrants spec P new_qualification st "[]"] assms new_inv
    by (simp add: standings_known_def qualify_def)
  have "length (seats_at st d) = length (evidence_at st d)" for d
  proof -
    have "map seat_id (seats_at st d) = map (\<lambda>e. Some (qe_id e)) (evidence_at st d)" using inv by (simp add: qualification_inv_def seats_exact_def)
    then show ?thesis by (rule map_eq_imp_length_eq)
  qed
  then show ?thesis using inv by (auto simp: qualification_inv_def seats_exact_def)
qed

section \<open>A concrete qualification\<close>

definition sample_spec :: qualification_spec where
  "sample_spec = \<lparr>qs_stages = [(''s'', ''d'')], qs_policies = [\<lparr>ql_id = ''p'', ql_source = ''s'', ql_destination = ''f'', ql_output = Num 1,
     ql_selectors = [PoolWinners], ql_normalization = None\<rparr>]\<rparr>"

definition sample_standings :: "string \<Rightarrow> standing list" where
  "sample_standings stage = [(new_row (Some ''A'') ''a'')\<lparr>tb_rank := 1\<rparr>, (new_row (Some ''A'') ''b'')\<lparr>tb_rank := 2\<rparr>]"

definition sample_field :: "string \<Rightarrow> entrant list" where
  "sample_field d = [\<lparr>en_id = ''a'', en_division = ''d'', en_members = [], en_seed = None, en_pool = None\<rparr>,
     \<lparr>en_id = ''b'', en_division = ''d'', en_members = [], en_seed = None, en_pool = None\<rparr>]"

lemma sample_known: "standings_known sample_spec sample_standings sample_field"
  by (simp add: standings_known_def sample_spec_def sample_standings_def sample_field_def new_row_def entrant_map_def)

lemma sample_qualifies: "\<exists>st. qualify sample_platform sample_spec sample_standings sample_field = Inr st \<and> qt_failed st = [] \<and> length (seats_at st ''f'') = 1"
  by (simp add: qualify_def sample_spec_def qualify_policy_def Let_def declarative_types_def qualify_ranked_def pick_selector_def sample_standings_def
      new_row_def new_qualification_def count_is_def append_destination_def seats_at_def)

theorem qualification_exclusive_witness:
  "\<exists>st. qualify sample_platform sample_spec sample_standings sample_field = Inr st \<and> map seat_id (seats_at st ''f'') = map (\<lambda>e. Some (qe_id e)) (evidence_at st ''f'')
     \<and> declared_output (qs_policies sample_spec) ''f'' = 1"
proof -
  obtain st where st: "qualify sample_platform sample_spec sample_standings sample_field = Inr st" "qt_failed st = []" "length (seats_at st ''f'') = 1"
    using sample_qualifies by blast
  from qualification_exclusive [OF sample_known st(1)] st(2,3)
  have "map seat_id (seats_at st ''f'') = map (\<lambda>e. Some (qe_id e)) (evidence_at st ''f'')" "declared_output (qs_policies sample_spec) ''f'' = 1"
    by (simp_all add: st(2))
  with st(1) show ?thesis by blast
qed

end
