(* ===== verification/RankedProofs.thy ===== *)
theory RankedProofs
  imports RankedFormats
begin

text \<open>
  The theorems about ladders, heats, time trials and qualification.

  \<^item> A ladder that challenges built verifies and keeps its competitors; a won challenge moves the
    challenger to the place of the defender and everybody between them one place down.
  \<^item> Certified heats hold every active entrant once, on distinct lanes of the policy.
  \<^item> A certified ranking is sorted and its ranks are what the tie policy says; a certified
    qualification lets nobody pass who is behind somebody that is left out.
\<close>

section \<open>Sorting by a key first\<close>

text \<open>
  A comparator that compares a key first sorts by the key, whatever breaks the ties.
\<close>

lemma sorted_insert_by_key:
  assumes "\<And>a b. k a b \<le> 0 \<Longrightarrow> R (f a) (f b)" "\<And>a b. 0 \<le> k a b \<Longrightarrow> R (f b) (f a)" "transp R" "sorted_wrt R (map f ys)"
  shows "sorted_wrt R (map f (insert_by (\<lambda>a b. or_else (k a b) (d a b)) x ys))"
  using assms(4)
proof (induction ys)
  case (Cons y ys)
  show ?case
  proof (cases "or_else (k x y) (d x y) \<le> 0")
    case True
    then have "k x y \<le> 0" by (auto simp: or_else_def split: if_splits)
    then have "R (f x) (f y)" by (rule assms(1))
    then show ?thesis using True Cons.prems by (auto dest: transpD [OF assms(3)])
  next
    case False
    then have "0 \<le> k x y" by (auto simp: or_else_def split: if_splits)
    then have "R (f y) (f x)" by (rule assms(2))
    then show ?thesis using False Cons by auto
  qed
qed simp

lemma sorted_sort_by_key:
  assumes "\<And>a b. k a b \<le> 0 \<Longrightarrow> R (f a) (f b)" "\<And>a b. 0 \<le> k a b \<Longrightarrow> R (f b) (f a)" "transp R"
  shows "sorted_wrt R (map f (sort_by (\<lambda>a b. or_else (k a b) (d a b)) xs))"
  by (induction xs) (auto intro: sorted_insert_by_key [OF assms])

definition as_good :: "better_mark \<Rightarrow> rat \<Rightarrow> rat \<Rightarrow> bool" where
  "as_good b x y = (\<not> ahead b y x)"

lemma as_good_laws: "transp (as_good b)" "as_good b x y \<or> as_good b y x" "as_good b x x" "ahead b x y \<Longrightarrow> as_good b x y"
  "better_cmp b x y \<le> 0 \<Longrightarrow> as_good b x y" "0 \<le> better_cmp b x y \<Longrightarrow> as_good b y x"
  by (cases b; auto simp: as_good_def ahead_def better_cmp_def transp_def)+

lemma ordered_results_sorted: "sorted_wrt (as_good (qr_better q)) (map score_of (ordered_results P q))"
  unfolding ordered_results_def by (rule sorted_sort_by_key) (auto intro: as_good_laws)

lemma seeded_order_sorted: "sorted_wrt (as_good b) (map (\<lambda>e. num_value (sn_mark e)) (seeded_order P b es))"
  unfolding seeded_order_def by (rule sorted_sort_by_key) (auto intro: as_good_laws)

lemma valid_trials_sorted: "sorted (map time_value (valid_trials P q))"
  unfolding valid_trials_def by (rule sorted_sort_by_key) (auto simp: transp_def)

section \<open>Ladders\<close>

text \<open>The ladders that challenges make of a new ladder.\<close>

inductive ladder_reach :: "platform \<Rightarrow> string \<Rightarrow> string list \<Rightarrow> ladder_state \<Rightarrow> bool" for P i order where
  created: "create_ladder P i order = Inr l \<Longrightarrow> ladder_reach P i order l"
| challenged: "ladder_reach P i order l \<Longrightarrow> ladder_reach P i order (lt_ladder (apply_ladder_challenge P l c))"

lemma ladder_hash_sealed [simp]:
  "ladder_state_hash P (seal_ladder P l) = ld_hash (seal_ladder P l)" "ld_audit (seal_ladder P l) = ld_audit l"
  "ld_order (seal_ladder P l) = ld_order l" "ld_version (seal_ladder P l) = ld_version l" "ld_id (seal_ladder P l) = ld_id l"
  by (simp_all add: seal_ladder_def ladder_state_hash_def ladder_fields_def)

lemma ladder_rejected_fields [simp]: "\<not> lt_certified (ladder_rejected P l code msg)" "lt_ladder (ladder_rejected P l code msg) = l"
  by (simp_all add: ladder_rejected_def seal_transition_def)

definition last_challenge_hash :: "string option \<Rightarrow> ladder_event list \<Rightarrow> string option" where
  "last_challenge_hash previous es = (if es = [] then previous else Some (le_hash (last es)))"

lemma audit_chain_snoc:
  "audit_chain P i previous (es @ [e]) = audit_chain P i previous es @ audit_findings_of P (i + length es) (last_challenge_hash previous es) e"
  by (induction es arbitrary: i previous) (auto simp: last_challenge_hash_def)

lemma sealed_challenge_ok:
  assumes "le_sequence e = int i + 1" "le_previous e = previous"
  shows "audit_findings_of P i previous (seal_challenge P e) = []"
  using assms by (simp add: audit_findings_of_def seal_challenge_def ladder_event_fields_def)

lemma move_up_split:
  assumes "index_of x xs = Some i" "index_of y xs = Some j" "j < i"
  shows "\<exists>us vs ws. xs = us @ y # vs @ x # ws \<and> move_up i j x xs = us @ x # y # vs @ ws \<and> length us = j \<and> i = Suc (j + length vs)"
proof -
  note x = index_of_Some [OF assms(1)] and y = index_of_Some [OF assms(2)]
  have tail: "drop i xs = x # drop (Suc i) xs" using x by (metis Cons_nth_drop_Suc)
  let ?us = "take j xs" and ?vs = "take (i - Suc j) (drop (Suc j) xs)" and ?ws = "drop (Suc i) xs"
  have mid: "take i xs = ?us @ y # ?vs"
  proof -
    have "take i xs = take (Suc j) xs @ take (i - Suc j) (drop (Suc j) xs)"
      using assms(3) take_add [of "Suc j" "i - Suc j" xs] by simp
    then show ?thesis using y by (simp add: take_Suc_conv_app_nth)
  qed
  have "xs = take i xs @ x # ?ws" using tail by (metis append_take_drop_id)
  then have "xs = ?us @ y # ?vs @ x # ?ws" using mid by simp
  moreover have "move_up i j x xs = ?us @ x # y # ?vs @ ?ws"
    using y assms(3) by (simp add: move_up_def Let_def mid)
  moreover have "length ?us = j" using y by simp
  moreover have "i = Suc (j + length ?vs)" using x y assms(3) by (auto simp: min_def)
  ultimately show ?thesis by blast
qed

text \<open>What a certified challenge did.\<close>

lemma certified_challenge:
  assumes "lt_certified (apply_ladder_challenge P l c)"
  obtains i j d e where "verify_ladder P l = []" "index_of (lc_challenger c) (ld_order l) = Some i" "index_of (lc_defender c) (ld_order l) = Some j"
    "js_integer (lc_distance c) = Some d" "j < i" "int i - int j \<le> d" "lc_winner c = lc_challenger c \<or> lc_winner c = lc_defender c"
    "le_sequence e = int (length (ld_audit l)) + 1" "le_previous e = last_challenge_hash None (ld_audit l)"
    "lt_ladder (apply_ladder_challenge P l c) = seal_ladder P \<lparr>ld_id = ld_id l, ld_version = ld_version l + 1,
       ld_order = (if lc_winner c = lc_challenger c then move_up i j (lc_challenger c) (ld_order l) else ld_order l),
       ld_audit = ld_audit l @ [seal_challenge P e], ld_hash = []\<rparr>"
proof -
  have valid: "verify_ladder P l = []" using assms by (auto simp: apply_ladder_challenge_def split: if_splits)
  obtain i where i: "index_of (lc_challenger c) (ld_order l) = Some i"
    using assms by (auto simp: apply_ladder_challenge_def split: if_splits option.splits)
  obtain j where j: "index_of (lc_defender c) (ld_order l) = Some j"
    using assms by (auto simp: apply_ladder_challenge_def split: if_splits option.splits)
  obtain d where d: "js_integer (lc_distance c) = Some d"
    using assms by (auto simp: apply_ladder_challenge_def split: if_splits option.splits)
  obtain t where t: "date_parse P (lc_at c) = Some t"
    using assms valid by (auto simp: apply_ladder_challenge_def split: if_splits)
  have rest: "\<not> blank (lc_actor c)" "\<not> blank (lc_reason c)"
    "\<not> (lc_winner c \<noteq> lc_challenger c \<and> lc_winner c \<noteq> lc_defender c)" "\<not> (d < 1 \<or> i \<le> j \<or> int i - int j > d)"
    using assms valid i j d by (auto simp: apply_ladder_challenge_def split: if_splits)
  let ?e = "\<lparr>le_sequence = int (length (ld_audit l)) + 1, le_challenger = lc_challenger c,
     le_defender = lc_defender c, le_winner = lc_winner c, le_actor = lc_actor c, le_at = lc_at c, le_reason = lc_reason c,
     le_previous = last_challenge_hash None (ld_audit l), le_hash = []\<rparr>"
  have "lt_ladder (apply_ladder_challenge P l c) = seal_ladder P \<lparr>ld_id = ld_id l, ld_version = ld_version l + 1,
     ld_order = (if lc_winner c = lc_challenger c then move_up i j (lc_challenger c) (ld_order l) else ld_order l),
     ld_audit = ld_audit l @ [seal_challenge P ?e], ld_hash = []\<rparr>"
    using valid i j d t rest
    by (cases "lc_winner c = lc_challenger c") (auto simp: apply_ladder_challenge_def Let_def seal_transition_def last_challenge_hash_def)
  with that [of i j d ?e] show ?thesis using valid i j d t rest by auto
qed

lemma challenge_verifies:
  assumes "verify_ladder P l = []"
  shows "verify_ladder P (lt_ladder (apply_ladder_challenge P l c)) = [] \<and> mset (ld_order (lt_ladder (apply_ladder_challenge P l c))) = mset (ld_order l)"
proof (cases "lt_certified (apply_ladder_challenge P l c)")
  case False
  then have "lt_ladder (apply_ladder_challenge P l c) = l"
    by (auto simp: apply_ladder_challenge_def Let_def seal_transition_def split: if_splits option.splits)
  then show ?thesis using assms by simp
next
  case True
  then obtain i j d e where c: "index_of (lc_challenger c) (ld_order l) = Some i" "index_of (lc_defender c) (ld_order l) = Some j" "j < i"
    "le_sequence e = int (length (ld_audit l)) + 1" "le_previous e = last_challenge_hash None (ld_audit l)"
    "lt_ladder (apply_ladder_challenge P l c) = seal_ladder P \<lparr>ld_id = ld_id l, ld_version = ld_version l + 1,
       ld_order = (if lc_winner c = lc_challenger c then move_up i j (lc_challenger c) (ld_order l) else ld_order l),
       ld_audit = ld_audit l @ [seal_challenge P e], ld_hash = []\<rparr>"
    by (rule certified_challenge)
  let ?order = "if lc_winner c = lc_challenger c then move_up i j (lc_challenger c) (ld_order l) else ld_order l"
  have order: "mset ?order = mset (ld_order l)"
    using move_up_split [OF c(1-3)] by (elim exE conjE) simp
  have old: "audit_chain P 0 None (ld_audit l) = []" "ld_version l = int (length (ld_audit l))" "distinct (ld_order l)"
    using assms by (auto simp: verify_ladder_def duplicate_ids_Nil split: if_splits)
  have "distinct ?order" using order old(3) by (metis mset_eq_imp_distinct_iff)
  moreover have "audit_chain P 0 None (ld_audit l @ [seal_challenge P e]) = []"
    using old(1) sealed_challenge_ok [OF c(4,5)] by (simp add: audit_chain_snoc)
  ultimately show ?thesis using order old(2) unfolding c(6) verify_ladder_def by (simp add: duplicate_ids_Nil)
qed

lemma created_ladder_verifies: "create_ladder P i order = Inr l \<Longrightarrow> verify_ladder P l = [] \<and> ld_order l = order"
  by (auto simp: create_ladder_def verify_ladder_def split: if_splits)

lemma reached_ladder: "ladder_reach P i order l \<Longrightarrow> verify_ladder P l = [] \<and> mset (ld_order l) = mset order"
  by (induction rule: ladder_reach.induct) (use created_ladder_verifies challenge_verifies in auto)

text \<open>
  A ladder keeps its competitors and its proof. Every ladder that challenges make of a created one
  verifies without findings and is a permutation of the initial order. A certified challenge won by
  the challenger puts the challenger directly above the defender, within the pinned distance, and
  leaves the order of everybody else; one won by the defender leaves the order; a rejected one
  leaves the ladder.
\<close>

theorem ladder_challenges:
  fixes c :: ladder_challenge
  assumes "ladder_reach P i order l"
  defines "t \<equiv> apply_ladder_challenge P l c"
  shows "verify_ladder P l = [] \<and> mset (ld_order l) = mset order
    \<and> (\<not> lt_certified t \<longrightarrow> lt_ladder t = l)
    \<and> (lt_certified t \<longrightarrow> lc_winner c = lc_challenger c \<longrightarrow> (\<exists>us vs ws d. ld_order l = us @ lc_defender c # vs @ lc_challenger c # ws
        \<and> ld_order (lt_ladder t) = us @ lc_challenger c # lc_defender c # vs @ ws
        \<and> js_integer (lc_distance c) = Some d \<and> int (length vs) < d))
    \<and> (lt_certified t \<longrightarrow> lc_winner c \<noteq> lc_challenger c \<longrightarrow> lc_winner c = lc_defender c \<and> ld_order (lt_ladder t) = ld_order l)"
proof (cases "lt_certified t")
  case False
  then have "lt_ladder t = l"
    by (auto simp: t_def apply_ladder_challenge_def Let_def seal_transition_def split: if_splits option.splits)
  then show ?thesis using False reached_ladder [OF assms(1)] by simp
next
  case True
  then obtain i j d e where c: "index_of (lc_challenger c) (ld_order l) = Some i" "index_of (lc_defender c) (ld_order l) = Some j"
    "js_integer (lc_distance c) = Some d" "j < i" "int i - int j \<le> d" "lc_winner c = lc_challenger c \<or> lc_winner c = lc_defender c"
    "lt_ladder t = seal_ladder P \<lparr>ld_id = ld_id l, ld_version = ld_version l + 1,
       ld_order = (if lc_winner c = lc_challenger c then move_up i j (lc_challenger c) (ld_order l) else ld_order l),
       ld_audit = ld_audit l @ [seal_challenge P e], ld_hash = []\<rparr>"
    unfolding t_def by (rule certified_challenge)
  obtain us vs ws where m: "ld_order l = us @ lc_defender c # vs @ lc_challenger c # ws"
    "move_up i j (lc_challenger c) (ld_order l) = us @ lc_challenger c # lc_defender c # vs @ ws" "i = Suc (j + length vs)"
    using move_up_split [OF c(1,2,4)] by blast
  have won: "lc_winner c = lc_challenger c \<Longrightarrow> ld_order (lt_ladder t) = us @ lc_challenger c # lc_defender c # vs @ ws"
    unfolding c(7) using m(2) by simp
  have lost: "lc_winner c \<noteq> lc_challenger c \<Longrightarrow> ld_order (lt_ladder t) = ld_order l"
    unfolding c(7) by simp
  have "int (length vs) < d" using m(3) c(5) by simp
  then have "lc_winner c = lc_challenger c \<Longrightarrow> \<exists>us vs ws d. ld_order l = us @ lc_defender c # vs @ lc_challenger c # ws
      \<and> ld_order (lt_ladder t) = us @ lc_challenger c # lc_defender c # vs @ ws \<and> js_integer (lc_distance c) = Some d \<and> int (length vs) < d"
    using m(1) won c(3) by blast
  then show ?thesis using reached_ladder [OF assms(1)] True lost c(6) by blast
qed

definition sample_ladder :: ladder_state where
  "sample_ladder = seal_ladder sample_platform \<lparr>ld_id = ''L'', ld_version = 0, ld_order = [''a'', ''b'', ''c''], ld_audit = [], ld_hash = []\<rparr>"

definition sample_challenge :: ladder_challenge where
  "sample_challenge = \<lparr>lc_challenger = ''c'', lc_defender = ''a'', lc_winner = ''c'', lc_distance = Num 2, lc_actor = ''x'', lc_at = ''T1'',
     lc_reason = ''r''\<rparr>"

lemma sample_ladder_created: "create_ladder sample_platform ''L'' [''a'', ''b'', ''c''] = Inr sample_ladder"
  by (simp add: create_ladder_def sample_ladder_def blank_iff is_space_def duplicate_ids_Nil)

lemma sample_challenge_certified: "lt_certified (apply_ladder_challenge sample_platform sample_ladder sample_challenge)"
proof -
  have "verify_ladder sample_platform sample_ladder = []" using created_ladder_verifies [OF sample_ladder_created] by simp
  moreover have "js_integer (Num 2) = Some 2" using js_integer_of_int [of 2] by simp
  moreover have "date_parse sample_platform ''T1'' \<noteq> None"
    by (simp add: sample_platform_def sample_date_parse_def digits_of.simps digit_chars)
  ultimately show ?thesis
    by (simp add: apply_ladder_challenge_def sample_challenge_def Let_def seal_transition_def blank_iff is_space_def)
      (simp add: sample_ladder_def Let_def seal_transition_def)
qed

theorem ladder_challenges_witness:
  "lt_certified (apply_ladder_challenge sample_platform sample_ladder sample_challenge)
   \<and> verify_ladder sample_platform sample_ladder = [] \<and> ld_order sample_ladder = [''a'', ''b'', ''c'']
   \<and> ld_order (lt_ladder (apply_ladder_challenge sample_platform sample_ladder sample_challenge)) = [''c'', ''a'', ''b'']"
proof -
  have r: "ladder_reach sample_platform ''L'' [''a'', ''b'', ''c''] sample_ladder" by (rule ladder_reach.created [OF sample_ladder_created])
  have o: "ld_order sample_ladder = [''a'', ''b'', ''c'']" by (simp add: sample_ladder_def)
  show ?thesis using ladder_challenges [OF r, of sample_challenge] sample_challenge_certified o
    by (auto simp: sample_challenge_def Cons_eq_append_conv)
qed

section \<open>Heats\<close>

lemma serpentine_less: "0 < k \<Longrightarrow> serpentine k i < k"
  by (simp add: serpentine_def Let_def less_imp_diff_less)

text \<open>Two seeds of one row are in different heats.\<close>

lemma serpentine_row: "0 < k \<Longrightarrow> serpentine k i = serpentine k j \<Longrightarrow> i div k = j div k \<Longrightarrow> i = j"
proof -
  assume k: "0 < k" and eq: "serpentine k i = serpentine k j" and row: "i div k = j div k"
  have "i mod k < k" "j mod k < k" using k by simp_all
  moreover have "i mod k = j mod k \<or> k - 1 - i mod k = k - 1 - j mod k" using eq row by (auto simp: serpentine_def Let_def split: if_splits)
  ultimately have "i mod k = j mod k" by linarith
  with row show "i = j" by (metis div_mult_mod_eq)
qed

lemma fold_buckets:
  assumes "0 < k" "length bs = k"
  shows "foldl (\<lambda>bs (i, e). bs[serpentine k i := bs ! serpentine k i @ [(e, i + 1)]]) bs xs
    = map (\<lambda>h. bs ! h @ map (\<lambda>(i, e). (e, i + 1)) (filter (\<lambda>(i, e). serpentine k i = h) xs)) [0..<k]"
  using assms(2)
proof (induction xs arbitrary: bs)
  case Nil
  then show ?case by (simp add: list_eq_iff_nth_eq)
next
  case (Cons x xs)
  obtain i e where x: "x = (i, e)" by force
  have "length (bs[serpentine k i := bs ! serpentine k i @ [(e, i + 1)]]) = k" using Cons.prems by simp
  from Cons.IH [OF this] show ?case
    using Cons.prems serpentine_less [OF assms(1), of i] unfolding x by (auto simp: nth_list_update)
qed

definition bucket_of :: "nat \<Rightarrow> seeded_entrant list \<Rightarrow> nat \<Rightarrow> (seeded_entrant \<times> nat) list" where
  "bucket_of k seeded h = map (\<lambda>(i, e). (e, i + 1)) (filter (\<lambda>(i, e). serpentine k i = h) (enumerate 0 seeded))"

lemma heat_buckets_eq: "0 < k \<Longrightarrow> heat_buckets k seeded = map (bucket_of k seeded) [0..<k]"
  unfolding heat_buckets_def by (subst fold_buckets) (auto simp: bucket_of_def)

lemma filter_enumerate: "map fst (filter (\<lambda>(i, e). Q i) (enumerate n xs)) = filter Q [n..<n + length xs]"
proof (induction xs arbitrary: n)
  case (Cons x xs)
  have "[n..<n + length (x # xs)] = n # [Suc n..<Suc n + length xs]"
    using upt_conv_Cons [of n "n + length (x # xs)"] by simp
  then show ?case using Cons [of "Suc n"] by (simp only: enumerate_simps filter.simps split_conv) simp
qed simp

lemma bucket_positions:
  "map snd (bucket_of k seeded h) = map Suc (filter (\<lambda>i. serpentine k i = h) [0..<length seeded])"
proof -
  have "map snd (bucket_of k seeded h) = map Suc (map fst (filter (\<lambda>(i, e). serpentine k i = h) (enumerate 0 seeded)))"
    by (auto simp: bucket_of_def)
  then show ?thesis by (simp only: filter_enumerate) simp
qed

lemma bucket_sorted: "sorted_wrt (<) (map snd (bucket_of k seeded h))"
  by (simp add: bucket_positions sorted_wrt_map sorted_wrt_filter)

text \<open>A heat is at most one seed per row, so a field within the capacity fits the lanes.\<close>

lemma bucket_length:
  assumes "0 < k" "length seeded \<le> k * lanes"
  shows "length (bucket_of k seeded h) \<le> lanes"
proof -
  let ?I = "filter (\<lambda>i. serpentine k i = h) [0..<length seeded]"
  have "length (bucket_of k seeded h) = length ?I" using bucket_positions by (metis length_map)
  also have "\<dots> = card (set ?I)" by (rule distinct_card [symmetric]) simp
  also have "\<dots> = card ((\<lambda>i. i div k) ` set ?I)"
    by (rule card_image [symmetric]) (auto intro!: inj_onI dest: serpentine_row [OF assms(1)])
  also have "\<dots> \<le> card {..<lanes}"
  proof (rule card_mono)
    show "(\<lambda>i. i div k) ` set ?I \<subseteq> {..<lanes}"
      using assms by (auto intro!: less_mult_imp_div_less simp: mult.commute intro: less_le_trans)
  qed simp
  finally show ?thesis by simp
qed

lemma buckets_cover:
  assumes "0 < k"
  shows "mset (concat (map (bucket_of k seeded) [0..<k])) = mset (map (\<lambda>(i, e). (e, i + 1)) (enumerate 0 seeded))"
proof -
  have "mset (concat (map (\<lambda>h. map f (filter (\<lambda>x. g x = h) xs)) [0..<k])) = mset (map f xs)"
    if "\<And>x. g x < k" for f :: "nat \<times> seeded_entrant \<Rightarrow> seeded_entrant \<times> nat" and g and xs
  proof (induction xs)
    case (Cons x xs)
    have "mset (concat (map (\<lambda>h. map f (filter (\<lambda>y. g y = h) (x # xs))) [0..<k]))
        = mset (concat (map (\<lambda>h. if g x = h then [f x] else []) [0..<k])) + mset (concat (map (\<lambda>h. map f (filter (\<lambda>y. g y = h) xs)) [0..<k]))"
      by (induction k) auto
    moreover have "concat (map (\<lambda>h. if n = h then [f x] else []) [0..<k]) = (if n < k then [f x] else [])" for n
      by (induction k) auto
    ultimately show ?case using Cons that by simp
  qed (induction k, auto)
  from this [of "\<lambda>(i, e). serpentine k i" "\<lambda>(i, e). (e, i + 1)" "enumerate 0 seeded"] serpentine_less [OF assms]
  show ?thesis by (simp add: bucket_of_def [abs_def] case_prod_unfold)
qed

lemma bucket_even:
  assumes "h < k"
  shows "length seeded div k \<le> length (bucket_of k seeded h)"
proof -
  let ?I = "filter (\<lambda>i. serpentine k i = h) [0..<length seeded]"
  let ?at = "\<lambda>r. r * k + (if even r then h else k - 1 - h)"
  have off: "(if even r then h else k - 1 - h) < k" for r using assms by auto
  have row: "?at r div k = r" and ser: "serpentine k (?at r) = h" for r
    using off [of r] assms by (auto simp: serpentine_def Let_def)
  have bound: "?at r < length seeded" if "r < length seeded div k" for r
  proof -
    have "?at r < Suc r * k" using off [of r] by simp
    also have "\<dots> \<le> (length seeded div k) * k" using that by (intro mult_le_mono1) simp
    also have "\<dots> \<le> length seeded" by (rule div_times_less_eq_dividend)
    finally show ?thesis .
  qed
  have "?at ` {..<length seeded div k} \<subseteq> set ?I"
    using bound ser by auto
  then have "card (?at ` {..<length seeded div k}) \<le> card (set ?I)" by (intro card_mono) simp_all
  moreover have "card (?at ` {..<length seeded div k}) = length seeded div k"
    using row by (subst card_image) (auto intro: inj_on_inverseI [where g = "\<lambda>i. i div k"])
  moreover have "card (set ?I) = length ?I" by (rule distinct_card) simp
  moreover have "length (bucket_of k seeded h) = length ?I" using bucket_positions by (metis length_map)
  ultimately show ?thesis by simp
qed

lemma sort_by_sorted: "sorted_wrt (\<lambda>x y. cmp x y \<le> 0) xs \<Longrightarrow> sort_by cmp xs = xs"
proof (induction xs)
  case (Cons x xs)
  then have "sort_by cmp xs = xs" by simp
  then show ?case using Cons.prems by (cases xs) simp_all
qed simp

lemma lanes_of_fields:
  assumes "sorted_wrt (<) (map snd bucket)"
  shows "map la_competitor (lanes_of pr bucket) = map (\<lambda>x. sn_id (fst x)) bucket" "map la_rank (lanes_of pr bucket) = map snd bucket"
    "length (lanes_of pr bucket) = length bucket" "map la_lane (lanes_of pr bucket) = map (nth_option pr) [0..<length bucket]"
proof -
  have "sorted_wrt (\<lambda>x y. num_cmp (snd x) (snd y) \<le> 0) bucket"
    using assms by (auto simp: sorted_wrt_map elim: sorted_wrt_mono_rel [rotated])
  then have s: "sort_by (\<lambda>x y. num_cmp (snd x) (snd y)) bucket = bucket" by (rule sort_by_sorted)
  have "map (\<lambda>(i, e, r). f e) (enumerate n xs) = map (\<lambda>x. f (fst x)) xs" for f :: "seeded_entrant \<Rightarrow> 'b" and n and xs :: "(seeded_entrant \<times> nat) list"
    by (induction xs arbitrary: n) auto
  then show "map la_competitor (lanes_of pr bucket) = map (\<lambda>x. sn_id (fst x)) bucket"
    by (simp add: lanes_of_def s comp_def case_prod_unfold)
  have "map (\<lambda>(i, e, r). r) (enumerate n xs) = map snd xs" for n and xs :: "(seeded_entrant \<times> nat) list"
    by (induction xs arbitrary: n) auto
  then show "map la_rank (lanes_of pr bucket) = map snd bucket"
    by (simp add: lanes_of_def s comp_def case_prod_unfold)
  show "length (lanes_of pr bucket) = length bucket" by (simp add: lanes_of_def)
  have "map la_lane (lanes_of pr bucket) = map (\<lambda>x. nth_option pr (fst x)) (enumerate 0 bucket)"
    by (simp add: lanes_of_def s comp_def case_prod_unfold)
  also have "\<dots> = map (nth_option pr) (map fst (enumerate 0 bucket))" by (simp only: map_map comp_def)
  finally show "map la_lane (lanes_of pr bucket) = map (nth_option pr) [0..<length bucket]"
    by (simp only: map_fst_enumerate) simp
qed

lemma lanes_of_seed:
  assumes "a \<in> set (lanes_of pr (bucket_of k seeded h))"
  shows "\<exists>i < length seeded. la_rank a = i + 1 \<and> la_competitor a = sn_id (seeded ! i) \<and> la_mark a = sn_mark (seeded ! i) \<and> serpentine k i = h"
proof -
  let ?S = "sort_by (\<lambda>x y. num_cmp (snd x) (snd y)) (bucket_of k seeded h)"
  obtain n e r where er: "(n, e, r) \<in> set (enumerate 0 ?S)"
    "la_competitor a = sn_id e" "la_rank a = r" "la_mark a = sn_mark e"
    using assms unfolding lanes_of_def set_map by force
  have "n < length ?S" "(e, r) = ?S ! n" using er(1) by (simp_all add: in_set_enumerate_eq)
  then have "(e, r) \<in> set ?S" by (metis nth_mem)
  then have "(e, r) \<in> set (bucket_of k seeded h)" by simp
  then obtain i where "r = i + 1" "(i, e) \<in> set (enumerate 0 seeded)" "serpentine k i = h" by (auto simp: bucket_of_def)
  then show ?thesis using er by (auto simp: in_set_enumerate_eq)
qed

lemma map_nth_option: "n \<le> length xs \<Longrightarrow> map (nth_option xs) [0..<n] = map Some (take n xs)"
  by (auto simp: list_eq_iff_nth_eq nth_option_def)

lemma length_js_unique_distinct: "length (js_unique xs) = length xs \<Longrightarrow> distinct xs"
  by (metis card_distinct distinct_card distinct_js_unique set_js_unique)

text \<open>The conditions under which heats are certified, and what the heats are then.\<close>

lemma certified_heats:
  assumes "ho_certified (assign_qualifying_heats P q)"
  obtains k lanes where "js_integer (hr_heats q) = Some (int k)" "js_integer (hr_lanes q) = Some (int lanes)" "0 < k" "0 < lanes"
    "distinct (map sn_id (active_entrants q))" "length (active_entrants q) \<le> k * lanes" "length (hr_priority q) = lanes" "distinct (hr_priority q)"
    "ho_heats (assign_qualifying_heats P q) = fill_heats P q k"
    "ho_exact (assign_qualifying_heats P q) = (let assigned = concat (map (\<lambda>h. map la_competitor (qh_assignments h)) (fill_heats P q k))
       in length assigned = length (active_entrants q) \<and> length (js_unique assigned) = length (active_entrants q))"
proof -
  let ?k = "nat (the (js_integer (hr_heats q)))" and ?n = "nat (the (js_integer (hr_lanes q)))"
  note [simp] = heat_rejected_def seal_heats_def
  have ids: "duplicate_ids (map sn_id (hr_entrants q)) = []" using assms by (auto simp: assign_qualifying_heats_def Let_def split: if_splits)
  have pos: "positive_int (hr_heats q)" "positive_int (hr_lanes q)" using assms by (auto simp: assign_qualifying_heats_def Let_def split: if_splits)
  have fit: "length (active_entrants q) \<le> ?k * ?n" using assms by (auto simp: assign_qualifying_heats_def Let_def split: if_splits)
  have lanes: "length (hr_priority q) = ?n" "length (js_unique (hr_priority q)) = ?n"
    using assms by (auto simp: assign_qualifying_heats_def Let_def split: if_splits)
  have heats: "ho_heats (assign_qualifying_heats P q) = fill_heats P q ?k"
    using assms by (auto simp: assign_qualifying_heats_def Let_def split: if_splits)
  have exact: "ho_exact (assign_qualifying_heats P q) = (let assigned = concat (map (\<lambda>h. map la_competitor (qh_assignments h)) (fill_heats P q ?k))
       in length assigned = length (active_entrants q) \<and> length (js_unique assigned) = length (active_entrants q))"
    using assms by (auto simp: assign_qualifying_heats_def Let_def split: if_splits)
  have "js_integer (hr_heats q) = Some (int ?k)" "js_integer (hr_lanes q) = Some (int ?n)" "0 < ?k" "0 < ?n"
    using pos by (auto simp: positive_int_def split: option.splits)
  moreover have "distinct (map sn_id (active_entrants q))"
    using ids by (simp add: duplicate_ids_Nil active_entrants_def distinct_map_filter)
  moreover have "distinct (hr_priority q)" using lanes length_js_unique_distinct by metis
  ultimately show ?thesis using that fit lanes(1) heats exact by metis
qed

text \<open>
  Heats are fair and complete. When heats are certified, every active entrant is in exactly one lane of
  exactly one heat, as the proof claims; the sizes of the heats differ by at most one; within a heat the
  lanes are the first of the lane priority, all different, in the order of the seeds; and the seed rank
  of a lane is the position of its entrant in the order of seed marks, best first.
\<close>

theorem heats_assign_once:
  assumes "ho_certified (assign_qualifying_heats P q)"
  defines "hs \<equiv> ho_heats (assign_qualifying_heats P q)" and "seeded \<equiv> seeded_order P (hr_better q) (active_entrants q)"
  shows "mset (concat (map (\<lambda>h. map la_competitor (qh_assignments h)) hs)) = mset (map sn_id (active_entrants q))
    \<and> distinct (map sn_id (active_entrants q)) \<and> ho_exact (assign_qualifying_heats P q)
    \<and> js_integer (hr_heats q) = Some (int (length hs)) \<and> sorted_wrt (as_good (hr_better q)) (map (\<lambda>e. num_value (sn_mark e)) seeded)
    \<and> (\<forall>h \<in> set hs.
        length (active_entrants q) div length hs \<le> length (qh_assignments h) \<and> length (qh_assignments h) \<le> length (active_entrants q) div length hs + 1
        \<and> map la_lane (qh_assignments h) = map Some (take (length (qh_assignments h)) (hr_priority q)) \<and> distinct (hr_priority q)
        \<and> sorted_wrt (<) (map la_rank (qh_assignments h))
        \<and> (\<forall>a \<in> set (qh_assignments h). \<exists>i < length seeded. la_rank a = i + 1 \<and> la_competitor a = sn_id (seeded ! i)))"
proof -
  obtain k lanes where c: "js_integer (hr_heats q) = Some (int k)" "0 < k"
    "distinct (map sn_id (active_entrants q))" "length (active_entrants q) \<le> k * lanes" "length (hr_priority q) = lanes" "distinct (hr_priority q)"
    "ho_heats (assign_qualifying_heats P q) = fill_heats P q k"
    "ho_exact (assign_qualifying_heats P q) = (let assigned = concat (map (\<lambda>h. map la_competitor (qh_assignments h)) (fill_heats P q k))
       in length assigned = length (active_entrants q) \<and> length (js_unique assigned) = length (active_entrants q))"
    using certified_heats [OF assms(1)] by metis
  let ?b = "bucket_of k seeded"
  have len: "length seeded = length (active_entrants q)" by (simp add: seeded_def seeded_order_def)
  have hs: "hs = map (\<lambda>i. \<lparr>qh_heat = i + 1, qh_assignments = lanes_of (hr_priority q) (?b i)\<rparr>) [0..<k]"
    unfolding hs_def c(7) fill_heats_def seeded_def [symmetric] heat_buckets_eq [OF c(2)]
    by (simp add: list_eq_iff_nth_eq nth_enumerate_eq)
  have names: "map la_competitor (lanes_of (hr_priority q) (?b i)) = map (\<lambda>x. sn_id (fst x)) (?b i)" for i
    by (rule lanes_of_fields(1) [OF bucket_sorted])
  have "mset (concat (map (\<lambda>h. map la_competitor (qh_assignments h)) hs)) = image_mset (\<lambda>x. sn_id (fst x)) (mset (concat (map ?b [0..<k])))"
    by (simp add: hs comp_def names map_concat flip: mset_map)
  also have "\<dots> = mset (map sn_id (map snd (enumerate 0 seeded)))"
    by (simp add: buckets_cover [OF c(2)] image_mset.compositionality comp_def case_prod_unfold del: map_snd_enumerate)
  also have "\<dots> = mset (map sn_id (active_entrants q))"
    by (simp add: seeded_def seeded_order_def)
  finally have cover: "mset (concat (map (\<lambda>h. map la_competitor (qh_assignments h)) hs)) = mset (map sn_id (active_entrants q))" .
  have exact: "ho_exact (assign_qualifying_heats P q)"
  proof -
    have "distinct (concat (map (\<lambda>h. map la_competitor (qh_assignments h)) hs))" using cover c(3) by (metis mset_eq_imp_distinct_iff)
    moreover have "length (concat (map (\<lambda>h. map la_competitor (qh_assignments h)) hs)) = length (active_entrants q)"
      using cover by (metis length_map mset_eq_length)
    ultimately show ?thesis using c(8) unfolding hs_def c(7) Let_def by (simp add: length_js_unique)
  qed
  have each: "length seeded div k \<le> length as \<and> length as \<le> length seeded div k + 1
        \<and> map la_lane as = map Some (take (length as) (hr_priority q)) \<and> sorted_wrt (<) (map la_rank as)
        \<and> (\<forall>a \<in> set as. \<exists>i < length seeded. la_rank a = i + 1 \<and> la_competitor a = sn_id (seeded ! i))"
    if "i < k" "as = lanes_of (hr_priority q) (?b i)" for i as
  proof -
    note f = lanes_of_fields [OF bucket_sorted, of "hr_priority q" k seeded i, folded that(2)]
    have "length seeded \<le> k * (length seeded div k + 1)" using c(2) by (metis add.commute div_mod_decomp less_or_eq_imp_le mod_less_divisor mult.commute mult_Suc_right nat_add_left_cancel_le plus_1_eq_Suc)
    from bucket_length [OF c(2) this] have "length (?b i) \<le> length seeded div k + 1" .
    moreover have "length (?b i) \<le> length (hr_priority q)" using bucket_length [OF c(2), of seeded lanes i] c(4,5) len by simp
    moreover have "length seeded div k \<le> length (?b i)" by (rule bucket_even [OF that(1)])
    ultimately show ?thesis using f bucket_sorted [of k seeded i] lanes_of_seed [of _ "hr_priority q" k seeded i, folded that(2)]
      by (auto simp: map_nth_option)
  qed
  have "length hs = k" by (simp add: hs)
  then show ?thesis using cover c(1,3,6) exact each seeded_order_sorted [of "hr_better q" P "active_entrants q", folded seeded_def] len
    by (auto simp: hs)
qed

definition sample_runner :: "string \<Rightarrow> rat \<Rightarrow> seeded_entrant" where
  "sample_runner i r = \<lparr>sn_id = i, sn_mark = Num r, sn_withdrawn = None\<rparr>"

definition sample_heats :: heat_request where
  "sample_heats = \<lparr>hr_stage = ''H'', hr_entrants = [sample_runner ''a'' 3, sample_runner ''b'' 1, sample_runner ''c'' 2], hr_heats = Num 2,
     hr_lanes = Num 2, hr_priority = [Num 2, Num 1], hr_better = LowerBetter, hr_tie = Some SeedTieById\<rparr>"

lemma sample_heats_certified: "ho_certified (assign_qualifying_heats sample_platform sample_heats)"
proof -
  have ints: "js_integer (Num 2) = Some 2" "js_integer (Num 1) = Some 1" using js_integer_of_int [of 2] js_integer_of_int [of 1] by simp_all
  have active: "active_entrants sample_heats = hr_entrants sample_heats"
    by (simp add: active_entrants_def sample_heats_def is_withdrawn_def sample_runner_def)
  have ok: "\<not> blank (hr_stage sample_heats)" "duplicate_ids (map sn_id (hr_entrants sample_heats)) = []"
    "\<not> list_ex (\<lambda>e. blank (sn_id e) \<or> js_finite (sn_mark e) = None) (hr_entrants sample_heats)"
    by (simp_all add: sample_heats_def blank_iff is_space_def duplicate_ids_Nil sample_runner_def)
  have shape: "positive_int (hr_heats sample_heats)" "positive_int (hr_lanes sample_heats)"
    by (simp_all add: sample_heats_def positive_int_def ints)
  have lanes: "length (hr_priority sample_heats) = 2" "length (js_unique (hr_priority sample_heats)) = 2"
    "\<not> list_ex (lane_invalid 2) (hr_priority sample_heats)" "hr_tie sample_heats = Some SeedTieById" "length (hr_entrants sample_heats) = 3"
    by (simp_all add: sample_heats_def length_js_unique lane_invalid_def ints)
  have sizes: "the (js_integer (hr_heats sample_heats)) = 2" "the (js_integer (hr_lanes sample_heats)) = 2"
    by (simp_all add: sample_heats_def ints)
  show ?thesis unfolding assign_qualifying_heats_def Let_def active sizes using ok shape lanes by (simp add: seal_heats_def)
qed

theorem heats_assign_once_witness:
  "ho_certified (assign_qualifying_heats sample_platform sample_heats) \<and> ho_exact (assign_qualifying_heats sample_platform sample_heats)
   \<and> length (ho_heats (assign_qualifying_heats sample_platform sample_heats)) = 2"
proof -
  have "js_integer (hr_heats sample_heats) = Some 2" using js_integer_of_int [of 2] by (simp add: sample_heats_def)
  then show ?thesis using heats_assign_once [OF sample_heats_certified] sample_heats_certified by auto
qed

section \<open>Time trials\<close>

lemma tie_groups_Nil: "tie_groups xs = [] \<Longrightarrow> sorted (map time_value xs) \<Longrightarrow> sorted_wrt (<) (map time_value xs)"
proof (induction xs rule: tie_groups.induct)
  case (2 x xs)
  have none: "takeWhile (\<lambda>r. time_value r = time_value x) xs = []" using "2.prems"(1) by (auto simp: Let_def split: if_splits)
  then have stay: "dropWhile (\<lambda>r. time_value r = time_value x) xs = xs" by (metis append_Nil takeWhile_dropWhile_id)
  have "tie_groups xs = []" using "2.prems"(1) by (auto simp: Let_def stay split: if_splits)
  then have rest: "sorted_wrt (<) (map time_value xs)" using "2.IH" [OF refl] "2.prems"(2) stay by simp
  show ?case
  proof (cases xs)
    case (Cons y ys)
    then have "time_value x < time_value y" using none "2.prems"(2) by (auto split: if_splits)
    then show ?thesis using rest Cons by auto
  qed simp
qed simp

text \<open>The first result with an equal time has as many results before it as are strictly faster.\<close>

lemma first_equal:
  assumes "sorted (map time_value xs)" "r \<in> set xs"
  shows "length (takeWhile (\<lambda>x. time_value x \<noteq> time_value r) xs) = card {j. j < length xs \<and> time_value (xs ! j) < time_value r}"
proof -
  let ?n = "length (takeWhile (\<lambda>x. time_value x \<noteq> time_value r) xs)"
  have n: "?n < length xs" using assms(2) by (metis (mono_tags, lifting) length_takeWhile_le nat_less_le takeWhile_eq_all_conv takeWhile_eq_take take_all_iff dual_order.refl)
  have at_n: "time_value (xs ! ?n) = time_value r" using nth_length_takeWhile [OF n] by simp
  have mono: "time_value (xs ! i) \<le> time_value (xs ! j)" if "i \<le> j" "j < length xs" for i j
    using sorted_nth_mono [OF assms(1), of i j] that by simp
  have before: "time_value (xs ! j) < time_value r" if "j < ?n" for j
  proof -
    have "time_value (xs ! j) \<noteq> time_value r" using that nth_mem [of j "takeWhile (\<lambda>x. time_value x \<noteq> time_value r) xs"]
      by (auto simp: takeWhile_nth dest: set_takeWhileD)
    moreover have "time_value (xs ! j) \<le> time_value (xs ! ?n)" using that n by (intro mono) simp_all
    ultimately show ?thesis using at_n by simp
  qed
  have after: "\<not> time_value (xs ! j) < time_value r" if "\<not> j < ?n" "j < length xs" for j
    using mono [of ?n j] that at_n by simp
  have "{j. j < length xs \<and> time_value (xs ! j) < time_value r} = {..<?n}"
    using before after n by (auto intro: less_trans)
  then show ?thesis by simp
qed

lemma certified_trial:
  assumes "to_certified (rank_time_trial P q)"
  shows "distinct (map tr_competitor (tq_results q))" "tie_groups (valid_trials P q) \<noteq> [] \<Longrightarrow> tq_tie q \<noteq> TimeUnresolved"
    "to_valid (rank_time_trial P q) = length (valid_trials P q)"
    "to_ranking (rank_time_trial P q) = map (\<lambda>(i, r). \<lparr>rt_competitor = tr_competitor r, rt_status = TrialValid, rt_time = tr_time r,
        rt_rank = Some (trial_rank (tq_tie q) (valid_trials P q) i r)\<rparr>) (enumerate 0 (valid_trials P q))
      @ map (\<lambda>r. \<lparr>rt_competitor = tr_competitor r, rt_status = tr_status r, rt_time = None, rt_rank = None\<rparr>) (non_finishers P q)"
  using assms by (auto simp: rank_time_trial_def Let_def trial_rejected_def seal_trial_def duplicate_ids_Nil split: if_splits)

lemma valid_trials_seed_order:
  assumes "tq_tie q = TimeSeedOrder"
  shows "sorted_wrt (\<lambda>x y. time_value x = time_value y \<longrightarrow>
      seed_position (rank_map (case tq_seed q of None \<Rightarrow> [] | Some ids \<Rightarrow> ids)) (tr_competitor x)
        \<le> seed_position (rank_map (case tq_seed q of None \<Rightarrow> [] | Some ids \<Rightarrow> ids)) (tr_competitor y)) (valid_trials P q)"
proof -
  let ?ranks = "rank_map (case tq_seed q of None \<Rightarrow> [] | Some ids \<Rightarrow> ids)"
  let ?cmp = "\<lambda>x y. or_else (num_cmp (time_value x) (time_value y)) (num_cmp (seed_position ?ranks (tr_competitor x)) (seed_position ?ranks (tr_competitor y)))"
  have "comparator ?cmp" by (intro comparator_or_else comparator_num_key)
  then have "sorted_wrt (\<lambda>x y. ?cmp x y \<le> 0) (valid_trials P q)"
    using comparator.sorted_sort_by by (auto simp: valid_trials_def tie_cmp_def assms)
  then show ?thesis by (rule sorted_wrt_mono_rel [rotated]) (auto simp: or_else_def)
qed

definition run_time :: "ranked_trial \<Rightarrow> rat" where
  "run_time r = (case rt_time r of None \<Rightarrow> 0 | Some n \<Rightarrow> num_value n)"

text \<open>
  A certified time trial ranks everybody, by time. Every result appears once; the valid ones come first, in
  the order of their times, and the others follow without a rank. With shared ranks the rank is one more
  than the number of strictly faster results; otherwise the ranks count up from one, no two times are
  equal when ties are unresolved, and equal times are in the order of the seeds under the seed policy.
\<close>

theorem time_trial_ranks:
  assumes "to_certified (rank_time_trial P q)"
  defines "out \<equiv> rank_time_trial P q"
  defines "finishers \<equiv> take (to_valid out) (to_ranking out)" and "others \<equiv> drop (to_valid out) (to_ranking out)"
  shows "mset (map rt_competitor (to_ranking out)) = mset (map tr_competitor (tq_results q)) \<and> distinct (map tr_competitor (tq_results q))
    \<and> (\<forall>r \<in> set finishers. rt_status r = TrialValid) \<and> (\<forall>r \<in> set others. rt_status r \<noteq> TrialValid \<and> rt_rank r = None)
    \<and> sorted (map run_time finishers) \<and> length finishers = to_valid out
    \<and> (tq_tie q = TimeUnresolved \<longrightarrow> sorted_wrt (<) (map run_time finishers))
    \<and> (tq_tie q = TimeSeedOrder \<longrightarrow> sorted_wrt (\<lambda>x y. run_time x = run_time y \<longrightarrow>
        seed_position (rank_map (case tq_seed q of None \<Rightarrow> [] | Some ids \<Rightarrow> ids)) (rt_competitor x)
        \<le> seed_position (rank_map (case tq_seed q of None \<Rightarrow> [] | Some ids \<Rightarrow> ids)) (rt_competitor y)) finishers)
    \<and> (\<forall>i < length finishers. rt_rank (finishers ! i) = Some (1 + (if tq_tie q = TimeShared
        then card {j. j < length finishers \<and> run_time (finishers ! j) < run_time (finishers ! i)} else i)))"
proof -
  let ?v = "valid_trials P q"
  let ?f = "\<lambda>i r. \<lparr>rt_competitor = tr_competitor r, rt_status = TrialValid, rt_time = tr_time r, rt_rank = Some (trial_rank (tq_tie q) ?v i r)\<rparr>"
  note c = certified_trial [OF assms(1), folded out_def]
  have fin: "finishers = map (\<lambda>(i, r). ?f i r) (enumerate 0 ?v)" and oth: "others = map (\<lambda>r. \<lparr>rt_competitor = tr_competitor r, rt_status = tr_status r, rt_time = None, rt_rank = None\<rparr>) (non_finishers P q)"
    unfolding finishers_def others_def c(3,4) by simp_all
  have nth: "finishers ! i = ?f i (?v ! i)" if "i < length ?v" for i using that by (simp add: fin nth_enumerate_eq)
  have len: "length finishers = length ?v" by (simp add: fin)
  have time: "run_time (finishers ! i) = time_value (?v ! i)" "rt_competitor (finishers ! i) = tr_competitor (?v ! i)" if "i < length ?v" for i
    using that by (simp_all add: nth run_time_def time_value_def)
  have times: "map run_time finishers = map time_value ?v" and ids: "map rt_competitor finishers = map tr_competitor ?v"
    by (simp_all add: list_eq_iff_nth_eq len time)
  have "mset ?v + mset (non_finishers P q) = mset (tq_results q)"
    by (simp add: valid_trials_def non_finishers_def)
  then have all: "mset (map rt_competitor (to_ranking out)) = mset (map tr_competitor (tq_results q))"
    using ids unfolding c(4) fin oth by (simp add: comp_def case_prod_unfold del: mset_filter flip: image_mset_union)
  have rank: "rt_rank (finishers ! i) = Some (1 + (if tq_tie q = TimeShared
        then card {j. j < length finishers \<and> run_time (finishers ! j) < run_time (finishers ! i)} else i))" if i: "i < length ?v" for i
  proof -
    have "card {j. j < length ?v \<and> time_value (?v ! j) < time_value (?v ! i)} = card {j. j < length finishers \<and> run_time (finishers ! j) < run_time (finishers ! i)}"
      using time len i by (intro arg_cong [of _ _ card]) auto
    moreover have "rt_rank (finishers ! i) = Some (trial_rank (tq_tie q) ?v i (?v ! i))" using i by (simp add: nth)
    moreover have "?v ! i \<in> set ?v" using i by simp
    ultimately show ?thesis using first_equal [OF valid_trials_sorted, of "?v ! i" P q] unfolding trial_rank_def by (cases "tq_tie q = TimeShared") simp_all
  qed
  have strict: "sorted_wrt (<) (map run_time finishers)" if "tq_tie q = TimeUnresolved"
    using c(2) that tie_groups_Nil [OF _ valid_trials_sorted] times by auto
  have seeds: "sorted_wrt (\<lambda>x y. run_time x = run_time y \<longrightarrow>
        seed_position (rank_map (case tq_seed q of None \<Rightarrow> [] | Some ids \<Rightarrow> ids)) (rt_competitor x)
        \<le> seed_position (rank_map (case tq_seed q of None \<Rightarrow> [] | Some ids \<Rightarrow> ids)) (rt_competitor y)) finishers" if "tq_tie q = TimeSeedOrder"
    using valid_trials_seed_order [OF that, of P] unfolding sorted_wrt_iff_nth_less len by (simp add: time)
  have "\<forall>r \<in> set finishers. rt_status r = TrialValid" "\<forall>r \<in> set others. rt_status r \<noteq> TrialValid \<and> rt_rank r = None"
    by (auto simp: fin oth non_finishers_def)
  then show ?thesis using all c(1,3) valid_trials_sorted [of P q] strict seeds rank len times by simp
qed

definition sample_run :: "string \<Rightarrow> rat \<Rightarrow> trial_result" where
  "sample_run i t = \<lparr>tr_competitor = i, tr_status = TrialValid, tr_time = Some (Num t)\<rparr>"

definition sample_trial :: trial_request where
  "sample_trial = \<lparr>tq_stage = ''S'', tq_results = [sample_run ''a'' 7, sample_run ''b'' 5,
     \<lparr>tr_competitor = ''d'', tr_status = TrialDNF, tr_time = None\<rparr>], tq_tie = TimeShared, tq_seed = None\<rparr>"

lemma sample_trial_certified: "to_certified (rank_time_trial sample_platform sample_trial)"
proof -
  have ok: "\<not> blank (tq_stage sample_trial)" "duplicate_ids (map tr_competitor (tq_results sample_trial)) = []"
    "\<not> list_ex trial_invalid (tq_results sample_trial)" "tq_tie sample_trial = TimeShared"
    by (simp_all add: sample_trial_def sample_run_def blank_iff is_space_def duplicate_ids_Nil trial_invalid_def)
  then show ?thesis by (simp add: rank_time_trial_def Let_def seal_trial_def)
qed

theorem time_trial_ranks_witness:
  "to_certified (rank_time_trial sample_platform sample_trial)
   \<and> mset (map rt_competitor (to_ranking (rank_time_trial sample_platform sample_trial))) = {#''a'', ''b'', ''d''#}"
  using time_trial_ranks [OF sample_trial_certified] sample_trial_certified
  by (simp add: sample_trial_def sample_run_def)

section \<open>Qualification\<close>

lemma as_good_ahead: "as_good b x c \<Longrightarrow> ahead b c y \<Longrightarrow> ahead b x y" "as_good b x y \<Longrightarrow> as_good b y x \<Longrightarrow> x = y"
  "as_good b x y \<longleftrightarrow> ahead b x y \<or> x = y"
  by (cases b; auto simp: as_good_def ahead_def)+

text \<open>The fields of a certified qualification; \<open>crosses\<close> says whether a tie crosses the cut.\<close>

definition crosses_cut :: "better_mark \<Rightarrow> nat \<Rightarrow> ranking_result list \<Rightarrow> bool" where
  "crosses_cut b p rs \<longleftrightarrow> (let c = score_of (rs ! (p - 1))
     in int (length (filter (\<lambda>r. score_of r = c) rs)) > int p - int (length (filter (\<lambda>r. ahead b (score_of r) c) rs)))"

lemma certified_qualification:
  assumes "qo_certified (qualify_ranking_stage P q)"
  obtains p where "js_integer (qr_places q) = Some (int p)" "0 < p" "p \<le> length (active_results q)" "distinct (map rr_competitor (qr_results q))"
    "qo_ordered (qualify_ranking_stage P q) = ordered_results P q"
    "crosses_cut (qr_better q) p (ordered_results P q) \<Longrightarrow> qr_cutoff q \<noteq> CutoffUnresolved"
    "qo_qualified (qualify_ranking_stage P q) = (if qr_cutoff q = CutoffAdvanceAll \<and> crosses_cut (qr_better q) p (ordered_results P q)
       then map rr_competitor (filter (\<lambda>r. \<not> ahead (qr_better q) (score_of (ordered_results P q ! (p - 1))) (score_of r)) (ordered_results P q))
       else map rr_competitor (take p (ordered_results P q)))"
proof -
  note [simp] = qualification_rejected_def seal_qualification_def
  have ids: "duplicate_ids (map rr_competitor (qr_results q)) = []" using assms by (auto simp: qualify_ranking_stage_def Let_def split: if_splits option.splits)
  obtain i where i: "js_integer (qr_places q) = Some i" "\<not> (i < 1 \<or> i > int (length (active_results q)))"
    using assms by (auto simp: qualify_ranking_stage_def Let_def split: if_splits option.splits)
  let ?c = "crosses_cut (qr_better q) (nat i) (ordered_results P q)"
  have c: "?c \<longleftrightarrow> int (length (sort (map rr_competitor (filter (\<lambda>r. score_of r = score_of (ordered_results P q ! (nat i - 1))) (ordered_results P q)))))
      > i - int (length (filter (\<lambda>r. ahead (qr_better q) (score_of r) (score_of (ordered_results P q ! (nat i - 1)))) (ordered_results P q)))"
    using i(2) by (simp add: crosses_cut_def Let_def)
  have "qo_ordered (qualify_ranking_stage P q) = ordered_results P q"
    using assms i by (auto simp: qualify_ranking_stage_def Let_def split: if_splits)
  moreover have "?c \<Longrightarrow> qr_cutoff q \<noteq> CutoffUnresolved"
    using assms i unfolding c by (auto simp: qualify_ranking_stage_def Let_def split: if_splits)
  moreover have "qo_qualified (qualify_ranking_stage P q) = (if qr_cutoff q = CutoffAdvanceAll \<and> ?c
       then map rr_competitor (filter (\<lambda>r. \<not> ahead (qr_better q) (score_of (ordered_results P q ! (nat i - 1))) (score_of r)) (ordered_results P q))
       else map rr_competitor (take (nat i) (ordered_results P q)))"
    using assms i unfolding c by (auto simp: qualify_ranking_stage_def Let_def split: if_splits)
  ultimately show ?thesis using that [of "nat i"] i ids by (auto simp: duplicate_ids_Nil)
qed

lemma count_at_least: "A \<subseteq> {i. i < length xs \<and> Q (xs ! i)} \<Longrightarrow> card A \<le> length (filter Q xs)"
  by (simp add: length_filter_conv_card card_mono)

lemma count_split: "length (filter (\<lambda>r. as_good b (score_of r) c) rs)
    = length (filter (\<lambda>r. ahead b (score_of r) c) rs) + length (filter (\<lambda>r. score_of r = c) rs)"
proof (induction rs)
  case (Cons r rs)
  have "\<not> (ahead b (score_of r) c \<and> score_of r = c)" by (cases b) (auto simp: ahead_def)
  then show ?case using Cons as_good_ahead(3) by auto
qed simp

text \<open>When no tie crosses the cut, everybody beyond it is strictly behind.\<close>

lemma beyond_cut:
  assumes "sorted_wrt (as_good b) (map score_of rs)" "\<not> crosses_cut b p rs" "0 < p" "p \<le> j" "j < length rs"
  shows "ahead b (score_of (rs ! (p - 1))) (score_of (rs ! j))"
proof (rule ccontr)
  let ?c = "score_of (rs ! (p - 1))"
  assume "\<not> ahead b ?c (score_of (rs ! j))"
  moreover have upto: "as_good b (score_of (rs ! i)) ?c" if "i < p" for i
    using sorted_wrt_nth_less [OF assms(1), of i "p - 1"] that assms(3-5) as_good_laws(3) by (cases "i = p - 1") auto
  ultimately have "insert j {..<p} \<subseteq> {i. i < length rs \<and> as_good b (score_of (rs ! i)) ?c}"
    using assms(4,5) by (auto simp: as_good_def)
  then have "card (insert j {..<p}) \<le> length (filter (\<lambda>r. as_good b (score_of r) ?c) rs)" by (rule count_at_least)
  moreover note count_split [of b ?c rs]
  ultimately show False using assms(2,4) by (auto simp: crosses_cut_def Let_def)
qed

lemma ordered_results_seeds:
  assumes "qr_cutoff q = CutoffSeedOrder"
  shows "sorted_wrt (\<lambda>x y. score_of x = score_of y \<longrightarrow>
      seed_position (rank_map (case qr_seed q of None \<Rightarrow> [] | Some ids \<Rightarrow> ids)) (rr_competitor x)
        \<le> seed_position (rank_map (case qr_seed q of None \<Rightarrow> [] | Some ids \<Rightarrow> ids)) (rr_competitor y)) (ordered_results P q)"
proof -
  let ?ranks = "rank_map (case qr_seed q of None \<Rightarrow> [] | Some ids \<Rightarrow> ids)"
  let ?cmp = "\<lambda>x y. or_else (better_cmp (qr_better q) (score_of x) (score_of y)) (num_cmp (seed_position ?ranks (rr_competitor x)) (seed_position ?ranks (rr_competitor y)))"
  have "comparator (\<lambda>x y. better_cmp b (score_of x) (score_of y))" for b
    by (cases b; unfold_locales; simp add: better_cmp_def)
  then have "comparator ?cmp" by (intro comparator_or_else comparator_num_key)
  then have "sorted_wrt (\<lambda>x y. ?cmp x y \<le> 0) (ordered_results P q)"
    using comparator.sorted_sort_by by (auto simp: ordered_results_def tie_cmp_def assms)
  then show ?thesis
    by (rule sorted_wrt_mono_rel [rotated]) (auto simp: or_else_def better_cmp_def split: better_mark.splits)
qed

lemma take_id_iff:
  fixes f :: "'a \<Rightarrow> 'b"
  assumes "distinct (map f xs)" "i < length xs"
  shows "f (xs ! i) \<in> f ` set (take p xs) \<longleftrightarrow> i < p"
proof -
  have "f (xs ! i) = map f xs ! i" using assms(2) by simp
  moreover have "f ` set (take p xs) = set (take p (map f xs))" by (simp add: take_map)
  moreover have "ys ! i \<in> set (take p ys) \<longleftrightarrow> i < p" if "distinct ys" "i < length ys" for ys :: "'b list"
    using that by (auto simp: in_set_conv_nth nth_eq_iff_index_eq)
  from this [of "map f xs"] have "map f xs ! i \<in> set (take p (map f xs)) \<longleftrightarrow> i < p" using assms by simp
  ultimately show ?thesis by simp
qed

lemma filter_id_iff:
  assumes "S = f ` set (filter Q xs)" "distinct (map f xs)" "x \<in> set xs"
  shows "f x \<in> S \<longleftrightarrow> Q x"
  unfolding assms(1) using assms(2,3) by (auto simp: distinct_map inj_on_def)

text \<open>How many are strictly better than a score, in an ordered list.\<close>

lemma better_few:
  assumes "sorted_wrt (as_good b) (map score_of rs)" "i < length rs"
  shows "length (filter (\<lambda>y. ahead b (score_of y) (score_of (rs ! i))) rs) \<le> i"
proof -
  have "j < i" if "j < length rs" "ahead b (score_of (rs ! j)) (score_of (rs ! i))" for j
  proof (rule ccontr)
    assume "\<not> j < i"
    then have "as_good b (score_of (rs ! i)) (score_of (rs ! j))"
      using sorted_wrt_nth_less [OF assms(1), of i j] that(1) as_good_laws(3) by (cases "i = j") auto
    then show False using that(2) by (simp add: as_good_def)
  qed
  then have "{j. j < length rs \<and> ahead b (score_of (rs ! j)) (score_of (rs ! i))} \<subseteq> {..<i}" by auto
  then have "card {j. j < length rs \<and> ahead b (score_of (rs ! j)) (score_of (rs ! i))} \<le> i"
    by (metis card_lessThan card_mono finite_lessThan)
  then show ?thesis by (simp add: length_filter_conv_card)
qed

lemma better_many:
  assumes "sorted_wrt (as_good b) (map score_of rs)" "0 < p" "p \<le> length rs" "ahead b (score_of (rs ! (p - 1))) c"
  shows "p \<le> length (filter (\<lambda>y. ahead b (score_of y) c) rs)"
proof -
  have "ahead b (score_of (rs ! i)) c" if "i < p" for i
  proof (cases "i = p - 1")
    case False
    then have "as_good b (score_of (rs ! i)) (score_of (rs ! (p - 1)))"
      using sorted_wrt_nth_less [OF assms(1), of i "p - 1"] that assms(3) by simp
    then show ?thesis using assms(4) by (rule as_good_ahead(1))
  qed (use assms(4) in simp)
  then have "{..<p} \<subseteq> {i. i < length rs \<and> ahead b (score_of (rs ! i)) c}" using assms(3) by auto
  from count_at_least [OF this] show ?thesis by simp
qed

lemma better_cut:
  assumes "sorted_wrt (as_good b) (map score_of rs)" "0 < p" "p \<le> length rs" "i < length rs"
  shows "\<not> ahead b (score_of (rs ! (p - 1))) (score_of (rs ! i)) \<longleftrightarrow> length (filter (\<lambda>y. ahead b (score_of y) (score_of (rs ! i))) rs) < p"
proof
  assume "\<not> ahead b (score_of (rs ! (p - 1))) (score_of (rs ! i))"
  then have "as_good b (score_of (rs ! i)) (score_of (rs ! (p - 1)))" by (simp add: as_good_def)
  then have "length (filter (\<lambda>y. ahead b (score_of y) (score_of (rs ! i))) rs) \<le> length (filter (\<lambda>y. ahead b (score_of y) (score_of (rs ! (p - 1)))) rs)"
    unfolding length_filter_conv_card by (intro card_mono) (cases b; auto simp: as_good_def ahead_def)+
  also have "\<dots> \<le> p - 1" using better_few [OF assms(1), of "p - 1"] assms(2,3) by simp
  finally show "length (filter (\<lambda>y. ahead b (score_of y) (score_of (rs ! i))) rs) < p" using assms(2) by simp
next
  assume "length (filter (\<lambda>y. ahead b (score_of y) (score_of (rs ! i))) rs) < p"
  then show "\<not> ahead b (score_of (rs ! (p - 1))) (score_of (rs ! i))" using better_many [OF assms(1-3)] by (metis not_less)
qed

lemma not_behind_prefix:
  "sorted_wrt (as_good b) (map score_of rs) \<Longrightarrow>
   filter (\<lambda>r. \<not> ahead b c (score_of r)) rs = take (length (filter (\<lambda>r. \<not> ahead b c (score_of r)) rs)) rs"
proof (induction rs)
  case (Cons r rs)
  show ?case
  proof (cases "ahead b c (score_of r)")
    case True
    then have "\<forall>x \<in> set rs. ahead b c (score_of x)" using Cons.prems by (cases b) (fastforce simp: as_good_def ahead_def)+
    then have "filter (\<lambda>r. \<not> ahead b c (score_of r)) rs = []" by (simp add: filter_empty_conv)
    with True show ?thesis by simp
  next
    case False
    then show ?thesis using Cons by simp
  qed
qed simp

text \<open>
  C30. Qualification is fair at the cut. In a certified qualification the ordered results are the active ones,
  best score first, and those who qualify are the first of them, all different. When all tied at the cut advance, an active competitor
  qualifies exactly when fewer are strictly better than there are places: those up to the last place and
  all tied with it, nobody else; with the other policies exactly as many qualify as there are places. Nobody who qualifies has a worse score than
  somebody left out; and unless the
  tie at the cut is resolved by seed order, where the seed decides, they have a strictly better one.
\<close>

theorem qualification_fair:
  assumes "qo_certified (qualify_ranking_stage P q)"
  defines "out \<equiv> qualify_ranking_stage P q"
  defines "through \<equiv> \<lambda>r. List.member (qo_qualified out) (rr_competitor r)"
  shows "mset (qo_ordered out) = mset (active_results q) \<and> sorted_wrt (as_good (qr_better q)) (map score_of (qo_ordered out))
    \<and> distinct (qo_qualified out) \<and> set (qo_qualified out) \<subseteq> rr_competitor ` set (active_results q)
    \<and> qo_qualified out = map rr_competitor (take (length (qo_qualified out)) (qo_ordered out))
    \<and> (\<exists>p. js_integer (qr_places q) = Some (int p) \<and> p \<le> length (qo_qualified out)
         \<and> (if qr_cutoff q = CutoffAdvanceAll
            then \<forall>x \<in> set (active_results q). through x \<longleftrightarrow>
              length (filter (\<lambda>y. ahead (qr_better q) (score_of y) (score_of x)) (active_results q)) < p
            else length (qo_qualified out) = p))
    \<and> (\<forall>x \<in> set (active_results q). \<forall>y \<in> set (active_results q). through x \<longrightarrow> \<not> through y \<longrightarrow>
        ahead (qr_better q) (score_of x) (score_of y)
        \<or> qr_cutoff q = CutoffSeedOrder \<and> score_of x = score_of y
          \<and> seed_position (rank_map (case qr_seed q of None \<Rightarrow> [] | Some ids \<Rightarrow> ids)) (rr_competitor x)
            \<le> seed_position (rank_map (case qr_seed q of None \<Rightarrow> [] | Some ids \<Rightarrow> ids)) (rr_competitor y))"
proof -
  let ?rs = "ordered_results P q" and ?b = "qr_better q"
  obtain p where c: "js_integer (qr_places q) = Some (int p)" "0 < p" "p \<le> length (active_results q)" "distinct (map rr_competitor (qr_results q))"
    "qo_ordered out = ?rs" "crosses_cut ?b p ?rs \<Longrightarrow> qr_cutoff q \<noteq> CutoffUnresolved"
    "qo_qualified out = (if qr_cutoff q = CutoffAdvanceAll \<and> crosses_cut ?b p ?rs
       then map rr_competitor (filter (\<lambda>r. \<not> ahead ?b (score_of (?rs ! (p - 1))) (score_of r)) ?rs)
       else map rr_competitor (take p ?rs))"
    using certified_qualification [OF assms(1)] unfolding out_def by metis
  have rs: "mset ?rs = mset (active_results q)" "sorted_wrt (as_good ?b) (map score_of ?rs)"
    using ordered_results_sorted by (auto simp: ordered_results_def)
  then have len: "length ?rs = length (active_results q)" and set: "set ?rs = set (active_results q)"
    by (metis size_mset, metis set_mset_mset)
  have ids: "distinct (map rr_competitor ?rs)"
    using c(4) by (simp add: ordered_results_def active_results_def distinct_map_filter)
  let ?all = "qr_cutoff q = CutoffAdvanceAll \<and> crosses_cut ?b p ?rs"
  have upto: "as_good ?b (score_of (?rs ! i)) (score_of (?rs ! (p - 1)))" if "i < p" for i
    using sorted_wrt_nth_less [OF rs(2), of i "p - 1"] that c(2,3) len as_good_laws(3) by (cases "i = p - 1") auto
  have many: "p \<le> length (filter (\<lambda>r. \<not> ahead ?b (score_of (?rs ! (p - 1))) (score_of r)) ?rs)"
  proof -
    have "{..<p} \<subseteq> {i. i < length ?rs \<and> \<not> ahead ?b (score_of (?rs ! (p - 1))) (score_of (?rs ! i))}"
      using upto [unfolded as_good_def] c(3) len by auto
    from count_at_least [OF this] show ?thesis by simp
  qed
  have better: "length (filter (\<lambda>y. ahead ?b (score_of y) s) (active_results q)) = length (filter (\<lambda>y. ahead ?b (score_of y) s) ?rs)" for s
    using rs(1) by (metis mset_filter size_mset)
  have through_exact: "through x \<longleftrightarrow> length (filter (\<lambda>y. ahead ?b (score_of y) (score_of x)) (active_results q)) < p"
    if x: "x \<in> set (active_results q)" and advance: "qr_cutoff q = CutoffAdvanceAll" for x
  proof -
    obtain i where i: "x = ?rs ! i" "i < length ?rs" using x unfolding set [symmetric] by (metis in_set_conv_nth)
    have "through x \<longleftrightarrow> \<not> ahead ?b (score_of (?rs ! (p - 1))) (score_of x)"
    proof (cases "crosses_cut ?b p ?rs")
      case True
      then have S: "set (qo_qualified out) = rr_competitor ` set (filter (\<lambda>r. \<not> ahead ?b (score_of (?rs ! (p - 1))) (score_of r)) ?rs)"
        unfolding c(7) using advance by simp
      show ?thesis unfolding through_def List.member_iff by (rule filter_id_iff [OF S ids]) (use x set in simp)
    next
      case False
      then have "set (qo_qualified out) = rr_competitor ` set (take p ?rs)" by (simp only: c(7) simp_thms if_False set_map)
      then have "through x \<longleftrightarrow> i < p" unfolding through_def List.member_iff i(1) by (simp only: take_id_iff [OF ids i(2)])
      then show ?thesis using beyond_cut [OF rs(2) False c(2) _ i(2)] upto [of i] unfolding i(1) as_good_def by (cases "i < p") auto
    qed
    also have "\<dots> \<longleftrightarrow> length (filter (\<lambda>y. ahead ?b (score_of y) (score_of x)) ?rs) < p"
      using better_cut [OF rs(2) c(2) c(3) [folded len] i(2)] unfolding i(1) by blast
    finally show ?thesis unfolding better .
  qed
  have fair: "ahead ?b (score_of x) (score_of y) \<or> qr_cutoff q = CutoffSeedOrder \<and> score_of x = score_of y
      \<and> seed_position (rank_map (case qr_seed q of None \<Rightarrow> [] | Some ids \<Rightarrow> ids)) (rr_competitor x)
        \<le> seed_position (rank_map (case qr_seed q of None \<Rightarrow> [] | Some ids \<Rightarrow> ids)) (rr_competitor y)"
    if xy: "x \<in> set ?rs" "y \<in> set ?rs" "through x" "\<not> through y" for x y
  proof (cases ?all)
    case True
    then have S: "set (qo_qualified out) = rr_competitor ` set (filter (\<lambda>r. \<not> ahead ?b (score_of (?rs ! (p - 1))) (score_of r)) ?rs)"
      unfolding c(7) by (simp only: simp_thms if_True set_map)
    have "\<not> ahead ?b (score_of (?rs ! (p - 1))) (score_of x)"
      using xy(3) unfolding through_def List.member_iff by (rule filter_id_iff [OF S ids xy(1), THEN iffD1])
    moreover have "ahead ?b (score_of (?rs ! (p - 1))) (score_of y)"
      using xy(4) unfolding through_def List.member_iff filter_id_iff [OF S ids xy(2)] not_not .
    ultimately show ?thesis using as_good_ahead(1) unfolding as_good_def by blast
  next
    case False
    obtain i j where ij: "x = ?rs ! i" "i < length ?rs" "y = ?rs ! j" "j < length ?rs" using xy(1,2) by (metis in_set_conv_nth)
    have some: "set (qo_qualified out) = rr_competitor ` set (take p ?rs)" using False by (simp only: c(7) if_False set_map)
    have cut: "i < p" "\<not> j < p"
      using xy(3,4) take_id_iff [OF ids ij(2), of p] take_id_iff [OF ids ij(4), of p] some unfolding through_def List.member_iff ij(1,3) by blast+
    then have good: "as_good ?b (score_of x) (score_of y)" using sorted_wrt_nth_less [OF rs(2), of i j] ij by simp
    show ?thesis
    proof (cases "crosses_cut ?b p ?rs")
      case False
      then have "ahead ?b (score_of (?rs ! (p - 1))) (score_of y)"
        using beyond_cut [OF rs(2) False c(2)] cut(2) ij(3,4) by simp
      then show ?thesis using upto [OF cut(1)] as_good_ahead(1) ij(1) by blast
    next
      case True
      then have seed: "qr_cutoff q = CutoffSeedOrder" using c(6) False by (cases "qr_cutoff q") auto
      have "i < j" using cut by simp
      with sorted_wrt_nth_less [OF ordered_results_seeds [OF seed, of P] this ij(4)] good seed show ?thesis
        unfolding as_good_ahead(3) ij(1,3) by blast
    qed
  qed
  have "distinct (qo_qualified out)" 
    using distinct_take [OF ids, of p] distinct_map_filter [OF ids] by (cases ?all) (simp_all add: c(7) take_map)
  moreover have "set (qo_qualified out) \<subseteq> rr_competitor ` set (active_results q)" unfolding c(7) set [symmetric] by (auto dest: in_set_takeD)
  moreover have "p \<le> length (qo_qualified out) \<and> (qr_cutoff q \<noteq> CutoffAdvanceAll \<longrightarrow> length (qo_qualified out) = p)"
    unfolding c(7) using many c(3) len by auto
  moreover have "qo_qualified out = map rr_competitor (take (length (qo_qualified out)) (qo_ordered out))"
    unfolding c(5,7) using not_behind_prefix [OF rs(2), of "score_of (?rs ! (p - 1))"] c(3) len by (simp add: take_map split: if_splits)
  moreover have "through x \<longleftrightarrow> length (filter (\<lambda>y. ahead ?b (score_of y) (score_of x)) (active_results q)) < p"
    if "qr_cutoff q = CutoffAdvanceAll" "x \<in> set (active_results q)" for x
    by (rule through_exact [OF that(2,1)])
  ultimately show ?thesis using rs c(1,5) fair set by auto
qed

definition sample_score :: "string \<Rightarrow> rat \<Rightarrow> ranking_result" where
  "sample_score i r = \<lparr>rr_competitor = i, rr_score = Num r, rr_withdrawn = None\<rparr>"

definition sample_qualification :: qualification_request where
  "sample_qualification = \<lparr>qr_stage = ''Q'', qr_results = [sample_score ''a'' 1, sample_score ''b'' 2], qr_places = Num 1,
     qr_better = HigherBetter, qr_cutoff = CutoffAdvanceAll, qr_seed = None\<rparr>"

lemma sample_qualification_certified: "qo_certified (qualify_ranking_stage sample_platform sample_qualification)"
proof -
  have active: "active_results sample_qualification = qr_results sample_qualification"
    by (simp add: active_results_def sample_qualification_def is_withdrawn_def sample_score_def)
  have ok: "\<not> blank (qr_stage sample_qualification)" "duplicate_ids (map rr_competitor (qr_results sample_qualification)) = []"
    "\<not> list_ex (\<lambda>r. blank (rr_competitor r) \<or> js_finite (rr_score r) = None) (qr_results sample_qualification)"
    "js_integer (qr_places sample_qualification) = Some 1" "length (qr_results sample_qualification) = 2" "qr_cutoff sample_qualification = CutoffAdvanceAll"
    using js_integer_of_int [of 1] by (simp_all add: sample_qualification_def sample_score_def blank_iff is_space_def duplicate_ids_Nil)
  show ?thesis unfolding qualify_ranking_stage_def Let_def active using ok by (simp add: seal_qualification_def)
qed

theorem qualification_fair_witness:
  "qo_certified (qualify_ranking_stage sample_platform sample_qualification)
   \<and> mset (qo_ordered (qualify_ranking_stage sample_platform sample_qualification)) = {#sample_score ''a'' 1, sample_score ''b'' 2#}"
  using qualification_fair [OF sample_qualification_certified] sample_qualification_certified
  by (simp add: active_results_def sample_qualification_def is_withdrawn_def sample_score_def)

end
