(* ===== verification/StageModel.thy ===== *)
theory StageModel
  imports SwissRanking
begin

text \<open>
  packages/competition-engine/src/dynamic-stage-lifecycle.ts, the data: definitions of dynamic stages,
  commands, events, the runtime of each format and the state, with the JSON values that the
  command, event and state hashes cover.

  \<^item> A tagged union is a datatype whose constructors are the kinds; \<open>OtherStage\<close> and \<open>OtherAction\<close> are objects of
    a kind that the module does not know, which it handles explicitly.
  \<^item> Points of standings are exact rationals. A round number of a command is any number.
\<close>

section \<open>Definitions\<close>

datatype legacy_criterion = LegacyPoints | LegacyHeadToHead | LegacyById | LegacyShared

datatype stage_ranking =
    LegacyRanking string "legacy_criterion list"
  | AdvancedRanking string "criterion list" jsnum incomplete_policy tie_resolution

record swiss_stage =
  ws_id :: string
  ws_revision :: jsnum
  ws_entrants :: "string list"
  ws_rounds :: jsnum
  ws_pairing :: swiss_policy
  ws_win :: jsnum
  ws_draw :: jsnum
  ws_bye :: jsnum
  ws_ranking :: stage_ranking

record heat_stage =
  wh_id :: string
  wh_revision :: jsnum
  wh_entrants :: "seeded_entrant list"
  wh_heats :: jsnum
  wh_lanes :: jsnum
  wh_priority :: "jsnum list"
  wh_better :: better_mark
  wh_seed_tie :: "seed_tie_policy option"
  wh_places :: jsnum
  wh_time_tie :: time_tie_policy
  wh_cutoff :: cutoff_policy
  wh_seed_order :: "string list option"

record ladder_stage =
  wl_id :: string
  wl_revision :: jsnum
  wl_order :: "string list"
  wl_distance :: jsnum

record ranking_stage =
  wr_id :: string
  wr_revision :: jsnum
  wr_entrants :: "string list"
  wr_places :: jsnum
  wr_better :: better_mark
  wr_cutoff :: cutoff_policy
  wr_seed_order :: "string list option"

datatype stage_definition =
    SwissStage swiss_stage
  | HeatStage heat_stage
  | LadderStage ladder_stage
  | RankingStage ranking_stage
  | OtherStage string string jsnum

datatype stage_phase = PhaseDefinition | PhaseReady | PhaseRunning | PhaseComplete

section \<open>Commands and events\<close>

record round_result =
  sw_contest :: string
  sw_left :: string
  sw_right :: string
  sw_winner :: "string option"

datatype stage_action =
    Prepare
  | Start
  | SubmitSwiss jsnum "round_result list"
  | SubmitHeat "trial_result list"
  | CorrectHeat string string trial_result string
  | VoidHeat string string string
  | CorrectSwiss jsnum string "round_result list" string
  | VoidSwiss jsnum string string
  | RecordChallenge string string string string string
  | CompleteLadder
  | SubmitRanking "ranking_result list"
  | OtherAction string

record stage_command =
  ca_version :: jsnum
  ca_key :: string
  ca_actor :: string
  ca_at :: string
  ca_action :: stage_action

type_synonym stage_finding = "string \<times> string \<times> string list option"

text \<open>\<open>None\<close> as the round of a scheduling request is \<^verbatim>\<open>"HEAT"\<close>.\<close>

record scheduling_request =
  sq_contest :: string
  sq_stage :: string
  sq_round :: "nat option"
  sq_participants :: "string list"

record lifecycle_event =
  sv_sequence :: int
  sv_kind :: string
  sv_key :: string
  sv_command_hash :: string
  sv_actor :: string
  sv_at :: string
  sv_command :: stage_command
  sv_previous :: "string option"
  sv_hash :: string

section \<open>Runtimes and the state\<close>

record swiss_standing =
  ss_competitor :: string
  ss_points :: rat
  ss_opponents :: "string list"
  ss_byes :: nat

record stage_pairing =
  lp_contest :: string
  lp_board :: nat
  lp_left :: string
  lp_right :: string
  lp_proof :: string

record completed_round =
  cr_round :: nat
  cr_results :: "round_result list"
  cr_hash :: string
  cr_bye :: "string option"
  cr_pairings :: "stage_pairing list"

record final_standing =
  fs_standing :: swiss_standing
  fs_rank :: nat
  fs_tiebreaks :: swiss_metrics

record ranking_proof =
  rf_policy :: string
  rf_version :: string
  rf_policy_hash :: string
  rf_effective_hash :: string
  rf_proof_hash :: string

record swiss_runtime =
  wt_round :: nat
  wt_standings :: "swiss_standing list"
  wt_pairings :: "stage_pairing list"
  wt_bye :: "string option"
  wt_completed :: "completed_round list"
  wt_final :: "final_standing list"
  wt_policy_hash :: "string option"
  wt_proof :: "ranking_proof option"

record heat_runtime =
  ht_heats :: "qualifying_heat list"
  ht_hash :: "string option"
  ht_recorded :: "(trial_result \<times> string) list"
  ht_ranking :: "ranked_trial list"
  ht_qualified :: "string list"
  ht_qualification :: "string option"

record ranking_runtime =
  gt_results :: "ranking_result list"
  gt_ordered :: "ranking_result list"
  gt_qualified :: "string list"
  gt_qualification :: "string option"

datatype stage_runtime =
    SwissRun swiss_runtime
  | HeatRun heat_runtime
  | LadderRun "ladder_state option" "string list"
  | RankingRun ranking_runtime
  | UnsupportedRun

record stage_state =
  ds_definition :: stage_definition
  ds_phase :: stage_phase
  ds_version :: int
  ds_runtime :: stage_runtime
  ds_requests :: "scheduling_request list"
  ds_events :: "lifecycle_event list"
  ds_hash :: string

datatype transition_status = TransitionApplied | TransitionReplayed | TransitionRejected

record stage_transition =
  dt_status :: transition_status
  dt_state :: stage_state
  dt_findings :: "stage_finding list"
  dt_previous :: string
  dt_next :: string
  dt_event :: "string option"
  dt_proof :: string
  dt_hash :: string

record stage_replay =
  dr_replayed :: bool
  dr_state :: stage_state
  dr_findings :: "stage_finding list"
  dr_hash :: string

section \<open>Kinds\<close>

fun stage_id :: "stage_definition \<Rightarrow> string" where
  "stage_id (SwissStage d) = ws_id d"
| "stage_id (HeatStage d) = wh_id d"
| "stage_id (LadderStage d) = wl_id d"
| "stage_id (RankingStage d) = wr_id d"
| "stage_id (OtherStage k i r) = i"

fun stage_revision :: "stage_definition \<Rightarrow> jsnum" where
  "stage_revision (SwissStage d) = ws_revision d"
| "stage_revision (HeatStage d) = wh_revision d"
| "stage_revision (LadderStage d) = wl_revision d"
| "stage_revision (RankingStage d) = wr_revision d"
| "stage_revision (OtherStage k i r) = r"

fun stage_kind :: "stage_definition \<Rightarrow> string" where
  "stage_kind (SwissStage d) = ''SWISS''"
| "stage_kind (HeatStage d) = ''HEAT_TIME_QUALIFICATION''"
| "stage_kind (LadderStage d) = ''LADDER''"
| "stage_kind (RankingStage d) = ''RANKING_STAGE''"
| "stage_kind (OtherStage k i r) = k"

fun runtime_kind :: "stage_runtime \<Rightarrow> string" where
  "runtime_kind (SwissRun r) = ''SWISS''"
| "runtime_kind (HeatRun r) = ''HEAT_TIME_QUALIFICATION''"
| "runtime_kind (LadderRun l refs) = ''LADDER''"
| "runtime_kind (RankingRun r) = ''RANKING_STAGE''"
| "runtime_kind UnsupportedRun = ''UNSUPPORTED''"

fun action_kind :: "stage_action \<Rightarrow> string" where
  "action_kind Prepare = ''PREPARE''"
| "action_kind Start = ''START''"
| "action_kind (SubmitSwiss n rs) = ''SUBMIT_SWISS_ROUND''"
| "action_kind (SubmitHeat rs) = ''SUBMIT_HEAT_RESULTS''"
| "action_kind (CorrectHeat c h r why) = ''CORRECT_HEAT_RESULT''"
| "action_kind (VoidHeat c h why) = ''VOID_HEAT_RESULT''"
| "action_kind (CorrectSwiss n h rs why) = ''CORRECT_SWISS_ROUND''"
| "action_kind (VoidSwiss n h why) = ''VOID_SWISS_ROUND''"
| "action_kind (RecordChallenge c d w s why) = ''RECORD_LADDER_CHALLENGE''"
| "action_kind CompleteLadder = ''COMPLETE_LADDER''"
| "action_kind (SubmitRanking rs) = ''SUBMIT_RANKING_RESULTS''"
| "action_kind (OtherAction k) = k"

definition command_kinds :: "string list" where
  "command_kinds = [''PREPARE'', ''START'', ''SUBMIT_SWISS_ROUND'', ''CORRECT_SWISS_ROUND'', ''VOID_SWISS_ROUND'',
     ''SUBMIT_HEAT_RESULTS'', ''CORRECT_HEAT_RESULT'', ''VOID_HEAT_RESULT'', ''RECORD_LADDER_CHALLENGE'', ''COMPLETE_LADDER'', ''SUBMIT_RANKING_RESULTS'']"

fun phase_text :: "stage_phase \<Rightarrow> string" where
  "phase_text PhaseDefinition = ''DEFINITION''"
| "phase_text PhaseReady = ''READY''"
| "phase_text PhaseRunning = ''RUNNING''"
| "phase_text PhaseComplete = ''COMPLETE''"

section \<open>JSON values\<close>

fun better_text :: "better_mark \<Rightarrow> string" where
  "better_text LowerBetter = ''LOWER''"
| "better_text HigherBetter = ''HIGHER''"

fun seed_tie_text :: "seed_tie_policy \<Rightarrow> string" where
  "seed_tie_text SeedTieUnresolved = ''UNRESOLVED''"
| "seed_tie_text SeedTieById = ''COMPETITOR_ID''"

fun legacy_text :: "legacy_criterion \<Rightarrow> string" where
  "legacy_text LegacyPoints = ''POINTS''"
| "legacy_text LegacyHeadToHead = ''HEAD_TO_HEAD''"
| "legacy_text LegacyById = ''COMPETITOR_ID''"
| "legacy_text LegacyShared = ''SHARED_RANK''"

fun stage_ranking_json :: "stage_ranking \<Rightarrow> jsval" where
  "stage_ranking_json (LegacyRanking i cs) = JObj [(''id'', JStr i), (''version'', JStr ''1''), (''criteria'', strs (map legacy_text cs))]"
| "stage_ranking_json (AdvancedRanking i cs n inc tie) = JObj [(''id'', JStr i), (''version'', JStr ''1.0.0''),
     (''criteria'', strs (map criterion_text cs)), (''medianBuchholzDrop'', JNum n), (''incompleteData'', JStr (incomplete_text inc)),
     (''tieResolution'', JStr (tie_resolution_text tie))]"

definition swiss_policy_json :: "swiss_policy \<Rightarrow> jsval" where
  "swiss_policy_json p = JObj ([(''rematches'', JStr (rematch_text (sp_rematches p)))] @ opt_field ''bye'' (\<lambda>b. JStr (bye_text b)) (sp_bye p)
     @ opt_field ''searchNodeLimit'' JNum (sp_limit p))"

definition seeded_entrant_json :: "seeded_entrant \<Rightarrow> jsval" where
  "seeded_entrant_json e = JObj ([(''id'', JStr (sn_id e)), (''seedMark'', JNum (sn_mark e))] @ opt_field ''withdrawn'' JBool (sn_withdrawn e))"

fun stage_definition_json :: "stage_definition \<Rightarrow> jsval" where
  "stage_definition_json (SwissStage d) = JObj [(''id'', JStr (ws_id d)), (''revision'', JNum (ws_revision d)), (''kind'', JStr ''SWISS''),
     (''entrants'', strs (ws_entrants d)), (''totalRounds'', JNum (ws_rounds d)), (''pairingPolicy'', swiss_policy_json (ws_pairing d)),
     (''points'', JObj [(''win'', JNum (ws_win d)), (''draw'', JNum (ws_draw d)), (''bye'', JNum (ws_bye d))]),
     (''finalRankingPolicy'', stage_ranking_json (ws_ranking d))]"
| "stage_definition_json (HeatStage d) = JObj ([(''id'', JStr (wh_id d)), (''revision'', JNum (wh_revision d)), (''kind'', JStr ''HEAT_TIME_QUALIFICATION''),
     (''entrants'', JArr (map seeded_entrant_json (wh_entrants d))), (''heatCount'', JNum (wh_heats d)), (''lanesPerHeat'', JNum (wh_lanes d)),
     (''lanePriority'', JArr (map JNum (wh_priority d))), (''betterSeedMark'', JStr (better_text (wh_better d)))]
     @ opt_field ''seedTiePolicy'' (\<lambda>t. JStr (seed_tie_text t)) (wh_seed_tie d)
     @ [(''qualificationPlaces'', JNum (wh_places d)), (''timeTiePolicy'', JStr (time_tie_text (wh_time_tie d))),
        (''cutoffTiePolicy'', JStr (cutoff_text (wh_cutoff d)))] @ opt_field ''seedOrder'' strs (wh_seed_order d))"
| "stage_definition_json (LadderStage d) = JObj [(''id'', JStr (wl_id d)), (''revision'', JNum (wl_revision d)), (''kind'', JStr ''LADDER''),
     (''initialOrder'', strs (wl_order d)), (''maxChallengeDistance'', JNum (wl_distance d))]"
| "stage_definition_json (RankingStage d) = JObj ([(''id'', JStr (wr_id d)), (''revision'', JNum (wr_revision d)), (''kind'', JStr ''RANKING_STAGE''),
     (''entrantIds'', strs (wr_entrants d)), (''qualificationPlaces'', JNum (wr_places d)), (''betterScore'', JStr (better_text (wr_better d))),
     (''cutoffTiePolicy'', JStr (cutoff_text (wr_cutoff d)))] @ opt_field ''seedOrder'' strs (wr_seed_order d))"
| "stage_definition_json (OtherStage k i r) = JObj [(''id'', JStr i), (''revision'', JNum r), (''kind'', JStr k)]"

definition round_result_json :: "round_result \<Rightarrow> jsval" where
  "round_result_json r = JObj [(''contestId'', JStr (sw_contest r)), (''competitors'', strs [sw_left r, sw_right r]),
     (''winnerId'', string_or_null (sw_winner r))]"

definition trial_result_json :: "trial_result \<Rightarrow> jsval" where
  "trial_result_json r = JObj ([(''competitorId'', JStr (tr_competitor r)), (''status'', JStr (trial_status_text (tr_status r)))]
     @ opt_field ''timeMilliseconds'' JNum (tr_time r))"

definition results_json :: "round_result list \<Rightarrow> jsval" where
  "results_json rs = JArr (map round_result_json rs)"

fun action_fields :: "stage_action \<Rightarrow> (string \<times> jsval) list" where
  "action_fields (SubmitSwiss n rs) = [(''round'', JNum n), (''results'', results_json rs)]"
| "action_fields (SubmitHeat rs) = [(''results'', JArr (map trial_result_json rs))]"
| "action_fields (CorrectHeat c h r why) = [(''competitorId'', JStr c), (''supersedesResultHash'', JStr h), (''result'', trial_result_json r), (''reason'', JStr why)]"
| "action_fields (VoidHeat c h why) = [(''competitorId'', JStr c), (''supersedesResultHash'', JStr h), (''reason'', JStr why)]"
| "action_fields (CorrectSwiss n h rs why) = [(''round'', JNum n), (''supersedesResultHash'', JStr h), (''results'', results_json rs), (''reason'', JStr why)]"
| "action_fields (VoidSwiss n h why) = [(''round'', JNum n), (''supersedesResultHash'', JStr h), (''reason'', JStr why)]"
| "action_fields (RecordChallenge c d w s why) = [(''challengerId'', JStr c), (''defenderId'', JStr d), (''winnerId'', JStr w),
     (''scheduleReference'', JStr s), (''reason'', JStr why)]"
| "action_fields (SubmitRanking rs) = [(''results'', JArr (map ranking_result_json rs))]"
| "action_fields a = []"

definition stage_command_json :: "stage_command \<Rightarrow> jsval" where
  "stage_command_json c = JObj ([(''expectedVersion'', JNum (ca_version c)), (''idempotencyKey'', JStr (ca_key c)), (''actorId'', JStr (ca_actor c)),
     (''occurredAt'', JStr (ca_at c)), (''kind'', JStr (action_kind (ca_action c)))] @ action_fields (ca_action c))"

definition stage_finding_json :: "stage_finding \<Rightarrow> jsval" where
  "stage_finding_json f = (case f of (c, m, causes) \<Rightarrow> JObj ([(''code'', JStr c), (''message'', JStr m)]
     @ (case causes of None \<Rightarrow> [] | Some xs \<Rightarrow> [(''causes'', strs xs)])))"

definition scheduling_request_json :: "scheduling_request \<Rightarrow> jsval" where
  "scheduling_request_json q = JObj [(''contestId'', JStr (sq_contest q)), (''stageId'', JStr (sq_stage q)),
     (''round'', case sq_round q of None \<Rightarrow> JStr ''HEAT'' | Some n \<Rightarrow> jnat n), (''participantIds'', strs (sq_participants q)),
     (''adapterStatus'', JStr ''REQUIRES_EXTERNAL_ASSIGNMENT'')]"

definition lifecycle_event_fields :: "lifecycle_event \<Rightarrow> (string \<times> jsval) list" where
  "lifecycle_event_fields e = [(''sequence'', jint (sv_sequence e)), (''kind'', JStr (sv_kind e)), (''idempotencyKey'', JStr (sv_key e)),
     (''commandHash'', JStr (sv_command_hash e)), (''actorId'', JStr (sv_actor e)), (''occurredAt'', JStr (sv_at e)),
     (''command'', stage_command_json (sv_command e)), (''previousEventHash'', string_or_null (sv_previous e))]"

definition lifecycle_event_json :: "lifecycle_event \<Rightarrow> jsval" where
  "lifecycle_event_json e = JObj (lifecycle_event_fields e @ [(''eventHash'', JStr (sv_hash e))])"

definition standing_fields :: "swiss_standing \<Rightarrow> (string \<times> jsval) list" where
  "standing_fields x = [(''competitorId'', JStr (ss_competitor x)), (''points'', jrat (ss_points x)), (''opponents'', strs (ss_opponents x)),
     (''byeCount'', jnat (ss_byes x))]"

definition stage_pairing_json :: "stage_pairing \<Rightarrow> jsval" where
  "stage_pairing_json p = JObj [(''contestId'', JStr (lp_contest p)), (''board'', jnat (lp_board p)), (''competitors'', strs [lp_left p, lp_right p]),
     (''pairingProofHash'', JStr (lp_proof p))]"

definition completed_round_json :: "completed_round \<Rightarrow> jsval" where
  "completed_round_json r = JObj [(''round'', jnat (cr_round r)), (''results'', results_json (cr_results r)), (''resultHash'', JStr (cr_hash r)),
     (''byeCompetitorId'', string_or_null (cr_bye r)), (''pairings'', JArr (map stage_pairing_json (cr_pairings r)))]"

definition final_standing_json :: "final_standing \<Rightarrow> jsval" where
  "final_standing_json x = JObj (standing_fields (fs_standing x) @ [(''rank'', jnat (fs_rank x)), (''tiebreaks'', metrics_json (fs_tiebreaks x))])"

definition ranking_proof_json :: "ranking_proof \<Rightarrow> jsval" where
  "ranking_proof_json p = JObj [(''policyId'', JStr (rf_policy p)), (''policyVersion'', JStr (rf_version p)), (''policyHash'', JStr (rf_policy_hash p)),
     (''effectivePolicyHash'', JStr (rf_effective_hash p)), (''rankingProofHash'', JStr (rf_proof_hash p))]"

fun runtime_json :: "stage_runtime \<Rightarrow> jsval" where
  "runtime_json (SwissRun r) = JObj [(''kind'', JStr ''SWISS''), (''currentRound'', jnat (wt_round r)),
     (''standings'', JArr (map (\<lambda>x. JObj (standing_fields x)) (wt_standings r))), (''pairings'', JArr (map stage_pairing_json (wt_pairings r))),
     (''currentByeCompetitorId'', string_or_null (wt_bye r)), (''completedRounds'', JArr (map completed_round_json (wt_completed r))),
     (''finalStandings'', JArr (map final_standing_json (wt_final r))), (''rankingPolicyHash'', string_or_null (wt_policy_hash r)),
     (''rankingProof'', optional_json ranking_proof_json (wt_proof r))]"
| "runtime_json (HeatRun r) = JObj [(''kind'', JStr ''HEAT_TIME_QUALIFICATION''), (''heats'', JArr (map heat_json (ht_heats r))),
     (''heatAssignmentHash'', string_or_null (ht_hash r)),
     (''recordedResults'', JArr (map (\<lambda>(x, h). JObj [(''result'', trial_result_json x), (''resultHash'', JStr h)]) (ht_recorded r))),
     (''trialRanking'', JArr (map ranked_trial_json (ht_ranking r))), (''qualifiedCompetitorIds'', strs (ht_qualified r)),
     (''qualificationHash'', string_or_null (ht_qualification r))]"
| "runtime_json (LadderRun l refs) = JObj [(''kind'', JStr ''LADDER''), (''ladder'', optional_json ladder_json l), (''scheduleReferences'', strs refs)]"
| "runtime_json (RankingRun r) = JObj [(''kind'', JStr ''RANKING_STAGE''), (''results'', JArr (map ranking_result_json (gt_results r))),
     (''orderedResults'', JArr (map ranking_result_json (gt_ordered r))), (''qualifiedCompetitorIds'', strs (gt_qualified r)),
     (''qualificationHash'', string_or_null (gt_qualification r))]"
| "runtime_json UnsupportedRun = JObj [(''kind'', JStr ''UNSUPPORTED'')]"

definition stage_fields :: "stage_state \<Rightarrow> (string \<times> jsval) list" where
  "stage_fields s = [(''definition'', stage_definition_json (ds_definition s)), (''phase'', JStr (phase_text (ds_phase s))),
     (''version'', jint (ds_version s)), (''runtime'', runtime_json (ds_runtime s)),
     (''schedulingRequests'', JArr (map scheduling_request_json (ds_requests s))), (''events'', JArr (map lifecycle_event_json (ds_events s)))]"

definition stage_json :: "stage_state \<Rightarrow> jsval" where
  "stage_json s = JObj (stage_fields s @ [(''stateHash'', JStr (ds_hash s))])"

fun transition_text :: "transition_status \<Rightarrow> string" where
  "transition_text TransitionApplied = ''APPLIED''"
| "transition_text TransitionReplayed = ''REPLAYED''"
| "transition_text TransitionRejected = ''REJECTED''"

definition transition_proof_fields :: "stage_transition \<Rightarrow> (string \<times> jsval) list" where
  "transition_proof_fields t = [(''previousStateHash'', JStr (dt_previous t)), (''nextStateHash'', JStr (dt_next t)), (''eventHash'', string_or_null (dt_event t))]"

definition transition_json :: "stage_transition \<Rightarrow> jsval" where
  "transition_json t = JObj [(''status'', JStr (transition_text (dt_status t))), (''state'', stage_json (dt_state t)),
     (''findings'', JArr (map stage_finding_json (dt_findings t))),
     (''proof'', JObj (transition_proof_fields t @ [(''proofHash'', JStr (dt_proof t))]))]"

definition stage_replay_json :: "stage_replay \<Rightarrow> jsval" where
  "stage_replay_json r = JObj [(''status'', JStr (if dr_replayed r then ''REPLAYED'' else ''REJECTED'')), (''state'', stage_json (dr_state r)),
     (''findings'', JArr (map stage_finding_json (dr_findings r)))]"

end
