(* ===== verification/StageLifecycle.thy ===== *)
theory StageLifecycle
  imports StageModel
begin

text \<open>
  packages/competition-engine/src/dynamic-stage-lifecycle.ts, the operations: the definition of a
  stage, its preparation per format, the commands, the verification of a state and the replay of its events.

  \<^item> Every command goes through \<open>transition_dynamic_stage\<close>: verification of the state, idempotency,
    the audit fields, the version, then the handler of the kind of command.
  \<^item> \<open>Inl\<close> is a \<^verbatim>\<open>TypeError\<close>: the handlers of Swiss results look up competitors in maps without a check, and a result
    whose competitors only look like those of its pairing (their join is the same text) gets that far.
\<close>

section \<open>Definition\<close>

definition new_standing :: "string \<Rightarrow> swiss_standing" where
  "new_standing i = \<lparr>ss_competitor = i, ss_points = 0, ss_opponents = [], ss_byes = 0\<rparr>"

definition fresh_heat_runtime :: heat_runtime where
  "fresh_heat_runtime = \<lparr>ht_heats = [], ht_hash = None, ht_recorded = [], ht_ranking = [], ht_qualified = [], ht_qualification = None\<rparr>"

fun initial_runtime :: "stage_definition \<Rightarrow> stage_runtime" where
  "initial_runtime (SwissStage d) = SwissRun \<lparr>wt_round = 0, wt_standings = map new_standing (ws_entrants d), wt_pairings = [], wt_bye = None,
     wt_completed = [], wt_final = [], wt_policy_hash = None, wt_proof = None\<rparr>"
| "initial_runtime (HeatStage d) = HeatRun fresh_heat_runtime"
| "initial_runtime (LadderStage d) = LadderRun None []"
| "initial_runtime (RankingStage d) = RankingRun \<lparr>gt_results = [], gt_ordered = [], gt_qualified = [], gt_qualification = None\<rparr>"
| "initial_runtime (OtherStage k i r) = UnsupportedRun"

definition stage_state_hash :: "platform \<Rightarrow> stage_state \<Rightarrow> string" where
  "stage_state_hash P s = ledger_hash P (JObj (stage_fields s))"

definition seal_stage :: "platform \<Rightarrow> stage_state \<Rightarrow> stage_state" where
  "seal_stage P s = s\<lparr>ds_hash := stage_state_hash P s\<rparr>"

definition define_dynamic_stage :: "platform \<Rightarrow> stage_definition \<Rightarrow> stage_state" where
  "define_dynamic_stage P d = seal_stage P \<lparr>ds_definition = d, ds_phase = PhaseDefinition, ds_version = 0,
     ds_runtime = initial_runtime d, ds_requests = [], ds_events = [], ds_hash = []\<rparr>"

section \<open>Transitions\<close>

definition transition_result :: "platform \<Rightarrow> transition_status \<Rightarrow> stage_state \<Rightarrow> stage_state \<Rightarrow> string option \<Rightarrow> stage_finding list \<Rightarrow> stage_transition" where
  "transition_result P status before s event fs =
     (let t = \<lparr>dt_status = status, dt_state = s, dt_findings = fs, dt_previous = ds_hash before, dt_next = ds_hash s, dt_event = event,
                dt_proof = [], dt_hash = []\<rparr>;
          t' = t\<lparr>dt_proof := ledger_hash P (JObj (transition_proof_fields t))\<rparr>
      in t'\<lparr>dt_hash := ledger_hash P (transition_json t')\<rparr>)"

definition refused :: "platform \<Rightarrow> stage_state \<Rightarrow> stage_finding \<Rightarrow> stage_transition" where
  "refused P s f = transition_result P TransitionRejected s s None [f]"

definition stage_rejected :: "platform \<Rightarrow> stage_state \<Rightarrow> string \<Rightarrow> string \<Rightarrow> stage_transition" where
  "stage_rejected P s code msg = refused P s (code, msg, None)"

text \<open>\<^verbatim>\<open>rejected(state, findings[0]?.code ?? code, message, findings.map(({ code }) => code))\<close>\<close>

definition caused_by :: "platform \<Rightarrow> stage_state \<Rightarrow> string \<Rightarrow> string \<Rightarrow> (string \<times> string \<times> 'a) list \<Rightarrow> stage_transition" where
  "caused_by P s code msg fs = refused P s (case fs of [] \<Rightarrow> code | f # _ \<Rightarrow> fst f, msg, Some (map fst fs))"

definition stage_event :: "platform \<Rightarrow> stage_state \<Rightarrow> stage_command \<Rightarrow> lifecycle_event" where
  "stage_event P s c =
     (let e = \<lparr>sv_sequence = ds_version s + 1, sv_kind = action_kind (ca_action c), sv_key = ca_key c,
                sv_command_hash = ledger_hash P (stage_command_json c), sv_actor = ca_actor c, sv_at = ca_at c, sv_command = c,
                sv_previous = (if ds_events s = [] then None else Some (sv_hash (last (ds_events s)))), sv_hash = []\<rparr>
      in e\<lparr>sv_hash := ledger_hash P (JObj (lifecycle_event_fields e))\<rparr>)"

definition advance :: "platform \<Rightarrow> stage_state \<Rightarrow> stage_command \<Rightarrow> stage_phase \<Rightarrow> stage_runtime \<Rightarrow> scheduling_request list \<Rightarrow> stage_state" where
  "advance P s c phase r requests = seal_stage P \<lparr>ds_definition = ds_definition s, ds_phase = phase, ds_version = ds_version s + 1,
     ds_runtime = r, ds_requests = requests, ds_events = ds_events s @ [stage_event P s c], ds_hash = []\<rparr>"

definition commit_stage :: "platform \<Rightarrow> stage_state \<Rightarrow> stage_command \<Rightarrow> stage_phase \<Rightarrow> stage_runtime \<Rightarrow> scheduling_request list \<Rightarrow> stage_transition" where
  "commit_stage P s c phase r requests =
     transition_result P TransitionApplied s (advance P s c phase r requests) (Some (sv_hash (stage_event P s c))) []"

section \<open>Swiss stages\<close>

definition contest_pairings :: "string \<Rightarrow> nat \<Rightarrow> swiss_output \<Rightarrow> stage_pairing list" where
  "contest_pairings stage n out = map (\<lambda>p. \<lparr>lp_contest = stage @ ''.R'' @ digits_of n @ ''.B'' @ digits_of (pr_board p), lp_board = pr_board p,
     lp_left = pr_left p, lp_right = pr_right p, lp_proof = so_hash out\<rparr>) (so_pairings out)"

definition swiss_requests :: "string \<Rightarrow> nat \<Rightarrow> stage_pairing list \<Rightarrow> scheduling_request list" where
  "swiss_requests stage n ps = map (\<lambda>p. \<lparr>sq_contest = lp_contest p, sq_stage = stage, sq_round = Some n,
     sq_participants = [lp_left p, lp_right p]\<rparr>) ps"

definition with_swiss_bye :: "string option \<Rightarrow> rat \<Rightarrow> swiss_standing list \<Rightarrow> swiss_standing list" where
  "with_swiss_bye b pts = map (\<lambda>x. if Some (ss_competitor x) = b then x\<lparr>ss_points := ss_points x + pts, ss_byes := ss_byes x + 1\<rparr> else x)"

definition swiss_competitors :: "swiss_standing list \<Rightarrow> swiss_competitor list" where
  "swiss_competitors = map (\<lambda>x. \<lparr>sc_id = ss_competitor x, sc_points = Num (ss_points x), sc_opponents = ss_opponents x,
     sc_byes = Num (of_nat (ss_byes x)), sc_withdrawn = None\<rparr>)"

definition effective_ranking_policy :: "swiss_stage \<Rightarrow> ranking_policy option" where
  "effective_ranking_policy d = (case ws_ranking d of
     LegacyRanking i cs \<Rightarrow>
       (if blank i \<or> length cs < 2 \<or> hd cs \<noteq> LegacyPoints \<or> \<not> distinct cs
          \<or> last cs \<noteq> LegacyById \<and> last cs \<noteq> LegacyShared \<or> List.member (butlast cs) LegacyShared
        then None
        else Some \<lparr>rp_id = i, rp_version = ''1.0.0'',
          rp_criteria = List.map_filter (\<lambda>c. case c of LegacyPoints \<Rightarrow> Some CriterionPoints | LegacyHeadToHead \<Rightarrow> Some CriterionHeadToHead | _ \<Rightarrow> None) cs,
          rp_win = ws_win d, rp_draw = ws_draw d, rp_loss = Num 0, rp_bye = ws_bye d, rp_drop = Num 0, rp_incomplete = IncompleteReject,
          rp_tie = (if last cs = LegacyShared then TieShared else TieById)\<rparr>)
   | AdvancedRanking i cs n inc tie \<Rightarrow>
       (if blank i then None
        else Some \<lparr>rp_id = i, rp_version = ''1.0.0'', rp_criteria = cs, rp_win = ws_win d, rp_draw = ws_draw d, rp_loss = Num 0, rp_bye = ws_bye d,
          rp_drop = n, rp_incomplete = inc, rp_tie = tie\<rparr>))"

definition valid_ranking_policy :: "swiss_stage \<Rightarrow> bool" where
  "valid_ranking_policy d = (case effective_ranking_policy d of None \<Rightarrow> False | Some p \<Rightarrow>
     rp_criteria p \<noteq> [] \<and> hd (rp_criteria p) = CriterionPoints \<and> distinct (rp_criteria p)
     \<and> (case js_integer (rp_drop p) of None \<Rightarrow> False | Some n \<Rightarrow> 0 \<le> n))"

fun ranking_name :: "stage_ranking \<Rightarrow> string \<times> string" where
  "ranking_name (LegacyRanking i cs) = (i, ''1'')"
| "ranking_name (AdvancedRanking i cs n inc tie) = (i, ''1.0.0'')"

definition ranking_rounds :: "completed_round list \<Rightarrow> ranking_round list" where
  "ranking_rounds = map (\<lambda>r. \<lparr>rn_round = of_nat (cr_round r),
     rn_games = map (\<lambda>x. \<lparr>rg_left = sw_left x, rg_right = sw_right x,
       rg_result = Some (if sw_winner x = None then DrawnGame else if sw_winner x = Some (sw_left x) then LeftWin else RightWin)\<rparr>) (cr_results r),
     rn_byes = (case cr_bye r of None \<Rightarrow> [] | Some b \<Rightarrow> if b = [] then [] else [b])\<rparr>)"

text \<open>\<^verbatim>\<open>new Map(standings.map((standing) => [standing.competitorId, standing]))\<close>\<close>

definition standings_map :: "swiss_standing list \<Rightarrow> (string, swiss_standing) omap" where
  "standings_map xs = foldl (\<lambda>m x. omap_set (ss_competitor x) x m) [] xs"

text \<open>A row of the ranking belongs to an entrant, and every entrant has a standing.\<close>

definition rank_swiss :: "platform \<Rightarrow> swiss_stage \<Rightarrow> swiss_standing list \<Rightarrow> completed_round list
    \<Rightarrow> (string, (stage_finding list, final_standing list \<times> ranking_proof) result) result" where
  "rank_swiss P d standings rounds = (case effective_ranking_policy d of
     None \<Rightarrow> Inr (Inl [(''INVALID_SWISS_RANKING_POLICY'', ''Final ranking policy is not a registered explicit lifecycle policy.'', None)])
   | Some p \<Rightarrow> bind_result (create_swiss_ranking_engine [p]) (\<lambda>engine.
       (let ranked = engine_rank P engine \<lparr>rq_policy = rp_id p, rq_tournament = ws_id d, rq_entrants = ws_entrants d, rq_rounds = ranking_rounds rounds\<rparr>
        in if rk_status ranked \<noteq> RankingCertified then Inr (Inl (map (\<lambda>(code, msg, ids). (code, msg, None)) (rk_findings ranked)))
           else Inr (Inr (map (\<lambda>row. \<lparr>fs_standing = the (omap_get (standings_map standings) (ro_competitor row)), fs_rank = ro_rank row,
                fs_tiebreaks = ro_metrics row\<rparr>) (rk_rows ranked),
              \<lparr>rf_policy = fst (ranking_name (ws_ranking d)), rf_version = snd (ranking_name (ws_ranking d)),
               rf_policy_hash = ledger_hash P (stage_ranking_json (ws_ranking d)), rf_effective_hash = the (rk_policy_hash ranked),
               rf_proof_hash = rk_proof ranked\<rparr>)))))"

definition adjust_standing :: "string \<Rightarrow> (swiss_standing \<Rightarrow> swiss_standing) \<Rightarrow> (string, swiss_standing) omap
    \<Rightarrow> (string, (string, swiss_standing) omap) result" where
  "adjust_standing i f m = (case omap_get m i of None \<Rightarrow> Inl ''TypeError'' | Some x \<Rightarrow> Inr (omap_set i (f x) m))"

definition add_points :: "jsnum \<Rightarrow> swiss_standing \<Rightarrow> swiss_standing" where
  "add_points n x = x\<lparr>ss_points := ss_points x + num_value n\<rparr>"

definition add_opponent :: "string \<Rightarrow> swiss_standing \<Rightarrow> swiss_standing" where
  "add_opponent i x = x\<lparr>ss_opponents := ss_opponents x @ [i]\<rparr>"

text \<open>One result on the maps of points and opponents.\<close>

definition tally_result :: "swiss_stage \<Rightarrow> round_result \<Rightarrow> (string, swiss_standing) omap \<Rightarrow> (string, (string, swiss_standing) omap) result" where
  "tally_result d r m =
     bind_result (adjust_standing (sw_left r) (add_opponent (sw_right r)) m) (\<lambda>m1.
     bind_result (adjust_standing (sw_right r) (add_opponent (sw_left r)) m1) (\<lambda>m2.
     (case sw_winner r of
        None \<Rightarrow> bind_result (adjust_standing (sw_left r) (add_points (ws_draw d)) m2) (adjust_standing (sw_right r) (add_points (ws_draw d)))
      | Some w \<Rightarrow> adjust_standing w (add_points (ws_win d)) m2)))"

definition tally_bye :: "swiss_stage \<Rightarrow> string option \<Rightarrow> (string, swiss_standing) omap \<Rightarrow> (string, (string, swiss_standing) omap) result" where
  "tally_bye d b m = (case b of None \<Rightarrow> Inr m | Some i \<Rightarrow> if i = [] then Inr m
     else adjust_standing i (\<lambda>x. add_points (ws_bye d) (x\<lparr>ss_byes := ss_byes x + 1\<rparr>)) m)"

definition rebuild_swiss_standings :: "swiss_stage \<Rightarrow> completed_round list \<Rightarrow> (string, swiss_standing list) result" where
  "rebuild_swiss_standings d rounds =
     bind_result (fold_result (\<lambda>r m. bind_result (tally_bye d (cr_bye r) m) (fold_result (tally_result d) (cr_results r)))
       rounds (standings_map (map new_standing (ws_entrants d)))) (\<lambda>m.
     Inr (map (\<lambda>i. the (omap_get m i)) (ws_entrants d)))"

text \<open>The checks of one result against the pairings of the round; the last pairing of a contest id counts.\<close>

definition pairing_of :: "stage_pairing list \<Rightarrow> string \<Rightarrow> stage_pairing option" where
  "pairing_of ps i = omap_get (foldl (\<lambda>m p. omap_set (lp_contest p) p m) [] ps) i"

definition result_matches :: "stage_pairing list \<Rightarrow> round_result \<Rightarrow> bool" where
  "result_matches ps r = (case pairing_of ps (sw_contest r) of
     None \<Rightarrow> False
   | Some p \<Rightarrow> pair_key (sw_left r) (sw_right r) = pair_key (lp_left p) (lp_right p) \<and> sw_left r \<noteq> sw_right r
       \<and> (sw_winner r = None \<or> sw_winner r = Some (sw_left r) \<or> sw_winner r = Some (sw_right r)))"

definition covers_round :: "stage_pairing list \<Rightarrow> round_result list \<Rightarrow> bool" where
  "covers_round ps rs = (length rs = length ps \<and> distinct (map sw_contest rs))"

definition valid_swiss_replacement :: "stage_pairing list \<Rightarrow> round_result list \<Rightarrow> bool" where
  "valid_swiss_replacement ps rs = (covers_round ps rs \<and> list_all (result_matches ps) rs)"

definition results_hash :: "platform \<Rightarrow> round_result list \<Rightarrow> string" where
  "results_hash P rs = ledger_hash P (results_json rs)"

definition bye_of :: "swiss_output \<Rightarrow> string option" where
  "bye_of out = map_option bye_competitor (so_bye out)"

section \<open>Preparation\<close>

text \<open>The runtime of a Swiss stage; a state of another runtime does not pass the verification.\<close>

definition swiss_runtime_of :: "stage_runtime \<Rightarrow> swiss_runtime" where
  "swiss_runtime_of r = (case r of SwissRun x \<Rightarrow> x | _ \<Rightarrow>
     \<lparr>wt_round = 0, wt_standings = [], wt_pairings = [], wt_bye = None, wt_completed = [], wt_final = [], wt_policy_hash = None, wt_proof = None\<rparr>)"

type_synonym prepared = "(stage_finding list, stage_runtime \<times> scheduling_request list) result"

definition point_invalid :: "jsnum \<Rightarrow> bool" where
  "point_invalid n = (case js_finite n of None \<Rightarrow> True | Some r \<Rightarrow> r < 0)"

definition without_ids :: "format_finding list \<Rightarrow> stage_finding list" where
  "without_ids = map (\<lambda>(code, msg, ids). (code, msg, None))"

definition next_pairing :: "platform \<Rightarrow> swiss_stage \<Rightarrow> nat \<Rightarrow> swiss_standing list \<Rightarrow> swiss_output" where
  "next_pairing P d n standings = pair_swiss_round P \<lparr>sr_round = Num (of_nat n), sr_competitors = swiss_competitors standings, sr_policy = ws_pairing d\<rparr>"

text \<open>The runtime and the requests of round \<open>n\<close> with its certified pairing.\<close>

definition open_round :: "swiss_stage \<Rightarrow> nat \<Rightarrow> swiss_output \<Rightarrow> swiss_standing list \<Rightarrow> swiss_runtime \<Rightarrow> swiss_runtime" where
  "open_round d n out standings r = r\<lparr>wt_round := n, wt_standings := with_swiss_bye (bye_of out) (num_value (ws_bye d)) standings,
     wt_pairings := contest_pairings (ws_id d) n out, wt_bye := bye_of out\<rparr>"

definition prepare_swiss :: "platform \<Rightarrow> swiss_stage \<Rightarrow> swiss_runtime \<Rightarrow> prepared" where
  "prepare_swiss P d r =
     (if length (ws_entrants d) < 2 \<or> \<not> distinct (ws_entrants d) \<or> list_ex blank (ws_entrants d) \<or> \<not> positive_int (ws_rounds d)
        \<or> list_ex point_invalid [ws_win d, ws_draw d, ws_bye d] \<or> \<not> valid_ranking_policy d
      then Inl [(''INVALID_SWISS_DEFINITION'', ''Swiss fields, entrants, rounds, and point values are invalid.'', None)]
      else
        (let out = next_pairing P d 1 (wt_standings r)
         in if \<not> so_certified out then Inl (without_ids (so_findings out))
            else Inr (SwissRun (open_round d 1 out (wt_standings r) r), swiss_requests (ws_id d) 1 (contest_pairings (ws_id d) 1 out))))"

definition heat_schedule :: "string \<Rightarrow> qualifying_heat \<Rightarrow> scheduling_request" where
  "heat_schedule stage h = \<lparr>sq_contest = stage @ ''.H'' @ digits_of (qh_heat h), sq_stage = stage, sq_round = None,
     sq_participants = map la_competitor (qh_assignments h)\<rparr>"

definition heat_assignment_request :: "heat_stage \<Rightarrow> heat_request" where
  "heat_assignment_request d = \<lparr>hr_stage = wh_id d, hr_entrants = wh_entrants d, hr_heats = wh_heats d, hr_lanes = wh_lanes d,
     hr_priority = wh_priority d, hr_better = wh_better d, hr_tie = wh_seed_tie d\<rparr>"

definition prepare_heat :: "platform \<Rightarrow> heat_stage \<Rightarrow> prepared" where
  "prepare_heat P d =
     (let out = assign_qualifying_heats P (heat_assignment_request d)
      in if \<not> ho_certified out then Inl (without_ids (ho_findings out))
         else Inr (HeatRun (fresh_heat_runtime\<lparr>ht_heats := ho_heats out, ht_hash := Some (ho_hash out)\<rparr>), map (heat_schedule (wh_id d)) (ho_heats out)))"

definition prepare_ladder :: "platform \<Rightarrow> ladder_stage \<Rightarrow> prepared" where
  "prepare_ladder P d =
     (if \<not> positive_int (wl_distance d)
      then Inl [(''INVALID_LADDER_DEFINITION'', ''Maximum challenge distance must be a positive integer.'', None)]
      else (case create_ladder P (wl_id d) (wl_order d) of
          Inl msg \<Rightarrow> Inl [(''INVALID_LADDER_DEFINITION'', msg, None)]
        | Inr l \<Rightarrow> Inr (LadderRun (Some l) [], [])))"

definition prepare_ranking :: "ranking_stage \<Rightarrow> stage_runtime \<Rightarrow> prepared" where
  "prepare_ranking d r =
     (if length (wr_entrants d) < 2 \<or> \<not> distinct (wr_entrants d) \<or> list_ex blank (wr_entrants d)
        \<or> (case js_integer (wr_places d) of None \<Rightarrow> True | Some n \<Rightarrow> n < 1 \<or> n > int (length (wr_entrants d)))
      then Inl [(''INVALID_RANKING_DEFINITION'', ''Ranking entrants and qualification places are invalid.'', None)]
      else Inr (r, [\<lparr>sq_contest = wr_id d @ ''.RANKING'', sq_stage = wr_id d, sq_round = None, sq_participants = wr_entrants d\<rparr>]))"

definition prepare_stage :: "platform \<Rightarrow> stage_state \<Rightarrow> prepared" where
  "prepare_stage P s =
     (let d = ds_definition s
      in if blank (stage_id d) \<or> \<not> positive_int (stage_revision d)
         then Inl [(''INVALID_DEFINITION'', ''Stage id and positive integer revision are required.'', None)]
         else (case d of
             SwissStage x \<Rightarrow> prepare_swiss P x (swiss_runtime_of (ds_runtime s))
           | HeatStage x \<Rightarrow> prepare_heat P x
           | LadderStage x \<Rightarrow> prepare_ladder P x
           | RankingStage x \<Rightarrow> prepare_ranking x (ds_runtime s)
           | OtherStage k i r \<Rightarrow> Inl [(''UNSUPPORTED_STAGE_KIND'', ''No lifecycle adapter is registered for this stage kind.'', None)]))"

section \<open>Results of Swiss rounds\<close>

definition is_round :: "jsnum \<Rightarrow> nat \<Rightarrow> bool" where
  "is_round x n = (js_finite x = Some (of_nat n))"

definition apply_results :: "swiss_stage \<Rightarrow> swiss_standing list \<Rightarrow> round_result list \<Rightarrow> (string, swiss_standing list) result" where
  "apply_results d standings rs = bind_result (fold_result (tally_result d) rs (standings_map standings)) (\<lambda>m.
     Inr (map (\<lambda>x. let y = the (omap_get m (ss_competitor x)) in x\<lparr>ss_points := ss_points y, ss_opponents := ss_opponents y\<rparr>) standings))"

definition finish_swiss :: "platform \<Rightarrow> stage_state \<Rightarrow> stage_command \<Rightarrow> string \<Rightarrow> swiss_stage \<Rightarrow> swiss_runtime \<Rightarrow> (string, stage_transition) result" where
  "finish_swiss P s c msg d r = bind_result (rank_swiss P d (wt_standings r) (wt_completed r)) (\<lambda>ranking. Inr (case ranking of
       Inl fs \<Rightarrow> caused_by P s ''SWISS_RANKING_REJECTED'' msg fs
     | Inr (rows, proof) \<Rightarrow> commit_stage P s c PhaseComplete
         (SwissRun (r\<lparr>wt_final := rows, wt_policy_hash := Some (rf_policy_hash proof), wt_proof := Some proof\<rparr>)) (ds_requests s)))"

definition submit_swiss :: "platform \<Rightarrow> stage_state \<Rightarrow> stage_command \<Rightarrow> jsnum \<Rightarrow> round_result list \<Rightarrow> (string, stage_transition) result" where
  "submit_swiss P s c n rs = (case (ds_definition s, ds_runtime s, ds_phase s) of
     (SwissStage d, SwissRun r, PhaseRunning) \<Rightarrow>
       (if \<not> is_round n (wt_round r) then Inr (stage_rejected P s ''ROUND_CONFLICT'' ''Submitted Swiss round is not the current round.'')
        else if \<not> covers_round (wt_pairings r) rs
        then Inr (stage_rejected P s ''INCOMPLETE_ROUND'' ''Exactly one result is required for every current Swiss pairing.'')
        else if \<not> list_all (result_matches (wt_pairings r)) rs
        then Inr (stage_rejected P s ''INVALID_SWISS_RESULT'' ''Result identity, competitors, or winner does not match the certified pairing.'')
        else bind_result (apply_results d (wt_standings r) rs) (\<lambda>standings.
          (let completed = wt_completed r @ [\<lparr>cr_round = wt_round r, cr_results = rs, cr_hash = results_hash P rs, cr_bye = wt_bye r,
                 cr_pairings = wt_pairings r\<rparr>]
           in if is_round (ws_rounds d) (wt_round r)
              then finish_swiss P s c ''Final Swiss standings could not be certified by the registered ranking policy.'' d
                (r\<lparr>wt_standings := standings, wt_pairings := [], wt_completed := completed\<rparr>)
              else
                (let k = wt_round r + 1; out = next_pairing P d k standings
                 in Inr (if \<not> so_certified out then caused_by P s ''PAIRING_REJECTED'' ''Next Swiss round could not be certified.'' (so_findings out)
                    else commit_stage P s c PhaseRunning (SwissRun (open_round d k out standings (r\<lparr>wt_completed := completed\<rparr>)))
                      (ds_requests s @ swiss_requests (ws_id d) k (contest_pairings (ws_id d) k out)))))))
   | _ \<Rightarrow> Inr (stage_rejected P s ''INVALID_TRANSITION'' ''Swiss round results require a running Swiss stage.''))"

definition supersedes :: "completed_round list \<Rightarrow> jsnum \<Rightarrow> string \<Rightarrow> bool" where
  "supersedes rounds n h = (rounds \<noteq> [] \<and> is_round n (cr_round (last rounds)) \<and> cr_hash (last rounds) = h)"

definition correct_swiss :: "platform \<Rightarrow> stage_state \<Rightarrow> stage_command \<Rightarrow> jsnum \<Rightarrow> string \<Rightarrow> round_result list \<Rightarrow> string \<Rightarrow> (string, stage_transition) result" where
  "correct_swiss P s c n h rs why = (case (ds_definition s, ds_runtime s, ds_phase s) of
     (SwissStage d, SwissRun r, PhaseComplete) \<Rightarrow>
       (if \<not> supersedes (wt_completed r) n h
        then Inr (stage_rejected P s ''RESULT_LINEAGE_CONFLICT'' ''Correction must supersede the current final-round result hash.'')
        else if blank why \<or> \<not> valid_swiss_replacement (cr_pairings (last (wt_completed r))) rs
        then Inr (stage_rejected P s ''INVALID_SWISS_CORRECTION''
          ''Correction requires a reason and complete results matching the certified final-round pairings.'')
        else
          (let rounds = butlast (wt_completed r) @ [(last (wt_completed r))\<lparr>cr_results := rs, cr_hash := results_hash P rs\<rparr>]
           in bind_result (rebuild_swiss_standings d rounds) (\<lambda>standings.
             finish_swiss P s c ''Corrected Swiss standings could not be certified by the registered ranking policy.'' d
               (r\<lparr>wt_standings := standings, wt_completed := rounds\<rparr>))))
   | _ \<Rightarrow> Inr (stage_rejected P s ''INVALID_TRANSITION'' ''Swiss correction is supported only for the final completed round before downstream publication.''))"

definition void_swiss :: "platform \<Rightarrow> stage_state \<Rightarrow> stage_command \<Rightarrow> jsnum \<Rightarrow> string \<Rightarrow> string \<Rightarrow> (string, stage_transition) result" where
  "void_swiss P s c n h why = (case (ds_definition s, ds_runtime s, ds_phase s) of
     (SwissStage d, SwissRun r, PhaseComplete) \<Rightarrow>
       (if \<not> supersedes (wt_completed r) n h
        then Inr (stage_rejected P s ''RESULT_LINEAGE_CONFLICT'' ''Void must supersede the current final-round result hash.'')
        else if blank why then Inr (stage_rejected P s ''VOID_REASON_REQUIRED'' ''Voiding Swiss results requires an audit reason.'')
        else
          (let latest = last (wt_completed r); rounds = butlast (wt_completed r)
           in bind_result (rebuild_swiss_standings d rounds) (\<lambda>standings.
             Inr (commit_stage P s c PhaseRunning (SwissRun (r\<lparr>wt_round := cr_round latest, wt_standings := standings, wt_pairings := cr_pairings latest,
               wt_bye := cr_bye latest, wt_completed := rounds, wt_final := [], wt_policy_hash := None, wt_proof := None\<rparr>)) (ds_requests s)))))
   | _ \<Rightarrow> Inr (stage_rejected P s ''INVALID_TRANSITION'' ''Swiss void is supported only for the final completed round.''))"

section \<open>Heat results\<close>

definition valid_heat_result :: "trial_result \<Rightarrow> bool" where
  "valid_heat_result r = (\<not> blank (tr_competitor r)
     \<and> (if tr_status r = TrialValid then (case Option.bind (tr_time r) js_integer of None \<Rightarrow> False | Some t \<Rightarrow> 0 \<le> t) else tr_time r = None))"

type_synonym recorded = "trial_result \<times> string"

abbreviation recorded_id :: "recorded \<Rightarrow> string" where
  "recorded_id x \<equiv> tr_competitor (fst x)"

text \<open>In the order of the entrants; every recorded competitor is an entrant.\<close>

definition normalized_recorded :: "heat_stage \<Rightarrow> recorded list \<Rightarrow> recorded list" where
  "normalized_recorded d records = (let ranks = rank_map (map sn_id (wh_entrants d))
     in sort_by (\<lambda>x y. num_cmp (seed_position ranks (recorded_id x)) (seed_position ranks (recorded_id y))) records)"

definition trial_hash :: "platform \<Rightarrow> trial_result \<Rightarrow> string" where
  "trial_hash P r = ledger_hash P (trial_result_json r)"

definition active_ids :: "heat_stage \<Rightarrow> string list" where
  "active_ids d = map sn_id (filter (\<lambda>e. \<not> is_withdrawn (sn_withdrawn e)) (wh_entrants d))"

definition open_heat :: "platform \<Rightarrow> stage_state \<Rightarrow> stage_command \<Rightarrow> heat_runtime \<Rightarrow> recorded list \<Rightarrow> stage_transition" where
  "open_heat P s c r records = commit_stage P s c PhaseRunning
     (HeatRun (r\<lparr>ht_recorded := records, ht_ranking := [], ht_qualified := [], ht_qualification := None\<rparr>)) (ds_requests s)"

definition evaluate_heat :: "platform \<Rightarrow> stage_state \<Rightarrow> stage_command \<Rightarrow> heat_stage \<Rightarrow> heat_runtime \<Rightarrow> recorded list \<Rightarrow> stage_transition" where
  "evaluate_heat P s c d r records =
     (let trial = rank_time_trial P \<lparr>tq_stage = wh_id d, tq_results = map fst records, tq_tie = wh_time_tie d, tq_seed = wh_seed_order d\<rparr>
      in if \<not> to_certified trial
         then caused_by P s ''TRIAL_RANKING_REJECTED'' ''Time-trial ranking could not be certified.'' (to_findings trial)
         else
           (let q = qualify_ranking_stage P \<lparr>qr_stage = wh_id d,
                  qr_results = map (\<lambda>x. \<lparr>rr_competitor = rt_competitor x, rr_score = the (rt_time x), rr_withdrawn = None\<rparr>)
                    (filter (\<lambda>x. rt_status x = TrialValid) (to_ranking trial)),
                  qr_places = wh_places d, qr_better = LowerBetter, qr_cutoff = wh_cutoff d, qr_seed = wh_seed_order d\<rparr>
            in if \<not> qo_certified q
               then caused_by P s ''QUALIFICATION_REJECTED'' ''Ranking qualification could not be certified.'' (qo_findings q)
               else commit_stage P s c PhaseComplete (HeatRun (r\<lparr>ht_recorded := records, ht_ranking := to_ranking trial,
                 ht_qualified := qo_qualified q, ht_qualification := Some (qo_hash q)\<rparr>)) (ds_requests s)))"

definition submit_heat :: "platform \<Rightarrow> stage_state \<Rightarrow> stage_command \<Rightarrow> trial_result list \<Rightarrow> stage_transition" where
  "submit_heat P s c rs = (case (ds_definition s, ds_runtime s, ds_phase s) of
     (HeatStage d, HeatRun r, PhaseRunning) \<Rightarrow>
       (if rs = [] \<or> \<not> distinct (map tr_competitor rs)
          \<or> list_ex (\<lambda>x. \<not> List.member (active_ids d) (tr_competitor x) \<or> List.member (map recorded_id (ht_recorded r)) (tr_competitor x)
              \<or> \<not> valid_heat_result x) rs
        then stage_rejected P s ''INVALID_HEAT_RESULT_BATCH''
          ''Each batch must contain new, valid results for assigned active entrants only; corrections require an explicit correction command.''
        else
          (let records = normalized_recorded d (ht_recorded r @ map (\<lambda>x. (x, trial_hash P x)) rs)
           in if length records < length (js_unique (active_ids d)) then open_heat P s c r records
              else evaluate_heat P s c d r records))
   | _ \<Rightarrow> stage_rejected P s ''INVALID_TRANSITION'' ''Heat results require a running heat qualification stage.'')"

text \<open>The position of the current result that a correction or a void supersedes.\<close>

definition current_result :: "heat_runtime \<Rightarrow> string \<Rightarrow> string \<Rightarrow> nat option" where
  "current_result r i h = (case index_of i (map recorded_id (ht_recorded r)) of
     None \<Rightarrow> None | Some k \<Rightarrow> if snd (ht_recorded r ! k) = h then Some k else None)"

definition correct_heat :: "platform \<Rightarrow> stage_state \<Rightarrow> stage_command \<Rightarrow> string \<Rightarrow> string \<Rightarrow> trial_result \<Rightarrow> string \<Rightarrow> stage_transition" where
  "correct_heat P s c i h x why = (case (ds_definition s, ds_runtime s) of
     (HeatStage d, HeatRun r) \<Rightarrow>
       (if ds_phase s \<noteq> PhaseRunning \<and> ds_phase s \<noteq> PhaseComplete
        then stage_rejected P s ''INVALID_TRANSITION'' ''Heat correction requires a running or complete heat stage.''
        else if blank why \<or> tr_competitor x \<noteq> i \<or> \<not> valid_heat_result x
        then stage_rejected P s ''INVALID_HEAT_CORRECTION'' ''Correction requires a reason and one valid result for the named competitor.''
        else (case current_result r i h of
            None \<Rightarrow> stage_rejected P s ''RESULT_LINEAGE_CONFLICT'' ''Correction must supersede the current result hash.''
          | Some k \<Rightarrow>
              (let records = normalized_recorded d ((ht_recorded r)[k := (x, trial_hash P x)])
               in if ds_phase s = PhaseComplete then evaluate_heat P s c d r records else open_heat P s c r records)))
   | _ \<Rightarrow> stage_rejected P s ''INVALID_TRANSITION'' ''Heat correction requires a running or complete heat stage.'')"

definition void_heat :: "platform \<Rightarrow> stage_state \<Rightarrow> stage_command \<Rightarrow> string \<Rightarrow> string \<Rightarrow> string \<Rightarrow> stage_transition" where
  "void_heat P s c i h why = (case (ds_definition s, ds_runtime s) of
     (HeatStage d, HeatRun r) \<Rightarrow>
       (if ds_phase s \<noteq> PhaseRunning \<and> ds_phase s \<noteq> PhaseComplete
        then stage_rejected P s ''INVALID_TRANSITION'' ''Heat void requires a running or complete heat stage.''
        else if blank why then stage_rejected P s ''VOID_REASON_REQUIRED'' ''Voiding a heat result requires an audit reason.''
        else (case current_result r i h of
            None \<Rightarrow> stage_rejected P s ''RESULT_LINEAGE_CONFLICT'' ''Void must supersede the current result hash.''
          | Some k \<Rightarrow> open_heat P s c r (take k (ht_recorded r) @ drop (k + 1) (ht_recorded r))))
   | _ \<Rightarrow> stage_rejected P s ''INVALID_TRANSITION'' ''Heat void requires a running or complete heat stage.'')"

section \<open>Ladder and ranking\<close>

definition ladder_challenge_stage :: "platform \<Rightarrow> stage_state \<Rightarrow> stage_command \<Rightarrow> string \<Rightarrow> string \<Rightarrow> string \<Rightarrow> string \<Rightarrow> string \<Rightarrow> stage_transition" where
  "ladder_challenge_stage P s c challenger defender winner reference why = (case (ds_definition s, ds_runtime s, ds_phase s) of
     (LadderStage d, LadderRun (Some l) refs, PhaseRunning) \<Rightarrow>
       (if blank reference then stage_rejected P s ''SCHEDULE_REFERENCE_REQUIRED'' ''A challenge must reference its external schedule record.''
        else
          (let t = apply_ladder_challenge P l \<lparr>lc_challenger = challenger, lc_defender = defender, lc_winner = winner,
                 lc_distance = wl_distance d, lc_actor = ca_actor c, lc_at = ca_at c, lc_reason = why\<rparr>
           in if \<not> lt_certified t then caused_by P s ''LADDER_REJECTED'' ''Ladder challenge could not be certified.'' (lt_findings t)
              else commit_stage P s c PhaseRunning (LadderRun (Some (lt_ladder t)) (refs @ [reference])) (ds_requests s)))
   | _ \<Rightarrow> stage_rejected P s ''INVALID_TRANSITION'' ''Challenge results require a running prepared ladder.'')"

definition complete_ladder :: "platform \<Rightarrow> stage_state \<Rightarrow> stage_command \<Rightarrow> stage_transition" where
  "complete_ladder P s c = (case (ds_definition s, ds_runtime s, ds_phase s) of
     (LadderStage d, LadderRun (Some l) refs, PhaseRunning) \<Rightarrow>
       (if verify_ladder P l = [] then commit_stage P s c PhaseComplete (ds_runtime s) (ds_requests s)
        else stage_rejected P s ''INVALID_TRANSITION'' ''COMPLETE_LADDER requires a running, proof-valid ladder.'')
   | _ \<Rightarrow> stage_rejected P s ''INVALID_TRANSITION'' ''COMPLETE_LADDER requires a running, proof-valid ladder.'')"

definition submit_ranking :: "platform \<Rightarrow> stage_state \<Rightarrow> stage_command \<Rightarrow> ranking_result list \<Rightarrow> stage_transition" where
  "submit_ranking P s c rs = (case (ds_definition s, ds_runtime s, ds_phase s) of
     (RankingStage d, RankingRun r, PhaseRunning) \<Rightarrow>
       (if length rs \<noteq> length (js_unique (wr_entrants d)) \<or> \<not> distinct (map rr_competitor rs)
          \<or> list_ex (\<lambda>x. \<not> List.member (wr_entrants d) (rr_competitor x) \<or> js_finite (rr_score x) = None) rs
        then stage_rejected P s ''INVALID_RANKING_RESULT_SET'' ''Exactly one finite score is required for every declared ranking entrant.''
        else
          (let q = qualify_ranking_stage P \<lparr>qr_stage = wr_id d, qr_results = rs, qr_places = wr_places d, qr_better = wr_better d,
                 qr_cutoff = wr_cutoff d, qr_seed = wr_seed_order d\<rparr>
           in if \<not> qo_certified q then caused_by P s ''QUALIFICATION_REJECTED'' ''Ranking qualification could not be certified.'' (qo_findings q)
              else commit_stage P s c PhaseComplete (RankingRun \<lparr>gt_results = rs, gt_ordered = qo_ordered q, gt_qualified = qo_qualified q,
                gt_qualification = Some (qo_hash q)\<rparr>) (ds_requests s)))
   | _ \<Rightarrow> stage_rejected P s ''INVALID_TRANSITION'' ''Ranking results require a running ranking stage.'')"

section \<open>Verification\<close>

definition finding_if :: "bool \<Rightarrow> string \<Rightarrow> string \<Rightarrow> stage_finding list" where
  "finding_if b code msg = (if b then [(code, msg, None)] else [])"

definition lifecycle_findings :: "platform \<Rightarrow> nat \<Rightarrow> string option \<Rightarrow> lifecycle_event \<Rightarrow> stage_finding list" where
  "lifecycle_findings P i previous e =
     (let named = (\<lambda>msg. ''Lifecycle event '' @ digits_of (i + 1) @ msg); c = sv_command e
      in finding_if (sv_sequence e \<noteq> int i + 1 \<or> sv_previous e \<noteq> previous) ''BROKEN_EVENT_CHAIN'' (named '' has invalid lineage.'')
       @ finding_if (ledger_hash P (JObj (lifecycle_event_fields e)) \<noteq> sv_hash e) ''EVENT_HASH_MISMATCH'' (named '' was modified.'')
       @ finding_if (ledger_hash P (stage_command_json c) \<noteq> sv_command_hash e \<or> action_kind (ca_action c) \<noteq> sv_kind e \<or> ca_key c \<noteq> sv_key e
           \<or> ca_actor c \<noteq> sv_actor e \<or> ca_at c \<noteq> sv_at e) ''COMMAND_ENVELOPE_MISMATCH'' (named '' command does not match its audit envelope.'')
       @ finding_if (\<not> List.member command_kinds (sv_kind e)) ''UNKNOWN_EVENT'' (named '' has an unsupported kind.''))"

fun event_chain :: "platform \<Rightarrow> nat \<Rightarrow> string option \<Rightarrow> lifecycle_event list \<Rightarrow> stage_finding list" where
  "event_chain P i previous [] = []"
| "event_chain P i previous (e # es) = lifecycle_findings P i previous e @ event_chain P (i + 1) (Some (sv_hash e)) es"

text \<open>\<^verbatim>\<open>n > x\<close> for a length \<open>n\<close>.\<close>

definition above :: "nat \<Rightarrow> jsnum \<Rightarrow> bool" where
  "above n x = (case x of Num r \<Rightarrow> r < of_nat n | NegZero \<Rightarrow> 0 < n | NegInf \<Rightarrow> True | PosInf \<Rightarrow> False | NaN \<Rightarrow> False)"

text \<open>A hash is truthy when it is not empty.\<close>

definition truthy_hash :: "string option \<Rightarrow> bool" where
  "truthy_hash h = (h \<noteq> None \<and> h \<noteq> Some [])"

definition base_phase :: "string list \<Rightarrow> stage_phase" where
  "base_phase kinds = (if length kinds > 1 then PhaseRunning else if length kinds > 0 then PhaseReady else PhaseDefinition)"

definition progression_findings :: "string list \<Rightarrow> stage_finding list" where
  "progression_findings kinds =
     finding_if (length kinds > 0 \<and> kinds ! 0 \<noteq> ''PREPARE'') ''INVALID_EVENT_PROGRESSION'' ''The first lifecycle event must be PREPARE.''
     @ finding_if (length kinds > 1 \<and> kinds ! 1 \<noteq> ''START'') ''INVALID_EVENT_PROGRESSION'' ''The second lifecycle event must be START.''"

text \<open>The findings of the execution and the phase that the history proves, per format.\<close>

definition verify_swiss :: "swiss_stage \<Rightarrow> stage_runtime \<Rightarrow> string list \<Rightarrow> stage_finding list \<times> stage_phase" where
  "verify_swiss d run kinds =
     (finding_if (list_ex (\<lambda>k. \<not> List.member [''SUBMIT_SWISS_ROUND'', ''CORRECT_SWISS_ROUND'', ''VOID_SWISS_ROUND''] k) (drop 2 kinds))
        ''INVALID_EVENT_PROGRESSION'' ''Swiss execution contains an event from another format.''
      @ (case run of SwissRun r \<Rightarrow>
           finding_if (map cr_round (wt_completed r) \<noteq> [1..<length (wt_completed r) + 1] \<or> above (length (wt_completed r)) (ws_rounds d))
             ''INVALID_ROUND_HISTORY'' ''Completed Swiss rounds must be contiguous and within the declared total.'' | _ \<Rightarrow> []),
      (case run of SwissRun r \<Rightarrow> if length kinds > 1 \<and> is_round (ws_rounds d) (length (wt_completed r)) \<and> wt_final r \<noteq> []
         then PhaseComplete else base_phase kinds | _ \<Rightarrow> base_phase kinds))"

definition verify_heat :: "heat_stage \<Rightarrow> stage_runtime \<Rightarrow> string list \<Rightarrow> stage_finding list \<times> stage_phase" where
  "verify_heat d run kinds =
     (finding_if (list_ex (\<lambda>k. \<not> List.member [''SUBMIT_HEAT_RESULTS'', ''CORRECT_HEAT_RESULT'', ''VOID_HEAT_RESULT''] k) (drop 2 kinds))
        ''INVALID_EVENT_PROGRESSION'' ''Heat qualification execution contains an event from another format.''
      @ (case run of HeatRun r \<Rightarrow>
           finding_if (length (ht_recorded r) > length (active_ids d) \<or> \<not> distinct (map recorded_id (ht_recorded r)))
             ''INVALID_HEAT_RESULT_HISTORY'' ''Recorded heat result identities are incomplete or duplicated.'' | _ \<Rightarrow> []),
      (case run of HeatRun r \<Rightarrow> if length kinds > 1 \<and> length (ht_recorded r) = length (active_ids d) \<and> truthy_hash (ht_qualification r)
         then PhaseComplete else base_phase kinds | _ \<Rightarrow> base_phase kinds))"

definition verify_ladder_stage :: "string list \<Rightarrow> stage_finding list \<times> stage_phase" where
  "verify_ladder_stage kinds =
     (let execution = drop 2 kinds; completion = index_of ''COMPLETE_LADDER'' execution
      in (finding_if (list_ex (\<lambda>(i, k). k \<noteq> ''RECORD_LADDER_CHALLENGE'' \<and> \<not> (k = ''COMPLETE_LADDER'' \<and> i + 1 = length execution)) (enumerate 0 execution)
            \<or> (case completion of None \<Rightarrow> False | Some i \<Rightarrow> i + 1 \<noteq> length execution))
            ''INVALID_EVENT_PROGRESSION'' ''Ladder challenges must precede one final completion event.'',
          if completion \<noteq> None then PhaseComplete else base_phase kinds))"

definition verify_ranking_stage :: "stage_runtime \<Rightarrow> string list \<Rightarrow> stage_finding list \<times> stage_phase" where
  "verify_ranking_stage run kinds =
     (finding_if (list_ex (\<lambda>k. k \<noteq> ''SUBMIT_RANKING_RESULTS'') (drop 2 kinds) \<or> length (drop 2 kinds) > 1)
        ''INVALID_EVENT_PROGRESSION'' ''Ranking execution requires exactly one result-set event.'',
      (case run of RankingRun r \<Rightarrow> if truthy_hash (gt_qualification r) then PhaseComplete else base_phase kinds | _ \<Rightarrow> base_phase kinds))"

definition verify_execution :: "stage_definition \<Rightarrow> stage_runtime \<Rightarrow> string list \<Rightarrow> stage_finding list \<times> stage_phase" where
  "verify_execution d run kinds = (case d of
     SwissStage x \<Rightarrow> verify_swiss x run kinds
   | HeatStage x \<Rightarrow> verify_heat x run kinds
   | LadderStage x \<Rightarrow> verify_ladder_stage kinds
   | RankingStage x \<Rightarrow> verify_ranking_stage run kinds
   | OtherStage k i r \<Rightarrow> ([], base_phase kinds))"

text \<open>The findings; the state is valid when there are none.\<close>

definition verify_dynamic_stage :: "platform \<Rightarrow> stage_state \<Rightarrow> stage_finding list" where
  "verify_dynamic_stage P s =
     (let kinds = map sv_kind (ds_events s); execution = verify_execution (ds_definition s) (ds_runtime s) kinds
      in event_chain P 0 None (ds_events s)
       @ finding_if (stage_state_hash P s \<noteq> ds_hash s) ''STATE_HASH_MISMATCH'' ''Lifecycle state does not match its content hash.''
       @ finding_if (ds_version s \<noteq> int (length (ds_events s))) ''VERSION_EVENT_MISMATCH'' ''Lifecycle version does not equal committed event count.''
       @ progression_findings kinds
       @ fst execution
       @ finding_if (ds_phase s \<noteq> snd execution) ''PHASE_EVENT_MISMATCH''
           (''Event history proves '' @ phase_text (snd execution) @ '', not '' @ phase_text (ds_phase s) @ ''.'')
       @ finding_if (runtime_kind (ds_runtime s) \<noteq> stage_kind (ds_definition s)) ''RUNTIME_FORMAT_MISMATCH'' ''Runtime format does not match the stage definition.''
       @ finding_if (\<not> distinct (map sq_contest (ds_requests s))) ''DUPLICATE_SCHEDULING_REQUEST'' ''Scheduling adapter requests must have unique contest ids.'')"

definition verify_stage_proof :: "platform \<Rightarrow> stage_state \<Rightarrow> string" where
  "verify_stage_proof P s = ledger_hash P (JObj [(''state'', stage_json s), (''findings'', JArr (map stage_finding_json (verify_dynamic_stage P s)))])"

section \<open>Commands\<close>

definition prepare_command :: "platform \<Rightarrow> stage_state \<Rightarrow> stage_command \<Rightarrow> stage_transition" where
  "prepare_command P s c =
     (if ds_phase s \<noteq> PhaseDefinition then stage_rejected P s ''INVALID_TRANSITION'' ''PREPARE is valid only from Definition.''
      else (case prepare_stage P s of
          Inl fs \<Rightarrow> transition_result P TransitionRejected s s None fs
        | Inr (r, requests) \<Rightarrow> commit_stage P s c PhaseReady r requests))"

definition start_command :: "platform \<Rightarrow> stage_state \<Rightarrow> stage_command \<Rightarrow> stage_transition" where
  "start_command P s c =
     (if ds_phase s \<noteq> PhaseReady then stage_rejected P s ''INVALID_TRANSITION'' ''START is valid only from Ready.''
      else commit_stage P s c PhaseRunning (ds_runtime s) (ds_requests s))"

definition execute_action :: "platform \<Rightarrow> stage_state \<Rightarrow> stage_command \<Rightarrow> (string, stage_transition) result" where
  "execute_action P s c = (case ca_action c of
     Prepare \<Rightarrow> Inr (prepare_command P s c)
   | Start \<Rightarrow> Inr (start_command P s c)
   | SubmitSwiss n rs \<Rightarrow> submit_swiss P s c n rs
   | CorrectSwiss n h rs why \<Rightarrow> correct_swiss P s c n h rs why
   | VoidSwiss n h why \<Rightarrow> void_swiss P s c n h why
   | SubmitHeat rs \<Rightarrow> Inr (submit_heat P s c rs)
   | CorrectHeat i h x why \<Rightarrow> Inr (correct_heat P s c i h x why)
   | VoidHeat i h why \<Rightarrow> Inr (void_heat P s c i h why)
   | RecordChallenge a b w ref why \<Rightarrow> Inr (ladder_challenge_stage P s c a b w ref why)
   | SubmitRanking rs \<Rightarrow> Inr (submit_ranking P s c rs)
   | CompleteLadder \<Rightarrow> Inr (complete_ladder P s c)
   | OtherAction k \<Rightarrow> Inr (stage_rejected P s ''UNSUPPORTED_COMMAND'' ''Command kind is not registered for dynamic lifecycle execution.''))"

definition transition_dynamic_stage :: "platform \<Rightarrow> stage_state \<Rightarrow> stage_command \<Rightarrow> (string, stage_transition) result" where
  "transition_dynamic_stage P s c =
     (if verify_dynamic_stage P s \<noteq> []
      then Inr (refused P s (''INVALID_STATE_PROOF'', ''Lifecycle state or event proof is invalid.'', Some (map fst (verify_dynamic_stage P s))))
      else (case List.find (\<lambda>e. sv_key e = ca_key c) (ds_events s) of
          Some e \<Rightarrow> Inr (if sv_command_hash e = ledger_hash P (stage_command_json c) then transition_result P TransitionReplayed s s (Some (sv_hash e)) []
            else stage_rejected P s ''IDEMPOTENCY_CONFLICT'' ''Idempotency key was already bound to different command content.'')
        | None \<Rightarrow>
            (if \<not> List.member command_kinds (action_kind (ca_action c))
             then Inr (stage_rejected P s ''UNSUPPORTED_COMMAND'' ''Command kind is not registered for dynamic lifecycle execution.'')
             else if blank (ca_key c) \<or> blank (ca_actor c) \<or> date_parse P (ca_at c) = None
             then Inr (stage_rejected P s ''INVALID_COMMAND_AUDIT'' ''Idempotency key, actor, and valid occurrence time are required.'')
             else if js_integer (ca_version c) \<noteq> Some (ds_version s)
             then Inr (stage_rejected P s ''VERSION_CONFLICT'' ''Expected lifecycle version does not match current state.'')
             else execute_action P s c)))"

section \<open>Replay\<close>

definition seal_replay :: "platform \<Rightarrow> bool \<Rightarrow> stage_state \<Rightarrow> stage_finding list \<Rightarrow> stage_replay" where
  "seal_replay P replayed s fs = (let r = \<lparr>dr_replayed = replayed, dr_state = s, dr_findings = fs, dr_hash = []\<rparr>
     in r\<lparr>dr_hash := ledger_hash P (stage_replay_json r)\<rparr>)"

definition diverges :: "stage_transition \<Rightarrow> lifecycle_event \<Rightarrow> bool" where
  "diverges t e = (dt_status t \<noteq> TransitionApplied \<or> ds_events (dt_state t) = []
     \<or> sv_hash (last (ds_events (dt_state t))) \<noteq> sv_hash e \<or> sv_command_hash (last (ds_events (dt_state t))) \<noteq> sv_command_hash e)"

fun replay_stage_events :: "platform \<Rightarrow> stage_state \<Rightarrow> lifecycle_event list \<Rightarrow> (string, stage_replay) result" where
  "replay_stage_events P s [] = Inr (seal_replay P (verify_dynamic_stage P s = []) s (verify_dynamic_stage P s))"
| "replay_stage_events P s (e # es) = bind_result (transition_dynamic_stage P s (sv_command e)) (\<lambda>t.
     if diverges t e
     then Inr (seal_replay P False s [(''REPLAY_DIVERGENCE'', ''Replay diverged at lifecycle event '' @ number_text P (of_int (sv_sequence e)) @ ''.'', None)])
     else replay_stage_events P (dt_state t) es)"

definition replay_dynamic_stage :: "platform \<Rightarrow> stage_definition \<Rightarrow> lifecycle_event list \<Rightarrow> (string, stage_replay) result" where
  "replay_dynamic_stage P d events = replay_stage_events P (define_dynamic_stage P d) events"

end
