(* ===== verification/StageProofs.thy ===== *)
theory StageProofs
  imports StageLifecycle FormatProofs
begin

text \<open>
  The correctness of packages/competition-engine/src/dynamic-stage-lifecycle.ts.

  \<^item> \<open>stage_steps\<close> are the states that commands lead to, \<open>may_step\<close> is the abstract machine of phases that a stage promises.
  \<^item> \<open>stage_inv\<close> is what every state keeps: the chain of events, the kinds of the events by phase, the runtime of
    the format. Each handler either refuses or commits a step of the machine that keeps it.
\<close>

section \<open>Steps\<close>

inductive stage_steps :: "platform \<Rightarrow> stage_state \<Rightarrow> stage_state \<Rightarrow> bool" for P s where
  here: "stage_steps P s s"
| step: "stage_steps P s s' \<Longrightarrow> transition_dynamic_stage P s' c = Inr t \<Longrightarrow> stage_steps P s (dt_state t)"

text \<open>A definition of a known format; a negative number of rounds fails the verification from the start.\<close>

definition supported :: "stage_definition \<Rightarrow> bool" where
  "supported d = (case d of OtherStage k i r \<Rightarrow> False | SwissStage x \<Rightarrow> \<not> above 0 (ws_rounds x) | _ \<Rightarrow> True)"

text \<open>The phases of a stage: the steps that a command of its format may make.\<close>

fun may_step :: "stage_definition \<Rightarrow> stage_action \<Rightarrow> stage_phase \<Rightarrow> stage_phase \<Rightarrow> bool" where
  "may_step d Prepare p p' = (p = PhaseDefinition \<and> p' = PhaseReady)"
| "may_step d Start p p' = (p = PhaseReady \<and> p' = PhaseRunning)"
| "may_step (SwissStage d) (SubmitSwiss n rs) p p' = (p = PhaseRunning \<and> (p' = PhaseRunning \<or> p' = PhaseComplete))"
| "may_step (SwissStage d) (CorrectSwiss n h rs why) p p' = (p = PhaseComplete \<and> p' = PhaseComplete)"
| "may_step (SwissStage d) (VoidSwiss n h why) p p' = (p = PhaseComplete \<and> p' = PhaseRunning)"
| "may_step (HeatStage d) (SubmitHeat rs) p p' = (p = PhaseRunning \<and> (p' = PhaseRunning \<or> p' = PhaseComplete))"
| "may_step (HeatStage d) (CorrectHeat i h x why) p p' = ((p = PhaseRunning \<or> p = PhaseComplete) \<and> p' = p)"
| "may_step (HeatStage d) (VoidHeat i h why) p p' = ((p = PhaseRunning \<or> p = PhaseComplete) \<and> p' = PhaseRunning)"
| "may_step (LadderStage d) (RecordChallenge a b w ref why) p p' = (p = PhaseRunning \<and> p' = PhaseRunning)"
| "may_step (LadderStage d) CompleteLadder p p' = (p = PhaseRunning \<and> p' = PhaseComplete)"
| "may_step (RankingStage d) (SubmitRanking rs) p p' = (p = PhaseRunning \<and> p' = PhaseComplete)"
| "may_step d a p p' = False"

section \<open>Results of commands\<close>

lemma transition_result_simps [simp]:
  "dt_status (transition_result P x b s e fs) = x" "dt_state (transition_result P x b s e fs) = s"
  "dt_findings (transition_result P x b s e fs) = fs" "dt_event (transition_result P x b s e fs) = e"
  "dt_previous (transition_result P x b s e fs) = ds_hash b" "dt_next (transition_result P x b s e fs) = ds_hash s"
  by (simp_all add: transition_result_def Let_def)

lemma advance_simps [simp]:
  "ds_definition (advance P s c p r q) = ds_definition s" "ds_phase (advance P s c p r q) = p" "ds_version (advance P s c p r q) = ds_version s + 1"
  "ds_runtime (advance P s c p r q) = r" "ds_requests (advance P s c p r q) = q" "ds_events (advance P s c p r q) = ds_events s @ [stage_event P s c]"
  by (simp_all add: advance_def seal_stage_def)

lemma define_simps [simp]:
  "ds_definition (define_dynamic_stage P d) = d" "ds_phase (define_dynamic_stage P d) = PhaseDefinition" "ds_version (define_dynamic_stage P d) = 0"
  "ds_runtime (define_dynamic_stage P d) = initial_runtime d" "ds_requests (define_dynamic_stage P d) = []" "ds_events (define_dynamic_stage P d) = []"
  by (simp_all add: define_dynamic_stage_def seal_stage_def)

lemma stage_fields_hash [simp]: "stage_fields (s\<lparr>ds_hash := h\<rparr>) = stage_fields s"
  by (simp add: stage_fields_def)

lemma sealed_hash: "stage_state_hash P (seal_stage P s) = ds_hash (seal_stage P s)"
  by (simp add: seal_stage_def stage_state_hash_def)

lemma define_hash: "stage_state_hash P (define_dynamic_stage P d) = ds_hash (define_dynamic_stage P d)"
  unfolding define_dynamic_stage_def by (rule sealed_hash)

lemma stage_event_simps [simp]:
  "sv_sequence (stage_event P s c) = ds_version s + 1" "sv_kind (stage_event P s c) = action_kind (ca_action c)" "sv_key (stage_event P s c) = ca_key c"
  "sv_command_hash (stage_event P s c) = ledger_hash P (stage_command_json c)" "sv_actor (stage_event P s c) = ca_actor c"
  "sv_at (stage_event P s c) = ca_at c" "sv_command (stage_event P s c) = c"
  "sv_previous (stage_event P s c) = (if ds_events s = [] then None else Some (sv_hash (last (ds_events s))))"
  by (simp_all add: stage_event_def Let_def)

lemma stage_event_hash: "ledger_hash P (JObj (lifecycle_event_fields (stage_event P s c))) = sv_hash (stage_event P s c)"
  by (simp add: stage_event_def Let_def lifecycle_event_fields_def)

text \<open>A handler refuses, or it commits a phase, a runtime and requests.\<close>

definition refuses :: "stage_state \<Rightarrow> stage_transition \<Rightarrow> bool" where
  "refuses s t \<longleftrightarrow> dt_status t = TransitionRejected \<and> dt_state t = s \<and> dt_event t = None"

definition answers :: "platform \<Rightarrow> stage_state \<Rightarrow> stage_command \<Rightarrow> (stage_phase \<Rightarrow> stage_runtime \<Rightarrow> scheduling_request list \<Rightarrow> bool) \<Rightarrow> stage_transition \<Rightarrow> bool" where
  "answers P s c Q t \<longleftrightarrow> refuses s t \<or> (\<exists>p r q. t = commit_stage P s c p r q \<and> Q p r q)"

lemma refuses_simps [simp]:
  "refuses s (stage_rejected P s code msg)" "refuses s (caused_by P s code msg fs)" "refuses s (refused P s f)"
  "refuses s (transition_result P TransitionRejected s s None gs)"
  by (simp_all add: refuses_def stage_rejected_def caused_by_def refused_def)

lemma answers_refuses [simp]: "refuses s t \<Longrightarrow> answers P s c Q t"
  by (simp add: answers_def)

lemma answers_commit: "Q p r q \<Longrightarrow> answers P s c Q (commit_stage P s c p r q)"
  by (auto simp: answers_def)

section \<open>The chain of events\<close>

lemma event_chain_append:
  "event_chain P i previous (es @ [e]) = event_chain P i previous es
     @ lifecycle_findings P (i + length es) (if es = [] then previous else Some (sv_hash (last es))) e"
  by (induction P i previous es rule: event_chain.induct) auto

lemma finding_if_Nil [simp]: "finding_if b code msg = [] \<longleftrightarrow> \<not> b"
  by (simp add: finding_if_def)

lemma lifecycle_findings_stage_event:
  assumes "ds_version s = int (length (ds_events s))" "action_kind (ca_action c) \<in> set command_kinds"
  shows "lifecycle_findings P (length (ds_events s)) (if ds_events s = [] then None else Some (sv_hash (last (ds_events s)))) (stage_event P s c) = []"
  using assms by (simp add: lifecycle_findings_def Let_def stage_event_hash)

section \<open>Identifiers of contests\<close>

definition round_contest :: "string \<Rightarrow> nat \<Rightarrow> nat \<Rightarrow> string" where
  "round_contest stage k b = stage @ ''.R'' @ digits_of k @ ''.B'' @ digits_of b"

lemma round_contest_inject: "round_contest stage k b = round_contest stage k' b' \<longleftrightarrow> k = k' \<and> b = b'"
proof
  assume "round_contest stage k b = round_contest stage k' b'"
  then have "digits_of k @ CHR ''.'' # (''B'' @ digits_of b) = digits_of k' @ CHR ''.'' # (''B'' @ digits_of b')"
    by (simp add: round_contest_def)
  from split_at_point [OF this] show "k = k' \<and> b = b'" using digits_not_point digits_of_inject by auto
qed simp

lemma certified_boards:
  assumes "so_certified (pair_swiss_round P q)"
  shows "map pr_board (so_pairings (pair_swiss_round P q)) = [1..<length (so_pairings (pair_swiss_round P q)) + 1]"
proof -
  have "map pr_board (map (\<lambda>(i, p). board_pairing i p) (enumerate n ps)) = [n + 1..<n + length ps + 1]" for n ps
  proof (induction ps arbitrary: n)
    case (Cons p ps)
    have "[n + 1..<n + length (p # ps) + 1] = (n + 1) # [Suc n + 1..<Suc n + length ps + 1]" by (simp add: upt_conv_Cons del: upt_Suc)
    then show ?case using Cons [of "Suc n"] by (simp add: board_pairing_def split_def del: upt_Suc)
  qed simp
  from this [of 0] have numbered: "map pr_board (boards ps) = [1..<length (boards ps) + 1]" for ps
    unfolding boards_def by (simp del: upt_Suc)
  obtain ex field bye where f: "pair_swiss_round P q = pair_field P q ex field bye" using certified_round_field [OF assms] by metis
  obtain ps where "so_pairings (pair_swiss_round P q) = boards ps"
    using pair_field_spec(1) [OF assms [unfolded f]] unfolding f by blast
  then show ?thesis using numbered by simp
qed

definition requests_below :: "string \<Rightarrow> nat \<Rightarrow> scheduling_request list \<Rightarrow> bool" where
  "requests_below stage n q \<longleftrightarrow> distinct (map sq_contest q) \<and> (\<forall>x \<in> set q. \<exists>k b. k \<le> n \<and> sq_contest x = round_contest stage k b)"

lemma requests_below_next:
  assumes "requests_below stage n q" "n < k" "so_certified (pair_swiss_round P req)"
  shows "requests_below stage k (q @ swiss_requests stage k (contest_pairings stage k (pair_swiss_round P req)))"
proof -
  let ?ps = "so_pairings (pair_swiss_round P req)"
  have ids: "map sq_contest (swiss_requests stage k (contest_pairings stage k (pair_swiss_round P req))) = map (round_contest stage k) (map pr_board ?ps)"
    by (simp add: swiss_requests_def contest_pairings_def round_contest_def comp_def)
  have "distinct (map (round_contest stage k) (map pr_board ?ps))"
    unfolding certified_boards [OF assms(3)] by (simp add: distinct_map inj_on_def round_contest_inject)
  moreover have "set (map sq_contest q) \<inter> set (map (round_contest stage k) bs) = {}" for bs
    using assms(1,2) by (auto simp: requests_below_def round_contest_inject)
  moreover have "\<exists>j b. j \<le> k \<and> sq_contest x = round_contest stage j b" if "x \<in> set q" for x
    using assms(1,2) that unfolding requests_below_def by (meson le_trans less_imp_le)
  moreover have "\<exists>j b. j \<le> k \<and> sq_contest x = round_contest stage j b"
    if "x \<in> set (swiss_requests stage k (contest_pairings stage k (pair_swiss_round P req)))" for x
    using that by (auto simp: swiss_requests_def contest_pairings_def round_contest_def)
  moreover have "distinct (map sq_contest q)" using assms(1) by (simp add: requests_below_def)
  ultimately show ?thesis
    unfolding requests_below_def map_append distinct_append ids set_append ball_Un by (intro conjI ballI) assumption+
qed

section \<open>What the runtime of a format keeps\<close>

definition swiss_ok :: "swiss_stage \<Rightarrow> stage_phase \<Rightarrow> swiss_runtime \<Rightarrow> scheduling_request list \<Rightarrow> bool" where
  "swiss_ok d p r q \<longleftrightarrow> (if p = PhaseDefinition then SwissRun r = initial_runtime (SwissStage d) \<and> q = []
     else \<exists>n. is_round (ws_rounds d) n \<and> 2 \<le> length (ws_entrants d) \<and> distinct (ws_entrants d) \<and> requests_below (ws_id d) (wt_round r) q
       \<and> map cr_round (wt_completed r) = [1..<length (wt_completed r) + 1] \<and> wt_round r \<le> n
       \<and> (if p = PhaseComplete then length (wt_completed r) = wt_round r \<and> 1 \<le> wt_round r \<and> wt_round r = n \<and> wt_final r \<noteq> []
          else length (wt_completed r) + 1 = wt_round r))"

definition heat_ok :: "heat_stage \<Rightarrow> stage_phase \<Rightarrow> heat_runtime \<Rightarrow> bool" where
  "heat_ok d p r \<longleftrightarrow> distinct (map recorded_id (ht_recorded r)) \<and> set (map recorded_id (ht_recorded r)) \<subseteq> set (active_ids d)
     \<and> (p \<noteq> PhaseDefinition \<longrightarrow> distinct (active_ids d))
     \<and> (if p = PhaseComplete then length (ht_recorded r) = length (active_ids d) \<and> truthy_hash (ht_qualification r) else ht_qualification r = None)"

definition ranking_ok :: "stage_phase \<Rightarrow> ranking_runtime \<Rightarrow> bool" where
  "ranking_ok p r \<longleftrightarrow> (if p = PhaseComplete then truthy_hash (gt_qualification r) else gt_qualification r = None)"

definition runtime_ok :: "stage_definition \<Rightarrow> stage_phase \<Rightarrow> stage_runtime \<Rightarrow> scheduling_request list \<Rightarrow> bool" where
  "runtime_ok d p run q \<longleftrightarrow> distinct (map sq_contest q) \<and> (case (d, run) of
     (SwissStage x, SwissRun r) \<Rightarrow> swiss_ok x p r q
   | (HeatStage x, HeatRun r) \<Rightarrow> heat_ok x p r
   | (LadderStage x, LadderRun l refs) \<Rightarrow> p \<noteq> PhaseDefinition \<longrightarrow> l \<noteq> None
   | (RankingStage x, RankingRun r) \<Rightarrow> ranking_ok p r
   | _ \<Rightarrow> False)"

text \<open>The kinds of the committed events in a phase.\<close>

definition execution_ok :: "stage_definition \<Rightarrow> stage_phase \<Rightarrow> string list \<Rightarrow> bool" where
  "execution_ok d p ks \<longleftrightarrow> (case d of
     SwissStage x \<Rightarrow> set ks \<subseteq> {''SUBMIT_SWISS_ROUND'', ''CORRECT_SWISS_ROUND'', ''VOID_SWISS_ROUND''}
   | HeatStage x \<Rightarrow> set ks \<subseteq> {''SUBMIT_HEAT_RESULTS'', ''CORRECT_HEAT_RESULT'', ''VOID_HEAT_RESULT''}
   | LadderStage x \<Rightarrow> (\<exists>n. ks = replicate n ''RECORD_LADDER_CHALLENGE'' @ (if p = PhaseComplete then [''COMPLETE_LADDER''] else []))
   | RankingStage x \<Rightarrow> ks = (if p = PhaseComplete then [''SUBMIT_RANKING_RESULTS''] else [])
   | OtherStage k i r \<Rightarrow> False)"

fun kinds_ok :: "stage_definition \<Rightarrow> stage_phase \<Rightarrow> string list \<Rightarrow> bool" where
  "kinds_ok d PhaseDefinition ks = (ks = [])"
| "kinds_ok d PhaseReady ks = (ks = [''PREPARE''])"
| "kinds_ok d p ks = (\<exists>xs. ks = ''PREPARE'' # ''START'' # xs \<and> execution_ok d p xs)"

lemma kinds_ok_step:
  assumes "kinds_ok d p ks" "may_step d a p p'" "supported d"
  shows "kinds_ok d p' (ks @ [action_kind a])"
proof -
  have execution: "execution_ok d PhaseRunning []" using assms(3) by (auto simp: execution_ok_def supported_def split: stage_definition.splits)
  have snoc: "\<exists>m. x # replicate n x = replicate m x" for n and x :: string by (rule exI [of _ "Suc n"]) simp
  show ?thesis
    using assms(1,2) execution
    by (induction d a p p' rule: may_step.induct)
       (auto simp: execution_ok_def replicate_append_same snoc)
qed

section \<open>The invariant and the verification\<close>

definition stage_inv :: "platform \<Rightarrow> stage_state \<Rightarrow> bool" where
  "stage_inv P s \<longleftrightarrow> supported (ds_definition s) \<and> event_chain P 0 None (ds_events s) = [] \<and> stage_state_hash P s = ds_hash s
     \<and> ds_version s = int (length (ds_events s)) \<and> kinds_ok (ds_definition s) (ds_phase s) (map sv_kind (ds_events s))
     \<and> runtime_ok (ds_definition s) (ds_phase s) (ds_runtime s) (ds_requests s)"

lemma stage_inv_define: "supported d \<Longrightarrow> stage_inv P (define_dynamic_stage P d)"
  unfolding stage_inv_def define_hash define_simps
  by (cases d) (auto simp: runtime_ok_def swiss_ok_def heat_ok_def ranking_ok_def fresh_heat_runtime_def supported_def)

lemma stage_inv_advance:
  assumes "stage_inv P s" "may_step (ds_definition s) (ca_action c) (ds_phase s) p" "runtime_ok (ds_definition s) p r q"
    "action_kind (ca_action c) \<in> set command_kinds"
  shows "stage_inv P (advance P s c p r q)"
proof -
  have "event_chain P 0 None (ds_events s @ [stage_event P s c]) = []"
    using assms(1) lifecycle_findings_stage_event [OF _ assms(4), of s P] unfolding event_chain_append stage_inv_def by simp
  moreover have "kinds_ok (ds_definition s) p (map sv_kind (ds_events s @ [stage_event P s c]))"
    using kinds_ok_step [OF _ assms(2)] assms(1) unfolding stage_inv_def by simp
  moreover have "stage_state_hash P (advance P s c p r q) = ds_hash (advance P s c p r q)" unfolding advance_def by (rule sealed_hash)
  ultimately show ?thesis using assms(1,3) unfolding stage_inv_def by simp
qed

lemma is_round_unique: "is_round x n \<Longrightarrow> is_round x m \<longleftrightarrow> m = n"
  by (auto simp: is_round_def)

lemma above_round: "is_round x n \<Longrightarrow> above m x \<longleftrightarrow> n < m"
  by (cases x) (auto simp: is_round_def above_def)

lemma positive_int_round:
  assumes "positive_int x"
  obtains n where "is_round x n" "1 \<le> n"
proof -
  obtain i where i: "js_integer x = Some i" "1 \<le> i" using assms by (auto simp: positive_int_def split: option.splits)
  then have "is_round x (nat i)" by (auto simp: is_round_def js_integer_def dest: rat_int_Some split: option.splits)
  moreover have "1 \<le> nat i" using i(2) by simp
  ultimately show ?thesis by (rule that)
qed

lemma base_phase_kinds:
  "kinds_ok d p ks \<Longrightarrow> base_phase ks = (if p = PhaseComplete then PhaseRunning else p)"
  by (cases p) (auto simp: base_phase_def)

lemma progression_ok: "kinds_ok d p ks \<Longrightarrow> progression_findings ks = []"
  by (cases p) (auto simp: progression_findings_def)

lemma drop_kinds: "kinds_ok d p ks \<Longrightarrow> drop 2 ks = [] \<and> p \<noteq> PhaseRunning \<and> p \<noteq> PhaseComplete \<or> length ks > 1 \<and> (p = PhaseRunning \<or> p = PhaseComplete) \<and> execution_ok d p (drop 2 ks)"
  by (cases p) auto

lemma index_of_replicate: "index_of y (replicate n x @ ys) = (if x = y \<and> n > 0 then Some 0 else map_option (\<lambda>i. n + i) (index_of y ys))"
proof (induction n)
  case (Suc n)
  then show ?case by (cases "index_of y ys") auto
qed (cases "index_of y ys", auto)

lemma verify_swiss_ok:
  assumes "kinds_ok (SwissStage d) p ks" "swiss_ok d p r q" "supported (SwissStage d)"
  shows "verify_swiss d (SwissRun r) ks = ([], p)"
proof -
  have kinds: "\<not> list_ex (\<lambda>k. \<not> List.member [''SUBMIT_SWISS_ROUND'', ''CORRECT_SWISS_ROUND'', ''VOID_SWISS_ROUND''] k) (drop 2 ks)"
    using drop_kinds [OF assms(1)] by (auto simp: execution_ok_def list_ex_iff)
  show ?thesis
  proof (cases "p = PhaseDefinition")
    case True
    then have r: "wt_completed r = []" "wt_final r = []" and "ks = []" using assms(1,2) by (auto simp: swiss_ok_def)
    then show ?thesis using True assms(3) by (auto simp: verify_swiss_def base_phase_def supported_def)
  next
    case False
    then obtain n where n: "is_round (ws_rounds d) n" "map cr_round (wt_completed r) = [1..<length (wt_completed r) + 1]" "wt_round r \<le> n"
      "if p = PhaseComplete then length (wt_completed r) = wt_round r \<and> 1 \<le> wt_round r \<and> wt_round r = n \<and> wt_final r \<noteq> []
          else length (wt_completed r) + 1 = wt_round r"
      using assms(2) by (auto simp: swiss_ok_def split: if_splits)
    have len: "\<not> n < length (wt_completed r)" "(length (wt_completed r) = n) = (p = PhaseComplete)" using n(3,4) by (auto split: if_splits)
    show ?thesis
      using kinds n(2,4) len base_phase_kinds [OF assms(1)] drop_kinds [OF assms(1)]
      by (auto simp: verify_swiss_def above_round [OF n(1)] is_round_unique [OF n(1)])
  qed
qed

lemma verify_heat_ok:
  assumes "kinds_ok (HeatStage d) p ks" "heat_ok d p r"
  shows "verify_heat d (HeatRun r) ks = ([], p)"
proof -
  have "\<not> list_ex (\<lambda>k. \<not> List.member [''SUBMIT_HEAT_RESULTS'', ''CORRECT_HEAT_RESULT'', ''VOID_HEAT_RESULT''] k) (drop 2 ks)"
    using drop_kinds [OF assms(1)] by (auto simp: execution_ok_def list_ex_iff)
  moreover have "length (ht_recorded r) \<le> length (active_ids d)"
    using assms(2) card_mono [of "set (active_ids d)" "set (map recorded_id (ht_recorded r))"] card_length [of "active_ids d"]
    unfolding heat_ok_def by (auto simp: distinct_card [of "map recorded_id (ht_recorded r)", simplified])
  ultimately show ?thesis
    using assms(2) base_phase_kinds [OF assms(1)] drop_kinds [OF assms(1)]
    by (auto simp: verify_heat_def heat_ok_def truthy_hash_def split: if_splits)
qed

lemma verify_ladder_ok:
  assumes "kinds_ok (LadderStage d) p ks"
  shows "verify_ladder_stage ks = ([], p)"
proof -
  have few: "verify_ladder_stage [] = ([], PhaseDefinition)" "verify_ladder_stage [''PREPARE''] = ([], PhaseReady)"
    by (simp_all add: verify_ladder_stage_def base_phase_def)
  have long: "verify_ladder_stage (''PREPARE'' # ''START'' # xs) = ([], p)" if "execution_ok (LadderStage d) p xs" "p = PhaseRunning \<or> p = PhaseComplete" for xs
  proof -
    from that(1) obtain n where xs: "xs = replicate n ''RECORD_LADDER_CHALLENGE'' @ (if p = PhaseComplete then [''COMPLETE_LADDER''] else [])"
      by (auto simp: execution_ok_def)
    have "index_of ''COMPLETE_LADDER'' xs = (if p = PhaseComplete then Some n else None)" unfolding xs index_of_replicate by simp
    moreover have "\<not> list_ex (\<lambda>(i, k). k \<noteq> ''RECORD_LADDER_CHALLENGE'' \<and> \<not> (k = ''COMPLETE_LADDER'' \<and> i + 1 = length xs)) (enumerate 0 xs)"
      unfolding xs list_ex_iff by (auto simp: in_set_enumerate_eq nth_append split: if_splits)
    ultimately show ?thesis using that(2) by (auto simp: verify_ladder_stage_def Let_def xs base_phase_def)
  qed
  show ?thesis using assms few long by (cases p) auto
qed

lemma verify_ranking_ok:
  assumes "kinds_ok (RankingStage d) p ks" "ranking_ok p r"
  shows "verify_ranking_stage (RankingRun r) ks = ([], p)"
  using assms by (cases p) (auto simp: verify_ranking_stage_def execution_ok_def ranking_ok_def base_phase_def truthy_hash_def)

lemma stage_inv_verifies:
  assumes "stage_inv P s"
  shows "verify_dynamic_stage P s = []"
proof -
  let ?d = "ds_definition s" and ?p = "ds_phase s" and ?run = "ds_runtime s" and ?ks = "map sv_kind (ds_events s)"
  have inv: "supported ?d" "event_chain P 0 None (ds_events s) = []" "stage_state_hash P s = ds_hash s"
    "ds_version s = int (length (ds_events s))" "kinds_ok ?d ?p ?ks" "runtime_ok ?d ?p ?run (ds_requests s)"
    using assms by (simp_all add: stage_inv_def)
  have execution: "verify_execution ?d ?run ?ks = ([], ?p)" and kind: "runtime_kind ?run = stage_kind ?d"
    using inv(1,5,6) verify_swiss_ok verify_heat_ok verify_ladder_ok verify_ranking_ok
    by (auto simp: runtime_ok_def verify_execution_def split: stage_definition.splits stage_runtime.splits)
  show ?thesis
    using inv(6) unfolding verify_dynamic_stage_def Let_def execution progression_ok [OF inv(5)] runtime_ok_def
    by (simp add: inv(2-4) kind)
qed

section \<open>The handlers\<close>

definition sound :: "platform \<Rightarrow> stage_state \<Rightarrow> stage_command \<Rightarrow> stage_transition \<Rightarrow> bool" where
  "sound P s c = answers P s c (\<lambda>p r q. may_step (ds_definition s) (ca_action c) (ds_phase s) p \<and> runtime_ok (ds_definition s) p r q)"

lemma sound_refuses [simp]: "refuses s t \<Longrightarrow> sound P s c t"
  by (simp add: sound_def)

lemma sound_commit:
  "may_step (ds_definition s) (ca_action c) (ds_phase s) p \<Longrightarrow> runtime_ok (ds_definition s) p r q \<Longrightarrow> sound P s c (commit_stage P s c p r q)"
  unfolding sound_def by (rule answers_commit) simp

lemma heat_requests_distinct: "distinct (map sq_contest (map (heat_schedule stage) (fill_heats P q k)))"
proof -
  have "map qh_heat (map (\<lambda>(i, bucket). \<lparr>qh_heat = i + 1, qh_assignments = f bucket\<rparr>) (enumerate n bs)) = map Suc [n..<n + length bs]" for f n and bs :: "'b list"
    by (simp add: comp_def split_def flip: map_fst_enumerate)
  from this [of _ 0] have "map qh_heat (fill_heats P q k) = map Suc [0..<length (heat_buckets k (seeded_order P (hr_better q) (active_entrants q)))]"
    unfolding fill_heats_def by (simp del: upt_Suc)
  then have "distinct (map qh_heat (fill_heats P q k))" by (simp add: distinct_map)
  then show ?thesis by (simp add: comp_def heat_schedule_def distinct_map inj_on_def)
qed

lemma certified_heat_fill:
  assumes "ho_certified (assign_qualifying_heats P q)"
  obtains k where "ho_heats (assign_qualifying_heats P q) = fill_heats P q k" "distinct (map sn_id (hr_entrants q))"
  using assms unfolding assign_qualifying_heats_def
  by (auto simp: Let_def heat_rejected_def seal_heats_def duplicate_ids_Nil split: if_splits)

lemma prepare_stage_ok:
  assumes "stage_inv P s" "ds_phase s = PhaseDefinition" "prepare_stage P s = Inr (r, q)"
  shows "runtime_ok (ds_definition s) PhaseReady r q"
proof (cases "ds_definition s")
  case (SwissStage d)
  have "runtime_ok (SwissStage d) PhaseDefinition (ds_runtime s) (ds_requests s)" using assms(1,2) SwissStage by (simp add: stage_inv_def)
  then obtain r0 where r0: "ds_runtime s = SwissRun r0" "wt_completed r0 = []" "wt_standings r0 = map new_standing (ws_entrants d)"
    by (auto simp: runtime_ok_def swiss_ok_def split: stage_runtime.splits)
  let ?out = "next_pairing P d 1 (wt_standings r0)"
  have p: "prepare_swiss P d r0 = Inr (r, q)" using assms(3) SwissStage r0(1) by (auto simp: prepare_stage_def Let_def swiss_runtime_of_def split: if_splits)
  then have d: "2 \<le> length (ws_entrants d)" "distinct (ws_entrants d)" "positive_int (ws_rounds d)" "so_certified ?out"
    "r = SwissRun (open_round d 1 ?out (wt_standings r0) r0)" "q = [] @ swiss_requests (ws_id d) 1 (contest_pairings (ws_id d) 1 ?out)"
    by (auto simp: prepare_swiss_def Let_def split: if_splits)
  obtain n where n: "is_round (ws_rounds d) n" "1 \<le> n" using positive_int_round [OF d(3)] .
  have "requests_below (ws_id d) 1 q"
    unfolding d(6) next_pairing_def by (rule requests_below_next [of _ 0]) (use d(4) in \<open>simp_all add: next_pairing_def requests_below_def\<close>)
  then show ?thesis using d(1,2) n r0(2) unfolding SwissStage d(5) by (auto simp: runtime_ok_def swiss_ok_def open_round_def requests_below_def)
next
  case (HeatStage d)
  let ?q = "heat_assignment_request d"
  have p: "prepare_heat P d = Inr (r, q)" using assms(3) HeatStage by (auto simp: prepare_stage_def Let_def split: if_splits)
  then have c: "ho_certified (assign_qualifying_heats P ?q)" by (auto simp: prepare_heat_def Let_def split: if_splits)
  obtain k where k: "ho_heats (assign_qualifying_heats P ?q) = fill_heats P ?q k" "distinct (map sn_id (hr_entrants ?q))"
    using certified_heat_fill [OF c] .
  have q: "q = map (heat_schedule (wh_id d)) (fill_heats P ?q k)" and r: "\<exists>hs h. r = HeatRun (fresh_heat_runtime\<lparr>ht_heats := hs, ht_hash := h\<rparr>)"
    using p c k(1) by (auto simp: prepare_heat_def Let_def)
  have "distinct (active_ids d)" using k(2) by (simp add: active_ids_def heat_assignment_request_def distinct_map_filter)
  then show ?thesis using r heat_requests_distinct unfolding HeatStage q
    by (auto simp: runtime_ok_def heat_ok_def fresh_heat_runtime_def)
next
  case (LadderStage d)
  then show ?thesis using assms(3) by (auto simp: prepare_stage_def prepare_ladder_def runtime_ok_def Let_def split: if_splits sum.splits)
next
  case (RankingStage d)
  moreover have "runtime_ok (ds_definition s) PhaseDefinition (ds_runtime s) (ds_requests s)" using assms(1,2) by (simp add: stage_inv_def)
  ultimately show ?thesis using assms(3)
    by (auto simp: prepare_stage_def prepare_ranking_def runtime_ok_def ranking_ok_def Let_def split: if_splits stage_runtime.splits)
next
  case (OtherStage k i x)
  then show ?thesis using assms(1) by (simp add: stage_inv_def supported_def)
qed

lemma rank_swiss_rows:
  assumes "rank_swiss P d standings rounds = Inr (Inr (rows, proof))"
  shows "length rows = length (ws_entrants d)"
proof -
  obtain p where p: "effective_ranking_policy d = Some p" using assms by (cases "effective_ranking_policy d") (auto simp: rank_swiss_def)
  obtain engine where e: "create_swiss_ranking_engine [p] = Inr engine" using assms p by (cases "create_swiss_ranking_engine [p]") (auto simp: rank_swiss_def)
  then have engine: "engine = [(rp_id p, p)]" by (auto simp: create_swiss_ranking_engine_def register_policy_def split: if_splits)
  let ?q = "\<lparr>rq_policy = rp_id p, rq_tournament = ws_id d, rq_entrants = ws_entrants d, rq_rounds = ranking_rounds rounds\<rparr>"
  have ranked: "engine_rank P engine ?q = rank_with_policy P p ?q" by (simp add: engine engine_rank_def)
  have c: "rk_status (rank_with_policy P p ?q) = RankingCertified" and rows: "length rows = length (rk_rows (rank_with_policy P p ?q))"
    using assms p e ranked by (auto simp: rank_swiss_def Let_def split: if_splits)
  have "size (mset (map ro_competitor (rk_rows (rank_with_policy P p ?q)))) = size (mset (rq_entrants ?q))"
    using ranked_rows(1) [of P p ?q] c by simp
  then show ?thesis using rows by simp
qed

lemma swiss_inv:
  assumes "stage_inv P s" "ds_definition s = SwissStage d" "ds_runtime s = SwissRun r"
  shows "swiss_ok d (ds_phase s) r (ds_requests s)"
  using assms by (simp add: stage_inv_def runtime_ok_def)

lemma finish_swiss_sound:
  assumes "finish_swiss P s c msg d r = Inr t" "ds_definition s = SwissStage d" "may_step (SwissStage d) (ca_action c) (ds_phase s) PhaseComplete"
    "distinct (map sq_contest (ds_requests s))" "2 \<le> length (ws_entrants d)"
    "\<And>rows x proof. rows \<noteq> [] \<Longrightarrow> swiss_ok d PhaseComplete (r\<lparr>wt_final := rows, wt_policy_hash := x, wt_proof := proof\<rparr>) (ds_requests s)"
  shows "sound P s c t"
proof -
  obtain ranking where r: "rank_swiss P d (wt_standings r) (wt_completed r) = Inr ranking" using assms(1) by (auto simp: finish_swiss_def bind_result_Inr_iff)
  show ?thesis
  proof (cases ranking)
    case (Inl fs)
    then show ?thesis using assms(1) r by (auto simp: finish_swiss_def)
  next
    case (Inr x)
    obtain rows proof_of where x: "x = (rows, proof_of)" by force
    have "rows \<noteq> []" using rank_swiss_rows [OF r [unfolded Inr x]] assms(5) by auto
    from assms(6) [OF this] assms(1,3,4) show ?thesis unfolding finish_swiss_def r Inr x
      by (auto intro!: sound_commit simp: assms(2) runtime_ok_def)
  qed
qed

definition recorded_round :: "platform \<Rightarrow> swiss_runtime \<Rightarrow> round_result list \<Rightarrow> completed_round" where
  "recorded_round P r rs = \<lparr>cr_round = wt_round r, cr_results = rs, cr_hash = results_hash P rs, cr_bye = wt_bye r, cr_pairings = wt_pairings r\<rparr>"

lemma submit_swiss_cases:
  assumes "submit_swiss P s c n rs = Inr t"
  obtains (refused) "refuses s t"
  | (final) d r standings where "ds_definition s = SwissStage d" "ds_runtime s = SwissRun r" "ds_phase s = PhaseRunning"
      "list_all (result_matches (wt_pairings r)) rs" "apply_results d (wt_standings r) rs = Inr standings" "is_round (ws_rounds d) (wt_round r)"
      "finish_swiss P s c ''Final Swiss standings could not be certified by the registered ranking policy.'' d
        (r\<lparr>wt_standings := standings, wt_pairings := [], wt_completed := wt_completed r @ [recorded_round P r rs]\<rparr>) = Inr t"
  | (more) d r standings out where "ds_definition s = SwissStage d" "ds_runtime s = SwissRun r" "ds_phase s = PhaseRunning"
      "list_all (result_matches (wt_pairings r)) rs" "apply_results d (wt_standings r) rs = Inr standings" "\<not> is_round (ws_rounds d) (wt_round r)"
      "out = next_pairing P d (wt_round r + 1) standings" "so_certified out"
      "t = commit_stage P s c PhaseRunning
         (SwissRun (open_round d (wt_round r + 1) out standings (r\<lparr>wt_completed := wt_completed r @ [recorded_round P r rs]\<rparr>)))
         (ds_requests s @ swiss_requests (ws_id d) (wt_round r + 1) (contest_pairings (ws_id d) (wt_round r + 1) out))"
proof (cases "\<exists>d r. ds_definition s = SwissStage d \<and> ds_runtime s = SwissRun r \<and> ds_phase s = PhaseRunning
    \<and> is_round n (wt_round r) \<and> covers_round (wt_pairings r) rs \<and> list_all (result_matches (wt_pairings r)) rs")
  case False
  then have "refuses s t" using assms
    by (auto simp: submit_swiss_def split: stage_definition.splits stage_runtime.splits stage_phase.splits if_splits)
  then show ?thesis by (rule refused)
next
  case True
  then obtain d r where s: "ds_definition s = SwissStage d" "ds_runtime s = SwissRun r" "ds_phase s = PhaseRunning"
    "is_round n (wt_round r)" "covers_round (wt_pairings r) rs" "list_all (result_matches (wt_pairings r)) rs" by blast
  obtain standings where st: "apply_results d (wt_standings r) rs = Inr standings"
    using assms s by (auto simp: submit_swiss_def bind_result_Inr_iff)
  show ?thesis
  proof (cases "is_round (ws_rounds d) (wt_round r)")
    case True
    then show ?thesis using assms s by (intro final [OF s(1-3,6) st]) (simp_all add: submit_swiss_def st Let_def recorded_round_def)
  next
    case False
    let ?out = "next_pairing P d (wt_round r + 1) standings"
    have t: "t = (if \<not> so_certified ?out then caused_by P s ''PAIRING_REJECTED'' ''Next Swiss round could not be certified.'' (so_findings ?out)
          else commit_stage P s c PhaseRunning
            (SwissRun (open_round d (wt_round r + 1) ?out standings (r\<lparr>wt_completed := wt_completed r @ [recorded_round P r rs]\<rparr>)))
            (ds_requests s @ swiss_requests (ws_id d) (wt_round r + 1) (contest_pairings (ws_id d) (wt_round r + 1) ?out)))"
      using assms s False by (auto simp: submit_swiss_def st Let_def recorded_round_def)
    show ?thesis
    proof (cases "so_certified ?out")
      case True
      then show ?thesis using t by (intro more [OF s(1-3,6) st False refl]) simp_all
    next
      case False
      then show ?thesis using t by (intro refused) simp
    qed
  qed
qed

lemma running_round:
  assumes "stage_inv P s" "ds_definition s = SwissStage d" "ds_runtime s = SwissRun r" "ds_phase s = PhaseRunning"
  obtains k where "is_round (ws_rounds d) k" "2 \<le> length (ws_entrants d)" "distinct (ws_entrants d)" "requests_below (ws_id d) (wt_round r) (ds_requests s)"
    "wt_round r \<le> k" "map cr_round (wt_completed r @ [recorded_round P r rs]) = [1..<length (wt_completed r @ [recorded_round P r rs]) + 1]"
    "length (wt_completed r @ [recorded_round P r rs]) = wt_round r"
proof -
  obtain k where k: "is_round (ws_rounds d) k" "2 \<le> length (ws_entrants d)" "distinct (ws_entrants d)" "requests_below (ws_id d) (wt_round r) (ds_requests s)"
    "map cr_round (wt_completed r) = [1..<length (wt_completed r) + 1]" "wt_round r \<le> k" "length (wt_completed r) + 1 = wt_round r"
    using swiss_inv [OF assms(1-3)] assms(4) by (auto simp: swiss_ok_def)
  then show ?thesis by (intro that [OF k(1-4,6)]) (simp_all add: recorded_round_def k(7) [symmetric] upt_Suc_append del: upt_Suc)
qed

lemma submit_swiss_sound:
  assumes "stage_inv P s" "ca_action c = SubmitSwiss n rs" "submit_swiss P s c n rs = Inr t"
  shows "sound P s c t"
  using assms(3)
proof (cases rule: submit_swiss_cases)
  case refused
  then show ?thesis by simp
next
  case (final d r standings)
  obtain k where k: "is_round (ws_rounds d) k" "2 \<le> length (ws_entrants d)" "distinct (ws_entrants d)" "requests_below (ws_id d) (wt_round r) (ds_requests s)"
    "wt_round r \<le> k" "map cr_round (wt_completed r @ [recorded_round P r rs]) = [1..<length (wt_completed r @ [recorded_round P r rs]) + 1]"
    "length (wt_completed r @ [recorded_round P r rs]) = wt_round r" using running_round [OF assms(1) final(1-3)] .
  show ?thesis
    by (rule finish_swiss_sound [OF final(7,1)])
      (use final(3,6) k in \<open>auto simp: assms(2) swiss_ok_def requests_below_def is_round_unique [OF k(1)] simp del: upt_Suc\<close>)
next
  case (more d r standings out)
  obtain k where k: "is_round (ws_rounds d) k" "2 \<le> length (ws_entrants d)" "distinct (ws_entrants d)" "requests_below (ws_id d) (wt_round r) (ds_requests s)"
    "wt_round r \<le> k" "map cr_round (wt_completed r @ [recorded_round P r rs]) = [1..<length (wt_completed r @ [recorded_round P r rs]) + 1]"
    "length (wt_completed r @ [recorded_round P r rs]) = wt_round r" using running_round [OF assms(1) more(1-3)] .
  have "\<exists>n. is_round (ws_rounds d) n \<and> Suc (wt_round r) \<le> n" using k(1,5) more(6) by (cases "wt_round r = k") auto
  moreover have "requests_below (ws_id d) (wt_round r + 1) (ds_requests s @ swiss_requests (ws_id d) (wt_round r + 1) (contest_pairings (ws_id d) (wt_round r + 1) out))"
    using requests_below_next [OF k(4) _ more(8) [unfolded more(7) next_pairing_def]] unfolding more(7) next_pairing_def by simp
  ultimately show ?thesis unfolding more(9) using more(1,3) k(2,3,6,7)
    by (auto intro!: sound_commit simp: assms(2) runtime_ok_def swiss_ok_def open_round_def requests_below_def simp del: upt_Suc)
qed

lemma final_round:
  assumes "swiss_ok d PhaseComplete r q"
  obtains rounds latest n where "wt_completed r = rounds @ [latest]" "cr_round latest = wt_round r" "is_round (ws_rounds d) n" "wt_round r = n" "1 \<le> n"
    "map cr_round rounds = [1..<length rounds + 1]" "length rounds + 1 = wt_round r" "2 \<le> length (ws_entrants d)" "distinct (ws_entrants d)"
    "requests_below (ws_id d) (wt_round r) q"
proof -
  obtain n where n: "is_round (ws_rounds d) n" "2 \<le> length (ws_entrants d)" "distinct (ws_entrants d)" "requests_below (ws_id d) (wt_round r) q"
    "map cr_round (wt_completed r) = [1..<length (wt_completed r) + 1]" "length (wt_completed r) = wt_round r" "1 \<le> wt_round r" "wt_round r = n"
    using assms by (auto simp: swiss_ok_def)
  obtain rounds latest where c: "wt_completed r = rounds @ [latest]" using n(6,7) by (cases "wt_completed r" rule: rev_cases) auto
  have "map cr_round rounds @ [cr_round latest] = [1..<length rounds + 1] @ [length rounds + 1]"
    using n(5) unfolding c by (simp add: upt_Suc_append del: upt_Suc)
  then show ?thesis using n c that by simp
qed

lemma correct_swiss_cases:
  assumes "correct_swiss P s c n h rs why = Inr t"
  obtains (refused) "refuses s t"
  | (final) d r standings rounds where "ds_definition s = SwissStage d" "ds_runtime s = SwissRun r" "ds_phase s = PhaseComplete"
      "valid_swiss_replacement (cr_pairings (last (wt_completed r))) rs"
      "rounds = butlast (wt_completed r) @ [(last (wt_completed r))\<lparr>cr_results := rs, cr_hash := results_hash P rs\<rparr>]"
      "rebuild_swiss_standings d rounds = Inr standings"
      "finish_swiss P s c ''Corrected Swiss standings could not be certified by the registered ranking policy.'' d
        (r\<lparr>wt_standings := standings, wt_completed := rounds\<rparr>) = Inr t"
proof (cases "\<exists>d r. ds_definition s = SwissStage d \<and> ds_runtime s = SwissRun r \<and> ds_phase s = PhaseComplete
    \<and> supersedes (wt_completed r) n h \<and> \<not> blank why \<and> valid_swiss_replacement (cr_pairings (last (wt_completed r))) rs")
  case False
  then have "refuses s t" using assms
    by (auto simp: correct_swiss_def split: stage_definition.splits stage_runtime.splits stage_phase.splits if_splits)
  then show ?thesis by (rule refused)
next
  case True
  then obtain d r where s: "ds_definition s = SwissStage d" "ds_runtime s = SwissRun r" "ds_phase s = PhaseComplete"
    "supersedes (wt_completed r) n h" "\<not> blank why" "valid_swiss_replacement (cr_pairings (last (wt_completed r))) rs" by blast
  then obtain standings where "rebuild_swiss_standings d (butlast (wt_completed r) @ [(last (wt_completed r))\<lparr>cr_results := rs, cr_hash := results_hash P rs\<rparr>]) = Inr standings"
    using assms by (auto simp: correct_swiss_def Let_def bind_result_Inr_iff)
  then show ?thesis using assms s by (intro final [OF s(1-3,6) refl]) (simp_all add: correct_swiss_def Let_def)
qed

lemma correct_swiss_sound:
  assumes "stage_inv P s" "ca_action c = CorrectSwiss n h rs why" "correct_swiss P s c n h rs why = Inr t"
  shows "sound P s c t"
  using assms(3)
proof (cases rule: correct_swiss_cases)
  case (final d r standings changed)
  obtain rounds latest k where k: "wt_completed r = rounds @ [latest]" "cr_round latest = wt_round r" "is_round (ws_rounds d) k" "wt_round r = k" "1 \<le> k"
    "map cr_round rounds = [1..<length rounds + 1]" "length rounds + 1 = wt_round r" "2 \<le> length (ws_entrants d)" "distinct (ws_entrants d)"
    "requests_below (ws_id d) (wt_round r) (ds_requests s)"
    using final_round [OF swiss_inv [OF assms(1) final(1,2), unfolded final(3)]] .
  have "map cr_round changed = [1..<length changed + 1]" "length changed = wt_round r"
    using k(2,6,7) unfolding final(5) k(1) by (simp_all add: upt_Suc_append del: upt_Suc)
  then show ?thesis
    by (intro finish_swiss_sound [OF final(7,1)])
      (use final(3) k in \<open>auto simp: assms(2) swiss_ok_def requests_below_def simp del: upt_Suc\<close>)
qed simp

lemma void_swiss_sound:
  assumes "stage_inv P s" "ca_action c = VoidSwiss n h why" "void_swiss P s c n h why = Inr t"
  shows "sound P s c t"
proof (cases "\<exists>d r. ds_definition s = SwissStage d \<and> ds_runtime s = SwissRun r \<and> ds_phase s = PhaseComplete")
  case False
  then have "refuses s t" using assms(3) by (auto simp: void_swiss_def split: stage_definition.splits stage_runtime.splits stage_phase.splits)
  then show ?thesis by simp
next
  case True
  then obtain d r where s: "ds_definition s = SwissStage d" "ds_runtime s = SwissRun r" "ds_phase s = PhaseComplete" by blast
  obtain rounds latest k where k: "wt_completed r = rounds @ [latest]" "cr_round latest = wt_round r" "is_round (ws_rounds d) k" "wt_round r = k" "1 \<le> k"
    "map cr_round rounds = [1..<length rounds + 1]" "length rounds + 1 = wt_round r" "2 \<le> length (ws_entrants d)" "distinct (ws_entrants d)"
    "requests_below (ws_id d) (wt_round r) (ds_requests s)"
    using final_round [OF swiss_inv [OF assms(1) s(1,2), unfolded s(3)]] .
  show ?thesis
  proof (cases "supersedes (wt_completed r) n h \<and> \<not> blank why")
    case False
    then have "refuses s t" using assms(3) s by (auto simp: void_swiss_def split: if_splits)
    then show ?thesis by simp
  next
    case True
    obtain standings where t: "t = commit_stage P s c PhaseRunning (SwissRun (r\<lparr>wt_round := wt_round r, wt_standings := standings,
        wt_pairings := cr_pairings latest, wt_bye := cr_bye latest, wt_completed := rounds, wt_final := [], wt_policy_hash := None, wt_proof := None\<rparr>)) (ds_requests s)"
      using assms(3) s True k(1,2) by (auto simp: void_swiss_def Let_def bind_result_Inr_iff)
    show ?thesis unfolding t using s k
      by (auto intro!: sound_commit simp: assms(2) runtime_ok_def swiss_ok_def requests_below_def simp del: upt_Suc)
  qed
qed

lemma qualification_hash:
  assumes "\<And>x. sha256 P x \<noteq> []"
  shows "truthy_hash (Some (qo_hash (qualify_ranking_stage P q)))"
proof -
  have sealed: "qo_hash (seal_qualification P out) \<noteq> []" for out using assms by (simp add: seal_qualification_def ledger_hash_def)
  then have "qo_hash (qualification_rejected P q' ex code msg ties) \<noteq> []" for q' ex code msg ties by (simp add: qualification_rejected_def)
  then have "qo_hash (qualify_ranking_stage P q) \<noteq> []"
    using sealed unfolding qualify_ranking_stage_def Let_def by (simp split: option.split)
  then show ?thesis by (simp add: truthy_hash_def)
qed

lemma recorded_normalized [simp]:
  "distinct (map recorded_id (normalized_recorded d xs)) = distinct (map recorded_id xs)"
  "set (normalized_recorded d xs) = set xs" "length (normalized_recorded d xs) = length xs"
  by (simp_all add: normalized_recorded_def Let_def)

definition records_ok :: "heat_stage \<Rightarrow> recorded list \<Rightarrow> bool" where
  "records_ok d xs \<longleftrightarrow> distinct (active_ids d) \<and> distinct (map recorded_id xs) \<and> set (map recorded_id xs) \<subseteq> set (active_ids d)"

lemma records_ok_length: "records_ok d xs \<Longrightarrow> length xs \<le> length (active_ids d)"
  unfolding records_ok_def by (metis List.finite_set card_mono distinct_card length_map)

lemma records_ok_normalized [simp]: "records_ok d (normalized_recorded d xs) = records_ok d xs"
  by (simp add: records_ok_def image_comp [symmetric])

lemma open_heat_sound:
  assumes "ds_definition s = HeatStage d" "may_step (HeatStage d) (ca_action c) (ds_phase s) PhaseRunning" "records_ok d xs"
    "distinct (map sq_contest (ds_requests s))"
  shows "sound P s c (open_heat P s c r xs)"
  unfolding open_heat_def using assms by (intro sound_commit) (auto simp: runtime_ok_def heat_ok_def records_ok_def)

lemma evaluate_heat_sound:
  assumes "\<And>x. sha256 P x \<noteq> []" "ds_definition s = HeatStage d" "may_step (HeatStage d) (ca_action c) (ds_phase s) PhaseComplete" "records_ok d xs"
    "length xs = length (active_ids d)" "distinct (map sq_contest (ds_requests s))"
  shows "sound P s c (evaluate_heat P s c d r xs)"
  unfolding evaluate_heat_def Let_def using assms(2-6) qualification_hash [OF assms(1)]
  by (auto intro!: sound_commit simp: runtime_ok_def heat_ok_def records_ok_def)

lemma heat_inv:
  assumes "stage_inv P s" "ds_definition s = HeatStage d" "ds_runtime s = HeatRun r" "ds_phase s \<noteq> PhaseDefinition"
  shows "records_ok d (ht_recorded r)" "ds_phase s = PhaseComplete \<Longrightarrow> length (ht_recorded r) = length (active_ids d)"
    "distinct (map sq_contest (ds_requests s))"
  using assms by (simp_all add: stage_inv_def runtime_ok_def heat_ok_def records_ok_def)

lemma submit_heat_sound:
  assumes "\<And>x. sha256 P x \<noteq> []" "stage_inv P s" "ca_action c = SubmitHeat rs"
  shows "sound P s c (submit_heat P s c rs)"
proof (cases "\<exists>d r. ds_definition s = HeatStage d \<and> ds_runtime s = HeatRun r \<and> ds_phase s = PhaseRunning")
  case False
  then have "refuses s (submit_heat P s c rs)" by (auto simp: submit_heat_def split: stage_definition.splits stage_runtime.splits stage_phase.splits)
  then show ?thesis by simp
next
  case True
  then obtain d r where s: "ds_definition s = HeatStage d" "ds_runtime s = HeatRun r" "ds_phase s = PhaseRunning" by blast
  then have inv: "records_ok d (ht_recorded r)" "distinct (map sq_contest (ds_requests s))" using heat_inv [OF assms(2) s(1,2)] by simp_all
  let ?xs = "normalized_recorded d (ht_recorded r @ map (\<lambda>x. (x, trial_hash P x)) rs)"
  let ?bad = "rs = [] \<or> \<not> distinct (map tr_competitor rs)
      \<or> list_ex (\<lambda>x. \<not> List.member (active_ids d) (tr_competitor x) \<or> List.member (map recorded_id (ht_recorded r)) (tr_competitor x)
          \<or> \<not> valid_heat_result x) rs"
  show ?thesis
  proof (cases ?bad)
    case True
    then show ?thesis unfolding submit_heat_def s prod.case stage_definition.case stage_runtime.case stage_phase.case if_P [OF True] by simp
  next
    case False
    then have ok: "records_ok d ?xs"
      using inv(1) by (auto simp: records_ok_def list_ex_iff comp_def, force)
    then have len: "length ?xs \<le> length (active_ids d)" by (rule records_ok_length)
    have active: "length (js_unique (active_ids d)) = length (active_ids d)"
      using ok unfolding records_ok_def by (metis distinct_card distinct_js_unique set_js_unique)
    have steps: "may_step (HeatStage d) (ca_action c) (ds_phase s) PhaseRunning" "may_step (HeatStage d) (ca_action c) (ds_phase s) PhaseComplete"
      by (simp_all add: assms(3) s(3))
    have "submit_heat P s c rs = (if length ?xs < length (active_ids d) then open_heat P s c r ?xs else evaluate_heat P s c d r ?xs)"
      unfolding submit_heat_def s prod.case stage_definition.case stage_runtime.case stage_phase.case if_not_P [OF False] Let_def active ..
    then show ?thesis
      using open_heat_sound [OF s(1) steps(1) ok inv(2)] evaluate_heat_sound [OF assms(1) s(1) steps(2) ok _ inv(2)] len
      by (auto split: if_splits)
  qed
qed

lemma current_result_Some:
  assumes "current_result r i h = Some k"
  shows "k < length (ht_recorded r)" "recorded_id (ht_recorded r ! k) = i"
proof -
  have "index_of i (map recorded_id (ht_recorded r)) = Some k" using assms by (auto simp: current_result_def split: option.splits if_splits)
  from index_of_Some [OF this] have "k < length (ht_recorded r)" "map recorded_id (ht_recorded r) ! k = i" by simp_all
  then show "k < length (ht_recorded r)" "recorded_id (ht_recorded r ! k) = i" by simp_all
qed

lemma records_ok_update:
  assumes "records_ok d xs" "k < length xs" "recorded_id (xs ! k) = tr_competitor x"
  shows "records_ok d (xs[k := (x, h)])"
proof -
  have "map recorded_id (xs[k := (x, h)]) = (map recorded_id xs)[k := recorded_id (x, h)]" by (simp add: map_update)
  also have "\<dots> = map recorded_id xs" using assms(2,3) by (simp add: list_update_same_conv)
  finally show ?thesis using assms(1) unfolding records_ok_def by simp
qed

lemma records_ok_remove: "records_ok d xs \<Longrightarrow> records_ok d (take k xs @ drop (Suc k) xs)"
proof -
  assume ok: "records_ok d xs"
  have "distinct (map recorded_id (take k xs @ drop (Suc k) xs))"
  proof (cases "k < length xs")
    case True
    have "distinct (map recorded_id (take k xs @ xs ! k # drop (Suc k) xs))"
      using ok unfolding records_ok_def id_take_nth_drop [OF True, symmetric] by blast
    then show ?thesis by simp
  qed (use ok in \<open>simp add: records_ok_def\<close>)
  moreover have "set (take k xs @ drop (Suc k) xs) \<subseteq> set xs" using set_take_subset set_drop_subset by fastforce
  moreover from this have "set (map recorded_id (take k xs @ drop (Suc k) xs)) \<subseteq> set (map recorded_id xs)" unfolding set_map by (rule image_mono)
  ultimately show ?thesis using ok unfolding records_ok_def by blast
qed

lemma correct_heat_sound:
  assumes "\<And>x. sha256 P x \<noteq> []" "stage_inv P s" "ca_action c = CorrectHeat i h x why"
  shows "sound P s c (correct_heat P s c i h x why)"
proof (cases "\<exists>d r. ds_definition s = HeatStage d \<and> ds_runtime s = HeatRun r \<and> (ds_phase s = PhaseRunning \<or> ds_phase s = PhaseComplete)
    \<and> tr_competitor x = i \<and> current_result r i h \<noteq> None")
  case False
  then have "refuses s (correct_heat P s c i h x why)"
    by (auto simp: correct_heat_def split: stage_definition.splits stage_runtime.splits option.splits)
  then show ?thesis by simp
next
  case True
  then obtain d r k where s: "ds_definition s = HeatStage d" "ds_runtime s = HeatRun r" "ds_phase s = PhaseRunning \<or> ds_phase s = PhaseComplete"
    "tr_competitor x = i" "current_result r i h = Some k" by blast
  then have inv: "records_ok d (ht_recorded r)" "distinct (map sq_contest (ds_requests s))"
    "ds_phase s = PhaseComplete \<Longrightarrow> length (ht_recorded r) = length (active_ids d)" using heat_inv [OF assms(2) s(1,2)] by auto
  let ?xs = "normalized_recorded d ((ht_recorded r)[k := (x, trial_hash P x)])"
  have ok: "records_ok d ?xs" using records_ok_update [OF inv(1)] current_result_Some [OF s(5)] s(4) by simp
  have "correct_heat P s c i h x why = stage_rejected P s ''INVALID_HEAT_CORRECTION'' ''Correction requires a reason and one valid result for the named competitor.''
      \<or> correct_heat P s c i h x why = (if ds_phase s = PhaseComplete then evaluate_heat P s c d r ?xs else open_heat P s c r ?xs)"
    using s by (auto simp: correct_heat_def Let_def)
  moreover have "sound P s c (if ds_phase s = PhaseComplete then evaluate_heat P s c d r ?xs else open_heat P s c r ?xs)"
  proof (cases "ds_phase s = PhaseComplete")
    case True
    then show ?thesis using evaluate_heat_sound [OF assms(1) s(1) _ ok _ inv(2)] inv(3) by (simp add: assms(3))
  next
    case False
    then have "sound P s c (open_heat P s c r ?xs)" using s(3) by (intro open_heat_sound [OF s(1) _ ok inv(2)]) (simp add: assms(3))
    then show ?thesis using False by simp
  qed
  ultimately show ?thesis by auto
qed

lemma void_heat_sound:
  assumes "stage_inv P s" "ca_action c = VoidHeat i h why"
  shows "sound P s c (void_heat P s c i h why)"
proof (cases "\<exists>d r. ds_definition s = HeatStage d \<and> ds_runtime s = HeatRun r \<and> (ds_phase s = PhaseRunning \<or> ds_phase s = PhaseComplete)
    \<and> current_result r i h \<noteq> None")
  case False
  then have "refuses s (void_heat P s c i h why)"
    by (auto simp: void_heat_def split: stage_definition.splits stage_runtime.splits option.splits)
  then show ?thesis by simp
next
  case True
  then obtain d r k where s: "ds_definition s = HeatStage d" "ds_runtime s = HeatRun r" "ds_phase s = PhaseRunning \<or> ds_phase s = PhaseComplete"
    "current_result r i h = Some k" by blast
  then have inv: "records_ok d (ht_recorded r)" "distinct (map sq_contest (ds_requests s))" using heat_inv [OF assms(1) s(1,2)] by auto
  have "void_heat P s c i h why = stage_rejected P s ''VOID_REASON_REQUIRED'' ''Voiding a heat result requires an audit reason.''
      \<or> void_heat P s c i h why = open_heat P s c r (take k (ht_recorded r) @ drop (Suc k) (ht_recorded r))"
    using s by (auto simp: void_heat_def)
  moreover have "sound P s c (open_heat P s c r (take k (ht_recorded r) @ drop (Suc k) (ht_recorded r)))"
    using s(3) by (intro open_heat_sound [OF s(1) _ records_ok_remove [OF inv(1)] inv(2)]) (simp add: assms(2))
  ultimately show ?thesis by auto
qed

lemma ladder_challenge_sound:
  assumes "stage_inv P s" "ca_action c = RecordChallenge a b w ref why"
  shows "sound P s c (ladder_challenge_stage P s c a b w ref why)"
  using assms unfolding ladder_challenge_stage_def
  by (auto intro!: sound_commit simp: Let_def stage_inv_def runtime_ok_def split: stage_definition.split stage_runtime.split stage_phase.split option.split)

lemma complete_ladder_sound:
  assumes "stage_inv P s" "ca_action c = CompleteLadder"
  shows "sound P s c (complete_ladder P s c)"
  using assms unfolding complete_ladder_def
  by (auto intro!: sound_commit simp: Let_def stage_inv_def runtime_ok_def split: stage_definition.split stage_runtime.split stage_phase.split option.split)

lemma submit_ranking_sound:
  assumes "\<And>x. sha256 P x \<noteq> []" "stage_inv P s" "ca_action c = SubmitRanking rs"
  shows "sound P s c (submit_ranking P s c rs)"
  using assms(2,3) qualification_hash [OF assms(1)] unfolding submit_ranking_def
  by (auto intro!: sound_commit simp: Let_def stage_inv_def runtime_ok_def ranking_ok_def split: stage_definition.split stage_runtime.split stage_phase.split)

lemma execute_action_sound:
  assumes "\<And>x. sha256 P x \<noteq> []" "stage_inv P s" "execute_action P s c = Inr t"
  shows "sound P s c t"
proof (cases "ca_action c")
  case Prepare
  then have t: "t = prepare_command P s c" using assms(3) by (simp add: execute_action_def)
  show ?thesis unfolding t prepare_command_def using prepare_stage_ok [OF assms(2)]
    by (auto intro!: sound_commit simp: Prepare split: sum.split)
next
  case Start
  then have t: "t = start_command P s c" using assms(3) by (simp add: execute_action_def)
  have "runtime_ok (ds_definition s) PhaseRunning (ds_runtime s) (ds_requests s)" if "ds_phase s = PhaseReady"
    using assms(2) that by (auto simp: stage_inv_def runtime_ok_def swiss_ok_def heat_ok_def ranking_ok_def split: stage_definition.splits stage_runtime.splits)
  then show ?thesis unfolding t start_command_def by (auto intro!: sound_commit simp: Start)
next
  case (SubmitSwiss n rs)
  then show ?thesis using assms(2,3) by (auto simp: execute_action_def intro: submit_swiss_sound)
next
  case (CorrectSwiss n h rs why)
  then show ?thesis using assms(2,3) by (auto simp: execute_action_def intro: correct_swiss_sound)
next
  case (VoidSwiss n h why)
  then show ?thesis using assms(2,3) by (auto simp: execute_action_def intro: void_swiss_sound)
next
  case (SubmitHeat rs)
  then show ?thesis using assms by (auto simp: execute_action_def intro: submit_heat_sound)
next
  case (CorrectHeat i h x why)
  then show ?thesis using assms by (auto simp: execute_action_def intro: correct_heat_sound)
next
  case (VoidHeat i h why)
  then show ?thesis using assms(2,3) by (auto simp: execute_action_def intro: void_heat_sound)
next
  case (RecordChallenge a b w ref why)
  then show ?thesis using assms(2,3) by (auto simp: execute_action_def intro: ladder_challenge_sound)
next
  case CompleteLadder
  then show ?thesis using assms(2,3) by (auto simp: execute_action_def intro: complete_ladder_sound)
next
  case (SubmitRanking rs)
  then show ?thesis using assms by (auto simp: execute_action_def intro: submit_ranking_sound)
next
  case (OtherAction k)
  then show ?thesis using assms(3) by (auto simp: execute_action_def)
qed

section \<open>Transitions\<close>

text \<open>What a transition is: a refusal, a replay of a recorded command, or a committed step.\<close>

lemma transition_cases:
  assumes "transition_dynamic_stage P s c = Inr t"
  obtains (refused) "dt_status t = TransitionRejected" "dt_state t = s"
  | (replayed) e where "dt_status t = TransitionReplayed" "dt_state t = s" "List.find (\<lambda>e. sv_key e = ca_key c) (ds_events s) = Some e"
      "sv_command_hash e = ledger_hash P (stage_command_json c)" "dt_event t = Some (sv_hash e)"
  | (executed) "execute_action P s c = Inr t" "verify_dynamic_stage P s = []" "\<forall>e \<in> set (ds_events s). sv_key e \<noteq> ca_key c"
      "action_kind (ca_action c) \<in> set command_kinds" "\<not> blank (ca_key c)" "\<not> blank (ca_actor c)" "date_parse P (ca_at c) \<noteq> None"
      "js_integer (ca_version c) = Some (ds_version s)"
proof (cases "verify_dynamic_stage P s = []")
  case False
  then have "t = refused P s (''INVALID_STATE_PROOF'', ''Lifecycle state or event proof is invalid.'', Some (map fst (verify_dynamic_stage P s)))"
    using assms by (simp add: transition_dynamic_stage_def)
  then show ?thesis by (intro refused) (simp_all add: refused_def)
next
  case valid: True
  show ?thesis
  proof (cases "List.find (\<lambda>e. sv_key e = ca_key c) (ds_events s)")
    case (Some e)
    then show ?thesis using assms valid replayed refused
      by (auto simp: transition_dynamic_stage_def stage_rejected_def refused_def split: if_splits)
  next
    case None
    then have "\<forall>e \<in> set (ds_events s). sv_key e \<noteq> ca_key c" by (auto simp: find_None_iff)
    then show ?thesis using assms valid None executed refused
      by (auto simp: transition_dynamic_stage_def stage_rejected_def refused_def split: if_splits)
  qed
qed

lemma transition_step:
  assumes "\<And>x. sha256 P x \<noteq> []" "stage_inv P s" "transition_dynamic_stage P s c = Inr t"
  shows "dt_status t \<noteq> TransitionApplied \<and> dt_state t = s
    \<or> (\<exists>p r q. t = commit_stage P s c p r q \<and> may_step (ds_definition s) (ca_action c) (ds_phase s) p \<and> stage_inv P (dt_state t)
        \<and> (\<forall>e \<in> set (ds_events s). sv_key e \<noteq> ca_key c))"
  using assms(3)
proof (cases rule: transition_cases)
  case executed
  from execute_action_sound [OF assms(1,2) executed(1)] show ?thesis
    unfolding sound_def answers_def refuses_def using executed(3) stage_inv_advance [OF assms(2) _ _ executed(4)]
    by (fastforce simp: commit_stage_def)
qed simp_all

lemma steps_inv:
  assumes "\<And>x. sha256 P x \<noteq> []" "stage_steps P s s'" "stage_inv P s"
  shows "stage_inv P s'"
  using assms(2,3)
proof (induction rule: stage_steps.induct)
  case (step s' c t)
  then show ?case using transition_step [OF assms(1) _ step.hyps(2)] by auto
qed simp

text \<open>Commands only extend the history and keep the definition.\<close>

lemma steps_extend:
  assumes "\<And>x. sha256 P x \<noteq> []" "stage_steps P s s'" "stage_inv P s"
  shows "ds_definition s' = ds_definition s \<and> (\<exists>es. ds_events s' = ds_events s @ es)"
  using assms(2,3)
proof (induction rule: stage_steps.induct)
  case (step s' c t)
  have "stage_inv P s'" using steps_inv [OF assms(1) step.hyps(1)] step.prems .
  from transition_step [OF assms(1) this step.hyps(2)] step.IH [OF step.prems] show ?case
    by (auto simp: commit_stage_def)
qed simp

lemma steps_replay:
  assumes "\<And>x. sha256 P x \<noteq> []" "stage_steps P s s'" "stage_inv P s"
  shows "replay_stage_events P s (drop (length (ds_events s)) (ds_events s') @ es) = replay_stage_events P s' es"
  using assms(2,3)
proof (induction arbitrary: es rule: stage_steps.induct)
  case (step s' c t)
  have inv: "stage_inv P s'" using steps_inv [OF assms(1) step.hyps(1)] step.prems .
  obtain es' where es': "ds_events s' = ds_events s @ es'" using steps_extend [OF assms(1) step.hyps(1)] step.prems by blast
  from transition_step [OF assms(1) inv step.hyps(2)] show ?case
  proof
    assume "dt_status t \<noteq> TransitionApplied \<and> dt_state t = s'"
    then show ?thesis using step.IH [OF step.prems] by simp
  next
    assume "\<exists>p r q. t = commit_stage P s' c p r q \<and> may_step (ds_definition s') (ca_action c) (ds_phase s') p \<and> stage_inv P (dt_state t)
        \<and> (\<forall>e \<in> set (ds_events s'). sv_key e \<noteq> ca_key c)"
    then obtain p r q where t: "t = commit_stage P s' c p r q" by blast
    then have events: "ds_events (dt_state t) = ds_events s @ es' @ [stage_event P s' c]" and "\<not> diverges t (stage_event P s' c)"
      using es' by (simp_all add: commit_stage_def diverges_def)
    then have "replay_stage_events P s' (stage_event P s' c # es) = replay_stage_events P (dt_state t) es" using step.hyps(2) by simp
    then show ?thesis using step.IH [OF step.prems, of "stage_event P s' c # es"] events es' by simp
  qed
qed simp

section \<open>Properties of every stage\<close>

lemma reachable_inv:
  assumes "\<And>x. sha256 P x \<noteq> []" "supported d" "stage_steps P (define_dynamic_stage P d) s"
  shows "stage_inv P s" "ds_definition s = d"
  using steps_inv [OF assms(1,3) stage_inv_define [OF assms(2)]] steps_extend [OF assms(1,3) stage_inv_define [OF assms(2)]] by simp_all

lemma replay_reachable:
  assumes "\<And>x. sha256 P x \<noteq> []" "supported d" "stage_steps P (define_dynamic_stage P d) s"
  obtains r where "replay_dynamic_stage P d (ds_events s) = Inr r" "dr_replayed r" "dr_state r = s" "dr_findings r = []"
proof -
  have "replay_dynamic_stage P d (ds_events s) = replay_stage_events P s []"
    using steps_replay [OF assms(1,3) stage_inv_define [OF assms(2)], of "[]"] by (simp add: replay_dynamic_stage_def)
  then show ?thesis using stage_inv_verifies [OF reachable_inv(1) [OF assms]] that by (simp add: seal_replay_def Let_def)
qed

lemma replayed_later:
  assumes "\<And>x. sha256 P x \<noteq> []" "stage_inv P s" "List.find (\<lambda>e. sv_key e = ca_key c) (ds_events s) = Some e"
  shows "transition_dynamic_stage P s c = Inr (if sv_command_hash e = ledger_hash P (stage_command_json c) then transition_result P TransitionReplayed s s (Some (sv_hash e)) []
    else stage_rejected P s ''IDEMPOTENCY_CONFLICT'' ''Idempotency key was already bound to different command content.'')"
  using assms(3) stage_inv_verifies [OF assms(2)] by (simp add: transition_dynamic_stage_def)

lemma find_append: "List.find Q (xs @ ys) = (case List.find Q xs of None \<Rightarrow> List.find Q ys | Some x \<Rightarrow> Some x)"
  by (induction xs) auto

text \<open>
  C25. Every state that commands can reach from a definition of a supported format is valid: the verification of the module finds
  nothing to report, the version counts the events, and the kinds of the events fit the phase (nothing
  before PREPARE, PREPARE and START in that order, then only commands of the format, one completion of a ladder at the end, one
  result set of a ranking). No sequence of commands gets a stage stuck on its own proof.
\<close>

theorem stage_always_verifies:
  assumes "\<And>x. sha256 P x \<noteq> []" "supported d" "stage_steps P (define_dynamic_stage P d) s"
  shows "verify_dynamic_stage P s = [] \<and> ds_definition s = d \<and> ds_version s = int (length (ds_events s))
    \<and> kinds_ok d (ds_phase s) (map sv_kind (ds_events s))"
  using reachable_inv [OF assms] stage_inv_verifies by (auto simp: stage_inv_def)

text \<open>
  C26. The event log is the state. Replaying the events of any reachable state from its definition certifies every one of them and
  ends in exactly that state, runtime, requests and hashes included.
\<close>

theorem stage_replays:
  assumes "\<And>x. sha256 P x \<noteq> []" "supported d" "stage_steps P (define_dynamic_stage P d) s"
  shows "\<exists>r. replay_dynamic_stage P d (ds_events s) = Inr r \<and> dr_replayed r \<and> dr_state r = s \<and> dr_findings r = []"
  using replay_reachable [OF assms] by blast

text \<open>
  C27. A stage follows its machine of phases. A command that is applied makes a step of \<open>may_step\<close>, the phases that the format
  allows for the command, appends exactly one event and carries a fresh key, an actor, a date and the current version; any
  other answer leaves the state as it was.
\<close>

theorem stage_refines_phases:
  assumes "\<And>x. sha256 P x \<noteq> []" "supported d" "stage_steps P (define_dynamic_stage P d) s" "transition_dynamic_stage P s c = Inr t"
  shows "if dt_status t = TransitionApplied
    then may_step d (ca_action c) (ds_phase s) (ds_phase (dt_state t)) \<and> ds_events (dt_state t) = ds_events s @ [stage_event P s c]
      \<and> ds_version (dt_state t) = ds_version s + 1 \<and> js_integer (ca_version c) = Some (ds_version s) \<and> ca_key c \<notin> set (map sv_key (ds_events s))
      \<and> \<not> blank (ca_key c) \<and> \<not> blank (ca_actor c) \<and> date_parse P (ca_at c) \<noteq> None
    else dt_state t = s"
proof -
  note inv = reachable_inv [OF assms(1-3)]
  show ?thesis
    using assms(4)
  proof (cases rule: transition_cases)
    case executed
    show ?thesis using execute_action_sound [OF assms(1) inv(1) executed(1)] executed(3,5-8) inv(2)
      by (auto simp: sound_def answers_def refuses_def commit_stage_def)
  qed simp_all
qed

text \<open>
  Commands are idempotent for ever. Once a command has been applied, sending it again, however many commands later, is answered with the
  recorded event and changes nothing; another command under its key is refused as a conflict and changes nothing either.
\<close>

theorem stage_command_idempotent:
  assumes "\<And>x. sha256 P x \<noteq> []" "supported d" "stage_steps P (define_dynamic_stage P d) s" "transition_dynamic_stage P s c = Inr t"
    "dt_status t = TransitionApplied" "stage_steps P (dt_state t) s'" "ca_key c' = ca_key c"
  shows "\<exists>t'. transition_dynamic_stage P s' c' = Inr t' \<and> dt_state t' = s'
    \<and> (if ledger_hash P (stage_command_json c') = ledger_hash P (stage_command_json c)
       then dt_status t' = TransitionReplayed \<and> dt_event t' = dt_event t
       else dt_status t' = TransitionRejected \<and> map fst (dt_findings t') = [''IDEMPOTENCY_CONFLICT''])"
proof -
  note inv = reachable_inv [OF assms(1-3)]
  obtain p r q where t: "t = commit_stage P s c p r q" "stage_inv P (dt_state t)" "\<forall>e \<in> set (ds_events s). sv_key e \<noteq> ca_key c"
    using transition_step [OF assms(1) inv(1) assms(4)] assms(5) by auto
  have inv': "stage_inv P s'" using steps_inv [OF assms(1,6) t(2)] .
  obtain es where es: "ds_events s' = ds_events s @ stage_event P s c # es"
    using steps_extend [OF assms(1,6) t(2)] t(1) by (auto simp: commit_stage_def)
  have none: "List.find (\<lambda>e. sv_key e = ca_key c') (ds_events s) = None" using t(3) assms(7) by (simp add: find_None_iff)
  have "List.find (\<lambda>e. sv_key e = ca_key c') (ds_events s') = Some (stage_event P s c)"
    unfolding es find_append none using assms(7) by simp
  from replayed_later [OF assms(1) inv' this] show ?thesis
    by (auto simp: t(1) commit_stage_def stage_rejected_def refused_def)
qed

section \<open>A stage that has been prepared\<close>

definition stage_platform :: platform where
  "stage_platform = sample_platform\<lparr>sha256 := \<lambda>s. CHR ''0'' # s\<rparr>"

definition sample_stage :: stage_definition where
  "sample_stage = RankingStage \<lparr>wr_id = ''q'', wr_revision = Num 1, wr_entrants = [''a'', ''b''], wr_places = Num 1, wr_better = LowerBetter,
     wr_cutoff = CutoffUnresolved, wr_seed_order = None\<rparr>"

definition sample_prepare :: stage_command where
  "sample_prepare = \<lparr>ca_version = Num 0, ca_key = ''k'', ca_actor = ''x'', ca_at = ''T5'', ca_action = Prepare\<rparr>"

abbreviation "defined_stage \<equiv> define_dynamic_stage stage_platform sample_stage"

definition sample_transition :: stage_transition where
  "sample_transition = commit_stage stage_platform defined_stage sample_prepare PhaseReady (initial_runtime sample_stage)
     [\<lparr>sq_contest = ''q.RANKING'', sq_stage = ''q'', sq_round = None, sq_participants = [''a'', ''b'']\<rparr>]"

lemma stage_platform_hash: "sha256 stage_platform x \<noteq> []"
  by (simp add: stage_platform_def)

lemma sample_stage_supported: "supported sample_stage"
  by (simp add: supported_def sample_stage_def)

lemma sample_prepare_step: "transition_dynamic_stage stage_platform defined_stage sample_prepare = Inr sample_transition"
proof -
  have ints: "js_integer (Num 0) = Some 0" "js_integer (Num 1) = Some 1" using js_integer_of_int [of 0] js_integer_of_int [of 1] by simp_all
  have "verify_dynamic_stage stage_platform defined_stage = []" by (rule stage_inv_verifies [OF stage_inv_define [OF sample_stage_supported]])
  moreover have "date_parse stage_platform ''T5'' = Some 5"
    by (simp add: stage_platform_def sample_platform_def sample_date_parse_def digits_of.simps digit_chars)
  moreover have "prepare_command stage_platform defined_stage sample_prepare = sample_transition"
    by (simp add: prepare_command_def prepare_stage_def sample_stage_def prepare_ranking_def positive_int_def ints blank_iff is_space_def sample_transition_def)
  ultimately show ?thesis
    by (simp add: transition_dynamic_stage_def execute_action_def sample_prepare_def command_kinds_def ints blank_iff is_space_def)
qed

lemma sample_steps: "stage_steps stage_platform defined_stage (dt_state sample_transition)"
  by (rule stage_steps.step [OF stage_steps.here sample_prepare_step])

theorem stage_always_verifies_witness:
  "verify_dynamic_stage stage_platform (dt_state sample_transition) = [] \<and> ds_phase (dt_state sample_transition) = PhaseReady"
  using stage_always_verifies [OF stage_platform_hash sample_stage_supported sample_steps] by (simp add: sample_transition_def commit_stage_def)

theorem stage_replays_witness:
  "\<exists>r. replay_dynamic_stage stage_platform sample_stage [stage_event stage_platform defined_stage sample_prepare] = Inr r
     \<and> dr_replayed r \<and> dr_state r = dt_state sample_transition"
  using stage_replays [OF stage_platform_hash sample_stage_supported sample_steps] by (auto simp: sample_transition_def commit_stage_def)

theorem stage_refines_phases_witness:
  "dt_status sample_transition = TransitionApplied \<and> may_step sample_stage Prepare PhaseDefinition PhaseReady
     \<and> ds_version (dt_state sample_transition) = 1"
  using stage_refines_phases [OF stage_platform_hash sample_stage_supported stage_steps.here sample_prepare_step]
  by (simp add: sample_transition_def commit_stage_def sample_prepare_def)

theorem stage_command_idempotent_witness:
  "\<exists>t. transition_dynamic_stage stage_platform (dt_state sample_transition) sample_prepare = Inr t
     \<and> dt_state t = dt_state sample_transition \<and> dt_status t = TransitionReplayed"
  using stage_command_idempotent [OF stage_platform_hash sample_stage_supported stage_steps.here sample_prepare_step _ stage_steps.here refl]
  by (auto simp: sample_transition_def commit_stage_def)

end
