(* ===== verification/StageStore.thy ===== *)
theory StageStore
  imports StageProofs
begin

text \<open>
  packages/competition-engine/src/dynamic-stage-store.ts: the verification of persisted streams, the
  in-memory port and the repository that runs commands on any port.

  \<^item> A port is a record of operations on its own state \<open>'p\<close>; the file and SQLite ports of the module are other
    values of it, whose operations may throw (\<open>Inl\<close> of a message).
  \<^item> Every \<^verbatim>\<open>await\<close> lets other callers run: \<open>env n\<close> is what they do to the port at the \<open>n\<close>-th one.
  \<^item> The locale \<open>stage_port\<close> holds what the repository needs of a port; the in-memory port provides it.
\<close>

section \<open>Data\<close>

record persisted_stream =
  pt_stage :: string
  pt_definition :: stage_definition
  pt_definition_hash :: string
  pt_events :: "lifecycle_event list"

record stage_snapshot =
  np_stage :: string
  np_version :: int
  np_state_hash :: string
  np_state :: stage_state
  np_hash :: string

datatype create_status = StreamCreated | StreamReplay | DefinitionConflict

datatype append_outcome_status = Appended | AppendReplay | AppendVersionConflict | AppendKeyConflict | AppendRejected

record port_append_result =
  pa_status :: append_outcome_status
  pa_version :: nat
  pa_finding :: "stage_finding option"

record 'p stage_port_ops =
  port_create :: "'p \<Rightarrow> stage_definition \<Rightarrow> 'p \<times> (string, create_status \<times> string) result"
  port_load :: "'p \<Rightarrow> string \<Rightarrow> (string, persisted_stream option) result"
  port_append :: "'p \<Rightarrow> string \<Rightarrow> jsnum \<Rightarrow> lifecycle_event \<Rightarrow> 'p \<times> (string, port_append_result) result"
  port_save :: "'p \<Rightarrow> string \<Rightarrow> stage_state \<Rightarrow> 'p \<times> (string, stage_snapshot) result"
  port_snapshot :: "'p \<Rightarrow> string \<Rightarrow> (string, stage_snapshot option) result"

record stream_proof =
  pp_valid :: bool
  pp_count :: nat
  pp_head :: "string option"
  pp_stream_hash :: string
  pp_findings :: "stage_finding list"

datatype load_status = StageLoaded | StageNotFound | StageLoadRejected

datatype snapshot_status = SnapshotAbsent | SnapshotHit | SnapshotStale | SnapshotInvalid

record durable_load =
  dl_status :: load_status
  dl_state :: "stage_state option"
  dl_snapshot :: snapshot_status
  dl_findings :: "stage_finding list"
  dl_proof :: "(bool \<times> string) option"

datatype execution_status = ExecutionApplied | ExecutionReplayed | ExecutionRejected | ExecutionNotFound | ExecutionVersionConflict | ExecutionKeyConflict

record durable_execution =
  de_status :: execution_status
  de_state :: "stage_state option"
  de_findings :: "stage_finding list"
  de_hash :: "string option"

section \<open>Streams\<close>

definition head_event_hash :: "persisted_stream \<Rightarrow> string option" where
  "head_event_hash st = (if pt_events st = [] then None else Some (sv_hash (last (pt_events st))))"

definition stream_hash :: "platform \<Rightarrow> persisted_stream \<Rightarrow> string" where
  "stream_hash P st = ledger_hash P (JObj [(''stageId'', JStr (pt_stage st)), (''definitionHash'', JStr (pt_definition_hash st)),
     (''eventCount'', jnat (length (pt_events st))), (''headHash'', string_or_null (head_event_hash st))])"

definition snapshot_content :: "platform \<Rightarrow> stage_snapshot \<Rightarrow> string" where
  "snapshot_content P n = ledger_hash P (JObj [(''stageId'', JStr (np_stage n)), (''version'', jint (np_version n)),
     (''stateHash'', JStr (np_state_hash n)), (''state'', stage_json (np_state n))])"

definition definition_hash :: "platform \<Rightarrow> stage_definition \<Rightarrow> string" where
  "definition_hash P d = ledger_hash P (stage_definition_json d)"

definition verify_persisted_stream :: "platform \<Rightarrow> persisted_stream \<Rightarrow> (string, stream_proof) result" where
  "verify_persisted_stream P st = bind_result (replay_dynamic_stage P (pt_definition st) (pt_events st)) (\<lambda>r.
     (let fs = finding_if (pt_stage st \<noteq> stage_id (pt_definition st) \<or> pt_definition_hash st \<noteq> definition_hash P (pt_definition st))
            ''DEFINITION_HASH_MISMATCH'' ''Persisted definition identity or hash is invalid.''
          @ (if \<not> dr_replayed r then [(''LIFECYCLE_REPLAY_REJECTED'', ''Lifecycle events could not be deterministically replayed.'', Some (map fst (dr_findings r)))] else [])
          @ finding_if (dr_replayed r \<and> length (ds_events (dr_state r)) \<noteq> length (pt_events st)) ''EVENT_CHAIN_INVALID''
              ''Replayed lifecycle event count differs from persisted history.''
      in Inr \<lparr>pp_valid = (fs = []), pp_count = length (pt_events st), pp_head = head_event_hash st, pp_stream_hash = stream_hash P st, pp_findings = fs\<rparr>))"

section \<open>The in-memory port\<close>

record memory_port =
  mp_streams :: "(string, persisted_stream) omap"
  mp_snapshots :: "(string, stage_snapshot) omap"

definition new_memory_port :: memory_port where
  "new_memory_port = \<lparr>mp_streams = [], mp_snapshots = []\<rparr>"

definition memory_create :: "platform \<Rightarrow> memory_port \<Rightarrow> stage_definition \<Rightarrow> memory_port \<times> (string, create_status \<times> string) result" where
  "memory_create P p d = (case omap_get (mp_streams p) (stage_id d) of
     Some st \<Rightarrow> (p, Inr (if pt_definition_hash st = definition_hash P d then StreamReplay else DefinitionConflict, pt_definition_hash st))
   | None \<Rightarrow> (p\<lparr>mp_streams := omap_set (stage_id d) \<lparr>pt_stage = stage_id d, pt_definition = d, pt_definition_hash = definition_hash P d, pt_events = []\<rparr> (mp_streams p)\<rparr>,
       Inr (StreamCreated, definition_hash P d)))"

definition append_answer :: "append_outcome_status \<Rightarrow> nat \<Rightarrow> port_append_result" where
  "append_answer x n = \<lparr>pa_status = x, pa_version = n, pa_finding = None\<rparr>"

definition append_refused :: "nat \<Rightarrow> stage_finding \<Rightarrow> port_append_result" where
  "append_refused n f = \<lparr>pa_status = AppendRejected, pa_version = n, pa_finding = Some f\<rparr>"

definition memory_append :: "platform \<Rightarrow> memory_port \<Rightarrow> string \<Rightarrow> jsnum \<Rightarrow> lifecycle_event \<Rightarrow> memory_port \<times> (string, port_append_result) result" where
  "memory_append P p i expected e = (case omap_get (mp_streams p) i of
     None \<Rightarrow> (p, Inr (append_refused 0 (''STAGE_NOT_FOUND'', ''Dynamic stage stream does not exist.'', None)))
   | Some st \<Rightarrow>
       (let n = length (pt_events st); candidate = st\<lparr>pt_events := pt_events st @ [e]\<rparr>
        in case List.find (\<lambda>x. sv_key x = sv_key e) (pt_events st) of
             Some prior \<Rightarrow> (p, Inr (append_answer (if sv_command_hash prior = sv_command_hash e then AppendReplay else AppendKeyConflict) n))
           | None \<Rightarrow>
               (if js_finite expected \<noteq> Some (of_nat n) then (p, Inr (append_answer AppendVersionConflict n))
                else (case verify_persisted_stream P candidate of
                    Inl msg \<Rightarrow> (p, Inl msg)
                  | Inr proof_of \<Rightarrow>
                      (if \<not> pp_valid proof_of
                       then (p, Inr (append_refused n (''INVALID_EVENT_APPEND'', ''Candidate append failed lifecycle replay verification.'', Some (map fst (pp_findings proof_of)))))
                       else (p\<lparr>mp_streams := omap_set i candidate (mp_streams p)\<rparr>, Inr (append_answer Appended (n + 1))))))))"

definition memory_save :: "platform \<Rightarrow> memory_port \<Rightarrow> string \<Rightarrow> stage_state \<Rightarrow> memory_port \<times> (string, stage_snapshot) result" where
  "memory_save P p i s =
     (let n = \<lparr>np_stage = i, np_version = ds_version s, np_state_hash = ds_hash s, np_state = s, np_hash = []\<rparr>; n' = n\<lparr>np_hash := snapshot_content P n\<rparr>
      in (p\<lparr>mp_snapshots := omap_set i n' (mp_snapshots p)\<rparr>, Inr n'))"

definition memory_ops :: "platform \<Rightarrow> memory_port stage_port_ops" where
  "memory_ops P = \<lparr>port_create = memory_create P, port_load = (\<lambda>p i. Inr (omap_get (mp_streams p) i)), port_append = memory_append P,
     port_save = memory_save P, port_snapshot = (\<lambda>p i. Inr (omap_get (mp_snapshots p) i))\<rparr>"

section \<open>The repository\<close>

definition snapshot_valid :: "platform \<Rightarrow> string \<Rightarrow> stage_state \<Rightarrow> stage_snapshot \<Rightarrow> bool" where
  "snapshot_valid P i s n = (snapshot_content P n = np_hash n \<and> np_stage n = i \<and> np_version n \<le> ds_version s \<and> verify_dynamic_stage P (np_state n) = []
     \<and> \<not> (np_version n = ds_version s \<and> (np_state_hash n \<noteq> ds_hash s \<or> ds_hash (np_state n) \<noteq> np_state_hash n
         \<or> ledger_hash P (stage_json (np_state n)) \<noteq> ledger_hash P (stage_json s))))"

definition snapshot_status_of :: "platform \<Rightarrow> string \<Rightarrow> stage_state \<Rightarrow> stage_snapshot option \<Rightarrow> snapshot_status" where
  "snapshot_status_of P i s x = (case x of
     None \<Rightarrow> SnapshotAbsent
   | Some n \<Rightarrow> if \<not> snapshot_valid P i s n then SnapshotInvalid else if np_version n < ds_version s then SnapshotStale else SnapshotHit)"

text \<open>The load, with the state of the port after it: other callers run while the snapshot is read.\<close>

definition repository_load :: "platform \<Rightarrow> 'p stage_port_ops \<Rightarrow> ('p \<Rightarrow> 'p) \<Rightarrow> 'p \<Rightarrow> string \<Rightarrow> 'p \<times> (string, durable_load) result" where
  "repository_load P ops env p i = (case port_load ops p i of
     Inl msg \<Rightarrow> (p, Inr \<lparr>dl_status = StageLoadRejected, dl_state = None, dl_snapshot = SnapshotAbsent, dl_findings = [(''STREAM_READ_FAILED'', msg, None)], dl_proof = None\<rparr>)
   | Inr None \<Rightarrow> (p, Inr \<lparr>dl_status = StageNotFound, dl_state = None, dl_snapshot = SnapshotAbsent, dl_findings = [], dl_proof = None\<rparr>)
   | Inr (Some st) \<Rightarrow> (case (verify_persisted_stream P st, replay_dynamic_stage P (pt_definition st) (pt_events st)) of
       (Inr proof_of, Inr r) \<Rightarrow>
         (if \<not> pp_valid proof_of
          then (p, Inr \<lparr>dl_status = StageLoadRejected, dl_state = None, dl_snapshot = SnapshotInvalid, dl_findings = pp_findings proof_of, dl_proof = Some (False, pp_stream_hash proof_of)\<rparr>)
          else if \<not> dr_replayed r
          then (p, Inr \<lparr>dl_status = StageLoadRejected, dl_state = None, dl_snapshot = SnapshotInvalid, dl_findings = dr_findings r, dl_proof = Some (False, pp_stream_hash proof_of)\<rparr>)
          else
            (let p' = env p; loaded = \<lparr>dl_status = StageLoaded, dl_state = Some (dr_state r), dl_snapshot = SnapshotAbsent, dl_findings = [], dl_proof = Some (True, pp_stream_hash proof_of)\<rparr>
             in (p', Inr (case port_snapshot ops p' i of
                   Inl msg \<Rightarrow> loaded\<lparr>dl_snapshot := SnapshotInvalid, dl_findings := [(''SNAPSHOT_READ_FAILED'', msg, None)]\<rparr>
                 | Inr n \<Rightarrow> loaded\<lparr>dl_snapshot := snapshot_status_of P i (dr_state r) n\<rparr>))))
     | (Inl msg, _) \<Rightarrow> (p, Inl msg)
     | (_, Inl msg) \<Rightarrow> (p, Inl msg)))"

definition create_repository :: "jsnum option \<Rightarrow> (string, nat) result" where
  "create_repository every = (case js_integer (case every of None \<Rightarrow> Num 10 | Some n \<Rightarrow> n) of
     Some n \<Rightarrow> if n < 1 then Inl ''snapshotEvery must be a positive integer'' else Inr (nat n)
   | None \<Rightarrow> Inl ''snapshotEvery must be a positive integer'')"

definition answer_execution :: "execution_status \<Rightarrow> stage_state option \<Rightarrow> stage_finding list \<Rightarrow> string option \<Rightarrow> durable_execution" where
  "answer_execution x s fs h = \<lparr>de_status = x, de_state = s, de_findings = fs, de_hash = h\<rparr>"

fun transition_execution :: "transition_status \<Rightarrow> execution_status" where
  "transition_execution TransitionApplied = ExecutionApplied"
| "transition_execution TransitionReplayed = ExecutionReplayed"
| "transition_execution TransitionRejected = ExecutionRejected"

fun append_execution :: "append_outcome_status \<Rightarrow> execution_status" where
  "append_execution Appended = ExecutionApplied"
| "append_execution AppendReplay = ExecutionReplayed"
| "append_execution AppendVersionConflict = ExecutionVersionConflict"
| "append_execution AppendKeyConflict = ExecutionKeyConflict"
| "append_execution AppendRejected = ExecutionRejected"

fun append_text :: "append_outcome_status \<Rightarrow> string" where
  "append_text Appended = ''APPENDED''"
| "append_text AppendReplay = ''IDEMPOTENT_REPLAY''"
| "append_text AppendVersionConflict = ''VERSION_CONFLICT''"
| "append_text AppendKeyConflict = ''IDEMPOTENCY_CONFLICT''"
| "append_text AppendRejected = ''REJECTED''"

definition append_finding :: "platform \<Rightarrow> stage_command \<Rightarrow> port_append_result \<Rightarrow> stage_finding" where
  "append_finding P c a = (case pa_finding a of Some f \<Rightarrow> f | None \<Rightarrow> (append_text (pa_status a),
     if pa_status a = AppendVersionConflict
     then ''Atomic append expected version '' @ (case js_finite (ca_version c) of None \<Rightarrow> [] | Some r \<Rightarrow> number_text P r)
       @ '', current version is '' @ digits_of (pa_version a) @ ''.''
     else ''Persistence rejected the append.'', None))"

definition proof_hash_of :: "durable_load \<Rightarrow> string option" where
  "proof_hash_of x = map_option snd (dl_proof x)"

text \<open>After a successful append: the snapshot, whose failure is ignored, and the hash of the stream.\<close>

definition after_append :: "platform \<Rightarrow> 'p stage_port_ops \<Rightarrow> nat \<Rightarrow> (nat \<Rightarrow> 'p \<Rightarrow> 'p) \<Rightarrow> 'p \<Rightarrow> string \<Rightarrow> stage_state \<Rightarrow> 'p \<times> (string, durable_execution) result" where
  "after_append P ops every env p i s =
     (let p1 = env 2 p; p2 = (if ds_version s mod int every = 0 then env 3 (fst (port_save ops p1 i s)) else p1)
      in (p2, map_sum id (\<lambda>x. answer_execution ExecutionApplied (Some s) [] (map_option (stream_hash P) x)) (port_load ops p2 i)))"

text \<open>After an append that found another history: the latest state.\<close>

definition after_conflict :: "platform \<Rightarrow> 'p stage_port_ops \<Rightarrow> (nat \<Rightarrow> 'p \<Rightarrow> 'p) \<Rightarrow> 'p \<Rightarrow> string \<Rightarrow> stage_command \<Rightarrow> port_append_result
    \<Rightarrow> 'p \<times> (string, durable_execution) result" where
  "after_conflict P ops env p i c a = (case repository_load P ops (env 3) (env 2 p) i of (p', latest) \<Rightarrow>
     (p', map_sum id (\<lambda>x. answer_execution (append_execution (pa_status a)) (dl_state x)
        (if pa_status a = AppendReplay then [] else [append_finding P c a]) (proof_hash_of x)) latest))"

definition repository_execute :: "platform \<Rightarrow> 'p stage_port_ops \<Rightarrow> nat \<Rightarrow> (nat \<Rightarrow> 'p \<Rightarrow> 'p) \<Rightarrow> 'p \<Rightarrow> string \<Rightarrow> stage_command
    \<Rightarrow> 'p \<times> (string, durable_execution) result" where
  "repository_execute P ops every env p i c = (case repository_load P ops (env 0) p i of
     (p1, Inl msg) \<Rightarrow> (p1, Inl msg)
   | (p1, Inr current) \<Rightarrow>
       (if dl_status current = StageNotFound
        then (p1, Inr (answer_execution ExecutionNotFound None [(''STAGE_NOT_FOUND'', ''Dynamic stage stream does not exist.'', None)] None))
        else (case dl_state current of
            None \<Rightarrow> (p1, Inr (answer_execution ExecutionRejected None (dl_findings current) (proof_hash_of current)))
          | Some s \<Rightarrow> (case transition_dynamic_stage P s c of
              Inl msg \<Rightarrow> (p1, Inl msg)
            | Inr t \<Rightarrow>
                (if dt_status t \<noteq> TransitionApplied
                 then (p1, Inr (answer_execution (transition_execution (dt_status t)) (Some (dt_state t)) (dt_findings t) (proof_hash_of current)))
                 else (case port_append ops (env 1 p1) i (ca_version c) (last (ds_events (dt_state t))) of
                     (p2, Inl msg) \<Rightarrow> (p2, Inr (answer_execution ExecutionRejected (Some s) [(''PERSISTENCE_APPEND_FAILED'', msg, None)] (proof_hash_of current)))
                   | (p2, Inr a) \<Rightarrow>
                       (if pa_status a = Appended then after_append P ops every env p2 i (dt_state t) else after_conflict P ops env p2 i c a)))))))"

section \<open>What a repository needs of a port\<close>

text \<open>A stream holds the events of a reachable state of its stage; other callers only extend streams, and keep that.\<close>

definition stored_stream :: "platform \<Rightarrow> string \<Rightarrow> persisted_stream \<Rightarrow> bool" where
  "stored_stream P i st \<longleftrightarrow> pt_stage st = i \<and> stage_id (pt_definition st) = i \<and> pt_definition_hash st = definition_hash P (pt_definition st)
     \<and> (\<exists>s. stage_steps P (define_dynamic_stage P (pt_definition st)) s \<and> pt_events st = ds_events s)"

definition all_stored :: "platform \<Rightarrow> ('p \<Rightarrow> string \<Rightarrow> persisted_stream option) \<Rightarrow> 'p \<Rightarrow> bool" where
  "all_stored P stream p \<longleftrightarrow> (\<forall>i st. stream p i = Some st \<longrightarrow> supported (pt_definition st) \<longrightarrow> stored_stream P i st)"

definition grows :: "('p \<Rightarrow> string \<Rightarrow> persisted_stream option) \<Rightarrow> 'p \<Rightarrow> 'p \<Rightarrow> bool" where
  "grows stream p q \<longleftrightarrow> (\<forall>i st. stream p i = Some st \<longrightarrow> (\<exists>es. stream q i = Some (st\<lparr>pt_events := pt_events st @ es\<rparr>)))"

definition follows :: "platform \<Rightarrow> ('p \<Rightarrow> string \<Rightarrow> persisted_stream option) \<Rightarrow> 'p \<Rightarrow> 'p \<Rightarrow> bool" where
  "follows P stream p q \<longleftrightarrow> grows stream p q \<and> (all_stored P stream p \<longrightarrow> all_stored P stream q)"

definition fair_env :: "platform \<Rightarrow> ('p \<Rightarrow> string \<Rightarrow> persisted_stream option) \<Rightarrow> (nat \<Rightarrow> 'p \<Rightarrow> 'p) \<Rightarrow> bool" where
  "fair_env P stream env \<longleftrightarrow> (\<forall>n p. follows P stream p (env n p))"

definition leaves_alone :: "('p \<Rightarrow> string \<Rightarrow> persisted_stream option) \<Rightarrow> (nat \<Rightarrow> 'p \<Rightarrow> 'p) \<Rightarrow> string \<Rightarrow> bool" where
  "leaves_alone stream env i \<longleftrightarrow> (\<forall>n p. stream (env n p) i = stream p i)"

lemma grows_same: "stream p = stream q \<Longrightarrow> grows stream p q"
  unfolding grows_def by (intro allI impI exI [of _ "[]"]) simp

lemma grows_stream: "grows stream p q \<Longrightarrow> stream p i = Some st \<Longrightarrow> \<exists>es. stream q i = Some (st\<lparr>pt_events := pt_events st @ es\<rparr>)"
  by (simp add: grows_def)

lemma grows_trans:
  assumes "grows stream p q" "grows stream q r"
  shows "grows stream p r"
  unfolding grows_def
proof (intro allI impI)
  fix i st assume "stream p i = Some st"
  then obtain es where es: "stream q i = Some (st\<lparr>pt_events := pt_events st @ es\<rparr>)" using assms(1) unfolding grows_def by blast
  then obtain fs where "stream r i = Some (st\<lparr>pt_events := pt_events st @ es\<rparr>\<lparr>pt_events := (pt_events st @ es) @ fs\<rparr>)"
    using assms(2) unfolding grows_def by fastforce
  then show "\<exists>es. stream r i = Some (st\<lparr>pt_events := pt_events st @ es\<rparr>)" by (intro exI [of _ "es @ fs"]) simp
qed

lemma follows_same: "stream p = stream q \<Longrightarrow> follows P stream p q"
  by (simp add: follows_def grows_same all_stored_def)

lemma follows_refl [simp]: "follows P stream p p"
  by (rule follows_same) simp

lemma follows_trans: "follows P stream p q \<Longrightarrow> follows P stream q r \<Longrightarrow> follows P stream p r"
  using grows_trans [of stream p q r] by (simp add: follows_def)

lemma follows_env: "fair_env P stream env \<Longrightarrow> follows P stream p (env n p)"
  by (simp add: fair_env_def)

lemma verify_stored:
  assumes "\<And>x. sha256 P x \<noteq> []" "supported (pt_definition st)" "stored_stream P i st"
    "stage_steps P (define_dynamic_stage P (pt_definition st)) s" "pt_events st = ds_events s"
  obtains ok r where "verify_persisted_stream P st = Inr ok" "pp_valid ok" "replay_dynamic_stage P (pt_definition st) (pt_events st) = Inr r"
    "dr_replayed r" "dr_state r = s"
proof -
  obtain r where r: "replay_dynamic_stage P (pt_definition st) (ds_events s) = Inr r" "dr_replayed r" "dr_state r = s"
    using replay_reachable [OF assms(1,2,4)] by metis
  have "\<exists>ok. verify_persisted_stream P st = Inr ok \<and> pp_valid ok"
    using r assms(3,5) by (simp add: verify_persisted_stream_def stored_stream_def Let_def finding_if_def)
  then show ?thesis using that r assms(5) by auto
qed

lemma applied_step:
  assumes "\<And>x. sha256 P x \<noteq> []" "supported d" "stage_steps P (define_dynamic_stage P d) s" "transition_dynamic_stage P s c = Inr t"
    "dt_status t = TransitionApplied"
  shows "ds_events (dt_state t) = ds_events s @ [stage_event P s c] \<and> ca_key c \<notin> set (map sv_key (ds_events s))
    \<and> js_finite (ca_version c) = Some (of_nat (length (ds_events s)))"
proof -
  have inv: "stage_inv P s" using reachable_inv(1) [OF assms(1-3)] .
  then have version: "ds_version s = int (length (ds_events s))" by (simp add: stage_inv_def)
  obtain p r q where t: "t = commit_stage P s c p r q" "\<forall>e \<in> set (ds_events s). sv_key e \<noteq> ca_key c"
    using transition_step [OF assms(1) inv assms(4)] assms(5) by blast
  from assms(4) have "js_integer (ca_version c) = Some (ds_version s)"
    by (cases rule: transition_cases) (use assms(5) in simp_all)
  then have "js_finite (ca_version c) = Some (of_nat (length (ds_events s)))"
    by (auto simp: js_integer_def version dest: rat_int_Some split: option.splits)
  then show ?thesis using t by (auto simp: commit_stage_def)
qed

lemma unapplied_same:
  assumes "transition_dynamic_stage P s c = Inr t" "stage_inv P s" "\<And>x. sha256 P x \<noteq> []" "dt_status t \<noteq> TransitionApplied"
  shows "dt_state t = s"
  using transition_step [OF assms(3,2,1)] assms(4) by (auto simp: commit_stage_def)

text \<open>
  An append that answers \<open>Appended\<close> has added its event to a stream of the expected length; any
  other answer leaves the streams alone, as saving a snapshot does; a new event on a verified stream is accepted.
\<close>

locale stage_port =
  fixes P :: platform and ops :: "'p stage_port_ops" and stream :: "'p \<Rightarrow> string \<Rightarrow> persisted_stream option"
  assumes load_stream: "port_load ops p i = Inr (stream p i)"
    and append_adds: "port_append ops p i n e = (p', Inr a) \<Longrightarrow> pa_status a = Appended \<Longrightarrow>
      \<exists>st. stream p i = Some st \<and> js_finite n = Some (of_nat (length (pt_events st))) \<and> stream p' = (stream p)(i \<mapsto> st\<lparr>pt_events := pt_events st @ [e]\<rparr>)"
    and append_leaves: "port_append ops p i n e = (p', x) \<Longrightarrow> (\<And>a. x = Inr a \<Longrightarrow> pa_status a \<noteq> Appended) \<Longrightarrow> stream p' = stream p"
    and append_accepts: "stream p i = Some st \<Longrightarrow> js_finite n = Some (of_nat (length (pt_events st))) \<Longrightarrow> sv_key e \<notin> set (map sv_key (pt_events st)) \<Longrightarrow>
      verify_persisted_stream P (st\<lparr>pt_events := pt_events st @ [e]\<rparr>) = Inr ok \<Longrightarrow> pp_valid ok \<Longrightarrow>
      \<exists>p' a. port_append ops p i n e = (p', Inr a) \<and> pa_status a = Appended"
    and save_leaves: "stream (fst (port_save ops p i s)) = stream p"
begin

lemma append_grows: "port_append ops p i n e = (p', x) \<Longrightarrow> grows stream p p'"
proof (cases "\<exists>a. x = Inr a \<and> pa_status a = Appended")
  case True
  moreover assume "port_append ops p i n e = (p', x)"
  ultimately obtain st where "stream p i = Some st" "stream p' = (stream p)(i \<mapsto> st\<lparr>pt_events := pt_events st @ [e]\<rparr>)"
    using append_adds by blast
  then show ?thesis unfolding grows_def by (auto intro: exI [of _ "[]"])
next
  case False
  moreover assume "port_append ops p i n e = (p', x)"
  ultimately have "stream p' = stream p" by (intro append_leaves) auto
  then show ?thesis by (intro grows_same) simp
qed

lemma load_stored:
  assumes "\<And>x. sha256 P x \<noteq> []" "supported (pt_definition st)" "stream p i = Some st" "stored_stream P i st"
    "stage_steps P (define_dynamic_stage P (pt_definition st)) s" "pt_events st = ds_events s"
  obtains x where "repository_load P ops env p i = (env p, Inr x)" "dl_status x = StageLoaded" "dl_state x = Some s"
    "dl_proof x = Some (True, stream_hash P st)"
proof -
  obtain ok r where r: "verify_persisted_stream P st = Inr ok" "pp_valid ok" "replay_dynamic_stage P (pt_definition st) (pt_events st) = Inr r"
    "dr_replayed r" "dr_state r = s"
    using verify_stored [OF assms(1,2,4-6)] .
  have "pp_stream_hash ok = stream_hash P st" using r(1) by (auto simp: verify_persisted_stream_def bind_result_Inr_iff Let_def)
  with r show ?thesis by (intro that) (auto simp: repository_load_def load_stream assms(3) Let_def split: sum.splits)
qed

lemma load_env:
  assumes "repository_load P ops env p i = (p', x)"
  shows "p' = p \<or> p' = env p"
  using assms by (auto simp: repository_load_def Let_def split: sum.splits option.splits if_splits)

text \<open>An append for the state that was loaded: when it succeeds nothing has been added in between.\<close>

lemma append_after_load:
  assumes "\<And>x. sha256 P x \<noteq> []" "all_stored P stream p" "supported (pt_definition st)" "stream p i = Some (st\<lparr>pt_events := pt_events st @ es\<rparr>)"
    "stage_steps P (define_dynamic_stage P (pt_definition st)) s" "pt_events st = ds_events s" "transition_dynamic_stage P s c = Inr t"
    "dt_status t = TransitionApplied" "port_append ops p i (ca_version c) (last (ds_events (dt_state t))) = (p', Inr a)" "pa_status a = Appended"
  shows "stream p' = (stream p)(i \<mapsto> st\<lparr>pt_events := ds_events (dt_state t)\<rparr>) \<and> all_stored P stream p'"
proof -
  have step: "ds_events (dt_state t) = ds_events s @ [stage_event P s c]" "js_finite (ca_version c) = Some (of_nat (length (ds_events s)))"
    using applied_step [OF assms(1,3,5,7,8)] by simp_all
  have new: "js_finite (ca_version c) = Some (of_nat (length (pt_events st @ es)))"
      "stream p' = (stream p)(i \<mapsto> st\<lparr>pt_events := (pt_events st @ es) @ [last (ds_events (dt_state t))]\<rparr>)"
    using append_adds [OF assms(9,10)] assms(4) by auto
  with step assms(6) have "es = []" by simp
  with new(2) step(1) assms(6) have stream: "stream p' = (stream p)(i \<mapsto> st\<lparr>pt_events := ds_events (dt_state t)\<rparr>)" by simp
  have "stored_stream P i (st\<lparr>pt_events := pt_events st @ es\<rparr>)" using assms(2-4) by (auto simp: all_stored_def)
  then have "stored_stream P i (st\<lparr>pt_events := ds_events (dt_state t)\<rparr>)"
    using stage_steps.step [OF assms(5,7)] by (auto simp: stored_stream_def)
  then have "all_stored P stream p'" using assms(2) unfolding all_stored_def stream by simp
  with stream show ?thesis by simp
qed

lemma load_follows: "fair_env P stream env \<Longrightarrow> repository_load P ops (env n) p i = (p', x) \<Longrightarrow> follows P stream p p'"
  using load_env [of "env n"] follows_env follows_refl by metis

lemma after_append_follows:
  assumes "fair_env P stream env" "after_append P ops every env p i s = (p', x)"
  shows "follows P stream p p'"
proof -
  have "follows P stream (env 2 p) (env 3 (fst (port_save ops (env 2 p) i s)))"
    by (rule follows_trans [OF follows_same follows_env [OF assms(1)]]) (simp add: save_leaves)
  with follows_env [OF assms(1), of p 2] show ?thesis
    using assms(2) by (auto simp: after_append_def Let_def intro: follows_trans split: if_splits)
qed

lemma after_conflict_follows:
  assumes "fair_env P stream env" "after_conflict P ops env p i c a = (p', x)"
  shows "follows P stream p p'"
proof -
  obtain y where "repository_load P ops (env 3) (env 2 p) i = (p', y)" using assms(2) by (auto simp: after_conflict_def split: prod.splits)
  from follows_trans [OF follows_env [OF assms(1)] load_follows [OF assms(1) this]] show ?thesis .
qed

lemma append_unsupported:
  assumes "stream p i = Some st" "\<not> supported (pt_definition st)" "port_append ops p i n e = (p', x)"
  shows "follows P stream p p'"
proof (cases "\<exists>a. x = Inr a \<and> pa_status a = Appended")
  case True
  then obtain st' where "stream p' = (stream p)(i \<mapsto> st'\<lparr>pt_events := pt_events st' @ [e]\<rparr>)" "stream p i = Some st'"
    using append_adds assms(3) by blast
  then have "all_stored P stream p \<longrightarrow> all_stored P stream p'" using assms(1,2) by (auto simp: all_stored_def)
  then show ?thesis using append_grows [OF assms(3)] by (simp add: follows_def)
next
  case False
  then show ?thesis using append_leaves [OF assms(3)] by (intro follows_same) auto
qed

text \<open>An execution stops before the append, or appends the last event of a transition.\<close>

lemma execute_cases:
  assumes "repository_execute P ops every env p i c = (p', y)"
  obtains (stopped) x where "repository_load P ops (env 0) p i = (p', x)" "\<And>z. y = Inr z \<Longrightarrow> de_status z \<noteq> ExecutionApplied"
  | (tried) p1 x s t p2 r where "repository_load P ops (env 0) p i = (p1, Inr x)" "dl_state x = Some s" "transition_dynamic_stage P s c = Inr t"
      "dt_status t = TransitionApplied" "port_append ops (env 1 p1) i (ca_version c) (last (ds_events (dt_state t))) = (p2, r)"
      "case r of Inl msg \<Rightarrow> p' = p2 \<and> (\<forall>z. y = Inr z \<longrightarrow> de_status z = ExecutionRejected)
         | Inr a \<Rightarrow> if pa_status a = Appended then after_append P ops every env p2 i (dt_state t) = (p', y) else after_conflict P ops env p2 i c a = (p', y)"
proof -
  obtain p1 load where load: "repository_load P ops (env 0) p i = (p1, load)" by (cases "repository_load P ops (env 0) p i") simp
  show ?thesis
  proof (cases "\<exists>x s t. load = Inr x \<and> dl_status x \<noteq> StageNotFound \<and> dl_state x = Some s \<and> transition_dynamic_stage P s c = Inr t \<and> dt_status t = TransitionApplied")
    case True
    then obtain x s t where x: "load = Inr x" "dl_status x \<noteq> StageNotFound" "dl_state x = Some s" "transition_dynamic_stage P s c = Inr t"
      "dt_status t = TransitionApplied" by blast
    obtain p2 r where r: "port_append ops (env 1 p1) i (ca_version c) (last (ds_events (dt_state t))) = (p2, r)"
      by (cases "port_append ops (env 1 p1) i (ca_version c) (last (ds_events (dt_state t)))") simp
    show ?thesis
    proof (rule tried [OF load [unfolded x(1)] x(3-5) r])
      show "case r of Inl msg \<Rightarrow> p' = p2 \<and> (\<forall>z. y = Inr z \<longrightarrow> de_status z = ExecutionRejected)
         | Inr a \<Rightarrow> if pa_status a = Appended then after_append P ops every env p2 i (dt_state t) = (p', y) else after_conflict P ops env p2 i c a = (p', y)"
        using assms by (auto simp: repository_execute_def load x r answer_execution_def simp del: One_nat_def split: sum.splits if_splits)
    qed
  next
    case False
    then have "p' = p1 \<and> (\<forall>z. y = Inr z \<longrightarrow> de_status z \<noteq> ExecutionApplied)"
      using assms
      by (cases "dt_status (case transition_dynamic_stage P (the (dl_state (projr load))) c of Inr t \<Rightarrow> t)")
         (auto simp: repository_execute_def load answer_execution_def split: sum.splits option.splits if_splits)
    then show ?thesis using stopped [of load] load by blast
  qed
qed

lemma map_sum_Inr: "map_sum f g x = Inr z \<longleftrightarrow> (\<exists>y. x = Inr y \<and> z = g y)"
  by (cases x) auto

lemma conflict_not_applied:
  assumes "after_conflict P ops env p i c a = (p', Inr z)" "pa_status a \<noteq> Appended"
  shows "de_status z \<noteq> ExecutionApplied"
  using assms by (cases "pa_status a") (auto simp: after_conflict_def answer_execution_def map_sum_Inr split: prod.splits)

lemma after_append_state:
  assumes "after_append P ops every env p i s = (p', Inr z)"
  shows "de_status z = ExecutionApplied \<and> de_state z = Some s"
  using assms by (auto simp: after_append_def answer_execution_def Let_def load_stream)

text \<open>On a supported stage the load gives the state of the stream, and an append that succeeds adds the event of the transition to it.\<close>

lemma execute_stored:
  assumes "\<And>x. sha256 P x \<noteq> []" "fair_env P stream env" "all_stored P stream p" "stream p i = Some st" "supported (pt_definition st)"
    "repository_execute P ops every env p i c = (p', y)"
  shows "follows P stream p p' \<and> (\<forall>z. y = Inr z \<longrightarrow> de_status z = ExecutionApplied \<longrightarrow>
    (\<exists>s t es. stage_steps P (define_dynamic_stage P (pt_definition st)) s \<and> ds_events s = pt_events st \<and> transition_dynamic_stage P s c = Inr t
       \<and> dt_status t = TransitionApplied \<and> de_state z = Some (dt_state t) \<and> stream p' i = Some (st\<lparr>pt_events := ds_events (dt_state t) @ es\<rparr>)))"
proof -
  have stored: "stored_stream P i st" using assms(3-5) by (simp add: all_stored_def)
  then obtain s where s: "stage_steps P (define_dynamic_stage P (pt_definition st)) s" "pt_events st = ds_events s" by (auto simp: stored_stream_def)
  obtain x where x: "repository_load P ops (env 0) p i = (env 0 p, Inr x)" "dl_state x = Some s"
    using load_stored [OF assms(1,5,4) stored s] by metis
  from assms(6) show ?thesis
  proof (cases rule: execute_cases)
    case (stopped x)
    then show ?thesis using load_follows [OF assms(2) stopped(1)] by blast
  next
    case (tried p1 x' s' t p2 r)
    then have same: "p1 = env 0 p" "s' = s" using x by auto
    have before: "follows P stream p (env 1 p1)"
      unfolding same using follows_trans [OF follows_env [OF assms(2)] follows_env [OF assms(2)]] .
    then obtain es where es: "stream (env 1 p1) i = Some (st\<lparr>pt_events := pt_events st @ es\<rparr>)" and inv: "all_stored P stream (env 1 p1)"
      using assms(3,4) by (auto simp: follows_def grows_def)
    show ?thesis
    proof (cases "\<exists>a. r = Inr a \<and> pa_status a = Appended")
      case True
      then obtain a where a: "r = Inr a" "pa_status a = Appended" by blast
      from tried(6) a have after: "after_append P ops every env p2 i (dt_state t) = (p', y)" by simp
      have appended: "stream p2 = (stream (env 1 p1))(i \<mapsto> st\<lparr>pt_events := ds_events (dt_state t)\<rparr>)" "all_stored P stream p2"
        using append_after_load [OF assms(1) inv assms(5) es s tried(3) [unfolded same(2)] tried(4,5) [unfolded a(1)] a(2)] by simp_all
      have "follows P stream (env 1 p1) p2" using append_grows [OF tried(5)] appended(2) by (simp add: follows_def)
      moreover have last: "follows P stream p2 p'" using after_append_follows [OF assms(2) after] .
      ultimately have "follows P stream p p'" using before follows_trans by metis
      moreover have "\<exists>fs. stream p' i = Some (st\<lparr>pt_events := ds_events (dt_state t) @ fs\<rparr>)"
        using grows_stream [of stream p2 p' i] last appended(1) by (simp add: follows_def)
      ultimately show ?thesis using s tried(3,4) after_append_state after unfolding same(2) by metis
    next
      case False
      then have "follows P stream (env 1 p1) p2" using append_leaves [OF tried(5)] by (intro follows_same) auto
      moreover have "follows P stream p2 p' \<and> (\<forall>z. y = Inr z \<longrightarrow> de_status z \<noteq> ExecutionApplied)"
      proof (cases r)
        case (Inr a)
        then show ?thesis using tried(6) False after_conflict_follows [OF assms(2)] conflict_not_applied by auto
      qed (use tried(6) in auto)
      ultimately show ?thesis using before follows_trans by metis
    qed
  qed
qed

lemma execute_missing:
  assumes "stream p i = None" "repository_execute P ops every env p i c = (p', y)"
  shows "p' = p \<and> y = Inr (answer_execution ExecutionNotFound None [(''STAGE_NOT_FOUND'', ''Dynamic stage stream does not exist.'', None)] None)"
  using assms by (simp add: repository_execute_def repository_load_def load_stream)

lemma execute_follows:
  assumes "\<And>x. sha256 P x \<noteq> []" "fair_env P stream env" "all_stored P stream p" "repository_execute P ops every env p i c = (p', y)"
  shows "follows P stream p p'"
proof (cases "stream p i")
  case None
  then show ?thesis using execute_missing [OF _ assms(4)] by simp
next
  case (Some st)
  show ?thesis
  proof (cases "supported (pt_definition st)")
    case True
    then show ?thesis using execute_stored [OF assms(1-3) Some True assms(4)] by blast
  next
    case False
    from assms(4) show ?thesis
    proof (cases rule: execute_cases)
      case (stopped x)
      then show ?thesis using load_follows [OF assms(2) stopped(1)] by blast
    next
      case (tried p1 x s t p2 r)
      have before: "follows P stream p (env 1 p1)"
        using follows_trans [OF load_follows [OF assms(2) tried(1)] follows_env [OF assms(2)]] .
      then obtain es where es: "stream (env 1 p1) i = Some (st\<lparr>pt_events := pt_events st @ es\<rparr>)"
        using Some by (auto simp: follows_def grows_def)
      have "follows P stream (env 1 p1) p2" using append_unsupported [OF es _ tried(5)] False by simp
      moreover have "follows P stream p2 p'"
        using tried(6) after_append_follows [OF assms(2)] after_conflict_follows [OF assms(2)] by (auto split: sum.splits if_splits)
      ultimately show ?thesis using before follows_trans by metis
    qed
  qed
qed

text \<open>An execution that does not answer APPLIED writes nothing itself.\<close>

lemma load_alone: "leaves_alone stream env j \<Longrightarrow> repository_load P ops (env n) p i = (p', x) \<Longrightarrow> stream p' j = stream p j"
  using load_env [of "env n" p i p' x] by (auto simp: leaves_alone_def)

lemma execute_unapplied:
  assumes "repository_execute P ops every env p i c = (p', y)" "\<And>z. y = Inr z \<Longrightarrow> de_status z \<noteq> ExecutionApplied" "leaves_alone stream env j"
  shows "stream p' j = stream p j"
  using assms(1)
proof (cases rule: execute_cases)
  case (stopped x)
  then show ?thesis using load_alone [OF assms(3)] by simp
next
  case (tried p1 x s t p2 r)
  have alone: "stream (env n q) j = stream q j" for n q using assms(3) by (simp add: leaves_alone_def)
  have "pa_status a \<noteq> Appended" if "r = Inr a" for a
  proof
    assume "pa_status a = Appended"
    then have after: "after_append P ops every env p2 i (dt_state t) = (p', y)" using tried(6) that by simp
    then obtain z where "y = Inr z" by (auto simp: after_append_def Let_def load_stream)
    then show False using assms(2) after_append_state after by blast
  qed
  then have "stream p2 = stream (env 1 p1)" "case r of Inl msg \<Rightarrow> p' = p2 | Inr a \<Rightarrow> after_conflict P ops env p2 i c a = (p', y)"
    using append_leaves [OF tried(5)] tried(6) by (auto split: sum.splits)
  moreover have "stream q' j = stream q j" if "after_conflict P ops env q i c a = (q', y)" for q q' a
    using that load_alone [OF assms(3)] by (fastforce simp: after_conflict_def alone split: prod.splits)
  ultimately have "stream p' j = stream p1 j" by (auto simp: alone split: sum.splits)
  then show ?thesis using load_alone [OF assms(3) tried(1)] by simp
qed

text \<open>When other callers leave the stage alone, an execution is the transition.\<close>

lemma execute_refines:
  assumes "\<And>x. sha256 P x \<noteq> []" "leaves_alone stream env i" "stored_stream P i st" "stream p i = Some st" "supported (pt_definition st)"
    "stage_steps P (define_dynamic_stage P (pt_definition st)) s" "pt_events st = ds_events s" "transition_dynamic_stage P s c = Inr t"
  shows "\<exists>p' z. repository_execute P ops every env p i c = (p', Inr z) \<and> de_status z = transition_execution (dt_status t)
    \<and> de_state z = Some (dt_state t) \<and> de_findings z = (if dt_status t = TransitionApplied then [] else dt_findings t)
    \<and> (\<forall>j. leaves_alone stream env j \<longrightarrow> stream p' j = ((stream p)(i \<mapsto> st\<lparr>pt_events := ds_events (dt_state t)\<rparr>)) j)
    \<and> de_hash z = Some (stream_hash P (st\<lparr>pt_events := ds_events (dt_state t)\<rparr>))"
proof -
  have alone: "stream (env n q) j = stream q j" if "leaves_alone stream env j" for n q j using that by (simp add: leaves_alone_def)
  obtain x where x: "repository_load P ops (env 0) p i = (env 0 p, Inr x)" "dl_status x = StageLoaded" "dl_state x = Some s"
      "dl_proof x = Some (True, stream_hash P st)"
    using load_stored [OF assms(1,5,4,3,6,7)] by metis
  show ?thesis
  proof (cases "dt_status t = TransitionApplied")
    case False
    have "dt_state t = s" using unapplied_same [OF assms(8) reachable_inv(1) [OF assms(1,5,6)] assms(1) False] .
    then have "st\<lparr>pt_events := ds_events (dt_state t)\<rparr> = st" by (simp add: assms(7) [symmetric])
    then show ?thesis using x False assms(4,8)
      by (auto simp: repository_execute_def answer_execution_def proof_hash_of_def alone)
  next
    case True
    let ?st = "st\<lparr>pt_events := ds_events (dt_state t)\<rparr>" and ?q = "env 1 (env 0 p)"
    have q: "stream ?q i = Some st" using assms(4) by (simp add: alone [OF assms(2)])
    have step: "ds_events (dt_state t) = ds_events s @ [stage_event P s c]" "ca_key c \<notin> set (map sv_key (ds_events s))"
        "js_finite (ca_version c) = Some (of_nat (length (ds_events s)))"
      using applied_step [OF assms(1,5,6,8) True] by simp_all
    have "stored_stream P i ?st" "stage_steps P (define_dynamic_stage P (pt_definition st)) (dt_state t)"
      using stage_steps.step [OF assms(6,8)] assms(3) by (auto simp: stored_stream_def)
    then obtain ok where ok: "verify_persisted_stream P ?st = Inr ok" "pp_valid ok"
      using verify_stored [of P ?st i "dt_state t"] assms(1,5) by auto
    have "\<exists>p' a. port_append ops ?q i (ca_version c) (stage_event P s c) = (p', Inr a) \<and> pa_status a = Appended"
      by (rule append_accepts [OF q]) (use step ok assms(7) in auto)
    then obtain p2 a where a: "port_append ops ?q i (ca_version c) (last (ds_events (dt_state t))) = (p2, Inr a)" "pa_status a = Appended"
      unfolding step(1) by auto
    have stream: "stream p2 = (stream ?q)(i \<mapsto> ?st)" using append_adds [OF a] q assms(7) step(1) by auto
    obtain p' where p': "after_append P ops every env p2 i (dt_state t)
        = (p', Inr (answer_execution ExecutionApplied (Some (dt_state t)) [] (Some (stream_hash P ?st))))"
        "\<And>j. leaves_alone stream env j \<Longrightarrow> stream p' j = stream p2 j"
      by (cases "ds_version (dt_state t) mod int every = 0") (auto simp: after_append_def Let_def load_stream save_leaves stream alone assms(2))
    have "repository_execute P ops every env p i c = (p', Inr (answer_execution ExecutionApplied (Some (dt_state t)) [] (Some (stream_hash P ?st))))"
      using x a p'(1) True assms(8) by (simp add: repository_execute_def)
    then show ?thesis using True stream p'(2) by (auto simp: answer_execution_def alone)
  qed
qed

end

section \<open>The in-memory port\<close>

definition memory_stream :: "memory_port \<Rightarrow> string \<Rightarrow> persisted_stream option" where
  "memory_stream p = omap_get (mp_streams p)"

lemma memory_append_cases:
  assumes "memory_append P p i n e = (p', x)"
  shows "p' = p \<and> (\<forall>a. x = Inr a \<longrightarrow> pa_status a \<noteq> Appended)
    \<or> (\<exists>st. memory_stream p i = Some st \<and> js_finite n = Some (of_nat (length (pt_events st))) \<and> x = Inr (append_answer Appended (length (pt_events st) + 1))
        \<and> memory_stream p' = (memory_stream p)(i \<mapsto> st\<lparr>pt_events := pt_events st @ [e]\<rparr>))"
proof (cases "omap_get (mp_streams p) i")
  case None
  then show ?thesis using assms by (auto simp: memory_append_def append_refused_def)
next
  case (Some st)
  show ?thesis
  proof (cases "List.find (\<lambda>x. sv_key x = sv_key e) (pt_events st)")
    case None
    then show ?thesis using assms Some
      by (auto simp: memory_append_def memory_stream_def append_answer_def append_refused_def Let_def omap_get_set split: if_splits sum.splits)
  qed (use assms Some in \<open>auto simp: memory_append_def append_answer_def Let_def split: if_splits\<close>)
qed

interpretation memory: stage_port P "memory_ops P" memory_stream for P
proof unfold_locales
  show "port_load (memory_ops P) p i = Inr (memory_stream p i)" for p i by (simp add: memory_ops_def memory_stream_def)
next
  fix p i n e p' a
  assume "port_append (memory_ops P) p i n e = (p', Inr a)" "pa_status a = Appended"
  then show "\<exists>st. memory_stream p i = Some st \<and> js_finite n = Some (of_nat (length (pt_events st)))
      \<and> memory_stream p' = (memory_stream p)(i \<mapsto> st\<lparr>pt_events := pt_events st @ [e]\<rparr>)"
    using memory_append_cases [of P p i n e p' "Inr a"] by (auto simp: memory_ops_def)
next
  fix p i n e p' x
  assume "port_append (memory_ops P) p i n e = (p', x)" "\<And>a. x = Inr a \<Longrightarrow> pa_status a \<noteq> Appended"
  then show "memory_stream p' = memory_stream p"
    using memory_append_cases [of P p i n e p' x] by (auto simp: memory_ops_def append_answer_def)
next
  fix p i st n and e :: lifecycle_event and ok
  assume new: "memory_stream p i = Some st" "js_finite n = Some (of_nat (length (pt_events st)))" "sv_key e \<notin> set (map sv_key (pt_events st))"
    "verify_persisted_stream P (st\<lparr>pt_events := pt_events st @ [e]\<rparr>) = Inr ok" "pp_valid ok"
  have "List.find (\<lambda>x. sv_key x = sv_key e) (pt_events st) = None" using new(3) by (auto simp: find_None_iff image_iff)
  then show "\<exists>p' a. port_append (memory_ops P) p i n e = (p', Inr a) \<and> pa_status a = Appended"
    using new by (simp add: memory_ops_def memory_append_def memory_stream_def append_answer_def)
next
  show "memory_stream (fst (port_save (memory_ops P) p i s)) = memory_stream p" for p i s
    by (simp add: memory_ops_def memory_save_def memory_stream_def Let_def)
qed

text \<open>A new stream holds the events of its initial state.\<close>

lemma create_follows: "follows P memory_stream p (fst (memory_create P p d))"
proof (cases "omap_get (mp_streams p) (stage_id d)")
  case None
  let ?st = "\<lparr>pt_stage = stage_id d, pt_definition = d, pt_definition_hash = definition_hash P d, pt_events = []\<rparr>"
  have new: "memory_stream (fst (memory_create P p d)) = (memory_stream p)(stage_id d \<mapsto> ?st)"
    using None by (simp add: memory_create_def memory_stream_def omap_get_set)
  have "stored_stream P (stage_id d) ?st" using stage_steps.here [of P "define_dynamic_stage P d"] by (force simp: stored_stream_def)
  then have "all_stored P memory_stream p \<longrightarrow> all_stored P memory_stream (fst (memory_create P p d))"
    unfolding all_stored_def new by auto
  moreover have "grows memory_stream p (fst (memory_create P p d))"
    unfolding grows_def new using None by (auto simp: memory_stream_def intro: exI [of _ "[]"])
  ultimately show ?thesis by (simp add: follows_def)
qed (simp add: memory_create_def)

lemma new_port_stored: "all_stored P memory_stream new_memory_port"
  by (simp add: all_stored_def memory_stream_def new_memory_port_def)

section \<open>Properties\<close>

text \<open>
  C13. Executing commands through the repository on the in-memory port refines the life cycle: as long as the other callers at the awaits
  leave the stage alone, the execution of a command on a stage whose stream holds the events of the state s is the transition of s. The
  status and the state it answers are those of the transition, the stream afterwards is the events of the new state (the same stream when
  the command was refused or replayed), no other stream changes but by the other callers, the hash that it answers is that of the
  stream, whatever the interval of the snapshots.
\<close>

theorem repository_refines:
  assumes "\<And>x. sha256 P x \<noteq> []" "leaves_alone memory_stream env i" "all_stored P memory_stream p" "memory_stream p i = Some st"
    "supported (pt_definition st)" "stage_steps P (define_dynamic_stage P (pt_definition st)) s" "pt_events st = ds_events s"
    "transition_dynamic_stage P s c = Inr t"
  shows "\<exists>p' z. repository_execute P (memory_ops P) every env p i c = (p', Inr z) \<and> de_status z = transition_execution (dt_status t)
    \<and> de_state z = Some (dt_state t) \<and> de_findings z = (if dt_status t = TransitionApplied then [] else dt_findings t)
    \<and> (\<forall>j. leaves_alone memory_stream env j \<longrightarrow> memory_stream p' j = ((memory_stream p)(i \<mapsto> st\<lparr>pt_events := ds_events (dt_state t)\<rparr>)) j)
    \<and> de_hash z = Some (stream_hash P (st\<lparr>pt_events := ds_events (dt_state t)\<rparr>))"
proof -
  have "stored_stream P i st" using assms(3-5) by (simp add: all_stored_def)
  from memory.execute_refines [OF assms(1,2) this assms(4-8)] show ?thesis .
qed


text \<open>A port with one stage, on which a command prepares the stage while other callers create another one.\<close>

definition sample_port :: memory_port where
  "sample_port = fst (memory_create stage_platform new_memory_port sample_stage)"

definition sample_stream :: persisted_stream where
  "sample_stream = \<lparr>pt_stage = ''q'', pt_definition = sample_stage, pt_definition_hash = definition_hash stage_platform sample_stage, pt_events = []\<rparr>"

definition other_caller :: "nat \<Rightarrow> memory_port \<Rightarrow> memory_port" where
  "other_caller n p = fst (memory_create stage_platform p (LadderStage \<lparr>wl_id = ''l'', wl_revision = Num 1, wl_order = [''a'', ''b''], wl_distance = Num 1\<rparr>))"

abbreviation "prepared_events \<equiv> [stage_event stage_platform defined_stage sample_prepare]"

lemma sample_port_stream: "memory_stream sample_port ''q'' = Some sample_stream"
  by (simp add: sample_port_def memory_stream_def new_memory_port_def memory_create_def sample_stage_def sample_stream_def omap_get_set)

lemma sample_port_stored: "all_stored stage_platform memory_stream sample_port"
  using create_follows [of stage_platform new_memory_port sample_stage] new_port_stored by (simp add: follows_def sample_port_def)


lemma other_caller_alone: "leaves_alone memory_stream other_caller ''q''"
  by (simp add: leaves_alone_def other_caller_def memory_stream_def memory_create_def omap_get_set split: option.split)

lemma sample_applied: "dt_status sample_transition = TransitionApplied" "ds_events (dt_state sample_transition) = prepared_events"
  by (simp_all add: sample_transition_def commit_stage_def)


theorem repository_refines_witness:
  "\<exists>p z. repository_execute stage_platform (memory_ops stage_platform) 1 other_caller sample_port ''q'' sample_prepare = (p, Inr z)
     \<and> de_status z = ExecutionApplied \<and> memory_stream p ''q'' = Some (sample_stream\<lparr>pt_events := prepared_events\<rparr>)"
proof -
  have "supported (pt_definition sample_stream)" "pt_events sample_stream = ds_events defined_stage"
      "stage_steps stage_platform (define_dynamic_stage stage_platform (pt_definition sample_stream)) defined_stage"
    by (simp_all add: sample_stream_def sample_stage_supported stage_steps.here)
  from repository_refines [OF stage_platform_hash other_caller_alone sample_port_stored sample_port_stream this(1,3,2) sample_prepare_step, of 1]
  show ?thesis using sample_applied other_caller_alone by fastforce
qed


end
