(* ===== verification/SwissStageProofs.thy ===== *)
theory SwissStageProofs
  imports StageProofs
begin

text \<open>
  The standings of a Swiss stage (dynamic-stage-lifecycle.ts) against the ranking engine
  (swiss-ranking.ts): the life cycle keeps points and byes round by round, the engine recomputes them from the
  rounds. The two agree in every state that no VOID command has touched; after a VOID of a round with a
  bye they do not (\<open>void_loses_bye\<close>).
\<close>

section \<open>What a round is worth\<close>

definition result_gain :: "swiss_stage \<Rightarrow> string \<Rightarrow> round_result \<Rightarrow> rat" where
  "result_gain d i r = (case sw_winner r of
     None \<Rightarrow> if i = sw_left r \<or> i = sw_right r then num_value (ws_draw d) else 0
   | Some w \<Rightarrow> if i = w then num_value (ws_win d) else 0)"

definition bye_gain :: "swiss_stage \<Rightarrow> string \<Rightarrow> string option \<Rightarrow> rat" where
  "bye_gain d i b = (if b = Some i then num_value (ws_bye d) else 0)"

definition points_in :: "swiss_stage \<Rightarrow> completed_round list \<Rightarrow> string \<Rightarrow> rat" where
  "points_in d rounds i = sum_list (map (\<lambda>r. bye_gain d i (cr_bye r) + sum_list (map (result_gain d i) (cr_results r))) rounds)"

definition byes_in :: "completed_round list \<Rightarrow> string \<Rightarrow> nat" where
  "byes_in rounds i = length (filter (\<lambda>r. cr_bye r = Some i) rounds)"

definition proper_result :: "round_result \<Rightarrow> bool" where
  "proper_result r \<longleftrightarrow> sw_left r \<noteq> sw_right r \<and> (sw_winner r = None \<or> sw_winner r = Some (sw_left r) \<or> sw_winner r = Some (sw_right r))"

abbreviation entry :: "swiss_standing \<Rightarrow> string \<times> rat \<times> nat" where
  "entry x \<equiv> (ss_competitor x, ss_points x, ss_byes x)"

text \<open>Standings with the given points and byes, in the order of the entrants.\<close>

definition exact :: "swiss_standing list \<Rightarrow> string list \<Rightarrow> (string \<Rightarrow> rat) \<Rightarrow> (string \<Rightarrow> nat) \<Rightarrow> bool" where
  "exact st es f g \<longleftrightarrow> map entry st = map (\<lambda>i. (i, f i, g i)) es"

section \<open>The tally of results\<close>

definition view :: "(string, swiss_standing) omap \<Rightarrow> string \<Rightarrow> (string \<times> rat \<times> nat) option" where
  "view m i = map_option entry (omap_get m i)"

definition credit :: "rat \<Rightarrow> nat \<Rightarrow> string \<times> rat \<times> nat \<Rightarrow> string \<times> rat \<times> nat" where
  "credit v n x = (case x of (c, p, b) \<Rightarrow> (c, p + v, b + n))"

lemma credit_simps [simp]: "credit v n (credit v' n' x) = credit (v' + v) (n' + n) x" "credit 0 0 x = x"
  by (cases x; simp add: credit_def)+

lemma credit_view [simp]:
  "map_option (credit v n) (map_option (credit v' n') x) = map_option (credit (v' + v) (n' + n)) x" "map_option (credit 0 0) x = x"
  by (cases x; simp)+

lemma adjust_view:
  assumes "adjust_standing i f m = Inr m'" "\<And>x. entry (f x) = credit v n (entry x)"
  shows "view m' j = map_option (credit (if j = i then v else 0) (if j = i then n else 0)) (view m j)"
  using assms by (auto simp: adjust_standing_def view_def split: option.splits)

lemma add_opponent_view: "entry (add_opponent j x) = credit 0 0 (entry x)"
  by (simp add: add_opponent_def)

lemma add_points_view: "entry (add_points v x) = credit (num_value v) 0 (entry x)"
  by (simp add: add_points_def credit_def)

lemma tally_result_view:
  assumes "tally_result d r m = Inr m'" "proper_result r"
  shows "view m' i = map_option (credit (result_gain d i r) 0) (view m i)"
proof -
  obtain m1 m2 where m: "adjust_standing (sw_left r) (add_opponent (sw_right r)) m = Inr m1"
    "adjust_standing (sw_right r) (add_opponent (sw_left r)) m1 = Inr m2"
    using assms(1) by (auto simp: tally_result_def bind_result_Inr_iff)
  have v2: "view m2 i = view m i" using adjust_view [OF m(1) add_opponent_view] adjust_view [OF m(2) add_opponent_view] by simp
  show ?thesis
  proof (cases "sw_winner r")
    case (Some w)
    then have "adjust_standing w (add_points (ws_win d)) m2 = Inr m'" using assms(1) m by (simp add: tally_result_def)
    from adjust_view [OF this add_points_view] show ?thesis by (simp add: v2 result_gain_def Some)
  next
    case None
    then obtain m3 where "adjust_standing (sw_left r) (add_points (ws_draw d)) m2 = Inr m3" "adjust_standing (sw_right r) (add_points (ws_draw d)) m3 = Inr m'"
      using assms(1) m by (auto simp: tally_result_def bind_result_Inr_iff)
    from adjust_view [OF this(2) add_points_view, of i] adjust_view [OF this(1) add_points_view, of i] assms(2)
    show ?thesis by (auto simp: v2 result_gain_def None proper_result_def)
  qed
qed

lemma tally_results_view:
  assumes "fold_result (tally_result d) rs m = Inr m'" "list_all proper_result rs"
  shows "view m' i = map_option (credit (sum_list (map (result_gain d i) rs)) 0) (view m i)"
  using assms
proof (induction rs arbitrary: m)
  case (Cons r rs)
  then obtain m1 where m: "tally_result d r m = Inr m1" "fold_result (tally_result d) rs m1 = Inr m'" by (auto simp: bind_result_Inr_iff)
  from Cons.IH [OF m(2)] tally_result_view [OF m(1)] Cons.prems(2) show ?case by simp
qed simp

lemma standings_map_eq:
  assumes "distinct (map ss_competitor xs)"
  shows "standings_map xs = map (\<lambda>x. (ss_competitor x, x)) xs"
  using assms
proof (induction xs rule: rev_induct)
  case (snoc x xs)
  then have "standings_map (xs @ [x]) = omap_set (ss_competitor x) x (map (\<lambda>x. (ss_competitor x, x)) xs)" by (simp add: standings_map_def)
  also have "\<dots> = map (\<lambda>x. (ss_competitor x, x)) (xs @ [x])" using snoc.prems by (subst omap_set_new) auto
  finally show ?case .
qed (simp add: standings_map_def)

lemma exact_ids: "exact st es f g \<Longrightarrow> map ss_competitor st = es"
  unfolding exact_def by (drule arg_cong [of _ _ "map fst"]) (simp add: comp_def)

lemma exact_get:
  assumes "exact st es f g" "distinct es" "i \<in> set es"
  obtains x where "omap_get (standings_map st) i = Some x" "x \<in> set st" "ss_competitor x = i" "ss_points x = f i" "ss_byes x = g i"
proof -
  have ids: "map ss_competitor st = es" using exact_ids [OF assms(1)] .
  then obtain x where x: "x \<in> set st" "ss_competitor x = i" using assms(3) by auto
  have "entry x \<in> set (map (\<lambda>i. (i, f i, g i)) es)"
    unfolding assms(1) [unfolded exact_def, symmetric] using x(1) by simp
  then have "ss_points x = f i" "ss_byes x = g i" using x(2) by auto
  moreover have "omap_get (standings_map st) i = Some x"
    using ids assms(2) x by (auto simp: standings_map_eq comp_def intro!: map_of_is_SomeI)
  ultimately show ?thesis using that x by blast
qed

lemma exact_view:
  assumes "exact st es f g" "distinct es" "i \<in> set es"
  shows "view (standings_map st) i = Some (i, f i, g i)"
proof -
  obtain x where "omap_get (standings_map st) i = Some x" "ss_competitor x = i" "ss_points x = f i" "ss_byes x = g i"
    using exact_get [OF assms] .
  then show ?thesis by (simp add: view_def)
qed

lemma apply_results_exact:
  assumes "apply_results d st rs = Inr st'" "exact st es f g" "distinct es" "list_all proper_result rs"
  shows "exact st' es (\<lambda>i. f i + sum_list (map (result_gain d i) rs)) g"
proof -
  obtain m where m: "fold_result (tally_result d) rs (standings_map st) = Inr m"
    "st' = map (\<lambda>x. let y = the (omap_get m (ss_competitor x)) in x\<lparr>ss_points := ss_points y, ss_opponents := ss_opponents y\<rparr>) st"
    using assms(1) by (auto simp: apply_results_def bind_result_Inr_iff)
  have "map entry st' = map (\<lambda>(i, p, b). (i, fst (snd (the (view m i))), b)) (map entry st)"
    unfolding m(2) map_map
  proof (rule map_cong [OF refl])
    fix x assume "x \<in> set st"
    then have "ss_competitor x \<in> set es" using exact_ids [OF assms(2)] by auto
    then have "view m (ss_competitor x) \<noteq> None"
      using tally_results_view [OF m(1) assms(4)] exact_view [OF assms(2,3)] by simp
    then show "(entry \<circ> (\<lambda>x. let y = the (omap_get m (ss_competitor x)) in x\<lparr>ss_points := ss_points y, ss_opponents := ss_opponents y\<rparr>)) x
        = ((\<lambda>(i, p, b). (i, fst (snd (the (view m i))), b)) \<circ> entry) x"
      by (auto simp: view_def Let_def)
  qed
  also have "\<dots> = map (\<lambda>i. (i, f i + sum_list (map (result_gain d i) rs), g i)) es"
    unfolding assms(2) [unfolded exact_def] map_map
    by (rule map_cong [OF refl]) (simp add: tally_results_view [OF m(1) assms(4)] exact_view [OF assms(2,3)] credit_def)
  finally show ?thesis unfolding exact_def .
qed

lemma with_swiss_bye_exact:
  assumes "exact st es f g"
  shows "exact (with_swiss_bye b v st) es (\<lambda>i. f i + (if b = Some i then v else 0)) (\<lambda>i. g i + (if b = Some i then 1 else 0))"
proof -
  have "map entry (with_swiss_bye b v st)
      = map (\<lambda>(i, p, n). (i, p + (if b = Some i then v else 0), n + (if b = Some i then 1 else 0))) (map entry st)"
    by (auto simp: with_swiss_bye_def)
  also have "\<dots> = map (\<lambda>i. (i, f i + (if b = Some i then v else 0), g i + (if b = Some i then 1 else 0))) es"
    unfolding assms [unfolded exact_def] by simp
  finally show ?thesis unfolding exact_def .
qed

lemma tally_bye_view:
  assumes "tally_bye d b m = Inr m'" "b \<noteq> Some []"
  shows "view m' i = map_option (credit (bye_gain d i b) (if b = Some i then 1 else 0)) (view m i)"
proof (cases b)
  case (Some j)
  then have "adjust_standing j (\<lambda>x. add_points (ws_bye d) (x\<lparr>ss_byes := ss_byes x + 1\<rparr>)) m = Inr m'" using assms by (simp add: tally_bye_def)
  from adjust_view [OF this, of "num_value (ws_bye d)" 1 i] show ?thesis
    by (auto simp: Some bye_gain_def add_points_def credit_def)
qed (use assms in \<open>simp add: tally_bye_def bye_gain_def\<close>)

definition proper_round :: "completed_round \<Rightarrow> bool" where
  "proper_round r \<longleftrightarrow> list_all proper_result (cr_results r) \<and> cr_bye r \<noteq> Some []"

lemma rebuild_view:
  assumes "fold_result (\<lambda>r m. bind_result (tally_bye d (cr_bye r) m) (fold_result (tally_result d) (cr_results r))) rounds m = Inr m'" "list_all proper_round rounds"
  shows "view m' i = map_option (credit (points_in d rounds i) (byes_in rounds i)) (view m i)"
  using assms
proof (induction rounds arbitrary: m)
  case (Cons r rounds)
  then obtain m1 m2 where m: "tally_bye d (cr_bye r) m = Inr m1" "fold_result (tally_result d) (cr_results r) m1 = Inr m2"
    "fold_result (\<lambda>r m. bind_result (tally_bye d (cr_bye r) m) (fold_result (tally_result d) (cr_results r))) rounds m2 = Inr m'"
    by (auto simp: bind_result_Inr_iff)
  have r: "list_all proper_result (cr_results r)" "cr_bye r \<noteq> Some []" using Cons.prems(2) by (simp_all add: proper_round_def)
  have "view m' i = map_option (credit (points_in d rounds i) (byes_in rounds i)) (view m2 i)" using Cons.IH [OF m(3)] Cons.prems(2) by simp
  then show ?case using tally_results_view [OF m(2) r(1)] tally_bye_view [OF m(1) r(2)]
    by (simp add: points_in_def byes_in_def)
qed (simp add: points_in_def byes_in_def)

lemma new_standings_exact: "exact (map new_standing es) es (\<lambda>i. 0) (\<lambda>i. 0)"
  by (simp add: exact_def new_standing_def)

lemma rebuild_exact:
  assumes "rebuild_swiss_standings d rounds = Inr st" "distinct (ws_entrants d)" "list_all proper_round rounds"
  shows "exact st (ws_entrants d) (points_in d rounds) (byes_in rounds)"
proof -
  obtain m where m: "fold_result (\<lambda>r m. bind_result (tally_bye d (cr_bye r) m) (fold_result (tally_result d) (cr_results r))) rounds
      (standings_map (map new_standing (ws_entrants d))) = Inr m" "st = map (\<lambda>i. the (omap_get m i)) (ws_entrants d)"
    using assms(1) by (auto simp: rebuild_swiss_standings_def bind_result_Inr_iff)
  have "entry (the (omap_get m i)) = (i, points_in d rounds i, byes_in rounds i)" if "i \<in> set (ws_entrants d)" for i
  proof -
    have "view m i = Some (i, points_in d rounds i, byes_in rounds i)"
      using rebuild_view [OF m(1) assms(3)] exact_view [OF new_standings_exact assms(2) that] by (simp add: credit_def)
    then show ?thesis by (auto simp: view_def)
  qed
  then show ?thesis unfolding exact_def m(2) map_map by (intro map_cong [OF refl]) simp
qed

section \<open>The engine computes the same points\<close>

lemma round_gain_normal:
  assumes "\<forall>g \<in> set (rn_games r). rg_left g \<noteq> rg_right g"
  shows "round_gain p i (normal_round P r) = round_gain p i r"
proof -
  have game: "game_gain p i (normal_game P g) = game_gain p i g" if "rg_left g \<noteq> rg_right g" for g
  proof -
    have "swap_result (swap_result x) = x" for x by (cases x) simp_all
    then show ?thesis using that by (auto simp: normal_game_def game_gain_def right_points_def split: option.splits)
  qed
  have "sum_list (map (game_gain p i) (rn_games (normal_round P r))) = sum_list (map (game_gain p i) (map (normal_game P) (rn_games r)))"
    by (simp add: normal_round_def sum_list_sort_by)
  also have "map (game_gain p i) (map (normal_game P) (rn_games r)) = map (game_gain p i) (rn_games r)" using assms game by simp
  finally show ?thesis by (simp add: round_gain_def) (simp add: normal_round_def)
qed

lemma total_points_normal:
  assumes "\<forall>r \<in> set (rq_rounds q). \<forall>g \<in> set (rn_games r). rg_left g \<noteq> rg_right g"
  shows "total_points p (rq_rounds (normal_request P q)) i = total_points p (rq_rounds q) i"
proof -
  have "total_points p (rq_rounds (normal_request P q)) i = sum_list (map (round_gain p i) (map (normal_round P) (rq_rounds q)))"
    by (simp add: total_points_def normal_request_def sum_list_sort_by)
  also have "map (round_gain p i) (map (normal_round P) (rq_rounds q)) = map (round_gain p i) (rq_rounds q)"
    using assms round_gain_normal by simp
  finally show ?thesis by (simp add: total_points_def)
qed

lemma effective_points:
  assumes "effective_ranking_policy d = Some p"
  shows "rp_win p = ws_win d \<and> rp_draw p = ws_draw d \<and> rp_loss p = Num 0 \<and> rp_bye p = ws_bye d"
  using assms by (auto simp: effective_ranking_policy_def split: stage_ranking.splits if_splits)

lemma engine_points:
  assumes "effective_ranking_policy d = Some p" "list_all proper_round rounds"
  shows "total_points p (ranking_rounds rounds) i = points_in d rounds i"
proof -
  have game: "game_gain p i \<lparr>rg_left = sw_left x, rg_right = sw_right x,
       rg_result = Some (if sw_winner x = None then DrawnGame else if sw_winner x = Some (sw_left x) then LeftWin else RightWin)\<rparr> = result_gain d i x"
    if "proper_result x" for x
    using that effective_points [OF assms(1)]
    by (auto simp: game_gain_def result_gain_def proper_result_def left_points_def right_points_def num_value_def)
  have "map (round_gain p i) (ranking_rounds rounds) = map (\<lambda>r. bye_gain d i (cr_bye r) + sum_list (map (result_gain d i) (cr_results r))) rounds"
    unfolding ranking_rounds_def map_map
  proof (rule map_cong [OF refl])
    fix r assume "r \<in> set rounds"
    then have r: "proper_round r" using assms(2) by (simp add: list_all_iff)
    have "map (game_gain p i) (map (\<lambda>x. \<lparr>rg_left = sw_left x, rg_right = sw_right x,
       rg_result = Some (if sw_winner x = None then DrawnGame else if sw_winner x = Some (sw_left x) then LeftWin else RightWin)\<rparr>) (cr_results r)) = map (result_gain d i) (cr_results r)"
      unfolding map_map using r by (intro map_cong [OF refl]) (simp add: game proper_round_def list_all_iff del: if_split)
    then show "(round_gain p i \<circ> (\<lambda>r. \<lparr>rn_round = of_nat (cr_round r),
     rn_games = map (\<lambda>x. \<lparr>rg_left = sw_left x, rg_right = sw_right x,
       rg_result = Some (if sw_winner x = None then DrawnGame else if sw_winner x = Some (sw_left x) then LeftWin else RightWin)\<rparr>) (cr_results r),
     rn_byes = (case cr_bye r of None \<Rightarrow> [] | Some b \<Rightarrow> if b = [] then [] else [b])\<rparr>)) r
       = bye_gain d i (cr_bye r) + sum_list (map (result_gain d i) (cr_results r))"
      using r effective_points [OF assms(1)]
      by (auto simp: round_gain_def bye_gain_def proper_round_def simp del: map_map split: option.splits)
  qed
  then show ?thesis by (simp add: total_points_def points_in_def)
qed

lemma rank_swiss_exact:
  assumes "rank_swiss P d st rounds = Inr (Inr (rows, proof))" "exact st (ws_entrants d) (points_in d rounds) g" "distinct (ws_entrants d)"
    "list_all proper_round rounds" "x \<in> set rows"
  shows "ss_points (fs_standing x) = sm_points (fs_tiebreaks x) \<and> ss_byes (fs_standing x) = g (ss_competitor (fs_standing x))"
proof -
  obtain p where p: "effective_ranking_policy d = Some p" using assms(1) by (cases "effective_ranking_policy d") (auto simp: rank_swiss_def)
  obtain engine where e: "create_swiss_ranking_engine [p] = Inr engine" using assms(1) p by (cases "create_swiss_ranking_engine [p]") (auto simp: rank_swiss_def)
  then have engine: "engine = [(rp_id p, p)]" by (auto simp: create_swiss_ranking_engine_def register_policy_def split: if_splits)
  let ?q = "\<lparr>rq_policy = rp_id p, rq_tournament = ws_id d, rq_entrants = ws_entrants d, rq_rounds = ranking_rounds rounds\<rparr>"
  have ranked: "engine_rank P engine ?q = rank_with_policy P p ?q" by (simp add: engine engine_rank_def)
  have c: "rk_status (rank_with_policy P p ?q) \<noteq> RankingRejected"
    and rows: "rows = map (\<lambda>row. \<lparr>fs_standing = the (omap_get (standings_map st) (ro_competitor row)), fs_rank = ro_rank row, fs_tiebreaks = ro_metrics row\<rparr>)
      (rk_rows (rank_with_policy P p ?q))"
    using assms(1) p e ranked by (auto simp: rank_swiss_def Let_def split: if_splits)
  obtain row where row: "row \<in> set (rk_rows (rank_with_policy P p ?q))"
    "x = \<lparr>fs_standing = the (omap_get (standings_map st) (ro_competitor row)), fs_rank = ro_rank row, fs_tiebreaks = ro_metrics row\<rparr>"
    using assms(5) unfolding rows by auto
  have "ro_competitor row \<in> set (rq_entrants ?q)" using mset_eq_setD [OF ranked_rows(1) [OF c]] row(1) by auto
  then have "ro_competitor row \<in> set (ws_entrants d)" by simp
  from exact_get [OF assms(2,3) this] obtain y where y: "omap_get (standings_map st) (ro_competitor row) = Some y"
    "ss_points y = points_in d rounds (ro_competitor row)" "ss_byes y = g (ro_competitor row)" "ss_competitor y = ro_competitor row" by metis
  have games: "\<forall>r \<in> set (rq_rounds ?q). \<forall>g \<in> set (rn_games r). rg_left g \<noteq> rg_right g"
    using assms(4) by (auto simp: ranking_rounds_def list_all_iff proper_round_def proper_result_def)
  have "sm_points (ro_metrics row) = total_points p (rq_rounds (normal_request P ?q)) (ro_competitor row)" using ranked_rows(2) [OF c row(1)] by blast
  also have "\<dots> = total_points p (ranking_rounds rounds) (ro_competitor row)" using total_points_normal [OF games] by simp
  also have "\<dots> = points_in d rounds (ro_competitor row)" by (rule engine_points [OF p assms(4)])
  finally show ?thesis using y unfolding row(2) by simp
qed

section \<open>The standings along the life of a stage\<close>

lemma finish_swiss_cases:
  assumes "finish_swiss P s c msg d r = Inr t"
  obtains (refused) "refuses s t"
  | (ranked) rows proof_of where "rank_swiss P d (wt_standings r) (wt_completed r) = Inr (Inr (rows, proof_of))"
      "t = commit_stage P s c PhaseComplete (SwissRun (r\<lparr>wt_final := rows, wt_policy_hash := Some (rf_policy_hash proof_of), wt_proof := Some proof_of\<rparr>)) (ds_requests s)"
proof -
  obtain x where x: "rank_swiss P d (wt_standings r) (wt_completed r) = Inr x" using assms by (auto simp: finish_swiss_def bind_result_Inr_iff)
  show ?thesis
  proof (cases x)
    case (Inl fs)
    then show ?thesis using assms x by (intro refused) (auto simp: finish_swiss_def)
  next
    case (Inr y)
    obtain rows proof_of where "y = (rows, proof_of)" by force
    then show ?thesis using assms x Inr by (intro ranked) (auto simp: finish_swiss_def)
  qed
qed

lemma points_in_append: "points_in d (rounds @ [r]) i = points_in d rounds i + (bye_gain d i (cr_bye r) + sum_list (map (result_gain d i) (cr_results r)))"
  by (simp add: points_in_def)

lemma byes_in_append: "byes_in (rounds @ [r]) i = byes_in rounds i + (if cr_bye r = Some i then 1 else 0)"
  by (simp add: byes_in_def)

lemma certified_bye:
  assumes "so_certified (next_pairing P d n st)" "exact st es f g" "[] \<notin> set es"
  shows "bye_of (next_pairing P d n st) \<noteq> Some []"
proof -
  let ?q = "\<lparr>sr_round = Num (of_nat n), sr_competitors = swiss_competitors st, sr_policy = ws_pairing d\<rparr>"
  note cert = assms(1) [unfolded next_pairing_def]
  obtain ex field bye where f: "pair_swiss_round P ?q = pair_field P ?q ex field bye"
    "mset (map swiss_competitor.sc_id (active_field P ?q)) = mset (map swiss_competitor.sc_id field) + mset (case bye of None \<Rightarrow> [] | Some b \<Rightarrow> [bye_competitor b])"
    using certified_round_field [OF cert] by metis
  have bye: "so_bye (pair_swiss_round P ?q) = bye" using pair_field_spec(1) [OF cert [unfolded f(1)]] unfolding f(1) by blast
  have "set (map swiss_competitor.sc_id (active_field P ?q)) \<subseteq> set (map ss_competitor st)"
    by (auto simp: active_field_def swiss_competitors_def)
  then have "bye_competitor b \<in> set es" if "bye = Some b" for b
    using mset_eq_setD [OF f(2) [unfolded that option.case mset_append [symmetric]]] exact_ids [OF assms(2)] by auto
  then show ?thesis using assms(3) by (auto simp: bye_of_def next_pairing_def bye)
qed

definition swiss_exact :: "swiss_stage \<Rightarrow> stage_phase \<Rightarrow> swiss_runtime \<Rightarrow> bool" where
  "swiss_exact d p r \<longleftrightarrow>
     (p = PhaseDefinition \<or> [] \<notin> set (ws_entrants d) \<and> list_all proper_round (wt_completed r) \<and> wt_bye r \<noteq> Some []
       \<and> exact (wt_standings r) (ws_entrants d) (\<lambda>i. points_in d (wt_completed r) i + (if p = PhaseComplete then 0 else bye_gain d i (wt_bye r)))
           (\<lambda>i. byes_in (wt_completed r) i + (if p \<noteq> PhaseComplete \<and> wt_bye r = Some i then 1 else 0)))
     \<and> (if p = PhaseComplete
        then \<forall>x \<in> set (wt_final r). ss_points (fs_standing x) = sm_points (fs_tiebreaks x) \<and> ss_byes (fs_standing x) = byes_in (wt_completed r) (ss_competitor (fs_standing x))
        else wt_final r = [])"

lemma swiss_exact_open:
  assumes "so_certified (next_pairing P d n st)" "exact st (ws_entrants d) (points_in d (wt_completed r)) (byes_in (wt_completed r))"
    "[] \<notin> set (ws_entrants d)" "list_all proper_round (wt_completed r)" "wt_final r = []" "p = PhaseReady \<or> p = PhaseRunning"
  shows "swiss_exact d p (open_round d n (next_pairing P d n st) st r)"
proof -
  let ?b = "bye_of (next_pairing P d n st)"
  have "exact (with_swiss_bye ?b (num_value (ws_bye d)) st) (ws_entrants d)
      (\<lambda>i. points_in d (wt_completed r) i + bye_gain d i ?b) (\<lambda>i. byes_in (wt_completed r) i + (if ?b = Some i then 1 else 0))"
    using with_swiss_bye_exact [OF assms(2), of ?b "num_value (ws_bye d)"] by (simp add: bye_gain_def)
  then show ?thesis using certified_bye [OF assms(1-3)] assms(3-6) by (auto simp: swiss_exact_def open_round_def)
qed

lemma swiss_exact_finish:
  assumes "rank_swiss P d (wt_standings r) (wt_completed r) = Inr (Inr (rows, proof_of))"
    "exact (wt_standings r) (ws_entrants d) (points_in d (wt_completed r)) (byes_in (wt_completed r))" "distinct (ws_entrants d)"
    "[] \<notin> set (ws_entrants d)" "list_all proper_round (wt_completed r)" "wt_bye r \<noteq> Some []"
  shows "swiss_exact d PhaseComplete (r\<lparr>wt_final := rows, wt_policy_hash := h, wt_proof := y\<rparr>)"
proof -
  have "ss_points (fs_standing x) = sm_points (fs_tiebreaks x) \<and> ss_byes (fs_standing x) = byes_in (wt_completed r) (ss_competitor (fs_standing x))"
    if "x \<in> set rows" for x by (rule rank_swiss_exact [OF assms(1-3,5) that])
  then show ?thesis using assms(2,4-6) by (simp add: swiss_exact_def)
qed

lemma matched_proper: "list_all (result_matches ps) rs \<Longrightarrow> list_all proper_result rs"
  by (induction rs) (auto simp: result_matches_def proper_result_def split: option.splits)

lemma swiss_exact_submit:
  fixes P :: platform
  assumes "swiss_exact d PhaseRunning r" "distinct (ws_entrants d)" "list_all (result_matches ps) rs" "apply_results d (wt_standings r) rs = Inr st"
  defines "rounds \<equiv> wt_completed r @ [recorded_round P r rs]"
  shows "exact st (ws_entrants d) (points_in d rounds) (byes_in rounds) \<and> list_all proper_round rounds \<and> [] \<notin> set (ws_entrants d)
    \<and> wt_bye r \<noteq> Some [] \<and> wt_final r = []"
proof -
  have r: "[] \<notin> set (ws_entrants d)" "list_all proper_round (wt_completed r)" "wt_bye r \<noteq> Some []" "wt_final r = []"
    "exact (wt_standings r) (ws_entrants d) (\<lambda>i. points_in d (wt_completed r) i + bye_gain d i (wt_bye r)) (\<lambda>i. byes_in (wt_completed r) i + (if wt_bye r = Some i then 1 else 0))"
    using assms(1) by (simp_all add: swiss_exact_def)
  note proper = matched_proper [OF assms(3)]
  have "points_in d rounds = (\<lambda>i. points_in d (wt_completed r) i + bye_gain d i (wt_bye r) + sum_list (map (result_gain d i) rs))"
    by (rule ext) (simp add: rounds_def points_in_append recorded_round_def)
  moreover have "byes_in rounds = (\<lambda>i. byes_in (wt_completed r) i + (if wt_bye r = Some i then 1 else 0))"
    by (rule ext) (simp add: rounds_def byes_in_append recorded_round_def)
  ultimately have "exact st (ws_entrants d) (points_in d rounds) (byes_in rounds)" using apply_results_exact [OF assms(4) r(5) assms(2) proper] by simp
  moreover have "list_all proper_round rounds" using r(2,3) proper by (simp add: rounds_def proper_round_def recorded_round_def)
  ultimately show ?thesis using r by simp
qed

lemma swiss_exact_prepare:
  assumes "prepare_swiss P d r0 = Inr (run, q)" "wt_standings r0 = map new_standing (ws_entrants d)" "wt_completed r0 = []" "wt_final r0 = []"
  obtains r where "run = SwissRun r" "swiss_exact d PhaseReady r"
proof -
  let ?out = "next_pairing P d 1 (wt_standings r0)"
  have d: "\<not> list_ex blank (ws_entrants d)" "so_certified ?out" "run = SwissRun (open_round d 1 ?out (wt_standings r0) r0)"
    using assms(1) by (auto simp: prepare_swiss_def Let_def split: if_splits)
  have "[] \<notin> set (ws_entrants d)" using d(1) by (auto simp: list_ex_iff)
  moreover have "exact (wt_standings r0) (ws_entrants d) (points_in d (wt_completed r0)) (byes_in (wt_completed r0))"
    using new_standings_exact unfolding assms(2,3) by (simp add: points_in_def [abs_def] byes_in_def [abs_def])
  ultimately show ?thesis using that [OF d(3)] swiss_exact_open [OF d(2)] assms(3,4) by simp
qed

lemma swiss_exact_step:
  assumes "stage_inv P s" "ds_definition s = SwissStage d" "ds_runtime s = SwissRun r" "swiss_exact d (ds_phase s) r"
    "execute_action P s c = Inr t" "\<not> refuses s t" "may_step (SwissStage d) (ca_action c) (ds_phase s) (ds_phase (dt_state t))"
    "action_kind (ca_action c) \<noteq> ''VOID_SWISS_ROUND''"
  shows "\<exists>r'. ds_runtime (dt_state t) = SwissRun r' \<and> swiss_exact d (ds_phase (dt_state t)) r'"
proof (cases "ca_action c")
  case Prepare
  then have t: "t = prepare_command P s c" "ds_phase s = PhaseDefinition" using assms(5,7) by (simp_all add: execute_action_def)
  have r: "wt_standings r = map new_standing (ws_entrants d)" "wt_completed r = []" "wt_final r = []"
    using swiss_inv [OF assms(1-3)] t(2) by (simp_all add: swiss_ok_def)
  obtain run q where p: "prepare_stage P s = Inr (run, q)" "t = commit_stage P s c PhaseReady run q"
    using assms(6) t by (auto simp: prepare_command_def split: sum.splits)
  then have "prepare_swiss P d r = Inr (run, q)" using assms(2,3) by (auto simp: prepare_stage_def Let_def swiss_runtime_of_def split: if_splits)
  from swiss_exact_prepare [OF this r] show ?thesis using p(2) by (auto simp: commit_stage_def)
next
  case Start
  then have "t = start_command P s c" "ds_phase s = PhaseReady" using assms(5,7) by (simp_all add: execute_action_def)
  then show ?thesis using assms(3,4) by (auto simp: start_command_def commit_stage_def swiss_exact_def)
next
  case (SubmitSwiss n rs)
  then have "submit_swiss P s c n rs = Inr t" using assms(5) by (simp add: execute_action_def)
  then show ?thesis
  proof (cases rule: submit_swiss_cases)
    case refused
    then show ?thesis using assms(6) by contradiction
  next
    case (final d' r' standings)
    have same: "d' = d" "r' = r" using final(1,2) assms(2,3) by simp_all
    have D: "distinct (ws_entrants d)" using running_round [OF assms(1) final(1-3)] unfolding same by metis
    note e = swiss_exact_submit [of d r, OF assms(4) [unfolded final(3)] D final(4,5) [unfolded same], where P = P]
    from e have e3: "[] \<notin> set (ws_entrants d)" by blast
    from final(7) show ?thesis
    proof (cases rule: finish_swiss_cases)
      case refused
      then show ?thesis using assms(6) by contradiction
    next
      case (ranked rows proof_of)
      have "swiss_exact d PhaseComplete (r\<lparr>wt_standings := standings, wt_pairings := [], wt_completed := wt_completed r @ [recorded_round P r rs],
          wt_final := rows, wt_policy_hash := Some (rf_policy_hash proof_of), wt_proof := Some proof_of\<rparr>)"
        using swiss_exact_finish [OF ranked(1) [unfolded same] _ _ e3] e D unfolding same by simp
      then show ?thesis using ranked(2) by (simp add: commit_stage_def same)
    qed
  next
    case (more d' r' standings out)
    have same: "d' = d" "r' = r" using more(1,2) assms(2,3) by simp_all
    have D: "distinct (ws_entrants d)" using running_round [OF assms(1) more(1-3)] unfolding same by metis
    note e = swiss_exact_submit [of d r, OF assms(4) [unfolded more(3)] D more(4,5) [unfolded same], where P = P]
    have "swiss_exact d PhaseRunning (open_round d (wt_round r + 1) out standings (r\<lparr>wt_completed := wt_completed r @ [recorded_round P r rs]\<rparr>))"
      unfolding more(7) same by (rule swiss_exact_open) (use more(7,8) e same in simp_all)
    then show ?thesis by (simp add: more(9) commit_stage_def same)
  qed
next
  case (CorrectSwiss n h rs why)
  then have "correct_swiss P s c n h rs why = Inr t" using assms(5) by (simp add: execute_action_def)
  then show ?thesis
  proof (cases rule: correct_swiss_cases)
    case refused
    then show ?thesis using assms(6) by contradiction
  next
    case (final d' r' standings changed)
    have same: "d' = d" "r' = r" using final(1,2) assms(2,3) by simp_all
    obtain rounds latest where k: "wt_completed r = rounds @ [latest]" "distinct (ws_entrants d)"
      using final_round [OF swiss_inv [OF assms(1-3), unfolded final(3)]] by metis
    have e: "[] \<notin> set (ws_entrants d)" "list_all proper_round (wt_completed r)" "wt_bye r \<noteq> Some []"
      using assms(4) final(3) by (simp_all add: swiss_exact_def)
    have proper: "list_all proper_round changed"
      using e(2) matched_proper final(4) unfolding final(5) same k(1) by (auto simp: proper_round_def valid_swiss_replacement_def)
    have x: "exact standings (ws_entrants d) (points_in d changed) (byes_in changed)" using rebuild_exact [OF final(6) [unfolded same] k(2) proper] .
    from final(7) show ?thesis
    proof (cases rule: finish_swiss_cases)
      case refused
      then show ?thesis using assms(6) by contradiction
    next
      case (ranked rows proof_of)
      have "swiss_exact d PhaseComplete (r\<lparr>wt_standings := standings, wt_completed := changed,
          wt_final := rows, wt_policy_hash := Some (rf_policy_hash proof_of), wt_proof := Some proof_of\<rparr>)"
        using swiss_exact_finish [OF ranked(1) [unfolded same] _ _ e(1)] x proper e(3) k(2) unfolding same by simp
      then show ?thesis using ranked(2) by (simp add: commit_stage_def same)
    qed
  qed
qed (use assms(7,8) in simp_all)

lemma swiss_exact_reachable:
  assumes "\<And>x. sha256 P x \<noteq> []" "supported (SwissStage d)" "stage_steps P (define_dynamic_stage P (SwissStage d)) s"
    "''VOID_SWISS_ROUND'' \<notin> set (map sv_kind (ds_events s))"
  shows "\<exists>r. ds_runtime s = SwissRun r \<and> swiss_exact d (ds_phase s) r"
  using assms(3,4)
proof (induction rule: stage_steps.induct)
  case here
  show ?case by (simp add: swiss_exact_def)
next
  case (step s c t)
  note inv = reachable_inv [OF assms(1,2) step.hyps(1)]
  from step.hyps(2) show ?case
  proof (cases rule: transition_cases)
    case executed
    from execute_action_sound [OF assms(1) inv(1) executed(1)] have "refuses s t
        \<or> (\<exists>p r q. t = commit_stage P s c p r q \<and> may_step (SwissStage d) (ca_action c) (ds_phase s) p)"
      unfolding sound_def answers_def inv(2) by auto
    then show ?thesis
    proof
      assume "refuses s t"
      then show ?thesis using step.IH step.prems by (simp add: refuses_def)
    next
      assume "\<exists>p r q. t = commit_stage P s c p r q \<and> may_step (SwissStage d) (ca_action c) (ds_phase s) p"
      then obtain p r q where t: "t = commit_stage P s c p r q" "may_step (SwissStage d) (ca_action c) (ds_phase s) p" by blast
      then have n: "\<not> refuses s t" "ds_phase (dt_state t) = p" "ds_events (dt_state t) = ds_events s @ [stage_event P s c]"
        by (simp_all add: refuses_def commit_stage_def)
      then have "''VOID_SWISS_ROUND'' \<notin> set (map sv_kind (ds_events s))" and k: "action_kind (ca_action c) \<noteq> ''VOID_SWISS_ROUND''"
        using step.prems by auto
      then obtain r' where r': "ds_runtime s = SwissRun r'" "swiss_exact d (ds_phase s) r'" using step.IH by blast
      show ?thesis by (rule swiss_exact_step [OF inv r' executed(1) n(1) _ k]) (use t(2) n(2) in simp)
    qed
  qed (use step.IH step.prems in simp_all)
qed

text \<open>
  A VOID of the final round takes the runtime back to that round with its bye, but rebuilds the standings from the earlier rounds only: the
  points and the count of that bye, which the running round had, are gone.
\<close>

lemma void_loses_bye:
  assumes "\<And>x. sha256 P x \<noteq> []" "supported (SwissStage d)" "stage_steps P (define_dynamic_stage P (SwissStage d)) s"
    "''VOID_SWISS_ROUND'' \<notin> set (map sv_kind (ds_events s))" "ds_runtime s = SwissRun r" "void_swiss P s c n h why = Inr t" "\<not> refuses s t"
    "cr_bye (last (wt_completed r)) = Some b" "b \<in> set (ws_entrants d)"
  shows "\<exists>r'. ds_runtime (dt_state t) = SwissRun r' \<and> ds_phase (dt_state t) = PhaseRunning \<and> wt_bye r' = Some b
    \<and> exact (wt_standings r') (ws_entrants d) (points_in d (wt_completed r')) (byes_in (wt_completed r')) \<and> \<not> swiss_exact d PhaseRunning r'"
proof -
  note inv = reachable_inv [OF assms(1-3)]
  have phase: "ds_phase s = PhaseComplete" using assms(6,7)
    by (auto simp: void_swiss_def split: stage_definition.splits stage_runtime.splits stage_phase.splits)
  have e: "swiss_exact d PhaseComplete r" using swiss_exact_reachable [OF assms(1-4)] assms(5) phase by simp
  obtain rounds latest where k: "wt_completed r = rounds @ [latest]" "distinct (ws_entrants d)"
    using final_round [OF swiss_inv [OF inv(1,2) assms(5), unfolded phase]] by metis
  have proper: "list_all proper_round rounds" using e k(1) by (simp add: swiss_exact_def)
  obtain st where st: "rebuild_swiss_standings d rounds = Inr st"
    using assms(6,7) inv(2) assms(5) phase k(1) by (auto simp: void_swiss_def Let_def bind_result_Inr_iff split: if_splits)
  let ?r = "r\<lparr>wt_round := cr_round latest, wt_standings := st, wt_pairings := cr_pairings latest,
      wt_bye := cr_bye latest, wt_completed := rounds, wt_final := [], wt_policy_hash := None, wt_proof := None\<rparr>"
  have t: "t = commit_stage P s c PhaseRunning (SwissRun ?r) (ds_requests s)"
    using assms(6,7) inv(2) assms(5) phase k(1) st by (auto simp: void_swiss_def Let_def split: if_splits)
  have x: "exact st (ws_entrants d) (points_in d rounds) (byes_in rounds)" using rebuild_exact [OF st k(2) proper] .
  have "\<not> exact st (ws_entrants d) f (\<lambda>i. byes_in rounds i + (if Some b = Some i then 1 else 0))" for f
    using x assms(9) unfolding exact_def by auto
  then have "\<not> swiss_exact d PhaseRunning ?r" using assms(8) k(1) by (simp add: swiss_exact_def)
  then show ?thesis using x assms(8) k(1) unfolding t by (simp add: commit_stage_def)
qed

section \<open>The property\<close>

text \<open>
  C28. The standings of a Swiss stage are exact. In every reachable state whose history has no VOID command, the standings list the entrants in
  order, each with the points and byes of the completed rounds plus the bye of the round that is
  open, however often the last round has been corrected; and in a complete stage the points of every final standing are the points that
  the ranking engine computes independently from the rounds.
\<close>

theorem swiss_standings_exact:
  assumes "\<And>x. sha256 P x \<noteq> []" "supported (SwissStage d)" "stage_steps P (define_dynamic_stage P (SwissStage d)) s"
    "''VOID_SWISS_ROUND'' \<notin> set (map sv_kind (ds_events s))" "ds_runtime s = SwissRun r"
  shows "map (\<lambda>x. (ss_competitor x, ss_points x, ss_byes x)) (wt_standings r)
      = map (\<lambda>i. (i, points_in d (wt_completed r) i + (if ds_phase s \<noteq> PhaseComplete then bye_gain d i (wt_bye r) else 0),
          byes_in (wt_completed r) i + (if ds_phase s \<noteq> PhaseComplete \<and> wt_bye r = Some i then 1 else 0))) (ws_entrants d)
    \<and> (ds_phase s = PhaseComplete \<longrightarrow> (\<forall>x \<in> set (wt_final r). ss_points (fs_standing x) = sm_points (fs_tiebreaks x)
        \<and> ss_byes (fs_standing x) = byes_in (wt_completed r) (ss_competitor (fs_standing x))))"
proof -
  have e: "swiss_exact d (ds_phase s) r" using swiss_exact_reachable [OF assms(1-4)] assms(5) by simp
  show ?thesis
  proof (cases "ds_phase s = PhaseDefinition")
    case True
    have "swiss_ok d PhaseDefinition r (ds_requests s)" using swiss_inv [OF reachable_inv [OF assms(1-3)] assms(5)] True by simp
    then show ?thesis using True new_standings_exact [of "ws_entrants d"]
      by (simp add: swiss_ok_def exact_def points_in_def byes_in_def bye_gain_def)
  next
    case False
    then show ?thesis using e by (cases "ds_phase s = PhaseComplete") (simp_all add: swiss_exact_def exact_def)
  qed
qed

section \<open>A prepared Swiss stage\<close>

definition sample_swiss :: swiss_stage where
  "sample_swiss = \<lparr>ws_id = ''s'', ws_revision = Num 1, ws_entrants = [''a'', ''b''], ws_rounds = Num 1,
     ws_pairing = \<lparr>sp_rematches = RematchForbidden, sp_bye = None, sp_limit = None\<rparr>, ws_win = Num 1, ws_draw = Num 0, ws_bye = Num 1,
     ws_ranking = LegacyRanking ''p'' [LegacyPoints, LegacyShared]\<rparr>"

definition paired_round :: swiss_request where
  "paired_round = \<lparr>sr_round = Num (of_nat 1), sr_competitors = swiss_competitors (map new_standing [''a'', ''b'']), sr_policy = ws_pairing sample_swiss\<rparr>"

lemma paired_competitors: "sr_competitors paired_round = [sample_player ''a'' 0, sample_player ''b'' 0]"
  by (simp add: paired_round_def swiss_competitors_def new_standing_def sample_player_def)

lemma paired_search:
  "\<not> ps_reached (pair_search RematchForbidden 250000 [sample_player ''a'' 0, sample_player ''b'' 0] [] 0 0 \<lparr>ps_best = None, ps_nodes = 0, ps_reached = False\<rparr>)
   \<and> ps_best (pair_search RematchForbidden 250000 [sample_player ''a'' 0, sample_player ''b'' 0] [] 0 0 \<lparr>ps_best = None, ps_nodes = 0, ps_reached = False\<rparr>) \<noteq> None"
proof -
  let ?a = "sample_player ''a'' 0" and ?b = "sample_player ''b'' 0"
  let ?best = "\<lparr>ps_best = Some \<lparr>pc_pairs = [(?a, ?b)], pc_rematches = 0, pc_gap = 0, pc_key = pairs_key [(?a, ?b)]\<rparr>, ps_nodes = 2, ps_reached = False\<rparr>"
  have pair: "is_rematch ?a ?b = False" "score_gap ?a ?b = 0" by (simp_all add: is_rematch_def sample_player_def score_gap_def)
  have leaf: "pair_search RematchForbidden 250000 [] [(?a, ?b)] 0 0 \<lparr>ps_best = None, ps_nodes = Suc 0, ps_reached = False\<rparr> = ?best"
    unfolding pair_search.simps [where remaining = Nil] by (simp add: offer_def)
  have "try_partners RematchForbidden 250000 ?a [] [?b] [] 0 0 \<lparr>ps_best = None, ps_nodes = Suc 0, ps_reached = False\<rparr> = ?best"
    by (subst try_partners.simps(2)) (simp add: pair pruned_def leaf)
  then have "pair_search RematchForbidden 250000 [?a, ?b] [] 0 0 \<lparr>ps_best = None, ps_nodes = 0, ps_reached = False\<rparr> = ?best"
    by (subst pair_search.simps) simp
  then show ?thesis by simp
qed

lemma paired_certified: "so_certified (pair_swiss_round stage_platform paired_round)"
proof -
  have words: "\<not> blank ''a''" "\<not> blank ''b''" by (simp_all add: blank_iff is_space_def)
  have field: "active_field stage_platform paired_round = [sample_player ''a'' 0, sample_player ''b'' 0]"
    unfolding active_field_def paired_competitors
    by (simp add: sample_player_def is_withdrawn_def num_cmp_def or_else_def stage_platform_def sample_platform_def less_char_def)
  have checks: "positive_int (sr_round paired_round)" "sr_policy paired_round = \<lparr>sp_rematches = RematchForbidden, sp_bye = None, sp_limit = None\<rparr>"
    by (simp_all add: paired_round_def sample_swiss_def positive_int_def sample_integers)
  have "\<not> list_ex competitor_invalid (sr_competitors paired_round)" "duplicate_ids (map swiss_competitor.sc_id (sr_competitors paired_round)) = []"
    unfolding paired_competitors by (simp_all add: sample_player_def competitor_invalid_def words sample_integers duplicate_ids_Nil)
  then have "pair_swiss_round stage_platform paired_round = pair_field stage_platform paired_round
      (sort (map swiss_competitor.sc_id (filter (\<lambda>c. is_withdrawn (sc_withdrawn c)) (sr_competitors paired_round))))
      [sample_player ''a'' 0, sample_player ''b'' 0] None"
    using checks by (simp add: pair_swiss_round_def Let_def field)
  then show ?thesis using paired_search checks(2)
    by (auto simp: pair_field_def Let_def node_limit_def sample_integers sealed_swiss_def)
qed

abbreviation "defined_swiss \<equiv> define_dynamic_stage stage_platform (SwissStage sample_swiss)"

lemma sample_swiss_supported: "supported (SwissStage sample_swiss)"
  by (simp add: supported_def sample_swiss_def above_def)

lemma sample_swiss_prepared:
  obtains t r where "transition_dynamic_stage stage_platform defined_swiss sample_prepare = Inr t" "ds_runtime (dt_state t) = SwissRun r"
    "ds_phase (dt_state t) = PhaseReady" "map sv_kind (ds_events (dt_state t)) = [''PREPARE'']" "wt_completed r = []" "wt_round r = 1"
proof -
  have words: "\<not> blank ''a''" "\<not> blank ''b''" "\<not> blank ''s''" "\<not> blank ''p''" by (simp_all add: blank_iff is_space_def)
  have policy: "valid_ranking_policy sample_swiss"
    by (simp add: valid_ranking_policy_def effective_ranking_policy_def sample_swiss_def words List.map_filter_simps sample_integers)
  have out: "next_pairing stage_platform sample_swiss 1 (map new_standing [''a'', ''b'']) = pair_swiss_round stage_platform paired_round"
    by (simp only: next_pairing_def paired_round_def)
  obtain r0 where r0: "initial_runtime (SwissStage sample_swiss) = SwissRun r0" "wt_standings r0 = map new_standing [''a'', ''b'']" "wt_completed r0 = []"
    by (simp add: sample_swiss_def)
  have "prepare_stage stage_platform defined_swiss = Inr
      (SwissRun (open_round sample_swiss 1 (pair_swiss_round stage_platform paired_round) (map new_standing [''a'', ''b'']) r0),
       swiss_requests ''s'' 1 (contest_pairings ''s'' 1 (pair_swiss_round stage_platform paired_round)))"
    unfolding prepare_stage_def Let_def define_simps r0(1) stage_definition.case swiss_runtime_of_def stage_runtime.case prepare_swiss_def r0(2) out
    using policy paired_certified
    by (simp add: words sample_swiss_def positive_int_def sample_integers point_invalid_def)
  then have "prepare_command stage_platform defined_swiss sample_prepare = commit_stage stage_platform defined_swiss sample_prepare PhaseReady
      (SwissRun (open_round sample_swiss 1 (pair_swiss_round stage_platform paired_round) (map new_standing [''a'', ''b'']) r0))
      (swiss_requests ''s'' 1 (contest_pairings ''s'' 1 (pair_swiss_round stage_platform paired_round)))"
    by (simp add: prepare_command_def)
  moreover have "verify_dynamic_stage stage_platform defined_swiss = []" by (rule stage_inv_verifies [OF stage_inv_define [OF sample_swiss_supported]])
  moreover have "date_parse stage_platform ''T5'' = Some 5"
    by (simp add: stage_platform_def sample_platform_def sample_date_parse_def digits_of.simps digit_chars)
  ultimately have "transition_dynamic_stage stage_platform defined_swiss sample_prepare = Inr (commit_stage stage_platform defined_swiss sample_prepare PhaseReady
      (SwissRun (open_round sample_swiss 1 (pair_swiss_round stage_platform paired_round) (map new_standing [''a'', ''b'']) r0))
      (swiss_requests ''s'' 1 (contest_pairings ''s'' 1 (pair_swiss_round stage_platform paired_round))))"
    by (simp add: transition_dynamic_stage_def execute_action_def sample_prepare_def command_kinds_def sample_integers blank_iff is_space_def)
  from that [OF this] show ?thesis using r0(3) by (simp add: commit_stage_def open_round_def sample_prepare_def)
qed

theorem swiss_standings_exact_witness:
  "\<exists>s r. stage_steps stage_platform defined_swiss s \<and> ds_phase s = PhaseReady \<and> ds_runtime s = SwissRun r \<and> wt_round r = 1
     \<and> map ss_competitor (wt_standings r) = [''a'', ''b'']"
proof -
  obtain t r where t: "transition_dynamic_stage stage_platform defined_swiss sample_prepare = Inr t" "ds_runtime (dt_state t) = SwissRun r"
    "ds_phase (dt_state t) = PhaseReady" "map sv_kind (ds_events (dt_state t)) = [''PREPARE'']" "wt_completed r = []" "wt_round r = 1"
    using sample_swiss_prepared .
  have steps: "stage_steps stage_platform defined_swiss (dt_state t)" by (rule stage_steps.step [OF stage_steps.here t(1)])
  have "map (\<lambda>x. (ss_competitor x, ss_points x, ss_byes x)) (wt_standings r) = map (\<lambda>i. (i,
      points_in sample_swiss (wt_completed r) i + (if ds_phase (dt_state t) \<noteq> PhaseComplete then bye_gain sample_swiss i (wt_bye r) else 0),
      byes_in (wt_completed r) i + (if ds_phase (dt_state t) \<noteq> PhaseComplete \<and> wt_bye r = Some i then 1 else 0))) (ws_entrants sample_swiss)"
    by (rule swiss_standings_exact [OF stage_platform_hash sample_swiss_supported steps _ t(2), THEN conjunct1]) (simp add: t(4))
  from arg_cong [OF this, of "map fst"] have "map ss_competitor (wt_standings r) = [''a'', ''b'']" by (simp add: comp_def sample_swiss_def)
  then show ?thesis using steps t(2,3,6) by (intro exI conjI)
qed

end
