(* ===== verification/TournamentState.thy ===== *)
theory TournamentState
  imports RankedFormats LiveOperations
begin

text \<open>
  packages/competition-engine/src/tournament-state.ts: the truth of a tournament in four layers (definition, plan,
  operational, actual), decided by commands and evolved by events through an invariant firewall.

  \<^item> \<open>evolve_tournament\<close> throws (\<open>Inl\<close>) on every event that the firewall rejects; \<open>decide_tournament_command\<close> and
    \<open>replay_tournament_events\<close> catch.
  \<^item> Lists that TypeScript types as pairs (\<^verbatim>\<open>readonly [string, string]\<close>) are lists, since the code checks their length.
  \<^item> \<^verbatim>\<open>effectiveResults[contestId]\<close> also finds what a plain object inherits: \<open>blocked\<close>.
\<close>

section \<open>Commands\<close>

record revision_command =
  rn_id :: string
  rn_number :: jsnum
  rn_hash :: string

record result_command =
  rz_contest :: string
  rz_entrants :: "string list"
  rz_winner :: string
  rz_score :: "jsnum list"
  rz_reason :: string

record operational_contest =
  oc_id :: string
  oc_entrants :: "string list"

datatype tournament_action =
    RegisterDefinition revision_command
  | ActivatePlan revision_command string
  | ActivateOperational revision_command string "operational_contest list"
  | RecordActual result_command
  | CorrectActual result_command string
  | VoidActual string string string

record tournament_command =
  tk_id :: string
  tk_expected :: jsnum
  tk_actor :: string
  tk_at :: string
  tk_action :: tournament_action

section \<open>State\<close>

record revision_record =
  rv_id :: string
  rv_number :: int
  rv_hash :: string
  rv_event :: string

record plan_record = revision_record +
  rv_definition :: string

record operational_record = revision_record +
  rv_plan :: string
  rv_contests :: "operational_contest list"

record 'r layer =
  ly_revisions :: "'r list"
  ly_active :: "string option"

datatype actual_status = ActualStands | ActualVoid

record actual_result =
  ac_event :: string
  ac_contest :: string
  ac_status :: actual_status
  ac_entrants :: "string list"
  ac_winner :: "string option"
  ac_score :: "jsnum list option"
  ac_supersedes :: "string option"
  ac_reason :: string

datatype tournament_phase = EmptyPhase | DefinitionPhase | PlanPhase | OperationalPhase | ActualPhase

record tournament_state =
  tm_id :: string
  tm_phase :: tournament_phase
  tm_version :: int
  tm_last :: "string option"
  tm_commands :: "string list"
  tm_fingerprints :: "(string, string) omap"
  tm_definition :: "revision_record layer"
  tm_plan :: "plan_record layer"
  tm_operational :: "operational_record layer"
  tm_effective :: "(string, actual_result) omap"
  tm_history :: "actual_result list"
  tm_proof :: string

section \<open>Events\<close>

datatype tournament_data =
    DefinitionRegistered revision_command
  | PlanActivated revision_command string
  | OperationalActivated revision_command string "operational_contest list"
  | ActualRecorded result_command
  | ActualCorrected result_command string
  | ActualVoided string string string

record tournament_event =
  tv_tournament :: string
  tv_id :: string
  tv_hash :: string
  tv_previous :: "string option"
  tv_sequence :: int
  tv_command :: string
  tv_fingerprint :: string
  tv_actor :: string
  tv_at :: string
  tv_data :: tournament_data

record tournament_finding =
  tf_code :: string
  tf_path :: string
  tf_message :: string
  tf_evidence :: "jsval option"

record tournament_decision =
  td_accepted :: bool
  td_events :: "tournament_event list"
  td_findings :: "tournament_finding list"

record tournament_replay =
  ty_valid :: bool
  ty_state :: tournament_state
  ty_findings :: "tournament_finding list"

datatype firewall_error = Firewall string string "jsval option" | OtherError string

section \<open>JSON values\<close>

definition revision_fields :: "revision_command \<Rightarrow> (string \<times> jsval) list" where
  "revision_fields r = [(''revisionId'', JStr (rn_id r)), (''revision'', JNum (rn_number r)), (''artifactHash'', JStr (rn_hash r))]"

definition result_fields_json :: "result_command \<Rightarrow> (string \<times> jsval) list" where
  "result_fields_json r = [(''contestId'', JStr (rz_contest r)), (''entrantIds'', strs (rz_entrants r)), (''winnerId'', JStr (rz_winner r)),
     (''score'', JArr (map JNum (rz_score r))), (''reason'', JStr (rz_reason r))]"

definition operational_contest_json :: "operational_contest \<Rightarrow> jsval" where
  "operational_contest_json c = JObj [(''contestId'', JStr (oc_id c)), (''entrantIds'', strs (oc_entrants c))]"

definition operational_contests_json :: "operational_contest list \<Rightarrow> jsval" where
  "operational_contests_json cs = JArr (map operational_contest_json cs)"

definition void_fields :: "string \<Rightarrow> string \<Rightarrow> string \<Rightarrow> (string \<times> jsval) list" where
  "void_fields c i reason = [(''contestId'', JStr c), (''supersedesEventId'', JStr i), (''reason'', JStr reason)]"

fun tournament_action_fields :: "tournament_action \<Rightarrow> (string \<times> jsval) list" where
  "tournament_action_fields (RegisterDefinition r) = (''kind'', JStr ''REGISTER_DEFINITION'') # revision_fields r"
| "tournament_action_fields (ActivatePlan r d) = (''kind'', JStr ''ACTIVATE_PLAN'') # (''definitionRevisionId'', JStr d) # revision_fields r"
| "tournament_action_fields (ActivateOperational r p cs) = (''kind'', JStr ''ACTIVATE_OPERATIONAL'') # (''planRevisionId'', JStr p)
     # (''contests'', operational_contests_json cs) # revision_fields r"
| "tournament_action_fields (RecordActual r) = (''kind'', JStr ''RECORD_RESULT'') # result_fields_json r"
| "tournament_action_fields (CorrectActual r i) = (''kind'', JStr ''CORRECT_RESULT'') # (''supersedesEventId'', JStr i) # result_fields_json r"
| "tournament_action_fields (VoidActual c i reason) = (''kind'', JStr ''VOID_RESULT'') # void_fields c i reason"

fun tournament_data_fields :: "tournament_data \<Rightarrow> (string \<times> jsval) list" where
  "tournament_data_fields (DefinitionRegistered r) = (''kind'', JStr ''DEFINITION_REGISTERED'') # revision_fields r"
| "tournament_data_fields (PlanActivated r d) = (''kind'', JStr ''PLAN_ACTIVATED'') # (''definitionRevisionId'', JStr d) # revision_fields r"
| "tournament_data_fields (OperationalActivated r p cs) = (''kind'', JStr ''OPERATIONAL_ACTIVATED'') # (''planRevisionId'', JStr p)
     # (''contests'', operational_contests_json cs) # revision_fields r"
| "tournament_data_fields (ActualRecorded r) = (''kind'', JStr ''RESULT_RECORDED'') # result_fields_json r"
| "tournament_data_fields (ActualCorrected r i) = (''kind'', JStr ''RESULT_CORRECTED'') # (''supersedesEventId'', JStr i) # result_fields_json r"
| "tournament_data_fields (ActualVoided c i reason) = (''kind'', JStr ''RESULT_VOIDED'') # void_fields c i reason"

text \<open>\<^verbatim>\<open>idempotentCommand\<close>, and \<^verbatim>\<open>base\<close> of an event, which gains the identifier and the hash.\<close>

definition idempotent_command_json :: "tournament_command \<Rightarrow> jsval" where
  "idempotent_command_json c = JObj ([(''commandId'', JStr (tk_id c)), (''actorId'', JStr (tk_actor c)), (''recordedAt'', JStr (tk_at c))]
     @ tournament_action_fields (tk_action c))"

definition tournament_event_fields :: "tournament_event \<Rightarrow> (string \<times> jsval) list" where
  "tournament_event_fields e = [(''tournamentId'', JStr (tv_tournament e)), (''sequence'', jint (tv_sequence e)),
     (''previousEventHash'', string_or_null (tv_previous e)), (''commandId'', JStr (tv_command e)), (''commandFingerprint'', JStr (tv_fingerprint e)),
     (''actorId'', JStr (tv_actor e)), (''recordedAt'', JStr (tv_at e))] @ tournament_data_fields (tv_data e)"

definition tournament_event_base :: "tournament_event \<Rightarrow> jsval" where
  "tournament_event_base e = JObj (tournament_event_fields e)"

definition tournament_event_json :: "tournament_event \<Rightarrow> jsval" where
  "tournament_event_json e = JObj (tournament_event_fields e @ [(''eventId'', JStr (tv_id e))])"

definition revision_record_fields :: "'r revision_record_scheme \<Rightarrow> (string \<times> jsval) list" where
  "revision_record_fields r = [(''revisionId'', JStr (rv_id r)), (''revision'', jint (rv_number r)), (''artifactHash'', JStr (rv_hash r)),
     (''activatedByEventId'', JStr (rv_event r))]"

definition plan_record_fields :: "plan_record \<Rightarrow> (string \<times> jsval) list" where
  "plan_record_fields r = revision_record_fields r @ [(''definitionRevisionId'', JStr (rv_definition r))]"

definition operational_record_fields :: "operational_record \<Rightarrow> (string \<times> jsval) list" where
  "operational_record_fields r = revision_record_fields r @ [(''planRevisionId'', JStr (rv_plan r)), (''contests'', operational_contests_json (rv_contests r))]"

definition layer_json :: "('r \<Rightarrow> (string \<times> jsval) list) \<Rightarrow> 'r layer \<Rightarrow> jsval" where
  "layer_json f l = JObj [(''revisions'', JArr (map (\<lambda>r. JObj (f r)) (ly_revisions l))), (''activeRevisionId'', string_or_null (ly_active l))]"

definition actual_result_json :: "actual_result \<Rightarrow> jsval" where
  "actual_result_json r = JObj [(''eventId'', JStr (ac_event r)), (''contestId'', JStr (ac_contest r)),
     (''status'', JStr (if ac_status r = ActualStands then ''RECORDED'' else ''VOIDED'')), (''entrantIds'', strs (ac_entrants r)),
     (''winnerId'', string_or_null (ac_winner r)), (''score'', optional_json (\<lambda>xs. JArr (map JNum xs)) (ac_score r)),
     (''supersedesEventId'', string_or_null (ac_supersedes r)), (''reason'', JStr (ac_reason r))]"

fun phase_name :: "tournament_phase \<Rightarrow> string" where
  "phase_name EmptyPhase = ''EMPTY''"
| "phase_name DefinitionPhase = ''DEFINITION''"
| "phase_name PlanPhase = ''PLAN''"
| "phase_name OperationalPhase = ''OPERATIONAL''"
| "phase_name ActualPhase = ''ACTUAL''"

definition tournament_state_json :: "tournament_state \<Rightarrow> jsval" where
  "tournament_state_json s = JObj [(''tournamentId'', JStr (tm_id s)), (''phase'', JStr (phase_name (tm_phase s))), (''version'', jint (tm_version s)),
     (''lastEventHash'', string_or_null (tm_last s)), (''processedCommandIds'', strs (tm_commands s)),
     (''commandFingerprints'', dict_json JStr (tm_fingerprints s)),
     (''definition'', layer_json revision_record_fields (tm_definition s)), (''plan'', layer_json plan_record_fields (tm_plan s)),
     (''operational'', layer_json operational_record_fields (tm_operational s)),
     (''actual'', JObj [(''effectiveResults'', dict_json actual_result_json (tm_effective s)), (''history'', JArr (map actual_result_json (tm_history s)))])]"

section \<open>Firewall\<close>

fun json_message :: "json_error \<Rightarrow> string" where
  "json_message NonFiniteNumber = ''Canonical JSON rejects non-finite numbers''"
| "json_message (UndefinedAt k) = ''Canonical JSON rejects undefined at '' @ k"
| "json_message (Rejects t) = ''Canonical JSON rejects '' @ t"

fun finding_from :: "firewall_error \<Rightarrow> tournament_finding" where
  "finding_from (Firewall code msg evidence) = \<lparr>tf_code = code, tf_path = ''/tournamentState'', tf_message = msg, tf_evidence = evidence\<rparr>"
| "finding_from (OtherError msg) = \<lparr>tf_code = ''TOS500'', tf_path = ''/tournamentState'', tf_message = msg, tf_evidence = None\<rparr>"

definition tournament_hash :: "platform \<Rightarrow> jsval \<Rightarrow> (firewall_error, string) result" where
  "tournament_hash P v = map_sum (\<lambda>e. OtherError (json_message e)) id (canonical_hash P v)"

text \<open>\<^verbatim>\<open>if (condition) fail(...)\<close>\<close>

definition firewall :: "bool \<Rightarrow> string \<Rightarrow> string \<Rightarrow> (string \<times> jsval) list \<Rightarrow> (firewall_error, unit) result" where
  "firewall bad code msg evidence = (if bad then Inl (Firewall code msg (Some (JObj evidence))) else Inr ())"

definition core_state :: "platform \<Rightarrow> tournament_state \<Rightarrow> (firewall_error, tournament_state) result" where
  "core_state P s = bind_result (tournament_hash P (tournament_state_json s)) (\<lambda>h. Inr (s\<lparr>tm_proof := h\<rparr>))"

definition no_layer :: "'r layer" where
  "no_layer = \<lparr>ly_revisions = [], ly_active = None\<rparr>"

definition empty_tournament :: "string \<Rightarrow> tournament_state" where
  "empty_tournament i = \<lparr>tm_id = i, tm_phase = EmptyPhase, tm_version = 0, tm_last = None, tm_commands = [], tm_fingerprints = [],
     tm_definition = no_layer, tm_plan = no_layer, tm_operational = no_layer, tm_effective = [], tm_history = [], tm_proof = []\<rparr>"

definition create_tournament_state :: "platform \<Rightarrow> string \<Rightarrow> (firewall_error, tournament_state) result" where
  "create_tournament_state P i = (if blank i then Inl (OtherError ''Tournament id is required.'') else core_state P (empty_tournament i))"

definition event_id_of :: "string \<Rightarrow> string" where
  "event_id_of h = ''evt_'' @ take 24 h"

definition verify_event_envelope :: "platform \<Rightarrow> tournament_state \<Rightarrow> tournament_event \<Rightarrow> (firewall_error, unit) result" where
  "verify_event_envelope P s e =
     bind_result (firewall (tv_tournament e \<noteq> tm_id s) ''TOS401'' ''Invariant firewall rejected an event for a different tournament aggregate.''
       [(''expectedTournamentId'', JStr (tm_id s)), (''actualTournamentId'', JStr (tv_tournament e))]) (\<lambda>_.
     bind_result (firewall (tv_sequence e \<noteq> tm_version s + 1 \<or> tv_previous e \<noteq> tm_last s) ''TOS401''
       ''Invariant firewall rejected a broken event sequence or hash-chain link.''
       [(''expectedSequence'', jint (tm_version s + 1)), (''actualSequence'', jint (tv_sequence e)),
        (''expectedPreviousEventHash'', string_or_null (tm_last s)), (''actualPreviousEventHash'', string_or_null (tv_previous e))]) (\<lambda>_.
     bind_result (tournament_hash P (tournament_event_base e)) (\<lambda>b.
     bind_result (if tv_id e \<noteq> event_id_of b then Inr False else bind_result (tournament_hash P (tournament_event_json e)) (\<lambda>h. Inr (tv_hash e = h))) (\<lambda>ok.
     bind_result (firewall (\<not> ok) ''TOS402'' ''Invariant firewall rejected event content that does not match its deterministic identity or proof hash.''
       [(''eventId'', JStr (tv_id e))]) (\<lambda>_.
     bind_result (firewall (List.member (tm_commands s) (tv_command e)) ''TOS409'' ''Invariant firewall rejected a repeated command event.''
       [(''commandId'', JStr (tv_command e))]) (\<lambda>_.
     if blank (tv_actor e) \<or> blank (tv_command e) \<or> \<not> is_digest (tv_fingerprint e) \<or> date_parse P (tv_at e) = None
     then Inl (Firewall ''TOS400'' ''Event audit metadata is incomplete or invalid.'' None) else Inr ()))))))"

text \<open>The next revision of a layer: its number.\<close>

definition next_revision :: "'r revision_record_scheme list \<Rightarrow> int" where
  "next_revision rs = (if rs = [] then 0 else rv_number (last rs)) + 1"

definition validate_revision :: "'r revision_record_scheme list \<Rightarrow> revision_command \<Rightarrow> (firewall_error, int) result" where
  "validate_revision rs c =
     (let named = [(''revisionId'', JStr (rn_id c)), (''revision'', JNum (rn_number c))]
      in case (if blank (rn_id c) \<or> \<not> is_digest (rn_hash c) then None else js_integer (rn_number c)) of
        None \<Rightarrow> Inl (Firewall ''TOS410'' ''Revision identity, number, and artifact hash must be explicit and valid.'' (Some (JObj named)))
      | Some n \<Rightarrow>
          bind_result (firewall (n \<le> 0) ''TOS410'' ''Revision identity, number, and artifact hash must be explicit and valid.'' named) (\<lambda>_.
          bind_result (firewall (list_ex (\<lambda>r. rv_id r = rn_id c \<or> rv_number r = n) rs) ''TOS411''
            ''Activated revisions are immutable and their ids and numbers cannot be reused.'' named) (\<lambda>_.
          bind_result (firewall (n \<noteq> next_revision rs) ''TOS412'' ''Revision numbers must be contiguous.''
            [(''expectedRevision'', jint (next_revision rs)), (''actualRevision'', JNum (rn_number c))]) (\<lambda>_. Inr n))))"

definition contest_shape_ok :: "operational_contest \<Rightarrow> bool" where
  "contest_shape_ok c = (\<not> blank (oc_id c) \<and> (case oc_entrants c of [l, r] \<Rightarrow> \<not> blank l \<and> \<not> blank r \<and> l \<noteq> r | _ \<Rightarrow> False))"

definition repeated_ids :: "string list \<Rightarrow> string list" where
  "repeated_ids ids = sort (js_unique (map snd (filter (\<lambda>(i, x). index_of x ids \<noteq> Some i) (enumerate 0 ids))))"

definition validate_operational_contests :: "platform \<Rightarrow> operational_contest list \<Rightarrow> (firewall_error, operational_contest list) result" where
  "validate_operational_contests P cs =
     (let duplicates = repeated_ids (map oc_id cs)
      in bind_result (firewall (cs = [] \<or> duplicates \<noteq> []) ''TOS420'' ''An operational revision needs unique registered contests.''
           [(''contestCount'', jnat (length cs)), (''duplicateContestIds'', strs duplicates)]) (\<lambda>_.
         case List.find (\<lambda>c. \<not> contest_shape_ok c) cs of
           Some c \<Rightarrow> Inl (Firewall ''TOS420'' ''Operational contest entrants must be two distinct registered identities.''
             (Some (JObj [(''contestId'', JStr (oc_id c)), (''entrantIds'', strs (oc_entrants c))])))
         | None \<Rightarrow> Inr (sort_by (\<lambda>a b. locale_compare P (oc_id a) (oc_id b)) cs)))"

definition active_operational :: "tournament_state \<Rightarrow> operational_record option" where
  "active_operational s = List.find (\<lambda>r. Some (rv_id r) = ly_active (tm_operational s)) (ly_revisions (tm_operational s))"

definition find_contest :: "operational_contest list \<Rightarrow> string \<Rightarrow> operational_contest option" where
  "find_contest cs i = List.find (\<lambda>c. oc_id c = i) cs"

definition registered_contest :: "tournament_state \<Rightarrow> string \<Rightarrow> (firewall_error, operational_contest) result" where
  "registered_contest s i = (case (case active_operational s of None \<Rightarrow> None | Some r \<Rightarrow> find_contest (rv_contests r) i) of
     Some c \<Rightarrow> Inr c
   | None \<Rightarrow> Inl (Firewall ''TOS421'' ''Actual truth can only target a contest in the active operational revision.'' (Some (JObj [(''contestId'', JStr i)]))))"

definition same_entrants :: "string list \<Rightarrow> string list \<Rightarrow> bool" where
  "same_entrants left right = (join ''|'' (sort left) = join ''|'' (sort right))"

definition valid_score :: "jsnum list \<Rightarrow> bool" where
  "valid_score xs = (length xs = 2 \<and> list_all (\<lambda>x. case js_finite x of None \<Rightarrow> False | Some r \<Rightarrow> 0 \<le> r) xs)"

definition validate_result_command :: "tournament_state \<Rightarrow> result_command \<Rightarrow> (firewall_error, unit) result" where
  "validate_result_command s r =
     bind_result (registered_contest s (rz_contest r)) (\<lambda>c.
     bind_result (firewall (\<not> same_entrants (oc_entrants c) (rz_entrants r) \<or> \<not> List.member (rz_entrants r) (rz_winner r)
          \<or> nth_option (rz_entrants r) 0 = nth_option (rz_entrants r) 1)
       ''TOS430'' ''Result entrants and winner must match active operational truth.''
       [(''contestId'', JStr (rz_contest r)), (''registeredEntrantIds'', strs (oc_entrants c)), (''suppliedEntrantIds'', strs (rz_entrants r)),
        (''winnerId'', JStr (rz_winner r))]) (\<lambda>_.
     firewall (\<not> valid_score (rz_score r) \<or> blank (rz_reason r)) ''TOS430'' ''Result score and audit reason are invalid.''
       [(''contestId'', JStr (rz_contest r)), (''score'', JArr (map JNum (rz_score r)))]))"

definition live_id :: "string option \<Rightarrow> bool" where
  "live_id i = (i \<noteq> None \<and> i \<noteq> Some [])"

definition phase_for :: "tournament_state \<Rightarrow> tournament_phase" where
  "phase_for s = (if tm_history s \<noteq> [] then ActualPhase else if live_id (ly_active (tm_operational s)) then OperationalPhase
     else if live_id (ly_active (tm_plan s)) then PlanPhase else if live_id (ly_active (tm_definition s)) then DefinitionPhase else EmptyPhase)"

section \<open>Evolution\<close>

text \<open>A layer with one more revision, which becomes the active one.\<close>

definition activate :: "'r revision_record_scheme \<Rightarrow> 'r revision_record_scheme layer \<Rightarrow> 'r revision_record_scheme layer" where
  "activate r l = \<lparr>ly_revisions = ly_revisions l @ [r], ly_active = Some (rv_id r)\<rparr>"

definition apply_definition :: "tournament_state \<Rightarrow> string \<Rightarrow> revision_command \<Rightarrow> (firewall_error, tournament_state) result" where
  "apply_definition s eid c = bind_result (validate_revision (ly_revisions (tm_definition s)) c) (\<lambda>n.
     Inr (s\<lparr>tm_definition := activate \<lparr>rv_id = rn_id c, rv_number = n, rv_hash = rn_hash c, rv_event = eid\<rparr> (tm_definition s)\<rparr>))"

definition apply_plan :: "tournament_state \<Rightarrow> string \<Rightarrow> revision_command \<Rightarrow> string \<Rightarrow> (firewall_error, tournament_state) result" where
  "apply_plan s eid c d = bind_result (validate_revision (ly_revisions (tm_plan s)) c) (\<lambda>n.
     bind_result (firewall (ly_active (tm_definition s) \<noteq> Some d) ''TOS413'' ''A plan must activate against the current definition revision.''
       [(''activeDefinitionRevisionId'', string_or_null (ly_active (tm_definition s))), (''suppliedDefinitionRevisionId'', JStr d)]) (\<lambda>_.
     Inr (s\<lparr>tm_plan := activate \<lparr>rv_id = rn_id c, rv_number = n, rv_hash = rn_hash c, rv_event = eid, rv_definition = d\<rparr> (tm_plan s)\<rparr>)))"

definition survives :: "operational_contest list \<Rightarrow> actual_result \<Rightarrow> bool" where
  "survives cs r = (case find_contest cs (ac_contest r) of None \<Rightarrow> False | Some c \<Rightarrow> same_entrants (oc_entrants c) (ac_entrants r))"

definition apply_operational :: "platform \<Rightarrow> tournament_state \<Rightarrow> string \<Rightarrow> revision_command \<Rightarrow> string \<Rightarrow> operational_contest list
    \<Rightarrow> (firewall_error, tournament_state) result" where
  "apply_operational P s eid c p contests = bind_result (validate_revision (ly_revisions (tm_operational s)) c) (\<lambda>n.
     bind_result (firewall (ly_active (tm_plan s) \<noteq> Some p) ''TOS414'' ''Operational truth must activate against the current approved plan.''
       [(''activePlanRevisionId'', string_or_null (ly_active (tm_plan s))), (''suppliedPlanRevisionId'', JStr p)]) (\<lambda>_.
     bind_result (validate_operational_contests P contests) (\<lambda>cs.
     case List.find (\<lambda>r. \<not> survives cs r) (map snd (own_order (tm_effective s))) of
       Some r \<Rightarrow> Inl (Firewall ''TOS422'' ''A new operational revision cannot invalidate existing actual truth.'' (Some (JObj [(''contestId'', JStr (ac_contest r))])))
     | None \<Rightarrow> Inr (s\<lparr>tm_operational := activate \<lparr>rv_id = rn_id c, rv_number = n, rv_hash = rn_hash c, rv_event = eid, rv_plan = p, rv_contests = cs\<rparr>
         (tm_operational s)\<rparr>))))"

text \<open>A name that \<^verbatim>\<open>Object.prototype\<close> defines reads as a truthy value without the fields of a result.\<close>

definition blocked :: "tournament_state \<Rightarrow> string \<Rightarrow> bool" where
  "blocked s c = (omap_get (tm_effective s) c = None \<and> List.member inherited_names c)"

definition put_result :: "actual_result \<Rightarrow> tournament_state \<Rightarrow> tournament_state" where
  "put_result r s = s\<lparr>tm_effective := omap_set (ac_contest r) r (tm_effective s), tm_history := tm_history s @ [r]\<rparr>"

definition standing_result :: "string \<Rightarrow> result_command \<Rightarrow> string option \<Rightarrow> actual_result" where
  "standing_result eid r old = \<lparr>ac_event = eid, ac_contest = rz_contest r, ac_status = ActualStands, ac_entrants = rz_entrants r,
     ac_winner = Some (rz_winner r), ac_score = Some (rz_score r), ac_supersedes = old, ac_reason = rz_reason r\<rparr>"

definition apply_recorded :: "tournament_state \<Rightarrow> string \<Rightarrow> result_command \<Rightarrow> (firewall_error, tournament_state) result" where
  "apply_recorded s eid r = bind_result (validate_result_command s r) (\<lambda>_.
     let current = omap_get (tm_effective s) (rz_contest r)
     in bind_result (firewall (current \<noteq> None \<or> blocked s (rz_contest r)) ''TOS431''
          ''Existing actual truth cannot be overwritten; issue a linked correction or void.''
          [(''contestId'', JStr (rz_contest r)), (''currentEventId'', case current of None \<Rightarrow> JUndef | Some x \<Rightarrow> JStr (ac_event x))]) (\<lambda>_.
        Inr (put_result (standing_result eid r None) s)))"

definition supersedes_current :: "tournament_state \<Rightarrow> string \<Rightarrow> string \<Rightarrow> bool" where
  "supersedes_current s c i = (case omap_get (tm_effective s) c of None \<Rightarrow> False | Some x \<Rightarrow> ac_status x = ActualStands \<and> ac_event x = i)"

definition superseded_evidence :: "tournament_state \<Rightarrow> string \<Rightarrow> string \<Rightarrow> (string \<times> jsval) list" where
  "superseded_evidence s c i = [(''contestId'', JStr c), (''currentEventId'', string_or_null (map_option ac_event (omap_get (tm_effective s) c))),
     (''suppliedSupersedesEventId'', JStr i)]"

definition apply_corrected :: "tournament_state \<Rightarrow> string \<Rightarrow> result_command \<Rightarrow> string \<Rightarrow> (firewall_error, tournament_state) result" where
  "apply_corrected s eid r i = bind_result (validate_result_command s r) (\<lambda>_.
     bind_result (firewall (\<not> supersedes_current s (rz_contest r) i) ''TOS432'' ''A correction must supersede the current recorded result.''
       (superseded_evidence s (rz_contest r) i)) (\<lambda>_.
     Inr (put_result (standing_result eid r (Some i)) s)))"

definition apply_voided :: "tournament_state \<Rightarrow> string \<Rightarrow> string \<Rightarrow> string \<Rightarrow> string \<Rightarrow> (firewall_error, tournament_state) result" where
  "apply_voided s eid c i reason = bind_result (registered_contest s c) (\<lambda>k.
     bind_result (firewall (blank reason \<or> \<not> supersedes_current s c i) ''TOS433'' ''A void must supersede the current recorded result and include a reason.''
       (superseded_evidence s c i)) (\<lambda>_.
     Inr (put_result \<lparr>ac_event = eid, ac_contest = c, ac_status = ActualVoid, ac_entrants = oc_entrants k, ac_winner = None, ac_score = None,
       ac_supersedes = Some i, ac_reason = reason\<rparr> s)))"

fun apply_tournament_data :: "platform \<Rightarrow> tournament_state \<Rightarrow> string \<Rightarrow> tournament_data \<Rightarrow> (firewall_error, tournament_state) result" where
  "apply_tournament_data P s eid (DefinitionRegistered c) = apply_definition s eid c"
| "apply_tournament_data P s eid (PlanActivated c d) = apply_plan s eid c d"
| "apply_tournament_data P s eid (OperationalActivated c p cs) = apply_operational P s eid c p cs"
| "apply_tournament_data P s eid (ActualRecorded r) = apply_recorded s eid r"
| "apply_tournament_data P s eid (ActualCorrected r i) = apply_corrected s eid r i"
| "apply_tournament_data P s eid (ActualVoided c i reason) = apply_voided s eid c i reason"

definition evolve_tournament_state :: "platform \<Rightarrow> tournament_state \<Rightarrow> tournament_event \<Rightarrow> (firewall_error, tournament_state) result" where
  "evolve_tournament_state P s e =
     bind_result (verify_event_envelope P s e) (\<lambda>_.
     bind_result (apply_tournament_data P s (tv_id e) (tv_data e)) (\<lambda>t.
     core_state P (t\<lparr>tm_phase := phase_for t, tm_version := tv_sequence e, tm_last := Some (tv_hash e), tm_commands := tm_commands s @ [tv_command e],
       tm_fingerprints := omap_set (tv_command e) (tv_fingerprint e) (tm_fingerprints s)\<rparr>)))"

section \<open>Decisions\<close>

fun event_data_for :: "tournament_action \<Rightarrow> tournament_data" where
  "event_data_for (RegisterDefinition c) = DefinitionRegistered c"
| "event_data_for (ActivatePlan c d) = PlanActivated c d"
| "event_data_for (ActivateOperational c p cs) = OperationalActivated c p cs"
| "event_data_for (RecordActual r) = ActualRecorded r"
| "event_data_for (CorrectActual r i) = ActualCorrected r i"
| "event_data_for (VoidActual c i reason) = ActualVoided c i reason"

definition make_event :: "platform \<Rightarrow> tournament_state \<Rightarrow> tournament_command \<Rightarrow> (firewall_error, tournament_event) result" where
  "make_event P s c = bind_result (tournament_hash P (idempotent_command_json c)) (\<lambda>fp.
     let e = \<lparr>tv_tournament = tm_id s, tv_id = [], tv_hash = [], tv_previous = tm_last s, tv_sequence = tm_version s + 1, tv_command = tk_id c,
       tv_fingerprint = fp, tv_actor = tk_actor c, tv_at = tk_at c, tv_data = event_data_for (tk_action c)\<rparr>
     in bind_result (tournament_hash P (tournament_event_base e)) (\<lambda>b.
        bind_result (tournament_hash P (tournament_event_json (e\<lparr>tv_id := event_id_of b\<rparr>))) (\<lambda>h.
        Inr (e\<lparr>tv_id := event_id_of b, tv_hash := h\<rparr>))))"

definition refuse_command :: "tournament_finding list \<Rightarrow> tournament_decision" where
  "refuse_command fs = \<lparr>td_accepted = False, td_events = [], td_findings = fs\<rparr>"

definition command_meta_findings :: "platform \<Rightarrow> tournament_state \<Rightarrow> tournament_command \<Rightarrow> tournament_finding list" where
  "command_meta_findings P s c =
     (if js_finite (tk_expected c) \<noteq> Some (of_int (tm_version s))
      then [\<lparr>tf_code = ''TOS409'', tf_path = ''/tournamentState/version'', tf_message = ''Optimistic concurrency version does not match.'',
             tf_evidence = Some (JObj [(''expectedVersion'', JNum (tk_expected c)), (''actualVersion'', jint (tm_version s))])\<rparr>] else [])
   @ (if blank (tk_id c) \<or> blank (tk_actor c) \<or> date_parse P (tk_at c) = None
      then [\<lparr>tf_code = ''TOS400'', tf_path = ''/tournamentState/command'', tf_message = ''Command audit metadata is incomplete or invalid.'', tf_evidence = None\<rparr>] else [])"

definition decide_tournament_command :: "platform \<Rightarrow> tournament_state \<Rightarrow> tournament_command \<Rightarrow> (json_error, tournament_decision) result" where
  "decide_tournament_command P s c = bind_result (canonical_hash P (idempotent_command_json c)) (\<lambda>fp.
     Inr (if List.member (tm_commands s) (tk_id c)
          then if omap_get (tm_fingerprints s) (tk_id c) = Some fp then \<lparr>td_accepted = True, td_events = [], td_findings = []\<rparr>
               else refuse_command [\<lparr>tf_code = ''TOS409'', tf_path = ''/tournamentState/commandId'', tf_message = ''Command id was already used for different content.'',
                      tf_evidence = Some (JObj [(''commandId'', JStr (tk_id c))])\<rparr>]
          else if command_meta_findings P s c \<noteq> [] then refuse_command (command_meta_findings P s c)
          else (case bind_result (make_event P s c) (\<lambda>e. bind_result (evolve_tournament_state P s e) (\<lambda>t. Inr e)) of
              Inr e \<Rightarrow> \<lparr>td_accepted = True, td_events = [e], td_findings = []\<rparr>
            | Inl x \<Rightarrow> refuse_command [finding_from x])))"

section \<open>Replay\<close>

text \<open>The state before the first event that is rejected, and the exception.\<close>

fun replay_from :: "platform \<Rightarrow> tournament_state \<Rightarrow> tournament_event list \<Rightarrow> tournament_state \<times> firewall_error option" where
  "replay_from P s [] = (s, None)"
| "replay_from P s (e # es) = (case evolve_tournament_state P s e of Inl x \<Rightarrow> (s, Some x) | Inr t \<Rightarrow> replay_from P t es)"

definition replay_tournament_events :: "platform \<Rightarrow> string \<Rightarrow> tournament_event list \<Rightarrow> (firewall_error, tournament_replay) result" where
  "replay_tournament_events P i es = bind_result (create_tournament_state P i) (\<lambda>s0.
     Inr (case replay_from P s0 es of
        (s, None) \<Rightarrow> \<lparr>ty_valid = True, ty_state = s, ty_findings = []\<rparr>
      | (s, Some x) \<Rightarrow> \<lparr>ty_valid = False, ty_state = s, ty_findings = [finding_from x]\<rparr>))"

end
