(* ===== verification/TournamentProofs.thy ===== *)
theory TournamentProofs
  imports TournamentState HashFacts "HOL-Library.Sublist"
begin

text \<open>
  The correctness of packages/competition-engine/src/tournament-state.ts.

  \<^item> \<open>tournament_sound\<close>: what every state that a log replays to satisfies: layers of contiguous immutable revisions, results grounded in
    the active operational revision, a lineage of corrections and voids.
  \<^item> \<open>later\<close>: what an event cannot take away from a state.
  \<^item> \<open>allowed\<close>: which commands are accepted, without events, envelopes and hashes.
\<close>

section \<open>Results\<close>

lemma firewall_Inr [simp]: "firewall bad code msg ev = Inr u \<longleftrightarrow> \<not> bad"
  by (simp add: firewall_def)

lemma tournament_hash_Inr: "tournament_hash P v = Inr h \<longleftrightarrow> canonical_hash P v = Inr h"
  by (cases "canonical_hash P v") (simp_all add: tournament_hash_def)

lemma tournament_hash_ok: "hashes v \<Longrightarrow> \<exists>h. tournament_hash P v = Inr h"
  using hash_of by (simp add: tournament_hash_Inr)

lemma core_state_Inr: "core_state P s = Inr t \<longleftrightarrow> (\<exists>h. canonical_hash P (tournament_state_json s) = Inr h \<and> t = s\<lparr>tm_proof := h\<rparr>)"
  by (auto simp: core_state_def bind_result_Inr_iff tournament_hash_Inr)

text \<open>The result of a contest that is in force: the last one of the history.\<close>

definition latest :: "actual_result list \<Rightarrow> string \<Rightarrow> actual_result option" where
  "latest h c = List.find (\<lambda>r. ac_contest r = c) (rev h)"

lemma latest_Nil [simp]: "latest [] c = None"
  by (simp add: latest_def)

lemma latest_snoc [simp]: "latest (h @ [r]) c = (if ac_contest r = c then Some r else latest h c)"
  by (simp add: latest_def)

lemma latest_member: "latest h c = Some r \<Longrightarrow> r \<in> set h \<and> ac_contest r = c"
  by (auto simp: latest_def find_Some_iff) (metis length_rev nth_mem set_rev)

text \<open>A result is the first of its contest, or it supersedes the one that stands.\<close>

definition follows_truth :: "actual_result list \<Rightarrow> actual_result \<Rightarrow> bool" where
  "follows_truth h r = (case ac_supersedes r of
     None \<Rightarrow> latest h (ac_contest r) = None \<and> ac_status r = ActualStands
   | Some i \<Rightarrow> \<exists>x. latest h (ac_contest r) = Some x \<and> ac_status x = ActualStands \<and> ac_event x = i)"

definition lineage :: "actual_result list \<Rightarrow> bool" where
  "lineage h \<longleftrightarrow> (\<forall>i < length h. follows_truth (take i h) (h ! i))"

lemma lineage_Nil [simp]: "lineage []"
  by (simp add: lineage_def)

lemma results_lineage_snoc [simp]: "lineage (h @ [r]) \<longleftrightarrow> lineage h \<and> follows_truth h r"
  by (auto simp: lineage_def nth_append less_Suc_eq)

text \<open>A result that stands names a winner among its entrants and a score; a void names neither.\<close>

definition result_ok :: "actual_result \<Rightarrow> bool" where
  "result_ok r = (case ac_status r of
     ActualStands \<Rightarrow> (\<exists>w xs. ac_winner r = Some w \<and> w \<in> set (ac_entrants r) \<and> ac_score r = Some xs \<and> valid_score xs)
   | ActualVoid \<Rightarrow> ac_winner r = None \<and> ac_score r = None \<and> ac_supersedes r \<noteq> None)"

section \<open>Layers\<close>

definition layer_ok :: "'r revision_record_scheme layer \<Rightarrow> bool" where
  "layer_ok l = (map rv_number (ly_revisions l) = map int [1..<length (ly_revisions l) + 1] \<and> distinct (map rv_id (ly_revisions l))
     \<and> (\<forall>r \<in> set (ly_revisions l). \<not> blank (rv_id r) \<and> is_digest (rv_hash r))
     \<and> ly_active l = (if ly_revisions l = [] then None else Some (rv_id (last (ly_revisions l)))))"

lemma layer_ok_none [simp]: "layer_ok no_layer"
  by (simp add: layer_ok_def no_layer_def)

lemma next_revision_ok:
  assumes "layer_ok l"
  shows "next_revision (ly_revisions l) = int (length (ly_revisions l)) + 1"
proof (cases "ly_revisions l" rule: rev_cases)
  case (snoc rs r)
  then have "map rv_number rs @ [rv_number r] = map int [1..<length rs + 1] @ [int (length rs + 1)]" using assms by (simp add: layer_ok_def)
  then show ?thesis by (simp add: snoc next_revision_def)
qed (simp add: next_revision_def)

text \<open>What a revision must be to follow those of a layer.\<close>

definition revision_allowed :: "'r revision_record_scheme list \<Rightarrow> revision_command \<Rightarrow> bool" where
  "revision_allowed rs c = (\<not> blank (rn_id c) \<and> is_digest (rn_hash c) \<and> rn_id c \<notin> rv_id ` set rs \<and> js_integer (rn_number c) = Some (int (length rs) + 1))"

lemma validate_revision_Inr:
  assumes "layer_ok l"
  shows "validate_revision (ly_revisions l) c = Inr n \<longleftrightarrow> revision_allowed (ly_revisions l) c \<and> n = int (length (ly_revisions l)) + 1"
proof -
  have numbers: "rv_number ` set (ly_revisions l) = int ` {1..<length (ly_revisions l) + 1}"
  proof -
    have "map rv_number (ly_revisions l) = map int [1..<length (ly_revisions l) + 1]" using assms by (simp only: layer_ok_def)
    then have "set (map rv_number (ly_revisions l)) = set (map int [1..<length (ly_revisions l) + 1])" by (rule arg_cong)
    then show ?thesis by (simp only: set_map set_upt)
  qed
  then have fresh: "rv_number r \<noteq> int (length (ly_revisions l)) + 1" if "r \<in> set (ly_revisions l)" for r using that by force
  show ?thesis
    by (auto simp: validate_revision_def revision_allowed_def Let_def next_revision_ok [OF assms] bind_result_Inr_iff list_ex_iff
        dest: fresh intro: rev_image_eqI split: option.splits if_splits)
qed

lemma layer_ok_activate:
  assumes "layer_ok l" "revision_allowed (ly_revisions l) c" "rv_id r = rn_id c" "rv_number r = int (length (ly_revisions l)) + 1" "rv_hash r = rn_hash c"
  shows "layer_ok (activate r l)"
  using assms by (auto simp: layer_ok_def activate_def revision_allowed_def)

section \<open>Contests of an operational revision\<close>

lemma index_of_first: "i < length xs \<Longrightarrow> index_of (xs ! i) xs = Some i \<longleftrightarrow> xs ! i \<notin> set (take i xs)"
proof (induction xs arbitrary: i)
  case (Cons x xs)
  then show ?case by (cases i) auto
qed simp

lemma distinct_take_iff: "distinct xs \<longleftrightarrow> (\<forall>i < length xs. xs ! i \<notin> set (take i xs))"
proof (induction xs rule: rev_induct)
  case (snoc x xs)
  then show ?case by (auto simp: nth_append less_Suc_eq)
qed simp

lemma repeated_ids_Nil: "repeated_ids ids = [] \<longleftrightarrow> distinct ids"
proof -
  have "repeated_ids ids = [] \<longleftrightarrow> set (repeated_ids ids) = {}" by simp
  also have "\<dots> \<longleftrightarrow> (\<forall>i < length ids. index_of (ids ! i) ids = Some i)"
    by (auto simp: repeated_ids_def in_set_enumerate_eq image_iff)
  finally show ?thesis by (simp add: index_of_first distinct_take_iff)
qed

definition contests_ok :: "operational_contest list \<Rightarrow> bool" where
  "contests_ok cs \<longleftrightarrow> cs \<noteq> [] \<and> distinct (map oc_id cs) \<and> (\<forall>c \<in> set cs. contest_shape_ok c)"

lemma validate_contests_Inr:
  "validate_operational_contests P cs = Inr ds \<longleftrightarrow> contests_ok cs \<and> ds = sort_by (\<lambda>a b. locale_compare P (oc_id a) (oc_id b)) cs"
  by (auto simp: validate_operational_contests_def contests_ok_def Let_def bind_result_Inr_iff repeated_ids_Nil find_None_iff find_Some_iff
      split: option.splits)

lemma contests_ok_sort_by [simp]: "contests_ok (sort_by cmp cs) = contests_ok cs"
  by (simp add: contests_ok_def flip: set_empty)

lemma find_contest_Some: "distinct (map oc_id cs) \<Longrightarrow> find_contest cs i = Some c \<longleftrightarrow> c \<in> set cs \<and> oc_id c = i"
proof (induction cs)
  case (Cons a cs)
  then show ?case by (auto simp: find_contest_def)
qed (simp add: find_contest_def)

text \<open>The contest that the active operational revision registers under an identifier.\<close>

definition scheduled :: "tournament_state \<Rightarrow> string \<Rightarrow> operational_contest option" where
  "scheduled s c = (case active_operational s of None \<Rightarrow> None | Some r \<Rightarrow> find_contest (rv_contests r) c)"

lemma registered_contest_Inr: "registered_contest s c = Inr k \<longleftrightarrow> scheduled s c = Some k"
  by (auto simp: registered_contest_def scheduled_def split: option.splits)

lemma active_operational_last:
  assumes "layer_ok (tm_operational s)"
  shows "active_operational s = (if ly_revisions (tm_operational s) = [] then None else Some (last (ly_revisions (tm_operational s))))"
proof -
  have "List.find (\<lambda>r. Some (rv_id r) = Some (rv_id (last rs))) rs = Some (last rs)" if "rs \<noteq> []" "distinct (map rv_id rs)" for rs :: "operational_record list"
    using that
  proof (induction rs)
    case (Cons r rs)
    then show ?case by (cases rs) auto
  qed simp
  then show ?thesis using assms by (auto simp: active_operational_def layer_ok_def)
qed

section \<open>Which events apply\<close>

text \<open>A result matches the contest it is for.\<close>

definition result_allowed :: "tournament_state \<Rightarrow> result_command \<Rightarrow> bool" where
  "result_allowed s r \<longleftrightarrow> (\<exists>k. scheduled s (rz_contest r) = Some k \<and> same_entrants (oc_entrants k) (rz_entrants r))
     \<and> rz_winner r \<in> set (rz_entrants r) \<and> nth_option (rz_entrants r) 0 \<noteq> nth_option (rz_entrants r) 1
     \<and> valid_score (rz_score r) \<and> \<not> blank (rz_reason r)"

lemma validate_result_Inr: "validate_result_command s r = Inr u \<longleftrightarrow> result_allowed s r"
  by (auto simp: validate_result_command_def result_allowed_def bind_result_Inr_iff registered_contest_Inr)

fun allowed :: "tournament_state \<Rightarrow> tournament_data \<Rightarrow> bool" where
  "allowed s (DefinitionRegistered c) = revision_allowed (ly_revisions (tm_definition s)) c"
| "allowed s (PlanActivated c d) = (revision_allowed (ly_revisions (tm_plan s)) c \<and> ly_active (tm_definition s) = Some d)"
| "allowed s (OperationalActivated c p cs) = (revision_allowed (ly_revisions (tm_operational s)) c \<and> ly_active (tm_plan s) = Some p \<and> contests_ok cs
     \<and> (\<forall>i r. latest (tm_history s) i = Some r \<longrightarrow> (\<exists>k \<in> set cs. oc_id k = i \<and> same_entrants (oc_entrants k) (ac_entrants r))))"
| "allowed s (ActualRecorded r) = (result_allowed s r \<and> latest (tm_history s) (rz_contest r) = None \<and> rz_contest r \<notin> set inherited_names)"
| "allowed s (ActualCorrected r i) = (result_allowed s r
     \<and> (\<exists>x. latest (tm_history s) (rz_contest r) = Some x \<and> ac_status x = ActualStands \<and> ac_event x = i))"
| "allowed s (ActualVoided c i reason) = (scheduled s c \<noteq> None \<and> \<not> blank reason
     \<and> (\<exists>x. latest (tm_history s) c = Some x \<and> ac_status x = ActualStands \<and> ac_event x = i))"

text \<open>What every reachable state has, envelope aside.\<close>

definition truth_ok :: "tournament_state \<Rightarrow> bool" where
  "truth_ok s \<longleftrightarrow> layer_ok (tm_definition s) \<and> layer_ok (tm_plan s) \<and> layer_ok (tm_operational s)
     \<and> (\<forall>r \<in> set (ly_revisions (tm_plan s)). rv_definition r \<in> rv_id ` set (ly_revisions (tm_definition s)))
     \<and> (\<forall>r \<in> set (ly_revisions (tm_operational s)). rv_plan r \<in> rv_id ` set (ly_revisions (tm_plan s)) \<and> contests_ok (rv_contests r))
     \<and> omap_wf (tm_effective s) \<and> (\<forall>c. omap_get (tm_effective s) c = latest (tm_history s) c)
     \<and> lineage (tm_history s) \<and> (\<forall>r \<in> set (tm_history s). result_ok r)
     \<and> (\<forall>c r. latest (tm_history s) c = Some r \<longrightarrow> (\<exists>k. scheduled s c = Some k \<and> same_entrants (oc_entrants k) (ac_entrants r)))"

lemma effective_values:
  assumes "truth_ok s"
  shows "r \<in> snd ` set (tm_effective s) \<longleftrightarrow> latest (tm_history s) (ac_contest r) = Some r"
proof -
  have wf: "omap_wf (tm_effective s)" and get: "omap_get (tm_effective s) c = latest (tm_history s) c" for c
    using assms by (simp_all add: truth_ok_def)
  show ?thesis
  proof
    assume "r \<in> snd ` set (tm_effective s)"
    then obtain c where "(c, r) \<in> set (tm_effective s)" by force
    then have "latest (tm_history s) c = Some r" using omap_wf_in_set [OF wf] get by metis
    then show "latest (tm_history s) (ac_contest r) = Some r" using latest_member by metis
  next
    assume "latest (tm_history s) (ac_contest r) = Some r"
    then have "omap_get (tm_effective s) (ac_contest r) = Some r" by (simp add: get)
    then show "r \<in> snd ` set (tm_effective s)" by (force dest: map_of_SomeD)
  qed
qed

lemma survives_sorted:
  assumes "contests_ok cs"
  shows "survives (sort_by cmp cs) r \<longleftrightarrow> (\<exists>k \<in> set cs. oc_id k = ac_contest r \<and> same_entrants (oc_entrants k) (ac_entrants r))"
proof -
  have "distinct (map oc_id (sort_by cmp cs))" using assms by (simp add: contests_ok_def)
  from find_contest_Some [OF this] have found: "find_contest (sort_by cmp cs) i = Some k \<longleftrightarrow> k \<in> set cs \<and> oc_id k = i" for i k by simp
  have "survives (sort_by cmp cs) r \<longleftrightarrow> (\<exists>k. find_contest (sort_by cmp cs) (ac_contest r) = Some k \<and> same_entrants (oc_entrants k) (ac_entrants r))"
    by (simp add: survives_def split: option.split)
  then show ?thesis unfolding found by blast
qed

lemma all_survive:
  assumes "truth_ok s" "contests_ok cs"
  shows "List.find (\<lambda>r. \<not> survives (sort_by cmp cs) r) (map snd (own_order (tm_effective s))) = None
    \<longleftrightarrow> (\<forall>i r. latest (tm_history s) i = Some r \<longrightarrow> (\<exists>k \<in> set cs. oc_id k = i \<and> same_entrants (oc_entrants k) (ac_entrants r)))"
proof -
  have "List.find (\<lambda>r. \<not> survives (sort_by cmp cs) r) (map snd (own_order (tm_effective s))) = None
      \<longleftrightarrow> (\<forall>r \<in> snd ` set (tm_effective s). survives (sort_by cmp cs) r)"
    by (simp add: find_None_iff)
  also have "\<dots> \<longleftrightarrow> (\<forall>r. latest (tm_history s) (ac_contest r) = Some r \<longrightarrow> survives (sort_by cmp cs) r)"
    using effective_values [OF assms(1)] by metis
  also have "\<dots> \<longleftrightarrow> (\<forall>i r. latest (tm_history s) i = Some r \<longrightarrow> survives (sort_by cmp cs) r)"
    using latest_member by metis
  also have "\<dots> \<longleftrightarrow> (\<forall>i r. latest (tm_history s) i = Some r \<longrightarrow> (\<exists>k \<in> set cs. oc_id k = i \<and> same_entrants (oc_entrants k) (ac_entrants r)))"
    unfolding survives_sorted [OF assms(2)] using latest_member by metis
  finally show ?thesis .
qed

lemma supersedes_latest:
  assumes "truth_ok s"
  shows "supersedes_current s c i \<longleftrightarrow> (\<exists>x. latest (tm_history s) c = Some x \<and> ac_status x = ActualStands \<and> ac_event x = i)"
  using assms by (auto simp: supersedes_current_def truth_ok_def split: option.splits)

lemmas apply_defs = apply_definition_def apply_plan_def apply_operational_def apply_recorded_def apply_corrected_def apply_voided_def

lemma apply_allowed:
  assumes "truth_ok s"
  shows "(\<exists>t. apply_tournament_data P s eid d = Inr t) \<longleftrightarrow> allowed s d"
proof -
  have layers: "layer_ok (tm_definition s)" "layer_ok (tm_plan s)" "layer_ok (tm_operational s)"
    and get: "omap_get (tm_effective s) c = latest (tm_history s) c" for c
    using assms by (simp_all add: truth_ok_def)
  show ?thesis
  proof (cases d)
    case (OperationalActivated c p cs)
    let ?found = "List.find (\<lambda>r. \<not> survives (sort_by (\<lambda>a b. locale_compare P (oc_id a) (oc_id b)) cs) r) (map snd (own_order (tm_effective s)))"
    have "(\<exists>t. apply_tournament_data P s eid d = Inr t) \<longleftrightarrow>
        revision_allowed (ly_revisions (tm_operational s)) c \<and> ly_active (tm_plan s) = Some p \<and> contests_ok cs \<and> ?found = None"
      by (cases ?found) (auto simp: OperationalActivated apply_operational_def bind_result_Inr_iff validate_revision_Inr [OF layers(3)] validate_contests_Inr)
    then show ?thesis using all_survive [OF assms] by (auto simp: OperationalActivated)
  next
    case (ActualRecorded r)
    then show ?thesis
      by (auto simp: apply_recorded_def bind_result_Inr_iff validate_result_Inr Let_def blocked_def get)
  qed (auto simp: apply_defs bind_result_Inr_iff layers [THEN validate_revision_Inr] validate_result_Inr registered_contest_Inr supersedes_latest [OF assms])
qed

lemma scheduled_put [simp]: "scheduled (put_result r s) = scheduled s"
  by (simp add: fun_eq_iff scheduled_def active_operational_def put_result_def)

lemma truth_ok_put:
  assumes "truth_ok s" "follows_truth (tm_history s) r" "result_ok r" "scheduled s (ac_contest r) = Some k" "same_entrants (oc_entrants k) (ac_entrants r)"
  shows "truth_ok (put_result r s)"
  unfolding truth_ok_def scheduled_put
  using assms by (simp add: truth_ok_def put_result_def omap_wf_set)

lemma members_activate [simp]: "ly_revisions (activate r l) = ly_revisions l @ [r]" "ly_active (activate r l) = Some (rv_id r)"
  by (simp_all add: activate_def)

lemma active_member: "layer_ok l \<Longrightarrow> ly_active l = Some i \<Longrightarrow> i \<in> rv_id ` set (ly_revisions l)"
  by (auto simp: layer_ok_def split: if_splits)

lemma truth_ok_parts:
  assumes "truth_ok s"
  shows "layer_ok (tm_definition s)" "layer_ok (tm_plan s)" "layer_ok (tm_operational s)"
  using assms by (simp_all add: truth_ok_def)

lemma apply_sound:
  assumes "truth_ok s" "apply_tournament_data P s eid d = Inr t"
  shows "truth_ok t"
proof -
  note layers = truth_ok_parts [OF assms(1)]
  have go: "allowed s d" using apply_allowed [OF assms(1), of P eid d] assms(2) by blast
  show ?thesis
  proof (cases d)
    case (DefinitionRegistered c)
    have a: "revision_allowed (ly_revisions (tm_definition s)) c" using go by (simp add: DefinitionRegistered)
    have t: "t = s\<lparr>tm_definition := activate \<lparr>rv_id = rn_id c, rv_number = int (length (ly_revisions (tm_definition s))) + 1, rv_hash = rn_hash c, rv_event = eid\<rparr> (tm_definition s)\<rparr>"
      using assms(2) by (auto simp: DefinitionRegistered apply_definition_def bind_result_Inr_iff validate_revision_Inr [OF layers(1)])
    have "layer_ok (tm_definition t)" by (simp add: t layer_ok_activate [OF layers(1) a])
    moreover have "scheduled t = scheduled s" by (simp add: t fun_eq_iff scheduled_def active_operational_def)
    ultimately show ?thesis using assms(1) by (auto simp: truth_ok_def t)
  next
    case (PlanActivated c i)
    have a: "revision_allowed (ly_revisions (tm_plan s)) c" "ly_active (tm_definition s) = Some i" using go by (simp_all add: PlanActivated)
    have t: "t = s\<lparr>tm_plan := activate \<lparr>rv_id = rn_id c, rv_number = int (length (ly_revisions (tm_plan s))) + 1, rv_hash = rn_hash c, rv_event = eid, rv_definition = i\<rparr> (tm_plan s)\<rparr>"
      using assms(2) by (auto simp: PlanActivated apply_plan_def bind_result_Inr_iff validate_revision_Inr [OF layers(2)])
    have "layer_ok (tm_plan t)" by (simp add: t layer_ok_activate [OF layers(2) a(1)])
    moreover have "i \<in> rv_id ` set (ly_revisions (tm_definition s))" by (rule active_member [OF layers(1) a(2)])
    moreover have "scheduled t = scheduled s" by (simp add: t fun_eq_iff scheduled_def active_operational_def)
    ultimately show ?thesis using assms(1) by (auto simp: truth_ok_def t)
  next
    case (OperationalActivated c i cs)
    let ?cs = "sort_by (\<lambda>a b. locale_compare P (oc_id a) (oc_id b)) cs"
    let ?r = "\<lparr>rv_id = rn_id c, rv_number = int (length (ly_revisions (tm_operational s))) + 1, rv_hash = rn_hash c, rv_event = eid, rv_plan = i, rv_contests = ?cs\<rparr>"
    have a: "revision_allowed (ly_revisions (tm_operational s)) c" "ly_active (tm_plan s) = Some i" "contests_ok cs"
      and keeps: "\<And>x r. latest (tm_history s) x = Some r \<Longrightarrow> \<exists>k \<in> set cs. oc_id k = x \<and> same_entrants (oc_entrants k) (ac_entrants r)"
      using go by (auto simp: OperationalActivated)
    have t: "t = s\<lparr>tm_operational := activate ?r (tm_operational s)\<rparr>"
      using assms(2) by (auto simp: OperationalActivated apply_operational_def bind_result_Inr_iff validate_revision_Inr [OF layers(3)] validate_contests_Inr split: option.splits)
    have ok: "layer_ok (tm_operational t)" by (simp add: t layer_ok_activate [OF layers(3) a(1)])
    have "scheduled t x = find_contest ?cs x" for x
      by (simp add: scheduled_def active_operational_last [OF ok]) (simp add: t)
    moreover have "distinct (map oc_id ?cs)" using a(3) by (simp add: contests_ok_def)
    ultimately have "\<exists>k. scheduled t x = Some k \<and> same_entrants (oc_entrants k) (ac_entrants r)" if "latest (tm_history s) x = Some r" for x r
      using keeps [OF that] find_contest_Some [of ?cs x] by auto
    moreover have "i \<in> rv_id ` set (ly_revisions (tm_plan s))" by (rule active_member [OF layers(2) a(2)])
    ultimately show ?thesis using assms(1) a(3) ok by (auto simp: truth_ok_def t)
  next
    case (ActualRecorded r)
    have a: "result_allowed s r" "latest (tm_history s) (rz_contest r) = None" using go by (simp_all add: ActualRecorded)
    have t: "t = put_result (standing_result eid r None) s"
      using assms(2) by (auto simp: ActualRecorded apply_recorded_def bind_result_Inr_iff Let_def)
    from a(1) obtain k where "scheduled s (rz_contest r) = Some k" "same_entrants (oc_entrants k) (rz_entrants r)" by (auto simp: result_allowed_def)
    with a show ?thesis unfolding t
      by (intro truth_ok_put [OF assms(1)]) (auto simp: standing_result_def follows_truth_def result_ok_def result_allowed_def)
  next
    case (ActualCorrected r i)
    have a: "result_allowed s r" "\<exists>x. latest (tm_history s) (rz_contest r) = Some x \<and> ac_status x = ActualStands \<and> ac_event x = i"
      using go by (simp_all add: ActualCorrected)
    have t: "t = put_result (standing_result eid r (Some i)) s"
      using assms(2) by (auto simp: ActualCorrected apply_corrected_def bind_result_Inr_iff Let_def)
    from a(1) obtain k where "scheduled s (rz_contest r) = Some k" "same_entrants (oc_entrants k) (rz_entrants r)" by (auto simp: result_allowed_def)
    with a show ?thesis unfolding t
      by (intro truth_ok_put [OF assms(1)]) (auto simp: standing_result_def follows_truth_def result_ok_def result_allowed_def)
  next
    case (ActualVoided c i reason)
    have a: "\<exists>x. latest (tm_history s) c = Some x \<and> ac_status x = ActualStands \<and> ac_event x = i" using go by (simp add: ActualVoided)
    from assms(2) obtain k where k: "scheduled s c = Some k" and t: "t = put_result \<lparr>ac_event = eid, ac_contest = c, ac_status = ActualVoid, ac_entrants = oc_entrants k,
        ac_winner = None, ac_score = None, ac_supersedes = Some i, ac_reason = reason\<rparr> s"
      by (auto simp: ActualVoided apply_voided_def bind_result_Inr_iff registered_contest_Inr)
    with a show ?thesis unfolding t
      by (intro truth_ok_put [OF assms(1)]) (auto simp: follows_truth_def result_ok_def same_entrants_def)
  qed
qed

section \<open>Events\<close>

text \<open>What the firewall asks of the envelope of an event.\<close>

definition envelope_fits :: "platform \<Rightarrow> tournament_state \<Rightarrow> tournament_event \<Rightarrow> bool" where
  "envelope_fits P s e \<longleftrightarrow> tv_tournament e = tm_id s \<and> tv_sequence e = tm_version s + 1 \<and> tv_previous e = tm_last s
     \<and> (\<exists>b. canonical_hash P (tournament_event_base e) = Inr b \<and> tv_id e = event_id_of b) \<and> canonical_hash P (tournament_event_json e) = Inr (tv_hash e)
     \<and> tv_command e \<notin> set (tm_commands s) \<and> \<not> blank (tv_actor e) \<and> \<not> blank (tv_command e) \<and> is_digest (tv_fingerprint e) \<and> date_parse P (tv_at e) \<noteq> None"

lemma verify_envelope_Inr: "verify_event_envelope P s e = Inr u \<longleftrightarrow> envelope_fits P s e"
  by (auto simp: verify_event_envelope_def envelope_fits_def bind_result_Inr_iff tournament_hash_Inr split: if_splits)

text \<open>The state after the layers have changed, without its proof hash.\<close>

definition sealed_by :: "tournament_state \<Rightarrow> tournament_event \<Rightarrow> tournament_state \<Rightarrow> tournament_state" where
  "sealed_by s e t = t\<lparr>tm_phase := phase_for t, tm_version := tv_sequence e, tm_last := Some (tv_hash e), tm_commands := tm_commands s @ [tv_command e],
     tm_fingerprints := omap_set (tv_command e) (tv_fingerprint e) (tm_fingerprints s)\<rparr>"

lemma evolve_Inr: "evolve_tournament_state P s e = Inr t \<longleftrightarrow> envelope_fits P s e
    \<and> (\<exists>t0 h. apply_tournament_data P s (tv_id e) (tv_data e) = Inr t0 \<and> canonical_hash P (tournament_state_json (sealed_by s e t0)) = Inr h
        \<and> t = (sealed_by s e t0)\<lparr>tm_proof := h\<rparr>)"
  by (auto simp: evolve_tournament_state_def bind_result_Inr_iff verify_envelope_Inr core_state_Inr sealed_by_def)

lemma apply_keeps_id: "apply_tournament_data P s eid d = Inr t \<Longrightarrow> tm_id t = tm_id s"
  by (cases d) (auto simp: apply_defs bind_result_Inr_iff put_result_def Let_def split: option.splits)

lemma scheduled_cong: "tm_operational t = tm_operational s \<Longrightarrow> scheduled t = scheduled s"
  by (simp add: fun_eq_iff scheduled_def active_operational_def)

lemma truth_ok_cong:
  assumes "tm_definition t = tm_definition s" "tm_plan t = tm_plan s" "tm_operational t = tm_operational s" "tm_effective t = tm_effective s" "tm_history t = tm_history s"
  shows "truth_ok t = truth_ok s"
  by (simp add: truth_ok_def assms scheduled_cong [OF assms(3)])

lemma truth_ok_sealed [simp]: "truth_ok ((sealed_by s e t)\<lparr>tm_proof := h\<rparr>) = truth_ok t"
  by (rule truth_ok_cong) (simp_all add: sealed_by_def)

text \<open>The state that a log leads to.\<close>

definition tournament_sound :: "tournament_state \<Rightarrow> tournament_event list \<Rightarrow> bool" where
  "tournament_sound s es \<longleftrightarrow> truth_ok s \<and> tm_phase s = phase_for s \<and> tm_version s = int (length es)
     \<and> tm_last s = (if es = [] then None else Some (tv_hash (last es))) \<and> tm_commands s = map tv_command es \<and> distinct (tm_commands s)
     \<and> (\<forall>e \<in> set es. omap_get (tm_fingerprints s) (tv_command e) = Some (tv_fingerprint e) \<and> tv_tournament e = tm_id s)"

lemma evolve_sound:
  assumes "tournament_sound s es" "evolve_tournament_state P s e = Inr t"
  shows "tournament_sound t (es @ [e])"
proof -
  from assms(2) obtain t0 h where fits: "envelope_fits P s e" and step: "apply_tournament_data P s (tv_id e) (tv_data e) = Inr t0"
    and t: "t = (sealed_by s e t0)\<lparr>tm_proof := h\<rparr>" by (auto simp: evolve_Inr)
  have "truth_ok t0" using apply_sound [OF _ step] assms(1) by (simp add: tournament_sound_def)
  moreover have "tv_command e \<notin> tv_command ` set es" using assms(1) fits by (simp add: tournament_sound_def envelope_fits_def)
  then have fresh: "tv_command x \<noteq> tv_command e" if "x \<in> set es" for x using that by (metis imageI)
  moreover have "tm_phase t = phase_for t" by (simp add: t sealed_by_def phase_for_def)
  moreover have "omap_get (tm_fingerprints t) (tv_command x) = Some (tv_fingerprint x) \<and> tv_tournament x = tm_id t" if "x \<in> set (es @ [e])" for x
    using that assms(1) fits apply_keeps_id [OF step] fresh [of x] by (auto simp: t sealed_by_def tournament_sound_def envelope_fits_def)
  moreover have "tm_commands s = map tv_command es" "distinct (tm_commands s)" "tm_version s = int (length es)"
    using assms(1) unfolding tournament_sound_def by blast+
  ultimately show ?thesis using fits by (simp add: t tournament_sound_def envelope_fits_def) (simp add: sealed_by_def)
qed

text \<open>A log that replays without a finding, and the state it replays to.\<close>

definition replays_to :: "platform \<Rightarrow> string \<Rightarrow> tournament_event list \<Rightarrow> tournament_state \<Rightarrow> bool" where
  "replays_to P i es s \<longleftrightarrow> (\<exists>r. replay_tournament_events P i es = Inr r \<and> ty_valid r \<and> ty_state r = s)"

lemma replays_to_iff: "replays_to P i es s \<longleftrightarrow> (\<exists>s0. create_tournament_state P i = Inr s0 \<and> replay_from P s0 es = (s, None))"
  by (cases "create_tournament_state P i") (auto simp: replays_to_def replay_tournament_events_def split: prod.splits option.splits)

lemma replay_from_append: "replay_from P s (es @ fs) = (case replay_from P s es of (t, None) \<Rightarrow> replay_from P t fs | (t, Some x) \<Rightarrow> (t, Some x))"
  by (induction P s es rule: replay_from.induct) (auto split: sum.split)

lemma replays_to_snoc: "replays_to P i (es @ [e]) t \<longleftrightarrow> (\<exists>s. replays_to P i es s \<and> evolve_tournament_state P s e = Inr t)"
proof (cases "create_tournament_state P i")
  case (Inr s0)
  obtain s x where r: "replay_from P s0 es = (s, x)" by (cases "replay_from P s0 es")
  show ?thesis by (cases x; cases "evolve_tournament_state P s e") (auto simp: replays_to_iff Inr replay_from_append r)
qed (simp add: replays_to_iff)

lemma created_sound:
  assumes "create_tournament_state P i = Inr s"
  shows "tournament_sound s []"
proof -
  from assms obtain h where s: "s = (empty_tournament i)\<lparr>tm_proof := h\<rparr>" by (auto simp: create_tournament_state_def core_state_Inr split: if_splits)
  have "truth_ok s \<longleftrightarrow> truth_ok (empty_tournament i)" by (rule truth_ok_cong) (simp_all add: s)
  moreover have "truth_ok (empty_tournament i)" by (simp add: truth_ok_def empty_tournament_def omap_wf_def) (simp add: no_layer_def)
  ultimately show ?thesis by (simp add: tournament_sound_def s phase_for_def empty_tournament_def no_layer_def live_id_def)
qed

lemma replayed_sound: "replays_to P i es s \<Longrightarrow> tournament_sound s es"
proof (induction es arbitrary: s rule: rev_induct)
  case Nil
  then show ?case using created_sound by (auto simp: replays_to_iff)
next
  case (snoc e es)
  then show ?case using evolve_sound by (metis replays_to_snoc)
qed

lemma replayed_id: "replays_to P i es s \<Longrightarrow> tm_id s = i"
proof (induction es arbitrary: s rule: rev_induct)
  case Nil
  then show ?case by (auto simp: replays_to_iff create_tournament_state_def core_state_Inr empty_tournament_def split: if_splits)
next
  case (snoc e es)
  then obtain r where "replays_to P i es r" "evolve_tournament_state P r e = Inr s" by (metis replays_to_snoc)
  then show ?case using snoc.IH by (auto simp: evolve_Inr sealed_by_def dest!: apply_keeps_id)
qed

section \<open>Decisions\<close>

lemma hashes_jint [simp]: "hashes (jint n)" and hashes_string_or_null [simp]: "hashes (string_or_null x)"
  by (simp add: jint_def) (cases x; simp)

lemma hashes_layer [simp]: "(\<And>r. r \<in> set (ly_revisions l) \<Longrightarrow> \<forall>x \<in> set (f r). hashes (snd x)) \<Longrightarrow> hashes (layer_json f l)"
  by (auto simp: layer_json_def)

lemma hashes_contests [simp]: "hashes (operational_contests_json cs)"
  by (simp add: operational_contests_json_def operational_contest_json_def)

lemma hashes_actual_result: "result_ok r \<Longrightarrow> hashes (actual_result_json r)"
  by (auto simp: result_ok_def actual_result_json_def optional_json_def valid_score_def list_all_iff split: actual_status.splits option.splits)

lemma state_hashes:
  assumes "truth_ok s"
  shows "hashes (tournament_state_json s)"
proof -
  have history: "hashes (actual_result_json r)" if "r \<in> set (tm_history s)" for r
    using assms that by (simp add: truth_ok_def hashes_actual_result)
  moreover have "hashes (actual_result_json r)" if "(c, r) \<in> set (tm_effective s)" for c r
  proof -
    have "r \<in> snd ` set (tm_effective s)" using that by force
    then show ?thesis using effective_values [OF assms] latest_member history by metis
  qed
  ultimately show ?thesis
    by (auto simp: tournament_state_json_def dict_json_def revision_record_fields_def plan_record_fields_def operational_record_fields_def)
qed

lemma action_hashes: "(\<forall>x \<in> set (tournament_data_fields (event_data_for a)). hashes (snd x)) \<longleftrightarrow> (\<forall>x \<in> set (tournament_action_fields a). hashes (snd x))"
  by (cases a) (simp_all add: revision_fields_def result_fields_json_def void_fields_def)

lemma is_digest_hash: "\<forall>x. is_digest (sha256 P x) \<Longrightarrow> canonical_hash P v = Inr h \<Longrightarrow> is_digest h"
  by (auto simp: canonical_hash_def bind_result_Inr_iff)

text \<open>The event of a command passes the envelope, and applies when it is allowed.\<close>

lemma make_event_evolves:
  assumes "tournament_sound s es" "\<forall>x. is_digest (sha256 P x)" "canonical_hash P (idempotent_command_json c) = Inr fp"
    and "tk_id c \<notin> set (tm_commands s)" "command_meta_findings P s c = []"
  shows "\<exists>e. make_event P s c = Inr e \<and> ((\<exists>t. evolve_tournament_state P s e = Inr t) \<longleftrightarrow> allowed s (event_data_for (tk_action c)))"
proof -
  have ok: "truth_ok s" using assms(1) by (simp add: tournament_sound_def)
  let ?e = "\<lparr>tv_tournament = tm_id s, tv_id = [], tv_hash = [], tv_previous = tm_last s, tv_sequence = tm_version s + 1, tv_command = tk_id c,
       tv_fingerprint = fp, tv_actor = tk_actor c, tv_at = tk_at c, tv_data = event_data_for (tk_action c)\<rparr>"
  have command: "\<forall>x \<in> set (tournament_data_fields (event_data_for (tk_action c))). hashes (snd x)"
    unfolding action_hashes using hashed [OF assms(3)] by (auto simp: idempotent_command_json_def)
  then have "hashes (tournament_event_base ?e)" by (auto simp: tournament_event_base_def tournament_event_fields_def)
  then obtain b where b: "tournament_hash P (tournament_event_base ?e) = Inr b" using tournament_hash_ok by blast
  let ?f = "?e\<lparr>tv_id := event_id_of b\<rparr>"
  have "hashes (tournament_event_json ?f)" using command by (auto simp: tournament_event_json_def tournament_event_fields_def)
  then obtain h where h: "tournament_hash P (tournament_event_json ?f) = Inr h" using tournament_hash_ok by blast
  let ?g = "?f\<lparr>tv_hash := h\<rparr>"
  have made: "make_event P s c = Inr ?g" using b h assms(3) [folded tournament_hash_Inr] by (simp add: make_event_def Let_def)
  have same: "tournament_event_base ?g = tournament_event_base ?e" "tournament_event_json ?g = tournament_event_json ?f"
    by (simp_all add: tournament_event_base_def tournament_event_json_def tournament_event_fields_def)
  have "canonical_hash P (tournament_event_base ?g) = Inr b" "canonical_hash P (tournament_event_json ?g) = Inr h"
    unfolding same using b h by (simp_all only: tournament_hash_Inr)
  then have fits: "envelope_fits P s ?g"
    using assms(4,5) is_digest_hash [OF assms(2,3)] by (simp add: envelope_fits_def command_meta_findings_def split: if_splits)
  have "(\<exists>t. evolve_tournament_state P s ?g = Inr t) \<longleftrightarrow> (\<exists>t0. apply_tournament_data P s (event_id_of b) (event_data_for (tk_action c)) = Inr t0)"
  proof
    assume "\<exists>t0. apply_tournament_data P s (event_id_of b) (event_data_for (tk_action c)) = Inr t0"
    then obtain t0 where t0: "apply_tournament_data P s (tv_id ?g) (tv_data ?g) = Inr t0" by auto
    have "truth_ok (sealed_by s ?g t0) \<longleftrightarrow> truth_ok t0" by (rule truth_ok_cong) (simp_all add: sealed_by_def)
    then have "hashes (tournament_state_json (sealed_by s ?g t0))" using apply_sound [OF ok t0] state_hashes by blast
    then obtain z where "canonical_hash P (tournament_state_json (sealed_by s ?g t0)) = Inr z" using hash_of by blast
    with fits t0 show "\<exists>t. evolve_tournament_state P s ?g = Inr t" unfolding evolve_Inr by blast
  qed (auto simp: evolve_Inr)
  with made apply_allowed [OF ok] show ?thesis by blast
qed

section \<open>What an event cannot take away\<close>

fun phase_rank :: "tournament_phase \<Rightarrow> nat" where
  "phase_rank EmptyPhase = 0"
| "phase_rank DefinitionPhase = 1"
| "phase_rank PlanPhase = 2"
| "phase_rank OperationalPhase = 3"
| "phase_rank ActualPhase = 4"

text \<open>
  Revisions, history and commands only grow, the phase never goes back; a contest with a result keeps one, a voided result is final, and
  a result is only replaced by one that names what it supersedes.
\<close>

definition result_kept :: "actual_result \<Rightarrow> actual_result \<Rightarrow> bool" where
  "result_kept r r' \<longleftrightarrow> (ac_status r = ActualVoid \<longrightarrow> r' = r) \<and> (r' \<noteq> r \<longrightarrow> ac_supersedes r' \<noteq> None)"

definition later :: "tournament_state \<Rightarrow> tournament_state \<Rightarrow> bool" where
  "later s t \<longleftrightarrow> prefix (ly_revisions (tm_definition s)) (ly_revisions (tm_definition t)) \<and> prefix (ly_revisions (tm_plan s)) (ly_revisions (tm_plan t))
     \<and> prefix (ly_revisions (tm_operational s)) (ly_revisions (tm_operational t)) \<and> prefix (tm_history s) (tm_history t)
     \<and> prefix (tm_commands s) (tm_commands t) \<and> phase_rank (tm_phase s) \<le> phase_rank (tm_phase t)
     \<and> (\<forall>c r. omap_get (tm_effective s) c = Some r \<longrightarrow> (\<exists>r'. omap_get (tm_effective t) c = Some r' \<and> result_kept r r'))"

lemma later_refl: "later s s"
  by (simp add: later_def result_kept_def)

lemma later_trans: "later s t \<Longrightarrow> later t u \<Longrightarrow> later s u"
  unfolding later_def result_kept_def by (elim conjE, intro conjI) (fastforce intro: prefix_order.trans order.trans)+

lemma live_active: "layer_ok l \<Longrightarrow> live_id (ly_active l) \<longleftrightarrow> ly_revisions l \<noteq> []"
  by (cases "ly_revisions l" rule: rev_cases) (auto simp: layer_ok_def live_id_def)

lemma phase_for_rank:
  assumes "truth_ok s"
  shows "phase_rank (phase_for s) = (if tm_history s \<noteq> [] then 4 else if ly_revisions (tm_operational s) \<noteq> [] then 3
    else if ly_revisions (tm_plan s) \<noteq> [] then 2 else if ly_revisions (tm_definition s) \<noteq> [] then 1 else 0)"
  by (simp add: phase_for_def truth_ok_parts [OF assms] live_active)

lemma apply_later:
  assumes "truth_ok s" "apply_tournament_data P s eid d = Inr t"
  shows "prefix (ly_revisions (tm_definition s)) (ly_revisions (tm_definition t)) \<and> prefix (ly_revisions (tm_plan s)) (ly_revisions (tm_plan t))
     \<and> prefix (ly_revisions (tm_operational s)) (ly_revisions (tm_operational t)) \<and> prefix (tm_history s) (tm_history t)"
  using assms(2) by (cases d) (auto simp: apply_defs bind_result_Inr_iff put_result_def Let_def split: option.splits)

lemma apply_keeps_results:
  assumes "truth_ok s" "apply_tournament_data P s eid d = Inr t" "latest (tm_history s) c = Some r"
  shows "\<exists>r'. latest (tm_history t) c = Some r' \<and> result_kept r r'"
proof -
  have go: "allowed s d" using apply_allowed [OF assms(1), of P eid d] assms(2) by blast
  show ?thesis
    using assms(2,3) go
    by (cases d) (auto simp: apply_defs bind_result_Inr_iff put_result_def standing_result_def result_kept_def Let_def split: option.splits)
qed

lemma evolve_later:
  assumes "tournament_sound s es" "evolve_tournament_state P s e = Inr t"
  shows "later s t"
proof -
  from assms(2) obtain t0 h where step: "apply_tournament_data P s (tv_id e) (tv_data e) = Inr t0" and t: "t = (sealed_by s e t0)\<lparr>tm_proof := h\<rparr>"
    by (auto simp: evolve_Inr)
  have ok: "truth_ok s" "truth_ok t0" and phase: "tm_phase s = phase_for s" using assms(1) apply_sound [OF _ step] by (auto simp: tournament_sound_def)
  note grows = apply_later [OF ok(1) step]
  have "phase_rank (phase_for s) \<le> phase_rank (phase_for t0)"
    unfolding phase_for_rank [OF ok(1)] phase_for_rank [OF ok(2)] using grows by (auto simp: prefix_def)
  moreover have "\<exists>r'. omap_get (tm_effective t0) c = Some r' \<and> result_kept r r'" if "omap_get (tm_effective s) c = Some r" for c r
    using that ok apply_keeps_results [OF ok(1) step, of c r] by (simp add: truth_ok_def)
  ultimately show ?thesis using grows phase by (simp add: later_def t) (simp add: sealed_by_def)
qed

lemma replayed_truth_later: "replays_to P i es s \<Longrightarrow> replays_to P i (es @ fs) t \<Longrightarrow> later s t"
proof (induction fs arbitrary: t rule: rev_induct)
  case Nil
  then have "s = t" by (auto simp: replays_to_iff)
  then show ?case by (simp add: later_refl)
next
  case (snoc e fs)
  then obtain u where u: "replays_to P i (es @ fs) u" "evolve_tournament_state P u e = Inr t" by (metis append.assoc replays_to_snoc)
  from evolve_later [OF replayed_sound [OF u(1)] u(2)] snoc.IH [OF snoc.prems(1) u(1)] show ?case by (metis later_trans)
qed

lemma decide_processed:
  assumes "tournament_sound s es" "canonical_hash P (idempotent_command_json c) = Inr fp" "tk_id c \<in> set (tm_commands s)" "decide_tournament_command P s c = Inr d"
  shows "td_events d = [] \<and> td_accepted d = (\<exists>e \<in> set es. tv_command e = tk_id c \<and> fp = tv_fingerprint e) \<and> (td_findings d = []) = td_accepted d"
proof -
  from assms(1,3) obtain e where e: "e \<in> set es" "tv_command e = tk_id c" by (auto simp: tournament_sound_def)
  have print: "omap_get (tm_fingerprints s) (tk_id c) = Some (tv_fingerprint x)" if "x \<in> set es" "tv_command x = tk_id c" for x
    using assms(1) that unfolding tournament_sound_def by metis
  have same: "(\<exists>x \<in> set es. tv_command x = tk_id c \<and> fp = tv_fingerprint x) \<longleftrightarrow> fp = tv_fingerprint e"
    using e print [OF e] print by (metis option.inject)
  have "d = (if fp = tv_fingerprint e then \<lparr>td_accepted = True, td_events = [], td_findings = []\<rparr>
      else refuse_command [\<lparr>tf_code = ''TOS409'', tf_path = ''/tournamentState/commandId'', tf_message = ''Command id was already used for different content.'',
        tf_evidence = Some (JObj [(''commandId'', JStr (tk_id c))])\<rparr>])"
    using assms(2-4) print [OF e] by (simp add: decide_tournament_command_def split: if_splits)
  then show ?thesis unfolding same by (simp add: refuse_command_def)
qed

lemma decide_new:
  assumes "replays_to P i es s" "\<forall>x. is_digest (sha256 P x)" "canonical_hash P (idempotent_command_json c) = Inr fp"
    and new: "tk_id c \<notin> set (tm_commands s)" and d: "decide_tournament_command P s c = Inr d"
  shows "td_accepted d = (js_finite (tk_expected c) = Some (of_int (tm_version s)) \<and> \<not> blank (tk_id c) \<and> \<not> blank (tk_actor c) \<and> date_parse P (tk_at c) \<noteq> None
        \<and> allowed s (event_data_for (tk_action c)))
    \<and> (td_accepted d \<longrightarrow> td_findings d = [] \<and> length (td_events d) = 1 \<and> (\<exists>t. replays_to P i (es @ td_events d) t))
    \<and> (\<not> td_accepted d \<longrightarrow> td_events d = [] \<and> td_findings d \<noteq> [])"
proof (cases "command_meta_findings P s c = []")
  case True
  note go = replayed_sound [OF assms(1)] assms(2,3) new True
  from make_event_evolves [OF go] obtain e where made: "make_event P s c = Inr e"
    and exact: "(\<exists>t. evolve_tournament_state P s e = Inr t) \<longleftrightarrow> allowed s (event_data_for (tk_action c))" by blast
  have meta: "js_finite (tk_expected c) = Some (of_int (tm_version s)) \<and> \<not> blank (tk_id c) \<and> \<not> blank (tk_actor c) \<and> date_parse P (tk_at c) \<noteq> None"
    using True by (auto simp: command_meta_findings_def split: if_splits)
  show ?thesis
  proof (cases "evolve_tournament_state P s e")
    case (Inl x)
    then have "d = refuse_command [finding_from x]" "\<not> allowed s (event_data_for (tk_action c))"
      using d assms(3) new True made exact by (simp_all add: decide_tournament_command_def)
    then show ?thesis by (simp add: refuse_command_def)
  next
    case (Inr t)
    then have "d = \<lparr>td_accepted = True, td_events = [e], td_findings = []\<rparr>" "allowed s (event_data_for (tk_action c))"
      using d assms(3) new True made exact by (simp_all add: decide_tournament_command_def)
    moreover have "replays_to P i (es @ [e]) t" unfolding replays_to_snoc using assms(1) Inr by blast
    ultimately show ?thesis using meta by auto
  qed
next
  case False
  then have "d = refuse_command (command_meta_findings P s c)" using d assms(3) new by (simp add: decide_tournament_command_def)
  then show ?thesis using False by (auto simp: refuse_command_def command_meta_findings_def split: if_splits)
qed

section \<open>The log as a hash chain\<close>

definition tournament_text :: "platform \<Rightarrow> tournament_event \<Rightarrow> string" where
  "tournament_text P e = (case canonical_stringify P (tournament_event_json e) of Inr x \<Rightarrow> x | Inl err \<Rightarrow> [])"

definition event_hashes :: "tournament_event \<Rightarrow> bool" where
  "event_hashes e \<longleftrightarrow> hashes (tournament_event_json e)"

lemma event_text: "event_hashes e \<Longrightarrow> canonical_stringify P (tournament_event_json e) = Inr (tournament_text P e)"
  by (cases "normalise (tournament_event_json e)") (simp_all add: event_hashes_def hashes_def tournament_text_def canonical_stringify_def)

lemma wf_event [simp]: "wf_jsval (tournament_event_json e)"
  by (cases "tv_data e"; cases "tv_previous e")
    (simp_all add: tournament_event_json_def tournament_event_fields_def revision_fields_def result_fields_json_def void_fields_def jint_def strs_def
      operational_contests_json_def operational_contest_json_def list_all_iff)

lemma event_keys: "distinct (map fst (tournament_event_fields e @ [(''eventId'', JStr (tv_id e))]))"
  using wf_event [of e] by (simp add: tournament_event_json_def)

lemma event_text_inject:
  assumes "number_text_ok P" "event_hashes e" "event_hashes f" "tournament_text P e = tournament_text P f"
  shows "normalise (tournament_event_json e) = normalise (tournament_event_json f)"
  using stringify_inject [OF assms(1) wf_event wf_event] event_text [OF assms(2)] event_text [OF assms(3)] assms(4) by metis

lemma event_links:
  assumes "event_hashes e" "normalise (tournament_event_json e) = normalise (tournament_event_json f)"
  shows "tv_previous e = tv_previous f \<and> tv_sequence e = tv_sequence f"
proof -
  from assms(1) obtain w where e: "normalise (tournament_event_json e) = Inr w" by (cases "normalise (tournament_event_json e)") (simp_all add: event_hashes_def hashes_def)
  then have f: "normalise (tournament_event_json f) = Inr w" using assms(2) by simp
  note field_e = normalise_field [OF e [unfolded tournament_event_json_def] event_keys]
    and field_f = normalise_field [OF f [unfolded tournament_event_json_def] event_keys]
  have "normalise (jint (tv_sequence e)) = normalise (jint (tv_sequence f))"
    using field_e [of "''sequence''"] field_f [of "''sequence''"] by (auto simp: tournament_event_fields_def)
  moreover have "normalise (string_or_null (tv_previous e)) = normalise (string_or_null (tv_previous f))"
    using field_e [of "''previousEventHash''"] field_f [of "''previousEventHash''"] by (auto simp: tournament_event_fields_def)
  ultimately show ?thesis by (cases "tv_previous e"; cases "tv_previous f") (simp_all add: jint_def)
qed

interpretation tournament_chain: hash_chain "sha256 P" "tournament_text P" tv_hash tv_previous tv_sequence "\<lambda>e. number_text_ok P \<and> event_hashes e" for P
proof
  fix e f
  assume e: "number_text_ok P \<and> event_hashes e" and f: "number_text_ok P \<and> event_hashes f" and "tournament_text P e = tournament_text P f"
  then have "normalise (tournament_event_json e) = normalise (tournament_event_json f)" by (intro event_text_inject) simp_all
  with e show "tv_previous e = tv_previous f \<and> tv_sequence e = tv_sequence f" by (intro event_links) simp_all
qed

lemma replayed_linked:
  "replays_to P i es s \<Longrightarrow> chain_linked (sha256 P) (tournament_text P) tv_hash tv_previous tv_sequence es \<and> (\<forall>e \<in> set es. event_hashes e)"
proof (induction es arbitrary: s rule: rev_induct)
  case Nil
  then show ?case by (simp add: tournament_chain.linked_Nil)
next
  case (snoc e es)
  then obtain r where r: "replays_to P i es r" "evolve_tournament_state P r e = Inr s" by (metis replays_to_snoc)
  then have fits: "envelope_fits P r e" by (simp add: evolve_Inr)
  then have ok: "canonical_hash P (tournament_event_json e) = Inr (tv_hash e)" by (simp add: envelope_fits_def)
  then have "event_hashes e" by (simp add: event_hashes_def hashed)
  moreover have "tv_hash e = sha256 P (tournament_text P e)"
    using ok event_text [OF \<open>event_hashes e\<close>, of P] by (simp add: canonical_hash_def)
  moreover have "tv_sequence e = int (length es) + 1" "tv_previous e = (if es = [] then None else Some (tv_hash (last es)))"
    using fits replayed_sound [OF r(1)] by (simp_all add: envelope_fits_def tournament_sound_def)
  ultimately show ?case using snoc.IH [OF r(1)] by (simp add: tournament_chain.linked_snoc)
qed

section \<open>Properties\<close>

text \<open>
  C21. Every log that replays leads to a sound state: the revisions of each layer are numbered 1 to n, have distinct identifiers, the last
  one is active and refers to a revision of the layer above; contests of an operational revision are distinct pairings; the
  effective results are the last of their contests in the history, stand for contests of the active operational revision with the
  same entrants, and form a lineage in which every correction or void names the result it replaces; phase, version, head hash and
  processed commands follow from the log.
\<close>

theorem tournament_log_sound:
  assumes "replays_to P i es s"
  shows "tournament_sound s es \<and> tm_id s = i"
  using replayed_sound [OF assms] replayed_id [OF assms] ..

text \<open>
  C22. Truth only grows: whatever events follow a log, the revisions of every layer, the history and the processed commands are extended, the
  phase never goes back, no result disappears, a voided result is final and a result that changes names what it supersedes.
\<close>

theorem tournament_truth_grows:
  assumes "replays_to P i es s" "replays_to P i (es @ fs) t"
  shows "later s t"
  by (rule replayed_truth_later [OF assms])

text \<open>
  C23. Decisions are exact: a command on a replayed state is accepted if and only if it was processed before with the same content, or it is new, names
  the current version, has its audit data and is allowed by the layers (\<open>allowed\<close>); an accepted new command gives exactly one event
  with which the log still replays, a rejected one gives no event and a finding.
\<close>

theorem tournament_decisions_exact:
  assumes "replays_to P i es s" "\<forall>x. is_digest (sha256 P x)" "decide_tournament_command P s c = Inr d"
  shows "td_accepted d = (if tk_id c \<in> set (tm_commands s)
      then (\<exists>e \<in> set es. tv_command e = tk_id c \<and> canonical_hash P (idempotent_command_json c) = Inr (tv_fingerprint e))
      else js_finite (tk_expected c) = Some (of_int (tm_version s)) \<and> \<not> blank (tk_id c) \<and> \<not> blank (tk_actor c) \<and> date_parse P (tk_at c) \<noteq> None
        \<and> allowed s (event_data_for (tk_action c)))
    \<and> (td_accepted d \<longrightarrow> td_findings d = [] \<and> length (td_events d) = (if tk_id c \<in> set (tm_commands s) then 0 else 1) \<and> (\<exists>t. replays_to P i (es @ td_events d) t))
    \<and> (\<not> td_accepted d \<longrightarrow> td_events d = [] \<and> td_findings d \<noteq> [])"
proof -
  from assms(3) obtain fp where fp: "canonical_hash P (idempotent_command_json c) = Inr fp" by (auto simp: decide_tournament_command_def bind_result_Inr_iff)
  show ?thesis
  proof (cases "tk_id c \<in> set (tm_commands s)")
    case True
    with decide_processed [OF replayed_sound [OF assms(1)] fp True assms(3)] fp assms(1) show ?thesis by auto
  next
    case False
    with decide_new [OF assms(1,2) fp False assms(3)] show ?thesis by simp
  qed
qed

text \<open>
  C24. The head binds the truth: two logs that replay to states with the same head hash consist of the same events, up to what canonical
  JSON identifies, or two of their events are a collision of SHA-256.
\<close>

theorem tournament_head_binds:
  assumes "number_text_ok P" "replays_to P i es s" "replays_to P j fs t" "tm_last s = tm_last t"
  shows "map (\<lambda>e. normalise (tournament_event_json e)) es = map (\<lambda>e. normalise (tournament_event_json e)) fs
    \<or> (\<exists>e \<in> set es. \<exists>f \<in> set fs. tournament_text P e \<noteq> tournament_text P f \<and> sha256 P (tournament_text P e) = sha256 P (tournament_text P f))"
proof -
  note links = replayed_linked [OF assms(2)] replayed_linked [OF assms(3)]
  have heads: "tm_last s = (if es = [] then None else Some (tv_hash (last es)))" "tm_last t = (if fs = [] then None else Some (tv_hash (last fs)))"
    using replayed_sound [OF assms(2)] replayed_sound [OF assms(3)] by (simp_all add: tournament_sound_def)
  show ?thesis
  proof (cases "es = []")
    case True
    then show ?thesis using heads assms(4) by (simp split: if_splits)
  next
    case False
    then have fs: "fs \<noteq> []" and "tv_hash (last es) = tv_hash (last fs)" using heads assms(4) by (auto split: if_splits)
    from tournament_chain.head_binds [OF conjunct1 [OF links(1)] conjunct1 [OF links(2)] False this] links assms(1)
    have "map (tournament_text P) es = map (tournament_text P) fs
      \<or> (\<exists>e \<in> set es. \<exists>f \<in> set fs. tournament_text P e \<noteq> tournament_text P f \<and> sha256 P (tournament_text P e) = sha256 P (tournament_text P f))"
      by (simp add: ball_Un)
    moreover have "map (\<lambda>e. normalise (tournament_event_json e)) es = map (\<lambda>e. normalise (tournament_event_json e)) fs"
      if same: "map (tournament_text P) es = map (tournament_text P) fs"
    proof (rule nth_equalityI)
      show "length (map (\<lambda>e. normalise (tournament_event_json e)) es) = length (map (\<lambda>e. normalise (tournament_event_json e)) fs)"
        using map_eq_imp_length_eq [OF same] by simp
      fix k assume k: "k < length (map (\<lambda>e. normalise (tournament_event_json e)) es)"
      then have "k < length es" "k < length fs" using map_eq_imp_length_eq [OF same] by simp_all
      moreover from this have "tournament_text P (es ! k) = tournament_text P (fs ! k)" using same by (metis nth_map)
      ultimately show "map (\<lambda>e. normalise (tournament_event_json e)) es ! k = map (\<lambda>e. normalise (tournament_event_json e)) fs ! k"
        using event_text_inject [OF assms(1)] links by simp
    qed
    ultimately show ?thesis by blast
  qed
qed

section \<open>A concrete tournament\<close>

definition tournament_platform :: platform where
  "tournament_platform = sample_platform\<lparr>sha256 := \<lambda>s. replicate 64 (CHR ''0'')\<rparr>"

definition sample_registration :: tournament_command where
  "sample_registration = \<lparr>tk_id = ''c1'', tk_expected = Num 0, tk_actor = ''a'', tk_at = ''T0'',
     tk_action = RegisterDefinition \<lparr>rn_id = ''d1'', rn_number = Num 1, rn_hash = replicate 64 (CHR ''0'')\<rparr>\<rparr>"

lemma tournament_digests: "\<forall>x. is_digest (sha256 tournament_platform x)"
  by (simp add: tournament_platform_def is_digest_def hex_lower_def list_all_iff)

lemma tournament_numbers: "number_text_ok tournament_platform"
  using sample_number_text_ok by (simp add: number_text_ok_def tournament_platform_def)

lemma sample_tournament_created: "\<exists>s. replays_to tournament_platform ''t'' [] s \<and> tm_commands s = [] \<and> tm_version s = 0 \<and> tm_definition s = no_layer"
proof -
  have "truth_ok (empty_tournament ''t'')" by (simp add: truth_ok_def empty_tournament_def omap_wf_def) (simp add: no_layer_def)
  then obtain h where "canonical_hash tournament_platform (tournament_state_json (empty_tournament ''t'')) = Inr h" using state_hashes hash_of by blast
  then have "create_tournament_state tournament_platform ''t'' = Inr ((empty_tournament ''t'')\<lparr>tm_proof := h\<rparr>)"
    by (simp add: create_tournament_state_def core_state_Inr blank_iff is_space_def)
  then show ?thesis by (simp add: replays_to_iff empty_tournament_def)
qed

lemma sample_allowed:
  assumes "tm_commands s = []" "tm_version s = 0" "tm_definition s = no_layer"
  shows "command_meta_findings tournament_platform s sample_registration = [] \<and> tk_id sample_registration \<notin> set (tm_commands s)
    \<and> allowed s (event_data_for (tk_action sample_registration))"
proof -
  have "date_parse tournament_platform ''T0'' = Some 0" by code_simp
  with assms show ?thesis
    by (simp add: command_meta_findings_def sample_registration_def no_layer_def
      revision_allowed_def blank_iff is_space_def is_digest_def hex_lower_def list_all_iff js_integer_def rat_int_def)
qed

lemma sample_fingerprint: "\<exists>fp. canonical_hash tournament_platform (idempotent_command_json sample_registration) = Inr fp"
  by (rule hash_of) (simp add: idempotent_command_json_def sample_registration_def revision_fields_def)

lemma sample_log: "\<exists>e s t. replays_to tournament_platform ''t'' [] s \<and> replays_to tournament_platform ''t'' [e] t"
proof -
  obtain s where s: "replays_to tournament_platform ''t'' [] s" "tm_commands s = []" "tm_version s = 0" "tm_definition s = no_layer" using sample_tournament_created by blast
  obtain fp where fp: "canonical_hash tournament_platform (idempotent_command_json sample_registration) = Inr fp" using sample_fingerprint by blast
  note go = sample_allowed [OF s(2-4)]
  from make_event_evolves [OF replayed_sound [OF s(1)] tournament_digests fp conjunct1 [OF conjunct2 [OF go]] conjunct1 [OF go]] go
  obtain e t where "evolve_tournament_state tournament_platform s e = Inr t" by blast
  with s(1) have "replays_to tournament_platform ''t'' ([] @ [e]) t" unfolding replays_to_snoc by blast
  with s(1) show ?thesis by auto
qed

theorem tournament_log_sound_witness: "\<exists>e t. replays_to tournament_platform ''t'' [e] t \<and> tournament_sound t [e] \<and> tm_id t = ''t''"
proof -
  obtain e t where log: "replays_to tournament_platform ''t'' [e] t" using sample_log by blast
  with tournament_log_sound [OF log] show ?thesis by blast
qed

theorem tournament_truth_grows_witness: "\<exists>e s t. replays_to tournament_platform ''t'' [e] t \<and> replays_to tournament_platform ''t'' [] s \<and> later s t"
proof -
  obtain e s t where log: "replays_to tournament_platform ''t'' [] s" "replays_to tournament_platform ''t'' [e] t" using sample_log by blast
  then have "later s t" using tournament_truth_grows [of tournament_platform "''t''" "[]" s "[e]" t] by simp
  with log show ?thesis by blast
qed

theorem tournament_decisions_exact_witness:
  "\<exists>s d. replays_to tournament_platform ''t'' [] s \<and> decide_tournament_command tournament_platform s sample_registration = Inr d
     \<and> td_accepted d \<and> length (td_events d) = 1"
proof -
  obtain s where s: "replays_to tournament_platform ''t'' [] s" "tm_commands s = []" "tm_version s = 0" "tm_definition s = no_layer" using sample_tournament_created by blast
  obtain fp where "canonical_hash tournament_platform (idempotent_command_json sample_registration) = Inr fp" using sample_fingerprint by blast
  then obtain d where d: "decide_tournament_command tournament_platform s sample_registration = Inr d" by (simp add: decide_tournament_command_def)
  note exact = tournament_decisions_exact [OF s(1) tournament_digests d]
  have "js_finite (tk_expected sample_registration) = Some (of_int (tm_version s))" "\<not> blank (tk_id sample_registration)" "\<not> blank (tk_actor sample_registration)"
    "date_parse tournament_platform (tk_at sample_registration) \<noteq> None"
    using sample_allowed [OF s(2-4)] by (auto simp: command_meta_findings_def split: if_splits)
  with exact sample_allowed [OF s(2-4)] have "td_accepted d" by simp
  with exact s(2) d show ?thesis using s(1) by auto
qed

theorem tournament_head_binds_witness:
  "\<exists>e t. replays_to tournament_platform ''t'' [e] t
     \<and> (map (\<lambda>x. normalise (tournament_event_json x)) [e] = map (\<lambda>x. normalise (tournament_event_json x)) [e]
        \<or> (\<exists>f \<in> set [e]. tournament_text tournament_platform e \<noteq> tournament_text tournament_platform f))"
proof -
  obtain e t where log: "replays_to tournament_platform ''t'' [e] t" using sample_log by blast
  from tournament_head_binds [OF tournament_numbers log log refl] log show ?thesis by auto
qed

end
