(* ===== verification/Spec2Isabelle.thy ===== *)
theory Spec2Isabelle
  imports Authorization DeliveryWorker Adjudication EventStore Draw FormatProofs LiveProofs ProtocolChecker QualificationProofs RankedProofs StageStore SwissStageProofs TournamentProofs
begin

text \<open>
  \<^bold>\<open>TournamentOS: a verification library.\<close> The repository compiles tournament specifications into
  contests, runs the competition on an event-sourced ledger and tells the outside world about it.
  This library models the modules that carry that logic and proves what makes them correct. Paths
  are below \<^verbatim>\<open>packages/\<close>; a definition has the name of its function, with a suffix where HOL needs it.

  \<^bold>\<open>The parts and their theories.\<close>

  \<^item> \<open>Prelude\<close>: the JavaScript vocabulary: thrown errors as \<open>Inl\<close>, maps in insertion order (locale
    \<open>js_map\<close>), stable sorting with a comparator (locales \<open>comparator\<close>, \<open>strict_comparator\<close>), numbers.
  \<^item> \<open>JsonValue\<close>: tournament-schema canonical.ts and semantic-diff.ts: canonical text, hashes, diff. A
    \<open>platform\<close> holds what the language leaves open: the text of a number, SHA-256, localeCompare.
    Injectivity of the text is proved, so equal hashes mean equal values or a collision.
  \<^item> \<open>Authorization\<close>: competition-engine authorization.ts: decision, audit, separation of duties, redaction.
  \<^item> \<open>Outbox\<close>, \<open>DeliveryWorker\<close>: outbox.ts and outbox-delivery-worker.ts. The outbox is a state machine on
    messages (claim, acknowledge, retry, recovery of expired leases); the worker uses it through the locale
    \<open>lease_store\<close>, and a run accounts for every claimed message. Its telemetry sink and its seam may throw.
  \<^item> \<open>HashChain\<close>, \<open>Adjudication\<close>, \<open>EventStore\<close>: adjudication.ts and event-store.ts are append-only ledgers;
    the locale \<open>hash_chain\<close> states what their verifiers check, and that a head binds the history. The
    event store has optimistic concurrency, idempotent commands, transactions, snapshots and the
    variant that fills the outbox together with the events.
  \<^item> \<open>RandomSource\<close>, \<open>Draw\<close>: random.ts on machine words, draw.ts.
  \<^item> \<open>StaticFormats\<close>, \<open>CircleMethod\<close>, \<open>FormatProofs\<close>: static-formats.ts: round robin, double elimination,
    repechage, and the structural proof the compiler attaches.
  \<^item> \<open>SwissPairing\<close>, \<open>RankedFormats\<close>, \<open>RankedProofs\<close>: ranked-formats.ts: the exact Swiss pairing search, the
    ladder with its audit chain, qualifying heats, time trials, qualification.
  \<^item> \<open>SwissRanking\<close>: swiss-ranking.ts: the ranking of a Swiss tournament by a registered policy.
  \<^item> \<open>StageModel\<close>, \<open>StageLifecycle\<close>, \<open>StageProofs\<close>, \<open>SwissStageProofs\<close>: dynamic-stage-lifecycle.ts: an event-sourced
    stage of one of four formats that composes the two modules above: data and JSON, operations, the
    invariant of every stage with replay and idempotency, and the standings of Swiss stages
    against the ranking engine.
  \<^item> \<open>StageStore\<close>: dynamic-stage-store.ts: the verification of persisted streams, the in-memory port and the
    repository that executes commands with optimistic concurrency. The repository runs over any port (locale \<open>stage_port\<close>);
    what other callers do at its awaits is a function from port to port.
  \<^item> \<open>Standings\<close>, \<open>StandingsProofs\<close>: standings.ts: the table of a group of stages, its tie-breaking and findings.
  \<^item> \<open>DeclarativeQualification\<close>, \<open>DeclarativeProofs\<close>: declarative-qualification.ts: qualifiers by a list of
    selectors with evidence and proof, and the second implementation that verifies them.
  \<^item> \<open>Qualification\<close>, \<open>QualificationProofs\<close>: qualification.ts: all policies of a specification, from the rows of \<open>Standings\<close>
    to the seats of the structures that follow; it calls both functions of \<open>DeclarativeQualification\<close>.
  \<^item> \<open>HashFacts\<close>: when canonicalHash returns, for the proofs that hash whole states.
  \<^item> \<open>TournamentState\<close>, \<open>TournamentProofs\<close>: tournament-state.ts: the layers of truth of a tournament (definition,
    plan, operational revision, results), the firewall every event passes, decisions on commands and replay. An
    identifier that \<^verbatim>\<open>Object.prototype\<close> defines is modelled here (\<open>blocked\<close>): the code cannot record its result.
    A log is a \<open>hash_chain\<close>; \<open>replays_to\<close> holds of the states of logs that replay.
  \<^item> \<open>LiveModel\<close>, \<open>LiveOperations\<close>, \<open>LiveProofs\<close>: live-operations.ts: the live state is the projection of an
    event log; submission, corrections, replay verification, control room.
  \<^item> \<open>ProtocolChecker\<close>: protocol-model-checker.ts: the bounded model checker and its three protocol models.

  \<^bold>\<open>How state is modelled.\<close> A closure or class instance is a record; a method is a function from the
  record (and its arguments) to the new record and the result. An exception that leaves the state
  changed returns both. An asynchronous method that does not yield before it returns is one step. Where the code awaits in the
  middle of an operation and other callers can see or change the state there, the model says so: the store with an outbox commits and
  enqueues in two steps (\<open>begin_append\<close> or \<open>begin_transaction\<close>, then \<open>resume_enqueue\<close> of the events in \<open>oes_pending\<close>); a worker run
  lets the next of \<open>rs_others\<close> act at every await (\<open>await_others\<close>); the repository does so with its \<open>env\<close>. An
  interleaving of calls is then a sequence of steps; \<open>outbox_run\<close>, \<open>store_run\<close>, \<open>oes_run\<close>, \<open>live_reach\<close>,
  \<open>ladder_reach\<close>, \<open>replays_to\<close> and \<open>stage_steps\<close> are the reachable states.

  \<^bold>\<open>What the lemmas show.\<close> Invariants of every reachable state, the outcome of each operation on each
  branch (errors leave the state alone), round trips (a live log and the events of a stage replay to their state), refinement (a stage follows the machine
  of phases \<open>may_step\<close>; the repository refines it while it is left alone), fairness and exclusivity of qualification,
  equivalence with a specification (the shuffle is a bijection from draws to permutations, the model checker
  finds exactly the violations within its bound, pairing is optimal, a table holds the sums over its results, the
  two implementations of the selectors agree), termination of the compilers,
  uniformity and bounds of the random draws, safety of delivery and of court occupancy.

  \<^bold>\<open>Bounds and fuel.\<close> No model has artificial fuel. Loops that may not end (rejection sampling) are
  partial functions whose value \<open>None\<close> means not returning, with a lemma that says exactly when
  they return. The pairing search counts nodes against the limit of the request, as the code does; the model
  checker ends because the depth of its queue is bounded.

  \<^bold>\<open>Not modelled.\<close> Object identity, freezing and cloning (values have no identity), the rounding of
  double arithmetic (numbers are exact rationals with NaN and the infinities apart), code units
  above 255, keys of \<^verbatim>\<open>Object.prototype\<close> in dictionaries where a theory says so, messages of findings where
  only codes matter. The dictionaries of qualification.ts and standings.ts are functions and ordered maps: identifiers such as
  \<^verbatim>\<open>constructor\<close>, which a plain object inherits, are outside the model. The file and SQLite ports of the stage store are I/O;
  the construction of pools and the eligibility rules, the orchestrator of stages and the guard over whole specifications are
  not reached. The database stores, the schedulers and the constraint-solver adapter, the
  HTTP server, views and scripts are not modelled: they are I/O, glue around the modules above, or
  not reached yet. Time, SHA-256, localeCompare and the text of numbers are parameters.
\<close>

end
